(* ===== verification/Prelude.thy ===== *)
theory Prelude
  imports Main "HOL-Library.Multiset" "HOL-Library.Monad_Syntax" "HOL-Library.Word"
begin

text \<open>
  What the components share.  A C function that may abort or have no defined behaviour
  (failed \<open>assert\<close>, access outside an array, signed overflow) is modelled in the option
  monad: \<open>None\<close> is "the C program has no defined result".  \<open>ok m P\<close> says that the
  computation \<open>m\<close> is defined and that its result satisfies \<open>P\<close>; the collection \<open>wp\<close> holds
  its rules, so that \<open>simp add: wp\<close> computes weakest preconditions.  Arrays are lists
  indexed by (mathematical) integers; \<open>rd\<close> and \<open>wr\<close> check the bounds.
\<close>

section \<open>Defined results\<close>

named_theorems wp "weakest preconditions of partial computations"

definition ok :: "'a option \<Rightarrow> ('a \<Rightarrow> bool) \<Rightarrow> bool" where
  "ok m P = (case m of None \<Rightarrow> False | Some x \<Rightarrow> P x)"

lemma ok_Some [simp, wp]: "ok (Some x) P = P x"
  by (simp add: ok_def)

lemma ok_None [simp, wp]: "\<not> ok None P"
  by (simp add: ok_def)

lemma ok_bind [wp]: "ok (m \<bind> f) P = ok m (\<lambda>x. ok (f x) P)"
  by (cases m) auto

lemma ok_if [wp]: "ok (if b then m else n) P = ((b \<longrightarrow> ok m P) \<and> (\<not> b \<longrightarrow> ok n P))"
  by simp

lemma ok_prod [wp]: "ok (case p of (x, y) \<Rightarrow> f x y) P = ok (f (fst p) (snd p)) P"
  by (cases p) simp

lemma ok_iff: "ok m P \<longleftrightarrow> (\<exists>x. m = Some x \<and> P x)"
  by (cases m) auto

lemma ok_mono: "ok m P \<Longrightarrow> (\<And>x. m = Some x \<Longrightarrow> P x \<Longrightarrow> Q x) \<Longrightarrow> ok m Q"
  by (cases m) auto

lemma ok_conjI: "ok m P \<Longrightarrow> ok m Q \<Longrightarrow> ok m (\<lambda>x. P x \<and> Q x)"
  by (cases m) auto

lemma okD: "ok m P \<Longrightarrow> m = Some x \<Longrightarrow> P x"
  by simp

lemma okE: "ok m P \<Longrightarrow> (\<And>x. m = Some x \<Longrightarrow> P x \<Longrightarrow> R) \<Longrightarrow> R"
  by (cases m) auto

definition guard :: "bool \<Rightarrow> unit option" where
  "guard b = (if b then Some () else None)"

lemma ok_guard [wp]: "ok (guard b) P = (b \<and> P ())"
  by (simp add: guard_def)

lemma guard_simps [simp]: "guard True = Some ()" "guard False = None"
  by (simp_all add: guard_def)

section \<open>Loops\<close>

text \<open>
  C's \<open>&&\<close>, whose right operand is evaluated only when the left one holds; the \<open>while\<close>
  loop, whose value is \<open>None\<close> when the guard or the body is undefined or the loop does not
  end; the two \<open>for\<close> loops that count by one.  \<open>cwhile_rule\<close> is total correctness: the
  measure shows that the loop ends.
\<close>

definition cand :: "bool \<Rightarrow> bool option \<Rightarrow> bool option" where
  "cand b m = (if b then m else Some False)"

lemma ok_cand [wp]: "ok (cand b m) P = ((b \<longrightarrow> ok m P) \<and> (\<not> b \<longrightarrow> P False))"
  by (simp add: cand_def)

partial_function (option) cwhile :: "('s \<Rightarrow> bool option) \<Rightarrow> ('s \<Rightarrow> 's option) \<Rightarrow> 's \<Rightarrow> 's option" where
  "cwhile b c s = do { t \<leftarrow> b s; if t then do { s' \<leftarrow> c s; cwhile b c s' } else Some s }"

declare cwhile.simps [code]

lemma cwhile_rule:
  fixes m :: "'s \<Rightarrow> nat"
  assumes "I s"
    and "\<And>s. I s \<Longrightarrow> ok (b s) (\<lambda>t. (t \<longrightarrow> ok (c s) (\<lambda>s'. I s' \<and> m s' < m s)) \<and> (\<not> t \<longrightarrow> Q s))"
  shows "ok (cwhile b c s) Q"
  using \<open>I s\<close>
proof (induction s rule: measure_induct_rule [of m])
  case (less s)
  from assms(2) [OF less.prems] obtain t where t: "b s = Some t"
    and c: "t \<Longrightarrow> ok (c s) (\<lambda>s'. I s' \<and> m s' < m s)" "\<not> t \<Longrightarrow> Q s"
    by (auto elim: okE)
  show ?case
  proof (cases t)
    case True
    with c(1) obtain s' where "c s = Some s'" "I s'" "m s' < m s" by (auto elim: okE)
    with True t less.IH show ?thesis by (subst cwhile.simps) simp
  next
    case False
    with t c(2) show ?thesis by (subst cwhile.simps) simp
  qed
qed

function for_up :: "int \<Rightarrow> int \<Rightarrow> (int \<Rightarrow> 's \<Rightarrow> 's option) \<Rightarrow> 's \<Rightarrow> 's option" where
  "for_up i n f s = (if i < n then do { s' \<leftarrow> f i s; for_up (i + 1) n f s' } else Some s)"
  by pat_completeness auto
termination by (relation "measure (\<lambda>(i, n, f, s). nat (n - i))") auto

declare for_up.simps [simp del]

lemma for_up_rule:
  assumes "I i s" "i \<le> n"
    and step: "\<And>j s. i \<le> j \<Longrightarrow> j < n \<Longrightarrow> I j s \<Longrightarrow> ok (f j s) (I (j + 1))"
    and fin: "\<And>s. I n s \<Longrightarrow> Q s"
  shows "ok (for_up i n f s) Q"
  using assms(1,2) step
proof (induction "nat (n - i)" arbitrary: i s)
  case 0
  then have "i = n" by simp
  with 0 fin show ?case by (subst for_up.simps) simp
next
  case (Suc k)
  then have "i < n" by simp
  with Suc.prems have "ok (f i s) (I (i + 1))" by simp
  then obtain s' where s': "f i s = Some s'" "I (i + 1) s'" by (auto elim: okE)
  have "ok (for_up (i + 1) n f s') Q"
    by (rule Suc.hyps) (use Suc s' in auto)
  with \<open>i < n\<close> s' show ?case by (subst for_up.simps) simp
qed

lemma for_up_skip: "n \<le> i \<Longrightarrow> for_up i n f s = Some s"
  by (subst for_up.simps) simp

text \<open>\<open>for (i = hi; i >= lo; i--)\<close>.\<close>

function for_down :: "int \<Rightarrow> int \<Rightarrow> (int \<Rightarrow> 's \<Rightarrow> 's option) \<Rightarrow> 's \<Rightarrow> 's option" where
  "for_down i lo f s = (if lo \<le> i then do { s' \<leftarrow> f i s; for_down (i - 1) lo f s' } else Some s)"
  by pat_completeness auto
termination by (relation "measure (\<lambda>(i, lo, f, s). nat (i + 1 - lo))") auto

declare for_down.simps [simp del]

lemma for_down_rule:
  assumes "I i s" "lo - 1 \<le> i"
    and step: "\<And>j s. lo \<le> j \<Longrightarrow> j \<le> i \<Longrightarrow> I j s \<Longrightarrow> ok (f j s) (I (j - 1))"
    and fin: "\<And>s. I (lo - 1) s \<Longrightarrow> Q s"
  shows "ok (for_down i lo f s) Q"
  using assms(1,2) step
proof (induction "nat (i + 1 - lo)" arbitrary: i s)
  case 0
  then have "i = lo - 1" by simp
  with 0 fin show ?case by (subst for_down.simps) simp
next
  case (Suc k)
  then have "lo \<le> i" by simp
  with Suc.prems have "ok (f i s) (I (i - 1))" by simp
  then obtain s' where s': "f i s = Some s'" "I (i - 1) s'" by (auto elim: okE)
  have "ok (for_down (i - 1) lo f s') Q"
    by (rule Suc.hyps) (use Suc s' in auto)
  with \<open>lo \<le> i\<close> s' show ?case by (subst for_down.simps) simp
qed

section \<open>The C type int\<close>

definition INT_MAX :: int where "INT_MAX = 2147483647"
definition INT_MIN :: int where "INT_MIN = - 2147483648"

abbreviation in_int :: "int \<Rightarrow> bool" where
  "in_int x \<equiv> INT_MIN \<le> x \<and> x \<le> INT_MAX"

text \<open>The result of an \<open>int\<close> operation: undefined when it overflows.\<close>

definition cint :: "int \<Rightarrow> int option" where
  "cint x = (if INT_MIN \<le> x \<and> x \<le> INT_MAX then Some x else None)"

lemma ok_cint [wp]: "ok (cint x) P = (INT_MIN \<le> x \<and> x \<le> INT_MAX \<and> P x)"
  by (auto simp: cint_def)

lemma cint_in [simp]: "in_int x \<Longrightarrow> cint x = Some x"
  by (simp add: cint_def)

lemmas int_limits = INT_MAX_def INT_MIN_def

text \<open>An \<open>int\<close> that is known not to be negative, and the conversion of a size to \<open>int\<close>: undefined beyond \<open>INT_MAX\<close>.\<close>

definition nint :: "nat \<Rightarrow> nat option" where
  "nint n = (if int n \<le> INT_MAX then Some n else None)"

lemma nint_in [simp]: "int n \<le> INT_MAX \<Longrightarrow> nint n = Some n"
  by (simp add: nint_def)

lemma nint_Some: "nint n = Some m \<longleftrightarrow> int n \<le> INT_MAX \<and> m = n"
  by (auto simp: nint_def)

text \<open>Division and remainder of C truncate towards zero.\<close>

definition cdiv :: "int \<Rightarrow> int \<Rightarrow> int" where
  "cdiv a b = (if 0 \<le> a then a div b else - ((- a) div b))"

definition crem :: "int \<Rightarrow> int \<Rightarrow> int" where
  "crem a b = a - b * cdiv a b"

lemma cdiv_nonneg [simp]: "0 \<le> a \<Longrightarrow> cdiv a b = a div b"
  by (simp add: cdiv_def)

lemma crem_nonneg [simp]: "0 \<le> a \<Longrightarrow> crem a b = a mod b"
  by (simp add: crem_def minus_mult_div_eq_mod)

section \<open>Arrays\<close>

abbreviation len :: "'a list \<Rightarrow> int" where
  "len a \<equiv> int (length a)"

definition el :: "'a list \<Rightarrow> int \<Rightarrow> 'a" where
  "el a i = a ! nat i"

definition up :: "'a list \<Rightarrow> int \<Rightarrow> 'a \<Rightarrow> 'a list" where
  "up a i x = a[nat i := x]"

definition rd :: "'a list \<Rightarrow> int \<Rightarrow> 'a option" where
  "rd a i = (if 0 \<le> i \<and> i < len a then Some (el a i) else None)"

definition wr :: "'a list \<Rightarrow> int \<Rightarrow> 'a \<Rightarrow> 'a list option" where
  "wr a i x = (if 0 \<le> i \<and> i < len a then Some (up a i x) else None)"

lemma ok_rd [wp]: "ok (rd a i) P = (0 \<le> i \<and> i < len a \<and> P (el a i))"
  by (auto simp: rd_def)

lemma ok_wr [wp]: "ok (wr a i x) P = (0 \<le> i \<and> i < len a \<and> P (up a i x))"
  by (auto simp: wr_def)

lemma rd_in: "0 \<le> i \<Longrightarrow> i < len a \<Longrightarrow> rd a i = Some (el a i)"
  by (simp add: rd_def)

lemma wr_in: "0 \<le> i \<Longrightarrow> i < len a \<Longrightarrow> wr a i x = Some (up a i x)"
  by (simp add: wr_def)

lemma rd_Some: "rd a i = Some x \<longleftrightarrow> 0 \<le> i \<and> i < len a \<and> x = el a i"
  by (auto simp: rd_def)

lemma wr_Some: "wr a i x = Some b \<longleftrightarrow> 0 \<le> i \<and> i < len a \<and> b = up a i x"
  by (auto simp: wr_def)

lemma length_up [simp]: "length (up a i x) = length a"
  by (simp add: up_def)

lemma el_up: "0 \<le> i \<Longrightarrow> 0 \<le> j \<Longrightarrow> j < len a \<Longrightarrow> el (up a i x) j = (if j = i then x else el a j)"
  by (auto simp: el_def up_def nth_list_update)

lemma el_up_same [simp]: "0 \<le> i \<Longrightarrow> i < len a \<Longrightarrow> el (up a i x) i = x"
  by (simp add: el_up)

lemma el_up_other [simp]: "0 \<le> i \<Longrightarrow> 0 \<le> j \<Longrightarrow> i \<noteq> j \<Longrightarrow> el (up a i x) j = el a j"
  by (auto simp: el_def up_def)

lemma up_up [simp]: "up (up a i x) i y = up a i y"
  by (simp add: up_def)

lemma up_same [simp]: "up a i (el a i) = a"
  by (simp add: up_def el_def)

lemma up_swap: "0 \<le> i \<Longrightarrow> 0 \<le> j \<Longrightarrow> i \<noteq> j \<Longrightarrow> up (up a i x) j y = up (up a j y) i x"
  by (simp add: up_def list_update_swap)

lemma el_in_set: "0 \<le> i \<Longrightarrow> i < len a \<Longrightarrow> el a i \<in> set a"
  by (simp add: el_def)

lemma in_set_el: "x \<in> set a \<longleftrightarrow> (\<exists>i. 0 \<le> i \<and> i < len a \<and> x = el a i)"
proof
  assume "x \<in> set a"
  then obtain n where "n < length a" "x = a ! n" by (auto simp: in_set_conv_nth)
  then show "\<exists>i. 0 \<le> i \<and> i < len a \<and> x = el a i"
    by (intro exI [of _ "int n"]) (simp add: el_def)
qed (auto intro: el_in_set)

lemma el_Cons: "0 \<le> i \<Longrightarrow> el (x # a) i = (if i = 0 then x else el a (i - 1))"
proof (cases "i = 0")
  case False
  moreover assume "0 \<le> i"
  ultimately have "nat i = Suc (nat (i - 1))" by simp
  with False show ?thesis by (simp add: el_def)
qed (simp add: el_def)

lemma list_eq_el: "length a = length b \<Longrightarrow> (\<And>i. 0 \<le> i \<Longrightarrow> i < len a \<Longrightarrow> el a i = el b i) \<Longrightarrow> a = b"
proof (rule nth_equalityI)
  fix n assume eq: "\<And>i. 0 \<le> i \<Longrightarrow> i < len a \<Longrightarrow> el a i = el b i" and n: "n < length a"
  from eq [of "int n"] n show "a ! n = b ! n" by (simp add: el_def)
qed

lemma sorted_el: "sorted a \<longleftrightarrow> (\<forall>i j. 0 \<le> i \<and> i \<le> j \<and> j < len a \<longrightarrow> el a i \<le> el a j)"
proof
  assume "sorted a"
  then show "\<forall>i j. 0 \<le> i \<and> i \<le> j \<and> j < len a \<longrightarrow> el a i \<le> el a j"
    by (auto simp: el_def intro!: sorted_nth_mono)
next
  assume *: "\<forall>i j. 0 \<le> i \<and> i \<le> j \<and> j < len a \<longrightarrow> el a i \<le> el a j"
  show "sorted a"
  proof (rule sorted_iff_nth_mono [THEN iffD2], intro allI impI)
    fix i j assume "i \<le> j" "j < length a"
    with * [rule_format, of "int i" "int j"] show "a ! i \<le> a ! j" by (simp add: el_def)
  qed
qed

text \<open>Exchanging two elements, and the macro \<open>Swap\<close> that does it through a temporary.\<close>

definition sw :: "'a list \<Rightarrow> int \<Rightarrow> int \<Rightarrow> 'a list" where
  "sw a i j = up (up a i (el a j)) j (el a i)"

lemma sw_same [simp]: "sw a i i = a"
  by (simp add: sw_def)

lemma length_sw [simp]: "length (sw a i j) = length a"
  by (simp add: sw_def)

lemma el_sw: "0 \<le> i \<Longrightarrow> i < len a \<Longrightarrow> 0 \<le> j \<Longrightarrow> j < len a \<Longrightarrow> 0 \<le> k \<Longrightarrow>
    el (sw a i j) k = (if k = i then el a j else if k = j then el a i else el a k)"
  by (cases "k = j") (auto simp: sw_def)

lemma mset_sw [simp]: "0 \<le> i \<Longrightarrow> i < len a \<Longrightarrow> 0 \<le> j \<Longrightarrow> j < len a \<Longrightarrow> mset (sw a i j) = mset a"
  using mset_swap [of "nat i" a "nat j"]
  by (cases "i = j") (auto simp: sw_def up_def el_def nat_less_iff list_update_swap nth_list_update)

section \<open>Words\<close>

lemma sint_word_of_nat:
  assumes "n < 2 ^ 31"
  shows "sint (word_of_nat n :: 32 word) = int n"
proof -
  have "signed_take_bit (LENGTH(32) - Suc 0) (int n) = int n"
    by (rule signed_take_bit_int_eq_self) (use assms in simp_all)
  then show ?thesis by (simp only: signed_of_nat of_int_eq_id id_apply)
qed

end
