(* ===== verification/Sort_Base.thy ===== *)
theory Sort_Base
  imports Prelude
begin

text \<open>
  What the sorting routines of \<open>Sort/\<close> share: the macro \<open>Swap\<close>, permutations of an array
  segment, sorted segments, and the contract of a sorting routine.  Array elements are C
  \<open>int\<close>s, read as mathematical integers; the routines that only compare and move them need
  no bound, those that compute with them (counting, radix, bucket) check each operation.
\<close>

section \<open>The macro Swap\<close>

text \<open>\<open>do { int temp = l; l = r; r = temp; } while (0)\<close> on two array elements.\<close>

definition Swap :: "int list \<Rightarrow> int \<Rightarrow> int \<Rightarrow> int list option" where
  "Swap ptr l r = do {
     temp \<leftarrow> rd ptr l;
     x \<leftarrow> rd ptr r;
     ptr \<leftarrow> wr ptr l x;
     wr ptr r temp }"

lemma ok_Swap [wp]:
  "ok (Swap a i j) P = (0 \<le> i \<and> i < len a \<and> 0 \<le> j \<and> j < len a \<and> P (sw a i j))"
  by (auto simp: Swap_def wp sw_def)

section \<open>Permuting one segment of an array\<close>

text \<open>\<open>b\<close> differs from \<open>a\<close> by a permutation of the positions \<open>l..r\<close>.\<close>

definition seg_perm :: "int \<Rightarrow> int \<Rightarrow> 'a list \<Rightarrow> 'a list \<Rightarrow> bool" where
  "seg_perm l r a b \<longleftrightarrow> length b = length a \<and> mset b = mset a \<and>
     (\<forall>i. 0 \<le> i \<and> i < len a \<and> (i < l \<or> r < i) \<longrightarrow> el b i = el a i)"

lemma seg_perm_refl [simp, intro]: "seg_perm l r a a"
  by (simp add: seg_perm_def)

lemma seg_perm_trans [trans]: "seg_perm l r a b \<Longrightarrow> seg_perm l r b c \<Longrightarrow> seg_perm l r a c"
  by (auto simp: seg_perm_def)

lemma seg_perm_widen: "seg_perm l r a b \<Longrightarrow> l' \<le> l \<Longrightarrow> r \<le> r' \<Longrightarrow> seg_perm l' r' a b"
  by (auto simp: seg_perm_def)

lemma seg_perm_length: "seg_perm l r a b \<Longrightarrow> length b = length a"
  by (simp add: seg_perm_def)

lemma seg_perm_mset: "seg_perm l r a b \<Longrightarrow> mset b = mset a"
  by (simp add: seg_perm_def)

lemma seg_perm_outside:
  "seg_perm l r a b \<Longrightarrow> 0 \<le> i \<Longrightarrow> i < len a \<Longrightarrow> i < l \<or> r < i \<Longrightarrow> el b i = el a i"
  unfolding seg_perm_def by blast

lemma seg_perm_empty: "seg_perm l r a b \<Longrightarrow> r < l \<Longrightarrow> b = a"
  by (rule list_eq_el) (auto simp: seg_perm_def)

lemma seg_perm_sw:
  "0 \<le> l \<Longrightarrow> r < len a \<Longrightarrow> l \<le> i \<Longrightarrow> i \<le> r \<Longrightarrow> l \<le> j \<Longrightarrow> j \<le> r \<Longrightarrow> seg_perm l r a (sw a i j)"
  by (auto simp: seg_perm_def el_sw)

lemma seg_perm_sw_trans:
  assumes "seg_perm l r a b" "0 \<le> l" "r < len a" "l \<le> i" "i \<le> r" "l \<le> j" "j \<le> r"
  shows "seg_perm l r a (sw b i j)"
  using assms(1) seg_perm_sw [of l r b i j] assms(2-) seg_perm_length [OF assms(1)]
  by (simp add: seg_perm_trans)

definition segm :: "int \<Rightarrow> int \<Rightarrow> 'a list \<Rightarrow> 'a list" where
  "segm l r a = take (nat (r + 1 - l)) (drop (nat l) a)"

lemma segm_split:
  "0 \<le> l \<Longrightarrow> l \<le> r + 1 \<Longrightarrow> a = take (nat l) a @ segm l r a @ drop (nat (r + 1)) a"
proof -
  assume l: "0 \<le> l" "l \<le> r + 1"
  then have "nat (r + 1) = nat (r + 1 - l) + nat l" by simp
  then have "segm l r a @ drop (nat (r + 1)) a = drop (nat l) a"
    by (metis append_take_drop_id drop_drop segm_def)
  then show ?thesis by simp
qed

lemma seg_perm_segm:
  assumes p: "seg_perm l r a b" and l: "0 \<le> l" "l \<le> r + 1" and r: "r < len a"
  shows "mset (segm l r b) = mset (segm l r a)"
proof -
  have eq: "b ! i = a ! i" if "i < length a" "i < nat l \<or> nat (r + 1) \<le> i" for i
  proof -
    have "int i < l \<or> r < int i" using that l by linarith
    with seg_perm_outside [OF p, of "int i"] that show ?thesis by (simp add: el_def)
  qed
  have t: "take (nat l) b = take (nat l) a"
    using l r by (intro nth_equalityI) (auto simp: eq seg_perm_length [OF p])
  have d: "drop (nat (r + 1)) b = drop (nat (r + 1)) a"
    by (intro nth_equalityI) (auto simp: eq seg_perm_length [OF p])
  have "mset (take (nat l) b) + mset (segm l r b) + mset (drop (nat (r + 1)) b) = mset b"
    by (metis segm_split l mset_append add.assoc)
  moreover have "mset (take (nat l) a) + mset (segm l r a) + mset (drop (nat (r + 1)) a) = mset a"
    by (metis segm_split l mset_append add.assoc)
  ultimately show ?thesis
    using seg_perm_mset [OF p] by (metis t d add_left_cancel add_right_cancel)
qed

lemma el_segm: "0 \<le> l \<Longrightarrow> l \<le> i \<Longrightarrow> i \<le> r \<Longrightarrow> r < len a \<Longrightarrow> segm l r a ! nat (i - l) = el a i"
  by (simp add: segm_def el_def nat_less_iff flip: nat_add_distrib)

lemma length_segm: "0 \<le> l \<Longrightarrow> l \<le> r + 1 \<Longrightarrow> r < len a \<Longrightarrow> length (segm l r a) = nat (r + 1 - l)"
  by (simp add: segm_def)

lemma set_segm:
  assumes "0 \<le> l" "l \<le> r + 1" "r < len a"
  shows "set (segm l r a) = {el a i |i. l \<le> i \<and> i \<le> r}"
proof (rule set_eqI)
  fix x
  show "x \<in> set (segm l r a) \<longleftrightarrow> x \<in> {el a i |i. l \<le> i \<and> i \<le> r}"
  proof
    assume "x \<in> set (segm l r a)"
    then obtain n where n: "n < nat (r + 1 - l)" "x = segm l r a ! n"
      using assms by (auto simp: in_set_conv_nth length_segm)
    then have "x = el a (l + int n)"
      using el_segm [of l "l + int n" r a] assms by simp
    with n show "x \<in> {el a i |i. l \<le> i \<and> i \<le> r}" by force
  next
    assume "x \<in> {el a i |i. l \<le> i \<and> i \<le> r}"
    then obtain i where i: "x = el a i" "l \<le> i" "i \<le> r" by blast
    then show "x \<in> set (segm l r a)"
      using assms el_segm [of l i r a]
      by (metis in_set_conv_nth length_segm nat_less_eq_zless diff_ge_0_iff_ge zle_add1_eq_le
          diff_strict_right_mono)
  qed
qed

lemma seg_perm_all:
  assumes p: "seg_perm l r a b" and l: "0 \<le> l" and r: "r < len a"
    and all: "\<And>j. l \<le> j \<Longrightarrow> j \<le> r \<Longrightarrow> P (el a j)" and i: "l \<le> i" "i \<le> r"
  shows "P (el b i)"
proof -
  have "set (segm l r b) = set (segm l r a)"
    using seg_perm_segm [OF p l _ r] i by (metis set_mset_mset add_increasing2 order_trans zero_le_one)
  moreover have "el b i \<in> set (segm l r b)"
    using l r i by (auto simp: set_segm seg_perm_length [OF p])
  ultimately show ?thesis
    using l r i all by (auto simp: set_segm)
qed

lemma segm_empty [simp]: "r < l \<Longrightarrow> segm l r a = []"
  by (simp add: segm_def)

lemma segm_Cons:
  assumes "0 \<le> l" "l \<le> r" "r < len a"
  shows "segm l r a = el a l # segm (l + 1) r a"
proof -
  have "nat (r + 1 - l) = Suc (nat (r + 1 - (l + 1)))" "nat (l + 1) = Suc (nat l)" "nat l < length a"
    using assms by simp_all
  then show ?thesis by (simp add: segm_def el_def Cons_nth_drop_Suc [symmetric])
qed

lemma segm_snoc:
  assumes "0 \<le> l" "l \<le> r" "r < len a"
  shows "segm l r a = segm l (r - 1) a @ [el a r]"
proof -
  have "nat (r + 1 - l) = Suc (nat (r - 1 + 1 - l))" "nat (r - l) < length (drop (nat l) a)"
    "nat l + nat (r - l) = nat r"
    using assms by auto
  then show ?thesis by (simp add: segm_def el_def take_Suc_conv_app_nth)
qed

lemma segm_cong:
  assumes "length b = length a" "0 \<le> l" "r < len a" "\<And>i. l \<le> i \<Longrightarrow> i \<le> r \<Longrightarrow> el b i = el a i"
  shows "segm l r b = segm l r a"
proof (cases "l \<le> r + 1")
  case True
  show ?thesis
  proof (rule nth_equalityI)
    fix n assume "n < length (segm l r b)"
    then have "int n < r + 1 - l" using assms True by (simp add: length_segm nat_less_iff)
    then have n: "l \<le> l + int n" "l + int n \<le> r" by simp_all
    then show "segm l r b ! n = segm l r a ! n"
      using el_segm [of l "l + int n" r a] el_segm [of l "l + int n" r b] assms by simp
  qed (use assms True in \<open>simp add: length_segm\<close>)
qed simp

lemma segm_append:
  assumes "0 \<le> l" "l \<le> k + 1" "k \<le> r" "r < len a"
  shows "segm l k a @ segm (k + 1) r a = segm l r a"
proof -
  have "nat (r + 1 - l) = nat (k + 1 - l) + nat (r + 1 - (k + 1))" "nat (k + 1) = nat l + nat (k + 1 - l)"
    using assms by simp_all
  then show ?thesis by (simp only: segm_def take_add drop_drop add.commute [of _ "nat l"])
qed

lemma segm_whole: "segm 0 (len a - 1) a = a"
  by (simp add: segm_def)

lemma seg_permI:
  assumes "length b = length a" "0 \<le> l" "l \<le> r + 1" "r < len a"
    and "mset (segm l r b) = mset (segm l r a)"
    and out: "\<And>i. 0 \<le> i \<Longrightarrow> i < len a \<Longrightarrow> i < l \<or> r < i \<Longrightarrow> el b i = el a i"
  shows "seg_perm l r a b"
proof -
  have "segm 0 (l - 1) b = segm 0 (l - 1) a" "segm (r + 1) (len a - 1) b = segm (r + 1) (len a - 1) a"
    by (rule segm_cong; use assms in auto)+
  moreover have "x = segm 0 (l - 1) x @ segm l r x @ segm (r + 1) (len x - 1) x"
    if "length x = length a" for x :: "'a list"
    using segm_append [of 0 "l - 1" r x] segm_append [of 0 r "len x - 1" x] assms that
    using segm_whole [of x] by (simp flip: append_assoc)
  ultimately have "mset b = mset a"
    using assms(1,5) by (metis mset_append)
  with assms show ?thesis by (simp add: seg_perm_def)
qed

section \<open>Copying\<close>

text \<open>\<open>memcpy(dst + i, src + j, n * sizeof(int))\<close>, on different arrays.\<close>

definition memcpy :: "'a list \<Rightarrow> int \<Rightarrow> 'a list \<Rightarrow> int \<Rightarrow> int \<Rightarrow> 'a list option" where
  "memcpy dst i src j n = for_up 0 n (\<lambda>k dst. do { x \<leftarrow> rd src (j + k); wr dst (i + k) x }) dst"

lemma memcpy_ok:
  assumes "0 \<le> i" "0 \<le> j" "0 \<le> n" "i + n \<le> len dst" "j + n \<le> len src"
  shows "ok (memcpy dst i src j n) (\<lambda>b. length b = length dst \<and>
    (\<forall>k. 0 \<le> k \<and> k < len dst \<longrightarrow> el b k = (if i \<le> k \<and> k < i + n then el src (j + (k - i)) else el dst k)))"
  unfolding memcpy_def
proof (rule for_up_rule [where I = "\<lambda>m b. length b = length dst \<and>
    (\<forall>k. 0 \<le> k \<and> k < len dst \<longrightarrow> el b k = (if i \<le> k \<and> k < i + m then el src (j + (k - i)) else el dst k))"])
  fix m b
  assume m: "0 \<le> m" "m < n" and I: "length b = length dst \<and>
    (\<forall>k. 0 \<le> k \<and> k < len dst \<longrightarrow> el b k = (if i \<le> k \<and> k < i + m then el src (j + (k - i)) else el dst k))"
  have "el (up b (i + m) (el src (j + m))) k = (if i \<le> k \<and> k < i + (m + 1) then el src (j + (k - i)) else el dst k)"
    if "0 \<le> k" "k < len dst" for k
    using I m that assms by (cases "k = i + m") (auto simp: el_up)
  then show "ok (do { x \<leftarrow> rd src (j + m); wr b (i + m) x }) (\<lambda>b. length b = length dst \<and>
    (\<forall>k. 0 \<le> k \<and> k < len dst \<longrightarrow> el b k = (if i \<le> k \<and> k < i + (m + 1) then el src (j + (k - i)) else el dst k)))"
    using I m assms by (simp add: wp)
qed (use assms in auto)

lemma memcpy_whole: "length dst = length src \<Longrightarrow> memcpy dst 0 src 0 (len src) = Some src"
  using memcpy_ok [of 0 0 "len src" dst src] by (auto simp: ok_iff intro!: list_eq_el)

section \<open>Sorted segments\<close>

definition sorted_seg :: "int \<Rightarrow> int \<Rightarrow> int list \<Rightarrow> bool" where
  "sorted_seg l r a \<longleftrightarrow> (\<forall>i j. l \<le> i \<and> i \<le> j \<and> j \<le> r \<longrightarrow> el a i \<le> el a j)"

lemma sorted_segI: "(\<And>i j. l \<le> i \<Longrightarrow> i \<le> j \<Longrightarrow> j \<le> r \<Longrightarrow> el a i \<le> el a j) \<Longrightarrow> sorted_seg l r a"
  by (simp add: sorted_seg_def)

lemma sorted_segD: "sorted_seg l r a \<Longrightarrow> l \<le> i \<Longrightarrow> i \<le> j \<Longrightarrow> j \<le> r \<Longrightarrow> el a i \<le> el a j"
  by (simp add: sorted_seg_def)

lemma sorted_seg_trivial: "r \<le> l \<Longrightarrow> sorted_seg l r a"
proof (rule sorted_segI)
  fix i j assume "r \<le> l" "l \<le> i" "i \<le> j" "j \<le> r"
  then have "i = j" by simp
  then show "el a i \<le> el a j" by simp
qed

lemma sorted_seg_narrow: "sorted_seg l r a \<Longrightarrow> l \<le> l' \<Longrightarrow> r' \<le> r \<Longrightarrow> sorted_seg l' r' a"
  by (auto simp: sorted_seg_def)

lemma sorted_seg_whole: "sorted_seg 0 (len a - 1) a \<longleftrightarrow> sorted a"
  unfolding sorted_el sorted_seg_def by auto

lemma sorted_seg_cong:
  "sorted_seg l r a \<Longrightarrow> (\<And>i. l \<le> i \<Longrightarrow> i \<le> r \<Longrightarrow> el b i = el a i) \<Longrightarrow> sorted_seg l r b"
  by (simp add: sorted_seg_def)

lemma sorted_seg_stepI:
  assumes "\<And>i. l \<le> i \<Longrightarrow> i < r \<Longrightarrow> el a i \<le> el a (i + 1)"
  shows "sorted_seg l r a"
proof (rule sorted_segI)
  fix i j assume "l \<le> i" "i \<le> j" "j \<le> r"
  from \<open>i \<le> j\<close> this show "el a i \<le> el a j"
  proof (induction j rule: int_ge_induct)
    case (step j)
    then have "el a i \<le> el a j" by simp
    also have "\<dots> \<le> el a (j + 1)" using step assms by simp
    finally show ?case .
  qed simp
qed

text \<open>Two adjacent sorted segments whose elements are in order form one.\<close>

lemma sorted_seg_join:
  assumes "sorted_seg l k a" "sorted_seg (k + 1) r a"
    and "\<And>i j. l \<le> i \<Longrightarrow> i \<le> k \<Longrightarrow> k < j \<Longrightarrow> j \<le> r \<Longrightarrow> el a i \<le> el a j"
  shows "sorted_seg l r a"
proof (rule sorted_segI)
  fix i j assume ij: "l \<le> i" "i \<le> j" "j \<le> r"
  consider "j \<le> k" | "k < i" | "i \<le> k" "k < j" by linarith
  then show "el a i \<le> el a j"
    by cases (use ij assms in \<open>auto simp: sorted_seg_def\<close>)
qed

text \<open>Segments of at most two elements are handled directly.\<close>

definition sort_small :: "int list \<Rightarrow> int \<Rightarrow> int \<Rightarrow> int list option" where
  "sort_small ptr left right =
     (if right - left = 1 then do {
        x \<leftarrow> rd ptr left;
        y \<leftarrow> rd ptr right;
        if x > y then Swap ptr left right else Some ptr }
      else Some ptr)"

lemma sort_small_ok:
  assumes "r - l \<le> 1" "0 \<le> l" "r < len a"
  shows "ok (sort_small a l r) (\<lambda>b. seg_perm l r a b \<and> sorted_seg l r b)"
proof (cases "r - l = 1")
  case True
  have "sorted_seg l r (sw a l r)" if "el a r < el a l"
    by (rule sorted_seg_stepI) (use that True assms in \<open>auto simp: el_sw\<close>)
  moreover have "sorted_seg l r a" if le: "\<not> el a r < el a l"
  proof (rule sorted_seg_stepI)
    fix i assume "l \<le> i" "i < r"
    then have "i = l" "i + 1 = r" using True by simp_all
    with le show "el a i \<le> el a (i + 1)" by simp
  qed
  ultimately show ?thesis using True assms by (auto simp: sort_small_def wp intro: seg_perm_sw)
qed (use assms in \<open>auto simp: sort_small_def intro: sorted_seg_trivial\<close>)

section \<open>The contract of a sorting routine\<close>

text \<open>
  \<open>srt a n\<close> is the routine called on the array \<open>a\<close> with the length argument \<open>n\<close>; \<open>pre\<close> is
  the set of arrays it is meant for.
\<close>

definition sorts_to :: "int list \<Rightarrow> int list option \<Rightarrow> bool" where
  "sorts_to a m = ok m (\<lambda>b. sorted b \<and> mset b = mset a)"

lemma sorts_to_eq: "sorts_to a m \<Longrightarrow> m = Some (sort a)"
  by (auto simp: sorts_to_def ok_iff dest: properties_for_sort [symmetric, rotated] sym)

lemma sorts_toI: "ok m (\<lambda>b. seg_perm 0 (len a - 1) a b \<and> sorted_seg 0 (len a - 1) b) \<Longrightarrow> sorts_to a m"
  unfolding sorts_to_def
  by (erule ok_mono) (metis seg_perm_length seg_perm_mset sorted_seg_whole)

locale sorter =
  fixes srt :: "int list \<Rightarrow> int \<Rightarrow> int list option"
    and pre :: "int list \<Rightarrow> bool"
  assumes sorts: "pre a \<Longrightarrow> sorts_to a (srt a (len a))"
begin

lemma is_sort: "pre a \<Longrightarrow> srt a (len a) = Some (sort a)"
  by (rule sorts_to_eq) (rule sorts)

lemma preserves_length: "pre a \<Longrightarrow> srt a (len a) = Some b \<Longrightarrow> length b = length a"
  by (auto simp: is_sort)

lemma idempotent: "pre a \<Longrightarrow> pre (sort a) \<Longrightarrow> srt a (len a) = Some b \<Longrightarrow> srt b (len b) = Some b"
  by (metis is_sort option.inject sorted_sort sorted_sort_id)

text \<open>Any two routines that meet the contract return the same array.\<close>

lemma agrees: "pre a \<Longrightarrow> sorts_to a m \<Longrightarrow> srt a (len a) = m"
  using is_sort sorts_to_eq by metis

end

end
