(* ===== verification/Simple_Sorts.thy ===== *)
theory Simple_Sorts
  imports Sort_Base
begin

unbundle bit_operations_syntax

text \<open>
  The quadratic sorts and the two Shell sorts: \<open>Sort/bubble_sort.c\<close>, \<open>Sort/select_sort.c\<close>
  and \<open>Sort/insert_sort.c\<close>.  Each is shown to be defined (no access outside the array) and
  to return the sorted array.  The bubble and selection sorts exchange elements by three
  \<open>XOR\<close>s, which is an exchange only at two different positions.
\<close>

section \<open>Exchanging by XOR\<close>

text \<open>\<open>ptr[i] ^= ptr[j]; ptr[j] ^= ptr[i]; ptr[i] ^= ptr[j];\<close>\<close>

definition xor_assign :: "int list \<Rightarrow> int \<Rightarrow> int \<Rightarrow> int list option" where
  "xor_assign a i j = do { x \<leftarrow> rd a i; y \<leftarrow> rd a j; wr a i (x XOR y) }"

definition xor_swap :: "int list \<Rightarrow> int \<Rightarrow> int \<Rightarrow> int list option" where
  "xor_swap a i j = do {
     a \<leftarrow> xor_assign a i j;
     a \<leftarrow> xor_assign a j i;
     xor_assign a i j }"

lemma xor_cancel: "(x XOR y) XOR x = y" "x XOR (y XOR x) = y" for x y :: int
  by (simp_all add: bit_eq_iff bit_xor_iff) blast+

lemma ok_xor_swap:
  assumes "i \<noteq> j"
  shows "ok (xor_swap a i j) P = (0 \<le> i \<and> i < len a \<and> 0 \<le> j \<and> j < len a \<and> P (sw a i j))"
  using assms by (auto simp: xor_swap_def xor_assign_def wp sw_def xor_cancel up_swap xor.assoc)

text \<open>At one position the exchange sets the element to 0 instead.\<close>

lemma xor_swap_same: "0 \<le> i \<Longrightarrow> i < len a \<Longrightarrow> xor_swap a i i = Some (up a i 0)"
  by (simp add: xor_swap_def xor_assign_def rd_in wr_in)

section \<open>Bubble sort\<close>

definition bubble_sort :: "int list \<Rightarrow> int \<Rightarrow> int list option" where
  "bubble_sort ptr n =
     for_up 0 (n - 1) (\<lambda>i. for_up 0 (n - i - 1) (\<lambda>j ptr. do {
       x \<leftarrow> rd ptr j;
       y \<leftarrow> rd ptr (j + 1);
       if x > y then xor_swap ptr j (j + 1) else Some ptr })) ptr"

text \<open>After \<open>i\<close> rounds the last \<open>i\<close> elements are in place.\<close>

definition tail_done :: "int \<Rightarrow> int list \<Rightarrow> bool" where
  "tail_done k a \<longleftrightarrow> (\<forall>p q. 0 \<le> p \<and> p \<le> q \<and> k \<le> q \<and> q < len a \<longrightarrow> el a p \<le> el a q)"

lemma tail_done_sw:
  assumes t: "tail_done k a" and ij: "0 \<le> i" "i < k" "0 \<le> j" "j < k" "k \<le> len a"
  shows "tail_done k (sw a i j)"
  unfolding tail_done_def
proof (intro allI impI)
  fix p q assume pq: "0 \<le> p \<and> p \<le> q \<and> k \<le> q \<and> q < len (sw a i j)"
  then have "el (sw a i j) q = el a q" using ij by (simp add: el_sw)
  moreover have "el a p \<le> el a q" "el a i \<le> el a q" "el a j \<le> el a q"
    using t pq ij by (simp_all add: tail_done_def)
  ultimately show "el (sw a i j) p \<le> el (sw a i j) q"
    using pq ij by (simp add: el_sw)
qed

lemma bubble_round:
  assumes "seg_perm 0 (len c - 1) c a" "0 \<le> i" "i < len a - 1" "tail_done (len a - i) a"
  shows "ok (for_up 0 (len a - i - 1) (\<lambda>j ptr. do {
       x \<leftarrow> rd ptr j; y \<leftarrow> rd ptr (j + 1);
       if x > y then xor_swap ptr j (j + 1) else Some ptr }) a)
     (\<lambda>b. seg_perm 0 (len c - 1) c b \<and> tail_done (len b - (i + 1)) b)"
proof (rule for_up_rule [where I = "\<lambda>j b. seg_perm 0 (len c - 1) c b \<and> tail_done (len b - i) b \<and>
    (\<forall>p. 0 \<le> p \<and> p \<le> j \<longrightarrow> el b p \<le> el b j)"])
  fix j b
  assume j: "0 \<le> j" "j < len a - i - 1"
    and I: "seg_perm 0 (len c - 1) c b \<and> tail_done (len b - i) b \<and> (\<forall>p. 0 \<le> p \<and> p \<le> j \<longrightarrow> el b p \<le> el b j)"
  then have P: "seg_perm 0 (len c - 1) c b" and T: "tail_done (len b - i) b"
    and M: "\<And>p. 0 \<le> p \<Longrightarrow> p \<le> j \<Longrightarrow> el b p \<le> el b j" by blast+
  have l: "len b = len c" "len a = len c" using P assms(1) by (auto dest: seg_perm_length)
  have rng: "j + 1 < len b - i" "j + 1 < len b" using j l \<open>0 \<le> i\<close> by linarith+
  have "seg_perm 0 (len c - 1) c (sw b j (j + 1))"
    by (rule seg_perm_sw_trans [OF P]) (use j rng l in linarith)+
  moreover have "tail_done (len b - i) (sw b j (j + 1))"
    by (rule tail_done_sw [OF T]) (use j rng l \<open>0 \<le> i\<close> in linarith)+
  moreover have "el (sw b j (j + 1)) p \<le> el (sw b j (j + 1)) (j + 1)"
    if "el b (j + 1) < el b j" "0 \<le> p" "p \<le> j + 1" for p
    using j rng that M [of p] by (simp add: el_sw)
  moreover have "el b p \<le> el b (j + 1)" if "el b j \<le> el b (j + 1)" "0 \<le> p" "p \<le> j + 1" for p
    using M [of p] that by (cases "p = j + 1") simp_all
  ultimately show "ok (do { x \<leftarrow> rd b j; y \<leftarrow> rd b (j + 1); if x > y then xor_swap b j (j + 1) else Some b })
    (\<lambda>b. seg_perm 0 (len c - 1) c b \<and> tail_done (len b - i) b \<and> (\<forall>p. 0 \<le> p \<and> p \<le> j + 1 \<longrightarrow> el b p \<le> el b (j + 1)))"
    using P T j rng by (simp add: wp ok_xor_swap)
next
  fix b
  assume b: "seg_perm 0 (len c - 1) c b \<and> tail_done (len b - i) b \<and>
    (\<forall>p. 0 \<le> p \<and> p \<le> len a - i - 1 \<longrightarrow> el b p \<le> el b (len a - i - 1))"
  then have l: "len b = len a" using assms(1) by (metis seg_perm_length)
  have "el b p \<le> el b q" if "0 \<le> p" "p \<le> q" "len b - (i + 1) \<le> q" "q < len b" for p q
  proof (cases "q = len a - i - 1")
    case False
    then have "len b - i \<le> q" using that l by linarith
    with b that show ?thesis by (simp add: tail_done_def)
  qed (use b that in simp)
  with b show "seg_perm 0 (len c - 1) c b \<and> tail_done (len b - (i + 1)) b"
    by (simp add: tail_done_def)
qed (use assms in auto)

lemma bubble_sorts: "sorts_to a (bubble_sort a (len a))"
proof (rule sorts_toI, cases "a = []")
  case True
  then show "ok (bubble_sort a (len a)) (\<lambda>b. seg_perm 0 (len a - 1) a b \<and> sorted_seg 0 (len a - 1) b)"
    by (simp add: bubble_sort_def for_up_skip sorted_seg_trivial)
next
  case False
  then have n: "0 \<le> len a - 1" by (cases a) auto
  show "ok (bubble_sort a (len a)) (\<lambda>b. seg_perm 0 (len a - 1) a b \<and> sorted_seg 0 (len a - 1) b)"
    unfolding bubble_sort_def
  proof (rule for_up_rule [where I = "\<lambda>i b. seg_perm 0 (len a - 1) a b \<and> tail_done (len b - i) b"])
    fix i b
    assume "0 \<le> i" "i < len a - 1" and b: "seg_perm 0 (len a - 1) a b \<and> tail_done (len b - i) b"
    moreover from b have "length b = length a" by (auto dest: seg_perm_length)
    ultimately show "ok (for_up 0 (len a - i - 1) (\<lambda>j ptr. do { x \<leftarrow> rd ptr j; y \<leftarrow> rd ptr (j + 1);
        if x > y then xor_swap ptr j (j + 1) else Some ptr }) b)
        (\<lambda>b. seg_perm 0 (len a - 1) a b \<and> tail_done (len b - (i + 1)) b)"
      using bubble_round [of a b i] by simp
  next
    fix b
    assume b: "seg_perm 0 (len a - 1) a b \<and> tail_done (len b - (len a - 1)) b"
    then have "length b = length a" by (auto dest: seg_perm_length)
    with b have t: "tail_done 1 b" by simp
    have "sorted_seg 0 (len a - 1) b"
    proof (rule sorted_segI)
      fix p q assume "0 \<le> p" "p \<le> q" "q \<le> len a - 1"
      with t \<open>length b = length a\<close> show "el b p \<le> el b q"
        by (cases "q = 0") (auto simp: tail_done_def)
    qed
    with b show "seg_perm 0 (len a - 1) a b \<and> sorted_seg 0 (len a - 1) b" by blast
  qed (use n in \<open>auto simp: tail_done_def\<close>)
qed

interpretation bubble: sorter bubble_sort "\<lambda>_. True"
  by unfold_locales (rule bubble_sorts)

section \<open>Selection sort\<close>

definition select_min :: "int list \<Rightarrow> int \<Rightarrow> int \<Rightarrow> int option" where
  "select_min ptr n i =
     for_up (i + 1) n (\<lambda>j select. do {
       x \<leftarrow> rd ptr j;
       y \<leftarrow> rd ptr select;
       Some (if x < y then j else select) }) i"

definition select_sort :: "int list \<Rightarrow> int \<Rightarrow> int list option" where
  "select_sort ptr n =
     for_up 0 (n - 1) (\<lambda>i ptr. do {
       select \<leftarrow> select_min ptr n i;
       if i = select then Some ptr else xor_swap ptr i select }) ptr"

lemma select_min_ok:
  assumes "0 \<le> i" "i < len a"
  shows "ok (select_min a (len a) i)
    (\<lambda>s. i \<le> s \<and> s < len a \<and> (\<forall>p. i \<le> p \<and> p < len a \<longrightarrow> el a s \<le> el a p))"
  unfolding select_min_def
proof (rule for_up_rule [where I = "\<lambda>j s. i \<le> s \<and> s < j \<and> (\<forall>p. i \<le> p \<and> p < j \<longrightarrow> el a s \<le> el a p)"])
  fix j s
  assume j: "i + 1 \<le> j" "j < len a"
    and I: "i \<le> s \<and> s < j \<and> (\<forall>p. i \<le> p \<and> p < j \<longrightarrow> el a s \<le> el a p)"
  have "el a (if el a j < el a s then j else s) \<le> el a p" if "i \<le> p" "p < j + 1" for p
  proof (cases "p = j")
    case False
    with I that have "el a s \<le> el a p" by simp
    then show ?thesis by simp
  qed simp
  with I j assms show "ok (do { x \<leftarrow> rd a j; y \<leftarrow> rd a s; Some (if x < y then j else s) })
    (\<lambda>s. i \<le> s \<and> s < j + 1 \<and> (\<forall>p. i \<le> p \<and> p < j + 1 \<longrightarrow> el a s \<le> el a p))"
    by (simp add: wp)
qed (use assms in auto)

text \<open>After \<open>i\<close> rounds the first \<open>i\<close> elements are in place.\<close>

definition head_done :: "int \<Rightarrow> int list \<Rightarrow> bool" where
  "head_done k a \<longleftrightarrow> (\<forall>p q. 0 \<le> p \<and> p < k \<and> p \<le> q \<and> q < len a \<longrightarrow> el a p \<le> el a q)"

lemma head_done_sw:
  assumes h: "head_done i a" and s: "0 \<le> i" "i \<le> s" "s < len a"
    and m: "\<And>p. i \<le> p \<Longrightarrow> p < len a \<Longrightarrow> el a s \<le> el a p"
  shows "head_done (i + 1) (sw a i s)"
  unfolding head_done_def
proof (intro allI impI)
  fix p q assume pq: "0 \<le> p \<and> p < i + 1 \<and> p \<le> q \<and> q < len (sw a i s)"
  show "el (sw a i s) p \<le> el (sw a i s) q"
  proof (cases "p = i")
    case True
    then show ?thesis using pq s m by (simp add: el_sw)
  next
    case False
    then have "el a p \<le> el a q" "el a p \<le> el a i" "el a p \<le> el a s"
      using h pq s by (simp_all add: head_done_def)
    with False show ?thesis using pq s by (simp add: el_sw)
  qed
qed

lemma head_done_sorted: "head_done (len a - 1) a \<Longrightarrow> sorted_seg 0 (len a - 1) a"
proof (rule sorted_segI)
  fix i j assume h: "head_done (len a - 1) a" and ij: "0 \<le> i" "i \<le> j" "j \<le> len a - 1"
  then show "el a i \<le> el a j"
    by (cases "i = len a - 1") (auto simp: head_done_def)
qed

lemma select_sorts: "sorts_to a (select_sort a (len a))"
proof (rule sorts_toI, cases "a = []")
  case True
  then show "ok (select_sort a (len a)) (\<lambda>b. seg_perm 0 (len a - 1) a b \<and> sorted_seg 0 (len a - 1) b)"
    by (simp add: select_sort_def for_up_skip sorted_seg_trivial)
next
  case False
  then have n: "0 \<le> len a - 1" by (cases a) auto
  show "ok (select_sort a (len a)) (\<lambda>b. seg_perm 0 (len a - 1) a b \<and> sorted_seg 0 (len a - 1) b)"
    unfolding select_sort_def
  proof (rule for_up_rule [where I = "\<lambda>i b. seg_perm 0 (len a - 1) a b \<and> head_done i b"])
    fix i b
    assume i: "0 \<le> i" "i < len a - 1" and I: "seg_perm 0 (len a - 1) a b \<and> head_done i b"
    then have l: "len b = len a" by (auto dest: seg_perm_length)
    obtain s where s: "select_min b (len b) i = Some s" "i \<le> s" "s < len b"
      and m: "\<And>p. i \<le> p \<Longrightarrow> p < len b \<Longrightarrow> el b s \<le> el b p"
      using select_min_ok [of i b] i l by (auto elim: okE)
    have "head_done (i + 1) (sw b i s)"
      by (rule head_done_sw) (use I i s m in auto)
    moreover have "seg_perm 0 (len a - 1) a (sw b i s)"
      by (rule seg_perm_sw_trans) (use I i s l in auto)
    ultimately show "ok (do { select \<leftarrow> select_min b (len a) i;
        if i = select then Some b else xor_swap b i select })
      (\<lambda>b. seg_perm 0 (len a - 1) a b \<and> head_done (i + 1) b)"
      using s i l by (cases "i = s") (simp_all add: wp ok_xor_swap)
  next
    fix b
    assume "seg_perm 0 (len a - 1) a b \<and> head_done (len a - 1) b"
    then show "seg_perm 0 (len a - 1) a b \<and> sorted_seg 0 (len a - 1) b"
      using head_done_sorted [of b] seg_perm_length [of 0 "len a - 1" a b] by simp
  qed (use n in \<open>auto simp: head_done_def\<close>)
qed

interpretation selection: sorter select_sort "\<lambda>_. True"
  by unfold_locales (rule select_sorts)

section \<open>Properties\<close>

text \<open>
  the bubble sort (which stops at the last exchange) and the selection sort, which
  exchanges with three exclusive ors, sort every array; exchanging an element with itself
  that way would set it to zero (\<open>xor_swap_same\<close>), and the selection sort never does.
\<close>

theorem simple_sorts_sort:
  "bubble_sort a (len a) = Some (sort a) \<and> select_sort a (len a) = Some (sort a)"
  by (simp add: bubble.is_sort selection.is_sort)

end
