(* ===== verification/Insert_Sort.thy ===== *)
theory Insert_Sort
  imports Sort_Base
begin

text \<open>
  \<open>Sort/insert_sort.c\<close>: insertion sort and the two Shell sorts, with the gaps \<open>len/2\<close>,
  \<open>len/4\<close>, \dots and with the gaps \<open>2^k - 1\<close>.  The body of a Shell pass is an insertion
  with a gap; insertion sort is the pass with gap 1.  \<open>gap_insert_ok\<close> is the one proof of
  that loop; the passes with larger gaps only have to permute the array, the last pass,
  which every sequence of gaps ends with, sorts it.
\<close>

section \<open>Insertion with a gap\<close>

text \<open>\<open>for (k=j; k>=i && ptr[k-i]>temp; k-=i) ptr[k] = ptr[k-i]; ptr[k] = temp;\<close>\<close>

definition gap_insert :: "int list \<Rightarrow> int \<Rightarrow> int \<Rightarrow> int list option" where
  "gap_insert ptr i j = do {
     temp \<leftarrow> rd ptr j;
     (ptr, k) \<leftarrow> cwhile
       (\<lambda>(ptr, k). cand (k \<ge> i) (do { x \<leftarrow> rd ptr (k - i); Some (x > temp) }))
       (\<lambda>(ptr, k). do { x \<leftarrow> rd ptr (k - i); ptr \<leftarrow> wr ptr k x; Some (ptr, k - i) })
       (ptr, j);
     wr ptr k temp }"

definition shell_pass :: "int list \<Rightarrow> int \<Rightarrow> int \<Rightarrow> int list option" where
  "shell_pass ptr i n = for_up i n (\<lambda>j ptr. gap_insert ptr i j) ptr"

definition shell_insert_sort :: "int list \<Rightarrow> int \<Rightarrow> int list option" where
  "shell_insert_sort ptr n = do {
     guard (n > 0);
     (ptr, i) \<leftarrow> cwhile (\<lambda>(ptr, i). Some (i > 0))
       (\<lambda>(ptr, i). do { ptr \<leftarrow> shell_pass ptr i n; Some (ptr, i div 2) })
       (ptr, n div 2);
     Some ptr }"

text \<open>The largest gap \<open>2^k - 1\<close>; \<open>pow\<close> is exact on these arguments.\<close>

definition max_prime :: "int \<Rightarrow> int option" where
  "max_prime n = do {
     idx \<leftarrow> cwhile (\<lambda>idx. Some (2 ^ nat idx - 1 < n)) (\<lambda>idx. Some (idx + 1)) 1;
     Some (2 ^ nat (idx - 1) - 1) }"

definition shell_insert_sort_partitionbyprime :: "int list \<Rightarrow> int \<Rightarrow> int list option" where
  "shell_insert_sort_partitionbyprime ptr n = do {
     guard (n > 0);
     maxPrime \<leftarrow> max_prime n;
     (ptr, i) \<leftarrow> cwhile (\<lambda>(ptr, i). Some (i > 0))
       (\<lambda>(ptr, i). do { ptr \<leftarrow> shell_pass ptr i n; Some (ptr, (i - 1) div 2) })
       (ptr, maxPrime);
     Some ptr }"

definition insert_sort :: "int list \<Rightarrow> int \<Rightarrow> int list option" where
  "insert_sort ptr n = do {
     guard (n > 0);
     for_up 1 n (\<lambda>i ptr. do {
       x \<leftarrow> rd ptr i;
       y \<leftarrow> rd ptr (i - 1);
       if x < y then do {
         temp \<leftarrow> rd ptr i;
         (ptr, j) \<leftarrow> cwhile
           (\<lambda>(ptr, j). cand (j > 0) (do { x \<leftarrow> rd ptr (j - 1); Some (x > temp) }))
           (\<lambda>(ptr, j). do { x \<leftarrow> rd ptr (j - 1); ptr \<leftarrow> wr ptr j x; Some (ptr, j - 1) })
           (ptr, i);
         wr ptr j temp }
       else Some ptr }) ptr }"

section \<open>The insertion loop\<close>

definition gap_sorted :: "int \<Rightarrow> int \<Rightarrow> int list \<Rightarrow> bool" where
  "gap_sorted g j a \<longleftrightarrow> (\<forall>p. 0 \<le> p \<and> p + g < j \<longrightarrow> el a p \<le> el a (p + g))"

text \<open>
  The loop keeps a hole at \<open>k\<close>: with \<open>t\<close> in the hole the array is a permutation of the
  original one, and all pairs at distance \<open>g\<close> that avoid the hole are in order.
\<close>

definition hole_inv :: "int list \<Rightarrow> int \<Rightarrow> int \<Rightarrow> int \<Rightarrow> int list \<times> int \<Rightarrow> bool" where
  "hole_inv a g j t = (\<lambda>(b, k). 0 \<le> k \<and> k \<le> j \<and> length b = length a \<and>
     seg_perm 0 (len a - 1) a (up b k t) \<and>
     (\<forall>p. 0 \<le> p \<and> p + g \<le> j \<and> p \<noteq> k \<and> p + g \<noteq> k \<longrightarrow> el b p \<le> el b (p + g)) \<and>
     (k + g \<le> j \<longrightarrow> t \<le> el b (k + g)) \<and>
     (g \<le> k \<and> k + g \<le> j \<longrightarrow> el b (k - g) \<le> el b (k + g)))"

lemma hole_inv_step:
  assumes I: "hole_inv a g j t (b, k)" and g: "0 < g" "j < len a"
    and k: "g \<le> k" "t < el b (k - g)"
  shows "hole_inv a g j t (up b k (el b (k - g)), k - g)"
proof -
  let ?b = "up b k (el b (k - g))"
  from I have l: "length b = length a" and kj: "0 \<le> k" "k \<le> j"
    and P: "seg_perm 0 (len a - 1) a (up b k t)"
    and S: "\<And>p. 0 \<le> p \<Longrightarrow> p + g \<le> j \<Longrightarrow> p \<noteq> k \<Longrightarrow> p + g \<noteq> k \<Longrightarrow> el b p \<le> el b (p + g)"
    and T: "k + g \<le> j \<Longrightarrow> el b (k - g) \<le> el b (k + g)"
    using k by (auto simp: hole_inv_def)
  have "sw (up b k t) k (k - g) = up ?b (k - g) t"
    using g k kj l by (simp add: sw_def)
  moreover have "seg_perm 0 (len a - 1) a (sw (up b k t) k (k - g))"
    by (rule seg_perm_sw_trans [OF P]) (use g k kj l in auto)
  ultimately have "seg_perm 0 (len a - 1) a (up ?b (k - g) t)" by simp
  moreover have "el ?b p \<le> el ?b (p + g)"
    if p: "0 \<le> p" "p + g \<le> j" "p \<noteq> k - g" "p + g \<noteq> k - g" for p
  proof (cases "p = k")
    case True
    then show ?thesis using T p g k kj l by simp
  next
    case False
    then show ?thesis using S [of p] p g k kj l by (simp add: el_up)
  qed
  moreover have "el ?b (k - g - g) \<le> el ?b (k - g + g)" if "g \<le> k - g"
    using S [of "k - g - g"] that g k kj l by (simp add: el_up)
  ultimately show ?thesis using g k kj l by (simp add: hole_inv_def)
qed

lemma gap_insert_ok:
  assumes g: "0 < g" "g \<le> j" "j < len a" and s: "gap_sorted g j a"
  shows "ok (gap_insert a g j) (\<lambda>b. seg_perm 0 (len a - 1) a b \<and> gap_sorted g (j + 1) b)"
proof -
  let ?t = "el a j"
  let ?b = "\<lambda>(ptr, k). cand (k \<ge> g) (do { x \<leftarrow> rd ptr (k - g); Some (x > ?t) })"
  let ?c = "\<lambda>(ptr, k). do { x \<leftarrow> rd ptr (k - g); ptr \<leftarrow> wr ptr k x; Some (ptr, k - g) }"
  let ?Q = "\<lambda>(b, k). 0 \<le> k \<and> k < len b \<and> seg_perm 0 (len a - 1) a (up b k ?t) \<and>
      gap_sorted g (j + 1) (up b k ?t)"
  have "ok (cwhile ?b ?c (a, j)) ?Q"
  proof (rule cwhile_rule [where I = "hole_inv a g j ?t" and m = "\<lambda>(b, k). nat k"])
    show "hole_inv a g j ?t (a, j)"
      using g s by (auto simp: hole_inv_def gap_sorted_def)
  next
    fix st assume "hole_inv a g j ?t st"
    then obtain b k where st: "st = (b, k)" and I: "hole_inv a g j ?t (b, k)" by (cases st) auto
    then have b: "length b = length a" "0 \<le> k" "k \<le> j" "seg_perm 0 (len a - 1) a (up b k ?t)"
      and S: "\<And>p. 0 \<le> p \<Longrightarrow> p + g \<le> j \<Longrightarrow> p \<noteq> k \<Longrightarrow> p + g \<noteq> k \<Longrightarrow> el b p \<le> el b (p + g)"
      and T: "k + g \<le> j \<Longrightarrow> ?t \<le> el b (k + g)"
      by (auto simp: hole_inv_def)
    have "gap_sorted g (j + 1) (up b k ?t)" if stop: "g \<le> k \<Longrightarrow> el b (k - g) \<le> ?t"
      unfolding gap_sorted_def
    proof (intro allI impI)
      fix p assume p: "0 \<le> p \<and> p + g < j + 1"
      consider "p = k" | "p + g = k" | "p \<noteq> k" "p + g \<noteq> k" by blast
      then show "el (up b k ?t) p \<le> el (up b k ?t) (p + g)"
      proof cases
        case 1
        then show ?thesis using T p b g by simp
      next
        case 2
        then have "p = k - g" by simp
        then show ?thesis using stop p b g by simp
      next
        case 3
        then show ?thesis using S [of p] p b g by simp
      qed
    qed
    then show "ok (?b st) (\<lambda>t. (t \<longrightarrow> ok (?c st) (\<lambda>s'. hole_inv a g j ?t s' \<and>
        (case s' of (b, k) \<Rightarrow> nat k) < (case st of (b, k) \<Rightarrow> nat k))) \<and> (\<not> t \<longrightarrow> ?Q st))"
      using st b g hole_inv_step [OF I] by (auto simp: wp)
  qed
  then show ?thesis
    unfolding gap_insert_def using g by (auto simp: wp elim!: ok_mono)
qed

section \<open>Passes\<close>

lemma gap_sorted_start: "gap_sorted g g a"
  by (simp add: gap_sorted_def)

lemma gap_sorted_1: "gap_sorted 1 (len a) a \<Longrightarrow> sorted_seg 0 (len a - 1) a"
  by (rule sorted_seg_stepI) (simp add: gap_sorted_def)

lemma shell_pass_ok:
  assumes "0 < g" and P: "seg_perm 0 (len a - 1) a b"
  shows "ok (shell_pass b g (len a)) (\<lambda>c. seg_perm 0 (len a - 1) a c \<and>
    (g = 1 \<longrightarrow> sorted_seg 0 (len a - 1) c))"
proof (cases "g \<le> len a")
  case True
  have l: "len b = len a" using P by (simp add: seg_perm_length)
  show ?thesis
    unfolding shell_pass_def
  proof (rule for_up_rule [where I = "\<lambda>j c. seg_perm 0 (len a - 1) a c \<and> gap_sorted g j c"])
    fix j c assume j: "g \<le> j" "j < len a" and I: "seg_perm 0 (len a - 1) a c \<and> gap_sorted g j c"
    then have "len c = len a" by (auto dest: seg_perm_length)
    then show "ok (gap_insert c g j) (\<lambda>c. seg_perm 0 (len a - 1) a c \<and> gap_sorted g (j + 1) c)"
      using gap_insert_ok [of g j c] assms(1) j I by (auto elim!: ok_mono intro: seg_perm_trans)
  next
    fix c assume "seg_perm 0 (len a - 1) a c \<and> gap_sorted g (len a) c"
    then show "seg_perm 0 (len a - 1) a c \<and> (g = 1 \<longrightarrow> sorted_seg 0 (len a - 1) c)"
      using gap_sorted_1 [of c] seg_perm_length [of 0 "len a - 1" a c] by auto
  qed (use P True in \<open>simp_all add: gap_sorted_start\<close>)
next
  case False
  then show ?thesis
    using assms by (auto simp: shell_pass_def for_up_skip sorted_seg_trivial)
qed

text \<open>A sequence of gaps that ends with 1 sorts: \<open>nxt\<close> computes the next gap.\<close>

lemma shell_loop_ok:
  assumes start: "0 \<le> i0" "J i0" "i0 = 0 \<Longrightarrow> len a \<le> 1"
    and nxt: "\<And>i. 0 < i \<Longrightarrow> J i \<Longrightarrow> 0 \<le> nxt i \<and> nxt i < i \<and> J (nxt i) \<and> (nxt i = 0 \<longrightarrow> i = 1)"
  shows "sorts_to a (do {
     (ptr, i) \<leftarrow> cwhile (\<lambda>(ptr, i). Some (i > 0))
       (\<lambda>(ptr, i). do { ptr \<leftarrow> shell_pass ptr i (len a); Some (ptr, nxt i) }) (a, i0);
     Some ptr })"
proof (rule sorts_toI)
  let ?I = "\<lambda>(b, i). 0 \<le> i \<and> J i \<and> seg_perm 0 (len a - 1) a b \<and> (i = 0 \<longrightarrow> sorted_seg 0 (len a - 1) b)"
  have "ok (cwhile (\<lambda>(ptr, i). Some (i > 0))
       (\<lambda>(ptr, i). do { ptr \<leftarrow> shell_pass ptr i (len a); Some (ptr, nxt i) }) (a, i0))
     (\<lambda>(b, i). seg_perm 0 (len a - 1) a b \<and> sorted_seg 0 (len a - 1) b)"
  proof (rule cwhile_rule [where I = ?I and m = "\<lambda>(b, i). nat i"])
    show "?I (a, i0)" using start by (auto intro: sorted_seg_trivial)
  next
    fix st assume "?I st"
    then obtain b i where st: "st = (b, i)" and I: "0 \<le> i" "J i" "seg_perm 0 (len a - 1) a b"
      "i = 0 \<longrightarrow> sorted_seg 0 (len a - 1) b" by (cases st) auto
    show "ok (case st of (ptr, i) \<Rightarrow> Some (i > 0)) (\<lambda>t.
        (t \<longrightarrow> ok (case st of (ptr, i) \<Rightarrow> do { ptr \<leftarrow> shell_pass ptr i (len a); Some (ptr, nxt i) })
          (\<lambda>s'. ?I s' \<and> (case s' of (b, i) \<Rightarrow> nat i) < (case st of (b, i) \<Rightarrow> nat i))) \<and>
        (\<not> t \<longrightarrow> (case st of (b, i) \<Rightarrow> seg_perm 0 (len a - 1) a b \<and> sorted_seg 0 (len a - 1) b)))"
      using st I nxt [of i] shell_pass_ok [of i a b]
      by (cases "0 < i") (auto simp: wp elim!: ok_mono)
  qed
  then show "ok (do {
     (ptr, i) \<leftarrow> cwhile (\<lambda>(ptr, i). Some (i > 0))
       (\<lambda>(ptr, i). do { ptr \<leftarrow> shell_pass ptr i (len a); Some (ptr, nxt i) }) (a, i0);
     Some ptr }) (\<lambda>b. seg_perm 0 (len a - 1) a b \<and> sorted_seg 0 (len a - 1) b)"
    by (auto simp: wp elim!: ok_mono)
qed

section \<open>The three sorts\<close>

lemma shell_sorts: "a \<noteq> [] \<Longrightarrow> sorts_to a (shell_insert_sort a (len a))"
  using shell_loop_ok [of "len a div 2" "\<lambda>_. True" a "\<lambda>i. i div 2"]
  by (simp add: shell_insert_sort_def) linarith

lemma max_prime_ok:
  assumes "0 < n"
  shows "ok (max_prime n) (\<lambda>p. (\<exists>k. p = 2 ^ k - 1) \<and> (p = 0 \<longrightarrow> n \<le> 1))"
proof -
  have "ok (cwhile (\<lambda>idx. Some (2 ^ nat idx - 1 < n)) (\<lambda>idx. Some (idx + 1)) 1)
    (\<lambda>idx. 1 \<le> idx \<and> n \<le> 2 ^ nat idx - 1)"
  proof (rule cwhile_rule [where I = "\<lambda>idx. 1 \<le> idx" and m = "\<lambda>idx. nat (n + 1 - idx)"])
    fix idx :: int assume "1 \<le> idx"
    moreover have "int (nat idx) < 2 ^ nat idx"
      by (metis less_exp of_nat_less_iff of_nat_numeral of_nat_power)
    ultimately show "ok (Some (2 ^ nat idx - 1 < n)) (\<lambda>t. (t \<longrightarrow> ok (Some (idx + 1))
       (\<lambda>s'. 1 \<le> s' \<and> nat (n + 1 - s') < nat (n + 1 - idx))) \<and> (\<not> t \<longrightarrow> 1 \<le> idx \<and> n \<le> 2 ^ nat idx - 1))"
      by auto
  qed simp
  then show ?thesis
    unfolding max_prime_def ok_bind
  proof (rule ok_mono)
    fix idx :: int assume idx: "1 \<le> idx \<and> n \<le> 2 ^ nat idx - 1"
    then have "n \<le> 1" if "2 ^ nat (idx - 1) - 1 = (0 :: int)"
      using that one_less_power [of "2 :: int" "nat (idx - 1)"] by (cases "idx = 1") auto
    then show "ok (Some (2 ^ nat (idx - 1) - 1 :: int)) (\<lambda>p. (\<exists>k. p = 2 ^ k - 1) \<and> (p = 0 \<longrightarrow> n \<le> 1))"
      by auto
  qed
qed

lemma next_prime_gap: "0 < i \<Longrightarrow> \<exists>k. i = 2 ^ k - 1 \<Longrightarrow>
    0 \<le> (i - 1) div 2 \<and> (i - 1) div 2 < i \<and> (\<exists>k. (i - 1) div 2 = 2 ^ k - 1) \<and>
    ((i - 1) div 2 = 0 \<longrightarrow> i = 1)" for i :: int
proof -
  assume i: "0 < i" "\<exists>k. i = 2 ^ k - 1"
  then obtain k where "i = 2 ^ Suc k - 1"
    by (metis not0_implies_Suc power_0 diff_self less_irrefl)
  then have "(i - 1) div 2 = 2 ^ k - 1" by simp
  with i \<open>i = 2 ^ Suc k - 1\<close> show ?thesis by auto
qed

lemma prime_shell_sorts: "a \<noteq> [] \<Longrightarrow> sorts_to a (shell_insert_sort_partitionbyprime a (len a))"
proof -
  assume "a \<noteq> []"
  then obtain p where p: "max_prime (len a) = Some p" "\<exists>k. p = 2 ^ k - 1" "p = 0 \<Longrightarrow> len a \<le> 1"
    using max_prime_ok [of "len a"] by (auto elim: okE)
  then have "0 \<le> p" by auto
  then show ?thesis
    using shell_loop_ok [of p "\<lambda>i. \<exists>k. i = 2 ^ k - 1" a "\<lambda>i. (i - 1) div 2"] p \<open>a \<noteq> []\<close> next_prime_gap
    by (simp add: shell_insert_sort_partitionbyprime_def)
qed

lemma insert_step: "insert_sort a n = do { guard (n > 0);
    for_up 1 n (\<lambda>i ptr. do { x \<leftarrow> rd ptr i; y \<leftarrow> rd ptr (i - 1);
      if x < y then gap_insert ptr 1 i else Some ptr }) a }"
  unfolding insert_sort_def gap_insert_def int_one_le_iff_zero_less by (rule refl)

lemma insert_sorts: "a \<noteq> [] \<Longrightarrow> sorts_to a (insert_sort a (len a))"
proof (rule sorts_toI)
  assume "a \<noteq> []"
  then have n: "1 \<le> len a" by (cases a) auto
  have "ok (for_up 1 (len a) (\<lambda>i ptr. do { x \<leftarrow> rd ptr i; y \<leftarrow> rd ptr (i - 1);
      if x < y then gap_insert ptr 1 i else Some ptr }) a)
    (\<lambda>b. seg_perm 0 (len a - 1) a b \<and> sorted_seg 0 (len a - 1) b)"
  proof (rule for_up_rule [where I = "\<lambda>i b. seg_perm 0 (len a - 1) a b \<and> gap_sorted 1 i b"])
    fix i b assume i: "1 \<le> i" "i < len a" and I: "seg_perm 0 (len a - 1) a b \<and> gap_sorted 1 i b"
    then have l: "len b = len a" by (auto dest: seg_perm_length)
    have "gap_sorted 1 (i + 1) b" if "el b (i - 1) \<le> el b i"
      unfolding gap_sorted_def
    proof (intro allI impI)
      fix p assume "0 \<le> p \<and> p + 1 < i + 1"
      then show "el b p \<le> el b (p + 1)"
        using I that by (cases "p = i - 1") (auto simp: gap_sorted_def)
    qed
    then show "ok (do { x \<leftarrow> rd b i; y \<leftarrow> rd b (i - 1);
        if x < y then gap_insert b 1 i else Some b })
      (\<lambda>b. seg_perm 0 (len a - 1) a b \<and> gap_sorted 1 (i + 1) b)"
      using i I l gap_insert_ok [of 1 i b] by (auto simp: wp elim!: ok_mono intro: seg_perm_trans)
  next
    fix b assume "seg_perm 0 (len a - 1) a b \<and> gap_sorted 1 (len a) b"
    then show "seg_perm 0 (len a - 1) a b \<and> sorted_seg 0 (len a - 1) b"
      using gap_sorted_1 [of b] seg_perm_length [of 0 "len a - 1" a b] by auto
  qed (use n in \<open>simp_all add: gap_sorted_start\<close>)
  then show "ok (insert_sort a (len a)) (\<lambda>b. seg_perm 0 (len a - 1) a b \<and> sorted_seg 0 (len a - 1) b)"
    using \<open>a \<noteq> []\<close> by (simp add: insert_step)
qed

interpretation insertion: sorter insert_sort "\<lambda>a. a \<noteq> []"
  by unfold_locales (rule insert_sorts)

interpretation shell: sorter shell_insert_sort "\<lambda>a. a \<noteq> []"
  by unfold_locales (rule shell_sorts)

interpretation prime_shell: sorter shell_insert_sort_partitionbyprime "\<lambda>a. a \<noteq> []"
  by unfold_locales (rule prime_shell_sorts)

section \<open>Properties\<close>

text \<open>
  the insertion sort and the two Shell sorts of \<open>insert_sort.c\<close> (gaps halved, or the
  largest prime below the gap), called on a non-empty array with its length, return and
  leave the sorted permutation of the elements.
\<close>

theorem insertion_sorts_sort:
  assumes "a \<noteq> []"
  shows "insert_sort a (len a) = Some (sort a) \<and> shell_insert_sort a (len a) = Some (sort a) \<and>
    shell_insert_sort_partitionbyprime a (len a) = Some (sort a)"
  using assms by (simp add: insertion.is_sort shell.is_sort prime_shell.is_sort)

theorem insertion_sorts_sort_witness:
  "insert_sort [5, 2, 9, 2] 4 = Some [2, 2, 5, 9] \<and> shell_insert_sort_partitionbyprime [5, 2, 9, 2] 4 = Some [2, 2, 5, 9]"
  using insertion_sorts_sort [of "[5, 2, 9, 2]"] by simp

end
