(* ===== verification/Quick_Sort.thy ===== *)
theory Quick_Sort
  imports Sort_Base
begin

text \<open>
  The six quick sorts of \<open>Sort/quick_sort.c\<close>.  Five of them partition by moving a hole:
  the pivot is taken out, and elements are moved alternately into the hole from the other
  side (\<open>fill_left\<close>, \<open>fill_right\<close>).  The locale \<open>quick\<close> is the contract between a
  partition and the recursive routine built on it: from the partition's law and the
  routine's recursion equation it follows, once, that the routine sorts its segment.  It
  is interpreted on the four routines of that shape; the two that set the elements equal
  to the pivot apart (\<open>deal_repeat\<close>) are proved on top of the three-way split.
\<close>

section \<open>The model\<close>

text \<open>\<open>while (start1<start2 && ptr[start2]>=pivote) start2--;\<close> and its mirror image.\<close>

definition scan_down :: "int list \<Rightarrow> int \<Rightarrow> int \<Rightarrow> int \<Rightarrow> int option" where
  "scan_down ptr pivote start1 start2 =
     cwhile (\<lambda>start2. cand (start1 < start2) (do { x \<leftarrow> rd ptr start2; Some (x \<ge> pivote) }))
       (\<lambda>start2. Some (start2 - 1)) start2"

definition scan_up :: "int list \<Rightarrow> int \<Rightarrow> int \<Rightarrow> int \<Rightarrow> int option" where
  "scan_up ptr pivote start1 start2 =
     cwhile (\<lambda>start1. cand (start1 < start2) (do { x \<leftarrow> rd ptr start1; Some (x \<le> pivote) }))
       (\<lambda>start1. Some (start1 + 1)) start1"

text \<open>The hole is at \<open>start1\<close> and is filled from the right; afterwards it is at \<open>start2\<close>.\<close>

definition fill_left :: "int \<Rightarrow> int list \<times> int \<times> int \<Rightarrow> (int list \<times> int \<times> int) option" where
  "fill_left pivote = (\<lambda>(ptr, start1, start2). do {
     start2 \<leftarrow> scan_down ptr pivote start1 start2;
     if start1 < start2 then do {
       x \<leftarrow> rd ptr start2;
       ptr \<leftarrow> wr ptr start1 x;
       Some (ptr, start1 + 1, start2) }
     else Some (ptr, start1, start2) })"

definition fill_right :: "int \<Rightarrow> int list \<times> int \<times> int \<Rightarrow> (int list \<times> int \<times> int) option" where
  "fill_right pivote = (\<lambda>(ptr, start1, start2). do {
     start1 \<leftarrow> scan_up ptr pivote start1 start2;
     if start1 < start2 then do {
       x \<leftarrow> rd ptr start1;
       ptr \<leftarrow> wr ptr start2 x;
       Some (ptr, start1, start2 - 1) }
     else Some (ptr, start1, start2) })"

text \<open>The loop of \<open>_quick_sort\<close> (pivot on the left), and of the others (on the right).\<close>

definition left_partition :: "int list \<Rightarrow> int \<Rightarrow> int \<Rightarrow> (int list \<times> int) option" where
  "left_partition ptr left right = do {
     pivote \<leftarrow> rd ptr left;
     (ptr, start1, start2) \<leftarrow> cwhile (\<lambda>(ptr, start1, start2). Some (start1 < start2))
       (\<lambda>st. do { st \<leftarrow> fill_left pivote st; fill_right pivote st }) (ptr, left, right);
     ptr \<leftarrow> wr ptr start1 pivote;
     Some (ptr, start1) }"

definition right_partition :: "int list \<Rightarrow> int \<Rightarrow> int \<Rightarrow> (int list \<times> int) option" where
  "right_partition ptr left right = do {
     pivot \<leftarrow> rd ptr right;
     (ptr, start1, start2) \<leftarrow> cwhile (\<lambda>(ptr, start1, start2). Some (start1 < start2))
       (\<lambda>st. do { st \<leftarrow> fill_right pivot st; fill_left pivot st }) (ptr, left, right);
     ptr \<leftarrow> wr ptr start1 pivot;
     Some (ptr, start1) }"

partial_function (option) quick_sort_rec :: "int list \<Rightarrow> int \<Rightarrow> int \<Rightarrow> int list option" where
  "quick_sort_rec ptr left right =
     (if right - left \<le> 1 then sort_small ptr left right
      else do {
        (ptr, start1) \<leftarrow> left_partition ptr left right;
        ptr \<leftarrow> quick_sort_rec ptr left (start1 - 1);
        quick_sort_rec ptr (start1 + 1) right })"

definition quick_sort :: "int list \<Rightarrow> int \<Rightarrow> int list option" where
  "quick_sort ptr n = do { guard (n > 0); quick_sort_rec ptr 0 (n - 1) }"

partial_function (option) quick_sort2_rec :: "int list \<Rightarrow> int \<Rightarrow> int \<Rightarrow> int list option" where
  "quick_sort2_rec ptr left right =
     (if right - left \<le> 1 then sort_small ptr left right
      else do {
        (ptr, start2) \<leftarrow> right_partition ptr left right;
        ptr \<leftarrow> quick_sort2_rec ptr left (start2 - 1);
        quick_sort2_rec ptr (start2 + 1) right })"

definition quick_sort2 :: "int list \<Rightarrow> int \<Rightarrow> int list option" where
  "quick_sort2 ptr n = do { guard (n > 0); quick_sort2_rec ptr 0 (n - 1) }"

text \<open>Median of three: the middle one of the three values ends up on the right.\<close>

definition choose_right :: "int list \<Rightarrow> int \<Rightarrow> int \<Rightarrow> int list option" where
  "choose_right ptr left right = do {
     let mid = left + (right - left) div 2;
     m \<leftarrow> rd ptr mid;
     l \<leftarrow> rd ptr left;
     ptr \<leftarrow> (if m < l then Swap ptr left mid else Some ptr);
     r \<leftarrow> rd ptr right;
     m \<leftarrow> rd ptr mid;
     ptr \<leftarrow> (if r < m then do {
         ptr \<leftarrow> Swap ptr right mid;
         m \<leftarrow> rd ptr mid;
         l \<leftarrow> rd ptr left;
         if m < l then Swap ptr mid left else Some ptr }
       else Some ptr);
     Swap ptr mid right }"

definition partition :: "int list \<Rightarrow> int \<Rightarrow> int \<Rightarrow> (int list \<times> int) option" where
  "partition ptr left right = do {
     ptr \<leftarrow> choose_right ptr left right;
     right_partition ptr left right }"

partial_function (option) better_quick_sort_rec :: "int list \<Rightarrow> int \<Rightarrow> int \<Rightarrow> int list option" where
  "better_quick_sort_rec ptr left right =
     (if right - left \<le> 1 then sort_small ptr left right
      else do {
        ptr \<leftarrow> choose_right ptr left right;
        (ptr, start1) \<leftarrow> right_partition ptr left right;
        ptr \<leftarrow> better_quick_sort_rec ptr left (start1 - 1);
        better_quick_sort_rec ptr (start1 + 1) right })"

definition better_quick_sort :: "int list \<Rightarrow> int \<Rightarrow> int list option" where
  "better_quick_sort ptr n = do { guard (n > 0); better_quick_sort_rec ptr 0 (n - 1) }"

text \<open>Collecting the elements equal to the pivot next to it; the two results are the
  bounds of the parts that are left to sort.\<close>

definition deal_repeat :: "int list \<Rightarrow> int \<Rightarrow> int \<Rightarrow> int \<Rightarrow> (int list \<times> int \<times> int) option" where
  "deal_repeat ptr left pos right = do {
     (ptr, pos_left) \<leftarrow> for_down (pos - 1) left (\<lambda>i (ptr, pos_left). do {
         x \<leftarrow> rd ptr pos;
         y \<leftarrow> rd ptr i;
         if x = y then do {
           ptr \<leftarrow> (if pos_left \<noteq> i then Swap ptr i pos_left else Some ptr);
           Some (ptr, pos_left - 1) }
         else Some (ptr, pos_left) }) (ptr, pos - 1);
     (ptr, pos_right) \<leftarrow> for_up (pos + 1) (right + 1) (\<lambda>i (ptr, pos_right). do {
         x \<leftarrow> rd ptr pos;
         y \<leftarrow> rd ptr i;
         if x = y then do {
           ptr \<leftarrow> (if pos_right \<noteq> i then Swap ptr i pos_right else Some ptr);
           Some (ptr, pos_right + 1) }
         else Some (ptr, pos_right) }) (ptr, pos + 1);
     Some (ptr, pos_left, pos_right) }"

partial_function (option) better_quick_sort2_rec :: "int list \<Rightarrow> int \<Rightarrow> int \<Rightarrow> int list option" where
  "better_quick_sort2_rec ptr left right =
     (if right - left \<le> 1 then sort_small ptr left right
      else do {
        ptr \<leftarrow> choose_right ptr left right;
        (ptr, start1) \<leftarrow> right_partition ptr left right;
        (ptr, left_idx, right_idx) \<leftarrow> deal_repeat ptr left start1 right;
        ptr \<leftarrow> (if left_idx > left then better_quick_sort2_rec ptr left left_idx else Some ptr);
        if right > right_idx then better_quick_sort2_rec ptr right_idx right else Some ptr })"

definition better_quick_sort2 :: "int list \<Rightarrow> int \<Rightarrow> int list option" where
  "better_quick_sort2 ptr n = do { guard (n > 0); better_quick_sort2_rec ptr 0 (n - 1) }"

text \<open>
  The loop of \<open>_better_quick_sort3\<close> recurses into the shorter part and goes on with the
  longer one; going round the loop is entering the function again with the new bounds.
\<close>

partial_function (option) better_quick_sort3_rec :: "int list \<Rightarrow> int \<Rightarrow> int \<Rightarrow> int list option" where
  "better_quick_sort3_rec ptr left right =
     (if left < right then
        if right - left \<le> 1 then sort_small ptr left right
        else do {
          (ptr, partitionpos) \<leftarrow> partition ptr left right;
          (ptr, left_pos, right_pos) \<leftarrow> deal_repeat ptr left partitionpos right;
          if left_pos - left < right - right_pos then do {
            ptr \<leftarrow> better_quick_sort3_rec ptr left left_pos;
            better_quick_sort3_rec ptr right_pos right }
          else do {
            ptr \<leftarrow> better_quick_sort3_rec ptr right_pos right;
            better_quick_sort3_rec ptr left left_pos } }
      else Some ptr)"

definition better_quick_sort3 :: "int list \<Rightarrow> int \<Rightarrow> int list option" where
  "better_quick_sort3 ptr n = do { guard (n > 0); better_quick_sort3_rec ptr 0 (n - 1) }"

text \<open>The loops of \<open>_quick_sort3\<close> step before they compare: \<open>ptr[--start2]\<close>, \<open>ptr[++start1]\<close>.\<close>

partial_function (option) step_down :: "int list \<Rightarrow> int \<Rightarrow> int \<Rightarrow> int \<Rightarrow> int option" where
  "step_down ptr pivot start1 start2 =
     (if start1 < start2 then do {
        x \<leftarrow> rd ptr (start2 - 1);
        if x \<ge> pivot then step_down ptr pivot start1 (start2 - 1) else Some (start2 - 1) }
      else Some start2)"

partial_function (option) step_up :: "int list \<Rightarrow> int \<Rightarrow> int \<Rightarrow> int \<Rightarrow> int option" where
  "step_up ptr pivot start1 start2 =
     (if start1 < start2 then do {
        x \<leftarrow> rd ptr (start1 + 1);
        if x \<le> pivot then step_up ptr pivot (start1 + 1) start2 else Some (start1 + 1) }
      else Some start1)"

definition swap_partition :: "int list \<Rightarrow> int \<Rightarrow> int \<Rightarrow> (int list \<times> int) option" where
  "swap_partition ptr left right = do {
     let mid = left + (right - left) div 2;
     l \<leftarrow> rd ptr left;
     m \<leftarrow> rd ptr mid;
     ptr \<leftarrow> (if l > m then Swap ptr left mid else Some ptr);
     m \<leftarrow> rd ptr mid;
     r \<leftarrow> rd ptr right;
     ptr \<leftarrow> (if m > r then Swap ptr mid right else Some ptr);
     l \<leftarrow> rd ptr left;
     m \<leftarrow> rd ptr mid;
     ptr \<leftarrow> (if l > m then Swap ptr left mid else Some ptr);
     ptr \<leftarrow> Swap ptr mid left;
     pivot \<leftarrow> rd ptr left;
     (ptr, start1, start2) \<leftarrow> cwhile (\<lambda>(ptr, start1, start2). Some (start1 < start2))
       (\<lambda>(ptr, start1, start2). do {
          start2 \<leftarrow> step_down ptr pivot start1 start2;
          start1 \<leftarrow> step_up ptr pivot start1 start2;
          ptr \<leftarrow> (if start1 < start2 then Swap ptr start1 start2 else Some ptr);
          Some (ptr, start1, start2) }) (ptr, left, right + 1);
     ptr \<leftarrow> Swap ptr left start1;
     Some (ptr, start1) }"

partial_function (option) quick_sort3_rec :: "int list \<Rightarrow> int \<Rightarrow> int \<Rightarrow> int list option" where
  "quick_sort3_rec ptr left right =
     (if right - left \<le> 1 then sort_small ptr left right
      else do {
        (ptr, start1) \<leftarrow> swap_partition ptr left right;
        ptr \<leftarrow> quick_sort3_rec ptr left (start1 - 1);
        quick_sort3_rec ptr (start1 + 1) right })"

definition quick_sort3 :: "int list \<Rightarrow> int \<Rightarrow> int list option" where
  "quick_sort3 ptr n = (if n \<le> 1 then Some ptr else quick_sort3_rec ptr 0 (n - 1))"

end
