(* ===== verification/Quick_Sort_Correct.thy ===== *)
theory Quick_Sort_Correct
  imports Quick_Sort
begin

text \<open>
  Correctness of the six quick sorts of \<open>Sort/quick_sort.c\<close>: the partitions split their
  segment around a pivot (\<open>partitioned\<close>), \<open>deal_repeat\<close> splits it into smaller, equal and
  larger elements, and every routine returns the sorted array, reads and writes only inside
  it, and returns at all.
\<close>

section \<open>Moving the hole\<close>

lemma scan_down_ok:
  assumes "0 \<le> s1" "s1 \<le> s2" "s2 < len a"
  shows "ok (scan_down a p s1 s2) (\<lambda>k. s1 \<le> k \<and> k \<le> s2 \<and>
    (\<forall>i. k < i \<and> i \<le> s2 \<longrightarrow> p \<le> el a i) \<and> (s1 < k \<longrightarrow> el a k < p))"
  unfolding scan_down_def
proof (rule cwhile_rule [where I = "\<lambda>k. s1 \<le> k \<and> k \<le> s2 \<and> (\<forall>i. k < i \<and> i \<le> s2 \<longrightarrow> p \<le> el a i)"
      and m = "\<lambda>k. nat (k - s1)"])
  fix k assume I: "s1 \<le> k \<and> k \<le> s2 \<and> (\<forall>i. k < i \<and> i \<le> s2 \<longrightarrow> p \<le> el a i)"
  have "p \<le> el a i" if "p \<le> el a k" "k - 1 < i" "i \<le> s2" for i
    using I that by (cases "i = k") auto
  with I assms show "ok (cand (s1 < k) (do { x \<leftarrow> rd a k; Some (x \<ge> p) })) (\<lambda>t. (t \<longrightarrow> ok (Some (k - 1))
      (\<lambda>s'. (s1 \<le> s' \<and> s' \<le> s2 \<and> (\<forall>i. s' < i \<and> i \<le> s2 \<longrightarrow> p \<le> el a i)) \<and> nat (s' - s1) < nat (k - s1))) \<and>
      (\<not> t \<longrightarrow> s1 \<le> k \<and> k \<le> s2 \<and> (\<forall>i. k < i \<and> i \<le> s2 \<longrightarrow> p \<le> el a i) \<and> (s1 < k \<longrightarrow> el a k < p)))"
    by (simp add: wp)
qed (use assms in simp)

lemma scan_up_ok:
  assumes "0 \<le> s1" "s1 \<le> s2" "s2 < len a"
  shows "ok (scan_up a p s1 s2) (\<lambda>k. s1 \<le> k \<and> k \<le> s2 \<and>
    (\<forall>i. s1 \<le> i \<and> i < k \<longrightarrow> el a i \<le> p) \<and> (k < s2 \<longrightarrow> p < el a k))"
  unfolding scan_up_def
proof (rule cwhile_rule [where I = "\<lambda>k. s1 \<le> k \<and> k \<le> s2 \<and> (\<forall>i. s1 \<le> i \<and> i < k \<longrightarrow> el a i \<le> p)"
      and m = "\<lambda>k. nat (s2 - k)"])
  fix k assume I: "s1 \<le> k \<and> k \<le> s2 \<and> (\<forall>i. s1 \<le> i \<and> i < k \<longrightarrow> el a i \<le> p)"
  have "el a i \<le> p" if "el a k \<le> p" "s1 \<le> i" "i < k + 1" for i
    using I that by (cases "i = k") auto
  with I assms show "ok (cand (k < s2) (do { x \<leftarrow> rd a k; Some (x \<le> p) })) (\<lambda>t. (t \<longrightarrow> ok (Some (k + 1))
      (\<lambda>s'. (s1 \<le> s' \<and> s' \<le> s2 \<and> (\<forall>i. s1 \<le> i \<and> i < s' \<longrightarrow> el a i \<le> p)) \<and> nat (s2 - s') < nat (s2 - k))) \<and>
      (\<not> t \<longrightarrow> s1 \<le> k \<and> k \<le> s2 \<and> (\<forall>i. s1 \<le> i \<and> i < k \<longrightarrow> el a i \<le> p) \<and> (k < s2 \<longrightarrow> p < el a k)))"
    by (simp add: wp)
qed (use assms in simp)

text \<open>
  With the pivot put back into the hole \<open>h\<close> the segment is a permutation of the original;
  left of \<open>start1\<close> are elements up to the pivot, right of \<open>start2\<close> elements from it on.
\<close>

definition holed :: "int list \<Rightarrow> int \<Rightarrow> int \<Rightarrow> int \<Rightarrow> int \<Rightarrow> int list \<times> int \<times> int \<Rightarrow> bool" where
  "holed c l r p h = (\<lambda>(a, s1, s2). l \<le> s1 \<and> s1 \<le> s2 \<and> s2 \<le> r \<and> length a = length c \<and>
     seg_perm l r c (up a h p) \<and>
     (\<forall>i. l \<le> i \<and> i < s1 \<longrightarrow> el a i \<le> p) \<and> (\<forall>i. s2 < i \<and> i \<le> r \<longrightarrow> p \<le> el a i))"

abbreviation "hole_left c l r p \<equiv> (\<lambda>st. holed c l r p (fst (snd st)) st)"
abbreviation "hole_right c l r p \<equiv> (\<lambda>st. holed c l r p (snd (snd st)) st)"

abbreviation "gap \<equiv> (\<lambda>(a, s1, s2). nat (s2 - s1))"

lemma holed_move:
  assumes "seg_perm l r c (up a h p)" "0 \<le> l" "r < len c" "l \<le> h" "h \<le> r" "l \<le> k" "k \<le> r" "k \<noteq> h"
    and "length a = length c"
  shows "seg_perm l r c (up (up a h (el a k)) k p)"
proof -
  have "sw (up a h p) h k = up (up a h (el a k)) k p"
    using assms by (simp add: sw_def)
  then show ?thesis using seg_perm_sw_trans [OF assms(1-3), of h k] assms by simp
qed

lemma fill_left_ok:
  assumes I: "hole_left c l r p (a, s1, s2)" and lr: "0 \<le> l" "r < len c"
  shows "ok (fill_left p (a, s1, s2)) (\<lambda>st. hole_right c l r p st \<and>
    gap st \<le> nat (s2 - s1) \<and> (s1 < s2 \<longrightarrow> gap st < nat (s2 - s1)))"
proof -
  from I have h: "l \<le> s1" "s1 \<le> s2" "s2 \<le> r" "length a = length c" "seg_perm l r c (up a s1 p)"
    and lo: "\<And>i. l \<le> i \<Longrightarrow> i < s1 \<Longrightarrow> el a i \<le> p" and hi: "\<And>i. s2 < i \<Longrightarrow> i \<le> r \<Longrightarrow> p \<le> el a i"
    by (auto simp: holed_def)
  obtain k where k: "scan_down a p s1 s2 = Some k" "s1 \<le> k" "k \<le> s2" "s1 < k \<Longrightarrow> el a k < p"
    and hi': "\<And>i. k < i \<Longrightarrow> i \<le> s2 \<Longrightarrow> p \<le> el a i"
    using scan_down_ok [of s1 s2 a p] h lr by (auto elim: okE)
  have hi2: "p \<le> el a i" if "k < i" "i \<le> r" for i
    using hi hi' that by (cases "i \<le> s2") auto
  show ?thesis
  proof (cases "s1 < k")
    case True
    have "el (up a s1 (el a k)) i \<le> p" if "l \<le> i" "i < s1 + 1" for i
      using lo that True k h lr by (cases "i = s1") (auto simp: less_imp_le)
    with True show ?thesis
      using k h lr hi2 holed_move [of l r c a s1 p k]
      by (simp add: fill_left_def wp holed_def)
  next
    case False
    then show ?thesis using k h lr hi2 lo by (simp add: fill_left_def wp holed_def)
  qed
qed

lemma fill_right_ok:
  assumes I: "hole_right c l r p (a, s1, s2)" and lr: "0 \<le> l" "r < len c"
  shows "ok (fill_right p (a, s1, s2)) (\<lambda>st. hole_left c l r p st \<and>
    gap st \<le> nat (s2 - s1) \<and> (s1 < s2 \<longrightarrow> gap st < nat (s2 - s1)))"
proof -
  from I have h: "l \<le> s1" "s1 \<le> s2" "s2 \<le> r" "length a = length c" "seg_perm l r c (up a s2 p)"
    and lo: "\<And>i. l \<le> i \<Longrightarrow> i < s1 \<Longrightarrow> el a i \<le> p" and hi: "\<And>i. s2 < i \<Longrightarrow> i \<le> r \<Longrightarrow> p \<le> el a i"
    by (auto simp: holed_def)
  obtain k where k: "scan_up a p s1 s2 = Some k" "s1 \<le> k" "k \<le> s2" "k < s2 \<Longrightarrow> p < el a k"
    and lo': "\<And>i. s1 \<le> i \<Longrightarrow> i < k \<Longrightarrow> el a i \<le> p"
    using scan_up_ok [of s1 s2 a p] h lr by (auto elim: okE)
  have lo2: "el a i \<le> p" if "l \<le> i" "i < k" for i
    using lo lo' that by (cases "i < s1") auto
  show ?thesis
  proof (cases "k < s2")
    case True
    have "p \<le> el (up a s2 (el a k)) i" if "s2 - 1 < i" "i \<le> r" for i
      using hi that True k h lr by (cases "i = s2") (auto simp: less_imp_le)
    with True show ?thesis
      using k h lr lo2 holed_move [of l r c a s2 p k]
      by (simp add: fill_right_def wp holed_def)
  next
    case False
    then show ?thesis using k h lr lo2 hi by (simp add: fill_right_def wp holed_def)
  qed
qed

section \<open>Partitions\<close>

definition partitioned :: "int \<Rightarrow> int \<Rightarrow> int \<Rightarrow> int list \<Rightarrow> int list \<Rightarrow> bool" where
  "partitioned l r k a b \<longleftrightarrow> l \<le> k \<and> k \<le> r \<and> seg_perm l r a b \<and>
     (\<forall>i. l \<le> i \<and> i \<le> k \<longrightarrow> el b i \<le> el b k) \<and> (\<forall>i. k \<le> i \<and> i \<le> r \<longrightarrow> el b k \<le> el b i)"

lemma partitioned_trans: "seg_perm l r a b \<Longrightarrow> partitioned l r k b c \<Longrightarrow> partitioned l r k a c"
  by (auto simp: partitioned_def intro: seg_perm_trans)

lemma holed_partitioned:
  assumes "holed c l r p s1 (a, s1, s1)" "0 \<le> l" "r < len c"
  shows "partitioned l r s1 c (up a s1 p)"
proof -
  have "el (up a s1 p) i \<le> p" if "l \<le> i" "i \<le> s1" for i
    using assms that by (cases "i = s1") (auto simp: holed_def)
  moreover have "p \<le> el (up a s1 p) i" if "s1 \<le> i" "i \<le> r" for i
    using assms that by (cases "i = s1") (auto simp: holed_def)
  ultimately show ?thesis using assms by (simp add: partitioned_def holed_def)
qed

lemma left_partition_ok:
  assumes "0 \<le> l" "l < r" "r < len c"
  shows "ok (left_partition c l r) (\<lambda>(b, k). partitioned l r k c b)"
proof -
  let ?p = "el c l"
  have "ok (cwhile (\<lambda>(ptr, start1, start2). Some (start1 < start2))
      (\<lambda>st. do { st \<leftarrow> fill_left ?p st; fill_right ?p st }) (c, l, r))
    (\<lambda>(a, s1, s2). s1 = s2 \<and> hole_left c l r ?p (a, s1, s2))"
  proof (rule cwhile_rule [where I = "hole_left c l r ?p" and m = gap])
    show "hole_left c l r ?p (c, l, r)" using assms by (auto simp: holed_def)
  next
    fix st assume I: "hole_left c l r ?p st"
    obtain a s1 s2 where st: "st = (a, s1, s2)" by (cases st) auto
    have "s1 \<le> s2" using I st by (simp add: holed_def)
    moreover have "ok (do { st \<leftarrow> fill_left ?p st; fill_right ?p st })
        (\<lambda>st'. hole_left c l r ?p st' \<and> gap st' < gap st)" if "s1 < s2"
      unfolding ok_bind
      by (rule ok_mono [OF fill_left_ok [OF I [unfolded st] assms(1,3), folded st]])
        (use that st assms in \<open>auto elim!: ok_mono [OF fill_right_ok [of c l r ?p]]\<close>)
    ultimately show "ok (case st of (ptr, start1, start2) \<Rightarrow> Some (start1 < start2))
       (\<lambda>t. (t \<longrightarrow> ok (do { st \<leftarrow> fill_left ?p st; fill_right ?p st })
          (\<lambda>s'. hole_left c l r ?p s' \<and> gap s' < gap st)) \<and>
        (\<not> t \<longrightarrow> (case st of (a, s1, s2) \<Rightarrow> s1 = s2 \<and> hole_left c l r ?p (a, s1, s2))))"
      using st I by auto
  qed
  then show ?thesis
    unfolding left_partition_def ok_bind ok_rd
    using assms by (auto simp: wp elim!: ok_mono intro: holed_partitioned) (auto simp: holed_def)
qed

lemma right_partition_ok:
  assumes "0 \<le> l" "l < r" "r < len c"
  shows "ok (right_partition c l r) (\<lambda>(b, k). partitioned l r k c b)"
proof -
  let ?p = "el c r"
  have "ok (cwhile (\<lambda>(ptr, start1, start2). Some (start1 < start2))
      (\<lambda>st. do { st \<leftarrow> fill_right ?p st; fill_left ?p st }) (c, l, r))
    (\<lambda>(a, s1, s2). s1 = s2 \<and> hole_left c l r ?p (a, s1, s2))"
  proof (rule cwhile_rule [where I = "hole_right c l r ?p" and m = gap])
    show "hole_right c l r ?p (c, l, r)" using assms by (auto simp: holed_def)
  next
    fix st assume I: "hole_right c l r ?p st"
    obtain a s1 s2 where st: "st = (a, s1, s2)" by (cases st) auto
    have "s1 \<le> s2" using I st by (simp add: holed_def)
    moreover have "ok (do { st \<leftarrow> fill_right ?p st; fill_left ?p st })
        (\<lambda>st'. hole_right c l r ?p st' \<and> gap st' < gap st)" if "s1 < s2"
      unfolding ok_bind
      by (rule ok_mono [OF fill_right_ok [OF I [unfolded st] assms(1,3), folded st]])
        (use that st assms in \<open>auto elim!: ok_mono [OF fill_left_ok [of c l r ?p]]\<close>)
    ultimately show "ok (case st of (ptr, start1, start2) \<Rightarrow> Some (start1 < start2))
       (\<lambda>t. (t \<longrightarrow> ok (do { st \<leftarrow> fill_right ?p st; fill_left ?p st })
          (\<lambda>s'. hole_right c l r ?p s' \<and> gap s' < gap st)) \<and>
        (\<not> t \<longrightarrow> (case st of (a, s1, s2) \<Rightarrow> s1 = s2 \<and> hole_left c l r ?p (a, s1, s2))))"
      using st I by auto
  qed
  then show ?thesis
    unfolding right_partition_def ok_bind ok_rd
    using assms by (auto simp: wp elim!: ok_mono intro: holed_partitioned) (auto simp: holed_def)
qed

section \<open>Median of three\<close>

lemma mid_bounds: "l \<le> r \<Longrightarrow> l \<le> l + (r - l) div 2 \<and> l + (r - l) div 2 \<le> r" for l r :: int
  by auto

lemma choose_right_ok:
  assumes lr: "0 \<le> l" "l < r" "r < len a"
  shows "ok (choose_right a l r) (\<lambda>b. seg_perm l r a b)"
proof -
  define m where "m = l + (r - l) div 2"
  have m: "l \<le> m" "m \<le> r" using mid_bounds [of l r] lr by (auto simp: m_def)
  show ?thesis
    unfolding choose_right_def Let_def m_def [symmetric]
    using lr m by (auto simp: wp intro!: seg_perm_sw_trans)
qed

text \<open>
  The value left in \<open>ptr[right]\<close> is the middle one of the three: one of them is not larger
  (it is at \<open>left\<close>) and one is not smaller (at \<open>mid\<close>).
\<close>

lemma choose_right_median:
  assumes lr: "0 \<le> l" "l + 1 < r" "r < len a"
  shows "ok (choose_right a l r) (\<lambda>b. el b l \<le> el b r \<and> el b r \<le> el b (l + (r - l) div 2))"
proof -
  define m where "m = l + (r - l) div 2"
  have m: "l < m" "m < r" using lr by (auto simp: m_def)
  show ?thesis
    unfolding choose_right_def Let_def m_def [symmetric]
    using lr m by (auto simp: wp el_sw)
qed

section \<open>The partition that exchanges\<close>

lemma step_down_ok:
  assumes "0 \<le> s1" "s1 \<le> s2" "s2 \<le> len a" "\<And>i. s2 \<le> i \<Longrightarrow> i \<le> r \<Longrightarrow> p \<le> el a i"
  shows "ok (step_down a p s1 s2) (\<lambda>k. s1 \<le> k \<and> k \<le> s2 \<and> (s1 < s2 \<longrightarrow> k < s2) \<and>
    (\<forall>i. k < i \<and> i \<le> r \<longrightarrow> p \<le> el a i) \<and> (s1 < k \<longrightarrow> el a k < p))"
  using assms
proof (induction "nat (s2 - s1)" arbitrary: s2)
  case 0
  then show ?case by (subst step_down.simps) simp
next
  case (Suc n)
  then have lt: "s1 < s2" by simp
  show ?case
  proof (cases "p \<le> el a (s2 - 1)")
    case True
    have "p \<le> el a i" if "s2 - 1 \<le> i" "i \<le> r" for i
      using True Suc.prems that by (cases "i = s2 - 1") auto
    then have "ok (step_down a p s1 (s2 - 1)) (\<lambda>k. s1 \<le> k \<and> k \<le> s2 - 1 \<and> (s1 < s2 - 1 \<longrightarrow> k < s2 - 1) \<and>
      (\<forall>i. k < i \<and> i \<le> r \<longrightarrow> p \<le> el a i) \<and> (s1 < k \<longrightarrow> el a k < p))"
      using Suc lt by (intro Suc.hyps) auto
    then have "ok (step_down a p s1 (s2 - 1)) (\<lambda>k. s1 \<le> k \<and> k \<le> s2 \<and> (s1 < s2 \<longrightarrow> k < s2) \<and>
      (\<forall>i. k < i \<and> i \<le> r \<longrightarrow> p \<le> el a i) \<and> (s1 < k \<longrightarrow> el a k < p))"
      by (rule ok_mono) auto
    with True lt Suc.prems show ?thesis by (subst step_down.simps) (simp add: wp)
  next
    case False
    with lt Suc.prems show ?thesis by (subst step_down.simps) (auto simp: wp)
  qed
qed

lemma step_up_ok:
  assumes "0 \<le> s1" "s1 \<le> s2" "s2 < len a" "\<And>i. l \<le> i \<Longrightarrow> i \<le> s1 \<Longrightarrow> el a i \<le> p"
    and "s1 < s2 \<Longrightarrow> el a s2 < p"
  shows "ok (step_up a p s1 s2) (\<lambda>k. s1 \<le> k \<and> k \<le> s2 \<and>
    (\<forall>i. l \<le> i \<and> i < k \<longrightarrow> el a i \<le> p) \<and> (k < s2 \<longrightarrow> p < el a k) \<and> (k = s2 \<longrightarrow> el a k \<le> p \<or> k = s1))"
  using assms
proof (induction "nat (s2 - s1)" arbitrary: s1)
  case 0
  then show ?case by (subst step_up.simps) auto
next
  case (Suc n)
  then have lt: "s1 < s2" by simp
  show ?case
  proof (cases "el a (s1 + 1) \<le> p")
    case True
    have "el a i \<le> p" if "l \<le> i" "i \<le> s1 + 1" for i
      using True Suc.prems that by (cases "i = s1 + 1") auto
    then have "ok (step_up a p (s1 + 1) s2) (\<lambda>k. s1 + 1 \<le> k \<and> k \<le> s2 \<and>
      (\<forall>i. l \<le> i \<and> i < k \<longrightarrow> el a i \<le> p) \<and> (k < s2 \<longrightarrow> p < el a k) \<and> (k = s2 \<longrightarrow> el a k \<le> p \<or> k = s1 + 1))"
      using Suc lt by (intro Suc.hyps) auto
    then have "ok (step_up a p (s1 + 1) s2) (\<lambda>k. s1 \<le> k \<and> k \<le> s2 \<and>
      (\<forall>i. l \<le> i \<and> i < k \<longrightarrow> el a i \<le> p) \<and> (k < s2 \<longrightarrow> p < el a k) \<and> (k = s2 \<longrightarrow> el a k \<le> p \<or> k = s1))"
      by (rule ok_mono) (use True in auto)
    with True lt Suc.prems show ?thesis by (subst step_up.simps) (simp add: wp)
  next
    case False
    have "el a i \<le> p" if "l \<le> i" "i < s1 + 1" for i using Suc.prems that by auto
    moreover have "s1 + 1 \<noteq> s2" using False Suc.prems lt by auto
    ultimately show ?thesis using False lt Suc.prems by (subst step_up.simps) (auto simp: wp)
  qed
qed

text \<open>Between rounds: elements up to the pivot on the left, from it on the right.\<close>

definition exch :: "int list \<Rightarrow> int \<Rightarrow> int \<Rightarrow> int \<Rightarrow> int list \<times> int \<times> int \<Rightarrow> bool" where
  "exch c l r p = (\<lambda>(a, s1, s2). l \<le> s1 \<and> s1 \<le> s2 \<and> s2 \<le> r + 1 \<and> s1 \<le> r \<and> seg_perm l r c a \<and> el a l = p \<and>
     (\<forall>i. l \<le> i \<and> i \<le> s1 \<longrightarrow> el a i \<le> p) \<and> (\<forall>i. s2 \<le> i \<and> s1 < i \<and> i \<le> r \<longrightarrow> p \<le> el a i))"

definition exch_body :: "int \<Rightarrow> int list \<times> int \<times> int \<Rightarrow> (int list \<times> int \<times> int) option" where
  "exch_body p = (\<lambda>(ptr, start1, start2). do {
          start2 \<leftarrow> step_down ptr p start1 start2;
          start1 \<leftarrow> step_up ptr p start1 start2;
          ptr \<leftarrow> (if start1 < start2 then Swap ptr start1 start2 else Some ptr);
          Some (ptr, start1, start2) })"

lemma exch_body_ok:
  assumes I: "exch c l r p (a, s1, s2)" and lr: "0 \<le> l" "r < len c" and lt: "s1 < s2"
  shows "ok (exch_body p (a, s1, s2)) (\<lambda>st. exch c l r p st \<and> gap st < nat (s2 - s1))"
proof -
  from I have h: "l \<le> s1" "s2 \<le> r + 1" "s1 \<le> r" "seg_perm l r c a" "el a l = p" "length a = length c"
    and lo: "\<And>i. l \<le> i \<Longrightarrow> i \<le> s1 \<Longrightarrow> el a i \<le> p" and hi: "\<And>i. s2 \<le> i \<Longrightarrow> i \<le> r \<Longrightarrow> p \<le> el a i"
    using lt by (auto simp: exch_def dest: seg_perm_length)
  obtain k2 where k2: "step_down a p s1 s2 = Some k2" "s1 \<le> k2" "k2 < s2" "s1 < k2 \<Longrightarrow> el a k2 < p"
    and hi2: "\<And>i. k2 < i \<Longrightarrow> i \<le> r \<Longrightarrow> p \<le> el a i"
    using step_down_ok [of s1 s2 a r p] h hi lr lt by (auto elim: okE)
  obtain k1 where k1: "step_up a p s1 k2 = Some k1" "s1 \<le> k1" "k1 \<le> k2" "k1 < k2 \<Longrightarrow> p < el a k1"
      "k1 = k2 \<Longrightarrow> el a k1 \<le> p \<or> k1 = s1"
    and lo1: "\<And>i. l \<le> i \<Longrightarrow> i < k1 \<Longrightarrow> el a i \<le> p"
    using step_up_ok [of s1 k2 a l p] h lo lr k2 by (auto elim: okE)
  show ?thesis
  proof (cases "k1 < k2")
    case True
    then have s1: "s1 < k1" using k1 lo [of k1] h by (cases "s1 = k1") auto
    have "el (sw a k1 k2) i \<le> p" if "l \<le> i" "i \<le> k1" for i
      using lo1 [of i] that True k1 k2 h lr by (auto simp: el_sw less_imp_le)
    moreover have "p \<le> el (sw a k1 k2) i" if "k2 \<le> i" "i \<le> r" for i
      using hi2 [of i] that True k1 k2 h lr by (auto simp: el_sw less_imp_le)
    moreover have "seg_perm l r c (sw a k1 k2)"
      by (rule seg_perm_sw_trans [OF h(4) lr]) (use k1 k2 h in linarith)+
    moreover have "el (sw a k1 k2) l = p" using True k1 k2 h lr s1 by (simp add: el_sw)
    ultimately show ?thesis using True k1 k2 h lr lt by (simp add: exch_body_def wp exch_def)
  next
    case False
    then have "k1 = k2" using k1 by simp
    have "el a i \<le> p" if "l \<le> i" "i \<le> k1" for i
      using lo1 [of i] lo [of i] that k1 \<open>k1 = k2\<close> by (cases "i = k1") auto
    then show ?thesis using k1 k2 h lr lt hi2 \<open>k1 = k2\<close> by (simp add: exch_body_def wp exch_def)
  qed
qed

lemma exch_loop_ok:
  assumes "0 \<le> l" "l \<le> r" "r < len c"
  shows "ok (cwhile (\<lambda>(ptr, start1, start2). Some (start1 < start2)) (exch_body (el c l)) (c, l, r + 1))
    (\<lambda>(a, s1, s2). s1 = s2 \<and> exch c l r (el c l) (a, s1, s2))"
proof (rule cwhile_rule [where I = "exch c l r (el c l)" and m = gap])
  show "exch c l r (el c l) (c, l, r + 1)" using assms by (auto simp: exch_def)
next
  fix st assume I: "exch c l r (el c l) st"
  obtain a s1 s2 where st: "st = (a, s1, s2)" by (cases st) auto
  then show "ok (case st of (ptr, start1, start2) \<Rightarrow> Some (start1 < start2))
       (\<lambda>t. (t \<longrightarrow> ok (exch_body (el c l) st) (\<lambda>s'. exch c l r (el c l) s' \<and> gap s' < gap st)) \<and>
        (\<not> t \<longrightarrow> (case st of (a, s1, s2) \<Rightarrow> s1 = s2 \<and> exch c l r (el c l) (a, s1, s2))))"
    using I exch_body_ok [of c l r "el c l" a s1 s2] assms by (auto simp: exch_def)
qed

lemma exch_partitioned:
  assumes I: "exch c l r p (a, s1, s1)" and lr: "0 \<le> l" "r < len c"
  shows "partitioned l r s1 c (sw a l s1)"
proof -
  from I have h: "l \<le> s1" "s1 \<le> r" "seg_perm l r c a" "el a l = p" "length a = length c"
    and lo: "\<And>i. l \<le> i \<Longrightarrow> i \<le> s1 \<Longrightarrow> el a i \<le> p" and hi: "\<And>i. s1 < i \<Longrightarrow> i \<le> r \<Longrightarrow> p \<le> el a i"
    by (auto simp: exch_def dest: seg_perm_length)
  have p: "el (sw a l s1) s1 = p" using h lr by (simp add: el_sw)
  have "el (sw a l s1) i \<le> p" if "l \<le> i" "i \<le> s1" for i
    using lo [of i] lo [of s1] that h lr by (simp add: el_sw)
  moreover have "p \<le> el (sw a l s1) i" if "s1 \<le> i" "i \<le> r" for i
    using hi [of i] that h lr by (cases "i = s1") (simp_all add: el_sw)
  moreover have "seg_perm l r c (sw a l s1)"
    by (rule seg_perm_sw_trans [OF h(3) lr]) (use h in linarith)+
  ultimately show ?thesis using h p by (simp add: partitioned_def)
qed

lemma swap_partition_ok:
  assumes lr: "0 \<le> l" "l < r" "r < len c"
  shows "ok (swap_partition c l r) (\<lambda>(b, k). partitioned l r k c b)"
proof -
  define m where "m = l + (r - l) div 2"
  have m: "l \<le> m" "m \<le> r" using mid_bounds [of l r] lr by (auto simp: m_def)
  have tail: "ok (do {
     pivot \<leftarrow> rd b l;
     (ptr, start1, start2) \<leftarrow> cwhile (\<lambda>(ptr, start1, start2). Some (start1 < start2)) (exch_body pivot) (b, l, r + 1);
     ptr \<leftarrow> Swap ptr l start1;
     Some (ptr, start1) }) (\<lambda>(b, k). partitioned l r k c b)" if p: "seg_perm l r c b" for b
  proof -
    have b: "len b = len c" using p by (auto dest: seg_perm_length)
    have "ok (do { ptr \<leftarrow> Swap a l s1; Some (ptr, s1) }) (\<lambda>(b, k). partitioned l r k c b)"
      if "exch b l r (el b l) (a, s1, s1)" for a s1
    proof -
      have "length a = length b" "l \<le> s1" "s1 \<le> r"
        using that by (auto simp: exch_def dest: seg_perm_length)
      then show ?thesis
        using exch_partitioned [OF that] partitioned_trans [OF p] lr b by (simp add: wp)
    qed
    then show ?thesis
      using exch_loop_ok [of l r b] lr b by (auto simp: ok_bind ok_rd elim!: ok_mono)
  qed
  show ?thesis
    unfolding swap_partition_def Let_def m_def [symmetric] exch_body_def [symmetric]
    apply (simp only: ok_bind ok_rd ok_if ok_Swap ok_Some)
    apply (insert tail lr m)
    apply (simp only: ok_bind ok_rd ok_if ok_Swap ok_Some length_sw)
    by (intro conjI impI; (simp add: seg_perm_sw_trans)?)
qed

section \<open>Sorting the parts sorts the whole\<close>

text \<open>Up to \<open>pl\<close> at most \<open>v\<close>, then \<open>v\<close> itself, from \<open>pr\<close> on at least \<open>v\<close>.\<close>

definition split3 :: "int \<Rightarrow> int \<Rightarrow> int \<Rightarrow> int \<Rightarrow> int \<Rightarrow> int list \<Rightarrow> bool" where
  "split3 l pl pr r v b \<longleftrightarrow> l - 1 \<le> pl \<and> pl < pr \<and> pr \<le> r + 1 \<and>
     (\<forall>i. l \<le> i \<and> i \<le> pl \<longrightarrow> el b i \<le> v) \<and> (\<forall>i. pl < i \<and> i < pr \<longrightarrow> el b i = v) \<and>
     (\<forall>i. pr \<le> i \<and> i \<le> r \<longrightarrow> v \<le> el b i)"

lemma partitioned_split3: "partitioned l r k a b \<Longrightarrow> split3 l (k - 1) (k + 1) r (el b k) b"
  by (auto simp: partitioned_def split3_def) (metis add1_zle_eq antisym int_one_le_iff_zero_less
      zle_diff1_eq not_less less_irrefl linorder_neqE_linordered_idom)

lemma split3_left:
  assumes s: "split3 l pl pr r v b" and p: "seg_perm l pl b c" and lr: "0 \<le> l" "r < len b"
  shows "split3 l pl pr r v c"
proof -
  have "el c i \<le> v" if "l \<le> i" "i \<le> pl" for i
    by (rule seg_perm_all [OF p, where P = "\<lambda>x. x \<le> v"]) (use s lr that in \<open>auto simp: split3_def\<close>)
  moreover have "el c i = el b i" if "pl < i" "i \<le> r" for i
    using seg_perm_outside [OF p, of i] s lr that by (auto simp: split3_def)
  ultimately show ?thesis using s by (simp add: split3_def)
qed

lemma split3_right:
  assumes s: "split3 l pl pr r v b" and p: "seg_perm pr r b c" and lr: "0 \<le> l" "r < len b"
  shows "split3 l pl pr r v c"
proof -
  have "v \<le> el c i" if "pr \<le> i" "i \<le> r" for i
    by (rule seg_perm_all [OF p, where P = "\<lambda>x. v \<le> x"]) (use s lr that in \<open>auto simp: split3_def\<close>)
  moreover have "el c i = el b i" if "l \<le> i" "i < pr" for i
    using seg_perm_outside [OF p, of i] s lr that by (auto simp: split3_def)
  ultimately show ?thesis using s by (simp add: split3_def)
qed

lemma split3_sorted:
  assumes s: "split3 l pl pr r v d" "sorted_seg l pl d" "sorted_seg pr r d"
  shows "sorted_seg l r d"
proof -
  have le: "el d i \<le> v" if "l \<le> i" "i < pr" for i
    using s that by (cases "i \<le> pl") (auto simp: split3_def)
  have ge: "v \<le> el d i" if "pl < i" "i \<le> r" for i
    using s that by (cases "i < pr") (auto simp: split3_def)
  have "sorted_seg l (pr - 1) d"
  proof (rule sorted_seg_join [OF s(2)])
    show "sorted_seg (pl + 1) (pr - 1) d" using s by (auto simp: sorted_seg_def split3_def)
    fix i j assume "l \<le> i" "i \<le> pl" "pl < j" "j \<le> pr - 1"
    then show "el d i \<le> el d j" using le [of i] ge [of j] s by (simp add: split3_def)
  qed
  then show ?thesis
  proof (rule sorted_seg_join)
    show "sorted_seg (pr - 1 + 1) r d" using s by simp
    fix i j assume "l \<le> i" "i \<le> pr - 1" "pr - 1 < j" "j \<le> r"
    moreover have "pl < pr" using s by (simp add: split3_def)
    ultimately have "el d i \<le> v" "v \<le> el d j" using le [of i] ge [of j] by simp_all
    then show "el d i \<le> el d j" by simp
  qed
qed

lemma split3_left_right:
  assumes s: "split3 l pl pr r v b" and c: "seg_perm l pl b c" "sorted_seg l pl c"
    and d: "seg_perm pr r c d" "sorted_seg pr r d" and lr: "0 \<le> l" "r < len b"
  shows "seg_perm l r b d \<and> sorted_seg l r d"
proof -
  have bounds: "l - 1 \<le> pl" "pl < pr" "pr \<le> r + 1" using s by (simp_all add: split3_def)
  have len: "len c = len b" using c by (auto dest: seg_perm_length)
  have "split3 l pl pr r v d"
    using split3_right [OF split3_left [OF s c(1) lr] d(1)] lr len by simp
  moreover have "sorted_seg l pl d"
    using c(2) by (rule sorted_seg_cong) (use d(1) bounds lr len in \<open>auto simp: seg_perm_def\<close>)
  moreover have "seg_perm l r b d"
    using seg_perm_trans [OF seg_perm_widen [OF c(1)] seg_perm_widen [OF d(1)], of l r] bounds by simp
  ultimately show ?thesis using split3_sorted d(2) by blast
qed

lemma split3_right_left:
  assumes s: "split3 l pl pr r v b" and c: "seg_perm pr r b c" "sorted_seg pr r c"
    and d: "seg_perm l pl c d" "sorted_seg l pl d" and lr: "0 \<le> l" "r < len b"
  shows "seg_perm l r b d \<and> sorted_seg l r d"
proof -
  have bounds: "l - 1 \<le> pl" "pl < pr" "pr \<le> r + 1" using s by (simp_all add: split3_def)
  have len: "len c = len b" using c by (auto dest: seg_perm_length)
  have "split3 l pl pr r v d"
    using split3_left [OF split3_right [OF s c(1) lr] d(1)] lr len by simp
  moreover have "sorted_seg pr r d"
    using c(2) by (rule sorted_seg_cong) (use d(1) bounds lr len in \<open>auto simp: seg_perm_def\<close>)
  moreover have "seg_perm l r b d"
    using seg_perm_trans [OF seg_perm_widen [OF c(1)] seg_perm_widen [OF d(1)], of l r] bounds by simp
  ultimately show ?thesis using split3_sorted d(2) by blast
qed

section \<open>Quick sort from a partition\<close>

locale quick =
  fixes part :: "int list \<Rightarrow> int \<Rightarrow> int \<Rightarrow> (int list \<times> int) option"
    and qs :: "int list \<Rightarrow> int \<Rightarrow> int \<Rightarrow> int list option"
  assumes part: "0 \<le> l \<Longrightarrow> l < r \<Longrightarrow> r < len a \<Longrightarrow> ok (part a l r) (\<lambda>(b, k). partitioned l r k a b)"
    and unfold: "qs a l r = (if r - l \<le> 1 then sort_small a l r
      else do { (a, k) \<leftarrow> part a l r; a \<leftarrow> qs a l (k - 1); qs a (k + 1) r })"
begin

lemma qs_ok:
  assumes "0 \<le> l" "r < len a"
  shows "ok (qs a l r) (\<lambda>b. seg_perm l r a b \<and> sorted_seg l r b)"
  using assms
proof (induction "nat (r - l)" arbitrary: a l r rule: less_induct)
  case less
  show ?case
  proof (cases "r - l \<le> 1")
    case True
    then show ?thesis using sort_small_ok less.prems by (subst unfold) simp
  next
    case False
    then obtain b k where b: "part a l r = Some (b, k)" "partitioned l r k a b"
      using part [of l r a] less.prems by (auto elim!: okE)
    then have k: "l \<le> k" "k \<le> r" "seg_perm l r a b" "len b = len a"
      by (auto simp: partitioned_def dest: seg_perm_length)
    obtain c where c: "qs b l (k - 1) = Some c" "seg_perm l (k - 1) b c" "sorted_seg l (k - 1) c"
      using less.hyps [of "k - 1" l b] False less.prems k by (auto elim: okE)
    then have "len c = len a" using k by (auto dest: seg_perm_length)
    then obtain d where d: "qs c (k + 1) r = Some d" "seg_perm (k + 1) r c d" "sorted_seg (k + 1) r d"
      using less.hyps [of r "k + 1" c] False less.prems k by (auto elim: okE)
    have "seg_perm l r b d \<and> sorted_seg l r d"
      by (rule split3_left_right [OF partitioned_split3 [OF b(2)] c(2,3) d(2,3)]) (use less.prems k in auto)
    then show ?thesis
      using False b c d k by (subst unfold) (auto intro: seg_perm_trans)
  qed
qed

lemma qs_sorts: "sorts_to a (qs a 0 (len a - 1))"
  by (rule sorts_toI) (rule qs_ok; simp)

end

interpretation quick1: quick left_partition quick_sort_rec
  by unfold_locales (rule left_partition_ok, assumption+, subst quick_sort_rec.simps, rule refl)

interpretation quick2: quick right_partition quick_sort2_rec
  by unfold_locales (rule right_partition_ok, assumption+, subst quick_sort2_rec.simps, rule refl)

lemma partition_ok:
  assumes "0 \<le> l" "l < r" "r < len a"
  shows "ok (partition a l r) (\<lambda>(b, k). partitioned l r k a b)"
  unfolding partition_def ok_bind
  by (rule ok_mono [OF choose_right_ok [OF assms]], rule ok_mono [OF right_partition_ok])
    (use assms in \<open>auto simp: seg_perm_length intro: partitioned_trans\<close>)

interpretation median_quick: quick partition better_quick_sort_rec
proof
  fix a l r show "better_quick_sort_rec a l r = (if r - l \<le> 1 then sort_small a l r
      else do { (a, k) \<leftarrow> partition a l r; a \<leftarrow> better_quick_sort_rec a l (k - 1);
        better_quick_sort_rec a (k + 1) r })"
    by (subst better_quick_sort_rec.simps) (simp add: partition_def)
qed (rule partition_ok)

interpretation quick3: quick swap_partition quick_sort3_rec
  by unfold_locales (rule swap_partition_ok, assumption+, subst quick_sort3_rec.simps, rule refl)

section \<open>Setting the repeated elements apart\<close>

text \<open>The two loop bodies, and the invariants they keep.\<close>

definition deal_left :: "int \<Rightarrow> int \<Rightarrow> int list \<times> int \<Rightarrow> (int list \<times> int) option" where
  "deal_left pos i = (\<lambda>(ptr, pos_left). do {
         x \<leftarrow> rd ptr pos;
         y \<leftarrow> rd ptr i;
         if x = y then do {
           ptr \<leftarrow> (if pos_left \<noteq> i then Swap ptr i pos_left else Some ptr);
           Some (ptr, pos_left - 1) }
         else Some (ptr, pos_left) })"

definition deal_right :: "int \<Rightarrow> int \<Rightarrow> int list \<times> int \<Rightarrow> (int list \<times> int) option" where
  "deal_right pos i = (\<lambda>(ptr, pos_right). do {
         x \<leftarrow> rd ptr pos;
         y \<leftarrow> rd ptr i;
         if x = y then do {
           ptr \<leftarrow> (if pos_right \<noteq> i then Swap ptr i pos_right else Some ptr);
           Some (ptr, pos_right + 1) }
         else Some (ptr, pos_right) })"

definition left_inv :: "int list \<Rightarrow> int \<Rightarrow> int \<Rightarrow> int \<Rightarrow> int list \<times> int \<Rightarrow> bool" where
  "left_inv a l pos i = (\<lambda>(b, pl). i \<le> pl \<and> pl < pos \<and> seg_perm l (pos - 1) a b \<and>
     (\<forall>j. pl < j \<and> j < pos \<longrightarrow> el b j = el a pos) \<and> (\<forall>j. i < j \<and> j \<le> pl \<longrightarrow> el b j \<noteq> el a pos))"

definition right_inv :: "int list \<Rightarrow> int \<Rightarrow> int \<Rightarrow> int \<Rightarrow> int list \<times> int \<Rightarrow> bool" where
  "right_inv a r pos i = (\<lambda>(b, pr). pos < pr \<and> pr \<le> i \<and> seg_perm (pos + 1) r a b \<and>
     (\<forall>j. pos < j \<and> j < pr \<longrightarrow> el b j = el a pos) \<and> (\<forall>j. pr \<le> j \<and> j < i \<longrightarrow> el b j \<noteq> el a pos))"

lemma deal_left_step:
  assumes I: "left_inv a l pos i (b, pl)" and lr: "0 \<le> l" "pos < len a" and i: "l \<le> i" "i < pos"
  shows "ok (deal_left pos i (b, pl)) (left_inv a l pos (i - 1))"
proof -
  from I have pl: "i \<le> pl" "pl < pos" and P: "seg_perm l (pos - 1) a b"
    and eq: "\<And>j. pl < j \<Longrightarrow> j < pos \<Longrightarrow> el b j = el a pos"
    and ne: "\<And>j. i < j \<Longrightarrow> j \<le> pl \<Longrightarrow> el b j \<noteq> el a pos" by (auto simp: left_inv_def)
  have len: "len b = len a" using P by (auto dest: seg_perm_length)
  have pos: "el b pos = el a pos" using seg_perm_outside [OF P, of pos] lr i by simp
  have "left_inv a l pos (i - 1) (sw b i pl, pl - 1)" if hit: "el b i = el a pos"
  proof -
    have "seg_perm l (pos - 1) a (sw b i pl)"
      by (rule seg_perm_sw_trans [OF P]) (use i pl lr in linarith)+
    moreover have "el (sw b i pl) j = el a pos" if "pl - 1 < j" "j < pos" for j
      using that eq [of j] hit i pl lr len by (cases "j = pl") (auto simp: el_sw)
    moreover have "el (sw b i pl) j \<noteq> el a pos" if "i - 1 < j" "j \<le> pl - 1" for j
      using that ne [of j] ne [of pl] i pl lr len by (cases "j = i") (auto simp: el_sw)
    ultimately show ?thesis using pl by (simp add: left_inv_def)
  qed
  moreover have "left_inv a l pos (i - 1) (b, pl)" if "el b i \<noteq> el a pos"
  proof -
    have "el b j \<noteq> el a pos" if "i - 1 < j" "j \<le> pl" for j
      using that ne [of j] \<open>el b i \<noteq> el a pos\<close> by (cases "j = i") auto
    then show ?thesis using pl P eq by (simp add: left_inv_def)
  qed
  ultimately show ?thesis
    using i pl lr len by (cases "pl = i") (auto simp: deal_left_def wp pos)
qed

lemma deal_right_step:
  assumes I: "right_inv a r pos i (b, pr)" and lr: "0 \<le> pos" "r < len a" and i: "pos < i" "i \<le> r"
  shows "ok (deal_right pos i (b, pr)) (right_inv a r pos (i + 1))"
proof -
  from I have pr: "pos < pr" "pr \<le> i" and P: "seg_perm (pos + 1) r a b"
    and eq: "\<And>j. pos < j \<Longrightarrow> j < pr \<Longrightarrow> el b j = el a pos"
    and ne: "\<And>j. pr \<le> j \<Longrightarrow> j < i \<Longrightarrow> el b j \<noteq> el a pos" by (auto simp: right_inv_def)
  have len: "len b = len a" using P by (auto dest: seg_perm_length)
  have pos: "el b pos = el a pos" using seg_perm_outside [OF P, of pos] lr i by simp
  have "right_inv a r pos (i + 1) (sw b i pr, pr + 1)" if hit: "el b i = el a pos"
  proof -
    have "seg_perm (pos + 1) r a (sw b i pr)"
      by (rule seg_perm_sw_trans [OF P]) (use i pr lr in linarith)+
    moreover have "el (sw b i pr) j = el a pos" if "pos < j" "j < pr + 1" for j
      using that eq [of j] hit i pr lr len by (cases "j = pr") (auto simp: el_sw)
    moreover have "el (sw b i pr) j \<noteq> el a pos" if "pr + 1 \<le> j" "j < i + 1" for j
      using that ne [of j] ne [of pr] i pr lr len by (cases "j = i") (auto simp: el_sw)
    ultimately show ?thesis using pr by (simp add: right_inv_def)
  qed
  moreover have "right_inv a r pos (i + 1) (b, pr)" if "el b i \<noteq> el a pos"
  proof -
    have "el b j \<noteq> el a pos" if "pr \<le> j" "j < i + 1" for j
      using that ne [of j] \<open>el b i \<noteq> el a pos\<close> by (cases "j = i") auto
    then show ?thesis using pr P eq by (simp add: right_inv_def)
  qed
  ultimately show ?thesis
    using i pr lr len by (cases "pr = i") (auto simp: deal_right_def wp pos)
qed

lemma deal_left_ok:
  assumes lr: "0 \<le> l" "l \<le> pos" "pos < len a"
  shows "ok (for_down (pos - 1) l (deal_left pos) (a, pos - 1)) (left_inv a l pos (l - 1))"
proof (rule for_down_rule [where I = "left_inv a l pos"])
  fix i st assume "l \<le> i" "i \<le> pos - 1" "left_inv a l pos i st"
  then show "ok (deal_left pos i st) (left_inv a l pos (i - 1))"
    using deal_left_step [of a l pos i "fst st" "snd st"] lr by simp
qed (use lr in \<open>auto simp: left_inv_def\<close>)

lemma deal_right_ok:
  assumes lr: "0 \<le> pos" "pos \<le> r" "r < len a"
  shows "ok (for_up (pos + 1) (r + 1) (deal_right pos) (a, pos + 1)) (right_inv a r pos (r + 1))"
proof (rule for_up_rule [where I = "right_inv a r pos"])
  fix i st assume "pos + 1 \<le> i" "i < r + 1" "right_inv a r pos i st"
  then show "ok (deal_right pos i st) (right_inv a r pos (i + 1))"
    using deal_right_step [of a r pos i "fst st" "snd st"] lr by simp
qed (use lr in \<open>auto simp: right_inv_def\<close>)

text \<open>Smaller, equal and larger elements, in this order.\<close>

definition three_way :: "int \<Rightarrow> int \<Rightarrow> int \<Rightarrow> int \<Rightarrow> int \<Rightarrow> int list \<Rightarrow> int list \<Rightarrow> bool" where
  "three_way l pl pr r v a b \<longleftrightarrow> l - 1 \<le> pl \<and> pl < pr - 1 \<and> pr \<le> r + 1 \<and> seg_perm l r a b \<and>
     (\<forall>i. l \<le> i \<and> i \<le> pl \<longrightarrow> el b i < v) \<and> (\<forall>i. pl < i \<and> i < pr \<longrightarrow> el b i = v) \<and>
     (\<forall>i. pr \<le> i \<and> i \<le> r \<longrightarrow> v < el b i)"

lemma three_way_split3: "three_way l pl pr r v a b \<Longrightarrow> split3 l pl pr r v b"
  by (auto simp: three_way_def split3_def less_imp_le)

lemma deal_right_three_way:
  assumes P: "partitioned l r pos c a" and lr: "0 \<le> l" "r < len a"
    and L: "left_inv a l pos (l - 1) (b, pl)" and R: "right_inv b r pos (r + 1) (d, pr)"
  shows "three_way l pl pr r (el a pos) c d"
proof -
  from P have pos: "l \<le> pos" "pos \<le> r" and lo: "\<And>i. l \<le> i \<Longrightarrow> i \<le> pos \<Longrightarrow> el a i \<le> el a pos"
    and hi: "\<And>i. pos \<le> i \<Longrightarrow> i \<le> r \<Longrightarrow> el a pos \<le> el a i" and S: "seg_perm l r c a"
    by (auto simp: partitioned_def)
  from L have pl: "l - 1 \<le> pl" "pl < pos" and B: "seg_perm l (pos - 1) a b"
    and eq: "\<And>j. pl < j \<Longrightarrow> j < pos \<Longrightarrow> el b j = el a pos"
    and ne: "\<And>j. l \<le> j \<Longrightarrow> j \<le> pl \<Longrightarrow> el b j \<noteq> el a pos" by (auto simp: left_inv_def)
  from R have pr: "pos < pr" "pr \<le> r + 1" and D: "seg_perm (pos + 1) r b d"
    and eq': "\<And>j. pos < j \<Longrightarrow> j < pr \<Longrightarrow> el d j = el b pos"
    and ne': "\<And>j. pr \<le> j \<Longrightarrow> j \<le> r \<Longrightarrow> el d j \<noteq> el b pos" by (auto simp: right_inv_def)
  have len: "len b = len a" using B by (auto dest: seg_perm_length)
  have out: "el b i = el a i" if "pos \<le> i" "i \<le> r" for i
    using seg_perm_outside [OF B, of i] that lr pos by auto
  have left: "el d i = el b i" if "l \<le> i" "i \<le> pos" for i
    using seg_perm_outside [OF D, of i] that lr pos len by auto
  have "el d i < el a pos" if "l \<le> i" "i \<le> pl" for i
  proof -
    have "el b i \<le> el a pos"
      by (rule seg_perm_all [OF B, where P = "\<lambda>x. x \<le> el a pos"]) (use lo lr pos pl that in auto)
    with ne [of i] left [of i] that pl show ?thesis by simp
  qed
  moreover have "el a pos < el d i" if "pr \<le> i" "i \<le> r" for i
  proof -
    have "el a pos \<le> el d i"
      by (rule seg_perm_all [OF D, where P = "\<lambda>x. el a pos \<le> x"])
        (use hi out lr pos pr that len in auto)
    with ne' [of i] out [of pos] that pos show ?thesis by simp
  qed
  moreover have "el d i = el a pos" if "pl < i" "i < pr" for i
  proof -
    consider "i < pos" | "i = pos" | "pos < i" by linarith
    then show ?thesis
      using that eq [of i] eq' [of i] left [of i] out [of pos] pos pl by cases auto
  qed
  moreover have "seg_perm l r c d"
    by (rule seg_perm_trans [OF S], rule seg_perm_trans [OF seg_perm_widen [OF B] seg_perm_widen [OF D]])
      (use pos in auto)
  ultimately show ?thesis using pl pr pos by (simp add: three_way_def)
qed

lemma deal_repeat_ok:
  assumes P: "partitioned l r pos c a" and lr: "0 \<le> l" "r < len a"
  shows "ok (deal_repeat a l pos r) (\<lambda>(b, pl, pr). three_way l pl pr r (el a pos) c b)"
proof -
  have pos: "l \<le> pos" "pos \<le> r" using P by (auto simp: partitioned_def)
  obtain b pl where b: "for_down (pos - 1) l (deal_left pos) (a, pos - 1) = Some (b, pl)"
    "left_inv a l pos (l - 1) (b, pl)" using deal_left_ok [of l pos a] lr pos by (auto elim!: okE)
  then have "len b = len a" by (auto simp: left_inv_def dest: seg_perm_length)
  then obtain d pr where d: "for_up (pos + 1) (r + 1) (deal_right pos) (b, pos + 1) = Some (d, pr)"
    "right_inv b r pos (r + 1) (d, pr)" using deal_right_ok [of pos r b] lr pos by (auto elim!: okE)
  have "deal_repeat a l pos r = Some (d, pl, pr)"
    unfolding deal_repeat_def deal_left_def [symmetric] deal_right_def [symmetric] using b d by simp
  then show ?thesis using deal_right_three_way [OF P lr b(2) d(2)] by simp
qed

section \<open>The routines that skip repeated elements\<close>

text \<open>Partition and \<open>deal_repeat\<close> together.\<close>

lemma partition_deal_repeat:
  assumes "0 \<le> l" "l < r" "r < len a"
  obtains b k c pl pr v where "partition a l r = Some (b, k)" "deal_repeat b l k r = Some (c, pl, pr)"
    "three_way l pl pr r v a c" "len c = len a"
proof -
  obtain b k where b: "partition a l r = Some (b, k)" "partitioned l r k a b"
    using partition_ok [OF assms] by (auto elim!: okE)
  then have "len b = len a" by (auto simp: partitioned_def dest: seg_perm_length)
  then obtain c pl pr where c: "deal_repeat b l k r = Some (c, pl, pr)" "three_way l pl pr r (el b k) a c"
    using deal_repeat_ok [OF b(2)] assms by (auto elim!: okE)
  then have "len c = len a" by (auto simp: three_way_def dest: seg_perm_length)
  with b c that show ?thesis by blast
qed

lemma better_quick_sort2_rec_ok:
  assumes "0 \<le> l" "r < len a"
  shows "ok (better_quick_sort2_rec a l r) (\<lambda>b. seg_perm l r a b \<and> sorted_seg l r b)"
  using assms
proof (induction "nat (r - l)" arbitrary: a l r rule: less_induct)
  case less
  show ?case
  proof (cases "r - l \<le> 1")
    case True
    then show ?thesis using sort_small_ok less.prems by (subst better_quick_sort2_rec.simps) simp
  next
    case False
    then have lr: "l < r" by simp
    obtain b k c pl pr v where b: "partition a l r = Some (b, k)" and c: "deal_repeat b l k r = Some (c, pl, pr)"
      and t: "three_way l pl pr r v a c" and lc: "len c = len a"
      using partition_deal_repeat [OF less.prems(1) lr less.prems(2)] .
    then have pl: "l - 1 \<le> pl" "pl < pr - 1" "pr \<le> r + 1" "seg_perm l r a c"
      by (auto simp: three_way_def)
    have "ok (if pl > l then better_quick_sort2_rec c l pl else Some c)
        (\<lambda>d. seg_perm l pl c d \<and> sorted_seg l pl d)"
      using less.hyps [of pl l c] less.prems pl lc by (auto intro: sorted_seg_trivial)
    then obtain d where d: "(if pl > l then better_quick_sort2_rec c l pl else Some c) = Some d"
      "seg_perm l pl c d" "sorted_seg l pl d" by (auto elim: okE)
    then have ld: "len d = len a" using lc by (auto dest: seg_perm_length)
    have "ok (if r > pr then better_quick_sort2_rec d pr r else Some d)
        (\<lambda>e. seg_perm pr r d e \<and> sorted_seg pr r e)"
      using less.hyps [of r pr d] less.prems pl ld by (auto intro: sorted_seg_trivial)
    then obtain e where e: "(if r > pr then better_quick_sort2_rec d pr r else Some d) = Some e"
      "seg_perm pr r d e" "sorted_seg pr r e" by (auto elim: okE)
    have "seg_perm l r c e \<and> sorted_seg l r e"
      by (rule split3_left_right [OF three_way_split3 [OF t] d(2,3) e(2,3)]) (use less.prems lc in auto)
    moreover obtain a' where "choose_right a l r = Some a'" "right_partition a' l r = Some (b, k)"
      using b by (auto simp: partition_def bind_eq_Some_conv)
    ultimately show ?thesis
      using False c d e pl by (subst better_quick_sort2_rec.simps) (auto intro: seg_perm_trans)
  qed
qed

lemma better_quick_sort3_rec_ok:
  assumes "0 \<le> l" "r < len a"
  shows "ok (better_quick_sort3_rec a l r) (\<lambda>b. seg_perm l r a b \<and> sorted_seg l r b)"
  using assms
proof (induction "nat (r - l)" arbitrary: a l r rule: less_induct)
  case less
  show ?case
  proof (cases "r - l \<le> 1")
    case True
    then show ?thesis
      using sort_small_ok less.prems by (subst better_quick_sort3_rec.simps) (auto intro: sorted_seg_trivial)
  next
    case False
    then have lr: "l < r" by simp
    obtain b k c pl pr v where b: "partition a l r = Some (b, k)" and c: "deal_repeat b l k r = Some (c, pl, pr)"
      and t: "three_way l pl pr r v a c" and lc: "len c = len a"
      using partition_deal_repeat [OF less.prems(1) lr less.prems(2)] .
    then have pl: "l - 1 \<le> pl" "pl < pr - 1" "pr \<le> r + 1" "seg_perm l r a c"
      by (auto simp: three_way_def)
    have IHl: "ok (better_quick_sort3_rec x l pl) (\<lambda>d. seg_perm l pl x d \<and> sorted_seg l pl d)"
      if "len x = len a" for x using less.hyps [of pl l x] less.prems pl lr that by simp
    have IHr: "ok (better_quick_sort3_rec x pr r) (\<lambda>d. seg_perm pr r x d \<and> sorted_seg pr r d)"
      if "len x = len a" for x using less.hyps [of r pr x] less.prems pl lr that by simp
    show ?thesis
    proof (cases "pl - l < r - pr")
      case True
      obtain d where d: "better_quick_sort3_rec c l pl = Some d" "seg_perm l pl c d" "sorted_seg l pl d"
        using IHl [OF lc] by (auto elim: okE)
      then have "len d = len a" using lc by (auto dest: seg_perm_length)
      then obtain e where e: "better_quick_sort3_rec d pr r = Some e" "seg_perm pr r d e" "sorted_seg pr r e"
        using IHr by (auto elim: okE)
      have "seg_perm l r c e \<and> sorted_seg l r e"
        by (rule split3_left_right [OF three_way_split3 [OF t] d(2,3) e(2,3)]) (use less.prems lc in auto)
      then show ?thesis
        using False True b c d e pl lr by (subst better_quick_sort3_rec.simps) (auto intro: seg_perm_trans)
    next
      case nle: False
      obtain d where d: "better_quick_sort3_rec c pr r = Some d" "seg_perm pr r c d" "sorted_seg pr r d"
        using IHr [OF lc] by (auto elim: okE)
      then have "len d = len a" using lc by (auto dest: seg_perm_length)
      then obtain e where e: "better_quick_sort3_rec d l pl = Some e" "seg_perm l pl d e" "sorted_seg l pl e"
        using IHl by (auto elim: okE)
      have "seg_perm l r c e \<and> sorted_seg l r e"
        by (rule split3_right_left [OF three_way_split3 [OF t] d(2,3) e(2,3)]) (use less.prems lc in auto)
      then show ?thesis
        using False nle b c d e pl lr by (subst better_quick_sort3_rec.simps) (auto intro: seg_perm_trans)
    qed
  qed
qed

section \<open>The six sorts meet the contract\<close>

interpretation quick_sort: sorter quick_sort "\<lambda>a. a \<noteq> []"
  by unfold_locales (simp add: quick_sort_def quick1.qs_sorts)

interpretation quick_sort2: sorter quick_sort2 "\<lambda>a. a \<noteq> []"
  by unfold_locales (simp add: quick_sort2_def quick2.qs_sorts)

interpretation better_quick_sort: sorter better_quick_sort "\<lambda>a. a \<noteq> []"
  by unfold_locales (simp add: better_quick_sort_def median_quick.qs_sorts)

interpretation better_quick_sort2: sorter better_quick_sort2 "\<lambda>a. a \<noteq> []"
proof
  fix a :: "int list" assume "a \<noteq> []"
  then show "sorts_to a (better_quick_sort2 a (len a))"
    by (simp add: better_quick_sort2_def sorts_toI better_quick_sort2_rec_ok)
qed

interpretation better_quick_sort3: sorter better_quick_sort3 "\<lambda>a. a \<noteq> []"
proof
  fix a :: "int list" assume "a \<noteq> []"
  then show "sorts_to a (better_quick_sort3 a (len a))"
    by (simp add: better_quick_sort3_def sorts_toI better_quick_sort3_rec_ok)
qed

interpretation quick_sort3: sorter quick_sort3 "\<lambda>_. True"
proof
  fix a :: "int list"
  show "sorts_to a (quick_sort3 a (len a))"
    using quick3.qs_sorts [of a]
    by (cases "len a \<le> 1") (auto simp: quick_sort3_def sorts_to_def le_Suc_eq length_Suc_conv)
qed

section \<open>Properties\<close>

text \<open>
  C24: each of the six quick sorts of \<open>quick_sort.c\<close>, called on a non-empty array with its
  length, returns (it ends, without an access outside the array) and leaves the sorted
  permutation of the elements.
\<close>

theorem quick_sorts_sort:
  assumes "a \<noteq> []"
  shows "quick_sort a (len a) = Some (sort a) \<and> quick_sort2 a (len a) = Some (sort a) \<and>
    better_quick_sort a (len a) = Some (sort a) \<and> better_quick_sort2 a (len a) = Some (sort a) \<and>
    better_quick_sort3 a (len a) = Some (sort a) \<and> quick_sort3 a (len a) = Some (sort a)"
  using assms by (simp add: quick_sort.is_sort quick_sort2.is_sort better_quick_sort.is_sort
      better_quick_sort2.is_sort better_quick_sort3.is_sort quick_sort3.is_sort)

theorem quick_sorts_sort_witness:
  "quick_sort [5, 2, 9, 2, 7] 5 = Some [2, 2, 5, 7, 9] \<and> better_quick_sort2 [5, 2, 9, 2, 7] 5 = Some [2, 2, 5, 7, 9]"
  using quick_sorts_sort [of "[5, 2, 9, 2, 7]"] by simp

text \<open>
  \<open>deal_repeat\<close>, called after a partition with the pivot at \<open>pos\<close>, gathers the elements
  equal to the pivot: it returns \<open>pl\<close> and \<open>pr\<close> such that \<open>left..pl\<close> holds the smaller,
  \<open>pl+1..pr-1\<close> the equal and \<open>pr..right\<close> the larger elements, a permutation of the segment.
\<close>

theorem deal_repeat_three_way:
  assumes "0 \<le> left" "right < len a" "left \<le> pos" "pos \<le> right"
    and "\<And>i. left \<le> i \<Longrightarrow> i \<le> pos \<Longrightarrow> el a i \<le> el a pos" and "\<And>i. pos \<le> i \<Longrightarrow> i \<le> right \<Longrightarrow> el a pos \<le> el a i"
  shows "\<exists>b pl pr. deal_repeat a left pos right = Some (b, pl, pr) \<and> seg_perm left right a b \<and>
    left - 1 \<le> pl \<and> pl < pr - 1 \<and> pr \<le> right + 1 \<and>
    (\<forall>i. left \<le> i \<and> i \<le> right \<longrightarrow> (el b i < el a pos \<longleftrightarrow> i \<le> pl) \<and> (el a pos < el b i \<longleftrightarrow> pr \<le> i))"
proof -
  have P: "partitioned left right pos a a" using assms(3-6) by (auto simp: partitioned_def)
  obtain b pl pr where b: "deal_repeat a left pos right = Some (b, pl, pr)" "three_way left pl pr right (el a pos) a b"
    using deal_repeat_ok [OF P assms(1,2)] by (auto elim!: okE)
  have "(el b i < el a pos \<longleftrightarrow> i \<le> pl) \<and> (el a pos < el b i \<longleftrightarrow> pr \<le> i)" if "left \<le> i" "i \<le> right" for i
  proof -
    consider "i \<le> pl" | "pl < i" "i < pr" | "pr \<le> i" by linarith
    then show ?thesis by cases (use b(2) that in \<open>auto simp: three_way_def dest: less_imp_neq\<close>)
  qed
  with b show ?thesis by (auto simp: three_way_def)
qed

theorem deal_repeat_three_way_witness:
  "\<exists>b pl pr. deal_repeat [4, 1, 4, 4, 9, 4, 8] 0 3 6 = Some (b, pl, pr) \<and> seg_perm 0 6 [4, 1, 4, 4, 9, 4, 8] b \<and>
    - 1 \<le> pl \<and> pl < pr - 1 \<and> pr \<le> 7 \<and> (\<forall>i. 0 \<le> i \<and> i \<le> 6 \<longrightarrow> (el b i < 4 \<longleftrightarrow> i \<le> pl) \<and> (4 < el b i \<longleftrightarrow> pr \<le> i))"
proof -
  let ?a = "[4, 1, 4, 4, 9, 4, 8] :: int list"
  have "el ?a i \<le> el ?a 3" if "0 \<le> i" "i \<le> 3" for i
  proof -
    have "i = 0 \<or> i = 1 \<or> i = 2 \<or> i = 3" using that by linarith
    then show ?thesis by (auto simp: el_def)
  qed
  moreover have "el ?a 3 \<le> el ?a i" if "3 \<le> i" "i \<le> 6" for i
  proof -
    have "i = 3 \<or> i = 4 \<or> i = 5 \<or> i = 6" using that by linarith
    then show ?thesis by (auto simp: el_def)
  qed
  moreover have "el ?a 3 = 4" by (simp add: el_def)
  ultimately show ?thesis using deal_repeat_three_way [of 0 6 ?a 3] by simp
qed

text \<open>
  \<open>choose_right\<close> moves the median of the first, the middle and the last element of the
  segment to its right end, where \<open>partition\<close> takes the pivot, and permutes the segment.
\<close>

theorem choose_right_is_median:
  assumes "0 \<le> left" "left + 1 < right" "right < len a"
  shows "\<exists>b. choose_right a left right = Some b \<and> seg_perm left right a b \<and>
    el b left \<le> el b right \<and> el b right \<le> el b (left + (right - left) div 2)"
  using choose_right_ok [of left right a] choose_right_median [of left right a] assms by (auto simp: ok_iff)

theorem choose_right_is_median_witness:
  "\<exists>b. choose_right [8, 3, 5, 1, 6] 0 4 = Some b \<and> seg_perm 0 4 [8, 3, 5, 1, 6] b \<and> el b 0 \<le> el b 4 \<and> el b 4 \<le> el b 2"
  using choose_right_is_median [of 0 4 "[8, 3, 5, 1, 6]"] by simp

end
