(* ===== verification/Merge_Sort.thy ===== *)
theory Merge_Sort
  imports Sort_Base
begin

text \<open>
  \<open>Sort/merge_sort.c\<close>: the bottom-up and the recursive merge sort.  The buffer they
  allocate holds unspecified values, which are the parameter \<open>junk\<close> of the model; the
  results do not depend on it, but for the recursive version on one element, which copies
  the buffer back without having written to it (\<open>recursive_merge_one\<close>).  Index arithmetic
  that could exceed \<open>int\<close> is checked: for the bottom-up version \<open>2 ^ 30\<close> elements are the
  limit.
\<close>

section \<open>The model\<close>

text \<open>
  The three merge loops, on the ranges \<open>left..left_end\<close> and \<open>right..right_end\<close> of \<open>a\<close>,
  written to \<open>result\<close> from \<open>k\<close> on.
\<close>

definition merge_both :: "int list \<Rightarrow> int \<Rightarrow> int \<Rightarrow> int list \<times> int \<times> int \<times> int \<Rightarrow>
    (int list \<times> int \<times> int \<times> int) option" where
  "merge_both a left_end right_end =
     cwhile (\<lambda>(result, left, right, k). Some (left \<le> left_end \<and> right \<le> right_end))
       (\<lambda>(result, left, right, k). do {
          x \<leftarrow> rd a left;
          y \<leftarrow> rd a right;
          if x < y then do { result \<leftarrow> wr result k x; Some (result, left + 1, right, k + 1) }
          else do { result \<leftarrow> wr result k y; Some (result, left, right + 1, k + 1) } })"

definition copy_rest :: "int list \<Rightarrow> int \<Rightarrow> int list \<times> int \<times> int \<Rightarrow> (int list \<times> int \<times> int) option" where
  "copy_rest a end =
     cwhile (\<lambda>(result, i, k). Some (i \<le> end))
       (\<lambda>(result, i, k). do {
          x \<leftarrow> rd a i;
          result \<leftarrow> wr result k x;
          Some (result, i + 1, k + 1) })"

definition merge_runs :: "int list \<Rightarrow> int list \<Rightarrow> int \<Rightarrow> int \<Rightarrow> int \<Rightarrow> int \<Rightarrow> int \<Rightarrow> int list option" where
  "merge_runs a result left left_end right right_end k = do {
     (result, left, right, k) \<leftarrow> merge_both a left_end right_end (result, left, right, k);
     (result, left, k) \<leftarrow> copy_rest a left_end (result, left, k);
     (result, right, k) \<leftarrow> copy_rest a right_end (result, right, k);
     Some result }"

text \<open>
  The bottom-up sort.  \<open>own\<close> says whether \<open>a\<close> points to the caller's array: the two
  buffers change their roles after every pass.
\<close>

definition merge_pass :: "int list \<Rightarrow> int list \<Rightarrow> int \<Rightarrow> int \<Rightarrow> int list option" where
  "merge_pass a result seg n = do {
     (result, start) \<leftarrow> cwhile (\<lambda>(result, start). Some (start < n))
       (\<lambda>(result, start). do {
          s1 \<leftarrow> cint (start + seg);
          seg2 \<leftarrow> cint (2 * seg);
          s2 \<leftarrow> cint (start + seg2);
          let right = min s1 (n - 1);
          let left_end = min (right - 1) (n - 1);
          let right_end = min (s2 - 1) (n - 1);
          result \<leftarrow> merge_runs a result start left_end right right_end start;
          Some (result, s2) }) (result, 0);
     Some result }"

definition merge_sort :: "int list \<Rightarrow> int list \<Rightarrow> int \<Rightarrow> int list option" where
  "merge_sort junk ptr n =
     (if n = 0 then Some ptr
      else do {
        (a, result, own, seg) \<leftarrow> cwhile (\<lambda>(a, result, own, seg). Some (seg < n))
          (\<lambda>(a, result, own, seg). do {
             result \<leftarrow> merge_pass a result seg n;
             seg \<leftarrow> cint (seg * 2);
             Some (result, a, \<not> own, seg) }) (ptr, junk, True, 1);
        if \<not> own then memcpy result 0 a 0 n else Some a })"

partial_function (option) recursive_merge_sort_rec ::
    "int list \<Rightarrow> int list \<Rightarrow> int \<Rightarrow> int \<Rightarrow> (int list \<times> int list) option" where
  "recursive_merge_sort_rec ptr result beg end =
     (if beg \<ge> end then Some (ptr, result)
      else do {
        let mid = beg + (end - beg) div 2;
        (ptr, result) \<leftarrow> recursive_merge_sort_rec ptr result beg mid;
        (ptr, result) \<leftarrow> recursive_merge_sort_rec ptr result (mid + 1) end;
        result \<leftarrow> merge_runs ptr result beg mid (mid + 1) end beg;
        ptr \<leftarrow> memcpy ptr beg result beg (end - beg + 1);
        Some (ptr, result) })"

definition recursive_merge_sort :: "int list \<Rightarrow> int list \<Rightarrow> int \<Rightarrow> int list option" where
  "recursive_merge_sort junk ptr n = do {
     guard (n > 0);
     (ptr, result) \<leftarrow> recursive_merge_sort_rec ptr junk 0 (n - 1);
     memcpy ptr 0 result 0 n }"

section \<open>Merging two adjacent runs\<close>

text \<open>
  What is already written is sorted and not larger than what is left, and together they
  are the elements of \<open>a\<close> from \<open>l\<close> to \<open>re\<close>; outside \<open>l..re\<close> the result is unchanged.
\<close>

definition merging :: "int list \<Rightarrow> int list \<Rightarrow> int \<Rightarrow> int \<Rightarrow> int \<Rightarrow> int list \<times> int \<times> int \<times> int \<Rightarrow> bool" where
  "merging a d l le re = (\<lambda>(b, i, j, k). l \<le> i \<and> i \<le> le + 1 \<and> le + 1 \<le> j \<and> j \<le> re + 1 \<and>
     k = i + j - le - 1 \<and> length b = length d \<and>
     mset (segm l (k - 1) b) + mset (segm i le a) + mset (segm j re a) = mset (segm l re a) \<and>
     sorted_seg l (k - 1) b \<and>
     (\<forall>p q. l \<le> p \<and> p < k \<and> (i \<le> q \<and> q \<le> le \<or> j \<le> q \<and> q \<le> re) \<longrightarrow> el b p \<le> el a q) \<and>
     (\<forall>p. 0 \<le> p \<and> p < len d \<and> (p < l \<or> re < p) \<longrightarrow> el b p = el d p))"

lemma merging_start:
  assumes "0 \<le> l" "l \<le> le + 1" "le \<le> re" "re < len a"
  shows "merging a d l le re (d, l, le + 1, l)"
  using segm_append [of l le re a] assms
  by (simp add: merging_def sorted_seg_trivial flip: mset_append)

text \<open>Writing the smallest element left: the first of one of the two runs.\<close>

lemma merging_write:
  assumes I: "merging a d l le re (b, i, j, k)" and lr: "0 \<le> l" "re < len a" "length d = length a"
    and x: "mset (segm i le a) + mset (segm j re a) = {#x#} + (mset (segm i' le a) + mset (segm j' re a))"
    and ij: "i \<le> i'" "i' \<le> le + 1" "j \<le> j'" "j' \<le> re + 1" "k + 1 = i' + j' - le - 1"
    and le: "\<And>q. i \<le> q \<and> q \<le> le \<or> j \<le> q \<and> q \<le> re \<Longrightarrow> x \<le> el a q"
    and ge: "\<And>p. l \<le> p \<Longrightarrow> p < k \<Longrightarrow> el b p \<le> x"
  shows "merging a d l le re (up b k x, i', j', k + 1)"
proof -
  from I have h: "l \<le> i" "le + 1 \<le> j" "k = i + j - le - 1" "length b = length d"
    and M: "mset (segm l (k - 1) b) + mset (segm i le a) + mset (segm j re a) = mset (segm l re a)"
    and S: "sorted_seg l (k - 1) b"
    and L: "\<And>p q. l \<le> p \<Longrightarrow> p < k \<Longrightarrow> i \<le> q \<and> q \<le> le \<or> j \<le> q \<and> q \<le> re \<Longrightarrow> el b p \<le> el a q"
    and O: "\<And>p. 0 \<le> p \<Longrightarrow> p < len d \<Longrightarrow> p < l \<or> re < p \<Longrightarrow> el b p = el d p"
    by (auto simp: merging_def)
  have k: "l \<le> k" "k \<le> re" using h ij by linarith+
  then have kb: "0 \<le> k" "k < len b" using h lr by simp_all
  have same: "segm l (k - 1) (up b k x) = segm l (k - 1) b"
    by (rule segm_cong) (use h lr kb in auto)
  have "segm l k (up b k x) = segm l (k - 1) b @ [x]"
    using segm_snoc [of l k "up b k x"] same k kb lr by simp
  then have "mset (segm l k (up b k x)) + mset (segm i' le a) + mset (segm j' re a) = mset (segm l re a)"
    using M x by (simp add: add.assoc)
  moreover have "sorted_seg l k (up b k x)"
  proof (rule sorted_segI)
    fix p q assume "l \<le> p" "p \<le> q" "q \<le> k"
    then show "el (up b k x) p \<le> el (up b k x) q"
      using S ge [of p] kb lr by (cases "q = k"; cases "p = k") (auto simp: sorted_seg_def)
  qed
  moreover have "el (up b k x) p \<le> el a q"
    if "l \<le> p" "p < k + 1" "i' \<le> q \<and> q \<le> le \<or> j' \<le> q \<and> q \<le> re" for p q
    using that L [of p q] le [of q] ij kb lr by (cases "p = k") auto
  moreover have "el (up b k x) p = el d p" if "0 \<le> p" "p < len d" "p < l \<or> re < p" for p
    using that O [of p] k kb by (cases "p = k") auto
  ultimately show ?thesis using h ij by (simp add: merging_def)
qed

lemma merging_left:
  assumes I: "merging a d l le re (b, i, j, k)" and lr: "0 \<le> l" "le \<le> re" "re < len a" "length d = length a"
    and s: "sorted_seg l le a" "sorted_seg (le + 1) re a" and i: "i \<le> le"
    and x: "j \<le> re \<Longrightarrow> el a i \<le> el a j"
  shows "merging a d l le re (up b k (el a i), i + 1, j, k + 1)"
proof -
  from I have h: "l \<le> i" "le + 1 \<le> j" "j \<le> re + 1" "k = i + j - le - 1" by (auto simp: merging_def)
  have "el a i \<le> el a q" if "i \<le> q \<and> q \<le> le \<or> j \<le> q \<and> q \<le> re" for q
    using that
  proof
    assume "i \<le> q \<and> q \<le> le" then show ?thesis using s h by (auto simp: sorted_seg_def)
  next
    assume q: "j \<le> q \<and> q \<le> re"
    then have "el a j \<le> el a q" using s h by (auto simp: sorted_seg_def)
    with x q show ?thesis by simp
  qed
  moreover have "segm i le a = el a i # segm (i + 1) le a"
    by (rule segm_Cons) (use h i lr in auto)
  moreover have "el b p \<le> el a i" if "l \<le> p" "p < k" for p
    using I that i by (auto simp: merging_def)
  ultimately show ?thesis
    by (intro merging_write [OF I lr(1,3,4)]) (use h i in auto)
qed

lemma merging_right:
  assumes I: "merging a d l le re (b, i, j, k)" and lr: "0 \<le> l" "le \<le> re" "re < len a" "length d = length a"
    and s: "sorted_seg l le a" "sorted_seg (le + 1) re a" and j: "j \<le> re"
    and x: "i \<le> le \<Longrightarrow> el a j \<le> el a i"
  shows "merging a d l le re (up b k (el a j), i, j + 1, k + 1)"
proof -
  from I have h: "l \<le> i" "le + 1 \<le> j" "i \<le> le + 1" "k = i + j - le - 1" by (auto simp: merging_def)
  have "el a j \<le> el a q" if "i \<le> q \<and> q \<le> le \<or> j \<le> q \<and> q \<le> re" for q
    using that
  proof
    assume q: "i \<le> q \<and> q \<le> le"
    then have "el a i \<le> el a q" using s h by (auto simp: sorted_seg_def)
    with x q show ?thesis by simp
  next
    assume "j \<le> q \<and> q \<le> re" then show ?thesis using s h by (auto simp: sorted_seg_def)
  qed
  moreover have "segm j re a = el a j # segm (j + 1) re a"
    by (rule segm_Cons) (use h j lr in auto)
  moreover have "el b p \<le> el a j" if "l \<le> p" "p < k" for p
    using I that j by (auto simp: merging_def)
  ultimately show ?thesis
    by (intro merging_write [OF I lr(1,3,4)]) (use h j in auto)
qed

text \<open>The measure: the elements left.\<close>

lemma merge_both_ok:
  assumes I: "merging a d l le re (b, i, j, k)" and lr: "0 \<le> l" "le \<le> re" "re < len a" "length d = length a"
    and s: "sorted_seg l le a" "sorted_seg (le + 1) re a"
  shows "ok (merge_both a le re (b, i, j, k))
    (\<lambda>(b, i, j, k). merging a d l le re (b, i, j, k) \<and> (le < i \<or> re < j))"
  unfolding merge_both_def
proof (rule cwhile_rule [where I = "merging a d l le re" and m = "\<lambda>(b, i, j, k). nat (le + 1 - i) + nat (re + 1 - j)"])
  fix st assume I: "merging a d l le re st"
  obtain b i j k where st: "st = (b, i, j, k)" by (cases st) auto
  have h: "l \<le> i" "le + 1 \<le> j" "k = i + j - le - 1" "length b = length a"
    using I st lr by (auto simp: merging_def)
  then show "ok (case st of (result, left, right, k) \<Rightarrow> Some (left \<le> le \<and> right \<le> re)) (\<lambda>t.
     (t \<longrightarrow> ok (case st of (result, left, right, k) \<Rightarrow> do {
          x \<leftarrow> rd a left; y \<leftarrow> rd a right;
          if x < y then do { result \<leftarrow> wr result k x; Some (result, left + 1, right, k + 1) }
          else do { result \<leftarrow> wr result k y; Some (result, left, right + 1, k + 1) } })
        (\<lambda>s'. merging a d l le re s' \<and>
          (case s' of (b, i, j, k) \<Rightarrow> nat (le + 1 - i) + nat (re + 1 - j)) <
          (case st of (b, i, j, k) \<Rightarrow> nat (le + 1 - i) + nat (re + 1 - j)))) \<and>
     (\<not> t \<longrightarrow> (case st of (b, i, j, k) \<Rightarrow> merging a d l le re (b, i, j, k) \<and> (le < i \<or> re < j))))"
    using st I lr merging_left [of a d l le re b i j k] merging_right [of a d l le re b i j k] s
    by (auto simp: wp)
qed (rule I)

lemma copy_left_ok:
  assumes I: "merging a d l le re (b, i, j, k)" and lr: "0 \<le> l" "le \<le> re" "re < len a" "length d = length a"
    and s: "sorted_seg l le a" "sorted_seg (le + 1) re a" and stop: "le < i \<or> re < j"
  shows "ok (copy_rest a le (b, i, k)) (\<lambda>(b, i, k). merging a d l le re (b, i, j, k) \<and> i = le + 1)"
  unfolding copy_rest_def
proof (rule cwhile_rule [where I = "\<lambda>(b, i, k). merging a d l le re (b, i, j, k) \<and> (le < i \<or> re < j)"
      and m = "\<lambda>(b, i, k). nat (le + 1 - i)"])
  fix st assume I: "case st of (b, i, k) \<Rightarrow> merging a d l le re (b, i, j, k) \<and> (le < i \<or> re < j)"
  obtain b i k where st: "st = (b, i, k)" by (cases st) auto
  have h: "l \<le> i" "i \<le> le + 1" "le + 1 \<le> j" "j \<le> re + 1" "k = i + j - le - 1" "length b = length a"
    using I st lr by (auto simp: merging_def)
  then show "ok (case st of (result, i, k) \<Rightarrow> Some (i \<le> le)) (\<lambda>t.
     (t \<longrightarrow> ok (case st of (result, i, k) \<Rightarrow> do {
          x \<leftarrow> rd a i; result \<leftarrow> wr result k x; Some (result, i + 1, k + 1) })
        (\<lambda>s'. (case s' of (b, i, k) \<Rightarrow> merging a d l le re (b, i, j, k) \<and> (le < i \<or> re < j)) \<and>
          (case s' of (b, i, k) \<Rightarrow> nat (le + 1 - i)) < (case st of (b, i, k) \<Rightarrow> nat (le + 1 - i)))) \<and>
     (\<not> t \<longrightarrow> (case st of (b, i, k) \<Rightarrow> merging a d l le re (b, i, j, k) \<and> i = le + 1)))"
    using st I lr merging_left [of a d l le re b i j k] s by (auto simp: wp)
qed (use I stop in auto)

lemma copy_right_ok:
  assumes I: "merging a d l le re (b, le + 1, j, k)" and lr: "0 \<le> l" "le \<le> re" "re < len a" "length d = length a"
    and s: "sorted_seg l le a" "sorted_seg (le + 1) re a"
  shows "ok (copy_rest a re (b, j, k)) (\<lambda>(b, j, k). merging a d l le re (b, le + 1, re + 1, k))"
  unfolding copy_rest_def
proof (rule cwhile_rule [where I = "\<lambda>(b, j, k). merging a d l le re (b, le + 1, j, k)"
      and m = "\<lambda>(b, j, k). nat (re + 1 - j)"])
  fix st assume I: "case st of (b, j, k) \<Rightarrow> merging a d l le re (b, le + 1, j, k)"
  obtain b j k where st: "st = (b, j, k)" by (cases st) auto
  have h: "l \<le> le + 1" "le + 1 \<le> j" "j \<le> re + 1" "k = j" "length b = length a"
    using I st lr by (auto simp: merging_def)
  then show "ok (case st of (result, i, k) \<Rightarrow> Some (i \<le> re)) (\<lambda>t.
     (t \<longrightarrow> ok (case st of (result, i, k) \<Rightarrow> do {
          x \<leftarrow> rd a i; result \<leftarrow> wr result k x; Some (result, i + 1, k + 1) })
        (\<lambda>s'. (case s' of (b, j, k) \<Rightarrow> merging a d l le re (b, le + 1, j, k)) \<and>
          (case s' of (b, j, k) \<Rightarrow> nat (re + 1 - j)) < (case st of (b, j, k) \<Rightarrow> nat (re + 1 - j)))) \<and>
     (\<not> t \<longrightarrow> (case st of (b, j, k) \<Rightarrow> merging a d l le re (b, le + 1, re + 1, k))))"
    using st I lr merging_right [of a d l le re b "le + 1" j k] s by (cases "j = re + 1") (auto simp: wp)
qed (use I in auto)

definition merged :: "int list \<Rightarrow> int list \<Rightarrow> int \<Rightarrow> int \<Rightarrow> int list \<Rightarrow> bool" where
  "merged a d l r b \<longleftrightarrow> length b = length d \<and> mset (segm l r b) = mset (segm l r a) \<and> sorted_seg l r b \<and>
     (\<forall>p. 0 \<le> p \<and> p < len d \<and> (p < l \<or> r < p) \<longrightarrow> el b p = el d p)"

lemma merge_runs_ok:
  assumes lr: "0 \<le> l" "l \<le> le + 1" "le \<le> re" "re < len a" "length d = length a"
    and s: "sorted_seg l le a" "sorted_seg (le + 1) re a"
  shows "ok (merge_runs a d l le (le + 1) re l) (merged a d l re)"
proof -
  have M: "merging a d l le re (d, l, le + 1, l)" by (rule merging_start) (use lr in auto)
  obtain b i j k where b: "merge_both a le re (d, l, le + 1, l) = Some (b, i, j, k)"
    "merging a d l le re (b, i, j, k)" "le < i \<or> re < j"
    using merge_both_ok [OF M lr(1,3-5) s] by (auto elim!: okE)
  obtain c m where c: "copy_rest a le (b, i, k) = Some (c, le + 1, m)" "merging a d l le re (c, le + 1, j, m)"
    using copy_left_ok [OF b(2) lr(1,3-5) s b(3)] by (auto elim!: okE)
  obtain e j' m' where e: "copy_rest a re (c, j, m) = Some (e, j', m')" "merging a d l le re (e, le + 1, re + 1, m')"
    using copy_right_ok [OF c(2) lr(1,3-5) s] by (auto elim!: okE)
  then have "merged a d l re e" by (auto simp: merging_def merged_def)
  then show ?thesis using b c e by (simp add: merge_runs_def)
qed

section \<open>The bottom-up sort\<close>

definition blocks :: "int \<Rightarrow> int list \<Rightarrow> bool" where
  "blocks seg a \<longleftrightarrow> (\<forall>j \<ge> 0. sorted_seg (seg * j) (min (seg * (j + 1)) (len a) - 1) a)"

lemma blocksD: "blocks seg a \<Longrightarrow> 0 \<le> j \<Longrightarrow> sorted_seg (seg * j) (min (seg * (j + 1)) (len a) - 1) a"
  by (simp add: blocks_def)

lemma blocks_1: "blocks 1 a"
  by (auto simp: blocks_def intro: sorted_seg_trivial)

lemma blocks_whole: "blocks seg a \<Longrightarrow> len a \<le> seg \<Longrightarrow> sorted_seg 0 (len a - 1) a"
  unfolding blocks_def by (drule spec [of _ 0]) simp

text \<open>The first \<open>j\<close> pairs of blocks are merged.\<close>

definition pass_inv :: "int list \<Rightarrow> int \<Rightarrow> int \<Rightarrow> int list \<Rightarrow> bool" where
  "pass_inv a w j b \<longleftrightarrow> 0 \<le> j \<and> length b = length a \<and>
     mset (segm 0 (min (w * j) (len a) - 1) b) = mset (segm 0 (min (w * j) (len a) - 1) a) \<and>
     (\<forall>i. 0 \<le> i \<and> i < j \<longrightarrow> sorted_seg (w * i) (min (w * (i + 1)) (len a) - 1) b)"

lemma pass_step:
  assumes I: "pass_inv a w j b" and w: "0 < w" and lt: "w * j < len a"
    and m: "merged a b (w * j) (min (w * (j + 1)) (len a) - 1) c"
  shows "pass_inv a w (j + 1) c"
proof -
  let ?s = "w * j" and ?r = "min (w * (j + 1)) (len a) - 1"
  from I have j: "0 \<le> j" "length b = length a"
    and M: "mset (segm 0 (?s - 1) b) = mset (segm 0 (?s - 1) a)"
    and S: "\<And>i. 0 \<le> i \<Longrightarrow> i < j \<Longrightarrow> sorted_seg (w * i) (min (w * (i + 1)) (len a) - 1) b"
    using lt by (auto simp: pass_inv_def)
  have s: "0 \<le> ?s" "?s \<le> ?r" "?r < len a" using w j lt by (auto simp: distrib_left)
  from m have c: "length c = length a" "mset (segm ?s ?r c) = mset (segm ?s ?r a)" "sorted_seg ?s ?r c"
    and O: "\<And>p. 0 \<le> p \<Longrightarrow> p < ?s \<Longrightarrow> el c p = el b p"
    using j s by (auto simp: merged_def)
  have "segm 0 (?s - 1) c = segm 0 (?s - 1) b"
    by (rule segm_cong) (use O j c s in auto)
  then have "mset (segm 0 ?r c) = mset (segm 0 ?r a)"
    using segm_append [of 0 "?s - 1" ?r c] segm_append [of 0 "?s - 1" ?r a] s c M
    by (simp flip: mset_append) (metis mset_append)
  moreover have "sorted_seg (w * i) (min (w * (i + 1)) (len a) - 1) c" if "0 \<le> i" "i < j + 1" for i
  proof (cases "i = j")
    case False
    then have "w * (i + 1) \<le> ?s" using that w by (intro mult_left_mono) auto
    moreover have "0 \<le> w * i" using w that by simp
    ultimately show ?thesis
      using S [of i] False that by (intro sorted_seg_cong [OF S O]) auto
  qed (use c in simp)
  ultimately show ?thesis using j c by (simp add: pass_inv_def)
qed

lemma merge_step:
  assumes B: "blocks seg a" and seg: "0 < seg" "0 \<le> j" "2 * seg * j < len a" "length d = length a"
  shows "ok (merge_runs a d (2 * seg * j) (min (min (2 * seg * j + seg) (len a - 1) - 1) (len a - 1))
      (min (2 * seg * j + seg) (len a - 1)) (min (2 * seg * j + 2 * seg - 1) (len a - 1)) (2 * seg * j))
    (merged a d (2 * seg * j) (min (2 * seg * (j + 1)) (len a) - 1))"
proof -
  let ?s = "2 * seg * j"
  let ?q = "min (?s + seg) (len a - 1)" and ?r = "min (2 * seg * (j + 1)) (len a) - 1"
  have s: "0 \<le> ?s" using seg by simp
  have r: "min (?s + 2 * seg - 1) (len a - 1) = ?r" "?q \<le> ?r" "?s \<le> ?q"
    using seg by (auto simp: distrib_left)
  have "sorted_seg (seg * (2 * j)) (min (seg * (2 * j + 1)) (len a) - 1) a"
    by (rule blocksD [OF B]) (use seg in simp)
  then have left: "sorted_seg ?s (?q - 1) a"
    by (rule sorted_seg_narrow) (auto simp: algebra_simps)
  have right: "sorted_seg ?q ?r a"
  proof (cases "?s + seg \<le> len a - 1")
    case True
    have "sorted_seg (seg * (2 * j + 1)) (min (seg * (2 * j + 1 + 1)) (len a) - 1) a"
      by (rule blocksD [OF B]) (use seg in simp)
    then show ?thesis by (rule sorted_seg_narrow) (use True in \<open>auto simp: algebra_simps\<close>)
  qed (rule sorted_seg_trivial, simp)
  have "ok (merge_runs a d ?s (?q - 1) (?q - 1 + 1) ?r ?s) (merged a d ?s ?r)"
    by (rule merge_runs_ok) (use s r seg left right in auto)
  then show ?thesis using r by simp
qed

lemma merge_pass_ok:
  assumes B: "blocks seg a" and seg: "0 < seg" "seg \<le> 2 ^ 29" "len a \<le> 2 ^ 30"
    and l: "length d = length a"
  shows "ok (merge_pass a d seg (len a)) (\<lambda>b. length b = length a \<and> mset b = mset a \<and> blocks (2 * seg) b)"
proof -
  have "ok (cwhile (\<lambda>(result, start). Some (start < len a))
       (\<lambda>(result, start). do {
          s1 \<leftarrow> cint (start + seg);
          seg2 \<leftarrow> cint (2 * seg);
          s2 \<leftarrow> cint (start + seg2);
          let right = min s1 (len a - 1);
          let left_end = min (right - 1) (len a - 1);
          let right_end = min (s2 - 1) (len a - 1);
          result \<leftarrow> merge_runs a result start left_end right right_end start;
          Some (result, s2) }) (d, 0))
     (\<lambda>(b, start). \<exists>j. start = 2 * seg * j \<and> pass_inv a (2 * seg) j b \<and> len a \<le> start)"
  proof (rule cwhile_rule [where I = "\<lambda>(b, start). \<exists>j. start = 2 * seg * j \<and> pass_inv a (2 * seg) j b"
        and m = "\<lambda>(b, start). nat (len a - start)"])
    show "case (d, 0) of (b, start) \<Rightarrow> \<exists>j. start = 2 * seg * j \<and> pass_inv a (2 * seg) j b"
      using l by (auto simp: pass_inv_def intro!: exI [of _ 0])
  next
    fix st assume "case st of (b, start) \<Rightarrow> \<exists>j. start = 2 * seg * j \<and> pass_inv a (2 * seg) j b"
    then obtain b j where st: "st = (b, 2 * seg * j)" and I: "pass_inv a (2 * seg) j b"
      by (cases st) auto
    then have j: "0 \<le> j" "length b = length a" by (auto simp: pass_inv_def)
    let ?s = "2 * seg * j"
    have "0 \<le> ?s" using j seg by simp
    have body: "ok (merge_runs a b ?s (min (min (?s + seg) (len a - 1) - 1) (len a - 1))
        (min (?s + seg) (len a - 1)) (min (?s + 2 * seg - 1) (len a - 1)) ?s)
      (\<lambda>c. pass_inv a (2 * seg) (j + 1) c)" if "?s < len a"
      by (rule ok_mono [OF merge_step [OF B seg(1) j(1) that j(2)]])
        (use pass_step [OF I _ that] seg in simp)
    have nxt: "?s + 2 * seg = 2 * seg * (j + 1)" by (simp add: algebra_simps)
    show "ok (case st of (result, start) \<Rightarrow> Some (start < len a)) (\<lambda>t.
       (t \<longrightarrow> ok (case st of (result, start) \<Rightarrow> do {
          s1 \<leftarrow> cint (start + seg);
          seg2 \<leftarrow> cint (2 * seg);
          s2 \<leftarrow> cint (start + seg2);
          let right = min s1 (len a - 1);
          let left_end = min (right - 1) (len a - 1);
          let right_end = min (s2 - 1) (len a - 1);
          result \<leftarrow> merge_runs a result start left_end right right_end start;
          Some (result, s2) })
        (\<lambda>s'. (case s' of (b, start) \<Rightarrow> \<exists>j. start = 2 * seg * j \<and> pass_inv a (2 * seg) j b) \<and>
          (case s' of (b, start) \<Rightarrow> nat (len a - start)) < (case st of (b, start) \<Rightarrow> nat (len a - start)))) \<and>
       (\<not> t \<longrightarrow> (case st of (b, start) \<Rightarrow> \<exists>j. start = 2 * seg * j \<and> pass_inv a (2 * seg) j b \<and> len a \<le> start)))"
    proof (cases "?s < len a")
      case True
      have seg': "seg \<le> 536870912" "len a \<le> 1073741824" using seg by simp_all
      have "?s + seg \<le> INT_MAX" "2 * seg \<le> INT_MAX" "?s + 2 * seg \<le> INT_MAX" "INT_MIN \<le> ?s + seg"
        "INT_MIN \<le> 2 * seg" "INT_MIN \<le> ?s + 2 * seg"
        using True seg(1) seg' \<open>0 \<le> ?s\<close> unfolding int_limits by linarith+
      then show ?thesis
        using True seg st I body [OF True] nxt
        by (auto simp: wp Let_def elim!: ok_mono)
    next
      case False
      then show ?thesis using st I by auto
    qed
  qed
  then obtain b j where b: "ok (merge_pass a d seg (len a)) (\<lambda>c. c = b)" "pass_inv a (2 * seg) j b"
    "len a \<le> 2 * seg * j"
    unfolding merge_pass_def ok_bind by (elim okE) auto
  then have "mset b = mset a" "length b = length a" "0 \<le> j"
    using segm_whole [of a] segm_whole [of b] by (simp_all add: pass_inv_def min_absorb2)
  moreover have "blocks (2 * seg) b"
    unfolding blocks_def
  proof (intro allI impI)
    fix i :: int assume "0 \<le> i"
    show "sorted_seg (2 * seg * i) (min (2 * seg * (i + 1)) (len b) - 1) b"
    proof (cases "i < j")
      case False
      then have "2 * seg * j \<le> 2 * seg * i" using seg by (intro mult_left_mono) auto
      then show ?thesis using b \<open>length b = length a\<close> by (intro sorted_seg_trivial) auto
    qed (use b \<open>0 \<le> i\<close> \<open>length b = length a\<close> in \<open>simp add: pass_inv_def\<close>)
  qed
  ultimately show ?thesis using b(1) by (auto elim: ok_mono)
qed

lemma merge_sort_sorts:
  assumes n: "len a \<le> 2 ^ 30" and j: "length junk = length a"
  shows "sorts_to a (merge_sort junk a (len a))"
proof (cases "a = []")
  case True
  then show ?thesis by (simp add: merge_sort_def sorts_to_def)
next
  case False
  let ?I = "\<lambda>(b, r, own, seg). (\<exists>k. seg = 2 ^ k) \<and> length b = length a \<and> length r = length a \<and>
    mset b = mset a \<and> blocks seg b"
  have "ok (cwhile (\<lambda>(a, result, own, seg). Some (seg < len a'))
          (\<lambda>(a, result, own, seg). do {
             result \<leftarrow> merge_pass a result seg (len a');
             seg \<leftarrow> cint (seg * 2);
             Some (result, a, \<not> own, seg) }) (a, junk, True, 1))
     (\<lambda>(b, r, own, seg). length b = length a \<and> length r = length a \<and> sorted b \<and> mset b = mset a)"
    if "a' = a" for a'
    unfolding that
  proof (rule cwhile_rule [where I = ?I and m = "\<lambda>(b, r, own, seg). nat (len a - seg)"])
    show "?I (a, junk, True, 1)" using j blocks_1 by (auto intro: exI [of _ 0])
  next
    fix st :: "int list \<times> int list \<times> bool \<times> int" assume "?I st"
    then obtain b r own seg k where st: "st = (b, r, own, seg)" and I: "seg = 2 ^ k" "length b = length a"
      "length r = length a" "mset b = mset a" "blocks seg b" by (cases st) auto
    have pass: "ok (merge_pass b r seg (len a)) (\<lambda>c. length c = length a \<and> mset c = mset a \<and> blocks (seg * 2) c)"
      and seg: "seg \<le> 2 ^ 29" if lt: "seg < len a"
    proof -
      have "(2 :: int) ^ k < 2 ^ 30" using lt n I(1) by linarith
      then have "k < 30" by (rule power_less_imp_less_exp [rotated]) simp
      then show "seg \<le> 2 ^ 29" using I(1) power_increasing [of k 29 "2 :: int"] by simp
      then show "ok (merge_pass b r seg (len a)) (\<lambda>c. length c = length a \<and> mset c = mset a \<and> blocks (seg * 2) c)"
        using merge_pass_ok [OF I(5), of r] I n by (simp add: mult.commute)
    qed
    have "\<exists>k. seg * 2 = 2 ^ k" using I(1) by (metis power_Suc mult.commute)
    moreover have "0 < seg" using I(1) by simp
    moreover have "sorted b" if "len a \<le> seg"
      using blocks_whole [OF I(5)] that I(2) sorted_seg_whole [of b] by simp
    ultimately show "ok (case st of (b, result, own, seg) \<Rightarrow> Some (seg < len a)) (\<lambda>t.
      (t \<longrightarrow> ok (case st of (b, result, own, seg) \<Rightarrow> do {
             result \<leftarrow> merge_pass b result seg (len a);
             seg \<leftarrow> cint (seg * 2);
             Some (result, b, \<not> own, seg) })
        (\<lambda>s'. ?I s' \<and> (case s' of (b, r, own, seg) \<Rightarrow> nat (len a - seg)) <
          (case st of (b, r, own, seg) \<Rightarrow> nat (len a - seg)))) \<and>
      (\<not> t \<longrightarrow> (case st of (b, r, own, seg) \<Rightarrow>
        length b = length a \<and> length r = length a \<and> sorted b \<and> mset b = mset a)))"
      using st I(2-4) pass seg by (auto simp: wp int_limits elim!: ok_mono)
  qed
  moreover have "memcpy r 0 b 0 (len a) = Some b" if "length b = length a" "length r = length a"
    for r b :: "int list" using memcpy_whole [of r b] that by simp
  ultimately show ?thesis
    using False by (auto simp: merge_sort_def sorts_to_def ok_bind elim!: ok_mono)
qed

section \<open>The recursive sort\<close>

lemma recursive_merge_sort_rec_ok:
  assumes "0 \<le> l" "r < len a" "length d = length a"
  shows "ok (recursive_merge_sort_rec a d l r) (\<lambda>(b, c). seg_perm l r a b \<and> sorted_seg l r b \<and>
    length c = length a \<and> (l < r \<longrightarrow> (\<forall>i. l \<le> i \<and> i \<le> r \<longrightarrow> el c i = el b i)))"
  using assms
proof (induction "nat (r - l)" arbitrary: a d l r rule: less_induct)
  case less
  show ?case
  proof (cases "r \<le> l")
    case True
    then show ?thesis
      using less.prems by (subst recursive_merge_sort_rec.simps) (auto intro: sorted_seg_trivial)
  next
    case False
    define m where "m = l + (r - l) div 2"
    have m: "l \<le> m" "m < r" using False by (auto simp: m_def)
    obtain a1 d1 where 1: "recursive_merge_sort_rec a d l m = Some (a1, d1)" "seg_perm l m a a1"
      "sorted_seg l m a1" "length d1 = length a"
      using less.hyps [of m l a d] less.prems m False by (auto elim!: okE)
    then have l1: "length a1 = length a" by (auto dest: seg_perm_length)
    obtain a2 d2 where 2: "recursive_merge_sort_rec a1 d1 (m + 1) r = Some (a2, d2)" "seg_perm (m + 1) r a1 a2"
      "sorted_seg (m + 1) r a2" "length d2 = length a"
      using less.hyps [of r "m + 1" a1 d1] less.prems m False 1 l1 by (auto elim!: okE)
    then have l2: "length a2 = length a" using l1 by (auto dest: seg_perm_length)
    have s: "sorted_seg l m a2"
      using 1(3) by (rule sorted_seg_cong) (use 2(2) m less.prems l1 in \<open>auto simp: seg_perm_def\<close>)
    obtain d3 where d: "merge_runs a2 d2 l m (m + 1) r l = Some d3" "merged a2 d2 l r d3"
      using merge_runs_ok [of l m r a2 d2] s 2 m less.prems l2 by (auto elim: okE)
    then have d3: "length d3 = length a" "mset (segm l r d3) = mset (segm l r a2)" "sorted_seg l r d3"
      using 2 by (auto simp: merged_def)
    obtain a3 where a3: "memcpy a2 l d3 l (r - l + 1) = Some a3" "length a3 = length a"
      and eq: "\<And>k. 0 \<le> k \<Longrightarrow> k < len a \<Longrightarrow> el a3 k = (if l \<le> k \<and> k \<le> r then el d3 k else el a2 k)"
      using memcpy_ok [of l l "r - l + 1" a2 d3] less.prems m l2 d3 by (auto elim!: okE)
    have in_seg: "el a3 i = el d3 i" if "l \<le> i" "i \<le> r" for i using eq [of i] that less.prems by simp
    have "segm l r a3 = segm l r d3"
      by (rule segm_cong) (use a3 d3 less.prems in_seg in auto)
    then have "seg_perm l r a2 a3"
      using d3 less.prems m l2 eq a3 by (intro seg_permI) auto
    then have "seg_perm l r a a3"
      using seg_perm_trans [OF seg_perm_widen [OF 1(2)] seg_perm_trans [OF seg_perm_widen [OF 2(2)]]] m by simp
    moreover have "sorted_seg l r a3" using d3(3) in_seg by (rule sorted_seg_cong)
    ultimately show ?thesis
      using False 1 2 d a3 d3 in_seg
      by (subst recursive_merge_sort_rec.simps) (simp add: m_def [symmetric] Let_def)
  qed
qed

lemma recursive_merge_sorts:
  assumes "2 \<le> len a" "length junk = length a"
  shows "sorts_to a (recursive_merge_sort junk a (len a))"
proof -
  obtain b c where b: "recursive_merge_sort_rec a junk 0 (len a - 1) = Some (b, c)"
    "seg_perm 0 (len a - 1) a b" "sorted_seg 0 (len a - 1) b" "length c = length a"
    and eq: "\<And>i. 0 \<le> i \<Longrightarrow> i \<le> len a - 1 \<Longrightarrow> el c i = el b i"
    using recursive_merge_sort_rec_ok [of 0 "len a - 1" a junk] assms by (auto elim!: okE)
  then have "length b = length a" by (auto dest: seg_perm_length)
  then have "c = b" using b eq by (intro list_eq_el) auto
  then have "recursive_merge_sort junk a (len a) = Some b"
    using b assms \<open>length b = length a\<close> memcpy_whole [of b b]
    by (cases a) (simp_all add: recursive_merge_sort_def)
  then show ?thesis using b by (intro sorts_toI) simp
qed

text \<open>One element: nothing is written to the buffer, and its contents are copied back.\<close>

lemma recursive_merge_one: "recursive_merge_sort [y] [x] 1 = Some [y]"
  using memcpy_whole [of "[x]" "[y]"]
  by (simp add: recursive_merge_sort_def recursive_merge_sort_rec.simps)

section \<open>Properties\<close>

text \<open>
  the bottom-up merge sort sorts every array of at most \<open>2 ^ 30\<close> elements (beyond, its
  \<open>seg * 2\<close> could overflow), and the recursive one every array of at least two elements,
  whatever the buffer they allocate contains.
\<close>

theorem merge_sorts_sort:
  assumes "len a \<le> 2 ^ 30" "2 \<le> len a" "length junk = length a"
  shows "merge_sort junk a (len a) = Some (sort a) \<and> recursive_merge_sort junk a (len a) = Some (sort a)"
  using assms by (simp add: sorts_to_eq merge_sort_sorts recursive_merge_sorts)

theorem merge_sorts_sort_witness:
  "merge_sort [0, 0, 0, 0] [4, 1, 3, 1] 4 = Some [1, 1, 3, 4] \<and>
   recursive_merge_sort [0, 0, 0, 0] [4, 1, 3, 1] 4 = Some [1, 1, 3, 4]"
  using merge_sorts_sort [of "[4, 1, 3, 1]" "[0, 0, 0, 0]"] by simp

text \<open>
  called on a single element, the recursive merge sort replaces it by whatever the
  uninitialised buffer holds.
\<close>

theorem recursive_merge_sort_loses_single:
  "recursive_merge_sort [y] [x] 1 = Some [y]"
  by (rule recursive_merge_one)

end
