(* ===== verification/Heap_Sort.thy ===== *)
theory Heap_Sort
  imports Sort_Base
begin

text \<open>
  \<open>Sort/heap_sort.c\<close>: sifting down, building the heap in place, and sorting with it.  The
  children of position \<open>i\<close> are \<open>2i+1\<close> and \<open>2i+2\<close>; their computation is checked against
  overflow, so arrays of up to \<open>2 ^ 30\<close> elements are covered.
\<close>

section \<open>The model\<close>

definition pick_son :: "int list \<Rightarrow> int \<Rightarrow> int \<Rightarrow> int option" where
  "pick_son ptr n son = do {
     b \<leftarrow> cand (son + 1 < n) (do { x \<leftarrow> rd ptr (son + 1); y \<leftarrow> rd ptr son; Some (x > y) });
     Some (if b then son + 1 else son) }"

text \<open>The loop of \<open>heap_shift_down\<close>; the \<open>break\<close> is the branch that returns.\<close>

partial_function (option) shift_down_loop :: "int list \<Rightarrow> int \<Rightarrow> int \<Rightarrow> int \<Rightarrow> int list option" where
  "shift_down_loop ptr n parent son =
     (if son < n then do {
        son \<leftarrow> pick_son ptr n son;
        x \<leftarrow> rd ptr parent;
        y \<leftarrow> rd ptr son;
        if x > y then Some ptr
        else do {
          ptr \<leftarrow> Swap ptr parent son;
          next_son \<leftarrow> cint (2 * son + 1);
          shift_down_loop ptr n son next_son } }
      else Some ptr)"

definition heap_shift_down :: "int list \<Rightarrow> int \<Rightarrow> int \<Rightarrow> int list option" where
  "heap_shift_down ptr n pos = do {
     son \<leftarrow> cint (2 * pos + 1);
     shift_down_loop ptr n pos son }"

definition heap_sort :: "int list \<Rightarrow> int \<Rightarrow> int list option" where
  "heap_sort ptr n =
     (if n \<le> 0 then Some ptr
      else do {
        ptr \<leftarrow> for_down (n div 2 - 1) 0 (\<lambda>i ptr. heap_shift_down ptr n i) ptr;
        for_down (n - 1) 1 (\<lambda>i ptr. do {
          ptr \<leftarrow> Swap ptr i 0;
          heap_shift_down ptr i 0 }) ptr })"

section \<open>Heaps\<close>

definition child :: "int \<Rightarrow> int \<Rightarrow> bool" where
  "child i c \<longleftrightarrow> c = 2 * i + 1 \<or> c = 2 * i + 2"

lemma child_parent: "child i c \<Longrightarrow> child j c \<Longrightarrow> i = j"
  by (auto simp: child_def)

text \<open>The positions from \<open>lo\<close> on of the first \<open>n\<close> elements are not smaller than their children.\<close>

definition heap_from :: "int \<Rightarrow> int \<Rightarrow> int list \<Rightarrow> bool" where
  "heap_from lo n a \<longleftrightarrow> (\<forall>i c. lo \<le> i \<and> child i c \<and> c < n \<longrightarrow> el a c \<le> el a i)"

text \<open>The same but for the element at \<open>q\<close>, whose children its parent still dominates.\<close>

definition heap_but :: "int \<Rightarrow> int \<Rightarrow> int \<Rightarrow> int list \<Rightarrow> bool" where
  "heap_but lo n q a \<longleftrightarrow> (\<forall>i c. lo \<le> i \<and> i \<noteq> q \<and> child i c \<and> c < n \<longrightarrow> el a c \<le> el a i) \<and>
     (\<forall>g c. lo \<le> g \<and> child g q \<and> child q c \<and> c < n \<longrightarrow> el a c \<le> el a g)"

lemma heap_but_start: "0 \<le> lo \<Longrightarrow> heap_from (lo + 1) n a \<Longrightarrow> heap_but lo n lo a"
  by (auto simp: heap_from_def heap_but_def child_def)

lemma heap_but_end:
  "heap_but lo n q a \<Longrightarrow> (\<And>c. child q c \<Longrightarrow> c < n \<Longrightarrow> el a c \<le> el a q) \<Longrightarrow> heap_from lo n a"
  unfolding heap_from_def heap_but_def by blast

lemma heap_but_step:
  assumes H: "heap_but lo n q a" and q: "0 \<le> lo" "lo \<le> q" "n \<le> len a"
    and s: "child q s" "s < n" "\<And>c. child q c \<Longrightarrow> c < n \<Longrightarrow> el a c \<le> el a s" and le: "el a q \<le> el a s"
  shows "heap_but lo n s (sw a q s)"
proof -
  have qs: "q < s" "s < len a" using s q by (auto simp: child_def)
  have A: "el a c \<le> el a i" if "lo \<le> i" "i \<noteq> q" "child i c" "c < n" for i c
    using H that unfolding heap_but_def by blast
  have B: "el a c \<le> el a g" if "lo \<le> g" "child g q" "child q c" "c < n" for g c
    using H that unfolding heap_but_def by blast
  have el: "el (sw a q s) k = (if k = q then el a s else if k = s then el a q else el a k)" if "0 \<le> k" for k
    using el_sw [of q a s k] qs q that by simp
  have "el (sw a q s) c \<le> el (sw a q s) i" if i: "lo \<le> i" "i \<noteq> s" "child i c" "c < n" for i c
  proof -
    have c: "0 \<le> i" "i < c" "0 \<le> c" using i q by (auto simp: child_def)
    show ?thesis
    proof (cases "i = q")
      case True
      then show ?thesis using c i s le by (simp add: el)
    next
      case False
      then have "c \<noteq> s" using child_parent [of i s q] i s by blast
      show ?thesis
      proof (cases "c = q")
        case True
        then show ?thesis using c i False B [of i s] s by (simp add: el)
      next
        case False
        then show ?thesis using c i \<open>c \<noteq> s\<close> \<open>i \<noteq> q\<close> A [of i c] by (simp add: el)
      qed
    qed
  qed
  moreover have "el (sw a q s) c \<le> el (sw a q s) g" if g: "lo \<le> g" "child g s" "child s c" "c < n" for g c
  proof -
    have "g = q" using child_parent [OF g(2) s(1)] .
    moreover have "s < c" using g qs q by (auto simp: child_def)
    ultimately show ?thesis using A [of s c] g qs q by (simp add: el)
  qed
  ultimately show ?thesis unfolding heap_but_def by blast
qed

lemma heap_root:
  assumes "heap_from 0 n a" "0 \<le> k" "k < n"
  shows "el a k \<le> el a 0"
  using assms(2,3)
proof (induction "nat k" arbitrary: k rule: less_induct)
  case less
  show ?case
  proof (cases "k = 0")
    case False
    define p where "p = (k - 1) div 2"
    have p: "0 \<le> p" "p < k" "child p k"
      using False less.prems by (auto simp: p_def child_def)
    then have "el a k \<le> el a p" using assms(1) less.prems unfolding heap_from_def by blast
    also have "\<dots> \<le> el a 0" using less p by simp
    finally show ?thesis .
  qed simp
qed

section \<open>Sifting down\<close>

lemma pick_son_ok:
  assumes "0 \<le> q" "2 * q + 1 < n" "n \<le> len a"
  shows "ok (pick_son a n (2 * q + 1)) (\<lambda>s. child q s \<and> s < n \<and>
    (\<forall>c. child q c \<and> c < n \<longrightarrow> el a c \<le> el a s))"
  using assms by (auto simp: pick_son_def wp child_def add.commute)

lemma shift_down_loop_ok:
  assumes "heap_but lo n q a" "0 \<le> lo" "lo \<le> q" "q < n" "n \<le> len a" "n \<le> 2 ^ 30"
  shows "ok (shift_down_loop a n q (2 * q + 1)) (\<lambda>b. seg_perm lo (n - 1) a b \<and> heap_from lo n b)"
  using assms
proof (induction "nat (n - q)" arbitrary: q a rule: less_induct)
  case less
  show ?case
  proof (cases "2 * q + 1 < n")
    case False
    then have "heap_from lo n a"
      using less.prems by (intro heap_but_end [of lo n q]) (auto simp: child_def)
    with False show ?thesis by (subst shift_down_loop.simps) simp
  next
    case True
    obtain s where s: "pick_son a n (2 * q + 1) = Some s" "child q s" "s < n"
      and m: "\<And>c. child q c \<Longrightarrow> c < n \<Longrightarrow> el a c \<le> el a s"
      using pick_son_ok [of q n a] True less.prems by (auto elim: okE)
    have qs: "q < s" "0 \<le> q" using s less.prems by (auto simp: child_def)
    show ?thesis
    proof (cases "el a s < el a q")
      case brk: True
      then have "heap_from lo n a"
        using less.prems m by (intro heap_but_end [of lo n q]) (auto intro: order_trans less_imp_le)
      with True s brk qs less.prems show ?thesis by (subst shift_down_loop.simps) (simp add: wp)
    next
      case False
      have p: "seg_perm lo (n - 1) a (sw a q s)"
        by (rule seg_perm_sw) (use qs s less.prems in auto)
      have "ok (shift_down_loop (sw a q s) n s (2 * s + 1))
          (\<lambda>b. seg_perm lo (n - 1) (sw a q s) b \<and> heap_from lo n b)"
        by (rule less.hyps) (use heap_but_step [of lo n q a s] less.prems s m False qs in auto)
      then have "ok (shift_down_loop (sw a q s) n s (2 * s + 1))
          (\<lambda>b. seg_perm lo (n - 1) a b \<and> heap_from lo n b)"
        by (rule ok_mono) (use seg_perm_trans [OF p] in blast)
      moreover have "INT_MIN \<le> 2 * s + 1" "2 * s + 1 \<le> INT_MAX"
        using qs s less.prems by (simp_all add: int_limits)
      ultimately show ?thesis
        using True s False qs less.prems by (subst shift_down_loop.simps) (simp add: wp)
    qed
  qed
qed

lemma heap_shift_down_ok:
  assumes "heap_from (lo + 1) n a" "0 \<le> lo" "lo < n" "n \<le> len a" "n \<le> 2 ^ 30"
  shows "ok (heap_shift_down a n lo) (\<lambda>b. seg_perm lo (n - 1) a b \<and> heap_from lo n b)"
proof -
  have "INT_MIN \<le> 2 * lo + 1" "2 * lo + 1 \<le> INT_MAX" using assms by (simp_all add: int_limits)
  then show ?thesis
    using shift_down_loop_ok [OF heap_but_start, of lo n a] assms by (simp add: heap_shift_down_def wp)
qed

section \<open>Sorting\<close>

lemma build_heap_ok:
  assumes "0 < len a" "len a \<le> 2 ^ 30"
  shows "ok (for_down (len a div 2 - 1) 0 (\<lambda>i ptr. heap_shift_down ptr (len a) i) a)
    (\<lambda>b. seg_perm 0 (len a - 1) a b \<and> heap_from 0 (len a) b)"
proof (rule for_down_rule [where I = "\<lambda>i b. seg_perm 0 (len a - 1) a b \<and> heap_from (i + 1) (len a) b"])
  fix i b assume i: "0 \<le> i" "i \<le> len a div 2 - 1"
    and I: "seg_perm 0 (len a - 1) a b \<and> heap_from (i + 1) (len a) b"
  then have "len b = len a" by (auto dest: seg_perm_length)
  moreover have "i < len a" using i by linarith
  ultimately have "ok (heap_shift_down b (len a) i) (\<lambda>c. seg_perm i (len a - 1) b c \<and> heap_from i (len a) c)"
    using heap_shift_down_ok [of i "len a" b] I i assms by simp
  then show "ok (heap_shift_down b (len a) i)
      (\<lambda>c. seg_perm 0 (len a - 1) a c \<and> heap_from (i - 1 + 1) (len a) c)"
  proof (rule ok_mono)
    fix c assume c: "seg_perm i (len a - 1) b c \<and> heap_from i (len a) c"
    then have "seg_perm 0 (len a - 1) b c" using i by (blast intro: seg_perm_widen)
    with c I show "seg_perm 0 (len a - 1) a c \<and> heap_from (i - 1 + 1) (len a) c"
      by (auto intro: seg_perm_trans)
  qed
qed (use assms in \<open>auto simp: heap_from_def child_def\<close>)

text \<open>The first \<open>i + 1\<close> elements are a heap, the others are sorted and not smaller.\<close>

definition heap_and_tail :: "int list \<Rightarrow> int \<Rightarrow> int list \<Rightarrow> bool" where
  "heap_and_tail a i b \<longleftrightarrow> seg_perm 0 (len a - 1) a b \<and> heap_from 0 (i + 1) b \<and>
     sorted_seg (i + 1) (len a - 1) b \<and> (\<forall>p q. 0 \<le> p \<and> p \<le> i \<and> i < q \<and> q < len a \<longrightarrow> el b p \<le> el b q)"

lemma heap_round:
  assumes I: "heap_and_tail a i b" and i: "1 \<le> i" "i < len a" "len a \<le> 2 ^ 30"
  shows "ok (do { ptr \<leftarrow> Swap b i 0; heap_shift_down ptr i 0 }) (heap_and_tail a (i - 1))"
proof -
  let ?c = "sw b i 0"
  from I have P: "seg_perm 0 (len a - 1) a b" and H: "heap_from 0 (i + 1) b"
    and S: "sorted_seg (i + 1) (len a - 1) b"
    and L: "\<And>p q. 0 \<le> p \<Longrightarrow> p \<le> i \<Longrightarrow> i < q \<Longrightarrow> q < len a \<Longrightarrow> el b p \<le> el b q"
    by (auto simp: heap_and_tail_def)
  have len: "len b = len a" using P by (auto dest: seg_perm_length)
  have el: "el ?c k = (if k = i then el b 0 else if k = 0 then el b i else el b k)" if "0 \<le> k" for k
    by (rule el_sw) (use i len that in auto)
  have root: "el b k \<le> el b 0" if "0 \<le> k" "k \<le> i" for k
    using heap_root [OF H] that by simp
  have "heap_from 1 i ?c"
    using H i by (auto simp: heap_from_def el child_def)
  then obtain d where d: "heap_shift_down ?c i 0 = Some d" "seg_perm 0 (i - 1) ?c d" "heap_from 0 i d"
    using heap_shift_down_ok [of 0 i ?c] i len by (auto elim: okE)
  have c: "seg_perm 0 (len a - 1) a ?c" by (rule seg_perm_sw_trans [OF P]) (use i in auto)
  have out: "el d k = el ?c k" if "i \<le> k" "k < len a" for k
    using seg_perm_outside [OF d(2), of k] that i len by simp
  have le: "el d p \<le> el d q" if "0 \<le> p" "p < i" "i \<le> q" "q < len a" for p q
  proof -
    have "el d p \<le> el b 0"
      by (rule seg_perm_all [OF d(2), where P = "\<lambda>x. x \<le> el b 0"])
        (use that i len root in \<open>auto simp: el\<close>)
    moreover have "el b 0 \<le> el d q" using out [of q] that i L [of 0 q] by (simp add: el)
    ultimately show ?thesis by simp
  qed
  have "sorted_seg i (len a - 1) d"
  proof (rule sorted_segI)
    fix p q assume "i \<le> p" "p \<le> q" "q \<le> len a - 1"
    then show "el d p \<le> el d q"
      using out [of p] out [of q] i S L [of 0 q] by (auto simp: el sorted_seg_def)
  qed
  moreover have "seg_perm 0 (len a - 1) a d"
    by (rule seg_perm_trans [OF c seg_perm_widen [OF d(2)]]) (use i in auto)
  ultimately have "heap_and_tail a (i - 1) d" using d(3) le by (simp add: heap_and_tail_def)
  moreover have "0 < len b" using i len by linarith
  ultimately show ?thesis using d i len by (simp add: wp)
qed

lemma heap_sorts:
  assumes "len a \<le> 2 ^ 30"
  shows "sorts_to a (heap_sort a (len a))"
proof (cases "a = []")
  case True
  then show ?thesis by (simp add: heap_sort_def sorts_to_def)
next
  case False
  then have n: "0 < len a" by simp
  obtain b where b: "for_down (len a div 2 - 1) 0 (\<lambda>i ptr. heap_shift_down ptr (len a) i) a = Some b"
    "seg_perm 0 (len a - 1) a b" "heap_from 0 (len a) b"
    using build_heap_ok [OF n assms] by (auto elim: okE)
  have "ok (for_down (len a - 1) 1 (\<lambda>i ptr. do { ptr \<leftarrow> Swap ptr i 0; heap_shift_down ptr i 0 }) b)
    (\<lambda>c. seg_perm 0 (len a - 1) a c \<and> sorted_seg 0 (len a - 1) c)"
  proof (rule for_down_rule [where I = "heap_and_tail a"])
    show "heap_and_tail a (len a - 1) b" using b by (simp add: heap_and_tail_def sorted_seg_trivial)
    fix i c assume "1 \<le> i" "i \<le> len a - 1" "heap_and_tail a i c"
    then show "ok (do { ptr \<leftarrow> Swap c i 0; heap_shift_down ptr i 0 }) (heap_and_tail a (i - 1))"
      using heap_round assms by simp
  next
    fix c assume c: "heap_and_tail a (1 - 1) c"
    then have "sorted_seg 0 (len a - 1) c"
      using sorted_seg_join [of 0 0 c "len a - 1"] by (auto simp: heap_and_tail_def sorted_seg_trivial)
    with c show "seg_perm 0 (len a - 1) a c \<and> sorted_seg 0 (len a - 1) c" by (simp add: heap_and_tail_def)
  qed (use n in auto)
  then show ?thesis using False b by (intro sorts_toI) (simp add: heap_sort_def)
qed

interpretation heap_sort: sorter heap_sort "\<lambda>a. len a \<le> 2 ^ 30"
  by unfold_locales (rule heap_sorts)

section \<open>Properties\<close>

text \<open>
  the heap sort returns and sorts every array of at most \<open>2 ^ 30\<close> elements (beyond, the
  index \<open>2 * i + 1\<close> of a son could overflow).
\<close>

theorem heap_sort_sorts:
  assumes "len a \<le> 2 ^ 30"
  shows "heap_sort a (len a) = Some (sort a)"
  using assms by (rule heap_sort.is_sort)

theorem heap_sort_sorts_witness:
  "heap_sort [3, 8, 1, 8, 5] 5 = Some [1, 3, 5, 8, 8]"
  using heap_sort_sorts [of "[3, 8, 1, 8, 5]"] by simp

end
