(* ===== verification/Counting.thy ===== *)
theory Counting
  imports Sort_Base
begin

text \<open>
  The three steps the counting and radix sorts share: tallying a digit of every element,
  adding the counts up, and placing the elements, last one first, below the running count
  of their digit.  \<open>distribute_ok\<close> shows that this is the stable sort by the digit,
  \<open>sort_key\<close>, whatever the digit is.  The file also has the scan for the extremes and the
  shift that removes negative numbers.
\<close>

section \<open>The model\<close>

text \<open>The C expression \<open>(x / n) % 10\<close>.\<close>

definition digit :: "int \<Rightarrow> int \<Rightarrow> int" where
  "digit n x = crem (cdiv x n) 10"

definition tally :: "(int \<Rightarrow> int) \<Rightarrow> int list \<Rightarrow> int \<Rightarrow> int \<Rightarrow> int list \<Rightarrow> int list option" where
  "tally dig a s e cnt = for_up s (e + 1) (\<lambda>i cnt. do {
     x \<leftarrow> rd a i;
     v \<leftarrow> rd cnt (dig x);
     wr cnt (dig x) (v + 1) }) cnt"

definition accumulate :: "int \<Rightarrow> int list \<Rightarrow> int list option" where
  "accumulate k cnt = for_up 1 k (\<lambda>i cnt. do {
     x \<leftarrow> rd cnt i;
     y \<leftarrow> rd cnt (i - 1);
     wr cnt i (x + y) }) cnt"

definition place :: "(int \<Rightarrow> int) \<Rightarrow> int list \<Rightarrow> int \<Rightarrow> int \<Rightarrow> int list \<times> int list \<Rightarrow> (int list \<times> int list) option" where
  "place dig a s e = for_down e s (\<lambda>i (cnt, result). do {
     x \<leftarrow> rd a i;
     v \<leftarrow> rd cnt (dig x);
     cnt \<leftarrow> wr cnt (dig x) (v - 1);
     result \<leftarrow> wr result (v - 1) x;
     Some (cnt, result) })"

text \<open>The extremes: \<open>(max, min)\<close>.\<close>

definition max_min :: "int list \<Rightarrow> int \<Rightarrow> (int \<times> int) option" where
  "max_min ptr n = do {
     x0 \<leftarrow> rd ptr 0;
     for_up 1 n (\<lambda>i (hi, lo). do {
       x \<leftarrow> rd ptr i;
       Some (if x > hi then x else hi, if x < lo then x else lo) }) (x0, x0) }"

text \<open>\<open>for (int i=0;i<len;i++) ptr[i] += d;\<close>\<close>

definition shift :: "int list \<Rightarrow> int \<Rightarrow> int \<Rightarrow> int list option" where
  "shift ptr n d = for_up 0 n (\<lambda>i ptr. do {
     x \<leftarrow> rd ptr i;
     y \<leftarrow> cint (x + d);
     wr ptr i y }) ptr"

section \<open>Where the elements of a stable sort are\<close>

lemma split_by_key:
  fixes f :: "'a \<Rightarrow> int"
  shows "sorted (map f ys) \<Longrightarrow>
    ys = filter (\<lambda>x. f x < d) ys @ filter (\<lambda>x. f x = d) ys @ filter (\<lambda>x. d < f x) ys"
proof (induction ys)
  case (Cons y ys)
  then have IH: "ys = filter (\<lambda>x. f x < d) ys @ filter (\<lambda>x. f x = d) ys @ filter (\<lambda>x. d < f x) ys"
    and le: "\<forall>x \<in> set ys. f y \<le> f x" by auto
  consider "f y < d" | "f y = d" | "d < f y" by linarith
  then show ?case
  proof cases
    case 2
    then have "filter (\<lambda>x. f x < d) ys = []" using le by (auto simp: filter_empty_conv)
    with 2 IH show ?thesis by simp
  next
    case 3
    then have "filter (\<lambda>x. f x < d) ys = []" "filter (\<lambda>x. f x = d) ys = []"
      using le by (auto simp: filter_empty_conv)
    with 3 IH show ?thesis by simp
  qed (use IH in simp)
qed simp

definition below :: "('a \<Rightarrow> int) \<Rightarrow> 'a list \<Rightarrow> int \<Rightarrow> nat" where
  "below f xs d = length (filter (\<lambda>x. f x < d) xs)"

definition count_of :: "('a \<Rightarrow> int) \<Rightarrow> 'a list \<Rightarrow> int \<Rightarrow> nat" where
  "count_of f xs d = length (filter (\<lambda>x. f x = d) xs)"

lemma below_Suc: "below f xs (d + 1) = below f xs d + count_of f xs d"
  by (induction xs) (auto simp: below_def count_of_def)

lemma below_le: "below f xs d \<le> length xs"
  by (simp add: below_def)

lemma below_all: "(\<And>x. x \<in> set xs \<Longrightarrow> f x < d) \<Longrightarrow> below f xs d = length xs"
  by (simp add: below_def filter_id_conv)

lemma below_none: "(\<And>x. x \<in> set xs \<Longrightarrow> d \<le> f x) \<Longrightarrow> below f xs d = 0"
  by (force simp: below_def filter_empty_conv not_less)

lemma below_mono: "d \<le> d' \<Longrightarrow> below f xs d \<le> below f xs d'"
  by (induction xs) (auto simp: below_def)

lemma below_sort_key [simp]: "below f (sort_key f xs) d = below f xs d"
proof -
  have "mset (filter (\<lambda>x. f x < d) (sort_key f xs)) = mset (filter (\<lambda>x. f x < d) xs)"
    by (simp add: mset_filter)
  then show ?thesis unfolding below_def by (metis size_mset)
qed

lemma sort_key_nth:
  assumes "m < count_of f xs d"
  shows "sort_key f xs ! (below f xs d + m) = filter (\<lambda>x. f x = d) xs ! m"
proof -
  let ?ys = "sort_key f xs"
  let ?A = "filter (\<lambda>x. f x < d) ?ys" and ?C = "filter (\<lambda>x. d < f x) ?ys"
  have "?ys = ?A @ filter (\<lambda>x. f x = d) xs @ ?C"
    using split_by_key [of f ?ys d] by (simp add: sort_key_stable)
  then have "?ys ! (length ?A + m) = (filter (\<lambda>x. f x = d) xs @ ?C) ! m"
    by (metis nth_append_length_plus)
  moreover have "length ?A = below f xs d"
    using below_sort_key [of f xs d] by (simp add: below_def)
  ultimately show ?thesis using assms by (simp add: nth_append count_of_def)
qed

lemma sort_key_block:
  assumes "p < length xs"
  shows "below f xs (f (sort_key f xs ! p)) \<le> p \<and> p < below f xs (f (sort_key f xs ! p) + 1)"
proof -
  let ?ys = "sort_key f xs" and ?d = "f (sort_key f xs ! p)"
  have s: "sorted (map f ?ys)" and p: "p < length ?ys" using assms by simp_all
  let ?A = "filter (\<lambda>x. f x < ?d) ?ys" and ?B = "filter (\<lambda>x. f x = ?d) ?ys" and ?C = "filter (\<lambda>x. ?d < f x) ?ys"
  have eq: "?ys = ?A @ ?B @ ?C" by (rule split_by_key [OF s])
  have nth: "?ys ! p = (?A @ ?B @ ?C) ! p" "length ?ys = length (?A @ ?B @ ?C)" using eq by simp_all
  have "\<not> p < length ?A"
  proof
    assume lt: "p < length ?A"
    from nth_mem [OF lt] have "f (?A ! p) < ?d" by simp
    moreover have "?ys ! p = ?A ! p" using nth(1) lt by (simp add: nth_append del: length_filter_le)
    ultimately show False by simp
  qed
  moreover have "p < length (?A @ ?B)"
  proof (rule ccontr)
    assume le: "\<not> p < length (?A @ ?B)"
    define m where "m = p - length (?A @ ?B)"
    have lt: "m < length ?C" using p nth(2) le by (simp add: m_def)
    from nth_mem [OF lt] have "?d < f (?C ! m)" by simp
    moreover have "?ys ! p = ?C ! m" using nth(1) le nth_append [of "?A @ ?B" ?C p] by (simp add: m_def)
    ultimately show False by simp
  qed
  moreover have "below f xs ?d = length ?A" using below_sort_key [of f xs ?d] by (simp add: below_def)
  moreover have "count_of f xs ?d = length ?B" by (simp add: count_of_def sort_key_stable)
  ultimately show ?thesis by (simp add: below_Suc)
qed

lemma filter_nth_take:
  "i < length xs \<Longrightarrow> P (xs ! i) \<Longrightarrow> filter P xs ! length (filter P (take i xs)) = xs ! i"
  by (subst (1) id_take_nth_drop [of i xs]) (simp_all add: nth_append)

lemma count_of_take: "i < length xs \<Longrightarrow> count_of f (take (Suc i) xs) d = count_of f (take i xs) d + (if f (xs ! i) = d then 1 else 0)"
  by (simp add: count_of_def take_Suc_conv_app_nth)

lemma count_of_take_le: "count_of f (take i xs) d \<le> count_of f xs d"
  by (metis append_take_drop_id count_of_def filter_append le_add1 length_append)

section \<open>The three steps\<close>

lemma tally_ok:
  assumes s: "0 \<le> s" "s \<le> e + 1" "e < len a" and xs: "xs = segm s e a"
    and dig: "\<And>x. x \<in> set xs \<Longrightarrow> 0 \<le> dig x \<and> dig x < k"
  shows "ok (tally dig a s e (replicate (nat k) 0)) (\<lambda>c. len c = max 0 k \<and>
    (\<forall>d. 0 \<le> d \<and> d < k \<longrightarrow> el c d = int (count_of dig xs d)))"
  unfolding tally_def
proof (rule for_up_rule [where I = "\<lambda>i c. len c = max 0 k \<and>
    (\<forall>d. 0 \<le> d \<and> d < k \<longrightarrow> el c d = int (count_of dig (take (nat (i - s)) xs) d))"])
  fix i c
  assume i: "s \<le> i" "i < e + 1" and I: "len c = max 0 k \<and>
    (\<forall>d. 0 \<le> d \<and> d < k \<longrightarrow> el c d = int (count_of dig (take (nat (i - s)) xs) d))"
  have n: "nat (i - s) < length xs" "xs ! nat (i - s) = el a i" "nat (i + 1 - s) = Suc (nat (i - s))"
    using i s by (auto simp: xs length_segm el_segm)
  then have "el a i \<in> set xs" by (metis nth_mem)
  then have "0 \<le> dig (el a i)" "dig (el a i) < k" using dig by blast+
  then show "ok (do { x \<leftarrow> rd a i; v \<leftarrow> rd c (dig x); wr c (dig x) (v + 1) }) (\<lambda>c. len c = max 0 k \<and>
    (\<forall>d. 0 \<le> d \<and> d < k \<longrightarrow> el c d = int (count_of dig (take (nat (i + 1 - s)) xs) d)))"
    using I i s n by (auto simp: wp el_up count_of_take)
next
  fix c assume "len c = max 0 k \<and> (\<forall>d. 0 \<le> d \<and> d < k \<longrightarrow> el c d = int (count_of dig (take (nat (e + 1 - s)) xs) d))"
  moreover have "nat (e + 1 - s) = length xs" using s by (simp add: xs length_segm)
  ultimately show "len c = max 0 k \<and> (\<forall>d. 0 \<le> d \<and> d < k \<longrightarrow> el c d = int (count_of dig xs d))" by simp
qed (use s in \<open>auto simp: el_def count_of_def\<close>)

lemma accumulate_ok:
  assumes "1 \<le> k" "len c = k" "\<And>d. 0 \<le> d \<Longrightarrow> d < k \<Longrightarrow> el c d = int (count_of dig xs d)"
    and dig: "\<And>x. x \<in> set xs \<Longrightarrow> 0 \<le> dig x"
  shows "ok (accumulate k c) (\<lambda>c. len c = k \<and> (\<forall>d. 0 \<le> d \<and> d < k \<longrightarrow> el c d = int (below dig xs (d + 1))))"
  unfolding accumulate_def
proof (rule for_up_rule [where I = "\<lambda>i b. len b = k \<and>
    (\<forall>d. 0 \<le> d \<and> d < k \<longrightarrow> el b d = (if d < i then int (below dig xs (d + 1)) else int (count_of dig xs d)))"])
  have "below dig xs 0 = 0" using dig by (intro below_none) auto
  then have "below dig xs (d + 1) = count_of dig xs d" if "0 \<le> d" "d < 1" for d
    using below_Suc [of dig xs d] that by (cases "d = 0") simp_all
  then show "len c = k \<and> (\<forall>d. 0 \<le> d \<and> d < k \<longrightarrow>
      el c d = (if d < 1 then int (below dig xs (d + 1)) else int (count_of dig xs d)))"
    using assms by auto
next
  fix i b
  assume i: "1 \<le> i" "i < k" and I: "len b = k \<and> (\<forall>d. 0 \<le> d \<and> d < k \<longrightarrow>
      el b d = (if d < i then int (below dig xs (d + 1)) else int (count_of dig xs d)))"
  then have "el b i = int (count_of dig xs i)" "el b (i - 1) = int (below dig xs i)" by auto
  then have "el b i + el b (i - 1) = int (below dig xs (i + 1))" by (simp add: below_Suc)
  then show "ok (do { x \<leftarrow> rd b i; y \<leftarrow> rd b (i - 1); wr b i (x + y) }) (\<lambda>b. len b = k \<and>
    (\<forall>d. 0 \<le> d \<and> d < k \<longrightarrow> el b d = (if d < i + 1 then int (below dig xs (d + 1)) else int (count_of dig xs d))))"
    using I i by (auto simp: wp el_up)
qed (use assms in auto)

lemma place_ok:
  assumes s: "0 \<le> s" "s \<le> e + 1" "e < len a" and xs: "xs = segm s e a"
    and dig: "\<And>x. x \<in> set xs \<Longrightarrow> 0 \<le> dig x \<and> dig x < k"
    and c: "len c = k" "\<And>d. 0 \<le> d \<Longrightarrow> d < k \<Longrightarrow> el c d = int (below dig xs (d + 1))"
    and r: "length r = length xs"
  shows "ok (place dig a s e (c, r)) (\<lambda>(c, r). r = sort_key dig xs \<and> len c = k \<and>
    (\<forall>d. 0 \<le> d \<and> d < k \<longrightarrow> el c d = int (below dig xs d)))"
proof -
  let ?S = "sort_key dig xs"
  let ?c = "\<lambda>i d. int (below dig xs d + count_of dig (take (nat (i + 1 - s)) xs) d)"
  define I where "I i = (\<lambda>(c, r). len c = k \<and> length r = length xs \<and>
     (\<forall>d. 0 \<le> d \<and> d < k \<longrightarrow> el c d = ?c i d) \<and>
     (\<forall>p. 0 \<le> p \<and> p < len xs \<and> el c (dig (el ?S p)) \<le> p \<longrightarrow> el r p = el ?S p))" for i
  have S: "0 \<le> dig (el ?S p) \<and> dig (el ?S p) < k" if "0 \<le> p" "p < len xs" for p
    using dig el_in_set [of p ?S] that by auto
  have block: "int (below dig xs (dig (el ?S p))) \<le> p" "p < int (below dig xs (dig (el ?S p) + 1))"
    if "0 \<le> p" "p < len xs" for p
    using sort_key_block [of "nat p" xs dig] that by (simp_all add: el_def nat_less_iff le_nat_iff zless_nat_eq_int_zless)
  show ?thesis
    unfolding place_def
  proof (rule for_down_rule [where I = I])
    have "take (nat (e + 1 - s)) xs = xs" using s by (simp add: xs length_segm)
    moreover have "\<not> el c (dig (el ?S p)) \<le> p" if "0 \<le> p" "p < len xs" for p
      using block [OF that] S [OF that] c(2) by simp
    ultimately show "I e (c, r)" using c r by (auto simp: I_def below_Suc)
  next
    fix i cr assume i: "s \<le> i" "i \<le> e" and I: "I i cr"
    obtain c r where cr: "cr = (c, r)" by (cases cr)
    define m where "m = nat (i - s)"
    have m: "m < length xs" "xs ! m = el a i" "nat (i + 1 - s) = Suc m" "nat (i - 1 + 1 - s) = m"
      using i s by (auto simp: xs length_segm el_segm m_def)
    define d where "d = dig (el a i)"
    have "el a i \<in> set xs" using m by (metis nth_mem)
    then have d: "0 \<le> d" "d < k" using dig by (auto simp: d_def)
    define q where "q = int (below dig xs d + count_of dig (take m xs) d)"
    have cd: "el c d = q + 1" using I d m by (simp add: I_def cr q_def count_of_take d_def)
    have lt: "count_of dig (take m xs) d < count_of dig xs d"
      using count_of_take [of m xs dig d] count_of_take_le [of dig "Suc m" xs d] m by (simp add: d_def)
    have Sq: "el ?S q = el a i"
      using sort_key_nth [OF lt] filter_nth_take [of m xs "\<lambda>x. dig x = d"] m
      by (simp add: el_def q_def count_of_def d_def nat_plus_as_int)
    have "below dig xs d + count_of dig xs d \<le> length xs"
      using below_Suc [of dig xs d] below_le [of dig xs "d + 1"] by simp
    then have q: "0 \<le> q" "q < len xs" using lt by (simp_all add: q_def)
    have "I (i - 1) (up c d q, up r q (el a i))"
      unfolding I_def prod.case
    proof (intro conjI allI impI)
      fix d' assume d': "0 \<le> d' \<and> d' < k"
      show "el (up c d q) d' = ?c (i - 1) d'"
        using I d' d m(1,2) unfolding m(4)
        by (cases "d' = d") (auto simp: I_def cr q_def m(3) count_of_take d_def el_up)
    next
      fix p assume p: "0 \<le> p \<and> p < len xs \<and> el (up c d q) (dig (el ?S p)) \<le> p"
      show "el (up r q (el a i)) p = el ?S p"
      proof (cases "p = q")
        case True
        then show ?thesis using q I Sq by (simp add: I_def cr)
      next
        case False
        have "el c (dig (el ?S p)) \<le> p"
          using p d False I cd S [of p] by (cases "dig (el ?S p) = d") (auto simp: el_up I_def cr)
        then show ?thesis using p q False I by (simp add: I_def cr)
      qed
    qed (use I in \<open>auto simp: I_def cr\<close>)
    then show "ok (case cr of (c, r) \<Rightarrow> do { x \<leftarrow> rd a i; v \<leftarrow> rd c (dig x); c \<leftarrow> wr c (dig x) (v - 1);
        r \<leftarrow> wr r (v - 1) x; Some (c, r) }) (I (i - 1))"
      using I i s d q cd by (simp add: wp cr I_def d_def)
  next
    fix cr assume "I (s - 1) cr"
    then show "case cr of (c, r) \<Rightarrow> r = ?S \<and> len c = k \<and> (\<forall>d. 0 \<le> d \<and> d < k \<longrightarrow> el c d = int (below dig xs d))"
      using block S by (auto simp: I_def count_of_def intro!: list_eq_el)
  qed (use s in simp)
qed

text \<open>All three together: the stable sort of the segment by the digit.\<close>

definition distribute :: "(int \<Rightarrow> int) \<Rightarrow> int \<Rightarrow> int list \<Rightarrow> int \<Rightarrow> int \<Rightarrow> int list \<Rightarrow> (int list \<times> int list) option" where
  "distribute dig k a s e result = do {
     cnt \<leftarrow> tally dig a s e (replicate (nat k) 0);
     cnt \<leftarrow> accumulate k cnt;
     place dig a s e (cnt, result) }"

lemma distribute_ok:
  assumes s: "0 \<le> s" "s \<le> e + 1" "e < len a" and xs: "xs = segm s e a"
    and dig: "\<And>x. x \<in> set xs \<Longrightarrow> 0 \<le> dig x \<and> dig x < k" and k: "1 \<le> k"
    and r: "length r = length xs"
  shows "ok (distribute dig k a s e r) (\<lambda>(c, r). r = sort_key dig xs \<and> len c = k \<and>
    (\<forall>d. 0 \<le> d \<and> d < k \<longrightarrow> el c d = int (below dig xs d)))"
  unfolding distribute_def ok_bind
proof (rule ok_mono [OF tally_ok [OF s xs dig]])
  fix c assume "len c = max 0 k \<and> (\<forall>d. 0 \<le> d \<and> d < k \<longrightarrow> el c d = int (count_of dig xs d))"
  then have "ok (accumulate k c) (\<lambda>c. len c = k \<and> (\<forall>d. 0 \<le> d \<and> d < k \<longrightarrow> el c d = int (below dig xs (d + 1))))"
    using k dig by (intro accumulate_ok) auto
  then show "ok (accumulate k c) (\<lambda>c. ok (place dig a s e (c, r)) (\<lambda>(c, r). r = sort_key dig xs \<and> len c = k \<and>
      (\<forall>d. 0 \<le> d \<and> d < k \<longrightarrow> el c d = int (below dig xs d))))"
    by (rule ok_mono) (rule place_ok [OF s xs dig _ _ r]; simp)
qed

section \<open>Extremes and shift\<close>

lemma max_less: "max x y = (if x > y then x else y)" for x :: int
  by simp

lemma min_less: "min x y = (if x < y then x else y)" for x :: int
  by simp

lemma Max_step: "finite A \<Longrightarrow> A \<noteq> {} \<Longrightarrow> Max (insert x A) = (if x > Max A then x else Max A)" for x :: int
  using Max_insert [of A x] max_less [of x "Max A"] by metis

lemma Min_step: "finite A \<Longrightarrow> A \<noteq> {} \<Longrightarrow> Min (insert x A) = (if x < Min A then x else Min A)" for x :: int
  using Min_insert [of A x] min_less [of x "Min A"] by metis

lemma max_min_ok:
  assumes "a \<noteq> []"
  shows "max_min a (len a) = Some (Max (set a), Min (set a))"
proof -
  have "ok (max_min a (len a)) (\<lambda>p. p = (Max (set a), Min (set a)))"
    unfolding max_min_def ok_bind ok_rd
  proof (intro conjI)
    show "ok (for_up 1 (len a) (\<lambda>i (hi, lo). do { x \<leftarrow> rd a i;
        Some (if x > hi then x else hi, if x < lo then x else lo) }) (el a 0, el a 0))
        (\<lambda>p. p = (Max (set a), Min (set a)))"
    proof (rule for_up_rule [where I = "\<lambda>i (x, y). x = Max (set (take (nat i) a)) \<and> y = Min (set (take (nat i) a))"])
      show "case (el a 0, el a 0) of (x, y) \<Rightarrow> x = Max (set (take (nat 1) a)) \<and> y = Min (set (take (nat 1) a))"
        using assms by (cases a) (auto simp: el_def)
    next
      fix j and s :: "int \<times> int"
      assume j: "1 \<le> j" "j < len a"
        and I: "case s of (x, y) \<Rightarrow> x = Max (set (take (nat j) a)) \<and> y = Min (set (take (nat j) a))"
      have "nat (j + 1) = Suc (nat j)" "nat j < length a" using j by auto
      then have "take (nat (j + 1)) a = take (nat j) a @ [el a j]" by (simp add: take_Suc_conv_app_nth el_def)
      moreover have "Max (insert x A) = (if x > Max A then x else Max A)" "Min (insert x A) = (if x < Min A then x else Min A)"
        if "A = set (take (nat j) a)" for x A
        using that j assms Max_step [of A x] Min_step [of A x] by auto
      ultimately show "ok (case s of (hi, lo) \<Rightarrow> do { x \<leftarrow> rd a j;
          Some (if x > hi then x else hi, if x < lo then x else lo) })
          (\<lambda>(x, y). x = Max (set (take (nat (j + 1)) a)) \<and> y = Min (set (take (nat (j + 1)) a)))"
        using I j by (cases s) (simp add: wp)
    qed (use assms in \<open>auto simp: Suc_le_eq\<close>)
  qed (use assms in auto)
  then show ?thesis by (auto simp: ok_iff)
qed

lemma shift_ok:
  assumes "\<And>x. x \<in> set a \<Longrightarrow> in_int (x + d)"
  shows "shift a (len a) d = Some (map (\<lambda>x. x + d) a)"
proof -
  have "ok (shift a (len a) d) (\<lambda>b. b = map (\<lambda>x. x + d) a)"
    unfolding shift_def
  proof (rule for_up_rule [where I = "\<lambda>i b. length b = length a \<and>
      (\<forall>j. 0 \<le> j \<and> j < len a \<longrightarrow> el b j = (if j < i then el a j + d else el a j))"])
    fix j b assume "0 \<le> j" "j < len a" "length b = length a \<and>
      (\<forall>k. 0 \<le> k \<and> k < len a \<longrightarrow> el b k = (if k < j then el a k + d else el a k))"
    moreover have "in_int (el a j + d)" using assms el_in_set calculation by blast
    ultimately show "ok (do { x \<leftarrow> rd b j; y \<leftarrow> cint (x + d); wr b j y }) (\<lambda>b. length b = length a \<and>
        (\<forall>k. 0 \<le> k \<and> k < len a \<longrightarrow> el b k = (if k < j + 1 then el a k + d else el a k)))"
      by (auto simp: wp el_up)
  next
    fix b assume "length b = length a \<and>
      (\<forall>k. 0 \<le> k \<and> k < len a \<longrightarrow> el b k = (if k < len a then el a k + d else el a k))"
    then show "b = map (\<lambda>x. x + d) a" by (intro list_eq_el) (auto simp: el_def nat_less_iff)
  qed auto
  then show ?thesis by (auto simp: ok_iff)
qed

lemma map_shift_back: "map (\<lambda>x. x + d) (map (\<lambda>x. x - d) a) = (a :: int list)"
  by (simp add: comp_def)

lemma sort_shift: "sort (map (\<lambda>x. x + d) a) = map (\<lambda>x. x + d) (sort a)" for d :: int
  by (rule properties_for_sort) (auto simp: sorted_map intro: sorted_wrt_mono_rel [OF _ sorted_sort])

end
