(* ===== verification/Count_Radix.thy ===== *)
theory Count_Radix
  imports Counting Quick_Sort_Correct
begin

text \<open>
  \<open>Sort/count_sort.c\<close>, \<open>Sort/radix_sort.c\<close> and \<open>Sort/bucket_sort.cpp\<close>.  The counting
  sort and the two radix sorts (least and most significant digit first) are the stable
  distribution of \<open>Counting\<close>, iterated; the arrays they allocate hold unspecified values,
  the parameter \<open>junk\<close>.  All arithmetic on elements is checked against \<open>int\<close>: the theorems
  ask that the spread \<open>max - min\<close> fits when there are negative elements, because the code
  computes it.
\<close>

section \<open>The model\<close>

text \<open>
  The scan for the extremes, and the shift that makes all elements non-negative; the result
  is \<open>(max, min, ptr)\<close>, where \<open>max\<close> is that of the shifted array and \<open>min\<close> the original one.
\<close>

definition drop_negative :: "int list \<Rightarrow> int \<Rightarrow> (int \<times> int \<times> int list) option" where
  "drop_negative ptr n = do {
     (max, min) \<leftarrow> max_min ptr n;
     if min < 0 then do {
       max \<leftarrow> cint (max - min);
       ptr \<leftarrow> shift ptr n (- min);
       Some (max, min, ptr) }
     else Some (max, min, ptr) }"

definition count_sort :: "int list \<Rightarrow> int list \<Rightarrow> int \<Rightarrow> int list option" where
  "count_sort junk ptr n =
     (if n \<le> 1 then Some ptr
      else do {
        (max, min, ptr) \<leftarrow> drop_negative ptr n;
        let has_negtive = (if min < 0 then min else 0);
        let min = (if min < 0 then 0 else min);
        spread \<leftarrow> cint (max - min);
        if spread > 10000 then Some ptr
        else do {
          (cnt, result) \<leftarrow> distribute (\<lambda>x. x - min) (spread + 1) ptr 0 (n - 1) junk;
          ptr \<leftarrow> memcpy ptr 0 result 0 n;
          if has_negtive \<noteq> 0 then shift ptr n has_negtive else Some ptr } })"

text \<open>
  One round of the loop of \<open>radix_sort_LSD\<close>: \<open>a\<close> and \<open>result\<close> change roles; \<open>own\<close> records
  that \<open>a\<close> is the caller's array \<open>ptr\<close>.  \<open>n\<close> is a \<open>long\<close>.
\<close>

definition LONG_MAX :: int where "LONG_MAX = 9223372036854775807"

definition radix_round :: "int \<Rightarrow> int list \<times> int list \<times> bool \<times> int \<Rightarrow> (int list \<times> int list \<times> bool \<times> int) option" where
  "radix_round sz = (\<lambda>(a, result, own, n). do {
     (cnt, result) \<leftarrow> distribute (digit n) 10 a 0 (sz - 1) result;
     guard (n * 10 \<le> LONG_MAX);
     Some (result, a, \<not> own, n * 10) })"

definition radix_sort_LSD :: "int list \<Rightarrow> int list \<Rightarrow> int \<Rightarrow> int list option" where
  "radix_sort_LSD junk ptr sz =
     (if sz \<le> 1 then Some ptr
      else do {
        (max, min, ptr) \<leftarrow> drop_negative ptr sz;
        (a, result, own, n) \<leftarrow> cwhile (\<lambda>(a, result, own, n). Some (cdiv max n > 0))
          (radix_round sz) (ptr, junk, True, 1);
        ptr \<leftarrow> (if \<not> own then memcpy result 0 a 0 sz else Some a);
        if min < 0 then shift ptr sz min else Some ptr })"

lemma for_up_cong [fundef_cong]:
  assumes "i = i'" "n = n'" "s = s'"
    and f: "\<And>j t. i' \<le> j \<Longrightarrow> j < n' \<Longrightarrow> f j t = g j t"
  shows "for_up i n f s = for_up i' n' g s'"
  unfolding assms(1-3) using f
proof (induction "nat (n' - i')" arbitrary: i' s')
  case 0
  then show ?case by (simp add: for_up_skip)
next
  case (Suc k)
  then have "for_up (i' + 1) n' f t = for_up (i' + 1) n' g t" for t by simp
  moreover have "f i' s' = g i' s'" if "i' < n'" using Suc.prems that by simp
  ultimately show ?case
    by (subst (1 2) for_up.simps) (cases "g i' s'"; simp)
qed

function radix_sort_MSD_recursive :: "(int \<Rightarrow> int list) \<Rightarrow> int list \<Rightarrow> int \<Rightarrow> int \<Rightarrow> int \<Rightarrow> int list option" where
  "radix_sort_MSD_recursive junk ptr start end exp =
     (if exp \<le> 0 then Some ptr
      else if end - start \<le> 1 then sort_small ptr start end
      else do {
        (cnt, bucket) \<leftarrow> distribute (digit exp) 10 ptr start end (junk (end - start + 1));
        ptr \<leftarrow> memcpy ptr start bucket 0 (end - start + 1);
        for_up 0 10 (\<lambda>i ptr. do {
          c \<leftarrow> rd cnt i;
          let start1 = start + c;
          end1 \<leftarrow> (if i + 1 < 10 then do { c \<leftarrow> rd cnt (i + 1); Some (start + c - 1) } else Some end);
          if start1 < end1 then radix_sort_MSD_recursive junk ptr start1 end1 (cdiv exp 10)
          else Some ptr }) ptr })"
  by pat_completeness auto
termination by (relation "measure (\<lambda>(junk, ptr, start, end, exp). nat exp)") auto

declare radix_sort_MSD_recursive.simps [simp del]

definition radix_sort_MSD :: "(int \<Rightarrow> int list) \<Rightarrow> int list \<Rightarrow> int \<Rightarrow> int list option" where
  "radix_sort_MSD junk ptr sz =
     (if sz \<le> 1 then Some ptr
      else do {
        (max, min, ptr) \<leftarrow> drop_negative ptr sz;
        (max, n) \<leftarrow> cwhile (\<lambda>(max, n). Some (cdiv max 10 \<noteq> 0))
          (\<lambda>(max, n). do { n \<leftarrow> cint (n * 10); Some (cdiv max 10, n) }) (max, 1);
        ptr \<leftarrow> radix_sort_MSD_recursive junk ptr 0 (sz - 1) n;
        if min < 0 then shift ptr sz min else Some ptr })"

definition fill_buckets :: "int list \<Rightarrow> int \<Rightarrow> int \<Rightarrow> int \<Rightarrow> int list list option" where
  "fill_buckets ptr sz mn bucketsize = for_up 0 sz (\<lambda>i bucketarray. do {
     x \<leftarrow> rd ptr i;
     let bucket = crem (cdiv x 10 - cdiv mn 10) bucketsize;
     b \<leftarrow> rd bucketarray bucket;
     wr bucketarray bucket (b @ [x]) }) (replicate (nat bucketsize) [])"

definition bucket_sort_quick :: "int list \<Rightarrow> int \<Rightarrow> int list option" where
  "bucket_sort_quick ptr sz =
     (if sz \<le> 1 then Some ptr
      else do {
        (max, min) \<leftarrow> max_min ptr sz;
        bucketsize \<leftarrow> cint (cdiv max 10 - cdiv min 10 + 1);
        bucketarray \<leftarrow> fill_buckets ptr sz min bucketsize;
        (ptr, index) \<leftarrow> for_up 0 (int (length bucketarray)) (\<lambda>i (ptr, index). do {
          b \<leftarrow> rd bucketarray i;
          if b = [] then Some (ptr, index)
          else do {
            b \<leftarrow> better_quick_sort2 b (int (length b));
            ptr \<leftarrow> memcpy ptr index b 0 (int (length b));
            Some (ptr, index + int (length b)) } }) (ptr, 0);
        Some ptr })"

section \<open>Making the elements non-negative\<close>

definition offset :: "int list \<Rightarrow> int" where
  "offset a = min 0 (Min (set a))"

abbreviation lifted :: "int list \<Rightarrow> int list" where
  "lifted a \<equiv> map (\<lambda>x. x - offset a) a"

text \<open>The arrays for which the code's \<open>max - min\<close> does not overflow.\<close>

definition fits :: "int list \<Rightarrow> bool" where
  "fits a \<longleftrightarrow> (\<forall>x \<in> set a. in_int x) \<and> (Min (set a) < 0 \<longrightarrow> Max (set a) - Min (set a) \<le> INT_MAX)"

lemma min_0: "min 0 m = (if m < 0 then m else 0)" for m :: int
  by simp

lemma spread_0: "mx - min 0 m - max 0 m = mx - m" for m :: int
  by simp

lemma offset_le: "x \<in> set a \<Longrightarrow> offset a \<le> x"
  unfolding offset_def using Min_le [of "set a" x] by (simp del: Min_le)

lemma bounds_in: "x \<in> set a \<Longrightarrow> Min (set a) \<le> x \<and> x \<le> Max (set a)"
  by simp

lemma lifted_bounds:
  assumes "fits a" "x \<in> set (lifted a)"
  shows "0 \<le> x \<and> x \<le> INT_MAX"
proof -
  obtain y where y: "y \<in> set a" "x = y - min 0 (Min (set a))" using assms by (auto simp: offset_def)
  have "in_int y" "Min (set a) < 0 \<longrightarrow> Max (set a) - Min (set a) \<le> INT_MAX"
    using assms(1) y(1) unfolding fits_def by blast+
  then show ?thesis using bounds_in [OF y(1)] y(2) by linarith
qed

lemma Max_lifted: "a \<noteq> [] \<Longrightarrow> Max (set (lifted a)) = Max (set a) - offset a"
  using mono_Max_commute [of "\<lambda>x. x - offset a" "set a"] by (simp add: mono_def image_image)

lemma drop_negative_ok:
  assumes "a \<noteq> []" "fits a"
  shows "drop_negative a (len a) = Some (Max (set (lifted a)), Min (set a), lifted a)"
proof (cases "Min (set a) < 0")
  case True
  have off: "offset a = Min (set a)" using True unfolding offset_def by linarith
  have range: "INT_MIN \<le> x - Min (set a) \<and> x - Min (set a) \<le> INT_MAX" if "x \<in> set a" for x
  proof -
    have "0 \<le> x - Min (set a)" "x - Min (set a) \<le> INT_MAX"
      using lifted_bounds [OF assms(2), of "x - offset a"] that unfolding off by auto
    then show ?thesis by (simp add: int_limits)
  qed
  then have "shift a (len a) (- Min (set a)) = Some (map (\<lambda>x. x - Min (set a)) a)"
    using shift_ok [of a "- Min (set a)"] by simp
  moreover from this have "in_int (Max (set a) - Min (set a))"
    using range [of "Max (set a)"] assms(1) by simp
  ultimately show ?thesis
    using True assms Max_lifted [of a] by (simp add: drop_negative_def max_min_ok off del: Min_less_iff)
next
  case False
  then have "offset a = 0" unfolding offset_def by linarith
  with False show ?thesis using assms by (simp add: drop_negative_def max_min_ok del: Min_less_iff)
qed

lemma restore_ok:
  assumes "fits a" "b = sort (lifted a)"
  shows "(if Min (set a) < 0 then shift b (len a) (Min (set a)) else Some b) = Some (sort a)"
proof -
  have eq: "map (\<lambda>x. x + offset a) b = sort a"
    using sort_shift [of "offset a" "lifted a"] assms(2) by (simp add: comp_def)
  have l: "len b = len a" using assms by simp
  have "in_int (x + offset a)" if "x \<in> set b" for x
    using that assms by (auto simp: fits_def)
  then have "shift b (len a) (offset a) = Some (sort a)"
    using shift_ok [of b "offset a"] l eq by simp
  moreover have "offset a = (if Min (set a) < 0 then Min (set a) else 0)"
    unfolding offset_def by (rule min_0)
  ultimately show ?thesis using eq by (cases "Min (set a) < 0") (simp_all del: Min_less_iff)
qed

section \<open>The counting sort\<close>

lemma sort_key_shift: "sort_key (\<lambda>x. x - d) xs = sort xs" for d :: int
proof (rule properties_for_sort [symmetric])
  show "sorted (sort_key (\<lambda>x. x - d) xs)"
    using sorted_sort_key [of "\<lambda>x. x - d" xs] by (simp add: sorted_map)
qed simp

lemma memcpy_all: "length dst = length src \<Longrightarrow> n = len src \<Longrightarrow> memcpy dst 0 src 0 n = Some src"
  by (simp add: memcpy_whole)

lemma lifted_spread:
  assumes "a \<noteq> []"
  shows "Max (set (lifted a)) - max 0 (Min (set a)) = Max (set a) - Min (set a)"
  using spread_0 [of "Max (set a)" "Min (set a)"] unfolding Max_lifted [OF assms] by (simp only: offset_def)

lemma count_sort_unfold:
  assumes "fits a" "2 \<le> len a"
  shows "count_sort junk a (len a) = (let mn = max 0 (Min (set a)) in do {
    spread \<leftarrow> cint (Max (set a) - Min (set a));
    if spread > 10000 then Some (lifted a)
    else do {
      (cnt, result) \<leftarrow> distribute (\<lambda>x. x - mn) (spread + 1) (lifted a) 0 (len a - 1) junk;
      ptr \<leftarrow> memcpy (lifted a) 0 result 0 (len a);
      if Min (set a) < 0 then shift ptr (len a) (Min (set a)) else Some ptr } })"
proof -
  have a: "a \<noteq> []" using assms(2) by auto
  show ?thesis
  proof (cases "Min (set a) < 0")
    case True
    then have "max 0 (Min (set a)) = 0" and ne: "Min (set a) \<noteq> 0" by linarith+
    with True show ?thesis
      using assms a lifted_spread [OF a]
      by (simp add: ne count_sort_def drop_negative_ok Let_def cong: if_cong del: Min_less_iff set_map)
  next
    case False
    then have "max 0 (Min (set a)) = Min (set a)" by linarith
    with False show ?thesis
      using assms a lifted_spread [OF a]
      by (simp add: count_sort_def drop_negative_ok Let_def cong: if_cong del: Min_less_iff set_map)
  qed
qed

lemma count_sort_sorts:
  assumes f: "fits a" and s: "a = [] \<or> Max (set a) - Min (set a) \<le> 10000" and j: "length junk = length a"
  shows "sorts_to a (count_sort junk a (len a))"
proof (cases "len a \<le> 1")
  case True
  then show ?thesis by (cases a) (auto simp: count_sort_def sorts_to_def)
next
  case False
  then have a: "a \<noteq> []" by auto
  let ?mn = "max 0 (Min (set a))" and ?k = "Max (set a) - Min (set a)"
  have m: "Min (set a) \<le> Max (set a)" using a by simp
  have dig: "0 \<le> x - ?mn \<and> x - ?mn < ?k + 1" if x: "x \<in> set (lifted a)" for x
  proof -
    from x obtain y where y: "y \<in> set a" "x = y - offset a" by auto
    show ?thesis using bounds_in [OF y(1)] unfolding y(2) offset_def by linarith
  qed
  have seg: "lifted a = segm 0 (len a - 1) (lifted a)" using segm_whole [of "lifted a"] by simp
  obtain c where c: "distribute (\<lambda>x. x - ?mn) (?k + 1) (lifted a) 0 (len a - 1) junk = Some (c, sort (lifted a))"
    using distribute_ok [OF _ _ _ seg, of "\<lambda>x. x - ?mn" "?k + 1" junk] dig m a j
    by (auto simp: sort_key_shift elim!: okE)
  have "0 \<le> ?k" "?k \<le> 10000" using s a m by simp_all
  then have "in_int ?k" by (simp add: int_limits)
  then have "count_sort junk a (len a) = Some (sort a)"
    unfolding count_sort_unfold [OF f, of junk] using c s a False restore_ok [OF f refl]
    by (simp add: Let_def memcpy_all count_sort_unfold [OF f] del: Min_less_iff)
  then show ?thesis by (simp add: sorts_to_def)
qed

text \<open>
  Scattered elements.  The code says it only refuses to sort, but the shift has already
  been done and is not undone: with a negative element, every element is changed.
\<close>

lemma count_sort_scattered:
  assumes f: "fits a" and s: "10000 < Max (set a) - Min (set a)" and a: "2 \<le> len a"
    and i: "in_int (Max (set a) - Min (set a))"
  shows "count_sort junk a (len a) = Some (map (\<lambda>x. x - min 0 (Min (set a))) a)"
  unfolding count_sort_unfold [OF f a] offset_def [symmetric]
  using s i by (simp add: Let_def)

section \<open>Least significant digit first\<close>

text \<open>A stable sort by \<open>g\<close> of a list sorted by \<open>h\<close> sorts lexicographically.\<close>

lemma insort_key_lex:
  fixes g :: "'a \<Rightarrow> int" and R :: "'a \<Rightarrow> 'a \<Rightarrow> bool"
  defines "Q \<equiv> \<lambda>x y. g x < g y \<or> g x = g y \<and> R x y"
  assumes "sorted_wrt Q ys" "\<forall>y \<in> set ys. R z y"
  shows "sorted_wrt Q (insort_key g z ys)"
  using assms(2,3)
proof (induction ys)
  case (Cons y ys)
  show ?case
  proof (cases "g z \<le> g y")
    case True
    have "Q z x" if "x \<in> set (y # ys)" for x
      using that True Cons.prems by (auto simp: Q_def)
    with True Cons.prems show ?thesis by simp
  next
    case False
    then have "Q y z" by (simp add: Q_def)
    with False Cons show ?thesis by (auto simp: set_insort_key)
  qed
qed simp

lemma sort_key_lex:
  fixes g :: "'a \<Rightarrow> int"
  shows "sorted_wrt R zs \<Longrightarrow> sorted_wrt (\<lambda>x y. g x < g y \<or> g x = g y \<and> R x y) (sort_key g zs)"
  by (induction zs) (auto intro!: insort_key_lex)

lemma digit_nonneg: "0 \<le> x \<Longrightarrow> 0 < n \<Longrightarrow> digit n x = x div n mod 10"
  by (simp add: digit_def pos_imp_zdiv_nonneg_iff)

lemma sort_key_agree:
  fixes f g :: "'a \<Rightarrow> int"
  assumes eq: "\<And>x. x \<in> set xs \<Longrightarrow> f x = g x"
  shows "sort_key f xs = sort_key g xs"
proof (rule properties_for_sort_key)
  show "sorted (map f (sort_key g xs))"
  proof -
    have "map f (sort_key g xs) = map g (sort_key g xs)" by (simp add: eq)
    then show ?thesis by (simp only: sorted_sort_key)
  qed
  fix k assume "k \<in> set (sort_key g xs)"
  then have "filter (\<lambda>x. f k = f x) ys = filter (\<lambda>x. g x = g k) ys" if "set ys = set xs" for ys
    using that eq by (auto intro!: filter_cong)
  then show "filter (\<lambda>x. f k = f x) (sort_key g xs) = filter (\<lambda>x. f k = f x) xs"
    by (simp add: sort_key_stable)
qed simp

lemma mod_power_Suc: "x mod 10 ^ Suc k = 10 ^ k * (x div 10 ^ k mod 10) + x mod 10 ^ k" for x :: int
  using zmod_zmult2_eq [of 10 x "10 ^ k"] by (simp add: mult.commute)

lemma digit_lex:
  fixes x y :: int
  assumes "x div 10 ^ k mod 10 < y div 10 ^ k mod 10 \<or>
    x div 10 ^ k mod 10 = y div 10 ^ k mod 10 \<and> x mod 10 ^ k \<le> y mod 10 ^ k"
  shows "x mod 10 ^ Suc k \<le> y mod 10 ^ Suc k"
proof (cases "x div 10 ^ k mod 10 = y div 10 ^ k mod 10")
  case True
  then show ?thesis using assms unfolding mod_power_Suc by simp
next
  case False
  then have "x div 10 ^ k mod 10 + 1 \<le> y div 10 ^ k mod 10" using assms by simp
  then have "10 ^ k * (x div 10 ^ k mod 10 + 1) \<le> 10 ^ k * (y div 10 ^ k mod 10)"
    by (rule mult_left_mono) simp
  moreover have "x mod 10 ^ k < 10 ^ k" "0 \<le> y mod 10 ^ k" by simp_all
  moreover have "10 ^ k * (x div 10 ^ k mod 10 + 1) = 10 ^ k * (x div 10 ^ k mod 10) + 10 ^ k"
    by (simp add: distrib_left)
  ultimately show ?thesis unfolding mod_power_Suc by linarith
qed

lemma mod_power_eqD:
  fixes x y :: int
  assumes "x mod 10 ^ Suc k = y mod 10 ^ Suc k"
  shows "x mod 10 ^ k = y mod 10 ^ k \<and> x div 10 ^ k mod 10 = y div 10 ^ k mod 10"
proof
  have "z mod 10 ^ Suc k mod 10 ^ k = z mod 10 ^ k" for z :: int
    by (rule mod_mod_cancel) simp
  then show m: "x mod 10 ^ k = y mod 10 ^ k" using assms by metis
  have "10 ^ k * (x div 10 ^ k mod 10) = 10 ^ k * (y div 10 ^ k mod 10)"
    using assms m unfolding mod_power_Suc by linarith
  then show "x div 10 ^ k mod 10 = y div 10 ^ k mod 10" by simp
qed

lemma filter_mod_power:
  fixes x :: int
  shows "filter (\<lambda>y. x mod 10 ^ Suc k = y mod 10 ^ Suc k) ys =
    filter (\<lambda>y. x mod 10 ^ Suc k = y mod 10 ^ Suc k)
      (filter (\<lambda>y. y mod 10 ^ k = x mod 10 ^ k) (filter (\<lambda>y. y div 10 ^ k mod 10 = x div 10 ^ k mod 10) ys))"
  unfolding filter_filter by (rule filter_cong [OF refl]) (use mod_power_eqD in metis)

lemma radix_step:
  assumes "\<And>x. x \<in> set a \<Longrightarrow> 0 \<le> x"
  shows "sort_key (digit (10 ^ k)) (sort_key (\<lambda>x. x mod 10 ^ k) a) = sort_key (\<lambda>x. x mod 10 ^ Suc k) a"
proof (rule properties_for_sort_key [symmetric])
  let ?g = "\<lambda>x :: int. x div 10 ^ k mod 10" and ?b = "sort_key (\<lambda>x. x mod 10 ^ k) a"
  have eq: "sort_key (digit (10 ^ k)) ?b = sort_key ?g ?b"
    by (rule sort_key_agree) (rule digit_nonneg; use assms in simp)
  have "sorted_wrt (\<lambda>x y. x mod 10 ^ k \<le> y mod 10 ^ k) ?b"
    using sorted_sort_key [of "\<lambda>x. x mod 10 ^ k" a] by (simp only: sorted_map)
  then have "sorted_wrt (\<lambda>x y. ?g x < ?g y \<or> ?g x = ?g y \<and> x mod 10 ^ k \<le> y mod 10 ^ k) (sort_key ?g ?b)"
    by (rule sort_key_lex)
  then have "sorted_wrt (\<lambda>x y. x mod 10 ^ Suc k \<le> y mod 10 ^ Suc k) (sort_key ?g ?b)"
    by (rule sorted_wrt_mono_rel [rotated]) (rule digit_lex)
  then show "sorted (map (\<lambda>x. x mod 10 ^ Suc k) (sort_key (digit (10 ^ k)) ?b))"
    by (simp only: eq sorted_map)
  fix x assume "x \<in> set (sort_key (digit (10 ^ k)) ?b)"
  have comm: "filter P (filter Q ys) = filter Q (filter P ys)" for P Q and ys :: "int list"
    by (simp add: conj_commute)
  let ?A = "filter (\<lambda>y. y mod 10 ^ k = x mod 10 ^ k)" and ?B = "filter (\<lambda>y. ?g y = ?g x)"
  have "?A (?B (sort_key ?g ?b)) = ?A (?B ?b)" by (simp only: sort_key_stable)
  also have "\<dots> = ?B (?A ?b)" by (rule comm)
  also have "\<dots> = ?B (?A a)" by (simp only: sort_key_stable)
  also have "\<dots> = ?A (?B a)" by (rule comm)
  finally have F: "?A (?B (sort_key ?g ?b)) = ?A (?B a)" .
  show "filter (\<lambda>y. x mod 10 ^ Suc k = y mod 10 ^ Suc k) (sort_key (digit (10 ^ k)) ?b) =
      filter (\<lambda>y. x mod 10 ^ Suc k = y mod 10 ^ Suc k) a"
    unfolding eq by (rule trans [OF filter_mod_power], rule trans [OF _ filter_mod_power [symmetric]]) (simp only: F)
qed simp

lemma radix_loop_ok:
  assumes A: "A \<noteq> []" "\<And>x. x \<in> set A \<Longrightarrow> 0 \<le> x \<and> x \<le> INT_MAX" and j: "length junk = length A"
    and m: "mx = Max (set A)"
  shows "ok (cwhile (\<lambda>(a, result, own, n). Some (cdiv mx n > 0)) (radix_round (len A)) (A, junk, True, 1))
    (\<lambda>(b, r, own, n). b = sort A \<and> length r = length A)"
proof (rule cwhile_rule [where m = "\<lambda>(b, r, own, n). nat (10 ^ 11 - n)" and
    I = "\<lambda>(b, r, own, n). \<exists>k. n = 10 ^ k \<and> b = sort_key (\<lambda>x. x mod 10 ^ k) A \<and> length r = length A"])
  have "sort_key (\<lambda>x. x mod 10 ^ 0) A = A"
    by (rule properties_for_sort_key) (simp_all add: map_replicate_const)
  then show "case (A, junk, True, 1) of (b, r, own, n) \<Rightarrow>
      \<exists>k. n = 10 ^ k \<and> b = sort_key (\<lambda>x. x mod 10 ^ k) A \<and> length r = length A"
    using j by (auto intro!: exI [of _ 0])
next
  fix st :: "int list \<times> int list \<times> bool \<times> int"
  assume "case st of (b, r, own, n) \<Rightarrow>
      \<exists>k. n = 10 ^ k \<and> b = sort_key (\<lambda>x. x mod 10 ^ k) A \<and> length r = length A"
  then obtain b r own n k where st: "st = (b, r, own, n)" and n: "n = 10 ^ k"
    and b: "b = sort_key (\<lambda>x. x mod 10 ^ k) A" and r: "length r = length A" by (cases st) auto
  have mx: "0 \<le> mx" "mx \<le> INT_MAX" using A unfolding m by (metis List.finite_set Max_in set_empty)+
  have len: "len b = len A" and set: "set b = set A" by (simp_all add: b)
  show "ok (case st of (a, result, own, n) \<Rightarrow> Some (cdiv mx n > 0)) (\<lambda>t.
    (t \<longrightarrow> ok (radix_round (len A) st) (\<lambda>st'. (case st' of (b, r, own, n) \<Rightarrow>
        \<exists>k. n = 10 ^ k \<and> b = sort_key (\<lambda>x. x mod 10 ^ k) A \<and> length r = length A) \<and>
      (case st' of (b, r, own, n) \<Rightarrow> nat (10 ^ 11 - n)) < (case st of (b, r, own, n) \<Rightarrow> nat (10 ^ 11 - n)))) \<and>
    (\<not> t \<longrightarrow> (case st of (b, r, own, n) \<Rightarrow> b = sort A \<and> length r = length A)))"
  proof (cases "mx div n > 0")
    case True
    then have "n \<le> mx" using mx n by (simp add: pos_imp_zdiv_pos_iff)
    then have "(10 :: int) ^ k < 10 ^ 10" using mx n by (simp add: int_limits)
    then have k: "k < 10" by (rule power_less_imp_less_exp [rotated]) simp
    then have n10: "n * 10 \<le> 10 ^ 10" "0 < n" using power_increasing [of "Suc k" 10 "10 :: int"] n by simp_all
    have seg: "b = segm 0 (len A - 1) b" using segm_whole [of b] len by simp
    have "ok (distribute (digit n) 10 b 0 (len A - 1) r) (\<lambda>(c, r). r = sort_key (digit n) b \<and> len c = 10 \<and>
        (\<forall>d. 0 \<le> d \<and> d < 10 \<longrightarrow> el c d = int (below (digit n) b d)))"
      by (rule distribute_ok [OF _ _ _ seg]) (use len set A n10 r in \<open>auto simp: digit_nonneg\<close>)
    moreover have "sort_key (digit n) b = sort_key (\<lambda>x. x mod 10 ^ Suc k) A"
      unfolding n b by (rule radix_step) (use A in blast)
    moreover have "n * 10 = 10 ^ Suc k" by (simp add: n)
    ultimately show ?thesis
      using st True n10 len mx by (auto simp: radix_round_def wp LONG_MAX_def split_def intro!: exI [of _ "Suc k"] elim!: ok_mono)
  next
    case False
    then have "mx < n" using mx n by (simp add: pos_imp_zdiv_pos_iff)
    then have "x < n" if "x \<in> set A" for x using that bounds_in [of x A] unfolding m by linarith
    then have "sort_key (\<lambda>x. x mod 10 ^ k) A = sort A"
      by (intro sort_key_agree) (use A n in \<open>auto simp: zmod_trivial_iff\<close>)
    then show ?thesis using st False b r mx by simp
  qed
qed

lemma radix_sort_LSD_sorts:
  assumes "fits a" "length junk = length a"
  shows "sorts_to a (radix_sort_LSD junk a (len a))"
proof (cases "len a \<le> 1")
  case True
  then show ?thesis by (cases a) (auto simp: radix_sort_LSD_def sorts_to_def)
next
  case False
  then have a: "a \<noteq> []" by auto
  have "ok (cwhile (\<lambda>(b, result, own, n). Some (cdiv (Max (set (lifted a))) n > 0))
      (radix_round (len (lifted a))) (lifted a, junk, True, 1)) (\<lambda>(b, r, own, n). b = sort (lifted a) \<and> length r = length (lifted a))"
  proof (rule radix_loop_ok)
    show "0 \<le> x \<and> x \<le> INT_MAX" if "x \<in> set (lifted a)" for x
      using lifted_bounds [OF assms(1) that] .
  qed (use a assms(2) in simp_all)
  then obtain t where t: "cwhile (\<lambda>(b, result, own, n). Some (cdiv (Max (set (lifted a))) n > 0))
      (radix_round (len (lifted a))) (lifted a, junk, True, 1) = Some t"
    "case t of (b, r, own, n) \<Rightarrow> b = sort (lifted a) \<and> length r = length (lifted a)" by (rule okE)
  obtain b r own n where "t = (b, r, own, n)" by (cases t)
  with t have l: "cwhile (\<lambda>(b, result, own, n). Some (cdiv (Max (set (lifted a))) n > 0))
      (radix_round (len a)) (lifted a, junk, True, 1) = Some (b, r, own, n)" "b = sort (lifted a)" "length r = length a"
    by (simp_all del: set_map)
  have "(if \<not> own then memcpy r 0 b 0 (len a) else Some b) = Some b"
    using l memcpy_all [of r b] by simp
  then have "radix_sort_LSD junk a (len a) = Some (sort a)"
    using False a l(1) drop_negative_ok [OF a assms(1)] restore_ok [OF assms(1) l(2)]
    by (simp add: radix_sort_LSD_def cong: if_cong del: set_map Min_less_iff)
  then show ?thesis by (simp add: sorts_to_def)
qed

section \<open>Most significant digit first\<close>

text \<open>Sorting the next bucket of an array that is ordered bucket by bucket.\<close>

lemma bucket_step:
  assumes b: "seg_perm s (m - 1) a b" "sorted_seg s (m - 1) b"
    and c: "seg_perm m r b c" "sorted_seg m r c"
    and i: "0 \<le> s" "s \<le> m" "m \<le> r + 1" "r < len a"
    and cross: "\<And>p q. s \<le> p \<Longrightarrow> p < m \<Longrightarrow> m \<le> q \<Longrightarrow> q \<le> r \<Longrightarrow> el a p \<le> el a q"
  shows "seg_perm s r a c \<and> sorted_seg s r c"
proof
  have l: "length b = length a" using b(1) by (rule seg_perm_length)
  show "seg_perm s r a c"
    using seg_perm_trans [OF seg_perm_widen [OF b(1)] seg_perm_widen [OF c(1)]] i by simp
  have low: "el c p = el b p" if "s \<le> p" "p < m" for p
    using seg_perm_outside [OF c(1), of p] that i l by simp
  have hi: "el b q = el a q" if "m \<le> q" "q \<le> r" for q
    using seg_perm_outside [OF b(1), of q] that i by simp
  show "sorted_seg s r c"
  proof (rule sorted_seg_join [of _ "m - 1"])
    show "sorted_seg s (m - 1) c" using b(2) by (rule sorted_seg_cong) (use low in simp)
    fix p q assume p: "s \<le> p" "p \<le> m - 1" and q: "m - 1 < q" "q \<le> r"
    have "el b p \<le> el a q'" if "m \<le> q'" "q' \<le> r" for q'
      by (rule seg_perm_all [OF b(1), where P = "\<lambda>x. x \<le> el a q'"]) (use p i that cross in auto)
    then have "el b p \<le> el c q"
      by (intro seg_perm_all [OF c(1), where P = "\<lambda>x. el b p \<le> x"]) (use q i l hi in auto)
    then show "el c p \<le> el c q" using low p by simp
  qed (use c(2) in simp)
qed

definition msd_exp :: "nat \<Rightarrow> int" where
  "msd_exp k = (if k = 0 then 0 else 10 ^ (k - 1))"

lemma msd_exp_step: "cdiv (10 ^ k) 10 = msd_exp k"
  by (cases k) (simp_all add: msd_exp_def)

lemma div_power_Suc: "x div 10 ^ k = 10 * (x div 10 ^ Suc k) + x div 10 ^ k mod 10" for x :: int
  using zdiv_zmult2_eq [of 10 x "10 ^ k"] by (simp add: mult.commute)

lemma msd_order:
  fixes x y :: int
  assumes "x div 10 ^ Suc k = y div 10 ^ Suc k" "x div 10 ^ k mod 10 < y div 10 ^ k mod 10"
  shows "x \<le> y"
proof (rule ccontr)
  assume "\<not> x \<le> y"
  then have "y div 10 ^ k \<le> x div 10 ^ k" by (simp add: zdiv_mono1)
  then show False using assms div_power_Suc [of x k] div_power_Suc [of y k] by linarith
qed

lemma below_block:
  assumes "below f xs d \<le> p" "p < below f xs (d + 1)"
  shows "f (sort_key f xs ! p) = d"
proof (rule ccontr)
  let ?d = "f (sort_key f xs ! p)"
  assume "?d \<noteq> d"
  have b: "below f xs ?d \<le> p" "p < below f xs (?d + 1)"
    using sort_key_block [of p xs f] assms below_le [of f xs "d + 1"] by simp_all
  consider "?d + 1 \<le> d" | "d + 1 \<le> ?d" using \<open>?d \<noteq> d\<close> by linarith
  then show False
    by cases (use b assms below_mono [of "?d + 1" d f xs] below_mono [of "d + 1" "?d" f xs] in auto)
qed

text \<open>The distribution of a segment: the buckets are \<open>bound i .. bound (i + 1) - 1\<close>.\<close>

lemma msd_distribute_ok:
  fixes a :: "int list"
  assumes s: "0 \<le> s" "s \<le> e" "e < len a" and n: "\<And>i. s \<le> i \<Longrightarrow> i \<le> e \<Longrightarrow> 0 \<le> el a i" and j: "len junk = e - s + 1"
    and D: "D = digit (10 ^ k)" and xs: "xs = segm s e a"
  shows "ok (do { (cnt, bucket) \<leftarrow> distribute D 10 a s e junk;
      b \<leftarrow> memcpy a s bucket 0 (e - s + 1); Some (cnt, b) })
    (\<lambda>(c, b). len c = 10 \<and> (\<forall>d. 0 \<le> d \<and> d < 10 \<longrightarrow> el c d = int (below D xs d)) \<and>
      seg_perm s e a b \<and> (\<forall>i. s \<le> i \<and> i \<le> e \<longrightarrow> el b i = sort_key D xs ! nat (i - s)))"
proof -
  have l: "length xs = nat (e - s + 1)" using s by (simp add: xs length_segm)
  have dig: "0 \<le> D x \<and> D x < 10" if "x \<in> set xs" for x
  proof -
    have "0 \<le> x" using that n s by (auto simp: xs set_segm)
    then show ?thesis by (simp add: D digit_nonneg)
  qed
  have "ok (distribute D 10 a s e junk) (\<lambda>(c, r). r = sort_key D xs \<and> len c = 10 \<and>
      (\<forall>d. 0 \<le> d \<and> d < 10 \<longrightarrow> el c d = int (below D xs d)))"
    by (rule distribute_ok [OF _ _ _ xs dig]) (use s j l in auto)
  moreover have "ok (memcpy a s (sort_key D xs) 0 (e - s + 1)) (\<lambda>b. seg_perm s e a b \<and>
      (\<forall>i. s \<le> i \<and> i \<le> e \<longrightarrow> el b i = sort_key D xs ! nat (i - s)))"
  proof (rule ok_mono [OF memcpy_ok])
    fix b assume b: "length b = length a \<and> (\<forall>i. 0 \<le> i \<and> i < len a \<longrightarrow>
        el b i = (if s \<le> i \<and> i < s + (e - s + 1) then el (sort_key D xs) (0 + (i - s)) else el a i))"
    have "segm s e b = sort_key D xs"
    proof (rule nth_equalityI)
      fix i assume "i < length (segm s e b)"
      then have "s + int i \<le> e" using s b by (simp add: length_segm)
      then show "segm s e b ! i = sort_key D xs ! i"
        using el_segm [of s "s + int i" e b] b s by (simp add: el_def [of "sort_key D xs"])
    qed (use s l b in \<open>simp add: length_segm\<close>)
    then have "mset (segm s e b) = mset (segm s e a)" by (simp add: xs)
    then show "seg_perm s e a b \<and> (\<forall>i. s \<le> i \<and> i \<le> e \<longrightarrow> el b i = sort_key D xs ! nat (i - s))"
      using b s by (auto simp: el_def intro!: seg_permI)
  qed (use s l in auto)
  ultimately show ?thesis by (auto simp: wp split_def elim!: ok_mono)
qed

text \<open>
  After the distribution, position \<open>p\<close> of bucket \<open>i\<close> holds an element whose quotient by
  \<open>10 ^ k\<close> is \<open>10 * H + i\<close>, where \<open>H\<close> is the quotient by \<open>10 ^ (k + 1)\<close> all elements share.
\<close>

definition bucketed :: "nat \<Rightarrow> int \<Rightarrow> int \<Rightarrow> int \<Rightarrow> (int \<Rightarrow> int) \<Rightarrow> int list \<Rightarrow> bool" where
  "bucketed k H s e B b \<longleftrightarrow> B 0 = s \<and> B 10 = e + 1 \<and> (\<forall>i j. i \<le> j \<longrightarrow> B i \<le> B j) \<and>
     (\<forall>i. s \<le> B i \<and> B i \<le> e + 1) \<and>
     (\<forall>p. s \<le> p \<and> p \<le> e \<longrightarrow> 0 \<le> el b p \<and> (\<exists>i. B i \<le> p \<and> p < B (i + 1))) \<and>
     (\<forall>i p. B i \<le> p \<and> p < B (i + 1) \<longrightarrow> el b p div 10 ^ k = 10 * H + i)"

lemma msd_bucketed:
  assumes s: "0 \<le> s" "s \<le> e" "e < len a" and n: "\<And>i. s \<le> i \<Longrightarrow> i \<le> e \<Longrightarrow> 0 \<le> el a i"
    and H: "\<And>i. s \<le> i \<Longrightarrow> i \<le> e \<Longrightarrow> el a i div 10 ^ Suc k = H" and D: "D = digit (10 ^ k)"
    and b: "seg_perm s e a b" "\<And>i. s \<le> i \<Longrightarrow> i \<le> e \<Longrightarrow> el b i = sort_key D (segm s e a) ! nat (i - s)"
  shows "bucketed k H s e (\<lambda>i. s + int (below D (segm s e a) i)) b"
proof -
  let ?xs = "segm s e a" and ?B = "\<lambda>i. s + int (below D (segm s e a) i)"
  have l: "length ?xs = nat (e + 1 - s)" using s by (simp add: length_segm)
  have nonneg: "0 \<le> el b p" and quot: "el b p div 10 ^ Suc k = H" if "s \<le> p" "p \<le> e" for p
    by (rule seg_perm_all [OF b(1) s(1,3)], use that n in blast, use that in blast, use that in blast)
      (rule seg_perm_all [OF b(1) s(1,3), where P = "\<lambda>x. x div 10 ^ Suc k = H"]; use that H in blast)
  have dig: "0 \<le> D x \<and> D x < 10" if "x \<in> set ?xs" for x
    using that s n by (auto simp: set_segm D digit_nonneg)
  have "below D ?xs 0 = 0" "below D ?xs 10 = length ?xs"
    by (rule below_none below_all; use dig in simp)+
  then have ends: "?B 0 = s" "?B 10 = e + 1" using l s by simp_all
  have block: "?B (D (el b p)) \<le> p" "p < ?B (D (el b p) + 1)" if "s \<le> p" "p \<le> e" for p
    using sort_key_block [of "nat (p - s)" ?xs D] that l b(2) [OF that] by (simp_all add: le_nat_iff nat_less_iff)
  have quot_i: "el b p div 10 ^ k = 10 * H + i" if "?B i \<le> p" "p < ?B (i + 1)" for i p
  proof -
    have p: "s \<le> p" "p \<le> e" using that below_le [of D ?xs "i + 1"] l s by simp_all
    then have "D (el b p) = i"
      using below_block [of D ?xs i "nat (p - s)"] that b(2) by (simp add: nat_less_iff le_nat_iff)
    then show ?thesis
      using nonneg [OF p] div_power_Suc [of "el b p" k] quot [OF p] by (simp add: D digit_nonneg)
  qed
  have "?B i \<le> e + 1" for i using below_le [of D ?xs i] l s by simp
  then show ?thesis
    using ends block nonneg quot_i below_mono unfolding bucketed_def by auto
qed

lemma bucketed_cross:
  assumes "bucketed k H s e B b" "s \<le> p" "p < B i" "B i \<le> q" "q < B (i + 1)"
  shows "el b p \<le> el b q"
proof -
  have "p \<le> e" "B i \<le> e + 1" using assms unfolding bucketed_def by (metis order_le_less_trans zle_add1_eq_le order_less_le_trans)+
  then obtain j where j: "B j \<le> p" "p < B (j + 1)" using assms unfolding bucketed_def by blast
  have "j < i"
  proof (rule ccontr)
    assume "\<not> j < i"
    then have "B i \<le> B j" using assms(1) unfolding bucketed_def by simp
    with j assms show False by simp
  qed
  moreover have "el b p div 10 ^ k = 10 * H + j" "el b q div 10 ^ k = 10 * H + i"
    using assms(1,4,5) j unfolding bucketed_def by blast+
  ultimately have "el b p div 10 ^ k < el b q div 10 ^ k" by simp
  then show ?thesis by (meson not_le_imp_less less_le_not_le zdiv_mono1 zero_less_power zero_less_numeral order_less_imp_le)
qed

text \<open>One round of the loop over the buckets, for any sorting routine \<open>rec\<close> of a bucket.\<close>

lemma msd_round:
  assumes B: "bucketed k H s e B b" and s: "0 \<le> s" "e < len b"
    and b': "seg_perm s (B i - 1) b b'" "sorted_seg s (B i - 1) b'"
    and rec: "\<And>a s e. 0 \<le> s \<Longrightarrow> e < len a \<Longrightarrow> (\<And>p. s \<le> p \<Longrightarrow> p \<le> e \<Longrightarrow> 0 \<le> el a p) \<Longrightarrow>
      (\<And>p. s \<le> p \<Longrightarrow> p \<le> e \<Longrightarrow> el a p div 10 ^ k = 10 * H + i) \<Longrightarrow>
      ok (rec a s e) (\<lambda>b. seg_perm s e a b \<and> sorted_seg s e b)"
  shows "ok (if B i < B (i + 1) - 1 then rec b' (B i) (B (i + 1) - 1) else Some b')
    (\<lambda>c. seg_perm s (B (i + 1) - 1) b c \<and> sorted_seg s (B (i + 1) - 1) c)"
proof -
  let ?r = "B (i + 1) - 1"
  have r: "s \<le> B i" "B i \<le> ?r + 1" "?r < len b" "?r \<le> e"
  proof -
    have "B (i + 1) \<le> e + 1" "B i \<le> B (i + 1)" "s \<le> B i" using B unfolding bucketed_def by simp_all
    then show "s \<le> B i" "B i \<le> ?r + 1" "?r < len b" "?r \<le> e" using s by linarith+
  qed
  have lb': "length b' = length b" using b'(1) by (rule seg_perm_length)
  have eq: "el b' p = el b p" and nonneg: "0 \<le> el b p" and quot: "el b p div 10 ^ k = 10 * H + i"
    if "B i \<le> p" "p \<le> ?r" for p
  proof -
    show "el b' p = el b p" by (rule seg_perm_outside [OF b'(1)]) (use that s r in linarith)+
    have "s \<le> p" "p \<le> e" "p < B (i + 1)" using that r by linarith+
    then show "0 \<le> el b p" "el b p div 10 ^ k = 10 * H + i" using that B unfolding bucketed_def by blast+
  qed
  have "ok (if B i < ?r then rec b' (B i) ?r else Some b') (\<lambda>c. seg_perm (B i) ?r b' c \<and> sorted_seg (B i) ?r c)"
  proof (cases "B i < ?r")
    case True
    have "ok (rec b' (B i) ?r) (\<lambda>c. seg_perm (B i) ?r b' c \<and> sorted_seg (B i) ?r c)"
      by (rule rec) (use r s lb' eq nonneg quot in auto)
    with True show ?thesis by simp
  qed (simp add: sorted_seg_trivial)
  then show ?thesis
    by (rule ok_mono) (rule bucket_step [OF b' _ _ s(1) r(1-3)]; use bucketed_cross [OF B] in force)
qed

lemma msd_recursive_unfold:
  assumes "1 < e - s"
  shows "radix_sort_MSD_recursive junk a s e (10 ^ k) = do {
    (c, b) \<leftarrow> do {
      (cnt, bucket) \<leftarrow> distribute (digit (10 ^ k)) 10 a s e (junk (e - s + 1));
      b \<leftarrow> memcpy a s bucket 0 (e - s + 1);
      Some (cnt, b) };
    for_up 0 10 (\<lambda>i ptr. do {
      x \<leftarrow> rd c i;
      let start1 = s + x;
      end1 \<leftarrow> (if i + 1 < 10 then do { x \<leftarrow> rd c (i + 1); Some (s + x - 1) } else Some e);
      if start1 < end1 then radix_sort_MSD_recursive junk ptr start1 end1 (msd_exp k) else Some ptr }) b }"
proof -
  have "\<not> 10 ^ k \<le> (0 :: int)" by (simp add: not_le)
  then show ?thesis
    using assms by (subst radix_sort_MSD_recursive.simps) (simp add: msd_exp_step split_def Let_def cong: if_cong)
qed

lemma msd_recursive_ok:
  assumes "0 \<le> s" "e < len a" "\<And>i. s \<le> i \<Longrightarrow> i \<le> e \<Longrightarrow> 0 \<le> el a i"
    and "\<And>i. s \<le> i \<Longrightarrow> i \<le> e \<Longrightarrow> el a i div 10 ^ k = H"
    and junk: "\<And>m. 0 \<le> m \<Longrightarrow> len (junk m) = m"
  shows "ok (radix_sort_MSD_recursive junk a s e (msd_exp k)) (\<lambda>b. seg_perm s e a b \<and> sorted_seg s e b)"
  using assms(1-4)
proof (induction k arbitrary: a s e H)
  case 0
  then have "sorted_seg s e a" by (auto intro!: sorted_segI)
  then show ?case by (subst radix_sort_MSD_recursive.simps) (simp add: msd_exp_def)
next
  case (Suc k)
  have exp: "msd_exp (Suc k) = 10 ^ k" "\<not> 10 ^ k \<le> (0 :: int)" by (simp_all add: msd_exp_def not_le)
  show ?case
  proof (cases "e - s \<le> 1")
    case True
    then show ?thesis
      using sort_small_ok [OF True Suc.prems(1,2)]
      by (subst radix_sort_MSD_recursive.simps) (simp add: exp)
  next
    case False
    then have 1: "1 < e - s" by simp
    define D where "D = digit (10 ^ k)"
    define B where "B i = s + int (below D (segm s e a) i)" for i
    obtain c b where cb: "do { (cnt, bucket) \<leftarrow> distribute D 10 a s e (junk (e - s + 1));
          b \<leftarrow> memcpy a s bucket 0 (e - s + 1); Some (cnt, b) } = Some (c, b)"
      and c: "len c = 10" "\<And>d. 0 \<le> d \<Longrightarrow> d < 10 \<Longrightarrow> s + el c d = B d"
      and b: "seg_perm s e a b" "\<And>i. s \<le> i \<Longrightarrow> i \<le> e \<Longrightarrow> el b i = sort_key D (segm s e a) ! nat (i - s)"
      using msd_distribute_ok [OF Suc.prems(1) _ Suc.prems(2,3) _ D_def refl, of "junk (e - s + 1)"] False junk
      by (auto simp: B_def elim!: okE)
    have bk: "bucketed k H s e B b"
      unfolding B_def using msd_bucketed [OF Suc.prems(1) _ Suc.prems(2-4) D_def b] False by simp
    have lb: "length b = length a" using b(1) by (rule seg_perm_length)
    let ?round = "\<lambda>i ptr. do {
          x \<leftarrow> rd c i;
          let start1 = s + x;
          end1 \<leftarrow> (if i + 1 < 10 then do { x \<leftarrow> rd c (i + 1); Some (s + x - 1) } else Some e);
          if start1 < end1 then radix_sort_MSD_recursive junk ptr start1 end1 (msd_exp k) else Some ptr }"
    have "ok (for_up 0 10 ?round b) (\<lambda>r. seg_perm s e b r \<and> sorted_seg s e r)"
    proof (rule for_up_rule [where I = "\<lambda>i r. seg_perm s (B i - 1) b r \<and> sorted_seg s (B i - 1) r"])
      fix i r assume i: "0 \<le> i" "i < 10" and r: "seg_perm s (B i - 1) b r \<and> sorted_seg s (B i - 1) r"
      have "B (i + 1) = e + 1" if "\<not> i + 1 < 10"
      proof -
        have "i + 1 = 10" using i that by simp
        then show ?thesis using bk by (simp only: bucketed_def)
      qed
      then have "(if i + 1 < 10 then do { x \<leftarrow> rd c (i + 1); Some (s + x - 1) } else Some e) = Some (B (i + 1) - 1)"
        using i c by (auto simp: rd_in)
      moreover have "rd c i = Some (el c i)" "s + el c i = B i" using i c by (simp_all add: rd_in)
      ultimately have "?round i r = (if B i < B (i + 1) - 1
          then radix_sort_MSD_recursive junk r (B i) (B (i + 1) - 1) (msd_exp k) else Some r)"
        by (simp add: Let_def)
      moreover have "ok \<dots> (\<lambda>r. seg_perm s (B (i + 1) - 1) b r \<and> sorted_seg s (B (i + 1) - 1) r)"
        by (rule msd_round [OF bk Suc.prems(1)]) (use r lb Suc in auto)
      ultimately show "ok (?round i r) (\<lambda>r. seg_perm s (B (i + 1) - 1) b r \<and> sorted_seg s (B (i + 1) - 1) r)"
        by (rule ssubst [where P = "\<lambda>m. ok m _"])
    qed (use bk in \<open>auto simp: bucketed_def sorted_seg_trivial\<close>)
    then have "ok (radix_sort_MSD_recursive junk a s e (10 ^ k)) (\<lambda>r. seg_perm s e b r \<and> sorted_seg s e r)"
      using False unfolding msd_recursive_unfold [OF 1] cb [unfolded D_def] by simp
    then show ?thesis
      unfolding exp by (rule ok_mono) (use seg_perm_trans [OF b(1)] in blast)
  qed
qed

text \<open>The loop that finds the weight of the first digit.\<close>

lemma msd_weight_ok:
  assumes "0 \<le> m" "m \<le> INT_MAX"
  shows "ok (cwhile (\<lambda>(max, n). Some (cdiv max 10 \<noteq> 0))
      (\<lambda>(max, n). do { n \<leftarrow> cint (n * 10); Some (cdiv max 10, n) }) (m, 1))
    (\<lambda>(x, n). \<exists>k. n = 10 ^ k \<and> m div 10 ^ Suc k = 0)"
proof (rule cwhile_rule [where m = "\<lambda>(x, n). nat x" and
    I = "\<lambda>(x, n). 0 \<le> x \<and> (\<exists>k. n = 10 ^ k \<and> x = m div 10 ^ k)"])
  fix st :: "int \<times> int" assume "case st of (x, n) \<Rightarrow> 0 \<le> x \<and> (\<exists>k. n = 10 ^ k \<and> x = m div 10 ^ k)"
  then obtain x k where st: "st = (x, 10 ^ k)" "0 \<le> x" "x = m div 10 ^ k" by (cases st) auto
  have next10: "x div 10 = m div 10 ^ Suc k" using st(3) zdiv_zmult2_eq [of 10 m "10 ^ k"] by (simp add: mult.commute)
  have "10 ^ k * 10 \<le> INT_MAX" if "x div 10 \<noteq> 0"
  proof -
    have "0 < x div 10" using st(2) that by linarith
    then have "10 ^ Suc k \<le> m"
      unfolding next10 by (rule pos_imp_zdiv_pos_iff [THEN iffD1, rotated]) simp
    then show ?thesis using assms by (simp add: mult.commute)
  qed
  moreover have "INT_MIN \<le> 10 ^ k * 10"
  proof -
    have "(0 :: int) \<le> 10 ^ k * 10" by simp
    then show ?thesis unfolding int_limits by linarith
  qed
  moreover have "nat (x div 10) < nat x" if "x div 10 \<noteq> 0" using st(2) that by auto
  moreover have "\<exists>k'. 10 ^ k * 10 = (10 :: int) ^ k' \<and> x div 10 = m div 10 ^ k'"
    by (rule exI [of _ "Suc k"]) (simp only: next10 power_Suc mult.commute [of 10] simp_thms)
  moreover have "\<exists>k'. (10 :: int) ^ k = 10 ^ k' \<and> m div 10 ^ Suc k' = 0" if "x div 10 = 0"
    by (rule exI [of _ k]) (simp only: next10 [symmetric] that simp_thms)
  ultimately show "ok (case st of (x, n) \<Rightarrow> Some (cdiv x 10 \<noteq> 0)) (\<lambda>t.
    (t \<longrightarrow> ok (case st of (x, n) \<Rightarrow> do { n \<leftarrow> cint (n * 10); Some (cdiv x 10, n) })
      (\<lambda>st'. (case st' of (x, n) \<Rightarrow> 0 \<le> x \<and> (\<exists>k. n = 10 ^ k \<and> x = m div 10 ^ k)) \<and>
        (case st' of (x, n) \<Rightarrow> nat x) < (case st of (x, n) \<Rightarrow> nat x))) \<and>
    (\<not> t \<longrightarrow> (case st of (x, n) \<Rightarrow> \<exists>k. n = 10 ^ k \<and> m div 10 ^ Suc k = 0)))"
    using st(2) by (simp add: wp st(1) pos_imp_zdiv_nonneg_iff del: power_Suc)
qed (use assms in \<open>auto intro: exI [of _ 0]\<close>)

lemma radix_sort_MSD_sorts:
  assumes f: "fits a" and j: "\<And>m. 0 \<le> m \<Longrightarrow> len (junk m) = m"
  shows "sorts_to a (radix_sort_MSD junk a (len a))"
proof (cases "len a \<le> 1")
  case True
  then show ?thesis by (cases a) (auto simp: radix_sort_MSD_def sorts_to_def)
next
  case False
  then have a: "a \<noteq> []" by auto
  define A where "A = lifted a"
  have A: "len A = len a" "A \<noteq> []" "\<And>x. x \<in> set A \<Longrightarrow> 0 \<le> x \<and> x \<le> INT_MAX"
    using lifted_bounds [OF f] a unfolding A_def by (simp_all del: set_map)
  define M where "M = Max (set A)"
  have M: "0 \<le> M" "M \<le> INT_MAX" "\<And>x. x \<in> set A \<Longrightarrow> x \<le> M"
    using A(2,3) Max_in [of "set A"] unfolding M_def by simp_all
  obtain x k where w: "cwhile (\<lambda>(max, n). Some (cdiv max 10 \<noteq> 0))
      (\<lambda>(max, n). do { n \<leftarrow> cint (n * 10); Some (cdiv max 10, n) }) (M, 1) = Some (x, 10 ^ k)" "M div 10 ^ Suc k = 0"
    using msd_weight_ok [OF M(1,2)] by (auto simp del: power_Suc elim!: okE)
  have zero: "y div 10 ^ Suc k = 0" if "y \<in> set A" for y
  proof -
    have "0 \<le> y div 10 ^ Suc k" using A(3) [OF that] by (simp add: pos_imp_zdiv_nonneg_iff)
    moreover have "y div 10 ^ Suc k \<le> M div 10 ^ Suc k" by (rule zdiv_mono1) (use M(3) [OF that] in simp_all)
    ultimately show ?thesis using w(2) by simp
  qed
  have "ok (radix_sort_MSD_recursive junk A 0 (len A - 1) (msd_exp (Suc k)))
      (\<lambda>b. seg_perm 0 (len A - 1) A b \<and> sorted_seg 0 (len A - 1) b)"
  proof (rule msd_recursive_ok [where H = 0])
    fix i assume "0 \<le> i" "i \<le> len A - 1"
    then have "el A i \<in> set A" by (simp add: el_in_set)
    then show "0 \<le> el A i" "el A i div 10 ^ Suc k = 0" using A(3) zero by blast+
  qed (use j in auto)
  then have "radix_sort_MSD_recursive junk A 0 (len A - 1) (10 ^ k) = Some (sort A)"
    using sorts_to_eq [OF sorts_toI] by (simp add: msd_exp_def)
  then have "radix_sort_MSD junk a (len a) = Some (sort a)"
    using False w(1) drop_negative_ok [OF a f] restore_ok [OF f refl] A(1) unfolding A_def [symmetric] M_def [symmetric]
    by (simp add: radix_sort_MSD_def cong: if_cong del: set_map Min_less_iff)
  then show ?thesis by (simp add: sorts_to_def)
qed

section \<open>The bucket sort\<close>

lemma cdiv_mono: "x \<le> y \<Longrightarrow> cdiv x 10 \<le> cdiv y 10"
proof -
  assume le: "x \<le> y"
  consider "0 \<le> x" | "y < 0" | "x < 0" "0 \<le> y" by linarith
  then show ?thesis
  proof cases
    case 2
    then have "(- y) div 10 \<le> (- x) div 10" using le by (intro zdiv_mono1) simp_all
    with 2 le show ?thesis by (simp add: cdiv_def)
  next
    case 3
    then have "0 \<le> (- x) div 10" "0 \<le> y div 10" by (simp_all add: pos_imp_zdiv_nonneg_iff)
    with 3 show ?thesis by (simp add: cdiv_def)
  qed (use le in \<open>simp add: zdiv_mono1\<close>)
qed

lemma sort_filter_snoc:
  fixes h :: "int \<Rightarrow> int"
  assumes "\<And>x y. x \<le> y \<Longrightarrow> h x \<le> h y"
  shows "sort (filter (\<lambda>x. h x < n) a) @ sort (filter (\<lambda>x. h x = n) a) = sort (filter (\<lambda>x. h x < n + 1) a)"
proof (rule properties_for_sort [symmetric])
  show "mset (sort (filter (\<lambda>x. h x < n) a) @ sort (filter (\<lambda>x. h x = n) a)) = mset (filter (\<lambda>x. h x < n + 1) a)"
    by (induction a) auto
  have "x \<le> y" if "h x < n" "h y = n" for x y
    using assms [of y x] that by (cases "x \<le> y") auto
  then show "sorted (sort (filter (\<lambda>x. h x < n) a) @ sort (filter (\<lambda>x. h x = n) a))"
    by (auto simp: sorted_append)
qed

lemma fill_buckets_ok:
  assumes bs: "\<And>x. x \<in> set a \<Longrightarrow> 0 \<le> cdiv x 10 - cdiv m 10 \<and> cdiv x 10 - cdiv m 10 < k"
  shows "ok (fill_buckets a (len a) m k) (\<lambda>b. len b = max 0 k \<and>
    (\<forall>j. 0 \<le> j \<and> j < k \<longrightarrow> el b j = filter (\<lambda>x. cdiv x 10 - cdiv m 10 = j) a))"
  unfolding fill_buckets_def
proof (rule for_up_rule [where I = "\<lambda>i b. len b = max 0 k \<and>
    (\<forall>j. 0 \<le> j \<and> j < k \<longrightarrow> el b j = filter (\<lambda>x. cdiv x 10 - cdiv m 10 = j) (take (nat i) a))"])
  fix i b
  assume i: "0 \<le> i" "i < len a" and I: "len b = max 0 k \<and>
    (\<forall>j. 0 \<le> j \<and> j < k \<longrightarrow> el b j = filter (\<lambda>x. cdiv x 10 - cdiv m 10 = j) (take (nat i) a))"
  define d where "d = cdiv (el a i) 10 - cdiv m 10"
  have d: "0 \<le> d" "d < k" using bs el_in_set [OF i] by (simp_all add: d_def)
  then have r: "crem d k = d" by simp
  have "nat (i + 1) = Suc (nat i)" using i by simp
  then have "take (nat (i + 1)) a = take (nat i) a @ [el a i]"
    using i by (simp add: take_Suc_conv_app_nth el_def)
  then show "ok (do { x \<leftarrow> rd a i; let bucket = crem (cdiv x 10 - cdiv m 10) k;
      y \<leftarrow> rd b bucket; wr b bucket (y @ [x]) }) (\<lambda>b. len b = max 0 k \<and>
    (\<forall>j. 0 \<le> j \<and> j < k \<longrightarrow> el b j = filter (\<lambda>x. cdiv x 10 - cdiv m 10 = j) (take (nat (i + 1)) a)))"
    using I i d r by (auto simp: wp Let_def d_def [symmetric] el_up)
qed (auto simp: el_def)

lemma memcpy_take:
  assumes "0 \<le> i" "i + len b \<le> len a"
  shows "ok (memcpy a i b 0 (len b)) (\<lambda>c. length c = length a \<and> take (nat i + length b) c = take (nat i) a @ b)"
proof (rule ok_mono [OF memcpy_ok])
  fix c assume c: "length c = length a \<and> (\<forall>k. 0 \<le> k \<and> k < len a \<longrightarrow>
      el c k = (if i \<le> k \<and> k < i + len b then el b (0 + (k - i)) else el a k))"
  have "take (nat i + length b) c = take (nat i) a @ b"
  proof (rule nth_equalityI)
    fix n assume "n < length (take (nat i + length b) c)"
    then have n: "n < nat i + length b" "n < length a" using c by simp_all
    then have "c ! n = (if i \<le> int n \<and> int n < i + len b then el b (int n - i) else el a (int n))"
      using c [THEN conjunct2, rule_format, of "int n"] by (simp add: el_def)
    then show "take (nat i + length b) c ! n = (take (nat i) a @ b) ! n"
      using n assms by (auto simp: nth_append el_def nat_diff_distrib)
  qed (use assms c in auto)
  with c show "length c = length a \<and> take (nat i + length b) c = take (nat i) a @ b" by simp
qed (use assms in auto)

lemma bucket_sort_sorts:
  assumes "\<And>x. x \<in> set a \<Longrightarrow> in_int x"
  shows "sorts_to a (bucket_sort_quick a (len a))"
proof (cases "len a \<le> 1")
  case True
  then show ?thesis by (cases a) (auto simp: bucket_sort_quick_def sorts_to_def)
next
  case False
  then have a: "a \<noteq> []" by auto
  define lo where "lo = Min (set a)"
  define hi where "hi = Max (set a)"
  define k where "k = cdiv hi 10 - cdiv lo 10 + 1"
  define h where "h x = cdiv x 10 - cdiv lo 10" for x
  have mono: "h x \<le> h y" if "x \<le> y" for x y using cdiv_mono [OF that] by (simp add: h_def)
  have range: "0 \<le> h x \<and> h x < k" if "x \<in> set a" for x
    using bounds_in [OF that] cdiv_mono [of lo x] cdiv_mono [of x hi] by (simp add: h_def k_def lo_def hi_def)
  have lh: "in_int lo" "in_int hi" "lo \<le> hi" using assms a by (simp_all add: lo_def hi_def)
  then have k: "1 \<le> k" "in_int k" using cdiv_mono [of lo hi] by (auto simp: k_def int_limits cdiv_def)
  obtain bs where bs: "fill_buckets a (len a) lo k = Some bs" "len bs = k"
    and bkt: "\<And>j. 0 \<le> j \<Longrightarrow> j < k \<Longrightarrow> el bs j = filter (\<lambda>x. h x = j) a"
    using fill_buckets_ok [of a lo k] range k by (auto simp: h_def elim!: okE)
  let ?S = "\<lambda>i. sort (filter (\<lambda>x. h x < i) a)"
  have "ok (for_up 0 k (\<lambda>i (ptr, index). do {
          b \<leftarrow> rd bs i;
          if b = [] then Some (ptr, index)
          else do {
            b \<leftarrow> better_quick_sort2 b (len b);
            ptr \<leftarrow> memcpy ptr index b 0 (len b);
            Some (ptr, index + len b) } }) (a, 0)) (\<lambda>(ptr, index). ptr = sort a)"
  proof (rule for_up_rule [where I = "\<lambda>i (ptr, index). length ptr = length a \<and> index = len (?S i) \<and>
      take (nat index) ptr = ?S i"])
    fix i and st :: "int list \<times> int"
    assume i: "0 \<le> i" "i < k" and "case st of (ptr, index) \<Rightarrow>
      length ptr = length a \<and> index = len (?S i) \<and> take (nat index) ptr = ?S i"
    then obtain ptr where st: "st = (ptr, len (?S i))" "length ptr = length a" "take (length (?S i)) ptr = ?S i"
      by (cases st) auto
    define b where "b = filter (\<lambda>x. h x = i) a"
    have snoc: "?S (i + 1) = ?S i @ sort b" unfolding b_def by (rule sort_filter_snoc [symmetric]) (rule mono)
    have "length (?S (i + 1)) \<le> length a" by simp
    then have le: "len (?S i) + len (sort b) \<le> len ptr" using snoc st(2) by (simp del: length_sort)
    have rd: "rd bs i = Some b" using i bs(2) bkt by (simp add: rd_in b_def)
    have "b \<noteq> [] \<Longrightarrow> better_quick_sort2 b (len b) = Some (sort b)" by (rule better_quick_sort2.is_sort)
    then show "ok (case st of (ptr, index) \<Rightarrow> do { b \<leftarrow> rd bs i;
          if b = [] then Some (ptr, index)
          else do { b \<leftarrow> better_quick_sort2 b (len b); ptr \<leftarrow> memcpy ptr index b 0 (len b); Some (ptr, index + len b) } })
        (\<lambda>(ptr, index). length ptr = length a \<and> index = len (?S (i + 1)) \<and> take (nat index) ptr = ?S (i + 1))"
      using memcpy_take [of "len (?S i)" "sort b" ptr] le rd st unfolding snoc
      by (cases "b = []") (auto simp: ok_bind nat_add_distrib elim!: ok_mono)
  next
    fix st :: "int list \<times> int" assume "case st of (ptr, index) \<Rightarrow>
      length ptr = length a \<and> index = len (?S k) \<and> take (nat index) ptr = ?S k"
    moreover have "filter (\<lambda>x. h x < k) a = a" using range by (simp add: filter_id_conv)
    ultimately show "case st of (ptr, index) \<Rightarrow> ptr = sort a" by auto
  next
    have "filter (\<lambda>x. h x < 0) a = []" using range by (force simp: filter_empty_conv not_less)
    then show "case (a, 0) of (ptr, index) \<Rightarrow> length ptr = length a \<and> index = len (?S 0) \<and> take (nat index) ptr = ?S 0"
      by simp
  qed (use k in simp)
  then obtain idx where "for_up 0 k (\<lambda>i (ptr, index). do {
          b \<leftarrow> rd bs i;
          if b = [] then Some (ptr, index)
          else do {
            b \<leftarrow> better_quick_sort2 b (len b);
            ptr \<leftarrow> memcpy ptr index b 0 (len b);
            Some (ptr, index + len b) } }) (a, 0) = Some (sort a, idx)" by (auto elim!: okE)
  then have "bucket_sort_quick a (len a) = Some (sort a)"
    using False a k bs by (simp add: bucket_sort_quick_def max_min_ok lo_def [symmetric] hi_def [symmetric] k_def [symmetric])
  then show ?thesis by (simp add: sorts_to_def)
qed

section \<open>Meeting the contract\<close>

interpretation radix_LSD: sorter "\<lambda>a. radix_sort_LSD (replicate (length a) 0) a" fits
  by unfold_locales (rule radix_sort_LSD_sorts; simp)

interpretation radix_MSD: sorter "radix_sort_MSD (\<lambda>m. replicate (nat m) 0)" fits
  by unfold_locales (rule radix_sort_MSD_sorts; simp)

interpretation bucket: sorter bucket_sort_quick "\<lambda>a. \<forall>x \<in> set a. in_int x"
  by unfold_locales (rule bucket_sort_sorts; simp)

section \<open>Properties\<close>

text \<open>
  C31: the radix sorts by least and by most significant digit sort every array of \<open>int\<close>s
  whose spread \<open>max - min\<close> fits in an \<open>int\<close> when there is a negative element, whatever the
  arrays they allocate contain; no intermediate value overflows and the digit loop ends.
\<close>

theorem radix_sorts_sort:
  assumes "\<forall>x \<in> set a. in_int x" "Min (set a) < 0 \<longrightarrow> Max (set a) - Min (set a) \<le> INT_MAX"
    and "length junk = length a" "\<And>m. 0 \<le> m \<Longrightarrow> len (junks m) = m"
  shows "radix_sort_LSD junk a (len a) = Some (sort a) \<and> radix_sort_MSD junks a (len a) = Some (sort a)"
proof -
  have "fits a" using assms unfolding fits_def by blast
  then show ?thesis using assms(3,4) by (simp add: sorts_to_eq radix_sort_LSD_sorts radix_sort_MSD_sorts)
qed

theorem radix_sorts_sort_witness:
  "radix_sort_LSD [0, 0, 0, 0] [170, - 45, 75, 2147483] 4 = Some [- 45, 75, 170, 2147483] \<and>
   radix_sort_MSD (\<lambda>m. replicate (nat m) 7) [170, - 45, 75, 2147483] 4 = Some [- 45, 75, 170, 2147483]"
  using radix_sorts_sort [of "[170, - 45, 75, 2147483]" "[0, 0, 0, 0]" "\<lambda>m. replicate (nat m) 7"]
  by (simp add: int_limits)

text \<open>
  the counting sort sorts every array of \<open>int\<close>s whose largest and smallest elements are
  at most 10000 apart.
\<close>

theorem count_sort_correct:
  assumes "\<forall>x \<in> set a. in_int x" "a \<noteq> []" "Max (set a) - Min (set a) \<le> 10000" "length junk = length a"
  shows "count_sort junk a (len a) = Some (sort a)"
proof -
  have "fits a" using assms unfolding fits_def int_limits by auto
  then show ?thesis using assms by (intro sorts_to_eq count_sort_sorts) auto
qed

theorem count_sort_correct_witness:
  "count_sort [0, 0, 0, 0, 0] [30, - 5, 7, 30, - 5] 5 = Some [- 5, - 5, 7, 30, 30]"
  using count_sort_correct [of "[30, - 5, 7, 30, - 5]" "[0, 0, 0, 0, 0]"] by (simp add: int_limits)

text \<open>
  when the elements are more than 10000 apart and one is negative, the counting sort
  reports that it does not apply and returns, but the array is not the caller's any more:
  every element has been raised by \<open>- min\<close>.
\<close>

theorem count_sort_scattered_changes:
  assumes "\<forall>x \<in> set a. in_int x" "2 \<le> len a" "Min (set a) < 0"
    and "10000 < Max (set a) - Min (set a)" "Max (set a) - Min (set a) \<le> INT_MAX"
  shows "count_sort junk a (len a) = Some (map (\<lambda>x. x - Min (set a)) a) \<and> map (\<lambda>x. x - Min (set a)) a \<noteq> a"
proof
  have f: "fits a" using assms unfolding fits_def by blast
  have m: "min 0 (Min (set a)) = Min (set a)" using assms(3) by linarith
  have "in_int (Max (set a) - Min (set a))" using assms(4,5) unfolding int_limits by linarith
  from count_sort_scattered [OF f assms(4,2) this]
  show "count_sort junk a (len a) = Some (map (\<lambda>x. x - Min (set a)) a)" unfolding m .
  have "map (\<lambda>x. x - m) a \<noteq> a" if "m < 0" for m
    using that assms(2) by (cases a) auto
  then show "map (\<lambda>x. x - Min (set a)) a \<noteq> a" using assms(3) .
qed

theorem count_sort_scattered_changes_witness:
  "count_sort [] [20000, - 1, 5] 3 = Some [20001, 0, 6]"
  using count_sort_scattered_changes [of "[20000, - 1, 5]" "[]"] by (simp add: int_limits)

text \<open>
  the bucket sort (buckets of width 10, each sorted by \<open>better_quick_sort2\<close>) sorts every
  array of \<open>int\<close>s, negative ones included, although division truncates towards zero.
\<close>

theorem bucket_sort_correct:
  assumes "\<forall>x \<in> set a. in_int x"
  shows "bucket_sort_quick a (len a) = Some (sort a)"
  using assms by (rule bucket.is_sort)

theorem bucket_sort_correct_witness:
  "bucket_sort_quick [15, - 3, 7, - 28] 4 = Some [- 28, - 3, 7, 15]"
  using bucket_sort_correct [of "[15, - 3, 7, - 28]"] by (simp add: int_limits)

end
