(* ===== verification/Hash_Table.thy ===== *)
theory Hash_Table
  imports Prelude
begin

unbundle bit_operations_syntax

text \<open>
  \<open>hash_table.c\<close>: a chained hash table whose behaviour on keys and values (hash, comparison,
  copy, destructor) is given by a record of functions.  An entry is owned by exactly one
  chain, so a chain is the list of its entries; \<open>tbl_table\<close> is \<open>None\<close> when it is \<open>NULL\<close>.  The
  fields \<open>table_\<close>, \<open>size_\<close>, ... of the C structures are \<open>tbl_table\<close>, \<open>tbl_size\<close>, ... here.  The
  capacity and the number of entries are \<open>uint32_t\<close> and wrap.  The calls of the destructors
  are recorded, in order, in \<open>freed_keys\<close> and \<open>freed_vals\<close>.  A \<open>malloc\<close> that may fail is a
  boolean argument of the operation that calls it.
\<close>

section \<open>The model\<close>

record ('k, 'v) table_entry =
  ent_key :: 'k
  ent_val :: 'v

record ('k, 'v) HashTypeFunction =
  hash_fn :: "'k \<Rightarrow> 32 word"
  comp_fn :: "'k \<Rightarrow> 'k \<Rightarrow> bool"
  key_dump :: "('k \<Rightarrow> 'k) option"
  value_dump :: "('v \<Rightarrow> 'v) option"
  free_key :: bool
  free_val :: bool

record ('k, 'v) hash_table =
  tbl_table :: "('k, 'v) table_entry list list option"
  tbl_size :: "32 word"
  tbl_use :: "32 word"
  tbl_fns :: "('k, 'v) HashTypeFunction"
  freed_keys :: "'k list"
  freed_vals :: "'v list"

definition hash_table_construct :: "('k, 'v) HashTypeFunction \<Rightarrow> ('k, 'v) hash_table" where
  "hash_table_construct f = \<lparr>tbl_table = None, tbl_size = 0, tbl_use = 0, tbl_fns = f, freed_keys = [], freed_vals = []\<rparr>"

definition HashSlot :: "('k, 'v) HashTypeFunction \<Rightarrow> 32 word \<Rightarrow> 'k \<Rightarrow> int" where
  "HashSlot f sz key = uint (hash_fn f key AND (sz - 1))"

definition HashSetKey :: "('k, 'v) HashTypeFunction \<Rightarrow> 'k \<Rightarrow> 'k" where
  "HashSetKey f key = (case key_dump f of Some d \<Rightarrow> d key | None \<Rightarrow> key)"

definition HashSetValue :: "('k, 'v) HashTypeFunction \<Rightarrow> 'v \<Rightarrow> 'v" where
  "HashSetValue f val = (case value_dump f of Some d \<Rightarrow> d val | None \<Rightarrow> val)"

definition HashFreeKey :: "('k, 'v) table_entry \<Rightarrow> ('k, 'v) hash_table \<Rightarrow> ('k, 'v) hash_table" where
  "HashFreeKey e t = (if free_key (tbl_fns t) then t\<lparr>freed_keys := freed_keys t @ [ent_key e]\<rparr> else t)"

definition HashFreeVal :: "('k, 'v) table_entry \<Rightarrow> ('k, 'v) hash_table \<Rightarrow> ('k, 'v) hash_table" where
  "HashFreeVal e t = (if free_val (tbl_fns t) then t\<lparr>freed_vals := freed_vals t @ [ent_val e]\<rparr> else t)"

text \<open>The array of chains; dereferencing it when it is \<open>NULL\<close> is undefined.\<close>

definition tbl_chains :: "('k, 'v) hash_table \<Rightarrow> ('k, 'v) table_entry list list option" where
  "tbl_chains t = tbl_table t"

fun chain_find :: "('k \<Rightarrow> 'k \<Rightarrow> bool) \<Rightarrow> 'k \<Rightarrow> ('k, 'v) table_entry list \<Rightarrow> ('k, 'v) table_entry option" where
  "chain_find cmp key [] = None"
| "chain_find cmp key (e # es) = (if cmp key (ent_key e) then Some e else chain_find cmp key es)"

definition hash_table_find :: "('k, 'v) hash_table \<Rightarrow> 'k \<Rightarrow> ('k, 'v) table_entry option option" where
  "hash_table_find t key =
     (if tbl_table t = None \<or> tbl_size t = 0 then Some None
      else do {
        tab \<leftarrow> tbl_chains t;
        chain \<leftarrow> rd tab (HashSlot (tbl_fns t) (tbl_size t) key);
        Some (chain_find (comp_fn (tbl_fns t)) key chain) })"

text \<open>Writing \<open>val\<close> through the pointer that \<open>hash_table_find\<close> returned.\<close>

fun chain_set :: "('k \<Rightarrow> 'k \<Rightarrow> bool) \<Rightarrow> 'k \<Rightarrow> 'v \<Rightarrow> ('k, 'v) table_entry list \<Rightarrow> ('k, 'v) table_entry list" where
  "chain_set cmp key v [] = []"
| "chain_set cmp key v (e # es) =
     (if cmp key (ent_key e) then e\<lparr>ent_val := v\<rparr> # es else e # chain_set cmp key v es)"

fun rehash_chain :: "('k, 'v) HashTypeFunction \<Rightarrow> 32 word \<Rightarrow> ('k, 'v) table_entry list \<Rightarrow>
    ('k, 'v) table_entry list list \<Rightarrow> ('k, 'v) table_entry list list option" where
  "rehash_chain f capcity [] new_table = Some new_table"
| "rehash_chain f capcity (et # rest) new_table = do {
     let hash_key = HashSlot f capcity (ent_key et);
     c \<leftarrow> rd new_table hash_key;
     new_table \<leftarrow> wr new_table hash_key (et # c);
     rehash_chain f capcity rest new_table }"

text \<open>
  \<open>(double)tbl_use/tbl_size >= 0.75\<close>, which is exact here: the quotient of two 32-bit numbers that
  is below 0.75 is below it by more than a rounding error.
\<close>

definition over_limit :: "32 word \<Rightarrow> 32 word \<Rightarrow> bool" where
  "over_limit used sz \<longleftrightarrow> 4 * uint used \<ge> 3 * uint sz"

definition hash_table_growup :: "bool \<Rightarrow> ('k, 'v) hash_table \<Rightarrow> ('k, 'v) hash_table option" where
  "hash_table_growup mem t =
     (if tbl_size t \<noteq> 0 \<and> \<not> over_limit (tbl_use t) (tbl_size t) then Some t
      else do {
        let capcity = (if tbl_size t = 0 then 32 else tbl_size t * 2);
        if \<not> mem then Some t
        else do {
          new_table \<leftarrow> for_up 0 (uint (tbl_size t)) (\<lambda>idx new_table. do {
            tab \<leftarrow> tbl_chains t;
            et \<leftarrow> rd tab idx;
            rehash_chain (tbl_fns t) capcity et new_table }) (replicate (unat capcity) []);
          Some (t\<lparr>tbl_table := Some new_table, tbl_size := capcity\<rparr>) } })"

text \<open>\<open>mem1\<close>, \<open>mem2\<close>: whether the allocation of the new table and of the entry succeed.\<close>

definition hash_table_insert :: "bool \<Rightarrow> bool \<Rightarrow> ('k, 'v) hash_table \<Rightarrow> 'k \<Rightarrow> 'v \<Rightarrow> ('k, 'v) hash_table option" where
  "hash_table_insert mem1 mem2 t key val = do {
     en \<leftarrow> hash_table_find t key;
     (case en of
       Some _ \<Rightarrow> do {
         tab \<leftarrow> tbl_chains t;
         let slot = HashSlot (tbl_fns t) (tbl_size t) key;
         chain \<leftarrow> rd tab slot;
         tab \<leftarrow> wr tab slot (chain_set (comp_fn (tbl_fns t)) key (HashSetValue (tbl_fns t) val) chain);
         Some (t\<lparr>tbl_table := Some tab\<rparr>) }
     | None \<Rightarrow> do {
         t \<leftarrow> hash_table_growup mem1 t;
         let hash_key = HashSlot (tbl_fns t) (tbl_size t) key;
         if \<not> mem2 then Some t
         else do {
           let en = \<lparr>ent_key = HashSetKey (tbl_fns t) key, ent_val = HashSetValue (tbl_fns t) val\<rparr>;
           tab \<leftarrow> tbl_chains t;
           chain \<leftarrow> rd tab hash_key;
           tab \<leftarrow> wr tab hash_key (en # chain);
           Some (t\<lparr>tbl_table := Some tab, tbl_use := tbl_use t + 1\<rparr>) } }) }"

text \<open>Searching the chain for the entry and unlinking it; note the order of the comparison's arguments.\<close>

fun chain_del :: "('k \<Rightarrow> 'k \<Rightarrow> bool) \<Rightarrow> 'k \<Rightarrow> ('k, 'v) table_entry list \<Rightarrow>
    (('k, 'v) table_entry \<times> ('k, 'v) table_entry list) option" where
  "chain_del cmp key [] = None"
| "chain_del cmp key (e # es) =
     (if cmp (ent_key e) key then Some (e, es)
      else map_option (\<lambda>(en, es). (en, e # es)) (chain_del cmp key es))"

definition hash_table_del :: "('k, 'v) hash_table \<Rightarrow> 'k \<Rightarrow> ('k, 'v) hash_table option" where
  "hash_table_del t key = do {
     let hash_key = HashSlot (tbl_fns t) (tbl_size t) key;
     tab \<leftarrow> tbl_chains t;
     chain \<leftarrow> rd tab hash_key;
     (case chain_del (comp_fn (tbl_fns t)) key chain of
       None \<Rightarrow> Some t
     | Some (en, chain) \<Rightarrow> do {
         tab \<leftarrow> wr tab hash_key chain;
         Some (HashFreeVal en (HashFreeKey en (t\<lparr>tbl_table := Some tab, tbl_use := tbl_use t - 1\<rparr>))) }) }"

fun clear_chain :: "('k, 'v) table_entry list \<Rightarrow> ('k, 'v) hash_table \<times> 64 word \<Rightarrow> ('k, 'v) hash_table \<times> 64 word" where
  "clear_chain [] s = s"
| "clear_chain (en # rest) (t, alreadyDel) = clear_chain rest (HashFreeVal en (HashFreeKey en t), alreadyDel + 1)"

text \<open>What is left of the table is the record of what was freed.\<close>

definition hash_table_clear :: "('k, 'v) hash_table \<Rightarrow> ('k list \<times> 'v list) option" where
  "hash_table_clear t = do {
     (t', alreadyDel) \<leftarrow> for_up 0 (uint (tbl_size t)) (\<lambda>idx s. do {
       tab \<leftarrow> tbl_chains t;
       en \<leftarrow> rd tab idx;
       Some (clear_chain en s) }) (t, 0);
     guard (alreadyDel = ucast (tbl_use t));
     Some (freed_keys t', freed_vals t') }"

text \<open>
  The iterator: \<open>it_entry\<close> is the rest of the chain from the current entry on, empty for
  \<open>NULL\<close>.  \<open>hash_table_get_iterator\<close> returns \<open>NULL\<close> without memory; after building the iterator it
  ends without a \<open>return\<close>, so that its value is not defined.
\<close>

record ('k, 'v) hash_table_iterator =
  it_entry :: "('k, 'v) table_entry list"
  it_index :: int

definition hash_table_get_iterator :: "bool \<Rightarrow> ('k, 'v) hash_table_iterator option option" where
  "hash_table_get_iterator alloc = (if \<not> alloc then Some None else None)"

partial_function (option) hash_table_next :: "('k, 'v) hash_table \<Rightarrow> ('k, 'v) hash_table_iterator \<Rightarrow>
    (('k, 'v) table_entry option \<times> ('k, 'v) hash_table_iterator) option" where
  "hash_table_next t it =
     (if it_entry it = [] then do {
        idx \<leftarrow> cint (it_index it + 1);
        if uint (word_of_int idx :: 32 word) \<ge> uint (tbl_size t) then Some (None, it\<lparr>it_index := idx\<rparr>)
        else do {
          tab \<leftarrow> tbl_chains t;
          chain \<leftarrow> rd tab idx;
          (case chain of
            e # _ \<Rightarrow> Some (Some e, it\<lparr>it_index := idx, it_entry := chain\<rparr>)
          | [] \<Rightarrow> hash_table_next t (it\<lparr>it_index := idx, it_entry := []\<rparr>)) } }
      else (case tl (it_entry it) of
          e # _ \<Rightarrow> Some (Some e, it\<lparr>it_entry := tl (it_entry it)\<rparr>)
        | [] \<Rightarrow> hash_table_next t (it\<lparr>it_entry := []\<rparr>)))"

section \<open>The hash functions and the tables of functions\<close>

definition SocketFdHash :: "32 word \<Rightarrow> 32 word" where
  "SocketFdHash fd = fd + (drop_bit 2 fd OR push_bit 30 fd)"

definition IntergerHash :: "32 word \<Rightarrow> 32 word" where
  "IntergerHash key = (
     let h = key;
         h = h + NOT (push_bit 9 h);
         h = h XOR (drop_bit 14 h OR push_bit 18 h);
         h = h + push_bit 4 h;
         h = h XOR (drop_bit 10 h OR push_bit 22 h)
     in h)"

definition IntergerCompare :: "32 word \<Rightarrow> 32 word \<Rightarrow> bool" where
  "IntergerCompare rv lv \<longleftrightarrow> rv = lv"

definition IntergerDump :: "32 word \<Rightarrow> 32 word" where
  "IntergerDump src = src"

text \<open>A C string is the list of its bytes before the terminating zero.\<close>

type_synonym cstring = "8 word list"

fun string_hash_loop :: "cstring \<Rightarrow> 32 word \<Rightarrow> 32 word" where
  "string_hash_loop [] h = h"
| "string_hash_loop (c # cp) h = string_hash_loop cp ((1000003 * h) XOR ucast c)"

definition StringHash :: "cstring \<Rightarrow> 32 word" where
  "StringHash key = (
     let h = push_bit 7 (case key of [] \<Rightarrow> 0 | c # _ \<Rightarrow> ucast c)
     in string_hash_loop key h XOR of_nat (length key))"

text \<open>\<open>strcmp\<close> of the C library: the difference of the first bytes that differ.\<close>

fun strcmp :: "cstring \<Rightarrow> cstring \<Rightarrow> int" where
  "strcmp [] [] = 0"
| "strcmp (x # xs) [] = uint x"
| "strcmp [] (y # ys) = - uint y"
| "strcmp (x # xs) (y # ys) = (if x = y then strcmp xs ys else uint x - uint y)"

definition c_tolower :: "8 word \<Rightarrow> 8 word" where
  "c_tolower c = (if 65 \<le> c \<and> c \<le> 90 then c + 32 else c)"

definition StringCompare :: "cstring \<Rightarrow> cstring \<Rightarrow> bool" where
  "StringCompare r l = (if length r \<noteq> length l then False else strcmp r l = 0)"

definition StringCaseCompare :: "cstring \<Rightarrow> cstring \<Rightarrow> bool" where
  "StringCaseCompare r l = (if length r \<noteq> length l then False else strcmp (map c_tolower r) (map c_tolower l) = 0)"

definition StringDump :: "cstring \<Rightarrow> cstring" where
  "StringDump src = src"

text \<open>\<open>sdscopy\<close> comes from a string library that is not part of the repository: a parameter.\<close>

definition SdsDump :: "('s \<Rightarrow> 's) \<Rightarrow> 's \<Rightarrow> 's" where
  "SdsDump sdscopy src = sdscopy src"

definition IntergeHashFunctions :: "('s \<Rightarrow> 's) \<Rightarrow> (32 word, 's) HashTypeFunction" where
  "IntergeHashFunctions sdscopy = \<lparr>hash_fn = IntergerHash, comp_fn = IntergerCompare, key_dump = Some IntergerDump,
     value_dump = Some (SdsDump sdscopy), free_key = True, free_val = True\<rparr>"

definition SocketHashFunctions :: "(32 word, 'p) HashTypeFunction" where
  "SocketHashFunctions = \<lparr>hash_fn = SocketFdHash, comp_fn = IntergerCompare, key_dump = Some IntergerDump,
     value_dump = None, free_key = True, free_val = False\<rparr>"

definition SdsHashFunctions :: "(cstring \<Rightarrow> cstring) \<Rightarrow> (cstring, cstring) HashTypeFunction" where
  "SdsHashFunctions sdscopy = \<lparr>hash_fn = StringHash, comp_fn = StringCompare, key_dump = Some (SdsDump sdscopy),
     value_dump = Some (SdsDump sdscopy), free_key = True, free_val = True\<rparr>"

definition StringHashFunctions :: "(cstring, cstring) HashTypeFunction" where
  "StringHashFunctions = \<lparr>hash_fn = StringHash, comp_fn = StringCompare, key_dump = Some StringDump,
     value_dump = Some StringDump, free_key = True, free_val = True\<rparr>"

end
