(* ===== verification/Hash_Table_Correct.thy ===== *)
theory Hash_Table_Correct
  imports Hash_Table
begin

unbundle bit_operations_syntax

text \<open>
  Correctness of the hash table.  The locale \<open>hash_type\<close> holds the laws a record of functions
  must obey (the comparison is an equivalence, equal keys have equal hashes, a copied key is
  equal to the original); it is interpreted on the records the header defines.  \<open>hash_inv\<close>
  is the representation invariant and \<open>lookup\<close> the finite map a table stands for; each
  operation keeps the one and acts on the other as the map operation does.
\<close>

section \<open>The laws of a record of functions\<close>

locale hash_type =
  fixes F :: "('k, 'v) HashTypeFunction"
  assumes refl: "comp_fn F k k"
    and sym: "comp_fn F k k' \<Longrightarrow> comp_fn F k' k"
    and trans: "comp_fn F k k' \<Longrightarrow> comp_fn F k' k'' \<Longrightarrow> comp_fn F k k''"
    and hash_cong: "comp_fn F k k' \<Longrightarrow> hash_fn F k = hash_fn F k'"
    and dump: "comp_fn F (HashSetKey F k) k"
begin

lemma comp_eq: "comp_fn F k k' \<Longrightarrow> comp_fn F k x = comp_fn F k' x"
  by (metis sym trans)

lemma comp_eq2: "comp_fn F k k' \<Longrightarrow> comp_fn F x k = comp_fn F x k'"
  by (metis sym trans)

lemma comp_commute: "comp_fn F k k' = comp_fn F k' k"
  by (metis sym)

lemma slot_cong: "comp_fn F k k' \<Longrightarrow> HashSlot F sz k = HashSlot F sz k'"
  by (simp add: HashSlot_def hash_cong)

end

section \<open>Chains\<close>

abbreviation matches :: "('k \<Rightarrow> 'k \<Rightarrow> bool) \<Rightarrow> 'k \<Rightarrow> ('k, 'v) table_entry \<Rightarrow> bool" where
  "matches cmp k e \<equiv> cmp k (ent_key e)"

text \<open>At most one entry for each key.\<close>

definition unique_keys :: "('k \<Rightarrow> 'k \<Rightarrow> bool) \<Rightarrow> ('k, 'v) table_entry list \<Rightarrow> bool" where
  "unique_keys cmp es \<longleftrightarrow> (\<forall>k. length (filter (matches cmp k) es) \<le> 1)"

lemma unique_keys_Nil [simp]: "unique_keys cmp []"
  by (simp add: unique_keys_def)

lemma chain_find_filter:
  "chain_find cmp k es = (case filter (matches cmp k) es of [] \<Rightarrow> None | e # _ \<Rightarrow> Some e)"
  by (induction es) auto

lemma chain_find_None: "chain_find cmp k es = None \<longleftrightarrow> filter (matches cmp k) es = []"
  by (simp add: chain_find_filter split: list.splits)

lemma chain_find_cong: "filter (matches cmp k) es = filter (matches cmp k) es' \<Longrightarrow> chain_find cmp k es = chain_find cmp k es'"
  by (simp add: chain_find_filter)

lemma keys_chain_set [simp]: "map ent_key (chain_set cmp k v es) = map ent_key es"
  by (induction es) auto

lemma length_chain_set [simp]: "length (chain_set cmp k v es) = length es"
  by (induction es) auto

lemma filter_keys_length: "length (filter (matches cmp k) es) = length (filter (cmp k) (map ent_key es))"
  by (simp add: filter_map comp_def)

lemma unique_chain_set [simp]: "unique_keys cmp (chain_set cmp k v es) = unique_keys cmp es"
  by (simp add: unique_keys_def filter_keys_length)

lemma set_keys_chain_set: "e \<in> set (chain_set cmp k v es) \<Longrightarrow> \<exists>e' \<in> set es. ent_key e = ent_key e'"
  by (induction es) (auto split: if_splits)

lemma filter_length_mset: "mset xs = mset ys \<Longrightarrow> length (filter P xs) = length (filter P ys)"
  by (metis mset_filter size_mset)

lemma filter_single_mset:
  assumes "mset xs = mset ys" "length (filter P ys) \<le> 1"
  shows "filter P xs = filter P ys"
proof (cases "filter P ys")
  case Nil
  then show ?thesis using filter_length_mset [OF assms(1), of P] by simp
next
  case (Cons y zs)
  moreover have "mset (filter P xs) = mset (filter P ys)" using assms(1) by simp
  ultimately show ?thesis using assms(2) by (metis length_0_conv le_Suc_eq le_zero_eq length_Cons mset_single_iff One_nat_def Suc_le_mono mset.simps)
qed

context hash_type begin

lemma unique_Cons:
  assumes "unique_keys (comp_fn F) es" "chain_find (comp_fn F) (ent_key e) es = None"
  shows "unique_keys (comp_fn F) (e # es)"
  unfolding unique_keys_def
proof
  fix k
  show "length (filter (matches (comp_fn F) k) (e # es)) \<le> 1"
  proof (cases "comp_fn F k (ent_key e)")
    case True
    then have "filter (matches (comp_fn F) k) es = []"
      using assms(2) comp_eq [OF True] by (simp add: chain_find_None)
    then show ?thesis by simp
  next
    case False
    then show ?thesis using assms(1) by (simp add: unique_keys_def)
  qed
qed

lemma chain_find_key: "comp_fn F k k' \<Longrightarrow> chain_find (comp_fn F) k es = chain_find (comp_fn F) k' es"
  by (simp add: chain_find_filter comp_eq)

lemma chain_find_set:
  assumes "chain_find (comp_fn F) k es \<noteq> None"
  shows "map_option ent_val (chain_find (comp_fn F) k' (chain_set (comp_fn F) k v es)) =
    (if comp_fn F k' k then Some v else map_option ent_val (chain_find (comp_fn F) k' es))"
  using assms
proof (induction es)
  case (Cons e es)
  show ?case
  proof (cases "comp_fn F k (ent_key e)")
    case True
    then have "comp_fn F k' (ent_key e) = comp_fn F k' k" using comp_eq2 by blast
    with True show ?thesis by simp
  next
    case False
    then have "comp_fn F k' k \<Longrightarrow> \<not> comp_fn F k' (ent_key e)" using comp_eq by blast
    with False Cons show ?thesis by auto
  qed
qed simp

lemma chain_del_None: "chain_del (comp_fn F) k es = None \<longleftrightarrow> chain_find (comp_fn F) k es = None"
  by (induction es) (auto simp: comp_commute [of _ k])

lemma chain_del_Some:
  assumes "chain_del (comp_fn F) k es = Some (en, es')" "unique_keys (comp_fn F) es"
  shows "chain_find (comp_fn F) k es = Some en \<and> mset es = add_mset en (mset es') \<and> unique_keys (comp_fn F) es' \<and>
    chain_find (comp_fn F) k' es' = (if comp_fn F k' k then None else chain_find (comp_fn F) k' es)"
  using assms
proof (induction es arbitrary: es')
  case (Cons e es)
  have u: "unique_keys (comp_fn F) es"
    using Cons.prems(2) unfolding unique_keys_def by (auto split: if_splits intro: le_trans [rotated])
  show ?case
  proof (cases "comp_fn F (ent_key e) k")
    case True
    then have e: "en = e" "es' = es" "comp_fn F k (ent_key e)" using Cons.prems comp_commute by auto
    have "filter (matches (comp_fn F) k') es = []" if "comp_fn F k' k"
    proof -
      have "comp_fn F k' (ent_key e)" using that e(3) trans by blast
      moreover have "length (filter (matches (comp_fn F) k') (e # es)) \<le> 1"
        using Cons.prems(2) unfolding unique_keys_def by blast
      ultimately show ?thesis by simp
    qed
    moreover have "\<not> comp_fn F k' (ent_key e)" if "\<not> comp_fn F k' k" using that True trans by blast
    ultimately show ?thesis using e u by (auto simp: chain_find_None)
  next
    case False
    then obtain es'' where d: "chain_del (comp_fn F) k es = Some (en, es'')" "es' = e # es''"
      using Cons.prems by auto
    note IH = Cons.IH [OF d(1) u]
    have ne: "\<not> comp_fn F k (ent_key e)" using False sym by blast
    then have ne': "comp_fn F k' k \<Longrightarrow> \<not> comp_fn F k' (ent_key e)" using comp_eq by blast
    have "length (filter P es') \<le> length (filter P (e # es))" for P
    proof -
      have "mset (e # es) = mset (en # es')" using IH d(2) by simp
      then have "length (filter P (e # es)) = length (filter P (en # es'))" by (rule filter_length_mset)
      then show ?thesis by simp
    qed
    then have "unique_keys (comp_fn F) es'"
      using Cons.prems(2) unfolding unique_keys_def by (meson le_trans)
    with IH d ne ne' show ?thesis by auto
  qed
qed simp

end

section \<open>The array of chains\<close>

lemma set_concat_el: "e \<in> set (concat tab) \<longleftrightarrow> (\<exists>i. 0 \<le> i \<and> i < len tab \<and> e \<in> set (el tab i))"
proof
  assume "e \<in> set (concat tab)"
  then obtain c where "c \<in> set tab" "e \<in> set c" by auto
  then show "\<exists>i. 0 \<le> i \<and> i < len tab \<and> e \<in> set (el tab i)" using in_set_el [of c tab] by blast
next
  assume "\<exists>i. 0 \<le> i \<and> i < len tab \<and> e \<in> set (el tab i)"
  then show "e \<in> set (concat tab)" using el_in_set [of _ tab] by auto
qed

lemma concat_split:
  assumes "0 \<le> i" "i < len tab"
  shows "concat tab = concat (take (nat i) tab) @ el tab i @ concat (drop (nat (i + 1)) tab)"
proof -
  have "nat (i + 1) = Suc (nat i)" "nat i < length tab" using assms by simp_all
  then have "tab = take (nat i) tab @ el tab i # drop (nat (i + 1)) tab"
    by (simp add: el_def id_take_nth_drop)
  then show ?thesis by (metis concat.simps(2) concat_append)
qed

lemma mset_concat_up:
  assumes "0 \<le> i" "i < len tab"
  shows "mset (concat (up tab i c)) + mset (el tab i) = mset (concat tab) + mset c"
proof -
  have "take (nat i) (up tab i c) = take (nat i) tab" "drop (nat (i + 1)) (up tab i c) = drop (nat (i + 1)) tab"
    using assms by (simp_all add: up_def)
  then show ?thesis
    using assms concat_split [OF assms] concat_split [of i "up tab i c"] by simp
qed

lemma length_concat_up:
  "0 \<le> i \<Longrightarrow> i < len tab \<Longrightarrow> length (concat (up tab i c)) + length (el tab i) = length (concat tab) + length c"
  using mset_concat_up [of i tab c] by (metis size_mset size_union)

lemma filter_concat_slot:
  assumes i: "0 \<le> i" "i < len tab"
    and out: "\<And>j e. 0 \<le> j \<Longrightarrow> j < len tab \<Longrightarrow> j \<noteq> i \<Longrightarrow> e \<in> set (el tab j) \<Longrightarrow> \<not> P e"
  shows "filter P (concat tab) = filter P (el tab i)"
proof -
  have nth: "\<not> P e" if "n < length tab" "n \<noteq> nat i" "e \<in> set (tab ! n)" for n e
    using out [of "int n" e] that i by (simp add: el_def nat_eq_iff)
  have "\<not> P e" if e: "e \<in> set (concat (take (nat i) tab))" for e
  proof -
    obtain n where "n < nat i" "n < length tab" "e \<in> set (tab ! n)"
      using e by (auto simp: in_set_conv_nth [of _ "take (nat i) tab"])
    then show ?thesis using nth [of n e] by simp
  qed
  moreover have "\<not> P e" if e: "e \<in> set (concat (drop (nat (i + 1)) tab))" for e
  proof -
    obtain c where "c \<in> set (drop (nat (i + 1)) tab)" "e \<in> set c" using e by auto
    then obtain n where "nat (i + 1) + n < length tab" "e \<in> set (tab ! (nat (i + 1) + n))"
      using i by (auto simp only: in_set_conv_nth [of c] length_drop nth_drop less_diff_conv add.commute)
    moreover have "nat (i + 1) + n \<noteq> nat i" using i by simp
    ultimately show ?thesis using nth by blast
  qed
  ultimately have "filter P (concat (take (nat i) tab)) = []" "filter P (concat (drop (nat (i + 1)) tab)) = []"
    by (simp_all add: filter_empty_conv)
  then show ?thesis using concat_split [OF i] by simp
qed

definition placed :: "('k, 'v) HashTypeFunction \<Rightarrow> 32 word \<Rightarrow> ('k, 'v) table_entry list list \<Rightarrow> bool" where
  "placed F sz tab \<longleftrightarrow> sz \<noteq> 0 \<and> len tab = uint sz \<and>
     (\<forall>i. 0 \<le> i \<and> i < len tab \<longrightarrow> unique_keys (comp_fn F) (el tab i) \<and> (\<forall>e \<in> set (el tab i). HashSlot F sz (ent_key e) = i))"

lemma HashSlot_range: "sz \<noteq> 0 \<Longrightarrow> 0 \<le> HashSlot F sz k \<and> HashSlot F sz k < uint sz"
proof -
  assume "sz \<noteq> 0"
  then have "unat (sz - 1) < unat sz" by (simp add: unat_minus_one unat_gt_0)
  moreover have "unat (hash_fn F k AND (sz - 1)) \<le> unat (sz - 1)"
    using word_and_le1 [of "hash_fn F k" "sz - 1"] by (simp add: word_le_nat_alt and.commute)
  ultimately have "unat (hash_fn F k AND (sz - 1)) < unat sz" by simp
  then show ?thesis by (simp add: HashSlot_def flip: word_less_nat_alt add: word_less_def)
qed

lemma placed_slot: "placed F sz tab \<Longrightarrow> 0 \<le> HashSlot F sz k \<and> HashSlot F sz k < len tab"
  unfolding placed_def by (simp add: HashSlot_range)

lemma placed_up:
  assumes "placed F sz tab" "0 \<le> i" "i < len tab" "unique_keys (comp_fn F) c"
    and "\<And>e. e \<in> set c \<Longrightarrow> HashSlot F sz (ent_key e) = i"
  shows "placed F sz (up tab i c)"
  using assms unfolding placed_def by (auto simp: el_up)

lemma placed_unique: "placed F sz tab \<Longrightarrow> 0 \<le> i \<Longrightarrow> i < len tab \<Longrightarrow> unique_keys (comp_fn F) (el tab i)"
  by (simp add: placed_def)

lemma placed_key: "placed F sz tab \<Longrightarrow> 0 \<le> i \<Longrightarrow> i < len tab \<Longrightarrow> e \<in> set (el tab i) \<Longrightarrow> HashSlot F sz (ent_key e) = i"
  by (simp add: placed_def)

lemma placed_empty:
  fixes F :: "('k, 'v) HashTypeFunction"
  shows "sz \<noteq> 0 \<Longrightarrow> placed F sz (replicate (unat sz) [])"
proof -
  assume "sz \<noteq> 0"
  moreover have "el (replicate (unat sz) []) i = ([] :: ('k, 'v) table_entry list)" if "0 \<le> i" "i < uint sz" for i
    using that by (simp add: el_def nat_less_iff flip: uint_nat)
  ultimately show ?thesis by (simp add: placed_def)
qed

definition lookup :: "('k, 'v) hash_table \<Rightarrow> 'k \<Rightarrow> 'v option" where
  "lookup t k = (case tbl_table t of None \<Rightarrow> None
     | Some tab \<Rightarrow> map_option ent_val (chain_find (comp_fn (tbl_fns t)) k (concat tab)))"

definition hash_inv :: "('k, 'v) hash_table \<Rightarrow> bool" where
  "hash_inv t \<longleftrightarrow>
     (case tbl_table t of
       None \<Rightarrow> tbl_size t = 0 \<and> tbl_use t = 0
     | Some tab \<Rightarrow> placed (tbl_fns t) (tbl_size t) tab \<and> (\<exists>n\<ge>5. uint (tbl_size t) = 2 ^ n) \<and>
         uint (tbl_use t) = len (concat tab))"

context hash_type begin

lemma filter_slot:
  assumes "placed F sz tab"
  shows "filter (matches (comp_fn F) k) (concat tab) = filter (matches (comp_fn F) k) (el tab (HashSlot F sz k))"
proof (rule filter_concat_slot)
  fix j e assume "0 \<le> j" "j < len tab" "j \<noteq> HashSlot F sz k" "e \<in> set (el tab j)"
  then show "\<not> matches (comp_fn F) k e" using placed_key [OF assms] slot_cong by metis
qed (use placed_slot [OF assms] in simp_all)

lemma chain_find_slot:
  "placed F sz tab \<Longrightarrow> chain_find (comp_fn F) k (concat tab) = chain_find (comp_fn F) k (el tab (HashSlot F sz k))"
  by (rule chain_find_cong) (rule filter_slot)

lemma unique_concat:
  assumes "placed F sz tab"
  shows "unique_keys (comp_fn F) (concat tab)"
  using placed_unique [OF assms] placed_slot [OF assms] unfolding unique_keys_def filter_slot [OF assms] by blast

lemma chain_find_up:
  assumes p: "placed F sz tab" and q: "placed F sz (up tab (HashSlot F sz k) c)"
  shows "chain_find (comp_fn F) k' (concat (up tab (HashSlot F sz k) c)) =
    (if HashSlot F sz k' = HashSlot F sz k then chain_find (comp_fn F) k' c else chain_find (comp_fn F) k' (concat tab))"
  using placed_slot [OF p, of k] placed_slot [OF p, of k']
  by (simp add: chain_find_slot [OF p] chain_find_slot [OF q] el_up)

end

section \<open>The operations\<close>

lemma hash_inv_construct: "hash_inv (hash_table_construct f) \<and> lookup (hash_table_construct f) k = None"
  by (simp add: hash_inv_def lookup_def hash_table_construct_def)

lemma hash_inv_cases:
  assumes "hash_inv t"
  obtains "tbl_table t = None" "tbl_size t = 0" "tbl_use t = 0"
  | tab n where "tbl_table t = Some tab" "placed (tbl_fns t) (tbl_size t) tab" "5 \<le> n" "uint (tbl_size t) = 2 ^ n"
      "uint (tbl_use t) = len (concat tab)"
  using assms by (auto simp: hash_inv_def split: option.splits)

lemma placed_nonzero: "placed F sz tab \<Longrightarrow> sz \<noteq> 0"
  by (simp add: placed_def)

lemma size_bound: "uint (sz :: 32 word) = 2 ^ n \<Longrightarrow> n \<le> 31"
proof -
  assume "uint sz = 2 ^ n"
  moreover have "uint sz < 2 ^ 32" using uint_lt2p [of sz] by simp
  ultimately have "(2 :: int) ^ n < 2 ^ 32" by simp
  then have "n < 32" by (rule power_less_imp_less_exp [rotated]) simp
  then show ?thesis by simp
qed

context hash_type begin

lemma find_ok:
  assumes "hash_inv t" "tbl_fns t = F"
  shows "\<exists>r. hash_table_find t k = Some r \<and> map_option ent_val r = lookup t k \<and>
    (\<forall>e. r = Some e \<longrightarrow> comp_fn F k (ent_key e))"
  using assms(1)
proof (cases rule: hash_inv_cases)
  case 1
  then show ?thesis by (simp add: hash_table_find_def lookup_def)
next
  case (2 tab n)
  have "comp_fn F k (ent_key e)" if "chain_find (comp_fn F) k es = Some e" for e es
    using that by (induction es) (auto split: if_splits)
  then have "\<forall>e. chain_find (comp_fn F) k es = Some e \<longrightarrow> comp_fn F k (ent_key e)" for es by blast
  then show ?thesis
    using 2 placed_slot [OF 2(2)] placed_nonzero [OF 2(2)] chain_find_slot [of "tbl_size t" tab k] assms(2)
    by (simp add: hash_table_find_def lookup_def tbl_chains_def rd_in)
qed

lemma rehash_chain_ok:
  assumes "placed F cap new" "unique_keys (comp_fn F) es"
    and "\<And>e. e \<in> set es \<Longrightarrow> chain_find (comp_fn F) (ent_key e) (concat new) = None"
  shows "ok (rehash_chain F cap es new) (\<lambda>n. placed F cap n \<and> mset (concat n) = mset es + mset (concat new))"
  using assms
proof (induction es arbitrary: new)
  case (Cons e es)
  let ?i = "HashSlot F cap (ent_key e)"
  let ?new = "up new ?i (e # el new ?i)"
  have i: "0 \<le> ?i" "?i < len new" using placed_slot [OF Cons.prems(1)] by blast+
  have none: "chain_find (comp_fn F) (ent_key e) (el new ?i) = None"
    using Cons.prems(3) [of e] chain_find_slot [OF Cons.prems(1), of "ent_key e"] by simp
  have p: "placed F cap ?new"
    by (rule placed_up [OF Cons.prems(1) i]; (rule unique_Cons [OF placed_unique [OF Cons.prems(1) i] none])?)
      (use placed_key [OF Cons.prems(1) i] in auto)
  have m: "mset (concat ?new) = add_mset e (mset (concat new))"
    using mset_concat_up [OF i, of "e # el new ?i"] by simp
  have u: "unique_keys (comp_fn F) es"
    using Cons.prems(2) unfolding unique_keys_def by (auto split: if_splits intro: le_trans [rotated])
  have rest: "chain_find (comp_fn F) (ent_key e') (concat ?new) = None" if e': "e' \<in> set es" for e'
  proof -
    have "\<not> comp_fn F (ent_key e') (ent_key e)"
    proof
      assume *: "comp_fn F (ent_key e') (ent_key e)"
      have "filter (matches (comp_fn F) (ent_key e')) (e # es) = e # filter (matches (comp_fn F) (ent_key e')) es"
        using * by simp
      moreover have "filter (matches (comp_fn F) (ent_key e')) es \<noteq> []" using e' refl by (auto simp: filter_empty_conv)
      moreover have "length (filter (matches (comp_fn F) (ent_key e')) (e # es)) \<le> 1"
        using Cons.prems(2) unfolding unique_keys_def by blast
      ultimately show False by simp
    qed
    moreover have "\<forall>x \<in> set (concat new). \<not> comp_fn F (ent_key e') (ent_key x)"
      using Cons.prems(3) [of e'] e' by (simp add: chain_find_None filter_empty_conv)
    moreover have "set (concat ?new) = insert e (set (concat new))" using m by (metis set_mset_add_mset_insert set_mset_mset)
    ultimately show ?thesis by (simp add: chain_find_None filter_empty_conv del: set_concat)
  qed
  have "ok (rehash_chain F cap es ?new) (\<lambda>n. placed F cap n \<and> mset (concat n) = mset es + mset (concat ?new))"
    using Cons.IH [OF p u rest] .
  then show ?case using i m by (simp add: wp Let_def)
qed simp

lemma take_Suc_el: "0 \<le> i \<Longrightarrow> i < len a \<Longrightarrow> take (nat (i + 1)) a = take (nat i) a @ [el a i]"
proof -
  assume "0 \<le> i" "i < len a"
  then have "nat (i + 1) = Suc (nat i)" "nat i < length a" by simp_all
  then show ?thesis by (simp add: take_Suc_conv_app_nth el_def)
qed

lemma rehash_ok:
  assumes p: "placed F sz tab" and cap: "cap \<noteq> 0"
  shows "ok (for_up 0 (uint sz) (\<lambda>idx new. do { et \<leftarrow> rd tab idx; rehash_chain F cap et new }) (replicate (unat cap) []))
    (\<lambda>n. placed F cap n \<and> mset (concat n) = mset (concat tab))"
proof (rule for_up_rule [where I = "\<lambda>i n. placed F cap n \<and> mset (concat n) = mset (concat (take (nat i) tab))"])
  fix i n assume i: "0 \<le> i" "i < uint sz" and I: "placed F cap n \<and> mset (concat n) = mset (concat (take (nat i) tab))"
  then have il: "i < len tab" using p by (simp add: placed_def)
  have none: "chain_find (comp_fn F) (ent_key e) (concat n) = None" if e: "e \<in> set (el tab i)" for e
  proof -
    have "\<not> comp_fn F (ent_key e) (ent_key x)" if x: "x \<in> set (concat n)" for x
    proof
      assume c: "comp_fn F (ent_key e) (ent_key x)"
      have "set (concat n) = set (concat (take (nat i) tab))" using I by (metis set_mset_mset)
      with x obtain j where j: "0 \<le> j" "j < len (take (nat i) tab)" "x \<in> set (el (take (nat i) tab) j)"
        by (auto simp only: set_concat_el)
      then have "j < i" using i by simp
      then have "x \<in> set (el tab j)" using j by (simp add: el_def nat_less_eq_zless)
      then have "HashSlot F sz (ent_key x) = j" using placed_key [OF p, of j x] j(1) il \<open>j < i\<close> by simp
      moreover have "HashSlot F sz (ent_key e) = i" using placed_key [OF p i(1) il e] .
      ultimately show False using slot_cong [OF c, of sz] \<open>j < i\<close> by simp
    qed
    then show ?thesis by (simp add: chain_find_None filter_empty_conv del: set_concat)
  qed
  have "ok (rehash_chain F cap (el tab i) n) (\<lambda>m. placed F cap m \<and> mset (concat m) = mset (el tab i) + mset (concat n))"
    by (rule rehash_chain_ok) (use I none placed_unique [OF p i(1) il] in auto)
  then show "ok (do { et \<leftarrow> rd tab i; rehash_chain F cap et n })
      (\<lambda>n. placed F cap n \<and> mset (concat n) = mset (concat (take (nat (i + 1)) tab)))"
    using i il I take_Suc_el [OF i(1) il] by (auto simp: wp union_commute elim!: ok_mono)
next
  fix n assume "placed F cap n \<and> mset (concat n) = mset (concat (take (nat (uint sz)) tab))"
  moreover have "take (nat (uint sz)) tab = tab" using p unfolding placed_def by (metis nat_int order_refl take_all)
  ultimately show "placed F cap n \<and> mset (concat n) = mset (concat tab)" by simp
qed (use placed_empty [OF cap] in auto)

lemma chain_find_mset:
  assumes "placed F sz tab" "placed F sz' tab'" "mset (concat tab') = mset (concat tab)"
  shows "chain_find (comp_fn F) k (concat tab') = chain_find (comp_fn F) k (concat tab)"
  by (rule chain_find_cong) (rule filter_single_mset [OF assms(3)], use unique_concat [OF assms(1)] in \<open>simp add: unique_keys_def\<close>)

text \<open>Growing keeps the invariant, the map and the number of entries.\<close>

lemma growup_ok:
  assumes inv: "hash_inv t" and F: "tbl_fns t = F" and small: "uint (tbl_use t) < 3 * 2 ^ 29"
  shows "ok (hash_table_growup True t) (\<lambda>t'. hash_inv t' \<and> tbl_table t' \<noteq> None \<and> lookup t' = lookup t \<and>
    tbl_use t' = tbl_use t \<and>
    (4 * uint (tbl_use t) \<le> 3 * uint (tbl_size t) \<longrightarrow> \<not> over_limit (tbl_use t') (tbl_size t')) \<and> t' = t\<lparr>tbl_table := tbl_table t', tbl_size := tbl_size t'\<rparr>)"
  using inv
proof (cases rule: hash_inv_cases)
  case 1
  have p: "placed F 32 (replicate 32 [])" using placed_empty [of 32 F] by simp
  have c: "chain_find (comp_fn F) k (concat (replicate 32 [])) = None" for k by simp
  from 1 p show ?thesis
    using F by (auto simp: hash_table_growup_def for_up_skip hash_inv_def lookup_def over_limit_def c fun_eq_iff intro!: exI [of _ 5])
next
  case (2 tab n)
  show ?thesis
  proof (cases "over_limit (tbl_use t) (tbl_size t)")
    case False
    then show ?thesis using 2 placed_nonzero [OF 2(2)] inv by (simp add: hash_table_growup_def)
  next
    case True
    have "2 ^ n < (2 :: int) ^ 31" using True small 2 by (simp add: over_limit_def)
    then have "n < 31" by (rule power_less_imp_less_exp [rotated]) simp
    then have "(2 :: int) ^ n \<le> 2 ^ 30" by (intro power_increasing) simp_all
    then have sz: "uint (tbl_size t * 2) = 2 ^ Suc n" using 2(4) by (simp add: uint_word_ariths)
    then have ne: "tbl_size t * 2 \<noteq> 0" by auto
    have "ok (for_up 0 (uint (tbl_size t)) (\<lambda>idx new. do { et \<leftarrow> rd tab idx; rehash_chain F (tbl_size t * 2) et new })
        (replicate (unat (tbl_size t * 2)) []))
      (\<lambda>n. placed F (tbl_size t * 2) n \<and> mset (concat n) = mset (concat tab))"
      by (rule rehash_ok) (use 2 ne F in auto)
    then obtain new where new: "for_up 0 (uint (tbl_size t)) (\<lambda>idx new. do { et \<leftarrow> rd tab idx; rehash_chain F (tbl_size t * 2) et new })
        (replicate (unat (tbl_size t * 2)) []) = Some new" "placed F (tbl_size t * 2) new" "mset (concat new) = mset (concat tab)"
      by (auto elim: okE)
    let ?t = "t\<lparr>tbl_table := Some new, tbl_size := tbl_size t * 2\<rparr>"
    have "hash_table_growup True t = Some ?t"
      using 2 True new(1) placed_nonzero [OF 2(2)] F by (simp add: hash_table_growup_def tbl_chains_def)
    moreover have "length (concat new) = length (concat tab)" using new(3) by (rule mset_eq_length)
    then have "hash_inv ?t"
      using 2 new(2) sz F by (auto simp: hash_inv_def intro!: exI [of _ "Suc n"])
    moreover have "lookup ?t = lookup t"
      using chain_find_mset [OF _ new(2,3)] 2 F by (auto simp: lookup_def)
    moreover have "\<not> over_limit (tbl_use t) (tbl_size t * 2)" if "4 * uint (tbl_use t) \<le> 3 * uint (tbl_size t)"
    proof -
      have "(0 :: int) < 2 ^ n" by simp
      then show ?thesis using that unfolding over_limit_def sz 2(4) power_Suc by linarith
    qed
    ultimately show ?thesis by simp
  qed
qed

lemma insert_ok:
  assumes inv: "hash_inv t" and F: "tbl_fns t = F" and small: "uint (tbl_use t) < 3 * 2 ^ 29"
  shows "ok (hash_table_insert True True t k v) (\<lambda>t'. hash_inv t' \<and> tbl_fns t' = F \<and>
    lookup t' = (\<lambda>k'. if comp_fn F k' k then Some (HashSetValue F v) else lookup t k') \<and>
    uint (tbl_use t') = uint (tbl_use t) + (if lookup t k = None then 1 else 0) \<and>
    (4 * uint (tbl_use t) \<le> 3 * uint (tbl_size t) \<longrightarrow> 4 * uint (tbl_use t') \<le> 3 * uint (tbl_size t')))"
proof -
  obtain r where r: "hash_table_find t k = Some r" "map_option ent_val r = lookup t k" using find_ok [OF inv F] by blast
  show ?thesis
  proof (cases r)
    case (Some e)
    then have "lookup t k = Some (ent_val e)" using r(2) by simp
    then have hit: "lookup t k \<noteq> None" by simp
    from inv show ?thesis
    proof (cases rule: hash_inv_cases)
      case 1
      with hit show ?thesis by (simp add: lookup_def)
    next
      case (2 tab n)
      let ?i = "HashSlot F (tbl_size t) k"
      let ?c = "chain_set (comp_fn F) k (HashSetValue F v) (el tab ?i)"
      have p: "placed F (tbl_size t) tab" using 2(2) F by simp
      have i: "0 \<le> ?i" "?i < len tab" using placed_slot [OF p] by blast+
      have "HashSlot F (tbl_size t) (ent_key e) = ?i" if "e \<in> set ?c" for e
        using set_keys_chain_set [OF that] placed_key [OF p i] by auto
      then have q: "placed F (tbl_size t) (up tab ?i ?c)"
        using placed_unique [OF p i] by (intro placed_up [OF p i]) auto
      have l: "length (concat (up tab ?i ?c)) = length (concat tab)" using length_concat_up [OF i, of ?c] by simp
      have "chain_find (comp_fn F) k (el tab ?i) \<noteq> None"
        using hit 2 F by (auto simp: lookup_def chain_find_slot [OF p])
      from chain_find_set [OF this]
      have "map_option ent_val (chain_find (comp_fn F) k' (concat (up tab ?i ?c))) =
        (if comp_fn F k' k then Some (HashSetValue F v) else map_option ent_val (chain_find (comp_fn F) k' (concat tab)))" for k'
        using chain_find_slot [OF p, of k'] slot_cong [of k' k "tbl_size t"] by (auto simp: chain_find_up [OF p q])
      then show ?thesis
        using r 2 F Some i q l hit
        by (auto simp: hash_table_insert_def tbl_chains_def wp hash_inv_def lookup_def Let_def fun_eq_iff)
    qed
  next
    case None
    then have miss: "lookup t k = None" using r(2) by simp
    obtain t' where g: "hash_table_growup True t = Some t'" and g': "hash_inv t'" "tbl_table t' \<noteq> None" "lookup t' = lookup t"
      "tbl_use t' = tbl_use t" "4 * uint (tbl_use t) \<le> 3 * uint (tbl_size t) \<longrightarrow> \<not> over_limit (tbl_use t') (tbl_size t')"
      "t' = t\<lparr>tbl_table := tbl_table t', tbl_size := tbl_size t'\<rparr>"
      using growup_ok [OF inv F small] by (auto elim: okE)
    have F': "tbl_fns t' = F" using g'(6) F by (metis hash_table.select_convs(4) hash_table.surjective hash_table.update_convs(1,2))
    from g'(1) show ?thesis
    proof (cases rule: hash_inv_cases)
      case 1
      with g'(2) show ?thesis by simp
    next
      case (2 tab n)
      let ?i = "HashSlot F (tbl_size t') k"
      let ?e = "\<lparr>ent_key = HashSetKey F k, ent_val = HashSetValue F v\<rparr>"
      have p: "placed F (tbl_size t') tab" using 2(2) F' by simp
      have i: "0 \<le> ?i" "?i < len tab" using placed_slot [OF p] by blast+
      have look: "lookup t k' = map_option ent_val (chain_find (comp_fn F) k' (concat tab))" for k'
        unfolding g'(3) [symmetric] by (simp add: lookup_def 2(1) F')
      have "chain_find (comp_fn F) k (el tab ?i) = None"
        using miss by (simp add: look chain_find_slot [OF p])
      then have none: "chain_find (comp_fn F) (ent_key ?e) (el tab ?i) = None" by (simp add: chain_find_key [OF dump])
      have q: "placed F (tbl_size t') (up tab ?i (?e # el tab ?i))"
        by (rule placed_up [OF p i]; (rule unique_Cons [OF placed_unique [OF p i] none])?)
          (use placed_key [OF p i] slot_cong [OF dump] in auto)
      have l: "length (concat (up tab ?i (?e # el tab ?i))) = length (concat tab) + 1"
        using length_concat_up [OF i, of "?e # el tab ?i"] by simp
      have "map_option ent_val (chain_find (comp_fn F) k' (concat (up tab ?i (?e # el tab ?i)))) =
        (if comp_fn F k' k then Some (HashSetValue F v) else lookup t k')" for k'
        using chain_find_slot [OF p, of k'] slot_cong [of k' k "tbl_size t'"] comp_eq2 [OF dump, of k' k]
        by (auto simp: chain_find_up [OF p q] look)
      moreover have u: "uint (tbl_use t + 1) = uint (tbl_use t) + 1" using small by (simp add: uint_word_ariths)
      moreover have "4 * uint (tbl_use t + 1) \<le> 3 * uint (tbl_size t')" if "4 * uint (tbl_use t) \<le> 3 * uint (tbl_size t)"
      proof -
        have "n = 2 + (n - 2)" using 2(3) by simp
        then have "(2 :: int) ^ n = 2 ^ 2 * 2 ^ (n - 2)" by (metis power_add)
        then show ?thesis using g'(4,5) that u 2(4) by (simp add: over_limit_def)
      qed
      ultimately show ?thesis
        using r(1) None 2 F' i q l miss g g'(4)
        by (auto simp: hash_table_insert_def tbl_chains_def wp hash_inv_def lookup_def Let_def)
    qed
  qed
qed

lemma free_simps [simp]:
  "hash_inv (HashFreeKey e t) = hash_inv t" "hash_inv (HashFreeVal e t) = hash_inv t"
  "lookup (HashFreeKey e t) = lookup t" "lookup (HashFreeVal e t) = lookup t"
  "tbl_size (HashFreeKey e t) = tbl_size t" "tbl_size (HashFreeVal e t) = tbl_size t"
  "tbl_use (HashFreeKey e t) = tbl_use t" "tbl_use (HashFreeVal e t) = tbl_use t"
  "tbl_fns (HashFreeKey e t) = tbl_fns t" "tbl_fns (HashFreeVal e t) = tbl_fns t"
  "freed_vals (HashFreeKey e t) = freed_vals t"
  "freed_vals (HashFreeVal e t) = freed_vals t @ (if free_val (tbl_fns t) then [ent_val e] else [])"
  by (simp_all add: HashFreeKey_def HashFreeVal_def hash_inv_def lookup_def fun_eq_iff cong: option.case_cong)

text \<open>Deleting from a table that was never inserted into dereferences \<open>NULL\<close>.\<close>

lemma del_empty: "tbl_table t = None \<Longrightarrow> hash_table_del t k = None"
  by (simp add: hash_table_del_def tbl_chains_def Let_def)

lemma del_ok:
  assumes inv: "hash_inv t" and F: "tbl_fns t = F" and ne: "tbl_table t \<noteq> None"
  shows "ok (hash_table_del t k) (\<lambda>t'. hash_inv t' \<and> tbl_fns t' = F \<and> tbl_size t' = tbl_size t \<and>
    lookup t' = (\<lambda>k'. if comp_fn F k' k then None else lookup t k') \<and>
    uint (tbl_use t') = uint (tbl_use t) - (if lookup t k = None then 0 else 1) \<and>
    freed_vals t' = freed_vals t @ (if free_val F then (case lookup t k of Some v \<Rightarrow> [v] | None \<Rightarrow> []) else []))"
  using inv
proof (cases rule: hash_inv_cases)
  case (2 tab n)
  let ?i = "HashSlot F (tbl_size t) k"
  have p: "placed F (tbl_size t) tab" using 2(2) F by simp
  have i: "0 \<le> ?i" "?i < len tab" using placed_slot [OF p] by blast+
  have look: "lookup t k' = map_option ent_val (chain_find (comp_fn F) k' (concat tab))" for k' using 2(1) F by (simp add: lookup_def)
  show ?thesis
  proof (cases "chain_del (comp_fn F) k (el tab ?i)")
    case None
    then have "chain_find (comp_fn F) k (concat tab) = None" by (simp add: chain_del_None chain_find_slot [OF p])
    then have "lookup t k' = None" if "comp_fn F k' k" for k' using chain_find_key [OF that] look by (metis option.map(1))
    then show ?thesis
      using None 2 F i inv refl by (auto simp: hash_table_del_def tbl_chains_def wp Let_def fun_eq_iff)
  next
    case (Some d)
    obtain en c where d: "d = (en, c)" by (cases d)
    note del = chain_del_Some [OF Some [unfolded d] placed_unique [OF p i]]
    have c: "set c \<subseteq> set (el tab ?i)" using del by (metis set_mset_mset set_mset_add_mset_insert subset_insertI)
    have q: "placed F (tbl_size t) (up tab ?i c)"
      by (rule placed_up [OF p i]) (use del placed_key [OF p i] c in auto)
    have "chain_find (comp_fn F) k' (concat (up tab ?i c)) = (if comp_fn F k' k then None else chain_find (comp_fn F) k' (concat tab))" for k'
      using del [of k'] slot_cong [of k' k "tbl_size t"] chain_find_slot [OF p, of k'] by (auto simp: chain_find_up [OF p q])
    note find = this
    have "size (mset (el tab ?i)) = size (add_mset en (mset c))" using del by metis
    then have l: "length (concat tab) = length (concat (up tab ?i c)) + 1"
      using length_concat_up [OF i, of c] by simp
    moreover have "uint (tbl_use t - 1) = uint (tbl_use t) - 1"
      using l 2(5) uint_lt2p [of "tbl_use t"] by (simp add: uint_word_ariths)
    ultimately have u: "uint (tbl_use t - 1) = len (concat (up tab ?i c))" using 2(5) by simp
    have "lookup t k = Some (ent_val en)"
      using del by (simp add: look chain_find_slot [OF p])
    moreover define t1 where "t1 = t\<lparr>tbl_table := Some (up tab ?i c), tbl_use := tbl_use t - 1\<rparr>"
    have eq: "hash_table_del t k = Some (HashFreeVal en (HashFreeKey en t1))"
      using Some d 2(1) F i by (simp add: hash_table_del_def tbl_chains_def Let_def rd_in wr_in t1_def)
    have inv1: "hash_inv t1" using 2 q u F unfolding hash_inv_def t1_def by auto
    have "lookup t1 k' = (if comp_fn F k' k then None else lookup t k')" for k'
      using F find [of k'] look [of k'] by (simp add: lookup_def t1_def)
    then have "lookup t1 = (\<lambda>k'. if comp_fn F k' k then None else lookup t k')" by (rule ext)
    moreover have "uint (tbl_use t1) = uint (tbl_use t) - 1" using u l 2(5) by (simp add: t1_def)
    moreover have "tbl_size t1 = tbl_size t" "tbl_fns t1 = F" "freed_vals t1 = freed_vals t" by (simp_all add: t1_def F)
    ultimately show ?thesis
      unfolding eq ok_Some using inv1 by simp
  qed
qed (use ne in simp)

end

section \<open>Clearing and iterating\<close>

lemma clear_chain_eq:
  "clear_chain es (t, n) = (t\<lparr>freed_keys := freed_keys t @ (if free_key (tbl_fns t) then map ent_key es else []),
    freed_vals := freed_vals t @ (if free_val (tbl_fns t) then map ent_val es else [])\<rparr>, n + of_nat (length es))"
  by (induction es arbitrary: t n) (auto simp: HashFreeKey_def HashFreeVal_def ac_simps)

lemma clear_ok:
  assumes inv: "hash_inv t"
  shows "hash_table_clear t = Some
    (freed_keys t @ (if free_key (tbl_fns t) then map ent_key (case tbl_table t of None \<Rightarrow> [] | Some tab \<Rightarrow> concat tab) else []),
     freed_vals t @ (if free_val (tbl_fns t) then map ent_val (case tbl_table t of None \<Rightarrow> [] | Some tab \<Rightarrow> concat tab) else []))"
  using inv
proof (cases rule: hash_inv_cases)
  case 1
  then show ?thesis by (simp add: hash_table_clear_def for_up_skip)
next
  case (2 tab n)
  have l: "len tab = uint (tbl_size t)" using 2(2) by (simp add: placed_def)
  have "ok (for_up 0 (uint (tbl_size t)) (\<lambda>idx s. do { tab \<leftarrow> tbl_chains t; en \<leftarrow> rd tab idx; Some (clear_chain en s) }) (t, 0))
    (\<lambda>s. s = clear_chain (concat tab) (t, 0))"
  proof (rule for_up_rule [where I = "\<lambda>i s. s = clear_chain (concat (take (nat i) tab)) (t, 0)"])
    fix i s assume i: "0 \<le> i" "i < uint (tbl_size t)" and s: "s = clear_chain (concat (take (nat i) tab)) (t, 0)"
    then have "take (nat (i + 1)) tab = take (nat i) tab @ [el tab i]"
      using l by (simp add: el_def nat_add_distrib take_Suc_conv_app_nth)
    then show "ok (do { tab \<leftarrow> tbl_chains t; en \<leftarrow> rd tab i; Some (clear_chain en s) })
        (\<lambda>s. s = clear_chain (concat (take (nat (i + 1)) tab)) (t, 0))"
      using i s l 2(1) by (auto simp: wp tbl_chains_def clear_chain_eq)
  next
    fix s assume "s = clear_chain (concat (take (nat (uint (tbl_size t))) tab)) (t, 0)"
    then show "s = clear_chain (concat tab) (t, 0)" using l by (metis nat_int order_refl take_all)
  qed simp_all
  moreover have "(of_nat (length (concat tab)) :: 64 word) = ucast (tbl_use t)"
    by (simp only: ucast_eq 2(5) of_int_of_nat_eq)
  ultimately show ?thesis using 2(1) by (auto simp: hash_table_clear_def ok_iff clear_chain_eq)
qed

text \<open>What a loop of calls of \<open>hash_table_next\<close> still has to visit.\<close>

definition to_visit :: "('k, 'v) hash_table \<Rightarrow> ('k, 'v) hash_table_iterator \<Rightarrow> ('k, 'v) table_entry list" where
  "to_visit t it = tl (it_entry it) @
     (case tbl_table t of None \<Rightarrow> [] | Some tab \<Rightarrow> concat (drop (nat (it_index it + 1)) tab))"

lemma drop_el: "0 \<le> i \<Longrightarrow> i < len a \<Longrightarrow> drop (nat i) a = el a i # drop (nat (i + 1)) a"
  by (simp add: el_def nat_add_distrib Cons_nth_drop_Suc nat_less_iff)

lemma next_ok:
  assumes inv: "hash_inv t" and sz: "uint (tbl_size t) \<le> 2 ^ 30"
    and idx: "- 1 \<le> it_index it" "it_index it \<le> uint (tbl_size t)"
  shows "ok (hash_table_next t it) (\<lambda>(r, it'). r = (case to_visit t it of [] \<Rightarrow> None | e # _ \<Rightarrow> Some e) \<and>
    to_visit t it' = tl (to_visit t it) \<and> - 1 \<le> it_index it' \<and> (r \<noteq> None \<longrightarrow> it_index it' \<le> uint (tbl_size t)))"
  using idx
proof (induction "nat (2 * (uint (tbl_size t) - it_index it)) + (if it_entry it = [] then 0 else 1)" arbitrary: it rule: less_induct)
  case less
  show ?case
  proof (cases "it_entry it")
    case (Cons e es)
    show ?thesis
    proof (cases es)
      case Nil
      have eq: "hash_table_next t it = hash_table_next t (it\<lparr>it_entry := []\<rparr>)"
        by (subst hash_table_next.simps) (simp add: Cons Nil)
      have "to_visit t (it\<lparr>it_entry := []\<rparr>) = to_visit t it" by (simp add: to_visit_def Cons Nil cong: option.case_cong)
      then show ?thesis
        unfolding eq using less.hyps [of "it\<lparr>it_entry := []\<rparr>"] less.prems by (simp add: Cons)
    next
      case (Cons e' es')
      with \<open>it_entry it = e # es\<close> less.prems show ?thesis
        by (subst hash_table_next.simps) (simp add: to_visit_def cong: option.case_cong)
    qed
  next
    case Nil
    define i where "i = it_index it + 1"
    have i: "0 \<le> i" "i \<le> uint (tbl_size t) + 1" using less.prems by (simp_all add: i_def)
    then have ci: "cint i = Some i" using sz by (simp add: int_limits)
    have wi: "uint (word_of_int i :: 32 word) = i"
      using i sz by (simp add: uint_word_of_int)
    from inv show ?thesis
    proof (cases rule: hash_inv_cases)
      case 1
      then show ?thesis
        using Nil i ci wi by (subst hash_table_next.simps) (simp add: to_visit_def i_def [symmetric])
    next
      case (2 tab n)
      have l: "len tab = uint (tbl_size t)" using 2(2) by (simp add: placed_def)
      show ?thesis
      proof (cases "i < uint (tbl_size t)")
        case False
        then have "drop (nat i) tab = []" using l by simp
        with False Nil ci wi 2(1) i show ?thesis
          by (subst hash_table_next.simps) (auto simp: to_visit_def i_def [symmetric])
      next
        case True
        note d = drop_el [OF i(1), of tab]
        show ?thesis
        proof (cases "el tab i")
          case c: Nil
          have eq: "hash_table_next t it = hash_table_next t (it\<lparr>it_index := i, it_entry := []\<rparr>)"
            by (subst hash_table_next.simps) (use Nil ci wi 2(1) i True l c in \<open>simp add: i_def [symmetric] tbl_chains_def rd_in\<close>)
          have "to_visit t (it\<lparr>it_index := i, it_entry := []\<rparr>) = to_visit t it"
            using Nil 2(1) d True l c by (simp add: to_visit_def i_def [symmetric])
          then show ?thesis
            unfolding eq using less.hyps [of "it\<lparr>it_index := i, it_entry := []\<rparr>"] True i Nil by (simp add: i_def)
        next
          case (Cons e es)
          then show ?thesis
            using Nil ci wi 2(1) i True l d
            by (subst hash_table_next.simps) (simp add: to_visit_def i_def [symmetric] tbl_chains_def rd_in)
        qed
      qed
    qed
  qed
qed

text \<open>The loop \<open>en = hash_table_next(it); while (en) { ...; en = hash_table_next(it); }\<close>, for at most \<open>n\<close> entries.\<close>

fun visit_all :: "nat \<Rightarrow> ('k, 'v) hash_table \<Rightarrow> ('k, 'v) hash_table_iterator \<Rightarrow> ('k, 'v) table_entry list option" where
  "visit_all 0 t it = None"
| "visit_all (Suc n) t it = do {
     (en, it) \<leftarrow> hash_table_next t it;
     (case en of
       None \<Rightarrow> Some []
     | Some e \<Rightarrow> do { es \<leftarrow> visit_all n t it; Some (e # es) }) }"

lemma visit_all_ok:
  assumes "hash_inv t" "uint (tbl_size t) \<le> 2 ^ 30" "- 1 \<le> it_index it" "it_index it \<le> uint (tbl_size t)"
    and "length (to_visit t it) < n"
  shows "visit_all n t it = Some (to_visit t it)"
  using assms(3-5)
proof (induction n arbitrary: it)
  case (Suc n)
  obtain r it' where r: "hash_table_next t it = Some (r, it')" "r = (case to_visit t it of [] \<Rightarrow> None | e # _ \<Rightarrow> Some e)"
    "to_visit t it' = tl (to_visit t it)" "- 1 \<le> it_index it'" "r \<noteq> None \<longrightarrow> it_index it' \<le> uint (tbl_size t)"
    using next_ok [OF assms(1,2) Suc.prems(1,2)] by (auto elim: okE)
  then show ?case using Suc by (cases "to_visit t it") auto
qed simp

section \<open>The tables of functions obey the laws\<close>

lemma strcmp_eq: "length r = length l \<Longrightarrow> strcmp r l = 0 \<longleftrightarrow> r = l"
  by (induction r l rule: strcmp.induct) (auto simp: word_uint_eq_iff)

lemma StringCompare_eq: "StringCompare r l \<longleftrightarrow> r = l"
  by (auto simp: StringCompare_def strcmp_eq)

interpretation interger: hash_type "IntergeHashFunctions sdscopy"
  by unfold_locales (auto simp: IntergeHashFunctions_def IntergerCompare_def HashSetKey_def IntergerDump_def)

interpretation socket: hash_type SocketHashFunctions
  by unfold_locales (auto simp: SocketHashFunctions_def IntergerCompare_def HashSetKey_def IntergerDump_def)

interpretation cstr: hash_type StringHashFunctions
  by unfold_locales (auto simp: StringHashFunctions_def StringCompare_eq HashSetKey_def StringDump_def)

lemma sds_hash_type: "(\<And>s. sdscopy s = s) \<Longrightarrow> hash_type (SdsHashFunctions sdscopy)"
  by unfold_locales (auto simp: SdsHashFunctions_def StringCompare_eq HashSetKey_def SdsDump_def)

section \<open>Overwriting\<close>

definition stored_vals :: "('k, 'v) hash_table \<Rightarrow> 'v list" where
  "stored_vals t = map ent_val (case tbl_table t of None \<Rightarrow> [] | Some tab \<Rightarrow> concat tab)"

lemma mset_vals_chain_set:
  "chain_find cmp k es = Some e \<Longrightarrow>
    add_mset (ent_val e) (mset (map ent_val (chain_set cmp k v es))) = add_mset v (mset (map ent_val es))"
  by (induction es) (auto simp: add_mset_commute split: if_splits)

lemma add_mset_cancel:
  assumes "A + E = T + C" "add_mset w C = add_mset v E"
  shows "add_mset w A = add_mset v T"
proof -
  have "add_mset w A + E = T + add_mset w C" using assms(1) by simp
  also have "\<dots> = add_mset v T + E" using assms(2) by simp
  finally show ?thesis by simp
qed

context hash_type begin

text \<open>The value that is overwritten is neither in the table any more nor given to the destructor.\<close>

lemma overwrite_ok:
  assumes inv: "hash_inv t" and F: "tbl_fns t = F" and hit: "lookup t k = Some w"
  shows "ok (hash_table_insert mem1 mem2 t k v) (\<lambda>t'. freed_vals t' = freed_vals t \<and> hash_inv t' \<and> tbl_fns t' = F \<and>
    add_mset w (mset (stored_vals t')) = add_mset (HashSetValue F v) (mset (stored_vals t)))"
  using inv
proof (cases rule: hash_inv_cases)
  case 1
  with hit show ?thesis by (simp add: lookup_def)
next
  case (2 tab n)
  obtain r where r: "hash_table_find t k = Some r" "map_option ent_val r = lookup t k" using find_ok [OF inv F] by blast
  let ?i = "HashSlot F (tbl_size t) k"
  let ?c = "chain_set (comp_fn F) k (HashSetValue F v) (el tab ?i)"
  have p: "placed F (tbl_size t) tab" using 2(2) F by simp
  have i: "0 \<le> ?i" "?i < len tab" using placed_slot [OF p] by blast+
  have "HashSlot F (tbl_size t) (ent_key e) = ?i" if "e \<in> set ?c" for e
    using set_keys_chain_set [OF that] placed_key [OF p i] by auto
  then have q: "placed F (tbl_size t) (up tab ?i ?c)"
    using placed_unique [OF p i] by (intro placed_up [OF p i]) auto
  obtain e where e: "chain_find (comp_fn F) k (el tab ?i) = Some e" "ent_val e = w"
    using hit 2(1) F by (auto simp: lookup_def chain_find_slot [OF p])
  have "mset (map ent_val (concat (up tab ?i ?c))) + mset (map ent_val (el tab ?i)) =
    mset (map ent_val (concat tab)) + mset (map ent_val ?c)"
    using arg_cong [OF mset_concat_up [OF i, of ?c], of "image_mset ent_val"] by simp
  moreover have "add_mset w (mset (map ent_val ?c)) = add_mset (HashSetValue F v) (mset (map ent_val (el tab ?i)))"
    using mset_vals_chain_set [OF e(1), of "HashSetValue F v"] e(2) by simp
  ultimately have m: "add_mset w (mset (map ent_val (concat (up tab ?i ?c)))) = add_mset (HashSetValue F v) (mset (map ent_val (concat tab)))"
    by (rule add_mset_cancel)
  have l: "length (concat (up tab ?i ?c)) = length (concat tab)" using length_concat_up [OF i, of ?c] by simp
  let ?t = "t\<lparr>tbl_table := Some (up tab ?i ?c)\<rparr>"
  have "hash_table_insert mem1 mem2 t k v = Some ?t"
    using r hit 2(1) F i by (auto simp: hash_table_insert_def tbl_chains_def rd_in wr_in Let_def)
  moreover have "hash_inv ?t" using 2 q l F by (auto simp: hash_inv_def)
  ultimately show ?thesis using m 2(1) F by (simp add: stored_vals_def)
qed

end

text \<open>A loop one round of which is undefined, whatever the rounds before do.\<close>

lemma for_up_None:
  assumes "i \<le> j" "j < n" "f j s = None" "\<And>m. i \<le> m \<Longrightarrow> m < j \<Longrightarrow> f m s = Some s \<or> f m s = None"
  shows "for_up i n f s = None"
  using assms
proof (induction "nat (j - i)" arbitrary: i)
  case 0
  then have "i = j" by simp
  with 0 show ?case by (subst for_up.simps) simp
next
  case (Suc d)
  have "for_up (i + 1) n f s = None" by (rule Suc.hyps) (use Suc in auto)
  moreover have "i < n" "f i s = Some s \<or> f i s = None" using Suc.prems Suc.hyps(2) by auto
  ultimately show ?case by (subst for_up.simps) auto
qed

lemma rehash_none: "es \<noteq> [] \<Longrightarrow> rehash_chain f cap es [] = None"
  by (cases es) (auto simp: rd_def Let_def)

lemma growup_wraps:
  assumes "tbl_size t = 2147483648" "over_limit (tbl_use t) (tbl_size t)" "tbl_table t = Some tab"
    and "c \<in> set tab" "c \<noteq> []" "len tab = 2147483648"
  shows "hash_table_growup True t = None"
proof -
  obtain j where j: "0 \<le> j" "j < len tab" "c = el tab j" using assms(4) in_set_el [of c tab] by blast
  have two: "(4294967296 :: 32 word) = 0" by simp
  have "for_up 0 2147483648 (\<lambda>idx new. do { tab \<leftarrow> tbl_chains t; et \<leftarrow> rd tab idx; rehash_chain (tbl_fns t) 0 et new }) [] = None"
  proof (rule for_up_None [OF j(1)])
    show "do { tab \<leftarrow> tbl_chains t; et \<leftarrow> rd tab j; rehash_chain (tbl_fns t) 0 et [] } = None"
      using j assms rehash_none [of c] by (simp add: tbl_chains_def rd_in)
    fix m assume "0 \<le> m" "m < j"
    then show "do { tab \<leftarrow> tbl_chains t; et \<leftarrow> rd tab m; rehash_chain (tbl_fns t) 0 et [] } = Some [] \<or>
        do { tab \<leftarrow> tbl_chains t; et \<leftarrow> rd tab m; rehash_chain (tbl_fns t) 0 et [] } = None"
      using rehash_none [of "el tab m"] j assms(3) by (cases "el tab m = []") (simp_all add: tbl_chains_def rd_in)
  qed (use j assms in simp)
  then show ?thesis using assms by (simp add: hash_table_growup_def two)
qed

section \<open>Properties\<close>

text \<open>
  C4: with a lawful record of functions, inserting succeeds, keeps the representation
  invariant and updates the map: the key's value becomes the copy of the new one, the value
  of every other key is unchanged, through overwriting and rehashing alike; the number of
  entries is counted and the load stays at most 75 percent.
\<close>

theorem hash_table_insert_correct:
  assumes "hash_type (tbl_fns t)" "hash_inv t" "uint (tbl_use t) < 3 * 2 ^ 29"
  shows "\<exists>t'. hash_table_insert True True t k v = Some t' \<and> hash_inv t' \<and> tbl_fns t' = tbl_fns t \<and>
    (\<forall>k'. lookup t' k' = (if comp_fn (tbl_fns t) k' k then Some (HashSetValue (tbl_fns t) v) else lookup t k')) \<and>
    uint (tbl_use t') = uint (tbl_use t) + (if lookup t k = None then 1 else 0) \<and>
    (4 * uint (tbl_use t) \<le> 3 * uint (tbl_size t) \<longrightarrow> 4 * uint (tbl_use t') \<le> 3 * uint (tbl_size t'))"
  using hash_type.insert_ok [OF assms(1,2) refl assms(3), of k v] by (auto simp: ok_iff fun_eq_iff)

theorem hash_table_insert_correct_witness:
  "\<exists>t'. hash_table_insert True True (hash_table_construct StringHashFunctions) [104, 105] [49] = Some t' \<and> hash_inv t' \<and>
    lookup t' [104, 105] = Some [49] \<and> lookup t' [104] = None \<and> uint (tbl_use t') = 1"
  using hash_table_insert_correct [of "hash_table_construct StringHashFunctions" "[104, 105]" "[49]"]
    hash_inv_construct [of StringHashFunctions] cstr.hash_type_axioms
  by (auto simp: hash_table_construct_def StringHashFunctions_def StringCompare_eq HashSetValue_def StringDump_def)

text \<open>
  C12: \<open>hash_table_find\<close> on a table in the invariant is defined and returns an entry exactly
  when the map has a value for the key: an entry with an equal key and that value.
\<close>

theorem hash_table_find_correct:
  assumes "hash_type (tbl_fns t)" "hash_inv t"
  shows "\<exists>r. hash_table_find t k = Some r \<and> map_option ent_val r = lookup t k \<and>
    (\<forall>e. r = Some e \<longrightarrow> comp_fn (tbl_fns t) k (ent_key e))"
  using hash_type.find_ok [OF assms(1,2) refl] by blast

theorem hash_table_find_correct_witness:
  "\<exists>r. hash_table_find (hash_table_construct StringHashFunctions) [104] = Some r \<and> map_option ent_val r = None"
  using hash_table_find_correct [of "hash_table_construct StringHashFunctions" "[104]"]
    hash_inv_construct [of StringHashFunctions] cstr.hash_type_axioms
  by (auto simp: hash_table_construct_def)

text \<open>
  C10: deleting from a table that has been inserted into keeps the invariant and removes
  exactly the key from the map; the entry's value is given to the destructor if there is
  one, and a key that is not there changes nothing.
\<close>

theorem hash_table_del_correct:
  assumes "hash_type (tbl_fns t)" "hash_inv t" "tbl_table t \<noteq> None"
  shows "\<exists>t'. hash_table_del t k = Some t' \<and> hash_inv t' \<and>
    (\<forall>k'. lookup t' k' = (if comp_fn (tbl_fns t) k' k then None else lookup t k')) \<and>
    uint (tbl_use t') = uint (tbl_use t) - (if lookup t k = None then 0 else 1) \<and>
    freed_vals t' = freed_vals t @ (if free_val (tbl_fns t) then (case lookup t k of Some v \<Rightarrow> [v] | None \<Rightarrow> []) else [])"
  using hash_type.del_ok [OF assms(1,2) refl assms(3), of k] by (auto simp: ok_iff fun_eq_iff)

definition one_entry :: "(cstring, cstring) hash_table" where
  "one_entry = the (hash_table_insert True True (hash_table_construct StringHashFunctions) [104] [49])"

lemma one_entry_ok: "hash_inv one_entry \<and> tbl_fns one_entry = StringHashFunctions \<and> tbl_table one_entry \<noteq> None \<and>
  lookup one_entry [104] = Some [49]"
proof -
  have "ok (hash_table_insert True True (hash_table_construct StringHashFunctions) [104] [49])
      (\<lambda>t'. hash_inv t' \<and> tbl_fns t' = StringHashFunctions \<and> lookup t' [104] = Some [49])"
    by (rule ok_mono [OF cstr.insert_ok]) (use hash_inv_construct [of StringHashFunctions] in
        \<open>auto simp: hash_table_construct_def StringHashFunctions_def StringCompare_eq HashSetValue_def StringDump_def\<close>)
  then show ?thesis by (auto simp: one_entry_def ok_iff lookup_def split: option.splits)
qed

lemma one_entry_size: "tbl_size one_entry = 32"
proof -
  let ?t = "hash_table_construct StringHashFunctions"
  have g: "hash_table_growup True ?t = Some (?t\<lparr>tbl_table := Some (replicate 32 []), tbl_size := 32\<rparr>)"
    by (simp add: hash_table_growup_def hash_table_construct_def for_up_skip)
  have "ok (hash_table_insert True True ?t [104] [49]) (\<lambda>t'. tbl_size t' = 32)"
    using HashSlot_range [of "32 :: 32 word" StringHashFunctions "[104]"]
    unfolding hash_table_insert_def by (simp add: g wp Let_def hash_table_find_def)
      (simp add: hash_table_construct_def tbl_chains_def wp Let_def)
  then show ?thesis by (auto simp: one_entry_def ok_iff)
qed

theorem hash_table_del_correct_witness:
  "\<exists>t'. hash_table_del one_entry [104] = Some t' \<and> lookup t' [104] = None"
  using hash_table_del_correct [of one_entry "[104]"] one_entry_ok cstr.hash_type_axioms
  by (auto simp: StringHashFunctions_def StringCompare_eq)

text \<open>
  deleting from a table that has just been constructed reads through a null pointer: the
  mask \<open>size_ - 1\<close> wraps and \<open>table_\<close> is \<open>NULL\<close>.
\<close>

theorem hash_table_del_fresh_undefined:
  "hash_table_del (hash_table_construct f) k = None"
  by (simp add: hash_table_del_def hash_table_construct_def tbl_chains_def Let_def)

text \<open>
  a table of capacity \<open>2 ^ 31\<close> that is 75 percent full cannot grow: the doubled capacity
  wraps to 0, and the first entry is written outside the new, empty array.
\<close>

theorem hash_table_growup_wraps:
  assumes "tbl_size t = 2147483648" "over_limit (tbl_use t) (tbl_size t)" "tbl_table t = Some tab"
    and "c \<in> set tab" "c \<noteq> []" "len tab = 2147483648"
  shows "hash_table_growup True t = None"
  using assms by (rule growup_wraps)

theorem hash_table_growup_wraps_witness:
  "\<exists>t :: (32 word, unit) hash_table. hash_table_growup True t = None"
proof
  let ?tab = "replicate (nat 2147483648) [\<lparr>ent_key = 5, ent_val = ()\<rparr>]"
  let ?t = "\<lparr>tbl_table = Some ?tab, tbl_size = 2147483648, tbl_use = 2147483648,
    tbl_fns = SocketHashFunctions, freed_keys = [], freed_vals = []\<rparr>"
  show "hash_table_growup True ?t = None"
    by (rule hash_table_growup_wraps [where tab = ?tab and c = "[\<lparr>ent_key = 5, ent_val = ()\<rparr>]"])
      (simp_all add: over_limit_def)
qed

text \<open>
  \<open>hash_table_get_iterator\<close> never gives an iterator.  With one that a caller fills in itself, on a table in the
  invariant, calling \<open>hash_table_next\<close> until it returns \<open>NULL\<close> ends and visits every entry exactly once, slot by slot.
\<close>

definition start_iterator :: "('k, 'v) hash_table_iterator" where
  "start_iterator = \<lparr>it_entry = [], it_index = -1\<rparr>"

lemma hash_table_get_iterator_gives_none: "hash_table_get_iterator alloc \<noteq> Some (Some it)"
  by (simp add: hash_table_get_iterator_def)

lemma hash_table_iteration_complete:
  assumes "hash_inv t" "uint (tbl_size t) \<le> 2 ^ 30" "tbl_table t = Some tab" "length (concat tab) < n"
  shows "visit_all n t start_iterator = Some (concat tab)"
  using visit_all_ok [OF assms(1,2), of start_iterator n] assms(3,4)
    uint_ge_0 [of "tbl_size t"] by (simp add: start_iterator_def to_visit_def)

text \<open>
  inserting over an existing key loses the old value: it is not in the table any more,
  and clearing the table at the end gives to the destructor every other value, but not it.
\<close>

theorem hash_table_overwrite_leaks:
  assumes "hash_type (tbl_fns t)" "hash_inv t" "free_val (tbl_fns t)" "lookup t k = Some w"
  shows "\<exists>t' fk fv. hash_table_insert True True t k v = Some t' \<and> hash_table_clear t' = Some (fk, fv) \<and>
    add_mset w (mset fv) = add_mset (HashSetValue (tbl_fns t) v) (mset (freed_vals t) + mset (stored_vals t))"
proof -
  obtain t' where t': "hash_table_insert True True t k v = Some t'" "freed_vals t' = freed_vals t" "hash_inv t'" "tbl_fns t' = tbl_fns t"
    "add_mset w (mset (stored_vals t')) = add_mset (HashSetValue (tbl_fns t) v) (mset (stored_vals t))"
    using hash_type.overwrite_ok [OF assms(1,2) refl assms(4), of True True v] by (auto elim: okE)
  then show ?thesis
    using clear_ok [OF t'(3)] assms(3) by (simp add: stored_vals_def)
qed

theorem hash_table_overwrite_leaks_witness:
  "\<exists>t' fk fv. hash_table_insert True True one_entry [104] [50] = Some t' \<and> hash_table_clear t' = Some (fk, fv) \<and>
    add_mset [49] (mset fv) = add_mset [50] (mset (freed_vals one_entry) + mset (stored_vals one_entry))"
  using hash_table_overwrite_leaks [of one_entry "[104]" "[49]" "[50]"] one_entry_ok cstr.hash_type_axioms
  by (simp add: StringHashFunctions_def HashSetValue_def StringDump_def)

end
