(* ===== verification/AMQP_Base.thy ===== *)
theory AMQP_Base
  imports Prelude
begin

text \<open>
  The ground of the AMQP client (\<open>src/rabbitMQ_C\<close>): byte strings, status codes, and the
  big-endian integer codecs of \<open>amqp_private.h\<close>.  A byte string (\<open>amqp_bytes_t\<close>) is the list
  of its bytes; the buffer \<open>encoded\<close> a codec works on is a list too, and the offset into it a
  \<open>nat\<close> (an offset past the end of an object that exists cannot wrap a \<open>size_t\<close>).  A primitive
  codec, which returns 1 or 0, is an option; a function that returns a status is a sum, \<open>Inl\<close>
  an error status.
\<close>

unbundle bit_operations_syntax

type_synonym byte = "8 word"
type_synonym bytes = "8 word list"

section \<open>Status codes\<close>

text \<open>
  The statuses of the library, and two outcomes that are none of them: \<open>STATUS_OTHER n\<close> is a negative number that a
  caller takes for a status (a size cast to \<open>int\<close>), \<open>UNDEFINED\<close> stands for a call without a defined
  result, because an \<open>int\<close> overflows.
\<close>

datatype amqp_status =
    STATUS_NO_MEMORY
  | STATUS_BAD_AMQP_DATA
  | STATUS_UNKNOWN_CLASS
  | STATUS_UNKNOWN_METHOD
  | STATUS_HOSTNAME_RESOLUTION_FAILED
  | STATUS_INCOMPATIBLE_AMQP_VERSION
  | STATUS_CONNECTION_CLOSED
  | STATUS_BAD_URL
  | STATUS_SOCKET_ERROR
  | STATUS_INVALID_PARAMETER
  | STATUS_TABLE_TOO_BIG
  | STATUS_WRONG_METHOD
  | STATUS_TIMEOUT
  | STATUS_TIMER_FAILURE
  | STATUS_HEARTBEAT_TIMEOUT
  | STATUS_UNEXPECTED_STATE
  | STATUS_SOCKET_CLOSED
  | STATUS_SOCKET_INUSE
  | STATUS_BROKER_UNSUPPORTED_SASL_METHOD
  | STATUS_UNSUPPORTED
  | STATUS_TCP_ERROR
  | STATUS_TCP_SOCKETLIB_INIT_ERROR
  | STATUS_SSL_ERROR
  | STATUS_SSL_HOSTNAME_VERIFY_FAILED
  | STATUS_SSL_PEER_VERIFY_FAILED
  | STATUS_SSL_CONNECTION_FAILED
  | STATUS_OTHER int
  | UNDEFINED

type_synonym 'a result = "amqp_status + 'a"

section \<open>Integers in memory\<close>

lemma unat_word_of_nat: "n < 2 ^ LENGTH('a) \<Longrightarrow> unat (word_of_nat n :: 'a::len word) = n"
  by (simp add: unat_of_nat)

text \<open>
  \<open>store big n w\<close> is the memory a \<open>memcpy\<close> from the \<open>n\<close>-byte integer \<open>w\<close> leaves, \<open>load\<close> the
  integer a \<open>memcpy\<close> into one gives, on a host of either byte order.
\<close>

definition big_endian :: "nat \<Rightarrow> 'a::len word \<Rightarrow> bytes" where
  "big_endian n w = map (\<lambda>i. ucast (drop_bit (8 * i) w)) (rev [0..<n])"

definition of_big_endian :: "bytes \<Rightarrow> 'a::len word" where
  "of_big_endian bs = foldl (\<lambda>acc b. push_bit 8 acc OR ucast b) 0 bs"

definition store :: "bool \<Rightarrow> nat \<Rightarrow> 'a::len word \<Rightarrow> bytes" where
  "store big n w = (if big then big_endian n w else rev (big_endian n w))"

definition load :: "bool \<Rightarrow> bytes \<Rightarrow> 'a::len word" where
  "load big bs = of_big_endian (if big then bs else rev bs)"

definition swap_16 :: "16 word \<Rightarrow> 16 word" where
  "swap_16 v = drop_bit 8 (v AND 0xFF00) OR push_bit 8 (v AND 0x00FF)"

definition swap_32 :: "32 word \<Rightarrow> 32 word" where
  "swap_32 v = drop_bit 24 (v AND 0xFF000000) OR drop_bit 8 (v AND 0x00FF0000) OR
     push_bit 8 (v AND 0x0000FF00) OR push_bit 24 (v AND 0x000000FF)"

definition swap_64 :: "64 word \<Rightarrow> 64 word" where
  "swap_64 v = drop_bit 56 (v AND 0xFF00000000000000) OR drop_bit 40 (v AND 0x00FF000000000000) OR
     drop_bit 24 (v AND 0x0000FF0000000000) OR drop_bit 8 (v AND 0x000000FF00000000) OR
     push_bit 8 (v AND 0x00000000FF000000) OR push_bit 24 (v AND 0x0000000000FF0000) OR
     push_bit 40 (v AND 0x000000000000FF00) OR push_bit 56 (v AND 0x00000000000000FF)"

text \<open>
  \<open>amqp_e8\<close> \dots \<open>amqp_e64\<close> and \<open>amqp_d8\<close> \dots \<open>amqp_d64\<close>; \<open>big\<close> is what \<open>is_bigendian\<close> returns.
\<close>

definition amqp_e8 :: "8 word \<Rightarrow> bytes" where
  "amqp_e8 v = [v]"

definition amqp_d8 :: "bytes \<Rightarrow> 8 word" where
  "amqp_d8 bs = bs ! 0"

definition amqp_e16 :: "bool \<Rightarrow> 16 word \<Rightarrow> bytes" where
  "amqp_e16 big v = store big 2 (if \<not> big then swap_16 v else v)"

definition amqp_d16 :: "bool \<Rightarrow> bytes \<Rightarrow> 16 word" where
  "amqp_d16 big bs = (let v = load big bs in if \<not> big then swap_16 v else v)"

definition amqp_e32 :: "bool \<Rightarrow> 32 word \<Rightarrow> bytes" where
  "amqp_e32 big v = store big 4 (if \<not> big then swap_32 v else v)"

definition amqp_d32 :: "bool \<Rightarrow> bytes \<Rightarrow> 32 word" where
  "amqp_d32 big bs = (let v = load big bs in if \<not> big then swap_32 v else v)"

definition amqp_e64 :: "bool \<Rightarrow> 64 word \<Rightarrow> bytes" where
  "amqp_e64 big v = store big 8 (if \<not> big then swap_64 v else v)"

definition amqp_d64 :: "bool \<Rightarrow> bytes \<Rightarrow> 64 word" where
  "amqp_d64 big bs = (let v = load big bs in if \<not> big then swap_64 v else v)"

lemma big_endian_2: "big_endian 2 v = [ucast (drop_bit 8 v), ucast v]"
  by (simp add: big_endian_def upt_rec)

lemma big_endian_4:
  "big_endian 4 v = [ucast (drop_bit 24 v), ucast (drop_bit 16 v), ucast (drop_bit 8 v), ucast v]"
  by (simp add: big_endian_def upt_rec)

lemma big_endian_8:
  "big_endian 8 v = [ucast (drop_bit 56 v), ucast (drop_bit 48 v), ucast (drop_bit 40 v),
     ucast (drop_bit 32 v), ucast (drop_bit 24 v), ucast (drop_bit 16 v), ucast (drop_bit 8 v), ucast v]"
  by (simp add: big_endian_def upt_rec)

lemma length_big_endian [simp]: "length (big_endian n v) = n"
  by (simp add: big_endian_def)

lemma byte_masks_16:
  "(0xFF00 :: 16 word) = push_bit 8 (mask 8)" "(0x00FF :: 16 word) = mask 8"
  by (simp_all add: mask_eq_exp_minus_1 push_bit_eq_mult)

lemma byte_masks_32:
  "(0xFF000000 :: 32 word) = push_bit 24 (mask 8)" "(0x00FF0000 :: 32 word) = push_bit 16 (mask 8)"
  "(0x0000FF00 :: 32 word) = push_bit 8 (mask 8)" "(0x000000FF :: 32 word) = mask 8"
  by (simp_all add: mask_eq_exp_minus_1 push_bit_eq_mult)

lemma byte_masks_64:
  "(0xFF00000000000000 :: 64 word) = push_bit 56 (mask 8)"
  "(0x00FF000000000000 :: 64 word) = push_bit 48 (mask 8)"
  "(0x0000FF0000000000 :: 64 word) = push_bit 40 (mask 8)"
  "(0x000000FF00000000 :: 64 word) = push_bit 32 (mask 8)"
  "(0x00000000FF000000 :: 64 word) = push_bit 24 (mask 8)"
  "(0x0000000000FF0000 :: 64 word) = push_bit 16 (mask 8)"
  "(0x000000000000FF00 :: 64 word) = push_bit 8 (mask 8)"
  "(0x00000000000000FF :: 64 word) = mask 8"
  by (simp_all add: mask_eq_exp_minus_1 push_bit_eq_mult)

lemma rev_swap_16: "rev (big_endian 2 (swap_16 v)) = big_endian 2 v"
  unfolding big_endian_2 swap_16_def byte_masks_16
  by (simp, intro conjI; intro bit_word_eqI) (auto simp: bit_simps)

lemma rev_swap_32: "rev (big_endian 4 (swap_32 v)) = big_endian 4 v"
  unfolding big_endian_4 swap_32_def byte_masks_32
  by (simp, intro conjI; intro bit_word_eqI) (auto simp: bit_simps)

lemma rev_swap_64: "rev (big_endian 8 (swap_64 v)) = big_endian 8 v"
  unfolding big_endian_8 swap_64_def byte_masks_64
  by (simp, intro conjI; intro bit_word_eqI) (auto simp: bit_simps)

lemma next_byte: "push_bit 8 (drop_bit (8 + m) v) OR ucast (ucast (drop_bit m v) :: byte) = drop_bit m v"
  for v :: "'a::len word"
proof (rule bit_word_eqI)
  fix n assume "n < LENGTH('a)"
  then show "bit (push_bit 8 (drop_bit (8 + m) v) OR ucast (ucast (drop_bit m v) :: byte)) n = bit (drop_bit m v) n"
    by (cases "n < 8") (auto simp: bit_simps add.commute add.left_commute dest: bit_imp_le_length)
qed

lemma first_byte: "LENGTH('a) \<le> 8 + m \<Longrightarrow> ucast (ucast (drop_bit m v) :: byte) = drop_bit m v"
  for v :: "'a::len word"
  by (rule bit_word_eqI) (auto simp: bit_simps dest: bit_imp_le_length)

lemma of_big_endian_16 [simp]: "of_big_endian (big_endian 2 v) = (v :: 16 word)"
  using next_byte [of 0 v] first_byte [of 8 v]
  by (simp add: big_endian_2 of_big_endian_def)

lemma of_big_endian_32 [simp]: "of_big_endian (big_endian 4 v) = (v :: 32 word)"
  using next_byte [of 0 v] next_byte [of 8 v] next_byte [of 16 v] first_byte [of 24 v]
  by (simp add: big_endian_4 of_big_endian_def)

lemma of_big_endian_64 [simp]: "of_big_endian (big_endian 8 v) = (v :: 64 word)"
  using next_byte [of 0 v] next_byte [of 8 v] next_byte [of 16 v] next_byte [of 24 v]
    next_byte [of 32 v] next_byte [of 40 v] next_byte [of 48 v] first_byte [of 56 v]
  by (simp add: big_endian_8 of_big_endian_def)

text \<open>
  On either host the bytes stored are those of the big-endian representation, and loading them
  gives the value back.
\<close>

lemma amqp_e16_eq: "amqp_e16 big v = big_endian 2 v"
  by (simp add: amqp_e16_def store_def rev_swap_16)

lemma amqp_e32_eq: "amqp_e32 big v = big_endian 4 v"
  by (simp add: amqp_e32_def store_def rev_swap_32)

lemma amqp_e64_eq: "amqp_e64 big v = big_endian 8 v"
  by (simp add: amqp_e64_def store_def rev_swap_64)

lemma swap_eq_load:
  "swap_16 v = of_big_endian (rev (big_endian 2 v))"
  "swap_32 w = of_big_endian (rev (big_endian 4 w))"
  "swap_64 x = of_big_endian (rev (big_endian 8 x))"
  by (metis rev_swap_16 rev_swap_32 rev_swap_64 rev_rev_ident of_big_endian_16 of_big_endian_32
      of_big_endian_64)+

lemma amqp_d16_big_endian [simp]: "amqp_d16 big (big_endian 2 v) = v"
  by (simp add: amqp_d16_def load_def swap_eq_load(1) [symmetric])
    (metis rev_swap_16 of_big_endian_16 rev_rev_ident swap_eq_load(1))

lemma amqp_d32_big_endian [simp]: "amqp_d32 big (big_endian 4 v) = v"
  by (simp add: amqp_d32_def load_def swap_eq_load(2) [symmetric])
    (metis rev_swap_32 of_big_endian_32 rev_rev_ident swap_eq_load(2))

lemma amqp_d64_big_endian [simp]: "amqp_d64 big (big_endian 8 v) = v"
  by (simp add: amqp_d64_def load_def swap_eq_load(3) [symmetric])
    (metis rev_swap_64 of_big_endian_64 rev_rev_ident swap_eq_load(3))

section \<open>The codecs of the simple types\<close>

text \<open>
  \<open>DECLARE_CODEC_BASE_TYPE\<close> and the byte string codecs.  The offset is read and advanced; where
  a codec fails the advanced offset is not looked at again by any caller, so that \<open>None\<close> carries
  nothing.  \<open>is_bigendian\<close> is the answer on the x86-64 host; by \<open>amqp_e16_eq\<close> and its
  companions no byte depends on it.
\<close>

definition is_bigendian :: bool where
  "is_bigendian = False"

definition patch :: "bytes \<Rightarrow> nat \<Rightarrow> bytes \<Rightarrow> bytes" where
  "patch encoded off s = take off encoded @ s @ drop (off + length s) encoded"

definition amqp_encode_8 :: "8 word \<Rightarrow> bytes \<Rightarrow> nat \<Rightarrow> (bytes \<times> nat) option" where
  "amqp_encode_8 input encoded off =
     (if off + 1 \<le> length encoded then Some (patch encoded off (amqp_e8 input), off + 1) else None)"

definition amqp_encode_16 :: "16 word \<Rightarrow> bytes \<Rightarrow> nat \<Rightarrow> (bytes \<times> nat) option" where
  "amqp_encode_16 input encoded off =
     (if off + 2 \<le> length encoded then Some (patch encoded off (amqp_e16 is_bigendian input), off + 2) else None)"

definition amqp_encode_32 :: "32 word \<Rightarrow> bytes \<Rightarrow> nat \<Rightarrow> (bytes \<times> nat) option" where
  "amqp_encode_32 input encoded off =
     (if off + 4 \<le> length encoded then Some (patch encoded off (amqp_e32 is_bigendian input), off + 4) else None)"

definition amqp_encode_64 :: "64 word \<Rightarrow> bytes \<Rightarrow> nat \<Rightarrow> (bytes \<times> nat) option" where
  "amqp_encode_64 input encoded off =
     (if off + 8 \<le> length encoded then Some (patch encoded off (amqp_e64 is_bigendian input), off + 8) else None)"

definition amqp_decode_8 :: "bytes \<Rightarrow> nat \<Rightarrow> (8 word \<times> nat) option" where
  "amqp_decode_8 encoded off =
     (if off + 1 \<le> length encoded then Some (amqp_d8 (take 1 (drop off encoded)), off + 1) else None)"

definition amqp_decode_16 :: "bytes \<Rightarrow> nat \<Rightarrow> (16 word \<times> nat) option" where
  "amqp_decode_16 encoded off =
     (if off + 2 \<le> length encoded then Some (amqp_d16 is_bigendian (take 2 (drop off encoded)), off + 2) else None)"

definition amqp_decode_32 :: "bytes \<Rightarrow> nat \<Rightarrow> (32 word \<times> nat) option" where
  "amqp_decode_32 encoded off =
     (if off + 4 \<le> length encoded then Some (amqp_d32 is_bigendian (take 4 (drop off encoded)), off + 4) else None)"

definition amqp_decode_64 :: "bytes \<Rightarrow> nat \<Rightarrow> (64 word \<times> nat) option" where
  "amqp_decode_64 encoded off =
     (if off + 8 \<le> length encoded then Some (amqp_d64 is_bigendian (take 8 (drop off encoded)), off + 8) else None)"

definition amqp_encode_bytes :: "bytes \<Rightarrow> bytes \<Rightarrow> nat \<Rightarrow> (bytes \<times> nat) option" where
  "amqp_encode_bytes input encoded off =
     (if length input = 0 then Some (encoded, off)
      else if off + length input \<le> length encoded
      then Some (patch encoded off input, off + length input) else None)"

definition amqp_decode_bytes :: "nat \<Rightarrow> bytes \<Rightarrow> nat \<Rightarrow> (bytes \<times> nat) option" where
  "amqp_decode_bytes n encoded off =
     (if off + n \<le> length encoded then Some (take n (drop off encoded), off + n) else None)"

lemmas decode_prims = amqp_decode_8_def amqp_decode_16_def amqp_decode_32_def amqp_decode_64_def
  amqp_decode_bytes_def

lemma decode_prims_bounds:
  "amqp_decode_8 e off = Some (a, off') \<Longrightarrow> off' = off + 1 \<and> off' \<le> length e"
  "amqp_decode_16 e off = Some (b, off') \<Longrightarrow> off' = off + 2 \<and> off' \<le> length e"
  "amqp_decode_32 e off = Some (c, off') \<Longrightarrow> off' = off + 4 \<and> off' \<le> length e"
  "amqp_decode_64 e off = Some (d, off') \<Longrightarrow> off' = off + 8 \<and> off' \<le> length e"
  "amqp_decode_bytes n e off = Some (s, off') \<Longrightarrow> off' = off + n \<and> off' \<le> length e \<and> length s = n"
  by (auto simp: decode_prims split: if_splits)

section \<open>Encoders and what they emit\<close>

text \<open>
  The encoders of whole methods and properties return the offset they end at as an \<open>int\<close>: a cast of a \<open>size_t\<close>,
  which keeps the low 32 bits and is faithful below \<open>2 ^ 31\<close> only.
\<close>

definition int_of_size_t :: "nat \<Rightarrow> int" where
  "int_of_size_t n = sint (word_of_nat n :: 32 word)"

lemma int_of_size_t_small [simp]: "n < 2 ^ 31 \<Longrightarrow> int_of_size_t n = int n"
  unfolding int_of_size_t_def by (rule sint_word_of_nat)

lemma int_of_size_t_exact: "int_of_size_t n = int n \<longleftrightarrow> n < 2 ^ 31"
proof
  have "int_of_size_t n < 2 ^ (LENGTH(32) - 1)" unfolding int_of_size_t_def by (rule sint_lt)
  moreover assume "int_of_size_t n = int n"
  ultimately show "n < 2 ^ 31" by simp
qed simp

definition return_offset :: "(bytes \<times> nat) result \<Rightarrow> (bytes \<times> int) result" where
  "return_offset r = (case r of Inl st \<Rightarrow> Inl st | Inr (encoded, offset) \<Rightarrow> Inr (encoded, int_of_size_t offset))"

lemma return_offset_Inr: "return_offset r = Inr (e, n) \<longleftrightarrow> (\<exists>off. r = Inr (e, off) \<and> n = int_of_size_t off)"
  by (auto simp: return_offset_def split: sum.splits)

lemma return_offset_simps [simp]:
  "return_offset (Inl st) = Inl st" "return_offset (Inr (e, off)) = Inr (e, int_of_size_t off)"
  by (simp_all add: return_offset_def)

text \<open>
  An encoder takes the buffer and an offset.  \<open>puts\<close> runs encoders in order and stops at the
  first error status, \<open>put st p\<close> is \<open>if (!p) return st\<close>.  \<open>emits e s\<close> is the contract of an
  encoder: it writes exactly the bytes \<open>s\<close>, moves the offset past them, and fails exactly when they
  do not fit.
\<close>

type_synonym encoder = "bytes \<Rightarrow> nat \<Rightarrow> (bytes \<times> nat) result"

definition put :: "amqp_status \<Rightarrow> (bytes \<Rightarrow> nat \<Rightarrow> (bytes \<times> nat) option) \<Rightarrow> encoder" where
  "put st p encoded off = (case p encoded off of None \<Rightarrow> Inl st | Some r \<Rightarrow> Inr r)"

primrec puts :: "encoder list \<Rightarrow> encoder" where
  "puts [] encoded off = Inr (encoded, off)"
| "puts (e # es) encoded off =
     (case e encoded off of Inl st \<Rightarrow> Inl st | Inr (encoded', off') \<Rightarrow> puts es encoded' off')"

definition emits :: "encoder \<Rightarrow> bytes \<Rightarrow> bool" where
  "emits e s = (\<forall>encoded off.
     if s = [] \<or> off + length s \<le> length encoded
     then e encoded off = Inr (patch encoded off s, off + length s)
     else \<exists>st. e encoded off = Inl st)"

named_theorems emits_intros "what the encoders emit"

lemma length_patch [simp]: "off + length s \<le> length encoded \<Longrightarrow> length (patch encoded off s) = length encoded"
  by (simp add: patch_def)

lemma patch_Nil [simp]: "patch encoded off [] = encoded"
  by (simp add: patch_def)

lemma patch_patch: "off + length s + length t \<le> length encoded \<Longrightarrow>
    patch (patch encoded off s) (off + length s) t = patch encoded off (s @ t)"
  by (simp add: patch_def add.assoc add.commute [of "length t"])

lemma emitsD:
  "emits e s \<Longrightarrow> off + length s \<le> length encoded \<Longrightarrow> e encoded off = Inr (patch encoded off s, off + length s)"
  by (simp add: emits_def)

lemma emits_result: "emits e s \<Longrightarrow> e encoded off = Inr r \<Longrightarrow>
    r = (patch encoded off s, off + length s) \<and> (s = [] \<or> off + length s \<le> length encoded)"
  unfolding emits_def by (metis Inl_Inr_False sum.inject(2))

lemma emits_fails:
  "emits e s \<Longrightarrow> s \<noteq> [] \<Longrightarrow> length encoded < off + length s \<Longrightarrow> \<exists>st. e encoded off = Inl st"
  unfolding emits_def by (metis linorder_not_less)

lemma emits_Nil [emits_intros]: "emits (puts []) []"
  by (simp add: emits_def)

lemma emits_Cons [emits_intros]: "emits e s \<Longrightarrow> emits (puts es) t \<Longrightarrow> emits (puts (e # es)) (s @ t)"
  unfolding emits_def [of "puts (e # es)"]
proof (intro allI, goal_cases)
  case (1 encoded off)
  note e = \<open>emits e s\<close> \<open>emits (puts es) t\<close>
  show ?case
  proof (cases "s = [] \<or> off + length s \<le> length encoded")
    case True
    with e(1) have "e encoded off = Inr (patch encoded off s, off + length s)"
      by (simp add: emits_def)
    then have *: "puts (e # es) encoded off = puts es (patch encoded off s) (off + length s)"
      by simp
    show ?thesis
    proof (cases "s = []")
      case True
      with * e(2) show ?thesis by (simp add: emits_def)
    next
      case False
      with True have l: "off + length s \<le> length encoded" by simp
      then have "length (patch encoded off s) = length encoded" by simp
      with * False l e(2) spec [OF spec [OF e(2) [unfolded emits_def], of "patch encoded off s"], of "off + length s"]
      show ?thesis by (auto simp: patch_patch add.assoc split: if_splits)
    qed
  next
    case False
    with e(1) show ?thesis by (auto dest!: emits_fails [of _ _ encoded off])
  qed
qed

lemma emits_put:
  assumes "\<And>encoded off. p encoded off =
      (if off + length s \<le> length encoded then Some (patch encoded off s, off + length s) else None)"
    and "s \<noteq> []"
  shows "emits (put st p) s"
  using assms by (simp add: emits_def put_def)

lemma emits_8 [emits_intros]: "emits (put st (amqp_encode_8 v)) [v]"
  by (rule emits_put) (simp_all add: amqp_encode_8_def amqp_e8_def)

lemma emits_16 [emits_intros]: "emits (put st (amqp_encode_16 v)) (big_endian 2 v)"
  by (rule emits_put) (simp_all add: amqp_encode_16_def amqp_e16_eq big_endian_2)

lemma emits_32 [emits_intros]: "emits (put st (amqp_encode_32 v)) (big_endian 4 v)"
  by (rule emits_put) (simp_all add: amqp_encode_32_def amqp_e32_eq big_endian_4)

lemma emits_64 [emits_intros]: "emits (put st (amqp_encode_64 v)) (big_endian 8 v)"
  by (rule emits_put) (simp_all add: amqp_encode_64_def amqp_e64_eq big_endian_8)

lemma emits_bytes [emits_intros]: "emits (put st (amqp_encode_bytes s)) s"
  by (simp add: emits_def put_def amqp_encode_bytes_def)

section \<open>Decoders and what they read\<close>

text \<open>
  \<open>stands s encoded off\<close>: the bytes \<open>s\<close> stand in the buffer at \<open>off\<close>.  \<open>reads d s x\<close>: wherever
  they do, the decoder \<open>d\<close> started there returns \<open>x\<close> and the offset after them.
\<close>

definition stands :: "bytes \<Rightarrow> bytes \<Rightarrow> nat \<Rightarrow> bool" where
  "stands s encoded off \<longleftrightarrow> off + length s \<le> length encoded \<and> take (length s) (drop off encoded) = s"

lemma stands_Nil [simp]: "stands [] encoded off \<longleftrightarrow> off \<le> length encoded"
  by (simp add: stands_def)

lemma stands_append: "stands (s @ t) encoded off \<longleftrightarrow> stands s encoded off \<and> stands t encoded (off + length s)"
proof (cases "off + length s + length t \<le> length encoded")
  case True
  then show ?thesis
    by (auto simp: stands_def take_add append_eq_append_conv add.commute)
next
  case False
  then show ?thesis by (auto simp: stands_def)
qed

lemma stands_Cons: "stands (b # t) encoded off \<longleftrightarrow> stands [b] encoded off \<and> stands t encoded (off + 1)"
  using stands_append [of "[b]" t] by simp

lemma stands_patch: "off + length s \<le> length encoded \<Longrightarrow> stands s (patch encoded off s) off"
  by (simp add: stands_def patch_def)

lemma stands_patch_before: "stands s encoded off \<Longrightarrow> off + length s \<le> o2 \<Longrightarrow> o2 \<le> length encoded \<Longrightarrow>
    stands s (patch encoded o2 t) off"
  by (auto simp: stands_def patch_def drop_take min_def)

definition reads :: "(bytes \<Rightarrow> nat \<Rightarrow> ('a \<times> nat) option) \<Rightarrow> bytes \<Rightarrow> 'a \<Rightarrow> bool" where
  "reads d s x = (\<forall>encoded off. stands s encoded off \<longrightarrow> d encoded off = Some (x, off + length s))"

lemma reads_prims:
  "reads amqp_decode_8 [a] a"
  "reads amqp_decode_16 (big_endian 2 b) b"
  "reads amqp_decode_32 (big_endian 4 c) c"
  "reads amqp_decode_64 (big_endian 8 d) d"
  "reads (amqp_decode_bytes (length s)) s s"
  by (simp_all add: reads_def stands_def decode_prims amqp_d8_def)

lemma stands_decode:
  "stands [a] encoded off \<Longrightarrow> amqp_decode_8 encoded off = Some (a, off + 1)"
  "stands (big_endian 2 b) encoded off \<Longrightarrow> amqp_decode_16 encoded off = Some (b, off + 2)"
  "stands (big_endian 4 c) encoded off \<Longrightarrow> amqp_decode_32 encoded off = Some (c, off + 4)"
  "stands (big_endian 8 d) encoded off \<Longrightarrow> amqp_decode_64 encoded off = Some (d, off + 8)"
  "stands s encoded off \<Longrightarrow> amqp_decode_bytes (length s) encoded off = Some (s, off + length s)"
  using reads_prims unfolding reads_def by (metis length_big_endian list.size(3,4) One_nat_def add.commute add_0 plus_1_eq_Suc)+

end
