(* ===== verification/AMQP_Pool.thy ===== *)
theory AMQP_Pool
  imports AMQP_Base
begin

text \<open>
  The memory pools of the AMQP client (\<open>amqp_mem.c\<close>): the bump allocator with its pages and
  large blocks, recycling and emptying, and the hash table of the pools of the channels.

  The heap gives every block \<open>calloc\<close> returns an identity of its own and remembers the size of
  the live ones; a pointer is a block and an offset.  \<open>alloc n\<close> says whether a request of \<open>n\<close>
  bytes is granted.  The small arrays that list the blocks are lists.
\<close>

section \<open>The heap\<close>

record heap =
  next_block :: nat
  live :: "nat \<Rightarrow> nat option"

type_synonym pointer = "nat \<times> nat"

definition calloc :: "(nat \<Rightarrow> bool) \<Rightarrow> nat \<Rightarrow> heap \<Rightarrow> nat option \<times> heap" where
  "calloc alloc n h = (if alloc n
     then (Some (next_block h), h\<lparr>next_block := next_block h + 1, live := (live h)(next_block h \<mapsto> n)\<rparr>)
     else (None, h))"

definition free :: "nat \<Rightarrow> heap \<Rightarrow> heap" where
  "free b h = h\<lparr>live := (live h)(b := None)\<rparr>"

section \<open>Pools\<close>

record amqp_pool =
  pagesize :: nat
  pages :: "nat list"
  large_blocks :: "nat list"
  next_page :: nat
  alloc_block :: "nat option"
  alloc_used :: nat

definition init_amqp_pool :: "nat \<Rightarrow> amqp_pool" where
  "init_amqp_pool n = \<lparr>pagesize = (if n \<noteq> 0 then n else 4096), pages = [], large_blocks = [],
     next_page = 0, alloc_block = None, alloc_used = 0\<rparr>"

definition empty_blocklist :: "nat list \<Rightarrow> heap \<Rightarrow> heap" where
  "empty_blocklist x h = fold free x h"

definition recycle_amqp_pool :: "heap \<times> amqp_pool \<Rightarrow> heap \<times> amqp_pool" where
  "recycle_amqp_pool = (\<lambda>(h, pool). (empty_blocklist (large_blocks pool) h,
     pool\<lparr>large_blocks := [], next_page := 0, alloc_block := None, alloc_used := 0\<rparr>))"

definition empty_amqp_pool :: "heap \<times> amqp_pool \<Rightarrow> heap \<times> amqp_pool" where
  "empty_amqp_pool hp = (case recycle_amqp_pool hp of
     (h, pool) \<Rightarrow> (empty_blocklist (pages pool) h, pool\<lparr>pages := []\<rparr>))"

text \<open>The list of blocks grows by one pointer; \<open>None\<close> when that cannot be allocated.\<close>

definition record_pool_block :: "(nat \<Rightarrow> bool) \<Rightarrow> nat list \<Rightarrow> nat \<Rightarrow> nat list option" where
  "record_pool_block alloc x block = (if alloc (8 * (length x + 1)) then Some (x @ [block]) else None)"

definition round_up_8 :: "nat \<Rightarrow> nat" where
  "round_up_8 amount = unat ((word_of_nat amount + 7 :: 64 word) AND NOT 7)"

definition amqp_pool_alloc ::
    "(nat \<Rightarrow> bool) \<Rightarrow> nat \<Rightarrow> heap \<times> amqp_pool \<Rightarrow> pointer option \<times> heap \<times> amqp_pool" where
  "amqp_pool_alloc alloc amount0 = (\<lambda>(h, pool).
     if amount0 = 0 then (None, h, pool)
     else
       let amount = round_up_8 amount0 in
       if amount > pagesize pool then
         (case calloc alloc amount h of
            (None, h') \<Rightarrow> (None, h', pool)
          | (Some result, h') \<Rightarrow>
              (case record_pool_block alloc (large_blocks pool) result of
                 None \<Rightarrow> (None, free result h', pool)
               | Some x \<Rightarrow> (Some (result, 0), h', pool\<lparr>large_blocks := x\<rparr>)))
       else if alloc_block pool \<noteq> None \<and> alloc_used pool + amount \<le> pagesize pool then
         (Some (the (alloc_block pool), alloc_used pool), h, pool\<lparr>alloc_used := alloc_used pool + amount\<rparr>)
       else if next_page pool \<ge> length (pages pool) then
         (case calloc alloc (pagesize pool) h of
            (None, h') \<Rightarrow> (None, h', pool\<lparr>alloc_block := None\<rparr>)
          | (Some block, h') \<Rightarrow>
              (case record_pool_block alloc (pages pool) block of
                 None \<Rightarrow> (None, h', pool\<lparr>alloc_block := Some block\<rparr>)
               | Some x \<Rightarrow> (Some (block, 0), h',
                   pool\<lparr>pages := x, alloc_block := Some block, next_page := length x, alloc_used := amount\<rparr>)))
       else
         (Some (pages pool ! next_page pool, 0), h,
          pool\<lparr>alloc_block := Some (pages pool ! next_page pool), next_page := next_page pool + 1,
               alloc_used := amount\<rparr>))"

section \<open>The pools of the channels\<close>

definition POOL_TABLE_SIZE :: nat where "POOL_TABLE_SIZE = 16"

type_synonym amqp_pool_table = "(16 word \<times> amqp_pool) list list"

definition pool_index :: "16 word \<Rightarrow> nat" where
  "pool_index channel = unat channel mod POOL_TABLE_SIZE"

definition amqp_get_channel_pool :: "amqp_pool_table \<Rightarrow> 16 word \<Rightarrow> amqp_pool option" where
  "amqp_get_channel_pool tbl channel = map_of (tbl ! pool_index channel) channel"

text \<open>A new entry, of \<open>sizeof(amqp_pool_table_entry_t)\<close> bytes, becomes the first of its list.\<close>

definition amqp_get_or_create_channel_pool ::
    "(nat \<Rightarrow> bool) \<Rightarrow> nat \<Rightarrow> amqp_pool_table \<Rightarrow> 16 word \<Rightarrow> amqp_pool option \<times> amqp_pool_table" where
  "amqp_get_or_create_channel_pool alloc frame_max tbl channel =
     (case amqp_get_channel_pool tbl channel of
        Some pool \<Rightarrow> (Some pool, tbl)
      | None \<Rightarrow>
          if \<not> alloc 80 then (None, tbl)
          else let pool = init_amqp_pool frame_max; i = pool_index channel in
            (Some pool, tbl[i := (channel, pool) # tbl ! i]))"

section \<open>The invariant\<close>

text \<open>
  \<open>used\<close> is the memory a pool has handed out since it was last recycled: its large blocks, the
  pages it has entered, and of the current page what is below \<open>alloc_used\<close>.  \<open>pool_inv\<close>: the
  blocks are different, live and of the right size, and the current one is the last page entered.
\<close>

definition used :: "heap \<Rightarrow> amqp_pool \<Rightarrow> pointer set" where
  "used h pool =
     {(b, i). b \<in> set (large_blocks pool) \<and> i < the (live h b)} \<union>
     {(b, i). b \<in> set (take (next_page pool) (pages pool)) \<and> i < pagesize pool \<and>
        (alloc_block pool = Some b \<longrightarrow> i < alloc_used pool)}"

definition pool_inv :: "heap \<Rightarrow> amqp_pool \<Rightarrow> bool" where
  "pool_inv h pool \<longleftrightarrow>
     distinct (pages pool @ large_blocks pool) \<and>
     (\<forall>b \<in> set (pages pool). live h b = Some (pagesize pool)) \<and>
     (\<forall>b \<in> set (large_blocks pool). live h b \<noteq> None) \<and>
     (\<forall>b n. live h b = Some n \<longrightarrow> b < next_block h) \<and>
     next_page pool \<le> length (pages pool) \<and> alloc_used pool \<le> pagesize pool \<and>
     (\<forall>b. alloc_block pool = Some b \<longrightarrow> 0 < next_page pool \<and> b = pages pool ! (next_page pool - 1))"

abbreviation region :: "pointer \<Rightarrow> nat \<Rightarrow> pointer set" where
  "region p n \<equiv> {(b, i). b = fst p \<and> snd p \<le> i \<and> i < snd p + n}"

lemma and_not_mask: "w AND NOT (mask n) = push_bit n (drop_bit n w)" for w :: "'a::len word"
  by (rule bit_word_eqI) (auto simp: bit_simps)

lemma round_up_8_eq:
  assumes "amount < 2 ^ 64 - 7"
  shows "round_up_8 amount = (amount + 7) div 8 * 8"
proof -
  let ?w = "word_of_nat (amount + 7) :: 64 word"
  have a: "amount + 7 < 2 ^ LENGTH(64)" using assms by simp
  then have u: "unat ?w = amount + 7" by (rule unat_word_of_nat)
  have t: "take_bit 64 (amount + 7) = amount + 7" using a by (intro take_bit_nat_eq_self) simp
  have "(7 :: 64 word) = mask 3" by (simp add: mask_eq_exp_minus_1)
  then have "?w AND NOT 7 = push_bit 3 (drop_bit 3 ?w)"
    by (simp only: and_not_mask)
  moreover have "unat (push_bit 3 (drop_bit 3 ?w)) = take_bit 64 (push_bit 3 (drop_bit 3 (amount + 7)))"
    by (simp only: unsigned_push_bit_eq unsigned_drop_bit_eq u of_nat_id) (simp add: t)
  moreover have "push_bit 3 (drop_bit 3 (amount + 7)) = (amount + 7) div 8 * 8"
    by (simp add: push_bit_eq_mult drop_bit_eq_div)
  moreover have "take_bit 64 ((amount + 7) div 8 * 8) = (amount + 7) div 8 * 8"
    using a by (intro take_bit_nat_eq_self) (simp, presburger?)
  ultimately show ?thesis by (simp add: round_up_8_def add.commute)
qed

lemma round_up_8_ge: "amount < 2 ^ 64 - 7 \<Longrightarrow> amount \<le> round_up_8 amount"
  unfolding round_up_8_eq by presburger

lemma round_up_8_mult: "amount < 2 ^ 64 - 7 \<Longrightarrow> 8 dvd round_up_8 amount"
  unfolding round_up_8_eq by simp

text \<open>The outcome of an allocation: what the caller of \<open>amqp_pool_alloc\<close> relies on.\<close>

definition handed_out :: "nat \<Rightarrow> heap \<times> amqp_pool \<Rightarrow> pointer option \<times> heap \<times> amqp_pool \<Rightarrow> bool" where
  "handed_out n hp r = (case (hp, r) of ((h, pool), (res, h', pool')) \<Rightarrow>
     used h pool \<subseteq> used h' pool' \<and>
     (\<forall>p. res = Some p \<longrightarrow> pool_inv h' pool' \<and> region p n \<subseteq> used h' pool' \<and>
        region p n \<inter> used h pool = {} \<and> (\<exists>m. live h' (fst p) = Some m \<and> snd p + n \<le> m)))"

lemma calloc_cases:
  assumes "calloc alloc n h = (r, h')"
  obtains (fails) "r = None" "h' = h" "\<not> alloc n"
    | (ok) "r = Some (next_block h)" "alloc n"
      "h' = h\<lparr>next_block := next_block h + 1, live := (live h)(next_block h \<mapsto> n)\<rparr>"
  using assms by (auto simp: calloc_def split: if_splits)

lemma fresh_block:
  assumes "pool_inv h pool"
  shows "live h (next_block h) = None" and "next_block h \<notin> set (pages pool)"
    and "next_block h \<notin> set (large_blocks pool)"
proof -
  show *: "live h (next_block h) = None"
    using assms unfolding pool_inv_def by (meson less_irrefl not_None_eq)
  show "next_block h \<notin> set (pages pool)" "next_block h \<notin> set (large_blocks pool)"
    using assms * unfolding pool_inv_def by force+
qed

lemma set_take_nth: "i < length xs \<Longrightarrow> set (take (Suc i) xs) = insert (xs ! i) (set (take i xs))"
  by (simp add: take_Suc_conv_app_nth)

lemma nth_notin_take: "distinct xs \<Longrightarrow> i < length xs \<Longrightarrow> xs ! i \<notin> set (take i xs)"
  by (metis distinct_take not_distinct_conv_prefix take_Suc_conv_app_nth)

lemma pool_alloc_large:
  assumes "pool_inv h pool" and "pagesize pool < round_up_8 n" and "0 < n" "n \<le> round_up_8 n"
  shows "handed_out n (h, pool) (amqp_pool_alloc alloc n (h, pool))"
proof (cases "calloc alloc (round_up_8 n) h")
  case (Pair r h')
  note fresh = fresh_block [OF assms(1)]
  from Pair show ?thesis
  proof (cases rule: calloc_cases)
    case fails
    with assms Pair show ?thesis by (simp add: amqp_pool_alloc_def handed_out_def)
  next
    case ok
    show ?thesis
    proof (cases "record_pool_block alloc (large_blocks pool) (next_block h)")
      case None
      with assms Pair ok fresh show ?thesis
        by (auto simp: amqp_pool_alloc_def handed_out_def free_def used_def split: if_splits)
    next
      case (Some x)
      then have x: "x = large_blocks pool @ [next_block h]"
        by (simp add: record_pool_block_def split: if_splits)
      show ?thesis
        using assms Pair ok Some fresh
        by (auto simp: amqp_pool_alloc_def handed_out_def used_def x pool_inv_def less_Suc_eq split: if_splits
            dest: in_set_takeD)
    qed
  qed
qed

lemma pool_alloc_current:
  assumes "pool_inv h pool" and "0 < n" "n \<le> round_up_8 n" and "alloc_block pool = Some b"
    and "alloc_used pool + round_up_8 n \<le> pagesize pool"
  shows "handed_out n (h, pool) (amqp_pool_alloc alloc n (h, pool))"
proof -
  from assms(1,4) have i: "next_page pool - 1 < length (pages pool)"
      "b = pages pool ! (next_page pool - 1)" "0 < next_page pool"
    by (auto simp: pool_inv_def)
  then have t: "b \<in> set (take (next_page pool) (pages pool))"
    using set_take_nth [of "next_page pool - 1" "pages pool"] by simp
  then have "b \<in> set (pages pool)" by (rule in_set_takeD)
  with assms(1) have "b \<notin> set (large_blocks pool)" "live h b = Some (pagesize pool)"
    by (auto simp: pool_inv_def)
  with assms t have "handed_out n (h, pool) (Some (b, alloc_used pool), h,
      pool\<lparr>alloc_used := alloc_used pool + round_up_8 n\<rparr>)"
    by (auto simp: handed_out_def used_def pool_inv_def)
  with assms show ?thesis by (simp add: amqp_pool_alloc_def Let_def not_less)
qed

lemma pool_alloc_next:
  assumes "pool_inv h pool" and "0 < n" "n \<le> round_up_8 n" "round_up_8 n \<le> pagesize pool"
    and "\<not> (alloc_block pool \<noteq> None \<and> alloc_used pool + round_up_8 n \<le> pagesize pool)"
    and "next_page pool < length (pages pool)"
  shows "handed_out n (h, pool) (amqp_pool_alloc alloc n (h, pool))"
proof -
  let ?b = "pages pool ! next_page pool"
  have b: "?b \<notin> set (take (next_page pool) (pages pool))" "?b \<in> set (pages pool)"
    using assms(1,6) nth_notin_take by (auto simp: pool_inv_def)
  with assms(1) have "?b \<notin> set (large_blocks pool)" "live h ?b = Some (pagesize pool)"
    by (auto simp: pool_inv_def)
  with assms b have "handed_out n (h, pool) (Some (?b, 0), h,
      pool\<lparr>alloc_block := Some ?b, next_page := next_page pool + 1, alloc_used := round_up_8 n\<rparr>)"
    by (auto simp: handed_out_def used_def pool_inv_def set_take_nth)
  with assms show ?thesis by (auto simp: amqp_pool_alloc_def Let_def not_less)
qed

lemma pool_alloc_page:
  assumes "pool_inv h pool" and "0 < n" "n \<le> round_up_8 n" "round_up_8 n \<le> pagesize pool"
    and "\<not> (alloc_block pool \<noteq> None \<and> alloc_used pool + round_up_8 n \<le> pagesize pool)"
    and "length (pages pool) \<le> next_page pool"
  shows "handed_out n (h, pool) (amqp_pool_alloc alloc n (h, pool))"
proof (cases "calloc alloc (pagesize pool) h")
  case (Pair r h')
  note fresh = fresh_block [OF assms(1)]
  have np: "next_page pool = length (pages pool)" using assms(1,6) by (simp add: pool_inv_def)
  from Pair show ?thesis
  proof (cases rule: calloc_cases)
    case fails
    with assms Pair show ?thesis
      by (auto simp: amqp_pool_alloc_def Let_def handed_out_def used_def)
  next
    case ok
    show ?thesis
    proof (cases "record_pool_block alloc (pages pool) (next_block h)")
      case None
      with assms Pair ok fresh show ?thesis
        by (auto simp: amqp_pool_alloc_def Let_def handed_out_def used_def split: if_splits dest: in_set_takeD)
    next
      case (Some x)
      then have x: "x = pages pool @ [next_block h]"
        by (simp add: record_pool_block_def split: if_splits)
      have "handed_out n (h, pool) (Some (next_block h, 0), h',
          pool\<lparr>pages := x, alloc_block := Some (next_block h), next_page := length x, alloc_used := round_up_8 n\<rparr>)"
        using assms ok fresh np
        by (auto simp: handed_out_def used_def x pool_inv_def less_Suc_eq nth_append split: if_splits)
      with assms Pair ok Some show ?thesis
        by (auto simp: amqp_pool_alloc_def Let_def)
    qed
  qed
qed

lemma pool_alloc_ok:
  assumes "pool_inv h pool" and "n < 2 ^ 64 - 7"
  shows "handed_out n (h, pool) (amqp_pool_alloc alloc n (h, pool))"
proof (cases "n = 0")
  case True
  then show ?thesis by (simp add: amqp_pool_alloc_def handed_out_def)
next
  case False
  note r = round_up_8_ge [OF assms(2)]
  show ?thesis
    using False r assms(1) pool_alloc_large [of h pool n alloc] pool_alloc_current [of h pool n _ alloc]
      pool_alloc_next [of h pool n alloc] pool_alloc_page [of h pool n alloc]
    by (meson linorder_not_le not_None_eq gr0I)
qed

section \<open>Recycling and emptying\<close>

lemma live_empty_blocklist: "live (empty_blocklist x h) b = (if b \<in> set x then None else live h b)"
  unfolding empty_blocklist_def by (induction x arbitrary: h) (auto simp: free_def)

lemma next_block_empty_blocklist: "next_block (empty_blocklist x h) = next_block h"
  unfolding empty_blocklist_def by (induction x arbitrary: h) (auto simp: free_def)

lemma recycle_ok:
  assumes "pool_inv h pool" and "recycle_amqp_pool (h, pool) = (h', pool')"
  shows "pool_inv h' pool'" and "used h' pool' = {}" and "pages pool' = pages pool"
    and "\<forall>b. live h' b = (if b \<in> set (large_blocks pool) then None else live h b)"
proof -
  have "h' = empty_blocklist (large_blocks pool) h"
    "pool' = pool\<lparr>large_blocks := [], next_page := 0, alloc_block := None, alloc_used := 0\<rparr>"
    using assms(2) by (auto simp: recycle_amqp_pool_def)
  with assms(1) show "pool_inv h' pool'" and "used h' pool' = {}" and "pages pool' = pages pool"
    and "\<forall>b. live h' b = (if b \<in> set (large_blocks pool) then None else live h b)"
    by (auto simp: pool_inv_def used_def live_empty_blocklist next_block_empty_blocklist)
qed

lemma init_pool_inv: "(\<And>b n. live h b = Some n \<Longrightarrow> b < next_block h) \<Longrightarrow> pool_inv h (init_amqp_pool n)"
  by (auto simp: pool_inv_def init_amqp_pool_def)

section \<open>The table of channel pools\<close>

lemma pool_index_less [simp]: "pool_index channel < 16"
  by (simp add: pool_index_def POOL_TABLE_SIZE_def)

lemma channel_pool_found:
  assumes "length tbl = POOL_TABLE_SIZE" and "amqp_get_or_create_channel_pool alloc frame_max tbl c = (Some pool, tbl')"
  shows "amqp_get_channel_pool tbl' c = Some pool" and "length tbl' = POOL_TABLE_SIZE"
    and "c' \<noteq> c \<Longrightarrow> amqp_get_channel_pool tbl' c' = amqp_get_channel_pool tbl c'"
    and "amqp_get_channel_pool tbl c = None \<Longrightarrow> pool = init_amqp_pool frame_max"
  using assms
  by (auto simp: amqp_get_or_create_channel_pool_def Let_def amqp_get_channel_pool_def POOL_TABLE_SIZE_def
      nth_list_update split: option.splits if_splits)

section \<open>Properties\<close>

text \<open>
  C17: \<open>amqp_pool_alloc\<close> never hands out the same memory twice: memory it returns lies inside one
  live block, does not overlap anything handed out since the pool was last recycled, and from
  then on counts as handed out; the invariant of the pool holds again.  A failed request takes
  nothing back that was handed out before.
\<close>

theorem pool_alloc_disjoint:
  assumes "pool_inv h pool" and "n < 2 ^ 64 - 7"
    and "amqp_pool_alloc alloc n (h, pool) = (res, h', pool')"
  shows "used h pool \<subseteq> used h' pool' \<and>
    (\<forall>b o1. res = Some (b, o1) \<longrightarrow>
       pool_inv h' pool' \<and> (\<exists>m. live h' b = Some m \<and> o1 + n \<le> m) \<and>
       (\<forall>i. o1 \<le> i \<and> i < o1 + n \<longrightarrow> (b, i) \<in> used h' pool' \<and> (b, i) \<notin> used h pool))"
  using pool_alloc_ok [OF assms(1,2), of alloc] assms(3)
  by (auto simp: handed_out_def disjoint_iff)

theorem pool_alloc_disjoint_witness:
  "\<exists>h' pool'. amqp_pool_alloc (\<lambda>_. True) 10 (\<lparr>next_block = 0, live = \<lambda>_. None\<rparr>, init_amqp_pool 64) =
     (Some (0, 0), h', pool') \<and> (0, 9) \<in> used h' pool'"
proof -
  have "round_up_8 10 = 16" by (simp add: round_up_8_eq)
  then obtain h' pool' where e: "amqp_pool_alloc (\<lambda>_. True) 10 (\<lparr>next_block = 0, live = \<lambda>_. None\<rparr>, init_amqp_pool 64) =
      (Some (0, 0), h', pool')"
    by (simp add: amqp_pool_alloc_def init_amqp_pool_def calloc_def record_pool_block_def)
  have "pool_inv \<lparr>next_block = 0, live = \<lambda>_. None\<rparr> (init_amqp_pool 64)"
    by (rule init_pool_inv) simp
  from pool_alloc_disjoint [OF this _ e] e show ?thesis by auto
qed

text \<open>
  recycling a pool takes back everything it handed out and keeps its pages for reuse;
  emptying it frees exactly its pages and large blocks and no other block.  But a page whose
  entry in the list of pages cannot be allocated is in no list: the request fails, and the page
  stays live when the pool is emptied.
\<close>

theorem pool_recycled_and_emptied:
  assumes "pool_inv h pool"
  shows "(case recycle_amqp_pool (h, pool) of (h', pool') \<Rightarrow>
      pool_inv h' pool' \<and> used h' pool' = {} \<and> pages pool' = pages pool) \<and>
    (case empty_amqp_pool (h, pool) of (h', pool') \<Rightarrow>
      (\<forall>b. live h' b = (if b \<in> set (pages pool) \<union> set (large_blocks pool) then None else live h b))) \<and>
    (0 < n \<and> n \<le> 4096 \<and> alloc 4096 \<and> \<not> alloc 8 \<longrightarrow>
      (case amqp_pool_alloc alloc n (h, init_amqp_pool 4096) of (res, hp) \<Rightarrow>
        res = None \<and> live (fst (empty_amqp_pool hp)) (next_block h) = Some 4096))"
proof (intro conjI impI)
  obtain h' pool' where r: "recycle_amqp_pool (h, pool) = (h', pool')" by (cases "recycle_amqp_pool (h, pool)")
  note ok = recycle_ok [OF assms r]
  show "case recycle_amqp_pool (h, pool) of (h', pool') \<Rightarrow>
      pool_inv h' pool' \<and> used h' pool' = {} \<and> pages pool' = pages pool"
    using r ok by simp
  show "case empty_amqp_pool (h, pool) of (h', pool') \<Rightarrow>
      (\<forall>b. live h' b = (if b \<in> set (pages pool) \<union> set (large_blocks pool) then None else live h b))"
    using r ok by (simp add: empty_amqp_pool_def live_empty_blocklist)
  assume a: "0 < n \<and> n \<le> 4096 \<and> alloc 4096 \<and> \<not> alloc 8"
  then have "n \<le> 4096" by simp
  then have "(n + 7) div 8 \<le> 512" by presburger
  with a have "round_up_8 n \<le> 4096" by (simp add: round_up_8_eq)
  with a show "case amqp_pool_alloc alloc n (h, init_amqp_pool 4096) of (res, hp) \<Rightarrow>
        res = None \<and> live (fst (empty_amqp_pool hp)) (next_block h) = Some 4096"
    by (simp add: amqp_pool_alloc_def init_amqp_pool_def calloc_def record_pool_block_def empty_amqp_pool_def
        recycle_amqp_pool_def live_empty_blocklist)
qed

theorem pool_recycled_and_emptied_witness:
  "case amqp_pool_alloc (\<lambda>n. n \<noteq> 8) 100 (\<lparr>next_block = 0, live = \<lambda>_. None\<rparr>, init_amqp_pool 4096) of (res, hp) \<Rightarrow>
     res = None \<and> live (fst (empty_amqp_pool hp)) 0 = Some 4096"
proof -
  have "pool_inv \<lparr>next_block = 0, live = \<lambda>_. None\<rparr> (init_amqp_pool 4096)"
    by (rule init_pool_inv) simp
  from pool_recycled_and_emptied [OF this, of 100 "\<lambda>n. n \<noteq> 8"] show ?thesis by simp
qed

end
