(* ===== verification/AMQP_Table.thy ===== *)
theory AMQP_Table
  imports AMQP_Base
begin

text \<open>
  Field tables (\<open>amqp_table.c\<close>): the values, the decoder, the encoder, the comparison of
  entries, the deep copy and the lookup by key.  \<open>alloc n\<close> says whether the allocator grants a
  request of \<open>n\<close> bytes (\<open>malloc\<close>, \<open>realloc\<close> and \<open>amqp_pool_alloc\<close>).  Sizes are those of the
  LP64 ABI.
\<close>

section \<open>Values\<close>

text \<open>
  The tagged union \<open>amqp_field_value_t\<close>: one constructor per kind.  Integers are words, read
  as signed where C has \<open>intN_t\<close>; the floats are their bit patterns, which is all the codec looks
  at; \<open>amqp_boolean_t\<close> is an \<open>int\<close> of which only being zero matters.  \<open>FOther\<close> is a value whose
  kind byte is none of the enumeration.
\<close>

datatype amqp_field_value =
    FBoolean bool
  | FI8 "8 word" | FU8 "8 word"
  | FI16 "16 word" | FU16 "16 word"
  | FI32 "32 word" | FU32 "32 word"
  | FI64 "64 word" | FU64 "64 word"
  | FF32 "32 word" | FF64 "64 word"
  | FDecimal "8 word" "32 word"
  | FUtf8 bytes
  | FArray "amqp_field_value list"
  | FTimestamp "64 word"
  | FTable "(bytes \<times> amqp_field_value) list"
  | FVoid
  | FBytes bytes
  | FOther byte

type_synonym amqp_table_entry = "bytes \<times> amqp_field_value"
type_synonym amqp_table = "amqp_table_entry list"

datatype amqp_field_kind =
    KIND_BOOLEAN | KIND_I8 | KIND_U8 | KIND_I16 | KIND_U16 | KIND_I32 | KIND_U32 | KIND_I64 | KIND_U64
  | KIND_F32 | KIND_F64 | KIND_DECIMAL | KIND_UTF8 | KIND_ARRAY | KIND_TIMESTAMP | KIND_TABLE
  | KIND_VOID | KIND_BYTES

text \<open>The enumeration's values are ASCII letters.\<close>

primrec kind_byte :: "amqp_field_kind \<Rightarrow> byte" where
  "kind_byte KIND_BOOLEAN = of_char CHR ''t''"
| "kind_byte KIND_I8 = of_char CHR ''b''"
| "kind_byte KIND_U8 = of_char CHR ''B''"
| "kind_byte KIND_I16 = of_char CHR ''s''"
| "kind_byte KIND_U16 = of_char CHR ''u''"
| "kind_byte KIND_I32 = of_char CHR ''I''"
| "kind_byte KIND_U32 = of_char CHR ''i''"
| "kind_byte KIND_I64 = of_char CHR ''l''"
| "kind_byte KIND_U64 = of_char CHR ''L''"
| "kind_byte KIND_F32 = of_char CHR ''f''"
| "kind_byte KIND_F64 = of_char CHR ''d''"
| "kind_byte KIND_DECIMAL = of_char CHR ''D''"
| "kind_byte KIND_UTF8 = of_char CHR ''S''"
| "kind_byte KIND_ARRAY = of_char CHR ''A''"
| "kind_byte KIND_TIMESTAMP = of_char CHR ''T''"
| "kind_byte KIND_TABLE = of_char CHR ''F''"
| "kind_byte KIND_VOID = of_char CHR ''V''"
| "kind_byte KIND_BYTES = of_char CHR ''x''"

fun value_kind :: "amqp_field_value \<Rightarrow> byte" where
  "value_kind (FBoolean _) = kind_byte KIND_BOOLEAN"
| "value_kind (FI8 _) = kind_byte KIND_I8"
| "value_kind (FU8 _) = kind_byte KIND_U8"
| "value_kind (FI16 _) = kind_byte KIND_I16"
| "value_kind (FU16 _) = kind_byte KIND_U16"
| "value_kind (FI32 _) = kind_byte KIND_I32"
| "value_kind (FU32 _) = kind_byte KIND_U32"
| "value_kind (FI64 _) = kind_byte KIND_I64"
| "value_kind (FU64 _) = kind_byte KIND_U64"
| "value_kind (FF32 _) = kind_byte KIND_F32"
| "value_kind (FF64 _) = kind_byte KIND_F64"
| "value_kind (FDecimal _ _) = kind_byte KIND_DECIMAL"
| "value_kind (FUtf8 _) = kind_byte KIND_UTF8"
| "value_kind (FArray _) = kind_byte KIND_ARRAY"
| "value_kind (FTimestamp _) = kind_byte KIND_TIMESTAMP"
| "value_kind (FTable _) = kind_byte KIND_TABLE"
| "value_kind FVoid = kind_byte KIND_VOID"
| "value_kind (FBytes _) = kind_byte KIND_BYTES"
| "value_kind (FOther k) = k"

section \<open>Decoding\<close>

definition INITIAL_ARRAY_SIZE :: nat where "INITIAL_ARRAY_SIZE = 16"
definition INITIAL_TABLE_SIZE :: nat where "INITIAL_TABLE_SIZE = 16"
definition sizeof_field_value :: nat where "sizeof_field_value = 24"
definition sizeof_table_entry :: nat where "sizeof_table_entry = 40"

text \<open>The macros \<open>TRIVIAL_FIELD_DECODER\<close> and \<open>SIMPLE_FIELD_DECODER\<close>.\<close>

definition field_decoder :: "('a \<times> nat) option \<Rightarrow> ('a \<Rightarrow> amqp_field_value) \<Rightarrow> (amqp_field_value \<times> nat) result" where
  "field_decoder d how = (case d of None \<Rightarrow> Inl STATUS_BAD_AMQP_DATA | Some (val, off) \<Rightarrow> Inr (how val, off))"

text \<open>The part of \<open>amqp_decode_field_value\<close> that does not recurse: every scalar and string kind.\<close>

definition decode_scalar :: "byte \<Rightarrow> bytes \<Rightarrow> nat \<Rightarrow> (amqp_field_value \<times> nat) result" where
  "decode_scalar kind encoded off =
     (if kind = kind_byte KIND_BOOLEAN then field_decoder (amqp_decode_8 encoded off) (\<lambda>v. FBoolean (v \<noteq> 0))
      else if kind = kind_byte KIND_I8 then field_decoder (amqp_decode_8 encoded off) FI8
      else if kind = kind_byte KIND_U8 then field_decoder (amqp_decode_8 encoded off) FU8
      else if kind = kind_byte KIND_I16 then field_decoder (amqp_decode_16 encoded off) FI16
      else if kind = kind_byte KIND_U16 then field_decoder (amqp_decode_16 encoded off) FU16
      else if kind = kind_byte KIND_I32 then field_decoder (amqp_decode_32 encoded off) FI32
      else if kind = kind_byte KIND_U32 then field_decoder (amqp_decode_32 encoded off) FU32
      else if kind = kind_byte KIND_I64 then field_decoder (amqp_decode_64 encoded off) FI64
      else if kind = kind_byte KIND_U64 then field_decoder (amqp_decode_64 encoded off) FU64
      else if kind = kind_byte KIND_F32 then field_decoder (amqp_decode_32 encoded off) FF32
      else if kind = kind_byte KIND_F64 then field_decoder (amqp_decode_64 encoded off) FF64
      else if kind = kind_byte KIND_DECIMAL then
        (case amqp_decode_8 encoded off of None \<Rightarrow> Inl STATUS_BAD_AMQP_DATA
         | Some (decimals, off1) \<Rightarrow> field_decoder (amqp_decode_32 encoded off1) (FDecimal decimals))
      else if kind = kind_byte KIND_UTF8 \<or> kind = kind_byte KIND_BYTES then
        (case amqp_decode_32 encoded off of None \<Rightarrow> Inl STATUS_BAD_AMQP_DATA
         | Some (n, off1) \<Rightarrow> field_decoder (amqp_decode_bytes (unat n) encoded off1)
             (if kind = kind_byte KIND_UTF8 then FUtf8 else FBytes))
      else if kind = kind_byte KIND_TIMESTAMP then field_decoder (amqp_decode_64 encoded off) FTimestamp
      else if kind = kind_byte KIND_VOID then Inr (FVoid, off)
      else Inl STATUS_BAD_AMQP_DATA)"

lemma field_decoder_Inr:
  "field_decoder d how = Inr (v, off) \<Longrightarrow> \<exists>a. d = Some (a, off) \<and> v = how a"
  by (auto simp: field_decoder_def split: option.splits)

lemma decode_scalar_bounds:
  "decode_scalar k encoded off = Inr (v, off') \<Longrightarrow> off \<le> length encoded \<Longrightarrow> off \<le> off' \<and> off' \<le> length encoded"
  unfolding decode_scalar_def
  by (auto split: if_splits option.splits dest!: field_decoder_Inr decode_prims_bounds)

text \<open>
  The array the entries are collected in doubles when it is full: its size is an \<open>int\<close>, whose doubling overflows
  from 2^30 on.
\<close>

definition grown :: "(nat \<Rightarrow> bool) \<Rightarrow> nat \<Rightarrow> nat \<Rightarrow> nat \<Rightarrow> nat result" where
  "grown alloc entry_size num_entries allocated =
     (if num_entries < allocated then Inr allocated
      else if INT_MAX < int (allocated * 2) then Inl UNDEFINED
      else if \<not> alloc (allocated * 2 * entry_size) then Inl STATUS_NO_MEMORY
      else Inr (allocated * 2))"

lemma grown_fits: "num_entries < 2 ^ 30 \<Longrightarrow> \<exists>n. grown (\<lambda>_. True) entry_size num_entries allocated = Inr n"
  by (auto simp: grown_def int_limits)

text \<open>
  The three decoders call each other.  \<open>decode_array_entries\<close> and \<open>decode_table_entries\<close> are the
  \<open>while\<close> loops of \<open>amqp_decode_array\<close> and \<open>amqp_decode_table\<close>: \<open>entries\<close> the entries read so far,
  \<open>allocated\<close> the size of the array they are collected in.
\<close>

function (domintros) amqp_decode_field_value ::
    "(nat \<Rightarrow> bool) \<Rightarrow> bytes \<Rightarrow> nat \<Rightarrow> (amqp_field_value \<times> nat) result"
  and amqp_decode_array :: "(nat \<Rightarrow> bool) \<Rightarrow> bytes \<Rightarrow> nat \<Rightarrow> (amqp_field_value list \<times> nat) result"
  and decode_array_entries ::
    "(nat \<Rightarrow> bool) \<Rightarrow> bytes \<Rightarrow> nat \<Rightarrow> amqp_field_value list \<Rightarrow> nat \<Rightarrow> nat \<Rightarrow> (amqp_field_value list \<times> nat) result"
  and amqp_decode_table :: "(nat \<Rightarrow> bool) \<Rightarrow> bytes \<Rightarrow> nat \<Rightarrow> (amqp_table \<times> nat) result"
  and decode_table_entries ::
    "(nat \<Rightarrow> bool) \<Rightarrow> bytes \<Rightarrow> nat \<Rightarrow> amqp_table \<Rightarrow> nat \<Rightarrow> nat \<Rightarrow> (amqp_table \<times> nat) result"
where
  "amqp_decode_field_value alloc encoded off =
     (case amqp_decode_8 encoded off of None \<Rightarrow> Inl STATUS_BAD_AMQP_DATA
      | Some (kind, off1) \<Rightarrow>
          if kind = kind_byte KIND_ARRAY then
            (case amqp_decode_array alloc encoded off1 of Inl st \<Rightarrow> Inl st
             | Inr (entries, off2) \<Rightarrow> Inr (FArray entries, off2))
          else if kind = kind_byte KIND_TABLE then
            (case amqp_decode_table alloc encoded off1 of Inl st \<Rightarrow> Inl st
             | Inr (entries, off2) \<Rightarrow> Inr (FTable entries, off2))
          else decode_scalar kind encoded off1)"
| "amqp_decode_array alloc encoded off =
     (case amqp_decode_32 encoded off of None \<Rightarrow> Inl STATUS_BAD_AMQP_DATA
      | Some (arraysize, off1) \<Rightarrow>
          if length encoded < unat arraysize + off1 then Inl STATUS_BAD_AMQP_DATA
          else if \<not> alloc (INITIAL_ARRAY_SIZE * sizeof_field_value) then Inl STATUS_NO_MEMORY
          else (case decode_array_entries alloc encoded (off1 + unat arraysize) [] INITIAL_ARRAY_SIZE off1 of
                  Inl st \<Rightarrow> Inl st
                | Inr (entries, off2) \<Rightarrow>
                    if entries \<noteq> [] \<and> \<not> alloc (length entries * sizeof_field_value) then Inl STATUS_NO_MEMORY
                    else Inr (entries, off2)))"
| "decode_array_entries alloc encoded limit entries allocated off =
     (if off < limit then
        (case grown alloc sizeof_field_value (length entries) allocated of Inl st \<Rightarrow> Inl st
         | Inr allocated \<Rightarrow>
             (case amqp_decode_field_value alloc encoded off of Inl st \<Rightarrow> Inl st
              | Inr (v, off') \<Rightarrow> decode_array_entries alloc encoded limit (entries @ [v]) allocated off'))
      else Inr (entries, off))"
| "amqp_decode_table alloc encoded off =
     (case amqp_decode_32 encoded off of None \<Rightarrow> Inl STATUS_BAD_AMQP_DATA
      | Some (tablesize, off1) \<Rightarrow>
          if length encoded < unat tablesize + off1 then Inl STATUS_BAD_AMQP_DATA
          else if \<not> alloc (INITIAL_TABLE_SIZE * sizeof_table_entry) then Inl STATUS_NO_MEMORY
          else (case decode_table_entries alloc encoded (off1 + unat tablesize) [] INITIAL_TABLE_SIZE off1 of
                  Inl st \<Rightarrow> Inl st
                | Inr (entries, off2) \<Rightarrow>
                    if entries \<noteq> [] \<and> \<not> alloc (length entries * sizeof_table_entry) then Inl STATUS_NO_MEMORY
                    else Inr (entries, off2)))"
| "decode_table_entries alloc encoded limit entries allocated off =
     (if off < limit then
        (case amqp_decode_8 encoded off of None \<Rightarrow> Inl STATUS_BAD_AMQP_DATA
         | Some (keylen, off1) \<Rightarrow>
             (case grown alloc sizeof_table_entry (length entries) allocated of Inl st \<Rightarrow> Inl st
              | Inr allocated \<Rightarrow>
                  (case amqp_decode_bytes (unat keylen) encoded off1 of None \<Rightarrow> Inl STATUS_BAD_AMQP_DATA
                   | Some (key, off2) \<Rightarrow>
                       (case amqp_decode_field_value alloc encoded off2 of Inl st \<Rightarrow> Inl st
                        | Inr (v, off') \<Rightarrow> decode_table_entries alloc encoded limit (entries @ [(key, v)]) allocated off'))))
      else Inr (entries, off))"
  by pat_completeness auto

text \<open>
  Termination: every value read takes at least its kind byte, and none ends behind the buffer.
  The first is shown for the calls in the domain and then used to end the recursion.
\<close>

abbreviation decode_dom where
  "decode_dom \<equiv> amqp_decode_field_value_amqp_decode_array_decode_array_entries_amqp_decode_table_decode_table_entries_dom"

lemma decode_advances_partial:
  "decode_dom (Inl (Inl (alloc, encoded, off))) \<Longrightarrow>
     amqp_decode_field_value alloc encoded off = Inr (v, off') \<longrightarrow> off < off' \<and> off' \<le> length encoded"
  "decode_dom (Inl (Inr (alloc, encoded, off))) \<Longrightarrow>
     amqp_decode_array alloc encoded off = Inr (vs, off') \<longrightarrow> off < off' \<and> off' \<le> length encoded"
  "decode_dom (Inr (Inl (alloc, encoded, limit, vs0, allocated, off))) \<Longrightarrow> off \<le> length encoded \<longrightarrow>
     decode_array_entries alloc encoded limit vs0 allocated off = Inr (vs, off') \<longrightarrow>
     off \<le> off' \<and> off' \<le> length encoded"
  "decode_dom (Inr (Inr (Inl (alloc, encoded, off)))) \<Longrightarrow>
     amqp_decode_table alloc encoded off = Inr (t, off') \<longrightarrow> off < off' \<and> off' \<le> length encoded"
  "decode_dom (Inr (Inr (Inr (alloc, encoded, limit, t0, allocated, off)))) \<Longrightarrow> off \<le> length encoded \<longrightarrow>
     decode_table_entries alloc encoded limit t0 allocated off = Inr (t, off') \<longrightarrow>
     off \<le> off' \<and> off' \<le> length encoded"
proof (induct alloc encoded off and alloc encoded off and alloc encoded limit vs0 allocated off
    and alloc encoded off and alloc encoded limit t0 allocated off
    arbitrary: v off' and vs off' and vs off' and t off' and t off'
    rule: amqp_decode_field_value_amqp_decode_array_decode_array_entries_amqp_decode_table_decode_table_entries.pinduct)
  case (1 alloc encoded off)
  note ps = amqp_decode_field_value.psimps [OF 1(1)]
  show ?case
  proof (cases "amqp_decode_8 encoded off")
    case (Some p)
    obtain kind off1 where p: "p = (kind, off1)" by (cases p)
    with Some decode_prims_bounds(1) have "off1 = off + 1" "off1 \<le> length encoded" by blast+
    have A: "off1 < o2 \<and> o2 \<le> length encoded"
      if "kind = kind_byte KIND_ARRAY" "amqp_decode_array alloc encoded off1 = Inr (vs, o2)" for vs o2
      using 1(2) [OF Some p [symmetric] that(1)] that(2) by blast
    have T: "off1 < o2 \<and> o2 \<le> length encoded"
      if "kind = kind_byte KIND_TABLE" "amqp_decode_table alloc encoded off1 = Inr (vs, o2)" for vs o2
      using 1(3) [OF Some p [symmetric] _ that(1)] that by simp
    show ?thesis
    proof
      assume "amqp_decode_field_value alloc encoded off = Inr (v, off')"
      then have "off1 \<le> off' \<and> off' \<le> length encoded"
        using A T decode_scalar_bounds [OF _ \<open>off1 \<le> length encoded\<close>]
        by (fastforce simp: ps Some p split: if_splits sum.splits simp del: kind_byte.simps)
      with \<open>off1 = off + 1\<close> show "off < off' \<and> off' \<le> length encoded" by simp
    qed
  qed (simp add: ps)
next
  case (2 alloc encoded off)
  note ps = amqp_decode_array.psimps [OF 2(1)]
  show ?case
  proof (cases "amqp_decode_32 encoded off")
    case (Some p)
    obtain k off1 where p: "p = (k, off1)" by (cases p)
    with Some decode_prims_bounds(3) have b: "off1 = off + 4" "off1 \<le> length encoded" by blast+
    show ?thesis
    proof (cases "length encoded < unat k + off1 \<or> \<not> alloc (INITIAL_ARRAY_SIZE * sizeof_field_value)")
      case False
      then have "decode_array_entries alloc encoded (off1 + unat k) [] INITIAL_ARRAY_SIZE off1 = Inr (ts, o2) \<Longrightarrow>
          off1 \<le> o2 \<and> o2 \<le> length encoded" for ts o2
        using 2(2) [OF Some p [symmetric]] b by blast
      with False b show ?thesis
        by (auto simp: ps Some p split: if_splits sum.splits)
    qed (auto simp: ps Some p)
  qed (simp add: ps)
next
  case (3 alloc encoded limit entries allocated off)
  note ps = decode_array_entries.psimps [OF 3(1)]
  show ?case
  proof (cases "off < limit")
    case True
    show ?thesis
    proof (cases "grown alloc sizeof_field_value (length entries) allocated")
      case g: (Inr m)
      show ?thesis
      proof (cases "amqp_decode_field_value alloc encoded off")
        case (Inr p)
        obtain w o1 where p: "p = (w, o1)" by (cases p)
        have "off < o1" "o1 \<le> length encoded" using 3(2) [OF True g] Inr p by blast+
        moreover from this have "decode_array_entries alloc encoded limit (entries @ [w]) m o1 = Inr (vs, off') \<longrightarrow>
            o1 \<le> off' \<and> off' \<le> length encoded"
          using 3(3) [OF True g Inr p [symmetric]] by blast
        ultimately show ?thesis using True g Inr p by (auto simp: ps)
      qed (use True g in \<open>simp add: ps\<close>)
    qed (use True in \<open>simp add: ps\<close>)
  qed (auto simp: ps)
next
  case (4 alloc encoded off)
  note ps = amqp_decode_table.psimps [OF 4(1)]
  show ?case
  proof (cases "amqp_decode_32 encoded off")
    case (Some p)
    obtain k off1 where p: "p = (k, off1)" by (cases p)
    with Some decode_prims_bounds(3) have b: "off1 = off + 4" "off1 \<le> length encoded" by blast+
    show ?thesis
    proof (cases "length encoded < unat k + off1 \<or> \<not> alloc (INITIAL_TABLE_SIZE * sizeof_table_entry)")
      case False
      then have "decode_table_entries alloc encoded (off1 + unat k) [] INITIAL_TABLE_SIZE off1 = Inr (ts, o2) \<Longrightarrow>
          off1 \<le> o2 \<and> o2 \<le> length encoded" for ts o2
        using 4(2) [OF Some p [symmetric]] b by blast
      with False b show ?thesis
        by (auto simp: ps Some p split: if_splits sum.splits)
    qed (auto simp: ps Some p)
  qed (simp add: ps)
next
  case (5 alloc encoded limit entries allocated off)
  note ps = decode_table_entries.psimps [OF 5(1)]
  show ?case
  proof (cases "off < limit")
    case True
    show ?thesis
    proof (cases "amqp_decode_8 encoded off")
      case (Some p)
      obtain n o1 where p: "p = (n, o1)" by (cases p)
      with Some decode_prims_bounds(1) have b1: "o1 = off + 1" "o1 \<le> length encoded" by blast+
      show ?thesis
      proof (cases "amqp_decode_bytes (unat n) encoded o1")
        case (Some q)
        obtain key o2 where q: "q = (key, o2)" by (cases q)
        with Some decode_prims_bounds(5) have b2: "o2 = o1 + unat n" by blast
        show ?thesis
        proof (cases "amqp_decode_field_value alloc encoded o2")
          case (Inr r)
          obtain w o3 where r: "r = (w, o3)" by (cases r)
          have *: ?thesis if g: "grown alloc sizeof_table_entry (length entries) allocated = Inr m" for m
          proof -
            have "o2 < o3" "o3 \<le> length encoded"
              using 5(2) [OF True \<open>amqp_decode_8 encoded off = Some p\<close> p [symmetric] g Some q [symmetric]] Inr r
              by blast+
            moreover from this have "decode_table_entries alloc encoded limit (entries @ [(key, w)]) m o3 = Inr (t, off') \<longrightarrow>
                o3 \<le> off' \<and> off' \<le> length encoded"
              using 5(3) [OF True \<open>amqp_decode_8 encoded off = Some p\<close> p [symmetric] g Some q [symmetric] Inr r [symmetric]]
              by blast
            ultimately show ?thesis
              using True g Some Inr b1 b2 \<open>amqp_decode_8 encoded off = Some p\<close> by (auto simp: ps p q r)
          qed
          then show ?thesis using True \<open>amqp_decode_8 encoded off = Some p\<close>
            by (cases "grown alloc sizeof_table_entry (length entries) allocated") (auto simp: ps p)
        qed (use True Some \<open>amqp_decode_8 encoded off = Some p\<close> in \<open>auto simp: ps p q split: sum.splits\<close>)
      qed (use True Some in \<open>auto simp: ps p split: sum.splits\<close>)
    qed (use True in \<open>simp add: ps\<close>)
  qed (simp add: ps)
qed

definition decode_measure where
  "decode_measure x = (case x of
      Inl (Inl (_ :: nat \<Rightarrow> bool, e :: bytes, off)) \<Rightarrow> (length e - off, 0)
    | Inl (Inr (_ :: nat \<Rightarrow> bool, e :: bytes, off)) \<Rightarrow> (length e - off, 0)
    | Inr (Inl (_ :: nat \<Rightarrow> bool, e :: bytes, _ :: nat, _ :: amqp_field_value list, _ :: nat, off)) \<Rightarrow> (length e - off, 1)
    | Inr (Inr (Inl (_ :: nat \<Rightarrow> bool, e :: bytes, off))) \<Rightarrow> (length e - off, 0)
    | Inr (Inr (Inr (_ :: nat \<Rightarrow> bool, e :: bytes, _ :: nat, _ :: amqp_table, _ :: nat, off))) \<Rightarrow> (length e - off, 1 :: nat))"

termination amqp_decode_field_value
  by (relation "inv_image (less_than <*lex*> less_than) decode_measure")
    (auto simp: decode_measure_def dest!: decode_prims_bounds dest: decode_advances_partial)

lemma decode_terminates:
  "decode_dom (Inl (Inl (alloc, encoded, off)))"
  "decode_dom (Inl (Inr (alloc, encoded, off)))"
  "decode_dom (Inr (Inl (alloc, encoded, limit, vs, allocated, off)))"
  "decode_dom (Inr (Inr (Inl (alloc, encoded, off))))"
  "decode_dom (Inr (Inr (Inr (alloc, encoded, limit, t, allocated, off))))"
proof (induct alloc encoded off and alloc encoded off and alloc encoded limit vs allocated off
    and alloc encoded off and alloc encoded limit t allocated off
    rule: amqp_decode_field_value_amqp_decode_array_decode_array_entries_amqp_decode_table_decode_table_entries.induct)
  case (1 alloc encoded off)
  show ?case by (rule amqp_decode_field_value_amqp_decode_array_decode_array_entries_amqp_decode_table_decode_table_entries.domintros(1)) (use 1 in simp_all)
next
  case (2 alloc encoded off)
  show ?case by (rule amqp_decode_field_value_amqp_decode_array_decode_array_entries_amqp_decode_table_decode_table_entries.domintros(2)) (use 2 in simp_all)
next
  case (3 alloc encoded limit entries allocated off)
  show ?case by (rule amqp_decode_field_value_amqp_decode_array_decode_array_entries_amqp_decode_table_decode_table_entries.domintros(3)) (use 3 in simp_all)
next
  case (4 alloc encoded off)
  show ?case by (rule amqp_decode_field_value_amqp_decode_array_decode_array_entries_amqp_decode_table_decode_table_entries.domintros(4)) (use 4 in simp_all)
next
  case (5 alloc encoded limit entries allocated off)
  show ?case by (rule amqp_decode_field_value_amqp_decode_array_decode_array_entries_amqp_decode_table_decode_table_entries.domintros(5)) (use 5 in simp_all)
qed

declare amqp_decode_field_value.simps [simp del] amqp_decode_array.simps [simp del]
  decode_array_entries.simps [simp del] amqp_decode_table.simps [simp del] decode_table_entries.simps [simp del]

lemma amqp_decode_field_value_bounds:
  "amqp_decode_field_value alloc encoded off = Inr (v, off') \<Longrightarrow> off < off' \<and> off' \<le> length encoded"
  by (rule decode_advances_partial(1) [OF decode_terminates(1), rule_format])

lemma amqp_decode_array_bounds:
  "amqp_decode_array alloc encoded off = Inr (vs, off') \<Longrightarrow> off < off' \<and> off' \<le> length encoded"
  by (rule decode_advances_partial(2) [OF decode_terminates(2), rule_format])

lemma amqp_decode_table_bounds:
  "amqp_decode_table alloc encoded off = Inr (t, off') \<Longrightarrow> off < off' \<and> off' \<le> length encoded"
  by (rule decode_advances_partial(4) [OF decode_terminates(4), rule_format])

section \<open>Encoding\<close>

text \<open>
  The size of an array or a table is written last, into the four bytes skipped at its start; it
  is cast to 32 bits, as the length of a key is to 8.  \<open>puts\<close> of the entries is the \<open>for\<close> loop.
\<close>

definition size_filled_in :: "encoder \<Rightarrow> encoder" where
  "size_filled_in entries encoded start =
     (case entries encoded (start + 4) of Inl st \<Rightarrow> Inl st
      | Inr (encoded', off) \<Rightarrow>
          (case amqp_encode_32 (word_of_nat (off - start - 4)) encoded' start of
             None \<Rightarrow> Inl STATUS_TABLE_TOO_BIG | Some (encoded'', _) \<Rightarrow> Inr (encoded'', off)))"

fun amqp_encode_field_value :: "amqp_field_value \<Rightarrow> encoder"
  and amqp_encode_array :: "amqp_field_value list \<Rightarrow> encoder"
  and amqp_encode_table :: "amqp_table \<Rightarrow> encoder"
where
  "amqp_encode_field_value v = puts [put STATUS_BAD_AMQP_DATA (amqp_encode_8 (value_kind v)),
     (case v of
        FBoolean b \<Rightarrow> put STATUS_TABLE_TOO_BIG (amqp_encode_8 (if b then 1 else 0))
      | FI8 x \<Rightarrow> put STATUS_TABLE_TOO_BIG (amqp_encode_8 x)
      | FU8 x \<Rightarrow> put STATUS_TABLE_TOO_BIG (amqp_encode_8 x)
      | FI16 x \<Rightarrow> put STATUS_TABLE_TOO_BIG (amqp_encode_16 x)
      | FU16 x \<Rightarrow> put STATUS_TABLE_TOO_BIG (amqp_encode_16 x)
      | FI32 x \<Rightarrow> put STATUS_TABLE_TOO_BIG (amqp_encode_32 x)
      | FU32 x \<Rightarrow> put STATUS_TABLE_TOO_BIG (amqp_encode_32 x)
      | FI64 x \<Rightarrow> put STATUS_TABLE_TOO_BIG (amqp_encode_64 x)
      | FU64 x \<Rightarrow> put STATUS_TABLE_TOO_BIG (amqp_encode_64 x)
      | FF32 x \<Rightarrow> put STATUS_TABLE_TOO_BIG (amqp_encode_32 x)
      | FF64 x \<Rightarrow> put STATUS_TABLE_TOO_BIG (amqp_encode_64 x)
      | FDecimal decimals x \<Rightarrow> puts [put STATUS_TABLE_TOO_BIG (amqp_encode_8 decimals),
                                    put STATUS_TABLE_TOO_BIG (amqp_encode_32 x)]
      | FUtf8 s \<Rightarrow> puts [put STATUS_TABLE_TOO_BIG (amqp_encode_32 (word_of_nat (length s))),
                         put STATUS_TABLE_TOO_BIG (amqp_encode_bytes s)]
      | FBytes s \<Rightarrow> puts [put STATUS_TABLE_TOO_BIG (amqp_encode_32 (word_of_nat (length s))),
                          put STATUS_TABLE_TOO_BIG (amqp_encode_bytes s)]
      | FArray vs \<Rightarrow> amqp_encode_array vs
      | FTimestamp x \<Rightarrow> put STATUS_TABLE_TOO_BIG (amqp_encode_64 x)
      | FTable t \<Rightarrow> amqp_encode_table t
      | FVoid \<Rightarrow> puts []
      | FOther _ \<Rightarrow> (\<lambda>encoded off. Inl STATUS_INVALID_PARAMETER))]"
| "amqp_encode_array vs = size_filled_in (puts (map amqp_encode_field_value vs))"
| "amqp_encode_table t = size_filled_in (puts (map (\<lambda>(key, v). puts
     [put STATUS_TABLE_TOO_BIG (amqp_encode_8 (word_of_nat (length key))),
      put STATUS_TABLE_TOO_BIG (amqp_encode_bytes key),
      amqp_encode_field_value v]) t))"

declare amqp_encode_field_value.simps [simp del] amqp_encode_array.simps [simp del]
  amqp_encode_table.simps [simp del]

section \<open>Comparison, copy, construction, lookup\<close>

text \<open>\<open>memcmp\<close>: the sign of the first difference.\<close>

fun memcmp :: "bytes \<Rightarrow> bytes \<Rightarrow> nat \<Rightarrow> int" where
  "memcmp (a # as) (b # bs) (Suc n) = (if a < b then -1 else if b < a then 1 else memcmp as bs n)"
| "memcmp _ _ _ = 0"

definition amqp_table_entry_cmp :: "amqp_table_entry \<Rightarrow> amqp_table_entry \<Rightarrow> int" where
  "amqp_table_entry_cmp p1 p2 =
     (let minlen = (if length (fst p2) < length (fst p1) then length (fst p2) else length (fst p1));
          d = memcmp (fst p1) (fst p2) minlen
      in if d \<noteq> 0 then d
         else sint (word_of_nat (length (fst p1)) :: 32 word) - sint (word_of_nat (length (fst p2)) :: 32 word))"

text \<open>A fold of fallible copies that stops at the first error.\<close>

fun clone_all :: "'a result list \<Rightarrow> 'a list result" where
  "clone_all [] = Inr []"
| "clone_all (Inl st # _) = Inl st"
| "clone_all (Inr x # rs) = (case clone_all rs of Inl st \<Rightarrow> Inl st | Inr xs \<Rightarrow> Inr (x # xs))"

fun amqp_field_value_clone :: "(nat \<Rightarrow> bool) \<Rightarrow> amqp_field_value \<Rightarrow> amqp_field_value result"
  and amqp_table_entry_clone :: "(nat \<Rightarrow> bool) \<Rightarrow> amqp_table_entry \<Rightarrow> amqp_table_entry result"
  and amqp_table_clone :: "(nat \<Rightarrow> bool) \<Rightarrow> amqp_table \<Rightarrow> amqp_table result"
where
  "amqp_field_value_clone alloc original =
     (case original of
        FUtf8 s \<Rightarrow> if length s = 0 then Inr (FUtf8 []) else if \<not> alloc (length s) then Inl STATUS_NO_MEMORY
                   else Inr (FUtf8 s)
      | FBytes s \<Rightarrow> if length s = 0 then Inr (FBytes []) else if \<not> alloc (length s) then Inl STATUS_NO_MEMORY
                    else Inr (FBytes s)
      | FArray vs \<Rightarrow> if vs = [] then Inr (FArray [])
                     else if \<not> alloc (length vs * sizeof_field_value) then Inl STATUS_NO_MEMORY
                     else (case clone_all (map (amqp_field_value_clone alloc) vs) of
                             Inl st \<Rightarrow> Inl st | Inr vs' \<Rightarrow> Inr (FArray vs'))
      | FTable t \<Rightarrow> (case amqp_table_clone alloc t of Inl st \<Rightarrow> Inl st | Inr t' \<Rightarrow> Inr (FTable t'))
      | FOther _ \<Rightarrow> Inl STATUS_INVALID_PARAMETER
      | _ \<Rightarrow> Inr original)"
| "amqp_table_entry_clone alloc (key, v) =
     (if length key = 0 then Inl STATUS_INVALID_PARAMETER
      else if \<not> alloc (length key) then Inl STATUS_NO_MEMORY
      else (case amqp_field_value_clone alloc v of Inl st \<Rightarrow> Inl st | Inr v' \<Rightarrow> Inr (key, v')))"
| "amqp_table_clone alloc original =
     (if length original = 0 then Inr []
      else if \<not> alloc (length original * sizeof_table_entry) then Inl STATUS_NO_MEMORY
      else clone_all (map (amqp_table_entry_clone alloc) original))"

declare amqp_field_value_clone.simps [simp del] amqp_table_entry_clone.simps [simp del]
  amqp_table_clone.simps [simp del]

text \<open>The strings are those before the terminating NUL (\<open>amqp_cstring_bytes\<close>).\<close>

definition amqp_table_construct_utf8_entry :: "bytes \<Rightarrow> bytes \<Rightarrow> amqp_table_entry" where
  "amqp_table_construct_utf8_entry key val = (key, FUtf8 val)"

definition amqp_table_construct_table_entry :: "bytes \<Rightarrow> amqp_table \<Rightarrow> amqp_table_entry" where
  "amqp_table_construct_table_entry key t = (key, FTable t)"

definition amqp_table_construct_bool_entry :: "bytes \<Rightarrow> int \<Rightarrow> amqp_table_entry" where
  "amqp_table_construct_bool_entry key val = (key, FBoolean (val \<noteq> 0))"

fun amqp_table_get_entry_by_key :: "amqp_table \<Rightarrow> bytes \<Rightarrow> amqp_table_entry option" where
  "amqp_table_get_entry_by_key [] key = None"
| "amqp_table_get_entry_by_key (e # t) key =
     (if fst e = key then Some e else amqp_table_get_entry_by_key t key)"

end
