(* ===== verification/AMQP_Table_Correct.thy ===== *)
theory AMQP_Table_Correct
  imports AMQP_Table
begin

text \<open>
  The contract of the table codec.  \<open>wire_table t\<close> is the AMQP representation of a table that has one: of known
  kinds, with keys of at most 255 bytes and sizes below \<open>2 ^ 32\<close>.  For these it is defined on the structure of the
  table alone; the encoder is shown to write exactly it and the decoder to read it back.  On other tables, which
  AMQP cannot represent, \<open>wire_table\<close> only says what the encoder leaves behind.
\<close>

section \<open>The representation\<close>

definition sized :: "bytes \<Rightarrow> bytes" where
  "sized s = big_endian 4 (word_of_nat (length s) :: 32 word) @ s"

fun wire_value :: "amqp_field_value \<Rightarrow> bytes" where
  "wire_value (FBoolean b) = [kind_byte KIND_BOOLEAN, if b then 1 else 0]"
| "wire_value (FI8 x) = [kind_byte KIND_I8, x]"
| "wire_value (FU8 x) = [kind_byte KIND_U8, x]"
| "wire_value (FI16 x) = kind_byte KIND_I16 # big_endian 2 x"
| "wire_value (FU16 x) = kind_byte KIND_U16 # big_endian 2 x"
| "wire_value (FI32 x) = kind_byte KIND_I32 # big_endian 4 x"
| "wire_value (FU32 x) = kind_byte KIND_U32 # big_endian 4 x"
| "wire_value (FI64 x) = kind_byte KIND_I64 # big_endian 8 x"
| "wire_value (FU64 x) = kind_byte KIND_U64 # big_endian 8 x"
| "wire_value (FF32 x) = kind_byte KIND_F32 # big_endian 4 x"
| "wire_value (FF64 x) = kind_byte KIND_F64 # big_endian 8 x"
| "wire_value (FDecimal d x) = kind_byte KIND_DECIMAL # d # big_endian 4 x"
| "wire_value (FUtf8 s) = kind_byte KIND_UTF8 # sized s"
| "wire_value (FBytes s) = kind_byte KIND_BYTES # sized s"
| "wire_value (FArray vs) = kind_byte KIND_ARRAY # sized (concat (map wire_value vs))"
| "wire_value (FTimestamp x) = kind_byte KIND_TIMESTAMP # big_endian 8 x"
| "wire_value (FTable t) = kind_byte KIND_TABLE #
     sized (concat (map (\<lambda>(key, v). (word_of_nat (length key) # key) @ wire_value v) t))"
| "wire_value FVoid = [kind_byte KIND_VOID]"
| "wire_value (FOther k) = [k]"

abbreviation wire_array :: "amqp_field_value list \<Rightarrow> bytes" where
  "wire_array vs \<equiv> concat (map wire_value vs)"

abbreviation wire_entries :: "amqp_table \<Rightarrow> bytes" where
  "wire_entries t \<equiv> concat (map (\<lambda>(key, v). (word_of_nat (length key) # key) @ wire_value v) t)"

definition wire_table :: "amqp_table \<Rightarrow> bytes" where
  "wire_table t = sized (wire_entries t)"

text \<open>
  \<open>known\<close>: every kind byte is one of the enumeration.  \<open>short_keys\<close>: every key has at most 255
  bytes.  \<open>sizes_ok\<close>: every size is below \<open>2 ^ 32\<close>.  A value with these three has an AMQP representation.
  \<open>counts_ok\<close>: no array or table has more than \<open>2 ^ 30\<close> entries, which the decoder counts with an \<open>int\<close>.
\<close>

fun known :: "amqp_field_value \<Rightarrow> bool" where
  "known (FArray vs) = (\<forall>v \<in> set vs. known v)"
| "known (FTable t) = (\<forall>(key, v) \<in> set t. known v)"
| "known (FOther _) = False"
| "known _ = True"

fun short_keys :: "amqp_field_value \<Rightarrow> bool" where
  "short_keys (FArray vs) = (\<forall>v \<in> set vs. short_keys v)"
| "short_keys (FTable t) = (\<forall>(key, v) \<in> set t. length key < 256 \<and> short_keys v)"
| "short_keys _ = True"

fun sizes_ok :: "amqp_field_value \<Rightarrow> bool" where
  "sizes_ok (FUtf8 s) = (length s < 2 ^ 32)"
| "sizes_ok (FBytes s) = (length s < 2 ^ 32)"
| "sizes_ok (FArray vs) = (length (wire_array vs) < 2 ^ 32 \<and> (\<forall>v \<in> set vs. sizes_ok v))"
| "sizes_ok (FTable t) = (length (wire_entries t) < 2 ^ 32 \<and> (\<forall>(key, v) \<in> set t. sizes_ok v))"
| "sizes_ok _ = True"

fun counts_ok :: "amqp_field_value \<Rightarrow> bool" where
  "counts_ok (FArray vs) = (length vs \<le> 2 ^ 30 \<and> (\<forall>v \<in> set vs. counts_ok v))"
| "counts_ok (FTable t) = (length t \<le> 2 ^ 30 \<and> (\<forall>(key, v) \<in> set t. counts_ok v))"
| "counts_ok _ = True"

definition table_ok :: "amqp_table \<Rightarrow> bool" where
  "table_ok t \<longleftrightarrow> known (FTable t) \<and> short_keys (FTable t) \<and> sizes_ok (FTable t) \<and> counts_ok (FTable t)"

lemma length_sized [simp]: "length (sized s) = 4 + length s"
  by (simp add: sized_def)

lemma sized_not_Nil [simp]: "sized s \<noteq> []"
  by (simp add: sized_def big_endian_4)

section \<open>The encoder writes the representation\<close>

lemma patch_before: "off + 4 + length s \<le> length encoded \<Longrightarrow> length t = 4 \<Longrightarrow>
    patch (patch encoded (off + 4) s) off t = patch encoded off (t @ s)"
  by (simp add: patch_def add.assoc add.left_commute)

lemma emits_size_filled_in [emits_intros]:
  assumes "emits e s"
  shows "emits (size_filled_in e) (sized s)"
  unfolding emits_def
proof (intro allI, goal_cases)
  case (1 encoded off)
  show ?case
  proof (cases "off + 4 + length s \<le> length encoded")
    case True
    with emitsD [OF assms] have "e encoded (off + 4) = Inr (patch encoded (off + 4) s, off + 4 + length s)"
      by simp
    moreover from True have "amqp_encode_32 w (patch encoded (off + 4) s) off =
        Some (patch encoded off (big_endian 4 w @ s), off + 4)" for w
      by (simp add: amqp_encode_32_def amqp_e32_eq patch_before)
    ultimately show ?thesis using True
      by (simp add: size_filled_in_def sized_def)
  next
    case False
    have "\<exists>st. size_filled_in e encoded off = Inl st"
    proof (cases "s = []")
      case True
      with assms have "e encoded (off + 4) = Inr (encoded, off + 4)" by (simp add: emits_def)
      with True False show ?thesis by (simp add: size_filled_in_def amqp_encode_32_def)
    next
      case s: False
      from emits_fails [OF assms s, of encoded "off + 4"] False show ?thesis
        by (auto simp: size_filled_in_def)
    qed
    with False show ?thesis by simp
  qed
qed

lemma emits_map:
  "(\<And>x. x \<in> set xs \<Longrightarrow> emits (f x) (w x)) \<Longrightarrow> emits (puts (map f xs)) (concat (map w xs))"
  by (induction xs) (auto intro: emits_intros)

lemma emits_cong: "emits e s \<Longrightarrow> s = t \<Longrightarrow> emits e t"
  by simp

lemma emits_field:
  "emits e s \<Longrightarrow> emits (puts [put st (amqp_encode_8 k), e]) (k # s)"
  using emits_Cons [OF emits_8 emits_Cons [OF _ emits_Nil]] by force

lemma emits_entry:
  "emits e s \<Longrightarrow> emits (puts [put st (amqp_encode_8 k), put st (amqp_encode_bytes key), e]) ((k # key) @ s)"
  using emits_Cons [OF emits_8 emits_Cons [OF emits_bytes emits_Cons [OF _ emits_Nil]]] by force

lemma amqp_encode_field_value_emits: "known v \<Longrightarrow> emits (amqp_encode_field_value v) (wire_value v)"
proof (induction v)
  case (FArray vs)
  then have "emits (amqp_encode_array vs) (sized (wire_array vs))"
    unfolding amqp_encode_array.simps by (auto intro!: emits_size_filled_in emits_map)
  then show ?case
    by (subst amqp_encode_field_value.simps) (simp add: emits_field)
next
  case (FTable t)
  have "emits (amqp_encode_table t) (sized (wire_entries t))"
    unfolding amqp_encode_table.simps
    by (intro emits_size_filled_in emits_map)
      (use FTable in \<open>force intro!: emits_entry simp del: append_Cons\<close>)
  then show ?case
    by (subst amqp_encode_field_value.simps) (simp add: emits_field)
next
  case (FOther k)
  then show ?case by simp
qed (subst amqp_encode_field_value.simps, rule emits_cong, (simp only: amqp_field_value.simps list.simps)?, (rule emits_intros)+, simp add: sized_def)+

lemma amqp_encode_table_emits [emits_intros]:
  assumes "known (FTable t)"
  shows "emits (amqp_encode_table t) (wire_table t)"
  unfolding amqp_encode_table.simps wire_table_def
  by (intro emits_size_filled_in emits_map)
    (use assms in \<open>force intro!: emits_entry amqp_encode_field_value_emits simp del: append_Cons\<close>)

section \<open>The decoder reads it back\<close>

definition reads_result :: "(bytes \<Rightarrow> nat \<Rightarrow> ('a \<times> nat) result) \<Rightarrow> bytes \<Rightarrow> 'a \<Rightarrow> bool" where
  "reads_result d s x = (\<forall>encoded off. stands s encoded off \<longrightarrow> d encoded off = Inr (x, off + length s))"

lemma stands_sized: "stands (sized s) encoded off \<Longrightarrow> length s < 2 ^ 32 \<Longrightarrow>
    amqp_decode_32 encoded off = Some (word_of_nat (length s), off + 4) \<and>
    unat (word_of_nat (length s) :: 32 word) = length s \<and> stands s encoded (off + 4) \<and>
    off + 4 + length s \<le> length encoded"
  by (simp add: sized_def stands_append stands_decode unat_word_of_nat)
    (simp add: stands_def)

lemma wire_value_not_Nil [simp]: "wire_value v \<noteq> []"
  by (cases v) auto

lemma kind_byte_eq [simp]: "kind_byte a = kind_byte b \<longleftrightarrow> a = b"
  by (cases a; cases b; simp)

lemma decode_array_entries_reads:
  assumes "\<And>v. v \<in> set vs \<Longrightarrow> reads_result (amqp_decode_field_value (\<lambda>_. True)) (wire_value v) v"
    and "stands (wire_array vs) encoded off" and "length acc + length vs \<le> 2 ^ 30"
  shows "decode_array_entries (\<lambda>_. True) encoded (off + length (wire_array vs)) acc allocated off =
    Inr (acc @ vs, off + length (wire_array vs))"
  using assms
proof (induction vs arbitrary: acc allocated off)
  case Nil
  then show ?case by (subst decode_array_entries.simps) simp
next
  case (Cons v vs)
  then have "amqp_decode_field_value (\<lambda>_. True) encoded off = Inr (v, off + length (wire_value v))"
    by (simp add: reads_result_def stands_append)
  moreover obtain m where "grown (\<lambda>_. True) sizeof_field_value (length acc) allocated = Inr m"
    using grown_fits [of "length acc"] Cons.prems(3) by fastforce
  ultimately show ?case using Cons.IH [of "off + length (wire_value v)" "acc @ [v]" m] Cons.prems
    by (subst decode_array_entries.simps) (simp add: stands_append add.assoc)
qed

lemma decode_table_entries_reads:
  assumes "\<And>key v. (key, v) \<in> set t \<Longrightarrow> length key < 256 \<and>
      reads_result (amqp_decode_field_value (\<lambda>_. True)) (wire_value v) v"
    and "stands (wire_entries t) encoded off" and "length acc + length t \<le> 2 ^ 30"
  shows "decode_table_entries (\<lambda>_. True) encoded (off + length (wire_entries t)) acc allocated off =
    Inr (acc @ t, off + length (wire_entries t))"
  using assms
proof (induction t arbitrary: acc allocated off)
  case Nil
  then show ?case by (subst decode_table_entries.simps) simp
next
  case (Cons e t)
  obtain key v where e: "e = (key, v)" by (cases e)
  let ?o = "off + 1 + length key"
  from Cons.prems(1) [of key v] e have k: "unat (word_of_nat (length key) :: byte) = length key"
    by (simp add: unat_word_of_nat)
  from Cons.prems(2) e have s: "stands [word_of_nat (length key)] encoded off"
      "stands key encoded (off + 1)" "stands (wire_value v) encoded ?o"
      "stands (wire_entries t) encoded (?o + length (wire_value v))"
    by (simp_all add: stands_append stands_Cons [of _ "_ @ _"] stands_Cons [of _ key] add.assoc)
  with Cons.prems(1) [of key v] e have
    "amqp_decode_field_value (\<lambda>_. True) encoded ?o = Inr (v, ?o + length (wire_value v))"
    by (simp add: reads_result_def)
  moreover have "decode_table_entries (\<lambda>_. True) encoded (?o + length (wire_value v) + length (wire_entries t))
      (acc @ [(key, v)]) n (?o + length (wire_value v)) =
      Inr ((acc @ [(key, v)]) @ t, ?o + length (wire_value v) + length (wire_entries t))" for n
    by (rule Cons.IH) (use Cons.prems(1,3) s(4) in auto)
  moreover obtain m where "grown (\<lambda>_. True) sizeof_table_entry (length acc) allocated = Inr m"
    using grown_fits [of "length acc"] Cons.prems(3) by fastforce
  ultimately show ?case
    using stands_decode(1) [OF s(1)] stands_decode(5) [OF s(2)]
    by (subst decode_table_entries.simps) (simp add: e k add.assoc)
qed

lemma amqp_decode_array_reads:
  assumes "\<And>v. v \<in> set vs \<Longrightarrow> reads_result (amqp_decode_field_value (\<lambda>_. True)) (wire_value v) v"
    and "length (wire_array vs) < 2 ^ 32" and "length vs \<le> 2 ^ 30"
  shows "reads_result (amqp_decode_array (\<lambda>_. True)) (sized (wire_array vs)) vs"
  unfolding reads_result_def
proof (intro allI impI)
  fix encoded off assume "stands (sized (wire_array vs)) encoded off"
  note s = stands_sized [OF this assms(2)]
  with decode_array_entries_reads [where encoded = encoded and off = "off + 4" and acc = "[]", OF assms(1)] assms(3)
  show "amqp_decode_array (\<lambda>_. True) encoded off = Inr (vs, off + length (sized (wire_array vs)))"
    by (subst amqp_decode_array.simps) simp
qed

lemma amqp_decode_table_reads_aux:
  assumes "\<And>key v. (key, v) \<in> set t \<Longrightarrow> length key < 256 \<and>
      reads_result (amqp_decode_field_value (\<lambda>_. True)) (wire_value v) v"
    and "length (wire_entries t) < 2 ^ 32" and "length t \<le> 2 ^ 30"
  shows "reads_result (amqp_decode_table (\<lambda>_. True)) (sized (wire_entries t)) t"
  unfolding reads_result_def
proof (intro allI impI)
  fix encoded off assume "stands (sized (wire_entries t)) encoded off"
  note s = stands_sized [OF this assms(2)]
  with decode_table_entries_reads [where encoded = encoded and off = "off + 4" and acc = "[]", OF assms(1)] assms(3)
  show "amqp_decode_table (\<lambda>_. True) encoded off = Inr (t, off + length (sized (wire_entries t)))"
    by (subst amqp_decode_table.simps) simp
qed

lemma amqp_decode_field_value_reads:
  "known v \<Longrightarrow> short_keys v \<Longrightarrow> sizes_ok v \<Longrightarrow> counts_ok v \<Longrightarrow>
   reads_result (amqp_decode_field_value (\<lambda>_. True)) (wire_value v) v"
proof (induction v)
  case (FArray vs)
  then have "reads_result (amqp_decode_array (\<lambda>_. True)) (sized (wire_array vs)) vs"
    by (intro amqp_decode_array_reads) auto
  then show ?case
    unfolding reads_result_def
    by (subst amqp_decode_field_value.simps)
      (auto simp: stands_Cons [of _ "sized _"] simp: stands_decode(1) simp del: kind_byte.simps)
next
  case (FTable t)
  have "reads_result (amqp_decode_table (\<lambda>_. True)) (sized (wire_entries t)) t"
    by (rule amqp_decode_table_reads_aux) (use FTable in force)+
  then show ?case
    unfolding reads_result_def
    by (subst amqp_decode_field_value.simps)
      (auto simp: stands_Cons [of _ "sized _"] simp: stands_decode(1) simp del: kind_byte.simps)
next
  case (FOther k)
  then show ?case by simp
next
  case (FUtf8 s)
  then show ?case unfolding reads_result_def
    by (subst amqp_decode_field_value.simps)
     (auto simp: decode_scalar_def field_decoder_def stands_Cons [of _ "_ # _"] stands_Cons [of _ "sized _"] 
        stands_decode simp del: kind_byte.simps dest!: stands_sized)
next
  case (FBytes s)
  then show ?case unfolding reads_result_def
    by (subst amqp_decode_field_value.simps)
     (auto simp: decode_scalar_def field_decoder_def stands_Cons [of _ "_ # _"] stands_Cons [of _ "sized _"] 
        stands_decode simp del: kind_byte.simps dest!: stands_sized)
qed (unfold reads_result_def,
   auto simp: amqp_decode_field_value.simps decode_scalar_def field_decoder_def stands_Cons [of _ "_ # _"] stands_Cons [of _ "big_endian _ _"] 
        stands_decode(1-4) simp del: kind_byte.simps)+

lemma amqp_decode_table_reads:
  assumes "table_ok t"
  shows "reads_result (amqp_decode_table (\<lambda>_. True)) (wire_table t) t"
  unfolding wire_table_def
proof (rule amqp_decode_table_reads_aux)
  have ok: "known (FTable t)" "short_keys (FTable t)" "sizes_ok (FTable t)" "counts_ok (FTable t)"
    using assms unfolding table_ok_def by blast+
  then show "length (wire_entries t) < 2 ^ 32" "length t \<le> 2 ^ 30" by simp_all
  show "length key < 256 \<and> reads_result (amqp_decode_field_value (\<lambda>_. True)) (wire_value v) v" if "(key, v) \<in> set t" for key v
  proof
    have "known v" "short_keys v" "sizes_ok v" "counts_ok v" using ok that by auto
    then show "reads_result (amqp_decode_field_value (\<lambda>_. True)) (wire_value v) v" by (rule amqp_decode_field_value_reads)
    show "length key < 256" using ok(2) that by auto
  qed
qed

section \<open>What the decoder returns\<close>

text \<open>Whatever the bytes, the kinds are known and the keys short.\<close>

abbreviation legal :: "amqp_field_value \<Rightarrow> bool" where
  "legal v \<equiv> known v \<and> short_keys v"

lemma decode_scalar_legal: "decode_scalar k encoded off = Inr (v, off') \<Longrightarrow> legal v"
  unfolding decode_scalar_def by (auto split: if_splits option.splits dest!: field_decoder_Inr)

lemma legal_snoc:
  "legal (FArray (vs @ [w])) \<longleftrightarrow> legal (FArray vs) \<and> legal w"
  "legal (FTable (t @ [(key, w)])) \<longleftrightarrow> legal (FTable t) \<and> length key < 256 \<and> legal w"
  by auto

lemma decode_legal:
  "amqp_decode_field_value alloc encoded off = Inr (v, off') \<longrightarrow> legal v"
  "amqp_decode_array alloc encoded off = Inr (vs, off') \<longrightarrow> legal (FArray vs)"
  "legal (FArray vs0) \<longrightarrow> decode_array_entries alloc encoded limit vs0 allocated off = Inr (vs, off') \<longrightarrow>
     legal (FArray vs)"
  "amqp_decode_table alloc encoded off = Inr (t, off') \<longrightarrow> legal (FTable t)"
  "legal (FTable t0) \<longrightarrow> decode_table_entries alloc encoded limit t0 allocated off = Inr (t, off') \<longrightarrow>
     legal (FTable t)"
proof (induct alloc encoded off and alloc encoded off and alloc encoded limit vs0 allocated off
    and alloc encoded off and alloc encoded limit t0 allocated off
    arbitrary: v off' and vs off' and vs off' and t off' and t off'
    rule: amqp_decode_field_value_amqp_decode_array_decode_array_entries_amqp_decode_table_decode_table_entries.induct)
  case (1 alloc encoded off)
  show ?case
  proof (cases "amqp_decode_8 encoded off")
    case (Some p)
    obtain kind off1 where p: "p = (kind, off1)" by (cases p)
    have A: "legal (FArray vs)"
      if "kind = kind_byte KIND_ARRAY" "amqp_decode_array alloc encoded off1 = Inr (vs, o2)" for vs o2
      using 1(1) [OF Some p [symmetric] that(1)] that(2) by blast
    have T: "legal (FTable vs)"
      if "kind = kind_byte KIND_TABLE" "amqp_decode_table alloc encoded off1 = Inr (vs, o2)" for vs o2
      using 1(2) [OF Some p [symmetric] _ that(1)] that by simp
    show ?thesis
    proof
      assume "amqp_decode_field_value alloc encoded off = Inr (v, off')"
      then consider (array) vs where "kind = kind_byte KIND_ARRAY"
          "amqp_decode_array alloc encoded off1 = Inr (vs, off')" "v = FArray vs"
        | (table) t where "kind = kind_byte KIND_TABLE"
          "amqp_decode_table alloc encoded off1 = Inr (t, off')" "v = FTable t"
        | (scalar) "decode_scalar kind encoded off1 = Inr (v, off')"
        by (subst (asm) amqp_decode_field_value.simps)
          (auto simp: Some p simp del: kind_byte.simps split: if_splits sum.splits)
      then show "legal v"
        by cases (use A T decode_scalar_legal in \<open>blast+\<close>)
    qed
  qed (simp add: amqp_decode_field_value.simps)
next
  case (2 alloc encoded off)
  show ?case
  proof (cases "amqp_decode_32 encoded off")
    case (Some p)
    obtain k off1 where p: "p = (k, off1)" by (cases p)
    show ?thesis
    proof (cases "length encoded < unat k + off1 \<or> \<not> alloc (INITIAL_ARRAY_SIZE * sizeof_field_value)")
      case False
      then have "decode_array_entries alloc encoded (off1 + unat k) [] INITIAL_ARRAY_SIZE off1 = Inr (ts, o2) \<Longrightarrow>
          legal (FArray ts)" for ts o2
        using 2 [OF Some p [symmetric]] by simp
      with False show ?thesis
        by (subst amqp_decode_array.simps)
          (auto simp: Some p split: if_splits sum.splits simp del: known.simps short_keys.simps)
    qed (subst amqp_decode_array.simps, auto simp: Some p)
  qed (subst amqp_decode_array.simps, simp)
next
  case (3 alloc encoded limit entries allocated off)
  note eq = decode_array_entries.simps [of alloc encoded limit entries allocated off]
  show ?case
  proof (cases "off < limit")
    case lt: True
    show ?thesis
    proof (cases "grown alloc sizeof_field_value (length entries) allocated")
      case g: (Inr m)
      show ?thesis
      proof (cases "amqp_decode_field_value alloc encoded off")
        case (Inr p)
        obtain w o1 where p: "p = (w, o1)" by (cases p)
        have "legal w" by (rule mp [OF 3(1) [OF lt g] Inr [unfolded p]])
        moreover have "legal (FArray (entries @ [w])) \<longrightarrow>
            decode_array_entries alloc encoded limit (entries @ [w]) m o1 = Inr (vs, off') \<longrightarrow> legal (FArray vs)"
          by (rule 3(2) [OF lt g Inr p [symmetric]])
        ultimately show ?thesis
          unfolding eq legal_snoc by (simp add: lt g Inr p del: known.simps short_keys.simps)
      qed (unfold eq, simp add: lt g)
    qed (unfold eq, simp add: lt)
  qed (unfold eq, simp)
next
  case (4 alloc encoded off)
  show ?case
  proof (cases "amqp_decode_32 encoded off")
    case (Some p)
    obtain k off1 where p: "p = (k, off1)" by (cases p)
    show ?thesis
    proof (cases "length encoded < unat k + off1 \<or> \<not> alloc (INITIAL_TABLE_SIZE * sizeof_table_entry)")
      case False
      then have "decode_table_entries alloc encoded (off1 + unat k) [] INITIAL_TABLE_SIZE off1 = Inr (ts, o2) \<Longrightarrow>
          legal (FTable ts)" for ts o2
        using 4 [OF Some p [symmetric]] by simp
      with False show ?thesis
        by (subst amqp_decode_table.simps)
          (auto simp: Some p split: if_splits sum.splits simp del: known.simps short_keys.simps)
    qed (subst amqp_decode_table.simps, auto simp: Some p)
  qed (subst amqp_decode_table.simps, simp)
next
  case (5 alloc encoded limit entries allocated off)
  note eq = decode_table_entries.simps [of alloc encoded limit entries allocated off]
  show ?case
  proof (cases "off < limit")
    case lt: True
    show ?thesis
    proof (cases "amqp_decode_8 encoded off")
      case s8: (Some p)
      obtain n o1 where p: "p = (n, o1)" by (cases p)
      show ?thesis
      proof (cases "amqp_decode_bytes (unat n) encoded o1")
        case sb: (Some q)
        obtain key o2 where q: "q = (key, o2)" by (cases q)
        with sb decode_prims_bounds(5) have "length key = unat n" by blast
        moreover have "unat n < 2 ^ LENGTH(8)" by (rule unsigned_less)
        ultimately have k: "length key < 256" by simp
        show ?thesis
        proof (cases "amqp_decode_field_value alloc encoded o2")
          case (Inr r)
          obtain w o3 where r: "r = (w, o3)" by (cases r)
          show ?thesis
          proof (cases "grown alloc sizeof_table_entry (length entries) allocated")
            case g: (Inr m)
            have "legal w" by (rule mp [OF 5(1) [OF lt s8 p [symmetric] g sb q [symmetric]] Inr [unfolded r]])
            moreover have "legal (FTable (entries @ [(key, w)])) \<longrightarrow>
                decode_table_entries alloc encoded limit (entries @ [(key, w)]) m o3 = Inr (t, off') \<longrightarrow> legal (FTable t)"
              by (rule 5(2) [OF lt s8 p [symmetric] g sb q [symmetric] Inr r [symmetric]])
            ultimately show ?thesis using k
              unfolding eq legal_snoc
              by (simp add: lt s8 sb g Inr p q r del: known.simps short_keys.simps)
          qed (unfold eq, simp add: lt s8 p)
        qed (unfold eq, simp add: lt s8 sb p q split: sum.splits)
      qed (unfold eq, simp add: lt s8 p split: sum.splits)
    qed (unfold eq, simp add: lt)
  qed (unfold eq, simp)
qed

section \<open>Copies\<close>

fun no_empty_key :: "amqp_field_value \<Rightarrow> bool" where
  "no_empty_key (FArray vs) = (\<forall>v \<in> set vs. no_empty_key v)"
| "no_empty_key (FTable t) = (\<forall>(key, v) \<in> set t. key \<noteq> [] \<and> no_empty_key v)"
| "no_empty_key _ = True"

lemma clone_all_id: "(\<And>x. x \<in> set xs \<Longrightarrow> f x = Inr x) \<Longrightarrow> clone_all (map f xs) = Inr xs"
  by (induction xs) auto

lemma clone_all_Inr: "clone_all (map f xs) = Inr ys \<Longrightarrow> (\<And>x y. x \<in> set xs \<Longrightarrow> f x = Inr y \<Longrightarrow> y = x) \<Longrightarrow> ys = xs"
proof (induction xs arbitrary: ys)
  case (Cons x xs)
  then show ?case by (cases "f x") (auto split: sum.splits)
qed simp

lemma clone_all_error: "x \<in> set xs \<Longrightarrow> f x = Inl st \<Longrightarrow> \<exists>st. clone_all (map f xs) = Inl st"
proof (induction xs)
  case (Cons y xs)
  then show ?case by (cases "f y") (auto split: sum.splits)
qed simp

lemma amqp_field_value_clone_id:
  "known v \<Longrightarrow> no_empty_key v \<Longrightarrow> amqp_field_value_clone (\<lambda>_. True) v = Inr v"
proof (induction v)
  case (FArray vs)
  then have "clone_all (map (amqp_field_value_clone (\<lambda>_. True)) vs) = Inr vs"
    by (intro clone_all_id) auto
  then show ?case by (auto simp: amqp_field_value_clone.simps)
next
  case (FTable t)
  have "clone_all (map (amqp_table_entry_clone (\<lambda>_. True)) t) = Inr t"
    by (rule clone_all_id) (use FTable in \<open>force simp: amqp_table_entry_clone.simps\<close>)
  then show ?case by (auto simp: amqp_field_value_clone.simps amqp_table_clone.simps)
qed (auto simp: amqp_field_value_clone.simps)

lemma amqp_field_value_clone_same:
  "amqp_field_value_clone alloc v = Inr v' \<Longrightarrow> v' = v"
proof (induction v arbitrary: v')
  case (FArray vs)
  have *: "ys = vs" if "clone_all (map (amqp_field_value_clone alloc) vs) = Inr ys" for ys
    using that FArray.IH by (rule clone_all_Inr)
  from FArray.prems show ?case
    by (simp add: amqp_field_value_clone.simps split: if_splits sum.splits) (use * in blast)
next
  case (FTable t)
  have "y = x" if "x \<in> set t" "amqp_table_entry_clone alloc x = Inr y" for x y
  proof (cases x)
    case (Pair key w)
    with that(2) obtain w' where "amqp_field_value_clone alloc w = Inr w'" "y = (key, w')"
      by (auto simp: amqp_table_entry_clone.simps split: if_splits sum.splits)
    with FTable.IH [OF that(1)] Pair show ?thesis by (simp add: snds.simps)
  qed
  then have *: "ys = t" if "clone_all (map (amqp_table_entry_clone alloc) t) = Inr ys" for ys
    using clone_all_Inr [OF that] by blast
  from FTable.prems show ?case
    by (simp add: amqp_field_value_clone.simps amqp_table_clone.simps split: if_splits sum.splits) (use * in blast)
qed (simp_all add: amqp_field_value_clone.simps split: if_splits)

section \<open>Comparison\<close>

text \<open>The order \<open>amqp_table_entry_cmp\<close> decides: lexicographic on the key bytes.\<close>

fun key_less :: "bytes \<Rightarrow> bytes \<Rightarrow> bool" where
  "key_less _ [] = False"
| "key_less [] (b # bs) = True"
| "key_less (a # as) (b # bs) = (a < b \<or> a = b \<and> key_less as bs)"

lemma key_less_total: "key_less xs ys \<or> xs = ys \<or> key_less ys xs"
proof (induction xs arbitrary: ys)
  case Nil
  show ?case by (cases ys) simp_all
next
  case (Cons x xs)
  then show ?case by (cases ys) auto
qed

lemma key_less_asym: "key_less xs ys \<Longrightarrow> \<not> key_less ys xs"
  by (induction xs ys rule: key_less.induct) auto

lemma memcmp_prefix:
  "memcmp xs ys (min (length xs) (length ys)) = 0 \<Longrightarrow>
     key_less xs ys = (length xs < length ys) \<and> (xs = ys \<longleftrightarrow> length xs = length ys)"
  by (induction xs ys rule: key_less.induct) (auto split: if_splits)

lemma memcmp_differs:
  "memcmp xs ys (min (length xs) (length ys)) \<noteq> 0 \<Longrightarrow>
     (key_less xs ys \<longleftrightarrow> memcmp xs ys (min (length xs) (length ys)) < 0) \<and> xs \<noteq> ys"
  by (induction xs ys rule: key_less.induct) (auto split: if_splits)

lemma amqp_table_entry_cmp_eq:
  assumes "length (fst a) < 2 ^ 31" "length (fst b) < 2 ^ 31"
  shows "amqp_table_entry_cmp a b < 0 \<longleftrightarrow> key_less (fst a) (fst b)"
    and "amqp_table_entry_cmp a b = 0 \<longleftrightarrow> fst a = fst b"
proof -
  have m: "(if length (fst b) < length (fst a) then length (fst b) else length (fst a)) =
      min (length (fst a)) (length (fst b))"
    by auto
  show "amqp_table_entry_cmp a b < 0 \<longleftrightarrow> key_less (fst a) (fst b)"
    and "amqp_table_entry_cmp a b = 0 \<longleftrightarrow> fst a = fst b"
    using memcmp_prefix [of "fst a" "fst b"] memcmp_differs [of "fst a" "fst b"]
    unfolding amqp_table_entry_cmp_def Let_def m sint_word_of_nat [OF assms(1)] sint_word_of_nat [OF assms(2)]
    by (auto split: if_splits)
qed

lemma amqp_table_get_entry_by_key_eq:
  "amqp_table_get_entry_by_key t key = find (\<lambda>e. fst e = key) t"
  by (induction t) auto

section \<open>Properties\<close>

text \<open>A table with one entry of each recursive kind, used as the example below.\<close>

definition example_table :: amqp_table where
  "example_table = [([0x61], FArray [FBoolean True, FI16 258]), ([0x62, 0x63], FTable [([0x64], FUtf8 [0x65])])]"

lemma example_table_ok: "table_ok example_table"
  by (simp add: example_table_def table_ok_def sized_def)

text \<open>
  C6: \<open>amqp_encode_table\<close> refines the AMQP representation: on a table that has one, of known kinds, with keys of
  at most 255 bytes and sizes below \<open>2 ^ 32\<close>, it writes exactly the bytes \<open>wire_table t\<close> at the offset, leaves every
  other byte of the buffer alone and moves the offset behind them, when they fit; when they do not it returns an
  error status.
\<close>

theorem encode_table_refines_wire:
  assumes "known (FTable t)" and "short_keys (FTable t)" and "sizes_ok (FTable t)"
  shows "if off + length (wire_table t) \<le> length encoded
    then amqp_encode_table t encoded off =
           Inr (take off encoded @ wire_table t @ drop (off + length (wire_table t)) encoded,
                off + length (wire_table t))
    else \<exists>st. amqp_encode_table t encoded off = Inl st"
proof -
  have "wire_table t \<noteq> []" by (simp add: wire_table_def)
  with amqp_encode_table_emits [OF assms(1)] show ?thesis
    unfolding emits_def by (simp add: patch_def)
qed

theorem encode_table_refines_wire_witness:
  "amqp_encode_table [([1], FU8 7)] [9, 9, 9, 9, 9, 9, 9, 9, 9] 0 = Inr ([0, 0, 0, 4, 1, 1, 66, 7, 9], 8) \<and>
   (\<exists>st. amqp_encode_table [([1], FU8 7)] [9, 9, 9, 9, 9, 9, 9] 0 = Inl st)"
  using encode_table_refines_wire [of "[([1], FU8 7)]" 0 "[9, 9, 9, 9, 9, 9, 9, 9, 9]"]
    encode_table_refines_wire [of "[([1], FU8 7)]" 0 "[9, 9, 9, 9, 9, 9, 9]"]
  by (simp add: wire_table_def sized_def big_endian_4)

text \<open>
  C3: the table codec is a round trip: a table whose keys have at most 255 bytes, whose sizes
  fit 32 bits and whose arrays and tables have at most \<open>2 ^ 30\<close> entries each, encoded anywhere in a buffer, is decoded from there to the same table and to the
  offset the encoder stopped at, when memory does not run out.
\<close>

theorem table_roundtrip:
  assumes "table_ok t" and "amqp_encode_table t encoded off = Inr (encoded', off')"
  shows "amqp_decode_table (\<lambda>_. True) encoded' off = Inr (t, off')"
proof -
  have e: "emits (amqp_encode_table t) (wire_table t)"
    using assms(1) by (intro amqp_encode_table_emits) (simp add: table_ok_def)
  have "wire_table t \<noteq> []" by (simp add: wire_table_def)
  with emits_result [OF e assms(2)] have "encoded' = patch encoded off (wire_table t)"
      "off' = off + length (wire_table t)" "off + length (wire_table t) \<le> length encoded"
    by auto
  with amqp_decode_table_reads [OF assms(1)] show ?thesis
    by (simp add: reads_result_def stands_patch)
qed

theorem table_roundtrip_witness:
  "\<exists>encoded' off'. amqp_encode_table example_table (replicate 40 0) 1 = Inr (encoded', off') \<and>
     amqp_decode_table (\<lambda>_. True) encoded' 1 = Inr (example_table, off')"
proof -
  have "emits (amqp_encode_table example_table) (wire_table example_table)"
    by (rule amqp_encode_table_emits) (simp add: example_table_def)
  moreover have "length (wire_table example_table) < 39"
    by (simp add: example_table_def wire_table_def)
  ultimately have "amqp_encode_table example_table (replicate 40 0) 1 =
      Inr (patch (replicate 40 0) 1 (wire_table example_table), 1 + length (wire_table example_table))"
    by (simp add: emitsD)
  with table_roundtrip [OF example_table_ok this] show ?thesis by blast
qed



text \<open>
  \<open>amqp_encode_table\<close> does not check the length of a key, which it casts to 8 bits: a
  table with a key of 256 bytes or more is encoded without an error, and what it wrote is never
  decoded to that table.
\<close>

theorem encode_table_truncates_keys:
  assumes "known (FTable t)" and "(key, v) \<in> set t" and "256 \<le> length key"
    and "off + length (wire_table t) \<le> length encoded"
  shows "\<exists>encoded' off'. amqp_encode_table t encoded off = Inr (encoded', off') \<and>
    (\<forall>alloc off''. amqp_decode_table alloc encoded' off \<noteq> Inr (t, off''))"
proof -
  have "\<not> short_keys (FTable t)" using assms(2,3) by (auto intro!: bexI [of _ "(key, v)"])
  then have "amqp_decode_table alloc encoded' off \<noteq> Inr (t, off'')" for alloc encoded' off''
    using decode_legal(4) by blast
  with emitsD [OF amqp_encode_table_emits [OF assms(1)] assms(4)] show ?thesis by blast
qed

theorem encode_table_truncates_keys_witness:
  "\<exists>encoded' off'. amqp_encode_table [(replicate 256 0, FVoid)] (replicate 300 0) 0 = Inr (encoded', off') \<and>
    (\<forall>alloc off''. amqp_decode_table alloc encoded' 0 \<noteq> Inr ([(replicate 256 0, FVoid)], off''))"
  by (rule encode_table_truncates_keys [of _ "replicate 256 0" FVoid]) (simp_all add: wire_table_def)

text \<open>
  the size a table announces is checked against the buffer once and bounds only where
  an entry may begin: an entry that begins inside may end outside.  Here the table announces
  one byte and takes three, with no error, and the next field would be read two bytes late.
\<close>

theorem decode_table_overruns_its_size:
  "amqp_decode_table (\<lambda>_. True) [0, 0, 0, 1, 0, kind_byte KIND_BOOLEAN, 1] 0 = Inr ([([], FBoolean True)], 7)"
proof -
  have "amqp_decode_field_value (\<lambda>_. True) [0, 0, 0, 1, 0, kind_byte KIND_BOOLEAN, 1] 5 = Inr (FBoolean True, 7)"
    by (subst amqp_decode_field_value.simps)
      (simp add: decode_prims amqp_d8_def decode_scalar_def field_decoder_def del: kind_byte.simps)
  moreover have "amqp_decode_32 [0, 0, 0, 1, 0, kind_byte KIND_BOOLEAN, 1] 0 = Some (1, 4)"
    using stands_decode(3) [of 1 "[0, 0, 0, 1, 0, kind_byte KIND_BOOLEAN, 1]" 0]
    by (simp add: stands_def big_endian_4)
  ultimately show ?thesis
    by (subst amqp_decode_table.simps, simp, subst decode_table_entries.simps,
        simp add: decode_prims amqp_d8_def grown_def INITIAL_TABLE_SIZE_def del: kind_byte.simps,
        subst decode_table_entries.simps, simp)
qed

text \<open>
  \<open>amqp_table_clone\<close> copies: whatever it returns without an error equals the original; and
  when memory does not run out it succeeds on every table of known kinds without an empty key,
  while a table with an empty key, which the decoder accepts, is refused.
\<close>

theorem table_clone_copies:
  "(amqp_table_clone alloc t = Inr t' \<longrightarrow> t' = t) \<and>
   (known (FTable t) \<and> no_empty_key (FTable t) \<longrightarrow> amqp_table_clone (\<lambda>_. True) t = Inr t) \<and>
   (([], v) \<in> set t \<longrightarrow> (\<exists>st. amqp_table_clone alloc t = Inl st))"
proof (intro conjI impI)
  assume "amqp_table_clone alloc t = Inr t'"
  then show "t' = t"
    using amqp_field_value_clone_same [of alloc "FTable t" "FTable t'"]
    by (simp add: amqp_field_value_clone.simps)
next
  assume "known (FTable t) \<and> no_empty_key (FTable t)"
  then show "amqp_table_clone (\<lambda>_. True) t = Inr t"
    using amqp_field_value_clone_id [of "FTable t"]
    by (auto simp: amqp_field_value_clone.simps split: sum.splits)
next
  assume "([], v) \<in> set t"
  then show "\<exists>st. amqp_table_clone alloc t = Inl st"
    using clone_all_error [of "([], v)" t "amqp_table_entry_clone alloc"]
    by (auto simp: amqp_table_clone.simps amqp_table_entry_clone.simps)
qed

theorem table_clone_copies_witness:
  "amqp_table_clone (\<lambda>_. True) example_table = Inr example_table \<and>
   (\<exists>st. amqp_table_clone (\<lambda>_. True) [([], FVoid)] = Inl st)"
  using table_clone_copies [of "\<lambda>_. True" example_table example_table FVoid]
    table_clone_copies [of "\<lambda>_. True" "[([], FVoid)]" "[]" FVoid]
  by (simp add: example_table_def)

text \<open>
  \<open>amqp_table_entry_cmp\<close> is the comparison of a total order, the lexicographic order of the
  keys as unsigned bytes: its sign is negative exactly when the first key comes before, and zero
  exactly for equal keys, as long as the keys are shorter than \<open>2 ^ 31\<close>.
\<close>

theorem table_entry_cmp_lexicographic:
  assumes "length (fst a) < 2 ^ 31" and "length (fst b) < 2 ^ 31"
  shows "(amqp_table_entry_cmp a b < 0 \<longleftrightarrow> key_less (fst a) (fst b)) \<and>
    (amqp_table_entry_cmp a b = 0 \<longleftrightarrow> fst a = fst b) \<and>
    (amqp_table_entry_cmp a b > 0 \<longleftrightarrow> key_less (fst b) (fst a))"
  using amqp_table_entry_cmp_eq [OF assms] key_less_total [of "fst a" "fst b"]
    key_less_asym [of "fst a" "fst b"] key_less_asym [of "fst a" "fst a"]
  by (cases "amqp_table_entry_cmp a b" "0 :: int" rule: linorder_cases) auto

theorem table_entry_cmp_lexicographic_witness:
  "amqp_table_entry_cmp ([1, 2], FVoid) ([1, 255], FVoid) < 0 \<and> key_less [1, 2] [1, 255]"
  using table_entry_cmp_lexicographic [of "([1, 2], FVoid)" "([1, 255], FVoid)"] by simp

end
