(* ===== verification/AMQP_Codec.thy ===== *)
theory AMQP_Codec
  imports AMQP_Table_Correct
begin

text \<open>
  The idioms of \<open>amqp_framing.c\<close>, from which its methods are built, and the contract that pairs
  an encoder with a decoder.  A \<open>get\<close> reads one field and hands it to the rest of the decoder,
  or returns the error status; a \<open>put\<close> writes one field.
\<close>

section \<open>Reading fields\<close>

type_synonym 'r decoder = "bytes \<Rightarrow> nat \<Rightarrow> ('r \<times> nat) result"

definition get_8 :: "(8 word \<Rightarrow> 'r decoder) \<Rightarrow> 'r decoder" where
  "get_8 k encoded off = (case amqp_decode_8 encoded off of
     None \<Rightarrow> Inl STATUS_BAD_AMQP_DATA | Some (v, off') \<Rightarrow> k v encoded off')"

definition get_16 :: "(16 word \<Rightarrow> 'r decoder) \<Rightarrow> 'r decoder" where
  "get_16 k encoded off = (case amqp_decode_16 encoded off of
     None \<Rightarrow> Inl STATUS_BAD_AMQP_DATA | Some (v, off') \<Rightarrow> k v encoded off')"

definition get_32 :: "(32 word \<Rightarrow> 'r decoder) \<Rightarrow> 'r decoder" where
  "get_32 k encoded off = (case amqp_decode_32 encoded off of
     None \<Rightarrow> Inl STATUS_BAD_AMQP_DATA | Some (v, off') \<Rightarrow> k v encoded off')"

definition get_64 :: "(64 word \<Rightarrow> 'r decoder) \<Rightarrow> 'r decoder" where
  "get_64 k encoded off = (case amqp_decode_64 encoded off of
     None \<Rightarrow> Inl STATUS_BAD_AMQP_DATA | Some (v, off') \<Rightarrow> k v encoded off')"

text \<open>A short string has an 8-bit length, a long string a 32-bit one.\<close>

definition get_short :: "(bytes \<Rightarrow> 'r decoder) \<Rightarrow> 'r decoder" where
  "get_short k encoded off = (case amqp_decode_8 encoded off of
     None \<Rightarrow> Inl STATUS_BAD_AMQP_DATA
   | Some (n, off1) \<Rightarrow> (case amqp_decode_bytes (unat n) encoded off1 of
       None \<Rightarrow> Inl STATUS_BAD_AMQP_DATA | Some (s, off') \<Rightarrow> k s encoded off'))"

definition get_long :: "(bytes \<Rightarrow> 'r decoder) \<Rightarrow> 'r decoder" where
  "get_long k encoded off = (case amqp_decode_32 encoded off of
     None \<Rightarrow> Inl STATUS_BAD_AMQP_DATA
   | Some (n, off1) \<Rightarrow> (case amqp_decode_bytes (unat n) encoded off1 of
       None \<Rightarrow> Inl STATUS_BAD_AMQP_DATA | Some (s, off') \<Rightarrow> k s encoded off'))"

definition get_table :: "(nat \<Rightarrow> bool) \<Rightarrow> (amqp_table \<Rightarrow> 'r decoder) \<Rightarrow> 'r decoder" where
  "get_table alloc k encoded off = (case amqp_decode_table alloc encoded off of
     Inl st \<Rightarrow> Inl st | Inr (t, off') \<Rightarrow> k t encoded off')"

text \<open>
  \<open>amqp_pool_alloc\<close> of the structure comes first; \<open>*decoded = m; return 0\<close> last.  \<open>flag\<close> is
  \<open>(bit_buffer & (1 << i)) ? 1 : 0\<close>, \<open>bit_buffer\<close> the byte the \<open>if (m->f) bit_buffer |= (1 << i)\<close>
  build.
\<close>

definition pool_alloc :: "(nat \<Rightarrow> bool) \<Rightarrow> nat \<Rightarrow> 'r decoder \<Rightarrow> 'r decoder" where
  "pool_alloc alloc n d encoded off = (if \<not> alloc n then Inl STATUS_NO_MEMORY else d encoded off)"

definition got :: "'r \<Rightarrow> 'r decoder" where
  "got r encoded off = Inr (r, off)"

definition flag :: "8 word \<Rightarrow> nat \<Rightarrow> bool" where
  "flag bits i = (bits AND push_bit i 1 \<noteq> 0)"

fun set_bits_from :: "nat \<Rightarrow> bool list \<Rightarrow> 8 word \<Rightarrow> 8 word" where
  "set_bits_from i [] bits = bits"
| "set_bits_from i (b # bs) bits = set_bits_from (Suc i) bs (if b then bits OR push_bit i 1 else bits)"

definition bit_buffer :: "bool list \<Rightarrow> 8 word" where
  "bit_buffer bs = set_bits_from 0 bs 0"

section \<open>Writing fields\<close>

definition put_8 :: "8 word \<Rightarrow> encoder" where
  "put_8 v = put STATUS_BAD_AMQP_DATA (amqp_encode_8 v)"

definition put_16 :: "16 word \<Rightarrow> encoder" where
  "put_16 v = put STATUS_BAD_AMQP_DATA (amqp_encode_16 v)"

definition put_32 :: "32 word \<Rightarrow> encoder" where
  "put_32 v = put STATUS_BAD_AMQP_DATA (amqp_encode_32 v)"

definition put_64 :: "64 word \<Rightarrow> encoder" where
  "put_64 v = put STATUS_BAD_AMQP_DATA (amqp_encode_64 v)"

definition put_short :: "bytes \<Rightarrow> encoder" where
  "put_short s = (if 2 ^ 8 - 1 < length s then (\<lambda>encoded off. Inl STATUS_BAD_AMQP_DATA)
     else puts [put STATUS_BAD_AMQP_DATA (amqp_encode_8 (word_of_nat (length s))),
                put STATUS_BAD_AMQP_DATA (amqp_encode_bytes s)])"

definition put_long :: "bytes \<Rightarrow> encoder" where
  "put_long s = (if 2 ^ 32 - 1 < length s then (\<lambda>encoded off. Inl STATUS_BAD_AMQP_DATA)
     else puts [put STATUS_BAD_AMQP_DATA (amqp_encode_32 (word_of_nat (length s))),
                put STATUS_BAD_AMQP_DATA (amqp_encode_bytes s)])"

definition put_table :: "amqp_table \<Rightarrow> encoder" where
  "put_table t = amqp_encode_table t"

lemma emits_fields [emits_intros]:
  "emits (put_8 a) [a]" "emits (put_16 b) (big_endian 2 b)" "emits (put_32 c) (big_endian 4 c)"
  "emits (put_64 d) (big_endian 8 d)"
  by (simp_all add: put_8_def put_16_def put_32_def put_64_def emits_intros)

lemma emits_short [emits_intros]:
  "length s \<le> 255 \<Longrightarrow> emits (put_short s) ([word_of_nat (length s)] @ (s @ []))"
  unfolding put_short_def by (simp del: puts.simps append.simps append_Nil2) (intro emits_intros)

lemma emits_long [emits_intros]:
  "length s < 2 ^ 32 \<Longrightarrow> emits (put_long s) (big_endian 4 (word_of_nat (length s) :: 32 word) @ (s @ []))"
  unfolding put_long_def by (simp del: puts.simps append.simps append_Nil2) (intro emits_intros)

lemma emits_table [emits_intros]: "known (FTable t) \<Longrightarrow> emits (put_table t) (wire_table t)"
  unfolding put_table_def by (rule amqp_encode_table_emits)

section \<open>The contract of a codec\<close>

text \<open>
  \<open>codec e d r\<close>: the encoder \<open>e\<close> either refuses whatever the buffer, or there are bytes it writes
  and fails only for lack of room, and where these bytes stand \<open>d\<close> reads \<open>r\<close>.
\<close>

definition codec :: "encoder \<Rightarrow> 'r decoder \<Rightarrow> 'r \<Rightarrow> bool" where
  "codec e d r \<longleftrightarrow> (\<forall>encoded off. \<exists>st. e encoded off = Inl st) \<or> (\<exists>s. emits e s \<and> reads_result d s r)"

named_theorems codec_intros "codecs of the fields"

lemma codec_got [codec_intros]: "r = r' \<Longrightarrow> codec (puts []) (got r) r'"
  unfolding codec_def reads_result_def got_def
  by (rule disjI2, rule exI [of _ "[]"]) (simp add: emits_Nil)

lemma codec_pool_alloc [codec_intros]: "codec e d r \<Longrightarrow> codec e (pool_alloc (\<lambda>_. True) n d) r"
  by (simp add: codec_def reads_result_def pool_alloc_def)

lemma codec_step:
  assumes e: "emits e s"
    and d: "\<And>encoded off. stands s encoded off \<Longrightarrow> d encoded off = k x encoded (off + length s)"
    and c: "codec (puts es) (k x) r"
  shows "codec (puts (e # es)) d r"
  using c unfolding codec_def
proof (elim disjE exE conjE)
  assume *: "\<forall>encoded off. \<exists>st. puts es encoded off = Inl st"
  have "\<exists>st. puts (e # es) encoded off = Inl st" for encoded off
    using * by (cases "e encoded off") auto
  then show "(\<forall>encoded off. \<exists>st. puts (e # es) encoded off = Inl st) \<or>
      (\<exists>s. emits (puts (e # es)) s \<and> reads_result d s r)"
    by blast
next
  fix t assume t: "emits (puts es) t" "reads_result (k x) t r"
  have "reads_result d (s @ t) r"
    using t(2) d by (simp add: reads_result_def stands_append add.assoc)
  with emits_Cons [OF e t(1)] show "(\<forall>encoded off. \<exists>st. puts (e # es) encoded off = Inl st) \<or>
      (\<exists>s. emits (puts (e # es)) s \<and> reads_result d s r)"
    by blast
qed

lemma codec_refused: "(\<And>encoded off. \<exists>st. e encoded off = Inl st) \<Longrightarrow> codec (puts (e # es)) d r"
  unfolding codec_def
  by (rule disjI1) (auto, metis old.sum.simps(5))

lemma codec_8 [codec_intros]: "codec (puts es) (k v) r \<Longrightarrow> codec (puts (put_8 v # es)) (get_8 k) r"
  unfolding put_8_def by (rule codec_step [OF emits_8]) (simp_all add: get_8_def stands_decode(1))

lemma codec_16 [codec_intros]: "codec (puts es) (k v) r \<Longrightarrow> codec (puts (put_16 v # es)) (get_16 k) r"
  unfolding put_16_def by (rule codec_step [OF emits_16]) (simp_all add: get_16_def stands_decode(2))

lemma codec_32 [codec_intros]: "codec (puts es) (k v) r \<Longrightarrow> codec (puts (put_32 v # es)) (get_32 k) r"
  unfolding put_32_def by (rule codec_step [OF emits_32]) (simp_all add: get_32_def stands_decode(3))

lemma codec_64 [codec_intros]: "codec (puts es) (k v) r \<Longrightarrow> codec (puts (put_64 v # es)) (get_64 k) r"
  unfolding put_64_def by (rule codec_step [OF emits_64]) (simp_all add: get_64_def stands_decode(4))

lemma codec_short [codec_intros]:
  assumes "codec (puts es) (k s) r"
  shows "codec (puts (put_short s # es)) (get_short k) r"
proof (cases "255 < length s")
  case True
  then show ?thesis by (intro codec_refused) (simp add: put_short_def)
next
  case False
  then have n: "unat (word_of_nat (length s) :: byte) = length s"
    by (intro unat_word_of_nat) simp
  from False have "emits (put_short s) ([word_of_nat (length s)] @ (s @ []))"
    by (intro emits_short) simp
  then show ?thesis
  proof (rule codec_step)
    fix encoded off assume "stands ([word_of_nat (length s)] @ (s @ [])) encoded off"
    then have "amqp_decode_8 encoded off = Some (word_of_nat (length s), off + 1)"
      "amqp_decode_bytes (length s) encoded (off + 1) = Some (s, off + 1 + length s)"
      using stands_decode(1,5) unfolding stands_append by (force+)
    with n show "get_short k encoded off = k s encoded (off + length ([word_of_nat (length s)] @ (s @ [])))"
      by (simp add: get_short_def)
  qed (rule assms)
qed

lemma codec_long [codec_intros]:
  assumes "codec (puts es) (k s) r"
  shows "codec (puts (put_long s # es)) (get_long k) r"
proof (cases "2 ^ 32 - 1 < length s")
  case True
  then show ?thesis by (intro codec_refused) (simp add: put_long_def)
next
  case False
  then have n: "unat (word_of_nat (length s) :: 32 word) = length s"
    by (intro unat_word_of_nat) simp
  let ?n = "big_endian 4 (word_of_nat (length s) :: 32 word)"
  from False have "emits (put_long s) (?n @ (s @ []))"
    by (intro emits_long) simp
  then show ?thesis
  proof (rule codec_step)
    fix encoded off assume "stands (?n @ (s @ [])) encoded off"
    then have "amqp_decode_32 encoded off = Some (word_of_nat (length s), off + 4)"
      "amqp_decode_bytes (length s) encoded (off + 4) = Some (s, off + 4 + length s)"
      using stands_decode(3,5) unfolding stands_append by (force+)
    with n show "get_long k encoded off = k s encoded (off + length (?n @ (s @ [])))"
      by (simp add: get_long_def add.assoc)
  qed (rule assms)
qed

lemma codec_table [codec_intros]:
  "table_ok t \<Longrightarrow> codec (puts es) (k t) r \<Longrightarrow> codec (puts (put_table t # es)) (get_table (\<lambda>_. True) k) r"
  unfolding put_table_def
  by (rule codec_step [OF amqp_encode_table_emits])
    (use amqp_decode_table_reads in \<open>auto simp: get_table_def reads_result_def table_ok_def\<close>)

text \<open>What a codec gives: the round trip, and success exactly when the bytes fit.\<close>

lemma codec_size:
  assumes "codec e d r" and "e encoded off = Inr (encoded', off')" and "off \<le> length encoded"
  shows "off \<le> off' \<and> off' \<le> length encoded \<and> length encoded' = length encoded \<and>
    (\<forall>buf. off' \<le> length buf \<longrightarrow>
       e buf off = Inr (take off buf @ drop off (take off' encoded') @ drop off' buf, off')) \<and>
    (\<forall>buf. off \<le> length buf \<and> length buf < off' \<longrightarrow> (\<exists>st. e buf off = Inl st))"
proof -
  from assms(1,2) obtain s where s: "emits e s"
    unfolding codec_def by (metis Inl_Inr_False)
  from emits_result [OF s assms(2)] assms(3) have r: "encoded' = patch encoded off s"
      "off' = off + length s" "off + length s \<le> length encoded"
    by auto
  then have "drop off (take off' encoded') = s" by (simp add: patch_def)
  moreover have "\<exists>st. e buf off = Inl st" if "off \<le> length buf" "length buf < off + length s" for buf
    by (rule emits_fails [OF s]) (use that in auto)
  ultimately show ?thesis using r s
    by (auto simp: emitsD patch_def)
qed

lemma codec_reads:
  assumes "codec e d r" and "e encoded 0 = Inr (encoded', n)"
  shows "d (take n encoded' @ rest) 0 = Inr (r, n)"
proof -
  from assms(1,2) obtain s where s: "emits e s" "reads_result d s r"
    unfolding codec_def by (metis Inl_Inr_False)
  with emits_result [OF s(1) assms(2)] have "take n encoded' = s" "n = length s"
    by (auto simp: patch_def)
  with s(2) show ?thesis by (simp add: reads_result_def stands_def)
qed

text \<open>
  The interface between the structures of the protocol and the buffers they travel in: an
  encoder, a decoder for each value, the values it covers and what is decoded for them.
\<close>

locale wire_codec =
  fixes enc :: "'m \<Rightarrow> encoder" and dec :: "'m \<Rightarrow> 'r decoder"
    and covered :: "'m \<Rightarrow> bool" and res :: "'m \<Rightarrow> 'r"
  assumes is_codec: "covered m \<Longrightarrow> codec (enc m) (dec m) (res m)"
begin

lemma roundtrip:
  "covered m \<Longrightarrow> enc m encoded 0 = Inr (encoded', n) \<Longrightarrow> dec m (take n encoded' @ rest) 0 = Inr (res m, n)"
  by (rule codec_reads [OF is_codec])

lemma exact_size:
  assumes "covered m" and "enc m encoded 0 = Inr (encoded', n)"
  shows "n \<le> length encoded \<and> length encoded' = length encoded \<and> drop n encoded' = drop n encoded \<and>
    (\<forall>buf. n \<le> length buf \<longrightarrow> enc m buf 0 = Inr (take n encoded' @ drop n buf, n)) \<and>
    (\<forall>buf. length buf < n \<longrightarrow> (\<exists>st. enc m buf 0 = Inl st))"
proof -
  have *: "n \<le> length encoded \<and> length encoded' = length encoded \<and>
    (\<forall>buf. n \<le> length buf \<longrightarrow> enc m buf 0 = Inr (take n encoded' @ drop n buf, n)) \<and>
    (\<forall>buf. length buf < n \<longrightarrow> (\<exists>st. enc m buf 0 = Inl st))"
    using codec_size [OF is_codec [OF assms(1)] assms(2)] by simp
  then have "enc m encoded 0 = Inr (take n encoded' @ drop n encoded, n)" by blast
  with assms(2) have "encoded' = take n encoded' @ drop n encoded" by simp
  with * show ?thesis by (metis append_take_drop_id same_append_eq)
qed

end

interpretation table_codec: wire_codec put_table "\<lambda>_. get_table (\<lambda>_. True) got" table_ok "\<lambda>t. t"
proof
  fix t assume "table_ok t"
  then have "codec (puts [put_table t]) (get_table (\<lambda>_. True) got) t"
    by (intro codec_intros refl)
  moreover have "puts [put_table t] = put_table t"
    by (intro ext) (auto split: sum.split)
  ultimately show "codec (put_table t) (get_table (\<lambda>_. True) got) t" by simp
qed

section \<open>Decoding arbitrary bytes\<close>

text \<open>
  \<open>safe Q d\<close>: whatever the buffer, \<open>d\<close> returns an error of two kinds, or a result with \<open>Q\<close> and
  an offset not before the one it began at and inside the buffer.  A third is not an error of the code: in a buffer
  of more than \<open>2 ^ 30\<close> bytes the count of the entries of a table can overflow.
\<close>

abbreviation decode_status :: "bytes \<Rightarrow> amqp_status \<Rightarrow> bool" where
  "decode_status encoded st \<equiv> st = STATUS_NO_MEMORY \<or> st = STATUS_BAD_AMQP_DATA \<or> st = UNDEFINED \<and> 2 ^ 30 < length encoded"

definition fine :: "('r \<Rightarrow> bool) \<Rightarrow> bytes \<Rightarrow> nat \<Rightarrow> ('r \<times> nat) result \<Rightarrow> bool" where
  "fine Q encoded off res = (case res of
     Inl st \<Rightarrow> decode_status encoded st
   | Inr (r, off') \<Rightarrow> Q r \<and> off \<le> off' \<and> off' \<le> length encoded)"

definition safe :: "('r \<Rightarrow> bool) \<Rightarrow> 'r decoder \<Rightarrow> bool" where
  "safe Q d \<longleftrightarrow> (\<forall>encoded off. off \<le> length encoded \<longrightarrow> fine Q encoded off (d encoded off))"

named_theorems safe_intros "safety of the decoders"

lemma fine_error [simp]:
  "fine Q encoded off (Inl st) \<longleftrightarrow> decode_status encoded st"
  by (simp add: fine_def)

lemma fine_mono: "fine Q encoded off' res \<Longrightarrow> off \<le> off' \<Longrightarrow> fine Q encoded off res"
  unfolding fine_def by (cases res) auto

lemma safe_later:
  "safe Q d \<Longrightarrow> off \<le> off' \<Longrightarrow> off' \<le> length encoded \<Longrightarrow> fine Q encoded off (d encoded off')"
  by (rule fine_mono [of _ _ off']) (simp_all add: safe_def)

lemma safe_got [safe_intros]: "Q r \<Longrightarrow> safe Q (got r)"
  by (simp add: safe_def got_def fine_def)

lemma safe_pool_alloc [safe_intros]: "safe Q d \<Longrightarrow> safe Q (pool_alloc alloc n d)"
  by (simp add: safe_def pool_alloc_def)

lemma safe_8 [safe_intros]: "(\<And>v. safe Q (k v)) \<Longrightarrow> safe Q (get_8 k)"
  unfolding safe_def [of _ "get_8 k"] get_8_def
  by (auto split: option.split intro!: safe_later dest!: decode_prims_bounds)

lemma safe_16 [safe_intros]: "(\<And>v. safe Q (k v)) \<Longrightarrow> safe Q (get_16 k)"
  unfolding safe_def [of _ "get_16 k"] get_16_def
  by (auto split: option.split intro!: safe_later dest!: decode_prims_bounds)

lemma safe_32 [safe_intros]: "(\<And>v. safe Q (k v)) \<Longrightarrow> safe Q (get_32 k)"
  unfolding safe_def [of _ "get_32 k"] get_32_def
  by (auto split: option.split intro!: safe_later dest!: decode_prims_bounds)

lemma safe_64 [safe_intros]: "(\<And>v. safe Q (k v)) \<Longrightarrow> safe Q (get_64 k)"
  unfolding safe_def [of _ "get_64 k"] get_64_def
  by (auto split: option.split intro!: safe_later dest!: decode_prims_bounds)

lemma safe_short [safe_intros]: "(\<And>v. safe Q (k v)) \<Longrightarrow> safe Q (get_short k)"
  unfolding safe_def [of _ "get_short k"] get_short_def
  by (auto split: option.split intro!: safe_later dest!: decode_prims_bounds)

lemma safe_long [safe_intros]: "(\<And>v. safe Q (k v)) \<Longrightarrow> safe Q (get_long k)"
  unfolding safe_def [of _ "get_long k"] get_long_def
  by (auto split: option.split intro!: safe_later dest!: decode_prims_bounds)

lemma decode_scalar_status: "decode_scalar k encoded off = Inl st \<Longrightarrow> st = STATUS_BAD_AMQP_DATA"
  unfolding decode_scalar_def field_decoder_def by (auto split: if_splits option.splits)

lemma grown_status:
  assumes "grown alloc k n allocated = Inl st" and "n < length encoded"
  shows "decode_status encoded st"
proof (cases "INT_MAX < int (allocated * 2)")
  case True
  with assms show ?thesis by (auto simp: grown_def int_limits split: if_splits)
qed (use assms in \<open>auto simp: grown_def split: if_splits\<close>)

lemma decode_status:
  "amqp_decode_field_value alloc encoded off = Inl st \<longrightarrow> decode_status encoded st"
  "amqp_decode_array alloc encoded off = Inl st \<longrightarrow> decode_status encoded st"
  "length vs0 \<le> off \<and> limit \<le> length encoded \<longrightarrow>
     decode_array_entries alloc encoded limit vs0 allocated off = Inl st \<longrightarrow> decode_status encoded st"
  "amqp_decode_table alloc encoded off = Inl st \<longrightarrow> decode_status encoded st"
  "length t0 \<le> off \<and> limit \<le> length encoded \<longrightarrow>
     decode_table_entries alloc encoded limit t0 allocated off = Inl st \<longrightarrow> decode_status encoded st"
proof (induct alloc encoded off and alloc encoded off and alloc encoded limit vs0 allocated off
    and alloc encoded off and alloc encoded limit t0 allocated off
    rule: amqp_decode_field_value_amqp_decode_array_decode_array_entries_amqp_decode_table_decode_table_entries.induct)
  case (1 alloc encoded off)
  then show ?case
    unfolding amqp_decode_field_value.simps [of alloc encoded off]
    by (auto split: option.split prod.split sum.split dest: decode_scalar_status simp del: kind_byte.simps)
next
  case (2 alloc encoded off)
  then show ?case
    unfolding amqp_decode_array.simps [of alloc encoded off]
    by (auto split: option.split prod.split sum.split)
next
  case (3 alloc encoded limit entries allocated off)
  note eq = decode_array_entries.simps [of alloc encoded limit entries allocated off]
  show ?case
  proof (intro impI)
    assume pre: "length entries \<le> off \<and> limit \<le> length encoded"
      and st: "decode_array_entries alloc encoded limit entries allocated off = Inl st"
    from st have lt: "off < limit" unfolding eq by (simp split: if_splits)
    show "decode_status encoded st"
    proof (cases "grown alloc sizeof_field_value (length entries) allocated")
      case (Inl a)
      with grown_status [OF Inl] pre lt st show ?thesis unfolding eq by auto
    next
      case g: (Inr m)
      show ?thesis
      proof (cases "amqp_decode_field_value alloc encoded off")
        case (Inl a)
        with 3(1) [OF lt g] st lt g show ?thesis unfolding eq by auto
      next
        case (Inr p)
        obtain w o1 where p: "p = (w, o1)" by (cases p)
        have "off < o1" using amqp_decode_field_value_bounds Inr p by blast
        with 3(2) [OF lt g Inr p [symmetric]] st pre lt g Inr p show ?thesis unfolding eq by auto
      qed
    qed
  qed
next
  case (4 alloc encoded off)
  then show ?case
    unfolding amqp_decode_table.simps [of alloc encoded off]
    by (auto split: option.split prod.split sum.split)
next
  case (5 alloc encoded limit entries allocated off)
  note eq = decode_table_entries.simps [of alloc encoded limit entries allocated off]
  show ?case
  proof (intro impI)
    assume pre: "length entries \<le> off \<and> limit \<le> length encoded"
      and st: "decode_table_entries alloc encoded limit entries allocated off = Inl st"
    from st have lt: "off < limit" unfolding eq by (simp split: if_splits)
    show "decode_status encoded st"
    proof (cases "amqp_decode_8 encoded off")
      case s8: (Some p)
      obtain n o1 where p: "p = (n, o1)" by (cases p)
      note o1 = decode_prims_bounds(1) [OF s8 [unfolded p]]
      show ?thesis
      proof (cases "grown alloc sizeof_table_entry (length entries) allocated")
        case (Inl a)
        with grown_status [OF Inl] pre lt st s8 p show ?thesis unfolding eq by auto
      next
        case g: (Inr m)
        show ?thesis
        proof (cases "amqp_decode_bytes (unat n) encoded o1")
          case sb: (Some q)
          obtain key o2 where q: "q = (key, o2)" by (cases q)
          note o2 = decode_prims_bounds(5) [OF sb [unfolded q]]
          show ?thesis
          proof (cases "amqp_decode_field_value alloc encoded o2")
            case (Inl a)
            with 5(1) [OF lt s8 p [symmetric] g sb q [symmetric]] st lt s8 p g sb q show ?thesis unfolding eq by auto
          next
            case (Inr r)
            obtain w o3 where r: "r = (w, o3)" by (cases r)
            have "o2 < o3" using amqp_decode_field_value_bounds Inr r by blast
            with 5(2) [OF lt s8 p [symmetric] g sb q [symmetric] Inr r [symmetric]] st pre lt s8 p g sb q Inr r o1 o2
            show ?thesis unfolding eq by auto
          qed
        qed (use st lt s8 p g in \<open>unfold eq, auto\<close>)
      qed
    qed (use st lt in \<open>unfold eq, auto\<close>)
  qed
qed

lemma safe_table [safe_intros]:
  assumes "\<And>t. legal (FTable t) \<Longrightarrow> safe Q (k t)"
  shows "safe Q (get_table alloc k)"
  unfolding safe_def [of _ "get_table alloc k"]
proof (intro allI impI)
  fix encoded :: bytes and off assume "off \<le> length encoded"
  show "fine Q encoded off (get_table alloc k encoded off)"
  proof (cases "amqp_decode_table alloc encoded off")
    case (Inl st)
    with decode_status(4) show ?thesis by (auto simp: get_table_def)
  next
    case (Inr p)
    obtain t off' where p: "p = (t, off')" by (cases p)
    from Inr p decode_legal(4) have "safe Q (k t)" by (intro assms) blast
    with Inr p amqp_decode_table_bounds [of alloc encoded off t off'] show ?thesis
      by (simp add: get_table_def safe_later)
  qed
qed

section \<open>Bits\<close>

lemma bit_set_bits_from:
  "bit (set_bits_from n bs w) j \<longleftrightarrow> bit w j \<or> (n \<le> j \<and> j < n + length bs \<and> bs ! (j - n) \<and> j < 8)"
proof (induction bs arbitrary: n w j)
  case (Cons b bs)
  show ?case
    by (cases "j = n") (auto simp: Cons.IH bit_simps nth_Cons' Suc_diff_Suc)
qed auto

lemma flag_bit_buffer: "i < length bs \<Longrightarrow> length bs \<le> 8 \<Longrightarrow> flag (bit_buffer bs) i = bs ! i"
  by (simp add: flag_def and_exp_eq_0_iff_not_bit bit_buffer_def bit_set_bits_from)

end
