(* ===== verification/AMQP_Methods.thy ===== *)
theory AMQP_Methods
  imports AMQP_Codec
begin

text \<open>
  The methods of AMQP 0-9-1 (\<open>amqp_framing.h\<close> and the tables of \<open>amqp_framing.c\<close>): their numbers,
  their structures, their names, and the constants.  Each structure \<open>amqp_<class>_<method>_t\<close> is a
  constructor with the structure's fields in their order; an \<open>amqp_boolean_t\<close> is a \<open>bool\<close>.
\<close>

section \<open>Method numbers\<close>

abbreviation AMQP_CONNECTION_START_METHOD :: "32 word" where
  "AMQP_CONNECTION_START_METHOD \<equiv> 0x000A000A"

abbreviation AMQP_CONNECTION_START_OK_METHOD :: "32 word" where
  "AMQP_CONNECTION_START_OK_METHOD \<equiv> 0x000A000B"

abbreviation AMQP_CONNECTION_SECURE_METHOD :: "32 word" where
  "AMQP_CONNECTION_SECURE_METHOD \<equiv> 0x000A0014"

abbreviation AMQP_CONNECTION_SECURE_OK_METHOD :: "32 word" where
  "AMQP_CONNECTION_SECURE_OK_METHOD \<equiv> 0x000A0015"

abbreviation AMQP_CONNECTION_TUNE_METHOD :: "32 word" where
  "AMQP_CONNECTION_TUNE_METHOD \<equiv> 0x000A001E"

abbreviation AMQP_CONNECTION_TUNE_OK_METHOD :: "32 word" where
  "AMQP_CONNECTION_TUNE_OK_METHOD \<equiv> 0x000A001F"

abbreviation AMQP_CONNECTION_OPEN_METHOD :: "32 word" where
  "AMQP_CONNECTION_OPEN_METHOD \<equiv> 0x000A0028"

abbreviation AMQP_CONNECTION_OPEN_OK_METHOD :: "32 word" where
  "AMQP_CONNECTION_OPEN_OK_METHOD \<equiv> 0x000A0029"

abbreviation AMQP_CONNECTION_CLOSE_METHOD :: "32 word" where
  "AMQP_CONNECTION_CLOSE_METHOD \<equiv> 0x000A0032"

abbreviation AMQP_CONNECTION_CLOSE_OK_METHOD :: "32 word" where
  "AMQP_CONNECTION_CLOSE_OK_METHOD \<equiv> 0x000A0033"

abbreviation AMQP_CONNECTION_BLOCKED_METHOD :: "32 word" where
  "AMQP_CONNECTION_BLOCKED_METHOD \<equiv> 0x000A003C"

abbreviation AMQP_CONNECTION_UNBLOCKED_METHOD :: "32 word" where
  "AMQP_CONNECTION_UNBLOCKED_METHOD \<equiv> 0x000A003D"

abbreviation AMQP_CHANNEL_OPEN_METHOD :: "32 word" where
  "AMQP_CHANNEL_OPEN_METHOD \<equiv> 0x0014000A"

abbreviation AMQP_CHANNEL_OPEN_OK_METHOD :: "32 word" where
  "AMQP_CHANNEL_OPEN_OK_METHOD \<equiv> 0x0014000B"

abbreviation AMQP_CHANNEL_FLOW_METHOD :: "32 word" where
  "AMQP_CHANNEL_FLOW_METHOD \<equiv> 0x00140014"

abbreviation AMQP_CHANNEL_FLOW_OK_METHOD :: "32 word" where
  "AMQP_CHANNEL_FLOW_OK_METHOD \<equiv> 0x00140015"

abbreviation AMQP_CHANNEL_CLOSE_METHOD :: "32 word" where
  "AMQP_CHANNEL_CLOSE_METHOD \<equiv> 0x00140028"

abbreviation AMQP_CHANNEL_CLOSE_OK_METHOD :: "32 word" where
  "AMQP_CHANNEL_CLOSE_OK_METHOD \<equiv> 0x00140029"

abbreviation AMQP_ACCESS_REQUEST_METHOD :: "32 word" where
  "AMQP_ACCESS_REQUEST_METHOD \<equiv> 0x001E000A"

abbreviation AMQP_ACCESS_REQUEST_OK_METHOD :: "32 word" where
  "AMQP_ACCESS_REQUEST_OK_METHOD \<equiv> 0x001E000B"

abbreviation AMQP_EXCHANGE_DECLARE_METHOD :: "32 word" where
  "AMQP_EXCHANGE_DECLARE_METHOD \<equiv> 0x0028000A"

abbreviation AMQP_EXCHANGE_DECLARE_OK_METHOD :: "32 word" where
  "AMQP_EXCHANGE_DECLARE_OK_METHOD \<equiv> 0x0028000B"

abbreviation AMQP_EXCHANGE_DELETE_METHOD :: "32 word" where
  "AMQP_EXCHANGE_DELETE_METHOD \<equiv> 0x00280014"

abbreviation AMQP_EXCHANGE_DELETE_OK_METHOD :: "32 word" where
  "AMQP_EXCHANGE_DELETE_OK_METHOD \<equiv> 0x00280015"

abbreviation AMQP_EXCHANGE_BIND_METHOD :: "32 word" where
  "AMQP_EXCHANGE_BIND_METHOD \<equiv> 0x0028001E"

abbreviation AMQP_EXCHANGE_BIND_OK_METHOD :: "32 word" where
  "AMQP_EXCHANGE_BIND_OK_METHOD \<equiv> 0x0028001F"

abbreviation AMQP_EXCHANGE_UNBIND_METHOD :: "32 word" where
  "AMQP_EXCHANGE_UNBIND_METHOD \<equiv> 0x00280028"

abbreviation AMQP_EXCHANGE_UNBIND_OK_METHOD :: "32 word" where
  "AMQP_EXCHANGE_UNBIND_OK_METHOD \<equiv> 0x00280033"

abbreviation AMQP_QUEUE_DECLARE_METHOD :: "32 word" where
  "AMQP_QUEUE_DECLARE_METHOD \<equiv> 0x0032000A"

abbreviation AMQP_QUEUE_DECLARE_OK_METHOD :: "32 word" where
  "AMQP_QUEUE_DECLARE_OK_METHOD \<equiv> 0x0032000B"

abbreviation AMQP_QUEUE_BIND_METHOD :: "32 word" where
  "AMQP_QUEUE_BIND_METHOD \<equiv> 0x00320014"

abbreviation AMQP_QUEUE_BIND_OK_METHOD :: "32 word" where
  "AMQP_QUEUE_BIND_OK_METHOD \<equiv> 0x00320015"

abbreviation AMQP_QUEUE_PURGE_METHOD :: "32 word" where
  "AMQP_QUEUE_PURGE_METHOD \<equiv> 0x0032001E"

abbreviation AMQP_QUEUE_PURGE_OK_METHOD :: "32 word" where
  "AMQP_QUEUE_PURGE_OK_METHOD \<equiv> 0x0032001F"

abbreviation AMQP_QUEUE_DELETE_METHOD :: "32 word" where
  "AMQP_QUEUE_DELETE_METHOD \<equiv> 0x00320028"

abbreviation AMQP_QUEUE_DELETE_OK_METHOD :: "32 word" where
  "AMQP_QUEUE_DELETE_OK_METHOD \<equiv> 0x00320029"

abbreviation AMQP_QUEUE_UNBIND_METHOD :: "32 word" where
  "AMQP_QUEUE_UNBIND_METHOD \<equiv> 0x00320032"

abbreviation AMQP_QUEUE_UNBIND_OK_METHOD :: "32 word" where
  "AMQP_QUEUE_UNBIND_OK_METHOD \<equiv> 0x00320033"

abbreviation AMQP_BASIC_QOS_METHOD :: "32 word" where
  "AMQP_BASIC_QOS_METHOD \<equiv> 0x003C000A"

abbreviation AMQP_BASIC_QOS_OK_METHOD :: "32 word" where
  "AMQP_BASIC_QOS_OK_METHOD \<equiv> 0x003C000B"

abbreviation AMQP_BASIC_CONSUME_METHOD :: "32 word" where
  "AMQP_BASIC_CONSUME_METHOD \<equiv> 0x003C0014"

abbreviation AMQP_BASIC_CONSUME_OK_METHOD :: "32 word" where
  "AMQP_BASIC_CONSUME_OK_METHOD \<equiv> 0x003C0015"

abbreviation AMQP_BASIC_CANCEL_METHOD :: "32 word" where
  "AMQP_BASIC_CANCEL_METHOD \<equiv> 0x003C001E"

abbreviation AMQP_BASIC_CANCEL_OK_METHOD :: "32 word" where
  "AMQP_BASIC_CANCEL_OK_METHOD \<equiv> 0x003C001F"

abbreviation AMQP_BASIC_PUBLISH_METHOD :: "32 word" where
  "AMQP_BASIC_PUBLISH_METHOD \<equiv> 0x003C0028"

abbreviation AMQP_BASIC_RETURN_METHOD :: "32 word" where
  "AMQP_BASIC_RETURN_METHOD \<equiv> 0x003C0032"

abbreviation AMQP_BASIC_DELIVER_METHOD :: "32 word" where
  "AMQP_BASIC_DELIVER_METHOD \<equiv> 0x003C003C"

abbreviation AMQP_BASIC_GET_METHOD :: "32 word" where
  "AMQP_BASIC_GET_METHOD \<equiv> 0x003C0046"

abbreviation AMQP_BASIC_GET_OK_METHOD :: "32 word" where
  "AMQP_BASIC_GET_OK_METHOD \<equiv> 0x003C0047"

abbreviation AMQP_BASIC_GET_EMPTY_METHOD :: "32 word" where
  "AMQP_BASIC_GET_EMPTY_METHOD \<equiv> 0x003C0048"

abbreviation AMQP_BASIC_ACK_METHOD :: "32 word" where
  "AMQP_BASIC_ACK_METHOD \<equiv> 0x003C0050"

abbreviation AMQP_BASIC_REJECT_METHOD :: "32 word" where
  "AMQP_BASIC_REJECT_METHOD \<equiv> 0x003C005A"

abbreviation AMQP_BASIC_RECOVER_ASYNC_METHOD :: "32 word" where
  "AMQP_BASIC_RECOVER_ASYNC_METHOD \<equiv> 0x003C0064"

abbreviation AMQP_BASIC_RECOVER_METHOD :: "32 word" where
  "AMQP_BASIC_RECOVER_METHOD \<equiv> 0x003C006E"

abbreviation AMQP_BASIC_RECOVER_OK_METHOD :: "32 word" where
  "AMQP_BASIC_RECOVER_OK_METHOD \<equiv> 0x003C006F"

abbreviation AMQP_BASIC_NACK_METHOD :: "32 word" where
  "AMQP_BASIC_NACK_METHOD \<equiv> 0x003C0078"

abbreviation AMQP_TX_SELECT_METHOD :: "32 word" where
  "AMQP_TX_SELECT_METHOD \<equiv> 0x005A000A"

abbreviation AMQP_TX_SELECT_OK_METHOD :: "32 word" where
  "AMQP_TX_SELECT_OK_METHOD \<equiv> 0x005A000B"

abbreviation AMQP_TX_COMMIT_METHOD :: "32 word" where
  "AMQP_TX_COMMIT_METHOD \<equiv> 0x005A0014"

abbreviation AMQP_TX_COMMIT_OK_METHOD :: "32 word" where
  "AMQP_TX_COMMIT_OK_METHOD \<equiv> 0x005A0015"

abbreviation AMQP_TX_ROLLBACK_METHOD :: "32 word" where
  "AMQP_TX_ROLLBACK_METHOD \<equiv> 0x005A001E"

abbreviation AMQP_TX_ROLLBACK_OK_METHOD :: "32 word" where
  "AMQP_TX_ROLLBACK_OK_METHOD \<equiv> 0x005A001F"

abbreviation AMQP_CONFIRM_SELECT_METHOD :: "32 word" where
  "AMQP_CONFIRM_SELECT_METHOD \<equiv> 0x0055000A"

abbreviation AMQP_CONFIRM_SELECT_OK_METHOD :: "32 word" where
  "AMQP_CONFIRM_SELECT_OK_METHOD \<equiv> 0x0055000B"

section \<open>Method structures\<close>

text \<open>
  \<open>Connection_start\<close>: version_major version_minor server_properties mechanisms
    locales;
  \<open>Connection_start_ok\<close>: client_properties mechanism response locale;
  \<open>Connection_secure\<close>: challenge;
  \<open>Connection_secure_ok\<close>: response;
  \<open>Connection_tune\<close>: channel_max frame_max heartbeat;
  \<open>Connection_tune_ok\<close>: channel_max frame_max heartbeat;
  \<open>Connection_open\<close>: virtual_host capabilities insist;
  \<open>Connection_open_ok\<close>: known_hosts;
  \<open>Connection_close\<close>: reply_code reply_text class_id method_id;
  \<open>Connection_close_ok\<close>:;
  \<open>Connection_blocked\<close>: reason;
  \<open>Connection_unblocked\<close>:.
\<close>

datatype amqp_connection_method =
    Connection_start "8 word" "8 word" amqp_table bytes bytes
  | Connection_start_ok amqp_table bytes bytes bytes
  | Connection_secure bytes
  | Connection_secure_ok bytes
  | Connection_tune "16 word" "32 word" "16 word"
  | Connection_tune_ok "16 word" "32 word" "16 word"
  | Connection_open bytes bytes bool
  | Connection_open_ok bytes
  | Connection_close "16 word" bytes "16 word" "16 word"
  | Connection_close_ok
  | Connection_blocked bytes
  | Connection_unblocked

text \<open>
  \<open>Channel_open\<close>: out_of_band;
  \<open>Channel_open_ok\<close>: channel_id;
  \<open>Channel_flow\<close>: active;
  \<open>Channel_flow_ok\<close>: active;
  \<open>Channel_close\<close>: reply_code reply_text class_id method_id;
  \<open>Channel_close_ok\<close>:.
\<close>

datatype amqp_channel_method =
    Channel_open bytes
  | Channel_open_ok bytes
  | Channel_flow bool
  | Channel_flow_ok bool
  | Channel_close "16 word" bytes "16 word" "16 word"
  | Channel_close_ok

text \<open>
  \<open>Access_request\<close>: realm exclusive passive active write read;
  \<open>Access_request_ok\<close>: ticket.
\<close>

datatype amqp_access_method =
    Access_request bytes bool bool bool bool bool
  | Access_request_ok "16 word"

text \<open>
  \<open>Exchange_declare\<close>: ticket exchange type_name passive durable auto_delete internal
    nowait arguments;
  \<open>Exchange_declare_ok\<close>:;
  \<open>Exchange_delete\<close>: ticket exchange if_unused nowait;
  \<open>Exchange_delete_ok\<close>:;
  \<open>Exchange_bind\<close>: ticket destination source routing_key nowait arguments;
  \<open>Exchange_bind_ok\<close>:;
  \<open>Exchange_unbind\<close>: ticket destination source routing_key nowait arguments;
  \<open>Exchange_unbind_ok\<close>:.
\<close>

datatype amqp_exchange_method =
    Exchange_declare "16 word" bytes bytes bool bool bool bool bool amqp_table
  | Exchange_declare_ok
  | Exchange_delete "16 word" bytes bool bool
  | Exchange_delete_ok
  | Exchange_bind "16 word" bytes bytes bytes bool amqp_table
  | Exchange_bind_ok
  | Exchange_unbind "16 word" bytes bytes bytes bool amqp_table
  | Exchange_unbind_ok

text \<open>
  \<open>Queue_declare\<close>: ticket queue passive durable exclusive auto_delete nowait
    arguments;
  \<open>Queue_declare_ok\<close>: queue message_count consumer_count;
  \<open>Queue_bind\<close>: ticket queue exchange routing_key nowait arguments;
  \<open>Queue_bind_ok\<close>:;
  \<open>Queue_purge\<close>: ticket queue nowait;
  \<open>Queue_purge_ok\<close>: message_count;
  \<open>Queue_delete\<close>: ticket queue if_unused if_empty nowait;
  \<open>Queue_delete_ok\<close>: message_count;
  \<open>Queue_unbind\<close>: ticket queue exchange routing_key arguments;
  \<open>Queue_unbind_ok\<close>:.
\<close>

datatype amqp_queue_method =
    Queue_declare "16 word" bytes bool bool bool bool bool amqp_table
  | Queue_declare_ok bytes "32 word" "32 word"
  | Queue_bind "16 word" bytes bytes bytes bool amqp_table
  | Queue_bind_ok
  | Queue_purge "16 word" bytes bool
  | Queue_purge_ok "32 word"
  | Queue_delete "16 word" bytes bool bool bool
  | Queue_delete_ok "32 word"
  | Queue_unbind "16 word" bytes bytes bytes amqp_table
  | Queue_unbind_ok

text \<open>
  \<open>Basic_qos\<close>: prefetch_size prefetch_count global;
  \<open>Basic_qos_ok\<close>:;
  \<open>Basic_consume\<close>: ticket queue consumer_tag no_local no_ack exclusive nowait
    arguments;
  \<open>Basic_consume_ok\<close>: consumer_tag;
  \<open>Basic_cancel\<close>: consumer_tag nowait;
  \<open>Basic_cancel_ok\<close>: consumer_tag;
  \<open>Basic_publish\<close>: ticket exchange routing_key mandatory immediate;
  \<open>Basic_return\<close>: reply_code reply_text exchange routing_key;
  \<open>Basic_deliver\<close>: consumer_tag delivery_tag redelivered exchange routing_key;
  \<open>Basic_get\<close>: ticket queue no_ack;
  \<open>Basic_get_ok\<close>: delivery_tag redelivered exchange routing_key message_count;
  \<open>Basic_get_empty\<close>: cluster_id;
  \<open>Basic_ack\<close>: delivery_tag multiple;
  \<open>Basic_reject\<close>: delivery_tag requeue;
  \<open>Basic_recover_async\<close>: requeue;
  \<open>Basic_recover\<close>: requeue;
  \<open>Basic_recover_ok\<close>:;
  \<open>Basic_nack\<close>: delivery_tag multiple requeue.
\<close>

datatype amqp_basic_method =
    Basic_qos "32 word" "16 word" bool
  | Basic_qos_ok
  | Basic_consume "16 word" bytes bytes bool bool bool bool amqp_table
  | Basic_consume_ok bytes
  | Basic_cancel bytes bool
  | Basic_cancel_ok bytes
  | Basic_publish "16 word" bytes bytes bool bool
  | Basic_return "16 word" bytes bytes bytes
  | Basic_deliver bytes "64 word" bool bytes bytes
  | Basic_get "16 word" bytes bool
  | Basic_get_ok "64 word" bool bytes bytes "32 word"
  | Basic_get_empty bytes
  | Basic_ack "64 word" bool
  | Basic_reject "64 word" bool
  | Basic_recover_async bool
  | Basic_recover bool
  | Basic_recover_ok
  | Basic_nack "64 word" bool bool

text \<open>
  \<open>Tx_select\<close>:;
  \<open>Tx_select_ok\<close>:;
  \<open>Tx_commit\<close>:;
  \<open>Tx_commit_ok\<close>:;
  \<open>Tx_rollback\<close>:;
  \<open>Tx_rollback_ok\<close>:.
\<close>

datatype amqp_tx_method =
    Tx_select
  | Tx_select_ok
  | Tx_commit
  | Tx_commit_ok
  | Tx_rollback
  | Tx_rollback_ok

text \<open>
  \<open>Confirm_select\<close>: nowait;
  \<open>Confirm_select_ok\<close>:.
\<close>

datatype amqp_confirm_method =
    Confirm_select bool
  | Confirm_select_ok

datatype amqp_method =
    Connection_method amqp_connection_method
  | Channel_method amqp_channel_method
  | Access_method amqp_access_method
  | Exchange_method amqp_exchange_method
  | Queue_method amqp_queue_method
  | Basic_method amqp_basic_method
  | Tx_method amqp_tx_method
  | Confirm_method amqp_confirm_method

text \<open>The number that goes with a structure.\<close>

primrec connection_method_number :: "amqp_connection_method \<Rightarrow> 32 word" where
    "connection_method_number (Connection_start _ _ _ _ _) = AMQP_CONNECTION_START_METHOD"
  | "connection_method_number (Connection_start_ok _ _ _ _) = AMQP_CONNECTION_START_OK_METHOD"
  | "connection_method_number (Connection_secure _) = AMQP_CONNECTION_SECURE_METHOD"
  | "connection_method_number (Connection_secure_ok _) = AMQP_CONNECTION_SECURE_OK_METHOD"
  | "connection_method_number (Connection_tune _ _ _) = AMQP_CONNECTION_TUNE_METHOD"
  | "connection_method_number (Connection_tune_ok _ _ _) = AMQP_CONNECTION_TUNE_OK_METHOD"
  | "connection_method_number (Connection_open _ _ _) = AMQP_CONNECTION_OPEN_METHOD"
  | "connection_method_number (Connection_open_ok _) = AMQP_CONNECTION_OPEN_OK_METHOD"
  | "connection_method_number (Connection_close _ _ _ _) = AMQP_CONNECTION_CLOSE_METHOD"
  | "connection_method_number Connection_close_ok = AMQP_CONNECTION_CLOSE_OK_METHOD"
  | "connection_method_number (Connection_blocked _) = AMQP_CONNECTION_BLOCKED_METHOD"
  | "connection_method_number Connection_unblocked = AMQP_CONNECTION_UNBLOCKED_METHOD"

primrec channel_method_number :: "amqp_channel_method \<Rightarrow> 32 word" where
    "channel_method_number (Channel_open _) = AMQP_CHANNEL_OPEN_METHOD"
  | "channel_method_number (Channel_open_ok _) = AMQP_CHANNEL_OPEN_OK_METHOD"
  | "channel_method_number (Channel_flow _) = AMQP_CHANNEL_FLOW_METHOD"
  | "channel_method_number (Channel_flow_ok _) = AMQP_CHANNEL_FLOW_OK_METHOD"
  | "channel_method_number (Channel_close _ _ _ _) = AMQP_CHANNEL_CLOSE_METHOD"
  | "channel_method_number Channel_close_ok = AMQP_CHANNEL_CLOSE_OK_METHOD"

primrec access_method_number :: "amqp_access_method \<Rightarrow> 32 word" where
    "access_method_number (Access_request _ _ _ _ _ _) = AMQP_ACCESS_REQUEST_METHOD"
  | "access_method_number (Access_request_ok _) = AMQP_ACCESS_REQUEST_OK_METHOD"

primrec exchange_method_number :: "amqp_exchange_method \<Rightarrow> 32 word" where
    "exchange_method_number (Exchange_declare _ _ _ _ _ _ _ _ _) = AMQP_EXCHANGE_DECLARE_METHOD"
  | "exchange_method_number Exchange_declare_ok = AMQP_EXCHANGE_DECLARE_OK_METHOD"
  | "exchange_method_number (Exchange_delete _ _ _ _) = AMQP_EXCHANGE_DELETE_METHOD"
  | "exchange_method_number Exchange_delete_ok = AMQP_EXCHANGE_DELETE_OK_METHOD"
  | "exchange_method_number (Exchange_bind _ _ _ _ _ _) = AMQP_EXCHANGE_BIND_METHOD"
  | "exchange_method_number Exchange_bind_ok = AMQP_EXCHANGE_BIND_OK_METHOD"
  | "exchange_method_number (Exchange_unbind _ _ _ _ _ _) = AMQP_EXCHANGE_UNBIND_METHOD"
  | "exchange_method_number Exchange_unbind_ok = AMQP_EXCHANGE_UNBIND_OK_METHOD"

primrec queue_method_number :: "amqp_queue_method \<Rightarrow> 32 word" where
    "queue_method_number (Queue_declare _ _ _ _ _ _ _ _) = AMQP_QUEUE_DECLARE_METHOD"
  | "queue_method_number (Queue_declare_ok _ _ _) = AMQP_QUEUE_DECLARE_OK_METHOD"
  | "queue_method_number (Queue_bind _ _ _ _ _ _) = AMQP_QUEUE_BIND_METHOD"
  | "queue_method_number Queue_bind_ok = AMQP_QUEUE_BIND_OK_METHOD"
  | "queue_method_number (Queue_purge _ _ _) = AMQP_QUEUE_PURGE_METHOD"
  | "queue_method_number (Queue_purge_ok _) = AMQP_QUEUE_PURGE_OK_METHOD"
  | "queue_method_number (Queue_delete _ _ _ _ _) = AMQP_QUEUE_DELETE_METHOD"
  | "queue_method_number (Queue_delete_ok _) = AMQP_QUEUE_DELETE_OK_METHOD"
  | "queue_method_number (Queue_unbind _ _ _ _ _) = AMQP_QUEUE_UNBIND_METHOD"
  | "queue_method_number Queue_unbind_ok = AMQP_QUEUE_UNBIND_OK_METHOD"

primrec basic_method_number :: "amqp_basic_method \<Rightarrow> 32 word" where
    "basic_method_number (Basic_qos _ _ _) = AMQP_BASIC_QOS_METHOD"
  | "basic_method_number Basic_qos_ok = AMQP_BASIC_QOS_OK_METHOD"
  | "basic_method_number (Basic_consume _ _ _ _ _ _ _ _) = AMQP_BASIC_CONSUME_METHOD"
  | "basic_method_number (Basic_consume_ok _) = AMQP_BASIC_CONSUME_OK_METHOD"
  | "basic_method_number (Basic_cancel _ _) = AMQP_BASIC_CANCEL_METHOD"
  | "basic_method_number (Basic_cancel_ok _) = AMQP_BASIC_CANCEL_OK_METHOD"
  | "basic_method_number (Basic_publish _ _ _ _ _) = AMQP_BASIC_PUBLISH_METHOD"
  | "basic_method_number (Basic_return _ _ _ _) = AMQP_BASIC_RETURN_METHOD"
  | "basic_method_number (Basic_deliver _ _ _ _ _) = AMQP_BASIC_DELIVER_METHOD"
  | "basic_method_number (Basic_get _ _ _) = AMQP_BASIC_GET_METHOD"
  | "basic_method_number (Basic_get_ok _ _ _ _ _) = AMQP_BASIC_GET_OK_METHOD"
  | "basic_method_number (Basic_get_empty _) = AMQP_BASIC_GET_EMPTY_METHOD"
  | "basic_method_number (Basic_ack _ _) = AMQP_BASIC_ACK_METHOD"
  | "basic_method_number (Basic_reject _ _) = AMQP_BASIC_REJECT_METHOD"
  | "basic_method_number (Basic_recover_async _) = AMQP_BASIC_RECOVER_ASYNC_METHOD"
  | "basic_method_number (Basic_recover _) = AMQP_BASIC_RECOVER_METHOD"
  | "basic_method_number Basic_recover_ok = AMQP_BASIC_RECOVER_OK_METHOD"
  | "basic_method_number (Basic_nack _ _ _) = AMQP_BASIC_NACK_METHOD"

primrec tx_method_number :: "amqp_tx_method \<Rightarrow> 32 word" where
    "tx_method_number Tx_select = AMQP_TX_SELECT_METHOD"
  | "tx_method_number Tx_select_ok = AMQP_TX_SELECT_OK_METHOD"
  | "tx_method_number Tx_commit = AMQP_TX_COMMIT_METHOD"
  | "tx_method_number Tx_commit_ok = AMQP_TX_COMMIT_OK_METHOD"
  | "tx_method_number Tx_rollback = AMQP_TX_ROLLBACK_METHOD"
  | "tx_method_number Tx_rollback_ok = AMQP_TX_ROLLBACK_OK_METHOD"

primrec confirm_method_number :: "amqp_confirm_method \<Rightarrow> 32 word" where
    "confirm_method_number (Confirm_select _) = AMQP_CONFIRM_SELECT_METHOD"
  | "confirm_method_number Confirm_select_ok = AMQP_CONFIRM_SELECT_OK_METHOD"

primrec method_number :: "amqp_method \<Rightarrow> 32 word" where
    "method_number (Connection_method m) = connection_method_number m"
  | "method_number (Channel_method m) = channel_method_number m"
  | "method_number (Access_method m) = access_method_number m"
  | "method_number (Exchange_method m) = exchange_method_number m"
  | "method_number (Queue_method m) = queue_method_number m"
  | "method_number (Basic_method m) = basic_method_number m"
  | "method_number (Tx_method m) = tx_method_number m"
  | "method_number (Confirm_method m) = confirm_method_number m"

text \<open>The tables inside a method.\<close>

fun connection_method_tables :: "amqp_connection_method \<Rightarrow> amqp_table list" where
    "connection_method_tables (Connection_start _ _ server_properties _ _) = [server_properties]"
  | "connection_method_tables (Connection_start_ok client_properties _ _ _) = [client_properties]"
  | "connection_method_tables _ = []"

fun exchange_method_tables :: "amqp_exchange_method \<Rightarrow> amqp_table list" where
    "exchange_method_tables (Exchange_declare _ _ _ _ _ _ _ _ arguments) = [arguments]"
  | "exchange_method_tables (Exchange_bind _ _ _ _ _ arguments) = [arguments]"
  | "exchange_method_tables (Exchange_unbind _ _ _ _ _ arguments) = [arguments]"
  | "exchange_method_tables _ = []"

fun queue_method_tables :: "amqp_queue_method \<Rightarrow> amqp_table list" where
    "queue_method_tables (Queue_declare _ _ _ _ _ _ _ arguments) = [arguments]"
  | "queue_method_tables (Queue_bind _ _ _ _ _ arguments) = [arguments]"
  | "queue_method_tables (Queue_unbind _ _ _ _ arguments) = [arguments]"
  | "queue_method_tables _ = []"

fun basic_method_tables :: "amqp_basic_method \<Rightarrow> amqp_table list" where
    "basic_method_tables (Basic_consume _ _ _ _ _ _ _ arguments) = [arguments]"
  | "basic_method_tables _ = []"

fun method_tables :: "amqp_method \<Rightarrow> amqp_table list" where
    "method_tables (Connection_method m) = connection_method_tables m"
  | "method_tables (Exchange_method m) = exchange_method_tables m"
  | "method_tables (Queue_method m) = queue_method_tables m"
  | "method_tables (Basic_method m) = basic_method_tables m"
  | "method_tables _ = []"

section \<open>Names and constants\<close>

abbreviation AMQP_FRAME_METHOD :: int where
  "AMQP_FRAME_METHOD \<equiv> 1"

abbreviation AMQP_FRAME_HEADER :: int where
  "AMQP_FRAME_HEADER \<equiv> 2"

abbreviation AMQP_FRAME_BODY :: int where
  "AMQP_FRAME_BODY \<equiv> 3"

abbreviation AMQP_FRAME_HEARTBEAT :: int where
  "AMQP_FRAME_HEARTBEAT \<equiv> 8"

abbreviation AMQP_FRAME_MIN_SIZE :: int where
  "AMQP_FRAME_MIN_SIZE \<equiv> 4096"

abbreviation AMQP_FRAME_END :: int where
  "AMQP_FRAME_END \<equiv> 206"

abbreviation AMQP_REPLY_SUCCESS :: int where
  "AMQP_REPLY_SUCCESS \<equiv> 200"

abbreviation AMQP_CONTENT_TOO_LARGE :: int where
  "AMQP_CONTENT_TOO_LARGE \<equiv> 311"

abbreviation AMQP_NO_ROUTE :: int where
  "AMQP_NO_ROUTE \<equiv> 312"

abbreviation AMQP_NO_CONSUMERS :: int where
  "AMQP_NO_CONSUMERS \<equiv> 313"

abbreviation AMQP_ACCESS_REFUSED :: int where
  "AMQP_ACCESS_REFUSED \<equiv> 403"

abbreviation AMQP_NOT_FOUND :: int where
  "AMQP_NOT_FOUND \<equiv> 404"

abbreviation AMQP_RESOURCE_LOCKED :: int where
  "AMQP_RESOURCE_LOCKED \<equiv> 405"

abbreviation AMQP_PRECONDITION_FAILED :: int where
  "AMQP_PRECONDITION_FAILED \<equiv> 406"

abbreviation AMQP_CONNECTION_FORCED :: int where
  "AMQP_CONNECTION_FORCED \<equiv> 320"

abbreviation AMQP_INVALID_PATH :: int where
  "AMQP_INVALID_PATH \<equiv> 402"

abbreviation AMQP_FRAME_ERROR :: int where
  "AMQP_FRAME_ERROR \<equiv> 501"

abbreviation AMQP_SYNTAX_ERROR :: int where
  "AMQP_SYNTAX_ERROR \<equiv> 502"

abbreviation AMQP_COMMAND_INVALID :: int where
  "AMQP_COMMAND_INVALID \<equiv> 503"

abbreviation AMQP_CHANNEL_ERROR :: int where
  "AMQP_CHANNEL_ERROR \<equiv> 504"

abbreviation AMQP_UNEXPECTED_FRAME :: int where
  "AMQP_UNEXPECTED_FRAME \<equiv> 505"

abbreviation AMQP_RESOURCE_ERROR :: int where
  "AMQP_RESOURCE_ERROR \<equiv> 506"

abbreviation AMQP_NOT_ALLOWED :: int where
  "AMQP_NOT_ALLOWED \<equiv> 530"

abbreviation AMQP_NOT_IMPLEMENTED :: int where
  "AMQP_NOT_IMPLEMENTED \<equiv> 540"

abbreviation AMQP_INTERNAL_ERROR :: int where
  "AMQP_INTERNAL_ERROR \<equiv> 541"

definition amqp_constant_name :: "int \<Rightarrow> string" where
  "amqp_constant_name constantNumber =
     (if constantNumber = AMQP_FRAME_METHOD then ''AMQP_FRAME_METHOD''
      else if constantNumber = AMQP_FRAME_HEADER then ''AMQP_FRAME_HEADER''
      else if constantNumber = AMQP_FRAME_BODY then ''AMQP_FRAME_BODY''
      else if constantNumber = AMQP_FRAME_HEARTBEAT then ''AMQP_FRAME_HEARTBEAT''
      else if constantNumber = AMQP_FRAME_MIN_SIZE then ''AMQP_FRAME_MIN_SIZE''
      else if constantNumber = AMQP_FRAME_END then ''AMQP_FRAME_END''
      else if constantNumber = AMQP_REPLY_SUCCESS then ''AMQP_REPLY_SUCCESS''
      else if constantNumber = AMQP_CONTENT_TOO_LARGE then ''AMQP_CONTENT_TOO_LARGE''
      else if constantNumber = AMQP_NO_ROUTE then ''AMQP_NO_ROUTE''
      else if constantNumber = AMQP_NO_CONSUMERS then ''AMQP_NO_CONSUMERS''
      else if constantNumber = AMQP_ACCESS_REFUSED then ''AMQP_ACCESS_REFUSED''
      else if constantNumber = AMQP_NOT_FOUND then ''AMQP_NOT_FOUND''
      else if constantNumber = AMQP_RESOURCE_LOCKED then ''AMQP_RESOURCE_LOCKED''
      else if constantNumber = AMQP_PRECONDITION_FAILED then ''AMQP_PRECONDITION_FAILED''
      else if constantNumber = AMQP_CONNECTION_FORCED then ''AMQP_CONNECTION_FORCED''
      else if constantNumber = AMQP_INVALID_PATH then ''AMQP_INVALID_PATH''
      else if constantNumber = AMQP_FRAME_ERROR then ''AMQP_FRAME_ERROR''
      else if constantNumber = AMQP_SYNTAX_ERROR then ''AMQP_SYNTAX_ERROR''
      else if constantNumber = AMQP_COMMAND_INVALID then ''AMQP_COMMAND_INVALID''
      else if constantNumber = AMQP_CHANNEL_ERROR then ''AMQP_CHANNEL_ERROR''
      else if constantNumber = AMQP_UNEXPECTED_FRAME then ''AMQP_UNEXPECTED_FRAME''
      else if constantNumber = AMQP_RESOURCE_ERROR then ''AMQP_RESOURCE_ERROR''
      else if constantNumber = AMQP_NOT_ALLOWED then ''AMQP_NOT_ALLOWED''
      else if constantNumber = AMQP_NOT_IMPLEMENTED then ''AMQP_NOT_IMPLEMENTED''
      else if constantNumber = AMQP_INTERNAL_ERROR then ''AMQP_INTERNAL_ERROR''
      else ''(unknown)'')"

definition amqp_constant_is_hard_error :: "int \<Rightarrow> bool" where
  "amqp_constant_is_hard_error constantNumber =
     (if constantNumber = AMQP_CONNECTION_FORCED then True
      else if constantNumber = AMQP_INVALID_PATH then True
      else if constantNumber = AMQP_FRAME_ERROR then True
      else if constantNumber = AMQP_SYNTAX_ERROR then True
      else if constantNumber = AMQP_COMMAND_INVALID then True
      else if constantNumber = AMQP_CHANNEL_ERROR then True
      else if constantNumber = AMQP_UNEXPECTED_FRAME then True
      else if constantNumber = AMQP_RESOURCE_ERROR then True
      else if constantNumber = AMQP_NOT_ALLOWED then True
      else if constantNumber = AMQP_NOT_IMPLEMENTED then True
      else if constantNumber = AMQP_INTERNAL_ERROR then True
      else False)"

definition amqp_method_name :: "32 word \<Rightarrow> string option" where
  "amqp_method_name methodNumber =
     (if methodNumber = AMQP_CONNECTION_START_METHOD then Some ''AMQP_CONNECTION_START_METHOD''
      else if methodNumber = AMQP_CONNECTION_START_OK_METHOD then Some ''AMQP_CONNECTION_START_OK_METHOD''
      else if methodNumber = AMQP_CONNECTION_SECURE_METHOD then Some ''AMQP_CONNECTION_SECURE_METHOD''
      else if methodNumber = AMQP_CONNECTION_SECURE_OK_METHOD then Some ''AMQP_CONNECTION_SECURE_OK_METHOD''
      else if methodNumber = AMQP_CONNECTION_TUNE_METHOD then Some ''AMQP_CONNECTION_TUNE_METHOD''
      else if methodNumber = AMQP_CONNECTION_TUNE_OK_METHOD then Some ''AMQP_CONNECTION_TUNE_OK_METHOD''
      else if methodNumber = AMQP_CONNECTION_OPEN_METHOD then Some ''AMQP_CONNECTION_OPEN_METHOD''
      else if methodNumber = AMQP_CONNECTION_OPEN_OK_METHOD then Some ''AMQP_CONNECTION_OPEN_OK_METHOD''
      else if methodNumber = AMQP_CONNECTION_CLOSE_METHOD then Some ''AMQP_CONNECTION_CLOSE_METHOD''
      else if methodNumber = AMQP_CONNECTION_CLOSE_OK_METHOD then Some ''AMQP_CONNECTION_CLOSE_OK_METHOD''
      else if methodNumber = AMQP_CONNECTION_BLOCKED_METHOD then Some ''AMQP_CONNECTION_BLOCKED_METHOD''
      else if methodNumber = AMQP_CONNECTION_UNBLOCKED_METHOD then Some ''AMQP_CONNECTION_UNBLOCKED_METHOD''
      else if methodNumber = AMQP_CHANNEL_OPEN_METHOD then Some ''AMQP_CHANNEL_OPEN_METHOD''
      else if methodNumber = AMQP_CHANNEL_OPEN_OK_METHOD then Some ''AMQP_CHANNEL_OPEN_OK_METHOD''
      else if methodNumber = AMQP_CHANNEL_FLOW_METHOD then Some ''AMQP_CHANNEL_FLOW_METHOD''
      else if methodNumber = AMQP_CHANNEL_FLOW_OK_METHOD then Some ''AMQP_CHANNEL_FLOW_OK_METHOD''
      else if methodNumber = AMQP_CHANNEL_CLOSE_METHOD then Some ''AMQP_CHANNEL_CLOSE_METHOD''
      else if methodNumber = AMQP_CHANNEL_CLOSE_OK_METHOD then Some ''AMQP_CHANNEL_CLOSE_OK_METHOD''
      else if methodNumber = AMQP_ACCESS_REQUEST_METHOD then Some ''AMQP_ACCESS_REQUEST_METHOD''
      else if methodNumber = AMQP_ACCESS_REQUEST_OK_METHOD then Some ''AMQP_ACCESS_REQUEST_OK_METHOD''
      else if methodNumber = AMQP_EXCHANGE_DECLARE_METHOD then Some ''AMQP_EXCHANGE_DECLARE_METHOD''
      else if methodNumber = AMQP_EXCHANGE_DECLARE_OK_METHOD then Some ''AMQP_EXCHANGE_DECLARE_OK_METHOD''
      else if methodNumber = AMQP_EXCHANGE_DELETE_METHOD then Some ''AMQP_EXCHANGE_DELETE_METHOD''
      else if methodNumber = AMQP_EXCHANGE_DELETE_OK_METHOD then Some ''AMQP_EXCHANGE_DELETE_OK_METHOD''
      else if methodNumber = AMQP_EXCHANGE_BIND_METHOD then Some ''AMQP_EXCHANGE_BIND_METHOD''
      else if methodNumber = AMQP_EXCHANGE_BIND_OK_METHOD then Some ''AMQP_EXCHANGE_BIND_OK_METHOD''
      else if methodNumber = AMQP_EXCHANGE_UNBIND_METHOD then Some ''AMQP_EXCHANGE_UNBIND_METHOD''
      else if methodNumber = AMQP_EXCHANGE_UNBIND_OK_METHOD then Some ''AMQP_EXCHANGE_UNBIND_OK_METHOD''
      else if methodNumber = AMQP_QUEUE_DECLARE_METHOD then Some ''AMQP_QUEUE_DECLARE_METHOD''
      else if methodNumber = AMQP_QUEUE_DECLARE_OK_METHOD then Some ''AMQP_QUEUE_DECLARE_OK_METHOD''
      else if methodNumber = AMQP_QUEUE_BIND_METHOD then Some ''AMQP_QUEUE_BIND_METHOD''
      else if methodNumber = AMQP_QUEUE_BIND_OK_METHOD then Some ''AMQP_QUEUE_BIND_OK_METHOD''
      else if methodNumber = AMQP_QUEUE_PURGE_METHOD then Some ''AMQP_QUEUE_PURGE_METHOD''
      else if methodNumber = AMQP_QUEUE_PURGE_OK_METHOD then Some ''AMQP_QUEUE_PURGE_OK_METHOD''
      else if methodNumber = AMQP_QUEUE_DELETE_METHOD then Some ''AMQP_QUEUE_DELETE_METHOD''
      else if methodNumber = AMQP_QUEUE_DELETE_OK_METHOD then Some ''AMQP_QUEUE_DELETE_OK_METHOD''
      else if methodNumber = AMQP_QUEUE_UNBIND_METHOD then Some ''AMQP_QUEUE_UNBIND_METHOD''
      else if methodNumber = AMQP_QUEUE_UNBIND_OK_METHOD then Some ''AMQP_QUEUE_UNBIND_OK_METHOD''
      else if methodNumber = AMQP_BASIC_QOS_METHOD then Some ''AMQP_BASIC_QOS_METHOD''
      else if methodNumber = AMQP_BASIC_QOS_OK_METHOD then Some ''AMQP_BASIC_QOS_OK_METHOD''
      else if methodNumber = AMQP_BASIC_CONSUME_METHOD then Some ''AMQP_BASIC_CONSUME_METHOD''
      else if methodNumber = AMQP_BASIC_CONSUME_OK_METHOD then Some ''AMQP_BASIC_CONSUME_OK_METHOD''
      else if methodNumber = AMQP_BASIC_CANCEL_METHOD then Some ''AMQP_BASIC_CANCEL_METHOD''
      else if methodNumber = AMQP_BASIC_CANCEL_OK_METHOD then Some ''AMQP_BASIC_CANCEL_OK_METHOD''
      else if methodNumber = AMQP_BASIC_PUBLISH_METHOD then Some ''AMQP_BASIC_PUBLISH_METHOD''
      else if methodNumber = AMQP_BASIC_RETURN_METHOD then Some ''AMQP_BASIC_RETURN_METHOD''
      else if methodNumber = AMQP_BASIC_DELIVER_METHOD then Some ''AMQP_BASIC_DELIVER_METHOD''
      else if methodNumber = AMQP_BASIC_GET_METHOD then Some ''AMQP_BASIC_GET_METHOD''
      else if methodNumber = AMQP_BASIC_GET_OK_METHOD then Some ''AMQP_BASIC_GET_OK_METHOD''
      else if methodNumber = AMQP_BASIC_GET_EMPTY_METHOD then Some ''AMQP_BASIC_GET_EMPTY_METHOD''
      else if methodNumber = AMQP_BASIC_ACK_METHOD then Some ''AMQP_BASIC_ACK_METHOD''
      else if methodNumber = AMQP_BASIC_REJECT_METHOD then Some ''AMQP_BASIC_REJECT_METHOD''
      else if methodNumber = AMQP_BASIC_RECOVER_ASYNC_METHOD then Some ''AMQP_BASIC_RECOVER_ASYNC_METHOD''
      else if methodNumber = AMQP_BASIC_RECOVER_METHOD then Some ''AMQP_BASIC_RECOVER_METHOD''
      else if methodNumber = AMQP_BASIC_RECOVER_OK_METHOD then Some ''AMQP_BASIC_RECOVER_OK_METHOD''
      else if methodNumber = AMQP_BASIC_NACK_METHOD then Some ''AMQP_BASIC_NACK_METHOD''
      else if methodNumber = AMQP_TX_SELECT_METHOD then Some ''AMQP_TX_SELECT_METHOD''
      else if methodNumber = AMQP_TX_SELECT_OK_METHOD then Some ''AMQP_TX_SELECT_OK_METHOD''
      else if methodNumber = AMQP_TX_COMMIT_METHOD then Some ''AMQP_TX_COMMIT_METHOD''
      else if methodNumber = AMQP_TX_COMMIT_OK_METHOD then Some ''AMQP_TX_COMMIT_OK_METHOD''
      else if methodNumber = AMQP_TX_ROLLBACK_METHOD then Some ''AMQP_TX_ROLLBACK_METHOD''
      else if methodNumber = AMQP_TX_ROLLBACK_OK_METHOD then Some ''AMQP_TX_ROLLBACK_OK_METHOD''
      else if methodNumber = AMQP_CONFIRM_SELECT_METHOD then Some ''AMQP_CONFIRM_SELECT_METHOD''
      else if methodNumber = AMQP_CONFIRM_SELECT_OK_METHOD then Some ''AMQP_CONFIRM_SELECT_OK_METHOD''
      else None)"

definition amqp_method_has_content :: "32 word \<Rightarrow> bool" where
  "amqp_method_has_content methodNumber =
     (if methodNumber = AMQP_BASIC_PUBLISH_METHOD then True
      else if methodNumber = AMQP_BASIC_RETURN_METHOD then True
      else if methodNumber = AMQP_BASIC_DELIVER_METHOD then True
      else if methodNumber = AMQP_BASIC_GET_OK_METHOD then True
      else False)"

end
