(* ===== verification/AMQP_Decode.thy ===== *)
theory AMQP_Decode
  imports AMQP_Methods
begin

text \<open>
  \<open>amqp_decode_method\<close>: one definition per \<open>case\<close> of its \<open>switch\<close>, in the order of the source, and
  the \<open>switch\<close>.  The argument of \<open>pool_alloc\<close> is the size of the structure.
\<close>

definition decode_connection_start :: "(nat \<Rightarrow> bool) \<Rightarrow> amqp_method decoder" where
  "decode_connection_start alloc =
     pool_alloc alloc 56 (get_8 (\<lambda>version_major. get_8 (\<lambda>version_minor.
       get_table alloc (\<lambda>server_properties. get_long (\<lambda>mechanisms.
       get_long (\<lambda>locales.
       got (Connection_method (Connection_start version_major version_minor server_properties mechanisms locales))))))))"

definition decode_connection_start_ok :: "(nat \<Rightarrow> bool) \<Rightarrow> amqp_method decoder" where
  "decode_connection_start_ok alloc =
     pool_alloc alloc 64 (get_table alloc (\<lambda>client_properties.
       get_short (\<lambda>mechanism. get_long (\<lambda>response. get_short (\<lambda>locale.
       got (Connection_method (Connection_start_ok client_properties mechanism response locale)))))))"

definition decode_connection_secure :: "(nat \<Rightarrow> bool) \<Rightarrow> amqp_method decoder" where
  "decode_connection_secure alloc =
     pool_alloc alloc 16 (get_long (\<lambda>challenge.
       got (Connection_method (Connection_secure challenge))))"

definition decode_connection_secure_ok :: "(nat \<Rightarrow> bool) \<Rightarrow> amqp_method decoder" where
  "decode_connection_secure_ok alloc =
     pool_alloc alloc 16 (get_long (\<lambda>response.
       got (Connection_method (Connection_secure_ok response))))"

definition decode_connection_tune :: "(nat \<Rightarrow> bool) \<Rightarrow> amqp_method decoder" where
  "decode_connection_tune alloc =
     pool_alloc alloc 12 (get_16 (\<lambda>channel_max. get_32 (\<lambda>frame_max.
       get_16 (\<lambda>heartbeat.
       got (Connection_method (Connection_tune channel_max frame_max heartbeat))))))"

definition decode_connection_tune_ok :: "(nat \<Rightarrow> bool) \<Rightarrow> amqp_method decoder" where
  "decode_connection_tune_ok alloc =
     pool_alloc alloc 12 (get_16 (\<lambda>channel_max. get_32 (\<lambda>frame_max.
       get_16 (\<lambda>heartbeat.
       got (Connection_method (Connection_tune_ok channel_max frame_max heartbeat))))))"

definition decode_connection_open :: "(nat \<Rightarrow> bool) \<Rightarrow> amqp_method decoder" where
  "decode_connection_open alloc =
     pool_alloc alloc 40 (get_short (\<lambda>virtual_host. get_short (\<lambda>capabilities.
       get_8 (\<lambda>bits.
       got (Connection_method (Connection_open virtual_host capabilities (flag bits 0)))))))"

definition decode_connection_open_ok :: "(nat \<Rightarrow> bool) \<Rightarrow> amqp_method decoder" where
  "decode_connection_open_ok alloc =
     pool_alloc alloc 16 (get_short (\<lambda>known_hosts.
       got (Connection_method (Connection_open_ok known_hosts))))"

definition decode_connection_close :: "(nat \<Rightarrow> bool) \<Rightarrow> amqp_method decoder" where
  "decode_connection_close alloc =
     pool_alloc alloc 32 (get_16 (\<lambda>reply_code. get_short (\<lambda>reply_text.
       get_16 (\<lambda>class_id. get_16 (\<lambda>method_id.
       got (Connection_method (Connection_close reply_code reply_text class_id method_id)))))))"

definition decode_connection_close_ok :: "(nat \<Rightarrow> bool) \<Rightarrow> amqp_method decoder" where
  "decode_connection_close_ok alloc =
     pool_alloc alloc 1 (got (Connection_method Connection_close_ok))"

definition decode_connection_blocked :: "(nat \<Rightarrow> bool) \<Rightarrow> amqp_method decoder" where
  "decode_connection_blocked alloc =
     pool_alloc alloc 16 (get_short (\<lambda>reason.
       got (Connection_method (Connection_blocked reason))))"

definition decode_connection_unblocked :: "(nat \<Rightarrow> bool) \<Rightarrow> amqp_method decoder" where
  "decode_connection_unblocked alloc =
     pool_alloc alloc 1 (got (Connection_method Connection_unblocked))"

definition decode_channel_open :: "(nat \<Rightarrow> bool) \<Rightarrow> amqp_method decoder" where
  "decode_channel_open alloc =
     pool_alloc alloc 16 (get_short (\<lambda>out_of_band.
       got (Channel_method (Channel_open out_of_band))))"

definition decode_channel_open_ok :: "(nat \<Rightarrow> bool) \<Rightarrow> amqp_method decoder" where
  "decode_channel_open_ok alloc =
     pool_alloc alloc 16 (get_long (\<lambda>channel_id.
       got (Channel_method (Channel_open_ok channel_id))))"

definition decode_channel_flow :: "(nat \<Rightarrow> bool) \<Rightarrow> amqp_method decoder" where
  "decode_channel_flow alloc =
     pool_alloc alloc 4 (get_8 (\<lambda>bits. got (Channel_method (Channel_flow (flag bits 0)))))"

definition decode_channel_flow_ok :: "(nat \<Rightarrow> bool) \<Rightarrow> amqp_method decoder" where
  "decode_channel_flow_ok alloc =
     pool_alloc alloc 4 (get_8 (\<lambda>bits.
       got (Channel_method (Channel_flow_ok (flag bits 0)))))"

definition decode_channel_close :: "(nat \<Rightarrow> bool) \<Rightarrow> amqp_method decoder" where
  "decode_channel_close alloc =
     pool_alloc alloc 32 (get_16 (\<lambda>reply_code. get_short (\<lambda>reply_text.
       get_16 (\<lambda>class_id. get_16 (\<lambda>method_id.
       got (Channel_method (Channel_close reply_code reply_text class_id method_id)))))))"

definition decode_channel_close_ok :: "(nat \<Rightarrow> bool) \<Rightarrow> amqp_method decoder" where
  "decode_channel_close_ok alloc =
     pool_alloc alloc 1 (got (Channel_method Channel_close_ok))"

definition decode_access_request :: "(nat \<Rightarrow> bool) \<Rightarrow> amqp_method decoder" where
  "decode_access_request alloc =
     pool_alloc alloc 40 (get_short (\<lambda>realm. get_8 (\<lambda>bits.
       got (Access_method (Access_request realm (flag bits 0) (flag bits 1) (flag bits 2) (flag bits 3) (flag bits 4))))))"

definition decode_access_request_ok :: "(nat \<Rightarrow> bool) \<Rightarrow> amqp_method decoder" where
  "decode_access_request_ok alloc =
     pool_alloc alloc 2 (get_16 (\<lambda>ticket. got (Access_method (Access_request_ok ticket))))"

definition decode_exchange_declare :: "(nat \<Rightarrow> bool) \<Rightarrow> amqp_method decoder" where
  "decode_exchange_declare alloc =
     pool_alloc alloc 80 (get_16 (\<lambda>ticket. get_short (\<lambda>exchange.
       get_short (\<lambda>type_name. get_8 (\<lambda>bits. get_table alloc (\<lambda>arguments.
       got (Exchange_method (Exchange_declare ticket exchange type_name (flag bits 0) (flag bits 1) (flag bits 2) (flag bits 3) (flag bits 4) arguments))))))))"

definition decode_exchange_declare_ok :: "(nat \<Rightarrow> bool) \<Rightarrow> amqp_method decoder" where
  "decode_exchange_declare_ok alloc =
     pool_alloc alloc 1 (got (Exchange_method Exchange_declare_ok))"

definition decode_exchange_delete :: "(nat \<Rightarrow> bool) \<Rightarrow> amqp_method decoder" where
  "decode_exchange_delete alloc =
     pool_alloc alloc 32 (get_16 (\<lambda>ticket. get_short (\<lambda>exchange.
       get_8 (\<lambda>bits.
       got (Exchange_method (Exchange_delete ticket exchange (flag bits 0) (flag bits 1)))))))"

definition decode_exchange_delete_ok :: "(nat \<Rightarrow> bool) \<Rightarrow> amqp_method decoder" where
  "decode_exchange_delete_ok alloc =
     pool_alloc alloc 1 (got (Exchange_method Exchange_delete_ok))"

definition decode_exchange_bind :: "(nat \<Rightarrow> bool) \<Rightarrow> amqp_method decoder" where
  "decode_exchange_bind alloc =
     pool_alloc alloc 80 (get_16 (\<lambda>ticket. get_short (\<lambda>destination.
       get_short (\<lambda>source. get_short (\<lambda>routing_key. get_8 (\<lambda>bits.
       get_table alloc (\<lambda>arguments.
       got (Exchange_method (Exchange_bind ticket destination source routing_key (flag bits 0) arguments)))))))))"

definition decode_exchange_bind_ok :: "(nat \<Rightarrow> bool) \<Rightarrow> amqp_method decoder" where
  "decode_exchange_bind_ok alloc =
     pool_alloc alloc 1 (got (Exchange_method Exchange_bind_ok))"

definition decode_exchange_unbind :: "(nat \<Rightarrow> bool) \<Rightarrow> amqp_method decoder" where
  "decode_exchange_unbind alloc =
     pool_alloc alloc 80 (get_16 (\<lambda>ticket. get_short (\<lambda>destination.
       get_short (\<lambda>source. get_short (\<lambda>routing_key. get_8 (\<lambda>bits.
       get_table alloc (\<lambda>arguments.
       got (Exchange_method (Exchange_unbind ticket destination source routing_key (flag bits 0) arguments)))))))))"

definition decode_exchange_unbind_ok :: "(nat \<Rightarrow> bool) \<Rightarrow> amqp_method decoder" where
  "decode_exchange_unbind_ok alloc =
     pool_alloc alloc 1 (got (Exchange_method Exchange_unbind_ok))"

definition decode_queue_declare :: "(nat \<Rightarrow> bool) \<Rightarrow> amqp_method decoder" where
  "decode_queue_declare alloc =
     pool_alloc alloc 64 (get_16 (\<lambda>ticket. get_short (\<lambda>queue.
       get_8 (\<lambda>bits. get_table alloc (\<lambda>arguments.
       got (Queue_method (Queue_declare ticket queue (flag bits 0) (flag bits 1) (flag bits 2) (flag bits 3) (flag bits 4) arguments)))))))"

definition decode_queue_declare_ok :: "(nat \<Rightarrow> bool) \<Rightarrow> amqp_method decoder" where
  "decode_queue_declare_ok alloc =
     pool_alloc alloc 24 (get_short (\<lambda>queue. get_32 (\<lambda>message_count.
       get_32 (\<lambda>consumer_count.
       got (Queue_method (Queue_declare_ok queue message_count consumer_count))))))"

definition decode_queue_bind :: "(nat \<Rightarrow> bool) \<Rightarrow> amqp_method decoder" where
  "decode_queue_bind alloc =
     pool_alloc alloc 80 (get_16 (\<lambda>ticket. get_short (\<lambda>queue.
       get_short (\<lambda>exchange. get_short (\<lambda>routing_key. get_8 (\<lambda>bits.
       get_table alloc (\<lambda>arguments.
       got (Queue_method (Queue_bind ticket queue exchange routing_key (flag bits 0) arguments)))))))))"

definition decode_queue_bind_ok :: "(nat \<Rightarrow> bool) \<Rightarrow> amqp_method decoder" where
  "decode_queue_bind_ok alloc =
     pool_alloc alloc 1 (got (Queue_method Queue_bind_ok))"

definition decode_queue_purge :: "(nat \<Rightarrow> bool) \<Rightarrow> amqp_method decoder" where
  "decode_queue_purge alloc =
     pool_alloc alloc 32 (get_16 (\<lambda>ticket. get_short (\<lambda>queue.
       get_8 (\<lambda>bits. got (Queue_method (Queue_purge ticket queue (flag bits 0)))))))"

definition decode_queue_purge_ok :: "(nat \<Rightarrow> bool) \<Rightarrow> amqp_method decoder" where
  "decode_queue_purge_ok alloc =
     pool_alloc alloc 4 (get_32 (\<lambda>message_count.
       got (Queue_method (Queue_purge_ok message_count))))"

definition decode_queue_delete :: "(nat \<Rightarrow> bool) \<Rightarrow> amqp_method decoder" where
  "decode_queue_delete alloc =
     pool_alloc alloc 40 (get_16 (\<lambda>ticket. get_short (\<lambda>queue.
       get_8 (\<lambda>bits.
       got (Queue_method (Queue_delete ticket queue (flag bits 0) (flag bits 1) (flag bits 2)))))))"

definition decode_queue_delete_ok :: "(nat \<Rightarrow> bool) \<Rightarrow> amqp_method decoder" where
  "decode_queue_delete_ok alloc =
     pool_alloc alloc 4 (get_32 (\<lambda>message_count.
       got (Queue_method (Queue_delete_ok message_count))))"

definition decode_queue_unbind :: "(nat \<Rightarrow> bool) \<Rightarrow> amqp_method decoder" where
  "decode_queue_unbind alloc =
     pool_alloc alloc 72 (get_16 (\<lambda>ticket. get_short (\<lambda>queue.
       get_short (\<lambda>exchange. get_short (\<lambda>routing_key.
       get_table alloc (\<lambda>arguments.
       got (Queue_method (Queue_unbind ticket queue exchange routing_key arguments))))))))"

definition decode_queue_unbind_ok :: "(nat \<Rightarrow> bool) \<Rightarrow> amqp_method decoder" where
  "decode_queue_unbind_ok alloc =
     pool_alloc alloc 1 (got (Queue_method Queue_unbind_ok))"

definition decode_basic_qos :: "(nat \<Rightarrow> bool) \<Rightarrow> amqp_method decoder" where
  "decode_basic_qos alloc =
     pool_alloc alloc 12 (get_32 (\<lambda>prefetch_size. get_16 (\<lambda>prefetch_count.
       get_8 (\<lambda>bits.
       got (Basic_method (Basic_qos prefetch_size prefetch_count (flag bits 0)))))))"

definition decode_basic_qos_ok :: "(nat \<Rightarrow> bool) \<Rightarrow> amqp_method decoder" where
  "decode_basic_qos_ok alloc =
     pool_alloc alloc 1 (got (Basic_method Basic_qos_ok))"

definition decode_basic_consume :: "(nat \<Rightarrow> bool) \<Rightarrow> amqp_method decoder" where
  "decode_basic_consume alloc =
     pool_alloc alloc 72 (get_16 (\<lambda>ticket. get_short (\<lambda>queue.
       get_short (\<lambda>consumer_tag. get_8 (\<lambda>bits.
       get_table alloc (\<lambda>arguments.
       got (Basic_method (Basic_consume ticket queue consumer_tag (flag bits 0) (flag bits 1) (flag bits 2) (flag bits 3) arguments))))))))"

definition decode_basic_consume_ok :: "(nat \<Rightarrow> bool) \<Rightarrow> amqp_method decoder" where
  "decode_basic_consume_ok alloc =
     pool_alloc alloc 16 (get_short (\<lambda>consumer_tag.
       got (Basic_method (Basic_consume_ok consumer_tag))))"

definition decode_basic_cancel :: "(nat \<Rightarrow> bool) \<Rightarrow> amqp_method decoder" where
  "decode_basic_cancel alloc =
     pool_alloc alloc 24 (get_short (\<lambda>consumer_tag. get_8 (\<lambda>bits.
       got (Basic_method (Basic_cancel consumer_tag (flag bits 0))))))"

definition decode_basic_cancel_ok :: "(nat \<Rightarrow> bool) \<Rightarrow> amqp_method decoder" where
  "decode_basic_cancel_ok alloc =
     pool_alloc alloc 16 (get_short (\<lambda>consumer_tag.
       got (Basic_method (Basic_cancel_ok consumer_tag))))"

definition decode_basic_publish :: "(nat \<Rightarrow> bool) \<Rightarrow> amqp_method decoder" where
  "decode_basic_publish alloc =
     pool_alloc alloc 48 (get_16 (\<lambda>ticket. get_short (\<lambda>exchange.
       get_short (\<lambda>routing_key. get_8 (\<lambda>bits.
       got (Basic_method (Basic_publish ticket exchange routing_key (flag bits 0) (flag bits 1))))))))"

definition decode_basic_return :: "(nat \<Rightarrow> bool) \<Rightarrow> amqp_method decoder" where
  "decode_basic_return alloc =
     pool_alloc alloc 56 (get_16 (\<lambda>reply_code. get_short (\<lambda>reply_text.
       get_short (\<lambda>exchange. get_short (\<lambda>routing_key.
       got (Basic_method (Basic_return reply_code reply_text exchange routing_key)))))))"

definition decode_basic_deliver :: "(nat \<Rightarrow> bool) \<Rightarrow> amqp_method decoder" where
  "decode_basic_deliver alloc =
     pool_alloc alloc 64 (get_short (\<lambda>consumer_tag. get_64 (\<lambda>delivery_tag.
       get_8 (\<lambda>bits. get_short (\<lambda>exchange. get_short (\<lambda>routing_key.
       got (Basic_method (Basic_deliver consumer_tag delivery_tag (flag bits 0) exchange routing_key))))))))"

definition decode_basic_get :: "(nat \<Rightarrow> bool) \<Rightarrow> amqp_method decoder" where
  "decode_basic_get alloc =
     pool_alloc alloc 32 (get_16 (\<lambda>ticket. get_short (\<lambda>queue.
       get_8 (\<lambda>bits. got (Basic_method (Basic_get ticket queue (flag bits 0)))))))"

definition decode_basic_get_ok :: "(nat \<Rightarrow> bool) \<Rightarrow> amqp_method decoder" where
  "decode_basic_get_ok alloc =
     pool_alloc alloc 56 (get_64 (\<lambda>delivery_tag. get_8 (\<lambda>bits.
       get_short (\<lambda>exchange. get_short (\<lambda>routing_key.
       get_32 (\<lambda>message_count.
       got (Basic_method (Basic_get_ok delivery_tag (flag bits 0) exchange routing_key message_count))))))))"

definition decode_basic_get_empty :: "(nat \<Rightarrow> bool) \<Rightarrow> amqp_method decoder" where
  "decode_basic_get_empty alloc =
     pool_alloc alloc 16 (get_short (\<lambda>cluster_id.
       got (Basic_method (Basic_get_empty cluster_id))))"

definition decode_basic_ack :: "(nat \<Rightarrow> bool) \<Rightarrow> amqp_method decoder" where
  "decode_basic_ack alloc =
     pool_alloc alloc 16 (get_64 (\<lambda>delivery_tag. get_8 (\<lambda>bits.
       got (Basic_method (Basic_ack delivery_tag (flag bits 0))))))"

definition decode_basic_reject :: "(nat \<Rightarrow> bool) \<Rightarrow> amqp_method decoder" where
  "decode_basic_reject alloc =
     pool_alloc alloc 16 (get_64 (\<lambda>delivery_tag. get_8 (\<lambda>bits.
       got (Basic_method (Basic_reject delivery_tag (flag bits 0))))))"

definition decode_basic_recover_async :: "(nat \<Rightarrow> bool) \<Rightarrow> amqp_method decoder" where
  "decode_basic_recover_async alloc =
     pool_alloc alloc 4 (get_8 (\<lambda>bits.
       got (Basic_method (Basic_recover_async (flag bits 0)))))"

definition decode_basic_recover :: "(nat \<Rightarrow> bool) \<Rightarrow> amqp_method decoder" where
  "decode_basic_recover alloc =
     pool_alloc alloc 4 (get_8 (\<lambda>bits. got (Basic_method (Basic_recover (flag bits 0)))))"

definition decode_basic_recover_ok :: "(nat \<Rightarrow> bool) \<Rightarrow> amqp_method decoder" where
  "decode_basic_recover_ok alloc =
     pool_alloc alloc 1 (got (Basic_method Basic_recover_ok))"

definition decode_basic_nack :: "(nat \<Rightarrow> bool) \<Rightarrow> amqp_method decoder" where
  "decode_basic_nack alloc =
     pool_alloc alloc 16 (get_64 (\<lambda>delivery_tag. get_8 (\<lambda>bits.
       got (Basic_method (Basic_nack delivery_tag (flag bits 0) (flag bits 1))))))"

definition decode_tx_select :: "(nat \<Rightarrow> bool) \<Rightarrow> amqp_method decoder" where
  "decode_tx_select alloc =
     pool_alloc alloc 1 (got (Tx_method Tx_select))"

definition decode_tx_select_ok :: "(nat \<Rightarrow> bool) \<Rightarrow> amqp_method decoder" where
  "decode_tx_select_ok alloc =
     pool_alloc alloc 1 (got (Tx_method Tx_select_ok))"

definition decode_tx_commit :: "(nat \<Rightarrow> bool) \<Rightarrow> amqp_method decoder" where
  "decode_tx_commit alloc =
     pool_alloc alloc 1 (got (Tx_method Tx_commit))"

definition decode_tx_commit_ok :: "(nat \<Rightarrow> bool) \<Rightarrow> amqp_method decoder" where
  "decode_tx_commit_ok alloc =
     pool_alloc alloc 1 (got (Tx_method Tx_commit_ok))"

definition decode_tx_rollback :: "(nat \<Rightarrow> bool) \<Rightarrow> amqp_method decoder" where
  "decode_tx_rollback alloc =
     pool_alloc alloc 1 (got (Tx_method Tx_rollback))"

definition decode_tx_rollback_ok :: "(nat \<Rightarrow> bool) \<Rightarrow> amqp_method decoder" where
  "decode_tx_rollback_ok alloc =
     pool_alloc alloc 1 (got (Tx_method Tx_rollback_ok))"

definition decode_confirm_select :: "(nat \<Rightarrow> bool) \<Rightarrow> amqp_method decoder" where
  "decode_confirm_select alloc =
     pool_alloc alloc 4 (get_8 (\<lambda>bits.
       got (Confirm_method (Confirm_select (flag bits 0)))))"

definition decode_confirm_select_ok :: "(nat \<Rightarrow> bool) \<Rightarrow> amqp_method decoder" where
  "decode_confirm_select_ok alloc =
     pool_alloc alloc 1 (got (Confirm_method Confirm_select_ok))"

definition decode_switch :: "32 word \<Rightarrow> (nat \<Rightarrow> bool) \<Rightarrow> amqp_method decoder" where
  "decode_switch methodNumber alloc =
     (if methodNumber = AMQP_CONNECTION_START_METHOD then decode_connection_start alloc
      else if methodNumber = AMQP_CONNECTION_START_OK_METHOD then decode_connection_start_ok alloc
      else if methodNumber = AMQP_CONNECTION_SECURE_METHOD then decode_connection_secure alloc
      else if methodNumber = AMQP_CONNECTION_SECURE_OK_METHOD then decode_connection_secure_ok alloc
      else if methodNumber = AMQP_CONNECTION_TUNE_METHOD then decode_connection_tune alloc
      else if methodNumber = AMQP_CONNECTION_TUNE_OK_METHOD then decode_connection_tune_ok alloc
      else if methodNumber = AMQP_CONNECTION_OPEN_METHOD then decode_connection_open alloc
      else if methodNumber = AMQP_CONNECTION_OPEN_OK_METHOD then decode_connection_open_ok alloc
      else if methodNumber = AMQP_CONNECTION_CLOSE_METHOD then decode_connection_close alloc
      else if methodNumber = AMQP_CONNECTION_CLOSE_OK_METHOD then decode_connection_close_ok alloc
      else if methodNumber = AMQP_CONNECTION_BLOCKED_METHOD then decode_connection_blocked alloc
      else if methodNumber = AMQP_CONNECTION_UNBLOCKED_METHOD then decode_connection_unblocked alloc
      else if methodNumber = AMQP_CHANNEL_OPEN_METHOD then decode_channel_open alloc
      else if methodNumber = AMQP_CHANNEL_OPEN_OK_METHOD then decode_channel_open_ok alloc
      else if methodNumber = AMQP_CHANNEL_FLOW_METHOD then decode_channel_flow alloc
      else if methodNumber = AMQP_CHANNEL_FLOW_OK_METHOD then decode_channel_flow_ok alloc
      else if methodNumber = AMQP_CHANNEL_CLOSE_METHOD then decode_channel_close alloc
      else if methodNumber = AMQP_CHANNEL_CLOSE_OK_METHOD then decode_channel_close_ok alloc
      else if methodNumber = AMQP_ACCESS_REQUEST_METHOD then decode_access_request alloc
      else if methodNumber = AMQP_ACCESS_REQUEST_OK_METHOD then decode_access_request_ok alloc
      else if methodNumber = AMQP_EXCHANGE_DECLARE_METHOD then decode_exchange_declare alloc
      else if methodNumber = AMQP_EXCHANGE_DECLARE_OK_METHOD then decode_exchange_declare_ok alloc
      else if methodNumber = AMQP_EXCHANGE_DELETE_METHOD then decode_exchange_delete alloc
      else if methodNumber = AMQP_EXCHANGE_DELETE_OK_METHOD then decode_exchange_delete_ok alloc
      else if methodNumber = AMQP_EXCHANGE_BIND_METHOD then decode_exchange_bind alloc
      else if methodNumber = AMQP_EXCHANGE_BIND_OK_METHOD then decode_exchange_bind_ok alloc
      else if methodNumber = AMQP_EXCHANGE_UNBIND_METHOD then decode_exchange_unbind alloc
      else if methodNumber = AMQP_EXCHANGE_UNBIND_OK_METHOD then decode_exchange_unbind_ok alloc
      else if methodNumber = AMQP_QUEUE_DECLARE_METHOD then decode_queue_declare alloc
      else if methodNumber = AMQP_QUEUE_DECLARE_OK_METHOD then decode_queue_declare_ok alloc
      else if methodNumber = AMQP_QUEUE_BIND_METHOD then decode_queue_bind alloc
      else if methodNumber = AMQP_QUEUE_BIND_OK_METHOD then decode_queue_bind_ok alloc
      else if methodNumber = AMQP_QUEUE_PURGE_METHOD then decode_queue_purge alloc
      else if methodNumber = AMQP_QUEUE_PURGE_OK_METHOD then decode_queue_purge_ok alloc
      else if methodNumber = AMQP_QUEUE_DELETE_METHOD then decode_queue_delete alloc
      else if methodNumber = AMQP_QUEUE_DELETE_OK_METHOD then decode_queue_delete_ok alloc
      else if methodNumber = AMQP_QUEUE_UNBIND_METHOD then decode_queue_unbind alloc
      else if methodNumber = AMQP_QUEUE_UNBIND_OK_METHOD then decode_queue_unbind_ok alloc
      else if methodNumber = AMQP_BASIC_QOS_METHOD then decode_basic_qos alloc
      else if methodNumber = AMQP_BASIC_QOS_OK_METHOD then decode_basic_qos_ok alloc
      else if methodNumber = AMQP_BASIC_CONSUME_METHOD then decode_basic_consume alloc
      else if methodNumber = AMQP_BASIC_CONSUME_OK_METHOD then decode_basic_consume_ok alloc
      else if methodNumber = AMQP_BASIC_CANCEL_METHOD then decode_basic_cancel alloc
      else if methodNumber = AMQP_BASIC_CANCEL_OK_METHOD then decode_basic_cancel_ok alloc
      else if methodNumber = AMQP_BASIC_PUBLISH_METHOD then decode_basic_publish alloc
      else if methodNumber = AMQP_BASIC_RETURN_METHOD then decode_basic_return alloc
      else if methodNumber = AMQP_BASIC_DELIVER_METHOD then decode_basic_deliver alloc
      else if methodNumber = AMQP_BASIC_GET_METHOD then decode_basic_get alloc
      else if methodNumber = AMQP_BASIC_GET_OK_METHOD then decode_basic_get_ok alloc
      else if methodNumber = AMQP_BASIC_GET_EMPTY_METHOD then decode_basic_get_empty alloc
      else if methodNumber = AMQP_BASIC_ACK_METHOD then decode_basic_ack alloc
      else if methodNumber = AMQP_BASIC_REJECT_METHOD then decode_basic_reject alloc
      else if methodNumber = AMQP_BASIC_RECOVER_ASYNC_METHOD then decode_basic_recover_async alloc
      else if methodNumber = AMQP_BASIC_RECOVER_METHOD then decode_basic_recover alloc
      else if methodNumber = AMQP_BASIC_RECOVER_OK_METHOD then decode_basic_recover_ok alloc
      else if methodNumber = AMQP_BASIC_NACK_METHOD then decode_basic_nack alloc
      else if methodNumber = AMQP_TX_SELECT_METHOD then decode_tx_select alloc
      else if methodNumber = AMQP_TX_SELECT_OK_METHOD then decode_tx_select_ok alloc
      else if methodNumber = AMQP_TX_COMMIT_METHOD then decode_tx_commit alloc
      else if methodNumber = AMQP_TX_COMMIT_OK_METHOD then decode_tx_commit_ok alloc
      else if methodNumber = AMQP_TX_ROLLBACK_METHOD then decode_tx_rollback alloc
      else if methodNumber = AMQP_TX_ROLLBACK_OK_METHOD then decode_tx_rollback_ok alloc
      else if methodNumber = AMQP_CONFIRM_SELECT_METHOD then decode_confirm_select alloc
      else if methodNumber = AMQP_CONFIRM_SELECT_OK_METHOD then decode_confirm_select_ok alloc
      else (\<lambda>encoded offset. Inl STATUS_UNKNOWN_METHOD))"

definition amqp_decode_method :: "32 word \<Rightarrow> (nat \<Rightarrow> bool) \<Rightarrow> bytes \<Rightarrow> amqp_method result" where
  "amqp_decode_method methodNumber alloc encoded =
     (case decode_switch methodNumber alloc encoded 0 of Inl st \<Rightarrow> Inl st | Inr (m, offset) \<Rightarrow> Inr m)"

end
