(* ===== verification/AMQP_Encode.thy ===== *)
theory AMQP_Encode
  imports AMQP_Methods
begin

text \<open>
  \<open>amqp_encode_method\<close>: one definition per \<open>case\<close> of its \<open>switch\<close>, with the fields of the
  structure as arguments, and the \<open>switch\<close>.
\<close>

definition encode_connection_start ::
    "8 word \<Rightarrow> 8 word \<Rightarrow> amqp_table \<Rightarrow> bytes \<Rightarrow> bytes \<Rightarrow> encoder" where
  "encode_connection_start version_major version_minor server_properties mechanisms locales =
     puts [put_8 version_major, put_8 version_minor, put_table server_properties, put_long mechanisms,
       put_long locales]"

definition encode_connection_start_ok ::
    "amqp_table \<Rightarrow> bytes \<Rightarrow> bytes \<Rightarrow> bytes \<Rightarrow> encoder" where
  "encode_connection_start_ok client_properties mechanism response locale =
     puts [put_table client_properties, put_short mechanism, put_long response, put_short locale]"

definition encode_connection_secure ::
    "bytes \<Rightarrow> encoder" where
  "encode_connection_secure challenge =
     puts [put_long challenge]"

definition encode_connection_secure_ok ::
    "bytes \<Rightarrow> encoder" where
  "encode_connection_secure_ok response =
     puts [put_long response]"

definition encode_connection_tune ::
    "16 word \<Rightarrow> 32 word \<Rightarrow> 16 word \<Rightarrow> encoder" where
  "encode_connection_tune channel_max frame_max heartbeat =
     puts [put_16 channel_max, put_32 frame_max, put_16 heartbeat]"

definition encode_connection_tune_ok ::
    "16 word \<Rightarrow> 32 word \<Rightarrow> 16 word \<Rightarrow> encoder" where
  "encode_connection_tune_ok channel_max frame_max heartbeat =
     puts [put_16 channel_max, put_32 frame_max, put_16 heartbeat]"

definition encode_connection_open ::
    "bytes \<Rightarrow> bytes \<Rightarrow> bool \<Rightarrow> encoder" where
  "encode_connection_open virtual_host capabilities insist =
     puts [put_short virtual_host, put_short capabilities, put_8 (bit_buffer [insist])]"

definition encode_connection_open_ok ::
    "bytes \<Rightarrow> encoder" where
  "encode_connection_open_ok known_hosts =
     puts [put_short known_hosts]"

definition encode_connection_close ::
    "16 word \<Rightarrow> bytes \<Rightarrow> 16 word \<Rightarrow> 16 word \<Rightarrow> encoder" where
  "encode_connection_close reply_code reply_text class_id method_id =
     puts [put_16 reply_code, put_short reply_text, put_16 class_id, put_16 method_id]"

definition encode_connection_close_ok ::
    "encoder" where
  "encode_connection_close_ok =
     puts []"

definition encode_connection_blocked ::
    "bytes \<Rightarrow> encoder" where
  "encode_connection_blocked reason =
     puts [put_short reason]"

definition encode_connection_unblocked ::
    "encoder" where
  "encode_connection_unblocked =
     puts []"

definition encode_channel_open ::
    "bytes \<Rightarrow> encoder" where
  "encode_channel_open out_of_band =
     puts [put_short out_of_band]"

definition encode_channel_open_ok ::
    "bytes \<Rightarrow> encoder" where
  "encode_channel_open_ok channel_id =
     puts [put_long channel_id]"

definition encode_channel_flow ::
    "bool \<Rightarrow> encoder" where
  "encode_channel_flow active =
     puts [put_8 (bit_buffer [active])]"

definition encode_channel_flow_ok ::
    "bool \<Rightarrow> encoder" where
  "encode_channel_flow_ok active =
     puts [put_8 (bit_buffer [active])]"

definition encode_channel_close ::
    "16 word \<Rightarrow> bytes \<Rightarrow> 16 word \<Rightarrow> 16 word \<Rightarrow> encoder" where
  "encode_channel_close reply_code reply_text class_id method_id =
     puts [put_16 reply_code, put_short reply_text, put_16 class_id, put_16 method_id]"

definition encode_channel_close_ok ::
    "encoder" where
  "encode_channel_close_ok =
     puts []"

definition encode_access_request ::
    "bytes \<Rightarrow> bool \<Rightarrow> bool \<Rightarrow> bool \<Rightarrow> bool \<Rightarrow> bool \<Rightarrow> encoder" where
  "encode_access_request realm exclusive passive active write read =
     puts [put_short realm, put_8 (bit_buffer [exclusive, passive, active, write, read])]"

definition encode_access_request_ok ::
    "16 word \<Rightarrow> encoder" where
  "encode_access_request_ok ticket =
     puts [put_16 ticket]"

definition encode_exchange_declare ::
    "16 word \<Rightarrow> bytes \<Rightarrow> bytes \<Rightarrow> bool \<Rightarrow> bool \<Rightarrow> bool \<Rightarrow> bool \<Rightarrow> bool \<Rightarrow> amqp_table \<Rightarrow> encoder" where
  "encode_exchange_declare ticket exchange type_name passive durable auto_delete internal nowait arguments =
     puts [put_16 ticket, put_short exchange, put_short type_name,
       put_8 (bit_buffer [passive, durable, auto_delete, internal, nowait]), put_table arguments]"

definition encode_exchange_declare_ok ::
    "encoder" where
  "encode_exchange_declare_ok =
     puts []"

definition encode_exchange_delete ::
    "16 word \<Rightarrow> bytes \<Rightarrow> bool \<Rightarrow> bool \<Rightarrow> encoder" where
  "encode_exchange_delete ticket exchange if_unused nowait =
     puts [put_16 ticket, put_short exchange, put_8 (bit_buffer [if_unused, nowait])]"

definition encode_exchange_delete_ok ::
    "encoder" where
  "encode_exchange_delete_ok =
     puts []"

definition encode_exchange_bind ::
    "16 word \<Rightarrow> bytes \<Rightarrow> bytes \<Rightarrow> bytes \<Rightarrow> bool \<Rightarrow> amqp_table \<Rightarrow> encoder" where
  "encode_exchange_bind ticket destination source routing_key nowait arguments =
     puts [put_16 ticket, put_short destination, put_short source, put_short routing_key,
       put_8 (bit_buffer [nowait]), put_table arguments]"

definition encode_exchange_bind_ok ::
    "encoder" where
  "encode_exchange_bind_ok =
     puts []"

definition encode_exchange_unbind ::
    "16 word \<Rightarrow> bytes \<Rightarrow> bytes \<Rightarrow> bytes \<Rightarrow> bool \<Rightarrow> amqp_table \<Rightarrow> encoder" where
  "encode_exchange_unbind ticket destination source routing_key nowait arguments =
     puts [put_16 ticket, put_short destination, put_short source, put_short routing_key,
       put_8 (bit_buffer [nowait]), put_table arguments]"

definition encode_exchange_unbind_ok ::
    "encoder" where
  "encode_exchange_unbind_ok =
     puts []"

definition encode_queue_declare ::
    "16 word \<Rightarrow> bytes \<Rightarrow> bool \<Rightarrow> bool \<Rightarrow> bool \<Rightarrow> bool \<Rightarrow> bool \<Rightarrow> amqp_table \<Rightarrow> encoder" where
  "encode_queue_declare ticket queue passive durable exclusive auto_delete nowait arguments =
     puts [put_16 ticket, put_short queue,
       put_8 (bit_buffer [passive, durable, exclusive, auto_delete, nowait]), put_table arguments]"

definition encode_queue_declare_ok ::
    "bytes \<Rightarrow> 32 word \<Rightarrow> 32 word \<Rightarrow> encoder" where
  "encode_queue_declare_ok queue message_count consumer_count =
     puts [put_short queue, put_32 message_count, put_32 consumer_count]"

definition encode_queue_bind ::
    "16 word \<Rightarrow> bytes \<Rightarrow> bytes \<Rightarrow> bytes \<Rightarrow> bool \<Rightarrow> amqp_table \<Rightarrow> encoder" where
  "encode_queue_bind ticket queue exchange routing_key nowait arguments =
     puts [put_16 ticket, put_short queue, put_short exchange, put_short routing_key,
       put_8 (bit_buffer [nowait]), put_table arguments]"

definition encode_queue_bind_ok ::
    "encoder" where
  "encode_queue_bind_ok =
     puts []"

definition encode_queue_purge ::
    "16 word \<Rightarrow> bytes \<Rightarrow> bool \<Rightarrow> encoder" where
  "encode_queue_purge ticket queue nowait =
     puts [put_16 ticket, put_short queue, put_8 (bit_buffer [nowait])]"

definition encode_queue_purge_ok ::
    "32 word \<Rightarrow> encoder" where
  "encode_queue_purge_ok message_count =
     puts [put_32 message_count]"

definition encode_queue_delete ::
    "16 word \<Rightarrow> bytes \<Rightarrow> bool \<Rightarrow> bool \<Rightarrow> bool \<Rightarrow> encoder" where
  "encode_queue_delete ticket queue if_unused if_empty nowait =
     puts [put_16 ticket, put_short queue, put_8 (bit_buffer [if_unused, if_empty, nowait])]"

definition encode_queue_delete_ok ::
    "32 word \<Rightarrow> encoder" where
  "encode_queue_delete_ok message_count =
     puts [put_32 message_count]"

definition encode_queue_unbind ::
    "16 word \<Rightarrow> bytes \<Rightarrow> bytes \<Rightarrow> bytes \<Rightarrow> amqp_table \<Rightarrow> encoder" where
  "encode_queue_unbind ticket queue exchange routing_key arguments =
     puts [put_16 ticket, put_short queue, put_short exchange, put_short routing_key,
       put_table arguments]"

definition encode_queue_unbind_ok ::
    "encoder" where
  "encode_queue_unbind_ok =
     puts []"

definition encode_basic_qos ::
    "32 word \<Rightarrow> 16 word \<Rightarrow> bool \<Rightarrow> encoder" where
  "encode_basic_qos prefetch_size prefetch_count global =
     puts [put_32 prefetch_size, put_16 prefetch_count, put_8 (bit_buffer [global])]"

definition encode_basic_qos_ok ::
    "encoder" where
  "encode_basic_qos_ok =
     puts []"

definition encode_basic_consume ::
    "16 word \<Rightarrow> bytes \<Rightarrow> bytes \<Rightarrow> bool \<Rightarrow> bool \<Rightarrow> bool \<Rightarrow> bool \<Rightarrow> amqp_table \<Rightarrow> encoder" where
  "encode_basic_consume ticket queue consumer_tag no_local no_ack exclusive nowait arguments =
     puts [put_16 ticket, put_short queue, put_short consumer_tag,
       put_8 (bit_buffer [no_local, no_ack, exclusive, nowait]), put_table arguments]"

definition encode_basic_consume_ok ::
    "bytes \<Rightarrow> encoder" where
  "encode_basic_consume_ok consumer_tag =
     puts [put_short consumer_tag]"

definition encode_basic_cancel ::
    "bytes \<Rightarrow> bool \<Rightarrow> encoder" where
  "encode_basic_cancel consumer_tag nowait =
     puts [put_short consumer_tag, put_8 (bit_buffer [nowait])]"

definition encode_basic_cancel_ok ::
    "bytes \<Rightarrow> encoder" where
  "encode_basic_cancel_ok consumer_tag =
     puts [put_short consumer_tag]"

definition encode_basic_publish ::
    "16 word \<Rightarrow> bytes \<Rightarrow> bytes \<Rightarrow> bool \<Rightarrow> bool \<Rightarrow> encoder" where
  "encode_basic_publish ticket exchange routing_key mandatory immediate =
     puts [put_16 ticket, put_short exchange, put_short routing_key,
       put_8 (bit_buffer [mandatory, immediate])]"

definition encode_basic_return ::
    "16 word \<Rightarrow> bytes \<Rightarrow> bytes \<Rightarrow> bytes \<Rightarrow> encoder" where
  "encode_basic_return reply_code reply_text exchange routing_key =
     puts [put_16 reply_code, put_short reply_text, put_short exchange, put_short routing_key]"

definition encode_basic_deliver ::
    "bytes \<Rightarrow> 64 word \<Rightarrow> bool \<Rightarrow> bytes \<Rightarrow> bytes \<Rightarrow> encoder" where
  "encode_basic_deliver consumer_tag delivery_tag redelivered exchange routing_key =
     puts [put_short consumer_tag, put_64 delivery_tag, put_8 (bit_buffer [redelivered]),
       put_short exchange, put_short routing_key]"

definition encode_basic_get ::
    "16 word \<Rightarrow> bytes \<Rightarrow> bool \<Rightarrow> encoder" where
  "encode_basic_get ticket queue no_ack =
     puts [put_16 ticket, put_short queue, put_8 (bit_buffer [no_ack])]"

definition encode_basic_get_ok ::
    "64 word \<Rightarrow> bool \<Rightarrow> bytes \<Rightarrow> bytes \<Rightarrow> 32 word \<Rightarrow> encoder" where
  "encode_basic_get_ok delivery_tag redelivered exchange routing_key message_count =
     puts [put_64 delivery_tag, put_8 (bit_buffer [redelivered]), put_short exchange,
       put_short routing_key, put_32 message_count]"

definition encode_basic_get_empty ::
    "bytes \<Rightarrow> encoder" where
  "encode_basic_get_empty cluster_id =
     puts [put_short cluster_id]"

definition encode_basic_ack ::
    "64 word \<Rightarrow> bool \<Rightarrow> encoder" where
  "encode_basic_ack delivery_tag multiple =
     puts [put_64 delivery_tag, put_8 (bit_buffer [multiple])]"

definition encode_basic_reject ::
    "64 word \<Rightarrow> bool \<Rightarrow> encoder" where
  "encode_basic_reject delivery_tag requeue =
     puts [put_64 delivery_tag, put_8 (bit_buffer [requeue])]"

definition encode_basic_recover_async ::
    "bool \<Rightarrow> encoder" where
  "encode_basic_recover_async requeue =
     puts [put_8 (bit_buffer [requeue])]"

definition encode_basic_recover ::
    "bool \<Rightarrow> encoder" where
  "encode_basic_recover requeue =
     puts [put_8 (bit_buffer [requeue])]"

definition encode_basic_recover_ok ::
    "encoder" where
  "encode_basic_recover_ok =
     puts []"

definition encode_basic_nack ::
    "64 word \<Rightarrow> bool \<Rightarrow> bool \<Rightarrow> encoder" where
  "encode_basic_nack delivery_tag multiple requeue =
     puts [put_64 delivery_tag, put_8 (bit_buffer [multiple, requeue])]"

definition encode_tx_select ::
    "encoder" where
  "encode_tx_select =
     puts []"

definition encode_tx_select_ok ::
    "encoder" where
  "encode_tx_select_ok =
     puts []"

definition encode_tx_commit ::
    "encoder" where
  "encode_tx_commit =
     puts []"

definition encode_tx_commit_ok ::
    "encoder" where
  "encode_tx_commit_ok =
     puts []"

definition encode_tx_rollback ::
    "encoder" where
  "encode_tx_rollback =
     puts []"

definition encode_tx_rollback_ok ::
    "encoder" where
  "encode_tx_rollback_ok =
     puts []"

definition encode_confirm_select ::
    "bool \<Rightarrow> encoder" where
  "encode_confirm_select nowait =
     puts [put_8 (bit_buffer [nowait])]"

definition encode_confirm_select_ok ::
    "encoder" where
  "encode_confirm_select_ok =
     puts []"

fun encode_connection_method :: "amqp_connection_method \<Rightarrow> encoder" where
    "encode_connection_method (Connection_start version_major version_minor server_properties mechanisms locales) =
       encode_connection_start version_major version_minor server_properties mechanisms locales"
  | "encode_connection_method (Connection_start_ok client_properties mechanism response locale) =
       encode_connection_start_ok client_properties mechanism response locale"
  | "encode_connection_method (Connection_secure challenge) =
       encode_connection_secure challenge"
  | "encode_connection_method (Connection_secure_ok response) =
       encode_connection_secure_ok response"
  | "encode_connection_method (Connection_tune channel_max frame_max heartbeat) =
       encode_connection_tune channel_max frame_max heartbeat"
  | "encode_connection_method (Connection_tune_ok channel_max frame_max heartbeat) =
       encode_connection_tune_ok channel_max frame_max heartbeat"
  | "encode_connection_method (Connection_open virtual_host capabilities insist) =
       encode_connection_open virtual_host capabilities insist"
  | "encode_connection_method (Connection_open_ok known_hosts) =
       encode_connection_open_ok known_hosts"
  | "encode_connection_method (Connection_close reply_code reply_text class_id method_id) =
       encode_connection_close reply_code reply_text class_id method_id"
  | "encode_connection_method Connection_close_ok =
       encode_connection_close_ok"
  | "encode_connection_method (Connection_blocked reason) =
       encode_connection_blocked reason"
  | "encode_connection_method Connection_unblocked =
       encode_connection_unblocked"

fun encode_channel_method :: "amqp_channel_method \<Rightarrow> encoder" where
    "encode_channel_method (Channel_open out_of_band) =
       encode_channel_open out_of_band"
  | "encode_channel_method (Channel_open_ok channel_id) =
       encode_channel_open_ok channel_id"
  | "encode_channel_method (Channel_flow active) =
       encode_channel_flow active"
  | "encode_channel_method (Channel_flow_ok active) =
       encode_channel_flow_ok active"
  | "encode_channel_method (Channel_close reply_code reply_text class_id method_id) =
       encode_channel_close reply_code reply_text class_id method_id"
  | "encode_channel_method Channel_close_ok =
       encode_channel_close_ok"

fun encode_access_method :: "amqp_access_method \<Rightarrow> encoder" where
    "encode_access_method (Access_request realm exclusive passive active write read) =
       encode_access_request realm exclusive passive active write read"
  | "encode_access_method (Access_request_ok ticket) =
       encode_access_request_ok ticket"

fun encode_exchange_method :: "amqp_exchange_method \<Rightarrow> encoder" where
    "encode_exchange_method (Exchange_declare ticket exchange type_name passive durable auto_delete internal nowait arguments) =
       encode_exchange_declare ticket exchange type_name passive durable auto_delete internal nowait arguments"
  | "encode_exchange_method Exchange_declare_ok =
       encode_exchange_declare_ok"
  | "encode_exchange_method (Exchange_delete ticket exchange if_unused nowait) =
       encode_exchange_delete ticket exchange if_unused nowait"
  | "encode_exchange_method Exchange_delete_ok =
       encode_exchange_delete_ok"
  | "encode_exchange_method (Exchange_bind ticket destination source routing_key nowait arguments) =
       encode_exchange_bind ticket destination source routing_key nowait arguments"
  | "encode_exchange_method Exchange_bind_ok =
       encode_exchange_bind_ok"
  | "encode_exchange_method (Exchange_unbind ticket destination source routing_key nowait arguments) =
       encode_exchange_unbind ticket destination source routing_key nowait arguments"
  | "encode_exchange_method Exchange_unbind_ok =
       encode_exchange_unbind_ok"

fun encode_queue_method :: "amqp_queue_method \<Rightarrow> encoder" where
    "encode_queue_method (Queue_declare ticket queue passive durable exclusive auto_delete nowait arguments) =
       encode_queue_declare ticket queue passive durable exclusive auto_delete nowait arguments"
  | "encode_queue_method (Queue_declare_ok queue message_count consumer_count) =
       encode_queue_declare_ok queue message_count consumer_count"
  | "encode_queue_method (Queue_bind ticket queue exchange routing_key nowait arguments) =
       encode_queue_bind ticket queue exchange routing_key nowait arguments"
  | "encode_queue_method Queue_bind_ok =
       encode_queue_bind_ok"
  | "encode_queue_method (Queue_purge ticket queue nowait) =
       encode_queue_purge ticket queue nowait"
  | "encode_queue_method (Queue_purge_ok message_count) =
       encode_queue_purge_ok message_count"
  | "encode_queue_method (Queue_delete ticket queue if_unused if_empty nowait) =
       encode_queue_delete ticket queue if_unused if_empty nowait"
  | "encode_queue_method (Queue_delete_ok message_count) =
       encode_queue_delete_ok message_count"
  | "encode_queue_method (Queue_unbind ticket queue exchange routing_key arguments) =
       encode_queue_unbind ticket queue exchange routing_key arguments"
  | "encode_queue_method Queue_unbind_ok =
       encode_queue_unbind_ok"

fun encode_basic_method :: "amqp_basic_method \<Rightarrow> encoder" where
    "encode_basic_method (Basic_qos prefetch_size prefetch_count global) =
       encode_basic_qos prefetch_size prefetch_count global"
  | "encode_basic_method Basic_qos_ok =
       encode_basic_qos_ok"
  | "encode_basic_method (Basic_consume ticket queue consumer_tag no_local no_ack exclusive nowait arguments) =
       encode_basic_consume ticket queue consumer_tag no_local no_ack exclusive nowait arguments"
  | "encode_basic_method (Basic_consume_ok consumer_tag) =
       encode_basic_consume_ok consumer_tag"
  | "encode_basic_method (Basic_cancel consumer_tag nowait) =
       encode_basic_cancel consumer_tag nowait"
  | "encode_basic_method (Basic_cancel_ok consumer_tag) =
       encode_basic_cancel_ok consumer_tag"
  | "encode_basic_method (Basic_publish ticket exchange routing_key mandatory immediate) =
       encode_basic_publish ticket exchange routing_key mandatory immediate"
  | "encode_basic_method (Basic_return reply_code reply_text exchange routing_key) =
       encode_basic_return reply_code reply_text exchange routing_key"
  | "encode_basic_method (Basic_deliver consumer_tag delivery_tag redelivered exchange routing_key) =
       encode_basic_deliver consumer_tag delivery_tag redelivered exchange routing_key"
  | "encode_basic_method (Basic_get ticket queue no_ack) =
       encode_basic_get ticket queue no_ack"
  | "encode_basic_method (Basic_get_ok delivery_tag redelivered exchange routing_key message_count) =
       encode_basic_get_ok delivery_tag redelivered exchange routing_key message_count"
  | "encode_basic_method (Basic_get_empty cluster_id) =
       encode_basic_get_empty cluster_id"
  | "encode_basic_method (Basic_ack delivery_tag multiple) =
       encode_basic_ack delivery_tag multiple"
  | "encode_basic_method (Basic_reject delivery_tag requeue) =
       encode_basic_reject delivery_tag requeue"
  | "encode_basic_method (Basic_recover_async requeue) =
       encode_basic_recover_async requeue"
  | "encode_basic_method (Basic_recover requeue) =
       encode_basic_recover requeue"
  | "encode_basic_method Basic_recover_ok =
       encode_basic_recover_ok"
  | "encode_basic_method (Basic_nack delivery_tag multiple requeue) =
       encode_basic_nack delivery_tag multiple requeue"

fun encode_tx_method :: "amqp_tx_method \<Rightarrow> encoder" where
    "encode_tx_method Tx_select =
       encode_tx_select"
  | "encode_tx_method Tx_select_ok =
       encode_tx_select_ok"
  | "encode_tx_method Tx_commit =
       encode_tx_commit"
  | "encode_tx_method Tx_commit_ok =
       encode_tx_commit_ok"
  | "encode_tx_method Tx_rollback =
       encode_tx_rollback"
  | "encode_tx_method Tx_rollback_ok =
       encode_tx_rollback_ok"

fun encode_confirm_method :: "amqp_confirm_method \<Rightarrow> encoder" where
    "encode_confirm_method (Confirm_select nowait) =
       encode_confirm_select nowait"
  | "encode_confirm_method Confirm_select_ok =
       encode_confirm_select_ok"

primrec encode_method_body :: "amqp_method \<Rightarrow> encoder" where
    "encode_method_body (Connection_method m) = encode_connection_method m"
  | "encode_method_body (Channel_method m) = encode_channel_method m"
  | "encode_method_body (Access_method m) = encode_access_method m"
  | "encode_method_body (Exchange_method m) = encode_exchange_method m"
  | "encode_method_body (Queue_method m) = encode_queue_method m"
  | "encode_method_body (Basic_method m) = encode_basic_method m"
  | "encode_method_body (Tx_method m) = encode_tx_method m"
  | "encode_method_body (Confirm_method m) = encode_confirm_method m"

text \<open>
  The number selects the type the structure is read as: with a number of another method the
  code reads a structure that is not there, which has no defined result; an unknown number is
  an error.  The result is the buffer and the number of bytes written, cast to \<open>int\<close>.
\<close>

definition amqp_encode_method :: "32 word \<Rightarrow> amqp_method \<Rightarrow> bytes \<Rightarrow> (bytes \<times> int) result option" where
  "amqp_encode_method methodNumber decoded encoded =
     (if amqp_method_name methodNumber = None then Some (Inl STATUS_UNKNOWN_METHOD)
      else if methodNumber \<noteq> method_number decoded then None
      else Some (return_offset (encode_method_body decoded encoded 0)))"

end
