(* ===== verification/AMQP_Properties.thy ===== *)
theory AMQP_Properties
  imports AMQP_Codec
begin

text \<open>
  The content header properties (\<open>amqp_decode_properties\<close>, \<open>amqp_encode_properties\<close> and their
  structures).  Only the basic class has fields; a bit of \<open>_flags\<close> says which are present.
\<close>

section \<open>Structures\<close>

record amqp_basic_properties =
  basic_flags :: "32 word"
  content_type :: bytes
  content_encoding :: bytes
  headers :: amqp_table
  delivery_mode :: "8 word"
  priority :: "8 word"
  correlation_id :: bytes
  reply_to :: bytes
  expiration :: bytes
  message_id :: bytes
  timestamp :: "64 word"
  type_name :: bytes
  user_id :: bytes
  app_id :: bytes
  cluster_id :: bytes

datatype amqp_properties =
    Connection_properties "32 word"
  | Channel_properties "32 word"
  | Access_properties "32 word"
  | Exchange_properties "32 word"
  | Queue_properties "32 word"
  | Basic_properties amqp_basic_properties
  | Tx_properties "32 word"
  | Confirm_properties "32 word"

primrec properties_class :: "amqp_properties \<Rightarrow> 16 word" where
  "properties_class (Connection_properties _) = 10"
| "properties_class (Channel_properties _) = 20"
| "properties_class (Access_properties _) = 30"
| "properties_class (Exchange_properties _) = 40"
| "properties_class (Queue_properties _) = 50"
| "properties_class (Basic_properties _) = 60"
| "properties_class (Tx_properties _) = 90"
| "properties_class (Confirm_properties _) = 85"

text \<open>Every structure begins with its flags: \<open>*(amqp_flags_t *)decoded\<close>.\<close>

primrec properties_flags :: "amqp_properties \<Rightarrow> 32 word" where
  "properties_flags (Connection_properties flags) = flags"
| "properties_flags (Channel_properties flags) = flags"
| "properties_flags (Access_properties flags) = flags"
| "properties_flags (Exchange_properties flags) = flags"
| "properties_flags (Queue_properties flags) = flags"
| "properties_flags (Basic_properties p) = basic_flags p"
| "properties_flags (Tx_properties flags) = flags"
| "properties_flags (Confirm_properties flags) = flags"

text \<open>\<open>present flags i\<close> is \<open>flags & (1 << i)\<close>, with the \<open>AMQP_BASIC_*_FLAG\<close> bit numbers.\<close>

definition present :: "32 word \<Rightarrow> nat \<Rightarrow> bool" where
  "present flags i = (flags AND push_bit i 1 \<noteq> 0)"

section \<open>Flag words\<close>

text \<open>
  The flags travel in 16-bit words whose lowest bit announces another word.  The decoder shifts
  the promoted \<open>int\<close> left by \<open>16 * flagword_index\<close>: the result is undefined when the value does
  not fit an \<open>int\<close> or the shift reaches its width; \<open>None\<close> says so.
\<close>

definition shl_int :: "16 word \<Rightarrow> nat \<Rightarrow> 32 word option" where
  "shl_int w n = (if n < 32 \<and> uint w * 2 ^ n < 2 ^ 31 then Some (push_bit n (ucast w)) else None)"

function decode_flags :: "bytes \<Rightarrow> nat \<Rightarrow> nat \<Rightarrow> 32 word \<Rightarrow> (32 word \<times> nat) result option" where
  "decode_flags encoded offset flagword_index flags =
     (case amqp_decode_16 encoded offset of
        None \<Rightarrow> Some (Inl STATUS_BAD_AMQP_DATA)
      | Some (partial_flags, offset') \<Rightarrow>
          (case shl_int partial_flags (flagword_index * 16) of
             None \<Rightarrow> None
           | Some w \<Rightarrow>
               (if partial_flags AND 1 \<noteq> 0
                then decode_flags encoded offset' (flagword_index + 1) (flags OR w)
                else Some (Inr (flags OR w, offset')))))"
  by pat_completeness auto
termination
  by (relation "measure (\<lambda>(encoded, offset, _). length encoded - offset)")
    (auto dest: decode_prims_bounds)

declare decode_flags.simps [simp del]

function encode_flags :: "32 word \<Rightarrow> encoder" where
  "encode_flags remaining_flags =
     (let remainder = drop_bit 16 remaining_flags;
          partial_flags = ucast (remaining_flags AND 0xFFFE) :: 16 word;
          partial_flags = (if remainder \<noteq> 0 then partial_flags OR 1 else partial_flags)
      in if remainder \<noteq> 0 then puts [put_16 partial_flags, encode_flags remainder]
         else puts [put_16 partial_flags])"
  by pat_completeness auto
termination
proof (relation "measure unat")
  fix remaining_flags x :: "32 word"
  assume "x = drop_bit 16 remaining_flags" "x \<noteq> 0"
  then show "(x, remaining_flags) \<in> measure unat"
    by (simp add: drop_bit_eq_div unat_div unat_gt_0)
      (metis div_less_dividend div_0 gr0I one_less_numeral_iff semiring_norm(76) unat_eq_0)
qed auto

declare encode_flags.simps [simp del]

section \<open>Decoding\<close>

text \<open>
  \<open>p0\<close> is the memory \<open>amqp_pool_alloc\<close> returns for the structure, which is not initialised: a
  field that is not present keeps what is there.
\<close>

definition get_if :: "bool \<Rightarrow> (('a \<Rightarrow> 'r decoder) \<Rightarrow> 'r decoder) \<Rightarrow> 'a \<Rightarrow> ('a \<Rightarrow> 'r decoder) \<Rightarrow> 'r decoder" where
  "get_if b get v0 k = (if b then get k else k v0)"

definition put_if :: "bool \<Rightarrow> encoder \<Rightarrow> encoder" where
  "put_if b e = (if b then e else puts [])"

definition decode_basic_properties ::
    "(nat \<Rightarrow> bool) \<Rightarrow> amqp_basic_properties \<Rightarrow> 32 word \<Rightarrow> amqp_properties decoder" where
  "decode_basic_properties alloc p0 flags = pool_alloc alloc 200 (
     get_if (present flags 15) get_short (content_type p0) (\<lambda>content_type.
     get_if (present flags 14) get_short (content_encoding p0) (\<lambda>content_encoding.
     get_if (present flags 13) (get_table alloc) (headers p0) (\<lambda>headers.
     get_if (present flags 12) get_8 (delivery_mode p0) (\<lambda>delivery_mode.
     get_if (present flags 11) get_8 (priority p0) (\<lambda>priority.
     get_if (present flags 10) get_short (correlation_id p0) (\<lambda>correlation_id.
     get_if (present flags 9) get_short (reply_to p0) (\<lambda>reply_to.
     get_if (present flags 8) get_short (expiration p0) (\<lambda>expiration.
     get_if (present flags 7) get_short (message_id p0) (\<lambda>message_id.
     get_if (present flags 6) get_64 (timestamp p0) (\<lambda>timestamp.
     get_if (present flags 5) get_short (type_name p0) (\<lambda>type_name.
     get_if (present flags 4) get_short (user_id p0) (\<lambda>user_id.
     get_if (present flags 3) get_short (app_id p0) (\<lambda>app_id.
     get_if (present flags 2) get_short (cluster_id p0) (\<lambda>cluster_id.
     got (Basic_properties
       \<lparr>basic_flags = flags, content_type = content_type, content_encoding = content_encoding, headers = headers, delivery_mode = delivery_mode,
        priority = priority, correlation_id = correlation_id, reply_to = reply_to, expiration = expiration,
        message_id = message_id, timestamp = timestamp, type_name = type_name, user_id = user_id,
        app_id = app_id, cluster_id = cluster_id\<rparr>))))))))))))))))"

definition decode_plain_properties :: "(nat \<Rightarrow> bool) \<Rightarrow> (32 word \<Rightarrow> amqp_properties) \<Rightarrow> 32 word \<Rightarrow> amqp_properties decoder" where
  "decode_plain_properties alloc c flags = pool_alloc alloc 8 (got (c flags))"

definition decode_properties_switch ::
    "16 word \<Rightarrow> (nat \<Rightarrow> bool) \<Rightarrow> amqp_basic_properties \<Rightarrow> 32 word \<Rightarrow> amqp_properties decoder" where
  "decode_properties_switch class_id alloc p0 flags =
     (if class_id = 10 then decode_plain_properties alloc Connection_properties flags
      else if class_id = 20 then decode_plain_properties alloc Channel_properties flags
      else if class_id = 30 then decode_plain_properties alloc Access_properties flags
      else if class_id = 40 then decode_plain_properties alloc Exchange_properties flags
      else if class_id = 50 then decode_plain_properties alloc Queue_properties flags
      else if class_id = 60 then decode_basic_properties alloc p0 flags
      else if class_id = 90 then decode_plain_properties alloc Tx_properties flags
      else if class_id = 85 then decode_plain_properties alloc Confirm_properties flags
      else (\<lambda>encoded offset. Inl STATUS_UNKNOWN_CLASS))"

definition amqp_decode_properties ::
    "16 word \<Rightarrow> (nat \<Rightarrow> bool) \<Rightarrow> amqp_basic_properties \<Rightarrow> bytes \<Rightarrow> amqp_properties result option" where
  "amqp_decode_properties class_id alloc p0 encoded =
     (case decode_flags encoded 0 0 0 of
        None \<Rightarrow> None
      | Some (Inl st) \<Rightarrow> Some (Inl st)
      | Some (Inr (flags, offset)) \<Rightarrow>
          Some (case decode_properties_switch class_id alloc p0 flags encoded offset of
                  Inl st \<Rightarrow> Inl st | Inr (p, _) \<Rightarrow> Inr p))"

section \<open>Encoding\<close>

definition encode_basic_properties :: "32 word \<Rightarrow> amqp_basic_properties \<Rightarrow> encoder" where
  "encode_basic_properties flags p = puts [
     put_if (present flags 15) (put_short (content_type p)),
     put_if (present flags 14) (put_short (content_encoding p)),
     put_if (present flags 13) (put_table (headers p)),
     put_if (present flags 12) (put_8 (delivery_mode p)),
     put_if (present flags 11) (put_8 (priority p)),
     put_if (present flags 10) (put_short (correlation_id p)),
     put_if (present flags 9) (put_short (reply_to p)),
     put_if (present flags 8) (put_short (expiration p)),
     put_if (present flags 7) (put_short (message_id p)),
     put_if (present flags 6) (put_64 (timestamp p)),
     put_if (present flags 5) (put_short (type_name p)),
     put_if (present flags 4) (put_short (user_id p)),
     put_if (present flags 3) (put_short (app_id p)),
     put_if (present flags 2) (put_short (cluster_id p))]"

text \<open>
  The flags are written before the class is looked at.  Only class 60 reads more of the
  structure than its flags; with another structure that has no defined result.  The number of
  bytes written is cast to \<open>int\<close>.
\<close>

definition amqp_encode_properties :: "16 word \<Rightarrow> amqp_properties \<Rightarrow> bytes \<Rightarrow> (bytes \<times> int) result option" where
  "amqp_encode_properties class_id decoded encoded =
     (case encode_flags (properties_flags decoded) encoded 0 of
        Inl st \<Rightarrow> Some (Inl st)
      | Inr (encoded', offset) \<Rightarrow>
          if class_id \<in> {10, 20, 30, 40, 50, 90, 85} then Some (return_offset (Inr (encoded', offset)))
          else if class_id = 60 then
            (case decoded of
               Basic_properties p \<Rightarrow> Some (return_offset (encode_basic_properties (basic_flags p) p encoded' offset))
             | _ \<Rightarrow> None)
          else Some (Inl STATUS_UNKNOWN_CLASS))"

end
