(* ===== verification/AMQP_Connection.thy ===== *)
theory AMQP_Connection
  imports AMQP_Decode AMQP_Encode AMQP_Properties
begin

text \<open>
  The connection (\<open>amqp_connection.c\<close> and the buffer and queue functions of \<open>amqp_socket.c\<close>):
  the state machine that cuts the incoming bytes into frames, the writing of a frame, and the
  queue of frames that were read for somebody else.

  \<open>None\<close> means that the C code has no defined behaviour: it reads or writes outside a buffer, or
  aborts.  What the environment decides is passed as arguments: \<open>pool c\<close> says whether the pool of
  channel \<open>c\<close> is there or can be made, \<open>alloc n\<close> whether \<open>n\<close> bytes can be had from it, \<open>mem n\<close> is
  what these bytes hold (a recycled page is not cleared), \<open>p0\<close> the same for a properties structure.
\<close>

section \<open>State\<close>

definition HEADER_SIZE :: nat where "HEADER_SIZE = 7"
definition FOOTER_SIZE :: nat where "FOOTER_SIZE = 1"

datatype amqp_connection_state_enum =
    CONNECTION_STATE_IDLE
  | CONNECTION_STATE_INITIAL
  | CONNECTION_STATE_HEADER
  | CONNECTION_STATE_BODY

text \<open>
  \<open>amqp_frame_t\<close>, by its type.  \<open>No_frame\<close> is the frame type 0: too little input, or a frame that
  is ignored.
\<close>

datatype amqp_frame =
    No_frame
  | Protocol_header_frame byte byte byte byte
  | Method_frame "16 word" "32 word" amqp_method
  | Header_frame "16 word" "16 word" "64 word" amqp_properties bytes
  | Body_frame "16 word" bytes
  | Heartbeat_frame "16 word"

fun frame_channel :: "amqp_frame \<Rightarrow> 16 word" where
  "frame_channel No_frame = 0"
| "frame_channel (Protocol_header_frame _ _ _ _) = 0"
| "frame_channel (Method_frame c _ _) = c"
| "frame_channel (Header_frame c _ _ _ _) = c"
| "frame_channel (Body_frame c _) = c"
| "frame_channel (Heartbeat_frame c) = c"

text \<open>
  \<open>inbound_buffer\<close> is \<open>None\<close> while it points to \<open>header_buffer\<close>, and otherwise the block from
  the pool (empty for a NULL pointer).
\<close>

record amqp_connection =
  conn_state :: amqp_connection_state_enum
  frame_max :: int
  header_buffer :: bytes
  inbound_buffer :: "bytes option"
  inbound_offset :: nat
  target_size :: nat
  sock_inbound_buffer :: bytes
  sock_inbound_offset :: nat
  sock_inbound_limit :: nat
  queued_frames :: "amqp_frame list"

definition raw_frame :: "amqp_connection \<Rightarrow> bytes" where
  "raw_frame st = (case inbound_buffer st of None \<Rightarrow> header_buffer st | Some b \<Rightarrow> b)"

definition return_to_idle :: "amqp_connection \<Rightarrow> amqp_connection" where
  "return_to_idle st = st\<lparr>inbound_buffer := None, inbound_offset := 0, target_size := HEADER_SIZE,
     conn_state := CONNECTION_STATE_IDLE\<rparr>"

section \<open>Reading frames\<close>

text \<open>\<open>size_t\<close> subtraction.\<close>

definition size_minus :: "nat \<Rightarrow> nat \<Rightarrow> nat" where
  "size_minus a b = (if b \<le> a then a - b else 2 ^ 64 + a - b)"

definition consume_data :: "amqp_connection \<Rightarrow> bytes \<Rightarrow> (amqp_connection \<times> bytes \<times> nat) option" where
  "consume_data st received =
     (let room = size_minus (target_size st) (inbound_offset st);
          bytes_consumed = (if length received < room then length received else room)
      in if inbound_offset st + bytes_consumed \<le> length (raw_frame st)
         then
           let b = patch (raw_frame st) (inbound_offset st) (take bytes_consumed received);
               st' = (case inbound_buffer st of None \<Rightarrow> st\<lparr>header_buffer := b\<rparr> | Some _ \<Rightarrow> st\<lparr>inbound_buffer := Some b\<rparr>)
           in Some (st'\<lparr>inbound_offset := inbound_offset st + bytes_consumed\<rparr>, drop bytes_consumed received, bytes_consumed)
         else None)"

text \<open>The integer of \<open>n\<close> bytes at an offset of the raw frame; a read past the buffer is undefined.\<close>

definition raw_at :: "bytes \<Rightarrow> nat \<Rightarrow> nat \<Rightarrow> bytes option" where
  "raw_at raw off n = (if off + n \<le> length raw then Some (take n (drop off raw)) else None)"

type_synonym input_result = "(nat result \<times> amqp_frame \<times> amqp_connection) option"

text \<open>
  \<open>case CONNECTION_STATE_BODY\<close>: the frame is complete.  \<open>decode_raw_frame\<close> is the frame in the
  buffer \<open>raw\<close> of which \<open>target\<close> bytes belong to it, or the status.
\<close>

definition decode_raw_frame ::
    "(16 word \<Rightarrow> bool) \<Rightarrow> (nat \<Rightarrow> bool) \<Rightarrow> amqp_basic_properties \<Rightarrow> bytes \<Rightarrow> nat \<Rightarrow> amqp_frame result option" where
  "decode_raw_frame pool alloc p0 raw target =
     do {
       end_mark \<leftarrow> raw_at raw (target - 1) 1;
       if amqp_d8 end_mark \<noteq> 206 then Some (Inl STATUS_BAD_AMQP_DATA)
       else do {
         t \<leftarrow> raw_at raw 0 1;
         c \<leftarrow> raw_at raw 1 2;
         let frame_type = amqp_d8 t;
         let channel = amqp_d16 is_bigendian c;
         if \<not> pool channel then Some (Inl STATUS_NO_MEMORY)
         else if frame_type = 1 then do {
           i \<leftarrow> raw_at raw HEADER_SIZE 4;
           let method_id = amqp_d32 is_bigendian i;
           encoded \<leftarrow> raw_at raw (HEADER_SIZE + 4) (size_minus target (HEADER_SIZE + 4 + FOOTER_SIZE));
           Some (case amqp_decode_method method_id alloc encoded of
              Inl s \<Rightarrow> Inl s | Inr m \<Rightarrow> Inr (Method_frame channel method_id m))
         }
         else if frame_type = 2 then do {
           i \<leftarrow> raw_at raw HEADER_SIZE 2;
           let class_id = amqp_d16 is_bigendian i;
           s \<leftarrow> raw_at raw (HEADER_SIZE + 4) 8;
           encoded \<leftarrow> raw_at raw (HEADER_SIZE + 12) (size_minus target (HEADER_SIZE + 12 + FOOTER_SIZE));
           r \<leftarrow> amqp_decode_properties class_id alloc p0 encoded;
           Some (case r of
              Inl s \<Rightarrow> Inl s
            | Inr p \<Rightarrow> Inr (Header_frame channel class_id (amqp_d64 is_bigendian s) p encoded))
         }
         else if frame_type = 3 then do {
           body \<leftarrow> raw_at raw HEADER_SIZE (size_minus target (HEADER_SIZE + FOOTER_SIZE));
           Some (Inr (Body_frame channel body))
         }
         else if frame_type = 8 then Some (Inr (Heartbeat_frame channel))
         else Some (Inr No_frame)
       }
     }"

definition handle_body ::
    "(16 word \<Rightarrow> bool) \<Rightarrow> (nat \<Rightarrow> bool) \<Rightarrow> amqp_basic_properties \<Rightarrow> amqp_connection \<Rightarrow> nat \<Rightarrow> input_result" where
  "handle_body pool alloc p0 st bytes_consumed =
     (case decode_raw_frame pool alloc p0 (raw_frame st) (target_size st) of
        None \<Rightarrow> None
      | Some (Inl s) \<Rightarrow> Some (Inl s, No_frame, st)
      | Some (Inr frame) \<Rightarrow> Some (Inr bytes_consumed, frame, return_to_idle st))"

text \<open>\<open>case CONNECTION_STATE_HEADER\<close>: the header is complete, the body may follow at once.\<close>

definition handle_header ::
    "(16 word \<Rightarrow> bool) \<Rightarrow> (nat \<Rightarrow> bool) \<Rightarrow> (nat \<Rightarrow> bytes) \<Rightarrow> amqp_basic_properties \<Rightarrow>
     amqp_connection \<Rightarrow> bytes \<Rightarrow> nat \<Rightarrow> input_result" where
  "handle_header pool alloc mem p0 st received bytes_consumed =
     do {
       let raw = raw_frame st;
       c \<leftarrow> raw_at raw 1 2;
       s \<leftarrow> raw_at raw 3 4;
       let channel = amqp_d16 is_bigendian c;
       let frame_size = unat (amqp_d32 is_bigendian s);
       if frame_size \<ge> 2 ^ 31 - 1 then Some (Inl STATUS_BAD_AMQP_DATA, No_frame, st)
       else do {
         let st = st\<lparr>target_size := frame_size + HEADER_SIZE + FOOTER_SIZE\<rparr>;
         if (frame_max st) mod 2 ^ 64 < int (target_size st) then Some (Inl STATUS_BAD_AMQP_DATA, No_frame, st)
         else if \<not> pool channel then Some (Inl STATUS_NO_MEMORY, No_frame, st)
         else if \<not> alloc (target_size st) then Some (Inl STATUS_NO_MEMORY, No_frame, st\<lparr>inbound_buffer := Some []\<rparr>)
         else do {
           let b = patch (mem (target_size st)) 0 (take HEADER_SIZE (header_buffer st));
           let st = st\<lparr>inbound_buffer := Some b, conn_state := CONNECTION_STATE_BODY\<rparr>;
           (st, received, n) \<leftarrow> consume_data st received;
           if inbound_offset st < target_size st then Some (Inr (bytes_consumed + n), No_frame, st)
           else handle_body pool alloc p0 st (bytes_consumed + n)
         }
       }
     }"

text \<open>The result is the number of bytes consumed or an error status, the frame, and the new state.\<close>

definition amqp_handle_input ::
    "(16 word \<Rightarrow> bool) \<Rightarrow> (nat \<Rightarrow> bool) \<Rightarrow> (nat \<Rightarrow> bytes) \<Rightarrow> amqp_basic_properties \<Rightarrow>
     amqp_connection \<Rightarrow> bytes \<Rightarrow> input_result" where
  "amqp_handle_input pool alloc mem p0 st received =
     (if length received = 0 then Some (Inr 0, No_frame, st)
      else do {
        let st = (if conn_state st = CONNECTION_STATE_IDLE then st\<lparr>conn_state := CONNECTION_STATE_HEADER\<rparr> else st);
        (st, received, n) \<leftarrow> consume_data st received;
        if inbound_offset st < target_size st then Some (Inr n, No_frame, st)
        else (case conn_state st of
            CONNECTION_STATE_INITIAL \<Rightarrow> do {
              raw \<leftarrow> raw_at (raw_frame st) 0 8;
              if take 4 raw = [0x41, 0x4D, 0x51, 0x50]
              then Some (Inr n, Protocol_header_frame (raw ! 4) (raw ! 5) (raw ! 6) (raw ! 7), return_to_idle st)
              else handle_header pool alloc mem p0 st received n
            }
          | CONNECTION_STATE_HEADER \<Rightarrow> handle_header pool alloc mem p0 st received n
          | CONNECTION_STATE_BODY \<Rightarrow> handle_body pool alloc p0 st n
          | CONNECTION_STATE_IDLE \<Rightarrow> None)
      })"

definition amqp_release_buffers_ok :: "amqp_connection \<Rightarrow> bool" where
  "amqp_release_buffers_ok st \<longleftrightarrow> conn_state st = CONNECTION_STATE_IDLE"

section \<open>Writing frames\<close>

text \<open>
  \<open>amqp_frame_to_bytes\<close>: the bytes of a frame, written into \<open>buffer\<close>.  The body is copied and the
  end mark written without a look at the size of the buffer, and a buffer too small for the fixed
  part makes the length of the rest wrap; both are undefined here.  The encoders return an \<open>int\<close>: a size
  from \<open>2 ^ 31\<close> on that comes out negative is taken for a status.
\<close>

definition frame_header :: "byte \<Rightarrow> 16 word \<Rightarrow> nat \<Rightarrow> bytes" where
  "frame_header frame_type channel out_frame_len =
     amqp_e8 frame_type @ amqp_e16 is_bigendian channel @ amqp_e32 is_bigendian (word_of_nat out_frame_len)"

definition amqp_frame_to_bytes :: "amqp_frame \<Rightarrow> bytes \<Rightarrow> bytes result option" where
  "amqp_frame_to_bytes frame buffer =
     (case frame of
        Body_frame channel body \<Rightarrow>
          if HEADER_SIZE + length body + FOOTER_SIZE \<le> length buffer
          then Some (Inr (frame_header 3 channel (length body) @ body @ amqp_e8 206)) else None
      | Method_frame channel method_id decoded \<Rightarrow>
          if HEADER_SIZE + 4 + FOOTER_SIZE \<le> length buffer then
            do {
              let method_encoded = take (length buffer - (HEADER_SIZE + 4 + FOOTER_SIZE)) (drop (HEADER_SIZE + 4) buffer);
              r \<leftarrow> amqp_encode_method method_id decoded method_encoded;
              (case r of Inl st \<Rightarrow> Some (Inl st)
               | Inr (encoded, res) \<Rightarrow>
                   if res < 0 then Some (Inl (STATUS_OTHER res))
                   else do {
                     len \<leftarrow> cint (res + 4);
                     Some (Inr (frame_header 1 channel (nat len) @ amqp_e32 is_bigendian method_id @
                       take (nat res) encoded @ amqp_e8 206)) })
            }
          else None
      | Header_frame channel class_id body_size decoded raw \<Rightarrow>
          if HEADER_SIZE + 12 + FOOTER_SIZE \<le> length buffer then
            do {
              let properties_encoded = take (length buffer - (HEADER_SIZE + 12 + FOOTER_SIZE)) (drop (HEADER_SIZE + 12) buffer);
              r \<leftarrow> amqp_encode_properties class_id decoded properties_encoded;
              (case r of Inl st \<Rightarrow> Some (Inl st)
               | Inr (encoded, res) \<Rightarrow>
                   if res < 0 then Some (Inl (STATUS_OTHER res))
                   else do {
                     len \<leftarrow> cint (res + 12);
                     Some (Inr (frame_header 2 channel (nat len) @ amqp_e16 is_bigendian class_id @
                      amqp_e16 is_bigendian 0 @ amqp_e64 is_bigendian body_size @
                       take (nat res) encoded @ amqp_e8 206)) })
            }
          else None
      | Heartbeat_frame channel \<Rightarrow>
          if HEADER_SIZE + FOOTER_SIZE \<le> length buffer
          then Some (Inr (frame_header 8 channel 0 @ amqp_e8 206)) else None
      | _ \<Rightarrow> Some (Inl STATUS_INVALID_PARAMETER))"

section \<open>The socket buffer and the queue\<close>

definition amqp_frames_enqueued :: "amqp_connection \<Rightarrow> bool" where
  "amqp_frames_enqueued st \<longleftrightarrow> queued_frames st \<noteq> []"

definition amqp_data_in_buffer :: "amqp_connection \<Rightarrow> bool" where
  "amqp_data_in_buffer st \<longleftrightarrow> sock_inbound_offset st < sock_inbound_limit st"

text \<open>The input function with the environment applied.\<close>

type_synonym input_function = "amqp_connection \<Rightarrow> bytes \<Rightarrow> input_result"

definition consume_one_frame :: "input_function \<Rightarrow> amqp_connection \<Rightarrow> (unit result \<times> amqp_frame \<times> amqp_connection) option" where
  "consume_one_frame input st =
     do {
       let buffer = take (sock_inbound_limit st - sock_inbound_offset st) (drop (sock_inbound_offset st) (sock_inbound_buffer st));
       (res, frame, st) \<leftarrow> input st buffer;
       (case res of
          Inl s \<Rightarrow> Some (Inl s, frame, st)
        | Inr n \<Rightarrow> Some (Inr (), frame, st\<lparr>sock_inbound_offset := sock_inbound_offset st + n\<rparr>))
     }"

text \<open>
  \<open>amqp_queue_frame\<close> appends, \<open>amqp_put_back_frame\<close> prepends; both need a link and a copy from the
  pool of the channel.
\<close>

definition sizeof_link :: nat where "sizeof_link = 16"
definition sizeof_frame :: nat where "sizeof_frame = 48"

definition amqp_create_link_for_frame :: "(16 word \<Rightarrow> bool) \<Rightarrow> (nat \<Rightarrow> bool) \<Rightarrow> amqp_frame \<Rightarrow> amqp_frame option" where
  "amqp_create_link_for_frame pool alloc frame =
     (if pool (frame_channel frame) \<and> alloc sizeof_link \<and> alloc sizeof_frame then Some frame else None)"

definition amqp_queue_frame ::
    "(16 word \<Rightarrow> bool) \<Rightarrow> (nat \<Rightarrow> bool) \<Rightarrow> amqp_connection \<Rightarrow> amqp_frame \<Rightarrow> unit result \<times> amqp_connection" where
  "amqp_queue_frame pool alloc st frame =
     (case amqp_create_link_for_frame pool alloc frame of
        None \<Rightarrow> (Inl STATUS_NO_MEMORY, st)
      | Some link \<Rightarrow> (Inr (), st\<lparr>queued_frames := queued_frames st @ [link]\<rparr>))"

definition amqp_put_back_frame ::
    "(16 word \<Rightarrow> bool) \<Rightarrow> (nat \<Rightarrow> bool) \<Rightarrow> amqp_connection \<Rightarrow> amqp_frame \<Rightarrow> unit result \<times> amqp_connection" where
  "amqp_put_back_frame pool alloc st frame =
     (case amqp_create_link_for_frame pool alloc frame of
        None \<Rightarrow> (Inl STATUS_NO_MEMORY, st)
      | Some link \<Rightarrow> (Inr (), st\<lparr>queued_frames := link # queued_frames st\<rparr>))"

text \<open>
  The \<open>while\<close> loop of \<open>amqp_try_recv\<close>: everything in the socket buffer is cut into frames, which
  are queued.
\<close>

partial_function (option) try_recv_loop ::
    "(16 word \<Rightarrow> bool) \<Rightarrow> (nat \<Rightarrow> bool) \<Rightarrow> input_function \<Rightarrow> amqp_connection \<Rightarrow> (unit result \<times> amqp_connection) option" where
  "try_recv_loop pool alloc input st =
     (if amqp_data_in_buffer st then
        do {
          (res, frame, st) \<leftarrow> consume_one_frame input st;
          (case res of
             Inl s \<Rightarrow> Some (Inl s, st)
           | Inr _ \<Rightarrow>
               if frame \<noteq> No_frame then
                 (case amqp_queue_frame pool alloc st frame of
                    (Inl s, st) \<Rightarrow> Some (Inl s, st)
                  | (Inr _, st) \<Rightarrow> try_recv_loop pool alloc input st)
               else try_recv_loop pool alloc input st)
        }
      else Some (Inr (), st))"

text \<open>
  A read of the socket that succeeds (after waiting, if need be) replaces the contents of the buffer.
  \<open>recv n\<close> is what reading at most \<open>n\<close> bytes gives, and \<open>tick\<close> the result of restarting the
  heartbeat timer.
\<close>

definition recv_with_timeout ::
    "(nat \<Rightarrow> bytes result) \<Rightarrow> unit result \<Rightarrow> amqp_connection \<Rightarrow> (unit result \<times> amqp_connection) option" where
  "recv_with_timeout recv tick st =
     (case recv (length (sock_inbound_buffer st)) of
        Inl s \<Rightarrow> Some (Inl s, st)
      | Inr d \<Rightarrow>
          if length d \<le> length (sock_inbound_buffer st)
          then Some (tick, st\<lparr>sock_inbound_buffer := patch (sock_inbound_buffer st) 0 d,
                              sock_inbound_limit := length d, sock_inbound_offset := 0\<rparr>)
          else None)"

definition amqp_try_recv ::
    "(16 word \<Rightarrow> bool) \<Rightarrow> (nat \<Rightarrow> bool) \<Rightarrow> input_function \<Rightarrow> (nat \<Rightarrow> bytes result) \<Rightarrow> unit result \<Rightarrow>
     amqp_connection \<Rightarrow> (unit result \<times> amqp_connection) option" where
  "amqp_try_recv pool alloc input recv tick st =
     do {
       (res, st) \<leftarrow> try_recv_loop pool alloc input st;
       (case res of
          Inl s \<Rightarrow> Some (Inl s, st)
        | Inr _ \<Rightarrow> recv_with_timeout recv tick st)
     }"

text \<open>
  The inner \<open>while\<close> loop of \<open>wait_frame_inner\<close>: the next frame in the socket buffer that is not a
  heartbeat, \<open>No_frame\<close> when the buffer is used up.
\<close>

partial_function (option) wait_frame_loop ::
    "input_function \<Rightarrow> amqp_connection \<Rightarrow> (amqp_frame result \<times> amqp_connection) option" where
  "wait_frame_loop input st =
     (if amqp_data_in_buffer st then
        do {
          (res, frame, st) \<leftarrow> consume_one_frame input st;
          (case res of
             Inl s \<Rightarrow> Some (Inl s, st)
           | Inr _ \<Rightarrow>
               (case frame of
                  Heartbeat_frame _ \<Rightarrow> wait_frame_loop input st
                | No_frame \<Rightarrow> wait_frame_loop input st
                | _ \<Rightarrow> Some (Inr frame, st)))
        }
      else Some (Inr No_frame, st))"

text \<open>
  The \<open>for\<close> loop of \<open>amqp_simple_wait_frame_on_channel\<close> over the queue: the frame found and the
  new value of \<open>first_queued_frame\<close>.
\<close>

fun queued_on_channel :: "16 word \<Rightarrow> amqp_frame list \<Rightarrow> (amqp_frame \<times> amqp_frame list) option" where
  "queued_on_channel channel [] = None"
| "queued_on_channel channel (frame # next) =
     (if channel = frame_channel frame then Some (frame, next) else queued_on_channel channel next)"

definition wait_frame_on_channel_queued :: "16 word \<Rightarrow> amqp_connection \<Rightarrow> (amqp_frame \<times> amqp_connection) option" where
  "wait_frame_on_channel_queued channel st =
     (case queued_on_channel channel (queued_frames st) of
        None \<Rightarrow> None
      | Some (frame, next) \<Rightarrow> Some (frame, st\<lparr>queued_frames := next\<rparr>))"

text \<open>The queued case of \<open>amqp_simple_wait_frame_noblock\<close>.\<close>

definition wait_frame_queued :: "amqp_connection \<Rightarrow> (amqp_frame \<times> amqp_connection) option" where
  "wait_frame_queued st =
     (case queued_frames st of
        [] \<Rightarrow> None
      | frame # next \<Rightarrow> Some (frame, st\<lparr>queued_frames := next\<rparr>))"

end
