(* ===== verification/AMQP_Connection_Correct.thy ===== *)
theory AMQP_Connection_Correct
  imports AMQP_Connection
begin

text \<open>
  The state machine of the connection refines an abstract receiver whose state is the bytes of
  the frame received so far, and which cuts a byte stream into frames by their sizes alone.
\<close>

section \<open>The abstract receiver\<close>

definition stated_size :: "bytes \<Rightarrow> nat" where
  "stated_size w = unat (amqp_d32 is_bigendian (take 4 (drop 3 w)))"

definition needed :: "bytes \<Rightarrow> nat" where
  "needed w = stated_size w + 8"

datatype outcome = More | Bad | Complete nat

definition receive :: "int \<Rightarrow> bytes \<Rightarrow> outcome" where
  "receive limit w =
     (if length w < 7 then More
      else if 2 ^ 31 - 1 \<le> stated_size w \<or> limit < int (needed w) then Bad
      else if length w < needed w then More
      else Complete (needed w))"

text \<open>\<open>receiving st w\<close>: the connection has received \<open>w\<close>, the beginning of a frame.\<close>

definition receiving :: "amqp_connection \<Rightarrow> bytes \<Rightarrow> bool" where
  "receiving st w \<longleftrightarrow> length (header_buffer st) = 8 \<and> inbound_offset st = length w \<and>
     receive (frame_max st) w = More \<and>
     (if length w < 7
      then inbound_buffer st = None \<and> target_size st = 7 \<and> take (length w) (header_buffer st) = w \<and>
        conn_state st = (if w = [] then CONNECTION_STATE_IDLE else CONNECTION_STATE_HEADER)
      else conn_state st = CONNECTION_STATE_BODY \<and> target_size st = needed w \<and>
        (\<exists>b. inbound_buffer st = Some b \<and> length b = needed w \<and> take (length w) b = w))"

text \<open>What the receiver leaves alone.\<close>

definition same_rest :: "amqp_connection \<Rightarrow> amqp_connection \<Rightarrow> bool" where
  "same_rest st st' \<longleftrightarrow> frame_max st' = frame_max st \<and> sock_inbound_buffer st' = sock_inbound_buffer st \<and>
     sock_inbound_offset st' = sock_inbound_offset st \<and> sock_inbound_limit st' = sock_inbound_limit st \<and>
     queued_frames st' = queued_frames st"

lemma stated_size_append: "7 \<le> length w \<Longrightarrow> stated_size (w @ d) = stated_size w"
  by (simp add: stated_size_def)

lemma needed_append: "7 \<le> length w \<Longrightarrow> needed (w @ d) = needed w"
  by (simp add: needed_def stated_size_append)

lemma receive_Nil [simp]: "receive limit [] = More"
  by (simp add: receive_def)

lemma receive_append_Bad: "receive limit w = Bad \<Longrightarrow> receive limit (w @ d) = Bad"
  by (auto simp: receive_def needed_append stated_size_append split: if_splits)

lemma receive_append_Complete: "receive limit w = Complete n \<Longrightarrow> receive limit (w @ d) = Complete n"
  by (auto simp: receive_def needed_append stated_size_append split: if_splits)

lemma receive_Complete_bounds: "receive limit w = Complete n \<Longrightarrow> 8 \<le> n \<and> n \<le> length w"
  by (auto simp: receive_def needed_def split: if_splits)

section \<open>Consuming\<close>

lemma patch_fill: "length w \<le> length b \<Longrightarrow> take (length w) b = w \<Longrightarrow> length w + length d \<le> length b \<Longrightarrow>
    take (length w + length d) (patch b (length w) d) = w @ d"
  by (simp add: patch_def)

text \<open>In the body: the buffer is filled up to the size of the frame.\<close>

lemma consume_body:
  assumes "inbound_buffer st = Some b" and "length b = target_size st" and "take (length w) b = w"
    and "inbound_offset st = length w" and "length w \<le> target_size st"
  shows "\<exists>b'. consume_data st d = Some (st\<lparr>inbound_buffer := Some b', inbound_offset := min (length w + length d) (target_size st)\<rparr>,
      drop (target_size st - length w) d, min (length d) (target_size st - length w)) \<and>
    length b' = target_size st \<and>
    take (min (length w + length d) (target_size st)) b' = take (target_size st) (w @ d)"
proof -
  let ?n = "min (length d) (target_size st - length w)"
  have n: "(if length d < target_size st - length w then length d else target_size st - length w) = ?n" by auto
  have l: "length w + ?n \<le> length b" using assms by auto
  have t: "take (length w + ?n) (patch b (length w) (take ?n d)) = w @ take ?n d"
    using patch_fill [of w b "take ?n d"] assms l by (simp add: min_def split: if_splits)
  have "drop ?n d = drop (target_size st - length w) d" by (auto simp: min_def)
  moreover have "length w + ?n = min (length w + length d) (target_size st)" using assms by auto
  moreover have "w @ take ?n d = take (target_size st) (w @ d)" using assms by (auto simp: min_def)
  moreover have "length (patch b (length w) (take ?n d)) = target_size st"
    using l assms(2) by (subst length_patch) auto
  ultimately show ?thesis
    using assms(1,2,4,5) l t
    by (intro exI [of _ "patch b (length w) (take ?n d)"])
      (auto simp: consume_data_def raw_frame_def size_minus_def Let_def n)
qed

lemma consume_header:
  assumes "inbound_buffer st = None" and "length (header_buffer st) = 8" and "take (length w) (header_buffer st) = w"
    and "inbound_offset st = length w" and "length w \<le> 7" and "target_size st = 7"
  shows "\<exists>b'. consume_data st d = Some (st\<lparr>header_buffer := b', inbound_offset := min (length w + length d) 7\<rparr>,
      drop (7 - length w) d, min (length d) (7 - length w)) \<and>
    length b' = 8 \<and> take (min (length w + length d) 7) b' = take 7 (w @ d)"
proof -
  let ?n = "min (length d) (7 - length w)"
  have n: "(if length d < 7 - length w then length d else 7 - length w) = ?n" by auto
  have l: "length w + ?n \<le> length (header_buffer st)" using assms by auto
  have t: "take (length w + ?n) (patch (header_buffer st) (length w) (take ?n d)) = w @ take ?n d"
    using patch_fill [of w "header_buffer st" "take ?n d"] assms l by (simp add: min_def split: if_splits)
  have "drop ?n d = drop (7 - length w) d" by (auto simp: min_def)
  moreover have "length w + ?n = min (length w + length d) 7" using assms by auto
  moreover have "w @ take ?n d = take 7 (w @ d)" using assms by (auto simp: min_def)
  moreover have "length (patch (header_buffer st) (length w) (take ?n d)) = 8"
    using l assms(2) by (subst length_patch) auto
  ultimately show ?thesis
    using assms l t
    by (intro exI [of _ "patch (header_buffer st) (length w) (take ?n d)"])
      (auto simp: consume_data_def raw_frame_def size_minus_def Let_def n)
qed

text \<open>The environment gives what it is asked for, and blocks have the size they were asked with.\<close>

definition granted :: "(16 word \<Rightarrow> bool) \<Rightarrow> (nat \<Rightarrow> bool) \<Rightarrow> (nat \<Rightarrow> bytes) \<Rightarrow> bool" where
  "granted pool alloc mem \<longleftrightarrow> (\<forall>c. pool c) \<and> (\<forall>n. alloc n) \<and> (\<forall>n. length (mem n) = n)"

lemma receiving_idle: "length (header_buffer st) = 8 \<Longrightarrow> receiving (return_to_idle st) []"
  by (simp add: receiving_def return_to_idle_def HEADER_SIZE_def)

lemma same_rest_idle: "same_rest st st' \<Longrightarrow> same_rest st (return_to_idle st')"
  by (simp add: same_rest_def return_to_idle_def)

section \<open>One step\<close>

text \<open>What \<open>amqp_handle_input\<close> must answer when the receiver that holds \<open>w\<close> is given \<open>d\<close>.\<close>

definition answers ::
    "(bytes \<Rightarrow> nat \<Rightarrow> amqp_frame result option) \<Rightarrow> amqp_connection \<Rightarrow> bytes \<Rightarrow> bytes \<Rightarrow> nat \<Rightarrow> input_result \<Rightarrow> bool" where
  "answers decode st w d k r =
     (case receive (frame_max st) (w @ d) of
        More \<Rightarrow> \<exists>st'. r = Some (Inr (k + length d), No_frame, st') \<and> receiving st' (w @ d) \<and> same_rest st st'
      | Bad \<Rightarrow> \<exists>st'. r = Some (Inl STATUS_BAD_AMQP_DATA, No_frame, st')
      | Complete n \<Rightarrow>
          (case decode (take n (w @ d)) n of
             None \<Rightarrow> r = None
           | Some (Inl s) \<Rightarrow> \<exists>st'. r = Some (Inl s, No_frame, st')
           | Some (Inr f) \<Rightarrow> \<exists>st'. r = Some (Inr (k + n - length w), f, st') \<and> receiving st' [] \<and> same_rest st st'))"

lemma handle_body_answers:
  assumes "inbound_buffer st = Some b" and "b = take n (w @ d)" and "target_size st = n"
    and "receive (frame_max st0) (w @ d) = Complete n" and "length (header_buffer st) = 8" and "same_rest st0 st"
  shows "answers (decode_raw_frame pool alloc p0) st0 w d k (handle_body pool alloc p0 st (k + n - length w))"
  using assms receiving_idle [of st] same_rest_idle [of st0 st]
  by (auto simp: answers_def handle_body_def raw_frame_def split: option.split sum.split)

text \<open>The last part of a step in the body: the bytes are consumed, and the frame may be complete.\<close>

lemma body_answers:
  assumes "inbound_buffer st = Some b" and "length b = needed w" and "take (length w) b = w"
    and "inbound_offset st = length w" and "target_size st = needed w" and "7 \<le> length w" and "length w \<le> needed w"
    and "conn_state st = CONNECTION_STATE_BODY" and "stated_size w < 2 ^ 31 - 1" and "int (needed w) \<le> frame_max st"
    and "length (header_buffer st) = 8" and "same_rest st0 st"
  shows "\<exists>st'. consume_data st d = Some (st', drop (needed w - length w) d, min (length d) (needed w - length w)) \<and>
    conn_state st' = CONNECTION_STATE_BODY \<and>
    answers (decode_raw_frame pool alloc p0) st0 w d k
      (if inbound_offset st' < target_size st' then Some (Inr (k + min (length d) (needed w - length w)), No_frame, st')
       else handle_body pool alloc p0 st' (k + min (length d) (needed w - length w)))"
proof -
  obtain b' where c: "consume_data st d = Some (st\<lparr>inbound_buffer := Some b', inbound_offset := min (length w + length d) (needed w)\<rparr>,
      drop (needed w - length w) d, min (length d) (needed w - length w))"
    and b': "length b' = needed w" "take (min (length w + length d) (needed w)) b' = take (needed w) (w @ d)"
    using consume_body [of st b w d] assms by auto
  let ?st = "st\<lparr>inbound_buffer := Some b', inbound_offset := min (length w + length d) (needed w)\<rparr>"
  have lim: "frame_max st = frame_max st0" using assms(12) by (simp add: same_rest_def)
  have rest: "same_rest st0 ?st" using assms(12) by (simp add: same_rest_def)
  have r: "receive (frame_max st0) (w @ d) = (if length w + length d < needed w then More else Complete (needed w))"
    using assms(6,9,10) lim by (simp add: receive_def needed_append stated_size_append)
  have more: "answers (decode_raw_frame pool alloc p0) st0 w d k (Some (Inr (k + min (length d) (needed w - length w)), No_frame, ?st))"
    if "length w + length d < needed w"
    using that r b' assms(5,6,8,11) lim rest needed_append [OF assms(6), of d]
    by (simp add: answers_def receiving_def)
  have complete: "answers (decode_raw_frame pool alloc p0) st0 w d k (handle_body pool alloc p0 ?st (k + min (length d) (needed w - length w)))"
    if "\<not> length w + length d < needed w"
  proof -
    have "k + min (length d) (needed w - length w) = k + needed w - length w" using that assms(7) by simp
    moreover have "b' = take (needed w) (w @ d)" using that b' by simp
    ultimately show ?thesis
      using that r assms(5,11) rest handle_body_answers [of ?st b' "needed w" w d st0 pool alloc p0 k] by simp
  qed
  show ?thesis
    using c more complete assms(5,8) by auto
qed

text \<open>The header is complete: the size is judged, and the rest of the input goes to the body.\<close>

lemma header_answers:
  assumes "granted pool alloc mem" and "0 \<le> frame_max st" and "frame_max st < 2 ^ 31"
    and "inbound_buffer st = None" and "length (header_buffer st) = 8" and "take 7 (header_buffer st) = h"
    and "length h = 7" and "inbound_offset st = 7" and "conn_state st = CONNECTION_STATE_HEADER"
    and "same_rest st0 st" and "w @ d = h @ d'" and "k' = k + 7 - length w" and "length w \<le> 7"
  shows "answers (decode_raw_frame pool alloc p0) st0 w d k (handle_header pool alloc mem p0 st d' k')"
proof -
  let ?n = "needed h"
  have lim: "frame_max st0 = frame_max st" using assms(10) by (simp add: same_rest_def)
  have fm: "frame_max st mod 18446744073709551616 = frame_max st" using assms(2,3) by simp
  have grant: "pool c" "alloc n" "length (mem n) = n" for c n using assms(1) by (simp_all add: granted_def)
  have raw: "raw_at (header_buffer st) 1 2 = Some (take 2 (drop 1 h))"
    "raw_at (header_buffer st) 3 4 = Some (take 4 (drop 3 h))"
    unfolding assms(6) [symmetric] using assms(5) by (simp_all add: raw_at_def drop_take)
  have sz: "unat (amqp_d32 is_bigendian (take 4 (drop 3 h))) = stated_size h" by (simp add: stated_size_def)
  have r: "receive (frame_max st0) (w @ d) =
      (if 2 ^ 31 - 1 \<le> stated_size h \<or> frame_max st < int ?n then Bad
       else if length (h @ d') < ?n then More else Complete ?n)"
    using assms(7) unfolding assms(11) lim
    by (simp add: receive_def needed_append [of h d'] stated_size_append [of h d'])
  show ?thesis
  proof (cases "2 ^ 31 - 1 \<le> stated_size h \<or> frame_max st < int ?n")
    case True
    then show ?thesis
      using raw r fm sz
      by (auto simp: handle_header_def answers_def raw_frame_def assms(4) HEADER_SIZE_def FOOTER_SIZE_def needed_def Let_def)
  next
    case False
    have p: "patch (mem ?n) 0 h = h @ drop 7 (mem ?n)" using assms(7) by (simp add: patch_def)
    have tgt: "stated_size h + HEADER_SIZE + FOOTER_SIZE = ?n" "take HEADER_SIZE (header_buffer st) = h"
      using assms(6) by (simp_all add: needed_def HEADER_SIZE_def FOOTER_SIZE_def)
    let ?st = "st\<lparr>target_size := ?n, inbound_buffer := Some (h @ drop 7 (mem ?n)), conn_state := CONNECTION_STATE_BODY\<rparr>"
    have n: "7 \<le> ?n" by (simp add: needed_def)
    obtain st' where c: "consume_data ?st d' = Some (st', drop (?n - 7) d', min (length d') (?n - 7))"
      and a: "answers (decode_raw_frame pool alloc p0) st0 h d' k'
        (if inbound_offset st' < target_size st' then Some (Inr (k' + min (length d') (?n - 7)), No_frame, st')
         else handle_body pool alloc p0 st' (k' + min (length d') (?n - 7)))"
      using body_answers [of ?st "h @ drop 7 (mem ?n)" h st0 d' pool alloc p0 k', unfolded assms(7)]
        assms(5,7,8,10) False n grant
      by (auto simp: same_rest_def simp del: if_split)
    have h: "handle_header pool alloc mem p0 st d' k' =
        (if inbound_offset st' < target_size st' then Some (Inr (k' + min (length d') (?n - 7)), No_frame, st')
         else handle_body pool alloc p0 st' (k' + min (length d') (?n - 7)))"
      using raw False fm sz c p tgt
      by (simp add: handle_header_def raw_frame_def assms(4) Let_def grant)
    have "answers (decode_raw_frame pool alloc p0) st0 h d' k' (handle_header pool alloc mem p0 st d' k')"
      unfolding h by (rule a)
    moreover have "answers (decode_raw_frame pool alloc p0) st0 h d' k' = answers (decode_raw_frame pool alloc p0) st0 w d k"
    proof
      fix x
      have "k' + length d' = k + length d" using arg_cong [OF assms(11), of length] assms(7,12,13) by simp
      moreover have "k' + m - length h = k + m - length w" if "7 \<le> m" for m using assms(7,12,13) that by simp
      ultimately show "answers (decode_raw_frame pool alloc p0) st0 h d' k' x = answers (decode_raw_frame pool alloc p0) st0 w d k x"
        using receive_Complete_bounds [of "frame_max st0" "w @ d"]
        by (auto simp: answers_def assms(11) split: outcome.split option.split sum.split)
    qed
    ultimately show ?thesis by simp
  qed
qed

lemma handle_input_step:
  assumes "granted pool alloc mem" and "0 \<le> frame_max st" and "frame_max st < 2 ^ 31"
    and "receiving st w" and "d \<noteq> []"
  shows "answers (decode_raw_frame pool alloc p0) st w d 0 (amqp_handle_input pool alloc mem p0 st d)"
proof (cases "length w < 7")
  case False
  then obtain b where st: "conn_state st = CONNECTION_STATE_BODY" "target_size st = needed w"
    "inbound_buffer st = Some b" "length b = needed w" "take (length w) b = w" "inbound_offset st = length w"
    "length (header_buffer st) = 8"
    using assms(4) by (auto simp: receiving_def)
  have "receive (frame_max st) w = More" using assms(4) by (simp add: receiving_def)
  then have "length w < needed w" "stated_size w < 2 ^ 31 - 1" "int (needed w) \<le> frame_max st"
    using False by (auto simp: receive_def split: if_splits)
  then obtain st' where c: "consume_data st d = Some (st', drop (needed w - length w) d, min (length d) (needed w - length w))"
    and s: "conn_state st' = CONNECTION_STATE_BODY"
    and a: "answers (decode_raw_frame pool alloc p0) st w d 0
      (if inbound_offset st' < target_size st' then Some (Inr (0 + min (length d) (needed w - length w)), No_frame, st')
       else handle_body pool alloc p0 st' (0 + min (length d) (needed w - length w)))"
    using body_answers [of st b w st d pool alloc p0 0] st False
    by (fastforce simp: same_rest_def simp del: if_split)
  have h: "amqp_handle_input pool alloc mem p0 st d =
      (if inbound_offset st' < target_size st' then Some (Inr (0 + min (length d) (needed w - length w)), No_frame, st')
       else handle_body pool alloc p0 st' (0 + min (length d) (needed w - length w)))"
    using c s assms(5) st(1) by (simp add: amqp_handle_input_def)
  show ?thesis unfolding h by (rule a)
next
  case True
  let ?st = "if conn_state st = CONNECTION_STATE_IDLE then st\<lparr>conn_state := CONNECTION_STATE_HEADER\<rparr> else st"
  have st: "inbound_buffer ?st = None" "length (header_buffer ?st) = 8" "take (length w) (header_buffer ?st) = w"
    "inbound_offset ?st = length w" "target_size ?st = 7" "conn_state ?st = CONNECTION_STATE_HEADER"
    "same_rest st ?st"
    using assms(4) True by (auto simp: receiving_def same_rest_def split: if_splits)
  obtain b' where c: "consume_data ?st d = Some (?st\<lparr>header_buffer := b', inbound_offset := min (length w + length d) 7\<rparr>,
      drop (7 - length w) d, min (length d) (7 - length w))"
    and b': "length b' = 8" "take (min (length w + length d) 7) b' = take 7 (w @ d)"
    using consume_header [of ?st w d] st True by auto
  let ?st' = "?st\<lparr>header_buffer := b', inbound_offset := min (length w + length d) 7\<rparr>"
  have same: "same_rest st ?st'" using st(7) by (simp add: same_rest_def)
  have h: "amqp_handle_input pool alloc mem p0 st d =
      (if length w + length d < 7 then Some (Inr (min (length d) (7 - length w)), No_frame, ?st')
       else handle_header pool alloc mem p0 ?st' (drop (7 - length w) d) (7 - length w))"
    using assms(5) c st(5,6) by (simp add: amqp_handle_input_def Let_def)
  show ?thesis
  proof (cases "length w + length d < 7")
    case less: True
    then have r: "receive (frame_max st) (w @ d) = More" by (simp add: receive_def)
    moreover from less have "min (length w + length d) 7 = length w + length d" "min (length d) (7 - length w) = length d"
      by simp_all
    ultimately have "receiving ?st' (w @ d)" using less b' st assms(5) same
      by (simp only: receiving_def same_rest_def) simp
    then show ?thesis unfolding h answers_def r using less same by simp
  next
    case False
    have "min (length w + length d) 7 = 7" using False by simp
    then have "take 7 b' = take 7 (w @ d)" "length (take 7 (w @ d)) = 7" using b' False by simp_all
    moreover have "w @ d = take 7 (w @ d) @ drop (7 - length w) d"
      using True append_take_drop_id [of 7 "w @ d"] by simp
    ultimately show ?thesis
      unfolding h if_not_P [OF False] using False st same assms(1-3) True b'(1)
      by (intro header_answers [where h = "take 7 (w @ d)"]) (simp_all add: same_rest_def)
  qed
qed

text \<open>
  C5: The receiving state machine implements the abstract receiver: whatever was received before, and
  however the input is cut, one step of \<open>amqp_handle_input\<close> either keeps the beginning of a frame and
  takes all the input, or refuses a frame whose stated size is above the limit, or takes exactly the
  rest of one frame, delivers what the decoder makes of its bytes and is idle again.
\<close>

theorem handle_input_refines_receiver:
  assumes "granted pool alloc mem" and "0 \<le> frame_max st" and "frame_max st < 2 ^ 31"
    and "receiving st w" and "d \<noteq> []"
  shows "answers (decode_raw_frame pool alloc p0) st w d 0 (amqp_handle_input pool alloc mem p0 st d)"
  using assms by (rule handle_input_step)

definition clear_properties :: amqp_basic_properties where
  "clear_properties = \<lparr>basic_flags = 0, content_type = [], content_encoding = [], headers = [],
     delivery_mode = 0, priority = 0, correlation_id = [], reply_to = [], expiration = [], message_id = [],
     timestamp = 0, type_name = [], user_id = [], app_id = [], cluster_id = []\<rparr>"

definition idle_connection :: "int \<Rightarrow> amqp_connection" where
  "idle_connection limit = return_to_idle \<lparr>conn_state = CONNECTION_STATE_IDLE, frame_max = limit, header_buffer = replicate 8 0,
     inbound_buffer = None, inbound_offset = 0, target_size = 0, sock_inbound_buffer = replicate 16 0,
     sock_inbound_offset = 0, sock_inbound_limit = 0, queued_frames = []\<rparr>"

lemma idle_connection_receiving: "receiving (idle_connection limit) []"
  by (simp add: idle_connection_def receiving_idle)

theorem handle_input_refines_receiver_witness:
  "answers (decode_raw_frame (\<lambda>_. True) (\<lambda>_. True) clear_properties) (idle_connection 4096) [] [8, 0, 0, 0] 0
     (amqp_handle_input (\<lambda>_. True) (\<lambda>_. True) (\<lambda>n. replicate n 0) clear_properties (idle_connection 4096) [8, 0, 0, 0])"
  by (rule handle_input_refines_receiver)
    (simp_all add: granted_def idle_connection_receiving, simp_all add: idle_connection_def return_to_idle_def)

end
