(* ===== verification/AMQP_Stream.thy ===== *)
theory AMQP_Stream
  imports AMQP_Connection_Correct
begin

text \<open>
  Whole streams: the frames of a byte stream as a recursive parse of it, and the loops that read the
  socket, which deliver exactly these frames however the stream arrives.
\<close>

section \<open>The parse of a stream\<close>

lemma receive_Complete_dec: "receive limit s = Complete n \<Longrightarrow> length s - n < length s"
  using receive_Complete_bounds [of limit s n] by linarith

text \<open>The frames of a stream and the bytes of the frame that is not complete.\<close>

function parse_stream ::
    "(bytes \<Rightarrow> nat \<Rightarrow> amqp_frame result option) \<Rightarrow> int \<Rightarrow> bytes \<Rightarrow> (amqp_frame list \<times> bytes) result option" where
  "parse_stream decode limit s =
     (case receive limit s of
        More \<Rightarrow> Some (Inr ([], s))
      | Bad \<Rightarrow> Some (Inl STATUS_BAD_AMQP_DATA)
      | Complete n \<Rightarrow>
          (case decode (take n s) n of
             None \<Rightarrow> None
           | Some (Inl e) \<Rightarrow> Some (Inl e)
           | Some (Inr f) \<Rightarrow>
               (case parse_stream decode limit (drop n s) of
                  None \<Rightarrow> None
                | Some (Inl e) \<Rightarrow> Some (Inl e)
                | Some (Inr (fs, rest)) \<Rightarrow> Some (Inr (f # fs, rest)))))"
  by pat_completeness auto
termination parse_stream
  by (relation "measure (\<lambda>(decode, limit, s). length s)") (auto simp: receive_Complete_dec)

declare parse_stream.simps [simp del]

lemma parse_More: "receive limit s = More \<Longrightarrow> parse_stream decode limit s = Some (Inr ([], s))"
  by (simp add: parse_stream.simps)

lemma parse_rest: "parse_stream decode limit s = Some (Inr (fs, r)) \<Longrightarrow> receive limit r = More"
  by (induction decode limit s arbitrary: fs rule: parse_stream.induct)
    (subst (asm) (2) parse_stream.simps, auto split: outcome.splits option.splits sum.splits)

lemma parse_append:
  "parse_stream decode limit s = Some (Inr (fs, r)) \<Longrightarrow> parse_stream decode limit (r @ t) = Some (Inr (gs, r')) \<Longrightarrow>
   parse_stream decode limit (s @ t) = Some (Inr (fs @ gs, r'))"
proof (induction decode limit s arbitrary: fs rule: parse_stream.induct)
  case (1 decode limit s)
  show ?case
  proof (cases "receive limit s")
    case (Complete n)
    then have n: "n \<le> length s" by (auto dest: receive_Complete_bounds)
    from Complete 1(2) obtain f fs' where f: "decode (take n s) n = Some (Inr f)"
      and fs: "parse_stream decode limit (drop n s) = Some (Inr (fs', r))" "fs = f # fs'"
      by (subst (asm) parse_stream.simps) (auto split: option.splits sum.splits)
    have "parse_stream decode limit (drop n s @ t) = Some (Inr (fs' @ gs, r'))"
      by (rule 1(1) [OF Complete f _ fs(1) 1(3)]) simp
    then show ?thesis
      using receive_append_Complete [OF Complete, of t] f fs(2) n
      by (subst parse_stream.simps) simp
  qed (use 1(2,3) in \<open>auto simp: parse_stream.simps [of _ _ s]\<close>)
qed

section \<open>The socket buffer\<close>

definition unread :: "amqp_connection \<Rightarrow> bytes" where
  "unread st = take (sock_inbound_limit st - sock_inbound_offset st) (drop (sock_inbound_offset st) (sock_inbound_buffer st))"

definition sock_ok :: "amqp_connection \<Rightarrow> bool" where
  "sock_ok st \<longleftrightarrow> sock_inbound_limit st \<le> length (sock_inbound_buffer st)"

lemma data_in_buffer_iff: "sock_ok st \<Longrightarrow> amqp_data_in_buffer st \<longleftrightarrow> unread st \<noteq> []"
  by (auto simp: sock_ok_def amqp_data_in_buffer_def unread_def)

text \<open>After \<open>n\<close> bytes of the buffer were taken, and nothing else of the rest changed.\<close>

definition advanced :: "nat \<Rightarrow> amqp_connection \<Rightarrow> amqp_connection \<Rightarrow> bool" where
  "advanced n st st' \<longleftrightarrow> frame_max st' = frame_max st \<and> sock_ok st' \<and> queued_frames st' = queued_frames st \<and>
     unread st' = drop n (unread st) \<and> sock_inbound_buffer st' = sock_inbound_buffer st"

lemma advance:
  "same_rest st st' \<Longrightarrow> sock_ok st \<Longrightarrow>
   advanced n st (st'\<lparr>sock_inbound_offset := sock_inbound_offset st' + n\<rparr>)"
  by (auto simp: advanced_def same_rest_def sock_ok_def unread_def drop_take add.commute)

lemma receiving_sock [simp]: "receiving (st\<lparr>sock_inbound_offset := n\<rparr>) w = receiving st w"
  "receiving (st\<lparr>queued_frames := q\<rparr>) w = receiving st w"
  by (simp_all add: receiving_def)

lemma Complete_length: "receive limit w = More \<Longrightarrow> receive limit (w @ d) = Complete n \<Longrightarrow> length w < n"
  by (auto simp: receive_def needed_append stated_size_append needed_def split: if_splits)

text \<open>What the stream has said so far is enough for the next frame, or it is not.\<close>

lemma consume_one_frame_parse:
  assumes "granted pool alloc mem" and "0 \<le> frame_max st" and "frame_max st < 2 ^ 31"
    and "receiving st w" and "sock_ok st" and "unread st \<noteq> []"
    and "parse_stream (decode_raw_frame pool alloc p0) (frame_max st) (w @ unread st) = Some (Inr (fs, rest))"
  shows "(\<exists>st'. fs = [] \<and> rest = w @ unread st \<and>
      consume_one_frame (amqp_handle_input pool alloc mem p0) st = Some (Inr (), No_frame, st') \<and>
      receiving st' rest \<and> advanced (length (unread st)) st st') \<or>
    (\<exists>st' n f fs'. fs = f # fs' \<and> 0 < n \<and>
      consume_one_frame (amqp_handle_input pool alloc mem p0) st = Some (Inr (), f, st') \<and>
      receiving st' [] \<and> advanced n st st' \<and>
      parse_stream (decode_raw_frame pool alloc p0) (frame_max st) (unread st') = Some (Inr (fs', rest)))"
proof -
  have a: "answers (decode_raw_frame pool alloc p0) st w (unread st) 0 (amqp_handle_input pool alloc mem p0 st (unread st))"
    by (rule handle_input_step [OF assms(1-4,6)])
  have w: "receive (frame_max st) w = More" using assms(4) by (simp add: receiving_def)
  have c: "consume_one_frame (amqp_handle_input pool alloc mem p0) st =
      do { (res, frame, st) \<leftarrow> amqp_handle_input pool alloc mem p0 st (unread st);
        (case res of Inl s \<Rightarrow> Some (Inl s, frame, st)
         | Inr n \<Rightarrow> Some (Inr (), frame, st\<lparr>sock_inbound_offset := sock_inbound_offset st + n\<rparr>)) }"
    by (simp add: consume_one_frame_def unread_def Let_def)
  show ?thesis
  proof (cases "receive (frame_max st) (w @ unread st)")
    case More
    then obtain st' where "amqp_handle_input pool alloc mem p0 st (unread st) = Some (Inr (length (unread st)), No_frame, st')"
      and "receiving st' (w @ unread st)" and "same_rest st st'"
      using a by (auto simp: answers_def)
    then show ?thesis using assms(5,7) More c advance [of st st' "length (unread st)"] by (simp add: parse_More)
  next
    case Bad
    then show ?thesis using assms(7) by (simp add: parse_stream.simps)
  next
    case (Complete n)
    obtain f fs' where f: "decode_raw_frame pool alloc p0 (take n (w @ unread st)) n = Some (Inr f)"
      and fs: "parse_stream (decode_raw_frame pool alloc p0) (frame_max st) (drop n (w @ unread st)) = Some (Inr (fs', rest))"
      "fs = f # fs'"
      using Complete assms(7) by (subst (asm) parse_stream.simps) (auto split: option.splits sum.splits)
    obtain st' where h: "amqp_handle_input pool alloc mem p0 st (unread st) = Some (Inr (n - length w), f, st')"
      and r: "receiving st' []" and s: "same_rest st st'"
      using a Complete f by (auto simp: answers_def)
    have n: "length w < n" by (rule Complete_length [OF w Complete])
    have d: "drop n (w @ unread st) = drop (n - length w) (unread st)" using n by simp
    have "advanced (n - length w) st (st'\<lparr>sock_inbound_offset := sock_inbound_offset st' + (n - length w)\<rparr>)"
      by (rule advance [OF s assms(5)])
    then show ?thesis
      using c h r n fs d by (auto simp: advanced_def intro!: exI [of _ "n - length w"])
  qed
qed

section \<open>The loop of \<open>amqp_try_recv\<close>\<close>

definition is_frame :: "amqp_frame \<Rightarrow> bool" where
  "is_frame f \<longleftrightarrow> f \<noteq> No_frame"

lemma try_recv_loop_done: "\<not> amqp_data_in_buffer st \<Longrightarrow> try_recv_loop pool alloc input st = Some (Inr (), st)"
  by (simp add: try_recv_loop.simps)

lemma try_recv_loop_step:
  "granted pool alloc mem \<Longrightarrow> amqp_data_in_buffer st \<Longrightarrow> consume_one_frame input st = Some (Inr (), f, st') \<Longrightarrow>
   try_recv_loop pool alloc input st =
     try_recv_loop pool alloc input (if is_frame f then st'\<lparr>queued_frames := queued_frames st' @ [f]\<rparr> else st')"
  by (subst try_recv_loop.simps)
    (simp add: is_frame_def amqp_queue_frame_def amqp_create_link_for_frame_def granted_def)

lemma try_recv_loop_parse:
  assumes "granted pool alloc mem" and "0 \<le> frame_max st" and "frame_max st < 2 ^ 31"
    and "receiving st w" and "sock_ok st"
    and "parse_stream (decode_raw_frame pool alloc p0) (frame_max st) (w @ unread st) = Some (Inr (fs, rest))"
  shows "\<exists>st'. try_recv_loop pool alloc (amqp_handle_input pool alloc mem p0) st = Some (Inr (), st') \<and>
    receiving st' rest \<and> sock_ok st' \<and> frame_max st' = frame_max st \<and> unread st' = [] \<and>
    sock_inbound_buffer st' = sock_inbound_buffer st \<and>
    queued_frames st' = queued_frames st @ filter is_frame fs"
  using assms(2-)
proof (induction "length (unread st)" arbitrary: st w fs rule: less_induct)
  case less
  let ?input = "amqp_handle_input pool alloc mem p0"
  show ?case
  proof (cases "unread st = []")
    case True
    moreover have "receive (frame_max st) w = More" using less.prems(3) by (simp add: receiving_def)
    ultimately show ?thesis
      using less.prems data_in_buffer_iff [of st] by (auto simp: try_recv_loop_done parse_More)
  next
    case False
    then have data: "amqp_data_in_buffer st" using less.prems(4) by (simp add: data_in_buffer_iff)
    from consume_one_frame_parse [OF assms(1) less.prems(1-4) False less.prems(5)]
    consider (part) st' where "fs = []" "rest = w @ unread st" "consume_one_frame ?input st = Some (Inr (), No_frame, st')"
        "receiving st' rest" "advanced (length (unread st)) st st'"
      | (whole) st' n f fs' where "fs = f # fs'" "0 < n" "consume_one_frame ?input st = Some (Inr (), f, st')"
        "receiving st' []" "advanced n st st'"
        "parse_stream (decode_raw_frame pool alloc p0) (frame_max st) (unread st') = Some (Inr (fs', rest))"
      by blast
    then show ?thesis
    proof cases
      case part
      then have "\<not> amqp_data_in_buffer st'" by (simp add: advanced_def data_in_buffer_iff)
      with part show ?thesis
        using try_recv_loop_step [OF assms(1) data part(3)] by (simp add: advanced_def try_recv_loop_done is_frame_def)
    next
      case whole
      let ?st = "if is_frame f then st'\<lparr>queued_frames := queued_frames st' @ [f]\<rparr> else st'"
      have st: "frame_max ?st = frame_max st" "receiving ?st []" "sock_ok ?st" "unread ?st = unread st'"
        "sock_inbound_buffer ?st = sock_inbound_buffer st"
        "queued_frames ?st = queued_frames st @ filter is_frame [f]"
        using whole(4,5) by (auto simp: advanced_def sock_ok_def unread_def)
      have "length (unread ?st) < length (unread st)" using st(4) whole(2,5) False by (simp add: advanced_def)
      from less.hyps [OF this, of "[]" fs'] obtain st'' where
        "try_recv_loop pool alloc ?input ?st = Some (Inr (), st'')" "receiving st'' rest" "sock_ok st''"
        "frame_max st'' = frame_max st" "unread st'' = []" "sock_inbound_buffer st'' = sock_inbound_buffer st"
        "queued_frames st'' = queued_frames ?st @ filter is_frame fs'"
        using st whole(6) less.prems(1,2) by (simp del: if_split) blast
      then show ?thesis
        using try_recv_loop_step [OF assms(1) data whole(3)] st(6) whole(1) by (simp del: if_split)
    qed
  qed
qed

text \<open>
  The chunks that successive calls of \<open>amqp_try_recv\<close> read: each call queues the frames of the
  previous chunk and reads the next.
\<close>

fun recv_chunks ::
    "(16 word \<Rightarrow> bool) \<Rightarrow> (nat \<Rightarrow> bool) \<Rightarrow> input_function \<Rightarrow> bytes list \<Rightarrow> amqp_connection \<Rightarrow>
     (unit result \<times> amqp_connection) option" where
  "recv_chunks pool alloc input [] st = try_recv_loop pool alloc input st"
| "recv_chunks pool alloc input (d # ds) st =
     do {
       (res, st) \<leftarrow> amqp_try_recv pool alloc input (\<lambda>_. Inr d) (Inr ()) st;
       (case res of Inl s \<Rightarrow> Some (Inl s, st) | Inr _ \<Rightarrow> recv_chunks pool alloc input ds st)
     }"

lemma recv_chunk:
  assumes "receiving st w" and "length d \<le> length (sock_inbound_buffer st)"
  obtains st' where "recv_with_timeout (\<lambda>_. Inr d) (Inr ()) st = Some (Inr (), st')" and "receiving st' w" and "sock_ok st'"
    and "unread st' = d" and "frame_max st' = frame_max st" and "queued_frames st' = queued_frames st"
    and "length (sock_inbound_buffer st') = length (sock_inbound_buffer st)"
  using assms that [of "st\<lparr>sock_inbound_buffer := patch (sock_inbound_buffer st) 0 d,
    sock_inbound_limit := length d, sock_inbound_offset := 0\<rparr>"]
  by (simp add: recv_with_timeout_def receiving_def sock_ok_def unread_def patch_def)

lemma parse_prefix:
  assumes "parse_stream decode limit (s @ t) = Some (Inr (fs, r))"
  shows "\<exists>gs q hs. parse_stream decode limit s = Some (Inr (gs, q)) \<and>
    parse_stream decode limit (q @ t) = Some (Inr (hs, r)) \<and> fs = gs @ hs"
  using assms
proof (induction decode limit s arbitrary: fs rule: parse_stream.induct)
  case (1 decode limit s)
  show ?case
  proof (cases "receive limit s")
    case More
    then show ?thesis using 1(2) by (simp add: parse_More)
  next
    case Bad
    then show ?thesis using 1(2) receive_append_Bad [of limit s t] by (simp add: parse_stream.simps [of _ _ "s @ t"])
  next
    case (Complete n)
    then have n: "n \<le> length s" by (auto dest: receive_Complete_bounds)
    obtain f fs' where f: "decode (take n s) n = Some (Inr f)"
      and fs: "parse_stream decode limit (drop n s @ t) = Some (Inr (fs', r))" "fs = f # fs'"
      using 1(2) receive_append_Complete [OF Complete, of t] n
      by (subst (asm) parse_stream.simps) (auto split: option.splits sum.splits)
    obtain gs q hs where "parse_stream decode limit (drop n s) = Some (Inr (gs, q))"
      "parse_stream decode limit (q @ t) = Some (Inr (hs, r))" "fs' = gs @ hs"
      using 1(1) [OF Complete f _ fs(1)] by auto
    then show ?thesis
      using Complete f fs(2) by (subst parse_stream.simps) simp
  qed
qed

lemma recv_chunks_parse:
  assumes "granted pool alloc mem" and "0 \<le> limit" and "limit < 2 ^ 31"
    and "frame_max st = limit" and "receiving st w" and "sock_ok st"
    and "\<forall>d \<in> set ds. length d \<le> length (sock_inbound_buffer st)"
    and "parse_stream (decode_raw_frame pool alloc p0) limit (w @ unread st @ concat ds) = Some (Inr (fs, rest))"
  shows "\<exists>st'. recv_chunks pool alloc (amqp_handle_input pool alloc mem p0) ds st = Some (Inr (), st') \<and>
    receiving st' rest \<and> unread st' = [] \<and> queued_frames st' = queued_frames st @ filter is_frame fs"
  using assms(4-)
proof (induction ds arbitrary: st w fs)
  case Nil
  then show ?case using try_recv_loop_parse [OF assms(1), of st w p0 fs rest] assms(2,3) by auto
next
  case (Cons d ds)
  let ?input = "amqp_handle_input pool alloc mem p0" and ?decode = "decode_raw_frame pool alloc p0"
  obtain gs q hs where p: "parse_stream ?decode limit (w @ unread st) = Some (Inr (gs, q))"
    "parse_stream ?decode limit (q @ d @ concat ds) = Some (Inr (hs, rest))" and fs: "fs = gs @ hs"
    using parse_prefix [of ?decode limit "w @ unread st" "d @ concat ds" fs rest] Cons.prems(5) by auto
  obtain st1 where l: "try_recv_loop pool alloc ?input st = Some (Inr (), st1)" "receiving st1 q" "sock_ok st1"
    "frame_max st1 = limit" "sock_inbound_buffer st1 = sock_inbound_buffer st"
    "queued_frames st1 = queued_frames st @ filter is_frame gs"
    using try_recv_loop_parse [OF assms(1), of st w p0 gs q] assms(2,3) Cons.prems(1-3) p(1) by auto
  obtain st2 where r: "recv_with_timeout (\<lambda>_. Inr d) (Inr ()) st1 = Some (Inr (), st2)" "receiving st2 q" "sock_ok st2"
    "unread st2 = d" "frame_max st2 = limit" "queued_frames st2 = queued_frames st1"
    "length (sock_inbound_buffer st2) = length (sock_inbound_buffer st)"
    using recv_chunk [OF l(2), of d] Cons.prems(4) l(4,5) by auto
  have "\<exists>st'. recv_chunks pool alloc ?input ds st2 = Some (Inr (), st') \<and>
    receiving st' rest \<and> unread st' = [] \<and> queued_frames st' = queued_frames st2 @ filter is_frame hs"
    by (rule Cons.IH [OF r(5,2,3)]) (use Cons.prems(4) r(4,7) p(2) in auto)
  then show ?case using l(1,6) r(1,6) fs by (auto simp: amqp_try_recv_def)
qed

text \<open>
  C11: However the bytes of a stream are cut into reads of the socket, the reading loops terminate and queue
  exactly the frames of the stream, each once, in order and complete, and hold the bytes of the
  frame that is not complete yet.
\<close>

theorem stream_delivers_its_frames:
  assumes "granted pool alloc mem" and "0 \<le> frame_max st" and "frame_max st < 2 ^ 31"
    and "receiving st []" and "\<not> amqp_data_in_buffer st" and "sock_ok st"
    and "\<forall>d \<in> set ds. length d \<le> length (sock_inbound_buffer st)"
    and "parse_stream (decode_raw_frame pool alloc p0) (frame_max st) (concat ds) = Some (Inr (fs, rest))"
  shows "\<exists>st'. recv_chunks pool alloc (amqp_handle_input pool alloc mem p0) ds st = Some (Inr (), st') \<and>
    receiving st' rest \<and> queued_frames st' = queued_frames st @ filter (\<lambda>f. f \<noteq> No_frame) fs"
proof -
  have "unread st = []" using assms(5,6) by (simp add: data_in_buffer_iff)
  then show ?thesis
    using recv_chunks_parse [OF assms(1-3), of st "[]" ds p0 fs rest] assms(4,6-)
    by (auto simp: is_frame_def [abs_def])
qed

text \<open>A heartbeat frame that arrives in three pieces.\<close>

theorem stream_delivers_its_frames_witness:
  "\<exists>st'. recv_chunks (\<lambda>_. True) (\<lambda>_. True) (amqp_handle_input (\<lambda>_. True) (\<lambda>_. True) (\<lambda>n. replicate n 0) clear_properties)
      [[8, 0, 0], [0, 0, 0, 0], [0xCE, 3]] (idle_connection 4096) = Some (Inr (), st') \<and>
    receiving st' [3] \<and> queued_frames st' = queued_frames (idle_connection 4096) @ filter (\<lambda>f. f \<noteq> No_frame) [Heartbeat_frame 0]"
proof (rule stream_delivers_its_frames)
  have zeros: "amqp_d16 is_bigendian [0, 0] = 0" "amqp_d32 is_bigendian [0, 0, 0, 0] = 0" by code_simp+
  then have d: "decode_raw_frame (\<lambda>_. True) (\<lambda>_. True) clear_properties [8, 0, 0, 0, 0, 0, 0, 0xCE] 8 = Some (Inr (Heartbeat_frame 0))"
    by (simp add: decode_raw_frame_def raw_at_def amqp_d8_def zeros)
  show "parse_stream (decode_raw_frame (\<lambda>_. True) (\<lambda>_. True) clear_properties) (frame_max (idle_connection 4096))
      (concat [[8, 0, 0], [0, 0, 0, 0], [0xCE, 3]]) = Some (Inr ([Heartbeat_frame 0], [3]))"
    by (simp add: parse_stream.simps receive_def needed_def stated_size_def zeros d idle_connection_def return_to_idle_def)
qed (simp_all add: granted_def idle_connection_receiving, simp_all add: idle_connection_def return_to_idle_def amqp_data_in_buffer_def sock_ok_def)

end
