(* ===== verification/AMQP_Framing_Correct.thy ===== *)
theory AMQP_Framing_Correct
  imports AMQP_Decode AMQP_Encode
begin

text \<open>
  The correctness of the method and property codecs.  \<open><class>_codec\<close>: every method of the
  class satisfies the codec contract, field by field; the tables in it are those the table codec
  covers.
\<close>

section \<open>Every method is a codec\<close>

lemmas connection_defs = encode_connection_start_def encode_connection_start_ok_def encode_connection_secure_def
  encode_connection_secure_ok_def encode_connection_tune_def encode_connection_tune_ok_def
  encode_connection_open_def encode_connection_open_ok_def encode_connection_close_def
  encode_connection_close_ok_def encode_connection_blocked_def encode_connection_unblocked_def
  decode_connection_start_def decode_connection_start_ok_def decode_connection_secure_def
  decode_connection_secure_ok_def decode_connection_tune_def decode_connection_tune_ok_def
  decode_connection_open_def decode_connection_open_ok_def decode_connection_close_def
  decode_connection_close_ok_def decode_connection_blocked_def decode_connection_unblocked_def

lemma connection_codec:
  "(\<And>t. t \<in> set (connection_method_tables m) \<Longrightarrow> table_ok t) \<Longrightarrow>
   codec (encode_connection_method m) (decode_switch (connection_method_number m) (\<lambda>_. True)) (Connection_method m)"
  by (cases m; simp add: decode_switch_def connection_defs del: puts.simps; intro codec_intros;
      simp add: flag_bit_buffer)

lemmas channel_defs = encode_channel_open_def encode_channel_open_ok_def encode_channel_flow_def
  encode_channel_flow_ok_def encode_channel_close_def encode_channel_close_ok_def
  decode_channel_open_def decode_channel_open_ok_def decode_channel_flow_def
  decode_channel_flow_ok_def decode_channel_close_def decode_channel_close_ok_def

lemma channel_codec:
  "codec (encode_channel_method m) (decode_switch (channel_method_number m) (\<lambda>_. True)) (Channel_method m)"
  by (cases m; simp add: decode_switch_def channel_defs del: puts.simps; intro codec_intros;
      simp add: flag_bit_buffer)

lemmas access_defs = encode_access_request_def encode_access_request_ok_def decode_access_request_def
  decode_access_request_ok_def

lemma access_codec:
  "codec (encode_access_method m) (decode_switch (access_method_number m) (\<lambda>_. True)) (Access_method m)"
  by (cases m; simp add: decode_switch_def access_defs del: puts.simps; intro codec_intros;
      simp add: flag_bit_buffer)

lemmas exchange_defs = encode_exchange_declare_def encode_exchange_declare_ok_def encode_exchange_delete_def
  encode_exchange_delete_ok_def encode_exchange_bind_def encode_exchange_bind_ok_def
  encode_exchange_unbind_def encode_exchange_unbind_ok_def decode_exchange_declare_def
  decode_exchange_declare_ok_def decode_exchange_delete_def decode_exchange_delete_ok_def
  decode_exchange_bind_def decode_exchange_bind_ok_def decode_exchange_unbind_def
  decode_exchange_unbind_ok_def

lemma exchange_codec:
  "(\<And>t. t \<in> set (exchange_method_tables m) \<Longrightarrow> table_ok t) \<Longrightarrow>
   codec (encode_exchange_method m) (decode_switch (exchange_method_number m) (\<lambda>_. True)) (Exchange_method m)"
  by (cases m; simp add: decode_switch_def exchange_defs del: puts.simps; intro codec_intros;
      simp add: flag_bit_buffer)

lemmas queue_defs = encode_queue_declare_def encode_queue_declare_ok_def encode_queue_bind_def
  encode_queue_bind_ok_def encode_queue_purge_def encode_queue_purge_ok_def encode_queue_delete_def
  encode_queue_delete_ok_def encode_queue_unbind_def encode_queue_unbind_ok_def
  decode_queue_declare_def decode_queue_declare_ok_def decode_queue_bind_def
  decode_queue_bind_ok_def decode_queue_purge_def decode_queue_purge_ok_def decode_queue_delete_def
  decode_queue_delete_ok_def decode_queue_unbind_def decode_queue_unbind_ok_def

lemma queue_codec:
  "(\<And>t. t \<in> set (queue_method_tables m) \<Longrightarrow> table_ok t) \<Longrightarrow>
   codec (encode_queue_method m) (decode_switch (queue_method_number m) (\<lambda>_. True)) (Queue_method m)"
  by (cases m; simp add: decode_switch_def queue_defs del: puts.simps; intro codec_intros;
      simp add: flag_bit_buffer)

lemmas basic_defs = encode_basic_qos_def encode_basic_qos_ok_def encode_basic_consume_def encode_basic_consume_ok_def
  encode_basic_cancel_def encode_basic_cancel_ok_def encode_basic_publish_def
  encode_basic_return_def encode_basic_deliver_def encode_basic_get_def encode_basic_get_ok_def
  encode_basic_get_empty_def encode_basic_ack_def encode_basic_reject_def
  encode_basic_recover_async_def encode_basic_recover_def encode_basic_recover_ok_def
  encode_basic_nack_def decode_basic_qos_def decode_basic_qos_ok_def decode_basic_consume_def
  decode_basic_consume_ok_def decode_basic_cancel_def decode_basic_cancel_ok_def
  decode_basic_publish_def decode_basic_return_def decode_basic_deliver_def decode_basic_get_def
  decode_basic_get_ok_def decode_basic_get_empty_def decode_basic_ack_def decode_basic_reject_def
  decode_basic_recover_async_def decode_basic_recover_def decode_basic_recover_ok_def
  decode_basic_nack_def

lemma basic_codec:
  "(\<And>t. t \<in> set (basic_method_tables m) \<Longrightarrow> table_ok t) \<Longrightarrow>
   codec (encode_basic_method m) (decode_switch (basic_method_number m) (\<lambda>_. True)) (Basic_method m)"
  by (cases m; simp add: decode_switch_def basic_defs del: puts.simps; intro codec_intros;
      simp add: flag_bit_buffer)

lemmas tx_defs = encode_tx_select_def encode_tx_select_ok_def encode_tx_commit_def encode_tx_commit_ok_def
  encode_tx_rollback_def encode_tx_rollback_ok_def decode_tx_select_def decode_tx_select_ok_def
  decode_tx_commit_def decode_tx_commit_ok_def decode_tx_rollback_def decode_tx_rollback_ok_def

lemma tx_codec:
  "codec (encode_tx_method m) (decode_switch (tx_method_number m) (\<lambda>_. True)) (Tx_method m)"
  by (cases m; simp add: decode_switch_def tx_defs del: puts.simps; intro codec_intros;
      simp add: flag_bit_buffer)

lemmas confirm_defs = encode_confirm_select_def encode_confirm_select_ok_def decode_confirm_select_def
  decode_confirm_select_ok_def

lemma confirm_codec:
  "codec (encode_confirm_method m) (decode_switch (confirm_method_number m) (\<lambda>_. True)) (Confirm_method m)"
  by (cases m; simp add: decode_switch_def confirm_defs del: puts.simps; intro codec_intros;
      simp add: flag_bit_buffer)

lemma method_codec:
  assumes "\<And>t. t \<in> set (method_tables m) \<Longrightarrow> table_ok t"
  shows "codec (encode_method_body m) (decode_switch (method_number m) (\<lambda>_. True)) m"
  using assms
  by (cases m) (simp_all add: connection_codec channel_codec access_codec exchange_codec queue_codec
      basic_codec tx_codec confirm_codec)

interpretation methods: wire_codec encode_method_body "\<lambda>m. decode_switch (method_number m) (\<lambda>_. True)"
    "\<lambda>m. \<forall>t \<in> set (method_tables m). table_ok t" "\<lambda>m. m"
  by unfold_locales (rule method_codec, blast)

lemma method_name_known: "amqp_method_name (method_number m) \<noteq> None"
proof (cases m)
  case (Connection_method x)
  then show ?thesis by (cases x) (simp_all add: amqp_method_name_def)
next
  case (Channel_method x)
  then show ?thesis by (cases x) (simp_all add: amqp_method_name_def)
next
  case (Access_method x)
  then show ?thesis by (cases x) (simp_all add: amqp_method_name_def)
next
  case (Exchange_method x)
  then show ?thesis by (cases x) (simp_all add: amqp_method_name_def)
next
  case (Queue_method x)
  then show ?thesis by (cases x) (simp_all add: amqp_method_name_def)
next
  case (Basic_method x)
  then show ?thesis by (cases x) (simp_all add: amqp_method_name_def)
next
  case (Tx_method x)
  then show ?thesis by (cases x) (simp_all add: amqp_method_name_def)
next
  case (Confirm_method x)
  then show ?thesis by (cases x) (simp_all add: amqp_method_name_def)
qed

section \<open>Decoding is safe\<close>

lemmas decode_method_defs = decode_connection_start_def decode_connection_start_ok_def decode_connection_secure_def
  decode_connection_secure_ok_def decode_connection_tune_def decode_connection_tune_ok_def
  decode_connection_open_def decode_connection_open_ok_def decode_connection_close_def
  decode_connection_close_ok_def decode_connection_blocked_def decode_connection_unblocked_def
  decode_channel_open_def decode_channel_open_ok_def decode_channel_flow_def
  decode_channel_flow_ok_def decode_channel_close_def decode_channel_close_ok_def
  decode_access_request_def decode_access_request_ok_def decode_exchange_declare_def
  decode_exchange_declare_ok_def decode_exchange_delete_def decode_exchange_delete_ok_def
  decode_exchange_bind_def decode_exchange_bind_ok_def decode_exchange_unbind_def
  decode_exchange_unbind_ok_def decode_queue_declare_def decode_queue_declare_ok_def
  decode_queue_bind_def decode_queue_bind_ok_def decode_queue_purge_def decode_queue_purge_ok_def
  decode_queue_delete_def decode_queue_delete_ok_def decode_queue_unbind_def
  decode_queue_unbind_ok_def decode_basic_qos_def decode_basic_qos_ok_def decode_basic_consume_def
  decode_basic_consume_ok_def decode_basic_cancel_def decode_basic_cancel_ok_def
  decode_basic_publish_def decode_basic_return_def decode_basic_deliver_def decode_basic_get_def
  decode_basic_get_ok_def decode_basic_get_empty_def decode_basic_ack_def decode_basic_reject_def
  decode_basic_recover_async_def decode_basic_recover_def decode_basic_recover_ok_def
  decode_basic_nack_def decode_tx_select_def decode_tx_select_ok_def decode_tx_commit_def
  decode_tx_commit_ok_def decode_tx_rollback_def decode_tx_rollback_ok_def decode_confirm_select_def
  decode_confirm_select_ok_def

lemma safe_if: "(b \<Longrightarrow> safe Q d) \<Longrightarrow> (\<not> b \<Longrightarrow> safe Q d') \<Longrightarrow> safe Q (if b then d else d')"
  by simp

text \<open>What holds of a method decoded for a number.\<close>

definition method_ok :: "32 word \<Rightarrow> amqp_method \<Rightarrow> bool" where
  "method_ok n m \<longleftrightarrow> method_number m = n \<and> (\<forall>t \<in> set (method_tables m). known (FTable t) \<and> short_keys (FTable t))"

lemma decode_switch_safe:
  "amqp_method_name n \<noteq> None \<Longrightarrow> safe (method_ok n) (decode_switch n alloc)"
  unfolding decode_switch_def
  by (rule safe_if, simp only: decode_method_defs, intro safe_intros, simp add: method_ok_def)+
    (simp add: amqp_method_name_def)

lemma if_Some_None: "(if b then Some x else r) = None \<longleftrightarrow> \<not> b \<and> r = None"
  by simp

section \<open>Properties\<close>

lemma method_read_back:
  assumes "\<forall>t \<in> set (method_tables m). table_ok t"
    and "amqp_encode_method (method_number m) m encoded = Some (Inr (encoded', n))"
  obtains off where "n = int_of_size_t off" and "off \<le> length encoded" and "length (take off encoded') = off"
    and "encode_method_body m encoded 0 = Inr (encoded', off)"
    and "\<And>rest. amqp_decode_method (method_number m) (\<lambda>_. True) (take off encoded' @ rest) = Inr m"
proof -
  obtain off where e: "encode_method_body m encoded 0 = Inr (encoded', off)" and n: "n = int_of_size_t off"
    using assms(2) method_name_known by (auto simp: amqp_encode_method_def return_offset_Inr)
  from methods.roundtrip [OF assms(1) e]
  have "amqp_decode_method (method_number m) (\<lambda>_. True) (take off encoded' @ rest) = Inr m" for rest
    by (simp add: amqp_decode_method_def)
  with that n e methods.exact_size [OF assms(1) e] show ?thesis by simp
qed

text \<open>
  C1: \<open>amqp_encode_method\<close> followed by \<open>amqp_decode_method\<close> is the identity on each of the 64
  methods: the bytes written, with whatever stands behind them, are decoded to the structure
  that was encoded, when its tables are encodable and memory does not run out.  The number
  returned is that of the bytes written, cast to \<open>int\<close>, and the number itself below \<open>2 ^ 31\<close>.
\<close>

theorem method_roundtrip:
  assumes "\<forall>t \<in> set (method_tables m). table_ok t"
    and "amqp_encode_method (method_number m) m encoded = Some (Inr (encoded', n))"
  shows "\<exists>off. n = int_of_size_t off \<and> off \<le> length encoded \<and> (off < 2 ^ 31 \<longrightarrow> n = int off) \<and>
    (\<forall>rest. amqp_decode_method (method_number m) (\<lambda>_. True) (take off encoded' @ rest) = Inr m)"
  by (rule method_read_back [OF assms]) auto

abbreviation example_method :: amqp_method where
  "example_method \<equiv> Queue_method (Queue_declare 7 [0x71] False True False True False [([1], FU8 7)])"

lemma example_method_encoded:
  "amqp_encode_method (method_number example_method) example_method (replicate 20 0) =
     Some (Inr ([0, 7, 1, 0x71, 0x0A, 0, 0, 0, 4, 1, 1, 66, 7] @ replicate 7 0, 13))"
proof -
  have "emits (encode_method_body example_method)
      (big_endian 2 (7 :: 16 word) @ ([word_of_nat (length [0x71 :: byte])] @ ([0x71] @ [])) @
       [bit_buffer [False, True, False, True, False]] @ wire_table [([1], FU8 7)] @ [])"
    unfolding encode_method_body.simps encode_queue_method.simps encode_queue_declare_def
    by (intro emits_intros) simp_all
  from emitsD [OF this, of 0 "replicate 20 0"] show ?thesis
    using method_name_known [of example_method]
    by (simp add: amqp_encode_method_def return_offset_def big_endian_2 wire_table_def sized_def big_endian_4 bit_buffer_def
        patch_def)
qed

theorem method_roundtrip_witness:
  "amqp_decode_method AMQP_QUEUE_DECLARE_METHOD (\<lambda>_. True)
     ([0, 7, 1, 0x71, 0x0A, 0, 0, 0, 4, 1, 1, 66, 7] @ [99]) = Inr example_method"
proof -
  obtain off where "off \<le> 20" "13 = int_of_size_t off"
      "amqp_decode_method AMQP_QUEUE_DECLARE_METHOD (\<lambda>_. True)
        (take off ([0, 7, 1, 0x71, 0x0A, 0, 0, 0, 4, 1, 1, 66, 7] @ replicate 7 0) @ [99]) = Inr example_method"
    using method_roundtrip [OF _ example_method_encoded] by (auto simp: table_ok_def)
  moreover from this have "off = 13" by simp
  ultimately show ?thesis by simp
qed

text \<open>
  C20: \<open>amqp_encode_method\<close> writes inside its buffer only and has an exact size: there is a number of bytes that it
  needs and fills; it changes nothing behind them, writes the same bytes at the start of every buffer of at least
  that size, and fails on every smaller one.  What it reports is this number cast to \<open>int\<close>: the number itself
  below \<open>2 ^ 31\<close>, and not so from there on.
\<close>

theorem encode_method_exact_size:
  assumes "\<forall>t \<in> set (method_tables m). table_ok t"
    and "amqp_encode_method (method_number m) m encoded = Some (Inr (encoded', n))"
  shows "\<exists>off. n = int_of_size_t off \<and> (n = int off \<longleftrightarrow> off < 2 ^ 31) \<and>
    off \<le> length encoded \<and> length encoded' = length encoded \<and> drop off encoded' = drop off encoded \<and>
    (\<forall>buf. off \<le> length buf \<longrightarrow>
       amqp_encode_method (method_number m) m buf = Some (Inr (take off encoded' @ drop off buf, n))) \<and>
    (\<forall>buf. length buf < off \<longrightarrow> (\<exists>st. amqp_encode_method (method_number m) m buf = Some (Inl st)))"
proof -
  obtain off where n: "n = int_of_size_t off" and e: "encode_method_body m encoded 0 = Inr (encoded', off)"
    by (rule method_read_back [OF assms])
  from methods.exact_size [OF assms(1) e] show ?thesis
    unfolding amqp_encode_method_def if_not_P [OF method_name_known]
    by (intro exI [of _ off]) (auto simp: n int_of_size_t_exact)
qed

theorem encode_method_exact_size_witness:
  "(\<exists>st. amqp_encode_method AMQP_QUEUE_DECLARE_METHOD example_method (replicate 12 0) = Some (Inl st)) \<and>
   13 \<le> length (replicate 20 (0 :: byte))"
proof -
  obtain off where "off \<le> 20" "13 = int_of_size_t off"
      "\<And>buf. length buf < off \<Longrightarrow> \<exists>st. amqp_encode_method AMQP_QUEUE_DECLARE_METHOD example_method buf = Some (Inl st)"
    using encode_method_exact_size [OF _ example_method_encoded] by (auto simp: table_ok_def)
  moreover from this have "off = 13" by simp
  ultimately show ?thesis by simp
qed

text \<open>The longest challenge fits the field of its length; the method takes \<open>2 ^ 32 + 3\<close> bytes and reports three.\<close>

lemma encode_secure_reports_three:
  assumes "length challenge = 2 ^ 32 - 1" and "2 ^ 32 + 3 \<le> length encoded"
  shows "\<exists>encoded'. amqp_encode_method AMQP_CONNECTION_SECURE_METHOD (Connection_method (Connection_secure challenge)) encoded =
    Some (Inr (encoded', 3))"
proof -
  let ?m = "Connection_method (Connection_secure challenge)"
  have "emits (encode_method_body ?m) ((big_endian 4 (word_of_nat (length challenge) :: 32 word) @ (challenge @ [])) @ [])"
    unfolding encode_method_body.simps encode_connection_method.simps encode_connection_secure_def
    by (intro emits_intros) (simp add: assms(1))
  from emitsD [OF this, of 0 encoded] assms obtain encoded' where e: "encode_method_body ?m encoded 0 = Inr (encoded', 2 ^ 32 + 3)"
    by auto
  have "int_of_size_t (2 ^ 32 + 3) = 3" by (simp add: int_of_size_t_def)
  with e method_name_known [of ?m] show ?thesis by (simp add: amqp_encode_method_def)
qed

text \<open>
  C18: \<open>amqp_decode_method\<close> on arbitrary bytes: an unknown number gives \<open>UNKNOWN_METHOD\<close>; for a
  known number (one with a name) the result is \<open>NO_MEMORY\<close>, \<open>BAD_AMQP_DATA\<close>, or a structure of
  exactly that method whose tables have known kinds and short keys; only with more than \<open>2 ^ 30\<close> bytes
  there may be none, where the count of the entries of a table overflows.  The methods with content
  are the four of them that carry messages, and every number a structure can have is known.
\<close>

theorem decode_method_total:
  "(amqp_method_name n = None \<longrightarrow> amqp_decode_method n alloc encoded = Inl STATUS_UNKNOWN_METHOD) \<and>
   (amqp_method_name n \<noteq> None \<longrightarrow>
     (case amqp_decode_method n alloc encoded of
        Inl st \<Rightarrow> st = STATUS_NO_MEMORY \<or> st = STATUS_BAD_AMQP_DATA \<or> st = UNDEFINED \<and> 2 ^ 30 < length encoded
      | Inr m \<Rightarrow> method_number m = n \<and>
          (\<forall>t \<in> set (method_tables m). known (FTable t) \<and> short_keys (FTable t)))) \<and>
   (amqp_method_has_content n \<longleftrightarrow> n \<in> {0x003C0028, 0x003C0032, 0x003C003C, 0x003C0047}) \<and>
   amqp_method_name (method_number m') \<noteq> None"
proof (intro conjI impI)
  assume "amqp_method_name n = None"
  then show "amqp_decode_method n alloc encoded = Inl STATUS_UNKNOWN_METHOD"
    unfolding amqp_method_name_def amqp_decode_method_def decode_switch_def
    by (simp only: if_Some_None if_False sum.case)
next
  assume "amqp_method_name n \<noteq> None"
  from decode_switch_safe [OF this, of alloc]
  have "fine (method_ok n) encoded 0 (decode_switch n alloc encoded 0)" by (simp add: safe_def)
  then show "case amqp_decode_method n alloc encoded of
      Inl st \<Rightarrow> st = STATUS_NO_MEMORY \<or> st = STATUS_BAD_AMQP_DATA \<or> st = UNDEFINED \<and> 2 ^ 30 < length encoded
    | Inr m \<Rightarrow> method_number m = n \<and> (\<forall>t \<in> set (method_tables m). known (FTable t) \<and> short_keys (FTable t))"
    by (auto simp: amqp_decode_method_def fine_def method_ok_def split: sum.splits simp del: known.simps short_keys.simps)
next
  show "amqp_method_has_content n \<longleftrightarrow> n \<in> {0x003C0028, 0x003C0032, 0x003C003C, 0x003C0047}"
    by (simp add: amqp_method_has_content_def)
qed (rule method_name_known)

theorem decode_method_total_witness:
  "amqp_decode_method 0 (\<lambda>_. True) [] = Inl STATUS_UNKNOWN_METHOD \<and>
   (case amqp_decode_method AMQP_BASIC_QOS_METHOD (\<lambda>_. True) [1, 2] of
      Inl st \<Rightarrow> st = STATUS_NO_MEMORY \<or> st = STATUS_BAD_AMQP_DATA | Inr m \<Rightarrow> method_number m = AMQP_BASIC_QOS_METHOD)"
proof -
  have "amqp_method_name 0 = None" by (simp add: amqp_method_name_def)
  moreover have "amqp_method_name AMQP_BASIC_QOS_METHOD \<noteq> None" by (simp add: amqp_method_name_def)
  ultimately show ?thesis
    using decode_method_total [of 0 "\<lambda>_. True" "[]" example_method]
      decode_method_total [of AMQP_BASIC_QOS_METHOD "\<lambda>_. True" "[1, 2]" example_method]
    by (auto split: sum.splits)
qed

end
