(* ===== verification/AMQP_Properties_Correct.thy ===== *)
theory AMQP_Properties_Correct
  imports AMQP_Properties
begin

text \<open>
  The correctness of the content header codec: the flag words, the optional fields, the round
  trip, and the header that makes the decoder shift past the width of an \<open>int\<close>.
\<close>

section \<open>Optional fields\<close>

lemma puts_skip [simp]: "puts (puts [] # es) = puts es"
  by (rule ext, rule ext) simp

lemma codec_if_8 [codec_intros]:
  "codec (puts es) (k (if b then x else v0)) r \<Longrightarrow>
   codec (puts (put_if b (put_8 x) # es)) (get_if b get_8 v0 k) r"
  by (cases b) (simp_all add: put_if_def get_if_def codec_8 del: puts.simps)

lemma codec_if_64 [codec_intros]:
  "codec (puts es) (k (if b then x else v0)) r \<Longrightarrow>
   codec (puts (put_if b (put_64 x) # es)) (get_if b get_64 v0 k) r"
  by (cases b) (simp_all add: put_if_def get_if_def codec_64 del: puts.simps)

lemma codec_if_short [codec_intros]:
  "codec (puts es) (k (if b then x else v0)) r \<Longrightarrow>
   codec (puts (put_if b (put_short x) # es)) (get_if b get_short v0 k) r"
  by (cases b) (simp_all add: put_if_def get_if_def codec_short del: puts.simps)

lemma codec_if_table [codec_intros]:
  "(b \<Longrightarrow> table_ok x) \<Longrightarrow> codec (puts es) (k (if b then x else v0)) r \<Longrightarrow>
   codec (puts (put_if b (put_table x) # es)) (get_if b (get_table (\<lambda>_. True)) v0 k) r"
  by (cases b) (simp_all add: put_if_def get_if_def codec_table del: puts.simps)

text \<open>The structure decoded: the fields present come from \<open>p\<close>, the others are what was there.\<close>

definition overlay :: "amqp_basic_properties \<Rightarrow> amqp_basic_properties \<Rightarrow> amqp_basic_properties" where
  "overlay p p0 = (let flags = basic_flags p in
     \<lparr>basic_flags = flags,
      content_type = (if present flags 15 then content_type p else content_type p0),
      content_encoding = (if present flags 14 then content_encoding p else content_encoding p0),
      headers = (if present flags 13 then headers p else headers p0),
      delivery_mode = (if present flags 12 then delivery_mode p else delivery_mode p0),
      priority = (if present flags 11 then priority p else priority p0),
      correlation_id = (if present flags 10 then correlation_id p else correlation_id p0),
      reply_to = (if present flags 9 then reply_to p else reply_to p0),
      expiration = (if present flags 8 then expiration p else expiration p0),
      message_id = (if present flags 7 then message_id p else message_id p0),
      timestamp = (if present flags 6 then timestamp p else timestamp p0),
      type_name = (if present flags 5 then type_name p else type_name p0),
      user_id = (if present flags 4 then user_id p else user_id p0),
      app_id = (if present flags 3 then app_id p else app_id p0),
      cluster_id = (if present flags 2 then cluster_id p else cluster_id p0)\<rparr>)"

lemma basic_properties_codec:
  assumes "present (basic_flags p) 13 \<Longrightarrow> table_ok (headers p)"
  shows "codec (encode_basic_properties (basic_flags p) p)
    (decode_basic_properties (\<lambda>_. True) p0 (basic_flags p)) (Basic_properties (overlay p p0))"
  unfolding encode_basic_properties_def decode_basic_properties_def
  by (intro codec_intros assms) (assumption, simp only: overlay_def Let_def)

section \<open>Flag words\<close>

text \<open>The flags the protocol defines: bits 2 to 15.\<close>

definition plain_flags :: "32 word \<Rightarrow> bool" where
  "plain_flags flags \<longleftrightarrow> flags AND 0xFFFF0001 = 0"

lemma plain_flags_bits: "plain_flags flags \<Longrightarrow> \<not> bit flags 0 \<and> (\<forall>n\<ge>16. \<not> bit flags n)"
proof -
  have "(0xFFFF0001 :: 32 word) = push_bit 16 (mask 16) OR mask 1"
    by (simp add: mask_eq_exp_minus_1 push_bit_eq_mult)
  then have m: "bit (0xFFFF0001 :: 32 word) n \<longleftrightarrow> n = 0 \<or> 16 \<le> n \<and> n < 32" for n
    by (simp only: bit_or_iff bit_push_bit_iff bit_mask_iff) auto
  assume "plain_flags flags"
  then have "\<not> bit (flags AND 0xFFFF0001) n" for n by (simp add: plain_flags_def)
  then have "bit flags n \<Longrightarrow> \<not> (n = 0 \<or> 16 \<le> n \<and> n < 32)" for n
    using m [of n] unfolding bit_and_iff by blast
  moreover have "bit flags n \<Longrightarrow> n < 32" for n using bit_imp_le_length [of flags n] by simp
  ultimately show ?thesis by blast
qed

lemma plain_flags_words:
  assumes "plain_flags flags"
  shows "drop_bit 16 flags = 0" and "ucast (flags AND 0xFFFE) = (ucast flags :: 16 word)"
    and "(ucast flags :: 16 word) AND 1 = 0" and "(ucast (ucast flags :: 16 word) :: 32 word) = flags"
proof -
  note b = plain_flags_bits [OF assms]
  show "drop_bit 16 flags = 0"
    by (rule bit_eqI) (use b in \<open>simp add: bit_simps\<close>)
  have "(0xFFFE :: 32 word) = push_bit 1 (mask 15)"
    by (simp add: mask_eq_exp_minus_1 push_bit_eq_mult)
  then have m: "bit (0xFFFE :: 32 word) n \<longleftrightarrow> 1 \<le> n \<and> n < 16" for n
    by (simp only: bit_push_bit_iff bit_mask_iff) auto
  show "ucast (flags AND 0xFFFE) = (ucast flags :: 16 word)"
  proof (rule bit_word_eqI)
    fix n assume "n < LENGTH(16)"
    then show "bit (ucast (flags AND 0xFFFE) :: 16 word) n = bit (ucast flags :: 16 word) n"
      using b by (simp only: bit_ucast_iff bit_and_iff m) (cases "n = 0"; auto)
  qed
  show "(ucast flags :: 16 word) AND 1 = 0"
    by (rule bit_word_eqI) (use b in \<open>auto simp: bit_simps intro: gr0I\<close>)
  show "(ucast (ucast flags :: 16 word) :: 32 word) = flags"
    by (rule bit_word_eqI, simp only: bit_ucast_iff) (use b in \<open>auto simp: not_le\<close>)
qed

lemma encode_flags_emits:
  assumes "plain_flags flags"
  shows "emits (encode_flags flags) (big_endian 2 (ucast flags :: 16 word))"
proof -
  have "encode_flags flags = puts [put_16 (ucast flags)]"
    by (subst encode_flags.simps) (simp only: plain_flags_words [OF assms] Let_def refl not_True_eq_False if_False)
  moreover have "emits (puts [put_16 (ucast flags)]) (big_endian 2 (ucast flags :: 16 word) @ [])"
    by (intro emits_intros)
  ultimately show ?thesis by simp
qed

lemma decode_flags_reads:
  assumes "plain_flags flags" and "stands (big_endian 2 (ucast flags :: 16 word)) encoded off"
  shows "decode_flags encoded off 0 0 = Some (Inr (flags, off + 2))"
proof -
  have "uint (ucast flags :: 16 word) < 2 ^ 16" using uint_lt2p [of "ucast flags :: 16 word"] by simp
  then have "shl_int (ucast flags) 0 = Some flags"
    by (simp add: shl_int_def plain_flags_words [OF assms(1)])
  then show ?thesis
    by (subst decode_flags.simps) (simp add: stands_decode(2) [OF assms(2)] plain_flags_words [OF assms(1)])
qed

section \<open>Properties\<close>

text \<open>What \<open>decoded\<close> is after the round trip, \<open>p0\<close> the memory it was decoded into.\<close>

fun overlay_properties :: "amqp_properties \<Rightarrow> amqp_basic_properties \<Rightarrow> amqp_properties" where
  "overlay_properties (Basic_properties p) p0 = Basic_properties (overlay p p0)"
| "overlay_properties p _ = p"

fun headers_ok :: "amqp_properties \<Rightarrow> bool" where
  "headers_ok (Basic_properties p) = (present (basic_flags p) 13 \<longrightarrow> table_ok (headers p))"
| "headers_ok _ = True"

text \<open>The encoder after the flag words.\<close>

fun encode_fields :: "amqp_properties \<Rightarrow> encoder" where
  "encode_fields (Basic_properties p) = encode_basic_properties (basic_flags p) p"
| "encode_fields _ = puts []"

lemma fields_codec:
  assumes "headers_ok p"
  shows "codec (encode_fields p)
    (decode_properties_switch (properties_class p) (\<lambda>_. True) p0 (properties_flags p)) (overlay_properties p p0)"
  using assms
  by (cases p) (simp_all add: decode_properties_switch_def decode_plain_properties_def basic_properties_codec
      codec_pool_alloc codec_got del: puts.simps)

interpretation fields: wire_codec encode_fields
    "\<lambda>p. decode_properties_switch (properties_class p) (\<lambda>_. True) p0 (properties_flags p)"
    headers_ok "\<lambda>p. overlay_properties p p0" for p0
  by unfold_locales (rule fields_codec)

lemma encode_properties_unfold:
  "amqp_encode_properties (properties_class p) p encoded =
     Some (return_offset (puts [encode_flags (properties_flags p), encode_fields p] encoded 0))"
  by (cases p) (auto simp: amqp_encode_properties_def return_offset_def split: sum.splits)

lemma properties_read_back:
  assumes "plain_flags (properties_flags p)" and "headers_ok p"
    and "amqp_encode_properties (properties_class p) p encoded = Some (Inr (encoded', n))"
  obtains off where "n = int_of_size_t off" and "off \<le> length encoded" and "length (take off encoded') = off"
    and "\<And>p0 rest. amqp_decode_properties (properties_class p) (\<lambda>_. True) p0 (take off encoded' @ rest) =
      Some (Inr (overlay_properties p p0))"
proof -
  let ?f = "big_endian 2 (ucast (properties_flags p) :: 16 word)"
  obtain off where e: "puts [encode_flags (properties_flags p), encode_fields p] encoded 0 = Inr (encoded', off)"
    and n: "n = int_of_size_t off"
    using assms(3) by (auto simp: encode_properties_unfold return_offset_Inr simp del: puts.simps)
  then obtain e1 o1 where "encode_fields p e1 o1 = Inr (encoded', off)"
    by (auto split: sum.splits)
  then have "\<not> (\<forall>encoded off. \<exists>st. encode_fields p encoded off = Inl st)"
    by (metis Inl_Inr_False)
  with fields.is_codec [OF assms(2)] have s: "\<exists>s. emits (encode_fields p) s \<and>
      reads_result (decode_properties_switch (properties_class p) (\<lambda>_. True) p0 (properties_flags p)) s (overlay_properties p p0)" for p0
    unfolding codec_def by blast
  have size: "off \<le> length encoded \<and> take off encoded' = ?f @ s \<and> off = length (?f @ s)" if "emits (encode_fields p) s" for s
  proof -
    have f: "emits (puts [encode_flags (properties_flags p), encode_fields p]) (?f @ s @ [])"
      by (intro emits_intros encode_flags_emits assms(1) that)
    have "?f \<noteq> []" by (simp add: big_endian_2)
    then show ?thesis using emits_result [OF f e] by (auto simp: patch_def)
  qed
  have read: "amqp_decode_properties (properties_class p) (\<lambda>_. True) p0 (take off encoded' @ rest) =
      Some (Inr (overlay_properties p p0))" for p0 rest
  proof -
    obtain s where s: "emits (encode_fields p) s"
        "reads_result (decode_properties_switch (properties_class p) (\<lambda>_. True) p0 (properties_flags p)) s (overlay_properties p p0)"
      using s by blast
    have t: "take off encoded' @ rest = ?f @ s @ rest" using conjunct1 [OF conjunct2 [OF size [OF s(1)]]] by (simp only: append_assoc)
    have "stands (?f @ s) (?f @ s @ rest) 0" by (simp add: stands_def)
    then have "stands ?f (?f @ s @ rest) 0" "stands s (?f @ s @ rest) 2"
      by (simp_all add: stands_append flip: numeral_2_eq_2)
    with decode_flags_reads [OF assms(1), of "?f @ s @ rest" 0] s(2) show ?thesis
      by (simp add: t amqp_decode_properties_def reads_result_def flip: numeral_2_eq_2)
  qed
  obtain s0 where "emits (encode_fields p) s0" using s by blast
  with size have "off \<le> length encoded" "length (take off encoded') = off" by fastforce+
  from that [OF n this read] show ?thesis .
qed

text \<open>
  C25: content header properties are a round trip: with flags among the bits the protocol
  defines and encodable headers, what \<open>amqp_encode_properties\<close> wrote is decoded, whatever
  follows it, to a structure of the same class with the same flags and the same value in every
  field that is present; a field that is not present keeps what the memory held.  The number returned
  is that of the bytes written, cast to \<open>int\<close>, and the number itself below \<open>2 ^ 31\<close>.
\<close>

theorem properties_roundtrip:
  assumes "plain_flags (properties_flags p)" and "headers_ok p"
    and "amqp_encode_properties (properties_class p) p encoded = Some (Inr (encoded', n))"
  shows "\<exists>off. n = int_of_size_t off \<and> off \<le> length encoded \<and> (off < 2 ^ 31 \<longrightarrow> n = int off) \<and>
    (\<forall>p0 rest. amqp_decode_properties (properties_class p) (\<lambda>_. True) p0 (take off encoded' @ rest) =
      Some (Inr (overlay_properties p p0)))"
  by (rule properties_read_back [OF assms]) auto

definition example_properties :: amqp_basic_properties where
  "example_properties = \<lparr>basic_flags = 0x1800, content_type = [], content_encoding = [], headers = [],
     delivery_mode = 2, priority = 9, correlation_id = [], reply_to = [], expiration = [], message_id = [],
     timestamp = 0, type_name = [], user_id = [], app_id = [], cluster_id = []\<rparr>"

theorem properties_roundtrip_witness:
  "\<exists>encoded' n. amqp_encode_properties 60 (Basic_properties example_properties) (replicate 10 0) =
      Some (Inr (encoded', n)) \<and>
    amqp_decode_properties 60 (\<lambda>_. True) example_properties (take (nat n) encoded') =
      Some (Inr (Basic_properties example_properties))"
proof -
  have f: "plain_flags (basic_flags example_properties)"
    by (simp add: plain_flags_def example_properties_def)
  have "emits (encode_fields (Basic_properties example_properties)) [2, 9]"
    unfolding encode_fields.simps encode_basic_properties_def
    by (rule emits_cong, (simp only: put_if_def example_properties_def present_def amqp_basic_properties.simps)?,
        (simp del: puts.simps)?, (rule emits_intros)+, simp)
  with encode_flags_emits [OF f] have "emits (puts [encode_flags (properties_flags (Basic_properties example_properties)),
      encode_fields (Basic_properties example_properties)]) (big_endian 2 (0x1800 :: 16 word) @ [2, 9] @ [])"
    by (intro emits_intros) (simp_all add: example_properties_def)
  from emitsD [OF this, of 0 "replicate 10 0"] obtain encoded' n
    where e: "amqp_encode_properties (properties_class (Basic_properties example_properties))
        (Basic_properties example_properties) (replicate 10 0) = Some (Inr (encoded', n))"
    unfolding encode_properties_unfold by simp
  have "overlay example_properties example_properties = example_properties"
    by (simp add: overlay_def example_properties_def Let_def)
  moreover obtain off where off: "n = int_of_size_t off" "off \<le> 10"
      "\<And>p0 rest. amqp_decode_properties 60 (\<lambda>_. True) p0 (take off encoded' @ rest) =
        Some (Inr (overlay_properties (Basic_properties example_properties) p0))"
    using properties_roundtrip [OF _ _ e] f by (auto simp: example_properties_def table_ok_def)
  moreover from off(1,2) have "nat n = off" by simp
  ultimately show ?thesis using e off(3) [of example_properties "[]"]
    by (intro exI [of _ encoded'] exI [of _ n]) simp
qed

text \<open>
  a peer can send a header on which \<open>amqp_decode_properties\<close> has no defined behaviour:
  after two flag words that announce another, the third is shifted by 32 bits, the width of the
  type (or the second already out of the range of an \<open>int\<close>), whatever the class, the words
  themselves and the bytes behind them.
\<close>

theorem decode_properties_shift_undefined:
  assumes "w0 AND 1 \<noteq> (0 :: 16 word)" and "w1 AND 1 \<noteq> (0 :: 16 word)"
  shows "amqp_decode_properties class_id alloc p0
    (big_endian 2 w0 @ big_endian 2 w1 @ big_endian 2 (w2 :: 16 word) @ rest) = None"
proof -
  let ?e = "big_endian 2 w0 @ big_endian 2 w1 @ big_endian 2 w2 @ rest"
  have s: "amqp_decode_16 ?e 0 = Some (w0, 2)" "amqp_decode_16 ?e 2 = Some (w1, 4)"
    "amqp_decode_16 ?e 4 = Some (w2, 6)"
    using stands_decode(2) [of w0 ?e 0] stands_decode(2) [of w1 ?e 2] stands_decode(2) [of w2 ?e 4]
    by (simp_all add: stands_def)
  have "decode_flags ?e 4 2 f = None" for f
    by (subst decode_flags.simps) (simp add: s shl_int_def)
  then have "decode_flags ?e 2 1 f = None" for f
    using assms(2) by (subst decode_flags.simps) (simp add: s split: option.split flip: numeral_2_eq_2)
  moreover have "shl_int w0 0 = Some (ucast w0)"
    using uint_lt2p [of w0] by (simp add: shl_int_def)
  ultimately have "decode_flags ?e 0 0 0 = None"
    using assms(1) by (subst decode_flags.simps) (simp add: s)
  then show ?thesis by (simp add: amqp_decode_properties_def)
qed

theorem decode_properties_shift_undefined_witness:
  "amqp_decode_properties 60 (\<lambda>_. True) example_properties
    (big_endian 2 (1 :: 16 word) @ big_endian 2 (1 :: 16 word) @ big_endian 2 (0 :: 16 word) @ []) = None"
  by (rule decode_properties_shift_undefined) simp_all

end
