(* ===== verification/AMQP_Frame_Correct.thy ===== *)
theory AMQP_Frame_Correct
  imports AMQP_Stream AMQP_Framing_Correct AMQP_Properties_Correct
begin

text \<open>
  Frames from one connection to the other: what \<open>amqp_frame_to_bytes\<close> writes is cut and decoded
  by the receiving side, frame by frame and for a whole conversation.
\<close>

section \<open>The bytes of a frame\<close>

definition wire_frame :: "byte \<Rightarrow> 16 word \<Rightarrow> bytes \<Rightarrow> bytes" where
  "wire_frame t c payload = frame_header t c (length payload) @ payload @ amqp_e8 206"

lemma wire_frame_length [simp]: "length (wire_frame t c payload) = length payload + 8"
  by (simp add: wire_frame_def frame_header_def amqp_e8_def amqp_e16_eq amqp_e32_eq)

lemma raw_at_split: "length a = off \<Longrightarrow> length b = n \<Longrightarrow> raw_at (a @ b @ c) off n = Some b"
  by (simp add: raw_at_def)

lemma amqp_e_length [simp]: "length (amqp_e16 big v) = 2" "length (amqp_e32 big w) = 4" "length (amqp_e64 big x) = 8"
  by (simp_all add: amqp_e16_eq amqp_e32_eq amqp_e64_eq)

lemma frame_header_length [simp]: "length (frame_header t c n) = 7"
  by (simp add: frame_header_def amqp_e8_def amqp_e16_eq amqp_e32_eq)

lemma wire_frame_end: "raw_at (wire_frame t c payload) (length payload + 8 - 1) 1 = Some [206]"
  using raw_at_split [of "frame_header t c (length payload) @ payload" "length payload + 7" "[206]" 1 "[]"]
  by (simp add: wire_frame_def amqp_e8_def add.commute)

lemma wire_frame_parts:
  "raw_at (wire_frame t c payload) 0 1 = Some [t]"
  "raw_at (wire_frame t c payload) 1 2 = Some (big_endian 2 c)"
  "take 4 (drop 3 (wire_frame t c payload)) = big_endian 4 (word_of_nat (length payload) :: 32 word)"
  by (simp_all add: wire_frame_def frame_header_def amqp_e8_def amqp_e16_eq amqp_e32_eq raw_at_def)

lemma wire_frame_payload:
  "raw_at (wire_frame t c (a @ b @ r)) (HEADER_SIZE + length a) (length b) = Some b"
  using raw_at_split [of "frame_header t c (length (a @ b @ r)) @ a" "7 + length a" b "length b" "r @ amqp_e8 206"]
  by (simp add: wire_frame_def HEADER_SIZE_def)

lemma wire_frame_received:
  assumes "int (length payload + 8) \<le> limit" and "limit < 2 ^ 31"
  shows "receive limit (wire_frame t c payload) = Complete (length payload + 8)"
proof -
  have "unat (word_of_nat (length payload) :: 32 word) = length payload"
    using assms by (intro unat_word_of_nat) simp
  then have "stated_size (wire_frame t c payload) = length payload"
    by (simp add: stated_size_def wire_frame_parts)
  then show ?thesis using assms by (simp add: receive_def needed_def)
qed

section \<open>One frame\<close>

text \<open>
  What can be sent, and what arrives for it: the frame itself, except that the properties of a
  header frame leave their absent fields as the receiver's memory held them, and that the receiver
  keeps the encoded properties.
\<close>

fun sendable :: "amqp_frame \<Rightarrow> bool" where
  "sendable (Method_frame c i m) \<longleftrightarrow> i = method_number m \<and> (\<forall>t \<in> set (method_tables m). table_ok t)"
| "sendable (Header_frame c k n p raw) \<longleftrightarrow> k = properties_class p \<and> plain_flags (properties_flags p) \<and> headers_ok p"
| "sendable (Body_frame c body) \<longleftrightarrow> True"
| "sendable (Heartbeat_frame c) \<longleftrightarrow> True"
| "sendable (Protocol_header_frame _ _ _ _) \<longleftrightarrow> False"
| "sendable No_frame \<longleftrightarrow> False"

fun arrives :: "amqp_basic_properties \<Rightarrow> amqp_frame \<Rightarrow> amqp_frame \<Rightarrow> bool" where
  "arrives p0 (Header_frame c k n p raw) g \<longleftrightarrow> (\<exists>raw'. g = Header_frame c k n (overlay_properties p p0) raw')"
| "arrives p0 f g \<longleftrightarrow> g = f"

lemma arrives_frame: "arrives p0 f g \<Longrightarrow> sendable f \<Longrightarrow> g \<noteq> No_frame"
  by (cases f) auto

lemma decode_wire_frame:
  assumes "\<forall>c. pool c"
  shows "decode_raw_frame pool alloc p0 (wire_frame 1 c (amqp_e32 is_bigendian i @ e)) (length e + 12) =
      Some (case amqp_decode_method i alloc e of Inl s \<Rightarrow> Inl s | Inr m \<Rightarrow> Inr (Method_frame c i m))"
    and "decode_raw_frame pool alloc p0
        (wire_frame 2 c (amqp_e16 is_bigendian k @ amqp_e16 is_bigendian 0 @ amqp_e64 is_bigendian n @ e)) (length e + 20) =
      do { r \<leftarrow> amqp_decode_properties k alloc p0 e;
           Some (case r of Inl s \<Rightarrow> Inl s | Inr p \<Rightarrow> Inr (Header_frame c k n p e)) }"
    and "decode_raw_frame pool alloc p0 (wire_frame 3 c e) (length e + 8) = Some (Inr (Body_frame c e))"
    and "decode_raw_frame pool alloc p0 (wire_frame 8 c []) 8 = Some (Inr (Heartbeat_frame c))"
proof -
  let ?i = "amqp_e32 is_bigendian i" and ?k = "amqp_e16 is_bigendian k" and ?n = "amqp_e64 is_bigendian n"
  let ?h = "?k @ amqp_e16 is_bigendian 0 @ ?n"
  note e = amqp_e16_eq amqp_e32_eq amqp_e64_eq
  have "raw_at (wire_frame 1 c (?i @ e)) HEADER_SIZE 4 = Some ?i"
    "raw_at (wire_frame 1 c (?i @ e)) (HEADER_SIZE + 4) (length e) = Some e"
    using wire_frame_payload [of 1 c "[]" ?i e] wire_frame_payload [of 1 c ?i e "[]"] by (simp_all add: e)
  then show "decode_raw_frame pool alloc p0 (wire_frame 1 c (?i @ e)) (length e + 12) =
      Some (case amqp_decode_method i alloc e of Inl s \<Rightarrow> Inl s | Inr m \<Rightarrow> Inr (Method_frame c i m))"
    using assms wire_frame_end [of 1 c "?i @ e"] wire_frame_parts [of 1 c "?i @ e"]
    by (simp add: decode_raw_frame_def size_minus_def e amqp_d8_def HEADER_SIZE_def FOOTER_SIZE_def)
  have "raw_at (wire_frame 2 c (?h @ e)) HEADER_SIZE 2 = Some ?k"
    "raw_at (wire_frame 2 c (?h @ e)) (HEADER_SIZE + 4) 8 = Some ?n"
    "raw_at (wire_frame 2 c (?h @ e)) (HEADER_SIZE + 12) (length e) = Some e"
    using wire_frame_payload [of 2 c "[]" ?k "amqp_e16 is_bigendian 0 @ ?n @ e"]
      wire_frame_payload [of 2 c "?k @ amqp_e16 is_bigendian 0" ?n e] wire_frame_payload [of 2 c ?h e "[]"]
    by (simp_all add: e)
  then show "decode_raw_frame pool alloc p0 (wire_frame 2 c (?k @ amqp_e16 is_bigendian 0 @ ?n @ e)) (length e + 20) =
      do { r \<leftarrow> amqp_decode_properties k alloc p0 e;
           Some (case r of Inl s \<Rightarrow> Inl s | Inr p \<Rightarrow> Inr (Header_frame c k n p e)) }"
    using assms wire_frame_end [of 2 c "?h @ e"] wire_frame_parts [of 2 c "?h @ e"]
    by (simp add: decode_raw_frame_def size_minus_def e amqp_d8_def HEADER_SIZE_def FOOTER_SIZE_def cong: sum.case_cong)
  have "raw_at (wire_frame 3 c e) HEADER_SIZE (length e) = Some e"
    using wire_frame_payload [of 3 c "[]" e "[]"] by simp
  then show "decode_raw_frame pool alloc p0 (wire_frame 3 c e) (length e + 8) = Some (Inr (Body_frame c e))"
    using assms wire_frame_end [of 3 c e] wire_frame_parts [of 3 c e]
    by (simp add: decode_raw_frame_def size_minus_def e amqp_d8_def HEADER_SIZE_def FOOTER_SIZE_def)
  show "decode_raw_frame pool alloc p0 (wire_frame 8 c []) 8 = Some (Inr (Heartbeat_frame c))"
    using assms wire_frame_end [of 8 c "[]"] wire_frame_parts [of 8 c "[]"]
    by (simp add: decode_raw_frame_def amqp_d8_def)
qed

text \<open>Every frame that is written is such a frame, and decoded as itself.\<close>

lemma frame_to_bytes_wire:
  assumes "amqp_frame_to_bytes f buffer = Some (Inr bs)" and "sendable f" and "\<forall>c. pool c" and "alloc = (\<lambda>_. True)"
    and "length buffer < 2 ^ 31"
  obtains t payload g where "bs = wire_frame t (frame_channel f) payload"
    and "decode_raw_frame pool alloc p0 bs (length bs) = Some (Inr g)" and "arrives p0 f g"
proof (cases f)
  case (Method_frame c i m)
  let ?buf = "take (length buffer - (HEADER_SIZE + 4 + FOOTER_SIZE)) (drop (HEADER_SIZE + 4) buffer)"
  from assms(1) Method_frame obtain e' res len where e: "amqp_encode_method i m ?buf = Some (Inr (e', res))"
    and len: "cint (res + 4) = Some len"
    and bs: "bs = frame_header 1 c (nat len) @ amqp_e32 is_bigendian i @ take (nat res) e' @ amqp_e8 206"
    by (auto simp: amqp_frame_to_bytes_def Let_def split: if_splits sum.splits bind_splits)
  have i: "i = method_number m" and t: "\<forall>t \<in> set (method_tables m). table_ok t" using assms(2) Method_frame by auto
  obtain n where n: "res = int_of_size_t n" "n \<le> length ?buf" "length (take n e') = n"
    and read: "\<And>rest. amqp_decode_method i (\<lambda>_. True) (take n e' @ rest) = Inr m"
    using method_read_back [OF t e [unfolded i]] i by metis
  have res: "res = int n" using n(1,2) assms(5) by simp
  then have size: "nat len = n + 4" using len by (auto simp: cint_def split: if_splits)
  have "bs = wire_frame 1 c (amqp_e32 is_bigendian i @ take n e')"
    using n(3) by (simp add: bs size res wire_frame_def amqp_e32_eq add.commute)
  moreover have "length bs = length (take n e') + 12" by (simp add: bs size res n(3) amqp_e32_eq amqp_e8_def)
  ultimately show ?thesis
    using that [of 1 "amqp_e32 is_bigendian i @ take n e'" f] decode_wire_frame(1) [OF assms(3), of alloc p0 c i "take n e'"]
      read [of "[]"] n(3) Method_frame i assms(4) by (simp add: add.commute)
next
  case (Header_frame c k sz p raw)
  let ?buf = "take (length buffer - (HEADER_SIZE + 12 + FOOTER_SIZE)) (drop (HEADER_SIZE + 12) buffer)"
  let ?h = "\<lambda>s. amqp_e16 is_bigendian k @ amqp_e16 is_bigendian 0 @ amqp_e64 is_bigendian sz @ s"
  from assms(1) Header_frame obtain e' res len where e: "amqp_encode_properties k p ?buf = Some (Inr (e', res))"
    and len: "cint (res + 12) = Some len"
    and bs: "bs = frame_header 2 c (nat len) @ ?h (take (nat res) e' @ amqp_e8 206)"
    by (auto simp: amqp_frame_to_bytes_def Let_def split: if_splits sum.splits bind_splits)
  have k: "k = properties_class p" and p: "plain_flags (properties_flags p)" "headers_ok p"
    using assms(2) Header_frame by auto
  obtain n where n: "res = int_of_size_t n" "n \<le> length ?buf" "length (take n e') = n"
    and read: "\<And>p0 rest. amqp_decode_properties k (\<lambda>_. True) p0 (take n e' @ rest) = Some (Inr (overlay_properties p p0))"
    using properties_read_back [OF p e [unfolded k]] k by metis
  have res: "res = int n" using n(1,2) assms(5) by simp
  then have size: "nat len = n + 12" using len by (auto simp: cint_def split: if_splits)
  have "bs = wire_frame 2 c (?h (take n e'))"
    using n(3) by (simp add: bs size res wire_frame_def amqp_e16_eq amqp_e64_eq add.commute)
  moreover have "length bs = length (take n e') + 20" by (simp add: bs size res n(3) amqp_e16_eq amqp_e64_eq amqp_e8_def)
  ultimately show ?thesis
    using that [of 2 "?h (take n e')" "Header_frame c k sz (overlay_properties p p0) (take n e')"]
      decode_wire_frame(2) [OF assms(3), of alloc p0 c k sz "take n e'"]
      read [of p0 "[]"] n(3) Header_frame k assms(4) by (simp add: add.commute)
next
  case (Body_frame c body)
  then have "bs = wire_frame 3 c body"
    using assms(1) by (simp add: amqp_frame_to_bytes_def wire_frame_def split: if_splits)
  then show ?thesis
    using that [of 3 body f] decode_wire_frame(3) [OF assms(3), of alloc p0 c body] Body_frame by simp
next
  case (Heartbeat_frame c)
  then have "bs = wire_frame 8 c []"
    using assms(1) by (simp add: amqp_frame_to_bytes_def wire_frame_def split: if_splits)
  then show ?thesis
    using that [of 8 "[]" f] decode_wire_frame(4) [OF assms(3), of alloc p0 c] Heartbeat_frame by simp
qed (use assms(2) in auto)

section \<open>A conversation\<close>

lemma wire_frames_parsed:
  assumes "\<forall>c. pool c" and "alloc = (\<lambda>_. True)" and "limit < 2 ^ 31"
    and "list_all2 (\<lambda>f bs. sendable f \<and> (\<exists>buffer. length buffer < 2 ^ 31 \<and> amqp_frame_to_bytes f buffer = Some (Inr bs)) \<and> int (length bs) \<le> limit) fs ws"
  shows "\<exists>gs. parse_stream (decode_raw_frame pool alloc p0) limit (concat ws) = Some (Inr (gs, [])) \<and> list_all2 (arrives p0) fs gs \<and>
    (\<forall>g \<in> set gs. g \<noteq> No_frame)"
  using assms(4)
proof (induction rule: list_all2_induct)
  case Nil
  then show ?case by (simp add: parse_More)
next
  case (Cons f fs bs ws)
  then obtain gs buffer where gs: "parse_stream (decode_raw_frame pool alloc p0) limit (concat ws) = Some (Inr (gs, []))"
      "list_all2 (arrives p0) fs gs" "\<forall>g \<in> set gs. g \<noteq> No_frame"
    and f: "sendable f" "amqp_frame_to_bytes f buffer = Some (Inr bs)" "int (length bs) \<le> limit" "length buffer < 2 ^ 31"
    by blast
  obtain t payload g where g: "bs = wire_frame t (frame_channel f) payload"
    "decode_raw_frame pool alloc p0 bs (length bs) = Some (Inr g)" "arrives p0 f g"
    by (rule frame_to_bytes_wire [OF f(2,1) assms(1,2) f(4)])
  have "receive limit bs = Complete (length bs)"
    using wire_frame_received [of payload limit t "frame_channel f"] f(3) assms(3) g(1) by simp
  then have "receive limit (bs @ concat ws) = Complete (length bs)" by (rule receive_append_Complete)
  then have "parse_stream (decode_raw_frame pool alloc p0) limit (bs @ concat ws) = Some (Inr (g # gs, []))"
    using g(2) gs(1) by (subst parse_stream.simps) simp
  then show ?case using g(3) gs(2,3) arrives_frame [OF g(3) f(1)] by auto
qed

text \<open>
  C2: A conversation arrives: frames that \<open>amqp_frame_to_bytes\<close> wrote, into a buffer of less than \<open>2 ^ 31\<close> bytes as
  that of a connection is (its size is an \<open>int\<close>), each within the frame limit, sent one
  after the other and cut into reads of the socket in any way, are queued by the receiving
  connection in the same order, every method, body and heartbeat equal to the one that was sent and
  every header with the same class, size and present properties; nothing is left over.
\<close>

theorem conversation_arrives:
  assumes "granted pool (\<lambda>_. True) mem" and "0 \<le> frame_max st" and "frame_max st < 2 ^ 31"
    and "receiving st []" and "\<not> amqp_data_in_buffer st" and "sock_ok st"
    and "list_all2 (\<lambda>f bs. sendable f \<and> (\<exists>buffer. length buffer < 2 ^ 31 \<and> amqp_frame_to_bytes f buffer = Some (Inr bs)) \<and>
           int (length bs) \<le> frame_max st) fs ws"
    and "concat pieces = concat ws" and "\<forall>d \<in> set pieces. length d \<le> length (sock_inbound_buffer st)"
  shows "\<exists>st' gs. recv_chunks pool (\<lambda>_. True) (amqp_handle_input pool (\<lambda>_. True) mem p0) pieces st = Some (Inr (), st') \<and>
    receiving st' [] \<and> queued_frames st' = queued_frames st @ gs \<and> list_all2 (arrives p0) fs gs"
proof -
  have pool: "\<forall>c. pool c" using assms(1) by (simp add: granted_def)
  obtain gs where gs: "parse_stream (decode_raw_frame pool (\<lambda>_. True) p0) (frame_max st) (concat ws) = Some (Inr (gs, []))"
      "list_all2 (arrives p0) fs gs" "\<forall>g \<in> set gs. g \<noteq> No_frame"
    using wire_frames_parsed [OF pool refl assms(3,7)] by blast
  have "unread st = []" using assms(5,6) by (simp add: data_in_buffer_iff)
  then have "\<exists>st'. recv_chunks pool (\<lambda>_. True) (amqp_handle_input pool (\<lambda>_. True) mem p0) pieces st = Some (Inr (), st') \<and>
    receiving st' [] \<and> unread st' = [] \<and> queued_frames st' = queued_frames st @ filter is_frame gs"
    by (intro recv_chunks_parse [OF assms(1-3) refl assms(4,6,9)]) (simp add: assms(8) gs(1))
  moreover have "filter is_frame gs = gs" using gs(3) by (simp add: is_frame_def)
  ultimately show ?thesis using gs(2) by auto
qed

text \<open>A body and a heartbeat, read in two pieces.\<close>

theorem conversation_arrives_witness:
  "\<exists>st' gs. recv_chunks (\<lambda>_. True) (\<lambda>_. True) (amqp_handle_input (\<lambda>_. True) (\<lambda>_. True) (\<lambda>n. replicate n 0) clear_properties)
      [[3, 0, 1, 0, 0, 0], [1, 77, 0xCE, 8, 0, 0, 0, 0, 0, 0, 0xCE]] (idle_connection 4096) = Some (Inr (), st') \<and>
    receiving st' [] \<and> queued_frames st' = queued_frames (idle_connection 4096) @ gs \<and>
    list_all2 (arrives clear_properties) [Body_frame 1 [77], Heartbeat_frame 0] gs"
proof (rule conversation_arrives)
  have "amqp_frame_to_bytes (Body_frame 1 [77]) (replicate 16 0) = Some (Inr [3, 0, 1, 0, 0, 0, 1, 77, 0xCE])"
    "amqp_frame_to_bytes (Heartbeat_frame 0) (replicate 16 0) = Some (Inr [8, 0, 0, 0, 0, 0, 0, 0xCE])"
    by code_simp+
  then show "list_all2 (\<lambda>f bs. sendable f \<and> (\<exists>buffer. length buffer < 2 ^ 31 \<and> amqp_frame_to_bytes f buffer = Some (Inr bs)) \<and>
      int (length bs) \<le> frame_max (idle_connection 4096)) [Body_frame 1 [77], Heartbeat_frame 0]
      [[3, 0, 1, 0, 0, 0, 1, 77, 0xCE], [8, 0, 0, 0, 0, 0, 0, 0xCE]]"
    by (auto simp: idle_connection_def return_to_idle_def intro!: exI [of _ "replicate 16 0"])
qed (simp_all add: granted_def idle_connection_receiving,
    simp_all add: idle_connection_def return_to_idle_def amqp_data_in_buffer_def sock_ok_def)

end
