(* ===== verification/AMQP_Connection_Errors.thy ===== *)
theory AMQP_Connection_Errors
  imports AMQP_Frame_Correct
begin

text \<open>
  Where the connection goes wrong: inputs of a peer on which the receiving code has no defined
  behaviour, and frames that a wait for a channel loses.
\<close>

section \<open>Frames that are too short for their type\<close>

lemma decode_short_frame:
  assumes "\<forall>c. pool c" and "t = 1 \<and> length payload < 4 \<or> t = 2 \<and> length payload < 12"
  shows "decode_raw_frame pool alloc p0 (wire_frame t c payload) (length payload + 8) = None"
proof -
  have len: "length (wire_frame t c payload) < 2 ^ 63" using assms(2) by auto
  have wrap: "raw_at (wire_frame t c payload) off (size_minus (length payload + 8) n) = None"
    if "length payload + 8 < n" "n \<le> 20" for off n
    using that len by (simp add: raw_at_def size_minus_def)
  show ?thesis
    using assms wrap [of 12 11] wrap [of 20 19] wire_frame_end [of t c payload] wire_frame_parts [of t c payload]
    by (elim disjE)
      (simp_all add: decode_raw_frame_def amqp_d8_def HEADER_SIZE_def FOOTER_SIZE_def Let_def bind_eq_None_conv)
qed

text \<open>
  A frame that a peer may send and the size check admits makes the length of its rest wrap: a
  method frame of fewer than 4 or a header frame of fewer than 12 bytes of payload.  The decoder
  is then given a length of almost \<open>2 ^ 64\<close> bytes, on which the code has no defined behaviour.
\<close>

theorem short_frame_undefined:
  assumes "granted pool alloc mem" and "receiving st []" and "20 \<le> frame_max st" and "frame_max st < 2 ^ 31"
    and "t = 1 \<and> length payload < 4 \<or> t = 2 \<and> length payload < 12"
  shows "amqp_handle_input pool alloc mem p0 st (wire_frame t c payload) = None"
proof -
  have "answers (decode_raw_frame pool alloc p0) st [] (wire_frame t c payload) 0
      (amqp_handle_input pool alloc mem p0 st (wire_frame t c payload))"
    by (rule handle_input_step [OF assms(1) _ assms(4,2)]) (use assms(3) in \<open>auto simp flip: length_0_conv\<close>)
  moreover have "receive (frame_max st) (wire_frame t c payload) = Complete (length payload + 8)"
    by (rule wire_frame_received [OF _ assms(4)]) (use assms(3,5) in auto)
  moreover have "decode_raw_frame pool alloc p0 (wire_frame t c payload) (length payload + 8) = None"
    by (rule decode_short_frame [OF _ assms(5)]) (use assms(1) in \<open>simp add: granted_def\<close>)
  ultimately show ?thesis by (simp add: answers_def)
qed

text \<open>A method frame without a payload.\<close>

theorem short_frame_undefined_witness:
  "amqp_handle_input (\<lambda>_. True) (\<lambda>_. True) (\<lambda>n. replicate n 0) clear_properties (idle_connection 4096)
     [1, 0, 0, 0, 0, 0, 0, 0xCE] = None"
proof -
  have "wire_frame 1 0 [] = [1, 0, 0, 0, 0, 0, 0, 0xCE]" by code_simp
  then show ?thesis
    using short_frame_undefined [of "\<lambda>_. True" "\<lambda>_. True" "\<lambda>n. replicate n 0" "idle_connection 4096" 1 "[]" clear_properties 0]
    by (simp add: granted_def idle_connection_receiving) (simp add: idle_connection_def return_to_idle_def)
qed

section \<open>After a frame that is too large\<close>

text \<open>
  A frame above the limit is refused, but its size stays in \<open>target_size\<close> while the state
  still collects a header: the next two or more bytes of input are written past the end of the
  8 bytes of \<open>header_buffer\<close>.
\<close>

theorem refused_frame_then_overflow:
  assumes "receiving st []" and "8 \<le> frame_max st" and "frame_max st < 2 ^ 31"
    and "length w = 7" and "stated_size w < 2 ^ 31 - 1" and "frame_max st < int (needed w)"
  shows "\<exists>st'. amqp_handle_input pool alloc mem p0 st w = Some (Inl STATUS_BAD_AMQP_DATA, No_frame, st') \<and>
    (\<forall>more. 2 \<le> length more \<longrightarrow> amqp_handle_input pool alloc mem p0 st' more = None)"
proof -
  let ?st = "st\<lparr>conn_state := CONNECTION_STATE_HEADER\<rparr>"
  have st: "inbound_buffer ?st = None" "length (header_buffer ?st) = 8" "inbound_offset ?st = 0"
    "target_size ?st = 7" "conn_state st = CONNECTION_STATE_IDLE"
    using assms(1) by (auto simp: receiving_def)
  obtain b' where c: "consume_data ?st w = Some (?st\<lparr>header_buffer := b', inbound_offset := 7\<rparr>, [], 7)"
    and b': "length b' = 8" "take 7 b' = w"
    using consume_header [of ?st "[]" w] st assms(4) by auto
  have raw: "raw_at b' 1 2 = Some (take 2 (drop 1 w))" "raw_at b' 3 4 = Some (take 4 (drop 3 w))"
    unfolding b'(2) [symmetric] using b'(1) by (simp_all add: raw_at_def drop_take)
  have fm: "frame_max st mod 18446744073709551616 = frame_max st" using assms(2,3) by simp
  let ?st' = "?st\<lparr>header_buffer := b', inbound_offset := 7, target_size := needed w\<rparr>"
  have "stated_size w + HEADER_SIZE + FOOTER_SIZE = needed w"
    by (simp add: needed_def HEADER_SIZE_def FOOTER_SIZE_def)
  then have "handle_header pool alloc mem p0 (?st\<lparr>header_buffer := b', inbound_offset := 7\<rparr>) [] 7 =
      Some (Inl STATUS_BAD_AMQP_DATA, No_frame, ?st')"
    using raw fm assms(5,6) st(1) by (simp add: handle_header_def raw_frame_def Let_def stated_size_def)
  then have "amqp_handle_input pool alloc mem p0 st w = Some (Inl STATUS_BAD_AMQP_DATA, No_frame, ?st')"
    using c st(4,5) assms(4) by (auto simp: amqp_handle_input_def Let_def)
  moreover have "amqp_handle_input pool alloc mem p0 ?st' more = None" if "2 \<le> length more" for more
  proof -
    have "2 \<le> needed w - 7" using assms(2,6) by simp
    then have "consume_data ?st' more = None"
      using that b'(1) st(1) by (auto simp: consume_data_def raw_frame_def size_minus_def Let_def)
    then show ?thesis using that by (auto simp: amqp_handle_input_def Let_def)
  qed
  ultimately show ?thesis by blast
qed

theorem refused_frame_then_overflow_witness:
  "\<exists>st'. amqp_handle_input (\<lambda>_. True) (\<lambda>_. True) (\<lambda>n. replicate n 0) clear_properties (idle_connection 4096) [3, 0, 1, 0, 0, 0x10, 0] =
      Some (Inl STATUS_BAD_AMQP_DATA, No_frame, st') \<and>
    (\<forall>more. 2 \<le> length more \<longrightarrow>
      amqp_handle_input (\<lambda>_. True) (\<lambda>_. True) (\<lambda>n. replicate n 0) clear_properties st' more = None)"
proof (rule refused_frame_then_overflow)
  have "stated_size [3, 0, 1, 0, 0, 0x10, 0] = 4096" by code_simp
  then show "stated_size [3, 0, 1, 0, 0, 0x10, 0] < 2 ^ 31 - 1"
    "frame_max (idle_connection 4096) < int (needed [3, 0, 1, 0, 0, 0x10, 0])"
    by (simp_all add: needed_def idle_connection_def return_to_idle_def)
qed (simp_all add: idle_connection_receiving, simp_all add: idle_connection_def return_to_idle_def)

section \<open>The queue\<close>

lemma queued_on_channel_split:
  "\<forall>f \<in> set before. frame_channel f \<noteq> c \<Longrightarrow> frame_channel g = c \<Longrightarrow>
   queued_on_channel c (before @ g # rest) = Some (g, rest)"
  by (induction before) auto

lemma queued_on_channel_none: "\<forall>f \<in> set q. frame_channel f \<noteq> c \<Longrightarrow> queued_on_channel c q = None"
  by (induction q) auto

text \<open>
  The queue is first in, first out for \<open>amqp_queue_frame\<close> and \<open>amqp_simple_wait_frame\<close>, and a
  frame that was put back is the next one out; but a wait for a channel, which finds the first
  queued frame of the channel, removes it together with every frame queued before it: these frames
  of the other channels are lost.
\<close>

theorem wait_on_channel_loses_frames:
  assumes "granted pool alloc mem" and "\<forall>f \<in> set before. frame_channel f \<noteq> c" and "frame_channel g = c"
  shows "amqp_queue_frame pool alloc st f = (Inr (), st\<lparr>queued_frames := queued_frames st @ [f]\<rparr>) \<and>
    wait_frame_queued (st\<lparr>queued_frames := f # rest\<rparr>) = Some (f, st\<lparr>queued_frames := rest\<rparr>) \<and>
    wait_frame_queued (snd (amqp_put_back_frame pool alloc st f)) = Some (f, st) \<and>
    wait_frame_on_channel_queued c (st\<lparr>queued_frames := before @ g # rest\<rparr>) = Some (g, st\<lparr>queued_frames := rest\<rparr>) \<and>
    wait_frame_on_channel_queued c (st\<lparr>queued_frames := before\<rparr>) = None"
  using assms(1) queued_on_channel_none [OF assms(2)]
  by (simp add: granted_def amqp_queue_frame_def amqp_put_back_frame_def amqp_create_link_for_frame_def
      wait_frame_queued_def wait_frame_on_channel_queued_def queued_on_channel_split [OF assms(2,3)])

theorem wait_on_channel_loses_frames_witness:
  "wait_frame_on_channel_queued 2 ((idle_connection 4096)\<lparr>queued_frames := [Body_frame 1 [7]] @ Heartbeat_frame 2 # []\<rparr>) =
     Some (Heartbeat_frame 2, (idle_connection 4096)\<lparr>queued_frames := []\<rparr>)"
  using wait_on_channel_loses_frames [of "\<lambda>_. True" "\<lambda>_. True" "\<lambda>n. replicate n 0" "[Body_frame 1 [7]]" 2 "Heartbeat_frame 2"
    "idle_connection 4096" No_frame "[]"]
  by (simp add: granted_def)

end
