(* ===== verification/C_String.thy ===== *)
theory C_String
  imports Prelude
begin

text \<open>
  C strings: a string is the list of its characters without the terminator, a pointer into it an index or
  a rest of the list, and \<open>*p\<close> at the end of a string is the character 0.
\<close>

definition NUL :: char where
  "NUL = CHR 0x00"

definition c_char :: "string \<Rightarrow> char" where
  "c_char s = (case s of [] \<Rightarrow> NUL | c # cs \<Rightarrow> c)"

text \<open>A C string has no character 0.\<close>

abbreviation c_string :: "string \<Rightarrow> bool" where
  "c_string s \<equiv> NUL \<notin> set s"

end
