(* ===== verification/AMQP_Hostcheck.thy ===== *)
theory AMQP_Hostcheck
  imports C_String
begin

text \<open>
  \<open>amqp_hostcheck.c\<close>: does the name in a certificate, which may have a wildcard, match the name of the
  host?
\<close>

section \<open>The code\<close>

text \<open>The 26 cases of the switch.\<close>

definition upper_table :: "(char \<times> char) list" where
  "upper_table = zip ''abcdefghijklmnopqrstuvwxyz'' ''ABCDEFGHIJKLMNOPQRSTUVWXYZ''"

definition amqp_raw_toupper :: "char \<Rightarrow> char" where
  "amqp_raw_toupper c = (case map_of upper_table c of Some d \<Rightarrow> d | None \<Rightarrow> c)"

fun amqp_raw_equal :: "string \<Rightarrow> string \<Rightarrow> bool" where
  "amqp_raw_equal (x # xs) (y # ys) =
     (if amqp_raw_toupper x \<noteq> amqp_raw_toupper y then amqp_raw_toupper x = amqp_raw_toupper y else amqp_raw_equal xs ys)"
| "amqp_raw_equal xs ys = (amqp_raw_toupper (c_char xs) = amqp_raw_toupper (c_char ys))"

fun amqp_raw_nequal :: "string \<Rightarrow> string \<Rightarrow> nat \<Rightarrow> bool" where
  "amqp_raw_nequal (x # xs) (y # ys) (Suc m) =
     (if amqp_raw_toupper x \<noteq> amqp_raw_toupper y then amqp_raw_toupper x = amqp_raw_toupper y else amqp_raw_nequal xs ys m)"
| "amqp_raw_nequal xs ys m = (if m = 0 then True else amqp_raw_toupper (c_char xs) = amqp_raw_toupper (c_char ys))"

definition strchr :: "string \<Rightarrow> char \<Rightarrow> nat option" where
  "strchr s c = (if c \<in> set s then Some (length (takeWhile (\<lambda>x. x \<noteq> c) s)) else None)"

datatype hostcheck_result = AMQP_HCR_NO_MATCH | AMQP_HCR_MATCH

definition match_if :: "bool \<Rightarrow> hostcheck_result" where
  "match_if b = (if b then AMQP_HCR_MATCH else AMQP_HCR_NO_MATCH)"

text \<open>At least two dots, the wildcard in the first label, and not an internationalised label.\<close>

definition wildcard_enabled :: "string \<Rightarrow> nat \<Rightarrow> nat option \<Rightarrow> bool" where
  "wildcard_enabled pattern pattern_wildcard pattern_label_end = (case pattern_label_end of
      None \<Rightarrow> False
    | Some label_end \<Rightarrow> \<not> (strchr (drop (label_end + 1) pattern) CHR ''.'' = None \<or> pattern_wildcard > label_end \<or>
        amqp_raw_nequal pattern ''xn--'' 4))"

definition amqp_hostmatch :: "string \<Rightarrow> string \<Rightarrow> hostcheck_result" where
  "amqp_hostmatch hostname pattern = (case strchr pattern CHR ''*'' of
      None \<Rightarrow> match_if (amqp_raw_equal pattern hostname)
    | Some pattern_wildcard \<Rightarrow>
        if \<not> wildcard_enabled pattern pattern_wildcard (strchr pattern CHR ''.'') then match_if (amqp_raw_equal pattern hostname)
        else let pattern_label_end = the (strchr pattern CHR ''.'') in
          (case strchr hostname CHR ''.'' of
            None \<Rightarrow> AMQP_HCR_NO_MATCH
          | Some hostname_label_end \<Rightarrow>
              if \<not> amqp_raw_equal (drop pattern_label_end pattern) (drop hostname_label_end hostname) then AMQP_HCR_NO_MATCH
              else if hostname_label_end < pattern_label_end then AMQP_HCR_NO_MATCH
              else let prefixlen = pattern_wildcard;
                       suffixlen = pattern_label_end - (pattern_wildcard + 1) in
                match_if (amqp_raw_nequal pattern hostname prefixlen \<and>
                  amqp_raw_nequal (drop (pattern_wildcard + 1) pattern) (drop (hostname_label_end - suffixlen) hostname) suffixlen)))"

definition amqp_hostcheck :: "string option \<Rightarrow> string option \<Rightarrow> hostcheck_result" where
  "amqp_hostcheck match_pattern hostname = (case (match_pattern, hostname) of
      (Some p, Some h) \<Rightarrow>
        if p = [] \<or> h = [] then AMQP_HCR_NO_MATCH
        else if amqp_raw_equal h p then AMQP_HCR_MATCH
        else amqp_hostmatch h p
    | _ \<Rightarrow> AMQP_HCR_NO_MATCH)"

section \<open>Comparison without case\<close>

abbreviation upper :: "string \<Rightarrow> string" where
  "upper \<equiv> map amqp_raw_toupper"

lemma toupper_cases: "amqp_raw_toupper c = c \<or> amqp_raw_toupper c \<in> set ''ABCDEFGHIJKLMNOPQRSTUVWXYZ''"
proof (cases "map_of upper_table c")
  case (Some d)
  then have "(c, d) \<in> set upper_table" by (rule map_of_SomeD)
  then show ?thesis using Some unfolding upper_table_def amqp_raw_toupper_def by (auto dest: set_zip_rightD)
qed (simp add: amqp_raw_toupper_def)

lemma toupper_fixed:
  assumes "map_of upper_table d = None" and "d \<notin> set ''ABCDEFGHIJKLMNOPQRSTUVWXYZ''"
  shows "amqp_raw_toupper c = amqp_raw_toupper d \<longleftrightarrow> c = d"
  using toupper_cases [of c] assms by (auto simp: amqp_raw_toupper_def)

lemma toupper_dot [simp]: "amqp_raw_toupper c = amqp_raw_toupper CHR ''.'' \<longleftrightarrow> c = CHR ''.''"
  by (rule toupper_fixed) (simp_all add: upper_table_def)

lemma toupper_NUL [simp]: "amqp_raw_toupper c = amqp_raw_toupper NUL \<longleftrightarrow> c = NUL"
  by (rule toupper_fixed) (simp_all add: upper_table_def NUL_def)

lemma toupper_NUL' [simp]: "amqp_raw_toupper NUL = amqp_raw_toupper c \<longleftrightarrow> c = NUL"
  by (metis toupper_NUL)

lemma raw_equal: "c_string s \<Longrightarrow> c_string t \<Longrightarrow> amqp_raw_equal s t \<longleftrightarrow> upper s = upper t"
proof (induction s arbitrary: t)
  case Nil
  then show ?case by (cases t) (auto simp: c_char_def)
next
  case (Cons c s)
  then show ?case by (cases t) (auto simp: c_char_def)
qed

lemma raw_nequal:
  "c_string s \<Longrightarrow> c_string t \<Longrightarrow> amqp_raw_nequal s t m \<longleftrightarrow> take m (upper s) = take m (upper t)"
proof (induction s arbitrary: t m)
  case Nil
  then show ?case by (cases t; cases m) (auto simp: c_char_def)
next
  case (Cons c s)
  then show ?case by (cases t; cases m) (auto simp: c_char_def)
qed

lemma upper_dots: "upper s = upper t \<Longrightarrow> map (\<lambda>c. c = CHR ''.'') s = map (\<lambda>c. c = CHR ''.'') t"
proof (induction s arbitrary: t)
  case (Cons c s)
  then obtain d u where t: "t = d # u" "amqp_raw_toupper c = amqp_raw_toupper d" "upper s = upper u" by auto
  then have "c = CHR ''.'' \<longleftrightarrow> d = CHR ''.''" using toupper_dot [of c] toupper_dot [of d] by simp
  with t Cons.IH show ?case by simp
qed simp

lemma dot_in_upper: "upper s = upper t \<Longrightarrow> CHR ''.'' \<in> set s \<longleftrightarrow> CHR ''.'' \<in> set t"
proof -
  assume eq: "upper s = upper t"
  have "CHR ''.'' \<in> set s \<longleftrightarrow> True \<in> set (map (\<lambda>c. c = CHR ''.'') s)" for s by (induction s) auto
  then show ?thesis using upper_dots [OF eq] by metis
qed

section \<open>What a match means\<close>

lemma strchr_None: "strchr s c = None \<longleftrightarrow> c \<notin> set s"
  by (simp add: strchr_def)

lemma strchr_append: "c \<notin> set a \<Longrightarrow> strchr (a @ c # b) c = Some (length a)"
  by (induction a) (auto simp: strchr_def)

lemma strchrE:
  assumes "strchr s c = Some n"
  obtains a b where "s = a @ c # b" "c \<notin> set a" "n = length a"
proof -
  have "c \<in> set s" using assms by (metis option.distinct(1) strchr_None)
  then obtain a b where "s = a @ c # b" "c \<notin> set a" by (meson split_list_first)
  with that assms show ?thesis using strchr_append [of c a b] by simp
qed

text \<open>
  Something between a beginning and an end.
\<close>

definition label_match :: "string \<Rightarrow> string \<Rightarrow> string \<Rightarrow> bool" where
  "label_match pre suf b \<longleftrightarrow> (\<exists>hpre mid hsuf. b = hpre @ mid @ hsuf \<and> mid \<noteq> [] \<and> upper hpre = upper pre \<and> upper hsuf = upper suf)"

text \<open>
  The specification: the first label of the pattern has a wildcard and is followed by at least two more; the
  first label of the host has, without case, the same beginning and end and something between; the rest is
  the same.
\<close>

definition wildcard_match :: "string \<Rightarrow> string \<Rightarrow> bool" where
  "wildcard_match pattern hostname \<longleftrightarrow> (\<exists>pre suf rest b hrest.
     pattern = pre @ CHR ''*'' # suf @ CHR ''.'' # rest \<and> hostname = b @ CHR ''.'' # hrest \<and>
     CHR ''.'' \<notin> set (pre @ suf) \<and> CHR ''*'' \<notin> set pre \<and> CHR ''.'' \<in> set rest \<and>
     take 4 (upper pattern) \<noteq> upper ''xn--'' \<and>
     CHR ''.'' \<notin> set b \<and> label_match pre suf b \<and> upper hrest = upper rest)"

lemma split_label:
  assumes "length pre + length suf < length b"
  shows "take (length pre) (upper b) = upper pre \<and> upper (drop (length b - length suf) b) = upper suf \<longleftrightarrow>
    label_match pre suf b"
proof
  assume r: "take (length pre) (upper b) = upper pre \<and> upper (drop (length b - length suf) b) = upper suf"
  let ?mid = "drop (length pre) (take (length b - length suf) b)"
  have "b = take (length pre) b @ ?mid @ drop (length b - length suf) b"
    using assms by (metis append.assoc append_take_drop_id le_add_diff_inverse2 less_diff_conv less_imp_le_nat min.absorb1 take_take)
  moreover have "?mid \<noteq> []" using assms by simp
  ultimately show "label_match pre suf b"
    using r unfolding label_match_def by (metis take_map)
next
  assume "label_match pre suf b"
  then obtain hpre mid hsuf where h: "b = hpre @ mid @ hsuf" "upper hpre = upper pre" "upper hsuf = upper suf" unfolding label_match_def by blast
  then have "length hpre = length pre" "length hsuf = length suf" by (metis length_map)+
  with h show "take (length pre) (upper b) = upper pre \<and> upper (drop (length b - length suf) b) = upper suf"
    by simp
qed

lemma hostmatch_wildcard:
  assumes "c_string p" and "c_string h" and "p = pre @ CHR ''*'' # suf @ CHR ''.'' # rest" and "h = b @ CHR ''.'' # hrest"
    and "CHR ''.'' \<notin> set (pre @ suf)" and "CHR ''*'' \<notin> set pre" and "CHR ''.'' \<in> set rest"
    and "take 4 (upper p) \<noteq> upper ''xn--''" and "CHR ''.'' \<notin> set b"
  shows "amqp_hostmatch h p = match_if (upper hrest = upper rest \<and> label_match pre suf b)"
proof -
  let ?a = "pre @ CHR ''*'' # suf"
  have wild: "strchr p CHR ''*'' = Some (length pre)" using strchr_append [OF assms(6)] assms(3) by simp
  have dot: "strchr p CHR ''.'' = Some (length ?a)"
    using strchr_append [of "CHR ''.''" ?a rest] assms(3,5) by simp
  have hdot: "strchr h CHR ''.'' = Some (length b)" using strchr_append [OF assms(9)] assms(4) by simp
  have xn: "\<not> amqp_raw_nequal p ''xn--'' 4" using raw_nequal [OF assms(1), of "''xn--''" 4] assms(8) by (simp add: NUL_def)
  have enabled: "wildcard_enabled p (length pre) (Some (length ?a))"
    using assms(3,7) xn by (simp add: wildcard_enabled_def strchr_None)
  have tails: "amqp_raw_equal (drop (length ?a) p) (drop (length b) h) \<longleftrightarrow> upper hrest = upper rest"
    using assms(1-4) raw_equal [of "CHR ''.'' # rest" "CHR ''.'' # hrest"] by auto
  have pre: "amqp_raw_nequal p h (length pre) \<longleftrightarrow> take (length pre) (upper b) = upper pre" if "length pre \<le> length b"
    using raw_nequal [OF assms(1,2), of "length pre"] that by (auto simp: assms(3,4))
  have cb: "c_string (drop n b)" for n using assms(2,4) by (auto dest: in_set_dropD)
  have suf: "amqp_raw_nequal (drop (length pre + 1) p) (drop (length b - length suf) h) (length suf) \<longleftrightarrow>
      upper (drop (length b - length suf) b) = upper suf" if "length suf \<le> length b"
    using raw_nequal [of "drop (length pre + 1) p" "drop (length b - length suf) h" "length suf"] assms(1,2) that cb
    by (auto simp: assms(3,4))
  have len: "label_match pre suf b \<Longrightarrow>
      length pre + length suf < length b"
    by (auto simp: label_match_def dest!: map_eq_imp_length_eq)
  show ?thesis
  proof (cases "length pre + length suf < length b")
    case True
    then show ?thesis using enabled split_label [OF True] pre suf tails
      by (simp add: amqp_hostmatch_def wild dot hdot Let_def match_if_def)
  next
    case False
    with len show ?thesis using enabled tails
      by (auto simp: amqp_hostmatch_def wild dot hdot Let_def match_if_def)
  qed
qed

lemma hostmatch_no_wildcard:
  assumes "c_string p" and "c_string h"
    and "\<nexists>pre suf rest. p = pre @ CHR ''*'' # suf @ CHR ''.'' # rest \<and> CHR ''.'' \<notin> set (pre @ suf) \<and> CHR ''*'' \<notin> set pre \<and>
      CHR ''.'' \<in> set rest \<and> take 4 (upper p) \<noteq> upper ''xn--''"
  shows "amqp_hostmatch h p = match_if (upper p = upper h)"
proof (cases "strchr p CHR ''*''")
  case None
  then show ?thesis by (simp add: amqp_hostmatch_def raw_equal [OF assms(1,2)])
next
  case (Some w)
  have "\<not> wildcard_enabled p w (strchr p CHR ''.'')"
  proof
    assume e: "wildcard_enabled p w (strchr p CHR ''.'')"
    then obtain n where n: "strchr p CHR ''.'' = Some n" by (auto simp: wildcard_enabled_def split: option.splits)
    obtain a rest where a: "p = a @ CHR ''.'' # rest" "CHR ''.'' \<notin> set a" "n = length a" by (rule strchrE [OF n])
    obtain pre b where b: "p = pre @ CHR ''*'' # b" "CHR ''*'' \<notin> set pre" "w = length pre" by (rule strchrE [OF Some])
    have e': "CHR ''.'' \<in> set rest" "length pre \<le> length a" "\<not> amqp_raw_nequal p ''xn--'' 4"
      using e n a b(3) by (auto simp: wildcard_enabled_def strchr_None)
    obtain us where us: "a = pre @ us" "us @ CHR ''.'' # rest = CHR ''*'' # b"
      using a(1) b(1) e'(2) by (auto simp: append_eq_append_conv2)
    then obtain suf where "us = CHR ''*'' # suf" by (cases us) auto
    with us a have "p = pre @ CHR ''*'' # suf @ CHR ''.'' # rest" "CHR ''.'' \<notin> set (pre @ suf)" by auto
    moreover have "take 4 (upper p) \<noteq> upper ''xn--''" using e'(3) raw_nequal [OF assms(1), of "''xn--''" 4] by (simp add: NUL_def)
    ultimately show False using assms(3) b(2) e'(1) by blast
  qed
  then show ?thesis by (simp add: amqp_hostmatch_def Some raw_equal [OF assms(1,2)])
qed

lemma hostmatch_no_dot:
  assumes "c_string p" and "c_string h" and "CHR ''.'' \<notin> set h" and "upper p \<noteq> upper h"
  shows "amqp_hostmatch h p = AMQP_HCR_NO_MATCH"
  using assms strchr_None [of h "CHR ''.''"]
  by (auto simp: amqp_hostmatch_def raw_equal Let_def match_if_def split: option.split)

text \<open>
  C32: A name in a certificate matches the name of a host exactly if both are not empty and they are the
  same without case, or the name is a wildcard name (a star in its first label, at least two dots, not an
  internationalised label) and the host fits it label by label.
\<close>

theorem hostcheck_matches_iff:
  assumes "c_string p" and "c_string h"
  shows "amqp_hostcheck (Some p) (Some h) = AMQP_HCR_MATCH \<longleftrightarrow>
    p \<noteq> [] \<and> h \<noteq> [] \<and> (upper p = upper h \<or> wildcard_match p h)"
proof (cases "p = [] \<or> h = [] \<or> upper p = upper h")
  case True
  then show ?thesis using raw_equal [OF assms(2,1)] by (auto simp: amqp_hostcheck_def)
next
  case False
  then have check: "amqp_hostcheck (Some p) (Some h) = amqp_hostmatch h p"
    using raw_equal [OF assms(2,1)] by (simp add: amqp_hostcheck_def eq_commute)
  have "amqp_hostmatch h p = AMQP_HCR_MATCH \<longleftrightarrow> wildcard_match p h"
  proof
    assume m: "amqp_hostmatch h p = AMQP_HCR_MATCH"
    obtain pre suf rest where p: "p = pre @ CHR ''*'' # suf @ CHR ''.'' # rest" "CHR ''.'' \<notin> set (pre @ suf)" "CHR ''*'' \<notin> set pre"
        "CHR ''.'' \<in> set rest" "take 4 (upper p) \<noteq> upper ''xn--''"
      using hostmatch_no_wildcard [OF assms] m False by (fastforce simp: match_if_def)
    have "CHR ''.'' \<in> set h" using hostmatch_no_dot [OF assms] m False by fastforce
    then obtain b hrest where h: "h = b @ CHR ''.'' # hrest" "CHR ''.'' \<notin> set b" by (meson split_list_first)
    have "match_if (upper hrest = upper rest \<and> label_match pre suf b) = AMQP_HCR_MATCH"
      using hostmatch_wildcard [OF assms p(1) h(1) p(2-5) h(2)] m by simp
    then have "upper hrest = upper rest" "label_match pre suf b" by (auto simp: match_if_def split: if_splits)
    then show "wildcard_match p h" using p h unfolding wildcard_match_def by blast
  next
    assume "wildcard_match p h"
    then obtain pre suf rest b hrest where w: "p = pre @ CHR ''*'' # suf @ CHR ''.'' # rest" "h = b @ CHR ''.'' # hrest"
        "CHR ''.'' \<notin> set (pre @ suf)" "CHR ''*'' \<notin> set pre" "CHR ''.'' \<in> set rest" "take 4 (upper p) \<noteq> upper ''xn--''"
        "CHR ''.'' \<notin> set b" "label_match pre suf b" "upper hrest = upper rest"
      unfolding wildcard_match_def by blast
    show "amqp_hostmatch h p = AMQP_HCR_MATCH"
      using hostmatch_wildcard [OF assms w(1-7)] w(8,9) by (simp add: match_if_def)
  qed
  with check False show ?thesis by simp
qed

theorem hostcheck_matches_iff_witness:
  "amqp_hostcheck (Some ''f*o.Example.com'') (Some ''foo.example.com'') = AMQP_HCR_MATCH \<longleftrightarrow>
    ''f*o.Example.com'' \<noteq> [] \<and> ''foo.example.com'' \<noteq> [] \<and>
    (upper ''f*o.Example.com'' = upper ''foo.example.com'' \<or> wildcard_match ''f*o.Example.com'' ''foo.example.com'')"
  by (rule hostcheck_matches_iff) (simp_all add: NUL_def)

lemma upper_dropWhile: "upper s = upper t \<Longrightarrow> upper (dropWhile (\<lambda>c. c \<noteq> CHR ''.'') s) = upper (dropWhile (\<lambda>c. c \<noteq> CHR ''.'') t)"
proof (induction s arbitrary: t)
  case (Cons c s)
  then obtain d u where t: "t = d # u" "amqp_raw_toupper c = amqp_raw_toupper d" "upper s = upper u" by auto
  then have "c = CHR ''.'' \<longleftrightarrow> d = CHR ''.''" using toupper_dot [of c] toupper_dot [of d] by simp
  with t Cons.IH show ?case by simp
qed simp

lemma dots_upper: "upper s = upper t \<Longrightarrow> length (filter (\<lambda>c. c = CHR ''.'') s) = length (filter (\<lambda>c. c = CHR ''.'') t)"
proof -
  assume eq: "upper s = upper t"
  have "length (filter (\<lambda>c. c = CHR ''.'') s) = length (filter (\<lambda>b. b) (map (\<lambda>c. c = CHR ''.'') s))" for s by (induction s) auto
  then show ?thesis using upper_dots [OF eq] by metis
qed

text \<open>
  A wildcard never stands for more than one label: a host that matches has as many dots as the name
  in the certificate, and from the first dot on the two are the same without case.
\<close>

theorem wildcard_stays_in_label:
  assumes "c_string p" and "c_string h" and "amqp_hostcheck (Some p) (Some h) = AMQP_HCR_MATCH"
  shows "length (filter (\<lambda>c. c = CHR ''.'') h) = length (filter (\<lambda>c. c = CHR ''.'') p) \<and>
    upper (dropWhile (\<lambda>c. c \<noteq> CHR ''.'') h) = upper (dropWhile (\<lambda>c. c \<noteq> CHR ''.'') p)"
proof (cases "upper p = upper h")
  case True
  then show ?thesis using dots_upper [of p h] upper_dropWhile [of p h] by simp
next
  case False
  then have "wildcard_match p h" using assms hostcheck_matches_iff [OF assms(1,2)] by simp
  then obtain pre suf rest b hrest where w: "p = pre @ CHR ''*'' # suf @ CHR ''.'' # rest" "h = b @ CHR ''.'' # hrest"
      "CHR ''.'' \<notin> set (pre @ suf)" "CHR ''.'' \<notin> set b" "upper hrest = upper rest"
    unfolding wildcard_match_def by blast
  have none: "filter (\<lambda>c. c = CHR ''.'') b = []" "filter (\<lambda>c. c = CHR ''.'') pre = []" "filter (\<lambda>c. c = CHR ''.'') suf = []"
    using w(3,4) by (auto simp: filter_empty_conv)
  have "length (filter (\<lambda>c. c = CHR ''.'') h) = length (filter (\<lambda>c. c = CHR ''.'') p)"
    using dots_upper [OF w(5)] by (simp add: w(1,2) none)
  moreover have "dropWhile (\<lambda>c. c \<noteq> CHR ''.'') (b @ CHR ''.'' # hrest) = CHR ''.'' # hrest"
    by (subst dropWhile_append2) (use w(4) in auto)
  moreover have "dropWhile (\<lambda>c. c \<noteq> CHR ''.'') ((pre @ CHR ''*'' # suf) @ CHR ''.'' # rest) = CHR ''.'' # rest"
    by (subst dropWhile_append2) (use w(3) in auto)
  ultimately show ?thesis using w(1,2,5) by simp
qed

theorem wildcard_stays_in_label_witness:
  "length (filter (\<lambda>c. c = CHR ''.'') ''a.b.org'') = length (filter (\<lambda>c. c = CHR ''.'') ''*.B.org'') \<and>
    upper (dropWhile (\<lambda>c. c \<noteq> CHR ''.'') ''a.b.org'') = upper (dropWhile (\<lambda>c. c \<noteq> CHR ''.'') ''*.B.org'')"
  by (rule wildcard_stays_in_label) (simp_all add: NUL_def, code_simp)

end
