(* ===== verification/AMQP_Time.thy ===== *)
theory AMQP_Time
  imports AMQP_Base
begin

text \<open>
  \<open>amqp_time.c\<close>: deadlines in nanoseconds of the monotonic clock, as \<open>uint64_t\<close>.  What the clock says is
  an argument of each operation (\<open>clock_gettime\<close>, the branch for POSIX systems): \<open>None\<close> when the call
  fails.  \<open>time_t\<close>, \<open>long\<close> and \<open>suseconds_t\<close> have 64 bits.
\<close>

section \<open>The code\<close>

type_synonym amqp_time = "64 word"

record timespec =
  ts_sec :: int
  ts_nsec :: int

record timeval =
  tv_sec :: int
  tv_usec :: int

definition AMQP_NS_PER_S :: "64 word" where "AMQP_NS_PER_S = 1000000000"
definition AMQP_NS_PER_MS :: "64 word" where "AMQP_NS_PER_MS = 1000000"
definition AMQP_NS_PER_US :: "64 word" where "AMQP_NS_PER_US = 1000"
definition UINT64_MAX :: "64 word" where "UINT64_MAX = - 1"

definition amqp_get_monotonic_timestamp :: "timespec option \<Rightarrow> 64 word" where
  "amqp_get_monotonic_timestamp clock = (case clock of None \<Rightarrow> 0
     | Some tp \<Rightarrow> word_of_int (ts_sec tp) * AMQP_NS_PER_S + word_of_int (ts_nsec tp))"

definition amqp_time_immediate :: amqp_time where
  "amqp_time_immediate = 0"

definition amqp_time_infinite :: amqp_time where
  "amqp_time_infinite = UINT64_MAX"

definition amqp_time_from_now :: "timespec option \<Rightarrow> timeval option \<Rightarrow> amqp_time result" where
  "amqp_time_from_now clock timeout = (case timeout of
      None \<Rightarrow> Inr amqp_time_infinite
    | Some tv \<Rightarrow>
        if tv_sec tv = 0 \<and> tv_usec tv = 0 then Inr amqp_time_immediate
        else if tv_sec tv < 0 \<or> tv_usec tv < 0 then Inl STATUS_INVALID_PARAMETER
        else let delta_ns = word_of_int (tv_sec tv) * AMQP_NS_PER_S + word_of_int (tv_usec tv) * AMQP_NS_PER_US;
                 now_ns = amqp_get_monotonic_timestamp clock in
          if now_ns = 0 then Inl STATUS_TIMER_FAILURE
          else let time_point_ns = now_ns + delta_ns in
            if now_ns > time_point_ns \<or> delta_ns > time_point_ns then Inl STATUS_INVALID_PARAMETER
            else Inr time_point_ns)"

definition amqp_time_s_from_now :: "timespec option \<Rightarrow> int \<Rightarrow> amqp_time result" where
  "amqp_time_s_from_now clock seconds =
     (if 0 \<ge> seconds then Inr amqp_time_infinite
      else let now_ns = amqp_get_monotonic_timestamp clock in
        if now_ns = 0 then Inl STATUS_TIMER_FAILURE
        else let delta_ns = word_of_int seconds * AMQP_NS_PER_S;
                 time_point_ns = now_ns + delta_ns in
          if now_ns > time_point_ns \<or> delta_ns > time_point_ns then Inl STATUS_INVALID_PARAMETER
          else Inr time_point_ns)"

text \<open>The cast of a \<open>uint64_t\<close> to \<open>int\<close> keeps the low 32 bits.\<close>

definition int_of_uint64 :: "64 word \<Rightarrow> int" where
  "int_of_uint64 x = sint (ucast x :: 32 word)"

definition amqp_time_ms_until :: "timespec option \<Rightarrow> amqp_time \<Rightarrow> int result" where
  "amqp_time_ms_until clock time =
     (if UINT64_MAX = time then Inr (- 1)
      else if 0 = time then Inr 0
      else let now_ns = amqp_get_monotonic_timestamp clock in
        if now_ns = 0 then Inl STATUS_TIMER_FAILURE
        else if now_ns \<ge> time then Inr 0
        else let delta_ns = time - now_ns in Inr (int_of_uint64 (delta_ns div AMQP_NS_PER_MS)))"

text \<open>The pointer \<open>*out\<close> is \<open>None\<close> when it is null.\<close>

definition amqp_time_tv_until :: "timespec option \<Rightarrow> amqp_time \<Rightarrow> timeval option result" where
  "amqp_time_tv_until clock time =
     (if UINT64_MAX = time then Inr None
      else if 0 = time then Inr (Some \<lparr>tv_sec = 0, tv_usec = 0\<rparr>)
      else let now_ns = amqp_get_monotonic_timestamp clock in
        if now_ns = 0 then Inl STATUS_TIMER_FAILURE
        else if now_ns \<ge> time then Inr (Some \<lparr>tv_sec = 0, tv_usec = 0\<rparr>)
        else let delta_ns = time - now_ns in
          Inr (Some \<lparr>tv_sec = int_of_uint64 (delta_ns div AMQP_NS_PER_S),
                     tv_usec = int_of_uint64 ((delta_ns mod AMQP_NS_PER_S) div AMQP_NS_PER_US)\<rparr>))"

definition amqp_time_has_past :: "timespec option \<Rightarrow> amqp_time \<Rightarrow> unit result" where
  "amqp_time_has_past clock time =
     (if UINT64_MAX = time then Inr ()
      else let now_ns = amqp_get_monotonic_timestamp clock in
        if now_ns = 0 then Inl STATUS_TIMER_FAILURE
        else if now_ns > time then Inl STATUS_TIMEOUT
        else Inr ())"

definition amqp_time_first :: "amqp_time \<Rightarrow> amqp_time \<Rightarrow> amqp_time" where
  "amqp_time_first l r = (if l < r then l else r)"

definition amqp_time_equal :: "amqp_time \<Rightarrow> amqp_time \<Rightarrow> bool" where
  "amqp_time_equal l r \<longleftrightarrow> l = r"

section \<open>Deadlines are kept\<close>

text \<open>The clock says \<open>n\<close> nanoseconds.\<close>

definition clock_at :: "nat \<Rightarrow> timespec option \<Rightarrow> bool" where
  "clock_at n clock \<longleftrightarrow> 0 < n \<and> n < 2 ^ 64 \<and>
     (\<exists>tp. clock = Some tp \<and> 0 \<le> ts_sec tp \<and> 0 \<le> ts_nsec tp \<and> ts_sec tp * 1000000000 + ts_nsec tp = int n)"

lemma timestamp_at: "clock_at n clock \<Longrightarrow> amqp_get_monotonic_timestamp clock = word_of_nat n"
proof -
  assume "clock_at n clock"
  then obtain tp where tp: "clock = Some tp" "ts_sec tp * 1000000000 + ts_nsec tp = int n" by (auto simp: clock_at_def)
  have "word_of_int (ts_sec tp) * AMQP_NS_PER_S + word_of_int (ts_nsec tp) = (word_of_int (ts_sec tp * 1000000000 + ts_nsec tp) :: 64 word)"
    by (simp add: AMQP_NS_PER_S_def)
  then show ?thesis using tp by (simp add: amqp_get_monotonic_timestamp_def)
qed

lemma unat_of: "n < 2 ^ 64 \<Longrightarrow> unat (word_of_nat n :: 64 word) = n"
  by (simp add: unat_of_nat)

lemma word_nat_less: "m < 2 ^ 64 \<Longrightarrow> n < 2 ^ 64 \<Longrightarrow> (word_of_nat m :: 64 word) < word_of_nat n \<longleftrightarrow> m < n"
  by (simp add: word_less_nat_alt unat_of)

lemma word_nat_eq: "m < 2 ^ 64 \<Longrightarrow> n < 2 ^ 64 \<Longrightarrow> (word_of_nat m :: 64 word) = word_of_nat n \<longleftrightarrow> m = n"
  by (metis unat_of)

lemma UINT64_MAX_nat: "UINT64_MAX = word_of_nat (2 ^ 64 - 1)"
  by (simp add: UINT64_MAX_def)

text \<open>The check after the addition finds exactly the sums that do not fit.\<close>

lemma sum_check:
  assumes "n < 2 ^ 64" and "d < 2 ^ 64"
  shows "(word_of_nat n > (word_of_nat n + word_of_nat d :: 64 word) \<or> word_of_nat d > (word_of_nat n + word_of_nat d :: 64 word)) \<longleftrightarrow>
    2 ^ 64 \<le> n + d"
proof (cases "n + d < 2 ^ 64")
  case True
  have "(word_of_nat n + word_of_nat d :: 64 word) = word_of_nat (n + d)" by simp
  then show ?thesis using True assms word_nat_less [of "n + d" n] word_nat_less [of "n + d" d] by simp
next
  case False
  then have less: "n + d - 2 ^ 64 < n" "2 ^ 64 \<le> n + d" using assms by auto
  then have "n + d - 2 ^ 64 < 2 ^ 64" using assms by linarith
  then have "(n + d) mod 2 ^ 64 = n + d - 2 ^ 64" using less(2) by (metis mod_less le_mod_geq)
  moreover have "unat (word_of_nat n + word_of_nat d :: 64 word) = (n + d) mod 2 ^ 64"
    using unat_of [OF assms(1)] unat_of [OF assms(2)] by (simp add: unat_word_ariths)
  moreover have "unat (word_of_nat (n + d - 2 ^ 64) :: 64 word) = n + d - 2 ^ 64" by (rule unat_of) fact
  ultimately have "(word_of_nat n + word_of_nat d :: 64 word) = word_of_nat (n + d - 2 ^ 64)"
    by (simp only: word_unat_eq_iff)
  moreover have "(word_of_nat (n + d - 2 ^ 64) :: 64 word) < word_of_nat n"
    using word_nat_less [of "n + d - 2 ^ 64" n] less(1) \<open>n + d - 2 ^ 64 < 2 ^ 64\<close> assms(1) by blast
  ultimately show ?thesis using less(2) by metis
qed

definition nanoseconds :: "timeval \<Rightarrow> nat" where
  "nanoseconds tv = nat (tv_sec tv * 1000000000 + tv_usec tv * 1000)"

lemma delta_of: "0 \<le> tv_sec tv \<Longrightarrow> 0 \<le> tv_usec tv \<Longrightarrow>
    word_of_int (tv_sec tv) * AMQP_NS_PER_S + word_of_int (tv_usec tv) * AMQP_NS_PER_US = word_of_nat (nanoseconds tv)"
proof -
  assume "0 \<le> tv_sec tv" "0 \<le> tv_usec tv"
  then have "int (nanoseconds tv) = tv_sec tv * 1000000000 + tv_usec tv * 1000" by (simp add: nanoseconds_def)
  then have "(word_of_nat (nanoseconds tv) :: 64 word) = word_of_int (tv_sec tv * 1000000000 + tv_usec tv * 1000)"
    by (metis of_int_of_nat_eq)
  then show ?thesis by (simp add: AMQP_NS_PER_S_def AMQP_NS_PER_US_def)
qed

lemma from_now_exact:
  assumes "clock_at n clock" and "0 \<le> tv_sec tv" and "0 \<le> tv_usec tv" and "0 < nanoseconds tv" and "nanoseconds tv < 2 ^ 64"
  shows "amqp_time_from_now clock (Some tv) =
    (if n + nanoseconds tv < 2 ^ 64 then Inr (word_of_nat (n + nanoseconds tv)) else Inl STATUS_INVALID_PARAMETER)"
proof -
  have n: "n < 2 ^ 64" "word_of_nat n \<noteq> (0 :: 64 word)" using assms(1) word_nat_eq [of n 0] by (auto simp: clock_at_def)
  have "\<not> (tv_sec tv = 0 \<and> tv_usec tv = 0)" using assms(4) by (auto simp: nanoseconds_def)
  then show ?thesis using assms(2,3) n sum_check [OF n(1) assms(5)]
    by (auto simp: amqp_time_from_now_def Let_def delta_of timestamp_at [OF assms(1)] simp del: of_nat_add)
      (simp_all add: not_less)
qed

lemma s_from_now_exact:
  assumes "clock_at n clock" and "0 < seconds" and "seconds \<le> INT_MAX"
  shows "amqp_time_s_from_now clock seconds =
    (if n + nat seconds * 1000000000 < 2 ^ 64 then Inr (word_of_nat (n + nat seconds * 1000000000)) else Inl STATUS_INVALID_PARAMETER)"
proof -
  let ?d = "nat seconds * 1000000000"
  have n: "n < 2 ^ 64" "word_of_nat n \<noteq> (0 :: 64 word)" using assms(1) word_nat_eq [of n 0] by (auto simp: clock_at_def)
  have "?d < 2 ^ 64" using assms(2,3) by (simp add: int_limits)
  moreover have "word_of_int seconds * AMQP_NS_PER_S = word_of_nat ?d"
    using assms(2) by (simp add: AMQP_NS_PER_S_def)
  ultimately show ?thesis using assms(2) n sum_check [OF n(1), of ?d]
    by (auto simp: amqp_time_s_from_now_def Let_def timestamp_at [OF assms(1)] simp del: of_nat_add) (simp_all add: not_less)
qed

lemma int_of_uint64_small:
  assumes "n < 2 ^ 31"
  shows "int_of_uint64 (word_of_nat n) = int n"
proof -
  have "(ucast (word_of_nat n :: 64 word) :: 32 word) = word_of_nat n"
    using assms unat_of [of n] unat_of_nat [of n, where 'a = 32] by (simp add: word_unat_eq_iff unsigned_ucast_eq take_bit_nat_eq_self)
  then show ?thesis using sint_word_of_nat [OF assms] by (simp add: int_of_uint64_def)
qed

lemma word_nat_div:
  assumes "m < 2 ^ 64" and "k < 2 ^ 64"
  shows "(word_of_nat m :: 64 word) div word_of_nat k = word_of_nat (m div k)"
proof -
  have "m div k < 2 ^ 64" using assms(1) div_le_dividend le_less_trans by blast
  from unat_of [OF this] show ?thesis using unat_of [OF assms(1)] unat_of [OF assms(2)]
    by (simp only: word_unat_eq_iff unat_div)
qed

lemma word_nat_mod:
  assumes "m < 2 ^ 64" and "k < 2 ^ 64"
  shows "(word_of_nat m :: 64 word) mod word_of_nat k = word_of_nat (m mod k)"
proof -
  have "m mod k < 2 ^ 64" using assms(1) mod_less_eq_dividend le_less_trans by blast
  from unat_of [OF this] show ?thesis using unat_of [OF assms(1)] unat_of [OF assms(2)]
    by (simp only: word_unat_eq_iff unat_mod)
qed

lemma word_nat_minus: "n \<le> m \<Longrightarrow> (word_of_nat m :: 64 word) - word_of_nat n = word_of_nat (m - n)"
  by (simp add: of_nat_diff)

lemma units: "AMQP_NS_PER_S = word_of_nat 1000000000" "AMQP_NS_PER_MS = word_of_nat 1000000" "AMQP_NS_PER_US = word_of_nat 1000"
  by (simp_all add: AMQP_NS_PER_S_def AMQP_NS_PER_MS_def AMQP_NS_PER_US_def)

lemma ms_until_exact:
  assumes "clock_at m clock" and "0 < t" and "t < 2 ^ 64 - 1" and "t - m < 2 ^ 31 * 1000000"
  shows "amqp_time_ms_until clock (word_of_nat t) = Inr (int ((t - m) div 1000000))"
proof -
  have m: "m < 2 ^ 64" "word_of_nat m \<noteq> (0 :: 64 word)" using assms(1) word_nat_eq [of m 0] by (auto simp: clock_at_def)
  have t: "word_of_nat t \<noteq> (0 :: 64 word)" "word_of_nat t \<noteq> UINT64_MAX"
    using assms(2,3) word_nat_eq [of t 0] word_nat_eq [of t "2 ^ 64 - 1"] by (auto simp: UINT64_MAX_nat)
  show ?thesis
  proof (cases "t \<le> m")
    case True
    then show ?thesis using m t assms(3) word_nat_less [of m t]
      by (simp add: amqp_time_ms_until_def timestamp_at [OF assms(1)] Let_def not_less [symmetric] eq_commute [of _ "word_of_nat t"])
  next
    case False
    have "(t - m) div 1000000 < 2 ^ 31" using assms(4) by (simp add: div_less_iff_less_mult)
    then have "int_of_uint64 (word_of_nat (t - m) div AMQP_NS_PER_MS) = int ((t - m) div 1000000)"
      using assms(3) by (simp add: units word_nat_div int_of_uint64_small del: of_nat_numeral)
    then show ?thesis using False m t assms(3) word_nat_less [of m t]
      by (simp add: amqp_time_ms_until_def timestamp_at [OF assms(1)] Let_def not_less [symmetric] eq_commute [of _ "word_of_nat t"]
          word_nat_minus del: of_nat_diff)
  qed
qed

lemma tv_until_exact:
  assumes "clock_at m clock" and "0 < t" and "t < 2 ^ 64 - 1" and "t - m < 2 ^ 31 * 1000000000"
  shows "amqp_time_tv_until clock (word_of_nat t) = Inr (Some \<lparr>tv_sec = int ((t - m) div 1000000000),
    tv_usec = int ((t - m) mod 1000000000 div 1000)\<rparr>)"
proof -
  have m: "m < 2 ^ 64" "word_of_nat m \<noteq> (0 :: 64 word)" using assms(1) word_nat_eq [of m 0] by (auto simp: clock_at_def)
  have t: "word_of_nat t \<noteq> (0 :: 64 word)" "word_of_nat t \<noteq> UINT64_MAX"
    using assms(2,3) word_nat_eq [of t 0] word_nat_eq [of t "2 ^ 64 - 1"] by (auto simp: UINT64_MAX_nat)
  show ?thesis
  proof (cases "t \<le> m")
    case True
    then show ?thesis using m t assms(3) word_nat_less [of m t]
      by (simp add: amqp_time_tv_until_def timestamp_at [OF assms(1)] Let_def not_less [symmetric] eq_commute [of _ "word_of_nat t"])
  next
    case False
    have "(t - m) div 1000000000 < 2 ^ 31" "(t - m) mod 1000000000 div 1000 < 2 ^ 31" "(t - m) mod 1000000000 < 2 ^ 64" "t - m < 2 ^ 64"
      using assms(3,4) by (auto simp: div_less_iff_less_mult intro: less_trans [OF mod_less_divisor])
    then have "int_of_uint64 (word_of_nat (t - m) div AMQP_NS_PER_S) = int ((t - m) div 1000000000)"
        "int_of_uint64 (word_of_nat (t - m) mod AMQP_NS_PER_S div AMQP_NS_PER_US) = int ((t - m) mod 1000000000 div 1000)"
      by (simp_all add: units word_nat_div word_nat_mod int_of_uint64_small del: of_nat_numeral)
    then show ?thesis using False m t assms(3) word_nat_less [of m t]
      by (simp add: amqp_time_tv_until_def timestamp_at [OF assms(1)] Let_def not_less [symmetric] eq_commute [of _ "word_of_nat t"]
          word_nat_minus del: of_nat_diff)
  qed
qed

lemma has_past_exact:
  assumes "clock_at m clock" and "t < 2 ^ 64 - 1"
  shows "amqp_time_has_past clock (word_of_nat t) = (if t < m then Inl STATUS_TIMEOUT else Inr ())"
proof -
  have m: "m < 2 ^ 64" "word_of_nat m \<noteq> (0 :: 64 word)" using assms(1) word_nat_eq [of m 0] by (auto simp: clock_at_def)
  have "UINT64_MAX \<noteq> word_of_nat t" using assms(2) word_nat_eq [of "2 ^ 64 - 1" t] by (auto simp: UINT64_MAX_nat)
  then show ?thesis using m assms(2) word_nat_less [of t m]
    by (simp add: amqp_time_has_past_def timestamp_at [OF assms(1)] Let_def)
qed

text \<open>
  A timeout of less than 2^31 milliseconds from a given instant becomes a deadline at exactly that many
  nanoseconds later: at any later instant it has passed exactly if the clock is beyond it, the milliseconds
  left are rounded down and 0 when none are left, and the seconds and microseconds left are exact.
\<close>

theorem deadline_kept:
  assumes "clock_at n set_at" and "0 \<le> tv_sec tv" and "0 \<le> tv_usec tv" and "0 < nanoseconds tv" and "nanoseconds tv < 2 ^ 31 * 1000000"
    and "n + nanoseconds tv < 2 ^ 64 - 1" and "clock_at m now" and "n \<le> m"
  shows "\<exists>t. amqp_time_from_now set_at (Some tv) = Inr t \<and>
    amqp_time_has_past now t = (if n + nanoseconds tv < m then Inl STATUS_TIMEOUT else Inr ()) \<and>
    amqp_time_ms_until now t = Inr (int ((n + nanoseconds tv - m) div 1000000)) \<and>
    amqp_time_tv_until now t = Inr (Some \<lparr>tv_sec = int ((n + nanoseconds tv - m) div 1000000000),
      tv_usec = int ((n + nanoseconds tv - m) mod 1000000000 div 1000)\<rparr>)"
proof -
  let ?t = "n + nanoseconds tv"
  have "0 < ?t" "?t - m < 2 ^ 31 * 1000000" "?t - m < 2 ^ 31 * 1000000000" using assms(4,5,8) by auto
  then show ?thesis
    using from_now_exact [OF assms(1-4)] assms(5,6) has_past_exact [OF assms(7), of ?t] ms_until_exact [OF assms(7), of ?t]
      tv_until_exact [OF assms(7), of ?t] by simp
qed

theorem deadline_kept_witness:
  "\<exists>t. amqp_time_from_now (Some \<lparr>ts_sec = 100, ts_nsec = 5\<rparr>) (Some \<lparr>tv_sec = 2, tv_usec = 500000\<rparr>) = Inr t \<and>
    amqp_time_has_past (Some \<lparr>ts_sec = 101, ts_nsec = 0\<rparr>) t = Inr () \<and>
    amqp_time_ms_until (Some \<lparr>ts_sec = 101, ts_nsec = 0\<rparr>) t = Inr 1500 \<and>
    amqp_time_tv_until (Some \<lparr>ts_sec = 101, ts_nsec = 0\<rparr>) t = Inr (Some \<lparr>tv_sec = 1, tv_usec = 500000\<rparr>)"
  using deadline_kept [of 100000000005 "Some \<lparr>ts_sec = 100, ts_nsec = 5\<rparr>" "\<lparr>tv_sec = 2, tv_usec = 500000\<rparr>" 101000000000
      "Some \<lparr>ts_sec = 101, ts_nsec = 0\<rparr>"]
  by (simp add: clock_at_def nanoseconds_def)

text \<open>The earlier of two deadlines; no deadline is later than all.\<close>

lemma time_first_min: "amqp_time_first l r = min l r" "amqp_time_first l amqp_time_infinite = l"
  by (auto simp: amqp_time_first_def min_def amqp_time_infinite_def UINT64_MAX_def not_less intro: order_antisym)

section \<open>Deadlines that are not\<close>

text \<open>
  The product of the seconds is not checked: 18446744074 seconds wrap to less than half a second.
\<close>

lemma timeout_wraps:
  "amqp_time_from_now (Some \<lparr>ts_sec = 1, ts_nsec = 0\<rparr>) (Some \<lparr>tv_sec = 18446744074, tv_usec = 0\<rparr>) = Inr 1290448384"
  by (simp add: amqp_time_from_now_def amqp_get_monotonic_timestamp_def AMQP_NS_PER_S_def AMQP_NS_PER_US_def)

text \<open>
  A deadline 2^31 milliseconds or more away is reported as a negative number of milliseconds, which is
  also the code for "no deadline" to those who wait.
\<close>

theorem long_deadline_negative:
  "amqp_time_s_from_now (Some \<lparr>ts_sec = 1, ts_nsec = 0\<rparr>) 2147484 = Inr 2147485000000000 \<and>
    amqp_time_ms_until (Some \<lparr>ts_sec = 1, ts_nsec = 0\<rparr>) 2147485000000000 = Inr (- 2147483296)"
  by (simp add: amqp_time_s_from_now_def amqp_time_ms_until_def amqp_get_monotonic_timestamp_def AMQP_NS_PER_S_def AMQP_NS_PER_MS_def
      UINT64_MAX_def int_of_uint64_def)

end
