(* ===== verification/Search_Tree.thy ===== *)
theory Search_Tree
  imports Prelude
begin

text \<open>
  The binary search trees of \<open>DataStruct\<close>: the nodes, what all the trees share, and the plain
  tree of \<open>BinarySearchTree.hpp\<close>.  A node owns its children, so a pointer to a node is the
  tree below it and \<open>Null\<close> the null pointer; \<open>'x\<close> is what a kind of tree adds to its nodes.
  Keys are compared by \<open>==\<close>, \<open>>\<close> and \<open><\<close> of a linear order.
\<close>

section \<open>Nodes and their entries\<close>

datatype ('k, 'v, 'x) node =
    is_Null: Null
  | Node 'k 'v "('k, 'v, 'x) node" "('k, 'v, 'x) node" 'x

primrec entries :: "('k, 'v, 'x) node \<Rightarrow> ('k \<times> 'v) list" where
  "entries Null = []"
| "entries (Node k v l r x) = entries l @ (k, v) # entries r"

abbreviation keys :: "('k, 'v, 'x) node \<Rightarrow> 'k list" where
  "keys t \<equiv> map fst (entries t)"

text \<open>The tree is a search tree without duplicates.\<close>

definition ordered :: "('k::linorder, 'v, 'x) node \<Rightarrow> bool" where
  "ordered t \<longleftrightarrow> sorted_wrt (<) (keys t)"

primrec nodes :: "('k, 'v, 'x) node \<Rightarrow> nat" where
  "nodes Null = 0"
| "nodes (Node k v l r x) = nodes l + nodes r + 1"

lemma length_entries [simp]: "length (entries t) = nodes t"
  by (induction t) auto

lemma entries_Nil [simp]: "entries t = [] \<longleftrightarrow> t = Null"
  by (cases t) auto

lemma ordered_Null [simp]: "ordered Null"
  by (simp add: ordered_def)

lemma ordered_Node [simp]:
  "ordered (Node k v l r x) \<longleftrightarrow> ordered l \<and> ordered r \<and>
     (\<forall>p \<in> set (entries l). fst p < k) \<and> (\<forall>p \<in> set (entries r). k < fst p)"
  by (fastforce simp: ordered_def sorted_wrt_append)

lemma ordered_entries: "entries t = entries t' \<Longrightarrow> ordered t \<longleftrightarrow> ordered t'"
  by (simp add: ordered_def)

text \<open>
  The abstract finite map as the sorted list of its entries: \<open>put\<close> and \<open>rem\<close> are what
  inserting and deleting do to it.
\<close>

definition put :: "'k::linorder \<Rightarrow> 'v \<Rightarrow> ('k \<times> 'v) list \<Rightarrow> ('k \<times> 'v) list" where
  "put k v ps = filter (\<lambda>p. fst p < k) ps @ (k, v) # filter (\<lambda>p. k < fst p) ps"

definition rem :: "'k \<Rightarrow> ('k \<times> 'v) list \<Rightarrow> ('k \<times> 'v) list" where
  "rem k ps = filter (\<lambda>p. fst p \<noteq> k) ps"

lemma filter_none: "(\<And>x. x \<in> set xs \<Longrightarrow> \<not> P x) \<Longrightarrow> filter P xs = []"
  by (simp add: filter_empty_conv)

lemma filter_all: "(\<And>x. x \<in> set xs \<Longrightarrow> P x) \<Longrightarrow> filter P xs = xs"
  by (simp add: filter_True)

lemma put_left:
  assumes "k < a" and "\<forall>p \<in> set r. a < fst p"
  shows "put k v (l @ (a, b) # r) = put k v l @ (a, b) # r"
proof -
  have "filter (\<lambda>p. fst p < k) r = []" "filter (\<lambda>p. k < fst p) r = r"
    using assms by (auto intro!: filter_none filter_all)
  with assms(1) show ?thesis by (auto simp: put_def)
qed

lemma put_right:
  assumes "a < k" and "\<forall>p \<in> set l. fst p < a"
  shows "put k v (l @ (a, b) # r) = l @ (a, b) # put k v r"
proof -
  have "filter (\<lambda>p. k < fst p) l = []" "filter (\<lambda>p. fst p < k) l = l"
    using assms by (auto intro!: filter_none filter_all)
  with assms(1) show ?thesis by (auto simp: put_def)
qed

lemma put_here:
  assumes "\<forall>p \<in> set l. fst p < k" and "\<forall>p \<in> set r. k < fst p"
  shows "put k v (l @ (k, b) # r) = l @ (k, v) # r"
proof -
  have "filter (\<lambda>p. k < fst p) l = []" "filter (\<lambda>p. fst p < k) l = l"
    "filter (\<lambda>p. k < fst p) r = r" "filter (\<lambda>p. fst p < k) r = []"
    using assms by (auto intro!: filter_none filter_all)
  then show ?thesis by (simp add: put_def)
qed

lemma put_Nil [simp]: "put k v [] = [(k, v)]"
  by (simp add: put_def)

lemma rem_absent: "\<forall>p \<in> set ps. fst p \<noteq> k \<Longrightarrow> rem k ps = ps"
  by (simp add: rem_def filter_True)

lemma rem_append [simp]: "rem k (ps @ qs) = rem k ps @ rem k qs"
  "rem k ((a, b) # qs) = (if a = k then rem k qs else (a, b) # rem k qs)" "rem k [] = []"
  by (simp_all add: rem_def)

lemma sorted_put: "sorted_wrt (<) (map fst ps) \<Longrightarrow> sorted_wrt (<) (map fst (put k v ps))"
  unfolding put_def by (auto simp: sorted_wrt_append sorted_wrt_map sorted_wrt_filter)

lemma sorted_rem: "sorted_wrt (<) (map fst ps) \<Longrightarrow> sorted_wrt (<) (map fst (rem k ps))"
  unfolding rem_def by (auto simp: sorted_wrt_map sorted_wrt_filter)

lemma rem_put:
  assumes "sorted_wrt (<) (map fst ps)" and "k \<notin> fst ` set ps"
  shows "rem k (put k v ps) = ps"
proof -
  have "filter (\<lambda>p. fst p < k) ps @ filter (\<lambda>p. k < fst p) ps = ps"
    using assms
  proof (induction ps)
    case (Cons p ps)
    show ?case
    proof (cases "fst p < k")
      case False
      with Cons.prems have "k < fst p" "\<forall>q \<in> set ps. k < fst q" by fastforce+
      then have "filter (\<lambda>p. fst p < k) ps = []" "filter (\<lambda>p. k < fst p) ps = ps"
        by (auto intro!: filter_none filter_all)
      with False \<open>k < fst p\<close> show ?thesis by simp
    qed (use Cons in auto)
  qed simp
  then show ?thesis by (simp add: put_def rem_def order.strict_implies_not_eq order.strict_implies_not_eq [symmetric] cong: conj_cong)
qed

lemma put_same:
  assumes "sorted_wrt (<) (map fst ps)" and "map_of ps k = Some v"
  shows "put k v ps = ps"
  using assms
proof (induction ps)
  case (Cons p ps)
  show ?case
  proof (cases "fst p = k")
    case True
    then have "p = (k, v)" using Cons.prems(2) by (cases p) simp
    then show ?thesis using put_here [of "[]" k ps v v] Cons.prems(1) by fastforce
  next
    case False
    then have "(k, v) \<in> set ps" using Cons.prems(2) map_of_SomeD [of ps k v] by simp
    then have "fst p < k" using Cons.prems(1) by fastforce
    moreover have "put k v ps = ps" using Cons.IH Cons.prems False by simp
    ultimately show ?thesis using put_right [of "fst p" k "[]" v "snd p" ps] by simp
  qed
qed simp

lemma put_fresh: "k \<notin> fst ` set ps \<Longrightarrow> length (put k v ps) = length ps + 1"
proof (induction ps)
  case (Cons p ps)
  then show ?case by (cases "fst p" k rule: linorder_cases) (simp_all add: put_def)
qed simp

lemma length_rem:
  fixes k :: "'k::linorder"
  assumes "sorted_wrt (<) (map fst ps)" and "k \<in> fst ` set ps"
  shows "length (rem k ps) = length ps - 1"
  using assms
proof (induction ps)
  case (Cons p ps)
  show ?case
  proof (cases "fst p = k")
    case True
    then have "rem k ps = ps" using Cons.prems(1) by (intro rem_absent) auto
    with True show ?thesis by (simp add: rem_def)
  next
    case False
    with Cons have "length (rem k ps) = length ps - 1" "ps \<noteq> []" by auto
    with False show ?thesis by (cases ps) (simp_all add: rem_def)
  qed
qed simp

lemma map_of_filter: "map_of (filter (\<lambda>p. P (fst p)) ps) x = (if P x then map_of ps x else None)"
  by (induction ps) auto

lemma map_of_put: "map_of (put k v ps) = (map_of ps)(k \<mapsto> v)"
  by (rule ext) (auto simp: put_def map_add_def map_of_filter [of "\<lambda>a. a < k"] map_of_filter [of "(<) k"]
      split: option.split)

lemma map_of_rem: "map_of (rem k ps) = (map_of ps)(k := None)"
  by (rule ext) (simp add: rem_def map_of_filter [of "\<lambda>a. a \<noteq> k"])

lemma map_of_entries_Node:
  assumes "ordered (Node k v l r x)"
  shows "map_of (entries (Node k v l r x)) a =
    (if a = k then Some v else if a < k then map_of (entries l) a else map_of (entries r) a)"
proof -
  have "map_of (entries l) b = None" if "k \<le> b" for b
    using assms that by (fastforce simp: map_of_eq_None_iff)
  moreover have "map_of (entries r) b = None" if "b \<le> k" for b
    using assms that by (fastforce simp: map_of_eq_None_iff)
  ultimately show ?thesis by (auto simp: map_add_def split: option.split)
qed

text \<open>Deleting in a tree whose node keys enclose the key, as \<open>put_left\<close> and \<open>put_right\<close> for inserting.\<close>

lemma rem_sides:
  assumes "ordered (Node a b l r x)"
  shows "k \<le> a \<Longrightarrow> rem k (entries r) = entries r" and "a \<le> k \<Longrightarrow> rem k (entries l) = entries l"
  using assms by (auto intro!: rem_absent)

section \<open>Searching\<close>

text \<open>The loop \<open>while (node && node->key_ != key)\<close> of \<open>_find\<close>: the node it ends at.\<close>

primrec search :: "('k::linorder, 'v, 'x) node \<Rightarrow> 'k \<Rightarrow> ('k, 'v, 'x) node" where
  "search Null key = Null"
| "search (Node k v l r x) key =
     (if k = key then Node k v l r x else if key > k then search r key else search l key)"

primrec node_val :: "('k, 'v, 'x) node \<Rightarrow> 'v option" where
  "node_val Null = None"
| "node_val (Node k v l r x) = Some v"

primrec node_left :: "('k, 'v, 'x) node \<Rightarrow> ('k, 'v, 'x) node" where
  "node_left (Node k v l r x) = l"

primrec node_right :: "('k, 'v, 'x) node \<Rightarrow> ('k, 'v, 'x) node" where
  "node_right (Node k v l r x) = r"

primrec node_key :: "('k, 'v, 'x) node \<Rightarrow> 'k" where
  "node_key (Node k v l r x) = k"

fun find_max :: "('k, 'v, 'x) node \<Rightarrow> ('k, 'v, 'x) node" where
  "find_max Null = Null"
| "find_max (Node k v l Null x) = Node k v l Null x"
| "find_max (Node k v l (Node k' v' l' r' x') x) = find_max (Node k' v' l' r' x')"

fun find_min :: "('k, 'v, 'x) node \<Rightarrow> ('k, 'v, 'x) node" where
  "find_min Null = Null"
| "find_min (Node k v Null r x) = Node k v Null r x"
| "find_min (Node k v (Node k' v' l' r' x') r x) = find_min (Node k' v' l' r' x')"

text \<open>
  The loops of \<open>getprenode\<close> and \<open>getnextnode\<close>: the node found and the last node on the way that
  was left to the right, or to the left.
\<close>

primrec search_pre :: "('k::linorder, 'v, 'x) node \<Rightarrow> 'k \<Rightarrow> ('k, 'v, 'x) node \<Rightarrow> ('k, 'v, 'x) node \<times> ('k, 'v, 'x) node" where
  "search_pre Null key lastNodeHaveRightChild = (Null, lastNodeHaveRightChild)"
| "search_pre (Node k v l r x) key lastNodeHaveRightChild =
     (if k = key then (Node k v l r x, lastNodeHaveRightChild)
      else if key > k then search_pre r key (Node k v l r x)
      else search_pre l key lastNodeHaveRightChild)"

primrec search_next :: "('k::linorder, 'v, 'x) node \<Rightarrow> 'k \<Rightarrow> ('k, 'v, 'x) node \<Rightarrow> ('k, 'v, 'x) node \<times> ('k, 'v, 'x) node" where
  "search_next Null key lastHaveLeftChild = (Null, lastHaveLeftChild)"
| "search_next (Node k v l r x) key lastHaveLeftChild =
     (if k = key then (Node k v l r x, lastHaveLeftChild)
      else if key < k then search_next l key (Node k v l r x)
      else search_next r key lastHaveLeftChild)"

definition getprenode :: "('k::linorder, 'v, 'x) node \<Rightarrow> 'k \<Rightarrow> 'v option" where
  "getprenode root key =
     (case search_pre root key Null of (current, lastNodeHaveRightChild) \<Rightarrow>
        if is_Null current then None
        else node_val (if \<not> is_Null (node_left current) then find_max (node_left current) else lastNodeHaveRightChild))"

definition getnextnode :: "('k::linorder, 'v, 'x) node \<Rightarrow> 'k \<Rightarrow> 'v option" where
  "getnextnode root key =
     (case search_next root key Null of (node, lastHaveLeftChild) \<Rightarrow>
        if is_Null node then None
        else node_val (if \<not> is_Null (node_right node) then find_min (node_right node) else lastHaveLeftChild))"

lemma search_val: "ordered t \<Longrightarrow> node_val (search t key) = map_of (entries t) key"
proof (induction t)
  case (Node a b l r x)
  then show ?case by (auto simp: map_of_entries_Node [OF Node.prems] simp del: entries.simps)
qed simp

lemma find_max_val: "node_val (find_max t) = (if t = Null then None else Some (snd (last (entries t))))"
  by (induction t rule: find_max.induct) auto

lemma find_min_val: "node_val (find_min t) = (if t = Null then None else Some (snd (hd (entries t))))"
  by (induction t rule: find_min.induct) (auto simp: hd_append)

text \<open>The entries before and behind a key.\<close>

definition lower :: "'k::linorder \<Rightarrow> ('k \<times> 'v) list \<Rightarrow> ('k \<times> 'v) list" where
  "lower k ps = filter (\<lambda>p. fst p < k) ps"

definition upper :: "'k::linorder \<Rightarrow> ('k \<times> 'v) list \<Rightarrow> ('k \<times> 'v) list" where
  "upper k ps = filter (\<lambda>p. k < fst p) ps"

lemma bounds_Node:
  assumes "ordered (Node a b l r x)"
  shows "lower k (entries (Node a b l r x)) = (if k \<le> a then lower k (entries l) else entries l @ (a, b) # lower k (entries r))"
    and "upper k (entries (Node a b l r x)) = (if a \<le> k then upper k (entries r) else upper k (entries l) @ (a, b) # entries r)"
proof -
  have "filter (\<lambda>p. fst p < k) (entries r) = []" if "k \<le> a" using assms that by (intro filter_none) fastforce
  moreover have "filter (\<lambda>p. fst p < k) (entries l) = entries l" if "a < k" using assms that by (intro filter_all) fastforce
  ultimately show "lower k (entries (Node a b l r x)) = (if k \<le> a then lower k (entries l) else entries l @ (a, b) # lower k (entries r))"
    by (auto simp: lower_def)
  have "filter (\<lambda>p. k < fst p) (entries l) = []" if "a \<le> k" using assms that by (intro filter_none) fastforce
  moreover have "filter (\<lambda>p. k < fst p) (entries r) = entries r" if "k < a" using assms that by (intro filter_all) fastforce
  ultimately show "upper k (entries (Node a b l r x)) = (if a \<le> k then upper k (entries r) else upper k (entries l) @ (a, b) # entries r)"
    by (auto simp: upper_def)
qed

definition last_val :: "('k \<times> 'v) list \<Rightarrow> 'v option" where
  "last_val ps = (if ps = [] then None else Some (snd (last ps)))"

definition first_val :: "('k \<times> 'v) list \<Rightarrow> 'v option" where
  "first_val ps = (if ps = [] then None else Some (snd (hd ps)))"

lemma search_pre_correct:
  "ordered t \<Longrightarrow> (case search_pre t key u of (current, u') \<Rightarrow>
     (is_Null current \<longleftrightarrow> key \<notin> set (keys t)) \<and>
     (key \<in> set (keys t) \<longrightarrow>
       node_val (if \<not> is_Null (node_left current) then find_max (node_left current) else u') =
       (if lower key (entries t) = [] then node_val u else last_val (lower key (entries t)))))"
proof (induction t arbitrary: u)
  case (Node a b l r x)
  have o: "ordered l" "ordered r" using Node.prems by auto
  have no: "a \<le> key \<Longrightarrow> key \<notin> set (keys l)" "key \<le> a \<Longrightarrow> key \<notin> set (keys r)"
    using Node.prems by fastforce+
  have here: "lower a (entries l) = entries l" using Node.prems by (auto simp: lower_def intro!: filter_all)
  consider "a = key" | "a < key" | "key < a" by fastforce
  then show ?case
  proof cases
    case 1
    have e: "lower key (entries (Node a b l r x)) = entries l"
      unfolding bounds_Node(1) [OF Node.prems] using 1 here by simp
    have s: "search_pre (Node a b l r x) key u = (Node a b l r x, u)" using 1 by simp
    show ?thesis unfolding s prod.case e using 1 by (simp add: find_max_val last_val_def is_Null_def)
  next
    case 2
    then have s: "search_pre (Node a b l r x) key u = search_pre r key (Node a b l r x)" by auto
    have k: "key \<in> set (keys (Node a b l r x)) \<longleftrightarrow> key \<in> set (keys r)" using no(1) 2 by auto
    show ?thesis unfolding s k bounds_Node(1) [OF Node.prems]
      using Node.IH(2) [OF o(2), of "Node a b l r x"] 2 by (auto simp: last_val_def hd_append split: prod.splits if_splits)
  next
    case 3
    then have s: "search_pre (Node a b l r x) key u = search_pre l key (u)" by auto
    have k: "key \<in> set (keys (Node a b l r x)) \<longleftrightarrow> key \<in> set (keys l)" using no(2) 3 by auto
    show ?thesis unfolding s k bounds_Node(1) [OF Node.prems]
      using Node.IH(1) [OF o(1), of "u"] 3 by (auto simp: last_val_def hd_append split: prod.splits if_splits)
  qed
qed simp

lemma search_next_correct:
  "ordered t \<Longrightarrow> (case search_next t key u of (current, u') \<Rightarrow>
     (is_Null current \<longleftrightarrow> key \<notin> set (keys t)) \<and>
     (key \<in> set (keys t) \<longrightarrow>
       node_val (if \<not> is_Null (node_right current) then find_min (node_right current) else u') =
       (if upper key (entries t) = [] then node_val u else first_val (upper key (entries t)))))"
proof (induction t arbitrary: u)
  case (Node a b l r x)
  have o: "ordered l" "ordered r" using Node.prems by auto
  have no: "a \<le> key \<Longrightarrow> key \<notin> set (keys l)" "key \<le> a \<Longrightarrow> key \<notin> set (keys r)"
    using Node.prems by fastforce+
  have here: "upper a (entries r) = entries r" using Node.prems by (auto simp: upper_def intro!: filter_all)
  consider "a = key" | "a < key" | "key < a" by fastforce
  then show ?case
  proof cases
    case 1
    have e: "upper key (entries (Node a b l r x)) = entries r"
      unfolding bounds_Node(2) [OF Node.prems] using 1 here by simp
    have s: "search_next (Node a b l r x) key u = (Node a b l r x, u)" using 1 by simp
    show ?thesis unfolding s prod.case e using 1 by (simp add: find_min_val first_val_def is_Null_def)
  next
    case 2
    then have s: "search_next (Node a b l r x) key u = search_next r key (u)" by auto
    have k: "key \<in> set (keys (Node a b l r x)) \<longleftrightarrow> key \<in> set (keys r)" using no(1) 2 by auto
    show ?thesis unfolding s k bounds_Node(2) [OF Node.prems]
      using Node.IH(2) [OF o(2), of "u"] 2 by (auto simp: first_val_def hd_append split: prod.splits if_splits)
  next
    case 3
    then have s: "search_next (Node a b l r x) key u = search_next l key (Node a b l r x)" by auto
    have k: "key \<in> set (keys (Node a b l r x)) \<longleftrightarrow> key \<in> set (keys l)" using no(2) 3 by auto
    show ?thesis unfolding s k bounds_Node(2) [OF Node.prems]
      using Node.IH(1) [OF o(1), of "Node a b l r x"] 3 by (auto simp: first_val_def hd_append split: prod.splits if_splits)
  qed
qed simp

lemma getprenode_val:
  "ordered t \<Longrightarrow> getprenode t key = (if key \<in> set (keys t) then last_val (lower key (entries t)) else None)"
  using search_pre_correct [of t key Null]
  by (auto simp: getprenode_def last_val_def split: prod.splits)

lemma getnextnode_val:
  "ordered t \<Longrightarrow> getnextnode t key = (if key \<in> set (keys t) then first_val (upper key (entries t)) else None)"
  using search_next_correct [of t key Null]
  by (auto simp: getnextnode_def first_val_def split: prod.splits)

text \<open>The same read off the finite map.\<close>

lemma sorted_last_Max:
  assumes "sorted_wrt (<) (map fst ps)" and "ps \<noteq> []"
  shows "last_val ps = map_of ps (Max (fst ` set ps))"
proof -
  obtain qs a b where ps: "ps = qs @ [(a, b)]" using assms(2) by (cases ps rule: rev_cases) auto
  have "Max (fst ` set ps) = a" using assms(1) by (intro Max_eqI) (auto simp: ps sorted_wrt_append)
  moreover have "map_of ps a = Some b"
    using assms(1) by (intro map_of_is_SomeI) (auto simp: ps strict_sorted_iff)
  ultimately show ?thesis by (simp add: ps last_val_def)
qed

lemma sorted_first_Min:
  assumes "sorted_wrt (<) (map fst ps)" and "ps \<noteq> []"
  shows "first_val ps = map_of ps (Min (fst ` set ps))"
proof -
  obtain qs a b where ps: "ps = (a, b) # qs" using assms(2) by (cases ps) auto
  have "Min (fst ` set ps) = a" using assms(1) by (intro Min_eqI) (auto simp: ps)
  then show ?thesis by (simp add: ps first_val_def)
qed

lemma neighbours:
  assumes "ordered t"
  defines "m \<equiv> map_of (entries t)"
  shows "getprenode t key = (if key \<in> dom m \<and> (\<exists>k \<in> dom m. k < key) then m (Max {k \<in> dom m. k < key}) else None)"
    and "getnextnode t key = (if key \<in> dom m \<and> (\<exists>k \<in> dom m. key < k) then m (Min {k \<in> dom m. key < k}) else None)"
proof -
  have s: "sorted_wrt (<) (map fst (entries t))" using assms(1) by (simp add: ordered_def)
  have d: "dom m = set (keys t)" by (simp add: m_def dom_map_of_conv_image_fst)
  have "sorted_wrt (<) (map fst (lower key (entries t)))" using s by (simp add: lower_def sorted_wrt_map sorted_wrt_filter)
  moreover have l: "fst ` set (lower key (entries t)) = {k \<in> dom m. k < key}" by (auto simp: d lower_def)
  moreover have "map_of (lower key (entries t)) k = m k" if "k < key" for k
    using that by (simp add: lower_def m_def map_of_filter [of "\<lambda>a. a < key"])
  moreover have "Max {k \<in> dom m. k < key} < key" if "\<exists>k \<in> dom m. k < key"
    using that by (subst Max_less_iff) (auto simp: d)
  moreover have "lower key (entries t) = [] \<longleftrightarrow> \<not> (\<exists>k \<in> dom m. k < key)"
    using arg_cong [OF l, of "\<lambda>A. A = {}"] by auto
  ultimately show "getprenode t key = (if key \<in> dom m \<and> (\<exists>k \<in> dom m. k < key) then m (Max {k \<in> dom m. k < key}) else None)"
    using sorted_last_Max [of "lower key (entries t)"]
    by (auto simp: getprenode_val [OF assms(1)] d last_val_def)
  have "sorted_wrt (<) (map fst (upper key (entries t)))" using s by (simp add: upper_def sorted_wrt_map sorted_wrt_filter)
  moreover have u: "fst ` set (upper key (entries t)) = {k \<in> dom m. key < k}" by (auto simp: d upper_def)
  moreover have "map_of (upper key (entries t)) k = m k" if "key < k" for k
    using that by (simp add: upper_def m_def map_of_filter [of "(<) key"])
  moreover have "key < Min {k \<in> dom m. key < k}" if "\<exists>k \<in> dom m. key < k"
    using that by (subst Min_gr_iff) (auto simp: d)
  moreover have "upper key (entries t) = [] \<longleftrightarrow> \<not> (\<exists>k \<in> dom m. key < k)"
    using arg_cong [OF u, of "\<lambda>A. A = {}"] by auto
  ultimately show "getnextnode t key = (if key \<in> dom m \<and> (\<exists>k \<in> dom m. key < k) then m (Min {k \<in> dom m. key < k}) else None)"
    using sorted_first_Min [of "upper key (entries t)"]
    by (auto simp: getnextnode_val [OF assms(1)] d first_val_def)
qed

lemma extremes:
  assumes "ordered t" and "t \<noteq> Null"
  shows "Some (snd (last (entries t))) = map_of (entries t) (Max (dom (map_of (entries t))))"
    and "Some (snd (hd (entries t))) = map_of (entries t) (Min (dom (map_of (entries t))))"
  using sorted_last_Max [of "entries t"] sorted_first_Min [of "entries t"] assms
  by (simp_all add: ordered_def last_val_def first_val_def dom_map_of_conv_image_fst)

lemma extreme_vals:
  assumes "ordered t"
  defines "m \<equiv> map_of (entries t)"
  shows "(case node_val (find_max t) of None \<Rightarrow> d | Some v \<Rightarrow> v) = (if dom m = {} then d else the (m (Max (dom m))))"
    and "(case node_val (find_min t) of None \<Rightarrow> d | Some v \<Rightarrow> v) = (if dom m = {} then d else the (m (Min (dom m))))"
proof -
  have "dom m = {} \<longleftrightarrow> t = Null" by (simp add: m_def dom_map_of_conv_image_fst)
  then show "(case node_val (find_max t) of None \<Rightarrow> d | Some v \<Rightarrow> v) = (if dom m = {} then d else the (m (Max (dom m))))"
    "(case node_val (find_min t) of None \<Rightarrow> d | Some v \<Rightarrow> v) = (if dom m = {} then d else the (m (Min (dom m))))"
    by (simp_all add: find_max_val find_min_val m_def flip: extremes [OF assms(1)])
qed

end
