(* ===== verification/Tree_Traversal.thy ===== *)
theory Tree_Traversal
  imports Search_Tree
begin

text \<open>
  The traversals of the trees: the three recursive ones, the three with an explicit stack, and the
  one by levels with a queue.  What the callback \<open>fun\<close> is called with is collected in a list.
  The stacks are arrays of \<open>n = size()\<close> elements; \<open>None\<close> is an access outside of them.
\<close>

primrec preorder :: "('k, 'v, 'x) node \<Rightarrow> 'k list" where
  "preorder Null = []"
| "preorder (Node k v l r x) = k # preorder l @ preorder r"

primrec inorder :: "('k, 'v, 'x) node \<Rightarrow> 'k list" where
  "inorder Null = []"
| "inorder (Node k v l r x) = inorder l @ k # inorder r"

primrec postorder :: "('k, 'v, 'x) node \<Rightarrow> 'k list" where
  "postorder Null = []"
| "postorder (Node k v l r x) = postorder l @ postorder r @ [k]"

lemma inorder_keys: "inorder t = keys t"
  by (induction t) auto

section \<open>With an explicit stack\<close>

text \<open>
  The inner loops, which go down to the left and push the nodes; \<open>None\<close> for the bound of a
  stack is one that grows (\<open>ArrayStack\<close>).
\<close>

type_synonym ('k, 'v, 'x) stack = "('k, 'v, 'x) node list"

definition room :: "nat option \<Rightarrow> nat \<Rightarrow> bool" where
  "room bound depth = (case bound of None \<Rightarrow> True | Some n \<Rightarrow> depth < n)"

primrec down_preorder :: "('k, 'v, 'x) node \<Rightarrow> nat option \<Rightarrow> ('k, 'v, 'x) stack \<Rightarrow> 'k list \<Rightarrow>
    (('k, 'v, 'x) stack \<times> 'k list) option" where
  "down_preorder Null n st out = Some (st, out)"
| "down_preorder (Node k v l r x) n st out =
     (if room n (length st) then down_preorder l n (Node k v l r x # st) (out @ [k]) else None)"

primrec down_inorder :: "('k, 'v, 'x) node \<Rightarrow> nat option \<Rightarrow> ('k, 'v, 'x) stack \<Rightarrow> ('k, 'v, 'x) stack option" where
  "down_inorder Null n st = Some st"
| "down_inorder (Node k v l r x) n st =
     (if room n (length st) then down_inorder l n (Node k v l r x # st) else None)"

primrec down_postorder :: "('k, 'v, 'x) node \<Rightarrow> nat option \<Rightarrow> (('k, 'v, 'x) node \<times> nat) list \<Rightarrow>
    (('k, 'v, 'x) node \<times> nat) list option" where
  "down_postorder Null n st = Some st"
| "down_postorder (Node k v l r x) n st =
     (if room n (length st) then down_postorder l n ((Node k v l r x, 1) # st) else None)"

definition stack_preorder :: "nat option \<Rightarrow> ('k, 'v, 'x) node \<Rightarrow> 'k list option" where
  "stack_preorder n root =
     do {
       (node, st, out) \<leftarrow> cwhile (\<lambda>(node, st, out). Some (\<not> is_Null node \<or> st \<noteq> []))
         (\<lambda>(node, st, out). do {
            (st, out) \<leftarrow> down_preorder node n st out;
            Some (case st of [] \<Rightarrow> (Null, [], out) | node # st \<Rightarrow> (node_right node, st, out)) })
         (root, [], []);
       Some out
     }"

definition stack_inorder :: "nat option \<Rightarrow> ('k, 'v, 'x) node \<Rightarrow> 'k list option" where
  "stack_inorder n root =
     do {
       (node, st, out) \<leftarrow> cwhile (\<lambda>(node, st, out). Some (\<not> is_Null node \<or> st \<noteq> []))
         (\<lambda>(node, st, out). do {
            st \<leftarrow> down_inorder node n st;
            Some (case st of [] \<Rightarrow> (Null, [], out) | node # st \<Rightarrow> (node_right node, st, out @ [node_key node])) })
         (root, [], []);
       Some out
     }"

text \<open>The flags are kept beside the nodes: 1 the right child comes next, 2 it was visited.\<close>

definition stack_postorder :: "nat option \<Rightarrow> ('k, 'v, 'x) node \<Rightarrow> 'k list option" where
  "stack_postorder n root =
     do {
       (node, st, out) \<leftarrow> cwhile (\<lambda>(node, st, out). Some (\<not> is_Null node \<or> st \<noteq> []))
         (\<lambda>(node, st, out). do {
            st \<leftarrow> down_postorder node n st;
            Some (case st of
                [] \<Rightarrow> (Null, [], out)
              | (node, flag) # st \<Rightarrow>
                  if flag = 1 then (node_right node, (node, 2) # st, out)
                  else (Null, st, out @ [node_key node])) })
         (root, [], []);
       Some out
     }"

text \<open>What a stack still has to do, and how many nodes that is.\<close>

definition due :: "(('k, 'v, 'x) node \<Rightarrow> 'k list) \<Rightarrow> ('k, 'v, 'x) stack \<Rightarrow> 'k list" where
  "due f st = concat (map f st)"

definition weight :: "('k, 'v, 'x) node \<Rightarrow> ('k, 'v, 'x) stack \<Rightarrow> nat" where
  "weight node st = nodes node + (\<Sum>s \<leftarrow> st. 1 + nodes (node_right s))"

lemma weight_simps [simp]:
  "weight node (Node k v l r x # st) = weight node st + 1 + nodes r"
  "weight node [] = nodes node"
  by (simp_all add: weight_def)

lemma weight_split: "weight node st = nodes node + weight Null st"
  by (simp add: weight_def)

lemma length_weight: "length st \<le> weight Null st"
  by (induction st) (auto simp: weight_def)

lemma down_preorder_ok:
  assumes "\<forall>n. bound = Some n \<longrightarrow> weight node st \<le> n" and "\<forall>s \<in> set st. s \<noteq> Null"
  shows "ok (down_preorder node bound st out) (\<lambda>(st', out').
    out' @ due (\<lambda>s. preorder (node_right s)) st' = out @ preorder node @ due (\<lambda>s. preorder (node_right s)) st \<and>
    weight Null st' = weight node st \<and> (\<forall>s \<in> set st'. s \<noteq> Null) \<and> (st' = [] \<longrightarrow> node = Null \<and> st = []))"
  using assms
proof (induction node arbitrary: st out)
  case (Node k v l r x)
  have "room bound (length st)"
    using Node.prems(1) length_weight [of st] weight_split [of "Node k v l r x" st] by (auto simp: room_def split: option.split)
  moreover have "\<forall>n. bound = Some n \<longrightarrow> weight l (Node k v l r x # st) \<le> n"
    using Node.prems(1) weight_split [of "Node k v l r x" st] weight_split [of l st] by auto
  ultimately show ?case
    using Node.IH(1) [of "Node k v l r x # st" "out @ [k]"] Node.prems(2)
      weight_split [of "Node k v l r x" st] weight_split [of l st]
    by (auto simp: due_def elim!: ok_mono)
qed (simp add: due_def)

lemma down_inorder_ok:
  assumes "\<forall>n. bound = Some n \<longrightarrow> weight node st \<le> n" and "\<forall>s \<in> set st. s \<noteq> Null"
  shows "ok (down_inorder node bound st) (\<lambda>st'.
    due (\<lambda>s. node_key s # inorder (node_right s)) st' = inorder node @ due (\<lambda>s. node_key s # inorder (node_right s)) st \<and>
    weight Null st' = weight node st \<and> (\<forall>s \<in> set st'. s \<noteq> Null) \<and> (st' = [] \<longrightarrow> node = Null \<and> st = []))"
  using assms
proof (induction node arbitrary: st)
  case (Node k v l r x)
  have "room bound (length st)"
    using Node.prems(1) length_weight [of st] weight_split [of "Node k v l r x" st] by (auto simp: room_def split: option.split)
  moreover have "\<forall>n. bound = Some n \<longrightarrow> weight l (Node k v l r x # st) \<le> n"
    using Node.prems(1) weight_split [of "Node k v l r x" st] weight_split [of l st] by auto
  ultimately show ?case
    using Node.IH(1) [of "Node k v l r x # st"] Node.prems(2)
      weight_split [of "Node k v l r x" st] weight_split [of l st]
    by (auto simp: due_def elim!: ok_mono)
qed (simp add: due_def)

text \<open>For the postorder the weight of a node on the stack depends on its flag.\<close>

definition pdue :: "(('k, 'v, 'x) node \<times> nat) list \<Rightarrow> 'k list" where
  "pdue st = concat (map (\<lambda>(s, f). (if f = 1 then postorder (node_right s) else []) @ [node_key s]) st)"

definition pweight :: "nat \<Rightarrow> ('k, 'v, 'x) node \<Rightarrow> (('k, 'v, 'x) node \<times> nat) list \<Rightarrow> nat" where
  "pweight m node st = m * nodes node + (\<Sum>(s, f) \<leftarrow> st. if f = 1 then m + m * nodes (node_right s) else 1)"

lemma pweight_simps [simp]:
  "pweight m node ((s, f) # st) = pweight m node st + (if f = 1 then m + m * nodes (node_right s) else 1)"
  "pweight m node [] = m * nodes node"
  by (simp_all add: pweight_def)

lemma pweight_split: "pweight m node st = m * nodes node + pweight m Null st"
  by (simp add: pweight_def)

lemma length_pweight: "length st \<le> pweight 1 Null st"
  by (induction st) (auto simp: pweight_def)

lemma down_postorder_ok:
  assumes "\<forall>n. bound = Some n \<longrightarrow> pweight 1 node st \<le> n" and "\<forall>s \<in> set st. fst s \<noteq> Null"
  shows "ok (down_postorder node bound st) (\<lambda>st'. pdue st' = postorder node @ pdue st \<and>
    (\<forall>m. pweight m Null st' = pweight m node st) \<and> (\<forall>s \<in> set st'. fst s \<noteq> Null) \<and> (st' = [] \<longrightarrow> node = Null \<and> st = []))"
  using assms
proof (induction node arbitrary: st)
  case (Node k v l r x)
  have w: "pweight m (Node k v l r x) st = pweight m l ((Node k v l r x, 1) # st)" for m
    using pweight_split [of m "Node k v l r x" st] pweight_split [of m l st] by (simp add: algebra_simps)
  have "room bound (length st)"
    using Node.prems(1) length_pweight [of st] pweight_split [of 1 "Node k v l r x" st] by (auto simp: room_def split: option.split)
  then show ?case
    using Node.IH(1) [of "(Node k v l r x, 1) # st"] Node.prems w
    by (auto simp: pdue_def elim!: ok_mono)
qed (simp add: pdue_def)

lemma stack_top:
  assumes "\<forall>s \<in> set st. s \<noteq> Null" and "st \<noteq> []"
  obtains k v l r x st' where "st = Node k v l r x # st'"
  using assms by (cases st; cases "hd st") auto

text \<open>The loop that all three have: an invariant and a measure that every round decreases.\<close>

lemma traversal_loop:
  fixes m :: "('k, 'v, 'x) node \<times> 's list \<times> 'k list \<Rightarrow> nat"
  assumes "I (root, [], [])" and "\<And>out. I (Null, [], out) \<Longrightarrow> out = res"
    and "\<And>node st out. I (node, st, out) \<Longrightarrow> \<not> is_Null node \<or> st \<noteq> [] \<Longrightarrow>
      ok (body (node, st, out)) (\<lambda>s. I s \<and> m s < m (node, st, out))"
  shows "do { (node, st, out) \<leftarrow> cwhile (\<lambda>(node, st, out). Some (\<not> is_Null node \<or> st \<noteq> [])) body (root, [], []);
      Some out } = Some res"
proof -
  have "ok (cwhile (\<lambda>(node, st, out). Some (\<not> is_Null node \<or> st \<noteq> [])) body (root, [], []))
      (\<lambda>(node, st, out). out = res)"
    by (rule cwhile_rule [where I = I and m = m]) (use assms in \<open>auto simp: is_Null_def\<close>)
  then show ?thesis by (auto elim: okE)
qed

text \<open>The three loops visit the nodes in the order of their recursive versions, inside their stacks.\<close>

lemma stack_preorder_correct:
  assumes "\<forall>n. bound = Some n \<longrightarrow> nodes root \<le> n"
  shows "stack_preorder bound root = Some (preorder root)"
  unfolding stack_preorder_def
proof (rule traversal_loop [where m = "\<lambda>(node, st, out). weight node st" and
      I = "\<lambda>(node, st, out). out @ preorder node @ due (\<lambda>s. preorder (node_right s)) st = preorder root \<and>
        (\<forall>n. bound = Some n \<longrightarrow> weight node st \<le> n) \<and> (\<forall>s \<in> set st. s \<noteq> Null)"], goal_cases)
  case (3 node st out)
  then obtain st' out' where d: "down_preorder node bound st out = Some (st', out')"
      "out' @ due (\<lambda>s. preorder (node_right s)) st' = out @ preorder node @ due (\<lambda>s. preorder (node_right s)) st"
      "weight Null st' = weight node st" "\<forall>s \<in> set st'. s \<noteq> Null" "st' = [] \<longrightarrow> node = Null \<and> st = []"
    using down_preorder_ok [of bound node st out] by (auto elim!: okE)
  with 3(2) have "st' \<noteq> []" by (auto simp: is_Null_def)
  with d(4) obtain k v l r x st'' where "st' = Node k v l r x # st''" by (rule stack_top)
  then show ?case using d 3(1) weight_split [of r st''] by (auto simp: due_def)
qed (use assms in \<open>auto simp: due_def\<close>)

lemma stack_inorder_correct:
  assumes "\<forall>n. bound = Some n \<longrightarrow> nodes root \<le> n"
  shows "stack_inorder bound root = Some (inorder root)"
  unfolding stack_inorder_def
proof (rule traversal_loop [where m = "\<lambda>(node, st, out). weight node st" and
      I = "\<lambda>(node, st, out). out @ inorder node @ due (\<lambda>s. node_key s # inorder (node_right s)) st = inorder root \<and>
        (\<forall>n. bound = Some n \<longrightarrow> weight node st \<le> n) \<and> (\<forall>s \<in> set st. s \<noteq> Null)"], goal_cases)
  case (3 node st out)
  then obtain st' where d: "down_inorder node bound st = Some st'"
      "due (\<lambda>s. node_key s # inorder (node_right s)) st' = inorder node @ due (\<lambda>s. node_key s # inorder (node_right s)) st"
      "weight Null st' = weight node st" "\<forall>s \<in> set st'. s \<noteq> Null" "st' = [] \<longrightarrow> node = Null \<and> st = []"
    using down_inorder_ok [of bound node st] by (auto elim!: okE)
  with 3(2) have "st' \<noteq> []" by (auto simp: is_Null_def)
  with d(4) obtain k v l r x st'' where "st' = Node k v l r x # st''" by (rule stack_top)
  then show ?case using d 3(1) weight_split [of r st''] by (auto simp: due_def)
qed (use assms in \<open>auto simp: due_def\<close>)

lemma stack_postorder_correct:
  assumes "\<forall>n. bound = Some n \<longrightarrow> nodes root \<le> n"
  shows "stack_postorder bound root = Some (postorder root)"
  unfolding stack_postorder_def
proof (rule traversal_loop [where m = "\<lambda>(node, st, out). pweight 2 node st" and
      I = "\<lambda>(node, st, out). out @ postorder node @ pdue st = postorder root \<and>
        (\<forall>n. bound = Some n \<longrightarrow> pweight 1 node st \<le> n) \<and> (\<forall>s \<in> set st. fst s \<noteq> Null)"], goal_cases)
  case (3 node st out)
  then obtain st' where d: "down_postorder node bound st = Some st'" "pdue st' = postorder node @ pdue st"
      "\<And>m. pweight m Null st' = pweight m node st" "\<forall>s \<in> set st'. fst s \<noteq> Null" "st' = [] \<longrightarrow> node = Null \<and> st = []"
    using down_postorder_ok [of bound node st] by (auto elim!: okE)
  with 3(2) have "st' \<noteq> []" by (auto simp: is_Null_def)
  then obtain s f st'' where st': "st' = (s, f) # st''" by (cases st') auto
  with d(4) obtain k v l r x where s: "s = Node k v l r x" by (cases s) auto
  have "pweight m r ((s, 2) # st'') = m * nodes r + 1 + pweight m Null st''" for m
    using pweight_split [of m r st''] by simp
  moreover have "pweight m Null st' = pweight m Null st'' + (if f = 1 then m + m * nodes r else 1)" for m
    by (simp add: st' s)
  ultimately show ?case using d(1,2,4) d(3) [of 1] d(3) [of 2] 3(1) by (auto simp: pdue_def st' s)
qed (use assms in \<open>auto simp: pdue_def\<close>)

section \<open>By levels\<close>

text \<open>The queue of \<open>level_order\<close>: the front is visited and its children go to the back.\<close>

primrec children :: "('k, 'v, 'x) node \<Rightarrow> ('k, 'v, 'x) node list" where
  "children Null = []"
| "children (Node k v l r x) = (if is_Null l then [] else [l]) @ (if is_Null r then [] else [r])"

function level_loop :: "('k, 'v, 'x) node list \<Rightarrow> 'k list" where
  "level_loop [] = []"
| "level_loop (node # q) = node_key node # level_loop (q @ children node)"
  by pat_completeness auto

lemma nodes_children: "node \<noteq> Null \<Longrightarrow> (\<Sum>s \<leftarrow> children node. nodes s) + 1 = nodes node"
  by (cases node) (auto simp: is_Null_def)

termination level_loop
proof (relation "measure (\<lambda>q. (\<Sum>s \<leftarrow> q. nodes s) + length (filter is_Null q))", goal_cases)
  case (2 node q)
  have "filter is_Null (children node) = []" by (cases node) auto
  with nodes_children [of node] show ?case by (cases node) auto
qed simp

definition level_order :: "('k, 'v, 'x) node \<Rightarrow> 'k list" where
  "level_order root = (if is_Null root then [] else level_loop [root])"

text \<open>The keys at one depth, from left to right.\<close>

fun level :: "nat \<Rightarrow> ('k, 'v, 'x) node \<Rightarrow> 'k list" where
  "level n Null = []"
| "level 0 (Node k v l r x) = [k]"
| "level (Suc n) (Node k v l r x) = level n l @ level n r"

primrec tree_height :: "('k, 'v, 'x) node \<Rightarrow> nat" where
  "tree_height Null = 0"
| "tree_height (Node k v l r x) = max (tree_height l) (tree_height r) + 1"

abbreviation brood :: "('k, 'v, 'x) node list \<Rightarrow> ('k, 'v, 'x) node list" where
  "brood q \<equiv> concat (map children q)"

lemma level_loop_append: "level_loop (q @ q') = map node_key q @ level_loop (q' @ brood q)"
  by (induction q arbitrary: q') auto

lemma level_brood:
  assumes "\<forall>s \<in> set q. s \<noteq> Null"
  shows "concat (map (level (Suc n)) q) = concat (map (level n) (brood q))" and "concat (map (level 0) q) = map node_key q"
proof -
  have "level (Suc n) s = concat (map (level n) (children s)) \<and> level 0 s = [node_key s]" if "s \<noteq> Null" for s :: "('a, 'b, 'c) node"
    using that by (cases s) (auto simp: is_Null_def)
  with assms show "concat (map (level (Suc n)) q) = concat (map (level n) (brood q))" and "concat (map (level 0) q) = map node_key q"
    by (induction q) auto
qed

lemma children_height: "c \<in> set (children s) \<Longrightarrow> c \<noteq> Null \<and> tree_height c < tree_height s"
  by (cases s) (auto simp: is_Null_def split: if_splits)

lemma level_loop_levels:
  "\<forall>s \<in> set q. s \<noteq> Null \<and> tree_height s \<le> h \<Longrightarrow>
   level_loop q = concat (map (\<lambda>n. concat (map (level n) q)) [0..<h])"
proof (induction h arbitrary: q)
  case 0
  have "q = []"
  proof (rule ccontr)
    assume "q \<noteq> []"
    then obtain s where "s \<in> set q" by (cases q) auto
    with 0 show False by (cases s) auto
  qed
  then show ?case by simp
next
  case (Suc h)
  have "\<forall>s \<in> set (brood q). s \<noteq> Null \<and> tree_height s \<le> h" using Suc.prems children_height by fastforce
  from Suc.IH [OF this] have "level_loop q = map node_key q @ concat (map (\<lambda>n. concat (map (level n) (brood q))) [0..<h])"
    using level_loop_append [of q "[]"] by simp
  also have "\<dots> = concat (map (\<lambda>n. concat (map (level n) q)) (0 # map Suc [0..<h]))"
    using level_brood [of q] Suc.prems by (simp add: comp_def del: level.simps)
  also have "0 # map Suc [0..<h] = [0..<Suc h]" by (simp add: map_Suc_upt upt_conv_Cons del: upt_Suc)
  finally show ?case .
qed

lemma level_order_levels: "level_order t = concat (map (\<lambda>n. level n t) [0..<tree_height t])"
  using level_loop_levels [of "[t]" "tree_height t"] by (cases t) (auto simp: level_order_def)

end
