(* ===== verification/Binary_Search_Tree.thy ===== *)
theory Binary_Search_Tree
  imports Tree_Traversal
begin

text \<open>
  The interface \<open>BaseBinarySearchTree\<close> as a contract, and the plain search tree of
  \<open>BinarySearchTree.hpp\<close>, which keeps the first value of a key and deletes with the
  predecessor of a node with two children.
\<close>

section \<open>The interface\<close>

text \<open>
  \<open>keep old new\<close> is what inserting a key again leaves as its value; the results of \<open>insert\<close> and
  \<open>deletenode\<close> say whether the number of nodes has changed.
\<close>

primrec insert_all :: "('k \<Rightarrow> 'v \<Rightarrow> 't \<Rightarrow> (bool \<times> 't) option) \<Rightarrow> ('k \<times> 'v) list \<Rightarrow> 't \<Rightarrow> 't option" where
  "insert_all ins [] t = Some t"
| "insert_all ins (p # ps) t = do { (b, t) \<leftarrow> ins (fst p) (snd p) t; insert_all ins ps t }"

primrec put_all :: "('v \<Rightarrow> 'v \<Rightarrow> 'v) \<Rightarrow> ('k \<times> 'v) list \<Rightarrow> ('k \<rightharpoonup> 'v) \<Rightarrow> ('k \<rightharpoonup> 'v)" where
  "put_all keep [] m = m"
| "put_all keep (p # ps) m = put_all keep ps
     (m(fst p \<mapsto> (case m (fst p) of None \<Rightarrow> snd p | Some w \<Rightarrow> keep w (snd p))))"

locale dictionary =
  fixes inv :: "'t \<Rightarrow> bool" and root :: "'t \<Rightarrow> ('k::linorder, 'v, 'x) node" and count :: "'t \<Rightarrow> nat"
    and ins :: "'k \<Rightarrow> 'v \<Rightarrow> 't \<Rightarrow> (bool \<times> 't) option" and keep :: "'v \<Rightarrow> 'v \<Rightarrow> 'v"
  assumes inv_ordered: "inv t \<Longrightarrow> ordered (root t)"
    and inv_count: "inv t \<Longrightarrow> count t = nodes (root t)"
    and insert_entries: "inv t \<Longrightarrow> \<exists>t'. ins k v t = Some (k \<notin> set (keys (root t)), t') \<and> inv t' \<and>
      entries (root t') = put k (case map_of (entries (root t)) k of None \<Rightarrow> v | Some w \<Rightarrow> keep w v) (entries (root t))"
begin

lemma insert_map:
  assumes "inv t"
  obtains t' where "ins k v t = Some (k \<notin> set (keys (root t)), t')" and "inv t'"
    and "map_of (entries (root t')) = (map_of (entries (root t)))
      (k \<mapsto> (case map_of (entries (root t)) k of None \<Rightarrow> v | Some w \<Rightarrow> keep w v))"
  using insert_entries [OF assms, of k v] by (auto simp: map_of_put)

lemma insert_all_map:
  "inv t \<Longrightarrow> \<exists>t'. insert_all ins ps t = Some t' \<and> inv t' \<and>
     map_of (entries (root t')) = put_all keep ps (map_of (entries (root t)))"
proof (induction ps arbitrary: t)
  case (Cons p ps)
  obtain t' where t': "ins (fst p) (snd p) t = Some (fst p \<notin> set (keys (root t)), t')" "inv t'"
      "map_of (entries (root t')) = (map_of (entries (root t)))
        (fst p \<mapsto> (case map_of (entries (root t)) (fst p) of None \<Rightarrow> snd p | Some w \<Rightarrow> keep w (snd p)))"
    by (rule insert_map [OF Cons.prems])
  obtain u where "insert_all ins ps t' = Some u" "inv u" "map_of (entries (root u)) = put_all keep ps (map_of (entries (root t')))"
    using Cons.IH [OF t'(2)] by blast
  with t'(1) show ?case by (simp add: t'(3) del: fun_upd_apply)
qed simp

lemma count_card:
  assumes "inv t"
  shows "count t = card (dom (map_of (entries (root t))))"
proof -
  have "distinct (keys (root t))"
    using inv_ordered [OF assms] by (auto simp: ordered_def strict_sorted_iff)
  then have "card (set (keys (root t))) = length (keys (root t))" by (rule distinct_card)
  then show ?thesis by (simp add: inv_count [OF assms] dom_map_of_conv_image_fst)
qed

lemma observers:
  assumes "inv t"
  shows "node_val (search (root t) k) = map_of (entries (root t)) k"
    and "sorted (inorder (root t)) \<and> distinct (inorder (root t))"
    and "set (inorder (root t)) = dom (map_of (entries (root t)))"
proof -
  have o: "ordered (root t)" by (rule inv_ordered [OF assms])
  show "node_val (search (root t) k) = map_of (entries (root t)) k" by (rule search_val [OF o])
  show "sorted (inorder (root t)) \<and> distinct (inorder (root t))"
    using o by (simp add: inorder_keys ordered_def strict_sorted_iff)
  show "set (inorder (root t)) = dom (map_of (entries (root t)))"
    by (simp add: inorder_keys dom_map_of_conv_image_fst)
qed

end

locale erasable_dictionary = dictionary inv root count ins keep
  for inv :: "'t \<Rightarrow> bool" and root :: "'t \<Rightarrow> ('k::linorder, 'v, 'x) node" and count ins keep +
  fixes del :: "'k \<Rightarrow> 't \<Rightarrow> (bool \<times> 't) option"
  assumes delete_entries: "inv t \<Longrightarrow> \<exists>t'. del k t = Some (k \<in> set (keys (root t)), t') \<and> inv t' \<and>
      entries (root t') = rem k (entries (root t))"
begin

lemma delete_map:
  assumes "inv t"
  obtains t' where "del k t = Some (k \<in> set (keys (root t)), t')" and "inv t'"
    and "map_of (entries (root t')) = (map_of (entries (root t)))(k := None)"
  using delete_entries [OF assms, of k] by (auto simp: map_of_rem)

lemma insert_then_delete:
  assumes "inv t" and "k \<notin> set (keys (root t))"
  shows "\<exists>t' t''. ins k v t = Some (True, t') \<and> del k t' = Some (True, t'') \<and> inv t'' \<and>
    entries (root t'') = entries (root t)"
proof -
  obtain t' where t': "ins k v t = Some (True, t')" "inv t'"
      "entries (root t') = put k (case map_of (entries (root t)) k of None \<Rightarrow> v | Some w \<Rightarrow> keep w v) (entries (root t))"
    using insert_entries [OF assms(1), of k v] assms(2) by auto
  moreover have "k \<in> set (keys (root t'))" unfolding t'(3) put_def by simp
  moreover have "rem k (put k w (entries (root t))) = entries (root t)" for w
    by (rule rem_put) (use inv_ordered [OF assms(1)] assms(2) in \<open>simp_all add: ordered_def\<close>)
  ultimately show ?thesis using delete_entries [of t' k] by auto
qed

end

section \<open>The plain tree\<close>

record ('k, 'v) bst =
  bst_root :: "('k, 'v, unit) node"
  bst_size :: nat

definition bst_new :: "('k, 'v) bst" where
  "bst_new = \<lparr>bst_root = Null, bst_size = 0\<rparr>"

text \<open>The loop of \<open>insert\<close>, and the node hung below the last one: \<open>None\<close> when the key is there.\<close>

primrec bst_hang :: "'k::linorder \<Rightarrow> 'v \<Rightarrow> ('k, 'v, unit) node \<Rightarrow> ('k, 'v, unit) node option" where
  "bst_hang key val Null = Some (Node key val Null Null ())"
| "bst_hang key val (Node k v l r x) =
     (if k = key then None
      else if key < k then map_option (\<lambda>l'. Node k v l' r x) (bst_hang key val l)
      else map_option (\<lambda>r'. Node k v l r' x) (bst_hang key val r))"

definition bst_insert :: "'k::linorder \<Rightarrow> 'v \<Rightarrow> ('k, 'v) bst \<Rightarrow> bool \<times> ('k, 'v) bst" where
  "bst_insert key val t =
     (case bst_hang key val (bst_root t) of
        None \<Rightarrow> (False, t)
      | Some root \<Rightarrow> (True, t\<lparr>bst_root := root, bst_size := bst_size t + 1\<rparr>))"

definition bst_find :: "('k::linorder, 'v) bst \<Rightarrow> 'k \<Rightarrow> 'v option" where
  "bst_find t key = node_val (search (bst_root t) key)"

definition bst_getprenode :: "('k::linorder, 'v) bst \<Rightarrow> 'k \<Rightarrow> 'v option" where
  "bst_getprenode t key = getprenode (bst_root t) key"

definition bst_getnextnode :: "('k::linorder, 'v) bst \<Rightarrow> 'k \<Rightarrow> 'v option" where
  "bst_getnextnode t key = getnextnode (bst_root t) key"

definition bst_height :: "('k, 'v) bst \<Rightarrow> nat" where
  "bst_height t = tree_height (bst_root t)"

text \<open>\<open>default_val\<close> is the static \<open>Value()\<close>.\<close>

definition bst_findmax :: "'v \<Rightarrow> ('k, 'v) bst \<Rightarrow> 'v" where
  "bst_findmax default_val t = (case node_val (find_max (bst_root t)) of None \<Rightarrow> default_val | Some v \<Rightarrow> v)"

definition bst_findmin :: "'v \<Rightarrow> ('k, 'v) bst \<Rightarrow> 'v" where
  "bst_findmin default_val t = (case node_val (find_min (bst_root t)) of None \<Rightarrow> default_val | Some v \<Rightarrow> v)"

text \<open>
  \<open>deletenode\<close>: with two children, the key and the value of the predecessor are moved up and its
  node, the last to the right in the left subtree, is replaced by its only child.
\<close>

fun bst_take_max :: "('k, 'v, unit) node \<Rightarrow> ('k \<times> 'v \<times> ('k, 'v, unit) node) option" where
  "bst_take_max Null = None"
| "bst_take_max (Node k v l Null x) = Some (k, v, l)"
| "bst_take_max (Node k v l (Node k' v' l' r' x') x) =
     map_option (\<lambda>(pre_key, pre_val, r). (pre_key, pre_val, Node k v l r x)) (bst_take_max (Node k' v' l' r' x'))"

primrec bst_unlink :: "'k::linorder \<Rightarrow> ('k, 'v, unit) node \<Rightarrow> ('k, 'v, unit) node option" where
  "bst_unlink key Null = None"
| "bst_unlink key (Node k v l r x) =
     (if k = key then
        (if \<not> is_Null l \<and> \<not> is_Null r
         then map_option (\<lambda>(pre_key, pre_val, l). Node pre_key pre_val l r x) (bst_take_max l)
         else Some (if \<not> is_Null l then l else r))
      else if key > k then map_option (\<lambda>r. Node k v l r x) (bst_unlink key r)
      else map_option (\<lambda>l. Node k v l r x) (bst_unlink key l))"

definition bst_deletenode :: "'k::linorder \<Rightarrow> ('k, 'v) bst \<Rightarrow> bool \<times> ('k, 'v) bst" where
  "bst_deletenode key t =
     (case bst_unlink key (bst_root t) of
        None \<Rightarrow> (False, t)
      | Some root \<Rightarrow> (True, t\<lparr>bst_root := root, bst_size := bst_size t - 1\<rparr>))"

text \<open>The traversals: only the stack of the preorder grows.\<close>

definition bst_no_recursive_preorder :: "('k, 'v) bst \<Rightarrow> 'k list option" where
  "bst_no_recursive_preorder t = (if bst_size t = 0 then Some [] else stack_preorder None (bst_root t))"

definition bst_no_recursive_inorder :: "('k, 'v) bst \<Rightarrow> 'k list option" where
  "bst_no_recursive_inorder t = (if bst_size t = 0 then Some [] else stack_inorder (Some (bst_size t)) (bst_root t))"

definition bst_no_recursive_postorder :: "('k, 'v) bst \<Rightarrow> 'k list option" where
  "bst_no_recursive_postorder t = stack_postorder (Some (bst_size t)) (bst_root t)"

section \<open>Correctness\<close>

definition bst_inv :: "('k::linorder, 'v) bst \<Rightarrow> bool" where
  "bst_inv t \<longleftrightarrow> ordered (bst_root t) \<and> bst_size t = nodes (bst_root t)"

lemma bst_hang_entries:
  "ordered t \<Longrightarrow> (case bst_hang key val t of
     None \<Rightarrow> key \<in> set (keys t)
   | Some t' \<Rightarrow> key \<notin> set (keys t) \<and> entries t' = put key val (entries t))"
proof (induction t)
  case (Node k v l r x)
  then show ?case
    using put_left [of key k "entries r" val "entries l" v] put_right [of k key "entries l" val v "entries r"]
    by (cases key k rule: linorder_cases) (fastforce split: option.splits)+
qed simp

lemma bst_take_max_entries:
  "t \<noteq> Null \<Longrightarrow> \<exists>k v t'. bst_take_max t = Some (k, v, t') \<and> entries t = entries t' @ [(k, v)]"
  by (induction t rule: bst_take_max.induct) fastforce+

lemma bst_unlink_entries:
  "ordered t \<Longrightarrow> (case bst_unlink key t of
     None \<Rightarrow> key \<notin> set (keys t)
   | Some t' \<Rightarrow> key \<in> set (keys t) \<and> entries t' = rem key (entries t))"
proof (induction t)
  case (Node k v l r x)
  note sides = rem_sides [OF Node.prems, of key]
  show ?case
  proof (cases key k rule: linorder_cases)
    case equal
    then have "entries l @ entries r = rem key (entries (Node k v l r x))" using sides by simp
    then show ?thesis using equal bst_take_max_entries [of l]
      by (auto simp: is_Null_def)
  qed (use Node sides in \<open>fastforce split: option.splits\<close>)+
qed simp

interpretation bst: erasable_dictionary bst_inv bst_root bst_size "\<lambda>k v t. Some (bst_insert k v t)"
  "\<lambda>old new. old" "\<lambda>k t. Some (bst_deletenode k t)"
proof (unfold_locales, goal_cases)
  case (3 t k v)
  then have o: "ordered (bst_root t)" "bst_size t = nodes (bst_root t)" by (simp_all add: bst_inv_def)
  show ?case
  proof (cases "bst_hang k v (bst_root t)")
    case None
    then have k: "k \<in> set (keys (bst_root t))" using bst_hang_entries [OF o(1), of k v] by simp
    then obtain w where w: "map_of (entries (bst_root t)) k = Some w" by (auto simp: dom_map_of_conv_image_fst [symmetric])
    have "put k w (entries (bst_root t)) = entries (bst_root t)"
      using o(1) w by (simp add: put_same ordered_def)
    then show ?thesis using None 3 k w by (simp add: bst_insert_def)
  next
    case (Some root)
    then have "k \<notin> set (keys (bst_root t))" "entries root = put k v (entries (bst_root t))"
      using bst_hang_entries [OF o(1), of k v] by simp_all
    moreover from this have "map_of (entries (bst_root t)) k = None" by (simp add: map_of_eq_None_iff)
    ultimately show ?thesis
      using Some o put_fresh [of k "entries (bst_root t)" v] sorted_put [of "entries (bst_root t)" k v]
      by (simp add: bst_insert_def bst_inv_def ordered_def flip: length_entries)
  qed
next
  case (4 t k)
  then have o: "ordered (bst_root t)" "bst_size t = nodes (bst_root t)" by (simp_all add: bst_inv_def)
  show ?case
  proof (cases "bst_unlink k (bst_root t)")
    case None
    then have "k \<notin> set (keys (bst_root t))" using bst_unlink_entries [OF o(1), of k] by simp
    then show ?thesis using None 4 by (auto simp: bst_deletenode_def intro!: rem_absent [symmetric])
  next
    case (Some root)
    then have "k \<in> set (keys (bst_root t))" "entries root = rem k (entries (bst_root t))"
      using bst_unlink_entries [OF o(1), of k] by simp_all
    then show ?thesis
      using Some o length_rem [of "entries (bst_root t)" k] sorted_rem [of "entries (bst_root t)" k]
      by (simp add: bst_deletenode_def bst_inv_def ordered_def flip: length_entries)
  qed
qed (simp_all add: bst_inv_def)

section \<open>Properties\<close>

lemma bst_ordered: "bst_inv t \<Longrightarrow> ordered (bst_root t)"
  by (simp add: bst_inv_def)

text \<open>
  C19: The plain search tree implements a finite map: inserting a new key adds it, inserting an
  old one changes nothing and answers false, deleting removes exactly the key and answers whether
  it was there; the order of the keys and the count are kept, and finding reads the map.
\<close>

theorem bst_implements_map:
  assumes "bst_inv t"
  shows "bst_inv (snd (bst_insert k v t)) \<and> fst (bst_insert k v t) = (bst_find t k = None) \<and>
    bst_find (snd (bst_insert k v t)) = (bst_find t)(k \<mapsto> (case bst_find t k of None \<Rightarrow> v | Some w \<Rightarrow> w)) \<and>
    bst_inv (snd (bst_deletenode k t)) \<and> fst (bst_deletenode k t) = (bst_find t k \<noteq> None) \<and>
    bst_find (snd (bst_deletenode k t)) = (bst_find t)(k := None) \<and>
    bst_size t = card (dom (bst_find t))"
proof -
  have find: "bst_find u = map_of (entries (bst_root u))" if "bst_inv u" for u :: "('a, 'b) bst"
    using bst.observers(1) [OF that] by (simp add: bst_find_def fun_eq_iff)
  have mem: "j \<in> set (keys (bst_root t)) \<longleftrightarrow> bst_find t j \<noteq> None" for j
    by (simp add: find [OF assms] map_of_eq_None_iff)
  obtain u where u: "bst_insert k v t = (k \<notin> set (keys (bst_root t)), u)" "bst_inv u"
    "map_of (entries (bst_root u)) = (map_of (entries (bst_root t)))
      (k \<mapsto> (case map_of (entries (bst_root t)) k of None \<Rightarrow> v | Some w \<Rightarrow> w))"
    by (rule bst.insert_map [OF assms, of k v]) auto
  obtain d where d: "bst_deletenode k t = (k \<in> set (keys (bst_root t)), d)" "bst_inv d"
    "map_of (entries (bst_root d)) = (map_of (entries (bst_root t)))(k := None)"
    by (rule bst.delete_map [OF assms, of k]) auto
  show ?thesis
    using u(2) d(2) bst.count_card [OF assms] unfolding u(1) d(1) mem fst_conv snd_conv
    by (simp add: find assms u(3) d(3))
qed

lemma bst_new_inv: "bst_inv bst_new"
  by (simp add: bst_inv_def bst_new_def)

theorem bst_implements_map_witness:
  "bst_find (snd (bst_insert (3::int) ''c'' (snd (bst_insert 5 ''e'' bst_new)))) 3 = Some ''c'' \<and>
   bst_size (snd (bst_insert (3::int) ''c'' (snd (bst_insert 5 ''e'' bst_new)))) = 2"
proof -
  have i: "bst_inv (snd (bst_insert (5::int) ''e'' bst_new))"
    using bst_implements_map [OF bst_new_inv, of 5 "''e''"] by blast
  have "bst_find (snd (bst_insert (5::int) ''e'' bst_new)) 3 = None" by code_simp
  moreover have "bst_size (snd (bst_insert (3::int) ''c'' (snd (bst_insert 5 ''e'' bst_new)))) = 2" by code_simp
  ultimately show ?thesis using bst_implements_map [OF i, of 3 "''c''"] by simp
qed

text \<open>
  Predecessor, successor, largest and smallest: for a key of the tree, \<open>getprenode\<close> gives the
  value of the largest smaller key and \<open>getnextnode\<close> that of the smallest larger key, and they
  fail for other keys and at the ends; \<open>findmax\<close> and \<open>findmin\<close> give the value of the last and the
  first key, and the default in an empty tree.
\<close>

theorem bst_neighbours:
  assumes "bst_inv t"
  shows "bst_getprenode t key =
      (if key \<in> dom (bst_find t) \<and> (\<exists>k \<in> dom (bst_find t). k < key)
       then bst_find t (Max {k \<in> dom (bst_find t). k < key}) else None) \<and>
    bst_getnextnode t key =
      (if key \<in> dom (bst_find t) \<and> (\<exists>k \<in> dom (bst_find t). key < k)
       then bst_find t (Min {k \<in> dom (bst_find t). key < k}) else None) \<and>
    bst_findmax d t = (if dom (bst_find t) = {} then d else the (bst_find t (Max (dom (bst_find t))))) \<and>
    bst_findmin d t = (if dom (bst_find t) = {} then d else the (bst_find t (Min (dom (bst_find t)))))"
proof -
  have f: "bst_find t = map_of (entries (bst_root t))"
    using bst.observers(1) [OF assms] by (simp add: bst_find_def fun_eq_iff)
  show ?thesis
    unfolding f bst_getprenode_def bst_getnextnode_def bst_findmax_def bst_findmin_def
      neighbours [OF bst_ordered [OF assms]] extreme_vals [OF bst_ordered [OF assms]] by (intro conjI refl)
qed

theorem bst_neighbours_witness:
  "bst_findmax ''?'' (snd (bst_insert (5::int) ''e'' bst_new)) = ''e'' \<and>
   bst_getprenode (snd (bst_insert (5::int) ''e'' bst_new)) 5 = None"
proof -
  have i: "bst_inv (snd (bst_insert (5::int) ''e'' bst_new))" by code_simp
  have f: "bst_find (snd (bst_insert (5::int) ''e'' bst_new)) = [5 \<mapsto> ''e'']"
    by (rule ext) (simp add: bst_find_def bst_insert_def bst_new_def)
  show ?thesis using bst_neighbours [OF i, of 5 "''?''"] unfolding f by simp
qed

text \<open>
  C40: The traversals with an explicit stack visit the keys in the order of the recursive ones and
  never leave their arrays of \<open>size()\<close> elements; the inorder lists all keys, sorted; the level order
  lists the keys depth by depth.
\<close>

theorem bst_traversals_agree:
  assumes "bst_inv t"
  shows "bst_no_recursive_preorder t = Some (preorder (bst_root t)) \<and>
    bst_no_recursive_inorder t = Some (inorder (bst_root t)) \<and>
    bst_no_recursive_postorder t = Some (postorder (bst_root t)) \<and>
    sorted (inorder (bst_root t)) \<and> distinct (inorder (bst_root t)) \<and> set (inorder (bst_root t)) = dom (bst_find t) \<and>
    level_order (bst_root t) = concat (map (\<lambda>n. level n (bst_root t)) [0..<bst_height t])"
proof -
  have n: "bst_size t = nodes (bst_root t)" using assms by (simp add: bst_inv_def)
  have "bst_root t = Null" if "nodes (bst_root t) = 0" using that by (cases "bst_root t") auto
  then show ?thesis
    using stack_preorder_correct [of None "bst_root t"] stack_inorder_correct [of "Some (bst_size t)" "bst_root t"]
      stack_postorder_correct [of "Some (bst_size t)" "bst_root t"] bst.observers [OF assms] n
    by (auto simp: bst_no_recursive_preorder_def bst_no_recursive_inorder_def bst_no_recursive_postorder_def
        bst_height_def level_order_levels bst_find_def)
qed

theorem bst_traversals_agree_witness:
  "bst_no_recursive_postorder (snd (bst_insert (3::int) ''c'' (snd (bst_insert 5 ''e'' bst_new)))) = Some [3, 5]"
proof -
  have i: "bst_inv (snd (bst_insert (3::int) ''c'' (snd (bst_insert 5 ''e'' bst_new))))" by code_simp
  have "postorder (bst_root (snd (bst_insert (3::int) ''c'' (snd (bst_insert 5 ''e'' bst_new))))) = [3, 5]" by code_simp
  then show ?thesis using bst_traversals_agree [OF i] by simp
qed

end
