(* ===== verification/AVL_Tree.thy ===== *)
theory AVL_Tree
  imports Binary_Search_Tree
begin

text \<open>
  The balanced tree of \<open>AVL_Tree.hpp\<close>, whose nodes store their heights.  \<open>None\<close> is a null
  pointer that is followed.  \<open>size_\<close> is passed along with the nodes, as the member functions
  change it on the way.
\<close>

section \<open>The code\<close>

type_synonym ('k, 'v) avl_node = "('k, 'v, nat) node"

record ('k, 'v) avl =
  avl_root :: "('k, 'v) avl_node"
  avl_size :: nat

definition avl_new :: "('k, 'v) avl" where
  "avl_new = \<lparr>avl_root = Null, avl_size = 0\<rparr>"

primrec GetHeight :: "('k, 'v) avl_node \<Rightarrow> nat" where
  "GetHeight Null = 0"
| "GetHeight (Node k v l r h) = h"

definition avl_height :: "('k, 'v) avl \<Rightarrow> nat" where
  "avl_height t = GetHeight (avl_root t)"

primrec getbalancefactor :: "('k, 'v) avl_node \<Rightarrow> nat" where
  "getbalancefactor Null = 0"
| "getbalancefactor (Node k v l r h) =
     (let lhight = GetHeight l; rhight = GetHeight r in if lhight > rhight then lhight - rhight else rhight - lhight)"

text \<open>\<open>is_balance\<close> follows the pointer to the root without a test.\<close>

primrec is_balance :: "('k, 'v) avl_node \<Rightarrow> bool option" where
  "is_balance Null = None"
| "is_balance (Node k v l r h) =
     Some (if getbalancefactor (Node k v l r h) > 1 then False
           else getbalancefactor l < 2 \<and> getbalancefactor r < 2)"

text \<open>\<open>node->height_ = max(...) + 1\<close>.\<close>

definition with_height :: "'k \<Rightarrow> 'v \<Rightarrow> ('k, 'v) avl_node \<Rightarrow> ('k, 'v) avl_node \<Rightarrow> ('k, 'v) avl_node" where
  "with_height k v l r = Node k v l r (max (GetHeight l) (GetHeight r) + 1)"

primrec update_height :: "('k, 'v) avl_node \<Rightarrow> ('k, 'v) avl_node option" where
  "update_height Null = None"
| "update_height (Node k v l r h) = Some (with_height k v l r)"

fun leftRotate :: "('k, 'v) avl_node \<Rightarrow> ('k, 'v) avl_node option" where
  "leftRotate (Node k v l (Node rk rv rl rr rh) h) = Some (with_height rk rv (with_height k v l rl) rr)"
| "leftRotate _ = None"

fun rightRotate :: "('k, 'v) avl_node \<Rightarrow> ('k, 'v) avl_node option" where
  "rightRotate (Node k v (Node lk lv ll lr lh) r h) = Some (with_height lk lv ll (with_height k v lr r))"
| "rightRotate _ = None"

fun rightAndLeftRotate :: "('k, 'v) avl_node \<Rightarrow> ('k, 'v) avl_node option" where
  "rightAndLeftRotate Null = None"
| "rightAndLeftRotate (Node k v l r h) = do { r \<leftarrow> rightRotate r; leftRotate (Node k v l r h) }"

fun leftAndRightRotate :: "('k, 'v) avl_node \<Rightarrow> ('k, 'v) avl_node option" where
  "leftAndRightRotate Null = None"
| "leftAndRightRotate (Node k v l r h) = do { l \<leftarrow> leftRotate l; rightRotate (Node k v l r h) }"

text \<open>\<open>node->key_\<close> of a node that may be null.\<close>

primrec key_of :: "('k, 'v, 'x) node \<Rightarrow> 'k option" where
  "key_of Null = None"
| "key_of (Node k v l r x) = Some k"

primrec avl_insert_node :: "'k::linorder \<Rightarrow> 'v \<Rightarrow> ('k, 'v) avl_node \<Rightarrow> nat \<Rightarrow> (('k, 'v) avl_node \<times> nat) option" where
  "avl_insert_node key val Null sz = Some (with_height key val Null Null, sz + 1)"
| "avl_insert_node key val (Node k v l r h) sz =
     (if key = k then Some (Node k val l r h, sz)
      else if key > k then do {
        (r, sz) \<leftarrow> avl_insert_node key val r sz;
        let node = Node k v l r h;
        node \<leftarrow> (if getbalancefactor node > 1
                 then do { right_key \<leftarrow> key_of r;
                           if key > right_key then leftRotate node else rightAndLeftRotate node }
                 else Some node);
        node \<leftarrow> update_height node;
        Some (node, sz) }
      else do {
        (l, sz) \<leftarrow> avl_insert_node key val l sz;
        let node = Node k v l r h;
        node \<leftarrow> (if getbalancefactor node > 1
                 then do { left_key \<leftarrow> key_of l;
                           if key > left_key then leftAndRightRotate node else rightRotate node }
                 else Some node);
        node \<leftarrow> update_height node;
        Some (node, sz) })"

text \<open>With the \<open>assert\<close> behind it, and without (\<open>NDEBUG\<close>) the same result when it holds.\<close>

definition avl_insert :: "'k::linorder \<Rightarrow> 'v \<Rightarrow> ('k, 'v) avl \<Rightarrow> (bool \<times> ('k, 'v) avl) option" where
  "avl_insert key val t =
     do {
       (root, sz) \<leftarrow> avl_insert_node key val (avl_root t) (avl_size t);
       balanced \<leftarrow> is_balance root;
       guard balanced;
       Some (avl_size t \<noteq> sz, \<lparr>avl_root = root, avl_size = sz\<rparr>)
     }"

text \<open>
  The end of \<open>deletenode\<close>: the height is set, and a node out of balance is rotated by the heights
  of its grandchildren.
\<close>

primrec rebalance :: "('k, 'v) avl_node \<Rightarrow> ('k, 'v) avl_node option" where
  "rebalance Null = None"
| "rebalance (Node k v l r h) =
     (let node = with_height k v l r in
      if getbalancefactor node < 2 then Some node
      else if GetHeight l > GetHeight r then
        (case l of
           Null \<Rightarrow> None
         | Node _ _ ll lr _ \<Rightarrow> if GetHeight ll > GetHeight lr then rightRotate node else leftAndRightRotate node)
      else
        (case r of
           Null \<Rightarrow> None
         | Node _ _ rl rr _ \<Rightarrow> if GetHeight rl > GetHeight rr then rightAndLeftRotate node else leftRotate node))"

text \<open>\<open>std::swap\<close> of the key and the value with the largest or the smallest node of a subtree.\<close>

fun swap_max :: "'k \<Rightarrow> 'v \<Rightarrow> ('k, 'v, 'x) node \<Rightarrow> ('k \<times> 'v \<times> ('k, 'v, 'x) node) option" where
  "swap_max key val Null = None"
| "swap_max key val (Node k v l Null x) = Some (k, v, Node key val l Null x)"
| "swap_max key val (Node k v l (Node k' v' l' r' x') x) =
     map_option (\<lambda>(a, b, r). (a, b, Node k v l r x)) (swap_max key val (Node k' v' l' r' x'))"

fun swap_min :: "'k \<Rightarrow> 'v \<Rightarrow> ('k, 'v, 'x) node \<Rightarrow> ('k \<times> 'v \<times> ('k, 'v, 'x) node) option" where
  "swap_min key val Null = None"
| "swap_min key val (Node k v Null r x) = Some (k, v, Node key val Null r x)"
| "swap_min key val (Node k v (Node k' v' l' r' x') r x) =
     map_option (\<lambda>(a, b, l). (a, b, Node k v l r x)) (swap_min key val (Node k' v' l' r' x'))"

lemma swap_max_nodes [simp]: "swap_max key val t = Some (a, b, t') \<Longrightarrow> nodes t' = nodes t"
  by (induction key val t arbitrary: a b t' rule: swap_max.induct) auto

lemma swap_min_nodes [simp]: "swap_min key val t = Some (a, b, t') \<Longrightarrow> nodes t' = nodes t"
  by (induction key val t arbitrary: a b t' rule: swap_min.induct) auto

function avl_deletenode_node :: "'k::linorder \<Rightarrow> ('k, 'v) avl_node \<Rightarrow> nat \<Rightarrow> (('k, 'v) avl_node \<times> nat) option" where
  "avl_deletenode_node key Null sz = Some (Null, sz)"
| "avl_deletenode_node key (Node k v l r h) sz =
     (if key > k then do {
        (r, sz) \<leftarrow> avl_deletenode_node key r sz;
        node \<leftarrow> rebalance (Node k v l r h);
        Some (node, sz) }
      else if key < k then do {
        (l, sz) \<leftarrow> avl_deletenode_node key l sz;
        node \<leftarrow> rebalance (Node k v l r h);
        Some (node, sz) }
      else if \<not> is_Null l \<and> \<not> is_Null r then
        (if GetHeight l > GetHeight r then
           (case swap_max k v l of
              None \<Rightarrow> None
            | Some (temp_key, temp_val, l) \<Rightarrow> do {
                (l, sz) \<leftarrow> avl_deletenode_node key l sz;
                node \<leftarrow> rebalance (Node temp_key temp_val l r h);
                Some (node, sz) })
         else
           (case swap_min k v r of
              None \<Rightarrow> None
            | Some (temp_key, temp_val, r) \<Rightarrow> do {
                (r, sz) \<leftarrow> avl_deletenode_node key r sz;
                node \<leftarrow> rebalance (Node temp_key temp_val l r h);
                Some (node, sz) }))
      else if \<not> is_Null l then do { node \<leftarrow> rebalance l; Some (node, sz - 1) }
      else if \<not> is_Null r then do { node \<leftarrow> rebalance r; Some (node, sz - 1) }
      else Some (Null, sz - 1))"
  by pat_completeness auto
termination avl_deletenode_node
  by (relation "measure (\<lambda>(key, t, sz). nodes t)") auto

definition avl_deletenode :: "'k::linorder \<Rightarrow> ('k, 'v) avl \<Rightarrow> (bool \<times> ('k, 'v) avl) option" where
  "avl_deletenode key t =
     do {
       (root, sz) \<leftarrow> avl_deletenode_node key (avl_root t) (avl_size t);
       Some (avl_size t \<noteq> sz, \<lparr>avl_root = root, avl_size = sz\<rparr>)
     }"

section \<open>The invariant\<close>

text \<open>The stored heights are the heights, and those of two children differ by at most one.\<close>

primrec heights_right :: "('k, 'v) avl_node \<Rightarrow> bool" where
  "heights_right Null = True"
| "heights_right (Node k v l r h) \<longleftrightarrow>
     h = max (tree_height l) (tree_height r) + 1 \<and> heights_right l \<and> heights_right r"

primrec balanced :: "('k, 'v, 'x) node \<Rightarrow> bool" where
  "balanced Null = True"
| "balanced (Node k v l r h) \<longleftrightarrow>
     tree_height l \<le> tree_height r + 1 \<and> tree_height r \<le> tree_height l + 1 \<and> balanced l \<and> balanced r"

lemma GetHeight_tree_height: "heights_right t \<Longrightarrow> GetHeight t = tree_height t"
  by (cases t) simp_all

lemma with_height_facts [simp]:
  "entries (with_height k v l r) = entries l @ (k, v) # entries r"
  "heights_right l \<Longrightarrow> heights_right r \<Longrightarrow> heights_right (with_height k v l r)"
  "tree_height (with_height k v l r) = max (tree_height l) (tree_height r) + 1"
  "balanced (with_height k v l r) \<longleftrightarrow>
     tree_height l \<le> tree_height r + 1 \<and> tree_height r \<le> tree_height l + 1 \<and> balanced l \<and> balanced r"
  by (simp_all add: with_height_def GetHeight_tree_height)

lemma is_balance_balanced: "t \<noteq> Null \<Longrightarrow> heights_right t \<Longrightarrow> balanced t \<Longrightarrow> is_balance t = Some True"
proof -
  have b: "getbalancefactor t < 2" if "heights_right t" "balanced t" for t :: "('k, 'v) avl_node"
    using that by (cases t) (auto simp: GetHeight_tree_height Let_def)
  show "t \<noteq> Null \<Longrightarrow> heights_right t \<Longrightarrow> balanced t \<Longrightarrow> is_balance t = Some True"
    using b [of t] b by (cases t) (auto simp del: getbalancefactor.simps)
qed

text \<open>Rotations keep the entries and the heights right.\<close>

lemma leftRotate_entries: "leftRotate t = Some t' \<Longrightarrow> entries t' = entries t"
  by (induction t rule: leftRotate.induct) auto

lemma rightRotate_entries: "rightRotate t = Some t' \<Longrightarrow> entries t' = entries t"
  by (induction t rule: rightRotate.induct) auto

lemma rightAndLeftRotate_entries: "rightAndLeftRotate t = Some t' \<Longrightarrow> entries t' = entries t"
  by (cases t) (auto split: bind_splits dest!: leftRotate_entries rightRotate_entries)

lemma leftAndRightRotate_entries: "leftAndRightRotate t = Some t' \<Longrightarrow> entries t' = entries t"
  by (cases t) (auto split: bind_splits dest!: leftRotate_entries rightRotate_entries)

lemma update_height_entries: "update_height t = Some t' \<Longrightarrow> entries t' = entries t"
  by (cases t) auto

lemmas rotate_entries = leftRotate_entries rightRotate_entries rightAndLeftRotate_entries
  leftAndRightRotate_entries update_height_entries

section \<open>Inserting\<close>

lemma avl_insert_node_entries:
  "avl_insert_node key val t s = Some (t', s') \<Longrightarrow> ordered t \<Longrightarrow>
   entries t' = put key val (entries t) \<and> s' = (if key \<in> set (keys t) then s else s + 1)"
proof (induction t arbitrary: t' s s')
  case (Node k v l r h)
  have no: "k \<le> key \<Longrightarrow> key \<notin> set (keys l)" "key \<le> k \<Longrightarrow> key \<notin> set (keys r)"
    using Node.prems(2) by fastforce+
  have o: "ordered l" "ordered r" "\<forall>p \<in> set (entries l). fst p < k" "\<forall>p \<in> set (entries r). k < fst p"
    using Node.prems(2) by simp_all
  show ?case
  proof (cases key k rule: linorder_cases)
    case equal
    then show ?thesis using Node.prems put_here [of "entries l" k "entries r" val v] by auto
  next
    case greater
    then obtain r' s2 where r': "avl_insert_node key val r s = Some (r', s2)"
      and e: "entries t' = entries (Node k v l r' h)" "s' = s2"
      using Node.prems(1) by (auto split: bind_splits if_splits simp: Let_def dest!: rotate_entries)
    from Node.IH(2) [OF r' o(2)] greater e show ?thesis
      using put_right [of k key "entries l" val v "entries r"] o(3) no(1) by auto
  next
    case less
    then obtain l' s2 where l': "avl_insert_node key val l s = Some (l', s2)"
      and e: "entries t' = entries (Node k v l' r h)" "s' = s2"
      using Node.prems(1) by (auto split: bind_splits if_splits simp: Let_def dest!: rotate_entries)
    from Node.IH(1) [OF l' o(1)] less e show ?thesis
      using put_left [of key k "entries r" val "entries l" v] o(4) no(2) by auto
  qed
qed auto

text \<open>A subtree that has grown leans to the side of the new key.\<close>

definition leans :: "'k::linorder \<Rightarrow> ('k, 'v) avl_node \<Rightarrow> bool" where
  "leans key t = (case t of Null \<Rightarrow> False
     | Node k v l r h \<Rightarrow>
         if key > k then tree_height r = tree_height l + 1
         else if key < k then tree_height l = tree_height r + 1
         else tree_height l = 0 \<and> tree_height r = 0)"

lemma tree_height_0 [simp]: "tree_height t = 0 \<longleftrightarrow> t = Null"
  by (cases t) auto

lemma tree_height_Suc: "tree_height t = Suc n \<Longrightarrow> \<exists>k v l r x. t = Node k v l r x"
  by (cases t) auto

lemma insert_right_balanced:
  assumes "heights_right l" "balanced l" "heights_right r" "balanced r" "tree_height r = tree_height l + 2" "leans key r"
  shows "\<exists>t. (do { right_key \<leftarrow> key_of r;
            if key > right_key then leftRotate (Node k v l r h) else rightAndLeftRotate (Node k v l r h) }) = Some t \<and>
    heights_right t \<and> balanced t \<and> tree_height t = tree_height l + 2 \<and> update_height t = Some t"
proof -
  obtain rk rv rl rr rh where r: "r = Node rk rv rl rr rh" using assms(6) by (cases r) (auto simp: leans_def)
  show ?thesis
  proof (cases "key > rk")
    case True
    then show ?thesis using assms r by (auto simp: leans_def with_height_def GetHeight_tree_height)
  next
    case False
    then have "tree_height rl = tree_height rr + 1" using assms r by (auto simp: leans_def split: if_splits)
    moreover from this obtain a b c d x where "rl = Node a b c d x" using tree_height_Suc by fastforce
    ultimately show ?thesis using assms r False by (auto simp: with_height_def GetHeight_tree_height)
  qed
qed

lemma insert_left_balanced:
  assumes "heights_right l" "balanced l" "heights_right r" "balanced r" "tree_height l = tree_height r + 2" "leans key l"
  shows "\<exists>t. (do { left_key \<leftarrow> key_of l;
            if key > left_key then leftAndRightRotate (Node k v l r h) else rightRotate (Node k v l r h) }) = Some t \<and>
    heights_right t \<and> balanced t \<and> tree_height t = tree_height r + 2 \<and> update_height t = Some t"
proof -
  obtain lk lv ll lr lh where l: "l = Node lk lv ll lr lh" using assms(6) by (cases l) (auto simp: leans_def)
  show ?thesis
  proof (cases "key > lk")
    case False
    then have "tree_height ll = tree_height lr + 1" using assms l by (auto simp: leans_def split: if_splits)
    then show ?thesis using assms l False by (auto simp: with_height_def GetHeight_tree_height)
  next
    case True
    then have "tree_height lr = tree_height ll + 1" using assms l by (auto simp: leans_def split: if_splits)
    moreover from this obtain a b c d x where "lr = Node a b c d x" using tree_height_Suc by fastforce
    ultimately show ?thesis using assms l True by (auto simp: with_height_def GetHeight_tree_height)
  qed
qed

lemma height_grows: "x = y \<or> x = Suc y \<Longrightarrow> a \<le> x + 1 \<Longrightarrow> a \<le> y + 2" for a x y :: nat
  by auto

lemma avl_insert_node_balanced:
  "heights_right t \<Longrightarrow> balanced t \<Longrightarrow>
   \<exists>t' s'. avl_insert_node key val t s = Some (t', s') \<and> t' \<noteq> Null \<and> heights_right t' \<and> balanced t' \<and>
     (tree_height t' = tree_height t \<or> tree_height t' = tree_height t + 1 \<and> leans key t')"
proof (induction t arbitrary: s)
  case Null
  then show ?case by (simp add: with_height_def leans_def)
next
  case (Node k v l r h)
  then have ok: "heights_right l" "balanced l" "heights_right r" "balanced r"
    "tree_height l \<le> tree_height r + 1" "tree_height r \<le> tree_height l + 1" by simp_all
  show ?case
  proof (cases key k rule: linorder_cases)
    case equal
    then show ?thesis using Node.prems by simp
  next
    case greater
    obtain r' s' where r': "avl_insert_node key val r s = Some (r', s')" "heights_right r'" "balanced r'"
      "tree_height r' = tree_height r \<or> tree_height r' = tree_height r + 1 \<and> leans key r'"
      using Node.IH(2) [OF ok(3,4)] by blast
    show ?thesis
    proof (cases "tree_height r' = tree_height l + 2")
      case True
      with r'(4) ok(6) have "leans key r'" "tree_height r = tree_height l + 1" by auto
      with insert_right_balanced [OF ok(1,2) r'(2,3) True, of key k v h] obtain t where
        "(do { right_key \<leftarrow> key_of r';
            if key > right_key then leftRotate (Node k v l r' h) else rightAndLeftRotate (Node k v l r' h) }) = Some t"
        "heights_right t" "balanced t" "tree_height t = tree_height l + 2" "update_height t = Some t" by blast
      then show ?thesis using greater r'(1,2) ok True \<open>tree_height r = tree_height l + 1\<close>
        by (auto simp: GetHeight_tree_height Let_def simp del: rightAndLeftRotate.simps)
    next
      case False
      then have "tree_height r' \<le> tree_height l + 1" "tree_height l \<le> tree_height r' + 1" using r'(4) ok(5,6) by auto
      then show ?thesis using greater r' ok
        by (auto simp: GetHeight_tree_height Let_def leans_def with_height_def max_def)
    qed
  next
    case less
    obtain l' s' where l': "avl_insert_node key val l s = Some (l', s')" "heights_right l'" "balanced l'"
      "tree_height l' = tree_height l \<or> tree_height l' = tree_height l + 1 \<and> leans key l'"
      using Node.IH(1) [OF ok(1,2)] by blast
    show ?thesis
    proof (cases "tree_height l' = tree_height r + 2")
      case True
      with l'(4) ok(5) have "leans key l'" "tree_height l = tree_height r + 1" by auto
      with insert_left_balanced [OF l'(2,3) ok(3,4) True, of key k v h] obtain t where
        "(do { left_key \<leftarrow> key_of l';
            if key > left_key then leftAndRightRotate (Node k v l' r h) else rightRotate (Node k v l' r h) }) = Some t"
        "heights_right t" "balanced t" "tree_height t = tree_height r + 2" "update_height t = Some t" by blast
      then show ?thesis using less l'(1,2) ok True \<open>tree_height l = tree_height r + 1\<close>
        by (auto simp: GetHeight_tree_height Let_def simp del: leftAndRightRotate.simps)
    next
      case False
      then have "tree_height l' \<le> tree_height r + 1" "tree_height r \<le> tree_height l' + 1" using l'(4) ok(5,6) by auto
      then show ?thesis using less l' ok
        by (auto simp: GetHeight_tree_height Let_def leans_def with_height_def max_def)
    qed
  qed
qed

definition avl_inv :: "('k::linorder, 'v) avl \<Rightarrow> bool" where
  "avl_inv t \<longleftrightarrow> ordered (avl_root t) \<and> heights_right (avl_root t) \<and> balanced (avl_root t) \<and>
     avl_size t = nodes (avl_root t)"

lemma avl_insert_entries:
  assumes "avl_inv t"
  shows "\<exists>t'. avl_insert k v t = Some (k \<notin> set (keys (avl_root t)), t') \<and> avl_inv t' \<and>
    entries (avl_root t') = put k v (entries (avl_root t))"
proof -
  have t: "ordered (avl_root t)" "heights_right (avl_root t)" "balanced (avl_root t)" "avl_size t = nodes (avl_root t)"
    using assms by (simp_all add: avl_inv_def)
  obtain root s where i: "avl_insert_node k v (avl_root t) (avl_size t) = Some (root, s)" "root \<noteq> Null"
      "heights_right root" "balanced root"
    using avl_insert_node_balanced [OF t(2,3)] by blast
  have e: "entries root = put k v (entries (avl_root t))"
    "s = (if k \<in> set (keys (avl_root t)) then avl_size t else avl_size t + 1)"
    using avl_insert_node_entries [OF i(1) t(1)] by simp_all
  have "nodes root = s"
  proof (cases "k \<in> set (keys (avl_root t))")
    case True
    then obtain w where w: "map_of (entries (avl_root t)) k = Some w" by (auto simp flip: dom_map_of_conv_image_fst)
    have "length (put k v (entries (avl_root t))) = length (put k w (entries (avl_root t)))" by (simp add: put_def)
    also have "\<dots> = nodes (avl_root t)" using put_same [OF _ w] t(1) by (simp add: ordered_def)
    finally show ?thesis using e t(4) True by (simp flip: length_entries)
  next
    case False
    then show ?thesis using e t(4) put_fresh [of k "entries (avl_root t)" v] by (simp flip: length_entries)
  qed
  moreover have "ordered root" using e(1) t(1) sorted_put by (simp add: ordered_def)
  ultimately show ?thesis
    using i e is_balance_balanced [OF i(2-4)] by (auto simp: avl_insert_def avl_inv_def)
qed

interpretation avl: dictionary avl_inv avl_root avl_size avl_insert "\<lambda>old new. new"
proof (unfold_locales, goal_cases)
  case (3 t k v)
  then show ?case using avl_insert_entries [of t k v] by (simp add: option.case_eq_if)
qed (simp_all add: avl_inv_def)

section \<open>Deleting\<close>

lemma rotations_right:
  assumes "heights_right l" and "heights_right r"
  shows "r \<noteq> Null \<Longrightarrow> \<exists>t. leftRotate (Node k v l r h) = Some t \<and> heights_right t"
    and "l \<noteq> Null \<Longrightarrow> \<exists>t. rightRotate (Node k v l r h) = Some t \<and> heights_right t"
    and "r = Node rk rv rl rr rh \<Longrightarrow> rl \<noteq> Null \<Longrightarrow> \<exists>t. rightAndLeftRotate (Node k v l r h) = Some t \<and> heights_right t"
    and "l = Node lk lv ll lr lh \<Longrightarrow> lr \<noteq> Null \<Longrightarrow> \<exists>t. leftAndRightRotate (Node k v l r h) = Some t \<and> heights_right t"
proof -
  show "r \<noteq> Null \<Longrightarrow> \<exists>t. leftRotate (Node k v l r h) = Some t \<and> heights_right t"
    using assms by (cases r) auto
  show "l \<noteq> Null \<Longrightarrow> \<exists>t. rightRotate (Node k v l r h) = Some t \<and> heights_right t"
    using assms by (cases l) auto
  show "r = Node rk rv rl rr rh \<Longrightarrow> rl \<noteq> Null \<Longrightarrow> \<exists>t. rightAndLeftRotate (Node k v l r h) = Some t \<and> heights_right t"
    using assms by (cases rl) (auto simp: with_height_def GetHeight_tree_height)
  show "l = Node lk lv ll lr lh \<Longrightarrow> lr \<noteq> Null \<Longrightarrow> \<exists>t. leftAndRightRotate (Node k v l r h) = Some t \<and> heights_right t"
    using assms by (cases lr) (auto simp: with_height_def GetHeight_tree_height)
qed

lemma rebalance_right:
  assumes "heights_right l" and "heights_right r"
  shows "\<exists>t. rebalance (Node k v l r h) = Some t \<and> heights_right t \<and> entries t = entries l @ (k, v) # entries r"
proof -
  note H = GetHeight_tree_height [OF assms(1)] GetHeight_tree_height [OF assms(2)]
  have "\<exists>t. rebalance (Node k v l r h) = Some t \<and> heights_right t"
  proof (cases "getbalancefactor (with_height k v l r) < 2")
    case True
    then show ?thesis using assms by (simp add: Let_def del: getbalancefactor.simps)
  next
    case False
    then have bf: "tree_height l > tree_height r + 1 \<or> tree_height r > tree_height l + 1"
      by (auto simp: with_height_def H Let_def split: if_splits)
    show ?thesis
    proof (cases "tree_height l > tree_height r")
      case True
      then obtain lk lv ll lr lh where l: "l = Node lk lv ll lr lh" by (cases l) auto
      have "lr \<noteq> Null" if "\<not> GetHeight ll > GetHeight lr"
        using that bf True assms l by (auto simp: GetHeight_tree_height)
      then show ?thesis
        using False True H l rotations_right(2) [OF assms, of k v] rotations_right(4) [OF assms l, of k v]
        by (auto simp: Let_def with_height_def simp del: getbalancefactor.simps leftAndRightRotate.simps)
    next
      case le: False
      with bf have less: "tree_height r > tree_height l + 1" by simp
      then obtain rk rv rl rr rh where r: "r = Node rk rv rl rr rh" by (cases r) auto
      have "rl \<noteq> Null" if "GetHeight rl > GetHeight rr"
        using that assms r by (auto simp: GetHeight_tree_height)
      then show ?thesis
        using False le H r rotations_right(1) [OF assms, of k v] rotations_right(3) [OF assms r, of k v]
        by (auto simp: Let_def with_height_def simp del: getbalancefactor.simps rightAndLeftRotate.simps)
    qed
  qed
  moreover have "entries t = entries l @ (k, v) # entries r" if "rebalance (Node k v l r h) = Some t" for t
    using that by (auto simp: Let_def split: if_splits node.splits dest!: rotate_entries
        simp del: leftAndRightRotate.simps rightAndLeftRotate.simps)
  ultimately show ?thesis by blast
qed

lemma swap_max_entries:
  "t \<noteq> Null \<Longrightarrow> \<exists>a b t' ps. swap_max key val t = Some (a, b, t') \<and> entries t = ps @ [(a, b)] \<and> entries t' = ps @ [(key, val)] \<and>
     tree_height t' = tree_height t \<and> (heights_right t \<longrightarrow> heights_right t')"
  by (induction key val t rule: swap_max.induct) fastforce+

lemma swap_min_entries:
  "t \<noteq> Null \<Longrightarrow> \<exists>a b t' ps. swap_min key val t = Some (a, b, t') \<and> entries t = (a, b) # ps \<and> entries t' = (key, val) # ps \<and>
     tree_height t' = tree_height t \<and> (heights_right t \<longrightarrow> heights_right t')"
  by (induction key val t rule: swap_min.induct) fastforce+

declare avl_deletenode_node.simps [simp del] rebalance.simps [simp del]

lemma rebalance_node_right:
  assumes "heights_right t" and "t \<noteq> Null"
  shows "\<exists>t'. rebalance t = Some t' \<and> heights_right t' \<and> entries t' = entries t"
  using assms rebalance_right by (cases t) fastforce+

lemma avl_deletenode_node_entries:
  "ordered t \<Longrightarrow> heights_right t \<Longrightarrow>
   \<exists>t' s'. avl_deletenode_node key t s = Some (t', s') \<and> heights_right t' \<and> entries t' = rem key (entries t) \<and>
     s' = (if key \<in> set (keys t) then s - 1 else s)"
proof (induction "nodes t" arbitrary: t s rule: less_induct)
  case less
  show ?case
  proof (cases t)
    case Null
    then show ?thesis by (simp add: avl_deletenode_node.simps)
  next
    case (Node k v l r h)
    note o = less.prems(1) [unfolded Node]
    have h: "heights_right l" "heights_right r" using less.prems(2) Node by simp_all
    have n: "nodes l < nodes t" "nodes r < nodes t" by (simp_all add: Node)
    note sides = rem_sides [OF o, of key]
    show ?thesis
    proof (cases key k rule: linorder_cases)
      case greater
      obtain r' s' where "avl_deletenode_node key r s = Some (r', s')" "heights_right r'" "entries r' = rem key (entries r)"
        "s' = (if key \<in> set (keys r) then s - 1 else s)"
        using less.hyps [OF n(2), of s] o h(2) by auto
      moreover obtain t' where "rebalance (Node k v l r' h) = Some t'" "heights_right t'" "entries t' = entries l @ (k, v) # entries r'"
        using rebalance_right [OF h(1) \<open>heights_right r'\<close>] by blast
      moreover have "key \<notin> set (keys l)" using o greater by fastforce
      ultimately show ?thesis using greater sides by (auto simp: Node avl_deletenode_node.simps)
    next
      case less': less
      obtain l' s' where "avl_deletenode_node key l s = Some (l', s')" "heights_right l'" "entries l' = rem key (entries l)"
        "s' = (if key \<in> set (keys l) then s - 1 else s)"
        using less.hyps [OF n(1), of s] o h(1) by auto
      moreover obtain t' where "rebalance (Node k v l' r h) = Some t'" "heights_right t'" "entries t' = entries l' @ (k, v) # entries r"
        using rebalance_right [OF \<open>heights_right l'\<close> h(2)] by blast
      moreover have "key \<notin> set (keys r)" using o less' by fastforce
      ultimately show ?thesis using less' sides by (auto simp: Node avl_deletenode_node.simps)
    next
      case equal
      have rem: "rem key (entries t) = entries l @ entries r" using sides equal by (simp add: Node)
      consider (left) "l \<noteq> Null" "r \<noteq> Null" "GetHeight l > GetHeight r" | (right) "l \<noteq> Null" "r \<noteq> Null" "\<not> GetHeight l > GetHeight r"
        | (one) "l \<noteq> Null" "r = Null" | (two) "l = Null" "r \<noteq> Null" | (leaf) "l = Null" "r = Null" by blast
      then show ?thesis
      proof cases
        case left
        obtain a b l' ps where sw: "swap_max k v l = Some (a, b, l')" "entries l = ps @ [(a, b)]" "entries l' = ps @ [(k, v)]"
          "heights_right l'" using swap_max_entries [OF left(1), of k v] h(1) by auto
        have "ordered l" "\<forall>p \<in> set (entries l). fst p < k" using o by simp_all
        then have "ordered l'" unfolding ordered_def sw(2,3) by (auto simp: sorted_wrt_append)
        moreover have "nodes l' < nodes t" using sw(1) n(1) by simp
        moreover have "rem key (entries l') = ps" using o sw(2,3) equal by (auto intro!: rem_absent)
        ultimately obtain l'' s' where d: "avl_deletenode_node key l' s = Some (l'', s')" "heights_right l''" "entries l'' = ps" "s' = s - 1"
          using less.hyps [of l' s] sw(3,4) equal by auto
        obtain t' where "rebalance (Node a b l'' r h) = Some t'" "heights_right t'" "entries t' = entries l'' @ (a, b) # entries r"
          using rebalance_right [OF d(2) h(2)] by blast
        then show ?thesis using equal left sw(1,2) d rem by (simp add: Node avl_deletenode_node.simps is_Null_def)
      next
        case right
        obtain a b r' ps where sw: "swap_min k v r = Some (a, b, r')" "entries r = (a, b) # ps" "entries r' = (k, v) # ps"
          "heights_right r'" using swap_min_entries [OF right(2), of k v] h(2) by auto
        have "ordered r" "\<forall>p \<in> set (entries r). k < fst p" using o by simp_all
        then have "ordered r'" unfolding ordered_def sw(2,3) by simp
        moreover have "nodes r' < nodes t" using sw(1) n(2) by simp
        moreover have "rem key (entries r') = ps" using o sw(2,3) equal by (auto intro!: rem_absent)
        ultimately obtain r'' s' where d: "avl_deletenode_node key r' s = Some (r'', s')" "heights_right r''" "entries r'' = ps" "s' = s - 1"
          using less.hyps [of r' s] sw(3,4) equal by auto
        obtain t' where "rebalance (Node a b l r'' h) = Some t'" "heights_right t'" "entries t' = entries l @ (a, b) # entries r''"
          using rebalance_right [OF h(1) d(2)] by blast
        then show ?thesis using equal right sw(1,2) d rem by (simp add: Node avl_deletenode_node.simps is_Null_def)
      next
        case one
        then show ?thesis using equal rem rebalance_node_right [OF h(1) one(1)]
          by (auto simp: Node avl_deletenode_node.simps is_Null_def)
      next
        case two
        then show ?thesis using equal rem rebalance_node_right [OF h(2) two(2)]
          by (auto simp: Node avl_deletenode_node.simps is_Null_def)
      next
        case leaf
        then show ?thesis using equal by (simp add: Node avl_deletenode_node.simps)
      qed
    qed
  qed
qed

text \<open>What deleting keeps, and what the next deletion needs.\<close>

definition avl_weak_inv :: "('k::linorder, 'v) avl \<Rightarrow> bool" where
  "avl_weak_inv t \<longleftrightarrow> ordered (avl_root t) \<and> heights_right (avl_root t) \<and> avl_size t = nodes (avl_root t)"

lemma avl_deletenode_entries:
  assumes "avl_weak_inv t"
  shows "\<exists>t'. avl_deletenode k t = Some (k \<in> set (keys (avl_root t)), t') \<and> avl_weak_inv t' \<and>
    entries (avl_root t') = rem k (entries (avl_root t))"
proof -
  have t: "ordered (avl_root t)" "heights_right (avl_root t)" "avl_size t = nodes (avl_root t)"
    using assms by (simp_all add: avl_weak_inv_def)
  obtain root s where d: "avl_deletenode_node k (avl_root t) (avl_size t) = Some (root, s)" "heights_right root"
      "entries root = rem k (entries (avl_root t))" "s = (if k \<in> set (keys (avl_root t)) then avl_size t - 1 else avl_size t)"
    using avl_deletenode_node_entries [OF t(1,2), of k] by blast
  have "nodes root = s"
  proof (cases "k \<in> set (keys (avl_root t))")
    case True
    then show ?thesis using d(3,4) t length_rem [of "entries (avl_root t)" k] by (simp add: ordered_def flip: length_entries)
  next
    case False
    then have "rem k (entries (avl_root t)) = entries (avl_root t)" by (intro rem_absent) auto
    then show ?thesis using d(3,4) t(3) False by (simp flip: length_entries)
  qed
  moreover have "avl_size t \<noteq> s \<longleftrightarrow> k \<in> set (keys (avl_root t))"
    using d(4) t(3) by (cases "avl_root t") auto
  moreover have "ordered root" using d(3) t(1) sorted_rem by (simp add: ordered_def)
  ultimately show ?thesis using d by (auto simp: avl_deletenode_def avl_weak_inv_def)
qed

section \<open>Traversals\<close>

definition avl_find :: "('k::linorder, 'v) avl \<Rightarrow> 'k \<Rightarrow> 'v option" where
  "avl_find t key = node_val (search (avl_root t) key)"

definition avl_getprenode :: "('k::linorder, 'v) avl \<Rightarrow> 'k \<Rightarrow> 'v option" where
  "avl_getprenode t key = getprenode (avl_root t) key"

definition avl_getnextnode :: "('k::linorder, 'v) avl \<Rightarrow> 'k \<Rightarrow> 'v option" where
  "avl_getnextnode t key = getnextnode (avl_root t) key"

definition avl_findmax :: "'v \<Rightarrow> ('k, 'v) avl \<Rightarrow> 'v" where
  "avl_findmax default_val t = (case node_val (find_max (avl_root t)) of None \<Rightarrow> default_val | Some v \<Rightarrow> v)"

definition avl_findmin :: "'v \<Rightarrow> ('k, 'v) avl \<Rightarrow> 'v" where
  "avl_findmin default_val t = (case node_val (find_min (avl_root t)) of None \<Rightarrow> default_val | Some v \<Rightarrow> v)"

text \<open>The subscript does not insert: for an unknown key it is the static default.\<close>

definition avl_subscript :: "'v \<Rightarrow> ('k::linorder, 'v) avl \<Rightarrow> 'k \<Rightarrow> 'v" where
  "avl_subscript default_value t key =
     (case node_val (search (avl_root t) key) of None \<Rightarrow> default_value | Some v \<Rightarrow> v)"

definition avl_preorder :: "('k, 'v) avl \<Rightarrow> 'k list" where
  "avl_preorder t = preorder (avl_root t)"

definition avl_inorder :: "('k, 'v) avl \<Rightarrow> 'k list" where
  "avl_inorder t = inorder (avl_root t)"

definition avl_postorder :: "('k, 'v) avl \<Rightarrow> 'k list" where
  "avl_postorder t = postorder (avl_root t)"

definition avl_level_order :: "('k, 'v) avl \<Rightarrow> 'k list" where
  "avl_level_order t = level_order (avl_root t)"

text \<open>All three stacks are arrays of \<open>size()\<close> elements.\<close>

definition avl_no_recursive_preorder :: "('k, 'v) avl \<Rightarrow> 'k list option" where
  "avl_no_recursive_preorder t = stack_preorder (Some (avl_size t)) (avl_root t)"

definition avl_no_recursive_inorder :: "('k, 'v) avl \<Rightarrow> 'k list option" where
  "avl_no_recursive_inorder t = stack_inorder (Some (avl_size t)) (avl_root t)"

definition avl_no_recursive_postorder :: "('k, 'v) avl \<Rightarrow> 'k list option" where
  "avl_no_recursive_postorder t = stack_postorder (Some (avl_size t)) (avl_root t)"

section \<open>A deletion that loses the balance\<close>

definition avl_build :: "int list \<Rightarrow> (int, int) avl option" where
  "avl_build ks = insert_all avl_insert (map (\<lambda>k. (k, 10 * k)) ks) avl_new"

section \<open>Properties\<close>

text \<open>
  C7: Inserting in the AVL tree, starting from an empty tree and any number of times, is defined and
  keeps the tree ordered, balanced and with the right heights and size (so the assertion holds); it
  maps the key to the new value and answers whether the key was new.
\<close>

theorem avl_insert_implements_map:
  assumes "avl_inv t"
  shows "\<exists>t'. avl_insert k v t = Some (avl_find t k = None, t') \<and> avl_inv t' \<and> avl_find t' = (avl_find t)(k \<mapsto> v) \<and>
    avl_size t' = card (dom (avl_find t'))"
proof -
  have find: "avl_find u = map_of (entries (avl_root u))" if "avl_inv u" for u :: "('a, 'b) avl"
    using avl.observers(1) [OF that] by (simp add: avl_find_def fun_eq_iff)
  obtain t' where t': "avl_insert k v t = Some (k \<notin> set (keys (avl_root t)), t')" "avl_inv t'"
    "map_of (entries (avl_root t')) = (map_of (entries (avl_root t)))
      (k \<mapsto> (case map_of (entries (avl_root t)) k of None \<Rightarrow> v | Some w \<Rightarrow> v))"
    by (rule avl.insert_map [OF assms])
  have "(k \<notin> set (keys (avl_root t))) = (avl_find t k = None)"
    by (simp add: find [OF assms] map_of_eq_None_iff)
  then show ?thesis
    using t' avl.count_card [OF t'(2)] by (auto simp: find [OF assms] find [OF t'(2)] split: option.splits)
qed

lemma avl_new_inv: "avl_inv avl_new"
  by (simp add: avl_inv_def avl_new_def)

theorem avl_insert_implements_map_witness:
  "\<exists>t'. avl_insert (4::int) ''d'' avl_new = Some (True, t') \<and> avl_inv t' \<and> avl_find t' 4 = Some ''d''"
proof -
  have "avl_find avl_new (4::int) = (None :: string option)" by (simp add: avl_find_def avl_new_def)
  then show ?thesis using avl_insert_implements_map [OF avl_new_inv, of "4::int" "''d''"] by auto
qed

lemma balanced_nodes: "balanced t \<Longrightarrow> 2 ^ (tree_height t div 2) \<le> nodes t + 1"
proof (induction t)
  case (Node k v l r x)
  let ?h = "tree_height (Node k v l r x)"
  have "?h - 2 \<le> tree_height l" "?h - 2 \<le> tree_height r" using Node.prems by auto
  then have "(?h - 2) div 2 \<le> tree_height l div 2" "(?h - 2) div 2 \<le> tree_height r div 2" by (auto intro: div_le_mono)
  then have "(2::nat) ^ ((?h - 2) div 2) \<le> 2 ^ (tree_height l div 2)" "(2::nat) ^ ((?h - 2) div 2) \<le> 2 ^ (tree_height r div 2)"
    by (auto intro: power_increasing)
  moreover have "2 ^ (tree_height l div 2) \<le> nodes l + 1" "2 ^ (tree_height r div 2) \<le> nodes r + 1" using Node by auto
  ultimately have "2 ^ ((?h - 2) div 2) \<le> nodes l + 1" "2 ^ ((?h - 2) div 2) \<le> nodes r + 1"
    by (meson order_trans)+
  then have "2 * 2 ^ ((?h - 2) div 2) \<le> nodes (Node k v l r x) + 1" by (simp del: tree_height.simps)
  moreover have "n = 1 \<or> n div 2 = Suc ((n - 2) div 2)" if "1 \<le> n" for n :: nat using that by presburger
  from this [of ?h] have "?h = 1 \<or> ?h div 2 = Suc ((?h - 2) div 2)" by simp
  ultimately show ?case by (auto simp del: tree_height.simps)
qed simp

text \<open>
  The height of an AVL tree is logarithmic: a tree of height \<open>h\<close> has at least \<open>2^(h div 2) - 1\<close>
  nodes, so that searching takes at most twice the binary logarithm of the size.
\<close>

theorem avl_height_logarithmic:
  assumes "avl_inv t"
  shows "avl_height t = tree_height (avl_root t) \<and> 2 ^ (avl_height t div 2) \<le> avl_size t + 1"
  using assms balanced_nodes [of "avl_root t"] by (simp add: avl_height_def avl_inv_def GetHeight_tree_height)

theorem avl_height_logarithmic_witness: "2 ^ (avl_height (avl_new :: (int, int) avl) div 2) \<le> avl_size (avl_new :: (int, int) avl) + 1"
  using avl_height_logarithmic [OF avl_new_inv] by blast

text \<open>
  C21: Deleting in the AVL tree never follows a null pointer on a tree with right heights, balanced or
  not; it removes exactly the key, keeps the order, the heights and the size right and answers
  whether the key was there, so that deletions can follow one another.
\<close>

theorem avl_deletenode_implements_map:
  assumes "avl_weak_inv t"
  shows "\<exists>t'. avl_deletenode k t = Some (avl_find t k \<noteq> None, t') \<and> avl_weak_inv t' \<and>
    avl_find t' = (avl_find t)(k := None) \<and> inorder (avl_root t') = filter (\<lambda>j. j \<noteq> k) (inorder (avl_root t))"
proof -
  have find: "avl_find u = map_of (entries (avl_root u))" if "avl_weak_inv u" for u :: "('a, 'b) avl"
    using that by (simp add: avl_find_def avl_weak_inv_def search_val fun_eq_iff)
  obtain t' where t': "avl_deletenode k t = Some (k \<in> set (keys (avl_root t)), t')" "avl_weak_inv t'"
    "entries (avl_root t') = rem k (entries (avl_root t))"
    using avl_deletenode_entries [OF assms] by blast
  have "(k \<in> set (keys (avl_root t))) = (avl_find t k \<noteq> None)"
    by (simp add: find [OF assms] map_of_eq_None_iff)
  moreover have "map fst (rem k ps) = filter (\<lambda>j. j \<noteq> k) (map fst ps)" for ps :: "('a \<times> 'b) list"
    by (simp add: rem_def filter_map comp_def)
  ultimately show ?thesis
    using t' by (auto simp: find [OF assms] find [OF t'(2)] map_of_rem inorder_keys)
qed

theorem avl_deletenode_implements_map_witness:
  "\<exists>t'. avl_deletenode (4::int) (avl_new :: (int, int) avl) = Some (False, t') \<and> avl_weak_inv t'"
  using avl_deletenode_implements_map [of avl_new 4] by (auto simp: avl_weak_inv_def avl_new_def avl_find_def)

text \<open>
  But deleting does not keep the balance: a left child whose children have equal heights is
  rotated twice.  After eight insertions and a deletion the tree is not balanced, and inserting a
  key that is there fails the assertion; after fourteen insertions and a deletion, it follows a
  null pointer.
\<close>

lemma avl_deletenode_loses_balance:
  "do { t \<leftarrow> avl_build [6, 2, 3, 7, 8, 4, 1, 5];
        (deleted, t') \<leftarrow> avl_deletenode 8 t;
        Some (deleted, avl_find t' 7, balanced (avl_root t'), Option.is_none (avl_insert 7 0 t')) } =
     Some (True, Some 70, False, True) \<and>
   do { t \<leftarrow> avl_build [14, 6, 10, 13, 11, 5, 4, 3, 12, 7, 8, 1, 2, 9];
        (deleted, t') \<leftarrow> avl_deletenode 13 t;
        Some (deleted, avl_find t' 6, balanced (avl_root t'),
          Option.is_none (avl_insert_node 6 0 (avl_root t') (avl_size t'))) } =
     Some (True, Some 60, False, True)"
  by (intro conjI; code_simp)

text \<open>
  The traversals of the AVL tree agree like those of the plain tree: the three stacks of \<open>size()\<close>
  elements suffice.
\<close>

lemma avl_traversals_agree:
  assumes "avl_weak_inv t"
  shows "avl_no_recursive_preorder t = Some (avl_preorder t)" and "avl_no_recursive_inorder t = Some (avl_inorder t)"
    and "avl_no_recursive_postorder t = Some (avl_postorder t)"
    and "sorted (avl_inorder t) \<and> distinct (avl_inorder t)"
    and "avl_level_order t = concat (map (\<lambda>n. level n (avl_root t)) [0..<tree_height (avl_root t)])"
    and "avl_subscript d t k = (case avl_find t k of None \<Rightarrow> d | Some v \<Rightarrow> v)"
  using assms stack_preorder_correct [of "Some (avl_size t)" "avl_root t"] stack_inorder_correct [of "Some (avl_size t)" "avl_root t"]
    stack_postorder_correct [of "Some (avl_size t)" "avl_root t"]
  by (auto simp: avl_weak_inv_def avl_no_recursive_preorder_def avl_no_recursive_inorder_def avl_preorder_def
      avl_inorder_def avl_postorder_def avl_level_order_def level_order_levels avl_subscript_def avl_find_def
      avl_no_recursive_postorder_def inorder_keys ordered_def strict_sorted_iff)

end
