(* ===== verification/Red_Black_Tree.thy ===== *)
theory Red_Black_Tree
  imports Binary_Search_Tree
begin

text \<open>
  The red-black tree of \<open>RBTree.hpp\<close>.  Its nodes point to their parents; a node with the way back
  to the root is the tree below it and the list of \<open>frame\<close>s above it, the parent first, and
  \<open>zip_up\<close> is the whole tree again.  \<open>Null\<close> is the black sentinel; \<open>None\<close> is a null
  pointer that is followed, like those to the children of the sentinel.
\<close>

section \<open>The code\<close>

datatype color = COLOR_RED | COLOR_BLACK

type_synonym ('k, 'v) rb_node = "('k, 'v, color) node"

record ('k, 'v) rb =
  rb_root :: "('k, 'v) rb_node"
  rb_size :: nat

definition rb_new :: "('k, 'v) rb" where
  "rb_new = \<lparr>rb_root = Null, rb_size = 0\<rparr>"

primrec node_color :: "('k, 'v) rb_node \<Rightarrow> color" where
  "node_color Null = COLOR_BLACK"
| "node_color (Node k v l r c) = c"

primrec set_color :: "color \<Rightarrow> ('k, 'v) rb_node \<Rightarrow> ('k, 'v) rb_node" where
  "set_color c Null = Null"
| "set_color c (Node k v l r c') = Node k v l r c"

lemma not_color [simp]: "c \<noteq> COLOR_RED \<longleftrightarrow> c = COLOR_BLACK" "c \<noteq> COLOR_BLACK \<longleftrightarrow> c = COLOR_RED"
  by (cases c; simp)+

abbreviation NodeIsBlack :: "('k, 'v) rb_node \<Rightarrow> bool" where
  "NodeIsBlack node \<equiv> node_color node = COLOR_BLACK"

abbreviation NodeIsRed :: "('k, 'v) rb_node \<Rightarrow> bool" where
  "NodeIsRed node \<equiv> node_color node = COLOR_RED"

abbreviation SetNodeBlack :: "('k, 'v) rb_node \<Rightarrow> ('k, 'v) rb_node" where
  "SetNodeBlack \<equiv> set_color COLOR_BLACK"

abbreviation SetNodeRed :: "('k, 'v) rb_node \<Rightarrow> ('k, 'v) rb_node" where
  "SetNodeRed \<equiv> set_color COLOR_RED"

primrec right_black :: "('k, 'v) rb_node \<Rightarrow> ('k, 'v) rb_node" where
  "right_black Null = Null"
| "right_black (Node k v l r c) = Node k v l (SetNodeBlack r) c"

primrec left_black :: "('k, 'v) rb_node \<Rightarrow> ('k, 'v) rb_node" where
  "left_black Null = Null"
| "left_black (Node k v l r c) = Node k v (SetNodeBlack l) r c"

text \<open>The parent of a node that is its left or its right child: key, value, colour, other child.\<close>

datatype ('k, 'v) frame =
    Left_of 'k 'v color "('k, 'v) rb_node"
  | Right_of 'k 'v color "('k, 'v) rb_node"

primrec parent_with :: "('k, 'v) frame \<Rightarrow> ('k, 'v) rb_node \<Rightarrow> ('k, 'v) rb_node" where
  "parent_with (Left_of k v c bro) node = Node k v node bro c"
| "parent_with (Right_of k v c bro) node = Node k v bro node c"

primrec parent_color :: "('k, 'v) frame \<Rightarrow> color" where
  "parent_color (Left_of k v c bro) = c"
| "parent_color (Right_of k v c bro) = c"

primrec is_right :: "('k, 'v) frame \<Rightarrow> bool" where
  "is_right (Left_of k v c bro) = False"
| "is_right (Right_of k v c bro) = True"

primrec zip_up :: "('k, 'v) frame list \<Rightarrow> ('k, 'v) rb_node \<Rightarrow> ('k, 'v) rb_node" where
  "zip_up [] node = node"
| "zip_up (f # fs) node = zip_up fs (parent_with f node)"

text \<open>The rotations change the subtree at a node; the pointer to it in its parent is set with them.\<close>

fun rb_leftRotate :: "('k, 'v) rb_node \<Rightarrow> ('k, 'v) rb_node option" where
  "rb_leftRotate (Node k v l (Node rk rv rl rr rc) c) = Some (Node rk rv (Node k v l rl c) rr rc)"
| "rb_leftRotate _ = None"

fun rb_rightRotate :: "('k, 'v) rb_node \<Rightarrow> ('k, 'v) rb_node option" where
  "rb_rightRotate (Node k v (Node lk lv ll lr lc) r c) = Some (Node lk lv ll (Node k v lr r c) lc)"
| "rb_rightRotate _ = None"

text \<open>
  The loop of \<open>reBalance_Insert\<close>: a red uncle moves the problem two levels up; otherwise the new
  top of the subtree is black and the loop ends.
\<close>

fun reBalance_Insert :: "('k, 'v) rb_node \<Rightarrow> ('k, 'v) frame list \<Rightarrow> ('k, 'v) rb_node option" where
  "reBalance_Insert node [] = Some (SetNodeBlack node)"
| "reBalance_Insert node [f] =
     (if parent_color f = COLOR_RED then None else Some (SetNodeBlack (parent_with f node)))"
| "reBalance_Insert node (f # Left_of k v c uncle # fs) =
     (if parent_color f = COLOR_BLACK then Some (SetNodeBlack (zip_up (f # Left_of k v c uncle # fs) node))
      else if NodeIsRed uncle then
        reBalance_Insert (Node k v (SetNodeBlack (parent_with f node)) (SetNodeBlack uncle) COLOR_RED) fs
      else do {
        parent \<leftarrow> (if is_right f then rb_leftRotate (parent_with f node) else Some (parent_with f node));
        gp \<leftarrow> rb_rightRotate (Node k v (SetNodeBlack parent) uncle COLOR_RED);
        Some (SetNodeBlack (zip_up fs gp)) })"
| "reBalance_Insert node (f # Right_of k v c uncle # fs) =
     (if parent_color f = COLOR_BLACK then Some (SetNodeBlack (zip_up (f # Right_of k v c uncle # fs) node))
      else if NodeIsRed uncle then
        reBalance_Insert (Node k v (SetNodeBlack uncle) (SetNodeBlack (parent_with f node)) COLOR_RED) fs
      else do {
        parent \<leftarrow> (if \<not> is_right f then rb_rightRotate (parent_with f node) else Some (parent_with f node));
        gp \<leftarrow> rb_leftRotate (Node k v uncle (SetNodeBlack parent) COLOR_RED);
        Some (SetNodeBlack (zip_up fs gp)) })"

text \<open>The way to a key: the node it ends at and the frames above it.\<close>

primrec descend :: "'k::linorder \<Rightarrow> ('k, 'v) rb_node \<Rightarrow> ('k, 'v) frame list \<Rightarrow> ('k, 'v) rb_node \<times> ('k, 'v) frame list" where
  "descend key Null fs = (Null, fs)"
| "descend key (Node k v l r c) fs =
     (if k = key then (Node k v l r c, fs)
      else if key > k then descend key r (Right_of k v c l # fs)
      else descend key l (Left_of k v c r # fs))"

definition rb_insert :: "'k::linorder \<Rightarrow> 'v \<Rightarrow> ('k, 'v) rb \<Rightarrow> (bool \<times> ('k, 'v) rb) option" where
  "rb_insert key val t =
     (if is_Null (rb_root t) then
        Some (True, \<lparr>rb_root = Node key val Null Null COLOR_BLACK, rb_size = rb_size t + 1\<rparr>)
      else
        (case descend key (rb_root t) [] of
           (Node k v l r c, fs) \<Rightarrow> Some (False, t\<lparr>rb_root := zip_up fs (Node k val l r c)\<rparr>)
         | (Null, fs) \<Rightarrow> do {
             root \<leftarrow> reBalance_Insert (Node key val Null Null COLOR_RED) fs;
             Some (True, \<lparr>rb_root = root, rb_size = rb_size t + 1\<rparr>) }))"

text \<open>
  The loop of \<open>reBalance_delete\<close>.  With a red brother the parent is rotated, which puts a red
  parent and a black brother in place; with two black children of the brother the loop goes on at
  the parent.  On the right side that step writes \<open>SetNodeBlack(bro)\<close> where the left side writes
  \<open>SetNodeRed(bro)\<close>.
\<close>

function reBalance_delete :: "('k, 'v) rb_node \<Rightarrow> ('k, 'v) frame list \<Rightarrow> ('k, 'v) rb_node option" where
  "reBalance_delete node [] = Some (SetNodeBlack node)"
| "reBalance_delete node (Left_of k v c bro # fs) =
     (if NodeIsRed node then Some (zip_up (Left_of k v c bro # fs) (SetNodeBlack node))
      else
        (case (case bro of
            Node bk bv bl br COLOR_RED \<Rightarrow> (COLOR_RED, bl, Left_of bk bv COLOR_BLACK br # fs)
          | _ \<Rightarrow> (c, bro, fs)) of
           (c, Null, fs) \<Rightarrow> None
         | (c, Node bk bv bl br bc, fs) \<Rightarrow>
             if NodeIsBlack bl \<and> NodeIsBlack br then
               reBalance_delete (Node k v node (Node bk bv bl br COLOR_RED) c) fs
             else do {
               bro \<leftarrow> (if NodeIsBlack br then rb_rightRotate (Node bk bv (SetNodeBlack bl) br COLOR_RED)
                      else Some (Node bk bv bl br bc));
               top \<leftarrow> rb_leftRotate (Node k v node (set_color c (right_black bro)) COLOR_BLACK);
               Some (zip_up fs top) }))"
| "reBalance_delete node (Right_of k v c bro # fs) =
     (if NodeIsRed node then Some (zip_up (Right_of k v c bro # fs) (SetNodeBlack node))
      else
        (case (case bro of
            Node bk bv bl br COLOR_RED \<Rightarrow> (COLOR_RED, br, Right_of bk bv COLOR_BLACK bl # fs)
          | _ \<Rightarrow> (c, bro, fs)) of
           (c, Null, fs) \<Rightarrow> None
         | (c, Node bk bv bl br bc, fs) \<Rightarrow>
             if NodeIsBlack bl \<and> NodeIsBlack br then
               reBalance_delete (Node k v (Node bk bv bl br COLOR_BLACK) node c) fs
             else do {
               bro \<leftarrow> (if NodeIsBlack bl then rb_leftRotate (Node bk bv bl (SetNodeBlack br) COLOR_RED)
                      else Some (Node bk bv bl br bc));
               top \<leftarrow> rb_rightRotate (Node k v (set_color c (left_black bro)) node COLOR_BLACK);
               Some (zip_up fs top) }))"
  by pat_completeness auto
termination reBalance_delete
  by (relation "measure (\<lambda>(node, fs). 2 * length fs + (if NodeIsBlack node then 1 else 0))")
    (auto split: node.splits color.splits if_splits)


text \<open>The smallest node of a subtree: its key, value, colour and right child, and the way down to it.\<close>

primrec descend_min :: "('k, 'v) rb_node \<Rightarrow> ('k, 'v) frame list \<Rightarrow> ('k \<times> 'v \<times> color \<times> ('k, 'v) rb_node \<times> ('k, 'v) frame list) option" where
  "descend_min Null fs = None"
| "descend_min (Node k v l r c) fs =
     (if is_Null l then Some (k, v, c, r, fs) else descend_min l (Left_of k v c r # fs))"

text \<open>
  \<open>subst\<close> is the node that is unlinked and \<open>temp\<close> its only child; with a right child, \<open>subst\<close> is
  the successor, whose key and value are moved up (both tests of the code are for the right child).
\<close>

definition rb_deletenode :: "'k::linorder \<Rightarrow> ('k, 'v) rb \<Rightarrow> (bool \<times> ('k, 'v) rb) option" where
  "rb_deletenode key t =
     (case descend key (rb_root t) [] of
        (Null, fs) \<Rightarrow> Some (False, t)
      | (Node k v l r c, fs) \<Rightarrow>
          if \<not> is_Null r then
            (case descend_min r [] of
               None \<Rightarrow> None
             | Some (subst_key, subst_val, subst_color, temp, down) \<Rightarrow> do {
                 let path = down @ Right_of subst_key subst_val c l # fs;
                 root \<leftarrow> (if subst_color = COLOR_RED then Some (zip_up path temp) else reBalance_delete temp path);
                 Some (True, \<lparr>rb_root = root, rb_size = rb_size t - 1\<rparr>) })
          else if fs = [] then Some (True, \<lparr>rb_root = SetNodeBlack l, rb_size = rb_size t - 1\<rparr>)
          else do {
            root \<leftarrow> (if c = COLOR_RED then Some (zip_up fs l) else reBalance_delete l fs);
            Some (True, \<lparr>rb_root = root, rb_size = rb_size t - 1\<rparr>) })"

definition rb_height :: "('k, 'v) rb \<Rightarrow> nat" where
  "rb_height t = tree_height (rb_root t)"

text \<open>In an empty tree the loops start at the sentinel and follow its null children.\<close>

definition rb_findmax :: "('k, 'v) rb \<Rightarrow> 'v option" where
  "rb_findmax t = node_val (find_max (rb_root t))"

definition rb_findmin :: "('k, 'v) rb \<Rightarrow> 'v option" where
  "rb_findmin t = node_val (find_min (rb_root t))"

definition rb_getprenode :: "('k::linorder, 'v) rb \<Rightarrow> 'k \<Rightarrow> 'v option" where
  "rb_getprenode t key = getprenode (rb_root t) key"

definition rb_getnextnode :: "('k::linorder, 'v) rb \<Rightarrow> 'k \<Rightarrow> 'v option" where
  "rb_getnextnode t key = getnextnode (rb_root t) key"

text \<open>\<open>find\<close> fills in the value of the sentinel when the key is not there.\<close>

definition rb_find :: "'v \<Rightarrow> ('k::linorder, 'v) rb \<Rightarrow> 'k \<Rightarrow> bool \<times> 'v" where
  "rb_find sentinel_val t key =
     (let node = search (rb_root t) key in
      (\<not> is_Null node, case node_val node of None \<Rightarrow> sentinel_val | Some v \<Rightarrow> v))"

text \<open>The subscript inserts a default value for an unknown key; the value it refers to.\<close>

definition rb_subscript :: "'v \<Rightarrow> ('k::linorder, 'v) rb \<Rightarrow> 'k \<Rightarrow> ('v \<times> ('k, 'v) rb) option" where
  "rb_subscript default_val t key =
     (case node_val (search (rb_root t) key) of
        Some v \<Rightarrow> Some (v, t)
      | None \<Rightarrow> do {
          (inserted, t) \<leftarrow> rb_insert key default_val t;
          v \<leftarrow> node_val (search (rb_root t) key);
          Some (v, t) })"

text \<open>
  \<open>max(...)+NodeIsBlack(node)?1:0\<close> is, as the macro has no parentheses,
  \<open>(max(...) + color_) == COLOR_BLACK ? 1 : 0\<close>, with \<open>COLOR_RED\<close> 0 and \<open>COLOR_BLACK\<close> 1.
\<close>

primrec color_number :: "color \<Rightarrow> nat" where
  "color_number COLOR_RED = 0"
| "color_number COLOR_BLACK = 1"

primrec blackheight :: "('k, 'v) rb_node \<Rightarrow> nat" where
  "blackheight Null = 1"
| "blackheight (Node k v l r c) =
     (if max (blackheight l) (blackheight r) + color_number c = color_number COLOR_BLACK then 1 else 0)"

definition BlackHeight :: "('k, 'v) rb \<Rightarrow> nat" where
  "BlackHeight t = blackheight (rb_root t)"

text \<open>The check of one node, with the colour of its parent, \<open>None\<close> for a null pointer to it.\<close>

primrec IsBanlace_node :: "color option \<Rightarrow> ('k, 'v) rb_node \<Rightarrow> bool option" where
  "IsBanlace_node parent Null = Some True"
| "IsBanlace_node parent (Node k v l r c) =
     (if c = COLOR_RED then do {
        p \<leftarrow> parent;
        Some (if p = COLOR_RED then False
              else if NodeIsRed l \<or> NodeIsBlack r then False
              else blackheight l = blackheight r) }
      else Some (blackheight l = blackheight r))"

definition IsBanlace :: "('k, 'v) rb \<Rightarrow> bool option" where
  "IsBanlace t = cand (NodeIsBlack (rb_root t)) (IsBanlace_node None (rb_root t))"

definition rb_no_recursive_preorder :: "('k, 'v) rb \<Rightarrow> 'k list option" where
  "rb_no_recursive_preorder t = (if rb_size t = 0 then Some [] else stack_preorder (Some (rb_size t)) (rb_root t))"

definition rb_no_recursive_inorder :: "('k, 'v) rb \<Rightarrow> 'k list option" where
  "rb_no_recursive_inorder t = (if rb_size t = 0 then Some [] else stack_inorder (Some (rb_size t)) (rb_root t))"

definition rb_no_recursive_postorder :: "('k, 'v) rb \<Rightarrow> 'k list option" where
  "rb_no_recursive_postorder t = (if rb_size t = 0 then Some [] else stack_postorder (Some (rb_size t)) (rb_root t))"

definition rb_preorder :: "('k, 'v) rb \<Rightarrow> 'k list" where
  "rb_preorder t = preorder (rb_root t)"

definition rb_inorder :: "('k, 'v) rb \<Rightarrow> 'k list" where
  "rb_inorder t = inorder (rb_root t)"

definition rb_postorder :: "('k, 'v) rb \<Rightarrow> 'k list" where
  "rb_postorder t = postorder (rb_root t)"

definition rb_level_order :: "('k, 'v) rb \<Rightarrow> 'k list" where
  "rb_level_order t = (if rb_size t = 0 then [] else level_order (rb_root t))"

section \<open>Frames and entries\<close>

primrec brother :: "('k, 'v) frame \<Rightarrow> ('k, 'v) rb_node" where
  "brother (Left_of k v c bro) = bro"
| "brother (Right_of k v c bro) = bro"

primrec before :: "('k, 'v) frame list \<Rightarrow> ('k \<times> 'v) list" where
  "before [] = []"
| "before (f # fs) = before fs @ (case f of Left_of k v c bro \<Rightarrow> [] | Right_of k v c bro \<Rightarrow> entries bro @ [(k, v)])"

primrec behind :: "('k, 'v) frame list \<Rightarrow> ('k \<times> 'v) list" where
  "behind [] = []"
| "behind (f # fs) = (case f of Left_of k v c bro \<Rightarrow> (k, v) # entries bro | Right_of k v c bro \<Rightarrow> []) @ behind fs"

lemma entries_zip [simp]: "entries (zip_up fs t) = before fs @ entries t @ behind fs"
  by (induction fs arbitrary: t) (auto split: frame.split)

lemma entries_set_color [simp]: "entries (set_color c t) = entries t"
  by (cases t) auto

lemma entries_side_black [simp]: "entries (right_black t) = entries t" "entries (left_black t) = entries t"
  by (cases t; simp)+

lemma entries_parent [simp]: "entries (parent_with f t) = before [f] @ entries t @ behind [f]"
  by (cases f) auto

lemma rb_leftRotate_entries: "rb_leftRotate t = Some t' \<Longrightarrow> entries t' = entries t"
  by (induction t rule: rb_leftRotate.induct) auto

lemma rb_rightRotate_entries: "rb_rightRotate t = Some t' \<Longrightarrow> entries t' = entries t"
  by (induction t rule: rb_rightRotate.induct) auto

lemmas rb_rotate_entries = rb_leftRotate_entries rb_rightRotate_entries

lemma zip_append [simp]: "zip_up (fs @ gs) t = zip_up gs (zip_up fs t)"
  by (induction fs arbitrary: t) auto

lemma before_append [simp]: "before (fs @ gs) = before gs @ before fs" "behind (fs @ gs) = behind fs @ behind gs"
  by (induction fs) auto

lemma reBalance_Insert_entries:
  "reBalance_Insert node fs = Some t \<Longrightarrow> entries t = before fs @ entries node @ behind fs"
  by (induction node fs arbitrary: t rule: reBalance_Insert.induct)
    (auto split: if_splits bind_splits dest!: rb_rotate_entries)

lemma reBalance_delete_entries:
  "reBalance_delete node fs = Some t \<Longrightarrow> entries t = before fs @ entries node @ behind fs"
proof (induction node fs arbitrary: t rule: reBalance_delete.induct)
  case (2 node k v c bro fs)
  then show ?case
    by (auto split: if_splits bind_splits node.splits color.splits dest!: rb_rotate_entries)
next
  case (3 node k v c bro fs)
  then show ?case
    by (auto split: if_splits bind_splits node.splits color.splits dest!: rb_rotate_entries)
qed auto

lemma descend_zip: "descend key t fs = (t', fs') \<Longrightarrow> zip_up fs' t' = zip_up fs t"
  by (induction t arbitrary: fs) (auto split: if_splits)

lemma descend_found:
  "descend key t fs = (t', fs') \<Longrightarrow> ordered t \<Longrightarrow>
     (t' = Null \<longrightarrow> key \<notin> set (keys t)) \<and> (t' \<noteq> Null \<longrightarrow> node_key t' = key \<and> key \<in> set (keys t))"
proof (induction t arbitrary: fs)
  case (Node k v l r c)
  then have "k \<le> key \<Longrightarrow> key \<notin> set (keys l)" "key \<le> k \<Longrightarrow> key \<notin> set (keys r)" by fastforce+
  with Node show ?case by (fastforce split: if_splits)
qed simp

lemma descend_sides:
  assumes "descend key t fs = (t', fs')" and "ordered t"
    and "\<forall>p \<in> set (before fs). fst p < key" and "\<forall>p \<in> set (behind fs). key < fst p"
  shows "(\<forall>p \<in> set (before fs'). fst p < key) \<and> (\<forall>p \<in> set (behind fs'). key < fst p)"
  using assms
proof (induction t arbitrary: fs)
  case (Node k v l r c)
  show ?case
  proof (cases key k rule: linorder_cases)
    case equal
    with Node.prems show ?thesis by simp
  next
    case less
    with Node.prems have "\<forall>p \<in> set (behind (Left_of k v c r # fs)). key < fst p" by fastforce
    with less Node.IH(1) [of "Left_of k v c r # fs"] Node.prems show ?thesis by (auto split: if_splits)
  next
    case greater
    with Node.prems have "\<forall>p \<in> set (before (Right_of k v c l # fs)). fst p < key" by fastforce
    with greater Node.IH(2) [of "Right_of k v c l # fs"] Node.prems show ?thesis by (auto split: if_splits)
  qed
qed simp

lemma descend_min_zip:
  "descend_min t fs = Some (k, v, c, r, fs') \<Longrightarrow> zip_up fs' (Node k v Null r c) = zip_up fs t"
  by (induction t arbitrary: fs) (auto simp: is_Null_def split: if_splits)

lemma descend_min_entries:
  "descend_min t fs = Some (k, v, c, r, fs') \<Longrightarrow> before fs' = before fs"
  by (induction t arbitrary: fs) (auto split: if_splits)

lemma descend_min_Some: "t \<noteq> Null \<Longrightarrow> \<exists>k v c r fs'. descend_min t fs = Some (k, v, c, r, fs')"
  by (induction t arbitrary: fs) (auto simp: is_Null_def)

section \<open>Colours and black heights\<close>

primrec bh :: "('k, 'v) rb_node \<Rightarrow> nat" where
  "bh Null = 0"
| "bh (Node k v l r c) = bh l + color_number c"

text \<open>No red node has a red child; all ways down pass the same number of black nodes.\<close>

primrec no_red_red :: "('k, 'v) rb_node \<Rightarrow> bool" where
  "no_red_red Null = True"
| "no_red_red (Node k v l r c) \<longleftrightarrow>
     (c = COLOR_RED \<longrightarrow> NodeIsBlack l \<and> NodeIsBlack r) \<and> no_red_red l \<and> no_red_red r"

primrec equal_bh :: "('k, 'v) rb_node \<Rightarrow> bool" where
  "equal_bh Null = True"
| "equal_bh (Node k v l r c) \<longleftrightarrow> bh l = bh r \<and> equal_bh l \<and> equal_bh r"

text \<open>The same for what is above a node; a red frame has a black one above it.\<close>

definition below_black :: "('k, 'v) frame list \<Rightarrow> bool" where
  "below_black fs \<longleftrightarrow> fs \<noteq> [] \<and> parent_color (hd fs) = COLOR_BLACK"

primrec path_colors :: "('k, 'v) frame list \<Rightarrow> bool" where
  "path_colors [] = True"
| "path_colors (f # fs) \<longleftrightarrow> no_red_red (brother f) \<and>
     (parent_color f = COLOR_RED \<longrightarrow> NodeIsBlack (brother f) \<and> below_black fs) \<and> path_colors fs"

primrec path_bh :: "nat \<Rightarrow> ('k, 'v) frame list \<Rightarrow> bool" where
  "path_bh h [] = True"
| "path_bh h (f # fs) \<longleftrightarrow> equal_bh (brother f) \<and> bh (brother f) = h \<and> path_bh (h + color_number (parent_color f)) fs"

lemma below_black_simps [simp]: "below_black (f # fs) \<longleftrightarrow> parent_color f = COLOR_BLACK" "\<not> below_black []"
  by (simp_all add: below_black_def)

lemma parent_facts [simp]:
  "node_color (parent_with f t) = parent_color f"
  "no_red_red (parent_with f t) \<longleftrightarrow>
     (parent_color f = COLOR_RED \<longrightarrow> NodeIsBlack t \<and> NodeIsBlack (brother f)) \<and> no_red_red t \<and> no_red_red (brother f)"
  "equal_bh (parent_with f t) \<longleftrightarrow> bh t = bh (brother f) \<and> equal_bh t \<and> equal_bh (brother f)"
  by (cases f; auto)+

lemma bh_parent: "bh t = bh (brother f) \<Longrightarrow> bh (parent_with f t) = bh t + color_number (parent_color f)"
  by (cases f) auto

lemma set_color_facts [simp]:
  "node_color (set_color c t) = (if t = Null then COLOR_BLACK else c)"
  "equal_bh (set_color c t) = equal_bh t"
  "set_color c (set_color c' t) = set_color c t"
  "set_color c t = Null \<longleftrightarrow> t = Null"
  by (cases t; auto)+

lemma no_red_red_black: "no_red_red t \<Longrightarrow> no_red_red (SetNodeBlack t)"
  by (cases t) auto

lemma set_black_same: "NodeIsBlack t \<Longrightarrow> SetNodeBlack t = t"
  by (cases t) auto

lemma bh_set_black: "NodeIsRed t \<Longrightarrow> bh (SetNodeBlack t) = Suc (bh t)"
  by (cases t) auto

lemma bh_Suc: "bh t = Suc h \<Longrightarrow> \<exists>k v l r c. t = Node k v l r c"
  by (cases t) auto

lemma zip_colors:
  "no_red_red (zip_up fs t) \<and> NodeIsBlack (zip_up fs t) \<longleftrightarrow>
   no_red_red t \<and> path_colors fs \<and> (NodeIsRed t \<longrightarrow> below_black fs)"
proof (induction fs arbitrary: t)
  case (Cons f fs)
  show ?case by (auto simp: Cons.IH)
qed auto

lemma zip_bh: "equal_bh (zip_up fs t) \<longleftrightarrow> equal_bh t \<and> path_bh (bh t) fs"
proof (induction fs arbitrary: t)
  case (Cons f fs)
  show ?case
  proof (cases "bh t = bh (brother f)")
    case True
    from bh_parent [OF this] show ?thesis unfolding zip_up.simps Cons.IH parent_facts path_bh.simps True by auto
  next
    case False
    then show ?thesis unfolding zip_up.simps Cons.IH parent_facts path_bh.simps by auto
  qed
qed simp

text \<open>Inserting: the new red node may have a red parent, and nothing else is wrong.\<close>

lemma zip_parent_colors:
  assumes "no_red_red node" and "path_colors fs" and "below_black fs"
  shows "no_red_red (zip_up fs node) \<and> NodeIsBlack (zip_up fs node)"
  using assms zip_colors [of fs node] by simp

lemma insert_case_left:
  assumes "no_red_red (Node nk nv nl nr COLOR_RED)" "parent_color f = COLOR_RED" "no_red_red (brother f)" "NodeIsBlack (brother f)"
    "NodeIsBlack uncle" "no_red_red uncle"
  shows "\<exists>k' v' l' r'. (do { parent \<leftarrow> (if is_right f then rb_leftRotate (parent_with f (Node nk nv nl nr COLOR_RED)) else Some (parent_with f (Node nk nv nl nr COLOR_RED)));
        rb_rightRotate (Node k v (SetNodeBlack parent) uncle COLOR_RED) }) = Some (Node k' v' l' r' COLOR_BLACK) \<and>
      no_red_red (Node k' v' l' r' COLOR_BLACK) \<and>
      (bh nl = bh (brother f) \<and> bh nr = bh nl \<and> bh uncle = bh nl \<and> equal_bh nl \<and> equal_bh nr \<and> equal_bh (brother f) \<and> equal_bh uncle
        \<longrightarrow> equal_bh (Node k' v' l' r' COLOR_BLACK) \<and> bh (Node k' v' l' r' COLOR_BLACK) = Suc (bh nl))"
  using assms by (cases f) auto

lemma insert_case_right:
  assumes "no_red_red (Node nk nv nl nr COLOR_RED)" "parent_color f = COLOR_RED" "no_red_red (brother f)" "NodeIsBlack (brother f)"
    "NodeIsBlack uncle" "no_red_red uncle"
  shows "\<exists>k' v' l' r'. (do { parent \<leftarrow> (if \<not> is_right f then rb_rightRotate (parent_with f (Node nk nv nl nr COLOR_RED)) else Some (parent_with f (Node nk nv nl nr COLOR_RED)));
        rb_leftRotate (Node k v uncle (SetNodeBlack parent) COLOR_RED) }) = Some (Node k' v' l' r' COLOR_BLACK) \<and>
      no_red_red (Node k' v' l' r' COLOR_BLACK) \<and>
      (bh nl = bh (brother f) \<and> bh nr = bh nl \<and> bh uncle = bh nl \<and> equal_bh nl \<and> equal_bh nr \<and> equal_bh (brother f) \<and> equal_bh uncle
        \<longrightarrow> equal_bh (Node k' v' l' r' COLOR_BLACK) \<and> bh (Node k' v' l' r' COLOR_BLACK) = Suc (bh nl))"
  using assms by (cases f) auto

lemma reBalance_Insert_colors:
  "no_red_red (Node nk nv nl nr COLOR_RED) \<Longrightarrow> path_colors fs \<Longrightarrow>
   \<exists>t. reBalance_Insert (Node nk nv nl nr COLOR_RED) fs = Some t \<and> no_red_red t \<and> NodeIsBlack t \<and>
     (equal_bh (Node nk nv nl nr COLOR_RED) \<and> path_bh (bh nl) fs \<longrightarrow> equal_bh t)"
proof (induction "Node nk nv nl nr COLOR_RED" fs arbitrary: nk nv nl nr rule: reBalance_Insert.induct)
  case 1
  then show ?case by simp
next
  case (2 f)
  then show ?case by (auto simp: no_red_red_black)
next
  case (3 f k v c uncle fs)
  let ?node = "Node nk nv nl nr COLOR_RED"
  show ?case
  proof (cases "parent_color f = COLOR_BLACK")
    case True
    then have "no_red_red (zip_up (f # Left_of k v c uncle # fs) ?node)" "NodeIsBlack (zip_up (f # Left_of k v c uncle # fs) ?node)"
      using 3 zip_parent_colors [of ?node "f # Left_of k v c uncle # fs"] by auto
    then show ?thesis using True zip_bh [of "f # Left_of k v c uncle # fs" ?node] by (auto simp: no_red_red_black)
  next
    case False
    then have f: "parent_color f = COLOR_RED" "c = COLOR_BLACK" "no_red_red (brother f)" "NodeIsBlack (brother f)"
      "no_red_red uncle" "path_colors fs" using "3.prems"(2) by auto
    show ?thesis
    proof (cases "NodeIsRed uncle")
      case True
      have "no_red_red (Node k v (SetNodeBlack (parent_with f ?node)) (SetNodeBlack uncle) COLOR_RED)"
        using f "3.prems"(1) by (cases f) (auto simp: no_red_red_black)
      from "3.hyps" [OF _ True this f(6)] False True
      show ?thesis using f True by (cases f) (auto simp: bh_set_black set_black_same)
    next
      case False
      then have "NodeIsBlack uncle" by simp
      from insert_case_left [OF "3.prems"(1) f(1,3,4) this f(5), of k v]
      obtain k' v' l' r' where g: "(do { parent \<leftarrow> (if is_right f then rb_leftRotate (parent_with f ?node) else Some (parent_with f ?node));
          rb_rightRotate (Node k v (SetNodeBlack parent) uncle COLOR_RED) }) = Some (Node k' v' l' r' COLOR_BLACK)"
        "no_red_red (Node k' v' l' r' COLOR_BLACK)"
        "bh nl = bh (brother f) \<and> bh nr = bh nl \<and> bh uncle = bh nl \<and> equal_bh nl \<and> equal_bh nr \<and> equal_bh (brother f) \<and> equal_bh uncle
          \<longrightarrow> equal_bh (Node k' v' l' r' COLOR_BLACK) \<and> bh (Node k' v' l' r' COLOR_BLACK) = Suc (bh nl)" by blast
      let ?gp = "Node k' v' l' r' COLOR_BLACK"
      have "reBalance_Insert ?node (f # Left_of k v c uncle # fs) = Some (SetNodeBlack (zip_up fs ?gp))"
        using g(1) f(1) False by (auto split: bind_splits if_splits)
      then show ?thesis using f g(2,3) zip_colors [of fs ?gp] zip_bh [of fs ?gp] by (auto simp: set_black_same)
    qed
  qed
next
  case (4 f k v c uncle fs)
  let ?node = "Node nk nv nl nr COLOR_RED"
  show ?case
  proof (cases "parent_color f = COLOR_BLACK")
    case True
    then have "no_red_red (zip_up (f # Right_of k v c uncle # fs) ?node)" "NodeIsBlack (zip_up (f # Right_of k v c uncle # fs) ?node)"
      using 4 zip_parent_colors [of ?node "f # Right_of k v c uncle # fs"] by auto
    then show ?thesis using True zip_bh [of "f # Right_of k v c uncle # fs" ?node] by (auto simp: no_red_red_black)
  next
    case False
    then have f: "parent_color f = COLOR_RED" "c = COLOR_BLACK" "no_red_red (brother f)" "NodeIsBlack (brother f)"
      "no_red_red uncle" "path_colors fs" using "4.prems"(2) by auto
    show ?thesis
    proof (cases "NodeIsRed uncle")
      case True
      have "no_red_red (Node k v (SetNodeBlack uncle) (SetNodeBlack (parent_with f ?node)) COLOR_RED)"
        using f "4.prems"(1) by (cases f) (auto simp: no_red_red_black)
      from "4.hyps" [OF _ True this f(6)] False True
      show ?thesis using f True by (cases f) (auto simp: bh_set_black set_black_same)
    next
      case False
      then have "NodeIsBlack uncle" by simp
      from insert_case_right [OF "4.prems"(1) f(1,3,4) this f(5), of k v]
      obtain k' v' l' r' where g: "(do { parent \<leftarrow> (if \<not> is_right f then rb_rightRotate (parent_with f ?node) else Some (parent_with f ?node));
          rb_leftRotate (Node k v uncle (SetNodeBlack parent) COLOR_RED) }) = Some (Node k' v' l' r' COLOR_BLACK)"
        "no_red_red (Node k' v' l' r' COLOR_BLACK)"
        "bh nl = bh (brother f) \<and> bh nr = bh nl \<and> bh uncle = bh nl \<and> equal_bh nl \<and> equal_bh nr \<and> equal_bh (brother f) \<and> equal_bh uncle
          \<longrightarrow> equal_bh (Node k' v' l' r' COLOR_BLACK) \<and> bh (Node k' v' l' r' COLOR_BLACK) = Suc (bh nl)" by blast
      let ?gp = "Node k' v' l' r' COLOR_BLACK"
      have "reBalance_Insert ?node (f # Right_of k v c uncle # fs) = Some (SetNodeBlack (zip_up fs ?gp))"
        using g(1) f(1) False by (auto split: bind_splits if_splits)
      then show ?thesis using f g(2,3) zip_colors [of fs ?gp] zip_bh [of fs ?gp] by (auto simp: set_black_same)
    qed
  qed
qed

text \<open>
  Deleting: the subtree at the node has lost one black node, so that its brothers have at least
  one.  That the loop ends and leaves no red node below a red one needs no more than that.
\<close>

lemma delete_case1_left:
  assumes "path_colors (Left_of k v c bro # fs)" and "path_bh (Suc h) (Left_of k v c bro # fs)"
  shows "\<exists>c1 bk bv bl br fs1. (case bro of
        Node bk bv bl br COLOR_RED \<Rightarrow> (COLOR_RED, bl, Left_of bk bv COLOR_BLACK br # fs)
      | _ \<Rightarrow> (c, bro, fs)) = (c1, Node bk bv bl br COLOR_BLACK, fs1) \<and>
    no_red_red bl \<and> no_red_red br \<and> path_colors fs1 \<and> (c1 = COLOR_RED \<longrightarrow> below_black fs1) \<and>
    path_bh (Suc h + color_number c1) fs1 \<and> equal_bh (Node bk bv bl br COLOR_BLACK) \<and> bh bl = h \<and>
    length fs1 \<le> length fs + (if c1 = COLOR_RED then 1 else 0) \<and>
    (\<forall>f \<in> set fs1. is_right f \<longrightarrow> f \<in> set fs)"
proof (cases "NodeIsRed bro")
  case True
  then obtain bk bv bl br where bro: "bro = Node bk bv bl br COLOR_RED" by (cases bro) auto
  with assms have "bh bl = Suc h" "NodeIsBlack bl" by auto
  then obtain k' v' l' r' where "bl = Node k' v' l' r' COLOR_BLACK" by (cases bl) auto
  then show ?thesis using assms bro by auto
next
  case False
  moreover have "bh bro = Suc h" using assms by simp
  then obtain k' v' l' r' c' where "bro = Node k' v' l' r' c'" using bh_Suc by blast
  ultimately show ?thesis using assms by auto
qed

lemma delete_case1_right:
  assumes "path_colors (Right_of k v c bro # fs)" and "path_bh (Suc h) (Right_of k v c bro # fs)"
  shows "\<exists>c1 bk bv bl br fs1. (case bro of
        Node bk bv bl br COLOR_RED \<Rightarrow> (COLOR_RED, br, Right_of bk bv COLOR_BLACK bl # fs)
      | _ \<Rightarrow> (c, bro, fs)) = (c1, Node bk bv bl br COLOR_BLACK, fs1) \<and>
    no_red_red bl \<and> no_red_red br \<and> path_colors fs1 \<and> (c1 = COLOR_RED \<longrightarrow> below_black fs1) \<and>
    path_bh (Suc h + color_number c1) fs1 \<and> length fs1 \<le> length fs + (if c1 = COLOR_RED then 1 else 0)"
proof (cases "NodeIsRed bro")
  case True
  then obtain bk bv bl br where bro: "bro = Node bk bv bl br COLOR_RED" by (cases bro) auto
  with assms have "bh br = Suc h" "NodeIsBlack br" by auto
  then obtain k' v' l' r' where "br = Node k' v' l' r' COLOR_BLACK" by (cases br) auto
  then show ?thesis using assms bro by auto
next
  case False
  moreover have "bh bro = Suc h" using assms by simp
  then obtain k' v' l' r' c' where "bro = Node k' v' l' r' c'" using bh_Suc by blast
  ultimately show ?thesis using assms by auto
qed

lemma delete_case4_left:
  assumes "no_red_red node" "NodeIsBlack node" "no_red_red bl" "no_red_red br" "\<not> (NodeIsBlack bl \<and> NodeIsBlack br)"
  shows "\<exists>k' v' l' r'. do {
      bro \<leftarrow> (if NodeIsBlack br then rb_rightRotate (Node bk bv (SetNodeBlack bl) br COLOR_RED)
             else Some (Node bk bv bl br COLOR_BLACK));
      rb_leftRotate (Node k v node (set_color c (right_black bro)) COLOR_BLACK) } = Some (Node k' v' l' r' c) \<and>
    no_red_red (Node k' v' l' r' c) \<and>
    (equal_bh node \<and> bh node = bh bl \<and> equal_bh (Node bk bv bl br COLOR_BLACK) \<longrightarrow>
      equal_bh (Node k' v' l' r' c) \<and> bh (Node k' v' l' r' c) = Suc (bh bl) + color_number c)"
proof (cases "NodeIsBlack br")
  case True
  then obtain a b d e where "bl = Node a b d e COLOR_RED" using assms(5) by (cases bl) auto
  then show ?thesis using True assms by (cases br) auto
next
  case False
  then obtain a b d e where "br = Node a b d e COLOR_RED" by (cases br) auto
  then show ?thesis using assms by auto
qed

lemma delete_case4_right:
  assumes "no_red_red node" "NodeIsBlack node" "no_red_red bl" "no_red_red br" "\<not> (NodeIsBlack bl \<and> NodeIsBlack br)"
  shows "\<exists>k' v' l' r'. do {
      bro \<leftarrow> (if NodeIsBlack bl then rb_leftRotate (Node bk bv bl (SetNodeBlack br) COLOR_RED)
             else Some (Node bk bv bl br COLOR_BLACK));
      rb_rightRotate (Node k v (set_color c (left_black bro)) node COLOR_BLACK) } = Some (Node k' v' l' r' c) \<and>
    no_red_red (Node k' v' l' r' c)"
proof (cases "NodeIsBlack bl")
  case True
  then obtain a b d e where "br = Node a b d e COLOR_RED" using assms(5) by (cases br) auto
  then show ?thesis using True assms by (cases bl) auto
next
  case False
  then obtain a b d e where "bl = Node a b d e COLOR_RED" by (cases bl) auto
  then show ?thesis using assms by auto
qed

lemma reBalance_delete_colors:
  "no_red_red (SetNodeBlack node) \<Longrightarrow> path_colors fs \<Longrightarrow> path_bh (Suc h) fs \<Longrightarrow>
   \<exists>t. reBalance_delete node fs = Some t \<and> no_red_red t \<and> NodeIsBlack t \<and>
     (equal_bh node \<and> bh node = h \<and> (\<forall>f \<in> set fs. \<not> is_right f) \<longrightarrow> equal_bh t)"
proof (induction "2 * length fs + (if NodeIsBlack node then 1 else 0)" arbitrary: node fs h rule: less_induct)
  case less
  show ?case
  proof (cases fs)
    case Nil
    then show ?thesis using less.prems by simp
  next
    case (Cons f gs)
    show ?thesis
    proof (cases "NodeIsRed node")
      case True
      have "\<exists>t. reBalance_delete node fs = Some t \<and> t = zip_up fs (SetNodeBlack node)"
        using True Cons by (cases f) auto
      then show ?thesis using less.prems True zip_colors [of fs "SetNodeBlack node"] zip_bh [of fs "SetNodeBlack node"]
        by (auto simp: bh_set_black split: if_splits)
    next
      case False
      then have n: "no_red_red node" "NodeIsBlack node" using less.prems(1) by (simp_all add: set_black_same)
      show ?thesis
      proof (cases f)
        case (Left_of k v c bro)
        obtain c1 bk bv bl br fs1 where s: "(case bro of
              Node bk bv bl br COLOR_RED \<Rightarrow> (COLOR_RED, bl, Left_of bk bv COLOR_BLACK br # gs)
            | _ \<Rightarrow> (c, bro, gs)) = (c1, Node bk bv bl br COLOR_BLACK, fs1)"
          "no_red_red bl" "no_red_red br" "path_colors fs1" "c1 = COLOR_RED \<longrightarrow> below_black fs1"
          "path_bh (Suc h + color_number c1) fs1" "equal_bh (Node bk bv bl br COLOR_BLACK)" "bh bl = h"
          "length fs1 \<le> length gs + (if c1 = COLOR_RED then 1 else 0)" "\<forall>f \<in> set fs1. is_right f \<longrightarrow> f \<in> set gs"
          using delete_case1_left [of k v c bro gs h] less.prems Cons Left_of by blast
        show ?thesis
        proof (cases "NodeIsBlack bl \<and> NodeIsBlack br")
          case True
          let ?node = "Node k v node (Node bk bv bl br COLOR_RED) c1"
          have "\<exists>t. reBalance_delete ?node fs1 = Some t \<and> no_red_red t \<and> NodeIsBlack t \<and>
              (equal_bh ?node \<and> bh ?node = h + color_number c1 \<and> (\<forall>f \<in> set fs1. \<not> is_right f) \<longrightarrow> equal_bh t)"
            by (rule less.hyps) (use n s True Cons in \<open>auto split: if_splits\<close>)
          then show ?thesis using s True Cons Left_of False by auto
        next
          case case4: False
          from delete_case4_left [OF n s(2,3) this, of bk bv k v c1]
          obtain k' v' l' r' where top: "do {
              bro \<leftarrow> (if NodeIsBlack br then rb_rightRotate (Node bk bv (SetNodeBlack bl) br COLOR_RED)
                     else Some (Node bk bv bl br COLOR_BLACK));
              rb_leftRotate (Node k v node (set_color c1 (right_black bro)) COLOR_BLACK) } = Some (Node k' v' l' r' c1)"
            "no_red_red (Node k' v' l' r' c1)"
            "equal_bh node \<and> bh node = bh bl \<and> equal_bh (Node bk bv bl br COLOR_BLACK) \<longrightarrow>
              equal_bh (Node k' v' l' r' c1) \<and> bh (Node k' v' l' r' c1) = Suc (bh bl) + color_number c1" by blast
          have "reBalance_delete node fs = Some (zip_up fs1 (Node k' v' l' r' c1))"
            using top(1) s(1) case4 Cons Left_of False by (auto split: bind_splits if_splits)
          moreover have "equal_bh (zip_up fs1 (Node k' v' l' r' c1))" if "equal_bh node" "bh node = h"
            using top(3) s(6-8) that unfolding zip_bh by (simp del: bh.simps equal_bh.simps)
          ultimately show ?thesis
            using top(2) s(4,5) zip_colors [of fs1 "Node k' v' l' r' c1"] by auto
        qed
      next
        case (Right_of k v c bro)
        obtain c1 bk bv bl br fs1 where s: "(case bro of
              Node bk bv bl br COLOR_RED \<Rightarrow> (COLOR_RED, br, Right_of bk bv COLOR_BLACK bl # gs)
            | _ \<Rightarrow> (c, bro, gs)) = (c1, Node bk bv bl br COLOR_BLACK, fs1)"
          "no_red_red bl" "no_red_red br" "path_colors fs1" "c1 = COLOR_RED \<longrightarrow> below_black fs1"
          "path_bh (Suc h + color_number c1) fs1"
          "length fs1 \<le> length gs + (if c1 = COLOR_RED then 1 else 0)"
          using delete_case1_right [of k v c bro gs h] less.prems Cons Right_of by blast
        show ?thesis
        proof (cases "NodeIsBlack bl \<and> NodeIsBlack br")
          case True
          let ?node = "Node k v (Node bk bv bl br COLOR_BLACK) node c1"
          have "\<exists>t. reBalance_delete ?node fs1 = Some t \<and> no_red_red t \<and> NodeIsBlack t \<and>
              (equal_bh ?node \<and> bh ?node = h + color_number c1 \<and> (\<forall>f \<in> set fs1. \<not> is_right f) \<longrightarrow> equal_bh t)"
            by (rule less.hyps) (use n s True Cons in \<open>auto split: if_splits\<close>)
          then show ?thesis using s True Cons Right_of False by auto
        next
          case case4: False
          from delete_case4_right [OF n s(2,3) this, of bk bv k v c1]
          obtain k' v' l' r' where top: "do {
              bro \<leftarrow> (if NodeIsBlack bl then rb_leftRotate (Node bk bv bl (SetNodeBlack br) COLOR_RED)
                     else Some (Node bk bv bl br COLOR_BLACK));
              rb_rightRotate (Node k v (set_color c1 (left_black bro)) node COLOR_BLACK) } = Some (Node k' v' l' r' c1)"
            "no_red_red (Node k' v' l' r' c1)" by blast
          have "reBalance_delete node fs = Some (zip_up fs1 (Node k' v' l' r' c1))"
            using top(1) s(1) case4 Cons Right_of False by (auto split: bind_splits if_splits)
          then show ?thesis
            using top(2) s Cons Right_of zip_colors [of fs1 "Node k' v' l' r' c1"] by auto
        qed
      qed
    qed
  qed
qed

section \<open>The tree\<close>

text \<open>What every operation keeps, and what the deletion may break.\<close>

definition rb_weak_inv :: "('k::linorder, 'v) rb \<Rightarrow> bool" where
  "rb_weak_inv t \<longleftrightarrow> ordered (rb_root t) \<and> rb_size t = nodes (rb_root t) \<and>
     no_red_red (rb_root t) \<and> NodeIsBlack (rb_root t)"

definition rb_inv :: "('k::linorder, 'v) rb \<Rightarrow> bool" where
  "rb_inv t \<longleftrightarrow> rb_weak_inv t \<and> equal_bh (rb_root t)"

lemma put_sides:
  assumes "\<forall>p \<in> set ps. fst p < k" and "\<forall>p \<in> set qs. k < fst p"
  shows "put k v (ps @ qs) = ps @ (k, v) # qs"
proof -
  have "filter (\<lambda>p. k < fst p) ps = []" "filter (\<lambda>p. fst p < k) ps = ps"
    "filter (\<lambda>p. k < fst p) qs = qs" "filter (\<lambda>p. fst p < k) qs = []"
    using assms by (auto intro!: filter_none filter_all)
  then show ?thesis by (simp add: put_def)
qed

lemma nodes_put:
  assumes "ordered t" and "entries t' = put k v (entries t)"
  shows "nodes t' = (if k \<in> set (keys t) then nodes t else nodes t + 1)" and "ordered t'"
proof -
  show "ordered t'" using sorted_put assms by (simp add: ordered_def)
  show "nodes t' = (if k \<in> set (keys t) then nodes t else nodes t + 1)"
  proof (cases "k \<in> set (keys t)")
    case True
    then obtain w where w: "map_of (entries t) k = Some w" by (auto simp flip: dom_map_of_conv_image_fst)
    have "length (put k v (entries t)) = length (put k w (entries t))" by (simp add: put_def)
    with True show ?thesis using put_same [OF _ w] assms by (simp add: ordered_def flip: length_entries)
  next
    case False
    then show ?thesis using assms put_fresh [of k "entries t" v] by (simp flip: length_entries)
  qed
qed

lemma rb_insert_entries:
  assumes "rb_weak_inv t"
  shows "\<exists>t'. rb_insert k v t = Some (k \<notin> set (keys (rb_root t)), t') \<and> rb_weak_inv t' \<and>
    (equal_bh (rb_root t) \<longrightarrow> equal_bh (rb_root t')) \<and> entries (rb_root t') = put k v (entries (rb_root t))"
proof -
  let ?t = "rb_root t"
  have t: "ordered ?t" "rb_size t = nodes ?t" "no_red_red ?t" "NodeIsBlack ?t" using assms by (simp_all add: rb_weak_inv_def)
  obtain node fs where d: "descend k ?t [] = (node, fs)" by fastforce
  have z: "zip_up fs node = ?t" using descend_zip [OF d] by simp
  have e: "entries ?t = before fs @ entries node @ behind fs" using arg_cong [OF z, of entries] by simp
  have sides: "\<forall>p \<in> set (before fs). fst p < k" "\<forall>p \<in> set (behind fs). k < fst p"
    using descend_sides [OF d t(1)] by auto
  have c: "no_red_red node" "path_colors fs" "NodeIsRed node \<longrightarrow> below_black fs" using zip_colors [of fs node] t(3,4) by (simp_all add: z)
  show ?thesis
  proof (cases node)
    case Null
    then have k: "k \<notin> set (keys ?t)" using descend_found [OF d t(1)] by simp
    show ?thesis
    proof (cases "?t = Null")
      case True
      then show ?thesis using t by (simp add: rb_insert_def rb_weak_inv_def)
    next
      case False
      obtain root where r: "reBalance_Insert (Node k v Null Null COLOR_RED) fs = Some root" "no_red_red root" "NodeIsBlack root"
          "equal_bh ?t \<longrightarrow> equal_bh root"
        using reBalance_Insert_colors [of k v Null Null fs] c(2) zip_bh [of fs Null] z [unfolded Null] by auto
      have "entries root = put k v (entries ?t)"
        using reBalance_Insert_entries [OF r(1)] put_sides [OF sides] by (simp add: e Null)
      from nodes_put [OF t(1) this] this show ?thesis
        using False d Null r k t(2) by (simp add: rb_insert_def rb_weak_inv_def is_Null_def)
    qed
  next
    case (Node a b l r c')
    then have k: "a = k" "k \<in> set (keys ?t)" using descend_found [OF d t(1)] by auto
    let ?root = "zip_up fs (Node k v l r c')"
    have "ordered node" using t(1) unfolding ordered_def e by (simp add: sorted_wrt_append)
    then have "\<forall>p \<in> set (entries l). fst p < k" "\<forall>p \<in> set (entries r). k < fst p" by (simp_all add: Node k(1))
    then have e': "entries ?root = put k v (entries ?t)"
      using put_here [of "before fs @ entries l" k "entries r @ behind fs" v b] sides by (simp add: e Node k(1) ball_Un)
    have "no_red_red ?root \<and> NodeIsBlack ?root" using zip_colors [of fs "Node k v l r c'"] c by (simp add: Node)
    moreover have "equal_bh ?root" if "equal_bh ?t" using that zip_bh [of fs "Node a b l r c'"] zip_bh [of fs "Node k v l r c'"] z [unfolded Node] by auto
    moreover have "?t \<noteq> Null" using k(2) by auto
    ultimately show ?thesis using d Node k nodes_put [OF t(1) e'] e' t(2)
      by (simp add: rb_insert_def rb_weak_inv_def is_Null_def)
  qed
qed

text \<open>Deleting: the entries do not depend on the balance; the rest needs a balanced tree.\<close>

lemma nodes_rem:
  assumes "ordered t" and "k \<in> set (keys t)" and "entries t' = rem k (entries t)"
  shows "nodes t' = nodes t - 1" and "ordered t'"
  using assms length_rem [of "entries t" k] sorted_rem [of "entries t" k] by (simp_all add: ordered_def flip: length_entries)

lemma rem_sides_here:
  fixes k :: "'a::linorder"
  assumes "\<forall>p \<in> set ps. fst p < k" and "\<forall>p \<in> set qs. k < fst p"
  shows "rem k (ps @ (k, v) # qs) = ps @ qs"
proof -
  have "rem k ps = ps" by (rule rem_absent) (use assms(1) in fastforce)
  moreover have "rem k qs = qs" by (rule rem_absent) (use assms(2) in fastforce)
  ultimately show ?thesis by simp
qed

lemma descend_min_path:
  assumes "descend_min r [] = Some (sk, sv, sc, temp, down)"
  shows "entries (zip_up (down @ Right_of sk sv c l # fs) temp) = before fs @ entries l @ entries r @ behind fs"
  using arg_cong [OF descend_min_zip [OF assms], of entries] descend_min_entries [OF assms] by simp

lemma path_key:
  "path_colors (ds @ Right_of k v c b # fs) = path_colors (ds @ Right_of k' v' c b # fs)"
  "path_bh h (ds @ Right_of k v c b # fs) = path_bh h (ds @ Right_of k' v' c b # fs)"
proof -
  have "below_black (ds @ Right_of k v c b # fs) = below_black (ds @ Right_of k' v' c b # fs)" for ds :: "('a, 'b) frame list"
    by (cases ds) simp_all
  then show "path_colors (ds @ Right_of k v c b # fs) = path_colors (ds @ Right_of k' v' c b # fs)"
    by (induction ds) simp_all
  show "path_bh h (ds @ Right_of k v c b # fs) = path_bh h (ds @ Right_of k' v' c b # fs)"
    by (induction ds arbitrary: h) simp_all
qed

lemma leftmost_red:
  assumes "r \<noteq> Null" and "bh r = 0" and "equal_bh r" and "no_red_red r" and "descend_min r [] = Some (sk, sv, sc, temp, down)"
  shows "sc = COLOR_RED"
proof -
  obtain k v l r' c where r: "r = Node k v l r' c" using assms(1) by (cases r) auto
  with assms(2) have c: "c = COLOR_RED" "bh l = 0" by (cases c; simp)+
  with assms(4) r have "l = Null" by (cases l) auto
  with r c assms(5) show ?thesis by simp
qed

lemma rb_deletenode_cases:
  assumes "rb_weak_inv t"
  obtains (absent) "k \<notin> set (keys (rb_root t))" "rb_deletenode k t = Some (False, t)"
  | (root) l a b where "k \<in> set (keys (rb_root t))" "rb_deletenode k t = Some (True, \<lparr>rb_root = SetNodeBlack l, rb_size = rb_size t - 1\<rparr>)"
      "rb_root t = Node a b l Null COLOR_BLACK" "entries l = rem k (entries (rb_root t))"
  | (path) c temp path where "k \<in> set (keys (rb_root t))" "path_colors path" "no_red_red temp"
      "rb_deletenode k t = do { root \<leftarrow> (if c = COLOR_RED then Some (zip_up path temp) else reBalance_delete temp path);
        Some (True, \<lparr>rb_root = root, rb_size = rb_size t - 1\<rparr>) }"
      "before path @ entries temp @ behind path = rem k (entries (rb_root t))"
      "c = COLOR_RED \<Longrightarrow> NodeIsBlack temp"
      "equal_bh (rb_root t) \<Longrightarrow> equal_bh temp \<and> path_bh (bh temp + color_number c) path"
      "equal_bh (rb_root t) \<Longrightarrow> \<forall>j \<in> set (keys (rb_root t)). k \<le> j \<Longrightarrow> c = COLOR_BLACK \<Longrightarrow> \<forall>f \<in> set path. \<not> is_right f"
proof -
  let ?t = "rb_root t"
  have t: "ordered ?t" "rb_size t = nodes ?t" "no_red_red ?t" "NodeIsBlack ?t" using assms by (simp_all add: rb_weak_inv_def)
  obtain node fs where d: "descend k ?t [] = (node, fs)" by fastforce
  have z: "zip_up fs node = ?t" using descend_zip [OF d] by simp
  have e: "entries ?t = before fs @ entries node @ behind fs" using arg_cong [OF z, of entries] by simp
  have sides: "\<forall>p \<in> set (before fs). fst p < k" "\<forall>p \<in> set (behind fs). k < fst p"
    using descend_sides [OF d t(1)] by auto
  have c: "no_red_red node" "path_colors fs" "NodeIsRed node \<longrightarrow> below_black fs" using zip_colors [of fs node] t(3,4) by (simp_all add: z)
  have b: "equal_bh node \<and> path_bh (bh node) fs" if "equal_bh ?t" using that zip_bh [of fs node] by (simp add: z)
  have left: "\<forall>f \<in> set fs. \<not> is_right f" if "\<forall>j \<in> set (keys ?t). k \<le> j"
  proof -
    have "before fs = []" using sides(1) that by (cases "before fs") (auto simp: e)
    then show ?thesis by (induction fs) (auto split: frame.splits)
  qed
  show thesis
  proof (cases node)
    case Null
    then show thesis using absent descend_found [OF d t(1)] d by (simp add: rb_deletenode_def)
  next
    case (Node a v l r col)
    then have k: "a = k" "k \<in> set (keys ?t)" using descend_found [OF d t(1)] by auto
    have "ordered node" using t(1) unfolding ordered_def e by (simp add: sorted_wrt_append)
    then have "\<forall>p \<in> set (before fs @ entries l). fst p < k" "\<forall>p \<in> set (entries r @ behind fs). k < fst p"
      using sides by (auto simp: Node k(1))
    from rem_sides_here [OF this, of v] have rem: "rem k (entries ?t) = before fs @ entries l @ entries r @ behind fs"
      by (simp add: e Node k(1) del: rem_append)
    show thesis
    proof (cases "r = Null")
      case True
      show thesis
      proof (cases "fs = []")
        case nil: True
        show thesis
          by (rule root [of l a v]) (use k d Node True nil rem z [symmetric] t(4) in \<open>auto simp: rb_deletenode_def\<close>)
      next
        case False
        show thesis
          by (rule path [of fs l col]) (use k(2) d Node True False rem c b left in \<open>auto simp: rb_deletenode_def\<close>)
      qed
    next
      case False
      obtain sk sv sc temp down where m: "descend_min r [] = Some (sk, sv, sc, temp, down)"
        using descend_min_Some [OF False] by blast
      let ?path = "down @ Right_of sk sv col l # fs"
      have zr: "zip_up down (Node sk sv Null temp sc) = r" using descend_min_zip [OF m] by simp
      let ?old = "down @ Right_of a v col l # fs"
      have zo: "zip_up ?old (Node sk sv Null temp sc) = ?t" using zr z Node by simp
      have cs: "path_colors ?old" "no_red_red temp" "sc = COLOR_RED \<Longrightarrow> NodeIsBlack temp"
        using zip_colors [of ?old "Node sk sv Null temp sc"] t(3,4) unfolding zo by auto
      have bs: "equal_bh temp \<and> bh temp = 0 \<and> path_bh (color_number sc) ?old" if "equal_bh ?t"
        using zip_bh [of ?old "Node sk sv Null temp sc"] that unfolding zo by auto
      show thesis
      proof (rule path [of ?path temp sc])
        show "k \<in> set (keys ?t)" by (rule k(2))
        show "rb_deletenode k t = do { root \<leftarrow> (if sc = COLOR_RED then Some (zip_up ?path temp) else reBalance_delete temp ?path);
            Some (True, \<lparr>rb_root = root, rb_size = rb_size t - 1\<rparr>) }"
          using d Node False m by (simp add: rb_deletenode_def is_Null_def)
        show "before ?path @ entries temp @ behind ?path = rem k (entries ?t)"
          using descend_min_path [OF m, of col l fs] rem by simp
        show "path_colors ?path" "no_red_red temp" "sc = COLOR_RED \<Longrightarrow> NodeIsBlack temp"
          using cs by (simp_all add: path_key(1) [of down sk sv col l fs a v])
        show "equal_bh temp \<and> path_bh (bh temp + color_number sc) ?path" if "equal_bh ?t"
          using bs [OF that] by (simp add: path_key(2) [of _ down sk sv col l fs a v])
        assume min: "equal_bh ?t" "\<forall>j \<in> set (keys ?t). k \<le> j" "sc = COLOR_BLACK"
        have "l = Null" using min(2) \<open>\<forall>p \<in> set (before fs @ entries l). fst p < k\<close> by (cases l) (auto simp: e Node)
        with b [OF min(1)] have "bh r = 0" "equal_bh r" by (simp_all add: Node)
        then have "sc = COLOR_RED" using leftmost_red [OF False _ _ _ m] c(1) by (simp add: Node)
        with min(3) show "\<forall>f \<in> set ?path. \<not> is_right f" by simp
      qed
    qed
  qed
qed

lemma rb_deletenode_entries:
  assumes "rb_weak_inv t" and "rb_deletenode k t = Some (b, t')"
  shows "b = (k \<in> set (keys (rb_root t))) \<and> entries (rb_root t') = rem k (entries (rb_root t)) \<and>
    ordered (rb_root t') \<and> rb_size t' = nodes (rb_root t')"
proof -
  have t: "ordered (rb_root t)" "rb_size t = nodes (rb_root t)" using assms(1) by (simp_all add: rb_weak_inv_def)
  show ?thesis
  using assms(1)
  proof (cases rule: rb_deletenode_cases [where k = k])
    case absent
    have "rem k (entries (rb_root t)) = entries (rb_root t)"
      by (rule rem_absent) (use absent(1) in auto)
    moreover have "b = False" "t' = t" using absent(2) assms(2) by simp_all
    ultimately show ?thesis using absent(1) t(1,2) by simp
  next
    case (root l a v)
    have "b = True" "t' = \<lparr>rb_root = SetNodeBlack l, rb_size = rb_size t - 1\<rparr>" using root(2) assms(2) by simp_all
    moreover have "entries (SetNodeBlack l) = rem k (entries (rb_root t))" using root(4) by simp
    ultimately show ?thesis using root(1) t nodes_rem [of "rb_root t" k "SetNodeBlack l"] by simp
  next
    case (path c temp path)
    obtain root where "(if c = COLOR_RED then Some (zip_up path temp) else reBalance_delete temp path) = Some root"
        "t' = \<lparr>rb_root = root, rb_size = rb_size t - 1\<rparr>" "b"
      using path(4) assms(2) by (auto simp del: reBalance_delete.simps split: bind_splits)
    moreover from this have "entries root = rem k (entries (rb_root t))"
      using path(5) reBalance_delete_entries [of temp path root] by (auto split: if_splits)
    ultimately show ?thesis using path(1) t nodes_rem [of "rb_root t" k root] by simp
  qed
qed

lemma rb_deletenode_defined:
  assumes "rb_inv t"
  shows "\<exists>t'. rb_deletenode k t = Some (k \<in> set (keys (rb_root t)), t') \<and> rb_weak_inv t' \<and>
    entries (rb_root t') = rem k (entries (rb_root t))"
proof -
  have w: "rb_weak_inv t" and b: "equal_bh (rb_root t)" using assms by (simp_all add: rb_inv_def)
  have t: "no_red_red (rb_root t)" using w by (simp add: rb_weak_inv_def)
  obtain b t' where d: "rb_deletenode k t = Some (b, t')" "no_red_red (rb_root t')" "NodeIsBlack (rb_root t')"
  using w
  proof (cases rule: rb_deletenode_cases [where k = k])
    case absent
    show thesis by (rule that [OF absent(2)]) (use w in \<open>simp_all add: rb_weak_inv_def\<close>)
  next
    case (root l a v)
    show thesis by (rule that [OF root(2)]) (use root(3) t no_red_red_black [of l] in simp_all)
  next
    case (path c temp path)
    show thesis
    proof (cases c)
      case COLOR_RED
      with path that zip_colors [of path temp] show thesis by simp
    next
      case COLOR_BLACK
      then have "path_bh (Suc (bh temp)) path" using path(7) [OF b] by simp
      from reBalance_delete_colors [OF no_red_red_black [OF path(3)] path(2) this]
      obtain root where "reBalance_delete temp path = Some root" "no_red_red root" "NodeIsBlack root" by blast
      with COLOR_BLACK path that show thesis by simp
    qed
  qed
  with rb_deletenode_entries [OF w d(1)] show ?thesis by (simp add: rb_weak_inv_def)
qed

lemma rb_delete_min:
  assumes "rb_inv t" and "\<forall>j \<in> set (keys (rb_root t)). k \<le> j" and "rb_deletenode k t = Some (b, t')"
  shows "rb_inv t'"
proof -
  have w: "rb_weak_inv t" and e: "equal_bh (rb_root t)" using assms(1) by (simp_all add: rb_inv_def)
  have "rb_weak_inv t'" using rb_deletenode_defined [OF assms(1), of k] assms(3) by auto
  moreover have "equal_bh (rb_root t')"
    using w
  proof (cases rule: rb_deletenode_cases [where k = k])
    case absent
    then show ?thesis using assms(3) e by simp
  next
    case (root l a v)
    have "equal_bh l" using e root(3) by simp
    moreover have "t' = \<lparr>rb_root = SetNodeBlack l, rb_size = rb_size t - 1\<rparr>" using root(2) assms(3) by simp
    ultimately show ?thesis by simp
  next
    case (path c temp path)
    note pb = path(7) [OF e]
    show ?thesis
    proof (cases c)
      case COLOR_RED
      then have "t' = \<lparr>rb_root = zip_up path temp, rb_size = rb_size t - 1\<rparr>" using path(4) assms(3) by simp
      then show ?thesis using pb COLOR_RED by (simp add: zip_bh)
    next
      case COLOR_BLACK
      then have "path_bh (Suc (bh temp)) path" using pb by simp
      from reBalance_delete_colors [OF no_red_red_black [OF path(3)] path(2) this]
      obtain root where r: "reBalance_delete temp path = Some root" "equal_bh root"
        using pb path(8) [OF e assms(2) COLOR_BLACK] by blast
      then have "t' = \<lparr>rb_root = root, rb_size = rb_size t - 1\<rparr>" using path(4) COLOR_BLACK assms(3) by simp
      with r(2) show ?thesis by simp
    qed
  qed
  ultimately show ?thesis by (simp add: rb_inv_def)
qed

interpretation rb: dictionary rb_weak_inv rb_root rb_size rb_insert "\<lambda>old new. new"
proof (unfold_locales, goal_cases)
  case (3 t k v)
  then show ?case using rb_insert_entries [OF 3, of k v] by (auto split: option.split)
qed (simp_all add: rb_weak_inv_def)

text \<open>The check of the code sees only whether the black height is even.\<close>

lemma blackheight_parity: "equal_bh t \<Longrightarrow> blackheight t = (if even (bh t) then 1 else 0)"
proof (induction t)
  case (Node k v l r c)
  then show ?case by (cases c) auto
qed simp

lemma rb_heights:
  assumes "no_red_red t" and "equal_bh t"
  shows "tree_height t \<le> 2 * bh t + (if NodeIsRed t then 1 else 0)" and "2 ^ bh t \<le> nodes t + 1"
  using assms
proof (induction t)
  case (Node k v l r c)
  case 1
  then show ?case using Node.IH(1,3) by (cases c) (auto split: if_splits)
next
  case (Node k v l r c)
  case 2
  then show ?case using Node.IH(2,4) by (cases c) auto
qed simp_all

section \<open>Properties\<close>

lemma rb_find_map:
  assumes "ordered (rb_root t)"
  shows "rb_find d t k = (case map_of (entries (rb_root t)) k of None \<Rightarrow> (False, d) | Some v \<Rightarrow> (True, v))"
proof -
  have "is_Null u \<longleftrightarrow> node_val u = None" for u :: "('a, 'b) rb_node" by (cases u) auto
  then show ?thesis using search_val [OF assms, of k] by (simp add: rb_find_def Let_def split: option.split)
qed

lemma rb_find_mem:
  assumes "ordered (rb_root t)"
  shows "fst (rb_find d t j) \<longleftrightarrow> j \<in> set (keys (rb_root t))"
proof -
  have "fst (rb_find d t j) \<longleftrightarrow> j \<in> dom (map_of (entries (rb_root t)))"
    by (auto simp: rb_find_map [OF assms] dom_def split: option.splits simp del: not_None_eq)
  then show ?thesis by (simp add: dom_map_of_conv_image_fst)
qed

text \<open>
  C8: Inserting in a red-black tree never follows a null pointer; it keeps the order, the size, the
  black root and that no red node is below a red one, and the equal black heights of a balanced
  tree; afterwards \<open>find\<close> gives the new value for the key and is unchanged for other keys; the answer
  says whether the key was new.
\<close>

theorem rb_insert_implements_map:
  assumes "rb_weak_inv t"
  shows "\<exists>t'. rb_insert k v t = Some (\<not> fst (rb_find d t k), t') \<and> rb_weak_inv t' \<and> (rb_inv t \<longrightarrow> rb_inv t') \<and>
    rb_find d t' = (rb_find d t)(k := (True, v)) \<and> rb_size t' = card {j. fst (rb_find d t' j)}"
proof -
  obtain t' where t': "rb_insert k v t = Some (k \<notin> set (keys (rb_root t)), t')" "rb_weak_inv t'"
    "equal_bh (rb_root t) \<longrightarrow> equal_bh (rb_root t')" "entries (rb_root t') = put k v (entries (rb_root t))"
    using rb_insert_entries [OF assms] by blast
  have o: "ordered (rb_root t)" "ordered (rb_root t')" using assms t'(2) by (simp_all add: rb_weak_inv_def)
  have "{j. fst (rb_find d t' j)} = dom (map_of (entries (rb_root t')))" and
      "(k \<notin> set (keys (rb_root t))) = (\<not> fst (rb_find d t k))"
    using rb_find_mem [OF o(2), of d] rb_find_mem [OF o(1), of d] by (simp_all add: dom_map_of_conv_image_fst)
  moreover have "rb_find d t' = (rb_find d t)(k := (True, v))"
    by (rule ext) (simp add: rb_find_map o t'(4) map_of_put)
  ultimately show ?thesis
    using t' rb.count_card [OF t'(2)] by (auto simp: rb_inv_def)
qed

lemma rb_new_inv: "rb_inv rb_new"
  by (simp add: rb_inv_def rb_weak_inv_def rb_new_def)

theorem rb_insert_implements_map_witness:
  "\<exists>t'. rb_insert (4::int) ''d'' rb_new = Some (True, t') \<and> rb_inv t' \<and> rb_find ''?'' t' 4 = (True, ''d'')"
proof -
  have "rb_weak_inv (rb_new :: (int, string) rb)" by (simp add: rb_weak_inv_def rb_new_def)
  moreover have "rb_find ''?'' rb_new (4::int) = (False, ''?'')" by (simp add: rb_find_def rb_new_def)
  ultimately show ?thesis
    using rb_insert_implements_map [of rb_new "4::int" "''d''" "''?''"] rb_new_inv by (auto simp del: fun_upd_apply) auto
qed

text \<open>
  C22: Deleting from a balanced red-black tree never follows a null pointer; it removes exactly the
  key and answers whether it was there, and keeps the order, the size, the black root and that no red
  node is below a red one.  Deleting the smallest key keeps the balance too.
\<close>

theorem rb_deletenode_implements_map:
  assumes "rb_inv t"
  shows "\<exists>t'. rb_deletenode k t = Some (fst (rb_find d t k), t') \<and> rb_weak_inv t' \<and>
    rb_find d t' = (rb_find d t)(k := (False, d)) \<and>
    ((\<forall>j. fst (rb_find d t j) \<longrightarrow> k \<le> j) \<longrightarrow> rb_inv t')"
proof -
  obtain t' where t': "rb_deletenode k t = Some (k \<in> set (keys (rb_root t)), t')" "rb_weak_inv t'"
    "entries (rb_root t') = rem k (entries (rb_root t))"
    using rb_deletenode_defined [OF assms] by blast
  have o: "ordered (rb_root t)" "ordered (rb_root t')" using assms t'(2) by (simp_all add: rb_weak_inv_def rb_inv_def)
  have "rb_find d t' = (rb_find d t)(k := (False, d))"
    by (rule ext) (simp add: rb_find_map o t'(3) map_of_rem)
  moreover have "rb_inv t'" if "\<forall>j. fst (rb_find d t j) \<longrightarrow> k \<le> j"
    using rb_delete_min [OF assms _ t'(1)] that unfolding rb_find_mem [OF o(1)] by blast
  ultimately show ?thesis using t' unfolding rb_find_mem [OF o(1)] by blast
qed

theorem rb_deletenode_implements_map_witness:
  "\<exists>t'. rb_deletenode (4::int) (rb_new :: (int, int) rb) = Some (False, t') \<and> rb_inv t'"
proof -
  have "rb_find 0 (rb_new :: (int, int) rb) j = (False, 0)" for j by (simp add: rb_find_def rb_new_def)
  then show ?thesis using rb_deletenode_implements_map [OF rb_new_inv, of "4::int" "0::int"] by auto
qed

text \<open>
  But deleting does not keep the equal black heights: after four insertions and two deletions the
  tree is not balanced, and the next deletion follows a null pointer.  The check of the code does
  not notice an imbalance below the root: after six insertions and two deletions it is true of a
  tree that is not balanced.
\<close>

theorem rb_deletenode_loses_balance:
  "do { t \<leftarrow> insert_all rb_insert (map (\<lambda>k. (k, k)) [1::int, 4, 2, 3]) rb_new;
        (b4, t4) \<leftarrow> rb_deletenode 4 t;
        (b3, t3) \<leftarrow> rb_deletenode 3 t4;
        Some (rb_preorder t3, equal_bh (rb_root t4), equal_bh (rb_root t3), rb_deletenode 1 t3 = None) } =
     Some ([2, 1], True, False, True) \<and>
   do { t \<leftarrow> insert_all rb_insert (map (\<lambda>k. (k, k)) [1::int, 4, 2, 6, 3, 5]) rb_new;
        (b5, t5) \<leftarrow> rb_deletenode 5 t;
        (b4, t4) \<leftarrow> rb_deletenode 4 t5;
        Some (equal_bh (rb_root t4), IsBanlace t4) } = Some (False, Some True)"
  by (intro conjI; code_simp)

text \<open>
  In a balanced red-black tree the height is at most twice the binary logarithm of the size plus
  one, and the check \<open>IsBanlace\<close> is true.
\<close>

theorem rb_height_logarithmic:
  assumes "rb_inv t"
  shows "2 ^ (rb_height t div 2) \<le> rb_size t + 1 \<and> IsBanlace t = Some True"
proof -
  have t: "no_red_red (rb_root t)" "equal_bh (rb_root t)" "NodeIsBlack (rb_root t)" "rb_size t = nodes (rb_root t)"
    using assms by (simp_all add: rb_inv_def rb_weak_inv_def)
  have "rb_height t div 2 \<le> bh (rb_root t)" using rb_heights(1) [OF t(1,2)] t(3) by (simp add: rb_height_def)
  then have "(2::nat) ^ (rb_height t div 2) \<le> 2 ^ bh (rb_root t)" by (rule power_increasing) simp
  also note rb_heights(2) [OF t(1,2)]
  finally have "2 ^ (rb_height t div 2) \<le> rb_size t + 1" using t(4) by simp
  moreover have "IsBanlace t = Some True"
    using t(2,3) by (cases "rb_root t") (auto simp: IsBanlace_def cand_def blackheight_parity)
  ultimately show ?thesis by simp
qed

theorem rb_height_logarithmic_witness: "IsBanlace (rb_new :: (int, int) rb) = Some True"
  using rb_height_logarithmic [OF rb_new_inv] by blast

text \<open>The traversals, the neighbours and the subscript, as for the other trees.\<close>

lemma rb_traversals_agree:
  assumes "rb_weak_inv t"
  shows "rb_no_recursive_preorder t = Some (rb_preorder t)" and "rb_no_recursive_inorder t = Some (rb_inorder t)"
    and "rb_no_recursive_postorder t = Some (rb_postorder t)"
    and "sorted (rb_inorder t) \<and> distinct (rb_inorder t)"
    and "rb_level_order t = concat (map (\<lambda>n. level n (rb_root t)) [0..<rb_height t])"
proof -
  have n: "rb_size t = nodes (rb_root t)" "ordered (rb_root t)" using assms by (simp_all add: rb_weak_inv_def)
  have "rb_root t = Null" if "nodes (rb_root t) = 0" using that by (cases "rb_root t") auto
  then show "rb_no_recursive_preorder t = Some (rb_preorder t)" and "rb_no_recursive_inorder t = Some (rb_inorder t)"
    and "rb_no_recursive_postorder t = Some (rb_postorder t)" and "sorted (rb_inorder t) \<and> distinct (rb_inorder t)"
    and "rb_level_order t = concat (map (\<lambda>n. level n (rb_root t)) [0..<rb_height t])"
    using n stack_preorder_correct [of "Some (rb_size t)" "rb_root t"] stack_inorder_correct [of "Some (rb_size t)" "rb_root t"]
      stack_postorder_correct [of "Some (rb_size t)" "rb_root t"]
    by (auto simp: rb_no_recursive_preorder_def rb_no_recursive_inorder_def rb_no_recursive_postorder_def
        rb_preorder_def rb_inorder_def rb_postorder_def rb_level_order_def rb_height_def level_order_levels
        inorder_keys ordered_def strict_sorted_iff)
qed

lemma rb_subscript_correct:
  assumes "rb_weak_inv t"
  shows "\<exists>t'. rb_subscript d t k = Some (snd (rb_find d t k), t') \<and> rb_weak_inv t' \<and>
    rb_find d t' = (rb_find d t)(k := (True, snd (rb_find d t k)))"
proof (cases "node_val (search (rb_root t) k)")
  case None
  have o: "ordered (rb_root t)" using assms by (simp add: rb_weak_inv_def)
  obtain t' where t': "rb_insert k d t = Some (\<not> fst (rb_find d t k), t')" "rb_weak_inv t'"
      "rb_find d t' = (rb_find d t)(k := (True, d))"
    using rb_insert_entries [OF assms, of k d] o rb_find_mem [OF o, of d k]
    by (fastforce simp: rb_find_map rb_weak_inv_def map_of_put)
  have "rb_find d t' k = (True, d)" unfolding t'(3) by simp
  then have "node_val (search (rb_root t') k) = Some d"
    by (cases "search (rb_root t') k") (auto simp: rb_find_def)
  with None t' show ?thesis by (simp add: rb_subscript_def rb_find_def)
next
  case (Some v)
  then have "rb_find d t k = (True, v)" by (cases "search (rb_root t) k") (auto simp: rb_find_def)
  with Some assms show ?thesis by (simp add: rb_subscript_def) (metis fun_upd_triv)
qed

lemma rb_neighbours:
  assumes "rb_weak_inv t"
  shows "rb_getprenode t key = (if key \<in> set (keys (rb_root t)) then last_val (lower key (entries (rb_root t))) else None)"
    and "rb_getnextnode t key = (if key \<in> set (keys (rb_root t)) then first_val (upper key (entries (rb_root t))) else None)"
    and "rb_findmax t = last_val (entries (rb_root t))" and "rb_findmin t = first_val (entries (rb_root t))"
  using assms getprenode_val [of "rb_root t" key] getnextnode_val [of "rb_root t" key]
    find_max_val [of "rb_root t"] find_min_val [of "rb_root t"]
  by (auto simp: rb_weak_inv_def rb_getprenode_def rb_getnextnode_def rb_findmax_def rb_findmin_def last_val_def first_val_def)

end
