(* ===== verification/Time_Wheel.thy ===== *)
theory Time_Wheel
  imports Prelude
begin

text \<open>
  The hierarchical time wheel (\<open>co/timewheel.c\<close>).  Timers live in a store of cells, so that the
  pointers the lists keep to timers that were freed or moved are what they are in C: \<open>None\<close> as a
  result is the use of a null or freed pointer.  A call of a handler is recorded with its data and
  the tick.  The readings of the clock are a list in the state, consumed one by one.
\<close>

unbundle bit_operations_syntax

section \<open>The state\<close>

type_synonym addr = nat

text \<open>A list of the wheel: the number of its array \<open>tv1_\<close> to \<open>tv5_\<close> and the index.\<close>

type_synonym slot = "nat \<times> nat"

record ('h, 'd) timer =
  t_handle :: 'h
  t_expried_time :: "64 word"
  t_data :: 'd
  t_timeout :: "64 word"
  t_execu_times :: "32 word"
  t_flag :: nat
  t_next :: "addr option"
  t_pre :: "addr option"
  t_linked_list :: "slot option"

record timer_list =
  l_head :: "addr option"
  l_tail :: "addr option"

text \<open>Indices are masked before every access, so the arrays are total functions.\<close>

record ('h, 'd) wheel =
  tv :: "slot \<Rightarrow> timer_list"
  w_tick :: "64 word"
  store :: "('h, 'd) timer option list"
  clock :: "64 word list"
  fired :: "('h \<times> 'd \<times> 64 word) list"

definition now_milliseconds :: "('h, 'd) wheel \<Rightarrow> (64 word \<times> ('h, 'd) wheel) option" where
  "now_milliseconds w = (case clock w of [] \<Rightarrow> None | now # rest \<Rightarrow> Some (now, w\<lparr>clock := rest\<rparr>))"

definition deref :: "addr \<Rightarrow> ('h, 'd) wheel \<Rightarrow> ('h, 'd) timer option" where
  "deref a w = (if a < length (store w) then store w ! a else None)"

definition assign :: "addr \<Rightarrow> (('h, 'd) timer \<Rightarrow> ('h, 'd) timer) \<Rightarrow> ('h, 'd) wheel \<Rightarrow> ('h, 'd) wheel option" where
  "assign a f w = do { t \<leftarrow> deref a w; Some (w\<lparr>store := (store w)[a := Some (f t)]\<rparr>) }"

definition freeTimer :: "addr \<Rightarrow> ('h, 'd) wheel \<Rightarrow> ('h, 'd) wheel option" where
  "freeTimer a w = do { t \<leftarrow> deref a w; Some (w\<lparr>store := (store w)[a := None]\<rparr>) }"

definition call_handle :: "addr \<Rightarrow> ('h, 'd) wheel \<Rightarrow> ('h, 'd) wheel option" where
  "call_handle a w = do { t \<leftarrow> deref a w; Some (w\<lparr>fired := fired w @ [(t_handle t, t_data t, w_tick w)]\<rparr>) }"

definition set_list :: "slot \<Rightarrow> (timer_list \<Rightarrow> timer_list) \<Rightarrow> ('h, 'd) wheel \<Rightarrow> ('h, 'd) wheel" where
  "set_list sl f w = w\<lparr>tv := (tv w)(sl := f (tv w sl))\<rparr>"

definition InitTimeWheel :: "64 word list \<Rightarrow> ('h, 'd) wheel option" where
  "InitTimeWheel readings = do {
     (now, w) \<leftarrow> now_milliseconds \<lparr>tv = (\<lambda>_. \<lparr>l_head = None, l_tail = None\<rparr>), w_tick = 0, store = [], clock = readings, fired = []\<rparr>;
     Some (w\<lparr>w_tick := now\<rparr>) }"

section \<open>The lists\<close>

definition AddTimerList :: "slot \<Rightarrow> addr \<Rightarrow> ('h, 'd) wheel \<Rightarrow> ('h, 'd) wheel option" where
  "AddTimerList l timer w = do {
     w \<leftarrow> assign timer (\<lambda>t. t\<lparr>t_linked_list := Some l\<rparr>) w;
     (case l_tail (tv w l) of
        None \<Rightarrow> do {
          let w = set_list l (\<lambda>_. \<lparr>l_head = Some timer, l_tail = Some timer\<rparr>) w;
          assign timer (\<lambda>t. t\<lparr>t_next := None, t_pre := None\<rparr>) w }
      | Some last_timer \<Rightarrow> do {
          w \<leftarrow> assign timer (\<lambda>t. t\<lparr>t_pre := Some last_timer, t_next := None\<rparr>) w;
          w \<leftarrow> assign last_timer (\<lambda>t. t\<lparr>t_next := Some timer\<rparr>) w;
          Some (set_list l (\<lambda>tm. tm\<lparr>l_tail := Some timer\<rparr>) w) }) }"

definition DeleteTimerList :: "addr \<Rightarrow> ('h, 'd) wheel \<Rightarrow> ('h, 'd) wheel option" where
  "DeleteTimerList timer w = do {
     t \<leftarrow> deref timer w;
     l \<leftarrow> t_linked_list t;
     w \<leftarrow> (if l_head (tv w l) = Some timer then
             (let w = set_list l (\<lambda>tm. tm\<lparr>l_head := t_next t\<rparr>) w in
              case t_next t of None \<Rightarrow> Some w | Some n \<Rightarrow> assign n (\<lambda>u. u\<lparr>t_pre := None\<rparr>) w)
           else if l_tail (tv w l) = Some timer then
             (let w = set_list l (\<lambda>tm. tm\<lparr>l_tail := t_pre t\<rparr>) w in
              case t_pre t of None \<Rightarrow> Some w | Some p \<Rightarrow> assign p (\<lambda>u. u\<lparr>t_next := None\<rparr>) w)
           else do {
             p \<leftarrow> t_pre t;
             w \<leftarrow> assign p (\<lambda>u. u\<lparr>t_next := t_next t\<rparr>) w;
             t \<leftarrow> deref timer w;
             n \<leftarrow> t_next t;
             assign n (\<lambda>u. u\<lparr>t_pre := t_pre t\<rparr>) w });
     assign timer (\<lambda>t. t\<lparr>t_next := None, t_pre := None, t_linked_list := None\<rparr>) w }"

section \<open>Adding a timer\<close>

text \<open>\<open>int idx = timer->t_expried_time - timer_manage->w_tick\<close>: cut down to 32 bits.\<close>

definition ticks_left :: "64 word \<Rightarrow> 64 word \<Rightarrow> int" where
  "ticks_left expried tick = sint (ucast (expried - tick) :: 32 word)"

text \<open>The list for a timer; the last range is stored in \<open>tv4_\<close> like the one before it.\<close>

definition slot_for :: "int \<Rightarrow> 64 word \<Rightarrow> slot" where
  "slot_for idx expried =
     (if idx < 256 then (1, unat (expried AND 255))
      else if idx < 2 ^ 14 then (2, unat (drop_bit 8 expried AND 63))
      else if idx < 2 ^ 20 then (3, unat (drop_bit 14 expried AND 63))
      else if idx < 2 ^ 26 then (4, unat (drop_bit 20 expried AND 63))
      else (4, unat (drop_bit 26 expried AND 63)))"

lemma clock_kept:
  "assign a f w = Some w' \<Longrightarrow> clock w' = clock w" "call_handle a w = Some w' \<Longrightarrow> clock w' = clock w"
  by (auto simp: assign_def call_handle_def split: bind_splits)

lemma clock_read: "now_milliseconds w = Some (now, w') \<Longrightarrow> clock w = now # clock w'"
  by (auto simp: now_milliseconds_def split: list.splits)

text \<open>An expired timer is called at once; if it repeats, it is added again from a new reading of the clock.\<close>

function add_timer :: "addr \<Rightarrow> ('h, 'd) wheel \<Rightarrow> (addr option \<times> ('h, 'd) wheel) option" where
  "add_timer timer w = do {
     t \<leftarrow> deref timer w;
     let idx = ticks_left (t_expried_time t) (w_tick w);
     if idx \<le> 0 then do {
       w1 \<leftarrow> call_handle timer w;
       if t_flag t = 1 then do {
         (now, w2) \<leftarrow> now_milliseconds w1;
         w3 \<leftarrow> assign timer (\<lambda>t. t\<lparr>t_expried_time := now + t_timeout t\<rparr>) w2;
         (p, w4) \<leftarrow> add_timer timer w3;
         Some (Some timer, w4) }
       else do { w2 \<leftarrow> freeTimer timer w1; Some (None, w2) } }
     else do {
       w1 \<leftarrow> AddTimerList (slot_for idx (t_expried_time t)) timer w;
       Some (Some timer, w1) } }"
  by pat_completeness auto
termination
  by (relation "measure (\<lambda>(timer, w). length (clock w))") (auto dest!: clock_kept clock_read)

declare add_timer.simps [simp del]

text \<open>\<open>NULL\<close> for a timeout below 1 and an unknown option.\<close>

definition AddTimer :: "'h \<Rightarrow> 64 word \<Rightarrow> 'd \<Rightarrow> nat \<Rightarrow> 32 word \<Rightarrow> ('h, 'd) wheel \<Rightarrow> (addr option \<times> ('h, 'd) wheel) option" where
  "AddTimer handler timeout data opt excute_times w =
     (if timeout < 1 then Some (None, w)
      else if opt \<noteq> 0 \<and> opt \<noteq> 1 \<and> opt \<noteq> 2 then Some (None, w)
      else
        (let timer = length (store w);
             w = w\<lparr>store := store w @ [Some \<lparr>t_handle = handler, t_expried_time = timeout + w_tick w, t_data = data,
               t_timeout = timeout, t_execu_times = excute_times, t_flag = opt, t_next = None, t_pre = None, t_linked_list = None\<rparr>]\<rparr>
         in add_timer timer w))"

section \<open>Turning the wheel\<close>

text \<open>\<open>_SwitchOthWheel\<close>: the timers of a list are added again, one after the other.\<close>

definition switch_list :: "slot \<Rightarrow> ('h, 'd) wheel \<Rightarrow> ('h, 'd) wheel option" where
  "switch_list l w =
     (if l_head (tv w l) = None then Some w
      else do {
        (node, w) \<leftarrow> cwhile (\<lambda>(node, w). Some (node \<noteq> None))
          (\<lambda>(node, w). do {
             a \<leftarrow> node;
             t \<leftarrow> deref a w;
             (p, w) \<leftarrow> add_timer a w;
             Some (t_next t, w) })
          (l_head (tv w l), w);
        Some (set_list l (\<lambda>_. \<lparr>l_head = None, l_tail = None\<rparr>) w) })"

definition index_at :: "nat \<Rightarrow> 64 word \<Rightarrow> nat" where
  "index_at shift tick = unat (drop_bit shift tick AND 63)"

definition SwitchOthWheel :: "('h, 'd) wheel \<Rightarrow> ('h, 'd) wheel option" where
  "SwitchOthWheel w =
     (if w_tick w AND 255 \<noteq> 0 then Some w
      else do {
        w \<leftarrow> switch_list (2, index_at 8 (w_tick w)) w;
        if index_at 8 (w_tick w) \<noteq> 0 then Some w
        else do {
          w \<leftarrow> switch_list (3, index_at 14 (w_tick w)) w;
          if index_at 14 (w_tick w) \<noteq> 0 then Some w
          else do {
            w \<leftarrow> switch_list (4, index_at 20 (w_tick w)) w;
            if index_at 20 (w_tick w) \<noteq> 0 then Some w
            else switch_list (5, index_at 26 (w_tick w)) w } } })"

text \<open>What \<open>Tick\<close> does to one timer of the list that is due.\<close>

definition fire :: "addr \<Rightarrow> ('h, 'd) wheel \<Rightarrow> ('h, 'd) wheel option" where
  "fire node w = do {
     w \<leftarrow> call_handle node w;
     t \<leftarrow> deref node w;
     w \<leftarrow> (if t_flag t = 2 then assign node (\<lambda>t. t\<lparr>t_execu_times := t_execu_times t - 1\<rparr>) w else Some w);
     if t_flag t = 1 \<or> t_flag t = 2 \<and> t_execu_times t - 1 \<noteq> 0 then do {
       w \<leftarrow> assign node (\<lambda>t. t\<lparr>t_expried_time := t_timeout t + w_tick w\<rparr>) w;
       (p, w) \<leftarrow> add_timer node w;
       Some w }
     else freeTimer node w }"

text \<open>One round of the loop of \<open>Tick\<close>; only \<open>head_\<close> of the list is cleared.\<close>

definition tick_once :: "('h, 'd) wheel \<Rightarrow> ('h, 'd) wheel option" where
  "tick_once w = do {
     w \<leftarrow> SwitchOthWheel (w\<lparr>w_tick := w_tick w + 1\<rparr>);
     let l = (1, unat (w_tick w AND 255));
     if l_head (tv w l) \<noteq> None then do {
       (node, w) \<leftarrow> cwhile (\<lambda>(node, w). Some (node \<noteq> None))
         (\<lambda>(node, w). do {
            a \<leftarrow> node;
            t \<leftarrow> deref a w;
            w \<leftarrow> fire a w;
            Some (t_next t, w) })
         (l_head (tv w l), w);
       Some (set_list l (\<lambda>tm. tm\<lparr>l_head := None\<rparr>) w) }
     else Some w }"

definition Tick :: "('h, 'd) wheel \<Rightarrow> ('h, 'd) wheel option" where
  "Tick w = do {
     (now, w) \<leftarrow> now_milliseconds w;
     if w_tick w > now then Some w
     else cwhile (\<lambda>w. Some (w_tick w \<le> now)) tick_once w }"

section \<open>Words and levels\<close>

lemma and_mask_unat:
  fixes w :: "64 word"
  shows "unat (w AND 255) = unat w mod 256" and "unat (drop_bit s w AND 63) = unat w div 2 ^ s mod 64"
proof -
  have u: "unat (take_bit n v) = unat v mod 2 ^ n" for n and v :: "64 word"
    by (simp only: unsigned_take_bit_eq take_bit_nat_def)
  have "w AND 255 = take_bit 8 w" by (simp only: take_bit_eq_mask mask_eq_exp_minus_1) simp
  then show "unat (w AND 255) = unat w mod 256" using u [of 8 w] by simp
  have "drop_bit s w AND 63 = take_bit 6 (drop_bit s w)" by (simp only: take_bit_eq_mask mask_eq_exp_minus_1) simp
  moreover have "take_bit LENGTH(64) (unat w) = unat w" using unsigned_less [of w] by (intro take_bit_nat_eq_self) simp
  then have "unat (drop_bit s w) = unat w div 2 ^ s" by (simp only: unsigned_drop_bit_eq drop_bit_nat_def)
  ultimately show "unat (drop_bit s w AND 63) = unat w div 2 ^ s mod 64"
    using u [of 6 "drop_bit s w"] by simp
qed

lemma index_at_unat: "index_at s tick = unat tick div 2 ^ s mod 64"
  by (simp add: index_at_def and_mask_unat)

lemma low_byte: "(w :: 64 word) AND 255 = 0 \<longleftrightarrow> unat w mod 256 = 0"
  by (simp flip: and_mask_unat add: unat_eq_0)

lemma ticks_left_unat:
  assumes "unat tick \<le> unat e" and "unat e < unat tick + 2 ^ 31"
  shows "ticks_left e tick = int (unat e) - int (unat tick)"
proof -
  have d: "unat (e - tick) = unat e - unat tick" using assms(1) by (simp add: unat_sub word_le_nat_alt)
  have "(ucast (e - tick) :: 32 word) = word_of_nat (unat (e - tick))" by simp
  also have "sint \<dots> = int (unat (e - tick))" by (rule sint_word_of_nat) (use assms d in simp)
  finally show ?thesis using assms(1) by (simp add: ticks_left_def d)
qed

text \<open>Where a timer that expires at \<open>E\<close> may be when the tick is \<open>T\<close>.\<close>

definition level_shift :: "nat \<Rightarrow> nat" where
  "level_shift lv = 6 * lv - 4"

definition placed :: "slot \<Rightarrow> nat \<Rightarrow> nat \<Rightarrow> bool" where
  "placed l T E \<longleftrightarrow>
     fst l = 1 \<and> snd l = E mod 256 \<and> T < E \<and> E < T + 256 \<or>
     fst l \<in> {2, 3, 4} \<and> (let m = 2 ^ level_shift (fst l) in
       snd l = E div m mod 64 \<and> T div m < E div m \<and> E div m \<le> T div m + 64)"

lemma slot_for_placed:
  assumes "T < unat e" and "unat e < T + 2 ^ 26"
  shows "placed (slot_for (int (unat e) - int T) e) T (unat e)"
proof -
  have far: "x + 2 ^ s \<le> y \<Longrightarrow> x div 2 ^ s < y div 2 ^ s" for x y s :: nat
    using div_le_mono [of "x + 2 ^ s" y "2 ^ s"] by (simp add: div_add_self2)
  have near: "y < x + 2 ^ (s + 6) \<Longrightarrow> y div 2 ^ s \<le> x div 2 ^ s + 64" for x y s :: nat
    using div_le_mono [of y "x + 64 * 2 ^ s" "2 ^ s"] by (simp add: power_add)
  define d where "d = unat e - T"
  then have e: "unat e = T + d" "0 < d" "d < 2 ^ 26" "int (unat e) - int T = int d" using assms by auto
  consider "d < 256" | "256 \<le> d" "d < 2 ^ 14" | "2 ^ 14 \<le> d" "d < 2 ^ 20" | "2 ^ 20 \<le> d" using e(3) by linarith
  then show ?thesis
  proof cases
    case 1
    then show ?thesis unfolding e(4) using e(1,2) by (simp add: placed_def slot_for_def and_mask_unat)
  next
    case 2
    then show ?thesis unfolding e(4) using e(1) far [of T 8 "unat e"] near [of "unat e" T 8]
      by (simp add: placed_def slot_for_def and_mask_unat level_shift_def)
  next
    case 3
    then show ?thesis unfolding e(4) using e(1) far [of T 14 "unat e"] near [of "unat e" T 14]
      by (simp add: placed_def slot_for_def and_mask_unat level_shift_def)
  next
    case 4
    then show ?thesis unfolding e(4) using e(1,3) far [of T 20 "unat e"] near [of "unat e" T 20]
      by (simp add: placed_def slot_for_def and_mask_unat level_shift_def)
  qed
qed

lemma same_residue:
  fixes x y m :: nat
  assumes "x \<le> y" and "y < x + m" and "y mod m = x mod m"
  shows "y = x"
proof -
  have "m dvd y - x" using assms(1,3) mod_eq_dvd_iff_nat [of x y m] by simp
  then show ?thesis using assms(1,2) by (auto dest!: dvd_imp_le)
qed

lemma next_round: "y < x \<Longrightarrow> x \<le> y + 64 \<Longrightarrow> x mod 64 = Suc y mod 64 \<longleftrightarrow> x = Suc y" for x y :: nat
proof -
  assume *: "y < x" "x \<le> y + 64"
  then have "x mod 64 = Suc y mod 64 \<longleftrightarrow> 64 dvd x - Suc y" by (intro mod_eq_dvd_iff_nat) simp
  also have "\<dots> \<longleftrightarrow> x = Suc y" using * by (auto dest!: dvd_imp_le)
  finally show ?thesis .
qed

lemma visited:
  fixes T E m :: nat
  assumes "m > 0" and "T div m < E div m" and "E div m \<le> T div m + 64"
  shows "Suc T mod m \<noteq> 0 \<Longrightarrow> Suc T div m = T div m"
    and "Suc T mod m = 0 \<Longrightarrow> E div m mod 64 = Suc T div m mod 64 \<Longrightarrow> Suc T \<le> E \<and> E < Suc T + m"
    and "Suc T mod m = 0 \<Longrightarrow> E div m mod 64 \<noteq> Suc T div m mod 64 \<Longrightarrow> Suc T div m < E div m \<and> E div m \<le> Suc T div m + 64"
proof -
  show "Suc T mod m \<noteq> 0 \<Longrightarrow> Suc T div m = T div m" by (simp add: div_Suc)
  assume z: "Suc T mod m = 0"
  then have d: "Suc T div m = T div m + 1" by (simp add: div_Suc)
  show "E div m mod 64 \<noteq> Suc T div m mod 64 \<Longrightarrow> Suc T div m < E div m \<and> E div m \<le> Suc T div m + 64"
    using assms(2,3) d next_round [of "T div m" "E div m"] by fastforce
  assume "E div m mod 64 = Suc T div m mod 64"
  then have e: "E div m = Suc T div m" using assms(2,3) d next_round [of "T div m" "E div m"] by simp
  have "Suc T = m * (Suc T div m)" using z by auto
  moreover have "m * (E div m) \<le> E" "E < m * (E div m) + m"
    using mult_div_mod_eq [of m E] mod_less_divisor [OF assms(1), of E] by linarith+
  ultimately show "Suc T \<le> E \<and> E < Suc T + m" unfolding e by presburger
qed

section \<open>A wheel with one timer\<close>

declare split_paired_All [simp del] split_paired_Ex [simp del]

abbreviation no_timers :: timer_list where
  "no_timers \<equiv> \<lparr>l_head = None, l_tail = None\<rparr>"

definition lone :: "('h, 'd) wheel \<Rightarrow> addr \<Rightarrow> ('h, 'd) timer \<Rightarrow> slot \<Rightarrow> bool" where
  "lone w a t l \<longleftrightarrow> deref a w = Some t \<and> t_next t = None \<and> tv w l = \<lparr>l_head = Some a, l_tail = Some a\<rparr> \<and>
     (\<forall>l'. l' \<noteq> l \<longrightarrow> tv w l' = no_timers)"

definition idle :: "('h, 'd) wheel \<Rightarrow> bool" where
  "idle w \<longleftrightarrow> (\<forall>l. l_head (tv w l) = None)"

definition same_job :: "('h, 'd) timer \<Rightarrow> ('h, 'd) timer \<Rightarrow> bool" where
  "same_job t u \<longleftrightarrow> t_handle t = t_handle u \<and> t_data t = t_data u \<and> t_expried_time t = t_expried_time u \<and> t_flag t = t_flag u"

lemma deref_simps [simp]:
  "deref a (w\<lparr>tv := x\<rparr>) = deref a w" "deref a (w\<lparr>w_tick := y\<rparr>) = deref a w" "deref a (w\<lparr>fired := z\<rparr>) = deref a w"
  "deref a (set_list l f w) = deref a w"
  by (simp_all add: deref_def set_list_def)

lemma deref_store: "deref a v = Some t \<Longrightarrow> deref b (w\<lparr>store := (store v)[a := x]\<rparr>) = (if b = a then x else deref b v)"
  by (auto simp: deref_def split: if_splits)

lemma deref_freed [simp]: "deref a (w\<lparr>store := xs[a := None]\<rparr>) = None"
  by (simp add: deref_def)

lemma set_list_simps [simp]:
  "w_tick (set_list l f w) = w_tick w" "clock (set_list l f w) = clock w" "fired (set_list l f w) = fired w"
  "tv (set_list l f w) l' = (if l' = l then f (tv w l) else tv w l')" "store (set_list l f w) = store w"
  by (simp_all add: set_list_def)

lemma AddTimerList_empty:
  assumes "deref a w = Some t" and "tv w l = no_timers"
  shows "AddTimerList l a w = Some (set_list l (\<lambda>_. \<lparr>l_head = Some a, l_tail = Some a\<rparr>)
    (w\<lparr>store := (store w)[a := Some (t\<lparr>t_linked_list := Some l, t_next := None, t_pre := None\<rparr>)]\<rparr>))"
  using assms by (simp add: AddTimerList_def assign_def deref_store Let_def set_list_def)

text \<open>Adding the timer again, from a list that is then cleared.\<close>

lemma add_lone_later:
  assumes "lone w a t l" and "unat (w_tick w) < unat (t_expried_time t)" and "unat (t_expried_time t) < unat (w_tick w) + 2 ^ 26"
    and "l' = slot_for (int (unat (t_expried_time t)) - int (unat (w_tick w))) (t_expried_time t)" and "l' \<noteq> l"
  shows "\<exists>w'. add_timer a w = Some (Some a, w') \<and>
    (\<exists>t'. lone (set_list l (\<lambda>_. no_timers) w') a t' l' \<and> same_job t t') \<and>
    w_tick w' = w_tick w \<and> clock w' = clock w \<and> fired w' = fired w"
proof -
  have t: "deref a w = Some t" "tv w l' = no_timers" using assms(1,5) unfolding lone_def by blast+
  have left: "ticks_left (t_expried_time t) (w_tick w) = int (unat (t_expried_time t)) - int (unat (w_tick w))"
    by (rule ticks_left_unat) (use assms(2,3) in simp_all)
  have "\<not> ticks_left (t_expried_time t) (w_tick w) \<le> 0" unfolding left using assms(2) by linarith
  moreover have "slot_for (ticks_left (t_expried_time t) (w_tick w)) (t_expried_time t) = l'" unfolding left assms(4) ..
  ultimately have "add_timer a w = do { w1 \<leftarrow> AddTimerList l' a w; Some (Some a, w1) }"
    using t(1) by (subst add_timer.simps) (simp add: Let_def)
  then show ?thesis using assms(1,5)
    by (auto simp: AddTimerList_empty [OF t] lone_def same_job_def deref_store [OF t(1)])
qed

lemma add_lone_now:
  assumes "lone w a t l" and "unat (w_tick w) = unat (t_expried_time t)" and "t_flag t \<noteq> 1"
  shows "add_timer a w = Some (None, w\<lparr>fired := fired w @ [(t_handle t, t_data t, w_tick w)], store := (store w)[a := None]\<rparr>)"
proof -
  have t: "deref a w = Some t" using assms(1) by (simp add: lone_def)
  have "ticks_left (t_expried_time t) (w_tick w) = 0" using assms(2) ticks_left_unat [of "w_tick w" "t_expried_time t"] by simp
  with t assms(3) show ?thesis
    by (subst add_timer.simps) (simp add: Let_def call_handle_def freeTimer_def)
qed

lemma switch_list_idle: "l_head (tv w l) = None \<Longrightarrow> switch_list l w = Some w"
  by (simp add: switch_list_def)

lemma switch_list_lone:
  assumes "lone w a t l"
  shows "switch_list l w = do { (p, w') \<leftarrow> add_timer a w; Some (set_list l (\<lambda>_. no_timers) w') }"
proof -
  have t: "deref a w = Some t" "t_next t = None" "l_head (tv w l) = Some a" using assms by (simp_all add: lone_def)
  show ?thesis
    by (cases "add_timer a w") (simp_all add: switch_list_def t cwhile.simps split: prod.splits)
qed

text \<open>
  In the middle of a round, after the lists of the levels up to \<open>n\<close>: the tick is \<open>Suc T\<close>, and a
  timer of a higher level is still where it may be at \<open>T\<close>.
\<close>

definition midway :: "nat \<Rightarrow> nat \<Rightarrow> nat \<Rightarrow> slot \<Rightarrow> bool" where
  "midway n T E l \<longleftrightarrow>
     (if fst l = 1 then snd l = E mod 256 \<and> Suc T \<le> E \<and> E < Suc T + 256
      else if fst l \<le> n then placed l (Suc T) E else placed l T E)"

text \<open>A job that is done after one call: of one execution, or one that is called while it is moved.\<close>

definition once :: "('h, 'd) timer \<Rightarrow> slot \<Rightarrow> bool" where
  "once t l \<longleftrightarrow> t_flag t = 0 \<or> t_flag t = 2 \<and> unat (t_expried_time t) mod 256 = 0 \<and> fst l \<noteq> 1"

definition round :: "nat \<Rightarrow> nat \<Rightarrow> addr \<Rightarrow> ('h, 'd) timer \<Rightarrow> 64 word list \<Rightarrow> ('h, 'd) wheel \<Rightarrow> bool" where
  "round n T a job cs w \<longleftrightarrow> unat (w_tick w) = Suc T \<and> clock w = cs \<and>
     ((\<exists>l t. lone w a t l \<and> same_job t job \<and> once t l \<and> midway n T (unat (t_expried_time job)) l \<and> fired w = []) \<or>
      idle w \<and> deref a w = None \<and> fired w = [(t_handle job, t_data job, t_expried_time job)] \<and> unat (t_expried_time job) \<le> Suc T)"

lemma placed_later:
  assumes "placed l T E"
  shows "T < E"
proof -
  have "x < y" if "x div m < y div m" for x y m :: nat using that by (meson div_le_mono not_le)
  with assms show ?thesis unfolding placed_def Let_def by blast
qed

lemma slot_for_level:
  assumes "0 < d" and "L \<in> {2, 3, 4}" and "d < 2 ^ level_shift L"
  shows "fst (slot_for (int d) e) < L" and "fst (slot_for (int d) e) \<noteq> 0"
  using assms by (auto simp: slot_for_def level_shift_def)

lemma slot_for_low:
  assumes "0 < d" and "fst (slot_for (int d) e) = 1"
  shows "d < 256"
  using assms by (auto simp: slot_for_def split: if_splits)

lemma mod_level: "x mod 2 ^ level_shift L = 0 \<Longrightarrow> L \<in> {2, 3, 4} \<Longrightarrow> x mod 256 = (0::nat)"
  by (auto simp: level_shift_def mod_eq_0_iff_dvd intro: dvd_trans [rotated])

lemma lone_not_idle: "lone w a t l \<Longrightarrow> \<not> idle w"
  unfolding lone_def idle_def by (metis option.distinct(1) timer_list.select_convs(1))

lemma round_idle:
  assumes "round n T a job cs w" and "idle w"
  shows "round m T a job cs w"
  using assms by (auto simp: round_def dest: lone_not_idle)

lemma round_switch:
  assumes "round (L - 1) T a job cs w" and "L \<in> {2, 3, 4}" and "Suc T mod 2 ^ level_shift L = 0"
  shows "\<exists>w'. switch_list (L, Suc T div 2 ^ level_shift L mod 64) w = Some w' \<and> round L T a job cs w'"
proof (cases "idle w")
  case True
  with round_idle [OF assms(1)] show ?thesis by (auto simp: switch_list_idle idle_def)
next
  case False
  let ?m = "2 ^ level_shift L" and ?E = "unat (t_expried_time job)"
  let ?now = "(L, Suc T div ?m mod 64)"
  obtain l t where l: "lone w a t l" "same_job t job" "once t l" "midway (L - 1) T ?E l" "fired w = []"
    and w: "unat (w_tick w) = Suc T" "clock w = cs"
    using assms(1) False by (auto simp: round_def)
  have e: "t_expried_time t = t_expried_time job" using l(2) by (simp add: same_job_def)
  show ?thesis
  proof (cases "l = ?now")
    case False
    then have "switch_list ?now w = Some w"
      using l(1) by (intro switch_list_idle) (auto simp: lone_def)
    moreover have "midway L T ?E l"
    proof (cases "fst l = L")
      case True
      then have "placed l T ?E" using l(4) assms(2) by (auto simp: midway_def)
      with True assms(2) have p: "T div ?m < ?E div ?m" "?E div ?m \<le> T div ?m + 64" "snd l = ?E div ?m mod 64"
        by (auto simp: placed_def Let_def)
      have "snd l \<noteq> Suc T div ?m mod 64" using False True by (cases l) auto
      with visited(3) [OF _ p(1,2) assms(3)] p(3) True assms(2) show ?thesis
        by (auto simp: midway_def placed_def Let_def)
    next
      case False
      then show ?thesis using l(4) assms(2) by (auto simp: midway_def)
    qed
    ultimately show ?thesis using l w by (auto simp: round_def)
  next
    case True
    then have "placed l T ?E" using l(4) assms(2) by (auto simp: midway_def)
    with True assms(2) have p: "T div ?m < ?E div ?m" "?E div ?m \<le> T div ?m + 64" "?E div ?m mod 64 = Suc T div ?m mod 64"
      by (auto simp: placed_def Let_def)
    have E: "Suc T \<le> ?E" "?E < Suc T + ?m" using visited(2) [OF _ p(1,2) assms(3) p(3)] by simp_all
    show ?thesis
    proof (cases "?E = Suc T")
      case True
      have f: "t_flag t \<noteq> 1" using l(3) by (auto simp: once_def)
      have "add_timer a w = Some (None, w\<lparr>fired := fired w @ [(t_handle t, t_data t, w_tick w)], store := (store w)[a := None]\<rparr>)"
        by (rule add_lone_now [OF l(1) _ f]) (simp add: e w True)
      moreover have "w_tick w = t_expried_time job" using True w(1) by (simp add: word_unat_eq_iff)
      ultimately show ?thesis using l w True \<open>l = ?now\<close>
        by (auto simp: switch_list_lone [OF l(1), unfolded \<open>l = ?now\<close>] round_def idle_def lone_def same_job_def deref_store)
    next
      case False
      define d where "d = ?E - Suc T"
      have d: "0 < d" "d < ?m" "int ?E - int (Suc T) = int d" "?E = Suc T + d" using E False by (auto simp: d_def)
      let ?l = "slot_for (int ?E - int (Suc T)) (t_expried_time job)"
      have lv: "fst ?l < L" using slot_for_level(1) [OF d(1) assms(2) d(2)] unfolding d(3) .
      have m26: "?m \<le> (2::nat) ^ 26" using assms(2) by (auto simp: level_shift_def)
      have pl: "placed ?l (Suc T) ?E" by (rule slot_for_placed) (use d m26 in simp_all)
      have ne: "?l \<noteq> l" using lv \<open>l = ?now\<close> by auto
      obtain w' t' where w': "add_timer a w = Some (Some a, w')" "lone (set_list l (\<lambda>_. no_timers) w') a t' ?l" "same_job t t'"
        "w_tick w' = w_tick w" "clock w' = clock w" "fired w' = fired w"
        using add_lone_later [OF l(1), of ?l] ne d m26 by (auto simp: e w)
      have "midway L T ?E ?l" using pl lv by (auto simp: midway_def placed_def)
      moreover have "once t' ?l"
      proof -
        have "fst ?l \<noteq> 1" if "?E mod 256 = 0"
        proof
          assume "fst ?l = 1"
          then have "d < 256" using slot_for_low [OF d(1)] unfolding d(3) by blast
          moreover have "Suc T mod 256 = 0" by (rule mod_level [OF assms(3,2)])
          ultimately show False using that d(1,4) same_residue [of "Suc T" ?E 256] by simp
        qed
        then show ?thesis using l(3) w'(3) by (auto simp: once_def same_job_def e)
      qed
      ultimately show ?thesis using w' l(2,5) w \<open>l = ?now\<close>
        by (auto simp: switch_list_lone [OF l(1), unfolded \<open>l = ?now\<close>] round_def same_job_def)
    qed
  qed
qed

lemma round_skip:
  assumes "round (L - 1) T a job cs w" and "L \<in> {2, 3, 4}" and "Suc T mod 2 ^ level_shift L \<noteq> 0"
  shows "round L T a job cs w"
proof -
  have "midway L T E l" if "midway (L - 1) T E l" for E l
  proof (cases "fst l = L")
    case True
    then have "placed l T E" using that assms(2) by (auto simp: midway_def)
    with True assms(2) have p: "T div 2 ^ level_shift L < E div 2 ^ level_shift L" "E div 2 ^ level_shift L \<le> T div 2 ^ level_shift L + 64"
      "snd l = E div 2 ^ level_shift L mod 64" by (auto simp: placed_def Let_def)
    with visited(1) [OF _ p(1,2) assms(3)] True assms(2) show ?thesis by (auto simp: midway_def placed_def Let_def)
  next
    case False
    then show ?thesis using that assms(2) by (auto simp: midway_def)
  qed
  with assms(1) show ?thesis unfolding round_def by blast
qed

lemma round_level5: "round n T a job cs w \<Longrightarrow> switch_list (5, i) w = Some w"
proof (rule switch_list_idle)
  assume r: "round n T a job cs w"
  have "fst l \<noteq> 5" if "midway n T E l" for E l using that by (auto simp: midway_def placed_def split: if_splits)
  with r show "l_head (tv w (5, i)) = None" by (auto simp: round_def idle_def lone_def)
qed

lemma level_shifts: "level_shift 2 = 8" "level_shift 3 = 14" "level_shift 4 = 20"
  by (simp_all add: level_shift_def)

lemma mod_next_level: "(x::nat) mod (m * 64) = 0 \<longleftrightarrow> x mod m = 0 \<and> x div m mod 64 = 0"
  by (cases "m = 0") (auto simp: mod_mult2_eq)

lemma round_SwitchOthWheel:
  assumes "round 1 T a job cs w"
  shows "\<exists>w'. SwitchOthWheel w = Some w' \<and> round 4 T a job cs w'"
proof -
  let ?T = "Suc T"
  have tick: "unat (w_tick w) = ?T" if "round n T a job cs w" for n w using that by (simp add: round_def)
  have m: "?T mod 2 ^ 14 = 0 \<longleftrightarrow> ?T mod 256 = 0 \<and> ?T div 2 ^ 8 mod 64 = 0" "?T mod 2 ^ 20 = 0 \<longleftrightarrow> ?T mod 2 ^ 14 = 0 \<and> ?T div 2 ^ 14 mod 64 = 0"
    using mod_next_level [of ?T "2 ^ 8"] mod_next_level [of ?T "2 ^ 14"] by simp_all
  have skip: "round 4 T a job cs w" if "round 2 T a job cs w" "?T mod 2 ^ 14 \<noteq> 0" for w
    using round_skip [of 3 T a job cs w] round_skip [of 4 T a job cs w] that m(2) by (simp add: level_shifts)
  show ?thesis
  proof (cases "?T mod 256 = 0")
    case False
    then have "round 2 T a job cs w" using round_skip [of 2 T a job cs w] assms by (simp add: level_shifts)
    with skip m False show ?thesis using tick [OF assms] by (auto simp: SwitchOthWheel_def low_byte)
  next
    case True
    then obtain w2 where w2: "switch_list (2, ?T div 2 ^ 8 mod 64) w = Some w2" "round 2 T a job cs w2"
      using round_switch [of 2 T a job cs w] assms by (auto simp: level_shifts)
    show ?thesis
    proof (cases "?T div 2 ^ 8 mod 64 = 0")
      case False
      with skip [OF w2(2)] m show ?thesis
        using w2 True tick [OF assms] tick [OF w2(2)] by (auto simp: SwitchOthWheel_def low_byte index_at_unat)
    next
      case z2: True
      then obtain w3 where w3: "switch_list (3, ?T div 2 ^ 14 mod 64) w2 = Some w3" "round 3 T a job cs w3"
        using round_switch [of 3 T a job cs w2] w2(2) m True by (auto simp: level_shifts)
      show ?thesis
      proof (cases "?T div 2 ^ 14 mod 64 = 0")
        case False
        then have "round 4 T a job cs w3" using round_skip [of 4 T a job cs w3] w3(2) m by (simp add: level_shifts)
        then show ?thesis using w2 w3 True z2 False tick [OF assms] tick [OF w2(2)] tick [OF w3(2)]
          by (auto simp: SwitchOthWheel_def low_byte index_at_unat)
      next
        case z3: True
        then obtain w4 where w4: "switch_list (4, ?T div 2 ^ 20 mod 64) w3 = Some w4" "round 4 T a job cs w4"
          using round_switch [of 4 T a job cs w3] w3(2) m True z2 by (auto simp: level_shifts)
        then show ?thesis using w2 w3 True z2 z3 round_level5 [OF w4(2)] tick [OF assms] tick [OF w2(2)] tick [OF w3(2)] tick [OF w4(2)]
          by (auto simp: SwitchOthWheel_def low_byte index_at_unat)
      qed
    qed
  qed
qed

text \<open>Between two rounds.\<close>

definition between :: "nat \<Rightarrow> addr \<Rightarrow> ('h, 'd) timer \<Rightarrow> 64 word list \<Rightarrow> ('h, 'd) wheel \<Rightarrow> bool" where
  "between T a job cs w \<longleftrightarrow> unat (w_tick w) = T \<and> clock w = cs \<and>
     ((\<exists>l t. lone w a t l \<and> same_job t job \<and> once t l \<and> placed l T (unat (t_expried_time job)) \<and> fired w = []) \<or>
      idle w \<and> deref a w = None \<and> fired w = [(t_handle job, t_data job, t_expried_time job)] \<and> unat (t_expried_time job) \<le> T)"

lemma fire_lone:
  assumes "lone w a t l" and "t_flag t = 0"
  shows "fire a w = Some (w\<lparr>fired := fired w @ [(t_handle t, t_data t, w_tick w)], store := (store w)[a := None]\<rparr>)"
  using assms by (simp add: lone_def fire_def call_handle_def freeTimer_def)

lemma keeps_lists [simp]:
  "lone (w\<lparr>w_tick := x\<rparr>) a t l \<longleftrightarrow> lone w a t l" "idle (w\<lparr>w_tick := x\<rparr>) \<longleftrightarrow> idle w"
  "lone (w\<lparr>clock := cs\<rparr>) a t l \<longleftrightarrow> lone w a t l" "idle (w\<lparr>clock := cs\<rparr>) \<longleftrightarrow> idle w"
  "deref a (w\<lparr>clock := cs\<rparr>) = deref a w"
  by (simp_all add: lone_def idle_def deref_def)

lemma round_tv1:
  assumes "round 4 T a job cs w"
  shows "\<exists>w'. (do { let l = (1, unat (w_tick w AND 255));
     if l_head (tv w l) \<noteq> None then do {
       (node, w) \<leftarrow> cwhile (\<lambda>(node, w). Some (node \<noteq> None))
         (\<lambda>(node, w). do { a \<leftarrow> node; t \<leftarrow> deref a w; w \<leftarrow> fire a w; Some (t_next t, w) })
         (l_head (tv w l), w);
       Some (set_list l (\<lambda>tm. tm\<lparr>l_head := None\<rparr>) w) }
     else Some w }) = Some w' \<and> between (Suc T) a job cs w'"
proof (cases "idle w")
  case True
  then show ?thesis using assms by (auto simp: round_def between_def Let_def idle_def dest: lone_not_idle [unfolded idle_def])
next
  case False
  let ?E = "unat (t_expried_time job)" and ?l = "(1 :: nat, unat (w_tick w AND 255))"
  obtain l t where l: "lone w a t l" "same_job t job" "once t l" "midway 4 T ?E l" "fired w = []"
    and w: "unat (w_tick w) = Suc T" "clock w = cs"
    using assms False unfolding round_def by blast
  have t: "deref a w = Some t" "t_next t = None" using l(1) by (simp_all add: lone_def)
  show ?thesis
  proof (cases "l = ?l")
    case True
    then have "Suc T \<le> ?E" "?E < Suc T + 256" "Suc T mod 256 = ?E mod 256"
      using l(4) by (auto simp: midway_def and_mask_unat w)
    then have E: "?E = Suc T" using same_residue [of "Suc T" ?E 256] by simp
    then have e: "w_tick w = t_expried_time job" using w(1) by (simp add: word_unat_eq_iff)
    have "t_flag t = 0" using l(3) True by (auto simp: once_def)
    from fire_lone [OF l(1) this] have "fire a w = Some (w\<lparr>fired := [(t_handle job, t_data job, t_expried_time job)], store := (store w)[a := None]\<rparr>)"
      using l(2,5) e by (simp add: same_job_def)
    moreover have "l_head (tv w ?l) = Some a" using l(1) True by (simp add: lone_def)
    ultimately show ?thesis using t w E l(1) True
      by (auto simp: cwhile.simps Let_def between_def idle_def lone_def)
  next
    case False
    then have h: "l_head (tv w ?l) = None" using l(1) by (simp add: lone_def)
    have "placed l (Suc T) ?E"
    proof (cases "fst l = 1")
      case True
      then have m: "snd l = ?E mod 256" "Suc T \<le> ?E" "?E < Suc T + 256" using l(4) by (simp_all add: midway_def)
      with False True have "?E \<noteq> Suc T" by (cases l) (auto simp: and_mask_unat w)
      with m True show ?thesis by (simp add: placed_def)
    next
      case False
      have "fst l \<le> 4" using l(4) False by (auto simp: midway_def placed_def split: if_splits)
      with False show ?thesis using l(4) by (simp add: midway_def)
    qed
    then show ?thesis using h l w by (auto simp: between_def)
  qed
qed

lemma tick_once_between:
  assumes "between T a job cs w" and "Suc T < 2 ^ 64"
  shows "\<exists>w'. tick_once w = Some w' \<and> between (Suc T) a job cs w'"
proof -
  have "unat (w_tick w + 1) = Suc T"
    using assms by (simp add: between_def unat_word_ariths)
  moreover have "midway 1 T E l" if "placed l T E" for E l using that by (auto simp: midway_def placed_def)
  ultimately have "round 1 T a job cs (w\<lparr>w_tick := w_tick w + 1\<rparr>)"
    using assms(1) unfolding between_def round_def by (simp only: keeps_lists deref_simps) (simp, blast intro: le_SucI)
  then obtain w1 where "SwitchOthWheel (w\<lparr>w_tick := w_tick w + 1\<rparr>) = Some w1" "round 4 T a job cs w1"
    using round_SwitchOthWheel by blast
  with round_tv1 [of T a job cs w1] show ?thesis by (simp add: tick_once_def)
qed

lemma Tick_between:
  assumes "between T a job (now # cs) w" and "T \<le> unat now" and "unat now + 1 < 2 ^ 64"
  shows "\<exists>w'. Tick w = Some w' \<and> between (unat now + 1) a job cs w'"
proof -
  let ?w = "w\<lparr>clock := cs\<rparr>"
  have "between T a job cs ?w" using assms(1) by (simp add: between_def)
  then have "ok (cwhile (\<lambda>w. Some (w_tick w \<le> now)) tick_once ?w) (\<lambda>w'. between (unat now + 1) a job cs w')"
  proof (rule_tac cwhile_rule [where I = "\<lambda>w. \<exists>T. between T a job cs w \<and> T \<le> unat now + 1" and
        m = "\<lambda>w. unat now + 1 - unat (w_tick w)"], goal_cases)
    case 1
    then show ?case using assms(2) by auto
  next
    case (2 v)
    then obtain U where U: "between U a job cs v" "U \<le> unat now + 1" by blast
    then have u: "unat (w_tick v) = U" by (simp add: between_def)
    show ?case
    proof (cases "U \<le> unat now")
      case True
      then obtain v' where v': "tick_once v = Some v'" "between (Suc U) a job cs v'"
        using tick_once_between [OF U(1)] assms(3) by auto
      then have "unat (w_tick v') = Suc U" by (simp add: between_def)
      with True u v' show ?thesis by (auto simp: word_le_nat_alt)
    next
      case False
      with U u show ?thesis by (auto simp: word_le_nat_alt le_Suc_eq)
    qed
  qed
  moreover have "clock w = now # cs" "\<not> w_tick w > now" using assms(1,2) by (auto simp: between_def word_less_nat_alt)
  ultimately show ?thesis by (auto simp: Tick_def now_milliseconds_def elim: okE)
qed

text \<open>Several calls of \<open>Tick\<close>, one for each reading that is left.\<close>

primrec run_ticks :: "nat \<Rightarrow> ('h, 'd) wheel \<Rightarrow> ('h, 'd) wheel option" where
  "run_ticks 0 w = Some w"
| "run_ticks (Suc n) w = do { w \<leftarrow> Tick w; run_ticks n w }"

lemma Tick_between_any:
  assumes "between T a job (now # cs) w" and "unat now + 1 < 2 ^ 64"
  shows "\<exists>w'. Tick w = Some w' \<and> between (if T \<le> unat now then unat now + 1 else T) a job cs w'"
proof (cases "T \<le> unat now")
  case True
  with Tick_between [OF assms(1) True assms(2)] show ?thesis by simp
next
  case False
  have "clock w = now # cs" "unat (w_tick w) = T" using assms(1) by (simp_all add: between_def)
  then have "Tick w = Some (w\<lparr>clock := cs\<rparr>)"
    using False by (simp add: Tick_def now_milliseconds_def word_less_nat_alt)
  moreover have "between T a job cs (w\<lparr>clock := cs\<rparr>)" using assms(1) by (simp add: between_def)
  ultimately show ?thesis using False by simp
qed

lemma run_ticks_between:
  assumes "between T a job cs w" and "\<forall>now \<in> set cs. unat now + 1 < 2 ^ 64"
  shows "\<exists>w' U. run_ticks (length cs) w = Some w' \<and> between U a job [] w' \<and>
    (\<forall>E. E \<le> U \<longleftrightarrow> E \<le> T \<or> (\<exists>now \<in> set cs. E \<le> unat now + 1))"
  using assms
proof (induction cs arbitrary: T w)
  case (Cons now cs)
  obtain w' where w': "Tick w = Some w'" "between (if T \<le> unat now then unat now + 1 else T) a job cs w'"
    using Tick_between_any [OF Cons.prems(1)] Cons.prems(2) by auto
  obtain w'' U where U: "run_ticks (length cs) w' = Some w''" "between U a job [] w''"
      "\<forall>E. E \<le> U \<longleftrightarrow> E \<le> (if T \<le> unat now then unat now + 1 else T) \<or> (\<exists>now \<in> set cs. E \<le> unat now + 1)"
    using Cons.IH [OF w'(2)] Cons.prems(2) by auto
  have "\<forall>E. E \<le> U \<longleftrightarrow> E \<le> T \<or> (\<exists>n \<in> set (now # cs). E \<le> unat n + 1)" using U(3) by auto
  then show ?case using w'(1) U(1,2) by (intro exI [where x = w''] exI [where x = U]) simp
qed auto

lemma between_fired:
  assumes "between U a job cs w"
  shows "fired w = (if unat (t_expried_time job) \<le> U then [(t_handle job, t_data job, t_expried_time job)] else [])"
  using assms placed_later by (fastforce simp: between_def)

lemma fresh_between:
  fixes h :: 'h and x :: 'd
  assumes "1 \<le> unat d" and "unat d < 2 ^ 26" and "unat t0 + unat d < 2 ^ 64"
    and "opt = 0 \<or> opt = 2 \<and> 256 \<le> unat d \<and> (unat t0 + unat d) mod 256 = 0"
  shows "\<exists>w job. do { w \<leftarrow> InitTimeWheel (t0 # cs); AddTimer h d x opt n w } = Some (Some 0, w) \<and>
    between (unat t0) 0 job cs w \<and> t_handle job = h \<and> t_data job = x \<and> t_expried_time job = t0 + d \<and>
    unat (t_expried_time job) = unat t0 + unat d"
proof -
  let ?t = "\<lparr>t_handle = h, t_expried_time = d + t0, t_data = x, t_timeout = d, t_execu_times = n, t_flag = opt,
    t_next = None, t_pre = None, t_linked_list = None\<rparr>"
  let ?w = "\<lparr>tv = (\<lambda>_. no_timers), w_tick = t0, store = [Some ?t], clock = cs, fired = []\<rparr> :: ('h, 'd) wheel"
  have e: "unat (d + t0) = unat t0 + unat d" using assms(3) by (subst unat_plus_simple [THEN iffD1]) (simp_all add: no_olen_add_nat)
  let ?l = "slot_for (int (unat (d + t0)) - int (unat t0)) (d + t0)"
  have left: "ticks_left (d + t0) t0 = int (unat (d + t0)) - int (unat t0)"
    by (rule ticks_left_unat) (use assms(2) e in simp_all)
  have pl: "placed ?l (unat t0) (unat (d + t0))" by (rule slot_for_placed) (use assms(1,2) e in simp_all)
  have d: "deref 0 ?w = Some ?t" by (simp add: deref_def)
  have "\<not> ticks_left (d + t0) t0 \<le> 0" unfolding left using assms(1) e by linarith
  then have "add_timer 0 ?w = do { w1 \<leftarrow> AddTimerList ?l 0 ?w; Some (Some 0, w1) }"
    unfolding left [symmetric] using d by (subst add_timer.simps) (simp add: Let_def)
  also have "\<dots> = Some (Some 0, set_list ?l (\<lambda>_. \<lparr>l_head = Some 0, l_tail = Some 0\<rparr>)
      (?w\<lparr>store := (store ?w)[0 := Some (?t\<lparr>t_linked_list := Some ?l, t_next := None, t_pre := None\<rparr>)]\<rparr>))"
    by (subst AddTimerList_empty [OF d]) simp_all
  finally have a: "add_timer 0 ?w = Some (Some 0, set_list ?l (\<lambda>_. \<lparr>l_head = Some 0, l_tail = Some 0\<rparr>)
      (?w\<lparr>store := [Some (?t\<lparr>t_linked_list := Some ?l\<rparr>)]\<rparr>))" by simp
  have "once ?t ?l"
  proof -
    have "fst ?l \<noteq> 1" if "256 \<le> unat d"
    proof -
      have "int (unat (d + t0)) - int (unat t0) = int (unat d)" using e by simp
      then show ?thesis using slot_for_low [of "unat d" "d + t0"] assms(1) that by auto
    qed
    then show ?thesis using assms(4) e by (auto simp: once_def)
  qed
  then have "between (unat t0) 0 ?t cs (set_list ?l (\<lambda>_. \<lparr>l_head = Some 0, l_tail = Some 0\<rparr>)
      (?w\<lparr>store := [Some (?t\<lparr>t_linked_list := Some ?l\<rparr>)]\<rparr>))"
    unfolding between_def using pl
    by (intro conjI disjI1 exI [where x = ?l] exI [where x = "?t\<lparr>t_linked_list := Some ?l\<rparr>"])
      (simp_all add: lone_def deref_def same_job_def once_def)
  moreover have "1 \<le> d" using assms(1) by (simp add: word_le_nat_alt)
  moreover have "opt = 0 \<or> opt = 2" using assms(4) by auto
  ultimately show ?thesis
    using a e by (auto simp: InitTimeWheel_def now_milliseconds_def AddTimer_def Let_def add.commute not_le simp flip: not_less)
qed

lemma bind_pair: "do { w \<leftarrow> i; (p, w) \<leftarrow> f w; g w } = (case do { w \<leftarrow> i; f w } of None \<Rightarrow> None | Some (p, w) \<Rightarrow> g w)"
  by (cases i) (auto split: option.split bind_splits)

section \<open>Properties\<close>

text \<open>
  C13: In a fresh wheel without other timers, a timer of one execution (option 0) with a timeout of 1 to
  \<open>2^26 - 1\<close> milliseconds (18 hours) is called exactly once, at the tick at which it expires, however often and at what times \<open>Tick\<close> is
  called: it is called as soon as the clock has reached the millisecond before, and no freed or
  null pointer is used on the way through the levels of the wheel.  Timers that repeat and timeouts beyond
  are not covered; one from \<open>2^31\<close> on is called at once (\<open>long_timeout_called_at_once\<close>).
\<close>

theorem lone_timer_fires:
  assumes "1 \<le> unat d" and "unat d < 2 ^ 26" and "unat t0 + unat d < 2 ^ 64" and "\<forall>now \<in> set nows. unat now + 1 < 2 ^ 64"
  shows "\<exists>w. do { w \<leftarrow> InitTimeWheel (t0 # nows); (p, w) \<leftarrow> AddTimer h d x 0 n w; run_ticks (length nows) w } = Some w \<and>
    fired w = (if \<exists>now \<in> set nows. unat (t0 + d) \<le> unat now + 1 then [(h, x, t0 + d)] else [])"
proof -
  obtain w job where j: "do { w \<leftarrow> InitTimeWheel (t0 # nows); AddTimer h d x 0 n w } = Some (Some 0, w)"
      "between (unat t0) 0 job nows w" "t_handle job = h" "t_data job = x" "t_expried_time job = t0 + d"
      "unat (t_expried_time job) = unat t0 + unat d"
    using fresh_between [OF assms(1-3) disjI1 [OF refl], of nows h x n] by (elim exE conjE) (rule that; assumption)
  obtain w' U where u: "run_ticks (length nows) w = Some w'" "between U 0 job [] w'"
      "\<forall>E. E \<le> U \<longleftrightarrow> E \<le> unat t0 \<or> (\<exists>now \<in> set nows. E \<le> unat now + 1)"
    using run_ticks_between [OF j(2) assms(4)] by (elim exE conjE) (rule that; assumption)
  have "do { w \<leftarrow> InitTimeWheel (t0 # nows); (p, w) \<leftarrow> AddTimer h d x 0 n w; run_ticks (length nows) w } = Some w'"
    unfolding bind_pair j(1) by (simp add: u(1))
  moreover have "fired w' = (if \<exists>now \<in> set nows. unat (t0 + d) \<le> unat now + 1 then [(h, x, t0 + d)] else [])"
    using between_fired [OF u(2)] u(3) j(3-6) assms(1) by simp
  ultimately show ?thesis by blast
qed

theorem lone_timer_fires_witness:
  "\<exists>w. do { w \<leftarrow> InitTimeWheel [1000, 1100, 1400]; (p, w) \<leftarrow> AddTimer ''h'' 300 ''x'' 0 0 w; run_ticks (length [1100, 1400 :: 64 word]) w } = Some w \<and>
    fired w = [(''h'', ''x'', 1300)]"
  using lone_timer_fires [of 300 1000 "[1100, 1400]" "''h''" "''x''" 0] by simp

text \<open>
  A timer that should be executed several times is executed once and freed when it expires
  while it is moved down from a higher level, which is whenever it expires at a multiple of 256.
\<close>

theorem repeated_timer_lost:
  assumes "256 \<le> unat d" and "unat d < 2 ^ 26" and "unat t0 + unat d < 2 ^ 64" and "(unat t0 + unat d) mod 256 = 0"
    and "\<forall>now \<in> set nows. unat now + 1 < 2 ^ 64"
  shows "\<exists>w. do { w \<leftarrow> InitTimeWheel (t0 # nows); (p, w) \<leftarrow> AddTimer h d x 2 m w; run_ticks (length nows) w } = Some w \<and>
    fired w = (if \<exists>now \<in> set nows. unat (t0 + d) \<le> unat now + 1 then [(h, x, t0 + d)] else [])"
proof -
  have one: "1 \<le> unat d" and c: "(2 :: nat) = 0 \<or> (2 :: nat) = 2 \<and> 256 \<le> unat d \<and> (unat t0 + unat d) mod 256 = 0"
    using assms(1,4) by simp_all
  obtain w job where j: "do { w \<leftarrow> InitTimeWheel (t0 # nows); AddTimer h d x 2 m w } = Some (Some 0, w)"
      "between (unat t0) 0 job nows w" "t_handle job = h" "t_data job = x" "t_expried_time job = t0 + d"
      "unat (t_expried_time job) = unat t0 + unat d"
    using fresh_between [OF one assms(2,3) c, of nows h x m] by (elim exE conjE) (rule that; assumption)
  obtain w' U where u: "run_ticks (length nows) w = Some w'" "between U 0 job [] w'"
      "\<forall>E. E \<le> U \<longleftrightarrow> E \<le> unat t0 \<or> (\<exists>now \<in> set nows. E \<le> unat now + 1)"
    using run_ticks_between [OF j(2) assms(5)] by (elim exE conjE) (rule that; assumption)
  have "do { w \<leftarrow> InitTimeWheel (t0 # nows); (p, w) \<leftarrow> AddTimer h d x 2 m w; run_ticks (length nows) w } = Some w'"
    unfolding bind_pair j(1) by (simp add: u(1))
  moreover have "fired w' = (if \<exists>now \<in> set nows. unat (t0 + d) \<le> unat now + 1 then [(h, x, t0 + d)] else [])"
    using between_fired [OF u(2)] u(3) j(3-6) assms(1) by simp
  ultimately show ?thesis by blast
qed

theorem repeated_timer_lost_witness:
  "\<exists>w. do { w \<leftarrow> InitTimeWheel [1000, 5000]; (p, w) \<leftarrow> AddTimer ''h'' 280 ''x'' 2 3 w; run_ticks (length [5000 :: 64 word]) w } = Some w \<and>
    fired w = [(''h'', ''x'', 1280)]"
  using repeated_timer_lost [of 280 1000 "[5000]" "''h''" "''x''" 3] by simp

lemma sint_high:
  assumes "2 ^ 31 \<le> n" and "n < 2 ^ 32"
  shows "sint (word_of_nat n :: 32 word) = int n - 2 ^ 32"
proof -
  have "(word_of_nat n :: 32 word) = word_of_int (int n - 2 ^ 32)" by (simp add: word_of_int_minus)
  also have "sint \<dots> = int n - 2 ^ 32"
    unfolding signed_of_int of_int_eq_id id_apply by (rule signed_take_bit_int_eq_self) (use assms in simp_all)
  finally show ?thesis .
qed

text \<open>
  A timeout from \<open>2^31\<close> milliseconds (less than 25 days) to \<open>2^32 - 1\<close> is negative as an \<open>int\<close>:
  the handler is called as soon as the timer is added, and the timer is freed.  The header promises 49
  days.
\<close>

theorem long_timeout_called_at_once:
  assumes "2 ^ 31 \<le> unat d" and "unat d < 2 ^ 32" and "opt = 0 \<or> opt = 2"
  shows "\<exists>w'. AddTimer h d x opt n w = Some (None, w') \<and> fired w' = fired w @ [(h, x, w_tick w)] \<and>
    tv w' = tv w \<and> deref (length (store w)) w' = None"
proof -
  let ?t = "\<lparr>t_handle = h, t_expried_time = d + w_tick w, t_data = x, t_timeout = d, t_execu_times = n, t_flag = opt,
    t_next = None, t_pre = None, t_linked_list = None\<rparr>"
  let ?w = "w\<lparr>store := store w @ [Some ?t]\<rparr>"
  have d: "deref (length (store w)) ?w = Some ?t" by (simp add: deref_def)
  have "ticks_left (d + w_tick w) (w_tick w) = sint (word_of_nat (unat d) :: 32 word)" by (simp add: ticks_left_def)
  moreover have "int (unat d) < 2 ^ 32" using assms(2) by (simp only: of_nat_less_numeral_power_cancel_iff)
  ultimately have "ticks_left (d + w_tick w) (w_tick w) \<le> 0" using sint_high [OF assms(1,2)] by linarith
  then have "add_timer (length (store w)) ?w = Some (None, ?w\<lparr>fired := fired w @ [(h, x, w_tick w)],
      store := (store ?w)[length (store w) := None]\<rparr>)"
    using d assms(3) by (subst add_timer.simps) (auto simp: Let_def call_handle_def freeTimer_def)
  moreover have "\<not> d < 1" using assms(1) by (auto simp: word_less_nat_alt)
  ultimately show ?thesis using assms(3) by (auto simp: AddTimer_def Let_def deref_def)
qed

theorem long_timeout_called_at_once_witness:
  "\<exists>w'. AddTimer ''h'' 3000000000 ''x'' 0 0 \<lparr>tv = (\<lambda>_. no_timers), w_tick = 7, store = [], clock = [], fired = []\<rparr> = Some (None, w') \<and>
    fired w' = [(''h'', ''x'', 7)]"
  using long_timeout_called_at_once [of 3000000000 0 "''h''" "''x''" 0
      "\<lparr>tv = (\<lambda>_. no_timers), w_tick = 7, store = [], clock = [], fired = []\<rparr>"] by auto

text \<open>
  After a timer was called, its list in \<open>tv1_\<close> still points to it as its last timer: the next
  timer for the same list is linked behind the freed one.
\<close>

theorem reused_list_uses_freed_timer:
  "do { w \<leftarrow> InitTimeWheel [1000, 1005]; (p, w) \<leftarrow> AddTimer ''h'' 5 ''x'' 0 0 w; w \<leftarrow> Tick w;
        Some (fired w, w_tick w, Option.is_none (AddTimer ''g'' 254 ''y'' 0 0 w), Option.is_none (AddTimer ''g'' 255 ''y'' 0 0 w)) } =
   Some ([(''h'', ''x'', 1005)], 1006, False, True)"
  by code_simp

lemma delete_only_timer_breaks_list:
  assumes "lone w a t l" and "t_linked_list t = Some l" and "deref b w = Some u" and "b \<noteq> a"
  shows "\<exists>w1 w2. DeleteTimerList a w = Some w1 \<and> AddTimerList l b w1 = Some w2 \<and> l_head (tv w2 l) = None"
proof -
  have t: "deref a w = Some t" "t_next t = None" "tv w l = \<lparr>l_head = Some a, l_tail = Some a\<rparr>"
    using assms(1) by (simp_all add: lone_def)
  obtain w1 where w1: "DeleteTimerList a w = Some w1" "tv w1 l = \<lparr>l_head = None, l_tail = Some a\<rparr>"
    "deref a w1 \<noteq> None" "deref b w1 = Some u"
    using t assms(2-4) by (auto simp: DeleteTimerList_def assign_def deref_store Let_def)
  moreover obtain w2 where "AddTimerList l b w1 = Some w2" "l_head (tv w2 l) = None"
    using w1(2-4) assms(4) by (auto simp: AddTimerList_def assign_def deref_store Let_def)
  ultimately show ?thesis by blast
qed

end
