(* ===== verification/Cache.thy ===== *)
theory Cache
  imports Prelude "HOL-Library.AList"
begin

text \<open>
  The interface the two caches share (\<open>LRU_Cache.h\<close>, \<open>LFU_Cache.h\<close>): a bounded map that may forget.
  \<open>inv n s\<close> says that the state is well formed and that \<open>n\<close> more operations are safe, for the
  cache whose counters may overflow.  The lists of the caches are \<open>std::list\<close>s whose iterators
  are kept in the map: a node of such a list has an identity of its own.
\<close>

section \<open>Lists with iterators\<close>

type_synonym 'k node_list = "(nat \<times> 'k) list"

text \<open>\<open>erase(iterator)\<close>; \<open>None\<close> for an iterator that is not into the list.\<close>

definition erase_at :: "nat \<Rightarrow> 'k node_list \<Rightarrow> 'k node_list option" where
  "erase_at it xs = (if it \<in> fst ` set xs then Some (filter (\<lambda>p. fst p \<noteq> it) xs) else None)"

lemma filter_key:
  assumes "distinct (map fst xs)" and "distinct (map snd xs)" and "(it, k) \<in> set xs"
  shows "filter (\<lambda>p. fst p \<noteq> it) xs = filter (\<lambda>p. snd p \<noteq> k) xs"
proof (rule filter_cong)
  fix p assume "p \<in> set xs"
  with assms show "fst p \<noteq> it \<longleftrightarrow> snd p \<noteq> k"
    by (metis (no_types, opaque_lifting) eq_key_imp_eq_value inj_on_eq_iff distinct_map fst_conv prod.collapse snd_conv)
qed simp

text \<open>Two association lists without duplicates and with the same keys have the same length.\<close>

lemma same_keys_length:
  assumes "distinct (map fst xs)" and "distinct (map fst ys)" and "\<forall>k. map_of xs k = None \<longleftrightarrow> map_of ys k = None"
  shows "length xs = length ys"
proof -
  have "fst ` set xs = fst ` set ys" using assms(3) by (auto simp: map_of_eq_None_iff)
  then show ?thesis using distinct_card [OF assms(1)] distinct_card [OF assms(2)] by simp
qed

section \<open>The interface\<close>

datatype ('k, 'v) cache_op = Put 'k 'v | Get 'k

text \<open>The value put last for a key.\<close>

fun last_put :: "'k \<Rightarrow> ('k, 'v) cache_op list \<Rightarrow> 'v option" where
  "last_put k [] = None"
| "last_put k (Put k' v # ops) = (case last_put k ops of None \<Rightarrow> if k = k' then Some v else None | Some w \<Rightarrow> Some w)"
| "last_put k (Get k' # ops) = last_put k ops"

lemma last_put_append:
  "last_put k (xs @ ys) = (case last_put k ys of None \<Rightarrow> last_put k xs | Some w \<Rightarrow> Some w)"
  by (induction k xs rule: last_put.induct) (auto split: option.split)

text \<open>The answers of the gets of a sequence of operations, and the last state.\<close>

fun run_cache :: "('k \<Rightarrow> 'v \<Rightarrow> 's \<Rightarrow> 's option) \<Rightarrow> ('k \<Rightarrow> 's \<Rightarrow> ('v option \<times> 's) option) \<Rightarrow>
    ('k, 'v) cache_op list \<Rightarrow> 's \<Rightarrow> ('v option list \<times> 's) option" where
  "run_cache put get [] s = Some ([], s)"
| "run_cache put get (Put k v # ops) s = do { s \<leftarrow> put k v s; run_cache put get ops s }"
| "run_cache put get (Get k # ops) s = do {
     (a, s) \<leftarrow> get k s;
     (as, s) \<leftarrow> run_cache put get ops s;
     Some (a # as, s) }"

text \<open>An answer is right if it is nothing or the value put last; \<open>before\<close> is what was done already.\<close>

fun right_answers :: "('k, 'v) cache_op list \<Rightarrow> ('k, 'v) cache_op list \<Rightarrow> 'v option list \<Rightarrow> bool" where
  "right_answers before [] as \<longleftrightarrow> as = []"
| "right_answers before (Put k v # ops) as \<longleftrightarrow> right_answers (before @ [Put k v]) ops as"
| "right_answers before (Get k # ops) as \<longleftrightarrow> (case as of [] \<Rightarrow> False
     | a # as \<Rightarrow> (a = None \<or> a = last_put k before) \<and> right_answers (before @ [Get k]) ops as)"

locale cache =
  fixes inv :: "nat \<Rightarrow> 's \<Rightarrow> bool" and content :: "'s \<Rightarrow> 'k \<rightharpoonup> 'v" and capacity :: "'s \<Rightarrow> nat"
    and put :: "'k \<Rightarrow> 'v \<Rightarrow> 's \<Rightarrow> 's option" and get :: "'k \<Rightarrow> 's \<Rightarrow> ('v option \<times> 's) option"
  assumes put_law: "inv (Suc n) s \<Longrightarrow> \<exists>s'. put k v s = Some s' \<and> inv n s' \<and> capacity s' = capacity s \<and>
      content s' k = Some v \<and> content s' \<subseteq>\<^sub>m (content s)(k \<mapsto> v)"
    and get_law: "inv (Suc n) s \<Longrightarrow> \<exists>s'. get k s = Some (content s k, s') \<and> inv n s' \<and> capacity s' = capacity s \<and>
      content s' = content s"
    and bounded: "inv n s \<Longrightarrow> finite (dom (content s)) \<and> card (dom (content s)) \<le> capacity s"
begin

lemma put_then_get:
  assumes "inv (Suc (Suc n)) s"
  shows "\<exists>s1 s2. put k v s = Some s1 \<and> get k s1 = Some (Some v, s2) \<and> inv n s2"
  using put_law [OF assms, of k v] get_law [of n _ k] by fastforce

lemma run_answers:
  assumes "inv (n + length ops) s" and "content s \<subseteq>\<^sub>m (\<lambda>k. last_put k before)"
  shows "\<exists>as s'. run_cache put get ops s = Some (as, s') \<and> inv n s' \<and> capacity s' = capacity s \<and>
    right_answers before ops as \<and> content s' \<subseteq>\<^sub>m (\<lambda>k. last_put k (before @ ops))"
  using assms
proof (induction ops arbitrary: s before)
  case (Cons op ops)
  show ?case
  proof (cases op)
    case (Put k v)
    obtain s1 where s1: "put k v s = Some s1" "inv (n + length ops) s1" "capacity s1 = capacity s"
        "content s1 \<subseteq>\<^sub>m (content s)(k \<mapsto> v)"
      using put_law [of "n + length ops" s k v] Cons.prems(1) by auto
    have "content s1 \<subseteq>\<^sub>m (\<lambda>k. last_put k (before @ [op]))"
      using s1(4) Cons.prems(2) unfolding Put
      by (auto simp: map_le_def last_put_append dom_def split: option.splits if_splits)
    from Cons.IH [OF s1(2) this] s1(1,3) Put show ?thesis by auto
  next
    case (Get k)
    obtain s1 where s1: "get k s = Some (content s k, s1)" "inv (n + length ops) s1" "capacity s1 = capacity s"
        "content s1 = content s"
      using get_law [of "n + length ops" s k] Cons.prems(1) by auto
    have "content s1 \<subseteq>\<^sub>m (\<lambda>k. last_put k (before @ [op]))"
      using s1(4) Cons.prems(2) by (simp add: Get last_put_append)
    from Cons.IH [OF s1(2) this] obtain as s' where "run_cache put get ops s1 = Some (as, s')" "inv n s'"
      "capacity s' = capacity s1" "right_answers (before @ [op]) ops as" "content s' \<subseteq>\<^sub>m (\<lambda>k. last_put k (before @ op # ops))"
      by auto
    moreover have "content s k = None \<or> content s k = last_put k before"
      using Cons.prems(2) by (cases "content s k") (auto simp: map_le_def dom_def)
    ultimately show ?thesis using s1 Get by auto
  qed
qed (simp add: map_le_def)

end

end
