(* ===== verification/LRU_Cache.thy ===== *)
theory LRU_Cache
  imports Cache
begin

text \<open>
  \<open>LRU_Cache.h\<close>: the keys in a list, the one used last in front, and a map from the keys to their
  values and the iterators of their list nodes.  It refines the list of the entries in the order of
  their last use, cut to the capacity.
\<close>

section \<open>The code\<close>

record ('k, 'v) lru =
  m_capacity :: nat
  m_list :: "'k node_list"
  m_map :: "('k \<times> 'v \<times> nat) list"
  fresh :: nat

definition lru_new :: "nat \<Rightarrow> ('k, 'v) lru" where
  "lru_new maxCount = \<lparr>m_capacity = maxCount, m_list = [], m_map = [], fresh = 0\<rparr>"

definition lru_push_front :: "'k \<Rightarrow> ('k, 'v) lru \<Rightarrow> ('k, 'v) lru" where
  "lru_push_front key c = c\<lparr>m_list := (fresh c, key) # m_list c, fresh := fresh c + 1\<rparr>"

definition lru_erase :: "nat \<Rightarrow> ('k, 'v) lru \<Rightarrow> ('k, 'v) lru option" where
  "lru_erase it c = do { xs \<leftarrow> erase_at it (m_list c); Some (c\<lparr>m_list := xs\<rparr>) }"

text \<open>\<open>begin()\<close>; \<open>None\<close> for an empty list, whose \<open>begin()\<close> is not an iterator of a node.\<close>

definition lru_begin :: "('k, 'v) lru \<Rightarrow> nat option" where
  "lru_begin c = (case m_list c of [] \<Rightarrow> None | p # ps \<Rightarrow> Some (fst p))"

definition lru_Contain :: "('k, 'v) lru \<Rightarrow> 'k \<Rightarrow> bool" where
  "lru_Contain c key \<longleftrightarrow> map_of (m_map c) key \<noteq> None"

definition lru_Size :: "('k, 'v) lru \<Rightarrow> nat" where
  "lru_Size c = length (m_map c)"

definition lru_Clear :: "('k, 'v) lru \<Rightarrow> ('k, 'v) lru" where
  "lru_Clear c = c\<lparr>m_list := [], m_map := []\<rparr>"

definition lru_Insert :: "'k \<Rightarrow> 'v \<Rightarrow> ('k, 'v) lru \<Rightarrow> ('k, 'v) lru option" where
  "lru_Insert key val c = do {
     let c = lru_push_front key c;
     it \<leftarrow> lru_begin c;
     Some (c\<lparr>m_map := AList.update key (val, it) (m_map c)\<rparr>) }"

text \<open>With capacity 0 the list is empty when its last element is removed: \<open>--end()\<close> is undefined.\<close>

definition lru_Add :: "'k \<Rightarrow> 'v \<Rightarrow> ('k, 'v) lru \<Rightarrow> ('k, 'v) lru option" where
  "lru_Add key val c =
     (if lru_Contain c key then do {
        (old, it) \<leftarrow> map_of (m_map c) key;
        c \<leftarrow> lru_erase it c;
        let c = lru_push_front key c;
        it \<leftarrow> lru_begin c;
        Some (c\<lparr>m_map := AList.update key (val, it) (m_map c)\<rparr>) }
      else if lru_Size c < m_capacity c then lru_Insert key val c
      else if m_list c = [] then None
      else do {
        let (it, last_key) = last (m_list c);
        let c = c\<lparr>m_map := AList.delete last_key (m_map c)\<rparr>;
        c \<leftarrow> lru_erase it c;
        lru_Insert key val c })"

text \<open>The value and \<open>None\<close> for \<open>false\<close>.\<close>

definition lru_GetVal :: "'k \<Rightarrow> ('k, 'v) lru \<Rightarrow> ('v option \<times> ('k, 'v) lru) option" where
  "lru_GetVal key c =
     (if \<not> lru_Contain c key then Some (None, c)
      else do {
        (val, it) \<leftarrow> map_of (m_map c) key;
        if lru_begin c \<noteq> Some it then do {
          let c = lru_push_front key c;
          c \<leftarrow> lru_erase it c;
          it \<leftarrow> lru_begin c;
          Some (Some val, c\<lparr>m_map := AList.update key (val, it) (m_map c)\<rparr>) }
        else Some (Some val, c) })"

section \<open>The specification\<close>

text \<open>The entries, the one used last in front.\<close>

definition spec_use :: "'k \<Rightarrow> 'v \<Rightarrow> ('k \<times> 'v) list \<Rightarrow> ('k \<times> 'v) list" where
  "spec_use k v ps = (k, v) # filter (\<lambda>p. fst p \<noteq> k) ps"

definition spec_add :: "nat \<Rightarrow> 'k \<Rightarrow> 'v \<Rightarrow> ('k \<times> 'v) list \<Rightarrow> ('k \<times> 'v) list" where
  "spec_add capacity k v ps = take capacity (spec_use k v ps)"

definition spec_get :: "'k \<Rightarrow> ('k \<times> 'v) list \<Rightarrow> 'v option \<times> ('k \<times> 'v) list" where
  "spec_get k ps = (case map_of ps k of None \<Rightarrow> (None, ps) | Some v \<Rightarrow> (Some v, spec_use k v ps))"

definition lru_entries :: "('k, 'v) lru \<Rightarrow> ('k \<times> 'v) list" where
  "lru_entries c = map (\<lambda>p. (snd p, fst (the (map_of (m_map c) (snd p))))) (m_list c)"

text \<open>The list and the map hold the same keys, each once, with the right iterators.\<close>

definition lru_inv :: "('k, 'v) lru \<Rightarrow> bool" where
  "lru_inv c \<longleftrightarrow> 0 < m_capacity c \<and> length (m_list c) \<le> m_capacity c \<and>
     distinct (map fst (m_list c)) \<and> distinct (map snd (m_list c)) \<and> distinct (map fst (m_map c)) \<and>
     (\<forall>p \<in> set (m_list c). fst p < fresh c) \<and> length (m_map c) = length (m_list c) \<and>
     (\<forall>p \<in> set (m_list c). \<exists>v. map_of (m_map c) (snd p) = Some (v, fst p))"

lemma lru_keys:
  assumes "lru_inv c"
  shows "fst ` set (m_map c) = snd ` set (m_list c)"
proof -
  have "snd ` set (m_list c) \<subseteq> fst ` set (m_map c)"
    using assms by (force simp: lru_inv_def dest: map_of_SomeD)
  moreover have "card (snd ` set (m_list c)) = card (fst ` set (m_map c))"
    using distinct_card [of "map snd (m_list c)"] distinct_card [of "map fst (m_map c)"] assms
    unfolding lru_inv_def by simp
  ultimately show ?thesis by (metis List.finite_set card_subset_eq finite_imageI)
qed

lemma lru_node:
  assumes "lru_inv c" and "map_of (m_map c) k = Some (v, it)"
  shows "(it, k) \<in> set (m_list c)"
proof -
  have "k \<in> snd ` set (m_list c)" using lru_keys [OF assms(1)] assms(2) by (force dest: map_of_SomeD)
  then obtain i where i: "(i, k) \<in> set (m_list c)" by auto
  with assms have "map_of (m_map c) k = Some (v, i)" by (fastforce simp: lru_inv_def)
  with i assms(2) show ?thesis by simp
qed

lemma map_of_lru_entries:
  assumes "lru_inv c"
  shows "map_of (lru_entries c) k = map_option fst (map_of (m_map c) k)"
proof (cases "k \<in> snd ` set (m_list c)")
  case True
  then obtain i where i: "(i, k) \<in> set (m_list c)" by auto
  then obtain v where v: "map_of (m_map c) k = Some (v, i)" using assms by (fastforce simp: lru_inv_def)
  have "distinct (map fst (lru_entries c))" using assms by (simp add: lru_entries_def lru_inv_def comp_def)
  moreover have "(k, v) \<in> set (lru_entries c)" using i v by (force simp: lru_entries_def)
  ultimately show ?thesis using v by simp
next
  case False
  then have "map_of (m_map c) k = None" using lru_keys [OF assms] by (simp add: map_of_eq_None_iff)
  moreover have "map_of (lru_entries c) k = None" using False by (force simp: lru_entries_def map_of_eq_None_iff)
  ultimately show ?thesis by simp
qed

text \<open>
  What all operations come to: the nodes of a set of keys are removed, and a key gets a new node
  in front.
\<close>

lemma moved_to_front:
  assumes "lru_inv c" and "P key" and "length (filter (\<lambda>p. \<not> P (snd p)) (m_list c)) < m_capacity c"
    and "distinct (map fst m)" and "\<forall>k. \<not> P k \<longrightarrow> map_of m k = map_of (m_map c) k" and "\<forall>k. P k \<and> k \<noteq> key \<longrightarrow> map_of m k = None"
    and "map_of m key = Some (v, fresh c)"
  defines "d \<equiv> c\<lparr>m_list := (fresh c, key) # filter (\<lambda>p. \<not> P (snd p)) (m_list c), m_map := m, fresh := fresh c + 1\<rparr>"
  shows "lru_inv d" and "lru_entries d = (key, v) # filter (\<lambda>p. \<not> P (fst p)) (lru_entries c)"
proof -
  let ?xs = "filter (\<lambda>p. \<not> P (snd p)) (m_list c)"
  have c: "distinct (map fst (m_list c))" "distinct (map snd (m_list c))" "\<forall>p \<in> set (m_list c). fst p < fresh c"
    "\<forall>p \<in> set (m_list c). \<exists>v. map_of (m_map c) (snd p) = Some (v, fst p)" "0 < m_capacity c"
    using assms(1) unfolding lru_inv_def by blast+
  have d1: "distinct (map fst ?xs)" "distinct (map snd ?xs)" using c(1,2) by (auto simp: distinct_map intro: inj_on_subset)
  have k: "key \<notin> snd ` set ?xs" "fresh c \<notin> fst ` set ?xs" using assms(2) c(3) by auto
  have v: "\<forall>p \<in> set ?xs. \<exists>v. map_of m (snd p) = Some (v, fst p)" using c(4) assms(5) by auto
  have "fst ` set m = insert key (snd ` set ?xs)"
  proof -
    have "k \<in> fst ` set m \<longleftrightarrow> map_of m k \<noteq> None" for k by (simp add: map_of_eq_None_iff)
    moreover have "map_of m k \<noteq> None \<longleftrightarrow> k = key \<or> k \<in> snd ` set ?xs" for k
    proof (cases "P k")
      case True
      then show ?thesis using assms(6,7) by (cases "k = key") auto
    next
      case False
      then have "map_of m k \<noteq> None \<longleftrightarrow> k \<in> snd ` set (m_list c)"
        using assms(5) lru_keys [OF assms(1)] by (simp add: map_of_eq_None_iff)
      with False assms(2) show ?thesis by auto
    qed
    ultimately show ?thesis by blast
  qed
  then have "card (fst ` set m) = Suc (length ?xs)"
    using k(1) distinct_card [OF d1(2)] by (simp del: set_filter)
  then have "length m = Suc (length ?xs)" using distinct_card [OF assms(4)] by simp
  then show "lru_inv d" using assms(3,4,7) c(3,5) d1 k v by (auto simp: lru_inv_def d_def)
  have "map (\<lambda>p. (snd p, fst (the (map_of m (snd p))))) ?xs = filter (\<lambda>p. \<not> P (fst p)) (lru_entries c)"
    using assms(5) by (auto simp: lru_entries_def filter_map comp_def)
  with assms(7) show "lru_entries d = (key, v) # filter (\<lambda>p. \<not> P (fst p)) (lru_entries c)"
    by (simp add: lru_entries_def d_def)
qed

section \<open>The code refines the specification\<close>

lemma lru_begin_push [simp]: "lru_begin (lru_push_front k c) = Some (fresh c)"
  by (simp add: lru_begin_def lru_push_front_def)

lemma lru_contains: "lru_inv c \<Longrightarrow> lru_Contain c k \<longleftrightarrow> k \<in> fst ` set (lru_entries c)"
  by (metis lru_Contain_def map_of_eq_None_iff map_of_lru_entries option.map_disc_iff)

lemma length_lru_entries [simp]: "length (lru_entries c) = length (m_list c)"
  by (simp add: lru_entries_def)

lemma distinct_lru_entries: "lru_inv c \<Longrightarrow> distinct (map fst (lru_entries c))"
  by (simp add: lru_entries_def lru_inv_def comp_def)

lemma lru_new_inv: "0 < n \<Longrightarrow> lru_inv (lru_new n)"
  by (simp add: lru_inv_def lru_new_def)

lemma lru_new_simps [simp]: "lru_entries (lru_new n) = []" "m_capacity (lru_new n) = n"
  by (simp_all add: lru_new_def lru_entries_def)

text \<open>A key that is found is moved to the front, by either order of pushing and erasing.\<close>

lemma erase_of_key:
  assumes "lru_inv c" and "map_of (m_map c) k = Some (v, it)"
  shows "erase_at it (m_list c) = Some (filter (\<lambda>p. snd p \<noteq> k) (m_list c))"
    and "length (filter (\<lambda>p. snd p \<noteq> k) (m_list c)) < length (m_list c)"
proof -
  have m: "(it, k) \<in> set (m_list c)" by (rule lru_node [OF assms])
  then show "erase_at it (m_list c) = Some (filter (\<lambda>p. snd p \<noteq> k) (m_list c))"
    using filter_key [OF _ _ m] assms(1) unfolding lru_inv_def erase_at_def by (metis fst_conv image_eqI)
  show "length (filter (\<lambda>p. snd p \<noteq> k) (m_list c)) < length (m_list c)"
    using m by (auto intro: length_filter_less)
qed

lemma hit_moves_to_front:
  fixes w :: 'v and c :: "('k, 'v) lru"
  assumes "lru_inv c" and "map_of (m_map c) k = Some (v, it)"
  defines "d \<equiv> c\<lparr>m_list := (fresh c, k) # filter (\<lambda>p. snd p \<noteq> k) (m_list c), m_map := AList.update k (w, fresh c) (m_map c),
      fresh := fresh c + 1\<rparr>"
  shows "lru_inv d" and "lru_entries d = spec_use k w (lru_entries c)"
proof -
  have "length (filter (\<lambda>p. \<not> (snd p = k)) (m_list c)) < m_capacity c"
    using erase_of_key(2) [OF assms(1,2)] assms(1) by (simp add: lru_inv_def)
  from moved_to_front [of c "\<lambda>x. x = k" k "AList.update k (w, fresh c) (m_map c)" w, OF assms(1) refl this]
  show "lru_inv d" and "lru_entries d = spec_use k w (lru_entries c)"
    using assms(1) by (simp_all add: d_def spec_use_def lru_inv_def distinct_update update_conv')
qed

lemma filter_last:
  assumes "distinct (map f xs)" and "xs \<noteq> []"
  shows "filter (\<lambda>x. f x \<noteq> f (last xs)) xs = butlast xs"
proof -
  have xs: "xs = butlast xs @ [last xs]" using assms(2) by simp
  then have "f (last xs) \<notin> f ` set (butlast xs)" using assms(1)
    by (metis distinct_append distinct.simps(2) disjoint_iff list.set_intros(1) list.set_map list.simps(9) map_append)
  then have "filter (\<lambda>x. f x \<noteq> f (last xs)) (butlast xs) = butlast xs"
    by (intro filter_True ballI notI) (metis image_eqI)
  with xs show ?thesis by (metis (mono_tags, lifting) append_Nil2 filter.simps filter_append)
qed

lemma lru_add_correct:
  assumes "lru_inv c"
  shows "\<exists>d. lru_Add k v c = Some d \<and> lru_inv d \<and> m_capacity d = m_capacity c \<and>
    lru_entries d = spec_add (m_capacity c) k v (lru_entries c)"
proof -
  let ?upd = "\<lambda>m. AList.update k (v, fresh c) m"
  have c: "distinct (map fst (m_list c))" "distinct (map snd (m_list c))" "distinct (map fst (m_map c))"
    "length (m_list c) \<le> m_capacity c" "length (m_map c) = length (m_list c)" "0 < m_capacity c"
    "\<forall>p \<in> set (m_list c). fst p < fresh c"
    using assms unfolding lru_inv_def by blast+
  show ?thesis
  proof (cases "map_of (m_map c) k")
    case (Some p)
    obtain old it where p: "p = (old, it)" by force
    note m = Some [unfolded p]
    define d where "d = c\<lparr>m_list := (fresh c, k) # filter (\<lambda>p. snd p \<noteq> k) (m_list c), m_map := ?upd (m_map c), fresh := fresh c + 1\<rparr>"
    have run: "lru_Add k v c = Some d"
      using erase_of_key(1) [OF assms m] m by (simp add: lru_Add_def lru_Contain_def lru_erase_def Let_def lru_push_front_def
        lru_begin_def d_def)
    have d: "lru_inv d" "lru_entries d = spec_use k v (lru_entries c)" "m_capacity d = m_capacity c"
      using hit_moves_to_front [OF assms m, of v] by (simp_all add: d_def)
    then have "length (lru_entries d) \<le> m_capacity c" unfolding lru_inv_def by (metis length_lru_entries)
    with d run show ?thesis by (simp add: spec_add_def)
  next
    case None
    then have k: "k \<notin> fst ` set (lru_entries c)" "k \<notin> snd ` set (m_list c)"
      using lru_contains [OF assms, of k] lru_keys [OF assms] by (auto simp: lru_Contain_def map_of_eq_None_iff)
    show ?thesis
    proof (cases "length (m_list c) < m_capacity c")
      case True
      have f: "filter (\<lambda>p. snd p \<noteq> k) (m_list c) = m_list c" "filter (\<lambda>p. fst p \<noteq> k) (lru_entries c) = lru_entries c"
        using k by (auto intro: filter_True)
      define d where "d = c\<lparr>m_list := (fresh c, k) # m_list c, m_map := ?upd (m_map c), fresh := fresh c + 1\<rparr>"
      have run: "lru_Add k v c = Some d"
        using None True c(5) by (simp add: lru_Add_def lru_Contain_def lru_Size_def lru_Insert_def Let_def lru_push_front_def
          lru_begin_def d_def)
      have "lru_inv d" "lru_entries d = (k, v) # lru_entries c" "m_capacity d = m_capacity c"
        using moved_to_front [of c "\<lambda>x. x = k" k "?upd (m_map c)" v] assms c(3) f True
        by (simp_all add: d_def distinct_update update_conv')
      with run show ?thesis using True by (simp add: spec_add_def spec_use_def f(2))
    next
      case False
      then have len: "length (m_list c) = m_capacity c" and ne: "m_list c \<noteq> []" using c(4,6) by auto
      obtain it l where l: "last (m_list c) = (it, l)" by force
      have "l \<noteq> k" using k(2) ne l by (metis image_eqI last_in_set snd_conv)
      have "filter (\<lambda>p. snd p \<noteq> l) (m_list c) = butlast (m_list c)" "filter (\<lambda>p. fst p \<noteq> it) (m_list c) = butlast (m_list c)"
        using filter_last [OF c(2) ne] filter_last [OF c(1) ne] l by simp_all
      moreover have "filter (\<lambda>p. \<not> (snd p = k \<or> snd p = l)) (m_list c) = filter (\<lambda>p. snd p \<noteq> l) (m_list c)"
        using k(2) by (auto intro: filter_cong)
      ultimately have f: "filter (\<lambda>p. \<not> (snd p = k \<or> snd p = l)) (m_list c) = butlast (m_list c)"
        "filter (\<lambda>p. fst p \<noteq> it) (m_list c) = butlast (m_list c)" by simp_all
      have "fst (last (lru_entries c)) = l" using ne l by (simp add: lru_entries_def last_map)
      moreover have "filter (\<lambda>p. \<not> (fst p = k \<or> fst p = l)) (lru_entries c) = filter (\<lambda>p. fst p \<noteq> l) (lru_entries c)"
        using k(1) by (auto intro: filter_cong)
      ultimately have e: "filter (\<lambda>p. \<not> (fst p = k \<or> fst p = l)) (lru_entries c) = butlast (lru_entries c)"
        using filter_last [OF distinct_lru_entries [OF assms]] ne by (simp add: lru_entries_def)
      have u: "filter (\<lambda>p. fst p \<noteq> k) (lru_entries c) = lru_entries c" using k(1) by (auto intro: filter_True)
      have "it \<in> fst ` set (m_list c)" using ne l by (metis fst_conv image_eqI last_in_set)
      then have run: "lru_Add k v c = Some (c\<lparr>m_list := (fresh c, k) # butlast (m_list c),
          m_map := ?upd (AList.delete l (m_map c)), fresh := fresh c + 1\<rparr>)"
        using None False ne f(2) c(5) by (simp add: lru_Add_def lru_Contain_def lru_Size_def lru_Insert_def Let_def lru_push_front_def
          lru_begin_def l lru_erase_def erase_at_def)
      have d: "distinct (map fst (?upd (AList.delete l (m_map c))))" using c(3) by (simp add: distinct_update distinct_delete)
      from moved_to_front [of c "\<lambda>x. x = k \<or> x = l" k "?upd (AList.delete l (m_map c))" v, unfolded f e] assms d len c(6) \<open>l \<noteq> k\<close>
      show ?thesis unfolding run
        by (auto simp: spec_add_def spec_use_def u update_conv' delete_conv' butlast_conv_take take_Cons' simp del: One_nat_def)
    qed
  qed
qed

lemma lru_get_correct:
  assumes "lru_inv c"
  shows "\<exists>a d. lru_GetVal k c = Some (a, d) \<and> lru_inv d \<and> m_capacity d = m_capacity c \<and>
    (a, lru_entries d) = spec_get k (lru_entries c)"
proof (cases "map_of (m_map c) k")
  case None
  then show ?thesis using assms by (simp add: lru_GetVal_def lru_Contain_def spec_get_def map_of_lru_entries)
next
  case (Some p)
  obtain v it where p: "p = (v, it)" by force
  note m = Some [unfolded p]
  note n = lru_node [OF assms m]
  have g: "map_of (lru_entries c) k = Some v" using m map_of_lru_entries [OF assms] by simp
  show ?thesis
  proof (cases "lru_begin c = Some it")
    case True
    then obtain q qs where q: "m_list c = q # qs" "fst q = it" by (auto simp: lru_begin_def split: list.splits)
    have "q = (it, k)" using n q assms unfolding lru_inv_def by (metis eq_key_imp_eq_value list.set_intros(1) prod.collapse)
    then have "k \<notin> snd ` set qs" using assms q unfolding lru_inv_def by simp
    then have "filter (\<lambda>p. fst p \<noteq> k) (map (\<lambda>p. (snd p, fst (the (map_of (m_map c) (snd p))))) qs) =
        map (\<lambda>p. (snd p, fst (the (map_of (m_map c) (snd p))))) qs" by (force simp: filter_id_conv)
    then have "spec_use k v (lru_entries c) = lru_entries c"
      using q \<open>q = (it, k)\<close> m by (simp add: spec_use_def lru_entries_def)
    then show ?thesis using assms m g True by (simp add: lru_GetVal_def lru_Contain_def spec_get_def)
  next
    case False
    have "it \<noteq> fresh c" using n assms unfolding lru_inv_def by fastforce
    then have "erase_at it ((fresh c, k) # m_list c) = Some ((fresh c, k) # filter (\<lambda>p. snd p \<noteq> k) (m_list c))"
      using erase_of_key(1) [OF assms m] by (auto simp: erase_at_def split: if_splits)
    moreover define d where "d = c\<lparr>m_list := (fresh c, k) # filter (\<lambda>p. snd p \<noteq> k) (m_list c),
        m_map := AList.update k (v, fresh c) (m_map c), fresh := fresh c + 1\<rparr>"
    ultimately have "lru_GetVal k c = Some (Some v, d)"
      using m False by (simp add: lru_GetVal_def lru_Contain_def Let_def lru_push_front_def lru_erase_def) (simp add: lru_begin_def)
    moreover have "lru_inv d" "lru_entries d = spec_use k v (lru_entries c)" "m_capacity d = m_capacity c"
      using hit_moves_to_front [OF assms m, of v] by (simp_all add: d_def)
    ultimately show ?thesis using g by (simp add: spec_get_def)
  qed
qed

section \<open>The cache as a bounded map\<close>

lemma map_of_take:
  assumes "distinct (map fst xs)"
  shows "map_of (take n xs) \<subseteq>\<^sub>m map_of xs"
  using assms by (auto simp: map_le_def dom_def dest: map_of_SomeD in_set_takeD)
    (metis map_of_SomeD in_set_takeD map_of_eq_Some_iff)

lemma map_of_filter_neq: "k' \<noteq> k \<Longrightarrow> map_of (filter (\<lambda>p. fst p \<noteq> k) ps) k' = map_of ps k'"
  by (induction ps) auto

lemma map_of_spec_use [simp]: "map_of (spec_use k v ps) = (map_of ps)(k \<mapsto> v)"
  by (rule ext) (simp add: spec_use_def map_of_filter_neq)

lemma distinct_spec_use: "distinct (map fst ps) \<Longrightarrow> distinct (map fst (spec_use k v ps))"
  by (auto simp: spec_use_def distinct_map intro: inj_on_subset)

interpretation lru: cache "\<lambda>n. lru_inv" "\<lambda>c. map_of (lru_entries c)" m_capacity lru_Add lru_GetVal
proof
  fix n k v and s :: "('k, 'v) lru"
  assume s: "lru_inv s"
  obtain d where d: "lru_Add k v s = Some d" "lru_inv d" "m_capacity d = m_capacity s"
      "lru_entries d = spec_add (m_capacity s) k v (lru_entries s)"
    using lru_add_correct [OF s] by blast
  have "map_of (lru_entries d) k = Some v" using d(4) s unfolding lru_inv_def
    by (cases "m_capacity s") (auto simp: spec_add_def spec_use_def)
  moreover have "map_of (lru_entries d) \<subseteq>\<^sub>m (map_of (lru_entries s))(k \<mapsto> v)"
    unfolding d(4) spec_add_def by (metis distinct_lru_entries distinct_spec_use map_of_spec_use map_of_take s)
  ultimately show "\<exists>s'. lru_Add k v s = Some s' \<and> lru_inv s' \<and> m_capacity s' = m_capacity s \<and>
      map_of (lru_entries s') k = Some v \<and> map_of (lru_entries s') \<subseteq>\<^sub>m (map_of (lru_entries s))(k \<mapsto> v)"
    using d by blast
next
  fix n k and s :: "('k, 'v) lru"
  assume "lru_inv s"
  from lru_get_correct [OF this, of k]
  show "\<exists>s'. lru_GetVal k s = Some (map_of (lru_entries s) k, s') \<and> lru_inv s' \<and> m_capacity s' = m_capacity s \<and>
      map_of (lru_entries s') = map_of (lru_entries s)"
    by (auto simp: spec_get_def fun_upd_idem split: option.splits)
next
  fix n and s :: "('k, 'v) lru"
  assume s: "lru_inv s"
  have "dom (map_of (lru_entries s)) = set (map fst (lru_entries s))" by (simp add: dom_map_of_conv_image_fst)
  moreover have "length (lru_entries s) \<le> m_capacity s" using s unfolding lru_inv_def by (metis length_lru_entries)
  ultimately show "finite (dom (map_of (lru_entries s))) \<and> card (dom (map_of (lru_entries s))) \<le> m_capacity s"
    by (metis List.finite_set card_length le_trans length_map)
qed

section \<open>What the cache guarantees\<close>

definition spec_run :: "nat \<Rightarrow> ('k, 'v) cache_op list \<Rightarrow> ('k \<times> 'v) list \<Rightarrow> ('v option list \<times> ('k \<times> 'v) list) option" where
  "spec_run n = run_cache (\<lambda>k v ps. Some (spec_add n k v ps)) (\<lambda>k ps. Some (spec_get k ps))"

lemma lru_run_refines:
  assumes "lru_inv c"
  shows "\<exists>as d. run_cache lru_Add lru_GetVal ops c = Some (as, d) \<and> lru_inv d \<and> m_capacity d = m_capacity c \<and>
    spec_run (m_capacity c) ops (lru_entries c) = Some (as, lru_entries d)"
  using assms
proof (induction ops arbitrary: c)
  case (Cons op ops)
  show ?case
  proof (cases op)
    case (Put k v)
    obtain d where "lru_Add k v c = Some d" "lru_inv d" "m_capacity d = m_capacity c"
        "lru_entries d = spec_add (m_capacity c) k v (lru_entries c)"
      using lru_add_correct [OF Cons.prems] by blast
    then show ?thesis using Cons.IH [of d] Put by (simp add: spec_run_def)
  next
    case (Get k)
    obtain a d where "lru_GetVal k c = Some (a, d)" "lru_inv d" "m_capacity d = m_capacity c"
        "(a, lru_entries d) = spec_get k (lru_entries c)"
      using lru_get_correct [OF Cons.prems, of k] by blast
    then show ?thesis using Cons.IH [of d] Get by (auto simp: spec_run_def simp flip: \<open>(a, lru_entries d) = _\<close>)
  qed
qed (simp add: spec_run_def)

text \<open>
  C34: From a new cache of positive capacity every sequence of Add and GetVal is defined (no iterator into
  a removed node is used), gives the answers of the list of the entries in the order of their last
  use cut to the capacity, and ends in a state that stands for that list.
\<close>

theorem lru_refines_spec:
  assumes "0 < n"
  shows "\<exists>as c. run_cache lru_Add lru_GetVal ops (lru_new n) = Some (as, c) \<and>
    spec_run n ops [] = Some (as, lru_entries c)"
  using lru_run_refines [OF lru_new_inv [OF assms], of ops] by auto

text \<open>
  The cache never holds more entries than its capacity, and every answer of GetVal is the value that
  was added last for the key, or none: no value is lost to another key and none is stale.
\<close>

theorem lru_never_stale:
  assumes "0 < n"
  shows "\<exists>as c. run_cache lru_Add lru_GetVal ops (lru_new n) = Some (as, c) \<and> lru_Size c \<le> n \<and>
    right_answers [] ops as \<and> map_of (lru_entries c) \<subseteq>\<^sub>m (\<lambda>k. last_put k ops)"
proof -
  obtain as c where c: "run_cache lru_Add lru_GetVal ops (lru_new n) = Some (as, c)" "lru_inv c" "m_capacity c = n"
      "right_answers [] ops as" "map_of (lru_entries c) \<subseteq>\<^sub>m (\<lambda>k. last_put k ops)"
    using lru.run_answers [OF lru_new_inv [OF assms], of "[]" ops] by auto
  have "lru_Size c \<le> n" using c(2,3) unfolding lru_inv_def lru_Size_def by simp
  with c show ?thesis by blast
qed

theorem lru_refines_spec_witness:
  "\<exists>as c. run_cache lru_Add lru_GetVal [Put 1 10, Put 2 20, Get 1, Put 3 30, Get 2, Get (1::nat)] (lru_new 2) = Some (as, c) \<and>
    spec_run 2 [Put 1 10, Put 2 20, Get 1, Put 3 30, Get 2, Get 1] [] = Some (as, lru_entries c) \<and>
    as = [Some (10::nat), None, Some 10]"
  using lru_refines_spec [of 2 "[Put 1 10, Put 2 20, Get 1, Put 3 30, Get 2, Get (1::nat)] :: (nat, nat) cache_op list"]
  by (simp add: spec_run_def spec_add_def spec_get_def spec_use_def numeral_2_eq_2)

theorem lru_never_stale_witness:
  "\<exists>as c. run_cache lru_Add lru_GetVal [Put (1::nat) 10, Put 1 (11::nat), Put 2 20, Get 1] (lru_new (Suc 0)) = Some (as, c) \<and>
    lru_Size c \<le> Suc 0 \<and> right_answers [] [Put (1::nat) 10, Put 1 11, Put 2 20, Get 1] as \<and>
    map_of (lru_entries c) \<subseteq>\<^sub>m (\<lambda>k. last_put k [Put 1 10, Put 1 11, Put 2 20, Get 1])"
  using lru_never_stale [of "Suc 0" "[Put (1::nat) 10, Put 1 (11::nat), Put 2 20, Get 1]"] by blast

text \<open>An entry and the keys used since.\<close>

definition recent :: "'k \<Rightarrow> 'v \<Rightarrow> 'k set \<Rightarrow> ('k \<times> 'v) list \<Rightarrow> bool" where
  "recent k v K ps \<longleftrightarrow> distinct (map fst ps) \<and> (\<exists>xs ys. ps = xs @ (k, v) # ys \<and> fst ` set xs \<subseteq> K)"

fun key_of :: "('k, 'v) cache_op \<Rightarrow> 'k" where
  "key_of (Put k v) = k"
| "key_of (Get k) = k"

lemma recent_use:
  assumes "recent k v K ps" and "k' \<noteq> k"
  shows "recent k v (insert k' K) (spec_use k' w ps)"
proof -
  obtain xs ys where ps: "ps = xs @ (k, v) # ys" "fst ` set xs \<subseteq> K" and d: "distinct (map fst ps)"
    using assms(1) unfolding recent_def by blast
  have "spec_use k' w ps = ((k', w) # filter (\<lambda>p. fst p \<noteq> k') xs) @ (k, v) # filter (\<lambda>p. fst p \<noteq> k') ys"
    using ps(1) assms(2) by (simp add: spec_use_def)
  moreover have "fst ` set ((k', w) # filter (\<lambda>p. fst p \<noteq> k') xs) \<subseteq> insert k' K" using ps(2) by auto
  ultimately show ?thesis using distinct_spec_use [OF d] unfolding recent_def by blast
qed

lemma recent_take:
  assumes "recent k v K ps" and "finite K" and "card K < n"
  shows "recent k v K (take n ps)"
proof -
  obtain xs ys where ps: "ps = xs @ (k, v) # ys" "fst ` set xs \<subseteq> K" and d: "distinct (map fst ps)"
    using assms(1) unfolding recent_def by blast
  have "length xs = card (fst ` set xs)" using d ps(1) distinct_card [of "map fst xs"] by simp
  also have "\<dots> \<le> card K" using ps(2) assms(2) by (rule card_mono [rotated])
  finally have "length xs < n" using assms(3) by simp
  then have "take n ps = xs @ (k, v) # take (n - length xs - 1) ys" using ps(1) by (simp add: take_Cons')
  moreover have "distinct (map fst (take n ps))" using d by (simp add: take_map [symmetric])
  ultimately show ?thesis using ps(2) unfolding recent_def by blast
qed

lemma recent_run:
  assumes "recent k v K ps" and "finite K" and "card (K \<union> key_of ` set ops) < n" and "k \<notin> key_of ` set ops"
    and "spec_run n ops ps = Some (as, qs)"
  shows "recent k v (K \<union> key_of ` set ops) qs"
  using assms
proof (induction ops arbitrary: K ps as)
  case (Cons op ops)
  let ?K = "insert (key_of op) K"
  have K: "K \<union> key_of ` set (op # ops) = ?K \<union> key_of ` set ops" by simp
  have "card ?K \<le> card (?K \<union> key_of ` set ops)" using Cons.prems(2) by (intro card_mono) auto
  then have small: "card ?K < n" using Cons.prems(3) K by simp
  have k: "key_of op \<noteq> k" using Cons.prems(4) by auto
  note used = recent_use [OF Cons.prems(1) k]
  obtain ps' as' where next_state: "spec_run n ops ps' = Some (as', qs)" "recent k v ?K ps'"
  proof (cases op)
    case (Put k' w)
    then show ?thesis using that Cons.prems(2,5) recent_take [OF used _ small, of w]
      by (simp add: spec_run_def spec_add_def)
  next
    case (Get k')
    have keep: "recent k v ?K ps" using Cons.prems(1) unfolding recent_def by blast
    obtain a ps' where g: "spec_get k' ps = (a, ps')" by force
    then have "recent k v ?K ps'" using keep used Get by (auto simp: spec_get_def split: option.splits)
    then show ?thesis using that Cons.prems(5) Get g by (cases "spec_run n ops ps'") (auto simp: spec_run_def)
  qed
  from Cons.IH [OF next_state(2) _ _ _ next_state(1)] show ?case using Cons.prems(2-4) K by auto
qed (simp add: spec_run_def)

text \<open>
  An entry that was added is still found, with its value, after any sequence of operations on other
  keys, as long as these are fewer than the capacity: only the least recently used entry goes.
\<close>

theorem lru_keeps_recent:
  assumes "lru_inv c" and "k \<notin> key_of ` set ops" and "card (key_of ` set ops) < m_capacity c"
  shows "\<exists>c1 as c2 c3. lru_Add k v c = Some c1 \<and> run_cache lru_Add lru_GetVal ops c1 = Some (as, c2) \<and>
    lru_GetVal k c2 = Some (Some v, c3)"
proof -
  let ?n = "m_capacity c"
  obtain c1 where c1: "lru_Add k v c = Some c1" "lru_inv c1" "m_capacity c1 = ?n"
      "lru_entries c1 = spec_add ?n k v (lru_entries c)"
    using lru_add_correct [OF assms(1)] by blast
  obtain as c2 where c2: "run_cache lru_Add lru_GetVal ops c1 = Some (as, c2)" "lru_inv c2"
      "spec_run ?n ops (lru_entries c1) = Some (as, lru_entries c2)"
    using lru_run_refines [OF c1(2), of ops] c1(3) by auto
  have "0 < ?n" using assms(1) unfolding lru_inv_def by blast
  then have "lru_entries c1 = [] @ (k, v) # take (?n - 1) (filter (\<lambda>p. fst p \<noteq> k) (lru_entries c))"
    using c1(4) by (simp add: spec_add_def spec_use_def take_Cons')
  then have "recent k v {} (lru_entries c1)" using distinct_lru_entries [OF c1(2)] unfolding recent_def by fastforce
  from recent_run [OF this _ _ assms(2) c2(3)] assms(3) have "recent k v (key_of ` set ops) (lru_entries c2)" by simp
  then have "map_of (lru_entries c2) k = Some v" unfolding recent_def by (auto simp: map_add_Some_iff map_of_eq_None_iff)
  then show ?thesis using c1(1) c2(1) lru.get_law [of c2 k] c2(2) by fastforce
qed

theorem lru_keeps_recent_witness:
  "\<exists>c1 as c2 c3. lru_Add (7::nat) (70::nat) (lru_new 4) = Some c1 \<and>
    run_cache lru_Add lru_GetVal [Put 1 10, Put 2 20, Get 3, Put 1 11] c1 = Some (as, c2) \<and> lru_GetVal 7 c2 = Some (Some 70, c3)"
  by (rule lru_keeps_recent) (simp_all add: lru_new_inv card_insert_if)

text \<open>With capacity 0 the first \<open>Add\<close> takes the element before the end of an empty list.\<close>

lemma lru_capacity_zero: "lru_Add k v (lru_new 0) = None"
  by (simp add: lru_Add_def lru_new_def lru_Contain_def lru_Size_def)

end
