(* ===== verification/LFU_Cache.thy ===== *)
theory LFU_Cache
  imports Cache
begin

text \<open>
  \<open>LFU_Cache.h\<close>: a map from the keys to their values, frequencies and iterators, a list of keys for
  each frequency, and the least frequency.  It refines the list of the entries in the order in which
  they got their frequencies; the first of those with the least frequency is the one that goes.
\<close>

section \<open>The code\<close>

record ('k, 'v) val_node =
  m_freq :: int
  m_iterator :: nat
  m_val :: 'v

text \<open>\<open>m_minFreq\<close> is not initialised by the constructor.\<close>

record ('k, 'v) lfu =
  lfu_capacity :: nat
  m_minFreq :: "int option"
  m_contains :: "('k \<times> ('k, 'v) val_node) list"
  m_freq2Key :: "int \<Rightarrow> 'k node_list"
  lfu_fresh :: nat

definition lfu_new :: "nat \<Rightarrow> ('k, 'v) lfu" where
  "lfu_new maxsize = \<lparr>lfu_capacity = maxsize, m_minFreq = None, m_contains = [], m_freq2Key = (\<lambda>_. []), lfu_fresh = 0\<rparr>"

text \<open>\<open>push_back\<close> and the iterator of the new node, \<open>--end()\<close>.\<close>

definition lfu_push_back :: "int \<Rightarrow> 'k \<Rightarrow> ('k, 'v) lfu \<Rightarrow> ('k, 'v) lfu" where
  "lfu_push_back freq key c = c\<lparr>m_freq2Key := (m_freq2Key c)(freq := m_freq2Key c freq @ [(lfu_fresh c, key)]), lfu_fresh := lfu_fresh c + 1\<rparr>"

definition lfu_last :: "int \<Rightarrow> ('k, 'v) lfu \<Rightarrow> nat option" where
  "lfu_last freq c = (if m_freq2Key c freq = [] then None else Some (fst (last (m_freq2Key c freq))))"

text \<open>\<open>increaseFreq\<close>, which is called only for a key that is there.\<close>

definition lfu_increaseFreq :: "'k \<Rightarrow> ('k, 'v) lfu \<Rightarrow> ('k, 'v) lfu option" where
  "lfu_increaseFreq key c = do {
     node \<leftarrow> map_of (m_contains c) key;
     let freq = m_freq node;
     keys \<leftarrow> erase_at (m_iterator node) (m_freq2Key c freq);
     let c = c\<lparr>m_freq2Key := (m_freq2Key c)(freq := keys)\<rparr>;
     c \<leftarrow> (if m_freq2Key c freq = [] then do {
             least \<leftarrow> m_minFreq c;
             if freq = least then do { least \<leftarrow> cint (least + 1); Some (c\<lparr>m_minFreq := Some least\<rparr>) }
             else Some c }
           else Some c);
     higher \<leftarrow> cint (freq + 1);
     let c = lfu_push_back higher key c;
     it \<leftarrow> lfu_last higher c;
     Some (c\<lparr>m_contains := AList.update key (node\<lparr>m_freq := higher, m_iterator := it\<rparr>) (m_contains c)\<rparr>) }"

definition lfu_removeMinFre :: "('k, 'v) lfu \<Rightarrow> ('k, 'v) lfu option" where
  "lfu_removeMinFre c = do {
     least \<leftarrow> m_minFreq c;
     (case m_freq2Key c least of [] \<Rightarrow> None
      | (it, key) # keys \<Rightarrow>
          Some (c\<lparr>m_contains := AList.delete key (m_contains c), m_freq2Key := (m_freq2Key c)(least := keys)\<rparr>)) }"

definition lfu_get :: "'k \<Rightarrow> ('k, 'v) lfu \<Rightarrow> ('v option \<times> ('k, 'v) lfu) option" where
  "lfu_get key c =
     (if map_of (m_contains c) key = None then Some (None, c)
      else do {
        c \<leftarrow> lfu_increaseFreq key c;
        node \<leftarrow> map_of (m_contains c) key;
        Some (Some (m_val node), c) })"

definition lfu_put :: "'k \<Rightarrow> 'v \<Rightarrow> ('k, 'v) lfu \<Rightarrow> ('k, 'v) lfu option" where
  "lfu_put key val c =
     (case map_of (m_contains c) key of
        Some node \<Rightarrow> lfu_increaseFreq key (c\<lparr>m_contains := AList.update key (node\<lparr>m_val := val\<rparr>) (m_contains c)\<rparr>)
      | None \<Rightarrow> do {
          c \<leftarrow> (if lfu_capacity c \<le> length (m_contains c) then lfu_removeMinFre c else Some c);
          let c = lfu_push_back 1 key (c\<lparr>m_minFreq := Some 1\<rparr>);
          it \<leftarrow> lfu_last 1 c;
          Some (c\<lparr>m_contains := AList.update key \<lparr>m_freq = 1, m_iterator = it, m_val = val\<rparr> (m_contains c)\<rparr>) })"

section \<open>The specification\<close>

text \<open>
  The entries \<open>(key, value, frequency)\<close> in the order of their last use.
\<close>

type_synonym ('k, 'v) counted = "('k \<times> 'v \<times> int) list"

definition others :: "'k \<Rightarrow> ('k \<times> 'x) list \<Rightarrow> ('k \<times> 'x) list" where
  "others k ps = filter (\<lambda>p. fst p \<noteq> k) ps"

definition least_used :: "('k, 'v) counted \<Rightarrow> ('k \<times> 'v \<times> int) option" where
  "least_used ps = find (\<lambda>p. \<forall>q \<in> set ps. snd (snd p) \<le> snd (snd q)) ps"

definition counted_get :: "'k \<Rightarrow> ('k, 'v) counted \<Rightarrow> 'v option \<times> ('k, 'v) counted" where
  "counted_get k ps = (case map_of ps k of None \<Rightarrow> (None, ps) | Some (v, q) \<Rightarrow> (Some v, others k ps @ [(k, v, q + 1)]))"

definition counted_put :: "nat \<Rightarrow> 'k \<Rightarrow> 'v \<Rightarrow> ('k, 'v) counted \<Rightarrow> ('k, 'v) counted" where
  "counted_put n k v ps = (case map_of ps k of
      Some (old, q) \<Rightarrow> others k ps @ [(k, v, q + 1)]
    | None \<Rightarrow> (if n \<le> length ps then (case least_used ps of None \<Rightarrow> [] | Some p \<Rightarrow> others (fst p) ps) else ps) @ [(k, v, 1)])"

text \<open>The cache stands for a list of entries.\<close>

definition lfu_lists :: "(int \<Rightarrow> 'k node_list) \<Rightarrow> nat \<Rightarrow> ('k, 'v) counted \<Rightarrow> bool" where
  "lfu_lists f new ps \<longleftrightarrow> (\<forall>i. map snd (f i) = map fst (filter (\<lambda>p. snd (snd p) = i) ps) \<and>
     distinct (map fst (f i)) \<and> (\<forall>p \<in> set (f i). fst p < new))"

definition lfu_nodes :: "('k \<times> ('k, 'v) val_node) list \<Rightarrow> (int \<Rightarrow> 'k node_list) \<Rightarrow> ('k, 'v) counted \<Rightarrow> bool" where
  "lfu_nodes m f ps \<longleftrightarrow> distinct (map fst m) \<and>
     (\<forall>k. map_option (\<lambda>x. (m_val x, m_freq x)) (map_of m k) = map_of ps k) \<and>
     (\<forall>k x. map_of m k = Some x \<longrightarrow> (m_iterator x, k) \<in> set (f (m_freq x)))"

definition least_is :: "int option \<Rightarrow> ('k, 'v) counted \<Rightarrow> bool" where
  "least_is l ps \<longleftrightarrow> ps \<noteq> [] \<longrightarrow> (\<exists>i. l = Some i \<and> (\<exists>p \<in> set ps. snd (snd p) = i) \<and> (\<forall>p \<in> set ps. i \<le> snd (snd p)))"

definition lfu_stands_for :: "('k, 'v) lfu \<Rightarrow> ('k, 'v) counted \<Rightarrow> bool" where
  "lfu_stands_for c ps \<longleftrightarrow> 0 < lfu_capacity c \<and> length ps \<le> lfu_capacity c \<and> distinct (map fst ps) \<and>
     lfu_lists (m_freq2Key c) (lfu_fresh c) ps \<and> lfu_nodes (m_contains c) (m_freq2Key c) ps \<and> least_is (m_minFreq c) ps"

section \<open>The code refines the specification\<close>

lemma others_simps [simp]:
  "others k [] = []" "others k (ps @ qs) = others k ps @ others k qs" "set (others k ps) = {p \<in> set ps. fst p \<noteq> k}"
  "length (others k ps) \<le> length ps"
  by (simp_all add: others_def)

lemma others_same: "k \<notin> fst ` set ps \<Longrightarrow> others k ps = ps"
  unfolding others_def by (intro filter_True ballI notI) (metis image_eqI)

lemma distinct_others: "distinct (map fst ps) \<Longrightarrow> distinct (map fst (others k ps))"
  by (simp add: others_def distinct_map_filter)

lemma map_of_others: "map_of (others k ps) = (map_of ps)(k := None)"
  by (rule ext, induction ps) (auto simp: others_def)

lemma length_others_less: "map_of ps k = Some x \<Longrightarrow> length (others k ps) < length ps"
  unfolding others_def by (auto dest!: map_of_SomeD intro: length_filter_less)

lemma lists_of_freq:
  assumes "lfu_lists f new ps" and "distinct (map fst ps)" and "map_of ps k = Some (v, q)"
  shows "distinct (map snd (f i))" and "k \<in> snd ` set (f i) \<longleftrightarrow> i = q"
proof -
  have f: "map snd (f i) = map fst (filter (\<lambda>p. snd (snd p) = i) ps)" using assms(1) unfolding lfu_lists_def by blast
  show "distinct (map snd (f i))" unfolding f using assms(2) by (rule distinct_map_filter)
  have "k \<in> snd ` set (f i) \<longleftrightarrow> k \<in> fst ` set (filter (\<lambda>p. snd (snd p) = i) ps)" using f by (metis list.set_map)
  also have "\<dots> \<longleftrightarrow> (\<exists>v. (k, v, i) \<in> set ps)" by force
  also have "\<dots> \<longleftrightarrow> (\<exists>v. map_of ps k = Some (v, i))" using map_of_eq_Some_iff [OF assms(2)] by metis
  finally show "k \<in> snd ` set (f i) \<longleftrightarrow> i = q" using assms(3) by auto
qed

lemma lists_remove:
  assumes "lfu_lists f new ps" and "distinct (map fst ps)" and "map_of ps k = Some (v, q)" and "(it, k) \<in> set (f q)"
  shows "erase_at it (f q) = Some (filter (\<lambda>p. snd p \<noteq> k) (f q))"
    and "lfu_lists (f(q := filter (\<lambda>p. snd p \<noteq> k) (f q))) new (others k ps)"
proof -
  have f: "map snd (f i) = map fst (filter (\<lambda>p. snd (snd p) = i) ps)" "distinct (map fst (f i))"
    "\<forall>p \<in> set (f i). fst p < new" for i using assms(1) unfolding lfu_lists_def by blast+
  show "erase_at it (f q) = Some (filter (\<lambda>p. snd p \<noteq> k) (f q))"
    using filter_key [OF f(2) lists_of_freq(1) [OF assms(1-3)] assms(4)] assms(4) by (force simp: erase_at_def)
  have "map snd (filter (\<lambda>p. snd p \<noteq> k) (f q)) = filter (\<lambda>x. x \<noteq> k) (map snd (f q))" by (simp add: filter_map comp_def)
  also have "\<dots> = map fst (filter (\<lambda>p. snd (snd p) = q) (others k ps))"
    unfolding f(1) others_def by (simp add: filter_map comp_def conj_commute)
  finally have fq: "map snd (filter (\<lambda>p. snd p \<noteq> k) (f q)) = map fst (filter (\<lambda>p. snd (snd p) = q) (others k ps))" .
  have "filter (\<lambda>p. snd (snd p) = i) (others k ps) = filter (\<lambda>p. snd (snd p) = i) ps" if "i \<noteq> q" for i
    unfolding others_def filter_filter
    by (rule filter_cong) (use that assms(2,3) in \<open>auto dest: eq_key_imp_eq_value\<close>)
  with fq f show "lfu_lists (f(q := filter (\<lambda>p. snd p \<noteq> k) (f q))) new (others k ps)"
    by (auto simp: lfu_lists_def distinct_map_filter) fastforce
qed

lemma lists_push:
  assumes "lfu_lists f new ps"
  shows "lfu_lists (f(q := f q @ [(new, k)])) (new + 1) (ps @ [(k, v, q)])"
  using assms by (force simp: lfu_lists_def)

lemma nodes_remove:
  assumes "lfu_nodes m f ps" and "map_of ps k = Some (v, q)"
  shows "lfu_nodes (AList.delete k m) (f(q := filter (\<lambda>p. snd p \<noteq> k) (f q))) (others k ps)"
  using assms by (auto simp: lfu_nodes_def distinct_delete delete_conv' map_of_others)

lemma nodes_push:
  assumes "lfu_nodes m f (others k ps)" and "m_freq x = q" "m_iterator x = new" "m_val x = v" and "k \<notin> fst ` set m"
  shows "lfu_nodes (AList.update k x m) (f(q := f q @ [(new, k)])) (others k ps @ [(k, v, q)])"
  using assms by (auto simp: lfu_nodes_def distinct_update update_conv' map_of_others map_add_def split: option.splits) metis

lemma nodes_cong:
  assumes "lfu_nodes m f ps" and "map_of m' = map_of m" and "distinct (map fst m')"
  shows "lfu_nodes m' f ps"
  using assms by (simp add: lfu_nodes_def)

lemma least_isI: "p \<in> set ps \<Longrightarrow> snd (snd p) = l \<Longrightarrow> \<forall>p \<in> set ps. l \<le> snd (snd p) \<Longrightarrow> least_is (Some l) ps"
  unfolding least_is_def by blast

lemma least_after_use:
  assumes "least_is (Some l) ps" and "map_of ps k = Some (v, q)" and "distinct (map fst ps)"
  shows "least_is (Some (if \<forall>p \<in> set (others k ps). snd (snd p) \<noteq> q then if q = l then l + 1 else l else l)) (others k ps @ [(k, w, q + 1)])"
proof -
  have k: "(k, v, q) \<in> set ps" using assms(2) by (rule map_of_SomeD)
  then obtain p where p: "p \<in> set ps" "snd (snd p) = l" and l: "\<forall>p \<in> set ps. l \<le> snd (snd p)"
    using assms(1) unfolding least_is_def by force
  have lq: "l \<le> q" using l k by force
  have other: "fst p \<noteq> k" if "q \<noteq> l"
    using eq_key_imp_eq_value [OF assms(3) k] p that by (metis prod.collapse snd_conv)
  have le: "\<forall>p \<in> set (others k ps @ [(k, w, q + 1)]). l \<le> snd (snd p)" using l lq by auto
  show ?thesis
  proof (cases "\<forall>p \<in> set (others k ps). snd (snd p) \<noteq> q")
    case True
    show ?thesis
    proof (cases "q = l")
      case eq: True
      have "\<forall>p \<in> set (others k ps). l + 1 \<le> snd (snd p)" using True l eq by force
      then have "\<forall>p \<in> set (others k ps @ [(k, w, q + 1)]). l + 1 \<le> snd (snd p)" using eq by auto
      then have "least_is (Some (l + 1)) (others k ps @ [(k, w, q + 1)])"
        using eq by (intro least_isI [of "(k, w, q + 1)"]) auto
      with True eq show ?thesis by simp
    next
      case False
      then have "least_is (Some l) (others k ps @ [(k, w, q + 1)])" using other p le by (intro least_isI [of p]) auto
      with False show ?thesis by simp
    qed
  next
    case False
    then obtain r where r: "r \<in> set (others k ps)" "snd (snd r) = q" by blast
    have "least_is (Some l) (others k ps @ [(k, w, q + 1)])"
    proof (cases "q = l")
      case True
      then show ?thesis using r le by (intro least_isI [of r]) auto
    next
      case False
      then show ?thesis using other p le by (intro least_isI [of p]) auto
    qed
    with False show ?thesis by (simp only: if_False)
  qed
qed

text \<open>The value of a key replaced, its position and frequency unchanged.\<close>

definition set_value :: "'k \<Rightarrow> 'v \<Rightarrow> ('k, 'v) counted \<Rightarrow> ('k, 'v) counted" where
  "set_value k v ps = map (\<lambda>p. if fst p = k then (k, v, snd (snd p)) else p) ps"

lemma set_value_simps:
  "map fst (set_value k v ps) = map fst ps" "others k (set_value k v ps) = others k ps"
  "length (set_value k v ps) = length ps" "snd ` snd ` set (set_value k v ps) = snd ` snd ` set ps"
  "map fst (filter (\<lambda>p. snd (snd p) = i) (set_value k v ps)) = map fst (filter (\<lambda>p. snd (snd p) = i) ps)"
  "map_of (set_value k v ps) k' = (if k' = k then map_option (\<lambda>x. (v, snd x)) (map_of ps k) else map_of ps k')"
  by (induction ps; force simp: set_value_def others_def)+

lemma least_is_freqs:
  "least_is l ps \<longleftrightarrow> (ps \<noteq> [] \<longrightarrow> (\<exists>i. l = Some i \<and> i \<in> set (map (snd \<circ> snd) ps) \<and> (\<forall>j \<in> set (map (snd \<circ> snd) ps). i \<le> j)))"
  by (auto simp: least_is_def)

lemma least_set_value: "least_is l (set_value k v ps) = least_is l ps"
proof -
  have "map (snd \<circ> snd) (set_value k v ps) = map (snd \<circ> snd) ps" "set_value k v ps = [] \<longleftrightarrow> ps = []"
    by (auto simp: set_value_def)
  then show ?thesis by (simp only: least_is_freqs)
qed

lemma stands_for_set_value:
  assumes "lfu_stands_for c ps" and "map_of (m_contains c) k = Some node"
  shows "lfu_stands_for (c\<lparr>m_contains := AList.update k (node\<lparr>m_val := v\<rparr>) (m_contains c)\<rparr>) (set_value k v ps)"
proof -
  have n: "lfu_nodes (m_contains c) (m_freq2Key c) ps" using assms(1) unfolding lfu_stands_for_def by blast
  then have k: "map_of ps k = Some (m_val node, m_freq node)"
    using assms(2) unfolding lfu_nodes_def by (metis (mono_tags, lifting) option.map(2))
  have "lfu_nodes (AList.update k (node\<lparr>m_val := v\<rparr>) (m_contains c)) (m_freq2Key c) (set_value k v ps)"
    using n assms(2) k by (auto simp: lfu_nodes_def distinct_update update_conv' set_value_simps)
  then show ?thesis using assms(1)
    by (simp add: lfu_stands_for_def set_value_simps lfu_lists_def least_set_value)
qed

lemma increaseFreq_correct:
  assumes "lfu_stands_for c ps" and "map_of ps k = Some (v, q)" and "1 \<le> q" and "q < INT_MAX"
  shows "\<exists>d. lfu_increaseFreq k c = Some d \<and> lfu_capacity d = lfu_capacity c \<and> lfu_stands_for d (others k ps @ [(k, v, q + 1)])"
proof -
  let ?f = "m_freq2Key c" and ?m = "m_contains c" and ?qs = "others k ps @ [(k, v, q + 1)]"
  have c: "length ps \<le> lfu_capacity c" "0 < lfu_capacity c" and dist: "distinct (map fst ps)" and lists: "lfu_lists ?f (lfu_fresh c) ps"
    and nodes: "lfu_nodes ?m ?f ps" and least: "least_is (m_minFreq c) ps"
    using assms(1) unfolding lfu_stands_for_def by blast+
  obtain x where x: "map_of ?m k = Some x" "m_val x = v" "m_freq x = q" "(m_iterator x, k) \<in> set (?f q)"
  proof -
    have "map_option (\<lambda>x. (m_val x, m_freq x)) (map_of ?m k) = Some (v, q)" using nodes assms(2) unfolding lfu_nodes_def by metis
    then obtain x where "map_of ?m k = Some x" "m_val x = v" "m_freq x = q" by auto
    moreover from this have "(m_iterator x, k) \<in> set (?f q)" using nodes unfolding lfu_nodes_def by blast
    ultimately show ?thesis by (rule that)
  qed
  let ?g = "?f(q := filter (\<lambda>p. snd p \<noteq> k) (?f q))"
  note e = lists_remove [OF lists dist assms(2) x(4)]
  obtain l where l: "m_minFreq c = Some l" "l \<le> q" using least assms(2) by (force simp: least_is_def dest: map_of_SomeD)
  let ?l = "if ?g q = [] then if q = l then l + 1 else l else l"
  let ?h = "?g(q + 1 := ?g (q + 1) @ [(lfu_fresh c, k)])"
  let ?y = "x\<lparr>m_freq := q + 1, m_iterator := lfu_fresh c\<rparr>"
  define d where "d = c\<lparr>m_minFreq := Some ?l, m_freq2Key := ?h, lfu_fresh := lfu_fresh c + 1, m_contains := AList.update k ?y ?m\<rparr>"
  have "cint (q + 1) = Some (q + 1)" using assms(3,4) by (simp add: cint_def int_limits)
  then have run: "lfu_increaseFreq k c = Some d"
    using x l e(1) by (cases "q = l") (simp_all add: lfu_increaseFreq_def d_def lfu_push_back_def lfu_last_def Let_def)
  have "map snd (?g q) = map fst (filter (\<lambda>p. snd (snd p) = q) (others k ps))" using e(2) [unfolded lfu_lists_def, THEN spec, of q] by simp
  then have empty: "?g q = [] \<longleftrightarrow> (\<forall>p \<in> set (others k ps). snd (snd p) \<noteq> q)"
    by (metis (mono_tags, lifting) filter_empty_conv map_is_Nil_conv)
  have "length ?qs \<le> length ps" using length_others_less [OF assms(2)] by simp
  moreover have "distinct (map fst ?qs)" using distinct_others [OF dist] by auto
  moreover have "lfu_lists ?h (lfu_fresh c + 1) ?qs" by (rule lists_push [OF e(2)])
  moreover have "lfu_nodes (AList.update k ?y (AList.delete k ?m)) ?h ?qs"
    by (rule nodes_push [OF nodes_remove [OF nodes assms(2)] _ _ _ delete_notin_dom]) (simp_all add: x(2))
  then have "lfu_nodes (AList.update k ?y ?m) ?h ?qs"
    by (rule nodes_cong) (use nodes in \<open>simp_all add: update_conv' delete_conv' distinct_update lfu_nodes_def\<close>)
  moreover have "least_is (Some ?l) ?qs" unfolding empty using least_after_use [OF _ assms(2) dist] least l by simp
  ultimately have "lfu_stands_for d ?qs" using c by (simp add: lfu_stands_for_def d_def)
  with run show ?thesis by (simp add: d_def)
qed

lemma find_least_used:
  assumes "ps \<noteq> []"
  obtains p where "least_used ps = Some p" "p \<in> set ps" "\<forall>q \<in> set ps. snd (snd p) \<le> snd (snd q)"
    and "\<And>l. least_is (Some l) ps \<Longrightarrow> \<exists>rest. filter (\<lambda>p. snd (snd p) = l) ps = p # rest"
proof -
  let ?P = "\<lambda>p. \<forall>q \<in> set ps. snd (snd p) \<le> snd (snd q)"
  have "Min ((\<lambda>p. snd (snd p)) ` set ps) \<in> (\<lambda>p. snd (snd p)) ` set ps" using assms by (intro Min_in) auto
  then obtain r where "r \<in> set ps" "snd (snd r) = Min ((\<lambda>p. snd (snd p)) ` set ps)" by force
  then have "?P r" by simp
  with \<open>r \<in> set ps\<close> have "find ?P ps \<noteq> None" unfolding find_None_iff by blast
  then obtain p where p: "least_used ps = Some p" unfolding least_used_def by blast
  then obtain i where i: "i < length ps" "?P (ps ! i)" "p = ps ! i" "\<forall>j < i. \<not> ?P (ps ! j)"
    using p unfolding least_used_def find_Some_iff by blast
  have "\<exists>rest. filter (\<lambda>p. snd (snd p) = l) ps = p # rest" if l: "least_is (Some l) ps" for l
  proof -
    have "snd (snd p) = l" 
    proof -
      from l assms obtain r where "r \<in> set ps" "snd (snd r) = l" "\<forall>q \<in> set ps. l \<le> snd (snd q)" unfolding least_is_def by auto
      with i(1-3) show ?thesis by (metis nth_mem order_antisym)
    qed
    moreover have "filter (\<lambda>p. snd (snd p) = l) (take i ps) = []"
    proof (rule ccontr)
      assume "filter (\<lambda>p. snd (snd p) = l) (take i ps) \<noteq> []"
      then obtain r where "r \<in> set (take i ps)" "snd (snd r) = l" by (auto simp: filter_empty_conv)
      then obtain j where "j < i" "snd (snd (ps ! j)) = l" using i(1) by (auto simp: in_set_conv_nth)
      then have "?P (ps ! j)" using i(2,3) \<open>snd (snd p) = l\<close> by simp
      with i(4) \<open>j < i\<close> show False by blast
    qed
    moreover have "filter (\<lambda>p. snd (snd p) = l) ps = filter (\<lambda>p. snd (snd p) = l) (take i ps @ p # drop (Suc i) ps)"
      using id_take_nth_drop [OF i(1)] i(3) by simp
    ultimately show ?thesis by simp
  qed
  moreover have "p \<in> set ps" "?P p" using i(1-3) by auto
  ultimately show ?thesis using that [OF p] by blast
qed

lemma lfu_new_stands_for: "0 < n \<Longrightarrow> lfu_stands_for (lfu_new n) []"
  by (simp add: lfu_stands_for_def lfu_new_def lfu_lists_def lfu_nodes_def least_is_def)

text \<open>The frequencies are positive, and \<open>n\<close> more uses keep them an \<open>int\<close>.\<close>

definition counts_ok :: "nat \<Rightarrow> ('k, 'v) counted \<Rightarrow> bool" where
  "counts_ok n ps \<longleftrightarrow> int n < INT_MAX \<and> (\<forall>p \<in> set ps. 1 \<le> snd (snd p) \<and> snd (snd p) + int n \<le> INT_MAX)"

lemma lfu_get_correct:
  assumes "lfu_stands_for c ps" and "counts_ok (Suc n) ps"
  shows "\<exists>a d qs. lfu_get k c = Some (a, d) \<and> lfu_capacity d = lfu_capacity c \<and> lfu_stands_for d qs \<and>
    counts_ok n qs \<and> counted_get k ps = (a, qs)"
proof (cases "map_of ps k")
  case None
  then have "map_of (m_contains c) k = None" using assms(1) unfolding lfu_stands_for_def lfu_nodes_def by (metis option.map_disc_iff)
  with None assms show ?thesis by (auto simp: lfu_get_def counted_get_def counts_ok_def)
next
  case (Some x)
  obtain v q where x: "x = (v, q)" by force
  note k = Some [unfolded x]
  have q: "1 \<le> q" "q + int (Suc n) \<le> INT_MAX" using assms(2) map_of_SomeD [OF k] unfolding counts_ok_def by force+
  then obtain d where d: "lfu_increaseFreq k c = Some d" "lfu_capacity d = lfu_capacity c" "lfu_stands_for d (others k ps @ [(k, v, q + 1)])"
    using increaseFreq_correct [OF assms(1) k] by auto
  have "map_of (m_contains c) k \<noteq> None" using assms(1) k unfolding lfu_stands_for_def lfu_nodes_def by (metis option.map(1) option.distinct(1))
  moreover have "map_of (others k ps @ [(k, v, q + 1)]) k = Some (v, q + 1)" by (simp add: map_of_others map_add_def)
  then obtain y where "map_of (m_contains d) k = Some y" "m_val y = v" using d(3) unfolding lfu_stands_for_def lfu_nodes_def
    by (metis (no_types, lifting) map_option_eq_Some prod.inject)
  moreover have "counts_ok n (others k ps @ [(k, v, q + 1)])" using assms(2) q by (auto simp: counts_ok_def)
  ultimately show ?thesis using d k by (simp add: lfu_get_def counted_get_def)
qed

lemma evict_correct:
  assumes "lfu_stands_for c ps" and "least_used ps = Some p" and "ps \<noteq> []"
  shows "\<exists>d l. m_minFreq c = Some l \<and> lfu_removeMinFre c = Some d \<and> lfu_capacity d = lfu_capacity c \<and> lfu_fresh d = lfu_fresh c \<and>
    lfu_lists (m_freq2Key d) (lfu_fresh d) (others (fst p) ps) \<and> lfu_nodes (m_contains d) (m_freq2Key d) (others (fst p) ps)"
proof -
  let ?f = "m_freq2Key c"
  have dist: "distinct (map fst ps)" and lists: "lfu_lists ?f (lfu_fresh c) ps"
    and nodes: "lfu_nodes (m_contains c) ?f ps" and least: "least_is (m_minFreq c) ps"
    using assms(1) unfolding lfu_stands_for_def by blast+
  obtain l where l: "m_minFreq c = Some l" using least assms(3) unfolding least_is_def by blast
  obtain rest where rest: "filter (\<lambda>p. snd (snd p) = l) ps = p # rest" and p: "p \<in> set ps"
    using find_least_used [OF assms(3)] assms(2) least l by (metis option.inject)
  obtain k v where pk: "p = (k, v, l)"
    using filter_eq_ConsD [OF rest] by (cases p) auto
  have k: "map_of ps k = Some (v, l)" using p pk dist by simp
  have "map snd (?f l) = k # map fst rest" using lists rest pk unfolding lfu_lists_def by simp
  then obtain it keys where f: "?f l = (it, k) # keys" "map snd keys = map fst rest" by auto
  have "distinct (map snd (?f l))" by (rule lists_of_freq(1) [OF lists dist k])
  then have keys: "filter (\<lambda>p. snd p \<noteq> k) (?f l) = keys"
    unfolding f(1) by simp (intro filter_True ballI notI, metis image_eqI)
  define d where "d = c\<lparr>m_contains := AList.delete k (m_contains c), m_freq2Key := ?f(l := keys)\<rparr>"
  have "lfu_removeMinFre c = Some d" by (simp add: lfu_removeMinFre_def l f d_def)
  moreover have "lfu_lists (?f(l := keys)) (lfu_fresh c) (others k ps)"
    using lists_remove(2) [OF lists dist k, of it] keys f(1) by simp
  moreover have "lfu_nodes (AList.delete k (m_contains c)) (?f(l := keys)) (others k ps)"
    using nodes_remove [OF nodes k] keys by simp
  ultimately show ?thesis by (simp add: d_def l pk)
qed

lemma lfu_put_correct:
  assumes "lfu_stands_for c ps" and "counts_ok (Suc n) ps"
  shows "\<exists>d. lfu_put k w c = Some d \<and> lfu_capacity d = lfu_capacity c \<and>
    lfu_stands_for d (counted_put (lfu_capacity c) k w ps) \<and> counts_ok n (counted_put (lfu_capacity c) k w ps)"
proof (cases "map_of ps k")
  case (Some x)
  obtain v q where x: "x = (v, q)" by force
  note k = Some [unfolded x]
  have q: "1 \<le> q" "q + int (Suc n) \<le> INT_MAX" using assms(2) map_of_SomeD [OF k] unfolding counts_ok_def by force+
  obtain node where node: "map_of (m_contains c) k = Some node"
    using assms(1) k unfolding lfu_stands_for_def lfu_nodes_def by (metis map_option_eq_Some)
  let ?c = "c\<lparr>m_contains := AList.update k (node\<lparr>m_val := w\<rparr>) (m_contains c)\<rparr>"
  obtain d where d: "lfu_increaseFreq k ?c = Some d" "lfu_capacity d = lfu_capacity c" "lfu_stands_for d (others k ps @ [(k, w, q + 1)])"
    using increaseFreq_correct [OF stands_for_set_value [OF assms(1) node, of w], where k = k and v = w and q = q] k q by (auto simp: set_value_simps)
  moreover have "counts_ok n (others k ps @ [(k, w, q + 1)])" using assms(2) q by (auto simp: counts_ok_def)
  ultimately show ?thesis using k node by (simp add: lfu_put_def counted_put_def)
next
  case None
  have nodes: "lfu_nodes (m_contains c) (m_freq2Key c) ps" and lists: "lfu_lists (m_freq2Key c) (lfu_fresh c) ps"
    and dist: "distinct (map fst ps)" and n: "0 < lfu_capacity c" "length ps \<le> lfu_capacity c"
    using assms(1) unfolding lfu_stands_for_def by blast+
  have k: "map_of (m_contains c) k = None" "k \<notin> fst ` set ps"
    using None nodes unfolding lfu_nodes_def by (metis option.map_disc_iff, metis map_of_eq_None_iff)
  have len: "length (m_contains c) = length ps"
    using same_keys_length [of "m_contains c" ps] nodes dist unfolding lfu_nodes_def by (metis option.map_disc_iff)
  let ?full = "lfu_capacity c \<le> length ps"
  define qs where "qs = (if ?full then (case least_used ps of None \<Rightarrow> [] | Some p \<Rightarrow> others (fst p) ps) else ps)"
  obtain e where e: "(if ?full then lfu_removeMinFre c else Some c) = Some e" "lfu_capacity e = lfu_capacity c"
    "lfu_lists (m_freq2Key e) (lfu_fresh e) qs" "lfu_nodes (m_contains e) (m_freq2Key e) qs"
    and qs: "set qs \<subseteq> set ps" "length qs < lfu_capacity c" "distinct (map fst qs)"
  proof (cases ?full)
    case True
    then have "ps \<noteq> []" using n by auto
    then obtain p where p: "least_used ps = Some p" "p \<in> set ps" by (rule find_least_used)
    then have "qs = others (fst p) ps" using True by (simp add: qs_def)
    moreover have "length (others (fst p) ps) < length ps" using p(2) dist by (intro length_others_less [of _ _ "snd p"]) simp
    ultimately show ?thesis using that evict_correct [OF assms(1) p(1) \<open>ps \<noteq> []\<close>] True n distinct_others [OF dist, of "fst p"] by force
  next
    case False
    then show ?thesis using that [of c] nodes lists dist by (simp add: qs_def)
  qed
  have kq: "k \<notin> fst ` set qs" using k(2) qs(1) by blast
  let ?g = "m_freq2Key e" and ?node = "\<lparr>m_freq = 1, m_iterator = lfu_fresh e, m_val = w\<rparr>"
  define d where "d = e\<lparr>m_minFreq := Some 1, m_freq2Key := ?g(1 := ?g 1 @ [(lfu_fresh e, k)]), lfu_fresh := lfu_fresh e + 1,
      m_contains := AList.update k ?node (m_contains e)\<rparr>"
  have run: "lfu_put k w c = Some d"
    using k(1) len e(1) by (simp add: lfu_put_def lfu_push_back_def lfu_last_def Let_def d_def)
  have new: "counted_put (lfu_capacity c) k w ps = qs @ [(k, w, 1)]" using None by (simp add: counted_put_def qs_def)
  have "k \<notin> fst ` set (m_contains e)" using e(4) kq unfolding lfu_nodes_def by (metis map_of_eq_None_iff option.map_disc_iff)
  moreover have "lfu_nodes (m_contains e) ?g (others k qs)" using e(4) others_same [OF kq] by simp
  ultimately have "lfu_nodes (AList.update k ?node (m_contains e)) (?g(1 := ?g 1 @ [(lfu_fresh e, k)])) (qs @ [(k, w, 1)])"
    using nodes_push [of "m_contains e" ?g k qs ?node 1 "lfu_fresh e" w] others_same [OF kq] by simp
  moreover have "\<forall>p \<in> set (qs @ [(k, w, 1)]). 1 \<le> snd (snd p)" using assms(2) qs(1) by (auto simp: counts_ok_def)
  then have "least_is (Some 1) (qs @ [(k, w, 1)])" by (intro least_isI [of "(k, w, 1)"]) auto
  ultimately have "lfu_stands_for d (qs @ [(k, w, 1)])"
    using lists_push [OF e(3)] n e(2) qs(2,3) kq by (auto simp: lfu_stands_for_def d_def)
  moreover have "counts_ok n (qs @ [(k, w, 1)])" using assms(2) qs(1) by (fastforce simp: counts_ok_def)
  ultimately show ?thesis unfolding new using run e(2) by (simp add: d_def)
qed

section \<open>The cache as a bounded map\<close>

definition lfu_content :: "('k, 'v) lfu \<Rightarrow> 'k \<rightharpoonup> 'v" where
  "lfu_content c k = map_option m_val (map_of (m_contains c) k)"

definition lfu_inv :: "nat \<Rightarrow> ('k, 'v) lfu \<Rightarrow> bool" where
  "lfu_inv n c \<longleftrightarrow> (\<exists>ps. lfu_stands_for c ps \<and> counts_ok n ps)"

lemma lfu_content_entries: "lfu_stands_for c ps \<Longrightarrow> lfu_content c = (\<lambda>k. map_option fst (map_of ps k))"
  unfolding lfu_stands_for_def lfu_nodes_def lfu_content_def
  by (rule ext) (metis (mono_tags, lifting) fst_conv option.map_comp option.map_cong0 comp_apply)

lemma map_of_counted_put:
  assumes "distinct (map fst ps)"
  shows "(\<lambda>k'. map_option fst (map_of (counted_put n k v ps) k')) \<subseteq>\<^sub>m (\<lambda>k'. map_option fst (map_of ps k'))(k \<mapsto> v)"
    and "map_option fst (map_of (counted_put n k v ps) k) = Some v"
  by (auto simp: counted_put_def map_le_def map_of_others map_add_def split: option.splits if_splits)

lemma map_of_counted_get:
  "map_option fst (map_of (snd (counted_get k ps)) k') = map_option fst (map_of ps k')"
  by (auto simp: counted_get_def map_of_others map_add_def split: option.splits)

lemma fst_counted_get: "fst (counted_get k ps) = map_option fst (map_of ps k)"
  by (auto simp: counted_get_def split: option.splits)

interpretation lfu: cache lfu_inv lfu_content lfu_capacity lfu_put lfu_get
proof
  fix n k v and s :: "('k, 'v) lfu"
  assume "lfu_inv (Suc n) s"
  then obtain ps where ps: "lfu_stands_for s ps" "counts_ok (Suc n) ps" unfolding lfu_inv_def by blast
  then have d: "distinct (map fst ps)" unfolding lfu_stands_for_def by blast
  obtain t where t: "lfu_put k v s = Some t" "lfu_capacity t = lfu_capacity s"
      "lfu_stands_for t (counted_put (lfu_capacity s) k v ps)" "counts_ok n (counted_put (lfu_capacity s) k v ps)"
    using lfu_put_correct [OF ps] by blast
  have "lfu_inv n t" using t(3,4) unfolding lfu_inv_def by blast
  then show "\<exists>s'. lfu_put k v s = Some s' \<and> lfu_inv n s' \<and> lfu_capacity s' = lfu_capacity s \<and>
      lfu_content s' k = Some v \<and> lfu_content s' \<subseteq>\<^sub>m (lfu_content s)(k \<mapsto> v)"
    using t(1,2) map_of_counted_put [OF d, of "lfu_capacity s" k v] lfu_content_entries [OF ps(1)] lfu_content_entries [OF t(3)] by simp
next
  fix n k and s :: "('k, 'v) lfu"
  assume "lfu_inv (Suc n) s"
  then obtain ps where ps: "lfu_stands_for s ps" "counts_ok (Suc n) ps" unfolding lfu_inv_def by blast
  obtain a t qs where t: "lfu_get k s = Some (a, t)" "lfu_capacity t = lfu_capacity s" "lfu_stands_for t qs" "counts_ok n qs"
      "counted_get k ps = (a, qs)"
    using lfu_get_correct [OF ps] by blast
  have "lfu_inv n t" using t(3,4) unfolding lfu_inv_def by blast
  moreover have "lfu_content t = lfu_content s" "a = lfu_content s k"
    using lfu_content_entries [OF ps(1)] lfu_content_entries [OF t(3)] map_of_counted_get [of k ps] fst_counted_get [of k ps] t(5) by auto
  ultimately show "\<exists>s'. lfu_get k s = Some (lfu_content s k, s') \<and> lfu_inv n s' \<and> lfu_capacity s' = lfu_capacity s \<and>
      lfu_content s' = lfu_content s"
    using t(1,2) by simp
next
  fix n and s :: "('k, 'v) lfu"
  assume "lfu_inv n s"
  then obtain ps where ps: "lfu_stands_for s ps" unfolding lfu_inv_def by blast
  have "dom (lfu_content s) = set (map fst ps)"
    using lfu_content_entries [OF ps] by (auto simp: dom_def map_of_eq_None_iff)
  moreover have "length ps \<le> lfu_capacity s" using ps unfolding lfu_stands_for_def by blast
  ultimately show "finite (dom (lfu_content s)) \<and> card (dom (lfu_content s)) \<le> lfu_capacity s"
    by (metis List.finite_set card_length le_trans length_map)
qed

section \<open>What the cache guarantees\<close>

definition counted_run :: "nat \<Rightarrow> ('k, 'v) cache_op list \<Rightarrow> ('k, 'v) counted \<Rightarrow> ('v option list \<times> ('k, 'v) counted) option" where
  "counted_run n = run_cache (\<lambda>k v ps. Some (counted_put n k v ps)) (\<lambda>k ps. Some (counted_get k ps))"

lemma lfu_run_refines:
  assumes "lfu_stands_for c ps" and "counts_ok (length ops + n) ps"
  shows "\<exists>as d qs. run_cache lfu_put lfu_get ops c = Some (as, d) \<and> lfu_stands_for d qs \<and>
    counted_run (lfu_capacity c) ops ps = Some (as, qs)"
  using assms
proof (induction ops arbitrary: c ps)
  case (Cons op ops)
  have n: "counts_ok (Suc (length ops + n)) ps" using Cons.prems(2) by simp
  show ?case
  proof (cases op)
    case (Put k v)
    obtain d where d: "lfu_put k v c = Some d" "lfu_capacity d = lfu_capacity c"
        "lfu_stands_for d (counted_put (lfu_capacity c) k v ps)" "counts_ok (length ops + n) (counted_put (lfu_capacity c) k v ps)"
      using lfu_put_correct [OF Cons.prems(1) n] by blast
    from Cons.IH [OF d(3,4)] d(1,2) Put show ?thesis by (auto simp: counted_run_def)
  next
    case (Get k)
    obtain a d qs where d: "lfu_get k c = Some (a, d)" "lfu_capacity d = lfu_capacity c" "lfu_stands_for d qs"
        "counts_ok (length ops + n) qs" "counted_get k ps = (a, qs)"
      using lfu_get_correct [OF Cons.prems(1) n] by blast
    from Cons.IH [OF d(3,4)] d Get show ?thesis by (auto simp: counted_run_def)
  qed
qed (auto simp: counted_run_def)

text \<open>
  C35: From a new cache of positive capacity every sequence of less than 2^31 - 1 operations is defined and
  gives the answers of the specification: a list of entries with the counts of their uses, from which the
  one with the least count, of these the one used longest ago, is dropped when a key is put into a full cache.
\<close>

theorem lfu_refines_spec:
  assumes "0 < n" and "int (length ops) < INT_MAX"
  shows "\<exists>as c ps. run_cache lfu_put lfu_get ops (lfu_new n) = Some (as, c) \<and> lfu_stands_for c ps \<and>
    counted_run n ops [] = Some (as, ps)"
  using lfu_run_refines [OF lfu_new_stands_for [OF assms(1)], of ops 0] assms(2) by (simp add: counts_ok_def lfu_new_def)

theorem lfu_refines_spec_witness:
  "\<exists>as c ps. run_cache lfu_put lfu_get [Put 1 2, Put 2 3, Get 2, Put 3 (4::nat), Get 1, Get (3::nat)] (lfu_new 2) = Some (as, c) \<and>
    lfu_stands_for c ps \<and> counted_run 2 [Put 1 2, Put 2 3, Get 2, Put 3 4, Get 1, Get 3] [] = Some (as, ps) \<and>
    as = [Some 3, None, Some 4]"
  using lfu_refines_spec [of 2 "[Put 1 2, Put 2 3, Get 2, Put 3 (4::nat), Get 1, Get (3::nat)]"]
  by (simp add: counted_run_def counted_put_def counted_get_def least_used_def others_def int_limits)

text \<open>
  When a key is put into a full cache, the entry that goes has the least count of uses, and all the
  others stay with their values.
\<close>

theorem lfu_evicts_least_used:
  assumes "lfu_stands_for c ps" and "counts_ok 1 ps" and "length ps = lfu_capacity c" and "lfu_content c k = None"
  shows "\<exists>d old. lfu_put k v c = Some d \<and> lfu_content d = (lfu_content c)(old := None, k := Some v) \<and>
    lfu_content c old \<noteq> None \<and> (\<exists>w q. map_of ps old = Some (w, q) \<and> (\<forall>p \<in> set ps. q \<le> snd (snd p)))"
proof -
  have d: "distinct (map fst ps)" and n: "0 < lfu_capacity c" using assms(1) unfolding lfu_stands_for_def by blast+
  then have ne: "ps \<noteq> []" using assms(3) by auto
  obtain p where p: "least_used ps = Some p" "p \<in> set ps" "\<forall>q \<in> set ps. snd (snd p) \<le> snd (snd q)"
    using find_least_used [OF ne] by metis
  obtain old w q where pq: "p = (old, w, q)" using prod_cases3 by blast
  have old: "map_of ps old = Some (w, q)" using p(2) pq d by simp
  have k: "map_of ps k = None" using assms(4) lfu_content_entries [OF assms(1)] by simp
  obtain t where t: "lfu_put k v c = Some t" "lfu_stands_for t (counted_put (lfu_capacity c) k v ps)"
    using lfu_put_correct [OF assms(1), of 0] assms(2) by auto
  have "counted_put (lfu_capacity c) k v ps = others old ps @ [(k, v, 1)]"
    using k p(1) pq assms(3) by (simp add: counted_put_def)
  then have "lfu_content t = (lfu_content c)(old := None, k := Some v)"
    using lfu_content_entries [OF t(2)] lfu_content_entries [OF assms(1)] k old
    by (auto simp: map_of_others map_add_def fun_eq_iff split: option.splits)
  moreover have "lfu_content c old \<noteq> None" using lfu_content_entries [OF assms(1)] old by simp
  ultimately show ?thesis using t(1) old p(3) pq by fastforce
qed

theorem lfu_evicts_least_used_witness:
  "\<exists>c d old. lfu_put (1::nat) (10::nat) (lfu_new 1) = Some c \<and> lfu_put 2 20 c = Some d \<and>
    lfu_content d = (lfu_content c)(old := None, 2 := Some 20) \<and> lfu_content c old \<noteq> None"
proof -
  obtain c :: "(nat, nat) lfu" where c: "lfu_put 1 10 (lfu_new 1) = Some c" "lfu_stands_for c [(1, 10, 1)]" "lfu_capacity c = 1"
    using lfu_put_correct [OF lfu_new_stands_for [of 1], of 1 "1::nat" "10::nat"]
    by (auto simp: counts_ok_def counted_put_def int_limits lfu_new_def)
  have "lfu_content c 2 = None" using lfu_content_entries [OF c(2)] by simp
  then obtain d old where "lfu_put 2 20 c = Some d" "lfu_content d = (lfu_content c)(old := None, 2 := Some 20)" "lfu_content c old \<noteq> None"
    using lfu_evicts_least_used [OF c(2), of 2 20] c(3) by (auto simp: counts_ok_def int_limits)
  with c(1) show ?thesis by blast
qed

text \<open>
  The cache never holds more than its capacity, and every answer is the value that was put last for the
  key, or none.
\<close>

theorem lfu_never_stale:
  assumes "0 < n" and "int (length ops) < INT_MAX"
  shows "\<exists>as c. run_cache lfu_put lfu_get ops (lfu_new n) = Some (as, c) \<and> card (dom (lfu_content c)) \<le> n \<and>
    right_answers [] ops as"
proof -
  have "lfu_inv (0 + length ops) (lfu_new n)" using lfu_new_stands_for [OF assms(1)] assms(2)
    unfolding lfu_inv_def by (auto simp: counts_ok_def intro!: exI [of _ "[]"])
  moreover have "lfu_content (lfu_new n) \<subseteq>\<^sub>m (\<lambda>k. last_put k [])" by (simp add: map_le_def lfu_content_def lfu_new_def)
  ultimately show ?thesis using lfu.run_answers [of 0 ops "lfu_new n" "[]"] lfu.bounded by (fastforce simp: lfu_new_def)
qed

text \<open>
  With capacity 0 the first \<open>put\<close> reads the least frequency before it has a value; and the frequency of a
  key that was used \<open>INT_MAX\<close> times overflows.
\<close>

lemma lfu_capacity_zero: "lfu_put k v (lfu_new 0) = None"
  by (simp add: lfu_put_def lfu_new_def lfu_removeMinFre_def)

lemma lfu_count_overflows:
  assumes "lfu_stands_for c ps" and "map_of ps k = Some (v, INT_MAX)"
  shows "lfu_get k c = None"
proof -
  have n: "lfu_nodes (m_contains c) (m_freq2Key c) ps" using assms(1) unfolding lfu_stands_for_def by blast
  have "map_option (\<lambda>x. (m_val x, m_freq x)) (map_of (m_contains c) k) = Some (v, INT_MAX)"
    using n assms(2) unfolding lfu_nodes_def by metis
  then obtain x where "map_of (m_contains c) k = Some x" "m_freq x = INT_MAX" by auto
  then show ?thesis by (auto simp: lfu_get_def lfu_increaseFreq_def cint_def split: bind_split if_splits)
qed

end
