(* ===== verification/Containers.thy ===== *)
theory Containers
  imports Prelude
begin

text \<open>
  The interfaces of the queues, stacks and deques of \<open>DataStruct/\<close>: what the abstract base classes promise.
  An operation is undefined (\<open>None\<close>), throws the \<open>runtime_error\<close> with a message (\<open>Inl\<close>) or returns.
  The nodes of the linked lists are in a store, so that a pointer to a freed node is not defined.
\<close>

section \<open>Sequences of operations\<close>

type_synonym 'a outcome = "(string + 'a) option"

datatype 'a seq_op = Push 'a | Pop | Peek

datatype 'a answer = Done | Value 'a | Thrown string

text \<open>A caller that catches what is thrown; the answers and the last state.\<close>

fun run_seq :: "('a \<Rightarrow> 's \<Rightarrow> 's option) \<Rightarrow> ('s \<Rightarrow> 's outcome) \<Rightarrow> ('s \<Rightarrow> 'a outcome) \<Rightarrow>
    'a seq_op list \<Rightarrow> 's \<Rightarrow> ('a answer list \<times> 's) option" where
  "run_seq push pop peek [] s = Some ([], s)"
| "run_seq push pop peek (Push v # ops) s = do {
     s \<leftarrow> push v s;
     (as, s) \<leftarrow> run_seq push pop peek ops s;
     Some (Done # as, s) }"
| "run_seq push pop peek (Pop # ops) s = do {
     r \<leftarrow> pop s;
     (case r of
        Inl e \<Rightarrow> do { (as, s) \<leftarrow> run_seq push pop peek ops s; Some (Thrown e # as, s) }
      | Inr s \<Rightarrow> do { (as, s) \<leftarrow> run_seq push pop peek ops s; Some (Done # as, s) }) }"
| "run_seq push pop peek (Peek # ops) s = do {
     r \<leftarrow> peek s;
     (as, s) \<leftarrow> run_seq push pop peek ops s;
     Some ((case r of Inl e \<Rightarrow> Thrown e | Inr v \<Rightarrow> Value v) # as, s) }"

text \<open>The same on lists: the end where elements leave is the head.\<close>

definition list_pop :: "string \<Rightarrow> 'a list \<Rightarrow> 'a list outcome" where
  "list_pop e xs = Some (case xs of [] \<Rightarrow> Inl e | x # xs \<Rightarrow> Inr xs)"

definition list_peek :: "string \<Rightarrow> 'a list \<Rightarrow> 'a outcome" where
  "list_peek e xs = Some (case xs of [] \<Rightarrow> Inl e | x # xs \<Rightarrow> Inr x)"

lemma list_ops [simp]:
  "list_pop e [] = Some (Inl e)" "list_pop e (x # xs) = Some (Inr xs)"
  "list_peek e [] = Some (Inl e)" "list_peek e (x # xs) = Some (Inr x)"
  by (simp_all add: list_pop_def list_peek_def)

definition fifo_run :: "string \<Rightarrow> 'a seq_op list \<Rightarrow> 'a list \<Rightarrow> ('a answer list \<times> 'a list) option" where
  "fifo_run e = run_seq (\<lambda>v xs. Some (xs @ [v])) (list_pop e) (list_peek e)"

definition lifo_run :: "string \<Rightarrow> 'a seq_op list \<Rightarrow> 'a list \<Rightarrow> ('a answer list \<times> 'a list) option" where
  "lifo_run e = run_seq (\<lambda>v xs. Some (v # xs)) (list_pop e) (list_peek e)"

section \<open>The interfaces\<close>

text \<open>\<open>room\<close> is the number of elements up to which \<open>push\<close> is known to be defined.\<close>

locale sequence =
  fixes inv :: "'s \<Rightarrow> bool" and content :: "'s \<Rightarrow> 'a list" and add :: "'a \<Rightarrow> 'a list \<Rightarrow> 'a list" and message :: string
    and push :: "'a \<Rightarrow> 's \<Rightarrow> 's option" and pop :: "'s \<Rightarrow> 's outcome" and peek :: "'s \<Rightarrow> 'a outcome" and room :: nat
  assumes length_add: "length (add v xs) = Suc (length xs)"
    and push_law: "inv s \<Longrightarrow> length (content s) < room \<Longrightarrow> \<exists>s'. push v s = Some s' \<and> inv s' \<and> content s' = add v (content s)"
    and pop_law: "inv s \<Longrightarrow> content s = x # xs \<Longrightarrow> \<exists>s'. pop s = Some (Inr s') \<and> inv s' \<and> content s' = xs"
    and peek_law: "inv s \<Longrightarrow> content s = x # xs \<Longrightarrow> peek s = Some (Inr x)"
    and pop_empty: "inv s \<Longrightarrow> content s = [] \<Longrightarrow> pop s = Some (Inl message)"
    and peek_empty: "inv s \<Longrightarrow> content s = [] \<Longrightarrow> peek s = Some (Inl message)"
begin

lemma run_refines:
  assumes "inv s" and "length (content s) + length ops \<le> room"
  shows "\<exists>as s'. run_seq push pop peek ops s = Some (as, s') \<and> inv s' \<and>
    run_seq (\<lambda>v xs. Some (add v xs)) (list_pop message) (list_peek message) ops (content s) = Some (as, content s')"
  using assms
proof (induction ops arbitrary: s)
  case (Cons op ops)
  show ?case
  proof (cases op)
    case (Push v)
    obtain s1 where s1: "push v s = Some s1" "inv s1" "content s1 = add v (content s)" using push_law [OF Cons.prems(1)] Cons.prems(2) by auto
    from Cons.IH [OF s1(2)] s1 Push Cons.prems(2) show ?thesis by (auto simp: length_add)
  next
    case Pop
    show ?thesis
    proof (cases "content s")
      case Nil
      from Cons.IH [OF Cons.prems(1)] Cons.prems(2) Pop pop_empty [OF Cons.prems(1) Nil] Nil show ?thesis by auto
    next
      case (Cons x xs)
      obtain s1 where s1: "pop s = Some (Inr s1)" "inv s1" "content s1 = xs" using pop_law [OF Cons.prems(1) Cons] by blast
      from Cons.IH [OF s1(2)] s1 Pop Cons Cons.prems(2) show ?thesis by auto
    qed
  next
    case Peek
    from Cons.IH [OF Cons.prems(1)] Cons.prems(2) obtain as s' where run: "run_seq push pop peek ops s = Some (as, s')" "inv s'"
        "run_seq (\<lambda>v xs. Some (add v xs)) (list_pop message) (list_peek message) ops (content s) = Some (as, content s')" by auto
    then show ?thesis using Peek peek_empty [OF Cons.prems(1)] peek_law [OF Cons.prems(1)]
      by (cases "content s") auto
  qed
qed simp

end

text \<open>A queue gives its elements in the order they came, a stack in the opposite order.\<close>

locale fifo = sequence inv content "\<lambda>v xs. xs @ [v]" message push pop peek room
  for inv :: "'s \<Rightarrow> bool" and content :: "'s \<Rightarrow> 'a list" and message push pop peek room
begin

lemma fifo_refines:
  assumes "inv s" and "length (content s) + length ops \<le> room"
  shows "\<exists>as s'. run_seq push pop peek ops s = Some (as, s') \<and> inv s' \<and> fifo_run message ops (content s) = Some (as, content s')"
  using run_refines [OF assms] unfolding fifo_run_def .

end

locale lifo = sequence inv content "\<lambda>v xs. v # xs" message push pop peek room
  for inv :: "'s \<Rightarrow> bool" and content :: "'s \<Rightarrow> 'a list" and message push pop peek room
begin

lemma lifo_refines:
  assumes "inv s" and "length (content s) + length ops \<le> room"
  shows "\<exists>as s'. run_seq push pop peek ops s = Some (as, s') \<and> inv s' \<and> lifo_run message ops (content s) = Some (as, content s')"
  using run_refines [OF assms] unfolding lifo_run_def .

end

text \<open>A deque is a queue in both directions and a stack at both ends.\<close>

locale deque =
  fixes inv :: "'s \<Rightarrow> bool" and content :: "'s \<Rightarrow> 'a list" and message :: string
    and push_back push_front :: "'a \<Rightarrow> 's \<Rightarrow> 's option" and pop_back pop_front :: "'s \<Rightarrow> 's outcome"
    and peek_back peek_front :: "'s \<Rightarrow> 'a outcome" and room :: nat
  assumes push_back_law: "inv s \<Longrightarrow> length (content s) < room \<Longrightarrow> \<exists>s'. push_back v s = Some s' \<and> inv s' \<and> content s' = content s @ [v]"
    and push_front_law: "inv s \<Longrightarrow> length (content s) < room \<Longrightarrow> \<exists>s'. push_front v s = Some s' \<and> inv s' \<and> content s' = v # content s"
    and pop_back_law: "inv s \<Longrightarrow> content s = xs @ [x] \<Longrightarrow> \<exists>s'. pop_back s = Some (Inr s') \<and> inv s' \<and> content s' = xs"
    and pop_front_law: "inv s \<Longrightarrow> content s = x # xs \<Longrightarrow> \<exists>s'. pop_front s = Some (Inr s') \<and> inv s' \<and> content s' = xs"
    and back_law: "inv s \<Longrightarrow> content s = xs @ [x] \<Longrightarrow> peek_back s = Some (Inr x)"
    and front_law: "inv s \<Longrightarrow> content s = x # xs \<Longrightarrow> peek_front s = Some (Inr x)"
    and empty_law: "inv s \<Longrightarrow> content s = [] \<Longrightarrow> pop_back s = Some (Inl message) \<and> pop_front s = Some (Inl message) \<and>
      peek_back s = Some (Inl message) \<and> peek_front s = Some (Inl message)"

sublocale deque \<subseteq> forward: fifo inv content message push_back pop_front peek_front room
  using push_back_law pop_front_law front_law empty_law by unfold_locales auto

context deque begin

lemma pop_back_rev: "inv s \<Longrightarrow> rev (content s) = x # xs \<Longrightarrow> \<exists>s'. pop_back s = Some (Inr s') \<and> inv s' \<and> rev (content s') = xs"
  using pop_back_law [of s "rev xs" x] by (auto simp: rev_eq_Cons_iff)

lemma back_rev: "inv s \<Longrightarrow> rev (content s) = x # xs \<Longrightarrow> peek_back s = Some (Inr x)"
  using back_law [of s "rev xs" x] by (auto simp: rev_eq_Cons_iff)

end

sublocale deque \<subseteq> backward: fifo inv "\<lambda>s. rev (content s)" message push_front pop_back peek_back room
  using push_front_law pop_back_rev back_rev empty_law by unfold_locales fastforce+

sublocale deque \<subseteq> at_front: lifo inv content message push_front pop_front peek_front room
  using push_front_law pop_front_law front_law empty_law by unfold_locales auto

sublocale deque \<subseteq> at_back: lifo inv "\<lambda>s. rev (content s)" message push_back pop_back peek_back room
  using push_back_law pop_back_rev back_rev empty_law by unfold_locales fastforce+

lemma lifo_run_length: "lifo_run e [op] xs = Some (as, ys) \<Longrightarrow> length ys \<le> Suc (length xs)"
  unfolding lifo_run_def by (cases op; cases xs) auto

text \<open>Operations at both ends, each with the flag for the front; the specification is a list with a stack at each end.\<close>

fun run_deque :: "('a \<Rightarrow> 's \<Rightarrow> 's option) \<times> ('s \<Rightarrow> 's outcome) \<times> ('s \<Rightarrow> 'a outcome) \<Rightarrow>
    ('a \<Rightarrow> 's \<Rightarrow> 's option) \<times> ('s \<Rightarrow> 's outcome) \<times> ('s \<Rightarrow> 'a outcome) \<Rightarrow>
    (bool \<times> 'a seq_op) list \<Rightarrow> 's \<Rightarrow> ('a answer list \<times> 's) option" where
  "run_deque f b [] s = Some ([], s)"
| "run_deque f b ((front, op) # ops) s = do {
     (as, s) \<leftarrow> (case (if front then f else b) of (push, pop, peek) \<Rightarrow> run_seq push pop peek [op] s);
     (bs, s) \<leftarrow> run_deque f b ops s;
     Some (as @ bs, s) }"

fun deque_run :: "string \<Rightarrow> (bool \<times> 'a seq_op) list \<Rightarrow> 'a list \<Rightarrow> ('a answer list \<times> 'a list) option" where
  "deque_run e [] xs = Some ([], xs)"
| "deque_run e ((front, op) # ops) xs = do {
     (as, ys) \<leftarrow> lifo_run e [op] (if front then xs else rev xs);
     (bs, zs) \<leftarrow> deque_run e ops (if front then ys else rev ys);
     Some (as @ bs, zs) }"

context deque begin

lemma deque_refines:
  assumes "inv s" and "length (content s) + length ops \<le> room"
  shows "\<exists>as s'. run_deque (push_front, pop_front, peek_front) (push_back, pop_back, peek_back) ops s = Some (as, s') \<and> inv s' \<and>
    deque_run message ops (content s) = Some (as, content s')"
  using assms
proof (induction ops arbitrary: s)
  case (Cons p ops)
  obtain front op where p: "p = (front, op)" by force
  have "\<exists>as t. (case (if front then (push_front, pop_front, peek_front) else (push_back, pop_back, peek_back)) of
        (push, pop, peek) \<Rightarrow> run_seq push pop peek [op] s) = Some (as, t) \<and> inv t \<and>
      lifo_run message [op] (if front then content s else rev (content s)) = Some (as, if front then content t else rev (content t))"
    using at_front.lifo_refines [OF Cons.prems(1), of "[op]"] at_back.lifo_refines [OF Cons.prems(1), of "[op]"] Cons.prems(2)
    by (cases front) (simp_all del: run_seq.simps)
  then obtain as t where t: "(case (if front then (push_front, pop_front, peek_front) else (push_back, pop_back, peek_back)) of
        (push, pop, peek) \<Rightarrow> run_seq push pop peek [op] s) = Some (as, t)" "inv t"
      "lifo_run message [op] (if front then content s else rev (content s)) = Some (as, if front then content t else rev (content t))"
    by blast
  have "length (content t) \<le> Suc (length (content s))"
    using lifo_run_length [OF t(3)] by (cases front) simp_all
  with Cons.prems(2) have "length (content t) + length ops \<le> room" by simp
  from Cons.IH [OF t(2) this] t(3) show ?case unfolding p run_deque.simps deque_run.simps t(1)
    by (auto simp del: run_seq.simps split: if_splits)
qed simp

end

section \<open>Arrays of objects\<close>

text \<open>
  An array from \<open>new T[n]()\<close>: a slot is \<open>None\<close> once the destructor of its object was called; then it may
  not be read or assigned to.  \<open>trivial\<close> says that the destructor of \<open>T\<close> does nothing.
\<close>

type_synonym 'a slots = "'a option list"

definition new_slots :: "nat \<Rightarrow> 'a \<Rightarrow> 'a slots" where
  "new_slots n init = replicate n (Some init)"

definition slot_read :: "'a slots \<Rightarrow> nat \<Rightarrow> 'a option" where
  "slot_read xs i = (if i < length xs then xs ! i else None)"

definition slot_assign :: "'a slots \<Rightarrow> nat \<Rightarrow> 'a \<Rightarrow> 'a slots option" where
  "slot_assign xs i v = (if i < length xs \<and> xs ! i \<noteq> None then Some (xs[i := Some v]) else None)"

definition slot_destroy :: "bool \<Rightarrow> 'a slots \<Rightarrow> nat \<Rightarrow> 'a slots option" where
  "slot_destroy trivial xs i =
     (if i < length xs \<and> xs ! i \<noteq> None then Some (if trivial then xs else xs[i := None]) else None)"

text \<open>A loop \<open>tmp[i] = data[src(i)]\<close>.\<close>

fun slot_copy :: "(nat \<Rightarrow> nat) \<Rightarrow> 'a slots \<Rightarrow> nat list \<Rightarrow> 'a slots \<Rightarrow> 'a slots option" where
  "slot_copy src data [] tmp = Some tmp"
| "slot_copy src data (i # is) tmp = do {
     v \<leftarrow> slot_read data (src i);
     tmp \<leftarrow> slot_assign tmp i v;
     slot_copy src data is tmp }"

abbreviation alive :: "'a slots \<Rightarrow> bool" where
  "alive xs \<equiv> None \<notin> set xs"

lemma alive_nth: "alive xs \<Longrightarrow> i < length xs \<Longrightarrow> \<exists>v. xs ! i = Some v"
  by (metis nth_mem option.exhaust)

lemma slot_ops [simp]:
  "alive xs \<Longrightarrow> i < length xs \<Longrightarrow> slot_read xs i = Some (the (xs ! i))"
  "alive xs \<Longrightarrow> i < length xs \<Longrightarrow> slot_assign xs i v = Some (xs[i := Some v])"
  "alive xs \<Longrightarrow> i < length xs \<Longrightarrow> slot_destroy True xs i = Some xs"
  using alive_nth [of xs i] by (auto simp: slot_read_def slot_assign_def slot_destroy_def)

lemma alive_update: "alive xs \<Longrightarrow> alive (xs[i := Some v])"
  by (auto dest: set_update_subset_insert [THEN subsetD])

lemma alive_new [simp]: "alive (new_slots n v)" "length (new_slots n v) = n"
  by (auto simp: new_slots_def)

lemma slot_copy_range:
  assumes "alive data" and "\<forall>i < n. src i < length data" and "alive tmp" and "n \<le> length tmp" and "m \<le> n"
  shows "slot_copy src data [m..<n] tmp = Some (take m tmp @ map (\<lambda>i. data ! src i) [m..<n] @ drop n tmp)"
  using assms(3-5)
proof (induction "n - m" arbitrary: m tmp)
  case 0
  then show ?case by simp
next
  case (Suc k)
  then have m: "m < n" "[m..<n] = m # [Suc m..<n]" by (simp_all add: upt_conv_Cons)
  obtain v where v: "data ! src m = Some v" using alive_nth assms(1,2) m(1) by blast
  have "slot_copy src data [Suc m..<n] (tmp[m := Some v]) =
      Some (take (Suc m) (tmp[m := Some v]) @ map (\<lambda>i. data ! src i) [Suc m..<n] @ drop n (tmp[m := Some v]))"
    by (rule Suc.hyps(1)) (use Suc alive_update [of tmp m v] in auto)
  then show ?case using Suc.prems assms(1,2) m v
    by (simp add: take_Suc_conv_app_nth)
qed

lemma slot_copy_all:
  assumes "alive data" and "\<forall>i < n. src i < length data" and "alive tmp" and "n \<le> length tmp"
  shows "slot_copy src data [0..<n] tmp = Some (map (\<lambda>i. data ! src i) [0..<n] @ drop n tmp)"
  using slot_copy_range [OF assms, of 0] by simp

section \<open>Places in a ring\<close>

lemma ring_size:
  fixes f n c :: nat
  assumes "f < c" and "n < c"
  shows "((f + n) mod c + c - f) mod c = n"
proof (cases "f + n < c")
  case False
  then have "(f + n) mod c = f + n - c" using assms le_mod_geq [of c "f + n"] by simp
  with False assms show ?thesis by simp
qed (use assms in simp)

lemma ring_neq:
  fixes i n c f :: nat
  assumes "i < n" and "n < c"
  shows "(f + i) mod c \<noteq> (f + n) mod c"
proof
  assume "(f + i) mod c = (f + n) mod c"
  then have "c dvd (f + n) - (f + i)" using assms(1) by (metis mod_eq_dvd_iff_nat add_le_mono less_imp_le_nat order_refl)
  with assms show False by (simp add: nat_dvd_not_less)
qed

section \<open>Linked nodes\<close>

text \<open>A store of nodes with a value and \<open>next_\<close>; the nodes that are linked from a pointer to another.\<close>

type_synonym 'a nodes = "nat \<rightharpoonup> 'a \<times> nat option"

fun linked :: "'a nodes \<Rightarrow> nat option \<Rightarrow> nat list \<Rightarrow> nat option \<Rightarrow> bool" where
  "linked h p [] q \<longleftrightarrow> p = q"
| "linked h p (a # as) q \<longleftrightarrow> p = Some a \<and> (\<exists>v r. h a = Some (v, r) \<and> linked h r as q)"

lemma linked_append: "linked h p (as @ bs) q \<longleftrightarrow> (\<exists>r. linked h p as r \<and> linked h r bs q)"
  by (induction as arbitrary: p) auto

lemma linked_frame: "a \<notin> set as \<Longrightarrow> linked (h(a := x)) p as q \<longleftrightarrow> linked h p as q"
  by (induction as arbitrary: p) auto

definition node_values :: "'a nodes \<Rightarrow> nat list \<Rightarrow> 'a list" where
  "node_values h as = map (\<lambda>a. fst (the (h a))) as"

lemma node_values_simps [simp]:
  "node_values h [] = []" "node_values h (a # as) = fst (the (h a)) # node_values h as"
  "node_values h (as @ bs) = node_values h as @ node_values h bs" "length (node_values h as) = length as"
  by (simp_all add: node_values_def)

lemma node_values_frame: "a \<notin> set as \<Longrightarrow> node_values (h(a := x)) as = node_values h as"
  by (induction as) auto

text \<open>The values in the first \<open>n\<close> nodes from a pointer.\<close>

fun walk :: "'a nodes \<Rightarrow> nat \<Rightarrow> nat option \<Rightarrow> 'a list" where
  "walk h 0 p = []"
| "walk h (Suc n) p = (case p of None \<Rightarrow> [] | Some a \<Rightarrow> (case h a of None \<Rightarrow> [] | Some (v, r) \<Rightarrow> v # walk h n r))"

lemma walk_linked: "linked h p as q \<Longrightarrow> walk h (length as) p = node_values h as"
  by (induction as arbitrary: p) auto

end
