(* ===== verification/Queue.thy ===== *)
theory Queue
  imports Containers
begin

text \<open>
  \<open>queue.hpp\<close>: a queue in a ring that grows, with one place unused, and one of linked nodes.  The places have
  type \<open>size_t\<close> and are natural numbers; the differences of the code wrap, but are taken modulo the capacity
  after it was added.  Growing computes the new capacity as an \<open>int\<close>, and counts with one: \<open>nint\<close> says where these
  leave their range.
\<close>

section \<open>ArrayQueue\<close>

record 'a array_queue =
  aq_data :: "'a slots"
  aq_front :: nat
  aq_rear :: nat
  aq_capacity :: nat

definition aq_DefaultSize :: nat where "aq_DefaultSize = 16"
definition aq_ResizeLimit :: nat where "aq_ResizeLimit = 1024"

definition aq_new :: "'a \<Rightarrow> 'a array_queue" where
  "aq_new init = \<lparr>aq_data = new_slots aq_DefaultSize init, aq_front = 0, aq_rear = 0, aq_capacity = aq_DefaultSize\<rparr>"

definition aq_size :: "'a array_queue \<Rightarrow> nat" where
  "aq_size q = (aq_rear q + aq_capacity q - aq_front q) mod aq_capacity q"

definition aq_empty :: "'a array_queue \<Rightarrow> bool" where
  "aq_empty q \<longleftrightarrow> aq_rear q = aq_front q"

definition aq_full :: "'a array_queue \<Rightarrow> bool" where
  "aq_full q \<longleftrightarrow> (aq_rear q + 1) mod aq_capacity q = aq_front q"

definition queue_empty :: string where
  "queue_empty = ''queue is empty''"

definition aq_head :: "'a array_queue \<Rightarrow> 'a outcome" where
  "aq_head q = (if aq_empty q then Some (Inl queue_empty) else map_option Inr (slot_read (aq_data q) (aq_front q)))"

text \<open>\<open>rear_ - 1\<close> is outside the array when \<open>rear_\<close> is 0.\<close>

definition aq_tail :: "'a array_queue \<Rightarrow> 'a outcome" where
  "aq_tail q = (if aq_empty q then Some (Inl queue_empty)
     else if aq_rear q = 0 then None
     else map_option Inr (slot_read (aq_data q) (aq_rear q - 1)))"

definition aq_resize :: "'a \<Rightarrow> 'a array_queue \<Rightarrow> 'a array_queue option" where
  "aq_resize init q = (if \<not> aq_full q then Some q
     else let len = (if aq_capacity q > aq_ResizeLimit then aq_capacity q + aq_ResizeLimit
                     else if aq_capacity q \<noteq> 0 then 2 * aq_capacity q else aq_DefaultSize);
              already_have = aq_size q in do {
       len \<leftarrow> nint len;
       let tmp = new_slots len init;
       i \<leftarrow> nint already_have;
       tmp \<leftarrow> slot_copy (\<lambda>i. (i + aq_front q) mod aq_capacity q) (aq_data q) [0..<i] tmp;
       Some (q\<lparr>aq_front := 0, aq_rear := already_have, aq_capacity := len, aq_data := tmp\<rparr>) })"

definition aq_push :: "'a \<Rightarrow> 'a \<Rightarrow> 'a array_queue \<Rightarrow> 'a array_queue option" where
  "aq_push init val q = do {
     q \<leftarrow> aq_resize init q;
     data \<leftarrow> slot_assign (aq_data q) (aq_rear q) val;
     Some (q\<lparr>aq_data := data, aq_rear := (aq_rear q + 1) mod aq_capacity q\<rparr>) }"

definition aq_pop :: "bool \<Rightarrow> 'a array_queue \<Rightarrow> 'a array_queue outcome" where
  "aq_pop trivial q = (if aq_empty q then Some (Inl queue_empty)
     else do {
       data \<leftarrow> slot_destroy trivial (aq_data q) (aq_front q);
       Some (Inr (q\<lparr>aq_data := data, aq_front := (aq_front q + 1) mod aq_capacity q\<rparr>)) })"

definition aq_content :: "'a array_queue \<Rightarrow> 'a list" where
  "aq_content q = map (\<lambda>i. the (aq_data q ! ((aq_front q + i) mod aq_capacity q))) [0..<aq_size q]"

definition aq_inv :: "'a array_queue \<Rightarrow> bool" where
  "aq_inv q \<longleftrightarrow> 1 < aq_capacity q \<and> length (aq_data q) = aq_capacity q \<and> aq_front q < aq_capacity q \<and>
     aq_rear q < aq_capacity q \<and> alive (aq_data q)"

lemma aq_rear_from_size: "aq_inv q \<Longrightarrow> aq_rear q = (aq_front q + aq_size q) mod aq_capacity q \<and> aq_size q < aq_capacity q"
  by (cases "aq_front q \<le> aq_rear q") (auto simp: aq_inv_def aq_size_def mod_if)

lemma aq_empty_size: "aq_inv q \<Longrightarrow> aq_empty q \<longleftrightarrow> aq_size q = 0"
  by (cases "aq_front q \<le> aq_rear q") (auto simp: aq_inv_def aq_size_def aq_empty_def mod_if)

lemma aq_full_size: "aq_inv q \<Longrightarrow> aq_full q \<longleftrightarrow> aq_size q + 1 = aq_capacity q"
  by (cases "aq_front q \<le> aq_rear q") (auto simp: aq_inv_def aq_size_def aq_full_def mod_if split: if_splits)

lemma aq_new_correct [simp]: "aq_inv (aq_new v)" "aq_content (aq_new v) = []"
  by (simp_all add: aq_inv_def aq_new_def aq_content_def aq_size_def aq_DefaultSize_def)

text \<open>A queue with given places and given elements.\<close>

lemma aq_sizeI:
  assumes "aq_front q < aq_capacity q" and "n < aq_capacity q" and "aq_rear q = (aq_front q + n) mod aq_capacity q"
  shows "aq_size q = n"
  using ring_size [OF assms(1,2)] assms(3) by (simp add: aq_size_def)

definition aq_room :: nat where
  "aq_room = 2 ^ 30"

lemma aq_resize_correct:
  assumes "aq_inv q" and "aq_size q < aq_room"
  shows "\<exists>r. aq_resize v q = Some r \<and> aq_inv r \<and> aq_content r = aq_content q \<and> aq_size r + 1 < aq_capacity r \<and> aq_size r = aq_size q"
proof (cases "aq_full q")
  case False
  then show ?thesis using assms(1) aq_full_size [OF assms(1)] aq_rear_from_size [OF assms(1)] by (auto simp: aq_resize_def)
next
  case True
  have inv: "1 < aq_capacity q" "length (aq_data q) = aq_capacity q" "alive (aq_data q)" using assms(1) by (auto simp: aq_inv_def)
  define len where "len = (if aq_capacity q > aq_ResizeLimit then aq_capacity q + aq_ResizeLimit
      else if aq_capacity q \<noteq> 0 then 2 * aq_capacity q else aq_DefaultSize)"
  have len: "aq_capacity q < len" using inv(1) by (auto simp: len_def aq_ResizeLimit_def)
  have size: "aq_size q < aq_capacity q" using aq_rear_from_size [OF assms(1)] by simp
  have "aq_capacity q \<le> 2 ^ 30" using assms(2) aq_full_size [OF assms(1)] True by (simp add: aq_room_def)
  then have fits: "nint len = Some len" "nint (aq_size q) = Some (aq_size q)"
    using size by (simp_all add: nint_def int_limits len_def aq_ResizeLimit_def aq_DefaultSize_def)
  define tmp where "tmp = map (\<lambda>i. aq_data q ! ((i + aq_front q) mod aq_capacity q)) [0..<aq_size q] @ drop (aq_size q) (new_slots len v)"
  define r where "r = q\<lparr>aq_front := 0, aq_rear := aq_size q, aq_capacity := len, aq_data := tmp\<rparr>"
  have "slot_copy (\<lambda>i. (i + aq_front q) mod aq_capacity q) (aq_data q) [0..<aq_size q] (new_slots len v) = Some tmp"
    unfolding tmp_def using inv size len by (intro slot_copy_all) auto
  then have run: "aq_resize v q = Some r" using True unfolding aq_resize_def r_def Let_def len_def [symmetric] by (simp add: fits)
  have "alive tmp" using inv(2,3) inv(1) by (auto simp: tmp_def dest!: in_set_dropD) (metis mod_less_divisor gr_implies_not0 neq0_conv nth_mem)
  moreover have "length tmp = len" using size len by (simp add: tmp_def)
  ultimately have "aq_inv r" using inv(1) len size by (simp add: aq_inv_def r_def)
  moreover have rs: "aq_size r = aq_size q" using size len by (intro aq_sizeI) (auto simp: r_def)
  moreover have "aq_content r = aq_content q"
    using size len unfolding aq_content_def rs by (auto simp: r_def tmp_def nth_append add.commute)
  ultimately show ?thesis using run size len by (auto simp: r_def)
qed

lemma aq_content_length [simp]: "length (aq_content q) = aq_size q"
  by (simp add: aq_content_def)

lemma aq_push_correct:
  assumes "aq_inv q" and "aq_size q < aq_room"
  shows "\<exists>r. aq_push v x q = Some r \<and> aq_inv r \<and> aq_content r = aq_content q @ [x]"
proof -
  obtain r where r: "aq_resize v q = Some r" "aq_inv r" "aq_content r = aq_content q" "aq_size r + 1 < aq_capacity r"
    using aq_resize_correct [OF assms] by blast
  let ?f = "aq_front r" and ?c = "aq_capacity r" and ?n = "aq_size r"
  have inv: "1 < ?c" "length (aq_data r) = ?c" "alive (aq_data r)" "?f < ?c" using r(2) by (auto simp: aq_inv_def)
  have rear: "aq_rear r = (?f + ?n) mod ?c" "aq_rear r < length (aq_data r)"
    using aq_rear_from_size [OF r(2)] r(2) by (auto simp: aq_inv_def)
  define s where "s = r\<lparr>aq_data := (aq_data r)[aq_rear r := Some x], aq_rear := (aq_rear r + 1) mod ?c\<rparr>"
  have "aq_push v x q = Some s" using r(1) inv(3) rear(2) by (simp add: aq_push_def s_def)
  moreover have "aq_inv s" using r(2) alive_update [OF inv(3)] inv(1) by (simp add: aq_inv_def s_def)
  moreover have size: "aq_size s = Suc ?n"
    using inv(4) r(4) by (intro aq_sizeI) (simp_all add: s_def rear(1) mod_Suc_eq)
  moreover have "aq_content s = aq_content r @ [x]"
  proof -
    have "(aq_data r)[aq_rear r := Some x] ! ((?f + i) mod ?c) = aq_data r ! ((?f + i) mod ?c)" if "i < ?n" for i
      using ring_neq [OF that, of ?c ?f] r(4) rear(1) by simp
    then show ?thesis unfolding aq_content_def size using rear inv(2) by (auto simp: s_def)
  qed
  ultimately show ?thesis using r(3) by simp
qed

lemma aq_pop_correct:
  assumes "aq_inv q" and "aq_content q = x # xs"
  shows "\<exists>r. aq_pop True q = Some (Inr r) \<and> aq_inv r \<and> aq_content r = xs"
    and "aq_head q = Some (Inr x)"
proof -
  let ?f = "aq_front q" and ?c = "aq_capacity q"
  have inv: "1 < ?c" "length (aq_data q) = ?c" "alive (aq_data q)" "?f < ?c" using assms(1) by (auto simp: aq_inv_def)
  obtain n where n: "aq_size q = Suc n" using assms(2) by (cases "aq_size q") (auto simp: aq_content_def)
  have ne: "\<not> aq_empty q" using aq_empty_size [OF assms(1)] n by simp
  have rear: "aq_rear q = (?f + Suc n) mod ?c" "Suc n < ?c" using aq_rear_from_size [OF assms(1)] n by auto
  have content: "x = the (aq_data q ! ?f)" "xs = map (\<lambda>i. the (aq_data q ! ((?f + Suc i) mod ?c))) [0..<n]"
    using assms(2) inv(4) unfolding aq_content_def n by (auto simp: upt_conv_Cons map_Suc_upt [symmetric] simp del: upt_Suc map_Suc_upt)
  define r where "r = q\<lparr>aq_front := (?f + 1) mod ?c\<rparr>"
  have "aq_pop True q = Some (Inr r)" using ne inv by (simp add: aq_pop_def r_def)
  moreover have "aq_inv r" using assms(1) by (auto simp: aq_inv_def r_def)
  moreover have "aq_size r = n" using inv(1) rear by (intro aq_sizeI) (auto simp: r_def mod_simps)
  then have "aq_content r = xs" unfolding aq_content_def content by (auto simp: r_def mod_simps)
  ultimately show "\<exists>r. aq_pop True q = Some (Inr r) \<and> aq_inv r \<and> aq_content r = xs" by blast
  show "aq_head q = Some (Inr x)" using ne inv content(1) by (simp add: aq_head_def)
qed

interpretation array_queue: fifo aq_inv aq_content queue_empty "aq_push init" "aq_pop True" aq_head aq_room
proof
  show "aq_pop True q = Some (Inl queue_empty)" "aq_head q = Some (Inl queue_empty)" if "aq_inv q" "aq_content q = []" for q :: "'a array_queue"
    using that aq_empty_size [OF that(1)] by (simp_all add: aq_content_def aq_pop_def aq_head_def)
qed (auto dest: aq_push_correct aq_pop_correct)

text \<open>The last element is found unless the next free place is the first of the array.\<close>

lemma aq_tail_correct:
  assumes "aq_inv q" and "aq_content q = xs @ [x]"
  shows "aq_tail q = (if aq_rear q = 0 then None else Some (Inr x))"
proof -
  let ?f = "aq_front q" and ?c = "aq_capacity q"
  have inv: "1 < ?c" "length (aq_data q) = ?c" "alive (aq_data q)" "?f < ?c" using assms(1) by (auto simp: aq_inv_def)
  obtain n where n: "aq_size q = Suc n" using assms(2) by (cases "aq_size q") (auto simp: aq_content_def)
  have rear: "aq_rear q = (?f + Suc n) mod ?c" "Suc n < ?c" using aq_rear_from_size [OF assms(1)] n by auto
  have x: "x = the (aq_data q ! ((?f + n) mod ?c))" using assms(2) unfolding aq_content_def n by simp
  have "aq_rear q - 1 = (?f + n) mod ?c" if "aq_rear q \<noteq> 0" using that rear(1) by (simp add: mod_Suc split: if_splits)
  then show ?thesis using aq_empty_size [OF assms(1)] n inv x by (auto simp: aq_tail_def)
qed

section \<open>LinkedListQueue\<close>

record 'a list_queue =
  lq_head :: "nat option"
  lq_tail :: "nat option"
  lq_size :: nat
  lq_nodes :: "'a nodes"
  lq_fresh :: nat

definition lq_new :: "'a list_queue" where
  "lq_new = \<lparr>lq_head = None, lq_tail = None, lq_size = 0, lq_nodes = (\<lambda>_. None), lq_fresh = 0\<rparr>"

definition lq_empty :: "'a list_queue \<Rightarrow> bool" where
  "lq_empty q \<longleftrightarrow> lq_size q = 0"

definition lq_front :: "'a list_queue \<Rightarrow> 'a outcome" where
  "lq_front q = (if lq_empty q then Some (Inl queue_empty)
     else do { a \<leftarrow> lq_head q; (v, r) \<leftarrow> lq_nodes q a; Some (Inr v) })"

definition lq_back :: "'a list_queue \<Rightarrow> 'a outcome" where
  "lq_back q = (if lq_empty q then Some (Inl queue_empty)
     else do { a \<leftarrow> lq_tail q; (v, r) \<leftarrow> lq_nodes q a; Some (Inr v) })"

definition lq_push :: "'a \<Rightarrow> 'a list_queue \<Rightarrow> 'a list_queue option" where
  "lq_push val q = do {
     let node = lq_fresh q;
     let q = q\<lparr>lq_nodes := (lq_nodes q)(node \<mapsto> (val, None)), lq_fresh := node + 1\<rparr>;
     q \<leftarrow> (if lq_empty q then Some (q\<lparr>lq_tail := Some node, lq_head := Some node\<rparr>)
          else do {
            t \<leftarrow> lq_tail q;
            (v, r) \<leftarrow> lq_nodes q t;
            Some (q\<lparr>lq_nodes := (lq_nodes q)(t \<mapsto> (v, Some node)), lq_tail := Some node\<rparr>) });
     Some (q\<lparr>lq_size := lq_size q + 1\<rparr>) }"

text \<open>\<open>tail_\<close> still points to the last node when that was deleted.\<close>

definition lq_pop :: "'a list_queue \<Rightarrow> 'a list_queue outcome" where
  "lq_pop q = (if lq_empty q then Some (Inl queue_empty)
     else do {
       node \<leftarrow> lq_head q;
       (v, r) \<leftarrow> lq_nodes q node;
       Some (Inr (q\<lparr>lq_head := r, lq_size := lq_size q - 1, lq_nodes := (lq_nodes q)(node := None)\<rparr>)) })"

definition lq_content :: "'a list_queue \<Rightarrow> 'a list" where
  "lq_content q = walk (lq_nodes q) (lq_size q) (lq_head q)"

definition lq_chain :: "'a list_queue \<Rightarrow> nat list \<Rightarrow> bool" where
  "lq_chain q as \<longleftrightarrow> linked (lq_nodes q) (lq_head q) as None \<and> distinct as \<and> lq_size q = length as \<and>
     (\<forall>a \<in> set as. a < lq_fresh q) \<and> (as \<noteq> [] \<longrightarrow> lq_tail q = Some (last as))"

definition lq_inv :: "'a list_queue \<Rightarrow> bool" where
  "lq_inv q \<longleftrightarrow> (\<exists>as. lq_chain q as)"

lemma lq_content_chain: "lq_chain q as \<Longrightarrow> lq_content q = node_values (lq_nodes q) as"
  by (auto simp: lq_content_def lq_chain_def intro: walk_linked)

lemma lq_new_correct [simp]: "lq_inv lq_new" "lq_content lq_new = []"
  by (auto simp: lq_inv_def lq_chain_def lq_new_def lq_content_def intro: exI [of _ "[]"])

lemma lq_push_correct:
  assumes "lq_chain q as"
  shows "\<exists>r. lq_push x q = Some r \<and> lq_chain r (as @ [lq_fresh q]) \<and> lq_content r = lq_content q @ [x]"
proof (cases as rule: rev_cases)
  case Nil
  define r where "r = q\<lparr>lq_nodes := (lq_nodes q)(lq_fresh q \<mapsto> (x, None)), lq_fresh := lq_fresh q + 1, lq_tail := Some (lq_fresh q),
      lq_head := Some (lq_fresh q), lq_size := lq_size q + 1\<rparr>"
  have "lq_push x q = Some r" "lq_chain r [lq_fresh q]"
    using assms Nil by (simp_all add: lq_push_def lq_empty_def lq_chain_def Let_def r_def)
  then show ?thesis using lq_content_chain [OF assms] lq_content_chain [of r "[lq_fresh q]"] Nil by (simp add: r_def)
next
  case (snoc bs t)
  let ?n = "lq_fresh q"
  have c: "linked (lq_nodes q) (lq_head q) bs (Some t)" "t \<notin> set bs" "?n \<notin> set bs" "?n \<noteq> t" "lq_tail q = Some t" "distinct bs"
    using assms snoc by (auto simp: lq_chain_def linked_append)
  obtain v where v: "lq_nodes q t = Some (v, None)" using assms snoc by (auto simp: lq_chain_def linked_append)
  define h where "h = (lq_nodes q)(?n \<mapsto> (x, None), t \<mapsto> (v, Some ?n))"
  define r where "r = q\<lparr>lq_nodes := h, lq_fresh := ?n + 1, lq_tail := Some ?n, lq_size := lq_size q + 1\<rparr>"
  have run: "lq_push x q = Some r"
    using assms snoc c(4,5) v by (simp add: lq_push_def lq_empty_def lq_chain_def Let_def r_def h_def)
  have "linked h (lq_head q) bs (Some t)" using c(1-3) by (simp add: h_def linked_frame)
  then have "lq_chain r (as @ [?n])"
    using assms snoc c(2-4,6) by (auto simp: lq_chain_def r_def linked_append h_def)
  moreover have "node_values h (as @ [?n]) = node_values (lq_nodes q) as @ [x]"
    using c(2-4) v snoc by (simp add: h_def node_values_frame)
  ultimately show ?thesis using run lq_content_chain [OF assms] lq_content_chain [of r "as @ [?n]"] by (simp add: r_def)
qed

lemma lq_pop_correct:
  assumes "lq_chain q as" and "lq_content q = x # xs"
  shows "\<exists>r. lq_pop q = Some (Inr r) \<and> lq_inv r \<and> lq_content r = xs" and "lq_front q = Some (Inr x)"
proof -
  obtain a bs where as: "as = a # bs" using assms lq_content_chain [OF assms(1)] by (cases as) auto
  then obtain v p where v: "lq_nodes q a = Some (v, p)" "lq_head q = Some a" "linked (lq_nodes q) p bs None" "lq_size q \<noteq> 0"
    using assms(1) by (auto simp: lq_chain_def)
  have xs: "x = v" "xs = node_values (lq_nodes q) bs" using assms lq_content_chain [OF assms(1)] as v by auto
  have a: "a \<notin> set bs" using assms(1) as by (auto simp: lq_chain_def)
  define r where "r = q\<lparr>lq_head := p, lq_size := lq_size q - 1, lq_nodes := (lq_nodes q)(a := None)\<rparr>"
  have "lq_pop q = Some (Inr r)" using v by (simp add: lq_pop_def lq_empty_def r_def)
  moreover have "lq_chain r bs" using assms(1) as v a by (auto simp: lq_chain_def r_def linked_frame)
  moreover from this have "lq_content r = xs" using lq_content_chain [of r bs] a by (simp add: r_def xs node_values_frame)
  ultimately show "\<exists>r. lq_pop q = Some (Inr r) \<and> lq_inv r \<and> lq_content r = xs" unfolding lq_inv_def by blast
  show "lq_front q = Some (Inr x)" using v xs by (simp add: lq_front_def lq_empty_def)
qed

interpretation list_queue: fifo lq_inv lq_content queue_empty lq_push lq_pop lq_front room for room
proof
  show "length (xs @ [v]) = Suc (length xs)" for v :: 'a and xs by simp
  fix q :: "'a list_queue"
  assume "lq_inv q"
  then obtain as where as: "lq_chain q as" unfolding lq_inv_def by blast
  show "\<exists>s'. lq_push v q = Some s' \<and> lq_inv s' \<and> lq_content s' = lq_content q @ [v]" for v
    using lq_push_correct [OF as] unfolding lq_inv_def by blast
  show "\<exists>s'. lq_pop q = Some (Inr s') \<and> lq_inv s' \<and> lq_content s' = xs" "lq_front q = Some (Inr x)" if "lq_content q = x # xs" for x xs
    using lq_pop_correct [OF as that] .
  show "lq_pop q = Some (Inl queue_empty)" "lq_front q = Some (Inl queue_empty)" if "lq_content q = []"
    using that lq_content_chain [OF as] as by (cases as; simp add: lq_pop_def lq_front_def lq_empty_def lq_chain_def)+
qed

lemma lq_back_correct:
  assumes "lq_inv q" and "lq_content q = xs @ [x]"
  shows "lq_back q = Some (Inr x)"
proof -
  obtain as where as: "lq_chain q as" using assms(1) unfolding lq_inv_def by blast
  then obtain bs b where b: "as = bs @ [b]" using assms(2) lq_content_chain [OF as] by (cases as rule: rev_cases) auto
  have "lq_tail q = Some b" "lq_size q \<noteq> 0" using as b by (auto simp: lq_chain_def)
  moreover obtain v where "lq_nodes q b = Some (v, None)" using as b by (auto simp: lq_chain_def linked_append)
  ultimately show ?thesis using assms(2) lq_content_chain [OF as] b by (simp add: lq_back_def lq_empty_def)
qed

lemma lq_back_empty:
  assumes "lq_inv q" and "lq_content q = []"
  shows "lq_back q = Some (Inl queue_empty)"
proof -
  obtain as where as: "lq_chain q as" using assms(1) unfolding lq_inv_def by blast
  then show ?thesis using assms(2) lq_content_chain [OF as] by (cases as) (simp_all add: lq_back_def lq_empty_def lq_chain_def)
qed

section \<open>What the queues guarantee\<close>

text \<open>
  C36: Both queues give their elements in the order they came: every sequence of at most 2^30 calls of \<open>push\<close>, \<open>pop\<close>
  and \<open>front\<close> on a new queue is defined, when the destructor of the elements in the array does nothing, and answers as
  the operations on a list, exceptions for an empty queue included.  After it \<open>back\<close> of the linked queue gives the
  last element; that of the array gives it, too, unless the next free place is the first of the array: then it reads
  before the array.
\<close>

theorem queues_are_fifo:
  assumes "length ops \<le> 2 ^ 30"
  shows "\<exists>as s t xs. run_seq (aq_push init) (aq_pop True) aq_head ops (aq_new init) = Some (as, s) \<and>
    run_seq lq_push lq_pop lq_front ops lq_new = Some (as, t) \<and> fifo_run queue_empty ops [] = Some (as, xs) \<and>
    aq_content s = xs \<and> lq_content t = xs \<and>
    (xs \<noteq> [] \<longrightarrow> lq_back t = Some (Inr (last xs)) \<and> aq_tail s = (if aq_rear s = 0 then None else Some (Inr (last xs)))) \<and>
    (xs = [] \<longrightarrow> lq_back t = Some (Inl queue_empty) \<and> aq_tail s = Some (Inl queue_empty))"
proof -
  obtain as s where s: "run_seq (aq_push init) (aq_pop True) aq_head ops (aq_new init) = Some (as, s)" "aq_inv s"
      "fifo_run queue_empty ops [] = Some (as, aq_content s)"
    using array_queue.fifo_refines [OF aq_new_correct(1) [of init], of ops init] assms by (auto simp: aq_room_def)
  obtain t where t: "run_seq lq_push lq_pop lq_front ops lq_new = Some (as, t)" "lq_inv t" "lq_content t = aq_content s"
    using list_queue.fifo_refines [OF lq_new_correct(1), of ops "length ops"] s(3) by auto
  show ?thesis
  proof (cases "aq_content s" rule: rev_cases)
    case Nil
    then show ?thesis using s t lq_back_empty [OF t(2)] aq_empty_size [OF s(2)]
      by (auto simp: aq_tail_def simp flip: aq_content_length)
  next
    case (snoc ys y)
    then show ?thesis using s t aq_tail_correct [OF s(2)] lq_back_correct [OF t(2)] by auto
  qed
qed

theorem queues_are_fifo_witness:
  "\<exists>as s t xs. run_seq (aq_push 0) (aq_pop True) aq_head [Push (7 :: nat), Peek, Push 8, Pop, Pop, Pop] (aq_new 0) = Some (as, s) \<and>
    run_seq lq_push lq_pop lq_front [Push 7, Peek, Push 8, Pop, Pop, Pop] lq_new = Some (as, t) \<and>
    fifo_run queue_empty [Push 7, Peek, Push 8, Pop, Pop, Pop] [] = Some (as, xs) \<and> aq_content s = xs \<and> lq_content t = xs \<and>
    as = [Done, Value 7, Done, Done, Done, Thrown queue_empty]"
proof -
  have "length [Push (7 :: nat), Peek, Push 8, Pop, Pop, Pop] \<le> 2 ^ 30" by simp
  from queues_are_fifo [OF this, of 0] obtain as s t xs where
    "run_seq (aq_push 0) (aq_pop True) aq_head [Push (7 :: nat), Peek, Push 8, Pop, Pop, Pop] (aq_new 0) = Some (as, s)"
    "run_seq lq_push lq_pop lq_front [Push 7, Peek, Push 8, Pop, Pop, Pop] lq_new = Some (as, t)"
    "fifo_run queue_empty [Push 7, Peek, Push 8, Pop, Pop, Pop] [] = Some (as, xs)" "aq_content s = xs" "lq_content t = xs"
    by blast
  then show ?thesis by (auto simp: fifo_run_def)
qed

text \<open>
  After fifteen elements and one more in the place of the first, the last element of the array queue is in
  the last place of the ring, and \<open>back\<close> reads before the array.
\<close>

lemma aq_back_outside_array:
  "case run_seq (aq_push 0) (aq_pop True) aq_head (replicate 15 (Push (7::nat)) @ [Pop, Push 8]) (aq_new 0) of
    None \<Rightarrow> False | Some (as, q) \<Rightarrow> aq_size q = 15 \<and> Option.is_none (aq_tail q)"
  by code_simp

text \<open>With a destructor that does something, an object is assigned to after it was destroyed.\<close>

lemma aq_assigns_to_destroyed:
  "Option.is_none (run_seq (aq_push 0) (aq_pop False) aq_head (replicate 15 (Push (7::nat)) @ [Pop, Push 8, Pop, Push 9]) (aq_new 0))"
  by code_simp

end
