(* ===== verification/Stack.thy ===== *)
theory Stack
  imports Containers
begin

text \<open>
  \<open>stack.hpp\<close>: a stack in an array that grows and one of linked nodes.  Memory for 2^64 elements or more is
  not considered.
\<close>

section \<open>ArrayStack\<close>

record 'a array_stack =
  as_ptr :: "'a slots"
  as_capacity :: nat
  as_size :: nat

definition as_default_size :: nat where "as_default_size = 32"
definition as_realloclimit :: nat where "as_realloclimit = 1024"

definition as_new :: "'a \<Rightarrow> 'a array_stack" where
  "as_new init = \<lparr>as_ptr = new_slots as_default_size init, as_capacity = as_default_size, as_size = 0\<rparr>"

definition as_new_len :: "'a \<Rightarrow> nat \<Rightarrow> 'a array_stack" where
  "as_new_len init n = (let len = (if n < as_default_size then as_default_size else n) in
     \<lparr>as_ptr = new_slots len init, as_capacity = len, as_size = 0\<rparr>)"

definition as_IsEmpty :: "'a array_stack \<Rightarrow> bool" where
  "as_IsEmpty s \<longleftrightarrow> as_size s = 0"

definition stack_empty :: string where
  "stack_empty = ''stack is empty''"

definition as_Top :: "'a array_stack \<Rightarrow> 'a outcome" where
  "as_Top s = (if as_IsEmpty s then Some (Inl stack_empty) else map_option Inr (slot_read (as_ptr s) (as_size s - 1)))"

definition as_Pop :: "bool \<Rightarrow> 'a array_stack \<Rightarrow> 'a array_stack outcome" where
  "as_Pop trivial s = (if as_IsEmpty s then Some (Inl stack_empty)
     else let s = s\<lparr>as_size := as_size s - 1\<rparr> in do {
       ptr \<leftarrow> slot_destroy trivial (as_ptr s) (as_size s);
       Some (Inr (s\<lparr>as_ptr := ptr\<rparr>)) })"

text \<open>The larger array of \<open>Push\<close>.\<close>

definition as_grow :: "'a \<Rightarrow> 'a array_stack \<Rightarrow> 'a array_stack option" where
  "as_grow init s = (let capacity = (if as_capacity s < as_realloclimit then as_capacity s * 2 else as_capacity s + as_realloclimit) in do {
     tmp \<leftarrow> slot_copy (\<lambda>i. i) (as_ptr s) [0..<as_size s] (new_slots capacity init);
     Some (s\<lparr>as_capacity := capacity, as_ptr := tmp\<rparr>) })"

definition as_Push :: "'a \<Rightarrow> 'a \<Rightarrow> 'a array_stack \<Rightarrow> 'a array_stack option" where
  "as_Push init val s = do {
     s \<leftarrow> (if as_capacity s < as_size s + 1 then as_grow init s else Some s);
     ptr \<leftarrow> slot_assign (as_ptr s) (as_size s) val;
     Some (s\<lparr>as_ptr := ptr, as_size := as_size s + 1\<rparr>) }"

text \<open>The iterators: from \<open>begin()\<close> to \<open>end()\<close>, that is from the bottom to the top.\<close>

definition as_elements :: "'a array_stack \<Rightarrow> 'a list" where
  "as_elements s = map the (take (as_size s) (as_ptr s))"

definition as_inv :: "'a array_stack \<Rightarrow> bool" where
  "as_inv s \<longleftrightarrow> 0 < as_capacity s \<and> length (as_ptr s) = as_capacity s \<and> as_size s \<le> as_capacity s \<and> alive (as_ptr s)"

abbreviation as_content :: "'a array_stack \<Rightarrow> 'a list" where
  "as_content s \<equiv> rev (as_elements s)"

lemma as_new_correct [simp]: "as_inv (as_new v)" "as_elements (as_new v) = []" "as_inv (as_new_len v n)" "as_elements (as_new_len v n) = []"
  by (simp_all add: as_inv_def as_new_def as_new_len_def as_elements_def as_default_size_def Let_def)

lemma as_grow_correct:
  assumes "as_inv s"
  shows "\<exists>t. as_grow v s = Some t \<and> as_inv t \<and> as_elements t = as_elements s \<and> as_size t = as_size s \<and> as_size s < as_capacity t"
proof -
  let ?grown = "if as_capacity s < as_realloclimit then as_capacity s * 2 else as_capacity s + as_realloclimit"
  have inv: "length (as_ptr s) = as_capacity s" "as_size s \<le> as_capacity s" "alive (as_ptr s)" "0 < as_capacity s"
    using assms by (auto simp: as_inv_def)
  have grown: "as_capacity s < ?grown" using inv(4) by (simp add: as_realloclimit_def)
  let ?tmp = "map (\<lambda>i. as_ptr s ! i) [0..<as_size s] @ drop (as_size s) (new_slots ?grown v)"
  have copy: "slot_copy (\<lambda>i. i) (as_ptr s) [0..<as_size s] (new_slots ?grown v) = Some ?tmp"
    using inv grown by (intro slot_copy_all) auto
  have take: "map (\<lambda>i. as_ptr s ! i) [0..<as_size s] = take (as_size s) (as_ptr s)"
    using inv by (intro nth_equalityI) auto
  have "alive ?tmp" using inv(3) unfolding take by (auto dest!: in_set_takeD in_set_dropD)
  define t where "t = s\<lparr>as_capacity := ?grown, as_ptr := ?tmp\<rparr>"
  have "as_grow v s = Some t" unfolding as_grow_def Let_def copy t_def by simp
  moreover have "as_inv t" using \<open>alive ?tmp\<close> inv grown by (auto simp: as_inv_def t_def)
  moreover have "as_elements t = as_elements s" using inv(1,2) unfolding as_elements_def t_def take by simp
  ultimately show ?thesis using inv(2) grown by (auto simp: t_def)
qed

lemma as_push_correct:
  assumes "as_inv s"
  shows "\<exists>t. as_Push v x s = Some t \<and> as_inv t \<and> as_elements t = as_elements s @ [x]"
proof -
  obtain t where t: "(if as_capacity s < as_size s + 1 then as_grow v s else Some s) = Some t" "as_inv t" "as_elements t = as_elements s"
      "as_size t < as_capacity t"
    using as_grow_correct [OF assms, of v] assms by (cases "as_capacity s < as_size s + 1") auto
  define r where "r = t\<lparr>as_ptr := (as_ptr t)[as_size t := Some x], as_size := as_size t + 1\<rparr>"
  have ti: "length (as_ptr t) = as_capacity t" "alive (as_ptr t)" using t(2) by (auto simp: as_inv_def)
  have "as_Push v x s = Some r" using t(4) ti unfolding as_Push_def t(1) by (simp add: r_def)
  moreover have "as_inv r" using t(2,4) alive_update [OF ti(2)] by (auto simp: as_inv_def r_def)
  moreover have "as_elements r = as_elements t @ [x]"
    using t(4) ti by (simp add: as_elements_def r_def take_Suc_conv_app_nth)
  ultimately show ?thesis using t(3) by simp
qed

interpretation array_stack: lifo as_inv as_content stack_empty "as_Push init" "as_Pop True" as_Top room for room
proof
  show "length (v # xs) = Suc (length xs)" for v :: 'a and xs by simp
  fix s :: "'a array_stack"
  assume s: "as_inv s"
  show "\<exists>s'. as_Push init v s = Some s' \<and> as_inv s' \<and> as_content s' = v # as_content s" for v
    using as_push_correct [OF s] by fastforce
  have size: "as_size s \<le> length (as_ptr s)" "alive (as_ptr s)" using s by (auto simp: as_inv_def)
  show "\<exists>s'. as_Pop True s = Some (Inr s') \<and> as_inv s' \<and> as_content s' = xs" "as_Top s = Some (Inr x)" if c: "as_content s = x # xs" for x xs
  proof -
    obtain n where n: "as_size s = Suc n" "n < length (as_ptr s)" using c size by (cases "as_size s") (auto simp: as_elements_def)
    have "as_elements s = map the (take n (as_ptr s)) @ [the (as_ptr s ! n)]"
      using n by (simp add: as_elements_def take_Suc_conv_app_nth)
    then have x: "x = the (as_ptr s ! n)" "xs = rev (map the (take n (as_ptr s)))" using c by auto
    show "as_Top s = Some (Inr x)" using n size by (simp add: as_Top_def as_IsEmpty_def x)
    show "\<exists>s'. as_Pop True s = Some (Inr s') \<and> as_inv s' \<and> as_content s' = xs"
      using n size s by (simp add: as_Pop_def as_IsEmpty_def Let_def x as_inv_def as_elements_def)
  qed
  show "as_Pop True s = Some (Inl stack_empty)" "as_Top s = Some (Inl stack_empty)" if "as_content s = []"
    using that s by (auto simp: as_Pop_def as_Top_def as_IsEmpty_def as_elements_def as_inv_def)
qed

section \<open>LinkedListStack\<close>

record 'a list_stack =
  ls_head :: "nat option"
  ls_size :: nat
  ls_nodes :: "'a nodes"
  ls_fresh :: nat

definition ls_new :: "'a list_stack" where
  "ls_new = \<lparr>ls_head = None, ls_size = 0, ls_nodes = (\<lambda>_. None), ls_fresh = 0\<rparr>"

definition ls_IsEmpty :: "'a list_stack \<Rightarrow> bool" where
  "ls_IsEmpty s \<longleftrightarrow> ls_size s = 0 \<or> Option.is_none (ls_head s)"

definition ls_Top :: "'a list_stack \<Rightarrow> 'a outcome" where
  "ls_Top s = (if ls_IsEmpty s then Some (Inl stack_empty) else do { a \<leftarrow> ls_head s; (v, r) \<leftarrow> ls_nodes s a; Some (Inr v) })"

definition ls_Pop :: "'a list_stack \<Rightarrow> 'a list_stack outcome" where
  "ls_Pop s = (if ls_IsEmpty s then Some (Inl stack_empty)
     else do {
       temp \<leftarrow> ls_head s;
       (v, r) \<leftarrow> ls_nodes s temp;
       Some (Inr (s\<lparr>ls_head := r, ls_size := ls_size s - 1, ls_nodes := (ls_nodes s)(temp := None)\<rparr>)) })"

definition ls_Push :: "'a \<Rightarrow> 'a list_stack \<Rightarrow> 'a list_stack option" where
  "ls_Push val s = (let node = ls_fresh s in
     Some (s\<lparr>ls_nodes := (ls_nodes s)(node \<mapsto> (val, ls_head s)), ls_head := Some node, ls_size := ls_size s + 1, ls_fresh := node + 1\<rparr>))"

text \<open>The destructor: the nodes that are left when the loop over them ends; \<open>None\<close> if it meets a freed one.\<close>

fun ls_delete :: "nat \<Rightarrow> nat option \<Rightarrow> 'a nodes \<Rightarrow> 'a nodes option" where
  "ls_delete fuel None h = Some h"
| "ls_delete 0 (Some a) h = None"
| "ls_delete (Suc fuel) (Some a) h = do { (v, temp) \<leftarrow> h a; ls_delete fuel temp (h(a := None)) }"

definition ls_content :: "'a list_stack \<Rightarrow> 'a list" where
  "ls_content s = walk (ls_nodes s) (ls_size s) (ls_head s)"

definition ls_chain :: "'a list_stack \<Rightarrow> nat list \<Rightarrow> bool" where
  "ls_chain s as \<longleftrightarrow> linked (ls_nodes s) (ls_head s) as None \<and> distinct as \<and> ls_size s = length as \<and>
     set as = dom (ls_nodes s) \<and> (\<forall>a \<in> set as. a < ls_fresh s)"

definition ls_inv :: "'a list_stack \<Rightarrow> bool" where
  "ls_inv s \<longleftrightarrow> (\<exists>as. ls_chain s as)"

lemma ls_content_chain: "ls_chain s as \<Longrightarrow> ls_content s = node_values (ls_nodes s) as"
  by (auto simp: ls_content_def ls_chain_def intro: walk_linked)

lemma ls_new_correct [simp]: "ls_inv ls_new" "ls_content ls_new = []"
  by (auto simp: ls_inv_def ls_chain_def ls_new_def ls_content_def intro: exI [of _ "[]"])

lemma ls_push_correct:
  assumes "ls_chain s as"
  shows "\<exists>t. ls_Push v s = Some t \<and> ls_chain t (ls_fresh s # as) \<and> ls_content t = v # ls_content s"
proof -
  have f: "ls_fresh s \<notin> set as" using assms by (auto simp: ls_chain_def)
  define t where "t = s\<lparr>ls_nodes := (ls_nodes s)(ls_fresh s \<mapsto> (v, ls_head s)), ls_head := Some (ls_fresh s), ls_size := ls_size s + 1,
      ls_fresh := ls_fresh s + 1\<rparr>"
  have "ls_chain t (ls_fresh s # as)" using assms f
    by (auto simp: ls_chain_def t_def linked_frame) (metis domI less_SucI)
  then show ?thesis using ls_content_chain [OF assms] ls_content_chain [of t "ls_fresh s # as"] f
    by (simp add: ls_Push_def Let_def t_def node_values_frame)
qed

lemma ls_pop_correct:
  assumes "ls_chain s as" and "ls_content s = x # xs"
  shows "\<exists>t. ls_Pop s = Some (Inr t) \<and> ls_inv t \<and> ls_content t = xs" and "ls_Top s = Some (Inr x)"
proof -
  obtain a bs where as: "as = a # bs" using assms ls_content_chain [OF assms(1)] by (cases as) auto
  then obtain v p where v: "ls_nodes s a = Some (v, p)" "ls_head s = Some a" "linked (ls_nodes s) p bs None" "ls_size s \<noteq> 0"
    using assms(1) by (auto simp: ls_chain_def)
  have xs: "x = v" "xs = node_values (ls_nodes s) bs" using assms ls_content_chain [OF assms(1)] as v by auto
  have a: "a \<notin> set bs" using assms(1) as by (auto simp: ls_chain_def)
  define t where "t = s\<lparr>ls_head := p, ls_size := ls_size s - 1, ls_nodes := (ls_nodes s)(a := None)\<rparr>"
  have "ls_Pop s = Some (Inr t)" using v by (simp add: ls_Pop_def ls_IsEmpty_def t_def)
  moreover have "ls_chain t bs" using assms(1) as v a by (auto simp: ls_chain_def t_def linked_frame)
  moreover from this have "ls_content t = xs" using ls_content_chain [of t bs] a by (simp add: t_def xs node_values_frame)
  ultimately show "\<exists>t. ls_Pop s = Some (Inr t) \<and> ls_inv t \<and> ls_content t = xs" unfolding ls_inv_def by blast
  show "ls_Top s = Some (Inr x)" using v xs by (simp add: ls_Top_def ls_IsEmpty_def)
qed

interpretation list_stack: lifo ls_inv ls_content stack_empty ls_Push ls_Pop ls_Top room for room
proof
  show "length (v # xs) = Suc (length xs)" for v :: 'a and xs by simp
  fix s :: "'a list_stack"
  assume "ls_inv s"
  then obtain as where as: "ls_chain s as" unfolding ls_inv_def by blast
  show "\<exists>s'. ls_Push v s = Some s' \<and> ls_inv s' \<and> ls_content s' = v # ls_content s" for v
    using ls_push_correct [OF as] unfolding ls_inv_def by blast
  show "\<exists>s'. ls_Pop s = Some (Inr s') \<and> ls_inv s' \<and> ls_content s' = xs" "ls_Top s = Some (Inr x)" if "ls_content s = x # xs" for x xs
    using ls_pop_correct [OF as that] .
  show "ls_Pop s = Some (Inl stack_empty)" "ls_Top s = Some (Inl stack_empty)" if "ls_content s = []"
    using that ls_content_chain [OF as] as by (cases as; simp add: ls_Pop_def ls_Top_def ls_IsEmpty_def ls_chain_def)+
qed

section \<open>What the stacks guarantee\<close>

lemma ls_delete_frees:
  assumes "linked h p as None" and "distinct as" and "set as = dom h" and "length as \<le> fuel"
  shows "ls_delete fuel p h = Some (\<lambda>_. None)"
  using assms
proof (induction as arbitrary: fuel p h)
  case Nil
  then have "dom h = {}" by simp
  then have "h = (\<lambda>_. None)" by (simp only: dom_eq_empty_conv)
  then show ?case using Nil(1) by simp
next
  case (Cons a as)
  then obtain n where n: "fuel = Suc n" by (cases fuel) auto
  obtain v r where v: "h a = Some (v, r)" "linked h r as None" "p = Some a" using Cons.prems(1) by auto
  have a: "a \<notin> set as" using Cons.prems(2) by simp
  have "set as = dom (h(a := None))" using Cons.prems(3) a by auto
  then have "ls_delete n r (h(a := None)) = Some (\<lambda>_. None)"
    using Cons.prems(2,4) n v(2) a by (intro Cons.IH) (simp_all only: linked_frame distinct.simps length_Cons Suc_le_mono)
  then show ?case using n v by simp
qed

text \<open>
  Both stacks give their elements in the opposite order: every sequence of operations on a new stack is
  defined, for elements with a trivial destructor in the array, and answers as the operations on a list,
  exceptions for an empty stack included; and the destructor of the linked stack then frees every node
  exactly once.
\<close>

theorem stacks_are_lifo:
  "\<exists>as s t xs. run_seq (as_Push init) (as_Pop True) as_Top ops (as_new init) = Some (as, s) \<and>
    run_seq ls_Push ls_Pop ls_Top ops ls_new = Some (as, t) \<and> lifo_run stack_empty ops [] = Some (as, xs) \<and>
    as_content s = xs \<and> ls_content t = xs \<and> ls_delete (ls_size t) (ls_head t) (ls_nodes t) = Some (\<lambda>_. None)"
proof -
  obtain as s where s: "run_seq (as_Push init) (as_Pop True) as_Top ops (as_new init) = Some (as, s)" "lifo_run stack_empty ops [] = Some (as, as_content s)"
    using array_stack.lifo_refines [OF as_new_correct(1) [of init], of ops "length ops" init] by auto
  obtain t where t: "run_seq ls_Push ls_Pop ls_Top ops ls_new = Some (as, t)" "ls_inv t" "as_content s = ls_content t"
    using list_stack.lifo_refines [OF ls_new_correct(1), of ops "length ops"] s(2) by auto
  have "ls_delete (ls_size t) (ls_head t) (ls_nodes t) = Some (\<lambda>_. None)"
    using t(2) unfolding ls_inv_def ls_chain_def by (auto intro: ls_delete_frees)
  with s t show ?thesis by auto
qed

text \<open>An element with a destructor that does something is assigned to after \<open>Pop\<close> destroyed it.\<close>

lemma as_assigns_to_destroyed: "Option.is_none (run_seq (as_Push 0) (as_Pop False) as_Top [Push (1::nat), Pop, Push 2] (as_new 0))"
  by code_simp

end
