(* ===== verification/Deque.thy ===== *)
theory Deque
  imports Containers
begin

text \<open>
  \<open>deque.hpp\<close>: a deque in a ring that grows and one of doubly linked nodes.  As for the queue, places
  have type \<open>size_t\<close> and are natural numbers, \<open>i - 1 + capacity_\<close> is \<open>i + capacity_ - 1\<close>, and \<open>nint\<close> says where the
  new capacity or the counter of the copy leaves the range of \<open>int\<close>.
\<close>

section \<open>ArrayDeque\<close>

text \<open>\<open>front_\<close> and \<open>rear_\<close> are the next free places at the two ends.\<close>

record 'a array_deque =
  ad_data :: "'a slots"
  ad_size :: nat
  ad_capacity :: nat
  ad_front :: nat
  ad_rear :: nat

definition ad_DefaultSize :: nat where "ad_DefaultSize = 16"
definition ad_ResizeLimit :: nat where "ad_ResizeLimit = 1024"

definition ad_new :: "'a \<Rightarrow> 'a array_deque" where
  "ad_new init = \<lparr>ad_data = new_slots ad_DefaultSize init, ad_size = 0, ad_capacity = ad_DefaultSize, ad_front = 0, ad_rear = 0\<rparr>"

definition ad_empty :: "'a array_deque \<Rightarrow> bool" where
  "ad_empty d \<longleftrightarrow> ad_size d = 0"

definition deque_empty :: string where
  "deque_empty = ''deque is empty''"

definition ad_peek_front :: "'a array_deque \<Rightarrow> 'a outcome" where
  "ad_peek_front d = (if ad_empty d then Some (Inl deque_empty)
     else map_option Inr (slot_read (ad_data d) ((ad_front d + 1) mod ad_capacity d)))"

definition ad_peek_back :: "'a array_deque \<Rightarrow> 'a outcome" where
  "ad_peek_back d = (if ad_empty d then Some (Inl deque_empty)
     else map_option Inr (slot_read (ad_data d) ((ad_rear d + ad_capacity d - 1) mod ad_capacity d)))"

definition ad_resize :: "'a \<Rightarrow> 'a array_deque \<Rightarrow> 'a array_deque option" where
  "ad_resize init d = (if ad_size d < ad_capacity d then Some d
     else let len = (if ad_capacity d > ad_ResizeLimit then ad_capacity d + ad_ResizeLimit
                     else if ad_capacity d \<noteq> 0 then 2 * ad_capacity d else ad_DefaultSize);
              beg = (ad_front d + 1) mod ad_capacity d in do {
       len \<leftarrow> nint len;
       let tmp = new_slots len init;
       i \<leftarrow> nint (ad_size d);
       tmp \<leftarrow> slot_copy (\<lambda>i. (beg + i) mod ad_capacity d) (ad_data d) [0..<i] tmp;
       Some (d\<lparr>ad_capacity := len, ad_front := len - 1, ad_rear := ad_size d, ad_data := tmp\<rparr>) })"

text \<open>The empty deque whose free places are the same.\<close>

definition ad_start_front :: "'a array_deque \<Rightarrow> 'a array_deque" where
  "ad_start_front d = (if ad_empty d \<and> ad_front d = ad_rear d then d\<lparr>ad_rear := (ad_rear d + 1) mod ad_capacity d\<rparr> else d)"

definition ad_start_back :: "'a array_deque \<Rightarrow> 'a array_deque" where
  "ad_start_back d = (if ad_empty d \<and> ad_front d = ad_rear d
     then d\<lparr>ad_front := (ad_front d + ad_capacity d - 1) mod ad_capacity d\<rparr> else d)"

definition ad_push_front :: "'a \<Rightarrow> 'a \<Rightarrow> 'a array_deque \<Rightarrow> 'a array_deque option" where
  "ad_push_front init val d = do {
     d \<leftarrow> ad_resize init d;
     let d = ad_start_front d;
     data \<leftarrow> slot_assign (ad_data d) (ad_front d) val;
     Some (d\<lparr>ad_data := data, ad_front := (ad_front d + ad_capacity d - 1) mod ad_capacity d, ad_size := ad_size d + 1\<rparr>) }"

definition ad_push_back :: "'a \<Rightarrow> 'a \<Rightarrow> 'a array_deque \<Rightarrow> 'a array_deque option" where
  "ad_push_back init val d = do {
     d \<leftarrow> ad_resize init d;
     let d = ad_start_back d;
     data \<leftarrow> slot_assign (ad_data d) (ad_rear d) val;
     Some (d\<lparr>ad_data := data, ad_rear := (ad_rear d + 1) mod ad_capacity d, ad_size := ad_size d + 1\<rparr>) }"

definition ad_pop_front :: "bool \<Rightarrow> 'a array_deque \<Rightarrow> 'a array_deque outcome" where
  "ad_pop_front trivial d = (if ad_empty d then Some (Inl deque_empty)
     else let d = d\<lparr>ad_front := (ad_front d + 1) mod ad_capacity d\<rparr> in do {
       data \<leftarrow> slot_destroy trivial (ad_data d) (ad_front d);
       Some (Inr (d\<lparr>ad_data := data, ad_size := ad_size d - 1\<rparr>)) })"

definition ad_pop_back :: "bool \<Rightarrow> 'a array_deque \<Rightarrow> 'a array_deque outcome" where
  "ad_pop_back trivial d = (if ad_empty d then Some (Inl deque_empty)
     else let d = d\<lparr>ad_rear := (ad_rear d + ad_capacity d - 1) mod ad_capacity d\<rparr> in do {
       data \<leftarrow> slot_destroy trivial (ad_data d) (ad_rear d);
       Some (Inr (d\<lparr>ad_data := data, ad_size := ad_size d - 1\<rparr>)) })"

definition ad_content :: "'a array_deque \<Rightarrow> 'a list" where
  "ad_content d = map (\<lambda>i. the (ad_data d ! ((ad_front d + 1 + i) mod ad_capacity d))) [0..<ad_size d]"

definition ad_ring :: "'a array_deque \<Rightarrow> bool" where
  "ad_ring d \<longleftrightarrow> 1 < ad_capacity d \<and> length (ad_data d) = ad_capacity d \<and> alive (ad_data d) \<and> ad_front d < ad_capacity d \<and>
     ad_size d \<le> ad_capacity d \<and> ad_rear d = (ad_front d + 1 + ad_size d) mod ad_capacity d"

text \<open>A new deque has both free places at 0.\<close>

definition ad_inv :: "'a array_deque \<Rightarrow> bool" where
  "ad_inv d \<longleftrightarrow> ad_ring d \<or> (1 < ad_capacity d \<and> length (ad_data d) = ad_capacity d \<and> alive (ad_data d) \<and> ad_front d < ad_capacity d \<and>
     ad_size d = 0 \<and> ad_rear d = ad_front d)"

lemma ad_new_correct [simp]: "ad_inv (ad_new v)" "ad_content (ad_new v) = []"
  by (simp_all add: ad_inv_def ad_new_def ad_content_def ad_DefaultSize_def)

lemma ring_pred:
  fixes x c :: nat
  assumes "0 < c"
  shows "((x + c - 1) mod c + 1 + i) mod c = (x + i) mod c"
proof -
  have "((x + c - 1) mod c + 1 + i) mod c = (x + c - 1 + (1 + i)) mod c" by (metis add.assoc mod_add_left_eq)
  also have "x + c - 1 + (1 + i) = x + i + c" using assms by simp
  finally show ?thesis by simp
qed

definition ad_room :: nat where
  "ad_room = 2 ^ 30"

lemma ad_content_length [simp]: "length (ad_content d) = ad_size d"
  by (simp add: ad_content_def)

lemma ad_resize_correct:
  assumes "ad_inv d" and "ad_size d < ad_room"
  shows "\<exists>r. ad_resize v d = Some r \<and> ad_inv r \<and> ad_content r = ad_content d \<and> ad_size r = ad_size d \<and> ad_size r < ad_capacity r"
proof (cases "ad_size d < ad_capacity d")
  case True
  then show ?thesis using assms(1) by (auto simp: ad_resize_def)
next
  case False
  then have ring: "ad_ring d" using assms(1) by (auto simp: ad_inv_def)
  then have inv: "1 < ad_capacity d" "length (ad_data d) = ad_capacity d" "alive (ad_data d)" "ad_size d = ad_capacity d"
    using False by (auto simp: ad_ring_def)
  define len where "len = (if ad_capacity d > ad_ResizeLimit then ad_capacity d + ad_ResizeLimit
      else if ad_capacity d \<noteq> 0 then 2 * ad_capacity d else ad_DefaultSize)"
  have len: "ad_capacity d < len" using inv(1) by (auto simp: len_def ad_ResizeLimit_def)
  have fits: "nint len = Some len" "nint (ad_size d) = Some (ad_size d)"
    using assms(2) inv(4) by (simp_all add: nint_def int_limits len_def ad_room_def ad_ResizeLimit_def ad_DefaultSize_def)
  define beg where "beg = (ad_front d + 1) mod ad_capacity d"
  define tmp where "tmp = map (\<lambda>i. ad_data d ! ((beg + i) mod ad_capacity d)) [0..<ad_size d] @ drop (ad_size d) (new_slots len v)"
  define r where "r = d\<lparr>ad_capacity := len, ad_front := len - 1, ad_rear := ad_size d, ad_data := tmp\<rparr>"
  have "slot_copy (\<lambda>i. (beg + i) mod ad_capacity d) (ad_data d) [0..<ad_size d] (new_slots len v) = Some tmp"
    unfolding tmp_def using inv len by (intro slot_copy_all) auto
  then have run: "ad_resize v d = Some r" using False unfolding ad_resize_def r_def Let_def len_def [symmetric] beg_def [symmetric] by (simp add: fits)
  have "alive tmp" using inv(1-3) by (auto simp: tmp_def dest!: in_set_dropD) (metis mod_less_divisor gr_implies_not0 neq0_conv nth_mem)
  then have "ad_ring r" using inv(1,4) len by (simp add: ad_ring_def r_def tmp_def)
  moreover have "ad_content r = ad_content d"
    using inv len unfolding ad_content_def by (auto simp: r_def tmp_def nth_append beg_def mod_simps)
  ultimately show ?thesis using run inv(4) len by (auto simp: r_def ad_inv_def)
qed

lemma ad_start_correct:
  assumes "ad_inv d" and "ad_size d < ad_capacity d"
  shows "ad_ring (ad_start_back d)" "ad_size (ad_start_back d) < ad_capacity (ad_start_back d)" "ad_content (ad_start_back d) = ad_content d"
    and "ad_ring (ad_start_front d)" "ad_size (ad_start_front d) < ad_capacity (ad_start_front d)" "ad_content (ad_start_front d) = ad_content d"
proof -
  show "ad_size (ad_start_back d) < ad_capacity (ad_start_back d)" "ad_content (ad_start_back d) = ad_content d"
      "ad_size (ad_start_front d) < ad_capacity (ad_start_front d)" "ad_content (ad_start_front d) = ad_content d"
    using assms(2) by (auto simp: ad_start_back_def ad_start_front_def ad_empty_def ad_content_def)
  have "ad_ring (ad_start_back d) \<and> ad_ring (ad_start_front d)"
  proof (cases "ad_empty d \<and> ad_front d = ad_rear d")
    case True
    have d: "1 < ad_capacity d" "length (ad_data d) = ad_capacity d" "alive (ad_data d)" "ad_front d < ad_capacity d"
      using assms(1) unfolding ad_inv_def ad_ring_def by blast+
    have e: "ad_size d = 0" "ad_rear d = ad_front d" using True unfolding ad_empty_def by simp_all
    obtain g where g: "g = (ad_front d + ad_capacity d - 1) mod ad_capacity d" "g < ad_capacity d" "(g + 1) mod ad_capacity d = ad_front d"
    proof -
      have "((ad_front d + ad_capacity d - 1) mod ad_capacity d + 1 + 0) mod ad_capacity d = (ad_front d + 0) mod ad_capacity d"
        by (rule ring_pred) (use d(1) in simp)
      then have "((ad_front d + ad_capacity d - 1) mod ad_capacity d + 1) mod ad_capacity d = ad_front d"
        unfolding add_0_right using d(4) by (simp only: mod_less)
      then show ?thesis using that d(1) by simp
    qed
    have "ad_start_back d = d\<lparr>ad_front := g\<rparr>" unfolding ad_start_back_def g(1) by (rule if_P [OF True])
    then have "ad_ring (ad_start_back d)" using d e g(2,3) by (simp add: ad_ring_def)
    moreover have "ad_start_front d = d\<lparr>ad_rear := (ad_rear d + 1) mod ad_capacity d\<rparr>" unfolding ad_start_front_def by (rule if_P [OF True])
    then have "ad_ring (ad_start_front d)" using d e by (simp add: ad_ring_def)
    ultimately show ?thesis by blast
  next
    case False
    then have "ad_ring d" using assms(1) unfolding ad_inv_def ad_empty_def by metis
    moreover have "ad_start_back d = d" "ad_start_front d = d"
      unfolding ad_start_back_def ad_start_front_def by (rule if_not_P [OF False])+
    ultimately show ?thesis by simp
  qed
  then show "ad_ring (ad_start_back d)" "ad_ring (ad_start_front d)" by blast+
qed

lemma ad_push_back_correct:
  assumes "ad_inv d" and "ad_size d < ad_room"
  shows "\<exists>r. ad_push_back v x d = Some r \<and> ad_inv r \<and> ad_content r = ad_content d @ [x]"
proof -
  obtain a where a: "ad_resize v d = Some a" "ad_inv a" "ad_content a = ad_content d" "ad_size a < ad_capacity a"
    using ad_resize_correct [OF assms] by blast
  define b where "b = ad_start_back a"
  have b: "ad_ring b" "ad_size b < ad_capacity b" "ad_content b = ad_content a"
    using ad_start_correct(1-3) [OF a(2,4)] by (simp_all add: b_def)
  let ?f = "ad_front b" and ?c = "ad_capacity b" and ?n = "ad_size b"
  have inv: "1 < ?c" "length (ad_data b) = ?c" "alive (ad_data b)" "ad_rear b = (?f + 1 + ?n) mod ?c"
    using b(1) by (auto simp: ad_ring_def)
  then have rear: "ad_rear b < ?c" by simp
  define r where "r = b\<lparr>ad_data := (ad_data b)[ad_rear b := Some x], ad_rear := (ad_rear b + 1) mod ?c, ad_size := ?n + 1\<rparr>"
  have run: "ad_push_back v x d = Some r"
    using a(1) inv(2,3) rear by (simp add: ad_push_back_def Let_def b_def [symmetric] r_def)
  have "ad_ring r" using b(1,2) alive_update [OF inv(3)] inv(4) unfolding ad_ring_def r_def by (simp add: mod_Suc_eq)
  moreover have "ad_content r = ad_content b @ [x]"
  proof -
    have "(ad_data b)[ad_rear b := Some x] ! ((?f + 1 + i) mod ?c) = ad_data b ! ((?f + 1 + i) mod ?c)" if "i < ?n" for i
      using ring_neq [OF that b(2), of "?f + 1"] inv(4) by simp
    then show ?thesis unfolding ad_content_def using inv rear by (auto simp: r_def)
  qed
  ultimately show ?thesis using run b(3) a(3) by (simp add: ad_inv_def)
qed

lemma ad_push_front_correct:
  assumes "ad_inv d" and "ad_size d < ad_room"
  shows "\<exists>r. ad_push_front v x d = Some r \<and> ad_inv r \<and> ad_content r = x # ad_content d"
proof -
  obtain a where a: "ad_resize v d = Some a" "ad_inv a" "ad_content a = ad_content d" "ad_size a < ad_capacity a"
    using ad_resize_correct [OF assms] by blast
  define b where "b = ad_start_front a"
  have b: "ad_ring b" "ad_size b < ad_capacity b" "ad_content b = ad_content a"
    using ad_start_correct(4-6) [OF a(2,4)] by (simp_all add: b_def)
  let ?f = "ad_front b" and ?c = "ad_capacity b" and ?n = "ad_size b"
  have inv: "1 < ?c" "length (ad_data b) = ?c" "alive (ad_data b)" "ad_rear b = (?f + 1 + ?n) mod ?c" "?f < ?c"
    using b(1) unfolding ad_ring_def by blast+
  let ?g = "(?f + ?c - 1) mod ?c"
  have pred: "(?g + 1 + i) mod ?c = (?f + i) mod ?c" for i using inv(1) by (intro ring_pred) simp
  define r where "r = b\<lparr>ad_data := (ad_data b)[?f := Some x], ad_front := ?g, ad_size := ?n + 1\<rparr>"
  have run: "ad_push_front v x d = Some r"
    using a(1) inv(2,3,5) by (simp add: ad_push_front_def Let_def b_def [symmetric] r_def)
  have "ad_rear b = (?g + 1 + (?n + 1)) mod ?c" using pred [of "?n + 1"] inv(4) by simp
  then have "ad_ring r" using b(1,2) alive_update [OF inv(3)] inv(1) unfolding ad_ring_def r_def by simp
  moreover have "ad_content r = x # ad_content b"
  proof -
    have "(ad_data b)[?f := Some x] ! ((?f + 1 + i) mod ?c) = ad_data b ! ((?f + 1 + i) mod ?c)" if "i < ?n" for i
      using ring_neq [of 0 "i + 1" ?c ?f] that b(2) inv(5) by simp
    moreover have "(?g + 1 + Suc i) mod ?c = (?f + 1 + i) mod ?c" for i using pred [of "Suc i"] by simp
    moreover have "(?g + 1 + 0) mod ?c = ?f" using pred [of 0] inv(5) by simp
    ultimately show ?thesis unfolding ad_content_def using inv(2,5)
      by (simp add: r_def upt_conv_Cons map_Suc_upt [symmetric] del: upt_Suc map_Suc_upt)
  qed
  ultimately show ?thesis using run b(3) a(3) by (simp add: ad_inv_def)
qed

text \<open>A deque that is not empty is in the general shape.\<close>

lemma ad_ring_if: "ad_inv d \<Longrightarrow> ad_content d \<noteq> [] \<Longrightarrow> ad_ring d"
  by (auto simp: ad_inv_def ad_content_def)

lemma ad_pop_front_correct:
  assumes "ad_inv d" and "ad_content d = x # xs"
  shows "\<exists>r. ad_pop_front True d = Some (Inr r) \<and> ad_inv r \<and> ad_content r = xs" and "ad_peek_front d = Some (Inr x)"
proof -
  let ?f = "ad_front d" and ?c = "ad_capacity d"
  have ring: "ad_ring d" using ad_ring_if [OF assms(1)] assms(2) by simp
  then have inv: "1 < ?c" "length (ad_data d) = ?c" "alive (ad_data d)" "ad_rear d = (?f + 1 + ad_size d) mod ?c" "?f < ?c" "ad_size d \<le> ?c"
    unfolding ad_ring_def by blast+
  obtain n where n: "ad_size d = Suc n" using assms(2) by (cases "ad_size d") (auto simp: ad_content_def)
  let ?g = "(?f + 1) mod ?c"
  have next_place: "(?g + 1 + i) mod ?c = (?f + 1 + Suc i) mod ?c" for i
  proof -
    have "(?g + (1 + i)) mod ?c = (?f + 1 + (1 + i)) mod ?c" by (rule mod_add_left_eq)
    then show ?thesis by (simp only: add.assoc plus_1_eq_Suc)
  qed
  have content: "x = the (ad_data d ! ?g)" "xs = map (\<lambda>i. the (ad_data d ! ((?f + 1 + Suc i) mod ?c))) [0..<n]"
    using assms(2) unfolding ad_content_def n
    by (auto simp: upt_conv_Cons map_Suc_upt [symmetric] simp del: upt_Suc map_Suc_upt)
  define r where "r = d\<lparr>ad_front := ?g, ad_size := n\<rparr>"
  have "ad_pop_front True d = Some (Inr r)" using inv(1-3) n by (simp add: ad_pop_front_def ad_empty_def Let_def r_def)
  moreover have "ad_ring r" using ring n next_place [of n] unfolding ad_ring_def r_def by simp
  moreover have "ad_content r = map (\<lambda>i. the (ad_data d ! ((?g + 1 + i) mod ?c))) [0..<n]" by (simp add: ad_content_def r_def)
  then have "ad_content r = xs" unfolding content next_place .
  ultimately show "\<exists>r. ad_pop_front True d = Some (Inr r) \<and> ad_inv r \<and> ad_content r = xs" unfolding ad_inv_def by blast
  show "ad_peek_front d = Some (Inr x)" using inv(1-3) n content(1) by (simp add: ad_peek_front_def ad_empty_def)
qed

lemma ad_pop_back_correct:
  assumes "ad_inv d" and "ad_content d = xs @ [x]"
  shows "\<exists>r. ad_pop_back True d = Some (Inr r) \<and> ad_inv r \<and> ad_content r = xs" and "ad_peek_back d = Some (Inr x)"
proof -
  let ?f = "ad_front d" and ?c = "ad_capacity d"
  have ring: "ad_ring d" using ad_ring_if [OF assms(1)] assms(2) by simp
  then have inv: "1 < ?c" "length (ad_data d) = ?c" "alive (ad_data d)" "ad_rear d = (?f + 1 + ad_size d) mod ?c" "?f < ?c" "ad_size d \<le> ?c"
    unfolding ad_ring_def by blast+
  obtain n where n: "ad_size d = Suc n" using assms(2) by (cases "ad_size d") (auto simp: ad_content_def)
  have content: "x = the (ad_data d ! ((?f + 1 + n) mod ?c))" "xs = map (\<lambda>i. the (ad_data d ! ((?f + 1 + i) mod ?c))) [0..<n]"
    using assms(2) unfolding ad_content_def n by simp_all
  have pred: "(ad_rear d + ?c - 1) mod ?c = (?f + 1 + n) mod ?c"
  proof -
    have "(ad_rear d + ?c - 1) mod ?c = (ad_rear d + (?c - 1)) mod ?c" using inv(1) by simp
    also have "\<dots> = (?f + 1 + Suc n + (?c - 1)) mod ?c" unfolding inv(4) n by (rule mod_add_left_eq)
    also have "?f + 1 + Suc n + (?c - 1) = ?f + 1 + n + ?c" using inv(1) by simp
    finally show ?thesis by (simp only: mod_add_self2)
  qed
  define r where "r = d\<lparr>ad_rear := (?f + 1 + n) mod ?c, ad_size := n\<rparr>"
  have "ad_pop_back True d = Some (Inr r)" using inv(1-3) n pred by (simp add: ad_pop_back_def ad_empty_def Let_def r_def)
  moreover have "ad_ring r" using ring n unfolding ad_ring_def r_def by simp
  moreover have "ad_content r = xs" unfolding ad_content_def content by (simp add: r_def)
  ultimately show "\<exists>r. ad_pop_back True d = Some (Inr r) \<and> ad_inv r \<and> ad_content r = xs" unfolding ad_inv_def by blast
  show "ad_peek_back d = Some (Inr x)" using inv(1-3) n content(1) pred by (simp add: ad_peek_back_def ad_empty_def)
qed

interpretation array_deque: deque ad_inv ad_content deque_empty "ad_push_back init" "ad_push_front init" "ad_pop_back True" "ad_pop_front True"
  ad_peek_back ad_peek_front ad_room
proof
  show "ad_pop_back True d = Some (Inl deque_empty) \<and> ad_pop_front True d = Some (Inl deque_empty) \<and>
      ad_peek_back d = Some (Inl deque_empty) \<and> ad_peek_front d = Some (Inl deque_empty)" if "ad_inv d" "ad_content d = []" for d :: "'a array_deque"
    using that by (simp add: ad_content_def ad_pop_back_def ad_pop_front_def ad_peek_back_def ad_peek_front_def ad_empty_def)
qed (auto dest: ad_push_back_correct ad_push_front_correct ad_pop_front_correct ad_pop_back_correct)

section \<open>LinkedListDeque\<close>

record 'a dnode =
  pre :: "nat option"
  nxt :: "nat option"
  val :: 'a

type_synonym 'a dnodes = "nat \<rightharpoonup> 'a dnode"

record 'a list_deque =
  ld_front :: "nat option"
  ld_rear :: "nat option"
  ld_size :: nat
  ld_nodes :: "'a dnodes"
  ld_fresh :: nat

definition ld_new :: "'a list_deque" where
  "ld_new = \<lparr>ld_front = None, ld_rear = None, ld_size = 0, ld_nodes = (\<lambda>_. None), ld_fresh = 0\<rparr>"

definition ld_empty :: "'a list_deque \<Rightarrow> bool" where
  "ld_empty d \<longleftrightarrow> ld_size d = 0"

definition ld_peek_front :: "'a list_deque \<Rightarrow> 'a outcome" where
  "ld_peek_front d = (if ld_empty d then Some (Inl deque_empty) else do { a \<leftarrow> ld_front d; n \<leftarrow> ld_nodes d a; Some (Inr (val n)) })"

definition ld_peek_back :: "'a list_deque \<Rightarrow> 'a outcome" where
  "ld_peek_back d = (if ld_empty d then Some (Inl deque_empty) else do { a \<leftarrow> ld_rear d; n \<leftarrow> ld_nodes d a; Some (Inr (val n)) })"

text \<open>\<open>new Node(val)\<close>.\<close>

definition ld_node :: "'a \<Rightarrow> 'a list_deque \<Rightarrow> 'a list_deque" where
  "ld_node v d = d\<lparr>ld_nodes := (ld_nodes d)(ld_fresh d \<mapsto> \<lparr>pre = None, nxt = None, val = v\<rparr>), ld_fresh := ld_fresh d + 1\<rparr>"

text \<open>An assignment to a member of a node.\<close>

definition dn_update :: "('a dnode \<Rightarrow> 'a dnode) \<Rightarrow> nat \<Rightarrow> 'a dnodes \<Rightarrow> 'a dnodes option" where
  "dn_update f a h = map_option (\<lambda>n. h(a \<mapsto> f n)) (h a)"

definition ld_push_back :: "'a \<Rightarrow> 'a list_deque \<Rightarrow> 'a list_deque option" where
  "ld_push_back v d = (let node = ld_fresh d; d = ld_node v d in do {
     d \<leftarrow> (if ld_empty d then Some (d\<lparr>ld_front := Some node, ld_rear := Some node\<rparr>)
       else do {
         r \<leftarrow> ld_rear d;
         h \<leftarrow> dn_update (nxt_update (\<lambda>_. Some node)) r (ld_nodes d);
         h \<leftarrow> dn_update (pre_update (\<lambda>_. ld_rear d)) node h;
         Some (d\<lparr>ld_nodes := h, ld_rear := Some node\<rparr>) });
     Some (d\<lparr>ld_size := ld_size d + 1\<rparr>) })"

definition ld_push_front :: "'a \<Rightarrow> 'a list_deque \<Rightarrow> 'a list_deque option" where
  "ld_push_front v d = (let node = ld_fresh d; d = ld_node v d in do {
     d \<leftarrow> (if ld_empty d then Some (d\<lparr>ld_front := Some node, ld_rear := Some node\<rparr>)
       else do {
         f \<leftarrow> ld_front d;
         h \<leftarrow> dn_update (pre_update (\<lambda>_. Some node)) f (ld_nodes d);
         h \<leftarrow> dn_update (nxt_update (\<lambda>_. ld_front d)) node h;
         Some (d\<lparr>ld_nodes := h, ld_front := Some node\<rparr>) });
     Some (d\<lparr>ld_size := ld_size d + 1\<rparr>) })"

definition ld_pop_back :: "'a list_deque \<Rightarrow> 'a list_deque outcome" where
  "ld_pop_back d = (if ld_empty d then Some (Inl deque_empty)
     else do {
       r \<leftarrow> ld_rear d;
       n \<leftarrow> ld_nodes d r;
       let temp = pre n;
       let h = (ld_nodes d)(r := None);
       h \<leftarrow> (case temp of None \<Rightarrow> Some h | Some t \<Rightarrow> dn_update (nxt_update (\<lambda>_. None)) t h);
       let d = d\<lparr>ld_nodes := h, ld_rear := temp, ld_size := ld_size d - 1\<rparr>;
       Some (Inr (if ld_empty d then d\<lparr>ld_front := None\<rparr> else d)) })"

definition ld_pop_front :: "'a list_deque \<Rightarrow> 'a list_deque outcome" where
  "ld_pop_front d = (if ld_empty d then Some (Inl deque_empty)
     else do {
       f \<leftarrow> ld_front d;
       n \<leftarrow> ld_nodes d f;
       let temp = nxt n;
       let h = (ld_nodes d)(f := None);
       h \<leftarrow> (case temp of None \<Rightarrow> Some h | Some t \<Rightarrow> dn_update (pre_update (\<lambda>_. None)) t h);
       let d = d\<lparr>ld_nodes := h, ld_front := temp, ld_size := ld_size d - 1\<rparr>;
       Some (Inr (if ld_empty d then d\<lparr>ld_rear := None\<rparr> else d)) })"

text \<open>The destructor, with the assertion of its loop.\<close>

fun ld_delete :: "nat \<Rightarrow> nat option \<Rightarrow> 'a dnodes \<Rightarrow> 'a dnodes option" where
  "ld_delete fuel None h = Some h"
| "ld_delete 0 (Some a) h = None"
| "ld_delete (Suc fuel) (Some a) h = do {
     n \<leftarrow> h a;
     (if nxt n = Some a then None else ld_delete fuel (nxt n) (h(a := None))) }"

section \<open>Doubly linked nodes\<close>

definition first_or :: "nat list \<Rightarrow> nat option \<Rightarrow> nat option" where
  "first_or as q = (case as of [] \<Rightarrow> q | a # _ \<Rightarrow> Some a)"

definition last_or :: "nat option \<Rightarrow> nat list \<Rightarrow> nat option" where
  "last_or p as = (if as = [] then p else Some (last as))"

lemma ends_simps [simp]:
  "first_or [] q = q" "first_or (a # as) q = Some a" "first_or (as @ bs) q = first_or as (first_or bs q)"
  "last_or p [] = p" "last_or p (as @ bs) = last_or (last_or p as) bs" "last_or p (a # as) = last_or (Some a) as"
  by (simp_all add: first_or_def last_or_def split: list.splits)

text \<open>Nodes that follow each other in both directions, between a node before and one behind.\<close>

fun dlinked :: "'a dnodes \<Rightarrow> nat option \<Rightarrow> nat list \<Rightarrow> nat option \<Rightarrow> bool" where
  "dlinked h p [] q \<longleftrightarrow> True"
| "dlinked h p (a # as) q \<longleftrightarrow> (\<exists>v. h a = Some \<lparr>pre = p, nxt = first_or as q, val = v\<rparr>) \<and> dlinked h (Some a) as q"

lemma dlinked_append: "dlinked h p (as @ bs) q \<longleftrightarrow> dlinked h p as (first_or bs q) \<and> dlinked h (last_or p as) bs q"
  by (induction as arbitrary: p) auto

lemma dlinked_frame: "a \<notin> set as \<Longrightarrow> dlinked (h(a := x)) p as q \<longleftrightarrow> dlinked h p as q"
  by (induction as arbitrary: p) auto

definition dvalues :: "'a dnodes \<Rightarrow> nat list \<Rightarrow> 'a list" where
  "dvalues h as = map (\<lambda>a. val (the (h a))) as"

lemma dvalues_simps [simp]:
  "dvalues h [] = []" "dvalues h (a # as) = val (the (h a)) # dvalues h as"
  "dvalues h (as @ bs) = dvalues h as @ dvalues h bs" "length (dvalues h as) = length as"
  by (simp_all add: dvalues_def)

lemma dvalues_frame: "a \<notin> set as \<Longrightarrow> dvalues (h(a := x)) as = dvalues h as"
  by (induction as) auto

fun dwalk :: "'a dnodes \<Rightarrow> nat \<Rightarrow> nat option \<Rightarrow> 'a list" where
  "dwalk h 0 p = []"
| "dwalk h (Suc n) p = (case p of None \<Rightarrow> [] | Some a \<Rightarrow> (case h a of None \<Rightarrow> [] | Some r \<Rightarrow> val r # dwalk h n (nxt r)))"

lemma dwalk_dlinked: "dlinked h p as None \<Longrightarrow> dwalk h (length as) (first_or as None) = dvalues h as"
  by (induction as arbitrary: p) auto

definition ld_content :: "'a list_deque \<Rightarrow> 'a list" where
  "ld_content d = dwalk (ld_nodes d) (ld_size d) (ld_front d)"

definition ld_chain :: "'a list_deque \<Rightarrow> nat list \<Rightarrow> bool" where
  "ld_chain d as \<longleftrightarrow> dlinked (ld_nodes d) None as None \<and> distinct as \<and> ld_size d = length as \<and> ld_front d = first_or as None \<and>
     ld_rear d = last_or None as \<and> set as = dom (ld_nodes d) \<and> (\<forall>a \<in> set as. a < ld_fresh d)"

definition ld_inv :: "'a list_deque \<Rightarrow> bool" where
  "ld_inv d \<longleftrightarrow> (\<exists>as. ld_chain d as)"

lemma ld_content_chain: "ld_chain d as \<Longrightarrow> ld_content d = dvalues (ld_nodes d) as"
  by (auto simp: ld_content_def ld_chain_def intro: dwalk_dlinked)

lemma ld_new_correct [simp]: "ld_inv ld_new" "ld_content ld_new = []"
  by (auto simp: ld_inv_def ld_chain_def ld_new_def ld_content_def intro: exI [of _ "[]"])

lemma ld_push_back_correct:
  assumes "ld_chain d as"
  shows "\<exists>t. ld_push_back v d = Some t \<and> ld_chain t (as @ [ld_fresh d]) \<and> ld_content t = ld_content d @ [v]"
proof -
  have f: "ld_fresh d \<notin> set as" using assms by (auto simp: ld_chain_def)
  have "\<exists>t. ld_push_back v d = Some t \<and> ld_chain t (as @ [ld_fresh d]) \<and> dvalues (ld_nodes t) (as @ [ld_fresh d]) = dvalues (ld_nodes d) as @ [v]"
  proof (cases as rule: rev_cases)
    case Nil
    then show ?thesis using assms by (auto simp: ld_chain_def ld_push_back_def ld_node_def ld_empty_def Let_def)
  next
    case (snoc bs r)
    then have r: "r \<notin> set bs" "r \<noteq> ld_fresh d" "ld_fresh d \<notin> set bs" using assms f by (auto simp: ld_chain_def)
    from snoc assms obtain x where x: "ld_nodes d r = Some \<lparr>pre = last_or None bs, nxt = None, val = x\<rparr>"
      by (auto simp: ld_chain_def dlinked_append)
    have a: "\<forall>a \<in> set as. a < Suc (ld_fresh d)" using assms unfolding ld_chain_def by (blast intro: less_SucI)
    show ?thesis using assms x r a unfolding snoc
      by (auto simp: ld_chain_def ld_push_back_def ld_node_def ld_empty_def dn_update_def Let_def dlinked_append dlinked_frame dvalues_frame)
  qed
  then show ?thesis using ld_content_chain assms by metis
qed

lemma ld_push_front_correct:
  assumes "ld_chain d as"
  shows "\<exists>t. ld_push_front v d = Some t \<and> ld_chain t (ld_fresh d # as) \<and> ld_content t = v # ld_content d"
proof -
  have f: "ld_fresh d \<notin> set as" using assms by (auto simp: ld_chain_def)
  have "\<exists>t. ld_push_front v d = Some t \<and> ld_chain t (ld_fresh d # as) \<and> dvalues (ld_nodes t) (ld_fresh d # as) = v # dvalues (ld_nodes d) as"
  proof (cases as)
    case Nil
    then show ?thesis using assms by (auto simp: ld_chain_def ld_push_front_def ld_node_def ld_empty_def Let_def)
  next
    case (Cons r bs)
    then have r: "r \<notin> set bs" "r \<noteq> ld_fresh d" "ld_fresh d \<notin> set bs" using assms f by (auto simp: ld_chain_def)
    from Cons assms obtain x where x: "ld_nodes d r = Some \<lparr>pre = None, nxt = first_or bs None, val = x\<rparr>"
      by (auto simp: ld_chain_def)
    have a: "\<forall>a \<in> set as. a < Suc (ld_fresh d)" using assms unfolding ld_chain_def by (blast intro: less_SucI)
    show ?thesis using assms x r a unfolding Cons
      by (auto simp: ld_chain_def ld_push_front_def ld_node_def ld_empty_def dn_update_def Let_def dlinked_frame dvalues_frame)
  qed
  then show ?thesis using ld_content_chain assms by metis
qed

lemma ld_pop_back_correct:
  assumes "ld_chain d as" and "ld_content d = xs @ [x]"
  shows "\<exists>t. ld_pop_back d = Some (Inr t) \<and> ld_inv t \<and> ld_content t = xs" and "ld_peek_back d = Some (Inr x)"
proof -
  obtain bs r where as: "as = bs @ [r]" using assms ld_content_chain [OF assms(1)] by (cases as rule: rev_cases) auto
  obtain y where y: "ld_nodes d r = Some \<lparr>pre = last_or None bs, nxt = None, val = y\<rparr>" using assms(1) unfolding as
    by (auto simp: ld_chain_def dlinked_append)
  have r: "r \<notin> set bs" "ld_rear d = Some r" "ld_size d = Suc (length bs)" using assms(1) unfolding as by (auto simp: ld_chain_def)
  have x: "x = y" "xs = dvalues (ld_nodes d) bs" using assms(2) y unfolding ld_content_chain [OF assms(1)] as by auto
  show "ld_peek_back d = Some (Inr x)" using r y x by (simp add: ld_peek_back_def ld_empty_def)
  have "\<exists>t. ld_pop_back d = Some (Inr t) \<and> ld_chain t bs \<and> dvalues (ld_nodes t) bs = xs"
  proof (cases bs rule: rev_cases)
    case Nil
    then show ?thesis using assms(1) y r x unfolding as by (auto simp: ld_chain_def ld_pop_back_def ld_empty_def Let_def)
  next
    case (snoc cs c)
    then have c: "c \<notin> set cs" "c \<noteq> r" "r \<notin> set cs" using assms(1) as by (auto simp: ld_chain_def)
    obtain z where z: "ld_nodes d c = Some \<lparr>pre = last_or None cs, nxt = Some r, val = z\<rparr>" using assms(1) unfolding as snoc
      by (auto simp: ld_chain_def dlinked_append)
    define h where "h = (ld_nodes d)(r := None, c \<mapsto> \<lparr>pre = last_or None cs, nxt = None, val = z\<rparr>)"
    define t where "t = d\<lparr>ld_nodes := h, ld_rear := Some c, ld_size := length bs\<rparr>"
    have "ld_pop_back d = Some (Inr t)" using y r c z snoc by (simp add: ld_pop_back_def ld_empty_def dn_update_def t_def h_def)
    moreover have "dlinked h None bs None" using assms(1) c r(1) unfolding as snoc h_def
      by (simp add: ld_chain_def dlinked_append dlinked_frame)
    moreover have "set bs = dom h"
    proof -
      have "insert r (set bs) = dom (ld_nodes d)" using assms(1) as by (simp add: ld_chain_def)
      then show ?thesis using r(1) snoc by (auto simp: h_def)
    qed
    moreover have "dvalues h bs = xs" using c r(1) z unfolding x(2) snoc h_def by (simp add: dvalues_frame)
    ultimately show ?thesis using assms(1) unfolding as by (auto simp: ld_chain_def t_def snoc)
  qed
  then show "\<exists>t. ld_pop_back d = Some (Inr t) \<and> ld_inv t \<and> ld_content t = xs" unfolding ld_inv_def using ld_content_chain by metis
qed

lemma ld_pop_front_correct:
  assumes "ld_chain d as" and "ld_content d = x # xs"
  shows "\<exists>t. ld_pop_front d = Some (Inr t) \<and> ld_inv t \<and> ld_content t = xs" and "ld_peek_front d = Some (Inr x)"
proof -
  obtain r bs where as: "as = r # bs" using assms ld_content_chain [OF assms(1)] by (cases as) auto
  obtain y where y: "ld_nodes d r = Some \<lparr>pre = None, nxt = first_or bs None, val = y\<rparr>" using assms(1) unfolding as
    by (auto simp: ld_chain_def)
  have r: "r \<notin> set bs" "ld_front d = Some r" "ld_size d = Suc (length bs)" using assms(1) unfolding as by (auto simp: ld_chain_def)
  have x: "x = y" "xs = dvalues (ld_nodes d) bs" using assms(2) y unfolding ld_content_chain [OF assms(1)] as by auto
  show "ld_peek_front d = Some (Inr x)" using r y x by (simp add: ld_peek_front_def ld_empty_def)
  have "\<exists>t. ld_pop_front d = Some (Inr t) \<and> ld_chain t bs \<and> dvalues (ld_nodes t) bs = xs"
  proof (cases bs)
    case Nil
    then show ?thesis using assms(1) y r x unfolding as by (auto simp: ld_chain_def ld_pop_front_def ld_empty_def Let_def)
  next
    case (Cons c cs)
    then have c: "c \<notin> set cs" "c \<noteq> r" "r \<notin> set cs" using assms(1) as by (auto simp: ld_chain_def)
    obtain z where z: "ld_nodes d c = Some \<lparr>pre = Some r, nxt = first_or cs None, val = z\<rparr>" using assms(1) unfolding as Cons
      by (auto simp: ld_chain_def)
    define h where "h = (ld_nodes d)(r := None, c \<mapsto> \<lparr>pre = None, nxt = first_or cs None, val = z\<rparr>)"
    define t where "t = d\<lparr>ld_nodes := h, ld_front := Some c, ld_size := length bs\<rparr>"
    have "ld_pop_front d = Some (Inr t)" using y r c z Cons by (simp add: ld_pop_front_def ld_empty_def dn_update_def t_def h_def)
    moreover have "dlinked h None bs None" using assms(1) c r(1) unfolding as Cons h_def
      by (simp add: ld_chain_def dlinked_frame)
    moreover have "set bs = dom h"
    proof -
      have "insert r (set bs) = dom (ld_nodes d)" using assms(1) as by (simp add: ld_chain_def)
      then show ?thesis using r(1) Cons by (auto simp: h_def)
    qed
    moreover have "dvalues h bs = xs" using c r(1) z unfolding x(2) Cons h_def by (simp add: dvalues_frame)
    ultimately show ?thesis using assms(1) unfolding as by (auto simp: ld_chain_def t_def Cons)
  qed
  then show "\<exists>t. ld_pop_front d = Some (Inr t) \<and> ld_inv t \<and> ld_content t = xs" unfolding ld_inv_def using ld_content_chain by metis
qed

interpretation list_deque: deque ld_inv ld_content deque_empty ld_push_back ld_push_front ld_pop_back ld_pop_front ld_peek_back ld_peek_front room for room
proof
  fix d :: "'a list_deque"
  assume "ld_inv d"
  then obtain as where as: "ld_chain d as" unfolding ld_inv_def by blast
  show "\<exists>s'. ld_push_back v d = Some s' \<and> ld_inv s' \<and> ld_content s' = ld_content d @ [v]" for v
    using ld_push_back_correct [OF as] unfolding ld_inv_def by blast
  show "\<exists>s'. ld_push_front v d = Some s' \<and> ld_inv s' \<and> ld_content s' = v # ld_content d" for v
    using ld_push_front_correct [OF as] unfolding ld_inv_def by blast
  show "\<exists>s'. ld_pop_back d = Some (Inr s') \<and> ld_inv s' \<and> ld_content s' = xs" "ld_peek_back d = Some (Inr x)"
      if "ld_content d = xs @ [x]" for x xs
    using ld_pop_back_correct [OF as that] .
  show "\<exists>s'. ld_pop_front d = Some (Inr s') \<and> ld_inv s' \<and> ld_content s' = xs" "ld_peek_front d = Some (Inr x)"
      if "ld_content d = x # xs" for x xs
    using ld_pop_front_correct [OF as that] .
  show "ld_pop_back d = Some (Inl deque_empty) \<and> ld_pop_front d = Some (Inl deque_empty) \<and>
      ld_peek_back d = Some (Inl deque_empty) \<and> ld_peek_front d = Some (Inl deque_empty)" if "ld_content d = []"
  proof -
    have "ld_size d = 0" using that ld_content_chain [OF as] as by (cases as) (auto simp: ld_chain_def)
    then show ?thesis by (simp add: ld_pop_back_def ld_pop_front_def ld_peek_back_def ld_peek_front_def ld_empty_def)
  qed
qed

section \<open>What the deques guarantee\<close>

lemma ld_delete_frees:
  assumes "dlinked h p as None" and "distinct as" and "set as = dom h" and "length as \<le> fuel"
  shows "ld_delete fuel (first_or as None) h = Some (\<lambda>_. None)"
  using assms
proof (induction as arbitrary: fuel p h)
  case Nil
  then have "dom h = {}" by simp
  then have "h = (\<lambda>_. None)" by (simp only: dom_eq_empty_conv)
  then show ?case by simp
next
  case (Cons a as)
  then obtain n where n: "fuel = Suc n" by (cases fuel) auto
  obtain v where v: "h a = Some \<lparr>pre = p, nxt = first_or as None, val = v\<rparr>" "dlinked h (Some a) as None" using Cons.prems(1) by auto
  have a: "a \<notin> set as" using Cons.prems(2) by simp
  then have "first_or as None \<noteq> Some a" by (cases as) auto
  moreover have "set as = dom (h(a := None))" using Cons.prems(3) a by auto
  then have "ld_delete n (first_or as None) (h(a := None)) = Some (\<lambda>_. None)"
    using Cons.prems(2,4) n v(2) a
    by (intro Cons.IH [of _ "Some a"]) (simp_all only: dlinked_frame distinct.simps length_Cons Suc_le_mono)
  ultimately show ?case using n v by simp
qed

text \<open>
  C37: Both deques answer as a list that is a stack at each end: every sequence of at most 2^30 operations at the two
  ends of a new deque is defined, when the destructor of the elements in the array does nothing, and gives the same
  answers, exceptions for an empty deque included; and the destructor of the linked deque then frees every node
  exactly once, its assertion holding.
\<close>

theorem deques_have_two_ends:
  assumes "length ops \<le> 2 ^ 30"
  shows "\<exists>as s t xs. run_deque (ad_push_front init, ad_pop_front True, ad_peek_front) (ad_push_back init, ad_pop_back True, ad_peek_back)
      ops (ad_new init) = Some (as, s) \<and>
    run_deque (ld_push_front, ld_pop_front, ld_peek_front) (ld_push_back, ld_pop_back, ld_peek_back) ops ld_new = Some (as, t) \<and>
    deque_run deque_empty ops [] = Some (as, xs) \<and> ad_content s = xs \<and> ld_content t = xs \<and>
    ld_delete (ld_size t) (ld_front t) (ld_nodes t) = Some (\<lambda>_. None)"
proof -
  obtain as s where s: "run_deque (ad_push_front init, ad_pop_front True, ad_peek_front) (ad_push_back init, ad_pop_back True, ad_peek_back)
      ops (ad_new init) = Some (as, s)" "deque_run deque_empty ops [] = Some (as, ad_content s)"
    using array_deque.deque_refines [OF ad_new_correct(1) [of init], of ops init] assms by (auto simp: ad_room_def)
  obtain t where t: "run_deque (ld_push_front, ld_pop_front, ld_peek_front) (ld_push_back, ld_pop_back, ld_peek_back) ops ld_new = Some (as, t)"
      "ld_inv t" "ad_content s = ld_content t"
    using list_deque.deque_refines [OF ld_new_correct(1), of ops "length ops"] s(2) by auto
  have "ld_delete (ld_size t) (ld_front t) (ld_nodes t) = Some (\<lambda>_. None)"
    using t(2) unfolding ld_inv_def ld_chain_def by (auto intro: ld_delete_frees)
  with s t show ?thesis by auto
qed

theorem deques_have_two_ends_witness:
  "\<exists>as s t xs. run_deque (ad_push_front 0, ad_pop_front True, ad_peek_front) (ad_push_back 0, ad_pop_back True, ad_peek_back)
      [(True, Push (7 :: nat)), (False, Push 8), (True, Pop), (True, Peek), (False, Pop), (False, Pop)] (ad_new 0) = Some (as, s) \<and>
    run_deque (ld_push_front, ld_pop_front, ld_peek_front) (ld_push_back, ld_pop_back, ld_peek_back)
      [(True, Push 7), (False, Push 8), (True, Pop), (True, Peek), (False, Pop), (False, Pop)] ld_new = Some (as, t) \<and>
    deque_run deque_empty [(True, Push 7), (False, Push 8), (True, Pop), (True, Peek), (False, Pop), (False, Pop)] [] = Some (as, xs) \<and>
    ad_content s = xs \<and> ld_content t = xs \<and> ld_delete (ld_size t) (ld_front t) (ld_nodes t) = Some (\<lambda>_. None)"
  by (rule deques_have_two_ends) simp

text \<open>As in the stack, an element that was popped is assigned to after its destructor ran.\<close>

lemma ad_assigns_to_destroyed:
  "Option.is_none (run_deque (ad_push_front 0, ad_pop_front False, ad_peek_front) (ad_push_back 0, ad_pop_back False, ad_peek_back)
     [(True, Push (1::nat)), (True, Pop), (True, Push 2)] (ad_new 0))"
  by code_simp

end
