(* ===== verification/Priority_Queue.thy ===== *)
theory Priority_Queue
  imports Containers "HOL-Library.Multiset"
begin

text \<open>
  \<open>priority_queue.hpp\<close>: a binary heap in an array that grows, with the comparison as a parameter, and the
  interface of a priority queue.  The elements that sift up or down are held aside and their place is filled
  once it is found.  Sizes have type \<open>size_t\<close>, but the places that sifting walks through and the new capacity are
  computed as \<open>int\<close>: \<open>nint\<close> says where one leaves its range, which with at most 2^30 elements none does.
\<close>

section \<open>The interface\<close>

text \<open>What \<open>std::less\<close> and the comparisons used in its place promise.\<close>

definition strict_weak :: "('a \<Rightarrow> 'a \<Rightarrow> bool) \<Rightarrow> bool" where
  "strict_weak cmp \<longleftrightarrow> (\<forall>x y. cmp x y \<longrightarrow> \<not> cmp y x) \<and> (\<forall>x y z. \<not> cmp x y \<longrightarrow> \<not> cmp y z \<longrightarrow> \<not> cmp x z)"

lemma strict_weak_less [simp]: "strict_weak ((<) :: 'a::linorder \<Rightarrow> 'a \<Rightarrow> bool)"
  by (auto simp: strict_weak_def)

lemma strict_weak_refl: "strict_weak cmp \<Longrightarrow> \<not> cmp x x"
  unfolding strict_weak_def by blast

lemma strict_weak_trans: "strict_weak cmp \<Longrightarrow> \<not> cmp x y \<Longrightarrow> \<not> cmp y z \<Longrightarrow> \<not> cmp x z"
  unfolding strict_weak_def by blast

lemma strict_weak_asym: "strict_weak cmp \<Longrightarrow> cmp x y \<Longrightarrow> \<not> cmp y x"
  unfolding strict_weak_def by blast

definition greatest_in :: "('a \<Rightarrow> 'a \<Rightarrow> bool) \<Rightarrow> 'a \<Rightarrow> 'a multiset \<Rightarrow> bool" where
  "greatest_in cmp x M \<longleftrightarrow> x \<in># M \<and> (\<forall>y \<in># M. \<not> cmp x y)"

text \<open>The operations on a multiset: one of the greatest elements is shown and leaves.\<close>

inductive bag_run :: "('a \<Rightarrow> 'a \<Rightarrow> bool) \<Rightarrow> string \<Rightarrow> 'a seq_op list \<Rightarrow> 'a multiset \<Rightarrow> 'a answer list \<Rightarrow> 'a multiset \<Rightarrow> bool"
  for cmp e where
  bag_nil: "bag_run cmp e [] M [] M"
| bag_push: "bag_run cmp e ops (add_mset v M) as N \<Longrightarrow> bag_run cmp e (Push v # ops) M (Done # as) N"
| bag_pop: "greatest_in cmp x M \<Longrightarrow> bag_run cmp e ops (M - {#x#}) as N \<Longrightarrow> bag_run cmp e (Pop # ops) M (Done # as) N"
| bag_peek: "greatest_in cmp x M \<Longrightarrow> bag_run cmp e ops M as N \<Longrightarrow> bag_run cmp e (Peek # ops) M (Value x # as) N"
| bag_pop_empty: "bag_run cmp e ops {#} as N \<Longrightarrow> bag_run cmp e (Pop # ops) {#} (Thrown e # as) N"
| bag_peek_empty: "bag_run cmp e ops {#} as N \<Longrightarrow> bag_run cmp e (Peek # ops) {#} (Thrown e # as) N"

text \<open>A caller that takes the first element \<open>n\<close> times.\<close>

fun drain :: "('s \<Rightarrow> 's outcome) \<Rightarrow> ('s \<Rightarrow> 'a outcome) \<Rightarrow> nat \<Rightarrow> 's \<Rightarrow> 'a list option" where
  "drain pop peek 0 s = Some []"
| "drain pop peek (Suc n) s = do {
     x \<leftarrow> peek s;
     r \<leftarrow> pop s;
     (case (x, r) of
        (Inr x, Inr s) \<Rightarrow> map_option ((#) x) (drain pop peek n s)
      | _ \<Rightarrow> None) }"

locale bag_queue =
  fixes cmp :: "'a \<Rightarrow> 'a \<Rightarrow> bool" and inv :: "'s \<Rightarrow> bool" and bag :: "'s \<Rightarrow> 'a multiset" and message :: string
    and push :: "'a \<Rightarrow> 's \<Rightarrow> 's option" and pop :: "'s \<Rightarrow> 's outcome" and peek :: "'s \<Rightarrow> 'a outcome" and room :: nat
  assumes push_law: "inv s \<Longrightarrow> size (bag s) < room \<Longrightarrow> \<exists>s'. push v s = Some s' \<and> inv s' \<and> bag s' = add_mset v (bag s)"
    and pop_law: "inv s \<Longrightarrow> bag s \<noteq> {#} \<Longrightarrow>
      \<exists>x s'. peek s = Some (Inr x) \<and> greatest_in cmp x (bag s) \<and> pop s = Some (Inr s') \<and> inv s' \<and> bag s' = bag s - {#x#}"
    and empty_law: "inv s \<Longrightarrow> bag s = {#} \<Longrightarrow> pop s = Some (Inl message) \<and> peek s = Some (Inl message)"
begin

lemma bag_refines:
  assumes "inv s" and "size (bag s) + length ops \<le> room"
  shows "\<exists>as s'. run_seq push pop peek ops s = Some (as, s') \<and> inv s' \<and> bag_run cmp message ops (bag s) as (bag s')"
  using assms
proof (induction ops arbitrary: s)
  case Nil
  then show ?case by (auto intro: bag_nil)
next
  case (Cons op ops)
  show ?case
  proof (cases op)
    case (Push v)
    obtain s1 where s1: "push v s = Some s1" "inv s1" "bag s1 = add_mset v (bag s)" using push_law [OF Cons.prems(1), of v] Cons.prems(2) by auto
    from Cons.IH [OF s1(2)] s1 Push Cons.prems(2) show ?thesis by (fastforce intro: bag_push)
  next
    case Pop
    show ?thesis
    proof (cases "bag s = {#}")
      case True
      from Cons.IH [OF Cons.prems(1)] Pop empty_law [OF Cons.prems(1) True] True Cons.prems(2) show ?thesis by (fastforce intro: bag_pop_empty)
    next
      case False
      obtain x s1 where s1: "greatest_in cmp x (bag s)" "pop s = Some (Inr s1)" "inv s1" "bag s1 = bag s - {#x#}"
        using pop_law [OF Cons.prems(1) False] by blast
      then have "size (bag s1) + length ops \<le> room" using Cons.prems(2) size_Diff1_le [of "bag s" x] by auto
      from Cons.IH [OF s1(3) this] s1 Pop show ?thesis by (fastforce intro: bag_pop)
    qed
  next
    case Peek
    obtain as s' where run: "run_seq push pop peek ops s = Some (as, s')" "inv s'" "bag_run cmp message ops (bag s) as (bag s')"
      using Cons.IH [OF Cons.prems(1)] Cons.prems(2) by auto
    show ?thesis
    proof (cases "bag s = {#}")
      case True
      with run Peek empty_law [OF Cons.prems(1) True] show ?thesis by (auto intro: bag_peek_empty)
    next
      case False
      then obtain x where "peek s = Some (Inr x)" "greatest_in cmp x (bag s)" using pop_law [OF Cons.prems(1)] by blast
      with run Peek show ?thesis by (auto intro: bag_peek)
    qed
  qed
qed

lemma drain_sorts:
  assumes "inv s" and "n = size (bag s)"
  shows "\<exists>xs. drain pop peek n s = Some xs \<and> mset xs = bag s \<and> sorted_wrt (\<lambda>x y. \<not> cmp x y) xs"
  using assms
proof (induction n arbitrary: s)
  case (Suc n)
  then have "bag s \<noteq> {#}" by auto
  then obtain x s1 where s1: "peek s = Some (Inr x)" "greatest_in cmp x (bag s)" "pop s = Some (Inr s1)" "inv s1" "bag s1 = bag s - {#x#}"
    using pop_law [OF Suc.prems(1)] by blast
  then have x: "x \<in># bag s" "\<forall>y \<in># bag s. \<not> cmp x y" unfolding greatest_in_def by blast+
  have "n = size (bag s1)" using Suc.prems(2) x(1) s1(5) by (simp add: size_Diff_singleton)
  then obtain xs where "drain pop peek n s1 = Some xs" "mset xs = bag s1" "sorted_wrt (\<lambda>x y. \<not> cmp x y) xs"
    using Suc.IH [OF s1(4)] by blast
  moreover have "\<forall>y \<in> set xs. \<not> cmp x y"
  proof
    fix y
    assume "y \<in> set xs"
    then have "y \<in># bag s1" using \<open>mset xs = bag s1\<close> by (metis set_mset_mset)
    then show "\<not> cmp x y" using x(2) unfolding s1(5) by (auto dest: in_diffD)
  qed
  ultimately show ?case using s1 x by auto
qed simp

end

section \<open>The heap\<close>

text \<open>\<open>data_\<close> is null when there is no memory, which is the empty list.\<close>

record 'a pq =
  pq_data :: "'a list"
  pq_size :: nat
  pq_capacity :: nat

definition pq_DefaultSize :: nat where "pq_DefaultSize = 32"
definition pq_ResizeLimit :: nat where "pq_ResizeLimit = 1024"

definition get_at :: "'a list \<Rightarrow> nat \<Rightarrow> 'a option" where
  "get_at xs i = (if i < length xs then Some (xs ! i) else None)"

definition put_at :: "'a list \<Rightarrow> nat \<Rightarrow> 'a \<Rightarrow> 'a list option" where
  "put_at xs i v = (if i < length xs then Some (xs[i := v]) else None)"

definition pq_new :: "'a pq" where
  "pq_new = \<lparr>pq_data = [], pq_size = 0, pq_capacity = 0\<rparr>"

definition pq_empty :: "'a pq \<Rightarrow> bool" where
  "pq_empty q \<longleftrightarrow> pq_size q = 0 \<or> pq_data q = []"

definition pq_message :: string where
  "pq_message = ''priority queue is empty''"

definition pq_top :: "'a pq \<Rightarrow> 'a outcome" where
  "pq_top q = (if pq_empty q then Some (Inl pq_message) else map_option Inr (get_at (pq_data q) 0))"

definition pq_resize :: "'a \<Rightarrow> nat \<Rightarrow> 'a pq \<Rightarrow> 'a pq option" where
  "pq_resize init n q = (if n \<le> pq_capacity q then Some q
     else let l = (if pq_capacity q > pq_ResizeLimit then pq_capacity q + pq_ResizeLimit
                   else if pq_capacity q \<noteq> 0 then pq_capacity q * 2 else pq_DefaultSize)
          in do {
       l \<leftarrow> nint l;
       l \<leftarrow> nint (if l < n then n else l);
       guard (pq_size q \<le> length (pq_data q) \<and> pq_size q \<le> l);
       Some (q\<lparr>pq_data := take (pq_size q) (pq_data q) @ replicate (l - pq_size q) init, pq_capacity := l\<rparr>) })"

text \<open>The loop of \<open>shiftup\<close>: \<open>val\<close> is to be put at \<open>son\<close> or above.\<close>

function pq_up :: "('a \<Rightarrow> 'a \<Rightarrow> bool) \<Rightarrow> 'a \<Rightarrow> 'a list \<Rightarrow> nat \<Rightarrow> 'a list option" where
  "pq_up cmp val data son =
     (if son > 0 then do {
        p \<leftarrow> get_at data ((son - 1) div 2);
        (if cmp val p then put_at data son val
         else do {
           data \<leftarrow> put_at data son p;
           pq_up cmp val data ((son - 1) div 2) }) }
      else put_at data son val)"
  by pat_completeness auto
termination by (relation "measure (\<lambda>(cmp, val, data, son). son)") auto

declare pq_up.simps [simp del]

definition pq_shiftup :: "('a \<Rightarrow> 'a \<Rightarrow> bool) \<Rightarrow> nat \<Rightarrow> 'a list \<Rightarrow> 'a list option" where
  "pq_shiftup cmp pos data = do { val \<leftarrow> get_at data pos; son \<leftarrow> nint pos; pq_up cmp val data son }"

text \<open>The child that \<open>shiftdown\<close> compares with.\<close>

definition pq_child :: "('a \<Rightarrow> 'a \<Rightarrow> bool) \<Rightarrow> 'a list \<Rightarrow> nat \<Rightarrow> nat \<Rightarrow> nat option" where
  "pq_child cmp data n child =
     do {
       right \<leftarrow> nint (child + 1);
       (if right < n then do {
          a \<leftarrow> get_at data child;
          b \<leftarrow> get_at data right;
          Some (if cmp a b then right else child) }
        else Some child) }"

lemma pq_child_less: "pq_child cmp data n child = Some c \<Longrightarrow> child < n \<Longrightarrow> child \<le> c \<and> c < n"
  by (auto simp: pq_child_def nint_Some bind_eq_Some_conv split: if_splits)

function pq_down :: "('a \<Rightarrow> 'a \<Rightarrow> bool) \<Rightarrow> 'a \<Rightarrow> nat \<Rightarrow> 'a list \<Rightarrow> nat \<Rightarrow> 'a list option" where
  "pq_down cmp val n data parent =
     do {
       child \<leftarrow> nint (2 * parent + 1);
       (if child < n then do {
          child \<leftarrow> pq_child cmp data n child;
          c \<leftarrow> get_at data child;
          (if cmp c val then put_at data parent val
           else do {
             data \<leftarrow> put_at data parent c;
             pq_down cmp val n data child }) }
        else put_at data parent val) }"
  by pat_completeness auto
termination
  by (relation "measure (\<lambda>(cmp, val, n, data, parent). n - parent)") (auto simp: nint_Some dest!: pq_child_less)

declare pq_down.simps [simp del]

definition pq_shiftdown :: "('a \<Rightarrow> 'a \<Rightarrow> bool) \<Rightarrow> nat \<Rightarrow> nat \<Rightarrow> 'a list \<Rightarrow> 'a list option" where
  "pq_shiftdown cmp n pos data = do { val \<leftarrow> get_at data pos; parent \<leftarrow> nint pos; pq_down cmp val n data parent }"

fun pq_build :: "('a \<Rightarrow> 'a \<Rightarrow> bool) \<Rightarrow> nat \<Rightarrow> nat list \<Rightarrow> 'a list \<Rightarrow> 'a list option" where
  "pq_build cmp n [] data = Some data"
| "pq_build cmp n (i # is) data = do { data \<leftarrow> pq_shiftdown cmp n i data; pq_build cmp n is data }"

definition pq_new_from :: "('a \<Rightarrow> 'a \<Rightarrow> bool) \<Rightarrow> 'a \<Rightarrow> 'a list \<Rightarrow> 'a pq option" where
  "pq_new_from cmp init xs = do {
     q \<leftarrow> pq_resize init (length xs) pq_new;
     guard (length xs \<le> length (pq_data q));
     let data = xs @ drop (length xs) (pq_data q);
     _ \<leftarrow> nint (length xs div 2 - 1);
     data \<leftarrow> pq_build cmp (length xs) (rev [0..<length xs div 2]) data;
     Some (q\<lparr>pq_data := data, pq_size := length xs\<rparr>) }"

definition pq_push :: "('a \<Rightarrow> 'a \<Rightarrow> bool) \<Rightarrow> 'a \<Rightarrow> 'a \<Rightarrow> 'a pq \<Rightarrow> 'a pq option" where
  "pq_push cmp init val q = do {
     q \<leftarrow> pq_resize init (pq_size q + 1) q;
     data \<leftarrow> put_at (pq_data q) (pq_size q) val;
     data \<leftarrow> pq_shiftup cmp (pq_size q) data;
     Some (q\<lparr>pq_data := data, pq_size := pq_size q + 1\<rparr>) }"

definition pq_pop :: "('a \<Rightarrow> 'a \<Rightarrow> bool) \<Rightarrow> 'a pq \<Rightarrow> 'a pq outcome" where
  "pq_pop cmp q = (if pq_empty q then Some (Inl pq_message)
     else let n = pq_size q - 1 in do {
       v \<leftarrow> get_at (pq_data q) n;
       data \<leftarrow> put_at (pq_data q) 0 v;
       data \<leftarrow> pq_shiftdown cmp n 0 data;
       Some (Inr (q\<lparr>pq_data := data, pq_size := n\<rparr>)) })"

section \<open>Heaps\<close>

definition son_of :: "nat \<Rightarrow> nat \<Rightarrow> bool" where
  "son_of i c \<longleftrightarrow> c = 2 * i + 1 \<or> c = 2 * i + 2"

lemma son_of_parent: "0 < c \<Longrightarrow> son_of ((c - 1) div 2) c"
  unfolding son_of_def by presburger

lemma son_of_unique: "son_of i c \<Longrightarrow> son_of j c \<Longrightarrow> i = j"
  unfolding son_of_def by presburger

lemma son_of_less: "son_of i c \<Longrightarrow> i < c"
  unfolding son_of_def by presburger

definition heap :: "('a \<Rightarrow> 'a \<Rightarrow> bool) \<Rightarrow> nat \<Rightarrow> nat \<Rightarrow> (nat \<Rightarrow> 'a) \<Rightarrow> bool" where
  "heap cmp lo n f \<longleftrightarrow> (\<forall>i c. lo \<le> i \<and> son_of i c \<and> c < n \<longrightarrow> \<not> cmp (f i) (f c))"

text \<open>All but the element at \<open>q\<close> and its father; its father dominates its sons.\<close>

definition heap_above :: "('a \<Rightarrow> 'a \<Rightarrow> bool) \<Rightarrow> nat \<Rightarrow> nat \<Rightarrow> (nat \<Rightarrow> 'a) \<Rightarrow> bool" where
  "heap_above cmp n q f \<longleftrightarrow> (\<forall>i c. c \<noteq> q \<and> son_of i c \<and> c < n \<longrightarrow> \<not> cmp (f i) (f c)) \<and>
     (\<forall>g c. son_of g q \<and> son_of q c \<and> c < n \<longrightarrow> \<not> cmp (f g) (f c))"

text \<open>All but the element at \<open>q\<close> and its sons.\<close>

definition heap_below :: "('a \<Rightarrow> 'a \<Rightarrow> bool) \<Rightarrow> nat \<Rightarrow> nat \<Rightarrow> nat \<Rightarrow> (nat \<Rightarrow> 'a) \<Rightarrow> bool" where
  "heap_below cmp lo n q f \<longleftrightarrow> (\<forall>i c. lo \<le> i \<and> i \<noteq> q \<and> son_of i c \<and> c < n \<longrightarrow> \<not> cmp (f i) (f c)) \<and>
     (\<forall>g c. lo \<le> g \<and> son_of g q \<and> son_of q c \<and> c < n \<longrightarrow> \<not> cmp (f g) (f c))"

lemma heap_above_end: "heap_above cmp n q f \<Longrightarrow> (\<And>p. son_of p q \<Longrightarrow> \<not> cmp (f p) (f q)) \<Longrightarrow> heap cmp 0 n f"
  unfolding heap_above_def heap_def by metis

lemma heap_below_end: "heap_below cmp lo n q f \<Longrightarrow> (\<And>c. son_of q c \<Longrightarrow> c < n \<Longrightarrow> \<not> cmp (f q) (f c)) \<Longrightarrow> heap cmp lo n f"
  unfolding heap_below_def heap_def by metis

lemma heap_above_step:
  assumes "strict_weak cmp" and "heap_above cmp n q f" and "q < n" and "son_of p q" and "\<not> cmp (f q) (f p)"
  shows "heap_above cmp n p (f(q := f p, p := f q))"
proof -
  have A: "\<not> cmp (f i) (f c)" if "c \<noteq> q" "son_of i c" "c < n" for i c using assms(2) that unfolding heap_above_def by blast
  have B: "\<not> cmp (f p) (f c)" if "son_of q c" "c < n" for c using assms(2,4) that unfolding heap_above_def by blast
  have pq: "p < q" using son_of_less [OF assms(4)] .
  have "\<not> cmp ((f(q := f p, p := f q)) i) ((f(q := f p, p := f q)) c)" if c: "c \<noteq> p" "son_of i c" "c < n" for i c
  proof (cases "c = q")
    case True
    then show ?thesis using son_of_unique [OF c(2)] assms(4,5) pq by simp
  next
    case False
    have ic: "i < c" using son_of_less [OF c(2)] .
    consider "i = p" | "i = q" | "i \<noteq> p" "i \<noteq> q" by blast
    then show ?thesis
    proof cases
      case 1
      then show ?thesis using strict_weak_trans [OF assms(1,5)] A [OF False c(2,3)] False c(1) by simp
    next
      case 2
      then show ?thesis using B c ic pq by simp
    next
      case 3
      then show ?thesis using A [OF False c(2,3)] c(1) False by simp
    qed
  qed
  moreover have "\<not> cmp ((f(q := f p, p := f q)) g) ((f(q := f p, p := f q)) c)" if c: "son_of g p" "son_of p c" "c < n" for g c
  proof -
    have g: "g < p" "p < c" "\<not> cmp (f g) (f p)" using son_of_less [OF c(1)] son_of_less [OF c(2)] A [OF _ c(1)] pq assms(3) by auto
    have "\<not> cmp (f g) (f c)" if "c \<noteq> q" using strict_weak_trans [OF assms(1) g(3) A [OF that c(2,3)]] .
    then show ?thesis using g pq by auto
  qed
  ultimately show ?thesis unfolding heap_above_def by blast
qed

lemma heap_below_step:
  assumes "heap_below cmp lo n q f" and "lo \<le> q" and s: "son_of q s" "s < n"
    and m: "\<And>c. son_of q c \<Longrightarrow> c < n \<Longrightarrow> \<not> cmp (f s) (f c)" and "\<not> cmp (f s) (f q)"
  shows "heap_below cmp lo n s (f(q := f s, s := f q))"
proof -
  have A: "\<not> cmp (f i) (f c)" if "lo \<le> i" "i \<noteq> q" "son_of i c" "c < n" for i c using assms(1) that unfolding heap_below_def by blast
  have B: "\<not> cmp (f g) (f s)" if "lo \<le> g" "son_of g q" for g using assms(1) that s unfolding heap_below_def by blast
  have qs: "q < s" using son_of_less [OF s(1)] .
  have "\<not> cmp ((f(q := f s, s := f q)) i) ((f(q := f s, s := f q)) c)" if i: "lo \<le> i" "i \<noteq> s" "son_of i c" "c < n" for i c
  proof (cases "i = q")
    case True
    then show ?thesis using m [of c] i son_of_less [OF i(3)] assms(6) by auto
  next
    case False
    then have "c \<noteq> s" using son_of_unique [OF s(1)] i by blast
    then show ?thesis using A [OF i(1) False i(3,4)] B [OF i(1)] i False by auto
  qed
  moreover have "\<not> cmp ((f(q := f s, s := f q)) g) ((f(q := f s, s := f q)) c)" if g: "lo \<le> g" "son_of g s" "son_of s c" "c < n" for g c
  proof -
    have "g = q" using son_of_unique [OF g(2) s(1)] .
    then show ?thesis using A [of s c] g son_of_less [OF g(3)] qs assms(2) by auto
  qed
  ultimately show ?thesis unfolding heap_below_def by blast
qed

lemma heap_first:
  assumes "strict_weak cmp" and "heap cmp 0 n f"
  shows "k < n \<Longrightarrow> \<not> cmp (f 0) (f k)"
proof (induction k rule: less_induct)
  case (less k)
  show ?case
  proof (cases "k = 0")
    case True
    then show ?thesis using strict_weak_refl [OF assms(1)] by simp
  next
    case False
    then have p: "son_of ((k - 1) div 2) k" by (intro son_of_parent) simp
    then have "\<not> cmp (f ((k - 1) div 2)) (f k)" using assms(2) less.prems unfolding heap_def by blast
    moreover have "\<not> cmp (f 0) (f ((k - 1) div 2))" using less.IH son_of_less [OF p] less.prems by simp
    ultimately show ?thesis using strict_weak_trans [OF assms(1)] by blast
  qed
qed

section \<open>Sifting\<close>

lemma nth_put_at: "i < length xs \<Longrightarrow> (!) (xs[i := v]) = ((!) xs)(i := v)"
  by (auto simp: nth_list_update)

text \<open>The first \<open>n\<close> elements are those of another array, in another order; the others are the same.\<close>

definition reordered :: "nat \<Rightarrow> 'a list \<Rightarrow> 'a list \<Rightarrow> bool" where
  "reordered n a b \<longleftrightarrow> length b = length a \<and> mset (take n b) = mset (take n a)"

lemma reordered_refl [simp]: "reordered n a a"
  by (simp add: reordered_def)

lemma reordered_swap:
  assumes "p < n" "s < n" "n \<le> length a"
  shows "reordered n (a[p := v]) (a[p := a ! s, s := v])"
proof (cases "p = s")
  case False
  have "(take n (a[p := v]))[p := take n (a[p := v]) ! s, s := take n (a[p := v]) ! p] = take n (a[p := a ! s, s := v])"
    using assms False by (simp add: take_update_swap)
  then show ?thesis using assms unfolding reordered_def by (metis length_list_update length_take min.absorb2 mset_swap)
qed simp

lemma reordered_trans: "reordered n a b \<Longrightarrow> reordered n b c \<Longrightarrow> reordered n a c"
  by (simp add: reordered_def)

text \<open>Up to this many elements every place is an \<open>int\<close>.\<close>

definition pq_room :: nat where "pq_room = 2 ^ 30"

lemma pq_room_nint: "n \<le> pq_room \<Longrightarrow> m < 2 * n \<or> m \<le> 1 \<Longrightarrow> nint m = Some m"
  by (auto simp: nint_def int_limits pq_room_def)

lemma pq_up_correct:
  assumes "strict_weak cmp"
  shows "heap_above cmp n son (((!) data)(son := val)) \<Longrightarrow> son < n \<Longrightarrow> n \<le> length data \<Longrightarrow>
    ok (pq_up cmp val data son) (\<lambda>b. reordered n (data[son := val]) b \<and> heap cmp 0 n ((!) b))"
proof (induction son arbitrary: data rule: less_induct)
  case (less son)
  show ?case
  proof (cases "son = 0")
    case True
    then have "heap cmp 0 n (((!) data)(son := val))"
      by (intro heap_above_end [OF less.prems(1)]) (simp add: son_of_def)
    moreover have "0 < length data" using less.prems True by linarith
    ultimately show ?thesis using True less.prems by (subst pq_up.simps) (simp add: put_at_def nth_put_at)
  next
    case False
    let ?p = "(son - 1) div 2"
    have p: "son_of ?p son" using False by (intro son_of_parent) simp
    then have ps: "?p < son" by (rule son_of_less)
    show ?thesis
    proof (cases "cmp val (data ! ?p)")
      case True
      then have "heap cmp 0 n (((!) data)(son := val))"
        using son_of_unique [OF p] ps strict_weak_asym [OF assms] by (intro heap_above_end [OF less.prems(1)]) auto
      then show ?thesis using True False less.prems ps by (subst pq_up.simps) (simp add: get_at_def put_at_def nth_put_at)
    next
      case stop: False
      let ?d = "data[son := data ! ?p]"
      define f where "f = ((!) data)(son := val)"
      have f: "((!) ?d)(?p := val) = f(son := f ?p, ?p := f son)"
        using ps less.prems by (auto simp: nth_list_update f_def)
      have "heap_above cmp n ?p (f(son := f ?p, ?p := f son))"
        by (rule heap_above_step [OF assms less.prems(1,2) [folded f_def] p]) (use stop ps in \<open>simp add: f_def\<close>)
      then have h: "heap_above cmp n ?p (((!) ?d)(?p := val))" unfolding f .
      have "ok (pq_up cmp val ?d ?p) (\<lambda>b. reordered n (?d[?p := val]) b \<and> heap cmp 0 n ((!) b))"
        by (rule less.IH [OF ps h]) (use ps less.prems in simp_all)
      moreover have "reordered n (data[son := val]) (?d[?p := val])" using ps less.prems by (intro reordered_swap) simp_all
      ultimately have "ok (pq_up cmp val ?d ?p) (\<lambda>b. reordered n (data[son := val]) b \<and> heap cmp 0 n ((!) b))"
        by (elim ok_mono) (auto intro: reordered_trans)
      then show ?thesis using stop False less.prems ps by (subst pq_up.simps) (simp add: get_at_def put_at_def)
    qed
  qed
qed

lemma pq_child_correct:
  assumes "strict_weak cmp" and "2 * q + 1 < n" and "n \<le> length data" and "n \<le> pq_room"
  shows "\<exists>s. pq_child cmp data n (2 * q + 1) = Some s \<and> son_of q s \<and> s < n \<and> (\<forall>c. son_of q c \<and> c < n \<longrightarrow> \<not> cmp (data ! s) (data ! c))"
  using assms strict_weak_refl [OF assms(1)] strict_weak_asym [OF assms(1)]
  by (auto simp: pq_child_def son_of_def get_at_def pq_room_nint [of n])

lemma pq_down_correct:
  assumes "strict_weak cmp"
  shows "heap_below cmp lo n q (((!) data)(q := val)) \<Longrightarrow> lo \<le> q \<Longrightarrow> q < length data \<Longrightarrow> q < n \<or> q = 0 \<Longrightarrow> n \<le> length data \<Longrightarrow> n \<le> pq_room \<Longrightarrow>
    ok (pq_down cmp val n data q) (\<lambda>b. reordered n (data[q := val]) b \<and> heap cmp lo n ((!) b))"
proof (induction "n - q" arbitrary: q data rule: less_induct)
  case less
  have places: "nint (Suc (2 * q)) = Some (Suc (2 * q))"
    using less.prems(4,6) by (intro pq_room_nint [of n]) linarith+
  show ?case
  proof (cases "2 * q + 1 < n")
    case False
    then have "heap cmp lo n (((!) data)(q := val))"
      by (intro heap_below_end [OF less.prems(1)]) (auto simp: son_of_def)
    then show ?thesis using False less.prems by (subst pq_down.simps) (simp add: places put_at_def nth_put_at)
  next
    case True
    obtain s where s: "pq_child cmp data n (2 * q + 1) = Some s" "son_of q s" "s < n"
      and m: "\<And>c. son_of q c \<Longrightarrow> c < n \<Longrightarrow> \<not> cmp (data ! s) (data ! c)"
      using pq_child_correct [OF assms True less.prems(5,6)] by blast
    have qs: "q < s" using s(2) by (rule son_of_less)
    show ?thesis
    proof (cases "cmp (data ! s) val")
      case stop: True
      have "\<not> cmp val (data ! c)" if "son_of q c" "c < n" for c
        using strict_weak_trans [OF assms strict_weak_asym [OF assms stop] m [OF that]] .
      then have "heap cmp lo n (((!) data)(q := val))"
        using son_of_less by (intro heap_below_end [OF less.prems(1)]) fastforce
      then show ?thesis using True s stop less.prems qs by (subst pq_down.simps) (simp add: places get_at_def put_at_def nth_put_at)
    next
      case False
      let ?d = "data[q := data ! s]"
      define f where "f = ((!) data)(q := val)"
      have f: "((!) ?d)(s := val) = f(q := f s, s := f q)"
        using qs less.prems by (auto simp: nth_list_update f_def)
      have "heap_below cmp lo n s (f(q := f s, s := f q))"
      proof (rule heap_below_step [OF less.prems(1) [folded f_def] less.prems(2) s(2,3)])
        show "\<not> cmp (f s) (f c)" if "son_of q c" "c < n" for c using m [OF that] son_of_less [OF that(1)] qs by (simp add: f_def)
        show "\<not> cmp (f s) (f q)" using False qs by (simp add: f_def)
      qed
      then have "heap_below cmp lo n s (((!) ?d)(s := val))" unfolding f .
      then have "ok (pq_down cmp val n ?d s) (\<lambda>b. reordered n (?d[s := val]) b \<and> heap cmp lo n ((!) b))"
        by (intro less.hyps) (use qs s less.prems in auto)
      moreover have "reordered n (data[q := val]) (?d[s := val])" using qs s less.prems by (intro reordered_swap) simp_all
      ultimately have "ok (pq_down cmp val n ?d s) (\<lambda>b. reordered n (data[q := val]) b \<and> heap cmp lo n ((!) b))"
        by (elim ok_mono) (auto intro: reordered_trans)
      then show ?thesis using True False s qs less.prems by (subst pq_down.simps) (simp add: places get_at_def put_at_def)
    qed
  qed
qed

lemma pq_shiftdown_correct:
  assumes "strict_weak cmp" and "heap cmp (lo + 1) n ((!) data)" and "lo < length data" and "lo < n \<or> lo = 0" and "n \<le> length data"
    and "n \<le> pq_room"
  shows "ok (pq_shiftdown cmp n lo data) (\<lambda>b. reordered n data b \<and> heap cmp lo n ((!) b))"
proof -
  have "heap_below cmp lo n lo (((!) data)(lo := data ! lo))"
    using assms(2) by (auto simp: heap_def heap_below_def dest: son_of_less)
  moreover have "nint lo = Some lo" using assms(4,6) by (intro pq_room_nint [of n]) linarith+
  ultimately show ?thesis using pq_down_correct [OF assms(1), of lo n lo data "data ! lo"] assms(3-6)
    by (auto simp: pq_shiftdown_def get_at_def)
qed

lemma pq_build_correct:
  assumes "strict_weak cmp"
  shows "heap cmp m n ((!) data) \<Longrightarrow> m \<le> n \<Longrightarrow> n \<le> length data \<Longrightarrow> n \<le> pq_room \<Longrightarrow>
    ok (pq_build cmp n (rev [0..<m]) data) (\<lambda>b. reordered n data b \<and> heap cmp 0 n ((!) b))"
proof (induction m arbitrary: data)
  case (Suc m)
  have "ok (pq_shiftdown cmp n m data) (\<lambda>b. reordered n data b \<and> heap cmp m n ((!) b))"
    using Suc.prems by (intro pq_shiftdown_correct [OF assms]) simp_all
  then obtain d where d: "pq_shiftdown cmp n m data = Some d" "reordered n data d" "heap cmp m n ((!) d)" by (blast elim: okE)
  have "ok (pq_build cmp n (rev [0..<m]) d) (\<lambda>b. reordered n d b \<and> heap cmp 0 n ((!) b))"
    by (rule Suc.IH) (use d Suc.prems in \<open>simp_all add: reordered_def\<close>)
  then have "ok (pq_build cmp n (rev [0..<m]) d) (\<lambda>b. reordered n data b \<and> heap cmp 0 n ((!) b))"
    by (rule ok_mono) (use d in \<open>auto intro: reordered_trans\<close>)
  with d show ?case by simp
qed simp

section \<open>The queue\<close>

definition pq_inv :: "('a \<Rightarrow> 'a \<Rightarrow> bool) \<Rightarrow> 'a pq \<Rightarrow> bool" where
  "pq_inv cmp q \<longleftrightarrow> strict_weak cmp \<and> length (pq_data q) = pq_capacity q \<and> pq_size q \<le> pq_capacity q \<and>
     pq_size q \<le> pq_room \<and> heap cmp 0 (pq_size q) ((!) (pq_data q))"

definition pq_bag :: "'a pq \<Rightarrow> 'a multiset" where
  "pq_bag q = mset (take (pq_size q) (pq_data q))"

lemma pq_new_correct [simp]: "pq_inv cmp pq_new \<longleftrightarrow> strict_weak cmp" "pq_bag pq_new = {#}"
  by (auto simp: pq_inv_def pq_new_def pq_bag_def pq_room_def heap_def)

lemma pq_resize_correct:
  assumes "length (pq_data q) = pq_capacity q" and "pq_size q \<le> pq_capacity q" and "n \<le> pq_room"
  shows "\<exists>r. pq_resize init n q = Some r \<and> length (pq_data r) = pq_capacity r \<and> n \<le> pq_capacity r \<and> pq_size r = pq_size q \<and>
    pq_capacity q \<le> pq_capacity r \<and> take (pq_size q) (pq_data r) = take (pq_size q) (pq_data q)"
  using assms by (auto simp: pq_resize_def Let_def pq_ResizeLimit_def pq_DefaultSize_def pq_room_def nint_def int_limits)

lemma heap_cong: "heap cmp 0 n f \<Longrightarrow> (\<And>i. i < n \<Longrightarrow> g i = f i) \<Longrightarrow> heap cmp 0 n g"
  unfolding heap_def by (metis son_of_less less_trans)

lemma pq_push_correct:
  assumes "pq_inv cmp q" and "size (pq_bag q) < pq_room"
  shows "\<exists>r. pq_push cmp init v q = Some r \<and> pq_inv cmp r \<and> pq_bag r = add_mset v (pq_bag q)"
proof -
  let ?n = "pq_size q"
  have inv: "strict_weak cmp" "length (pq_data q) = pq_capacity q" "?n \<le> pq_capacity q" "heap cmp 0 ?n ((!) (pq_data q))"
    using assms(1) unfolding pq_inv_def by blast+
  have room: "?n + 1 \<le> pq_room" using assms(2) inv(2,3) by (simp add: pq_bag_def)
  obtain r where r: "pq_resize init (?n + 1) q = Some r" "length (pq_data r) = pq_capacity r" "?n + 1 \<le> pq_capacity r"
      "pq_size r = ?n" "take ?n (pq_data r) = take ?n (pq_data q)"
    using pq_resize_correct [OF inv(2,3) room, of init] by blast
  let ?d = "(pq_data r)[?n := v]"
  have n: "?n < length (pq_data r)" using r by simp
  have same: "pq_data r ! i = pq_data q ! i" if "i < ?n" for i using r(5) that by (metis nth_take)
  have "heap cmp 0 ?n ((!) (pq_data r))" using heap_cong [OF inv(4) same] .
  then have "heap_above cmp (?n + 1) ?n (((!) ?d)(?n := v))"
    unfolding nth_put_at [OF n] heap_above_def heap_def by (auto dest: son_of_less)
  then have "ok (pq_up cmp v ?d ?n) (\<lambda>b. reordered (?n + 1) (?d[?n := v]) b \<and> heap cmp 0 (?n + 1) ((!) b))"
    using n by (intro pq_up_correct [OF inv(1)]) simp_all
  then obtain b where b: "pq_up cmp v ?d ?n = Some b" "reordered (?n + 1) ?d b" "heap cmp 0 (?n + 1) ((!) b)" by (auto elim: okE)
  define t where "t = r\<lparr>pq_data := b, pq_size := ?n + 1\<rparr>"
  have "pq_push cmp init v q = Some t" using r b n room pq_room_nint [OF room, of ?n]
    by (simp add: pq_push_def pq_shiftup_def get_at_def put_at_def t_def)
  moreover have "pq_inv cmp t" using inv(1) r b room by (simp add: pq_inv_def t_def reordered_def)
  moreover have "take (Suc ?n) ?d = take ?n (pq_data q) @ [v]" using n r(5) by (simp add: take_Suc_conv_app_nth)
  then have "pq_bag t = add_mset v (pq_bag q)" using b(2) by (simp add: pq_bag_def t_def reordered_def)
  ultimately show ?thesis by blast
qed

lemma mset_replace_first: "n < length xs \<Longrightarrow> mset (take n (xs[0 := xs ! n])) = mset (take (Suc n) xs) - {#xs ! 0#}"
  by (cases xs; cases n) (auto simp: take_Suc_conv_app_nth)

lemma pq_pop_correct:
  assumes "pq_inv cmp q" and "pq_bag q \<noteq> {#}"
  shows "\<exists>x r. pq_top q = Some (Inr x) \<and> greatest_in cmp x (pq_bag q) \<and> pq_pop cmp q = Some (Inr r) \<and> pq_inv cmp r \<and>
    pq_bag r = pq_bag q - {#x#}"
proof -
  have inv: "strict_weak cmp" "length (pq_data q) = pq_capacity q" "pq_size q \<le> pq_capacity q" "heap cmp 0 (pq_size q) ((!) (pq_data q))"
      "pq_size q \<le> pq_room"
    using assms(1) unfolding pq_inv_def by blast+
  obtain n where n: "pq_size q = Suc n" using assms(2) by (cases "pq_size q") (auto simp: pq_bag_def)
  let ?d = "pq_data q"
  let ?e = "?d[0 := ?d ! n]"
  have len: "n < length ?d" "0 < length ?d" "?d \<noteq> []" using n inv(2,3) by auto
  have ne: "\<not> pq_empty q" using n len by (simp add: pq_empty_def)
  have top: "pq_top q = Some (Inr (?d ! 0))" using len ne by (simp add: pq_top_def get_at_def)
  have "\<not> cmp (?d ! 0) y" if y: "y \<in> set (take (Suc n) ?d)" for y
  proof -
    obtain k where "k < Suc n" "y = ?d ! k" using y by (auto simp: in_set_conv_nth)
    then show ?thesis using heap_first [OF inv(1,4), of k] n by simp
  qed
  moreover have "?d ! 0 \<in> set (take (Suc n) ?d)" using len by (cases ?d) auto
  ultimately have great: "greatest_in cmp (?d ! 0) (pq_bag q)" unfolding greatest_in_def pq_bag_def n by simp
  have "heap cmp (0 + 1) n ((!) ?e)" using inv(4) len unfolding heap_def n nth_put_at [OF len(2)] by (auto dest: son_of_less)
  then have "ok (pq_shiftdown cmp n 0 ?e) (\<lambda>b. reordered n ?e b \<and> heap cmp 0 n ((!) b))"
    using len inv(5) n by (intro pq_shiftdown_correct [OF inv(1)]) simp_all
  then obtain b where b: "pq_shiftdown cmp n 0 ?e = Some b" "reordered n ?e b" "heap cmp 0 n ((!) b)" by (auto elim: okE)
  define r where "r = q\<lparr>pq_data := b, pq_size := n\<rparr>"
  have "pq_pop cmp q = Some (Inr r)" using ne b len n by (simp add: pq_pop_def Let_def get_at_def put_at_def r_def)
  moreover have "pq_inv cmp r" using inv b n by (simp add: pq_inv_def r_def reordered_def)
  moreover have "pq_bag r = pq_bag q - {#?d ! 0#}"
    using b(2) mset_replace_first [OF len(1)] by (simp add: pq_bag_def r_def n reordered_def)
  ultimately show ?thesis using top great by blast
qed

interpretation array_pq: bag_queue cmp "pq_inv cmp" pq_bag pq_message "pq_push cmp init" "pq_pop cmp" pq_top pq_room
proof
  show "pq_pop cmp q = Some (Inl pq_message) \<and> pq_top q = Some (Inl pq_message)" if "pq_inv cmp q" "pq_bag q = {#}" for q
    using that by (auto simp: pq_inv_def pq_bag_def pq_pop_def pq_top_def pq_empty_def)
qed (auto dest: pq_push_correct pq_pop_correct)

lemma pq_new_from_correct:
  assumes "strict_weak cmp" and "length xs \<le> pq_room"
  shows "\<exists>q. pq_new_from cmp init xs = Some q \<and> pq_inv cmp q \<and> pq_bag q = mset xs"
proof -
  let ?n = "length xs"
  obtain r where r: "pq_resize init ?n (pq_new :: 'a pq) = Some r" "length (pq_data r) = pq_capacity r" "?n \<le> pq_capacity r"
    using pq_resize_correct [of "pq_new :: 'a pq" ?n init] assms(2) by (auto simp: pq_new_def)
  let ?d = "xs @ drop ?n (pq_data r)"
  have "heap cmp (?n div 2) ?n ((!) ?d)" unfolding heap_def son_of_def by auto
  then have "ok (pq_build cmp ?n (rev [0..<?n div 2]) ?d) (\<lambda>b. reordered ?n ?d b \<and> heap cmp 0 ?n ((!) b))"
    using assms(2) by (intro pq_build_correct [OF assms(1)]) simp_all
  then obtain b where b: "pq_build cmp ?n (rev [0..<?n div 2]) ?d = Some b" "reordered ?n ?d b" "heap cmp 0 ?n ((!) b)" by (blast elim: okE)
  moreover have "nint (?n div 2 - 1) = Some (?n div 2 - 1)" using assms(2) by (intro pq_room_nint [of ?n]) linarith+
  ultimately show ?thesis using r assms by (auto simp: pq_new_from_def Let_def pq_inv_def pq_bag_def reordered_def)
qed

text \<open>
  C23: The priority queue refines a multiset: for a comparison that is a strict weak order, every sequence of
  operations on a queue made from an array is defined and answers as the operations on the multiset of the
  elements, where \<open>top\<close> shows and \<open>pop\<close> removes one that is not less than any other, and both throw when
  the multiset is empty.  There must be no more elements and operations together than 2^30, so that no place
  leaves the range of \<open>int\<close>.
\<close>

theorem priority_queue_refines_bag:
  assumes "strict_weak cmp" and "length xs + length ops \<le> 2 ^ 30"
  shows "\<exists>q as r. pq_new_from cmp init xs = Some q \<and> run_seq (pq_push cmp init) (pq_pop cmp) pq_top ops q = Some (as, r) \<and>
    bag_run cmp pq_message ops (mset xs) as (pq_bag r)"
proof -
  have room: "length xs \<le> pq_room" "size (mset xs) + length ops \<le> pq_room" using assms(2) by (simp_all add: pq_room_def)
  obtain q where q: "pq_new_from cmp init xs = Some q" "pq_inv cmp q" "pq_bag q = mset xs"
    using pq_new_from_correct [OF assms(1) room(1)] by blast
  from array_pq.bag_refines [OF q(2), of ops init] q room show ?thesis by auto
qed

theorem priority_queue_refines_bag_witness:
  "\<exists>q as r. pq_new_from (<) 0 [3, 1, 2 :: nat] = Some q \<and> run_seq (pq_push (<) 0) (pq_pop (<)) pq_top [Pop, Peek, Push 7, Peek] q = Some (as, r) \<and>
    bag_run (<) pq_message [Pop, Peek, Push 7, Peek] (mset [3, 1, 2]) as (pq_bag r)"
  by (rule priority_queue_refines_bag) simp_all

text \<open>
  A priority queue sorts: taking the first element of a queue made from an array, as often as the array has
  elements, gives a permutation of the array in which no element is less than a later one.
\<close>

lemma priority_queue_sorts:
  assumes "strict_weak cmp" and "length xs \<le> 2 ^ 30"
  shows "\<exists>q ys. pq_new_from cmp init xs = Some q \<and> drain (pq_pop cmp) pq_top (length xs) q = Some ys \<and>
    mset ys = mset xs \<and> sorted_wrt (\<lambda>x y. \<not> cmp x y) ys"
proof -
  obtain q where q: "pq_new_from cmp init xs = Some q" "pq_inv cmp q" "pq_bag q = mset xs"
    using pq_new_from_correct [OF assms(1)] assms(2) by (auto simp: pq_room_def)
  from array_pq.drain_sorts [OF q(2), of "length xs"] q show ?thesis by simp
qed

text \<open>The bound is there for the places: one round more and the place of a son is no \<open>int\<close>.\<close>

lemma pq_down_overflows: "2 ^ 30 \<le> parent \<Longrightarrow> pq_down cmp val n data parent = None"
  by (subst pq_down.simps) (simp add: nint_def int_limits)

end
