(* ===== verification/KMP.thy ===== *)
theory KMP
  imports Prelude "HOL-Library.Sublist"
begin

text \<open>
  \<open>Algorithm/KMP_Algorithm.cpp\<close>: the search for a string in another by Knuth, Morris and Pratt.  The
  specification is the search that tries every position.
\<close>

section \<open>The model\<close>

text \<open>One round of the loop of \<open>getNext\<close>.\<close>

definition next_round :: "string \<Rightarrow> int list \<times> int \<times> int \<Rightarrow> (int list \<times> int \<times> int) option" where
  "next_round pattern = (\<lambda>(nx, i, k). do {
     a \<leftarrow> rd pattern i;
     b \<leftarrow> rd pattern k;
     (if a = b then do {
        v \<leftarrow> cint (k + 1);
        nx \<leftarrow> wr nx i v;
        k \<leftarrow> cint (k + 1);
        i \<leftarrow> cint (i + 1);
        Some (nx, i, k) }
      else if k > 0 then do { k \<leftarrow> rd nx (k - 1); Some (nx, i, k) }
      else do { nx \<leftarrow> wr nx i 0; i \<leftarrow> cint (i + 1); Some (nx, i, k) }) })"

definition getNext :: "string \<Rightarrow> int list option" where
  "getNext pattern = do {
     (nx, i, k) \<leftarrow> cwhile (\<lambda>(nx, i, k). Some (i < len pattern)) (next_round pattern) (replicate (length pattern) 0, 1, 0);
     Some nx }"

text \<open>One round of the loop of \<open>strStr\<close>; the flag is set by its \<open>break\<close>.\<close>

definition search_round :: "string \<Rightarrow> string \<Rightarrow> int list \<Rightarrow> bool \<times> int \<times> int \<times> int \<Rightarrow> (bool \<times> int \<times> int \<times> int) option" where
  "search_round haystack needle nx = (\<lambda>(stop, pos, i, j). do {
     a \<leftarrow> rd haystack i;
     b \<leftarrow> rd needle j;
     (i, j) \<leftarrow> (if a = b then do { j \<leftarrow> cint (j + 1); i \<leftarrow> cint (i + 1); Some (i, j) }
       else if j > 0 then do { j \<leftarrow> rd nx (j - 1); Some (i, j) }
       else do { i \<leftarrow> cint (i + 1); Some (i, j) });
     Some (if len needle = j then (True, i - len needle, i, j) else (False, pos, i, j)) })"

definition strStr :: "string \<Rightarrow> string \<Rightarrow> int option" where
  "strStr haystack needle = (if needle = [] \<or> haystack = needle then Some 0
     else do {
       nx \<leftarrow> getNext needle;
       (stop, pos, i, j) \<leftarrow> cwhile (\<lambda>(stop, pos, i, j). Some (\<not> stop \<and> i < len haystack)) (search_round haystack needle nx)
         (False, - 1, 0, 0);
       Some pos })"

text \<open>The specification: the first position from \<open>i\<close> on where the rest begins with the pattern.\<close>

fun first_match :: "int \<Rightarrow> string \<Rightarrow> string \<Rightarrow> int" where
  "first_match i p s = (if prefix p s then i else (case s of [] \<Rightarrow> - 1 | _ # s \<Rightarrow> first_match (i + 1) p s))"

declare first_match.simps [simp del]

section \<open>Borders\<close>

text \<open>The prefix of length \<open>k\<close> of the prefix of length \<open>i\<close> is also its end.\<close>

definition border :: "'a list \<Rightarrow> int \<Rightarrow> int \<Rightarrow> bool" where
  "border p i k \<longleftrightarrow> 0 \<le> k \<and> k < i \<and> i \<le> len p \<and> (\<forall>t. 0 \<le> t \<and> t < k \<longrightarrow> el p t = el p (i - k + t))"

definition longest :: "'a list \<Rightarrow> int \<Rightarrow> int \<Rightarrow> bool" where
  "longest p i k \<longleftrightarrow> border p i k \<and> (\<forall>l. border p i l \<longrightarrow> l \<le> k)"

lemma border_range: "border p i k \<Longrightarrow> 0 \<le> k \<and> k < i \<and> i \<le> len p"
  by (simp add: border_def)

lemma border_0: "border p i 0 \<longleftrightarrow> 0 < i \<and> i \<le> len p"
  by (auto simp: border_def)

lemma border_Suc:
  assumes "0 \<le> l" and "i < len p"
  shows "border p (i + 1) (l + 1) \<longleftrightarrow> border p i l \<and> el p l = el p i"
proof
  assume b: "border p (i + 1) (l + 1)"
  have "el p t = el p (i - l + t)" if "0 \<le> t" "t < l" for t using b that unfolding border_def by (auto simp: algebra_simps)
  moreover have "el p l = el p i" using b assms unfolding border_def by (auto dest!: spec [of _ l])
  ultimately show "border p i l \<and> el p l = el p i" using b assms unfolding border_def by auto
next
  assume b: "border p i l \<and> el p l = el p i"
  have "el p t = el p (i + 1 - (l + 1) + t)" if "0 \<le> t" "t < l + 1" for t
    using b that unfolding border_def by (cases "t = l") auto
  then show "border p (i + 1) (l + 1)" using b assms unfolding border_def by auto
qed

lemma border_border:
  assumes "border p i k" and "l < k"
  shows "border p i l \<longleftrightarrow> border p k l"
proof -
  have "el p (i - l + t) = el p (k - l + t)" if "0 \<le> t" "t < l" for t
  proof -
    have "0 \<le> k - l + t" "k - l + t < k" "i - k + (k - l + t) = i - l + t" using assms(2) that by simp_all
    then show ?thesis using assms(1) unfolding border_def by metis
  qed
  then show ?thesis using assms unfolding border_def by auto
qed

section \<open>The table of longest borders\<close>

definition next_table :: "'a list \<Rightarrow> int list \<Rightarrow> int \<Rightarrow> bool" where
  "next_table p nx n \<longleftrightarrow> length nx = length p \<and> (\<forall>j. 0 \<le> j \<and> j < n \<longrightarrow> longest p (j + 1) (el nx j))"

lemma next_tableD: "next_table p nx n \<Longrightarrow> 0 < k \<Longrightarrow> k \<le> n \<Longrightarrow> longest p k (el nx (k - 1))"
  unfolding next_table_def by (auto dest!: spec [of _ "k - 1"])

lemma next_table_up: "next_table p nx i \<Longrightarrow> 0 \<le> i \<Longrightarrow> i < len p \<Longrightarrow> longest p (i + 1) k \<Longrightarrow> next_table p (up nx i k) (i + 1)"
  unfolding next_table_def by (auto simp: el_up)

definition next_inv :: "string \<Rightarrow> int list \<times> int \<times> int \<Rightarrow> bool" where
  "next_inv p = (\<lambda>(nx, i, k). next_table p nx i \<and> border p i k \<and> (i < len p \<longrightarrow> (\<forall>l. border p (i + 1) (l + 1) \<longrightarrow> 0 \<le> l \<longrightarrow> l \<le> k)))"

lemma next_round_ok:
  assumes inv: "next_inv p (nx, i, k)" and "i < len p" and "len p \<le> INT_MAX"
  shows "ok (next_round p (nx, i, k)) (\<lambda>(nx', i', k'). next_inv p (nx', i', k') \<and> 2 * (len p - i') + k' < 2 * (len p - i) + k \<and> i' \<le> len p)"
proof -
  have tab: "next_table p nx i" and b: "border p i k" and cand: "\<And>l. border p (i + 1) (l + 1) \<Longrightarrow> 0 \<le> l \<Longrightarrow> l \<le> k"
    using inv assms(2) unfolding next_inv_def by auto
  have len: "length nx = length p" using tab by (simp add: next_table_def)
  have r: "0 \<le> k" "k < i" "i < len p" using border_range [OF b] assms(2) by auto
  have bounds: "INT_MIN \<le> k + 1" "k + 1 \<le> INT_MAX" "INT_MIN \<le> i + 1" "i + 1 \<le> INT_MAX" using r assms(3) by (auto simp: int_limits)
  have step: "l \<le> m" if "longest p (i + 1) m" "border p (i + 1 + 1) (l + 1)" "0 \<le> l" "i + 1 < len p" for l m
    using that border_Suc [of l "i + 1" p] unfolding longest_def by blast
  show ?thesis
  proof (cases "el p i = el p k")
    case True
    have "longest p (i + 1) (k + 1)" unfolding longest_def
    proof (intro conjI allI impI)
      show "border p (i + 1) (k + 1)" using border_Suc [OF r(1,3)] b True by simp
      show "l \<le> k + 1" if "border p (i + 1) l" for l using cand [of "l - 1"] that r by (cases "l = 0") (auto simp: border_def)
    qed
    moreover from this have "next_table p (up nx i (k + 1)) (i + 1)" using next_table_up [OF tab] r by simp
    ultimately show ?thesis using True r bounds len step unfolding next_inv_def longest_def
      by (auto simp: next_round_def wp)
  next
    case False
    show ?thesis
    proof (cases "0 < k")
      case True
      have m: "longest p k (el nx (k - 1))" using next_tableD [OF tab True] r by simp
      then have m': "0 \<le> el nx (k - 1)" "el nx (k - 1) < k" using border_range unfolding longest_def by auto
      have "border p i (el nx (k - 1))" using border_border [OF b m'(2)] m unfolding longest_def by simp
      moreover have "l \<le> el nx (k - 1)" if l: "border p (i + 1) (l + 1)" "0 \<le> l" for l
      proof -
        have "border p i l" "el p l = el p i" using border_Suc [OF l(2) r(3)] l(1) by auto
        then have "l < k" using cand [OF l] False by (cases "l = k") auto
        then show ?thesis using border_border [OF b] \<open>border p i l\<close> m unfolding longest_def by blast
      qed
      ultimately show ?thesis using True False r len tab m' by (auto simp: next_round_def wp next_inv_def)
    next
      case k: False
      have "longest p (i + 1) 0" unfolding longest_def
      proof (intro conjI allI impI)
        show "border p (i + 1) 0" using r by (simp add: border_0)
        fix l
        assume l: "border p (i + 1) l"
        show "l \<le> 0"
        proof (rule ccontr)
          assume "\<not> l \<le> 0"
          then have l1: "0 \<le> l - 1" "border p (i + 1) (l - 1 + 1)" using l by auto
          have "l - 1 = k" using cand [OF l1(2,1)] l1(1) k r by simp
          then show False using border_Suc [OF l1(1) r(3)] l1(2) False by simp
        qed
      qed
      moreover from this have "next_table p (up nx i 0) (i + 1)" using next_table_up [OF tab] r by simp
      ultimately show ?thesis using False k r bounds len step unfolding next_inv_def longest_def
        by (auto simp: next_round_def wp)
    qed
  qed
qed

lemma getNext_ok:
  assumes "p \<noteq> []" and "len p \<le> INT_MAX"
  shows "ok (getNext p) (\<lambda>nx. next_table p nx (len p))"
proof -
  have 1: "1 \<le> len p" using assms(1) by (cases p) auto
  have "longest p 1 0" using 1 unfolding longest_def by (auto simp: border_def)
  moreover have "el (replicate (length p) 0) 0 = (0 :: int)" using assms(1) by (simp add: el_def)
  moreover have "j = 0" if "0 \<le> j" "j < 1" for j :: int using that by simp
  ultimately have "next_table p (replicate (length p) 0) 1" unfolding next_table_def by fastforce
  moreover have "l \<le> 0" if "border p (1 + 1) (l + 1)" "0 \<le> l" for l using border_range [OF that(1)] by simp
  ultimately have "next_inv p (replicate (length p) 0, 1, 0)" using 1 unfolding next_inv_def by (auto simp: border_0)
  then have "ok (cwhile (\<lambda>(nx, i, k). Some (i < len p)) (next_round p) (replicate (length p) 0, 1, 0))
      (\<lambda>(nx, i, k). next_table p nx (len p))"
    using 1
  proof (intro cwhile_rule [where I = "\<lambda>(nx, i, k). next_inv p (nx, i, k) \<and> i \<le> len p" and m = "\<lambda>(nx, i, k). nat (2 * (len p - i) + k)"])
    fix s
    assume "case s of (nx, i, k) \<Rightarrow> next_inv p (nx, i, k) \<and> i \<le> len p"
    then obtain nx i k where s: "s = (nx, i, k)" "next_inv p (nx, i, k)" "i \<le> len p" by (cases s) auto
    have k: "0 \<le> k" using s(2) border_range unfolding next_inv_def by auto
    show "ok (case s of (nx, i, k) \<Rightarrow> Some (i < len p)) (\<lambda>t.
        (t \<longrightarrow> ok (next_round p s) (\<lambda>s'. (case s' of (nx, i, k) \<Rightarrow> next_inv p (nx, i, k) \<and> i \<le> len p) \<and>
          (case s' of (nx, i, k) \<Rightarrow> nat (2 * (len p - i) + k)) < (case s of (nx, i, k) \<Rightarrow> nat (2 * (len p - i) + k)))) \<and>
        (\<not> t \<longrightarrow> (case s of (nx, i, k) \<Rightarrow> next_table p nx (len p))))"
    proof (cases "i < len p")
      case True
      then show ?thesis using next_round_ok [OF s(2) True assms(2)] s k by (auto elim!: ok_mono)
    next
      case False
      then show ?thesis using s unfolding next_inv_def by simp
    qed
  qed simp
  then show ?thesis by (auto simp: getNext_def elim!: okE)
qed

section \<open>The search\<close>

definition occurs :: "'a list \<Rightarrow> 'a list \<Rightarrow> int \<Rightarrow> bool" where
  "occurs p h s \<longleftrightarrow> 0 \<le> s \<and> s + len p \<le> len h \<and> (\<forall>t. 0 \<le> t \<and> t < len p \<longrightarrow> el h (s + t) = el p t)"

lemma occurs_prefix: "occurs p h s \<longleftrightarrow> 0 \<le> s \<and> s \<le> len h \<and> prefix p (drop (nat s) h)"
proof (cases "0 \<le> s \<and> s + len p \<le> len h")
  case True
  then have "prefix p (drop (nat s) h) \<longleftrightarrow> p = take (length p) (drop (nat s) h)"
    by (metis append_take_drop_id prefix_def append_eq_conv_conj)
  also have "\<dots> \<longleftrightarrow> (\<forall>t < length p. p ! t = h ! (nat s + t))"
  proof -
    have l: "length (take (length p) (drop (nat s) h)) = length p" using True by (simp add: min_def) linarith
    show ?thesis using True l by (auto simp: list_eq_iff_nth_eq)
  qed
  also have "\<dots> \<longleftrightarrow> (\<forall>t. 0 \<le> t \<and> t < len p \<longrightarrow> el h (s + t) = el p t)"
  proof (intro iffI allI impI)
    show "el h (s + t) = el p t" if "\<forall>t < length p. p ! t = h ! (nat s + t)" "0 \<le> t \<and> t < len p" for t
      using that(1) [rule_format, of "nat t"] that(2) True by (simp add: el_def nat_add_distrib nat_less_iff)
    show "p ! t = h ! (nat s + t)" if "\<forall>t. 0 \<le> t \<and> t < len p \<longrightarrow> el h (s + t) = el p t" "t < length p" for t
      using that(1) [rule_format, of "int t"] that(2) True by (simp add: el_def nat_add_distrib)
  qed
  finally show ?thesis using True unfolding occurs_def by auto
next
  case False
  moreover have "s + len p \<le> len h" if "0 \<le> s" "s \<le> len h" "prefix p (drop (nat s) h)"
    using prefix_length_le [OF that(3)] that(1,2) by simp
  ultimately show ?thesis unfolding occurs_def by auto
qed

lemma first_match_correct:
  "(\<exists>s. first_match i p h = i + s \<and> occurs p h s \<and> (\<forall>r. r < s \<longrightarrow> \<not> occurs p h r)) \<or>
   (first_match i p h = - 1 \<and> (\<forall>r. \<not> occurs p h r))"
proof (induction h arbitrary: i)
  case Nil
  show ?case
  proof (cases "p = []")
    case True
    then show ?thesis by (intro disjI1 exI [of _ 0]) (auto simp: first_match.simps occurs_prefix)
  qed (auto simp: first_match.simps occurs_prefix)
next
  case (Cons x h)
  have shift: "occurs p (x # h) r \<longleftrightarrow> occurs p h (r - 1)" if "r \<noteq> 0" for r
  proof (cases "0 < r")
    case True
    then have "nat r = Suc (nat (r - 1))" by simp
    then show ?thesis using True by (auto simp: occurs_prefix)
  qed (use that in \<open>auto simp: occurs_def\<close>)
  show ?case
  proof (cases "prefix p (x # h)")
    case True
    then show ?thesis by (intro disjI1 exI [of _ 0]) (auto simp: first_match.simps occurs_prefix)
  next
    case False
    then have z: "\<not> occurs p (x # h) 0" by (simp add: occurs_prefix)
    have f: "first_match i p (x # h) = first_match (i + 1) p h" using False by (subst first_match.simps) simp
    from Cons.IH [of "i + 1"] show ?thesis
    proof (elim disjE exE conjE)
      fix s
      assume s: "first_match (i + 1) p h = i + 1 + s" "occurs p h s" "\<forall>r. r < s \<longrightarrow> \<not> occurs p h r"
      then have "0 \<le> s" by (simp add: occurs_def)
      have "occurs p (x # h) (s + 1)" using shift [of "s + 1"] s(2) \<open>0 \<le> s\<close> by simp
      moreover have "\<not> occurs p (x # h) r" if "r < s + 1" for r
        using z shift [of r] s(3) that by (cases "r = 0") auto
      ultimately show ?thesis using s(1) f by (intro disjI1 exI [of _ "s + 1"]) simp
    next
      assume "first_match (i + 1) p h = - 1" "\<forall>r. \<not> occurs p h r"
      then show ?thesis using f z shift by metis
    qed
  qed
qed

text \<open>The first \<open>j\<close> characters of the pattern end before \<open>i\<close>, and it occurs nowhere before them.\<close>

definition search_inv :: "string \<Rightarrow> string \<Rightarrow> int \<Rightarrow> int \<Rightarrow> bool" where
  "search_inv h p i j \<longleftrightarrow> 0 \<le> j \<and> j \<le> i \<and> i \<le> len h \<and> j \<le> len p \<and> (\<forall>t. 0 \<le> t \<and> t < j \<longrightarrow> el h (i - j + t) = el p t) \<and>
     (\<forall>s. s < i - j \<longrightarrow> \<not> occurs p h s)"

lemma search_inv_more:
  assumes "search_inv h p i j" and "i < len h" and "j < len p" and "el h i = el p j"
  shows "search_inv h p (i + 1) (j + 1)"
proof -
  have "el h (i - j + t) = el p t" if "0 \<le> t" "t < j + 1" for t
    using assms that unfolding search_inv_def by (cases "t = j") auto
  then show ?thesis using assms unfolding search_inv_def by auto
qed

lemma search_inv_none:
  assumes "search_inv h p i 0" and "i < len h" and "p \<noteq> []" and "el h i \<noteq> el p 0"
  shows "search_inv h p (i + 1) 0"
proof -
  have "\<not> occurs p h i" using assms(3,4) unfolding occurs_def by (auto dest!: spec [of _ 0])
  then have "\<not> occurs p h s" if "s < i + 1" for s using assms(1) that unfolding search_inv_def by (cases "s = i") auto
  then show ?thesis using assms(1,2) unfolding search_inv_def by auto
qed

lemma search_inv_shift:
  assumes inv: "search_inv h p i j" and ij: "i < len h" "0 < j" "j < len p" and ne: "el h i \<noteq> el p j" and m: "longest p j k"
  shows "search_inv h p i k"
proof -
  have k: "0 \<le> k" "k < j" "border p j k" using m border_range unfolding longest_def by auto
  have match: "el h (i - j + t) = el p t" if "0 \<le> t" "t < j" for t using inv that unfolding search_inv_def by blast
  have "el h (i - k + t) = el p t" if t: "0 \<le> t" "t < k" for t
  proof -
    have "el h (i - k + t) = el h (i - j + (j - k + t))" by (simp add: algebra_simps)
    also have "\<dots> = el p (j - k + t)" using t k by (intro match) auto
    also have "\<dots> = el p t" using k(3) t unfolding border_def by metis
    finally show ?thesis .
  qed
  moreover have "\<not> occurs p h s" if s: "s < i - k" for s
  proof (cases "s \<le> i - j")
    case True
    show ?thesis
    proof (cases "s = i - j")
      case True
      have "el h (s + j) \<noteq> el p j" using ne True by simp
      moreover have "el h (s + j) = el p j" if "occurs p h s" using that ij unfolding occurs_def by simp
      ultimately show ?thesis by blast
    next
      case False
      then show ?thesis using inv True unfolding search_inv_def by auto
    qed
  next
    case False
    show ?thesis
    proof
      assume o: "occurs p h s"
      let ?l = "i - s"
      have "el p t = el p (j - ?l + t)" if t: "0 \<le> t" "t < ?l" for t
      proof -
        have "el p t = el h (s + t)" using o t ij(3) False by (simp add: occurs_def)
        also have "\<dots> = el h (i - j + (j - ?l + t))" by (simp add: algebra_simps)
        also have "\<dots> = el p (j - ?l + t)" using t False s k by (intro match) auto
        finally show ?thesis .
      qed
      then have "border p j ?l" using False s k ij unfolding border_def by auto
      then show False using m s unfolding longest_def by auto
    qed
  qed
  ultimately show ?thesis using inv k unfolding search_inv_def by auto
qed

definition search_state :: "string \<Rightarrow> string \<Rightarrow> bool \<times> int \<times> int \<times> int \<Rightarrow> bool" where
  "search_state h p = (\<lambda>(stop, pos, i, j). search_inv h p i j \<and>
     (if stop then j = len p \<and> pos = i - len p else pos = - 1 \<and> j < len p))"

lemma search_round_ok:
  assumes st: "search_state h p (False, pos, i, j)" and nx: "next_table p nx (len p)" and "i < len h" and "len h < INT_MAX" "len p \<le> INT_MAX"
  shows "ok (search_round h p nx (False, pos, i, j)) (\<lambda>(stop', pos', i', j'). search_state h p (stop', pos', i', j') \<and>
    2 * (len h - i') + j' < 2 * (len h - i) + j)"
proof -
  have inv: "search_inv h p i j" and j: "j < len p" "pos = - 1" using st unfolding search_state_def by auto
  have r: "0 \<le> j" "j \<le> i" using inv unfolding search_inv_def by auto
  have p: "p \<noteq> []" using j r by auto
  have bounds: "INT_MIN \<le> j + 1" "j + 1 \<le> INT_MAX" "INT_MIN \<le> i + 1" "i + 1 \<le> INT_MAX" using r j assms(3-5) by (auto simp: int_limits)
  have len: "length nx = length p" using nx by (simp add: next_table_def)
  show ?thesis
  proof (cases "el h i = el p j")
    case True
    have "search_inv h p (i + 1) (j + 1)" using search_inv_more [OF inv assms(3) j(1) True] .
    then show ?thesis using True r j assms(3) bounds by (auto simp: search_round_def wp search_state_def)
  next
    case False
    show ?thesis
    proof (cases "0 < j")
      case True
      have m: "longest p j (el nx (j - 1))" using next_tableD [OF nx True] j by simp
      then have "el nx (j - 1) < j" using border_range unfolding longest_def by auto
      moreover have "search_inv h p i (el nx (j - 1))" using search_inv_shift [OF inv assms(3) True j(1) False m] .
      ultimately show ?thesis using True False r j assms(3) len by (auto simp: search_round_def wp search_state_def)
    next
      case j0: False
      then have "search_inv h p (i + 1) 0" using search_inv_none [of h p i] inv assms(3) p False r by simp
      then show ?thesis using j0 False r j assms(3) bounds by (auto simp: search_round_def wp search_state_def)
    qed
  qed
qed

lemma search_found: "search_inv h p i (len p) \<Longrightarrow> occurs p h (i - len p) \<and> (\<forall>s. s < i - len p \<longrightarrow> \<not> occurs p h s)"
  unfolding search_inv_def occurs_def by auto

lemma search_missed:
  assumes "search_inv h p (len h) j" and "j < len p"
  shows "\<not> occurs p h s"
  using assms unfolding search_inv_def by (cases "s < len h - j") (auto simp: occurs_def)

text \<open>
  C9: The Knuth-Morris-Pratt search is the plain one: for strings shorter than the largest \<open>int\<close>, \<open>strStr\<close>
  returns, reads only inside the strings and the table, and gives the first position at which the pattern
  occurs, or -1.
\<close>

theorem strStr_is_first_match:
  assumes "len h < INT_MAX" and "len p \<le> INT_MAX"
  shows "strStr h p = Some (first_match 0 p h)"
proof (cases "p = [] \<or> h = p")
  case True
  then show ?thesis by (auto simp: strStr_def first_match.simps)
next
  case False
  then obtain nx where nx: "getNext p = Some nx" "next_table p nx (len p)" using getNext_ok [of p] assms(2) by (auto elim: okE)
  have p: "0 < len p" using False by simp
  have start: "search_state h p (False, - 1, 0, 0)"
    using p unfolding search_state_def search_inv_def by (auto simp: occurs_def)
  have "ok (cwhile (\<lambda>(stop, pos, i, j). Some (\<not> stop \<and> i < len h)) (search_round h p nx) (False, - 1, 0, 0))
      (\<lambda>(stop, pos, i, j). pos = first_match 0 p h)"
  proof (rule cwhile_rule [where I = "search_state h p" and m = "\<lambda>(stop, pos, i, j). nat (2 * (len h - i) + j)", OF start])
    fix s
    assume "search_state h p s"
    then obtain stop pos i j where s: "s = (stop, pos, i, j)" "search_state h p (stop, pos, i, j)" by (cases s) auto
    have ij: "0 \<le> j" "i \<le> len h" using s(2) unfolding search_state_def search_inv_def by auto
    have "pos = first_match 0 p h" if "stop \<or> \<not> i < len h"
    proof (cases stop)
      case True
      then have "occurs p h pos \<and> (\<forall>r. r < pos \<longrightarrow> \<not> occurs p h r)" using s(2) search_found unfolding search_state_def by auto
      then show ?thesis using first_match_correct [of 0 p h] by (auto, metis linorder_neqE)
    next
      case False
      then have "i = len h" "pos = - 1" "j < len p" "search_inv h p i j" using that s(2) ij unfolding search_state_def by auto
      then show ?thesis using search_missed first_match_correct [of 0 p h] by auto
    qed
    moreover have "ok (search_round h p nx s) (\<lambda>s'. search_state h p s' \<and>
        (case s' of (stop, pos, i, j) \<Rightarrow> nat (2 * (len h - i) + j)) < (case s of (stop, pos, i, j) \<Rightarrow> nat (2 * (len h - i) + j)))"
        if "\<not> stop" "i < len h"
      using search_round_ok [of h p pos i j nx] s nx(2) that assms ij by (auto elim!: ok_mono)
    ultimately show "ok (case s of (stop, pos, i, j) \<Rightarrow> Some (\<not> stop \<and> i < len h)) (\<lambda>t. (t \<longrightarrow> ok (search_round h p nx s) (\<lambda>s'. search_state h p s' \<and>
        (case s' of (stop, pos, i, j) \<Rightarrow> nat (2 * (len h - i) + j)) < (case s of (stop, pos, i, j) \<Rightarrow> nat (2 * (len h - i) + j)))) \<and>
        (\<not> t \<longrightarrow> (case s of (stop, pos, i, j) \<Rightarrow> pos = first_match 0 p h)))"
      unfolding s(1) by auto
  qed
  then obtain stop pos i j where "cwhile (\<lambda>(stop, pos, i, j). Some (\<not> stop \<and> i < len h)) (search_round h p nx) (False, - 1, 0, 0) = Some (stop, pos, i, j)"
      "pos = first_match 0 p h" by (auto elim: okE)
  then show ?thesis using False nx(1) by (simp add: strStr_def)
qed

theorem strStr_is_first_match_witness:
  "strStr ''aabaabaaab'' ''aabaaa'' = Some 3 \<and> strStr ''aabaabaaab'' ''bb'' = Some (- 1)"
proof -
  have "strStr ''aabaabaaab'' ''aabaaa'' = Some (first_match 0 ''aabaaa'' ''aabaabaaab'')"
    by (rule strStr_is_first_match) (simp_all add: INT_MAX_def)
  moreover have "strStr ''aabaabaaab'' ''bb'' = Some (first_match 0 ''bb'' ''aabaabaaab'')"
    by (rule strStr_is_first_match) (simp_all add: INT_MAX_def)
  moreover have "first_match 0 ''aabaaa'' ''aabaabaaab'' = 3" "first_match 0 ''bb'' ''aabaabaaab'' = - 1" by code_simp+
  ultimately show ?thesis by simp
qed

end
