(* ===== verification/Max_Subarray.thy ===== *)
theory Max_Subarray
  imports Prelude
begin

text \<open>
  \<open>Algorithm/maxSubArray.cpp\<close>: the greatest sum of a segment of an array, by dynamic programming and by
  dividing the array, and the greatest product.  Sums and products of segments must fit an \<open>int\<close>, since the
  routines compute them.
\<close>

section \<open>The model\<close>

definition DynamicProcess :: "int list \<Rightarrow> int option" where
  "DynamicProcess nums = (if nums = [] then Some 0
     else do {
       x \<leftarrow> rd nums 0;
       (maxsum, before) \<leftarrow> for_up 1 (len nums) (\<lambda>i (maxsum, before). do {
         x \<leftarrow> rd nums i;
         s \<leftarrow> cint (x + before);
         let before = max x s;
         Some (if before > maxsum then before else maxsum, before) }) (x, x);
       Some maxsum })"

text \<open>The loops of \<open>GetMaxSum\<close> that extend a segment to the left and to the right.\<close>

definition best_left :: "int list \<Rightarrow> int \<Rightarrow> int \<Rightarrow> int option" where
  "best_left nums beg mid = do {
     (acc, leftsum) \<leftarrow> for_down mid beg (\<lambda>i (acc, leftsum). do {
       x \<leftarrow> rd nums i;
       acc \<leftarrow> cint (acc + x);
       Some (acc, if acc > leftsum then acc else leftsum) }) (0, INT_MIN);
     Some leftsum }"

definition best_right :: "int list \<Rightarrow> int \<Rightarrow> int \<Rightarrow> int option" where
  "best_right nums beg fin = do {
     (acc, rightsum) \<leftarrow> for_up beg (fin + 1) (\<lambda>i (acc, rightsum). do {
       x \<leftarrow> rd nums i;
       acc \<leftarrow> cint (acc + x);
       Some (acc, if acc > rightsum then acc else rightsum) }) (0, INT_MIN);
     Some rightsum }"

text \<open>
  The middle lies between the ends when these are places of an array; the checks say so for the termination.
\<close>

function GetMaxSum :: "int list \<Rightarrow> int \<Rightarrow> int \<Rightarrow> int option" where
  "GetMaxSum nums beg fin =
     (if beg \<ge> fin then rd nums beg
      else do {
        m \<leftarrow> cint (beg + fin);
        let mid = cdiv m 2;
        sumleft \<leftarrow> (if beg \<le> mid \<and> mid < fin then GetMaxSum nums beg mid else None);
        sumright \<leftarrow> (if beg \<le> mid \<and> mid < fin then GetMaxSum nums (mid + 1) fin else None);
        leftsum \<leftarrow> best_left nums beg mid;
        rightsum \<leftarrow> best_right nums (mid + 1) fin;
        crossum \<leftarrow> cint (leftsum + rightsum);
        Some (if sumleft \<ge> crossum \<and> sumleft \<ge> sumright then sumleft
              else if sumright \<ge> crossum \<and> sumright \<ge> sumleft then sumright
              else crossum) })"
  by pat_completeness auto
termination by (relation "measure (\<lambda>(nums, beg, fin). nat (fin - beg))") auto

declare GetMaxSum.simps [simp del]

definition getMaxProductSubArray :: "int list \<Rightarrow> int option" where
  "getMaxProductSubArray nums = (if nums = [] then Some 0
     else do {
       x \<leftarrow> rd nums 0;
       (mx, mn, maxproduct) \<leftarrow> for_up 1 (len nums) (\<lambda>i (mx, mn, maxproduct). do {
         x \<leftarrow> rd nums i;
         (mx, mn) \<leftarrow> (if x \<ge> 0 then do {
             a \<leftarrow> cint (x * mx);
             b \<leftarrow> cint (x * mn);
             Some (max x a, min x b) }
           else do {
             let temp = mx;
             a \<leftarrow> cint (x * mn);
             b \<leftarrow> cint (x * temp);
             Some (max x a, min x b) });
         Some (mx, mn, if mx > maxproduct then mx else maxproduct) }) (x, x, x);
       Some maxproduct })"

section \<open>Segments\<close>

definition seg_sum :: "int list \<Rightarrow> int \<Rightarrow> int \<Rightarrow> int" where
  "seg_sum a i j = (\<Sum>k \<in> {i..j}. el a k)"

definition seg_prod :: "int list \<Rightarrow> int \<Rightarrow> int \<Rightarrow> int" where
  "seg_prod a i j = (\<Prod>k \<in> {i..j}. el a k)"

text \<open>\<open>m\<close> is the greatest value of a segment inside \<open>lo..hi\<close>; and the greatest or least of one that ends at \<open>j\<close>.\<close>

definition greatest_seg :: "(int \<Rightarrow> int \<Rightarrow> int) \<Rightarrow> int \<Rightarrow> int \<Rightarrow> int \<Rightarrow> bool" where
  "greatest_seg f lo hi m \<longleftrightarrow> (\<exists>i j. lo \<le> i \<and> i \<le> j \<and> j \<le> hi \<and> f i j = m) \<and> (\<forall>i j. lo \<le> i \<and> i \<le> j \<and> j \<le> hi \<longrightarrow> f i j \<le> m)"

definition greatest_end :: "(int \<Rightarrow> int \<Rightarrow> int) \<Rightarrow> int \<Rightarrow> int \<Rightarrow> int \<Rightarrow> bool" where
  "greatest_end f lo j m \<longleftrightarrow> (\<exists>i. lo \<le> i \<and> i \<le> j \<and> f i j = m) \<and> (\<forall>i. lo \<le> i \<and> i \<le> j \<longrightarrow> f i j \<le> m)"

abbreviation least_end :: "(int \<Rightarrow> int \<Rightarrow> int) \<Rightarrow> int \<Rightarrow> int \<Rightarrow> int \<Rightarrow> bool" where
  "least_end f lo j m \<equiv> greatest_end (\<lambda>i j. - f i j) lo j (- m)"

definition all_fit :: "(int \<Rightarrow> int \<Rightarrow> int) \<Rightarrow> int \<Rightarrow> bool" where
  "all_fit f n \<longleftrightarrow> (\<forall>i j. 0 \<le> i \<and> i \<le> j \<and> j < n \<longrightarrow> in_int (f i j))"

lemma interval_first: "i \<le> j \<Longrightarrow> {i..j} = insert i {i + 1..j}" for i j :: int
  by auto

lemma interval_last: "i \<le> j \<Longrightarrow> {i..j} = insert j {i..j - 1}" for i j :: int
  by auto

lemma seg_first:
  "i \<le> j \<Longrightarrow> seg_sum a i j = el a i + seg_sum a (i + 1) j" "i \<le> j \<Longrightarrow> seg_prod a i j = el a i * seg_prod a (i + 1) j"
  unfolding seg_sum_def seg_prod_def by (simp_all add: interval_first)

lemma seg_last:
  "i \<le> j \<Longrightarrow> seg_sum a i j = seg_sum a i (j - 1) + el a j" "i \<le> j \<Longrightarrow> seg_prod a i j = seg_prod a i (j - 1) * el a j"
  unfolding seg_sum_def seg_prod_def by (simp_all add: interval_last)

lemma seg_empty [simp]: "j < i \<Longrightarrow> seg_sum a i j = 0" "j < i \<Longrightarrow> seg_prod a i j = 1"
  unfolding seg_sum_def seg_prod_def by simp_all

lemma seg_one [simp]: "seg_sum a i i = el a i" "seg_prod a i i = el a i"
  unfolding seg_sum_def seg_prod_def by simp_all

lemma seg_sum_split: "i \<le> m \<Longrightarrow> m < j \<Longrightarrow> seg_sum a i j = seg_sum a i m + seg_sum a (m + 1) j"
proof -
  assume "i \<le> m" "m < j"
  then have "{i..j} = {i..m} \<union> {m + 1..j}" "{i..m} \<inter> {m + 1..j} = {}" by auto
  then show ?thesis unfolding seg_sum_def by (simp add: sum.union_disjoint)
qed

lemma greatest_seg_unique: "greatest_seg f lo hi m \<Longrightarrow> greatest_seg f lo hi n \<Longrightarrow> m = n"
  unfolding greatest_seg_def by (meson order_antisym)

text \<open>One more element: a segment that ends there is this element alone or extends one that ends before.\<close>

lemma greatest_end_next:
  assumes "greatest_end f lo (j - 1) m" and "lo < j" and "\<And>i. i < j \<Longrightarrow> g (f i (j - 1)) = f i j" and "mono g" and "f j j = x"
  shows "greatest_end f lo j (max x (g m))"
proof -
  obtain i where i: "lo \<le> i" "i \<le> j - 1" "f i (j - 1) = m" and m: "\<And>i. lo \<le> i \<Longrightarrow> i \<le> j - 1 \<Longrightarrow> f i (j - 1) \<le> m"
    using assms(1) unfolding greatest_end_def by blast
  have "f k j \<le> max x (g m)" if k: "lo \<le> k" "k \<le> j" for k
  proof (cases "k = j")
    case False
    then have "f k j = g (f k (j - 1))" using assms(3) [of k] k by simp
    also have "\<dots> \<le> g m" using m [of k] False k assms(4) by (simp add: monoD)
    finally show ?thesis by simp
  qed (simp add: assms(5))
  moreover have "f i j = g m" using assms(3) [of i] i by simp
  then have "\<exists>k. lo \<le> k \<and> k \<le> j \<and> f k j = max x (g m)"
    using i assms(2,5) by (cases "g m \<le> x") (auto simp: max_def intro: exI [of _ j] exI [of _ i])
  ultimately show ?thesis unfolding greatest_end_def by blast
qed

lemma greatest_seg_next:
  assumes "greatest_seg f lo (j - 1) m" and "greatest_end f lo j e"
  shows "greatest_seg f lo j (if e > m then e else m)"
proof -
  have "f i k \<le> (if e > m then e else m)" if "lo \<le> i" "i \<le> k" "k \<le> j" for i k
  proof (cases "k = j")
    case True
    then have "f i k \<le> e" using assms(2) that unfolding greatest_end_def by blast
    then show ?thesis by simp
  next
    case False
    then have "k \<le> j - 1" using that by simp
    then have "f i k \<le> m" using assms(1) that unfolding greatest_seg_def by blast
    then show ?thesis by simp
  qed
  moreover have "\<exists>i k. lo \<le> i \<and> i \<le> k \<and> k \<le> j \<and> f i k = (if e > m then e else m)"
  proof (cases "e > m")
    case True
    then show ?thesis using assms(2) unfolding greatest_end_def by auto
  next
    case False
    obtain i k where "lo \<le> i" "i \<le> k" "k \<le> j - 1" "f i k = m" using assms(1) unfolding greatest_seg_def by blast
    then show ?thesis using False by (intro exI [of _ i] exI [of _ k]) simp
  qed
  ultimately show ?thesis unfolding greatest_seg_def by blast
qed

lemma greatest_one: "greatest_end f i i (f i i)" "greatest_seg f i i (f i i)"
  unfolding greatest_end_def greatest_seg_def by (auto dest: order_antisym)

section \<open>The greatest sum\<close>

lemma DynamicProcess_ok:
  assumes "a \<noteq> []" and "all_fit (seg_sum a) (len a)"
  shows "ok (DynamicProcess a) (greatest_seg (seg_sum a) 0 (len a - 1))"
proof -
  define I where "I = (\<lambda>i (best, before). greatest_seg (seg_sum a) 0 (i - 1) best \<and> greatest_end (seg_sum a) 0 (i - 1) before)"
  have len: "1 \<le> len a" using assms(1) by (cases a) auto
  have "ok (for_up 1 (len a) (\<lambda>i (maxsum, before). do {
      x \<leftarrow> rd a i;
      s \<leftarrow> cint (x + before);
      let before = max x s;
      Some (if before > maxsum then before else maxsum, before) }) (el a 0, el a 0)) (\<lambda>(best, before). greatest_seg (seg_sum a) 0 (len a - 1) best)"
  proof (rule for_up_rule [where I = I])
    show "I 1 (el a 0, el a 0)" using greatest_one [of "seg_sum a" 0] by (simp add: I_def)
    fix i s
    assume i: "1 \<le> i" "i < len a" and "I i s"
    then obtain best before where s: "s = (best, before)" "greatest_seg (seg_sum a) 0 (i - 1) best" "greatest_end (seg_sum a) 0 (i - 1) before"
      unfolding I_def by (cases s) auto
    obtain k where k: "0 \<le> k" "k \<le> i - 1" "seg_sum a k (i - 1) = before" using s(3) unfolding greatest_end_def by blast
    then have "seg_sum a k i = before + el a i" using i by (simp add: seg_last)
    moreover have "in_int (seg_sum a k i)" using assms(2) k i unfolding all_fit_def by simp
    ultimately have fit: "in_int (el a i + before)" by (simp add: add.commute)
    have "greatest_end (seg_sum a) 0 i (max (el a i) (el a i + before))"
      by (rule greatest_end_next [OF s(3)]) (use i in \<open>simp_all add: seg_last mono_def\<close>)
    from this greatest_seg_next [OF s(2) this]
    show "ok (case s of (maxsum, before) \<Rightarrow> do {
        x \<leftarrow> rd a i;
        s \<leftarrow> cint (x + before);
        let before = max x s;
        Some (if before > maxsum then before else maxsum, before) }) (I (i + 1))"
      using i fit unfolding s(1) by (simp add: I_def wp Let_def)
  qed (use len in \<open>auto simp: I_def\<close>)
  then show ?thesis using assms(1) len by (auto simp: DynamicProcess_def wp elim!: okE)
qed

lemma best_left_ok:
  assumes "0 \<le> beg" and "beg \<le> mid" and "mid < len a" and "all_fit (seg_sum a) (len a)"
  shows "ok (best_left a beg mid) (\<lambda>l. greatest_end (seg_sum a) beg mid l)"
proof -
  define I where "I = (\<lambda>i (acc, l). acc = seg_sum a (i + 1) mid \<and> (if i = mid then l = INT_MIN else greatest_end (seg_sum a) (i + 1) mid l))"
  have "ok (for_down mid beg (\<lambda>i (acc, leftsum). do {
      x \<leftarrow> rd a i;
      acc \<leftarrow> cint (acc + x);
      Some (acc, if acc > leftsum then acc else leftsum) }) (0, INT_MIN)) (\<lambda>(acc, l). greatest_end (seg_sum a) beg mid l)"
  proof (rule for_down_rule [where I = I])
    fix i s
    assume i: "beg \<le> i" "i \<le> mid" and "I i s"
    then obtain l where s: "s = (seg_sum a (i + 1) mid, l)" "if i = mid then l = INT_MIN else greatest_end (seg_sum a) (i + 1) mid l"
      unfolding I_def by (cases s) auto
    have sum: "seg_sum a (i + 1) mid + el a i = seg_sum a i mid" using seg_first(1) [OF i(2), of a] by simp
    have fit: "INT_MIN \<le> seg_sum a i mid" "seg_sum a i mid \<le> INT_MAX" using assms i unfolding all_fit_def by auto
    have "greatest_end (seg_sum a) i mid (if seg_sum a i mid > l then seg_sum a i mid else l)"
    proof (cases "i = mid")
      case True
      then show ?thesis using s(2) fit greatest_one(1) [of "seg_sum a" mid] by auto
    next
      case False
      then have g: "greatest_end (seg_sum a) (i + 1) mid l" using s(2) by simp
      have "seg_sum a k mid \<le> (if seg_sum a i mid > l then seg_sum a i mid else l)" if "i \<le> k" "k \<le> mid" for k
      proof (cases "k = i")
        case False
        then have "seg_sum a k mid \<le> l" using g that unfolding greatest_end_def by simp
        then show ?thesis by simp
      qed simp
      moreover obtain k where "i + 1 \<le> k" "k \<le> mid" "seg_sum a k mid = l" using g unfolding greatest_end_def by blast
      ultimately show ?thesis using i unfolding greatest_end_def by (auto intro: exI [of _ i] exI [of _ k])
    qed
    then show "ok (case s of (acc, leftsum) \<Rightarrow> do {
        x \<leftarrow> rd a i;
        acc \<leftarrow> cint (acc + x);
        Some (acc, if acc > leftsum then acc else leftsum) }) (I (i - 1))"
      using i assms fit sum unfolding s(1) by (simp add: I_def wp split: if_splits)
  qed (use assms in \<open>auto simp: I_def\<close>)
  then show ?thesis by (auto simp: best_left_def elim!: okE)
qed

text \<open>The greatest value of a segment that begins at \<open>i\<close> and ends by \<open>hi\<close>.\<close>

definition greatest_start :: "(int \<Rightarrow> int \<Rightarrow> int) \<Rightarrow> int \<Rightarrow> int \<Rightarrow> int \<Rightarrow> bool" where
  "greatest_start f i hi m \<longleftrightarrow> (\<exists>j. i \<le> j \<and> j \<le> hi \<and> f i j = m) \<and> (\<forall>j. i \<le> j \<and> j \<le> hi \<longrightarrow> f i j \<le> m)"

lemma best_right_ok:
  assumes "0 \<le> beg" and "beg \<le> fin" and "fin < len a" and "all_fit (seg_sum a) (len a)"
  shows "ok (best_right a beg fin) (\<lambda>r. greatest_start (seg_sum a) beg fin r)"
proof -
  define I where "I = (\<lambda>i (acc, r). acc = seg_sum a beg (i - 1) \<and> (if i = beg then r = INT_MIN else greatest_start (seg_sum a) beg (i - 1) r))"
  have "ok (for_up beg (fin + 1) (\<lambda>i (acc, rightsum). do {
      x \<leftarrow> rd a i;
      acc \<leftarrow> cint (acc + x);
      Some (acc, if acc > rightsum then acc else rightsum) }) (0, INT_MIN)) (\<lambda>(acc, r). greatest_start (seg_sum a) beg fin r)"
  proof (rule for_up_rule [where I = I])
    fix i s
    assume i: "beg \<le> i" "i < fin + 1" and "I i s"
    then obtain r where s: "s = (seg_sum a beg (i - 1), r)" "if i = beg then r = INT_MIN else greatest_start (seg_sum a) beg (i - 1) r"
      unfolding I_def by (cases s) auto
    have sum: "seg_sum a beg (i - 1) + el a i = seg_sum a beg i" using seg_last(1) [OF i(1), of a] by simp
    have fit: "INT_MIN \<le> seg_sum a beg i" "seg_sum a beg i \<le> INT_MAX" using assms i unfolding all_fit_def by auto
    have "greatest_start (seg_sum a) beg i (if seg_sum a beg i > r then seg_sum a beg i else r)"
    proof (cases "i = beg")
      case True
      then show ?thesis using s(2) fit unfolding greatest_start_def by auto
    next
      case False
      then have g: "greatest_start (seg_sum a) beg (i - 1) r" using s(2) by simp
      have "seg_sum a beg k \<le> (if seg_sum a beg i > r then seg_sum a beg i else r)" if "beg \<le> k" "k \<le> i" for k
      proof (cases "k = i")
        case False
        then have "seg_sum a beg k \<le> r" using g that unfolding greatest_start_def by simp
        then show ?thesis by simp
      qed simp
      moreover obtain k where "beg \<le> k" "k \<le> i - 1" "seg_sum a beg k = r" using g unfolding greatest_start_def by blast
      ultimately show ?thesis using i unfolding greatest_start_def by (auto intro: exI [of _ i] exI [of _ k])
    qed
    then show "ok (case s of (acc, rightsum) \<Rightarrow> do {
        x \<leftarrow> rd a i;
        acc \<leftarrow> cint (acc + x);
        Some (acc, if acc > rightsum then acc else rightsum) }) (I (i + 1))"
      using i assms fit sum unfolding s(1) by (simp add: I_def wp split: if_splits)
  qed (use assms in \<open>auto simp: I_def\<close>)
  then show ?thesis by (auto simp: best_right_def elim!: okE)
qed

text \<open>A greatest segment lies in one half or crosses the middle.\<close>

lemma greatest_seg_halves:
  assumes "greatest_seg (seg_sum a) beg mid l" and "greatest_seg (seg_sum a) (mid + 1) fin r"
    and "greatest_end (seg_sum a) beg mid x" and "greatest_start (seg_sum a) (mid + 1) fin y" and "m = max l (max r (x + y))"
  shows "greatest_seg (seg_sum a) beg fin m"
proof -
  have "seg_sum a i j \<le> m" if ij: "beg \<le> i" "i \<le> j" "j \<le> fin" for i j
  proof -
    consider "j \<le> mid" | "mid + 1 \<le> i" | "i \<le> mid" "mid + 1 \<le> j" by linarith
    then show ?thesis
    proof cases
      case 1
      then have "seg_sum a i j \<le> l" using assms(1) ij unfolding greatest_seg_def by blast
      then show ?thesis using assms(5) by simp
    next
      case 2
      then have "seg_sum a i j \<le> r" using assms(2) ij unfolding greatest_seg_def by blast
      then show ?thesis using assms(5) by simp
    next
      case 3
      then have "seg_sum a i mid \<le> x" "seg_sum a (mid + 1) j \<le> y"
        using assms(3,4) ij unfolding greatest_end_def greatest_start_def by blast+
      then show ?thesis using seg_sum_split [of i mid j a] 3 assms(5) by simp
    qed
  qed
  moreover have "\<exists>i j. beg \<le> i \<and> i \<le> j \<and> j \<le> fin \<and> seg_sum a i j = m"
  proof -
    obtain i1 j1 where 1: "beg \<le> i1" "i1 \<le> j1" "j1 \<le> mid" "seg_sum a i1 j1 = l" using assms(1) unfolding greatest_seg_def by blast
    obtain i2 j2 where 2: "mid + 1 \<le> i2" "i2 \<le> j2" "j2 \<le> fin" "seg_sum a i2 j2 = r" using assms(2) unfolding greatest_seg_def by blast
    obtain i3 where 3: "beg \<le> i3" "i3 \<le> mid" "seg_sum a i3 mid = x" using assms(3) unfolding greatest_end_def by blast
    obtain j3 where 4: "mid + 1 \<le> j3" "j3 \<le> fin" "seg_sum a (mid + 1) j3 = y" using assms(4) unfolding greatest_start_def by blast
    have xy: "seg_sum a i3 j3 = x + y" using seg_sum_split [of i3 mid j3 a] 3 4 by simp
    consider "m = l" | "m = r" | "m = x + y" using assms(5) by linarith
    then show ?thesis
    proof cases
      case 1
      with \<open>beg \<le> i1\<close> \<open>i1 \<le> j1\<close> \<open>j1 \<le> mid\<close> \<open>seg_sum a i1 j1 = l\<close> 2 show ?thesis by (intro exI [of _ i1] exI [of _ j1]) simp
    next
      case 2
      with \<open>mid + 1 \<le> i2\<close> \<open>i2 \<le> j2\<close> \<open>j2 \<le> fin\<close> \<open>seg_sum a i2 j2 = r\<close> \<open>beg \<le> i3\<close> \<open>i3 \<le> mid\<close> show ?thesis
        by (intro exI [of _ i2] exI [of _ j2]) simp
    next
      case 3
      with xy \<open>beg \<le> i3\<close> \<open>i3 \<le> mid\<close> 4 show ?thesis by (intro exI [of _ i3] exI [of _ j3]) simp
    qed
  qed
  ultimately show ?thesis unfolding greatest_seg_def by blast
qed

lemma GetMaxSum_ok:
  assumes "0 \<le> beg" and "beg \<le> fin" and "fin < len a" and "all_fit (seg_sum a) (len a)" and "len a \<le> 2 ^ 30"
  shows "ok (GetMaxSum a beg fin) (greatest_seg (seg_sum a) beg fin)"
  using assms(1-3)
proof (induction "nat (fin - beg)" arbitrary: beg fin rule: less_induct)
  case less
  show ?case
  proof (cases "beg = fin")
    case True
    then show ?thesis using less.prems greatest_one(2) [of "seg_sum a" fin] by (subst GetMaxSum.simps) (simp add: rd_in)
  next
    case False
    let ?mid = "(beg + fin) div 2"
    have mid: "beg \<le> ?mid" "?mid < fin" using False less.prems by auto
    have "nat (?mid - beg) < nat (fin - beg)" "nat (fin - (?mid + 1)) < nat (fin - beg)" using mid by linarith+
    then have "ok (GetMaxSum a beg ?mid) (greatest_seg (seg_sum a) beg ?mid)"
        "ok (GetMaxSum a (?mid + 1) fin) (greatest_seg (seg_sum a) (?mid + 1) fin)"
      using less.hyps mid less.prems by simp_all
    then obtain l r where l: "GetMaxSum a beg ?mid = Some l" "greatest_seg (seg_sum a) beg ?mid l"
        and r: "GetMaxSum a (?mid + 1) fin = Some r" "greatest_seg (seg_sum a) (?mid + 1) fin r" by (elim okE)
    obtain x where x: "best_left a beg ?mid = Some x" "greatest_end (seg_sum a) beg ?mid x"
      using best_left_ok [OF less.prems(1) mid(1) _ assms(4)] mid less.prems by (auto elim: okE)
    obtain y where y: "best_right a (?mid + 1) fin = Some y" "greatest_start (seg_sum a) (?mid + 1) fin y"
      using best_right_ok [of "?mid + 1" fin a] assms(4) mid less.prems by (auto elim: okE)
    have fit: "in_int (x + y)"
    proof -
      obtain i where i: "beg \<le> i" "i \<le> ?mid" "seg_sum a i ?mid = x" using x(2) unfolding greatest_end_def by blast
      obtain j where j: "?mid + 1 \<le> j" "j \<le> fin" "seg_sum a (?mid + 1) j = y" using y(2) unfolding greatest_start_def by blast
      have "seg_sum a i j = x + y" using seg_sum_split [of i ?mid j a] i j by simp
      moreover have "in_int (seg_sum a i j)" using assms(4) less.prems i j unfolding all_fit_def by auto
      ultimately show ?thesis by simp
    qed
    define m where "m = (if l \<ge> x + y \<and> l \<ge> r then l else if r \<ge> x + y \<and> r \<ge> l then r else x + y)"
    have "m = max l (max r (x + y))" unfolding m_def by auto
    then have "greatest_seg (seg_sum a) beg fin m" by (rule greatest_seg_halves [OF l(2) r(2) x(2) y(2)])
    moreover have "in_int (beg + fin)" using less.prems assms(5) by (simp add: int_limits)
    ultimately show ?thesis using False less.prems l(1) r(1) x(1) y(1) mid fit
      by (subst GetMaxSum.simps) (simp add: Let_def m_def [symmetric])
  qed
qed

text \<open>
  C27: Both searches for the greatest sum of a segment, the linear one and the one that divides the array, return
  and give this acc, when all sums of segments fit an \<open>int\<close>.
\<close>

theorem max_sum_correct:
  assumes "a \<noteq> []" and "all_fit (seg_sum a) (len a)" and "len a \<le> 2 ^ 30"
  shows "\<exists>m. DynamicProcess a = Some m \<and> GetMaxSum a 0 (len a - 1) = Some m \<and> greatest_seg (seg_sum a) 0 (len a - 1) m"
proof -
  obtain m where m: "DynamicProcess a = Some m" "greatest_seg (seg_sum a) 0 (len a - 1) m"
    using DynamicProcess_ok [OF assms(1,2)] by (blast elim: okE)
  have "0 \<le> len a - 1" using assms(1) by (cases a) auto
  then obtain n where n: "GetMaxSum a 0 (len a - 1) = Some n" "greatest_seg (seg_sum a) 0 (len a - 1) n"
    using GetMaxSum_ok [of 0 "len a - 1" a] assms by (auto elim: okE)
  show ?thesis using m n greatest_seg_unique [OF m(2) n(2)] by blast
qed

section \<open>The greatest product\<close>

lemma getMaxProductSubArray_ok:
  assumes "a \<noteq> []" and "all_fit (seg_prod a) (len a)"
  shows "ok (getMaxProductSubArray a) (greatest_seg (seg_prod a) 0 (len a - 1))"
proof -
  define I where "I = (\<lambda>i (mx, mn, best). greatest_seg (seg_prod a) 0 (i - 1) best \<and> greatest_end (seg_prod a) 0 (i - 1) mx \<and>
    least_end (seg_prod a) 0 (i - 1) mn)"
  define body where "body = (\<lambda>i (mx, mn, maxproduct). do {
         x \<leftarrow> rd a i;
         (mx, mn) \<leftarrow> (if x \<ge> 0 then do {
             u \<leftarrow> cint (x * mx);
             v \<leftarrow> cint (x * mn);
             Some (max x u, min x v) }
           else do {
             let temp = mx;
             u \<leftarrow> cint (x * mn);
             v \<leftarrow> cint (x * temp);
             Some (max x u, min x v) });
         Some (mx, mn, if mx > maxproduct then mx else maxproduct) })"
  have len: "1 \<le> len a" using assms(1) by (cases a) auto
  have "ok (for_up 1 (len a) body (el a 0, el a 0, el a 0)) (\<lambda>(mx, mn, best). greatest_seg (seg_prod a) 0 (len a - 1) best)"
  proof (rule for_up_rule [where I = I])
    show "I 1 (el a 0, el a 0, el a 0)" using greatest_one [of "seg_prod a" 0] greatest_one(1) [of "\<lambda>i j. - seg_prod a i j" 0] by (simp add: I_def)
    fix i s
    assume i: "1 \<le> i" "i < len a" and "I i s"
    then obtain mx mn best where s: "s = (mx, mn, best)" "greatest_seg (seg_prod a) 0 (i - 1) best"
        and mx: "greatest_end (seg_prod a) 0 (i - 1) mx" and mn: "least_end (seg_prod a) 0 (i - 1) mn"
      unfolding I_def by (cases s) auto
    let ?x = "el a i"
    have last: "seg_prod a k i = ?x * seg_prod a k (i - 1)" if "k \<le> i" for k using seg_last(2) [OF that] by (simp add: mult.commute)
    have fit: "in_int (?x * m)" if e: "\<exists>k. 0 \<le> k \<and> k \<le> i - 1 \<and> seg_prod a k (i - 1) = m" for m
    proof -
      obtain k where k: "0 \<le> k" "k \<le> i - 1" "seg_prod a k (i - 1) = m" using e by blast
      then have "in_int (seg_prod a k i)" using assms(2) i unfolding all_fit_def by simp
      then show ?thesis using last [of k] k by simp
    qed
    have fits: "in_int (?x * mx)" "in_int (?x * mn)" using fit mx mn unfolding greatest_end_def by auto
    show "ok (body i s) (I (i + 1))"
    proof (cases "0 \<le> ?x")
      case True
      have u: "greatest_end (seg_prod a) 0 i (max ?x (?x * mx))"
        by (rule greatest_end_next [OF mx]) (use i last True in \<open>simp_all add: mono_def mult_left_mono\<close>)
      have "greatest_end (\<lambda>i j. - seg_prod a i j) 0 i (max (- ?x) (?x * - mn))"
        by (rule greatest_end_next [OF mn]) (use i last True in \<open>simp_all add: mono_def mult_left_mono\<close>)
      then have "least_end (seg_prod a) 0 i (min ?x (?x * mn))" by (simp add: minus_min_eq_max)
      then show ?thesis using u greatest_seg_next [OF s(2) u] i fits True unfolding s(1) body_def by (simp add: I_def wp split: if_splits)
    next
      case False
      have m: "mono (\<lambda>y. - ?x * y)" using False by (simp add: mono_def mult_left_mono_neg)
      have "greatest_end (seg_prod a) 0 i (max ?x (- ?x * - mn))"
      proof -
        have g: "greatest_end (\<lambda>k j. if j = i then seg_prod a k i else - seg_prod a k j) 0 (i - 1) (- mn)"
          using mn unfolding greatest_end_def by simp
        have "greatest_end (\<lambda>k j. if j = i then seg_prod a k i else - seg_prod a k j) 0 i (max ?x (- ?x * - mn))"
          by (rule greatest_end_next [OF g _ _ m]) (use i last in simp_all)
        then show ?thesis unfolding greatest_end_def by simp
      qed
      then have u: "greatest_end (seg_prod a) 0 i (max ?x (?x * mn))" by simp
      have "greatest_end (\<lambda>i j. - seg_prod a i j) 0 i (max (- ?x) (- ?x * mx))"
      proof -
        have g: "greatest_end (\<lambda>k j. if j = i then - seg_prod a k i else seg_prod a k j) 0 (i - 1) mx"
          using mx unfolding greatest_end_def by simp
        have "greatest_end (\<lambda>k j. if j = i then - seg_prod a k i else seg_prod a k j) 0 i (max (- ?x) (- ?x * mx))"
          by (rule greatest_end_next [OF g _ _ m]) (use i last in simp_all)
        then show ?thesis unfolding greatest_end_def by simp
      qed
      then have "least_end (seg_prod a) 0 i (min ?x (?x * mx))" by (simp add: minus_min_eq_max)
      then show ?thesis using u greatest_seg_next [OF s(2) u] i fits False unfolding s(1) body_def by (simp add: I_def wp Let_def split: if_splits)
    qed
  qed (use len in \<open>auto simp: I_def\<close>)
  then show ?thesis using assms(1) len by (auto simp: getMaxProductSubArray_def wp body_def [symmetric] elim!: okE)
qed

text \<open>The search for the greatest product keeps the least product too, which a negative factor makes the greatest.\<close>

theorem max_product_correct:
  assumes "a \<noteq> []" and "all_fit (seg_prod a) (len a)"
  shows "\<exists>m. getMaxProductSubArray a = Some m \<and> greatest_seg (seg_prod a) 0 (len a - 1) m"
  using getMaxProductSubArray_ok [OF assms] by (blast elim: okE)

lemma max_sum_witness_fits: "all_fit (seg_sum [1, -1, 10, -8]) (len [1, -1, 10, -8 :: int])"
proof -
  have "in_int (seg_sum [1, -1, 10, -8] i j)" if "i \<in> {0..3}" "j \<in> {0..3}" for i j
  proof -
    have "i = 0 \<or> i = 1 \<or> i = 2 \<or> i = 3" "j = 0 \<or> j = 1 \<or> j = 2 \<or> j = 3" using that by auto
    moreover have "{0..1} = {0, 1::int}" "{0..2} = {0, 1, 2::int}" "{0..3} = {0, 1, 2, 3::int}" "{1..2} = {1, 2::int}" "{1..3} = {1, 2, 3::int}" "{2..3} = {2, 3::int}" by auto
    ultimately show ?thesis by (elim disjE) (simp_all add: seg_sum_def el_def int_limits)
  qed
  then show ?thesis unfolding all_fit_def by auto
qed

theorem max_sum_correct_witness:
  "\<exists>m. DynamicProcess [1, -1, 10, -8] = Some m \<and> GetMaxSum [1, -1, 10, -8] 0 (len [1, -1, 10, -8 :: int] - 1) = Some m \<and>
    greatest_seg (seg_sum [1, -1, 10, -8]) 0 (len [1, -1, 10, -8 :: int] - 1) m"
  by (rule max_sum_correct [OF _ max_sum_witness_fits]) simp_all

end
