(* ===== verification/Monotone_Stack.thy ===== *)
theory Monotone_Stack
  imports Max_Subarray
begin

text \<open>
  \<open>Algorithm/Sigle_Stack.cpp\<close>: four problems solved with a stack of indices whose values are monotone.  The
  stack is the list of what it holds, top first (the class \<open>Stack\<close> of \<open>CommonDataStruct.hpp\<close> is an array that
  grows; \<open>Stack.thy\<close> has such a class).
\<close>

section \<open>The model\<close>

text \<open>
  The inner loop of all four: while the stack is not empty and its top satisfies the condition, it is popped and
  the body runs with it and the stack below it.
\<close>

fun pop_while :: "(int \<Rightarrow> bool option) \<Rightarrow> (int \<Rightarrow> int list \<Rightarrow> 's \<Rightarrow> 's option) \<Rightarrow> int list \<Rightarrow> 's \<Rightarrow> (int list \<times> 's) option" where
  "pop_while c f [] s = Some ([], s)"
| "pop_while c f (t # st) s = do {
     b \<leftarrow> c t;
     (if b then do { s \<leftarrow> f t st s; pop_while c f st s } else Some (t # st, s)) }"

definition above :: "int list \<Rightarrow> int \<Rightarrow> int \<Rightarrow> bool option" where
  "above nums i t = do { x \<leftarrow> rd nums i; y \<leftarrow> rd nums t; Some (x > y) }"

definition getNexttemperature :: "int list \<Rightarrow> int list option" where
  "getNexttemperature T = (if T = [] then Some []
     else do {
       (st, result) \<leftarrow> for_up 0 (len T) (\<lambda>i (st, result). do {
         (st, result) \<leftarrow> pop_while (above T i) (\<lambda>t _ result. wr result t (i - t)) st result;
         Some (i # st, result) }) ([], replicate (length T) 0);
       Some result })"

definition lookright :: "int list \<Rightarrow> int option" where
  "lookright nums = (if nums = [] then Some 0
     else let nums = nums @ [INT_MAX] in do {
       (st, count) \<leftarrow> for_up 0 (len nums) (\<lambda>i (st, count). do {
         (st, count) \<leftarrow> pop_while (above nums i) (\<lambda>t _ count. cint (count + (i - t - 1))) st count;
         Some (i # st, count) }) ([], 0);
       Some count })"

definition below :: "int list \<Rightarrow> int \<Rightarrow> int \<Rightarrow> bool option" where
  "below nums i t = do { x \<leftarrow> rd nums i; y \<leftarrow> rd nums t; Some (x < y) }"

definition getLargestArea :: "int list \<Rightarrow> int option" where
  "getLargestArea nums = (let nums = nums @ [INT_MIN] in do {
     (st, best) \<leftarrow> for_up 0 (len nums) (\<lambda>i (st, best). do {
       (st, best) \<leftarrow> pop_while (below nums i) (\<lambda>t st best. do {
         let left = (case st of [] \<Rightarrow> t | l # _ \<Rightarrow> t - l - 1);
         let right = i - t;
         h \<leftarrow> rd nums t;
         area \<leftarrow> cint ((right + left) * h);
         Some (if area > best then area else best) }) st best;
       Some (i # st, best) }) ([], INT_MIN);
     Some best })"

text \<open>\<open>total\<close> is not initialised in \<open>getRain\<close>: the value that it happens to hold is an argument.\<close>

definition getRain :: "int \<Rightarrow> int list \<Rightarrow> int option" where
  "getRain garbage height = (if height = [] then Some 0
     else do {
       (st, count) \<leftarrow> for_up 0 (len height) (\<lambda>i (st, count). do {
         (st, count) \<leftarrow> pop_while (above height i) (\<lambda>t st count. (case st of
           [] \<Rightarrow> Some count
         | l # _ \<Rightarrow> do {
             x \<leftarrow> rd height i;
             y \<leftarrow> rd height t;
             z \<leftarrow> rd height l;
             u \<leftarrow> cint (x - y);
             v \<leftarrow> cint (z - y);
             area \<leftarrow> cint (((i - t) + (t - l) - 1) * min u v);
             cint (count + area) })) st count;
         Some (i # st, count) }) ([], garbage);
       Some count })"

section \<open>The stack\<close>

text \<open>
  At \<open>i\<close> the stack holds, the greatest on top, the indices before \<open>i\<close> after which nothing greater came.
\<close>

definition pending :: "(int \<Rightarrow> int) \<Rightarrow> int \<Rightarrow> int list \<Rightarrow> bool" where
  "pending v i st \<longleftrightarrow> sorted_wrt (>) st \<and> set st = {k. 0 \<le> k \<and> k < i \<and> (\<forall>j. k < j \<and> j < i \<longrightarrow> v j \<le> v k)}"

definition first_above :: "(int \<Rightarrow> int) \<Rightarrow> int \<Rightarrow> int \<Rightarrow> bool" where
  "first_above v k i \<longleftrightarrow> k < i \<and> v k < v i \<and> (\<forall>j. k < j \<and> j < i \<longrightarrow> v j \<le> v k)"

lemma pending_0: "pending v 0 []"
  by (simp add: pending_def)

lemma pending_range: "pending v i st \<Longrightarrow> k \<in> set st \<Longrightarrow> 0 \<le> k \<and> k < i"
  by (auto simp: pending_def)

lemma pending_later: "pending v i st \<Longrightarrow> k \<in> set st \<Longrightarrow> k < j \<Longrightarrow> j < i \<Longrightarrow> v j \<le> v k"
  by (auto simp: pending_def)

lemma pending_first_above: "pending v i st \<Longrightarrow> k \<in> set st \<Longrightarrow> v k < v i \<Longrightarrow> first_above v k i"
  by (auto simp: pending_def first_above_def)

lemma pending_next:
  assumes "pending v i (popped @ rest)" and "\<forall>k \<in> set popped. v k < v i" and "rest \<noteq> [] \<Longrightarrow> \<not> v (hd rest) < v i" and "0 \<le> i"
  shows "pending v (i + 1) (i # rest)"
proof -
  have sorted: "sorted_wrt (>) rest" "\<forall>k \<in> set rest. k < i" using assms(1) by (auto simp: pending_def sorted_wrt_append)
  have keep: "v i \<le> v k" if "k \<in> set rest" for k
  proof -
    obtain t ts where rest: "rest = t # ts" using \<open>k \<in> set rest\<close> by (cases rest) auto
    then have "v i \<le> v t" using assms(3) by simp
    moreover have "v t \<le> v k"
    proof (cases "k = t")
      case False
      then have "k < t" using sorted(1) that unfolding rest by auto
      then show ?thesis using pending_later [OF assms(1), of k t] that sorted(2) unfolding rest by simp
    qed simp
    ultimately show ?thesis by simp
  qed
  have "k \<in> set (i # rest) \<longleftrightarrow> 0 \<le> k \<and> k < i + 1 \<and> (\<forall>j. k < j \<and> j < i + 1 \<longrightarrow> v j \<le> v k)" for k
  proof (cases "k = i")
    case True
    then show ?thesis using assms(4) by auto
  next
    case False
    have more: "(\<forall>j. k < j \<and> j < i + 1 \<longrightarrow> v j \<le> v k) \<longleftrightarrow> (\<forall>j. k < j \<and> j < i \<longrightarrow> v j \<le> v k) \<and> v i \<le> v k" if ki: "k < i"
    proof (intro iffI conjI allI impI)
      show "v j \<le> v k" if "\<forall>j. k < j \<and> j < i + 1 \<longrightarrow> v j \<le> v k" "k < j \<and> j < i" for j
        using that(1) [rule_format, of j] that(2) by simp
      show "v i \<le> v k" if "\<forall>j. k < j \<and> j < i + 1 \<longrightarrow> v j \<le> v k" using that [rule_format, of i] ki by simp
      show "v j \<le> v k" if "(\<forall>j. k < j \<and> j < i \<longrightarrow> v j \<le> v k) \<and> v i \<le> v k" "k < j \<and> j < i + 1" for j
        using that by (cases "j = i") simp_all
    qed
    have "k \<in> set (i # rest) \<longleftrightarrow> k \<in> set (popped @ rest) \<and> v i \<le> v k" using keep assms(2) False by auto
    also have "\<dots> \<longleftrightarrow> (0 \<le> k \<and> k < i \<and> (\<forall>j. k < j \<and> j < i \<longrightarrow> v j \<le> v k)) \<and> v i \<le> v k"
      using assms(1) unfolding pending_def by blast
    also have "\<dots> \<longleftrightarrow> 0 \<le> k \<and> k < i \<and> (\<forall>j. k < j \<and> j < i + 1 \<longrightarrow> v j \<le> v k)" using more by blast
    also have "\<dots> \<longleftrightarrow> 0 \<le> k \<and> k < i + 1 \<and> (\<forall>j. k < j \<and> j < i + 1 \<longrightarrow> v j \<le> v k)"
    proof -
      have "k < i \<longleftrightarrow> k < i + 1" using False by linarith
      then show ?thesis by blast
    qed
    finally show ?thesis .
  qed
  then have "set (i # rest) = {k. 0 \<le> k \<and> k < i + 1 \<and> (\<forall>j. k < j \<and> j < i + 1 \<longrightarrow> v j \<le> v k)}" by blast
  moreover have "sorted_wrt (>) (i # rest)" using sorted by simp
  ultimately show ?thesis unfolding pending_def by (rule conjI [rotated])
qed

text \<open>Before an index of the stack there is nothing as great, back to the index below it.\<close>

lemma pending_between:
  assumes "pending v i st" and "t \<in> set st" and "\<forall>k \<in> set st. k < t \<longrightarrow> k \<le> b" and "0 \<le> j" "b < j" "j < t"
  shows "v j < v t"
  using assms(4-6)
proof (induction "nat (t - j)" arbitrary: j rule: less_induct)
  case less
  show ?case
  proof (rule ccontr)
    assume "\<not> v j < v t"
    then have ge: "v t \<le> v j" by simp
    have "v m \<le> v j" if "j < m" "m < i" for m
    proof -
      consider "m < t" | "m = t" | "t < m" by linarith
      then show ?thesis
      proof cases
        case 1
        then have "v m < v t" using less.hyps [of m] less.prems that by simp
        then show ?thesis using ge by simp
      next
        case 3
        then show ?thesis using pending_later [OF assms(1,2), of m] that ge by simp
      qed (use ge in simp)
    qed
    then have "j \<in> set st" using assms(1) less.prems pending_range [OF assms(1,2)] by (auto simp: pending_def)
    then show False using assms(3) less.prems by auto
  qed
qed

lemma pending_neighbour:
  assumes "pending v i (pre @ t # l # rest)"
  shows "l < t" "0 \<le> l" "v t \<le> v l" "\<And>j. l < j \<Longrightarrow> j < t \<Longrightarrow> v j < v t"
proof -
  have s: "sorted_wrt (>) (pre @ t # l # rest)" using assms by (simp add: pending_def)
  then show "l < t" by (simp add: sorted_wrt_append)
  show "0 \<le> l" using pending_range [OF assms, of l] by simp
  show "v t \<le> v l" using pending_later [OF assms, of l t] pending_range [OF assms, of t] \<open>l < t\<close> by simp
  show "v j < v t" if "l < j" "j < t" for j
    by (rule pending_between [OF assms, of t l]) (use s that \<open>0 \<le> l\<close> in \<open>auto simp: sorted_wrt_append\<close>)
qed

lemma pending_bottom:
  assumes "pending v i (pre @ [t])" and "0 \<le> j" "j < t"
  shows "v j < v t"
proof -
  have "sorted_wrt (>) (pre @ [t])" using assms(1) by (simp add: pending_def)
  then have "\<forall>k \<in> set (pre @ [t]). k < t \<longrightarrow> k \<le> - 1" by (auto simp: sorted_wrt_append)
  then show ?thesis using pending_between [OF assms(1), of t "- 1" j] assms(2,3) by simp
qed

lemma pop_while_ok:
  assumes "\<forall>t \<in> set st. c t = Some (v t < v i)" and "J st s"
    and step: "\<And>popped t rest s. st = popped @ t # rest \<Longrightarrow> \<forall>k \<in> set popped. v k < v i \<Longrightarrow> v t < v i \<Longrightarrow> J (t # rest) s \<Longrightarrow> ok (f t rest s) (J rest)"
  shows "ok (pop_while c f st s) (\<lambda>(rest, s). \<exists>popped. st = popped @ rest \<and> (\<forall>k \<in> set popped. v k < v i) \<and>
    (rest \<noteq> [] \<longrightarrow> \<not> v (hd rest) < v i) \<and> J rest s)"
  using assms
proof (induction st arbitrary: s)
  case (Cons t st)
  show ?case
  proof (cases "v t < v i")
    case True
    have "ok (f t st s) (J st)" using Cons.prems(3) [of "[]" t st s] Cons.prems(2) True by simp
    then obtain s1 where s1: "f t st s = Some s1" "J st s1" by (blast elim: okE)
    have "ok (pop_while c f st s1) (\<lambda>(rest, s). \<exists>popped. st = popped @ rest \<and> (\<forall>k \<in> set popped. v k < v i) \<and>
        (rest \<noteq> [] \<longrightarrow> \<not> v (hd rest) < v i) \<and> J rest s)"
    proof (rule Cons.IH)
      show "ok (f u rest s) (J rest)" if "st = popped @ u # rest" "\<forall>k \<in> set popped. v k < v i" "v u < v i" "J (u # rest) s" for popped u rest s
        using Cons.prems(3) [of "t # popped" u rest s] that True by simp
    qed (use Cons.prems(1) s1 in auto)
    then have "ok (pop_while c f st s1) (\<lambda>(rest, s). \<exists>popped. t # st = popped @ rest \<and> (\<forall>k \<in> set popped. v k < v i) \<and>
        (rest \<noteq> [] \<longrightarrow> \<not> v (hd rest) < v i) \<and> J rest s)"
    proof (rule ok_mono)
      fix x
      assume "case x of (rest, s) \<Rightarrow> \<exists>popped. st = popped @ rest \<and> (\<forall>k \<in> set popped. v k < v i) \<and>
        (rest \<noteq> [] \<longrightarrow> \<not> v (hd rest) < v i) \<and> J rest s"
      then obtain rest s popped where x: "x = (rest, s)" "st = popped @ rest" "\<forall>k \<in> set popped. v k < v i"
        "rest \<noteq> [] \<longrightarrow> \<not> v (hd rest) < v i" "J rest s" by (cases x) auto
      then show "case x of (rest, s) \<Rightarrow> \<exists>popped. t # st = popped @ rest \<and> (\<forall>k \<in> set popped. v k < v i) \<and>
        (rest \<noteq> [] \<longrightarrow> \<not> v (hd rest) < v i) \<and> J rest s" using True by (auto intro!: exI [of _ "t # popped"])
    qed
    then show ?thesis using Cons.prems(1) s1 True by simp
  next
    case False
    then show ?thesis using Cons.prems by auto
  qed
qed simp

text \<open>The whole loop: \<open>J\<close> holds inside the inner loop at \<open>i\<close>, \<open>I\<close> between the rounds.\<close>

lemma stack_loop_ok:
  fixes n :: int
  assumes cond: "\<And>i t. 0 \<le> t \<Longrightarrow> t < i \<Longrightarrow> i < n \<Longrightarrow> c i t = Some (v t < v i)" and "0 \<le> n" and init: "I 0 [] s"
    and enter: "\<And>i st s. 0 \<le> i \<Longrightarrow> i < n \<Longrightarrow> pending v i st \<Longrightarrow> I i st s \<Longrightarrow> J i st s"
    and pop: "\<And>i popped t rest s. 0 \<le> i \<Longrightarrow> i < n \<Longrightarrow> pending v i (popped @ t # rest) \<Longrightarrow> \<forall>k \<in> set popped. v k < v i \<Longrightarrow>
      v t < v i \<Longrightarrow> J i (t # rest) s \<Longrightarrow> ok (f i t rest s) (J i rest)"
    and leave: "\<And>i popped rest s. 0 \<le> i \<Longrightarrow> i < n \<Longrightarrow> pending v i (popped @ rest) \<Longrightarrow> pending v (i + 1) (i # rest) \<Longrightarrow> J i rest s \<Longrightarrow>
      I (i + 1) (i # rest) s"
  shows "ok (for_up 0 n (\<lambda>i (st, s). do { (st, s) \<leftarrow> pop_while (c i) (f i) st s; Some (i # st, s) }) ([], s)) (\<lambda>(st, s). pending v n st \<and> I n st s)"
proof (rule for_up_rule [where I = "\<lambda>i (st, s). pending v i st \<and> I i st s"])
  fix i x
  assume i: "0 \<le> i" "i < n" and x: "case x of (st, s) \<Rightarrow> pending v i st \<and> I i st s"
  obtain st s where st: "x = (st, s)" "pending v i st" "I i st s" using x by (cases x) auto
  have "ok (pop_while (c i) (f i) st s) (\<lambda>(rest, s). \<exists>popped. st = popped @ rest \<and> (\<forall>k \<in> set popped. v k < v i) \<and>
      (rest \<noteq> [] \<longrightarrow> \<not> v (hd rest) < v i) \<and> J i rest s)"
  proof (rule pop_while_ok)
    show "\<forall>t \<in> set st. c i t = Some (v t < v i)" using cond pending_range [OF st(2)] i by blast
    show "J i st s" using enter [OF i st(2,3)] .
    show "ok (f i t rest s) (J i rest)" if "st = popped @ t # rest" "\<forall>k \<in> set popped. v k < v i" "v t < v i" "J i (t # rest) s" for popped t rest s
      using pop [OF i, of popped t rest s] st(2) that by simp
  qed
  then obtain rest r popped where r: "pop_while (c i) (f i) st s = Some (rest, r)" "st = popped @ rest" "\<forall>k \<in> set popped. v k < v i"
      "rest \<noteq> [] \<Longrightarrow> \<not> v (hd rest) < v i" "J i rest r" by (auto elim!: okE)
  have "pending v i (popped @ rest)" using st(2) r(2) by simp
  moreover from this have "pending v (i + 1) (i # rest)" using r(3,4) i(1) by (rule pending_next)
  ultimately show "ok (case x of (st, s) \<Rightarrow> do { (st, s) \<leftarrow> pop_while (c i) (f i) st s; Some (i # st, s) })
      (\<lambda>(st, s). pending v (i + 1) st \<and> I (i + 1) st s)"
    using leave [OF i] r st(1) by simp
qed (use assms(2) init pending_0 in auto)

section \<open>The next greater value\<close>

lemma el_int: "el a (int n) = a ! n"
  by (simp add: el_def)

text \<open>How many values after the one at \<open>k\<close> come before one that is greater.\<close>

definition run_after :: "int list \<Rightarrow> nat \<Rightarrow> nat" where
  "run_after T k = length (takeWhile (\<lambda>x. x \<le> T ! k) (drop (Suc k) T))"

lemma length_takeWhile_eq:
  "j \<le> length xs \<Longrightarrow> (\<And>i. i < j \<Longrightarrow> P (xs ! i)) \<Longrightarrow> j = length xs \<or> \<not> P (xs ! j) \<Longrightarrow> length (takeWhile P xs) = j"
proof (induction xs arbitrary: j)
  case (Cons x xs)
  show ?case
  proof (cases j)
    case 0
    then show ?thesis using Cons.prems by simp
  next
    case (Suc i)
    have "P x" using Cons.prems(2) [of 0] Suc by simp
    moreover have "length (takeWhile P xs) = i"
      by (rule Cons.IH) (use Cons.prems(1,3) Cons.prems(2) [of "Suc _"] Suc in auto)
    ultimately show ?thesis using Suc by simp
  qed
qed simp

lemma run_after_first_above:
  assumes "first_above (el T) (int k) i" and "i < len T"
  shows "int (run_after T k) = i - int k - 1"
proof -
  have i: "int k < i" "T ! k < T ! nat i" "\<And>j. int k < j \<Longrightarrow> j < i \<Longrightarrow> el T j \<le> T ! k"
    using assms(1) by (auto simp: first_above_def el_def)
  have "run_after T k = nat (i - int k - 1)" unfolding run_after_def
  proof (rule length_takeWhile_eq)
    show "drop (Suc k) T ! m \<le> T ! k" if m: "m < nat (i - int k - 1)" for m
    proof -
      have "el T (int (Suc k + m)) \<le> T ! k" by (rule i(3)) (use m in linarith)+
      then show ?thesis using m assms(2) unfolding el_int by simp
    qed
    have "Suc k + nat (i - int k - 1) = nat i" using i(1) by simp
    then show "nat (i - int k - 1) = length (drop (Suc k) T) \<or> \<not> drop (Suc k) T ! nat (i - int k - 1) \<le> T ! k"
      using i(2) assms(2) by (simp add: not_le)
  qed (use i(1) assms(2) in simp)
  then show ?thesis using i(1) by simp
qed

lemma run_after_last:
  assumes "\<And>j. int k < j \<Longrightarrow> j < len T \<Longrightarrow> el T j \<le> el T (int k)" and "k < length T"
  shows "run_after T k = length T - Suc k"
  unfolding run_after_def
proof (rule length_takeWhile_eq)
  show "drop (Suc k) T ! m \<le> T ! k" if m: "m < length T - Suc k" for m
  proof -
    have "el T (int (Suc k + m)) \<le> el T (int k)" by (rule assms(1)) (use m in linarith)+
    then show ?thesis using m unfolding el_int by simp
  qed
qed (use assms(2) in simp_all)

lemma above_in: "0 \<le> t \<Longrightarrow> t < i \<Longrightarrow> i < len a \<Longrightarrow> above a i t = Some (el a t < el a i)"
  by (simp add: above_def rd_in)

text \<open>The days until a warmer one, 0 when there is none.\<close>

definition warmer_in :: "int list \<Rightarrow> nat \<Rightarrow> int" where
  "warmer_in T k = (if Suc k + run_after T k < length T then int (run_after T k) + 1 else 0)"

text \<open>
  For every day \<open>getNexttemperature\<close> gives the number of days until the next warmer one, or 0 when no warmer
  one follows.
\<close>

theorem getNexttemperature_correct:
  "getNexttemperature T = Some (map (warmer_in T) [0..<length T])"
proof (cases "T = []")
  case True
  then show ?thesis by (simp add: getNexttemperature_def)
next
  case False
  define J where "J = (\<lambda>i rest res. length res = length T \<and> (\<forall>k. 0 \<le> k \<and> k < len T \<longrightarrow>
      (if k < i \<and> k \<notin> set rest then \<exists>j. first_above (el T) k j \<and> j < len T \<and> el res k = j - k else el res k = (0 :: int))))"
  define I where "I = (\<lambda>i. J (i - 1))"
  have "ok (for_up 0 (len T) (\<lambda>i (st, result). do {
         (st, result) \<leftarrow> pop_while (above T i) (\<lambda>t _ result. wr result t (i - t)) st result;
         Some (i # st, result) }) ([], replicate (length T) 0)) (\<lambda>(st, s). pending (el T) (len T) st \<and> J (len T) st s)"
  proof (rule stack_loop_ok [where J = J])
    fix i popped t rest res
    assume i: "0 \<le> i" "i < len T" and p: "pending (el T) i (popped @ t # rest)" and t: "el T t < el T i" and J: "J i (t # rest) res"
    have f: "first_above (el T) t i" using pending_first_above [OF p _ t] by simp
    have r: "0 \<le> t" "t < i" "t \<notin> set rest" using p by (auto simp: pending_def sorted_wrt_append)
    then have "J i rest (up res t (i - t))" using J f i(2) unfolding J_def by (auto simp: el_up)
    then show "ok (wr res t (i - t)) (J i rest)" using r i(2) J by (simp add: wp J_def)
  next
    fix i popped rest res
    assume "0 \<le> i" "J i rest res"
    moreover have "k < i + 1 \<and> k \<notin> set (i # rest) \<longleftrightarrow> k < i \<and> k \<notin> set rest" for k by auto
    ultimately show "J (i + 1) (i # rest) res" unfolding J_def by simp
  qed (auto simp: J_def above_in el_def)
  then obtain st res where st: "for_up 0 (len T) (\<lambda>i (st, result). do {
         (st, result) \<leftarrow> pop_while (above T i) (\<lambda>t _ result. wr result t (i - t)) st result;
         Some (i # st, result) }) ([], replicate (length T) 0) = Some (st, res)" "pending (el T) (len T) st" "J (len T) st res"
    by (auto elim: okE)
  have "res ! k = warmer_in T k" if k: "k < length T" for k
  proof (cases "int k \<in> set st")
    case True
    have "int (run_after T k) = len T - int k - 1"
      using run_after_last [of k T] pending_later [OF st(2) True] k by simp
    moreover have "el res (int k) = 0" using st(3) True k unfolding J_def by simp
    ultimately show ?thesis by (simp add: warmer_in_def el_int)
  next
    case False
    then obtain j where j: "first_above (el T) (int k) j" "j < len T" "el res (int k) = j - int k"
    proof -
      have "if int k < len T \<and> int k \<notin> set st then \<exists>j. first_above (el T) (int k) j \<and> j < len T \<and> el res (int k) = j - int k else el res (int k) = 0"
        using st(3) k unfolding J_def by simp
      then show ?thesis using that False k by auto
    qed
    then show ?thesis using run_after_first_above [OF j(1,2)] by (simp add: warmer_in_def el_int)
  qed
  then have "res = map (warmer_in T) [0..<length T]" using st(3) unfolding J_def by (intro nth_equalityI) simp_all
  then show ?thesis using False st(1) by (simp add: getNexttemperature_def)
qed

section \<open>Looking right\<close>

lemma run_after_bounds: "k < length T \<Longrightarrow> run_after T k < length T"
  using length_takeWhile_le [of "\<lambda>x. x \<le> T ! k" "drop (Suc k) T"] unfolding run_after_def by simp

lemma run_after_sentinel:
  assumes "k < length T" and "T ! k < x"
  shows "run_after (T @ [x]) k = run_after T k"
proof (cases "\<forall>y \<in> set (drop (Suc k) T). y \<le> T ! k")
  case True
  then have "length (takeWhile (\<lambda>y. y \<le> T ! k) (drop (Suc k) T)) = length (drop (Suc k) T)"
    by (metis takeWhile_eq_all_conv)
  then show ?thesis using assms True by (simp add: run_after_def nth_append takeWhile_append2)
next
  case False
  then show ?thesis using assms by (auto simp: run_after_def nth_append)
qed

text \<open>
  \<open>lookright\<close> gives the sum, over all people who are less than the largest \<open>int\<close> tall, of the number of people
  on the right before the first taller one; those of the same height count, and nobody is lost.
\<close>

theorem lookright_correct:
  assumes "\<forall>x \<in> set nums. in_int x" and "length nums < 2 ^ 15"
  shows "lookright nums = Some (\<Sum>k \<in> {k. k < length nums \<and> nums ! k < INT_MAX}. int (run_after nums k))"
proof (cases "nums = []")
  case True
  then show ?thesis by (simp add: lookright_def)
next
  case False
  define T where "T = nums @ [INT_MAX]"
  define D where "D = (\<lambda>k. int (run_after T (nat k)))"
  have len: "len T = len nums + 1" by (simp add: T_def)
  define J where "J = (\<lambda>i rest count. count = (\<Sum>k \<in> {0..<i} - set rest. D k))"
  have bound: "0 \<le> (\<Sum>k \<in> A. D k)" "(\<Sum>k \<in> A. D k) \<le> INT_MAX" if "A \<subseteq> {0..<len T}" for A
  proof -
    show "0 \<le> (\<Sum>k \<in> A. D k)" by (simp add: D_def sum_nonneg)
    have "finite A" "card A \<le> length T" using that card_mono [OF _ that] finite_subset [OF that] by auto
    have "D k \<le> 2 ^ 15" if k: "k \<in> A" for k
    proof -
      have "nat k < length T" using k \<open>A \<subseteq> {0..<len T}\<close> by force
      then show ?thesis using run_after_bounds [of "nat k" T] assms(2) len unfolding D_def by simp
    qed
    then have "(\<Sum>k \<in> A. D k) \<le> (\<Sum>k \<in> A. 2 ^ 15)" by (rule sum_mono)
    also have "\<dots> \<le> int (length T) * 2 ^ 15" using \<open>card A \<le> length T\<close> by simp
    also have "\<dots> \<le> 2 ^ 15 * 2 ^ 15" using assms(2) len by (intro mult_right_mono) simp_all
    finally show "(\<Sum>k \<in> A. D k) \<le> INT_MAX" by (simp add: INT_MAX_def)
  qed
  have "ok (for_up 0 (len T) (\<lambda>i (st, count). do {
         (st, count) \<leftarrow> pop_while (above T i) (\<lambda>t _ count. cint (count + (i - t - 1))) st count;
         Some (i # st, count) }) ([], 0)) (\<lambda>(st, count). pending (el T) (len T) st \<and> J (len T) st count)"
  proof (rule stack_loop_ok [where J = J])
    fix i popped t rest count
    assume i: "0 \<le> i" "i < len T" and p: "pending (el T) i (popped @ t # rest)" and t: "el T t < el T i" and J: "J i (t # rest) count"
    have f: "first_above (el T) t i" using pending_first_above [OF p _ t] by simp
    have r: "0 \<le> t" "t < i" "t \<notin> set rest" using p by (auto simp: pending_def sorted_wrt_append)
    have D: "D t = i - t - 1" using run_after_first_above [of T "nat t" i] f r(1) i(2) by (simp add: D_def)
    have "{0..<i} - set rest = insert t ({0..<i} - set (t # rest))" using r by auto
    then have "(\<Sum>k \<in> {0..<i} - set rest. D k) = (\<Sum>k \<in> insert t ({0..<i} - set (t # rest)). D k)" by (rule arg_cong)
    also have "\<dots> = D t + (\<Sum>k \<in> {0..<i} - set (t # rest). D k)" by (rule sum.insert) auto
    finally have c: "count + (i - t - 1) = (\<Sum>k \<in> {0..<i} - set rest. D k)" using J D unfolding J_def by linarith
    moreover have "{0..<i} - set rest \<subseteq> {0..<len T}" using i(2) by auto
    ultimately show "ok (cint (count + (i - t - 1))) (J i rest)"
      using bound [of "{0..<i} - set rest"] by (simp add: wp J_def INT_MIN_def)
  next
    fix i popped rest count
    assume "0 \<le> i" "pending (el T) i (popped @ rest)" "J i rest count"
    moreover have "{0..<i + 1} - set (i # rest) = {0..<i} - set rest" by auto
    ultimately show "J (i + 1) (i # rest) count" unfolding J_def by simp
  qed (auto simp: J_def above_in)
  then obtain st count where st: "for_up 0 (len T) (\<lambda>i (st, count). do {
         (st, count) \<leftarrow> pop_while (above T i) (\<lambda>t _ count. cint (count + (i - t - 1))) st count;
         Some (i # st, count) }) ([], 0) = Some (st, count)" "pending (el T) (len T) st" "J (len T) st count"
    by (auto elim: okE)
  have last: "el T (len nums) = INT_MAX" by (simp add: T_def el_int)
  have first: "el T k = nums ! nat k" if "0 \<le> k" "k < len nums" for k using that by (simp add: T_def el_def nth_append nat_less_iff)
  have in_st: "k \<in> set st \<longleftrightarrow> 0 \<le> k \<and> k \<le> len nums \<and> (k < len nums \<longrightarrow> nums ! nat k = INT_MAX)" for k
  proof
    assume k: "k \<in> set st"
    then have r: "0 \<le> k" "k < len nums + 1" using pending_range [OF st(2)] len by auto
    have "nums ! nat k = INT_MAX" if "k < len nums"
    proof -
      have "INT_MAX \<le> el T k" using pending_later [OF st(2) k, of "len nums"] that len last by simp
      moreover have "nums ! nat k \<le> INT_MAX" using assms(1) that r(1) by (simp add: nat_less_iff)
      ultimately show ?thesis using first [of k] that r(1) by simp
    qed
    then show "0 \<le> k \<and> k \<le> len nums \<and> (k < len nums \<longrightarrow> nums ! nat k = INT_MAX)" using r by simp
  next
    assume k: "0 \<le> k \<and> k \<le> len nums \<and> (k < len nums \<longrightarrow> nums ! nat k = INT_MAX)"
    then have "el T k = INT_MAX" using first [of k] last by (cases "k = len nums") simp_all
    moreover have "el T j \<le> INT_MAX" if "0 \<le> j" "j < len T" for j
      using first [of j] last assms(1) that len by (cases "j = len nums") (auto simp: nat_less_iff)
    ultimately show "k \<in> set st" using st(2) k len unfolding pending_def by simp
  qed
  have "{0..<len T} - set st = {k. 0 \<le> k \<and> k < len nums \<and> nums ! nat k \<noteq> INT_MAX}"
  proof (rule set_eqI)
    show "k \<in> {0..<len T} - set st \<longleftrightarrow> k \<in> {k. 0 \<le> k \<and> k < len nums \<and> nums ! nat k \<noteq> INT_MAX}" for k
      unfolding Diff_iff in_st len mem_Collect_eq atLeastLessThan_iff by linarith
  qed
  also have "\<dots> = int ` {k. k < length nums \<and> nums ! k < INT_MAX}"
  proof (rule set_eqI)
    fix k
    have "nums ! nat k < INT_MAX \<longleftrightarrow> nums ! nat k \<noteq> INT_MAX" if "0 \<le> k" "k < len nums"
    proof -
      have "nums ! nat k \<in> set nums" using that by (simp add: nat_less_iff)
      then have "nums ! nat k \<le> INT_MAX" using assms(1) by blast
      then show ?thesis by linarith
    qed
    then show "k \<in> {k. 0 \<le> k \<and> k < len nums \<and> nums ! nat k \<noteq> INT_MAX} \<longleftrightarrow> k \<in> int ` {k. k < length nums \<and> nums ! k < INT_MAX}"
      by (auto simp: image_iff nat_less_iff intro: exI [of _ "nat k"])
  qed
  finally have "count = (\<Sum>k \<in> {k. k < length nums \<and> nums ! k < INT_MAX}. D (int k))"
    using st(3) unfolding J_def by (simp add: sum.reindex)
  also have "\<dots> = (\<Sum>k \<in> {k. k < length nums \<and> nums ! k < INT_MAX}. int (run_after nums k))"
    by (rule sum.cong) (auto simp: D_def T_def run_after_sentinel)
  finally show ?thesis using False st(1) unfolding lookright_def T_def by (simp add: Let_def)
qed

theorem lookright_correct_witness: "lookright [4, 3, 7, 1] = Some 2"
proof -
  have "lookright [4, 3, 7, 1] = Some (\<Sum>k \<in> {k. k < length [4, 3, 7, 1 :: int] \<and> [4, 3, 7, 1] ! k < INT_MAX}. int (run_after [4, 3, 7, 1] k))"
    by (rule lookright_correct) (simp_all add: int_limits)
  moreover have "{k. k < length [4, 3, 7, 1 :: int] \<and> [4, 3, 7, 1] ! k < INT_MAX} = {0, 1, 2, 3}"
    by (auto simp: INT_MAX_def less_Suc_eq)
  moreover have "(\<Sum>k \<in> {0, 1, 2, 3}. int (run_after [4, 3, 7, 1] k)) = 2" by code_simp
  ultimately show ?thesis by simp
qed

text \<open>
  The comment lets an element that is not smaller than the top pop it; the code pops for greater ones only, so
  that people of the same height see each other.
\<close>

lemma lookright_same_height: "lookright [4, 4] = Some 1"
  by code_simp

section \<open>The largest rectangle\<close>

lemma below_in: "0 \<le> t \<Longrightarrow> t < i \<Longrightarrow> i < len a \<Longrightarrow> below a i t = Some (- el a t < - el a i)"
  by (simp add: below_def rd_in)

text \<open>The rectangle over a segment is as high as its lowest bar.\<close>

definition rectangle :: "int list \<Rightarrow> int \<Rightarrow> int \<Rightarrow> int" where
  "rectangle a p q = (q - p + 1) * Min (el a ` {p..q})"

text \<open>The first of the lowest bars.\<close>

definition lowest :: "int list \<Rightarrow> int \<Rightarrow> int \<Rightarrow> int \<Rightarrow> bool" where
  "lowest a p q k \<longleftrightarrow> p \<le> k \<and> k \<le> q \<and> (\<forall>j. p \<le> j \<and> j < k \<longrightarrow> el a k < el a j) \<and> (\<forall>j. k < j \<and> j \<le> q \<longrightarrow> el a k \<le> el a j)"

lemma rectangle_lowest:
  assumes "lowest a p q k"
  shows "rectangle a p q = (q - p + 1) * el a k"
proof -
  have "el a k \<le> el a j" if "p \<le> j" "j \<le> q" for j
    using assms that unfolding lowest_def by (cases "j < k"; cases "j = k") auto
  then have "Min (el a ` {p..q}) = el a k" using assms unfolding lowest_def by (intro Min_eqI) auto
  then show ?thesis by (simp add: rectangle_def)
qed

lemma lowest_exists:
  assumes "p \<le> q"
  shows "\<exists>k. lowest a p q k"
  using assms
proof (induction "nat (q - p)" arbitrary: p)
  case 0
  then show ?case by (auto simp: lowest_def intro: exI [of _ p])
next
  case (Suc n)
  then have "n = nat (q - (p + 1))" "p + 1 \<le> q" by simp_all
  then obtain k where k: "lowest a (p + 1) q k" using Suc.hyps(1) by blast
  have le: "el a k \<le> el a j" if "p + 1 \<le> j" "j \<le> q" for j
    using k that unfolding lowest_def by (cases "j < k"; cases "j = k") auto
  show ?case
  proof (cases "el a p \<le> el a k")
    case True
    then have "lowest a p q p" using le Suc.prems unfolding lowest_def by (auto intro: order_trans)
    then show ?thesis by blast
  next
    case False
    have "el a k < el a j" if "p \<le> j" "j < k" for j using k False that unfolding lowest_def by (cases "j = p") auto
    then have "lowest a p q k" using k unfolding lowest_def by auto
    then show ?thesis by blast
  qed
qed

text \<open>
  C29: \<open>getLargestArea\<close> gives the area of the largest rectangle under the bars, the greatest product of a width and
  the height of the lowest bar in it, when no area can exceed the largest \<open>int\<close>.  For the example in the comment
  above the code, the bars 4, 3, 2, 5, 6, this is 10, twice five or five times two, and not the 25 the comment gives.
\<close>

theorem getLargestArea_correct:
  assumes "nums \<noteq> []" and "\<forall>x \<in> set nums. 0 \<le> x \<and> len nums * x \<le> INT_MAX"
  shows "\<exists>m. getLargestArea nums = Some m \<and> greatest_seg (rectangle nums) 0 (len nums - 1) m"
proof -
  define T where "T = nums @ [INT_MIN]"
  define v where "v = (\<lambda>k. - el T k)"
  let ?n = "len nums"
  have len: "len T = ?n + 1" by (simp add: T_def)
  have el: "el T k = el nums k" if "0 \<le> k" "k < ?n" for k using that by (simp add: T_def el_def nth_append nat_less_iff)
  have nonneg: "0 \<le> el nums k" "?n * el nums k \<le> INT_MAX" if "0 \<le> k" "k < ?n" for k
    using assms(2) el_in_set [OF that] by auto
  have last: "el T ?n = INT_MIN" by (simp add: T_def el_int)
  define J where "J = (\<lambda>i rest best.
      (\<forall>p q k. 0 \<le> p \<and> q < ?n \<and> lowest nums p q k \<and> k < i \<and> k \<notin> set rest \<longrightarrow> rectangle nums p q \<le> best) \<and>
      (best = INT_MIN \<or> (\<exists>p q. 0 \<le> p \<and> p \<le> q \<and> q < ?n \<and> rectangle nums p q = best)))"
  define body where "body = (\<lambda>i t st best. do {
       let left = (case st of [] \<Rightarrow> t | l # _ \<Rightarrow> t - l - 1);
       let right = i - t;
       h \<leftarrow> rd T t;
       area \<leftarrow> cint ((right + left) * h);
       Some (if area > best then area else best) })"
  have "ok (for_up 0 (len T) (\<lambda>i (st, best). do {
       (st, best) \<leftarrow> pop_while (below T i) (body i) st best;
       Some (i # st, best) }) ([], INT_MIN)) (\<lambda>(st, best). pending v (len T) st \<and> J (len T) st best)"
  proof (rule stack_loop_ok [where J = J])
    fix i popped t rest best
    assume i: "0 \<le> i" "i < len T" and p: "pending v i (popped @ t # rest)" and t: "v t < v i" and J: "J i (t # rest) best"
    have r: "0 \<le> t" "t < i" "t < ?n" "i \<le> ?n" "t \<notin> set rest" using p i len by (auto simp: pending_def sorted_wrt_append)
    define l where "l = (case rest of [] \<Rightarrow> - 1 | l # _ \<Rightarrow> l)"
    have l: "- 1 \<le> l" "l < t" "0 \<le> l \<Longrightarrow> el nums l \<le> el nums t" and between: "\<And>j. l < j \<Longrightarrow> 0 \<le> j \<Longrightarrow> j < t \<Longrightarrow> el nums t < el nums j"
    proof -
      have *: "- 1 \<le> l \<and> l < t \<and> (0 \<le> l \<longrightarrow> el nums l \<le> el nums t) \<and> (\<forall>j. l < j \<and> 0 \<le> j \<and> j < t \<longrightarrow> el nums t < el nums j)"
      proof (cases rest)
        case Nil
        have "el nums t < el nums j" if "0 \<le> j" "j < t" for j
          using pending_bottom [of v i popped t j] p that r el [of j] el [of t] unfolding Nil v_def by simp
        then show ?thesis using r by (simp add: l_def Nil)
      next
        case (Cons m ms)
        note n = pending_neighbour [OF p [unfolded Cons]]
        show ?thesis using n r el [of m] el [of t] el unfolding v_def by (auto simp: l_def Cons)
      qed
      then show "- 1 \<le> l" "l < t" "0 \<le> l \<Longrightarrow> el nums l \<le> el nums t" by blast+
      show "el nums t < el nums j" if "l < j" "0 \<le> j" "j < t" for j using * that by blast
    qed
    have after: "el nums t \<le> el nums j" if "t < j" "j < i" for j
      using pending_later [OF p, of t j] that r el [of j] el [of t] unfolding v_def by simp
    have low: "lowest nums (l + 1) (i - 1) t" using l r between after unfolding lowest_def by auto
    let ?area = "(i - l - 1) * el nums t"
    have area: "rectangle nums (l + 1) (i - 1) = ?area" using rectangle_lowest [OF low] by (simp add: algebra_simps)
    have best: "rectangle nums p q \<le> ?area" if pq: "0 \<le> p" "q < ?n" "lowest nums p q t" for p q
    proof -
      have "l < p"
      proof (rule ccontr)
        assume "\<not> l < p"
        then have "el nums t < el nums l" using pq(3) l(2) unfolding lowest_def by auto
        then show False using l(3) \<open>\<not> l < p\<close> pq(1) by simp
      qed
      moreover have "q < i"
      proof (rule ccontr)
        assume "\<not> q < i"
        then have "el nums t \<le> el nums i" using pq(3) r unfolding lowest_def by auto
        then show False using t el [of t] el [of i] r pq(2) \<open>\<not> q < i\<close> unfolding v_def by simp
      qed
      ultimately have "(q - p + 1) * el nums t \<le> ?area" using nonneg(1) [of t] r by (intro mult_right_mono) auto
      then show ?thesis using rectangle_lowest [OF pq(3)] by simp
    qed
    have fit: "INT_MIN \<le> ?area" "?area \<le> INT_MAX"
    proof -
      have "0 \<le> ?area" using nonneg(1) [of t] r l by simp
      then show "INT_MIN \<le> ?area" by (simp add: INT_MIN_def)
      have "?area \<le> ?n * el nums t" using nonneg(1) [of t] r l by (intro mult_right_mono) auto
      then show "?area \<le> INT_MAX" using nonneg(2) [of t] r by simp
    qed
    have width: "i - t + (case rest of [] \<Rightarrow> t | l # _ \<Rightarrow> t - l - 1) = i - l - 1" by (simp add: l_def split: list.splits)
    have "J i rest (if ?area > best then ?area else best)"
      unfolding J_def
    proof (intro conjI allI impI)
      fix p q k
      assume k: "0 \<le> p \<and> q < ?n \<and> lowest nums p q k \<and> k < i \<and> k \<notin> set rest"
      have "rectangle nums p q \<le> ?area \<or> rectangle nums p q \<le> best"
      proof (cases "k = t")
        case False
        then show ?thesis using J k unfolding J_def by auto
      qed (use best k in blast)
      then show "rectangle nums p q \<le> (if ?area > best then ?area else best)" by auto
    next
      have "0 \<le> l + 1" "l + 1 \<le> i - 1" "i - 1 < ?n" using l r by auto
      then have "\<exists>p q. 0 \<le> p \<and> p \<le> q \<and> q < ?n \<and> rectangle nums p q = ?area" using area by blast
      then show "(if ?area > best then ?area else best) = INT_MIN \<or>
          (\<exists>p q. 0 \<le> p \<and> p \<le> q \<and> q < ?n \<and> rectangle nums p q = (if ?area > best then ?area else best))"
        using J unfolding J_def by auto
    qed
    then show "ok (body i t rest best) (J i rest)"
      using r fit len el [of t] unfolding body_def by (simp add: wp Let_def width split: if_splits)
  next
    fix i popped rest best
    assume "J i rest best"
    moreover have "k < i + 1 \<and> k \<notin> set (i # rest) \<longleftrightarrow> k < i \<and> k \<notin> set rest" for k by auto
    ultimately show "J (i + 1) (i # rest) best" unfolding J_def by simp
  qed (auto simp: J_def below_in v_def lowest_def)
  then obtain st best where st: "for_up 0 (len T) (\<lambda>i (st, best). do {
       (st, best) \<leftarrow> pop_while (below T i) (body i) st best;
       Some (i # st, best) }) ([], INT_MIN) = Some (st, best)" "pending v (len T) st" "J (len T) st best"
    by (auto elim: okE)
  have out: "k \<notin> set st" if "0 \<le> k" "k < ?n" for k
  proof
    assume "k \<in> set st"
    then have "v ?n \<le> v k" using pending_later [OF st(2), of k ?n] that len by simp
    then show False using nonneg(1) [OF that] el [OF that] last by (simp add: v_def INT_MIN_def)
  qed
  have le: "rectangle nums p q \<le> best" if "0 \<le> p" "p \<le> q" "q < ?n" for p q
  proof -
    obtain k where "lowest nums p q k" using lowest_exists [OF \<open>p \<le> q\<close>] by blast
    moreover from this have "0 \<le> k" "k < ?n" using that unfolding lowest_def by auto
    moreover have "k < len T" using \<open>k < ?n\<close> len by simp
    ultimately show ?thesis using st(3) out that unfolding J_def by blast
  qed
  have n: "0 < ?n" using assms(1) by simp
  have "rectangle nums 0 0 = el nums 0" by (simp add: rectangle_def)
  then have "best \<noteq> INT_MIN" using le [of 0 0] n nonneg(1) [of 0] by (auto simp: INT_MIN_def)
  then have "greatest_seg (rectangle nums) 0 (?n - 1) best" using st(3) le unfolding J_def greatest_seg_def by auto
  moreover have "getLargestArea nums = Some best" using st(1) unfolding getLargestArea_def T_def [symmetric] Let_def body_def by simp
  ultimately show ?thesis by blast
qed

lemma getLargestArea_example: "getLargestArea [4, 3, 2, 5, 6] = Some 10"
  by code_simp

theorem getLargestArea_correct_witness:
  "getLargestArea [4, 3, 2, 5, 6] = Some 10 \<and> greatest_seg (rectangle [4, 3, 2, 5, 6]) 0 (len [4, 3, 2, 5, 6 :: int] - 1) 10"
proof -
  have "\<exists>m. getLargestArea [4, 3, 2, 5, 6] = Some m \<and> greatest_seg (rectangle [4, 3, 2, 5, 6]) 0 (len [4, 3, 2, 5, 6 :: int] - 1) m"
    by (rule getLargestArea_correct) (simp_all add: INT_MAX_def)
  with getLargestArea_example show ?thesis by (metis option.inject)
qed

section \<open>The rain\<close>

text \<open>The highest bar of \<open>p..q - 1\<close>, and the level of the water over \<open>k\<close> when there are only the first \<open>i\<close> bars.\<close>

definition highest :: "int list \<Rightarrow> int \<Rightarrow> int \<Rightarrow> int" where
  "highest a p q = Max (el a ` {p..<q})"

definition level :: "int list \<Rightarrow> int \<Rightarrow> int \<Rightarrow> int" where
  "level a i k = min (highest a 0 (k + 1)) (highest a k i)"

definition rain :: "int list \<Rightarrow> int" where
  "rain a = (\<Sum>k \<in> {0..<len a}. level a (len a) k - el a k)"

lemma highest_ge: "p \<le> k \<Longrightarrow> k < q \<Longrightarrow> el a k \<le> highest a p q"
  unfolding highest_def by simp

lemma highest_le: "p < q \<Longrightarrow> (\<And>k. p \<le> k \<Longrightarrow> k < q \<Longrightarrow> el a k \<le> x) \<Longrightarrow> highest a p q \<le> x"
  unfolding highest_def by (auto simp: image_iff)

lemma highest_eq: "p \<le> m \<Longrightarrow> m < q \<Longrightarrow> (\<And>k. p \<le> k \<Longrightarrow> k < q \<Longrightarrow> el a k \<le> el a m) \<Longrightarrow> highest a p q = el a m"
  using highest_ge [of p m q a] highest_le [of p q a "el a m"] by fastforce

lemma highest_next: "p < q \<Longrightarrow> highest a p (q + 1) = max (highest a p q) (el a q)"
proof -
  assume "p < q"
  then have "{p..<q + 1} = insert q {p..<q}" by auto
  then show ?thesis using \<open>p < q\<close> by (simp add: highest_def max.commute)
qed

text \<open>Inside the inner loop: the water behind the top of the stack has risen to the bar at \<open>i\<close> or to the top.\<close>

definition inner_level :: "int list \<Rightarrow> int \<Rightarrow> int list \<Rightarrow> int \<Rightarrow> int" where
  "inner_level a i rest k = (case rest of [] \<Rightarrow> level a (i + 1) k
     | s # _ \<Rightarrow> if k \<le> s then level a i k else min (el a i) (el a s))"

text \<open>Popping the last bar of the stack changes no level.\<close>

lemma inner_level_bottom:
  assumes p: "pending (el a) i (popped @ [t])" and ti: "el a t < el a i" and k: "0 \<le> k" "k < i"
  shows "inner_level a i [t] k = inner_level a i [] k"
proof -
  have t: "0 \<le> t" "t < i" using pending_range [OF p, of t] by simp_all
  have before: "el a j < el a t" if "0 \<le> j" "j < t" for j using pending_bottom [OF p that] .
  have after: "el a j \<le> el a t" if "t < j" "j < i" for j using pending_later [OF p, of t j] that by simp
  have all: "el a j \<le> el a t" if "0 \<le> j" "j < i" for j
    using before [of j] after [of j] that by (cases "j < t"; cases "j = t") auto
  show ?thesis
  proof (cases "k \<le> t")
    case True
    have "highest a 0 (k + 1) \<le> el a t" using all k by (intro highest_le) auto
    also have "\<dots> \<le> highest a k i" using True t by (intro highest_ge) auto
    finally show ?thesis using True k highest_next [of k i a] by (simp add: inner_level_def level_def)
  next
    case False
    then have "highest a 0 (k + 1) = el a t" using t k all by (intro highest_eq) auto
    then show ?thesis using False ti k highest_next [of k i a] by (simp add: inner_level_def level_def)
  qed
qed

text \<open>Popping another one raises the water from it to the next bar of the stack.\<close>

lemma inner_level_pop:
  assumes p: "pending (el a) i (popped @ t # l # rest)" and ti: "el a t < el a i" and k: "0 \<le> k" "k < i"
  shows "inner_level a i (l # rest) k = inner_level a i (t # l # rest) k + (if l < k then min (el a i) (el a l) - el a t else 0)"
proof -
  have t: "0 \<le> t" "t < i" using pending_range [OF p, of t] by simp_all
  note n = pending_neighbour [OF p]
  have after: "el a j \<le> el a t" if "t < j" "j < i" for j using pending_later [OF p, of t j] that by simp
  consider "k \<le> l" | "l < k" "k \<le> t" | "t < k" by linarith
  then show ?thesis
  proof cases
    case 1
    then show ?thesis using n(1) by (simp add: inner_level_def)
  next
    case 2
    have "highest a k i = el a t"
    proof (rule highest_eq)
      show "el a j \<le> el a t" if "k \<le> j" "j < i" for j
        using n(4) [of j] after [of j] that 2 by (cases "j < t"; cases "j = t") auto
    qed (use 2 t in auto)
    moreover have "el a t \<le> highest a 0 (k + 1)" using highest_ge [of 0 l "k + 1" a] n(2,3) 2 by simp
    ultimately show ?thesis using 2 by (simp add: inner_level_def level_def)
  next
    case 3
    then show ?thesis using n(1) ti by (simp add: inner_level_def)
  qed
qed

text \<open>When the bar at \<open>i\<close> has been pushed, the levels are those of the first \<open>i + 1\<close> bars.\<close>

lemma inner_level_leave:
  assumes p: "pending (el a) (i + 1) (i # rest)" and k: "0 \<le> k" "k < i"
  shows "inner_level a i rest k = level a (i + 1) k"
proof (cases rest)
  case (Cons s ss)
  have p': "pending (el a) (i + 1) ([] @ i # s # ss)" using p Cons by simp
  note n = pending_neighbour [OF p']
  show ?thesis
  proof (cases "k \<le> s")
    case True
    then have "el a i \<le> highest a k i" using highest_ge [of k s i a] n(1,3) by simp
    then show ?thesis using True k highest_next [of k i a] by (simp add: inner_level_def level_def Cons)
  next
    case False
    have "highest a k (i + 1) = el a i"
    proof (rule highest_eq)
      show "el a j \<le> el a i" if "k \<le> j" "j < i + 1" for j using n(4) [of j] that False by (cases "j = i") auto
    qed (use k in auto)
    moreover have "el a i \<le> highest a 0 (k + 1)" using highest_ge [of 0 s "k + 1" a] n(2,3) False by simp
    ultimately show ?thesis using False n(3) by (simp add: inner_level_def level_def Cons)
  qed
qed (simp add: inner_level_def)

lemma inner_level_enter:
  assumes "pending (el a) i st" and "0 \<le> k" "k < i"
  shows "inner_level a i st k = level a i k"
proof -
  have "i - 1 \<in> set st" using assms by (auto simp: pending_def)
  moreover have "\<forall>s \<in> set st. s \<le> i - 1" using pending_range [OF assms(1)] by auto
  moreover have "sorted_wrt (>) st" using assms(1) by (simp add: pending_def)
  ultimately obtain ss where "st = (i - 1) # ss" by (cases st) fastforce+
  then show ?thesis using assms(3) by (simp add: inner_level_def)
qed

lemma level_le:
  assumes "0 \<le> k" "k < i" "i \<le> len a" and "\<forall>x \<in> set a. x \<le> H"
  shows "level a i k \<le> H"
proof -
  have "el a j \<le> H" if "k \<le> j" "j < i" for j using assms el_in_set [of j a] that by simp
  then have "highest a k i \<le> H" using assms(2) by (intro highest_le)
  then show ?thesis by (simp add: level_def)
qed

lemma inner_level_le:
  assumes "0 \<le> k" "k < i" "i < len a" and "\<forall>x \<in> set a. x \<le> H"
  shows "inner_level a i rest k \<le> H"
proof -
  have "el a i \<le> H" using assms el_in_set [of i a] by auto
  then show ?thesis using level_le [of k i a H] level_le [of k "i + 1" a H] assms
    by (auto simp: inner_level_def split: list.splits)
qed

text \<open>
  C30: \<open>getRain\<close> adds the water between the bars, over each bar up to the lower one of the highest bars on its
  two sides, to the value that the variable \<open>total\<close> happens to hold, since it is never initialised.
\<close>

theorem getRain_correct:
  assumes "height \<noteq> []" and "\<forall>x \<in> set height. 0 \<le> x \<and> x \<le> H" and "in_int garbage" and "len height * H \<le> INT_MAX"
    and "garbage + len height * H \<le> INT_MAX"
  shows "getRain garbage height = Some (garbage + rain height)"
proof -
  let ?h = "el height" and ?n = "len height"
  have n: "1 \<le> ?n" using assms(1) by (cases height) auto
  have h: "0 \<le> ?h k" "?h k \<le> H" if "0 \<le> k" "k < ?n" for k using assms(2) el_in_set [OF that] by auto
  have H: "0 \<le> H" using h [of 0] n by linarith
  moreover have "1 * H \<le> ?n * H" using n H by (rule mult_right_mono)
  ultimately have H: "0 \<le> H" "H \<le> ?n * H" by simp_all
  have Hle: "\<forall>x \<in> set height. x \<le> H" using assms(2) by blast
  define J where "J = (\<lambda>i rest count. garbage \<le> count \<and> count = garbage + (\<Sum>k \<in> {0..<i}. inner_level height i rest k - ?h k))"
  define I where "I = (\<lambda>i (st :: int list) count. garbage \<le> count \<and> count = garbage + (\<Sum>k \<in> {0..<i}. level height i k - ?h k))"
  define body where "body = (\<lambda>i t st count. (case st of
           [] \<Rightarrow> Some count
         | l # _ \<Rightarrow> do {
             x \<leftarrow> rd height i;
             y \<leftarrow> rd height t;
             z \<leftarrow> rd height l;
             u \<leftarrow> cint (x - y);
             v \<leftarrow> cint (z - y);
             area \<leftarrow> cint (((i - t) + (t - l) - 1) * min u v);
             cint (count + area) }))"
  have "ok (for_up 0 ?n (\<lambda>i (st, count). do {
         (st, count) \<leftarrow> pop_while (above height i) (body i) st count;
         Some (i # st, count) }) ([], garbage)) (\<lambda>(st, count). pending ?h ?n st \<and> I ?n st count)"
  proof (rule stack_loop_ok [where J = J])
    show "J i st count" if "0 \<le> i" "pending ?h i st" "I i st count" for i st count
      using that inner_level_enter [OF that(2)] unfolding I_def J_def by simp
    show "I (i + 1) (i # rest) count" if i: "0 \<le> i" and p: "pending ?h (i + 1) (i # rest)" and J: "J i rest count" for i popped rest count
    proof -
      have "?h i \<le> highest height 0 (i + 1)" using i by (intro highest_ge) auto
      moreover have "highest height i (i + 1) = ?h i" by (rule highest_eq) auto
      ultimately have last: "level height (i + 1) i = ?h i" by (simp add: level_def)
      have set: "{0..<i + 1} = insert i {0..<i}" using i by auto
      have "(\<Sum>k \<in> {0..<i + 1}. level height (i + 1) k - ?h k) = (\<Sum>k \<in> {0..<i}. level height (i + 1) k - ?h k)"
        unfolding set by (simp add: last)
      also have "\<dots> = (\<Sum>k \<in> {0..<i}. inner_level height i rest k - ?h k)" using inner_level_leave [OF p] by (intro sum.cong) auto
      finally show ?thesis using J unfolding I_def J_def by simp
    qed
  next
    fix i popped t rest count
    assume i: "0 \<le> i" "i < ?n" and p: "pending ?h i (popped @ t # rest)" and ti: "?h t < ?h i" and J: "J i (t # rest) count"
    have t: "0 \<le> t" "t < i" using pending_range [OF p, of t] by simp_all
    show "ok (body i t rest count) (J i rest)"
    proof (cases rest)
      case Nil
      have "(\<Sum>k \<in> {0..<i}. inner_level height i [t] k - ?h k) = (\<Sum>k \<in> {0..<i}. inner_level height i [] k - ?h k)"
        using inner_level_bottom [OF p [unfolded Nil] ti] by (intro sum.cong) auto
      then show ?thesis using J unfolding J_def Nil by (simp add: body_def)
    next
      case (Cons l ls)
      note nb = pending_neighbour [OF p [unfolded Cons]]
      let ?d = "min (?h i) (?h l) - ?h t"
      let ?area = "(i - l - 1) * ?d"
      have d: "0 \<le> ?d" "?d \<le> H" using ti nb(3) h(1) [of t] h(2) [of i] t i by auto
      have "(\<Sum>k \<in> {0..<i}. inner_level height i rest k - ?h k) =
          (\<Sum>k \<in> {0..<i}. (inner_level height i (t # rest) k - ?h k) + (if l < k then ?d else 0))"
        using inner_level_pop [OF p [unfolded Cons] ti] unfolding Cons by (intro sum.cong) auto
      also have "\<dots> = (\<Sum>k \<in> {0..<i}. inner_level height i (t # rest) k - ?h k) + (\<Sum>k \<in> {0..<i}. if l < k then ?d else 0)"
        by (rule sum.distrib)
      also have "(\<Sum>k \<in> {0..<i}. if l < k then ?d else 0) = (\<Sum>k \<in> {l + 1..<i}. ?d)"
        using nb(2) by (intro sum.mono_neutral_cong_right) auto
      also have "\<dots> = ?area" using nb(1) t by simp
      finally have sum: "count + ?area = garbage + (\<Sum>k \<in> {0..<i}. inner_level height i rest k - ?h k)"
        using J unfolding J_def by simp
      also have "\<dots> \<le> garbage + (\<Sum>k \<in> {0..<i}. H)"
        using inner_level_le [of _ i height H rest] Hle i h by (intro add_left_mono sum_mono) force
      also have "\<dots> \<le> garbage + ?n * H" using i H(1) by (simp add: mult_right_mono)
      finally have upper: "count + ?area \<le> INT_MAX" using assms(5) by simp
      have area: "0 \<le> ?area" "?area \<le> ?n * H" using d nb(1,2) t i by (auto intro!: mult_mono)
      have min: "min (?h i - ?h t) (?h l - ?h t) = ?d" by (simp add: min_diff_distrib_left)
      have l: "0 \<le> l" "l < ?n" using nb(1,2) t i by auto
      have fits: "in_int (?h i - ?h t)" "in_int (?h l - ?h t)" "in_int ?area" "in_int (count + ?area)"
      proof -
        have "H \<le> 2147483647" using H(2) assms(4) unfolding INT_MAX_def by linarith
        then show "in_int (?h i - ?h t)" "in_int (?h l - ?h t)"
          using h [of i] h [of t] h [of l] i t l unfolding int_limits by linarith+
        show "in_int ?area" using area assms(4) unfolding int_limits by linarith
        show "in_int (count + ?area)" using area(1) upper assms(3) J unfolding J_def by linarith
      qed
      have "J i rest (count + ?area)" using sum area J unfolding J_def by simp
      moreover have "((i - t) + (t - l) - 1) * min (?h i - ?h t) (?h l - ?h t) = ?area" unfolding min by simp
      moreover have "rd height i = Some (?h i)" "rd height t = Some (?h t)" "rd height l = Some (?h l)" using i t l by (simp_all add: rd_in)
      ultimately show ?thesis using fits unfolding body_def Cons
        by (simp only: list.case bind.bind_lunit cint_in ok_Some)
    qed
  qed (use n assms(3) in \<open>auto simp: I_def above_in\<close>)
  then obtain st count where st: "for_up 0 ?n (\<lambda>i (st, count). do {
         (st, count) \<leftarrow> pop_while (above height i) (body i) st count;
         Some (i # st, count) }) ([], garbage) = Some (st, count)" "I ?n st count"
    by (auto elim: okE)
  then show ?thesis using assms(1) unfolding getRain_def body_def I_def rain_def by simp
qed

theorem getRain_correct_witness: "getRain 7 [4, 2, 0, 3, 2, 5] = Some (7 + rain [4, 2, 0, 3, 2, 5])"
  by (rule getRain_correct [where H = 5]) (simp_all add: int_limits)

end
