(* ===== verification/N_Queens.thy ===== *)
theory N_Queens
  imports Prelude
begin

text \<open>
  \<open>Algorithm/Nqueue_Quest.cpp\<close>: all placements of \<open>n\<close> queens by backtracking on one board.
\<close>

section \<open>The model\<close>

text \<open>The board is the matrix \<open>m_base\<close>; the printing of small boards is left out.\<close>

definition cell :: "int list list \<Rightarrow> int \<Rightarrow> int \<Rightarrow> int option" where
  "cell base i j = do { r \<leftarrow> rd base i; rd r j }"

definition set_cell :: "int list list \<Rightarrow> int \<Rightarrow> int \<Rightarrow> int \<Rightarrow> int list list option" where
  "set_cell base i j x = do { r \<leftarrow> rd base i; r \<leftarrow> wr r j x; wr base i r }"

text \<open>The three loops of \<open>isRight\<close>, with their early returns.\<close>

function column_free :: "int list list \<Rightarrow> int \<Rightarrow> int \<Rightarrow> bool option" where
  "column_free base col i = (if i < len base then do {
     x \<leftarrow> cell base i col;
     (if x = 1 then Some False else column_free base col (i + 1)) } else Some True)"
  by pat_completeness auto
termination by (relation "measure (\<lambda>(base, col, i). nat (len base - i))") auto

function left_free :: "int list list \<Rightarrow> int \<Rightarrow> int \<Rightarrow> bool option" where
  "left_free base i j = (if i \<ge> 0 \<and> j \<ge> 0 then do {
     x \<leftarrow> cell base i j;
     (if x = 1 then Some False else left_free base (i - 1) (j - 1)) } else Some True)"
  by pat_completeness auto
termination by (relation "measure (\<lambda>(base, i, j). nat (i + 1))") auto

function right_free :: "int list list \<Rightarrow> int \<Rightarrow> int \<Rightarrow> bool option" where
  "right_free base i j = (if i \<ge> 0 \<and> j < len base then do {
     x \<leftarrow> cell base i j;
     (if x = 1 then Some False else right_free base (i - 1) (j + 1)) } else Some True)"
  by pat_completeness auto
termination by (relation "measure (\<lambda>(base, i, j). nat (i + 1))") auto

declare column_free.simps [simp del] left_free.simps [simp del] right_free.simps [simp del]

definition isRight :: "int list list \<Rightarrow> int \<Rightarrow> int \<Rightarrow> bool option" where
  "isRight base row col = do {
     a \<leftarrow> column_free base col 0;
     (if \<not> a then Some False else do {
        b \<leftarrow> left_free base (row - 1) (col - 1);
        (if \<not> b then Some False else right_free base (row - 1) (col + 1)) }) }"

text \<open>\<open>NQueen\<close> and the loop in it; the state is the board and \<open>m_result\<close>.  A row behind the last one is outside the board.\<close>

function NQueen :: "nat \<Rightarrow> nat \<Rightarrow> int list list \<times> int \<Rightarrow> (int list list \<times> int) option"
  and try_columns :: "nat \<Rightarrow> nat \<Rightarrow> nat \<Rightarrow> int list list \<times> int \<Rightarrow> (int list list \<times> int) option" where
  "NQueen n row (base, result) = (if row = n then do { r \<leftarrow> cint (result + 1); Some (base, r) }
     else if n < row then None else try_columns n row 0 (base, result))"
| "try_columns n row i (base, result) = (if i < n \<and> row < n then do {
     right \<leftarrow> isRight base (int row) (int i);
     (if \<not> right then try_columns n row (i + 1) (base, result)
      else do {
        base \<leftarrow> set_cell base (int row) (int i) 1;
        (base, result) \<leftarrow> NQueen n (row + 1) (base, result);
        base \<leftarrow> set_cell base (int row) (int i) 0;
        try_columns n row (i + 1) (base, result) }) } else Some (base, result))"
  by pat_completeness auto
termination
  by (relation "inv_image (less_than <*lex*> less_than) (\<lambda>x. case x of
      Inl (n, row, _) \<Rightarrow> (Suc n - row, 0) | Inr (n, row, i, _) \<Rightarrow> (n - row, Suc n - i))") auto

declare NQueen.simps [simp del] try_columns.simps [simp del]

text \<open>The constructor: a board of zeros.  \<open>m_result\<close> is not initialised.\<close>

definition empty_board :: "nat \<Rightarrow> int list list" where
  "empty_board n = replicate n (replicate n 0)"

section \<open>Placements\<close>

text \<open>A placement lists the columns of the queens, row by row.\<close>

definition safe :: "nat list \<Rightarrow> nat \<Rightarrow> bool" where
  "safe qs c \<longleftrightarrow> (\<forall>r < length qs. qs ! r \<noteq> c \<and> \<bar>int (qs ! r) - int c\<bar> \<noteq> int (length qs) - int r)"

definition peaceful :: "nat list \<Rightarrow> bool" where
  "peaceful qs \<longleftrightarrow> (\<forall>r s. r < s \<and> s < length qs \<longrightarrow> qs ! r \<noteq> qs ! s \<and> \<bar>int (qs ! r) - int (qs ! s)\<bar> \<noteq> int s - int r)"

definition solutions :: "nat \<Rightarrow> nat list \<Rightarrow> nat list set" where
  "solutions n qs = {ps. length ps = n \<and> set ps \<subseteq> {..<n} \<and> peaceful ps \<and> take (length qs) ps = qs}"

definition board_of :: "nat \<Rightarrow> nat list \<Rightarrow> int list list" where
  "board_of n qs = map (\<lambda>r. map (\<lambda>c. if r < length qs \<and> qs ! r = c then 1 else 0) [0..<n]) [0..<n]"

lemma board_of_Nil: "board_of n [] = empty_board n"
  by (simp add: board_of_def empty_board_def map_replicate_const)

lemma length_board_of [simp]: "length (board_of n qs) = n"
  by (simp add: board_of_def)

lemma nth_board_of: "r < n \<Longrightarrow> board_of n qs ! r = map (\<lambda>c. if r < length qs \<and> qs ! r = c then 1 else 0) [0..<n]"
  by (simp add: board_of_def)

lemma cell_board_of:
  "0 \<le> i \<Longrightarrow> i < int n \<Longrightarrow> 0 \<le> j \<Longrightarrow> j < int n \<Longrightarrow>
    cell (board_of n qs) i j = Some (if nat i < length qs \<and> qs ! nat i = nat j then 1 else 0)"
  by (auto simp: cell_def rd_def el_def nth_board_of nat_less_iff)

lemma set_cell_board_of:
  assumes "length qs < n" and "c < n"
  shows "set_cell (board_of n qs) (int (length qs)) (int c) 1 = Some (board_of n (qs @ [c]))"
    and "set_cell (board_of n (qs @ [c])) (int (length qs)) (int c) 0 = Some (board_of n qs)"
proof -
  have "(board_of n qs)[length qs := (board_of n qs ! length qs)[c := 1]] = board_of n (qs @ [c])"
    using assms by (intro nth_equalityI) (auto simp: nth_board_of nth_list_update nth_append intro!: nth_equalityI)
  then show "set_cell (board_of n qs) (int (length qs)) (int c) 1 = Some (board_of n (qs @ [c]))"
    using assms by (simp add: set_cell_def rd_def wr_def el_def up_def nth_board_of)
  have "(board_of n (qs @ [c]))[length qs := (board_of n (qs @ [c]) ! length qs)[c := 0]] = board_of n qs"
    using assms by (intro nth_equalityI) (auto simp: nth_board_of nth_list_update nth_append intro!: nth_equalityI)
  then show "set_cell (board_of n (qs @ [c])) (int (length qs)) (int c) 0 = Some (board_of n qs)"
    using assms by (simp add: set_cell_def rd_def wr_def el_def up_def nth_board_of)
qed

lemma split_first:
  assumes "0 \<le> i"
  shows "(\<forall>r < l. i \<le> int r \<longrightarrow> P r) \<longleftrightarrow> (nat i < l \<longrightarrow> P (nat i)) \<and> (\<forall>r < l. i + 1 \<le> int r \<longrightarrow> P r)" (is "?L \<longleftrightarrow> ?R")
proof
  assume ?L
  then show ?R using assms by auto
next
  assume R: ?R
  show ?L
  proof (intro allI impI)
    show "P r" if "r < l" "i \<le> int r" for r using R that assms by (cases "r = nat i") auto
  qed
qed

lemma split_last:
  assumes "0 \<le> i"
  shows "(\<forall>r < l. int r \<le> i \<longrightarrow> P r) \<longleftrightarrow> (nat i < l \<longrightarrow> P (nat i)) \<and> (\<forall>r < l. int r \<le> i - 1 \<longrightarrow> P r)" (is "?L \<longleftrightarrow> ?R")
proof
  assume ?L
  then show ?R using assms by auto
next
  assume R: ?R
  show ?L
  proof (intro allI impI)
    show "P r" if "r < l" "int r \<le> i" for r using R that assms by (cases "r = nat i") auto
  qed
qed

lemma column_free_correct:
  assumes "length qs \<le> n" and "c < n" and "0 \<le> i"
  shows "column_free (board_of n qs) (int c) i = Some (\<forall>r < length qs. i \<le> int r \<longrightarrow> qs ! r \<noteq> c)"
  using assms(3)
proof (induction "nat (int n - i)" arbitrary: i)
  case 0
  then show ?case using assms(1) by (subst column_free.simps) auto
next
  case (Suc m)
  then have i: "i < int n" by simp
  have "column_free (board_of n qs) (int c) (i + 1) = Some (\<forall>r < length qs. i + 1 \<le> int r \<longrightarrow> qs ! r \<noteq> c)"
    by (rule Suc.hyps) (use Suc in auto)
  then show ?case using i Suc.prems assms(2) split_first [OF Suc.prems, of "length qs" "\<lambda>r. qs ! r \<noteq> c"]
    by (subst column_free.simps) (simp add: cell_board_of)
qed

lemma left_free_correct:
  assumes "i < int n" and "j < int n"
  shows "left_free (board_of n qs) i j = Some (\<forall>r < length qs. int r \<le> i \<longrightarrow> i - int r \<noteq> j - int (qs ! r))"
  using assms
proof (induction "nat (i + 1)" arbitrary: i j)
  case 0
  then show ?case by (subst left_free.simps) auto
next
  case (Suc m)
  show ?case
  proof (cases "0 \<le> j")
    case False
    then show ?thesis by (subst left_free.simps) auto
  next
    case True
    have "left_free (board_of n qs) (i - 1) (j - 1) = Some (\<forall>r < length qs. int r \<le> i - 1 \<longrightarrow> i - 1 - int r \<noteq> j - 1 - int (qs ! r))"
      by (rule Suc.hyps) (use Suc in auto)
    moreover have "(\<forall>r < length qs. int r \<le> i \<longrightarrow> i - int r \<noteq> j - int (qs ! r)) \<longleftrightarrow>
        \<not> (nat i < length qs \<and> qs ! nat i = nat j) \<and> (\<forall>r < length qs. int r \<le> i - 1 \<longrightarrow> i - 1 - int r \<noteq> j - 1 - int (qs ! r))"
    proof -
      have i: "0 \<le> i" using Suc.hyps(2) by simp
      then have "i - int (nat i) \<noteq> j - int (qs ! nat i) \<longleftrightarrow> qs ! nat i \<noteq> nat j" using True by linarith
      moreover have "i - 1 - int r \<noteq> j - 1 - int (qs ! r) \<longleftrightarrow> i - int r \<noteq> j - int (qs ! r)" for r by linarith
      ultimately show ?thesis using split_last [OF i, of "length qs" "\<lambda>r. i - int r \<noteq> j - int (qs ! r)"] by presburger
    qed
    moreover have "0 \<le> i" using Suc.hyps(2) by simp
    ultimately show ?thesis using True Suc.prems by (subst left_free.simps) (simp add: cell_board_of)
  qed
qed

lemma right_free_correct:
  assumes "i < int n" and "0 \<le> j" and "set qs \<subseteq> {..<n}"
  shows "right_free (board_of n qs) i j = Some (\<forall>r < length qs. int r \<le> i \<longrightarrow> i - int r \<noteq> int (qs ! r) - j)"
  using assms(1,2)
proof (induction "nat (i + 1)" arbitrary: i j)
  case 0
  then show ?case by (subst right_free.simps) auto
next
  case (Suc m)
  show ?case
  proof (cases "j < int n")
    case False
    have "qs ! r < n" if "r < length qs" for r using assms(3) nth_mem [OF that] by blast
    then have "i - int r \<noteq> int (qs ! r) - j" if "r < length qs" "int r \<le> i" for r using that False by force
    then show ?thesis using False by (subst right_free.simps) auto
  next
    case True
    have "right_free (board_of n qs) (i - 1) (j + 1) = Some (\<forall>r < length qs. int r \<le> i - 1 \<longrightarrow> i - 1 - int r \<noteq> int (qs ! r) - (j + 1))"
      by (rule Suc.hyps) (use Suc in auto)
    moreover have "(\<forall>r < length qs. int r \<le> i \<longrightarrow> i - int r \<noteq> int (qs ! r) - j) \<longleftrightarrow>
        \<not> (nat i < length qs \<and> qs ! nat i = nat j) \<and> (\<forall>r < length qs. int r \<le> i - 1 \<longrightarrow> i - 1 - int r \<noteq> int (qs ! r) - (j + 1))"
    proof -
      have i: "0 \<le> i" using Suc.hyps(2) by simp
      then have "i - int (nat i) \<noteq> int (qs ! nat i) - j \<longleftrightarrow> qs ! nat i \<noteq> nat j" using Suc.prems(2) by linarith
      moreover have "i - 1 - int r \<noteq> int (qs ! r) - (j + 1) \<longleftrightarrow> i - int r \<noteq> int (qs ! r) - j" for r by linarith
      ultimately show ?thesis using split_last [OF i, of "length qs" "\<lambda>r. i - int r \<noteq> int (qs ! r) - j"] by presburger
    qed
    moreover have "0 \<le> i" using Suc.hyps(2) by simp
    ultimately show ?thesis using True Suc.prems by (subst right_free.simps) (simp add: cell_board_of)
  qed
qed

lemma isRight_correct:
  assumes "length qs < n" and "c < n" and "set qs \<subseteq> {..<n}"
  shows "isRight (board_of n qs) (int (length qs)) (int c) = Some (safe qs c)"
proof -
  have "(qs ! r \<noteq> c \<and> \<bar>int (qs ! r) - int c\<bar> \<noteq> int (length qs) - int r) \<longleftrightarrow>
      (0 \<le> int r \<longrightarrow> qs ! r \<noteq> c) \<and> (int r \<le> int (length qs) - 1 \<longrightarrow> int (length qs) - 1 - int r \<noteq> int c - 1 - int (qs ! r)) \<and>
      (int r \<le> int (length qs) - 1 \<longrightarrow> int (length qs) - 1 - int r \<noteq> int (qs ! r) - (int c + 1))" if "r < length qs" for r
    using that by (cases "int (qs ! r) < int c") (simp_all, linarith+)
  then have "safe qs c \<longleftrightarrow> (\<forall>r < length qs. 0 \<le> int r \<longrightarrow> qs ! r \<noteq> c) \<and>
      (\<forall>r < length qs. int r \<le> int (length qs) - 1 \<longrightarrow> int (length qs) - 1 - int r \<noteq> int c - 1 - int (qs ! r)) \<and>
      (\<forall>r < length qs. int r \<le> int (length qs) - 1 \<longrightarrow> int (length qs) - 1 - int r \<noteq> int (qs ! r) - (int c + 1))"
    unfolding safe_def by blast
  then show ?thesis
    using assms column_free_correct [of qs n c 0] left_free_correct [of "int (length qs) - 1" n "int c - 1" qs]
      right_free_correct [of "int (length qs) - 1" n "int c + 1" qs]
    by (simp add: isRight_def)
qed

section \<open>All placements are counted\<close>

lemma finite_solutions: "finite (solutions n qs)"
proof (rule finite_subset)
  show "solutions n qs \<subseteq> {ps. set ps \<subseteq> {..<n} \<and> length ps = n}" by (auto simp: solutions_def)
qed (rule finite_lists_length_eq, simp)

lemma solutions_full:
  assumes "length qs = n" and "set qs \<subseteq> {..<n}" and "peaceful qs"
  shows "solutions n qs = {qs}"
  using assms by (auto simp: solutions_def)

lemma peaceful_safe:
  assumes "peaceful ps" and "r < length ps"
  shows "safe (take r ps) (ps ! r)"
  using assms unfolding peaceful_def safe_def by auto

lemma peaceful_snoc: "peaceful qs \<Longrightarrow> safe qs c \<Longrightarrow> peaceful (qs @ [c])"
  unfolding peaceful_def safe_def by (auto simp: nth_append less_Suc_eq)

text \<open>The solutions that continue a placement, by the column of the next queen.\<close>

lemma solutions_next:
  assumes "length qs < n"
  shows "solutions n qs = (\<Union>c \<in> {c. c < n \<and> safe qs c}. solutions n (qs @ [c]))"
proof (intro set_eqI iffI)
  fix ps
  assume ps: "ps \<in> solutions n qs"
  then have "length ps = n" "take (length qs) ps = qs" "peaceful ps" "set ps \<subseteq> {..<n}" by (auto simp: solutions_def)
  moreover from this have "take (length qs + 1) ps = qs @ [ps ! length qs]" using assms by (simp add: take_Suc_conv_app_nth)
  moreover have "ps ! length qs \<in> set ps" using calculation(1) assms by simp
  then have "ps ! length qs < n" using calculation(4) by auto
  moreover have "safe qs (ps ! length qs)" using peaceful_safe [of ps "length qs"] calculation(1-3) assms by simp
  ultimately show "ps \<in> (\<Union>c \<in> {c. c < n \<and> safe qs c}. solutions n (qs @ [c]))" by (auto simp: solutions_def)
next
  fix ps
  assume "ps \<in> (\<Union>c \<in> {c. c < n \<and> safe qs c}. solutions n (qs @ [c]))"
  then obtain c where c: "ps \<in> solutions n (qs @ [c])" by blast
  then have "take (length qs) (take (length qs + 1) ps) = take (length qs) (qs @ [c])" by (simp add: solutions_def)
  then show "ps \<in> solutions n qs" using c by (simp add: solutions_def min_def)
qed

lemma solutions_disjoint: "c \<noteq> d \<Longrightarrow> solutions n (qs @ [c]) \<inter> solutions n (qs @ [d]) = {}"
  by (auto simp: solutions_def)

text \<open>The solutions with the next queen in column \<open>i\<close> or behind.\<close>

definition from_column :: "nat \<Rightarrow> nat list \<Rightarrow> nat \<Rightarrow> nat list set" where
  "from_column n qs i = (\<Union>c \<in> {c. i \<le> c \<and> c < n \<and> safe qs c}. solutions n (qs @ [c]))"

lemma from_column_0: "length qs < n \<Longrightarrow> from_column n qs 0 = solutions n qs"
  by (simp add: from_column_def solutions_next)

lemma from_column_end: "n \<le> i \<Longrightarrow> from_column n qs i = {}"
  by (auto simp: from_column_def)

lemma from_column_next:
  assumes "i < n"
  shows "card (from_column n qs i) = (if safe qs i then card (solutions n (qs @ [i])) else 0) + card (from_column n qs (i + 1))"
proof (cases "safe qs i")
  case True
  then have "{c. i \<le> c \<and> c < n \<and> safe qs c} = insert i {c. i + 1 \<le> c \<and> c < n \<and> safe qs c}" using assms by auto
  then have "from_column n qs i = solutions n (qs @ [i]) \<union> from_column n qs (i + 1)" by (simp add: from_column_def)
  moreover have "solutions n (qs @ [i]) \<inter> from_column n qs (i + 1) = {}"
  proof -
    have "solutions n (qs @ [i]) \<inter> solutions n (qs @ [c]) = {}" if "i + 1 \<le> c" for c using solutions_disjoint [of i c] that by simp
    then show ?thesis unfolding from_column_def by blast
  qed
  moreover have "finite (from_column n qs (i + 1))" unfolding from_column_def by (intro finite_UN_I) (simp_all add: finite_solutions)
  ultimately show ?thesis using True by (simp add: card_Un_disjoint finite_solutions)
next
  case False
  then have "{c. i \<le> c \<and> c < n \<and> safe qs c} = {c. i + 1 \<le> c \<and> c < n \<and> safe qs c}" by (auto simp: order_le_less Suc_le_eq)
  then show ?thesis using False by (simp add: from_column_def)
qed

lemma try_columns_counts:
  assumes row: "length qs < n" "set qs \<subseteq> {..<n}"
    and IH: "\<And>c x. c < n \<Longrightarrow> safe qs c \<Longrightarrow> INT_MIN \<le> x \<Longrightarrow> x + int (card (solutions n (qs @ [c]))) \<le> INT_MAX \<Longrightarrow>
      NQueen n (length qs + 1) (board_of n (qs @ [c]), x) = Some (board_of n (qs @ [c]), x + int (card (solutions n (qs @ [c]))))"
  shows "INT_MIN \<le> x \<Longrightarrow> x + int (card (from_column n qs i)) \<le> INT_MAX \<Longrightarrow>
    try_columns n (length qs) i (board_of n qs, x) = Some (board_of n qs, x + int (card (from_column n qs i)))"
proof (induction "n - i" arbitrary: i x)
  case 0
  then show ?case by (subst try_columns.simps) (simp add: from_column_end)
next
  case (Suc k)
  then have i: "i < n" "k = n - (i + 1)" by simp_all
  note right = isRight_correct [OF row(1) i(1) row(2)]
  show ?case
  proof (cases "safe qs i")
    case True
    let ?y = "x + int (card (solutions n (qs @ [i])))"
    have next_column: "card (from_column n qs i) = card (solutions n (qs @ [i])) + card (from_column n qs (i + 1))"
      using from_column_next [OF i(1)] True by simp
    have "NQueen n (length qs + 1) (board_of n (qs @ [i]), x) = Some (board_of n (qs @ [i]), ?y)"
      by (rule IH [OF i(1) True]) (use Suc.prems next_column in simp_all)
    moreover have "try_columns n (length qs) (i + 1) (board_of n qs, ?y) = Some (board_of n qs, ?y + int (card (from_column n qs (i + 1))))"
      by (rule Suc.hyps(1) [OF i(2)]) (use Suc.prems next_column in simp_all)
    ultimately show ?thesis using i row right True next_column set_cell_board_of [OF row(1) i(1)]
      by (subst try_columns.simps) simp
  next
    case False
    have same: "card (from_column n qs i) = card (from_column n qs (i + 1))" using from_column_next [OF i(1)] False by simp
    have "try_columns n (length qs) (i + 1) (board_of n qs, x) = Some (board_of n qs, x + int (card (from_column n qs (i + 1))))"
      by (rule Suc.hyps(1) [OF i(2)]) (use Suc.prems same in simp_all)
    then show ?thesis using i row right False same by (subst try_columns.simps) simp
  qed
qed

lemma NQueen_counts:
  "length qs \<le> n \<Longrightarrow> set qs \<subseteq> {..<n} \<Longrightarrow> peaceful qs \<Longrightarrow> INT_MIN \<le> x \<Longrightarrow> x + int (card (solutions n qs)) \<le> INT_MAX \<Longrightarrow>
    NQueen n (length qs) (board_of n qs, x) = Some (board_of n qs, x + int (card (solutions n qs)))"
proof (induction "n - length qs" arbitrary: qs x)
  case 0
  then have "length qs = n" by simp
  then show ?case using 0 solutions_full [of qs n] by (subst NQueen.simps) (simp add: int_limits)
next
  case (Suc m)
  then have row: "length qs < n" by simp
  have "try_columns n (length qs) 0 (board_of n qs, x) = Some (board_of n qs, x + int (card (from_column n qs 0)))"
  proof (rule try_columns_counts [OF row])
    show "NQueen n (length qs + 1) (board_of n (qs @ [c]), y) = Some (board_of n (qs @ [c]), y + int (card (solutions n (qs @ [c]))))"
      if "c < n" "safe qs c" "INT_MIN \<le> y" "y + int (card (solutions n (qs @ [c]))) \<le> INT_MAX" for c y
      using Suc.hyps(1) [of "qs @ [c]" y] Suc.hyps(2) Suc.prems(2,3) that row peaceful_snoc by simp
  qed (use Suc.prems row from_column_0 in simp_all)
  then show ?case using row by (subst NQueen.simps) (simp add: from_column_0)
qed

text \<open>
  C14: The backtracking search counts the solutions of the \<open>n\<close> queens problem: on the empty board it returns, leaves
  the board empty, and adds to \<open>m_result\<close> the number of placements of one queen in each row where no two share
  a column or a diagonal.
\<close>

theorem NQueen_counts_solutions:
  assumes "in_int x" and "x + int (card {qs. length qs = n \<and> set qs \<subseteq> {..<n} \<and> peaceful qs}) \<le> INT_MAX"
  shows "NQueen n 0 (empty_board n, x) = Some (empty_board n, x + int (card {qs. length qs = n \<and> set qs \<subseteq> {..<n} \<and> peaceful qs}))"
proof -
  have "solutions n [] = {qs. length qs = n \<and> set qs \<subseteq> {..<n} \<and> peaceful qs}" by (auto simp: solutions_def)
  then show ?thesis using NQueen_counts [of "[]" n x] assms by (simp add: board_of_Nil peaceful_def)
qed

lemma four_queens: "NQueen 4 0 (empty_board 4, 0) = Some (empty_board 4, 2)"
  by code_simp

theorem NQueen_counts_solutions_witness:
  "NQueen 1 0 (empty_board 1, 0) = Some (empty_board 1, 1)"
proof -
  have one: "{qs. length qs = 1 \<and> set qs \<subseteq> {..<1} \<and> peaceful qs} = {[0]}"
    by (auto simp: peaceful_def length_Suc_conv)
  then show ?thesis using NQueen_counts_solutions [of 0 1] by (simp add: int_limits)
qed

end
