(* ===== verification/List_Algorithms.thy ===== *)
theory List_Algorithms
  imports Containers
begin

text \<open>
  \<open>Algorithm/ListAgorithm.cpp\<close> with the \<open>List\<close> of \<open>Algorithm/CommonDataStruct.hpp\<close>: exercises on singly
  linked nodes.  The nodes are in a store, so that an access through a null pointer or to a deleted node is
  \<open>None\<close>, as is a loop that does not end.
\<close>

section \<open>The model\<close>

text \<open>\<open>p->val\<close>, \<open>p->next\<close> and \<open>p->next = q\<close>.\<close>

definition val_of :: "'a nodes \<Rightarrow> nat option \<Rightarrow> 'a option" where
  "val_of h p = do { a \<leftarrow> p; (v, r) \<leftarrow> h a; Some v }"

definition next_of :: "'a nodes \<Rightarrow> nat option \<Rightarrow> nat option option" where
  "next_of h p = do { a \<leftarrow> p; (v, r) \<leftarrow> h a; Some r }"

definition set_next :: "'a nodes \<Rightarrow> nat option \<Rightarrow> nat option \<Rightarrow> 'a nodes option" where
  "set_next h p q = do { a \<leftarrow> p; (v, r) \<leftarrow> h a; Some (h(a \<mapsto> (v, q))) }"

text \<open>What a pointer to a pointer points to: a variable \<open>head\<close>, which may not be set yet, or a \<open>next\<close>.\<close>

datatype place = Head | Next_of nat

fun get_at :: "place \<Rightarrow> 'a nodes \<times> nat option option \<Rightarrow> nat option option" where
  "get_at Head (h, head) = head"
| "get_at (Next_of a) (h, head) = next_of h (Some a)"

fun put_at :: "place \<Rightarrow> nat option \<Rightarrow> 'a nodes \<times> nat option option \<Rightarrow> ('a nodes \<times> nat option option) option" where
  "put_at Head q (h, head) = Some (h, Some q)"
| "put_at (Next_of a) q (h, head) = do { h \<leftarrow> set_next h (Some a) q; Some (h, head) }"

subsection \<open>The end of a list\<close>

text \<open>\<open>for (; i < k && fast != nullptr; i++) fast = fast->next;\<close>\<close>

definition advance :: "'a nodes \<Rightarrow> int \<Rightarrow> nat option \<Rightarrow> (int \<times> nat option) option" where
  "advance h k head = cwhile (\<lambda>(i, fast). Some (i < k \<and> fast \<noteq> None))
     (\<lambda>(i, fast). do { fast \<leftarrow> next_of h fast; Some (i + 1, fast) }) (0, head)"

definition getKthFromEnd :: "'a nodes \<Rightarrow> nat option \<Rightarrow> int \<Rightarrow> nat option option" where
  "getKthFromEnd h head k = (if head = None \<or> k \<le> 0 then Some None
     else do {
       (i, fast) \<leftarrow> advance h k head;
       (if fast = None \<and> i = k then Some head
        else if fast = None then Some None
        else do {
          (slow, fast) \<leftarrow> cwhile (\<lambda>(slow, fast). Some (fast \<noteq> None))
            (\<lambda>(slow, fast). do { slow \<leftarrow> next_of h slow; fast \<leftarrow> next_of h fast; Some (slow, fast) }) (head, fast);
          Some slow }) })"

text \<open>\<open>List::erase\<close>: the list with its head, and the node to delete.\<close>

definition list_erase :: "'a nodes \<times> nat option \<Rightarrow> nat option \<Rightarrow> ('a nodes \<times> nat option) option" where
  "list_erase = (\<lambda>(h, head) node. (if node = None then Some (h, head)
     else do {
       (parent, start) \<leftarrow> cwhile (\<lambda>(parent, start). Some (start \<noteq> None \<and> start \<noteq> node))
         (\<lambda>(parent, start). do {
            a \<leftarrow> start;
            start \<leftarrow> get_at (Next_of a) (h, Some head);
            Some (Next_of a, start) }) (Head, head);
       (if start = None then Some (h, head)
        else do {
          r \<leftarrow> next_of h node;
          (h, head) \<leftarrow> put_at parent r (h, Some head);
          head \<leftarrow> head;
          a \<leftarrow> node;
          Some (h(a := None), head) }) }))"

definition removeFromEnd :: "'a nodes \<times> nat option \<Rightarrow> int \<Rightarrow> ('a nodes \<times> nat option) option" where
  "removeFromEnd = (\<lambda>(h, head) k. do {
     (i, fast) \<leftarrow> advance h k head;
     (if fast = None \<and> i \<noteq> k then Some (h, head)
      else do {
        (fast, slow) \<leftarrow> cwhile (\<lambda>(fast, slow). Some (fast \<noteq> None))
          (\<lambda>(fast, slow). do { fast \<leftarrow> next_of h fast; slow \<leftarrow> next_of h slow; Some (fast, slow) }) (fast, head);
        list_erase (h, head) slow }) })"

subsection \<open>Circles\<close>

text \<open>The first loop of \<open>findListCircle\<close>: the flag \<open>bhaveCircle\<close> is set by its \<open>break\<close>.\<close>

definition chase_on :: "'a nodes \<Rightarrow> bool \<times> nat option \<times> nat option \<Rightarrow> bool option" where
  "chase_on h = (\<lambda>(circle, slow, fast).
     cand (\<not> circle) (cand (slow \<noteq> None \<and> fast \<noteq> None) (do { n \<leftarrow> next_of h fast; Some (n \<noteq> None) })))"

definition chase_step :: "'a nodes \<Rightarrow> nat option \<Rightarrow> bool \<times> nat option \<times> nat option \<Rightarrow> (bool \<times> nat option \<times> nat option) option" where
  "chase_step h head = (\<lambda>(circle, slow, fast).
     if slow = fast \<and> slow \<noteq> head then Some (True, slow, fast)
     else do {
       slow \<leftarrow> next_of h slow;
       n \<leftarrow> next_of h fast;
       fast \<leftarrow> next_of h n;
       Some (False, slow, fast) })"

definition chase :: "'a nodes \<Rightarrow> nat option \<Rightarrow> (bool \<times> nat option \<times> nat option) option" where
  "chase h head = cwhile (chase_on h) (chase_step h head) (False, head, head)"

text \<open>The second loop; \<open>parent\<close> is not initialised.\<close>

definition meet :: "'a nodes \<Rightarrow> nat option \<Rightarrow> nat option \<Rightarrow> (nat option option \<times> nat option \<times> nat option) option" where
  "meet h head slow = cwhile (\<lambda>(parent, slow, fast). Some (fast \<noteq> None \<and> slow \<noteq> None \<and> slow \<noteq> fast))
     (\<lambda>(parent, slow, fast). do {
        let parent = Some slow;
        fast \<leftarrow> next_of h fast;
        slow \<leftarrow> next_of h slow;
        Some (parent, slow, fast) }) (None, slow, head)"

definition findListCircle :: "'a nodes \<Rightarrow> nat option \<Rightarrow> ('a nodes \<times> nat option) option" where
  "findListCircle h head = do {
     (circle, slow, fast) \<leftarrow> chase h head;
     (if \<not> circle then Some (h, None)
      else do {
        (parent, slow, fast) \<leftarrow> meet h head slow;
        parent \<leftarrow> parent;
        h \<leftarrow> set_next h parent None;
        Some (h, fast) }) }"

subsection \<open>Merging\<close>

text \<open>The loop over both lists, where \<open>node\<close> is the place for the next node.\<close>

definition merge_step :: "'a::linorder nodes \<times> nat option option \<times> place \<times> nat option \<times> nat option \<Rightarrow>
    ('a nodes \<times> nat option option \<times> place \<times> nat option \<times> nat option) option" where
  "merge_step = (\<lambda>(h, head, node, l1, l2). do {
     a \<leftarrow> val_of h l1;
     b \<leftarrow> val_of h l2;
     (h, head, l1, l2) \<leftarrow> (if a < b
        then do { (h, head) \<leftarrow> put_at node l1 (h, head); l1 \<leftarrow> next_of h l1; Some (h, head, l1, l2) }
        else do { (h, head) \<leftarrow> put_at node l2 (h, head); l2 \<leftarrow> next_of h l2; Some (h, head, l1, l2) });
     n \<leftarrow> get_at node (h, head);
     a \<leftarrow> n;
     Some (h, head, Next_of a, l1, l2) })"

definition mergeTwoLists :: "'a::linorder nodes \<Rightarrow> nat option \<Rightarrow> nat option \<Rightarrow> ('a nodes \<times> nat option) option" where
  "mergeTwoLists h l1 l2 = (if l1 = None \<or> l2 = None then Some (h, if l1 \<noteq> None then l1 else l2)
     else do {
       (h, head, node, l1, l2) \<leftarrow> cwhile (\<lambda>(h, head, node, l1, l2). Some (l1 \<noteq> None \<and> l2 \<noteq> None)) merge_step (h, None, Head, l1, l2);
       (h, head) \<leftarrow> put_at node (if l1 \<noteq> None then l1 else l2) (h, head);
       head \<leftarrow> head;
       Some (h, head) })"

text \<open>The version with one level of pointers: \<open>node\<close> is the last node.\<close>

definition merge_step2 :: "'a::linorder nodes \<times> nat option \<times> nat option \<times> nat option \<times> nat option \<Rightarrow>
    ('a nodes \<times> nat option \<times> nat option \<times> nat option \<times> nat option) option" where
  "merge_step2 = (\<lambda>(h, head, node, l1, l2). do {
     a \<leftarrow> val_of h l1;
     b \<leftarrow> val_of h l2;
     (h, node, l1, l2) \<leftarrow> (if a < b
        then do {
          (h, node) \<leftarrow> (if node = None then Some (h, l1) else do { h \<leftarrow> set_next h node l1; Some (h, node) });
          l1 \<leftarrow> next_of h l1;
          Some (h, node, l1, l2) }
        else do {
          (h, node) \<leftarrow> (if node = None then Some (h, l2) else do { h \<leftarrow> set_next h node l2; Some (h, node) });
          l2 \<leftarrow> next_of h l2;
          Some (h, node, l1, l2) });
     (if head = None then Some (h, node, node, l1, l2)
      else do { node \<leftarrow> next_of h node; Some (h, head, node, l1, l2) }) })"

definition mergeTwoLists2 :: "'a::linorder nodes \<Rightarrow> nat option \<Rightarrow> nat option \<Rightarrow> ('a nodes \<times> nat option) option" where
  "mergeTwoLists2 h l1 l2 = (if l1 = None \<or> l2 = None then Some (h, if l1 \<noteq> None then l1 else l2)
     else do {
       (h, head, node, l1, l2) \<leftarrow> cwhile (\<lambda>(h, head, node, l1, l2). Some (l1 \<noteq> None \<and> l2 \<noteq> None)) merge_step2 (h, None, None, l1, l2);
       h \<leftarrow> set_next h node (if l1 \<noteq> None then l1 else l2);
       Some (h, head) })"

subsection \<open>Turning lists\<close>

definition reverse_step :: "'a nodes \<times> nat option \<times> nat option \<Rightarrow> ('a nodes \<times> nat option \<times> nat option) option" where
  "reverse_step = (\<lambda>(h, before, head). do {
     temp \<leftarrow> next_of h head;
     h \<leftarrow> set_next h head before;
     Some (h, head, temp) })"

definition reverseList :: "'a nodes \<Rightarrow> nat option \<Rightarrow> ('a nodes \<times> nat option) option" where
  "reverseList h head = do {
     (h, before, head) \<leftarrow> cwhile (\<lambda>(h, before, head). Some (head \<noteq> None)) reverse_step (h, None, head);
     Some (h, before) }"

text \<open>One round of the loop of \<open>reverseKGroup\<close>; its own \<open>reverse\<close> is the same code as \<open>reverseList\<close>.\<close>

definition group_step :: "int \<Rightarrow> 'a nodes \<times> nat option \<times> nat option \<times> nat option \<times> nat option \<times> int \<Rightarrow>
    ('a nodes \<times> nat option \<times> nat option \<times> nat option \<times> nat option \<times> int) option" where
  "group_step k = (\<lambda>(h, head, new_head, last_end, beg, idx). do {
     let tail = head;
     head \<leftarrow> next_of h head;
     let idx = idx + 1;
     (if idx = k then do {
        h \<leftarrow> set_next h tail None;
        (h, r) \<leftarrow> reverseList h beg;
        (h, new_head) \<leftarrow> (if new_head = None then Some (h, r) else do { h \<leftarrow> set_next h last_end r; Some (h, new_head) });
        Some (h, head, new_head, beg, head, 0) }
      else Some (h, head, new_head, last_end, beg, idx)) })"

definition reverseKGroup :: "'a nodes \<Rightarrow> nat option \<Rightarrow> int \<Rightarrow> ('a nodes \<times> nat option) option" where
  "reverseKGroup h head k = (if head = None \<or> k < 0 then Some (h, None)
     else if k \<le> 1 then Some (h, head)
     else do {
       (h, head, new_head, last_end, beg, idx) \<leftarrow> cwhile (\<lambda>(h, head, new_head, last_end, beg, idx). Some (head \<noteq> None)) (group_step k)
         (h, head, None, None, head, 0);
       h \<leftarrow> (if last_end \<noteq> None then set_next h last_end beg else Some h);
       Some (h, new_head) })"

subsection \<open>Adding numbers\<close>

text \<open>
  A node is allocated at the next free address.  Its \<open>next\<close> is not initialised; it is written through
  \<open>node\<close> before it is read.
\<close>

definition new_digit :: "int \<Rightarrow> int nodes \<times> nat option option \<times> place \<times> nat \<Rightarrow> (int nodes \<times> nat option option \<times> place \<times> nat) option" where
  "new_digit d = (\<lambda>(h, head, node, fresh). do {
     (h, head) \<leftarrow> put_at node (Some fresh) (h(fresh \<mapsto> (d, None)), head);
     Some (h, head, Next_of fresh, fresh + 1) })"

type_synonym sum_state = "(int nodes \<times> nat option option \<times> place \<times> nat) \<times> int \<times> nat option \<times> nat option"

definition add_both :: "sum_state \<Rightarrow> sum_state option" where
  "add_both = (\<lambda>((h, head, node, fresh), k, l1, l2). do {
     a \<leftarrow> val_of h l1;
     b \<leftarrow> val_of h l2;
     t \<leftarrow> cint (k + a);
     t \<leftarrow> cint (t + b);
     (h, head, node, fresh) \<leftarrow> new_digit (crem t 10) (h, head, node, fresh);
     l1 \<leftarrow> next_of h l1;
     l2 \<leftarrow> next_of h l2;
     Some ((h, head, node, fresh), cdiv t 10, l1, l2) })"

definition add_left :: "(int nodes \<times> nat option option \<times> place \<times> nat) \<times> int \<times> nat option \<Rightarrow>
    ((int nodes \<times> nat option option \<times> place \<times> nat) \<times> int \<times> nat option) option" where
  "add_left = (\<lambda>((h, head, node, fresh), k, l). do {
     a \<leftarrow> val_of h l;
     t \<leftarrow> cint (k + a);
     (h, head, node, fresh) \<leftarrow> new_digit (crem t 10) (h, head, node, fresh);
     l \<leftarrow> next_of h l;
     Some ((h, head, node, fresh), cdiv t 10, l) })"

definition addTwoNumbers :: "int nodes \<Rightarrow> nat \<Rightarrow> nat option \<Rightarrow> nat option \<Rightarrow> (int nodes \<times> nat \<times> nat option) option" where
  "addTwoNumbers h fresh l1 l2 = (if l1 = None \<or> l2 = None then Some (h, fresh, if l1 \<noteq> None then l1 else l2)
     else do {
       (s, k, l1, l2) \<leftarrow> cwhile (\<lambda>(s, k, l1, l2). Some (l1 \<noteq> None \<and> l2 \<noteq> None)) add_both ((h, Some None, Head, fresh), 0, l1, l2);
       (s, k, l) \<leftarrow> cwhile (\<lambda>(s, k, l). Some (l \<noteq> None)) add_left (s, k, if l1 \<noteq> None then l1 else l2);
       (h, head, node, fresh) \<leftarrow> (if k > 0 then new_digit k s else Some s);
       (h, head) \<leftarrow> put_at node None (h, head);
       head \<leftarrow> head;
       Some (h, fresh, head) })"

section \<open>Nodes with their values\<close>

lemma cwhile_step: "b s = Some True \<Longrightarrow> c s = Some s' \<Longrightarrow> cwhile b c s = cwhile b c s'"
  by (subst cwhile.simps) simp

lemma cwhile_end: "b s = Some False \<Longrightarrow> cwhile b c s = Some s"
  by (subst cwhile.simps) simp

fun chain :: "'a nodes \<Rightarrow> nat option \<Rightarrow> (nat \<times> 'a) list \<Rightarrow> nat option \<Rightarrow> bool" where
  "chain h p [] q \<longleftrightarrow> p = q"
| "chain h p ((a, v) # cs) q \<longleftrightarrow> p = Some a \<and> (\<exists>r. h a = Some (v, r) \<and> chain h r cs q)"

abbreviation addrs :: "(nat \<times> 'a) list \<Rightarrow> nat list" where
  "addrs cs \<equiv> map fst cs"

lemma chain_linked: "chain h p cs q \<longleftrightarrow> linked h p (addrs cs) q \<and> node_values h (addrs cs) = map snd cs"
  by (induction cs arbitrary: p) auto

lemma chain_append: "chain h p (cs @ ds) q \<longleftrightarrow> (\<exists>r. chain h p cs r \<and> chain h r ds q)"
  by (induction cs arbitrary: p) fastforce+

lemma chain_cong: "(\<And>a. a \<in> set (addrs cs) \<Longrightarrow> h a = g a) \<Longrightarrow> chain h p cs q \<longleftrightarrow> chain g p cs q"
  by (induction cs arbitrary: p) (auto simp: image_iff)

lemma chain_frame [simp]: "a \<notin> set (addrs cs) \<Longrightarrow> chain (h(a := x)) p cs q \<longleftrightarrow> chain h p cs q"
  by (rule chain_cong) auto

lemma chain_agree:
  assumes "\<forall>a. a \<notin> S \<longrightarrow> g a = h a" and "set (addrs cs) \<inter> S = {}" and "chain h p cs q"
  shows "chain g p cs q"
  using assms chain_cong [of cs g h p q] by blast

lemma chain_None [simp]: "chain h None cs q \<longleftrightarrow> cs = [] \<and> q = None"
  by (cases cs) auto

lemma chain_Some_None: "chain h (Some a) cs None \<Longrightarrow> \<exists>v r ds. cs = (a, v) # ds \<and> h a = Some (v, r) \<and> chain h r ds None"
  by (cases cs) auto

lemma chain_null: "chain h p cs None \<Longrightarrow> (p = None) = (cs = [])"
  by (cases p; cases cs) auto

lemma access [simp]:
  "val_of h (Some a) = map_option fst (h a)" "next_of h (Some a) = map_option snd (h a)"
  "set_next h (Some a) q = map_option (\<lambda>(v, r). h(a \<mapsto> (v, q))) (h a)"
  by (auto simp: val_of_def next_of_def set_next_def split: bind_splits prod.splits option.splits)

lemma chain_length: "chain h p cs None \<Longrightarrow> chain h p ds None \<Longrightarrow> length cs = length ds"
proof (induction cs arbitrary: p ds)
  case (Cons c cs)
  obtain a v where c: "c = (a, v)" by force
  with Cons.prems obtain r where r: "p = Some a" "h a = Some (v, r)" "chain h r cs None" by auto
  with chain_Some_None [of h a ds] Cons.prems(2) obtain es where "ds = (a, v) # es" "chain h r es None" by auto
  with Cons.IH [OF r(3)] show ?case by simp
qed simp

lemma chain_distinct: "chain h p cs None \<Longrightarrow> distinct (addrs cs)"
proof (induction cs arbitrary: p)
  case (Cons c cs)
  obtain a v where c: "c = (a, v)" by force
  then obtain r where r: "p = Some a" "h a = Some (v, r)" "chain h r cs None" using Cons.prems by auto
  have "a \<notin> set (addrs cs)"
  proof
    assume "a \<in> set (addrs cs)"
    then obtain xs w ys where cs: "cs = xs @ (a, w) # ys" by (auto dest: split_list)
    with r have "chain h (Some a) ((a, w) # ys) None" by (auto simp: chain_append)
    then show False using chain_length [of h "Some a" "(a, w) # ys" "c # cs"] Cons.prems r(1) cs by simp
  qed
  with Cons.IH [OF r(3)] c show ?case by simp
qed simp

section \<open>Turning lists\<close>

lemma reverse_loop:
  assumes "chain h p cs None" and "chain h q ds None" and "distinct (addrs (cs @ ds))"
  shows "\<exists>g r. cwhile (\<lambda>(h, before, head). Some (head \<noteq> None)) reverse_step (h, q, p) = Some (g, r, None) \<and>
    chain g r (rev cs @ ds) None \<and> (\<forall>a. a \<notin> set (addrs cs) \<longrightarrow> g a = h a)"
  using assms
proof (induction cs arbitrary: h p q ds)
  case Nil
  then show ?case by (subst cwhile.simps) auto
next
  case (Cons c cs)
  obtain a v where c: "c = (a, v)" by force
  with Cons.prems obtain r where r: "p = Some a" "h a = Some (v, r)" "chain h r cs None" by auto
  define g where "g = h(a \<mapsto> (v, q))"
  have "chain g r cs None" "chain g (Some a) (c # ds) None" "distinct (addrs (cs @ c # ds))"
    using Cons.prems c r by (auto simp: g_def)
  from Cons.IH [OF this] obtain g' r' where g': "cwhile (\<lambda>(h, before, head). Some (head \<noteq> None)) reverse_step (g, Some a, r) = Some (g', r', None)"
    "chain g' r' (rev cs @ c # ds) None" "\<forall>b. b \<notin> set (addrs cs) \<longrightarrow> g' b = g b" by blast
  have "reverse_step (h, q, p) = Some (g, Some a, r)" using r by (simp add: reverse_step_def g_def)
  with g' r(1) have "cwhile (\<lambda>(h, before, head). Some (head \<noteq> None)) reverse_step (h, q, p) = Some (g', r', None)"
    by (subst cwhile.simps) simp
  with g' show ?case by (auto simp: g_def c)
qed

lemma reverse_correct:
  assumes "chain h p cs None"
  shows "\<exists>g r. reverseList h p = Some (g, r) \<and> chain g r (rev cs) None \<and> (\<forall>a. a \<notin> set (addrs cs) \<longrightarrow> g a = h a)"
  using reverse_loop [OF assms, of None "[]"] chain_distinct [OF assms] by (auto simp: reverseList_def)

section \<open>Circles\<close>

text \<open>A loop whose condition holds and whose body keeps an invariant does not return.\<close>

lemma cwhile_diverges:
  assumes "I s" and "\<And>s. I s \<Longrightarrow> b s = Some True" and "\<And>s s'. I s \<Longrightarrow> c s = Some s' \<Longrightarrow> I s'"
  shows "cwhile b c s = None"
proof -
  have "(\<forall>s. I s \<longrightarrow> b s = Some True) \<longrightarrow> (\<forall>s s'. I s \<longrightarrow> c s = Some s' \<longrightarrow> I s') \<longrightarrow> \<not> I s" if "cwhile b c s = Some r" for r
    using _ that
  proof (rule cwhile.raw_induct [where P = "\<lambda>b c s r. (\<forall>s. I s \<longrightarrow> b s = Some True) \<longrightarrow> (\<forall>s s'. I s \<longrightarrow> c s = Some s' \<longrightarrow> I s') \<longrightarrow> \<not> I s"])
    fix cw :: "('a \<Rightarrow> bool option) \<Rightarrow> ('a \<Rightarrow> 'a option) \<Rightarrow> 'a \<Rightarrow> 'a option" and b c s r
    assume IH: "\<And>b c s r. cw b c s = Some r \<Longrightarrow> (\<forall>s. I s \<longrightarrow> b s = Some True) \<longrightarrow> (\<forall>s s'. I s \<longrightarrow> c s = Some s' \<longrightarrow> I s') \<longrightarrow> \<not> I s"
      and run: "b s \<bind> (\<lambda>t. if t then c s \<bind> cw b c else Some s) = Some r"
    show "(\<forall>s. I s \<longrightarrow> b s = Some True) \<longrightarrow> (\<forall>s s'. I s \<longrightarrow> c s = Some s' \<longrightarrow> I s') \<longrightarrow> \<not> I s"
    proof (intro impI notI)
      assume inv: "\<forall>s. I s \<longrightarrow> b s = Some True" "\<forall>s s'. I s \<longrightarrow> c s = Some s' \<longrightarrow> I s'" and "I s"
      then have "b s = Some True" by blast
      with run obtain s' where s': "c s = Some s'" "cw b c s' = Some r" by (cases "c s") simp_all
      with inv \<open>I s\<close> IH [OF s'(2)] show False by blast
    qed
  qed
  with assms show ?thesis by (cases "cwhile b c s") auto
qed

text \<open>
  A lasso: the cells \<open>as\<close> lead to the first of the cells \<open>bs\<close>, and the last of these leads back to it.
\<close>

definition lasso :: "'a nodes \<Rightarrow> nat option \<Rightarrow> (nat \<times> 'a) list \<Rightarrow> (nat \<times> 'a) list \<Rightarrow> bool" where
  "lasso h p as bs \<longleftrightarrow> bs \<noteq> [] \<and> distinct (addrs (as @ bs)) \<and> chain h p (as @ bs) (Some (fst (hd bs)))"

text \<open>The place in \<open>as @ bs\<close> after \<open>i\<close> steps, and the address there.\<close>

definition index_after :: "nat \<Rightarrow> nat \<Rightarrow> nat \<Rightarrow> nat" where
  "index_after l m i = (if i < l then i else l + (i - l) mod m)"

definition nd :: "(nat \<times> 'a) list \<Rightarrow> (nat \<times> 'a) list \<Rightarrow> nat \<Rightarrow> nat" where
  "nd as bs i = addrs (as @ bs) ! index_after (length as) (length bs) i"

lemma index_after_less: "0 < m \<Longrightarrow> index_after l m i < l + m"
  by (auto simp: index_after_def)

lemma index_after_Suc:
  assumes "0 < m"
  shows "index_after l m (Suc i) = (if Suc (index_after l m i) < l + m then Suc (index_after l m i) else l)"
proof (cases "i < l")
  case False
  then have "Suc i - l = Suc (i - l)" by simp
  with False assms mod_less_divisor [of m "i - l"] show ?thesis by (auto simp: index_after_def mod_Suc simp del: mod_less_divisor)
next
  case True
  then show ?thesis using assms by (cases "Suc i = l") (auto simp: index_after_def)
qed

lemma index_after_double:
  assumes "0 < m" and "0 < t"
  shows "index_after l m t = index_after l m (2 * t) \<longleftrightarrow> l \<le> t \<and> m dvd t"
proof (cases "l \<le> t")
  case True
  then have "index_after l m t = index_after l m (2 * t) \<longleftrightarrow> (t - l) mod m = (2 * t - l) mod m"
    by (simp add: index_after_def)
  also have "\<dots> \<longleftrightarrow> m dvd (2 * t - l) - (t - l)" using True by (metis diff_le_mono mod_eq_dvd_iff_nat le_add1 mult_2)
  also have "(2 * t - l) - (t - l) = t" using True by simp
  finally show ?thesis using True by simp
qed (use assms in \<open>auto simp: index_after_def\<close>)

lemma index_after_shift: "m dvd t \<Longrightarrow> l \<le> i \<Longrightarrow> index_after l m (t + i) = index_after l m i"
proof -
  assume a: "m dvd t" "l \<le> i"
  then have "t + i - l = t + (i - l)" by simp
  moreover have "(t + (i - l)) mod m = (i - l) mod m" using a(1) by (auto elim!: dvdE)
  ultimately show ?thesis using a(2) by (simp add: index_after_def)
qed

lemma index_after_last: "m dvd t \<Longrightarrow> 0 < t \<Longrightarrow> 0 < l \<Longrightarrow> l \<le> t \<Longrightarrow> 0 < m \<Longrightarrow> index_after l m (t + l - 1) = l + m - 1"
proof -
  assume a: "m dvd t" "0 < t" "0 < l" "l \<le> t" "0 < m"
  then obtain k where k: "t = m * Suc k" by (metis dvdE mult_0_right not0_implies_Suc not_gr_zero)
  then have "t + l - 1 - l = m * k + (m - 1)" using a by simp
  moreover have "(m * k + (m - 1)) mod m = m - 1" using a mod_mult_self2 [of "m - 1" m k] by (simp add: add.commute)
  ultimately show ?thesis using a by (simp add: index_after_def)
qed

lemma chain_nth:
  assumes "chain h p cs q" and "i < length cs"
  shows "h (addrs cs ! i) = Some (snd (cs ! i), if Suc i < length cs then Some (addrs cs ! Suc i) else q)"
proof -
  obtain a v where av: "cs ! i = (a, v)" by force
  have "cs = take i cs @ (a, v) # drop (Suc i) cs" using id_take_nth_drop [OF assms(2)] av by simp
  then obtain r where r: "h a = Some (v, r)" "chain h r (drop (Suc i) cs) q"
    using assms(1) by (metis chain.simps(2) chain_append)
  show ?thesis
  proof (cases "Suc i < length cs")
    case True
    then have "drop (Suc i) cs = cs ! Suc i # drop (Suc (Suc i)) cs" by (simp add: Cons_nth_drop_Suc)
    with r True av assms(2) show ?thesis by (cases "cs ! Suc i") auto
  next
    case False
    with r av assms(2) show ?thesis by simp
  qed
qed

lemma nd_step:
  assumes "lasso h p as bs"
  shows "\<exists>v. h (nd as bs i) = Some (v, Some (nd as bs (Suc i)))"
proof -
  let ?cs = "as @ bs" and ?i = "index_after (length as) (length bs) i"
  have bs: "0 < length bs" "chain h p ?cs (Some (fst (hd bs)))" using assms by (auto simp: lasso_def)
  have "?i < length ?cs" using index_after_less [OF bs(1)] by simp
  from chain_nth [OF bs(2) this] bs(1) show ?thesis
    by (auto simp: nd_def index_after_Suc nth_append hd_conv_nth)
qed

lemma nd_eq:
  assumes "lasso h p as bs"
  shows "nd as bs i = nd as bs j \<longleftrightarrow> index_after (length as) (length bs) i = index_after (length as) (length bs) j"
proof -
  have "distinct (addrs (as @ bs))" "0 < length bs" using assms by (auto simp: lasso_def)
  then show ?thesis unfolding nd_def using index_after_less [of "length bs" "length as"]
    by (intro nth_eq_iff_index_eq) simp_all
qed

lemma nd_start:
  assumes "lasso h p as bs"
  shows "p = Some (nd as bs 0)"
  using assms by (cases "as @ bs") (auto simp: lasso_def nd_def index_after_def simp del: map_append)

lemma chase_lasso:
  assumes l: "lasso h p as bs" and T: "0 < T" "\<forall>t. 0 < t \<and> t < T \<longrightarrow> nd as bs t \<noteq> nd as bs (2 * t)" "nd as bs T = nd as bs (2 * T)"
    "nd as bs T \<noteq> nd as bs 0"
  shows "chase h p = Some (True, Some (nd as bs T), Some (nd as bs T))"
proof -
  let ?n = "nd as bs"
  have next_nd: "next_of h (Some (?n i)) = Some (Some (?n (Suc i)))" for i using nd_step [OF l, of i] by auto
  have "cwhile (chase_on h) (chase_step h p) (False, Some (?n t), Some (?n (2 * t))) = Some (True, Some (?n T), Some (?n T))" if "k + t = T" for k t
    using that
  proof (induction k arbitrary: t)
    case 0
    then have "chase_step h p (False, Some (?n t), Some (?n (2 * t))) = Some (True, Some (?n T), Some (?n T))"
      using T nd_start [OF l] by (simp add: chase_step_def)
    then show ?case by (subst cwhile.simps) (simp add: chase_on_def cand_def next_nd cwhile.simps [of _ _ "(True, _)"] del: access)
  next
    case (Suc k)
    then have "\<not> (?n t = ?n (2 * t) \<and> Some (?n t) \<noteq> p)" using T(2) nd_start [OF l] by (cases "t = 0") auto
    then have "chase_step h p (False, Some (?n t), Some (?n (2 * t))) = Some (False, Some (?n (Suc t)), Some (?n (2 * Suc t)))"
      by (auto simp add: chase_step_def next_nd simp del: access)
    with Suc.IH [of "Suc t"] Suc.prems show ?case by (subst cwhile.simps) (simp add: chase_on_def cand_def next_nd del: access)
  qed
  from this [of T 0] show ?thesis using nd_start [OF l] by (simp add: chase_def)
qed

lemma meet_lasso:
  assumes l: "lasso h p as bs" and as: "as \<noteq> []" and T: "length as \<le> T" "length bs dvd T"
  shows "meet h p (Some (nd as bs T)) =
    Some (Some (Some (nd as bs (T + length as - 1))), Some (nd as bs (length as)), Some (nd as bs (length as)))"
proof -
  let ?n = "nd as bs" and ?l = "length as"
  let ?b = "\<lambda>(parent, slow, fast). Some (fast \<noteq> None \<and> slow \<noteq> None \<and> slow \<noteq> fast)"
  let ?c = "\<lambda>(parent, slow, fast). do {
        let parent = Some slow; fast \<leftarrow> next_of h fast; slow \<leftarrow> next_of h slow; Some (parent, slow, fast) }"
  have next_nd: "next_of h (Some (?n i)) = Some (Some (?n (Suc i)))" for i using nd_step [OF l, of i] by auto
  have neq: "?n (T + i) \<noteq> ?n i" if "i < ?l" for i
    using that T(1) l unfolding nd_eq [OF l] by (auto simp: index_after_def)
  have meets: "?n (T + ?l) = ?n ?l" unfolding nd_eq [OF l] using T(2) by (simp add: index_after_shift)
  have "cwhile ?b ?c (par, Some (?n (T + i)), Some (?n i)) = Some (Some (Some (?n (T + ?l - 1))), Some (?n ?l), Some (?n ?l))"
    if "Suc k + i = ?l" for k i par
    using that
  proof (induction k arbitrary: i par)
    case 0
    then have i: "?l = Suc i" by simp
    have "cwhile ?b ?c (par, Some (?n (T + i)), Some (?n i)) = cwhile ?b ?c (Some (Some (?n (T + i))), Some (?n (T + ?l)), Some (?n ?l))"
      using neq [of i] i by (subst cwhile.simps) (simp add: next_nd Let_def del: access)
    also have "\<dots> = Some (Some (Some (?n (T + i))), Some (?n (T + ?l)), Some (?n ?l))"
      by (subst cwhile.simps) (simp add: meets)
    finally show ?case using i meets by simp
  next
    case (Suc k)
    then have "cwhile ?b ?c (par, Some (?n (T + i)), Some (?n i)) = cwhile ?b ?c (Some (Some (?n (T + i))), Some (?n (T + Suc i)), Some (?n (Suc i)))"
      using neq [of i] by (subst cwhile.simps) (simp add: next_nd Let_def del: access)
    also have "\<dots> = Some (Some (Some (?n (T + ?l - 1))), Some (?n ?l), Some (?n ?l))"
      using Suc by (intro Suc.IH) simp
    finally show ?case .
  qed
  from this [of "?l - 1" 0] show ?thesis using as nd_start [OF l] by (simp add: meet_def)
qed

text \<open>A list with a circle that its head is not part of: the circle is found and opened.\<close>

lemma chain_set_last:
  assumes "chain h p (cs @ [(a, v)]) q" and "a \<notin> set (addrs cs)"
  shows "h a = Some (v, q)" and "chain (h(a \<mapsto> (v, r))) p (cs @ [(a, v)]) r"
  using assms by (auto simp: chain_append)

lemma findListCircle_lasso:
  assumes l: "lasso h p as bs" and as: "as \<noteq> []"
  shows "\<exists>g. findListCircle h p = Some (g, Some (fst (hd bs))) \<and> chain g p (as @ bs) None"
proof -
  let ?n = "nd as bs" and ?l = "length as" and ?m = "length bs"
  have m: "0 < ?m" "0 < ?l" using l as by (auto simp: lasso_def)
  have meets: "?n t = ?n (2 * t) \<longleftrightarrow> ?l \<le> t \<and> ?m dvd t" if "0 < t" for t
    unfolding nd_eq [OF l] using index_after_double [OF m(1) that] .
  have "\<exists>t. 0 < t \<and> ?n t = ?n (2 * t)" using meets [of "?l * ?m"] m by (intro exI [of _ "?l * ?m"]) simp
  then obtain T where T: "0 < T" "?n T = ?n (2 * T)" "\<forall>t. 0 < t \<and> t < T \<longrightarrow> ?n t \<noteq> ?n (2 * t)"
    using exists_least_iff [of "\<lambda>t. 0 < t \<and> ?n t = ?n (2 * t)"] by blast
  with meets have Tl: "?l \<le> T" "?m dvd T" by auto
  have "?n T \<noteq> ?n 0" unfolding nd_eq [OF l] using Tl m by (auto simp: index_after_def)
  from chase_lasso [OF l T(1,3,2) this] have c: "chase h p = Some (True, Some (?n T), Some (?n T))" .
  obtain cs a v where cs: "as @ bs = cs @ [(a, v)]" using m(1) by (cases bs rule: rev_cases) auto
  then have "?l + ?m = Suc (length cs)" by (metis length_append length_append_singleton)
  then have a: "?n (T + ?l - 1) = a" using index_after_last [OF Tl(2) T(1) m(2) Tl(1) m(1)] by (simp only: nd_def cs) (simp add: nth_append)
  have b: "?n ?l = fst (hd bs)" using m by (simp add: nd_def index_after_def hd_conv_nth nth_append)
  have ch: "chain h p (cs @ [(a, v)]) (Some (fst (hd bs)))" "a \<notin> set (addrs cs)" using l cs by (simp_all add: lasso_def)
  show ?thesis using chain_set_last [OF ch] c meet_lasso [OF l as Tl] a b
    by (simp add: findListCircle_def cs)
qed

text \<open>A list that ends.\<close>

lemma chain_next:
  assumes "chain h p cs None" and "i < length cs"
  shows "next_of h (Some (addrs cs ! i)) = Some (if Suc i < length cs then Some (addrs cs ! Suc i) else None)"
  using chain_nth [OF assms] by simp

lemma findListCircle_chain:
  assumes "chain h p cs None"
  shows "findListCircle h p = Some (h, None)"
proof -
  define ptr where "ptr i = (if i < length cs then Some (addrs cs ! i) else None)" for i
  have step: "next_of h (ptr i) = Some (ptr (Suc i))" if "i < length cs" for i
    using chain_next [OF assms that] that by (simp add: ptr_def)
  have inj: "ptr i \<noteq> ptr j" if "i < j" "j < length cs" for i j
    using chain_distinct [OF assms] that by (simp add: ptr_def nth_eq_iff_index_eq del: nth_map)
  have start: "p = ptr 0" using assms by (cases cs) (auto simp: ptr_def)
  have "\<exists>s f. cwhile (chase_on h) (chase_step h p) (False, ptr t, ptr (2 * t)) = Some (False, s, f)" for t
  proof (induction "length cs - t" arbitrary: t rule: less_induct)
    case less
    show ?case
    proof (cases "Suc (2 * t) < length cs")
      case True
      then have "ptr t \<noteq> None" "ptr (2 * t) \<noteq> None" "ptr (Suc (2 * t)) \<noteq> None" by (simp_all add: ptr_def)
      moreover have "\<not> (ptr t = ptr (2 * t) \<and> ptr t \<noteq> p)" using inj [of t "2 * t"] start True by (cases "t = 0") auto
      then have "chase_step h p (False, ptr t, ptr (2 * t)) = Some (False, ptr (Suc t), ptr (2 * Suc t))"
        using True by (simp add: chase_step_def step)
      ultimately have "cwhile (chase_on h) (chase_step h p) (False, ptr t, ptr (2 * t)) = cwhile (chase_on h) (chase_step h p) (False, ptr (Suc t), ptr (2 * Suc t))"
        using True by (subst cwhile.simps) (simp add: chase_on_def cand_def step)
      then show ?thesis using less [of "Suc t"] True by simp
    next
      case False
      then have "chase_on h (False, ptr t, ptr (2 * t)) = Some False"
        by (cases "2 * t < length cs") (auto simp: chase_on_def cand_def step, auto simp: ptr_def)
      then show ?thesis by (subst cwhile.simps) simp
    qed
  qed
  from this [of 0] show ?thesis using start by (auto simp: findListCircle_def chase_def)
qed

text \<open>A circle from the head on: the pointers meet at the head only, which the first loop does not accept.\<close>

lemma findListCircle_circle:
  assumes l: "lasso h p [] bs"
  shows "findListCircle h p = None"
proof -
  let ?n = "nd [] bs"
  have m: "0 < length bs" using l by (simp add: lasso_def)
  have next_nd: "next_of h (Some (?n i)) = Some (Some (?n (Suc i)))" for i using nd_step [OF l, of i] by auto
  have "chase h p = None" unfolding chase_def
  proof (rule cwhile_diverges [where I = "\<lambda>s. \<exists>t. s = (False, Some (?n t), Some (?n (2 * t)))"])
    show "\<exists>t. (False, p, p) = (False, Some (?n t), Some (?n (2 * t)))" using nd_start [OF l] by (intro exI [of _ 0]) simp
  next
    fix s
    assume "\<exists>t. s = (False, Some (?n t), Some (?n (2 * t)))"
    then obtain t where t: "s = (False, Some (?n t), Some (?n (2 * t)))" by blast
    then show "chase_on h s = Some True"
      by (simp add: chase_on_def cand_def next_nd del: access)
    fix s'
    have "?n t = ?n 0" if "?n t = ?n (2 * t)" "0 < t"
      using that index_after_double [OF m that(2), of 0] unfolding nd_eq [OF l] by (auto simp: index_after_def)
    then have "\<not> (Some (?n t) = Some (?n (2 * t)) \<and> Some (?n t) \<noteq> p)" using nd_start [OF l] by (cases "t = 0") auto
    then show "\<exists>t. s' = (False, Some (?n t), Some (?n (2 * t)))" if "chase_step h p s = Some s'"
      using that t by (auto simp add: chase_step_def next_nd simp del: access intro!: exI [of _ "Suc t"])
  qed
  then show ?thesis by (simp add: findListCircle_def)
qed

section \<open>Merging\<close>

text \<open>What two sorted lists merge to; of equal values that of the second list comes first.\<close>

fun merge_cells :: "(nat \<times> 'a::linorder) list \<Rightarrow> (nat \<times> 'a) list \<Rightarrow> (nat \<times> 'a) list" where
  "merge_cells [] ds = ds"
| "merge_cells cs [] = cs"
| "merge_cells (c # cs) (d # ds) = (if snd c < snd d then c # merge_cells cs (d # ds) else d # merge_cells (c # cs) ds)"

lemma merge_cells_mset [simp]: "mset (merge_cells cs ds) = mset cs + mset ds"
  by (induction cs ds rule: merge_cells.induct) auto

lemma merge_cells_set [simp]: "set (merge_cells cs ds) = set cs \<union> set ds"
  by (metis merge_cells_mset set_mset_mset set_mset_union)

lemma merge_cells_sorted:
  "sorted (map snd cs) \<Longrightarrow> sorted (map snd ds) \<Longrightarrow> sorted (map snd (merge_cells cs ds))"
  by (induction cs ds rule: merge_cells.induct) (auto simp: not_less intro: order_trans)

text \<open>The cells that are linked so far, with the place for the next pointer.\<close>

definition built :: "'a nodes \<Rightarrow> nat option option \<Rightarrow> place \<Rightarrow> (nat \<times> 'a) list \<Rightarrow> bool" where
  "built h head node ds \<longleftrightarrow>
     (if ds = [] then node = Head else node = Next_of (fst (last ds)) \<and> (\<exists>p q. head = Some p \<and> chain h p ds q))"

lemma built_Nil [simp]: "built h head Head []"
  by (simp add: built_def)

lemma put_built:
  assumes "built h head node ds" and "distinct (addrs ds)"
  shows "\<exists>g p. put_at node q (h, head) = Some (g, Some p) \<and> chain g p ds q \<and> get_at node (g, Some p) = Some q \<and>
    (\<forall>a. a \<notin> set (addrs ds) \<longrightarrow> g a = h a) \<and> (ds \<noteq> [] \<longrightarrow> head = Some p)"
proof (cases ds rule: rev_cases)
  case Nil
  then show ?thesis using assms by (simp add: built_def)
next
  case (snoc es e)
  obtain a v where e: "e = (a, v)" by force
  then obtain p r where c: "head = Some p" "chain h p (es @ [(a, v)]) r" "node = Next_of a" "a \<notin> set (addrs es)"
    using assms snoc by (auto simp: built_def)
  from chain_set_last [OF c(2,4)] c show ?thesis by (auto simp: snoc e)
qed

text \<open>How the states of the two versions correspond.\<close>

definition same_end :: "nat option option \<Rightarrow> place \<Rightarrow> nat option \<Rightarrow> nat option \<Rightarrow> bool" where
  "same_end head node head2 node2 \<longleftrightarrow> (case node of Head \<Rightarrow> head2 = None \<and> node2 = None | Next_of a \<Rightarrow> head2 \<noteq> None \<and> head = Some head2 \<and> node2 = Some a)"

lemma merge_both_steps:
  assumes b: "built h head node ds" "same_end head node head2 node2"
    and c: "chain h (Some x) ((x, v) # cs) None" "chain h (Some y) ((y, w) # es) None" "distinct (addrs (ds @ (x, v) # cs @ (y, w) # es))"
    and z: "z = (if v < w then (x, v) else (y, w))"
  shows "\<exists>g p l1 l2. merge_step (h, head, node, Some x, Some y) = Some (g, Some p, Next_of (fst z), l1, l2) \<and>
    merge_step2 (h, head2, node2, Some x, Some y) = Some (g, p, Some (fst z), l1, l2) \<and> p \<noteq> None \<and>
    built g (Some p) (Next_of (fst z)) (ds @ [z]) \<and>
    chain g l1 (if v < w then cs else (x, v) # cs) None \<and> chain g l2 (if v < w then (y, w) # es else es) None \<and>
    (\<forall>a. a \<notin> set (addrs ds) \<longrightarrow> g a = h a)"
proof -
  obtain g p where g: "put_at node (Some (fst z)) (h, head) = Some (g, Some p)" "chain g p ds (Some (fst z))"
      "get_at node (g, Some p) = Some (Some (fst z))" "\<forall>a. a \<notin> set (addrs ds) \<longrightarrow> g a = h a" "ds \<noteq> [] \<longrightarrow> head = Some p"
    using put_built [OF b(1), of "Some (fst z)"] c(3) by auto
  obtain r s where hx: "h x = Some (v, r)" "chain h r cs None" and hy: "h y = Some (w, s)" "chain h s es None" using c by auto
  have eq: "chain g q as None = chain h q as None" if "set (addrs as) \<inter> set (addrs ds) = {}" for q as
    using g(4) that by (intro chain_cong) auto
  have xy: "g x = h x" "g y = h y" using g(4) c(3) by auto
  have frames: "chain g r cs None" "chain g s es None" using hx(2) hy(2) c(3) by (subst eq; auto)+
  have p: "p \<noteq> None" using g(2) by (cases ds) auto
  have chained: "chain g p (ds @ [z]) (if v < w then r else s)"
    using g(2) xy hx(1) hy(1) z by (cases "v < w") (auto simp: chain_append)
  have step2: "merge_step2 (h, head2, node2, Some x, Some y) = Some (g, p, Some (fst z), if v < w then (r, Some y) else (Some x, s))"
  proof (cases node)
    case Head
    then have "ds = []" using b(1) by (auto simp: built_def split: if_splits)
    with Head g(1,2) have "g = h" "p = Some (fst z)" by simp_all
    moreover have "head2 = None" "node2 = None" using Head b(2) by (simp_all add: same_end_def)
    ultimately show ?thesis using z hx(1) hy(1) by (cases "v < w") (simp_all add: merge_step2_def)
  next
    case (Next_of a)
    then have "ds \<noteq> []" using b(1) by (auto simp: built_def)
    moreover have "set_next h (Some a) (Some (fst z)) = Some g" using g(1) Next_of by (auto split: bind_splits simp del: access)
    moreover have "next_of g (Some a) = Some (Some (fst z))" using g(3) Next_of by simp
    moreover have "head2 = p" "node2 = Some a" using \<open>ds \<noteq> []\<close> Next_of b(2) g(5) by (simp_all add: same_end_def)
    moreover have "val_of h (Some x) = Some v" "val_of h (Some y) = Some w" "next_of g (Some x) = Some r" "next_of g (Some y) = Some s"
      using hx hy xy by simp_all
    ultimately show ?thesis using p z by (cases "v < w") (simp_all add: merge_step2_def del: access)
  qed
  have step1: "merge_step (h, head, node, Some x, Some y) = Some (g, Some p, Next_of (fst z), if v < w then (r, Some y) else (Some x, s))"
    using g(1,3) z hx(1) hy(1) xy by (cases "v < w") (simp_all add: merge_step_def)
  have "built g (Some p) (Next_of (fst z)) (ds @ [z])" using chained by (auto simp: built_def)
  with step1 step2 p g(4) frames xy hx(1) hy(1) show ?thesis by (cases "v < w") simp_all
qed

lemma merge_loops:
  assumes "built h head node ds" and "same_end head node head2 node2" and "chain h l1 cs None" and "chain h l2 es None"
    and "distinct (addrs (ds @ cs @ es))" and "ds \<noteq> [] \<or> cs \<noteq> [] \<and> es \<noteq> []"
  shows "\<exists>g p a r s done rest.
    cwhile (\<lambda>(h, head, node, l1, l2). Some (l1 \<noteq> None \<and> l2 \<noteq> None)) merge_step (h, head, node, l1, l2) = Some (g, Some p, Next_of a, r, s) \<and>
    cwhile (\<lambda>(h, head, node, l1, l2). Some (l1 \<noteq> None \<and> l2 \<noteq> None)) merge_step2 (h, head2, node2, l1, l2) = Some (g, p, Some a, r, s) \<and>
    built g (Some p) (Next_of a) done \<and> chain g (if r \<noteq> None then r else s) rest None \<and> done @ rest = ds @ merge_cells cs es \<and>
    (\<forall>a. a \<notin> set (addrs (ds @ cs @ es)) \<longrightarrow> g a = h a)"
  using assms
proof (induction "length cs + length es" arbitrary: h head node head2 node2 l1 l2 ds cs es rule: less_induct)
  case less
  show ?case
  proof (cases "cs = [] \<or> es = []")
    case True
    then have "ds \<noteq> []" "l1 = None \<or> l2 = None" using less.prems by auto
    moreover from this obtain a p where "node = Next_of a" "head = Some p" "head2 = p" "node2 = Some a"
      using less.prems(1,2) by (auto simp: built_def same_end_def)
    moreover have "chain h (if l1 \<noteq> None then l1 else l2) (merge_cells cs es) None"
      using True less.prems(3,4) by (cases cs; cases es) auto
    ultimately show ?thesis using less.prems(1)
      by (subst (1 2) cwhile.simps) auto
  next
    case False
    then obtain x v cs' y w es' where ce: "cs = (x, v) # cs'" "es = (y, w) # es'" by (metis neq_Nil_conv prod.exhaust)
    then have l: "l1 = Some x" "l2 = Some y" using less.prems by auto
    define z where "z = (if v < w then (x, v) else (y, w))"
    let ?cs = "if v < w then cs' else cs" and ?es = "if v < w then es else es'"
    from merge_both_steps [OF less.prems(1,2) _ _ _ z_def, of cs' es'] less.prems(3-5) ce l
    obtain g p k1 k2 where g: "merge_step (h, head, node, l1, l2) = Some (g, Some p, Next_of (fst z), k1, k2)"
      "merge_step2 (h, head2, node2, l1, l2) = Some (g, p, Some (fst z), k1, k2)" "p \<noteq> None"
      "built g (Some p) (Next_of (fst z)) (ds @ [z])" "chain g k1 ?cs None" "chain g k2 ?es None"
      "\<forall>a. a \<notin> set (addrs ds) \<longrightarrow> g a = h a" by auto
    have "length ?cs + length ?es < length cs + length es" using ce by simp
    moreover have "same_end (Some p) (Next_of (fst z)) p (Some (fst z))" using g(3) by (simp add: same_end_def)
    moreover have "distinct (addrs ((ds @ [z]) @ ?cs @ ?es))" using less.prems(5) ce by (auto simp: z_def)
    ultimately obtain g' p' a r s dn rest where ih:
      "cwhile (\<lambda>(h, head, node, l1, l2). Some (l1 \<noteq> None \<and> l2 \<noteq> None)) merge_step (g, Some p, Next_of (fst z), k1, k2) = Some (g', Some p', Next_of a, r, s)"
      "cwhile (\<lambda>(h, head, node, l1, l2). Some (l1 \<noteq> None \<and> l2 \<noteq> None)) merge_step2 (g, p, Some (fst z), k1, k2) = Some (g', p', Some a, r, s)"
      "built g' (Some p') (Next_of a) dn" "chain g' (if r \<noteq> None then r else s) rest None" "dn @ rest = (ds @ [z]) @ merge_cells ?cs ?es"
      "\<forall>a. a \<notin> set (addrs ((ds @ [z]) @ ?cs @ ?es)) \<longrightarrow> g' a = g a"
      using less.hyps [of ?cs ?es g "Some p" "Next_of (fst z)" "ds @ [z]" p "Some (fst z)" k1 k2] g(4-6) by blast
    have "merge_cells cs es = z # merge_cells ?cs ?es" using ce by (simp add: z_def)
    moreover have "set (addrs ((ds @ [z]) @ ?cs @ ?es)) = set (addrs (ds @ cs @ es))" using ce by (auto simp: z_def)
    ultimately have "dn @ rest = ds @ merge_cells cs es" "\<forall>a. a \<notin> set (addrs (ds @ cs @ es)) \<longrightarrow> g' a = h a"
      using ih(5,6) g(7) by auto
    moreover have "cwhile (\<lambda>(h, head, node, l1, l2). Some (l1 \<noteq> None \<and> l2 \<noteq> None)) merge_step (h, head, node, l1, l2) = Some (g', Some p', Next_of a, r, s)"
      unfolding ih(1) [symmetric] by (rule cwhile_step) (simp_all add: g(1) [unfolded l] l)
    moreover have "cwhile (\<lambda>(h, head, node, l1, l2). Some (l1 \<noteq> None \<and> l2 \<noteq> None)) merge_step2 (h, head2, node2, l1, l2) = Some (g', p', Some a, r, s)"
      unfolding ih(2) [symmetric] by (rule cwhile_step) (simp_all add: g(2) [unfolded l] l)
    ultimately show ?thesis using ih(3,4) by blast
  qed
qed

lemma merges_correct:
  assumes "chain h l1 cs None" and "chain h l2 es None" and "distinct (addrs (cs @ es))"
  shows "\<exists>g p. mergeTwoLists h l1 l2 = Some (g, p) \<and> mergeTwoLists2 h l1 l2 = Some (g, p) \<and>
    chain g p (merge_cells cs es) None \<and> (\<forall>a. a \<notin> set (addrs (cs @ es)) \<longrightarrow> g a = h a)"
proof (cases "cs = [] \<or> es = []")
  case True
  then have "chain h (if l1 \<noteq> None then l1 else l2) (merge_cells cs es) None" "l1 = None \<or> l2 = None"
    using assms(1,2) by (cases cs; cases es; auto)+
  then show ?thesis by (simp add: mergeTwoLists_def mergeTwoLists2_def)
next
  case False
  then obtain x y where l: "l1 = Some x" "l2 = Some y" using chain_null [OF assms(1)] chain_null [OF assms(2)] by auto
  have "same_end None Head None None" by (simp add: same_end_def)
  from merge_loops [OF built_Nil this assms(1,2)] assms(3) False
  obtain g p a r s dn rest where w:
    "cwhile (\<lambda>(h, head, node, l1, l2). Some (l1 \<noteq> None \<and> l2 \<noteq> None)) merge_step (h, None, Head, l1, l2) = Some (g, Some p, Next_of a, r, s)"
    "cwhile (\<lambda>(h, head, node, l1, l2). Some (l1 \<noteq> None \<and> l2 \<noteq> None)) merge_step2 (h, None, None, l1, l2) = Some (g, p, Some a, r, s)"
    "built g (Some p) (Next_of a) dn" "chain g (if r \<noteq> None then r else s) rest None" "dn @ rest = merge_cells cs es"
    "\<forall>a. a \<notin> set (addrs (cs @ es)) \<longrightarrow> g a = h a" by auto
  have "mset (addrs (dn @ rest)) = mset (addrs (cs @ es))" unfolding w(5) by simp
  then have d: "distinct (addrs (dn @ rest))" "set (addrs (dn @ rest)) = set (addrs (cs @ es))"
    using assms(3) by (metis mset_eq_imp_distinct_iff, metis mset_eq_setD)
  have "distinct (addrs dn)" "dn \<noteq> []" using d w(3) by (auto simp: built_def split: if_splits)
  with put_built [OF w(3), of "if r \<noteq> None then r else s"]
  obtain g' where g': "put_at (Next_of a) (if r \<noteq> None then r else s) (g, Some p) = Some (g', Some p)"
      "chain g' p dn (if r \<noteq> None then r else s)" "\<forall>b. b \<notin> set (addrs dn) \<longrightarrow> g' b = g b" by auto
  have "chain g' (if r \<noteq> None then r else s) rest None"
    using w(4) g'(3) d(1) by (subst chain_cong [of _ g' g]) auto
  with g'(2) w(5) have "chain g' p (merge_cells cs es) None" by (metis chain_append)
  moreover have "\<forall>b. b \<notin> set (addrs (cs @ es)) \<longrightarrow> g' b = h b" using g'(3) w(6) d(2) by auto
  moreover have "set_next g (Some a) (if r \<noteq> None then r else s) = Some g'" using g'(1) by (auto split: bind_splits simp del: access)
  ultimately show ?thesis using w(1,2) g'(1) unfolding l by (simp add: mergeTwoLists_def mergeTwoLists2_def del: access put_at.simps)
qed

section \<open>Turning groups\<close>

text \<open>Every full group of \<open>k\<close> is turned, the rest is kept.\<close>

function groups_turned :: "nat \<Rightarrow> 'a list \<Rightarrow> 'a list" where
  "groups_turned k xs = (if k = 0 \<or> length xs < k then xs else rev (take k xs) @ groups_turned k (drop k xs))"
  by pat_completeness auto
termination by (relation "measure (\<lambda>(k, xs). length xs)") auto

declare groups_turned.simps [simp del]

lemma groups_turned_short: "length xs < k \<Longrightarrow> groups_turned k xs = xs"
  by (simp add: groups_turned.simps)

lemma groups_turned_full: "0 < length gs \<Longrightarrow> groups_turned (length gs) (gs @ xs) = rev gs @ groups_turned (length gs) xs"
  by (subst groups_turned.simps) simp

lemma groups_turned_set [simp]: "set (groups_turned k xs) = set xs"
proof (induction k xs rule: groups_turned.induct)
  case (1 k xs)
  have "set (take k xs) \<union> set (drop k xs) = set xs" by (metis append_take_drop_id set_append)
  with 1 show ?case by (subst groups_turned.simps) (simp del: set_take_subset)
qed

text \<open>The lists at the start of a round: the groups that are turned, and the cells of the next group so far.\<close>

definition grouping :: "'a nodes \<Rightarrow> nat option \<Rightarrow> nat option \<Rightarrow> nat option \<Rightarrow> nat option \<Rightarrow>
    (nat \<times> 'a) list \<Rightarrow> (nat \<times> 'a) list \<Rightarrow> (nat \<times> 'a) list \<Rightarrow> bool" where
  "grouping h head new_head last_end beg ds gs cs \<longleftrightarrow>
     chain h new_head ds None \<and> last_end = (if ds = [] then None else Some (fst (last ds))) \<and>
     chain h beg gs head \<and> chain h head cs None \<and> distinct (addrs (ds @ gs @ cs))"

lemma full_group:
  assumes g: "grouping h (Some a) new_head last_end beg ds gs ((a, v) # cs)" and k: "int (Suc (length gs)) = k"
  shows "\<exists>g r n. group_step k (h, Some a, new_head, last_end, beg, int (length gs)) = Some (g, r, n, beg, r, 0) \<and>
    grouping g r n beg r (ds @ rev (gs @ [(a, v)])) [] cs \<and> (\<forall>b. b \<notin> set (addrs (ds @ gs @ [(a, v)])) \<longrightarrow> g b = h b)"
proof -
  obtain r where r: "h a = Some (v, r)" "chain h r cs None" using g by (auto simp: grouping_def)
  have c: "chain h new_head ds None" "chain h beg gs (Some a)" "distinct (addrs (ds @ gs @ (a, v) # cs))"
      "last_end = (if ds = [] then None else Some (fst (last ds)))"
    using g by (simp_all add: grouping_def)
  define h1 where "h1 = h(a \<mapsto> (v, None))"
  let ?gs = "gs @ [(a, v)]"
  have "chain h1 beg ?gs None" using c by (auto simp: chain_append h1_def)
  from reverse_correct [OF this] obtain h2 n where h2: "reverseList h1 beg = Some (h2, n)" "chain h2 n (rev ?gs) None"
    "\<forall>b. b \<notin> set (addrs ?gs) \<longrightarrow> h2 b = h1 b" by auto
  have ds2: "chain h2 new_head ds None" and cs2: "chain h2 r cs None"
  proof -
    have d: "set (addrs ds) \<inter> set (addrs ?gs) = {}" "set (addrs cs) \<inter> set (addrs ?gs) = {}" using c(3) by auto
    have e: "chain h1 new_head ds None" "chain h1 r cs None" using c(1,3) r(2) by (simp_all add: h1_def)
    show "chain h2 new_head ds None" "chain h2 r cs None"
      using chain_agree [OF h2(3) d(1) e(1)] chain_agree [OF h2(3) d(2) e(2)] .
  qed
  have beg: "beg = Some (fst (last (ds @ rev ?gs)))" using c(2) by (cases gs) auto
  have step: "set_next h (Some a) None = Some h1" "next_of h (Some a) = Some r" using r by (simp_all add: h1_def)
  show ?thesis
  proof (cases "ds = []")
    case True
    then have "new_head = None" using ds2 by simp
    then have "group_step k (h, Some a, new_head, last_end, beg, int (length gs)) = Some (h2, r, n, beg, r, 0)"
      using k step h2(1) by (simp add: group_step_def Let_def del: access)
    moreover have "grouping h2 r n beg r (ds @ rev ?gs) [] cs"
      using True h2(2) beg cs2 c(3) by (auto simp: grouping_def rev_map [symmetric])
    ultimately show ?thesis using h2(3) True by (auto simp: h1_def)
  next
    case False
    then obtain es b w where ds: "ds = es @ [(b, w)]" by (metis append_butlast_last_id prod.exhaust)
    have b: "b \<notin> set (addrs es)" "b \<notin> set (addrs ?gs)" "b \<notin> set (addrs cs)" using c(3) ds by auto
    from chain_set_last [OF ds2 [unfolded ds] b(1)]
    have h3: "h2 b = Some (w, None)" "chain (h2(b \<mapsto> (w, n))) new_head ds n" using ds by auto
    let ?h = "h2(b \<mapsto> (w, n))"
    obtain q where "new_head = Some q" using chain_null [OF ds2] False by auto
    then have "group_step k (h, Some a, new_head, last_end, beg, int (length gs)) = Some (?h, r, new_head, beg, r, 0)"
      using k step h2(1) h3(1) c(4) ds by (simp add: group_step_def Let_def) (simp add: h1_def r)
    moreover have "chain ?h new_head (ds @ rev ?gs) None" "chain ?h r cs None"
      using h3(2) h2(2) cs2 b by (auto simp: chain_append)
    then have "grouping ?h r new_head beg r (ds @ rev ?gs) [] cs"
      using beg c(3) by (auto simp: grouping_def rev_map [symmetric])
    ultimately show ?thesis using h2(3) ds by (auto simp: h1_def)
  qed
qed

definition group_loop :: "int \<Rightarrow> 'a nodes \<times> nat option \<times> nat option \<times> nat option \<times> nat option \<times> int \<Rightarrow>
    ('a nodes \<times> nat option \<times> nat option \<times> nat option \<times> nat option \<times> int) option" where
  "group_loop k = cwhile (\<lambda>(h, head, new_head, last_end, beg, idx). Some (head \<noteq> None)) (group_step k)"

lemma group_loop_step: "group_step k (h, Some a, s) = Some s' \<Longrightarrow> group_loop k (h, Some a, s) = group_loop k s'"
  unfolding group_loop_def by (rule cwhile_step) (cases s, simp)

lemma group_loop_end: "group_loop k (h, None, s) = Some (h, None, s)"
  unfolding group_loop_def by (rule cwhile_end) (cases s, simp)

lemma group_loop_correct:
  assumes "grouping h head new_head last_end beg ds gs cs" and "length gs < k"
  shows "\<exists>g n e b es rs. group_loop (int k) (h, head, new_head, last_end, beg, int (length gs)) = Some (g, None, n, e, b, int (length rs)) \<and>
    grouping g None n e b es rs [] \<and> es @ rs = ds @ groups_turned k (gs @ cs) \<and> length rs < k \<and>
    (es = [] \<longleftrightarrow> ds = [] \<and> length (gs @ cs) < k) \<and> (\<forall>a. a \<notin> set (addrs (ds @ gs @ cs)) \<longrightarrow> g a = h a)"
  using assms
proof (induction cs arbitrary: h head new_head last_end beg ds gs)
  case Nil
  then have "head = None" by (simp add: grouping_def)
  with Nil show ?case by (auto simp: group_loop_end groups_turned_short)
next
  case (Cons c cs)
  obtain a v where c: "c = (a, v)" by force
  then obtain r where r: "head = Some a" "h a = Some (v, r)" "chain h r cs None" using Cons.prems(1) by (auto simp: grouping_def)
  let ?s = "(h, head, new_head, last_end, beg, int (length gs))"
  show ?case
  proof (cases "Suc (length gs) = k")
    case True
    then have "int (Suc (length gs)) = int k" by simp
    from full_group [OF Cons.prems(1) [unfolded c r(1)] this] obtain g q n where g:
      "group_step (int k) ?s = Some (g, q, n, beg, q, 0)" "grouping g q n beg q (ds @ rev (gs @ [c])) [] cs"
      "\<forall>b. b \<notin> set (addrs (ds @ gs @ [c])) \<longrightarrow> g b = h b" unfolding c r(1) by blast
    have "group_loop (int k) ?s = group_loop (int k) (g, q, n, beg, q, 0)"
      using g(1) unfolding r(1) by (rule group_loop_step)
    moreover have "groups_turned k (gs @ c # cs) = rev (gs @ [c]) @ groups_turned k cs"
      using groups_turned_full [of "gs @ [c]" cs] True by simp
    moreover have "0 < k" using True by simp
    moreover have "\<not> length (gs @ c # cs) < k" using True by simp
    ultimately show ?thesis using Cons.IH [OF g(2)] g(3) by simp
  next
    case False
    have "group_step (int k) ?s = Some (h, r, new_head, last_end, beg, int (length (gs @ [c])))"
      using False r by (simp add: group_step_def Let_def)
    then have "group_loop (int k) ?s = group_loop (int k) (h, r, new_head, last_end, beg, int (length (gs @ [c])))"
      unfolding r(1) by (rule group_loop_step)
    moreover have "grouping h r new_head last_end beg ds (gs @ [c]) cs"
      using Cons.prems(1) r c by (auto simp: grouping_def chain_append)
    moreover have "length (gs @ [c]) < k" using False Cons.prems(2) by simp
    ultimately show ?thesis using Cons.IH [of h r new_head last_end beg ds "gs @ [c]"] by simp
  qed
qed

lemma reverseKGroup_correct:
  assumes "chain h p cs None"
  shows "2 \<le> k \<Longrightarrow> k \<le> length cs \<Longrightarrow> \<exists>g r. reverseKGroup h p (int k) = Some (g, r) \<and> chain g r (groups_turned k cs) None \<and>
      (\<forall>a. a \<notin> set (addrs cs) \<longrightarrow> g a = h a)"
    and "2 \<le> k \<Longrightarrow> length cs < k \<Longrightarrow> \<exists>g. reverseKGroup h p (int k) = Some (g, None)"
proof -
  have start: "grouping h p None None p [] [] cs" using assms chain_distinct [OF assms] by (simp add: grouping_def)
  have run: "\<exists>g n e b es rs. group_loop (int k) (h, p, None, None, p, 0) = Some (g, None, n, e, b, int (length rs)) \<and>
    grouping g None n e b es rs [] \<and> es @ rs = groups_turned k cs \<and> (es = [] \<longleftrightarrow> length cs < k) \<and>
    (\<forall>a. a \<notin> set (addrs cs) \<longrightarrow> g a = h a)" if "2 \<le> k"
    using group_loop_correct [OF start, of k] that by simp blast
  have code: "reverseKGroup h p (int k) = (if p = None then Some (h, None) else do {
      (h, head, new_head, last_end, beg, idx) \<leftarrow> group_loop (int k) (h, p, None, None, p, 0);
      h \<leftarrow> (if last_end \<noteq> None then set_next h last_end beg else Some h);
      Some (h, new_head) })" if "2 \<le> k"
    using that by (simp add: reverseKGroup_def group_loop_def)
  show "\<exists>g. reverseKGroup h p (int k) = Some (g, None)" if k: "2 \<le> k" "length cs < k"
    using run [OF k(1)] code [OF k(1)] k(2) by (auto simp: grouping_def)
  show "\<exists>g r. reverseKGroup h p (int k) = Some (g, r) \<and> chain g r (groups_turned k cs) None \<and> (\<forall>a. a \<notin> set (addrs cs) \<longrightarrow> g a = h a)"
    if k: "2 \<le> k" "k \<le> length cs"
  proof -
    obtain g n e b es rs where w: "group_loop (int k) (h, p, None, None, p, 0) = Some (g, None, n, e, b, int (length rs))"
      "grouping g None n e b es rs []" "es @ rs = groups_turned k cs" "es \<noteq> []" "\<forall>a. a \<notin> set (addrs cs) \<longrightarrow> g a = h a"
      using run [OF k(1)] k(2) by auto
    from w(4) obtain fs a v where es: "es = fs @ [(a, v)]" by (metis append_butlast_last_id prod.exhaust)
    with w(2) have c: "chain g n (fs @ [(a, v)]) None" "chain g b rs None" "e = Some a" "a \<notin> set (addrs fs)" "a \<notin> set (addrs rs)"
      by (auto simp: grouping_def)
    let ?g = "g(a \<mapsto> (v, b))"
    have g: "g a = Some (v, None)" "chain ?g n (es @ rs) None"
      using chain_set_last [OF c(1,4)] c(2,5) by (auto simp: es chain_append)
    moreover obtain q where "p = Some q" using chain_null [OF assms] k by (cases p) auto
    ultimately have "reverseKGroup h p (int k) = Some (?g, n)" using code [OF k(1)] w(1) c(3) by auto
    moreover have "a \<in> set (addrs cs)"
      using arg_cong [where f = set, OF w(3)] es by force
    ultimately show ?thesis using g(2) w(3,5) by auto
  qed
qed

section \<open>The end of a list\<close>

lemma advance_loop:
  assumes "chain h q cs None"
  shows "\<exists>r. cwhile (\<lambda>(i, fast). Some (i < k \<and> fast \<noteq> None)) (\<lambda>(i, fast). do { fast \<leftarrow> next_of h fast; Some (i + 1, fast) }) (i, q) =
      Some (if k \<le> i then i else min k (i + len cs), r) \<and> chain h r (drop (nat (k - i)) cs) None"
  using assms
proof (induction cs arbitrary: i q)
  case Nil
  then show ?case by (subst cwhile_end) auto
next
  case (Cons c cs)
  obtain a v where c: "c = (a, v)" by force
  with Cons.prems obtain r where r: "q = Some a" "h a = Some (v, r)" "chain h r cs None" by auto
  show ?case
  proof (cases "i < k")
    case True
    have "nat (k - i) = Suc (nat (k - (i + 1)))" using True by simp
    with Cons.IH [OF r(3), of "i + 1"] r(1,2) True show ?thesis by (subst cwhile_step) auto
  next
    case False
    then show ?thesis using Cons.prems by (subst cwhile_end) auto
  qed
qed

lemma advance_correct:
  assumes "chain h p cs None"
  shows "\<exists>r. advance h k p = Some (if k \<le> 0 then 0 else min k (len cs), r) \<and> chain h r (drop (nat k) cs) None"
  using advance_loop [OF assms, of k 0] unfolding advance_def by (cases "k \<le> 0") (simp_all del: not_None_eq)

text \<open>Two pointers that move together until the first is at the end.\<close>

lemma together_loop:
  assumes "chain h slow cs None" and "chain h fast ds None" and "length ds \<le> length cs"
  shows "\<exists>r. cwhile (\<lambda>(slow, fast). Some (fast \<noteq> None)) (\<lambda>(slow, fast). do { slow \<leftarrow> next_of h slow; fast \<leftarrow> next_of h fast; Some (slow, fast) })
      (slow, fast) = Some (r, None) \<and>
    cwhile (\<lambda>(fast, slow). Some (fast \<noteq> None)) (\<lambda>(fast, slow). do { fast \<leftarrow> next_of h fast; slow \<leftarrow> next_of h slow; Some (fast, slow) })
      (fast, slow) = Some (None, r) \<and> chain h r (drop (length ds) cs) None"
  using assms
proof (induction ds arbitrary: slow fast cs)
  case Nil
  then show ?case by (subst (1 2) cwhile_end) auto
next
  case (Cons d ds)
  obtain b w where d: "d = (b, w)" by force
  with Cons.prems obtain s where s: "fast = Some b" "h b = Some (w, s)" "chain h s ds None" by auto
  obtain a v cs' where cs: "cs = (a, v) # cs'" using Cons.prems(3) by (cases cs) auto
  with Cons.prems obtain r where r: "slow = Some a" "h a = Some (v, r)" "chain h r cs' None" by auto
  from Cons.IH [OF r(3) s(3)] Cons.prems(3) cs r(1,2) s(1,2) show ?case
    by (subst (1 2) cwhile_step) auto
qed

lemma chain_drop: "chain h q (drop n cs) None \<Longrightarrow> n < length cs \<Longrightarrow> q = Some (addrs cs ! n)"
  by (cases "cs ! n") (auto simp: Cons_nth_drop_Suc [symmetric])

lemma getKthFromEnd_correct:
  assumes "chain h p cs None"
  shows "getKthFromEnd h p k = Some (if 0 < k \<and> k \<le> len cs then Some (addrs cs ! (length cs - nat k)) else None)"
proof (cases "p = None \<or> k \<le> 0")
  case True
  then show ?thesis using assms by (auto simp: getKthFromEnd_def)
next
  case False
  obtain r where r: "advance h k p = Some (min k (len cs), r)" "chain h r (drop (nat k) cs) None"
    using advance_correct [OF assms, of k] False by auto
  have cs: "cs \<noteq> []" using False chain_null [OF assms] by simp
  show ?thesis
  proof (cases "k < len cs")
    case True
    then obtain x where x: "r = Some x" using chain_null [OF r(2)] False by (cases r) auto
    obtain s where s: "cwhile (\<lambda>(slow, fast). Some (fast \<noteq> None)) (\<lambda>(slow, fast). do { slow \<leftarrow> next_of h slow; fast \<leftarrow> next_of h fast; Some (slow, fast) })
        (p, r) = Some (s, None)" "chain h s (drop (length (drop (nat k) cs)) cs) None"
      using together_loop [OF assms r(2)] by auto
    have "s = Some (addrs cs ! (length cs - nat k))" using chain_drop [OF s(2)] True False cs by simp
    with s(1) r(1) True False x show ?thesis by (auto simp: getKthFromEnd_def)
  next
    case less: False
    then have "r = None" using chain_null [OF r(2)] by auto
    moreover have "p = Some (addrs cs ! 0)" using chain_drop [of h p 0 cs] assms cs by simp
    ultimately show ?thesis using r(1) False less by (auto simp: getKthFromEnd_def)
  qed
qed

lemma erase_loop:
  assumes "chain h start (as @ (a, v) # bs) None" and "a \<notin> set (addrs as)"
  shows "cwhile (\<lambda>(parent, start). Some (start \<noteq> None \<and> start \<noteq> Some a))
      (\<lambda>(parent, start). do { a \<leftarrow> start; start \<leftarrow> get_at (Next_of a) (h, Some head); Some (Next_of a, start) }) (parent, start) =
    Some (if as = [] then parent else Next_of (fst (last as)), Some a)"
  using assms
proof (induction as arbitrary: start parent)
  case Nil
  then show ?case by (subst cwhile_end) auto
next
  case (Cons c as)
  obtain b w where c: "c = (b, w)" by force
  with Cons.prems obtain r where r: "start = Some b" "h b = Some (w, r)" "chain h r (as @ (a, v) # bs) None" "b \<noteq> a" by auto
  from Cons.IH [OF r(3), of "Next_of b"] Cons.prems(2) r(1,2,4) c show ?case
    by (subst cwhile_step) auto
qed

lemma list_erase_correct:
  assumes "chain h p (as @ (a, v) # bs) None"
  shows "\<exists>g q. list_erase (h, p) (Some a) = Some (g, q) \<and> chain g q (as @ bs) None \<and> g a = None"
proof -
  have d: "distinct (addrs (as @ (a, v) # bs))" using chain_distinct [OF assms] .
  define parent where "parent = (if as = [] then Head else Next_of (fst (last as)))"
  have l: "cwhile (\<lambda>(parent, start). Some (start \<noteq> None \<and> start \<noteq> Some a))
      (\<lambda>(parent, start). do { a \<leftarrow> start; start \<leftarrow> get_at (Next_of a) (h, Some p); Some (Next_of a, start) }) (Head, p) = Some (parent, Some a)"
    using erase_loop [OF assms] d by (simp add: parent_def)
  obtain r where r: "chain h p as (Some a)" "h a = Some (v, r)" "chain h r bs None" using assms by (auto simp: chain_append)
  have "built h (Some p) parent as" using r(1) by (auto simp: built_def parent_def)
  from put_built [OF this, of r] d obtain g q where g: "put_at parent r (h, Some p) = Some (g, Some q)" "chain g q as r"
    "\<forall>b. b \<notin> set (addrs as) \<longrightarrow> g b = h b" by auto
  have "chain g r bs None" using d by (intro chain_agree [OF g(3) _ r(3)]) auto
  with g(2) d have "chain (g(a := None)) q (as @ bs) None" by (auto simp: chain_append)
  moreover have "list_erase (h, p) (Some a) = Some (g(a := None), q)"
    using l g(1) r(2) by (simp add: list_erase_def)
  ultimately show ?thesis by simp
qed

text \<open>The node is deleted when the list has it, and otherwise the list stays as it is.\<close>

lemma removeFromEnd_correct:
  assumes "chain h p cs None"
  shows "\<exists>g q. removeFromEnd (h, p) k = Some (g, q) \<and>
    chain g q (if 0 < k \<and> k \<le> len cs then take (length cs - nat k) cs @ drop (length cs - nat k + 1) cs else cs) None"
proof -
  obtain r where r: "advance h k p = Some (if k \<le> 0 then 0 else min k (len cs), r)" "chain h r (drop (nat k) cs) None"
    using advance_correct [OF assms] by blast
  obtain s where s: "cwhile (\<lambda>(fast, slow). Some (fast \<noteq> None)) (\<lambda>(fast, slow). do { fast \<leftarrow> next_of h fast; slow \<leftarrow> next_of h slow; Some (fast, slow) })
        (r, p) = Some (None, s)" "chain h s (drop (length (drop (nat k) cs)) cs) None"
    using together_loop [OF assms r(2)] by auto
  have r_null: "r = None \<longleftrightarrow> len cs \<le> int (nat k)" using chain_null [OF r(2)] by auto
  show ?thesis
  proof (cases "0 < k \<and> k \<le> len cs")
    case True
    define n where "n = length cs - nat k"
    then have n: "n < length cs" "length (drop (nat k) cs) = n" using True by auto
    obtain a v where av: "cs ! n = (a, v)" by force
    have split: "cs = take n cs @ (a, v) # drop (Suc n) cs" using id_take_nth_drop [OF n(1)] av by simp
    have "s = Some a" using chain_drop [OF s(2)] n av by simp
    with r(1) s(1) True r_null have "removeFromEnd (h, p) k = list_erase (h, p) (Some a)"
      by (auto simp: removeFromEnd_def)
    with list_erase_correct [of h p "take n cs" a v "drop (Suc n) cs"] assms split True show ?thesis
      by (auto simp: n_def [symmetric])
  next
    case False
    have "removeFromEnd (h, p) k = Some (h, p)"
    proof (cases "k \<le> 0")
      case True
      then have "s = None" using s(2) by simp
      with r(1) s(1) True show ?thesis by (auto simp: removeFromEnd_def list_erase_def)
    next
      case False
      then show ?thesis using \<open>\<not> (0 < k \<and> k \<le> len cs)\<close> r(1) r_null by (auto simp: removeFromEnd_def)
    qed
    with assms False show ?thesis by auto
  qed
qed

section \<open>Adding numbers\<close>

text \<open>The number of a list of digits, the lowest first.\<close>

fun number :: "int list \<Rightarrow> int" where
  "number [] = 0"
| "number (d # ds) = d + 10 * number ds"

lemma number_append: "number (ds @ es) = number ds + 10 ^ length ds * number es"
  by (induction ds) (simp_all add: algebra_simps)

abbreviation digits :: "(nat \<times> int) list \<Rightarrow> bool" where
  "digits cs \<equiv> \<forall>d \<in> set (map snd cs). 0 \<le> d \<and> d \<le> 9"

text \<open>
  The new nodes \<open>es\<close> are at addresses from \<open>fresh0\<close> on, where the store was free; below it the store is as it was.
\<close>

definition summing :: "int nodes \<Rightarrow> nat \<Rightarrow> int nodes \<times> nat option option \<times> place \<times> nat \<Rightarrow> (nat \<times> int) list \<Rightarrow> bool" where
  "summing h0 fresh0 = (\<lambda>(h, head, node, fresh) es.
     built h head node es \<and> distinct (addrs es) \<and> (\<forall>a \<in> set (addrs es). fresh0 \<le> a \<and> a < fresh) \<and> fresh0 \<le> fresh \<and>
     (\<forall>a. \<not> fresh0 \<le> a \<longrightarrow> h a = h0 a) \<and> digits es)"

lemma new_digit_correct:
  assumes "summing h0 f0 s es" and "0 \<le> d" "d \<le> 9"
  shows "\<exists>t e. new_digit d s = Some t \<and> summing h0 f0 t (es @ [(e, d)])"
proof -
  obtain h head node f where s: "s = (h, head, node, f)" by (cases s) auto
  let ?h = "h(f \<mapsto> (d, None))"
  have i: "built h head node es" "distinct (addrs es)" "f \<notin> set (addrs es)" "\<forall>a \<in> set (addrs es). f0 \<le> a \<and> a < f" "f0 \<le> f"
      "\<forall>a. \<not> f0 \<le> a \<longrightarrow> h a = h0 a" "digits es"
    using assms(1) unfolding s summing_def by auto
  have "built ?h head node es" using i(1,3) by (auto simp: built_def)
  from put_built [OF this i(2), of "Some f"] obtain g p where g: "put_at node (Some f) (?h, head) = Some (g, Some p)"
    "chain g p es (Some f)" "\<forall>a. a \<notin> set (addrs es) \<longrightarrow> g a = ?h a" by blast
  have "new_digit d s = Some (g, Some p, Next_of f, f + 1)" using g(1) by (simp add: new_digit_def s)
  moreover have "g f = Some (d, None)" using g(3) i(3) by simp
  then have "chain g p (es @ [(f, d)]) None" using g(2) by (simp add: chain_append)
  then have "built g (Some p) (Next_of f) (es @ [(f, d)])" by (auto simp: built_def)
  moreover have "\<forall>a. \<not> f0 \<le> a \<longrightarrow> g a = h0 a"
  proof (intro allI impI)
    fix a
    assume a: "\<not> f0 \<le> a"
    then have "a \<notin> set (addrs es)" using i(4) by blast
    moreover have "a \<noteq> f" using a i(5) by auto
    ultimately show "g a = h0 a" using g(3) i(6) a by simp
  qed
  moreover have "\<forall>a \<in> set (addrs (es @ [(f, d)])). f0 \<le> a \<and> a < f + 1" using i(4,5) by (auto simp: less_Suc_eq)
  moreover have "distinct (addrs (es @ [(f, d)]))" "f0 \<le> f + 1" "digits (es @ [(f, d)])" using i(2,3,5,7) assms(2,3) by auto
  ultimately show ?thesis unfolding summing_def by blast
qed

lemma summing_old:
  assumes "summing h0 f0 (h, head, node, f) es" and "\<forall>a \<in> set (addrs cs). a < f0" and "chain h0 p cs q"
  shows "chain h p cs q"
proof -
  have "\<forall>a. a \<notin> {a. f0 \<le> a} \<longrightarrow> h a = h0 a" using assms(1) by (simp add: summing_def)
  from chain_agree [OF this _ assms(3)] assms(2) show ?thesis by fastforce
qed

lemma carry:
  fixes t :: int
  assumes "0 \<le> t" and "t \<le> 19"
  shows "0 \<le> t mod 10" "t mod 10 \<le> 9" "0 \<le> t div 10" "t div 10 \<le> 1" "t mod 10 + 10 * (t div 10) = t" "cint t = Some t"
  using assms by (auto simp: cint_def int_limits)

lemma number_digit: "number (map snd (es @ [(e, m)])) + 10 ^ length (es @ [(e, m)]) * (q + n) =
    number (map snd es) + 10 ^ length es * ((m + 10 * q) + 10 * n)"
  by (simp add: number_append algebra_simps)

lemma add_left_loop:
  assumes "summing h0 f0 s es" and "chain h0 l cs None" and "\<forall>a \<in> set (addrs cs). a < f0" and "digits cs" and "0 \<le> k" "k \<le> 1"
  shows "\<exists>t j fs. cwhile (\<lambda>(s, k, l). Some (l \<noteq> None)) add_left (s, k, l) = Some (t, j, None) \<and> summing h0 f0 t fs \<and> 0 \<le> j \<and> j \<le> 1 \<and>
    number (map snd fs) + 10 ^ length fs * j = number (map snd es) + 10 ^ length es * (k + number (map snd cs))"
  using assms
proof (induction cs arbitrary: s es l k)
  case Nil
  then show ?case by (subst cwhile_end) auto
next
  case (Cons c cs)
  obtain a d where c: "c = (a, d)" by force
  with Cons.prems obtain r where r: "l = Some a" "h0 a = Some (d, r)" "chain h0 r cs None" by auto
  obtain h head node f where s: "s = (h, head, node, f)" by (cases s) auto
  have "h a = h0 a" using Cons.prems(1,3) c unfolding s summing_def by auto
  have d: "0 \<le> k + d" "k + d \<le> 19" using Cons.prems(4-6) c by auto
  obtain t e where t: "new_digit ((k + d) mod 10) s = Some t" "summing h0 f0 t (es @ [(e, (k + d) mod 10)])"
    using new_digit_correct [OF Cons.prems(1)] carry [OF d] by blast
  obtain g u where g: "t = (g, u)" by (cases t) auto
  have "g a = h0 a" using t(2) Cons.prems(3) c unfolding g summing_def by (cases u) auto
  then have "add_left (s, k, l) = Some (t, (k + d) div 10, r)"
    using t(1) r(1,2) \<open>h a = h0 a\<close> carry(6) [OF d] d(1) by (cases u) (simp add: add_left_def s g)
  then have "cwhile (\<lambda>(s, k, l). Some (l \<noteq> None)) add_left (s, k, l) = cwhile (\<lambda>(s, k, l). Some (l \<noteq> None)) add_left (t, (k + d) div 10, r)"
    using r(1) by (intro cwhile_step) simp_all
  moreover obtain t' j fs where "cwhile (\<lambda>(s, k, l). Some (l \<noteq> None)) add_left (t, (k + d) div 10, r) = Some (t', j, None)"
    "summing h0 f0 t' fs" "0 \<le> j" "j \<le> 1"
    "number (map snd fs) + 10 ^ length fs * j =
      number (map snd (es @ [(e, (k + d) mod 10)])) + 10 ^ length (es @ [(e, (k + d) mod 10)]) * ((k + d) div 10 + number (map snd cs))"
    using Cons.IH [OF t(2) r(3) _ _ carry(3,4) [OF d]] Cons.prems(3,4) by auto
  moreover have "number (map snd (es @ [(e, (k + d) mod 10)])) + 10 ^ length (es @ [(e, (k + d) mod 10)]) * ((k + d) div 10 + number (map snd cs)) =
      number (map snd es) + 10 ^ length es * (k + number (map snd (c # cs)))"
    unfolding number_digit carry(5) [OF d] by (simp add: c)
  ultimately show ?case by metis
qed

lemma add_both_loop:
  assumes "summing h0 f0 s es" and "chain h0 l cs None" and "chain h0 m ds None" and "\<forall>a \<in> set (addrs (cs @ ds)). a < f0"
    and "digits cs" and "digits ds" and "0 \<le> k" "k \<le> 1"
  shows "\<exists>t j fs l' m' xs. cwhile (\<lambda>(s, k, l1, l2). Some (l1 \<noteq> None \<and> l2 \<noteq> None)) add_both (s, k, l, m) = Some (t, j, l', m') \<and>
    summing h0 f0 t fs \<and> 0 \<le> j \<and> j \<le> 1 \<and> chain h0 (if l' \<noteq> None then l' else m') xs None \<and> set xs \<subseteq> set cs \<union> set ds \<and>
    number (map snd fs) + 10 ^ length fs * (j + number (map snd xs)) =
      number (map snd es) + 10 ^ length es * (k + (number (map snd cs) + number (map snd ds)))"
  using assms
proof (induction cs arbitrary: s es l m ds k)
  case Nil
  then have "l = None" by simp
  with Nil show ?case by (subst cwhile_end) auto
next
  case (Cons c cs)
  obtain a d where c: "c = (a, d)" by force
  with Cons.prems obtain r where r: "l = Some a" "h0 a = Some (d, r)" "chain h0 r cs None" by auto
  show ?case
  proof (cases ds)
    case Nil
    then have "m = None" using Cons.prems(3) by simp
    then have "cwhile (\<lambda>(s, k, l1, l2). Some (l1 \<noteq> None \<and> l2 \<noteq> None)) add_both (s, k, l, m) = Some (s, k, l, m)"
      by (intro cwhile_end) simp
    moreover have "chain h0 (if l \<noteq> None then l else m) (c # cs) None" using Cons.prems(2) r(1) by simp
    moreover have "set (c # cs) \<subseteq> set (c # cs) \<union> set ds" by blast
    moreover have "number (map snd (c # cs)) = number (map snd (c # cs)) + number (map snd ds)" using Nil by simp
    ultimately show ?thesis using Cons.prems(1,7,8) by metis
  next
    case ds: (Cons b' ds')
    obtain b w where b: "b' = (b, w)" by force
    with Cons.prems(3) ds obtain q where q: "m = Some b" "h0 b = Some (w, q)" "chain h0 q ds' None" by auto
    obtain h head node f where s: "s = (h, head, node, f)" by (cases s) auto
    have old: "h a = h0 a" "h b = h0 b" using Cons.prems(1,4) c b ds unfolding s summing_def by auto
    have d: "0 \<le> k + d + w" "k + d + w \<le> 19" "0 \<le> k + d" "k + d \<le> 19" using Cons.prems(5-8) c b ds by auto
    let ?d = "(k + d + w) mod 10" and ?k = "(k + d + w) div 10"
    obtain t e where t: "new_digit ?d s = Some t" "summing h0 f0 t (es @ [(e, ?d)])"
      using new_digit_correct [OF Cons.prems(1)] carry [OF d(1,2)] by blast
    obtain g u where g: "t = (g, u)" by (cases t) auto
    have "g a = h0 a" "g b = h0 b" using t(2) Cons.prems(4) c b ds unfolding g summing_def by (cases u; auto)+
    then have "add_both (s, k, l, m) = Some (t, ?k, r, q)"
      using t(1) r(1,2) q(1,2) old carry(6) [OF d(1,2)] carry(6) [OF d(3,4)] d(1) by (cases u) (simp add: add_both_def s g)
    then have "cwhile (\<lambda>(s, k, l1, l2). Some (l1 \<noteq> None \<and> l2 \<noteq> None)) add_both (s, k, l, m) =
        cwhile (\<lambda>(s, k, l1, l2). Some (l1 \<noteq> None \<and> l2 \<noteq> None)) add_both (t, ?k, r, q)"
      using r(1) q(1) by (intro cwhile_step) simp_all
    moreover obtain t' j fs l' m' xs where "cwhile (\<lambda>(s, k, l1, l2). Some (l1 \<noteq> None \<and> l2 \<noteq> None)) add_both (t, ?k, r, q) = Some (t', j, l', m')"
      "summing h0 f0 t' fs" "0 \<le> j" "j \<le> 1" "chain h0 (if l' \<noteq> None then l' else m') xs None" "set xs \<subseteq> set cs \<union> set ds'"
      "number (map snd fs) + 10 ^ length fs * (j + number (map snd xs)) =
        number (map snd (es @ [(e, ?d)])) + 10 ^ length (es @ [(e, ?d)]) * (?k + (number (map snd cs) + number (map snd ds')))"
      using Cons.IH [OF t(2) r(3) q(3) _ _ _ carry(3,4) [OF d(1,2)]] Cons.prems(4-6) ds by auto
    moreover have "number (map snd (es @ [(e, ?d)])) + 10 ^ length (es @ [(e, ?d)]) * (?k + (number (map snd cs) + number (map snd ds'))) =
        number (map snd es) + 10 ^ length es * (k + (number (map snd (c # cs)) + number (map snd ds)))"
      unfolding number_digit carry(5) [OF d(1,2)] by (simp add: c b ds)
    moreover have "set xs \<subseteq> set (c # cs) \<union> set ds" if "set xs \<subseteq> set cs \<union> set ds'" for xs :: "(nat \<times> int) list" using that ds by auto
    ultimately show ?thesis by metis
  qed
qed

text \<open>
  C39: \<open>addTwoNumbers\<close> adds: for two lists that end and hold the digits of two numbers, the lowest first, it returns a
  list of digits whose number is the sum, a last carry included, and changes no node that was there.
\<close>

theorem addTwoNumbers_correct:
  assumes "chain h l1 cs None" and "chain h l2 ds None" and "\<forall>a \<in> set (addrs (cs @ ds)). a < fresh" and "digits cs" and "digits ds"
  shows "\<exists>g f r es. addTwoNumbers h fresh l1 l2 = Some (g, f, r) \<and> chain g r es None \<and> digits es \<and>
    number (map snd es) = number (map snd cs) + number (map snd ds) \<and> (\<forall>a < fresh. g a = h a)"
proof (cases "l1 = None \<or> l2 = None")
  case True
  then show ?thesis using assms
    by (cases "l1 = None") (auto simp: addTwoNumbers_def)
next
  case False
  have "summing h fresh (h, Some None, Head, fresh) []" by (simp add: summing_def)
  from add_both_loop [OF this assms order_refl zero_le_one] obtain t j fs l m xs where
    b: "cwhile (\<lambda>(s, k, l1, l2). Some (l1 \<noteq> None \<and> l2 \<noteq> None)) add_both ((h, Some None, Head, fresh), 0, l1, l2) = Some (t, j, l, m)"
      "summing h fresh t fs" "0 \<le> j" "j \<le> 1" "chain h (if l \<noteq> None then l else m) xs None" "set xs \<subseteq> set cs \<union> set ds"
      "number (map snd fs) + 10 ^ length fs * (j + number (map snd xs)) =
        number (map snd ([] :: (nat \<times> int) list)) + 10 ^ length ([] :: (nat \<times> int) list) * (0 + (number (map snd cs) + number (map snd ds)))"
    by blast
  have "\<forall>c \<in> set cs \<union> set ds. fst c < fresh \<and> 0 \<le> snd c \<and> snd c \<le> 9" using assms(3-5) by auto
  with b(6) have "\<forall>c \<in> set xs. fst c < fresh \<and> 0 \<le> snd c \<and> snd c \<le> 9" by blast
  then have "\<forall>a \<in> set (addrs xs). a < fresh" "digits xs" by simp_all
  from add_left_loop [OF b(2,5) this b(3,4)] obtain u i es where
    l: "cwhile (\<lambda>(s, k, l). Some (l \<noteq> None)) add_left (t, j, if l \<noteq> None then l else m) = Some (u, i, None)"
      "summing h fresh u es" "0 \<le> i" "i \<le> 1"
      "number (map snd es) + 10 ^ length es * i = number (map snd cs) + number (map snd ds)"
    unfolding b(7) by auto
  have "\<exists>v gs. (if i > 0 then new_digit i u else Some u) = Some v \<and> summing h fresh v gs \<and>
      number (map snd gs) = number (map snd cs) + number (map snd ds)"
  proof (cases "i > 0")
    case True
    then obtain v e where "new_digit i u = Some v" "summing h fresh v (es @ [(e, i)])"
      using new_digit_correct [OF l(2), of i] l(4) by auto
    moreover have "number (map snd (es @ [(e, i)])) = number (map snd cs) + number (map snd ds)"
      unfolding l(5) [symmetric] by (simp add: number_append)
    ultimately show ?thesis using True by (metis (full_types))
  qed (use l in auto)
  then obtain g head node f gs where v: "(if i > 0 then new_digit i u else Some u) = Some (g, head, node, f)"
    "summing h fresh (g, head, node, f) gs" "number (map snd gs) = number (map snd cs) + number (map snd ds)" by (metis prod_cases4)
  then have "built g head node gs" "distinct (addrs gs)" by (auto simp: summing_def)
  from put_built [OF this, of None] obtain g' p where g: "put_at node None (g, head) = Some (g', Some p)" "chain g' p gs None"
    "\<forall>a. a \<notin> set (addrs gs) \<longrightarrow> g' a = g a" by blast
  have "\<forall>a < fresh. g' a = h a"
  proof (intro allI impI)
    fix a
    assume "a < fresh"
    moreover from this have "a \<notin> set (addrs gs)" using v(2) unfolding summing_def by auto
    ultimately show "g' a = h a" using g(3) v(2) unfolding summing_def by simp
  qed
  moreover have "addTwoNumbers h fresh l1 l2 = Some (g', f, p)"
    using b(1) l(1) v(1) g(1) False by (auto simp: addTwoNumbers_def)
  moreover have "digits gs" using v(2) by (simp add: summing_def)
  ultimately show ?thesis using g(2) v(3) by blast
qed

theorem addTwoNumbers_correct_witness:
  "\<exists>g f r es. addTwoNumbers [0 \<mapsto> (2, Some 1), 1 \<mapsto> (4, Some 2), 2 \<mapsto> (3, None), 3 \<mapsto> (5, Some 4), 4 \<mapsto> (6, Some 5), 5 \<mapsto> (7, None)]
      6 (Some 0) (Some 3) = Some (g, f, r) \<and> chain g r es None \<and> digits es \<and> number (map snd es) = 342 + 765"
proof -
  let ?h = "[0 \<mapsto> (2 :: int, Some 1), 1 \<mapsto> (4, Some 2), 2 \<mapsto> (3, None), 3 \<mapsto> (5, Some 4), 4 \<mapsto> (6, Some 5), 5 \<mapsto> (7, None :: nat option)]"
  have "chain ?h (Some 0) [(0, 2), (1, 4), (2, 3)] None" "chain ?h (Some 3) [(3, 5), (4, 6), (5, 7)] None" by simp_all
  from addTwoNumbers_correct [OF this, of 6] show ?thesis by auto
qed

section \<open>Properties\<close>

text \<open>
  C38: Both ways of merging, with two levels of pointers and with one, take any two lists that end and share no node,
  return the same list and leave the same store: the nodes of both lists, and in order when they were in order.
  No other node changes.
\<close>

theorem merging_correct:
  assumes "chain h l1 cs None" and "chain h l2 es None" and "distinct (addrs (cs @ es))"
  shows "\<exists>g p ms. mergeTwoLists h l1 l2 = Some (g, p) \<and> mergeTwoLists2 h l1 l2 = Some (g, p) \<and>
    chain g p ms None \<and> mset ms = mset cs + mset es \<and> (\<forall>a. a \<notin> set (addrs (cs @ es)) \<longrightarrow> g a = h a) \<and>
    (sorted (map snd cs) \<and> sorted (map snd es) \<longrightarrow> sorted (map snd ms))"
  using merges_correct [OF assms] merge_cells_mset [of cs es] merge_cells_sorted [of cs es] by blast

theorem merging_correct_witness:
  "\<exists>g p ms. mergeTwoLists [0 \<mapsto> (1 :: int, Some 1), 1 \<mapsto> (5, None), 2 \<mapsto> (3, None)] (Some 0) (Some 2) = Some (g, p) \<and>
    mergeTwoLists2 [0 \<mapsto> (1, Some 1), 1 \<mapsto> (5, None), 2 \<mapsto> (3, None)] (Some 0) (Some 2) = Some (g, p) \<and>
    chain g p ms None \<and> mset ms = {#(0, 1), (1, 5), (2, 3)#} \<and> sorted (map snd ms)"
proof -
  let ?h = "[0 \<mapsto> (1 :: int, Some 1), 1 \<mapsto> (5, None), 2 \<mapsto> (3, None :: nat option)]"
  have "chain ?h (Some 0) [(0, 1), (1, 5)] None" "chain ?h (Some 2) [(2, 3)] None" by simp_all
  from merging_correct [OF this] show ?thesis by (auto simp: add_mset_commute)
qed

text \<open>
  C15: \<open>findListCircle\<close> answers null on a list that ends; when some nodes lead to a circle it returns, finds the
  first node of the circle and opens it there, so that the list ends after its last node.  When the head itself
  is on the circle it never returns: its first loop ends only where the pointers meet away from the head.
\<close>

theorem findListCircle_correct:
  "(\<forall>cs. chain h p cs None \<longrightarrow> findListCircle h p = Some (h, None)) \<and>
   (\<forall>as bs. lasso h p as bs \<and> as \<noteq> [] \<longrightarrow>
      (\<exists>g. findListCircle h p = Some (g, Some (fst (hd bs))) \<and> chain g p (as @ bs) None)) \<and>
   (\<forall>bs. lasso h p [] bs \<longrightarrow> findListCircle h p = None)"
  using findListCircle_chain findListCircle_lasso findListCircle_circle by blast

lemma findListCircle_correct_witness:
  "(\<exists>g. findListCircle [0 \<mapsto> (5 :: int, Some 1), 1 \<mapsto> (6, Some 2), 2 \<mapsto> (7, Some 1)] (Some 0) = Some (g, Some 1) \<and>
      chain g (Some 0) [(0, 5), (1, 6), (2, 7)] None) \<and>
   findListCircle [0 \<mapsto> (5 :: int, None)] (Some 0) = Some ([0 \<mapsto> (5, None)], None) \<and>
   findListCircle [0 \<mapsto> (5 :: int, Some 0)] (Some 0) = None"
proof (intro conjI)
  have "lasso [0 \<mapsto> (5 :: int, Some 1), 1 \<mapsto> (6, Some 2), 2 \<mapsto> (7, Some 1)] (Some 0) [(0, 5)] [(1, 6), (2, 7)]" by (simp add: lasso_def)
  with findListCircle_correct [of "[0 \<mapsto> (5 :: int, Some 1), 1 \<mapsto> (6, Some 2), 2 \<mapsto> (7, Some 1)]" "Some 0"]
  show "\<exists>g. findListCircle [0 \<mapsto> (5 :: int, Some 1), 1 \<mapsto> (6, Some 2), 2 \<mapsto> (7, Some 1)] (Some 0) = Some (g, Some 1) \<and>
      chain g (Some 0) [(0, 5), (1, 6), (2, 7)] None" by force
  have "chain [0 \<mapsto> (5 :: int, None)] (Some 0) [(0, 5)] None" by simp
  with findListCircle_correct show "findListCircle [0 \<mapsto> (5 :: int, None)] (Some 0) = Some ([0 \<mapsto> (5, None)], None)" by blast
  have "lasso [0 \<mapsto> (5 :: int, Some 0)] (Some 0) [] [(0, 5)]" by (simp add: lasso_def)
  with findListCircle_correct show "findListCircle [0 \<mapsto> (5 :: int, Some 0)] (Some 0) = None" by blast
qed

text \<open>
  C28: \<open>reverseKGroup\<close> returns with the same nodes, every full group of \<open>k\<close> turned and the rest in order; the
  store is not changed elsewhere.  When \<open>k\<close> is greater than the length, which the comment above the code
  excludes, the answer is null.
\<close>

theorem reverseKGroup_turns_groups:
  assumes "chain h p cs None" and "2 \<le> k"
  shows "\<exists>g r. reverseKGroup h p (int k) = Some (g, r) \<and> (if k \<le> length cs
    then chain g r (groups_turned k cs) None \<and> (\<forall>a. a \<notin> set (addrs cs) \<longrightarrow> g a = h a) else r = None)"
  using reverseKGroup_correct [OF assms(1), of k] assms(2) by (cases "k \<le> length cs") auto

lemma reverseKGroup_turns_groups_witness:
  "\<exists>g r. reverseKGroup [0 \<mapsto> (5 :: int, Some 1), 1 \<mapsto> (6, Some 2), 2 \<mapsto> (7, None)] (Some 0) 2 = Some (g, r) \<and>
    chain g r [(1, 6), (0, 5), (2, 7)] None"
proof -
  have "groups_turned 2 [(0 :: nat, 5 :: int), (1, 6), (2, 7)] = [(1, 6), (0, 5), (2, 7)]"
    by (simp add: groups_turned.simps)
  moreover have "chain [0 \<mapsto> (5 :: int, Some 1), 1 \<mapsto> (6, Some 2), 2 \<mapsto> (7, None)] (Some 0) [(0, 5), (1, 6), (2, 7)] None" by simp
  ultimately show ?thesis
    using reverseKGroup_turns_groups [of "[0 \<mapsto> (5 :: int, Some 1), 1 \<mapsto> (6, Some 2), 2 \<mapsto> (7, None)]" "Some 0" "[(0, 5), (1, 6), (2, 7)]" 2]
    by (auto simp del: fun_upd_apply)
qed

end
