(* ===== verification/Spec2Isabelle.thy ===== *)
theory Spec2Isabelle
  imports Simple_Sorts Insert_Sort Quick_Sort_Correct Merge_Sort Heap_Sort Count_Radix Hash_Table_Correct AMQP_Pool AMQP_Connection_Errors AMQP_Hostcheck AMQP_URL AMQP_Time AVL_Tree Red_Black_Tree Time_Wheel LRU_Cache LFU_Cache Queue Stack Deque Priority_Queue KMP Monotone_Stack N_Queens List_Algorithms
begin

text \<open>
  A verification development of the data structures, the algorithms and the AMQP client of this
  repository.

  \<^bold>\<open>The program.\<close>  The repository is a toolbox of independent C and C++ modules.  The
  development models those that carry logic of their own:

  \<^item> \<open>Sort/\<close>: eighteen sorting routines over \<open>int\<close> arrays with a shared macro \<open>Swap\<close>.
  \<^item> \<open>hash_table.c\<close>: a chained hash table, its behaviour on keys and values given by a record of
    function pointers, and the stock functions for such records.
  \<^item> \<open>DataStruct/\<close>: a plain, an AVL and a red-black search tree under one abstract base class; queues,
    stacks and deques in arrays and in linked nodes; a priority queue.
  \<^item> \<open>LRU_Cache.h\<close>, \<open>LFU_Cache.h\<close>: caches that drop the entry used longest ago, or least often.
  \<^item> \<open>Algorithm/\<close>: solutions of exercises, of which the string search, the greatest segments, the four
    problems on monotone stacks, the queens and the routines on linked lists are modelled.
  \<^item> \<open>co/timewheel.c\<close>: a hierarchical time wheel for timers.
  \<^item> \<open>rabbitMQ_C/\<close>: the AMQP 0-9-1 client library with the repository's changes.  A table or method
    is encoded to bytes, put into a frame and sent; bytes that arrive go through the socket buffer
    into a state machine that cuts them into frames, decodes these into memory pools of their
    channels, and queues them for the caller.

  \<^bold>\<open>Conventions.\<close>  (\<open>Prelude\<close>)  A function that may abort, read outside an array, follow a null or
  freed pointer or overflow a signed integer is a computation in the option monad, and \<open>None\<close> is
  "no defined result": that a call returns \<open>Some\<close> is part of what is proved.  \<open>ok m P\<close> is the weakest
  precondition of such a computation.  Loops are \<open>cwhile\<close> (its value is \<open>None\<close> if it does not end; the rule
  \<open>cwhile_rule\<close> asks for an invariant and a measure) or the bounded \<open>for_up\<close> and \<open>for_down\<close>.  Arrays are
  lists with checked access (\<open>rd\<close>, \<open>wr\<close>).  C's \<open>int\<close> is a mathematical integer with the range checked
  where it matters (\<open>cint\<close>, and \<open>nint\<close> for one that is never negative); a cast to \<open>int\<close> that may lose bits is written
  out (\<open>int_of_size_t\<close>); a \<open>size_t\<close> that cannot wrap is a natural number, other unsigned and fixed-width integers are
  words.  Pointers to nodes that one
  owner holds are the trees or lists of what they own; where pointers are shared (the timers of the
  wheel, the iterators of the caches, the frames of the pools) there are explicit addresses.

  \<^bold>\<open>Sorting.\<close>  \<open>Sort_Base\<close> holds \<open>Swap\<close> and what it means to sort a segment in place; \<open>Simple_Sorts\<close>
  (\<open>bubble_sort.c\<close>, \<open>select_sort.c\<close>), \<open>Insert_Sort\<close>, \<open>Quick_Sort\<close> and \<open>Quick_Sort_Correct\<close>, \<open>Merge_Sort\<close>,
  \<open>Heap_Sort\<close>, \<open>Counting\<close> and \<open>Count_Radix\<close> have one definition for each C function.  The lemmas
  show, for each routine, that it returns, stays inside its arrays, does not overflow and leaves a sorted
  permutation, under the hypotheses the code needs (a non-empty array where it reads the first
  element, at most \<open>2^30\<close> elements where an index is doubled, a bounded spread where counts are
  indexed by differences), and for four routines what goes wrong without them.  \<open>malloc\<close>ed memory is a
  parameter: a list of arbitrary values.

  \<^bold>\<open>The hash table.\<close>  \<open>Hash_Table\<close> models \<open>hash_table.c\<close>; \<open>Hash_Table_Correct\<close> states what the function
  pointers must promise (locale \<open>hash_type\<close>), the invariant (a power of two of chains, every entry in the
  chain of its hash, load at most 75 percent) and the refinement to finite maps.  Whether an
  allocation succeeds is an argument.

  \<^bold>\<open>Search trees.\<close>  \<open>Search_Tree\<close> has the nodes, the sorted list of entries they stand for, searching
  and neighbours; \<open>Tree_Traversal\<close> the recursive and iterative traversals; \<open>Binary_Search_Tree\<close>
  the base class as the locales \<open>dictionary\<close> and \<open>erasable_dictionary\<close>, with the plain tree as an
  instance; \<open>AVL_Tree\<close> and \<open>Red_Black_Tree\<close> the balanced ones, with the balance invariants, the
  logarithmic height, and the deletions that lose the balance.  A tree with parent pointers is a subtree
  with the path of frames above it.

  \<^bold>\<open>Caches.\<close>  \<open>Cache\<close> is the interface (locale \<open>cache\<close>: a bounded map that may forget); \<open>LRU_Cache\<close> and
  \<open>LFU_Cache\<close> model the lists with identities for their iterators, and refine a list in the order of last use
  and a list of counted entries.

  \<^bold>\<open>Containers.\<close>  \<open>Containers\<close> has the interfaces (the locales \<open>sequence\<close>, \<open>fifo\<close>, \<open>lifo\<close> and \<open>deque\<close>, a deque
  being a queue in both directions and a stack at both ends), arrays of objects that remember which
  objects were destroyed, and linked nodes; \<open>Queue\<close>, \<open>Stack\<close> and \<open>Deque\<close> (\<open>queue.hpp\<close>, \<open>stack.hpp\<close>, \<open>deque.hpp\<close>)
  show that every sequence of operations answers as one on lists, up to \<open>2^30\<close> operations where a capacity is
  computed as an \<open>int\<close> (\<open>room\<close> in the locales) and for elements whose destructor does nothing; with others the arrays
  assign to destroyed objects.  \<open>Priority_Queue\<close> (\<open>priority_queue.hpp\<close>)
  has the binary heap, with the locale \<open>bag_queue\<close> over the multiset of its elements, up to \<open>2^30\<close> of them.

  \<^bold>\<open>Algorithms.\<close>  \<open>KMP\<close> (\<open>KMP_Algorithm.cpp\<close>): the table holds the longest borders, and the search is the plain
  one.  \<open>Max_Subarray\<close> (\<open>maxSubArray.cpp\<close>): the greatest sum, found in two ways, and the greatest product of a
  segment.  \<open>Monotone_Stack\<close> (\<open>Sigle_Stack.cpp\<close>): one loop rule for the four routines, whose stack holds the
  indices after which nothing greater came.  \<open>N_Queens\<close> (\<open>Nqueue_Quest.cpp\<close>): the search counts all placements.
  \<open>List_Algorithms\<close> (\<open>ListAgorithm.cpp\<close>): linked nodes in a store; Floyd's search for a circle with its lasso,
  merging, turning groups, adding numbers, the end of a list.

  \<^bold>\<open>The time wheel.\<close>  \<open>Time_Wheel\<close>: timers in a store, lists of addresses, a log of the calls of
  handlers and a list of readings of the clock.  A timer alone in a fresh wheel is called exactly at
  its time, by an invariant that says in which list of which level it may be at a given tick.

  \<^bold>\<open>AMQP.\<close>  \<open>AMQP_Base\<close>: byte strings, status codes, integers on the wire.  \<open>AMQP_Table\<close> and
  \<open>AMQP_Table_Correct\<close> (\<open>amqp_table.c\<close>): on tables that AMQP can represent the encoder refines a wire format
  \<open>wire_table\<close>, the decoder is safe on all bytes, and they are inverse to each other; the decoder ends because a value
  takes at least one byte.  A status \<open>UNDEFINED\<close> marks where its count of entries, an \<open>int\<close>, would overflow: beyond
  \<open>2^30\<close> entries.
  \<open>AMQP_Codec\<close>, \<open>AMQP_Methods\<close>, \<open>AMQP_Decode\<close>, \<open>AMQP_Encode\<close>, \<open>AMQP_Properties\<close>, \<open>AMQP_Framing_Correct\<close>
  and \<open>AMQP_Properties_Correct\<close> (\<open>amqp_framing.c\<close>): all 64 methods and the content header properties, with
  the locale \<open>wire_codec\<close> for the contract of one decoder with its encoder.  \<open>AMQP_Pool\<close> (\<open>amqp_mem.c\<close>):
  the pools, with the pages as address ranges.  \<open>AMQP_Connection\<close>,
  \<open>AMQP_Connection_Correct\<close>, \<open>AMQP_Stream\<close>, \<open>AMQP_Frame_Correct\<close> and \<open>AMQP_Connection_Errors\<close>
  (\<open>amqp_connection.c\<close> and the buffer of \<open>amqp_socket.c\<close>): the receiving state machine refines a receiver
  that knows only the bytes received so far; whatever the sizes of the reads, the frames of a stream
  are queued whole and in order; frames written by \<open>amqp_frame_to_bytes\<close> arrive.  What the socket delivers is
  a parameter (the list of its reads), and so is the memory a pool returns.  \<open>C_String\<close> has the strings of C,
  as lists without the final zero; on it, \<open>AMQP_Hostcheck\<close> (\<open>amqp_hostcheck.c\<close>) matches certificate names with
  wildcards and \<open>AMQP_URL\<close> (\<open>amqp_url.c\<close>) parses addresses in place; \<open>AMQP_Time\<close> (\<open>amqp_time.c\<close>) has the deadlines.

  \<^bold>\<open>Properties.\<close>  The claims \<open>C1\<close> to \<open>C40\<close> stand in the theories of their components, in the order of
  importance; each that has hypotheses is followed by a witness that applies it.  Further theorems (other
  failures, smaller routines) stand beside them.

  \<^bold>\<open>Not modelled.\<close>  The sockets (plain and TLS), polling, heartbeats, login and the remote calls of the
  client library; the coroutines (assembler) and the reactor; the logging, the HTTP, Consul, Apollo and
  Redis clients, which are calls of libraries outside the repository; the other exercises of \<open>Algorithm/\<close>;
  the vendored \<open>json.hpp\<close>,
  \<open>spdlog/\<close> and \<open>include/\<close>; the test programs.  Destructors are modelled only for the linked stack and the linked
  deque; elsewhere the models are of values, with an owner for each node.
\<close>

end
